(* ===== verification/Prelude.thy ===== *)
theory Prelude
  imports Main "HOL-Library.Word" "HOL-Library.Monad_Syntax"
begin

unbundle bit_operations_syntax

text \<open>
  Shared vocabulary of the development: machine integers, byte buffers with checked access,
  C strings, the character classes of the C locale, status codes of \<open>include/Common.h\<close>, and
  the scanning loop that every parser of the library repeats. A read or write outside a buffer is
  the value \<open>None\<close>, so a definition that returns \<open>Some\<close> has touched allocated bytes only.
\<close>

section \<open>Collections of simplification rules\<close>

named_theorems mem_simps \<open>facts about checked buffer access\<close>
named_theorems ctype_simps \<open>facts about character classes\<close>

section \<open>Machine integers\<close>

type_synonym u8 = "8 word"
type_synonym u16 = "16 word"
type_synonym u32 = "32 word"
type_synonym u64 = "64 word"
type_synonym bytes = "u8 list"

abbreviation ch :: "char \<Rightarrow> u8" where
  "ch c \<equiv> of_char c"

abbreviation str :: "string \<Rightarrow> bytes" where
  "str s \<equiv> map of_char s"

lemma ucast_u32_eq_0_iff: "(ucast (x :: u8) :: u32) = 0 \<longleftrightarrow> x = 0"
proof
  assume eq: "(ucast x :: u32) = 0"
  show "x = 0"
  proof (rule bit_word_eqI)
    fix n
    assume "n < LENGTH(8)"
    moreover have "bit (ucast x :: u32) n = bit (0 :: u32) n" using eq by simp
    ultimately show "bit x n = bit (0 :: u8) n" by (simp add: bit_ucast_iff)
  qed
qed simp

lemma xor_eq_0_iff: "x XOR y = 0 \<longleftrightarrow> x = y" for x y :: "'a::len word"
proof
  assume "x XOR y = 0"
  then have "(x XOR y) XOR y = 0 XOR y" by (rule arg_cong)
  then show "x = y" by (simp only: xor.assoc xor_self_eq xor.right_neutral xor.left_neutral)
qed simp

text \<open>Widening and narrowing again is the identity.\<close>

lemma ucast_ucast_id:
  assumes "LENGTH('a::len) \<le> LENGTH('b::len)"
  shows "(ucast (ucast (w :: 'a word) :: 'b word) :: 'a word) = w"
  by (rule bit_word_eqI) (use assms in \<open>auto simp: bit_ucast_iff\<close>)

section \<open>Status codes\<close>

type_synonym OSStatus = int

abbreviation kNoErr :: OSStatus where "kNoErr \<equiv> 0"
abbreviation kGeneralErr :: OSStatus where "kGeneralErr \<equiv> - 1"
abbreviation kUnknownErr :: OSStatus where "kUnknownErr \<equiv> - 6700"
abbreviation kParamErr :: OSStatus where "kParamErr \<equiv> - 6705"
abbreviation kRequestErr :: OSStatus where "kRequestErr \<equiv> - 6711"
abbreviation kRangeErr :: OSStatus where "kRangeErr \<equiv> - 6710"
abbreviation kChecksumErr :: OSStatus where "kChecksumErr \<equiv> - 6713"
abbreviation kDeletedErr :: OSStatus where "kDeletedErr \<equiv> - 6726"
abbreviation kNotFoundErr :: OSStatus where "kNotFoundErr \<equiv> - 6727"
abbreviation kNoMemoryErr :: OSStatus where "kNoMemoryErr \<equiv> - 6728"
abbreviation kUnsupportedErr :: OSStatus where "kUnsupportedErr \<equiv> - 6735"
abbreviation kNotReadableErr :: OSStatus where "kNotReadableErr \<equiv> - 6738"
abbreviation kMalformedErr :: OSStatus where "kMalformedErr \<equiv> - 6742"
abbreviation kNotPreparedErr :: OSStatus where "kNotPreparedErr \<equiv> - 6745"
abbreviation kWriteErr :: OSStatus where "kWriteErr \<equiv> - 6747"
abbreviation kUnderrunErr :: OSStatus where "kUnderrunErr \<equiv> - 6750"
abbreviation kConnectionErr :: OSStatus where "kConnectionErr \<equiv> - 6753"
abbreviation kTypeErr :: OSStatus where "kTypeErr \<equiv> - 6756"
abbreviation kPermissionErr :: OSStatus where "kPermissionErr \<equiv> - 6773"
abbreviation kTimeoutErr :: OSStatus where "kTimeoutErr \<equiv> - 6722"

section \<open>Checked buffer access\<close>

definition rd :: "bytes \<Rightarrow> nat \<Rightarrow> u8 option" where
  "rd b i = (if i < length b then Some (b ! i) else None)"

definition wr :: "bytes \<Rightarrow> nat \<Rightarrow> u8 \<Rightarrow> bytes option" where
  "wr b i v = (if i < length b then Some (b[i := v]) else None)"

text \<open>\<open>blit dst i src\<close> is \<open>memcpy(dst + i, src, length src)\<close>.\<close>

definition blit :: "bytes \<Rightarrow> nat \<Rightarrow> bytes \<Rightarrow> bytes option" where
  "blit dst i src =
     (if i + length src \<le> length dst
      then Some (take i dst @ src @ drop (i + length src) dst) else None)"

definition slice :: "'a list \<Rightarrow> nat \<Rightarrow> nat \<Rightarrow> 'a list" where
  "slice b i n = take n (drop i b)"

text \<open>\<open>memcpy(dst + i, src + j, n)\<close> between two buffers.\<close>

definition memcpy :: "bytes \<Rightarrow> nat \<Rightarrow> bytes \<Rightarrow> nat \<Rightarrow> nat \<Rightarrow> bytes option" where
  "memcpy dst i src j n = (if j + n \<le> length src then blit dst i (slice src j n) else None)"

text \<open>\<open>a % b\<close> of C, undefined for \<open>b = 0\<close>.\<close>

definition umod :: "'a::len word \<Rightarrow> 'a word \<Rightarrow> 'a word option" where
  "umod a b = (if b = 0 then None else Some (a mod b))"

lemma rd_Some_iff [mem_simps]: "rd b i = Some v \<longleftrightarrow> i < length b \<and> v = b ! i"
  by (auto simp: rd_def)

lemma rd_None_iff [mem_simps]: "rd b i = None \<longleftrightarrow> length b \<le> i"
  by (auto simp: rd_def)

lemma wr_Some_iff [mem_simps]: "wr b i v = Some b' \<longleftrightarrow> i < length b \<and> b' = b[i := v]"
  by (auto simp: wr_def)

lemma wr_None_iff [mem_simps]: "wr b i v = None \<longleftrightarrow> length b \<le> i"
  by (auto simp: wr_def)

lemma blit_Some_iff [mem_simps]:
  "blit d i s = Some d' \<longleftrightarrow>
     i + length s \<le> length d \<and> d' = take i d @ s @ drop (i + length s) d"
  by (auto simp: blit_def)

lemma length_blit: "blit d i s = Some d' \<Longrightarrow> length d' = length d"
  by (auto simp: mem_simps)

lemma length_slice [simp]: "length (slice b i n) = min n (length b - i)"
  by (simp add: slice_def min.commute)

lemma slice_Nil [simp]: "slice b i 0 = []"
  by (simp add: slice_def)

lemma slice_nth: "k < n \<Longrightarrow> i + n \<le> length b \<Longrightarrow> slice b i n ! k = b ! (i + k)"
  by (simp add: slice_def)

lemma slice_append: "i + m + n \<le> length b \<Longrightarrow> slice b i m @ slice b (i + m) n = slice b i (m + n)"
  by (simp add: slice_def take_add add.commute)

lemma slice_all [simp]: "slice b 0 (length b) = b"
  by (simp add: slice_def)

lemma slice_mid: "length u = i \<Longrightarrow> n = length m \<Longrightarrow> slice (u @ m @ r) i n = m"
  by (simp add: slice_def)

lemma slice_take: "i + n \<le> k \<Longrightarrow> slice (take k b) i n = slice b i n"
  by (simp add: slice_def drop_take min_def)

lemma slice_blit_same: "blit d i s = Some d' \<Longrightarrow> slice d' i (length s) = s"
  by (auto simp: mem_simps slice_def)

lemma slice_blit_before: "blit d i s = Some d' \<Longrightarrow> j + n \<le> i \<Longrightarrow> slice d' j n = slice d j n"
  by (rule nth_equalityI) (auto simp: mem_simps slice_def nth_append)

lemma slice_blit_after:
  "blit d i s = Some d' \<Longrightarrow> i + length s \<le> j \<Longrightarrow> slice d' j n = slice d j n"
  by (auto simp: mem_simps slice_def)

lemma memcpy_Some_iff [mem_simps]:
  "memcpy d i s j n = Some d' \<longleftrightarrow> j + n \<le> length s \<and> i + n \<le> length d \<and>
     d' = take i d @ slice s j n @ drop (i + n) d"
  by (auto simp: memcpy_def mem_simps)

lemma memcpy_nth:
  assumes "memcpy d i s j n = Some d'" and "k < length d"
  shows "d' ! k = (if i \<le> k \<and> k < i + n then s ! (j + (k - i)) else d ! k)"
  using assms by (auto simp: mem_simps nth_append slice_nth)

section \<open>C strings\<close>

text \<open>
  The characters of a NUL-terminated string that starts a buffer; \<open>None\<close> when the buffer has
  no terminator, so that a C loop over it would run off the allocation.
\<close>

fun c_string :: "bytes \<Rightarrow> bytes option" where
  "c_string [] = None"
| "c_string (c # cs) = (if c = 0 then Some [] else map_option (Cons c) (c_string cs))"

definition c_strlen :: "bytes \<Rightarrow> nat option" where
  "c_strlen b = map_option length (c_string b)"

lemma c_string_append_NUL [simp]: "0 \<notin> set s \<Longrightarrow> c_string (s @ 0 # t) = Some s"
  by (induction s) auto

lemma c_string_SomeD:
  assumes "c_string b = Some s"
  shows "0 \<notin> set s \<and> (\<exists>t. b = s @ 0 # t)"
  using assms
proof (induction b arbitrary: s)
  case (Cons c b)
  show ?case
  proof (cases "c = 0")
    case True
    with Cons.prems show ?thesis by auto
  next
    case False
    with Cons.prems obtain s' where "c_string b = Some s'" "s = c # s'" by auto
    with Cons.IH [of s'] False show ?thesis by auto
  qed
qed simp

section \<open>Character classes of the C locale\<close>

definition isdigit :: "u8 \<Rightarrow> bool" where
  "isdigit c \<longleftrightarrow> 0x30 \<le> c \<and> c \<le> 0x39"

definition isxdigit :: "u8 \<Rightarrow> bool" where
  "isxdigit c \<longleftrightarrow> isdigit c \<or> (0x41 \<le> c \<and> c \<le> 0x46) \<or> (0x61 \<le> c \<and> c \<le> 0x66)"

definition isspace :: "u8 \<Rightarrow> bool" where
  "isspace c \<longleftrightarrow> c = 0x20 \<or> (0x09 \<le> c \<and> c \<le> 0x0D)"

definition tolower :: "u8 \<Rightarrow> u8" where
  "tolower c = (if 0x41 \<le> c \<and> c \<le> 0x5A then c + 0x20 else c)"

definition toupper :: "u8 \<Rightarrow> u8" where
  "toupper c = (if 0x61 \<le> c \<and> c \<le> 0x7A then c - 0x20 else c)"

lemma tolower_eq_0_iff [ctype_simps]: "tolower c = 0 \<longleftrightarrow> c = 0"
proof -
  have "c + 0x20 \<noteq> 0" if "0x41 \<le> c" "c \<le> 0x5A"
  proof -
    have "65 \<le> unat c" "unat c \<le> 90"
      using that by (simp_all add: word_le_nat_alt)
    then have "unat (c + 0x20) = unat c + 32" by (simp add: unat_word_ariths)
    then show ?thesis by auto
  qed
  then show ?thesis by (auto simp: tolower_def)
qed

lemma isspace_not_NUL [ctype_simps]: "\<not> isspace 0"
  by (simp add: isspace_def)

lemma isdigit_not_NUL [ctype_simps]: "\<not> isdigit 0"
  by (simp add: isdigit_def)

section \<open>The scanning loop\<close>

text \<open>
  \<open>while( ( i < e ) && !p( b[ i ] ) ) ++i;\<close> over the bytes of a buffer: the least index of
  \<open>[i, e)\<close> whose byte satisfies \<open>p\<close>, or \<open>e\<close>.
\<close>

function scan :: "(u8 \<Rightarrow> bool) \<Rightarrow> bytes \<Rightarrow> nat \<Rightarrow> nat \<Rightarrow> nat" where
  "scan p b i e = (if i < e \<and> \<not> p (b ! i) then scan p b (Suc i) e else i)"
  by pat_completeness auto
termination
  by (relation "measure (\<lambda>(p, b, i, e). e - i)") auto

declare scan.simps [simp del]

lemma scan_ge: "i \<le> scan p b i e"
proof (induction p b i e rule: scan.induct)
  case (1 p b i e)
  then show ?case by (cases "i < e \<and> \<not> p (b ! i)") (auto simp: scan.simps [of p b i e])
qed

lemma scan_le: "i \<le> e \<Longrightarrow> scan p b i e \<le> e"
proof (induction p b i e rule: scan.induct)
  case (1 p b i e)
  then show ?case by (cases "i < e \<and> \<not> p (b ! i)") (auto simp: scan.simps [of p b i e])
qed

lemma scan_stop: "scan p b i e < e \<Longrightarrow> p (b ! scan p b i e)"
proof (induction p b i e rule: scan.induct)
  case (1 p b i e)
  then show ?case by (cases "i < e \<and> \<not> p (b ! i)") (auto simp: scan.simps [of p b i e])
qed

lemma scan_skip: "i \<le> k \<Longrightarrow> k < scan p b i e \<Longrightarrow> \<not> p (b ! k)"
proof (induction p b i e rule: scan.induct)
  case (1 p b i e)
  show ?case
  proof (cases "i < e \<and> \<not> p (b ! i)")
    case True
    with "1.prems" have "k = i \<or> Suc i \<le> k" by auto
    with True "1.IH" "1.prems" show ?thesis by (auto simp: scan.simps [of p b i e])
  next
    case False
    with "1.prems" show ?thesis by (auto simp: scan.simps [of p b i e])
  qed
qed

text \<open>The loop is determined by these facts: the index they describe is the one returned.\<close>

lemma scan_eqI:
  assumes "i \<le> k" and "k \<le> e" and "\<And>j. i \<le> j \<Longrightarrow> j < k \<Longrightarrow> \<not> p (b ! j)"
    and "k < e \<Longrightarrow> p (b ! k)"
  shows "scan p b i e = k"
proof (rule antisym)
  show "scan p b i e \<le> k"
  proof (rule ccontr)
    assume "\<not> scan p b i e \<le> k"
    then have "\<not> p (b ! k)" using assms(1) by (intro scan_skip [of i k p b e]) auto
    moreover have "k < e"
      using \<open>\<not> scan p b i e \<le> k\<close> assms(1,2) scan_le [of i e p b] by simp
    ultimately show False using assms(4) by blast
  qed
  show "k \<le> scan p b i e"
  proof (rule ccontr)
    assume "\<not> k \<le> scan p b i e"
    then have "p (b ! scan p b i e)" using assms(2) by (intro scan_stop [of p b i e]) auto
    moreover have "\<not> p (b ! scan p b i e)"
      using \<open>\<not> k \<le> scan p b i e\<close> by (intro assms(3)) (auto intro: scan_ge)
    ultimately show False by blast
  qed
qed

lemma scan_empty [simp]: "scan p b e e = e"
  by (subst scan.simps) simp

text \<open>The loop stops at the first character that satisfies the predicate.\<close>

lemma scan_find:
  assumes "b = u @ m @ x # r" "\<forall>c \<in> set m. \<not> p c" "p x" "length u = i" "i + length m < e"
  shows "scan p b i e = i + length m"
proof (rule scan_eqI)
  show "\<not> p (b ! j)" if "i \<le> j" "j < i + length m" for j
  proof -
    have "b ! j = m ! (j - i)" "j - i < length m" using that assms(1,4) by (auto simp: nth_append)
    then show ?thesis using assms(2) by simp
  qed
  show "p (b ! (i + length m))" using assms(1,3,4) by (simp add: nth_append)
qed (use assms in auto)

lemma scan_none:
  assumes "b = u @ m" "\<forall>c \<in> set m. \<not> p c" "length u = i" "e = length b"
  shows "scan p b i e = e"
  by (rule scan_eqI) (use assms in \<open>auto simp: nth_append\<close>)

lemmas scan_bounds = scan_ge scan_le

end
