(* ===== verification/CheckSum.thy ===== *)
theory CheckSum
  imports Prelude "HOL-Library.While_Combinator"
begin

text \<open>
  The checksums of \<open>libraries/utilities/CheckSumUtils.c\<close>: the table-driven CRC-8 and the
  bit-serial CRC-16 that guards the stored parameters, the OTA image and the YMODEM packets.
  A pointer with a length is the list of the bytes it denotes. The lemmas relate the table to the
  bitwise CRC-8, the augmented bit-serial CRC-16 to the usual CRC-CCITT register, and show that
  both are independent of how the data is cut into calls and that CRC-16 notices every change of
  a single byte.
\<close>

section \<open>Interface: a digest fed piece by piece\<close>

text \<open>What the callers that read flash in blocks rely on.\<close>

locale digest =
  fixes upd :: "'s \<Rightarrow> bytes \<Rightarrow> 's"
  assumes upd_Nil: "upd s [] = s"
    and upd_append: "upd s (a @ b) = upd (upd s a) b"
begin

lemma upd_concat: "foldl upd s bs = upd s (concat bs)"
proof (induction bs arbitrary: s)
  case Nil
  show ?case by (simp add: upd_Nil)
next
  case (Cons b bs)
  then show ?case by (simp add: upd_append)
qed

lemma upd_take_drop: "upd (upd s (take n b)) (drop n b) = upd s b"
  by (metis append_take_drop_id upd_append)

end

section \<open>CRC-8\<close>

definition mico_CRC8Table :: "u8 list" where
  "mico_CRC8Table =
     [0, 94, 188, 226, 97, 63, 221, 131, 194, 156, 126, 32, 163, 253, 31, 65,
      157, 195, 33, 127, 252, 162, 64, 30, 95, 1, 227, 189, 62, 96, 130, 220,
      35, 125, 159, 193, 66, 28, 254, 160, 225, 191, 93, 3, 128, 222, 60, 98,
      190, 224, 2, 92, 223, 129, 99, 61, 124, 34, 192, 158, 29, 67, 161, 255,
      70, 24, 250, 164, 39, 121, 155, 197, 132, 218, 56, 102, 229, 187, 89, 7,
      219, 133, 103, 57, 186, 228, 6, 88, 25, 71, 165, 251, 120, 38, 196, 154,
      101, 59, 217, 135, 4, 90, 184, 230, 167, 249, 27, 69, 198, 152, 122, 36,
      248, 166, 68, 26, 153, 199, 37, 123, 58, 100, 134, 216, 91, 5, 231, 185,
      140, 210, 48, 110, 237, 179, 81, 15, 78, 16, 242, 172, 47, 113, 147, 205,
      17, 79, 173, 243, 112, 46, 204, 146, 211, 141, 111, 49, 178, 236, 14, 80,
      175, 241, 19, 77, 206, 144, 114, 44, 109, 51, 209, 143, 12, 82, 176, 238,
      50, 108, 142, 208, 83, 13, 239, 177, 240, 174, 76, 18, 145, 207, 45, 115,
      202, 148, 118, 40, 171, 245, 23, 73, 8, 86, 180, 234, 105, 55, 213, 139,
      87, 9, 235, 181, 54, 104, 138, 212, 149, 203, 41, 119, 244, 170, 72, 22,
      233, 183, 85, 11, 136, 214, 52, 106, 43, 117, 151, 201, 74, 20, 246, 168,
      116, 42, 200, 150, 21, 75, 169, 247, 182, 232, 10, 84, 215, 137, 107, 53]"

fun mico_CRC8_Table :: "u8 \<Rightarrow> bytes \<Rightarrow> u8" where
  "mico_CRC8_Table crc8 [] = crc8"
| "mico_CRC8_Table crc8 (p # ps) = mico_CRC8_Table (mico_CRC8Table ! unat (crc8 XOR p)) ps"

text \<open>The bitwise CRC-8 with the reflected polynomial \<open>0x8C\<close>, one byte at a time.\<close>

definition crc8_shift :: "u8 \<Rightarrow> u8" where
  "crc8_shift c = (if bit c 0 then drop_bit 1 c XOR 0x8C else drop_bit 1 c)"

definition crc8_shift8 :: "u8 \<Rightarrow> u8" where
  "crc8_shift8 c = crc8_shift (crc8_shift (crc8_shift (crc8_shift
     (crc8_shift (crc8_shift (crc8_shift (crc8_shift c)))))))"

fun crc8_bitwise :: "u8 \<Rightarrow> bytes \<Rightarrow> u8" where
  "crc8_bitwise c [] = c"
| "crc8_bitwise c (p # ps) = crc8_bitwise (crc8_shift8 (c XOR p)) ps"

lemma length_CRC8Table: "length mico_CRC8Table = 256"
  by (simp add: mico_CRC8Table_def)

lemma CRC8Table_shifts: "map crc8_shift8 (map word_of_nat [0..<256]) = mico_CRC8Table"
proof -
  have "[0..<256] = 0 # 1 # [2 ..< 256]"
    by (simp add: upt_rec [of 0] upt_rec [of "Suc 0"] numeral_2_eq_2 [symmetric])
  then have "map word_of_nat [0..<256] = (0 :: u8) # 1 # map word_of_nat [2 ..< 256]"
    by simp
  then show ?thesis
    unfolding mico_CRC8Table_def by (simp add: crc8_shift8_def crc8_shift_def)
qed

lemma CRC8Table_nth: "mico_CRC8Table ! unat w = crc8_shift8 w"
proof -
  have "unat w < 256" using unsigned_less [of w] by simp
  then have "map crc8_shift8 (map word_of_nat [0..<256]) ! unat w = crc8_shift8 w"
    by simp
  then show ?thesis by (simp only: CRC8Table_shifts)
qed

lemma CRC8_Table_bitwise: "mico_CRC8_Table c ps = crc8_bitwise c ps"
  by (induction ps arbitrary: c) (auto simp: CRC8Table_nth)

lemma CRC8_append: "mico_CRC8_Table c (a @ b) = mico_CRC8_Table (mico_CRC8_Table c a) b"
  by (induction a arbitrary: c) auto

interpretation crc8: digest mico_CRC8_Table
  by unfold_locales (auto simp: CRC8_append)

section \<open>CRC-16\<close>

record CRC16_Context =
  crc :: u16

text \<open>The body of the \<open>do\<close> loop of \<open>UpdateCRC16\<close> on its two locals.\<close>

definition UpdateCRC16_body :: "u32 \<times> u32 \<Rightarrow> u32 \<times> u32" where
  "UpdateCRC16_body = (\<lambda>(c, inn).
     let c = push_bit 1 c;
         inn = push_bit 1 inn;
         c = (if inn AND 0x100 \<noteq> 0 then c + 1 else c);
         c = (if c AND 0x10000 \<noteq> 0 then c XOR 0x1021 else c)
     in (c, inn))"

abbreviation UpdateCRC16_more :: "u32 \<times> u32 \<Rightarrow> bool" where
  "UpdateCRC16_more \<equiv> \<lambda>(c, inn). inn AND 0x10000 = 0"

definition UpdateCRC16 :: "u16 \<Rightarrow> u8 \<Rightarrow> u16" where
  "UpdateCRC16 crcIn byte =
     (let s = (ucast crcIn, ucast byte OR 0x100);
          s = while UpdateCRC16_more UpdateCRC16_body (UpdateCRC16_body s)
      in ucast (fst s AND 0xffff))"

definition CRC16_Init :: "CRC16_Context \<Rightarrow> CRC16_Context" where
  "CRC16_Init ctx = ctx\<lparr>crc := 0\<rparr>"

fun CRC16_Update :: "CRC16_Context \<Rightarrow> bytes \<Rightarrow> CRC16_Context" where
  "CRC16_Update ctx [] = ctx"
| "CRC16_Update ctx (x # xs) = CRC16_Update (ctx\<lparr>crc := UpdateCRC16 (crc ctx) x\<rparr>) xs"

definition CRC16_Final :: "CRC16_Context \<Rightarrow> CRC16_Context \<times> u16" where
  "CRC16_Final ctx =
     (let ctx = ctx\<lparr>crc := UpdateCRC16 (crc ctx) 0\<rparr>;
          ctx = ctx\<lparr>crc := UpdateCRC16 (crc ctx) 0\<rparr>
      in (ctx, crc ctx AND 0xffff))"

text \<open>The sequence every caller runs: \<open>Init\<close>, \<open>Update\<close>, \<open>Final\<close>.\<close>

definition crc16 :: "bytes \<Rightarrow> u16" where
  "crc16 data = snd (CRC16_Final (CRC16_Update (CRC16_Init \<lparr>crc = 0\<rparr>) data))"

subsection \<open>One bit of the register\<close>

text \<open>
  \<open>crc16_Z\<close> multiplies the register by \<open>x\<close> modulo \<open>x\<^sup>1\<^sup>6 + x\<^sup>1\<^sup>2 + x\<^sup>5 + 1\<close>;
  \<open>crc16_A\<close> shifts a message bit in at the low end (what the code does), \<open>crc16_D\<close> adds it at the
  high end (the usual CRC-CCITT register).
\<close>

definition crc16_Z :: "u16 \<Rightarrow> u16" where
  "crc16_Z c = push_bit 1 c XOR (if bit c 15 then 0x1021 else 0)"

definition crc16_A :: "u16 \<Rightarrow> bool \<Rightarrow> u16" where
  "crc16_A c b = crc16_Z c XOR (if b then 1 else 0)"

definition crc16_D :: "u16 \<Rightarrow> bool \<Rightarrow> u16" where
  "crc16_D c b = push_bit 1 c XOR (if bit c 15 \<noteq> b then 0x1021 else 0)"

definition msb_first :: "u8 \<Rightarrow> bool list" where
  "msb_first x = map (bit x) [7, 6, 5, 4, 3, 2, 1, 0]"

text \<open>The CRC-CCITT (XMODEM) checksum: register 0, no final complement.\<close>

definition crc_ccitt :: "bytes \<Rightarrow> u16" where
  "crc_ccitt data = foldl crc16_D 0 (concat (map msb_first data))"

lemma crc16_Z_linear: "crc16_Z (x XOR y) = crc16_Z x XOR crc16_Z y"
  unfolding crc16_Z_def by (simp add: bit_xor_iff push_bit_xor ac_simps)

lemma crc16_D_eq: "crc16_D c b = crc16_Z c XOR (if b then 0x1021 else 0)"
  unfolding crc16_D_def crc16_Z_def by (simp add: ac_simps)


lemma crc16_Z_0 [simp]: "crc16_Z 0 = 0"
  by (simp add: crc16_Z_def)

lemma bit_poly: "bit (0x1021 :: u16) n \<longleftrightarrow> n = 0 \<or> n = 5 \<or> n = 12"
proof -
  have poly: "(0x1021 :: u16) = 1 XOR (push_bit 5 1 XOR push_bit 12 1)" by simp
  show ?thesis
    unfolding poly by (simp only: bit_xor_iff bit_push_bit_iff bit_1_iff) auto
qed

lemma bit_crc16_Z:
  "bit (crc16_Z c) n \<longleftrightarrow>
     n < 16 \<and> (0 < n \<and> bit c (n - 1)) \<noteq> (bit c 15 \<and> (n = 0 \<or> n = 5 \<or> n = 12))"
proof -
  have p: "bit (push_bit 1 c) n \<longleftrightarrow> n < 16 \<and> 0 < n \<and> bit c (n - 1)"
    by (simp only: bit_push_bit_iff) (auto simp: Suc_le_eq)
  show ?thesis
    unfolding crc16_Z_def bit_xor_iff p
    by (cases "bit c 15") (auto simp only: if_True if_False bit_poly bit_0_eq)
qed

lemma crc16_Z_inj: "crc16_Z x = crc16_Z y \<longleftrightarrow> x = y"
proof
  assume eq: "crc16_Z x = crc16_Z y"
  then have b: "bit (crc16_Z x) n = bit (crc16_Z y) n" for n by simp
  have top: "bit x 15 = bit y 15" using b [of 0] by (simp add: bit_crc16_Z)
  show "x = y"
  proof (rule bit_word_eqI)
    fix n
    assume "n < LENGTH(16)"
    then have n: "n < 16" by simp
    show "bit x n = bit y n"
    proof (cases "n = 15")
      case True
      with top show ?thesis by simp
    next
      case False
      with n b [of "Suc n"] top show ?thesis by (auto simp: bit_crc16_Z)
    qed
  qed
qed simp

lemma crc16_Z_funpow_linear: "(crc16_Z ^^ n) (x XOR y) = (crc16_Z ^^ n) x XOR (crc16_Z ^^ n) y"
  by (induction n) (auto simp: crc16_Z_linear)

lemma crc16_Z_funpow_0 [simp]: "(crc16_Z ^^ n) 0 = 0"
  by (induction n) auto

lemma crc16_Z_pow: "n < 16 \<Longrightarrow> (crc16_Z ^^ n) 1 = 2 ^ n"
proof (induction n)
  case (Suc n)
  then have "\<not> bit (2 ^ n :: u16) 15" by (simp add: bit_exp_iff)
  then have "crc16_Z (2 ^ n) = 2 ^ Suc n" by (simp add: crc16_Z_def)
  with Suc show ?case by simp
qed simp

lemma crc16_Z_16: "(crc16_Z ^^ 16) 1 = 0x1021"
proof -
  have "(crc16_Z ^^ 16) 1 = crc16_Z ((crc16_Z ^^ 15) 1)"
    by (simp flip: funpow.simps(2) comp_apply [of crc16_Z])
  also have "\<dots> = crc16_Z 0x8000" by (simp add: crc16_Z_pow)
  also have "\<dots> = 0x1021" by (simp add: crc16_Z_def)
  finally show ?thesis .
qed

lemma crc16_A_D: "(crc16_Z ^^ 16) (crc16_A c b) = crc16_D ((crc16_Z ^^ 16) c) b"
proof -
  have "(crc16_Z ^^ 16) (crc16_A c b) =
      (crc16_Z ^^ 16) (crc16_Z c) XOR (crc16_Z ^^ 16) (if b then 1 else 0)"
    by (simp only: crc16_A_def crc16_Z_funpow_linear)
  also have "(crc16_Z ^^ 16) (crc16_Z c) = crc16_Z ((crc16_Z ^^ 16) c)"
    by (simp only: funpow_swap1)
  also have "(crc16_Z ^^ 16) (if b then 1 else 0) = (if b then 0x1021 else 0)"
    by (cases b) (simp_all only: if_True if_False crc16_Z_16 crc16_Z_funpow_0)
  finally show ?thesis by (simp only: crc16_D_eq)
qed

lemma foldl_A_D: "(crc16_Z ^^ 16) (foldl crc16_A c bs) = foldl crc16_D ((crc16_Z ^^ 16) c) bs"
  by (induction bs arbitrary: c) (simp_all only: foldl.simps crc16_A_D)

lemma foldl_A_zeros: "foldl crc16_A c (replicate n False) = (crc16_Z ^^ n) c"
  by (induction n arbitrary: c) (auto simp: crc16_A_def funpow_swap1)

subsection \<open>The loop of \<open>UpdateCRC16\<close>\<close>

lemma and_0x10000: "(x AND 0x10000 = 0) \<longleftrightarrow> \<not> bit (x :: u32) 16"
  using and_exp_eq_0_iff_not_bit [of x 16] by simp

lemma and_0x100: "(x AND 0x100 = 0) \<longleftrightarrow> \<not> bit (x :: u32) 8"
  using and_exp_eq_0_iff_not_bit [of x 8] by simp

text \<open>After \<open>n\<close> rounds the byte with its marker has moved up by \<open>n\<close> bits.\<close>

lemma snd_body: "snd ((UpdateCRC16_body ^^ n) (c, i)) = push_bit n i"
proof (induction n)
  case (Suc n)
  obtain c' i' where s: "(UpdateCRC16_body ^^ n) (c, i) = (c', i')" by fastforce
  with Suc have "i' = push_bit n i" by simp
  then have "push_bit 1 i' = push_bit (Suc n) i" by (simp only: push_bit_push_bit) simp
  with s show ?case by (simp add: UpdateCRC16_body_def Let_def del: push_bit_of_1)
qed simp

lemma bit_marked: "bit (ucast (x :: u8) OR 0x100 :: u32) k \<longleftrightarrow> k = 8 \<or> bit x k"
proof -
  have m: "(0x100 :: u32) = push_bit 8 1" by simp
  show ?thesis
    unfolding m by (auto simp only: bit_or_iff bit_push_bit_iff bit_1_iff bit_ucast_iff)
      (auto dest: bit_imp_le_length)
qed

lemma marker_bit:
  "bit (push_bit n (ucast (x :: u8) OR 0x100) :: u32) 16 \<longleftrightarrow> n = 8 \<or> n \<le> 16 \<and> bit x (16 - n)"
  by (auto simp only: bit_push_bit_iff bit_marked possible_bit_word) simp_all

text \<open>A loop whose guard first fails after \<open>n\<close> rounds stops with the \<open>n\<close>-th state.\<close>

lemma while_option_rounds:
  "(\<And>k. k < n \<Longrightarrow> P ((f ^^ k) s)) \<Longrightarrow> \<not> P ((f ^^ n) s) \<Longrightarrow>
     while_option P f s = Some ((f ^^ n) s)"
proof (induction n arbitrary: s)
  case 0
  then show ?case by (simp add: while_option_unfold)
next
  case (Suc n)
  have "P s" using Suc.prems(1) [of 0] by simp
  moreover have "P ((f ^^ k) (f s))" if "k < n" for k
    using Suc.prems(1) [of "Suc k"] that by (simp add: funpow_swap1)
  moreover have "\<not> P ((f ^^ n) (f s))" using Suc.prems(2) by (simp add: funpow_swap1)
  ultimately show ?case
    using Suc.IH [of "f s"] by (simp add: while_option_unfold funpow_swap1)
qed

lemma UpdateCRC16_rounds:
  fixes x :: u8 and c :: u32
  defines "s \<equiv> (c, ucast x OR 0x100)"
  shows "while_option UpdateCRC16_more UpdateCRC16_body (UpdateCRC16_body s)
           = Some ((UpdateCRC16_body ^^ 8) s)"
proof -
  have g: "UpdateCRC16_more ((UpdateCRC16_body ^^ k) s) \<longleftrightarrow> \<not> (k = 8 \<or> k \<le> 16 \<and> bit x (16 - k))" for k
    unfolding s_def using snd_body [of k c "ucast x OR 0x100"]
    by (cases "(UpdateCRC16_body ^^ k) (c, ucast x OR 0x100)") (simp only: case_prod_conv snd_conv and_0x10000 marker_bit)
  have more: "UpdateCRC16_more ((UpdateCRC16_body ^^ k) (UpdateCRC16_body s))" if "k < 7" for k
  proof -
    have "\<not> bit x (16 - Suc k)" using that by (auto dest: bit_imp_le_length)
    with that have "UpdateCRC16_more ((UpdateCRC16_body ^^ Suc k) s)" by (simp only: g) auto
    then show ?thesis by (simp only: funpow_Suc_right comp_apply)
  qed
  have "(UpdateCRC16_body ^^ 7) (UpdateCRC16_body s) = (UpdateCRC16_body ^^ 8) s"
    using fun_cong [OF funpow_Suc_right [of 7 UpdateCRC16_body], of s] by simp
  moreover have "\<not> UpdateCRC16_more ((UpdateCRC16_body ^^ 8) s)" by (simp only: g) simp
  ultimately show ?thesis
    using while_option_rounds [of 7 UpdateCRC16_more UpdateCRC16_body "UpdateCRC16_body s"] more by simp
qed

lemma body_low:
  "(ucast (fst (UpdateCRC16_body (c, i))) :: u16) = crc16_A (ucast c) (bit i 7)"
proof -
  define c1 :: u32 where "c1 = push_bit 1 c"
  define c2 where "c2 = c1 XOR (if bit i 7 then 1 else 0)"
  have b7: "bit (push_bit 1 i) 8 = bit i 7" by (simp only: bit_push_bit_iff) simp
  have c2: "(if push_bit 1 i AND 0x100 \<noteq> 0 then c1 + 1 else c1) = c2"
    unfolding and_0x100 b7 c2_def c1_def by (simp add: xor_one_eq)
  have b15: "bit c2 16 = bit c 15"
    unfolding c2_def c1_def by (simp only: bit_xor_iff bit_push_bit_iff) (simp add: bit_1_iff)
  have "(ucast (fst (UpdateCRC16_body (c, i))) :: u16)
      = ucast (c2 XOR (if bit c 15 then 0x1021 else 0))"
    unfolding UpdateCRC16_body_def Let_def case_prod_conv fst_conv c1_def [symmetric] c2 and_0x10000 b15
    by simp
  also have "\<dots> = ucast c2 XOR (if bit c 15 then 0x1021 else 0)"
    by (simp add: unsigned_xor_eq)
  also have "(ucast c2 :: u16) = ucast c1 XOR (if bit i 7 then 1 else 0)"
    by (simp add: c2_def unsigned_xor_eq)
  also have "(ucast c1 :: u16) = push_bit 1 (ucast c)"
    unfolding c1_def by (rule bit_word_eqI) (simp only: bit_ucast_iff bit_push_bit_iff, auto)
  finally have "(ucast (fst (UpdateCRC16_body (c, i))) :: u16) =
      (push_bit 1 (ucast c) XOR (if bit i 7 then 1 else 0)) XOR (if bit c 15 then 0x1021 else 0)" .
  moreover have "bit (ucast c :: u16) 15 = bit c 15" by (simp add: bit_ucast_iff)
  moreover have "(p XOR e) XOR k = (p XOR k) XOR e" for p e k :: u16
    by (simp only: xor.assoc xor.commute xor.left_commute)
  ultimately show ?thesis
    by (simp only: crc16_A_def crc16_Z_def)
qed

lemma ucast_and_0xffff: "(ucast (w AND 0xffff :: u32) :: u16) = ucast w"
proof -
  have m: "(0xffff :: u32) = mask 16" by (simp add: mask_eq_exp_minus_1)
  show ?thesis
    unfolding m by (rule bit_word_eqI) (simp only: bit_ucast_iff bit_and_iff bit_mask_iff, auto)
qed

lemma ucast_ucast_u16: "(ucast (ucast (c :: u16) :: u32) :: u16) = c"
  by (rule bit_word_eqI) (simp add: bit_ucast_iff)

text \<open>
  One call of \<open>UpdateCRC16\<close> shifts the eight bits of its byte in, most significant first.
\<close>

lemma UpdateCRC16_bits: "UpdateCRC16 c x = foldl crc16_A c (msb_first x)"
proof -
  define s :: "u32 \<times> u32" where "s = (ucast c, ucast x OR 0x100)"
  define r where "r n = (UpdateCRC16_body ^^ n) s" for n
  have r: "(ucast (fst (r (Suc n))) :: u16) = crc16_A (ucast (fst (r n))) (bit x (7 - n))"
    if "n < 8" for n
  proof -
    have "snd (r n) = push_bit n (ucast x OR 0x100)" unfolding r_def s_def by (rule snd_body)
    then have "bit (snd (r n)) 7 = bit x (7 - n)"
      using that by (simp only: bit_push_bit_iff bit_marked) auto
    then show ?thesis
      using body_low [of "fst (r n)" "snd (r n)"] by (simp add: r_def)
  qed
  have "UpdateCRC16 c x = ucast (fst (r 8) AND 0xffff)"
    using UpdateCRC16_rounds [of "ucast c" x]
    unfolding UpdateCRC16_def while_def Let_def r_def s_def by simp
  also have "\<dots> = ucast (fst (r 8))" by (rule ucast_and_0xffff)
  also have "\<dots> = foldl crc16_A c (msb_first x)"
    using r [of 0] r [of 1] r [of 2] r [of 3] r [of 4] r [of 5] r [of 6] r [of 7]
    by (simp add: msb_first_def eval_nat_numeral) (simp add: r_def s_def ucast_ucast_u16)
  finally show ?thesis .
qed

subsection \<open>Messages\<close>

lemma crc16_Update_bits:
  "crc (CRC16_Update ctx d) = foldl crc16_A (crc ctx) (concat (map msb_first d))"
  by (induction d arbitrary: ctx) (auto simp: UpdateCRC16_bits)

lemma CRC16_Update_append: "CRC16_Update ctx (a @ b) = CRC16_Update (CRC16_Update ctx a) b"
  by (induction a arbitrary: ctx) auto

interpretation crc16: digest CRC16_Update
  by unfold_locales (auto simp: CRC16_Update_append)

lemma msb_first_0: "msb_first 0 = replicate 8 False"
  by (simp add: msb_first_def eval_nat_numeral)

lemma and_0xffff_u16 [simp]: "(w :: u16) AND 0xffff = w"
proof -
  have "(0xffff :: u16) = - 1" by simp
  then show ?thesis by (simp only: and.right_neutral)
qed

lemma crc16_Final_bits: "snd (CRC16_Final ctx) = (crc16_Z ^^ 16) (crc ctx)"
proof -
  have "snd (CRC16_Final ctx) = UpdateCRC16 (UpdateCRC16 (crc ctx) 0) 0"
    by (simp add: CRC16_Final_def Let_def)
  also have "\<dots> = foldl crc16_A (crc ctx) (replicate 8 False @ replicate 8 False)"
    by (simp only: UpdateCRC16_bits msb_first_0 foldl_append)
  also have "\<dots> = (crc16_Z ^^ 16) (crc ctx)"
    by (simp only: flip: replicate_add) (simp only: foldl_A_zeros, simp)
  finally show ?thesis .
qed

lemma xor_cancel_u16: "(a XOR k = b XOR k) \<longleftrightarrow> a = b" for a b k :: u16
proof
  assume "a XOR k = b XOR k"
  then have "(a XOR k) XOR k = (b XOR k) XOR k" by (rule arg_cong)
  then show "a = b" by (simp only: xor.assoc xor_self_eq xor.right_neutral)
qed simp

lemma crc16_D_inj: "crc16_D c b = crc16_D c' b \<longleftrightarrow> c = c'"
  by (simp only: crc16_D_eq xor_cancel_u16 crc16_Z_inj)

lemma foldl_D_inj: "foldl crc16_D c bs = foldl crc16_D c' bs \<longleftrightarrow> c = c'"
  by (induction bs arbitrary: c c') (auto simp: crc16_D_inj)

text \<open>The register after eight bits: the shifted old register plus a term of the byte alone.\<close>

lemma foldl_D_split: "foldl crc16_D c bs = (crc16_Z ^^ length bs) c XOR foldl crc16_D 0 bs"
proof (induction bs rule: rev_induct)
  case (snoc b bs)
  have "foldl crc16_D c (bs @ [b])
      = crc16_Z ((crc16_Z ^^ length bs) c XOR foldl crc16_D 0 bs) XOR (if b then 0x1021 else 0)"
    by (simp only: foldl_append foldl.simps snoc crc16_D_eq [of _ b])
  also have "\<dots> = crc16_Z ((crc16_Z ^^ length bs) c) XOR
      (crc16_Z (foldl crc16_D 0 bs) XOR (if b then 0x1021 else 0))"
    by (simp only: crc16_Z_linear xor.assoc)
  also have "\<dots> = (crc16_Z ^^ length (bs @ [b])) c XOR foldl crc16_D 0 (bs @ [b])"
    by (simp only: foldl_append foldl.simps crc16_D_eq [of _ b]) simp
  finally show ?case .
qed simp

text \<open>The byte term determines the byte, since no reduction happens before sixteen bits.\<close>

lemma bit_foldl_A:
  "length bs \<le> 16 \<Longrightarrow> bit (foldl crc16_A 0 bs) n \<longleftrightarrow> n < length bs \<and> rev bs ! n"
proof (induction bs arbitrary: n rule: rev_induct)
  case (snoc b bs)
  then have top: "\<not> bit (foldl crc16_A 0 bs) 15" by simp
  have "bit (foldl crc16_A 0 (bs @ [b])) n \<longleftrightarrow>
      (n < 16 \<and> 0 < n \<and> bit (foldl crc16_A 0 bs) (n - 1)) \<noteq> (n = 0 \<and> b)"
    using top by (cases b) (auto simp: crc16_A_def bit_xor_iff bit_crc16_Z bit_1_iff)
  also have "\<dots> \<longleftrightarrow> n < length (bs @ [b]) \<and> rev (bs @ [b]) ! n"
    using snoc by (cases n) auto
  finally show ?case .
qed simp

lemma rev_msb_first: "n < 8 \<Longrightarrow> rev (msb_first x) ! n = bit x n"
  by (auto simp: msb_first_def less_Suc_eq eval_nat_numeral)

lemma foldl_A_byte: "foldl crc16_A 0 (msb_first x) = ucast x"
proof (rule bit_word_eqI)
  fix n
  have len: "length (msb_first x) = 8" by (simp add: msb_first_def)
  show "bit (foldl crc16_A 0 (msb_first x)) n = bit (ucast x :: u16) n" if "n < LENGTH(16)"
  proof (cases "n < 8")
    case True
    with bit_foldl_A [of "msb_first x" n] show ?thesis
      by (simp add: len rev_msb_first bit_ucast_iff)
  next
    case False
    with bit_foldl_A [of "msb_first x" n] show ?thesis
      by (auto simp: len bit_ucast_iff dest: bit_imp_le_length)
  qed
qed

lemma foldl_D_byte: "foldl crc16_D 0 (msb_first x) = (crc16_Z ^^ 16) (ucast x)"
  using foldl_A_D [of 0 "msb_first x"] by (simp add: foldl_A_byte)

lemma crc16_Z_funpow_inj: "(crc16_Z ^^ n) x = (crc16_Z ^^ n) y \<longleftrightarrow> x = y"
  by (induction n) (auto simp: crc16_Z_inj)

lemma ucast_u8_u16_inj: "(ucast x :: u16) = ucast y \<longleftrightarrow> x = y" for x y :: u8
proof
  assume eq: "(ucast x :: u16) = ucast y"
  show "x = y"
  proof (rule bit_word_eqI)
    fix n
    assume "n < LENGTH(8)"
    moreover have "bit (ucast x :: u16) n = bit (ucast y :: u16) n" using eq by simp
    ultimately show "bit x n = bit y n" by (simp add: bit_ucast_iff)
  qed
qed simp

lemma crc16_ccitt: "crc16 data = crc_ccitt data"
proof -
  have "crc16 data = (crc16_Z ^^ 16) (foldl crc16_A 0 (concat (map msb_first data)))"
    by (simp add: crc16_def CRC16_Init_def crc16_Final_bits crc16_Update_bits)
  then show ?thesis by (simp add: foldl_A_D crc_ccitt_def)
qed

section \<open>Properties\<close>

text \<open>
  The CRC-8 of \<open>mico_CRC8_Table\<close>, computed with one table lookup per byte, is the bitwise
  CRC-8 with the reflected polynomial \<open>0x8C\<close>: all 256 entries of the table are the eight-step
  remainders they stand for.
\<close>

theorem CRC8_table_is_bitwise: "mico_CRC8_Table crc8 data = crc8_bitwise crc8 data"
  by (rule CRC8_Table_bitwise)

text \<open>
  The \<open>do\<close> loop of \<open>UpdateCRC16\<close> ends for every register and byte, after exactly eight
  rounds in all.
\<close>

theorem UpdateCRC16_terminates:
  "while_option UpdateCRC16_more UpdateCRC16_body (UpdateCRC16_body (ucast crcIn, ucast byte OR 0x100))
     = Some ((UpdateCRC16_body ^^ 8) (ucast (crcIn :: u16), ucast (byte :: u8) OR 0x100))"
  by (rule UpdateCRC16_rounds)

text \<open>
  C36. \<open>CRC16_Init\<close>, \<open>CRC16_Update\<close> and \<open>CRC16_Final\<close> together compute the
  CRC-CCITT checksum (polynomial \<open>0x1021\<close>, register 0): the code's bit-serial register that
  is flushed with two zero bytes agrees with the register that adds message bits at the top.
\<close>

theorem crc16_is_ccitt: "crc16 data = crc_ccitt data"
  by (rule crc16_ccitt)

text \<open>
  Two messages of equal length that differ in one byte only have different CRC-16
  checksums, so the checksum notices every corruption that is confined to a single byte.
\<close>

theorem crc16_single_byte: "crc16 (p @ [x] @ q) = crc16 (p @ [y] @ q) \<longleftrightarrow> x = y"
proof -
  define c where "c = foldl crc16_D 0 (concat (map msb_first p))"
  have len: "length (msb_first z) = 8" for z by (simp add: msb_first_def)
  have "crc16 (p @ [x] @ q) = crc16 (p @ [y] @ q) \<longleftrightarrow>
      foldl crc16_D c (msb_first x) = foldl crc16_D c (msb_first y)"
    by (simp add: crc16_ccitt crc_ccitt_def c_def foldl_D_inj)
  also have "\<dots> \<longleftrightarrow> foldl crc16_D 0 (msb_first x) = foldl crc16_D 0 (msb_first y)"
    unfolding foldl_D_split [of c] len by (simp only: xor.commute [of "(crc16_Z ^^ 8) c"] xor_cancel_u16)
  also have "\<dots> \<longleftrightarrow> x = y"
    by (simp add: foldl_D_byte crc16_Z_funpow_inj ucast_u8_u16_inj)
  finally show ?thesis .
qed

end
