(* ===== verification/RingBuffer.thy ===== *)
theory RingBuffer
  imports Prelude
begin

text \<open>
  The ring buffer of \<open>libraries/utilities/RingBufferUtils.c\<close>: a record with the fields of
  \<open>ring_buffer_t\<close> and one definition per function. \<open>content\<close> reads the bytes between \<open>head\<close>
  and \<open>tail\<close>; the lemmas show that writing below the free space appends to it, that
  consuming drops from its front, and what a write that fills the buffer does.
\<close>

section \<open>Interface: a queue of bytes that is read where it lies\<close>

text \<open>
  The queued bytes lie in cells from \<open>front\<close> on, \<open>span\<close> of them contiguous in memory; \<open>advance\<close>
  removes bytes from the front. A reader copies bytes out of the cells first and removes them afterwards, while
  other bytes arrive: \<open>out\<close> is what it has copied, \<open>j\<close> of it from bytes still queued.
\<close>

locale byte_queue =
  fixes queued :: "'s \<Rightarrow> bytes"
    and ok :: "'s \<Rightarrow> bool"
    and front span :: "'s \<Rightarrow> nat"
    and cell :: "'s \<Rightarrow> nat \<Rightarrow> u8 option"
    and advance :: "'s \<Rightarrow> nat \<Rightarrow> 's option"
  assumes span: "ok s \<Longrightarrow> 0 < span s"
    and cells: "ok s \<Longrightarrow> j < span s \<Longrightarrow> j < length (queued s) \<Longrightarrow> cell s (front s + j) = Some (queued s ! j)"
    and advance_drops: "ok s \<Longrightarrow> n \<le> length (queued s) \<Longrightarrow>
      \<exists>s'. advance s n = Some s' \<and> ok s' \<and> queued s' = drop n (queued s)"
begin

definition taken :: "bytes \<Rightarrow> nat \<Rightarrow> 's \<Rightarrow> bytes \<Rightarrow> bool" where
  "taken out j s w \<longleftrightarrow> ok s \<and> j \<le> length (queued s) \<and> out @ drop j (queued s) = w"

lemma taken_copy:
  assumes "taken out j s w" and "j < span s" and "j < length (queued s)"
  shows "\<exists>x. cell s (front s + j) = Some x \<and> taken (out @ [x]) (Suc j) s w"
proof -
  have "drop j (queued s) = queued s ! j # drop (Suc j) (queued s)" using assms(3) by (rule Cons_nth_drop_Suc [symmetric])
  then show ?thesis using assms cells by (auto simp: taken_def)
qed

lemma taken_advance:
  "taken out j s w \<Longrightarrow> \<exists>s'. advance s j = Some s' \<and> taken out 0 s' w \<and> queued s' = drop j (queued s)"
  using advance_drops by (fastforce simp: taken_def)

lemma taken_arrival:
  "taken out j s w \<Longrightarrow> ok s' \<Longrightarrow> queued s' = queued s @ [x] \<Longrightarrow> taken out j s' (w @ [x])"
  by (auto simp: taken_def)

end

section \<open>The ring buffer\<close>

record ring_buffer_t =
  rb_size :: u32
  rb_head :: u32
  rb_tail :: u32
  rb_buffer :: bytes

definition ring_buffer_init :: "bytes \<Rightarrow> u32 \<Rightarrow> ring_buffer_t \<times> OSStatus" where
  "ring_buffer_init buffer n =
     (\<lparr>rb_size = n, rb_head = 0, rb_tail = 0, rb_buffer = buffer\<rparr>, kNoErr)"

definition ring_buffer_deinit :: "ring_buffer_t \<Rightarrow> OSStatus" where
  "ring_buffer_deinit r = kNoErr"

definition ring_buffer_free_space :: "ring_buffer_t \<Rightarrow> u32 option" where
  "ring_buffer_free_space r =
     (let tail_to_end = rb_size r - rb_tail r in umod (tail_to_end + rb_head r) (rb_size r))"

definition ring_buffer_used_space :: "ring_buffer_t \<Rightarrow> u32 option" where
  "ring_buffer_used_space r =
     (let head_to_end = rb_size r - rb_head r in umod (head_to_end + rb_tail r) (rb_size r))"

text \<open>The data pointer is the offset of \<open>head\<close>, paired with \<open>contiguous_bytes\<close>.\<close>

definition ring_buffer_get_data :: "ring_buffer_t \<Rightarrow> (u32 \<times> u32) option" where
  "ring_buffer_get_data r = do {
     let head_to_end = rb_size r - rb_head r;
     n \<leftarrow> umod (head_to_end + rb_tail r) (rb_size r);
     Some (rb_head r, min head_to_end n)
   }"

definition ring_buffer_consume :: "ring_buffer_t \<Rightarrow> u32 \<Rightarrow> ring_buffer_t option" where
  "ring_buffer_consume r bytes_consumed = do {
     h \<leftarrow> umod (rb_head r + bytes_consumed) (rb_size r);
     Some (r\<lparr>rb_head := h\<rparr>)
   }"

definition ring_buffer_write :: "ring_buffer_t \<Rightarrow> bytes \<Rightarrow> u32 \<Rightarrow> (ring_buffer_t \<times> u32) option" where
  "ring_buffer_write r data data_length = do {
     let tail_to_end = rb_size r - rb_tail r;
     room \<leftarrow> (if rb_tail r = rb_head r then Some (rb_size r)
              else umod (tail_to_end + rb_head r) (rb_size r));
     let amount_to_copy = min data_length room;
     b \<leftarrow> memcpy (rb_buffer r) (unat (rb_tail r)) data 0 (unat (min amount_to_copy tail_to_end));
     b \<leftarrow> (if tail_to_end < amount_to_copy
           then memcpy b 0 data (unat tail_to_end) (unat (amount_to_copy - tail_to_end))
           else Some b);
     t \<leftarrow> umod (rb_tail r + amount_to_copy) (rb_size r);
     Some (r\<lparr>rb_buffer := b, rb_tail := t\<rparr>, amount_to_copy)
   }"

section \<open>The queue a ring buffer stands for\<close>

text \<open>
  Sizes up to \<open>2\<^sup>3\<^sup>1\<close>, so that the sums of two offsets in the code stay below \<open>2\<^sup>3\<^sup>2\<close>.
\<close>

definition rb_inv :: "ring_buffer_t \<Rightarrow> bool" where
  "rb_inv r \<longleftrightarrow> 0 < rb_size r \<and> rb_size r \<le> 0x80000000 \<and> length (rb_buffer r) = unat (rb_size r) \<and>
     rb_head r < rb_size r \<and> rb_tail r < rb_size r"

text \<open>The distance from \<open>h\<close> to \<open>t\<close> on a ring of \<open>N\<close> cells.\<close>

definition ring_dist :: "nat \<Rightarrow> nat \<Rightarrow> nat \<Rightarrow> nat" where
  "ring_dist N h t = (if h \<le> t then t - h else N - h + t)"

definition used :: "ring_buffer_t \<Rightarrow> nat" where
  "used r = ring_dist (unat (rb_size r)) (unat (rb_head r)) (unat (rb_tail r))"

definition content :: "ring_buffer_t \<Rightarrow> bytes" where
  "content r = map (\<lambda>k. rb_buffer r ! ((unat (rb_head r) + k) mod unat (rb_size r))) [0..<used r]"

lemma rb_inv_nat:
  assumes "rb_inv r"
  shows "0 < unat (rb_size r)" "unat (rb_size r) \<le> 2147483648"
    "length (rb_buffer r) = unat (rb_size r)"
    "unat (rb_head r) < unat (rb_size r)" "unat (rb_tail r) < unat (rb_size r)"
proof -
  show "0 < unat (rb_size r)" using assms by (simp add: rb_inv_def word_less_nat_alt)
  show "unat (rb_size r) \<le> 2147483648" using assms by (simp add: rb_inv_def word_le_nat_alt)
qed (use assms in \<open>simp_all add: rb_inv_def word_less_nat_alt\<close>)

lemma unat_plus_small: "unat a + unat b < 2 ^ 32 \<Longrightarrow> unat (a + b) = unat a + unat b" for a b :: u32
  by (simp add: unat_word_ariths)

lemma unat_minus_le: "unat b \<le> unat a \<Longrightarrow> unat (a - b) = unat a - unat b" for a b :: u32
  by (rule unat_sub) (simp add: word_le_nat_alt)

lemma unat_min: "unat (min a b) = min (unat a) (unat b)" for a b :: "'a::len word"
  by (simp add: min_def word_le_nat_alt)

lemma umod_sum:
  assumes "unat a + unat b < 2 ^ 32" "0 < unat n"
  shows "\<exists>m. umod (a + b) n = Some m \<and> unat m = (unat a + unat b) mod unat (n :: u32)"
proof -
  have "n \<noteq> 0" using assms(2) by auto
  then show ?thesis using assms(1) by (simp add: umod_def unat_mod unat_plus_small)
qed

text \<open>Offsets on a ring of \<open>N\<close> cells.\<close>

lemma mod_once: "a < 2 * N \<Longrightarrow> a mod N = (if a < N then a else a - N)" for a N :: nat
  by (simp add: mod_if)

lemma ring_dist_mod: "h < N \<Longrightarrow> t < N \<Longrightarrow> (N - h + t) mod N = ring_dist N h t"
  by (auto simp: ring_dist_def mod_once)

lemma ring_dist_less: "h < N \<Longrightarrow> t < N \<Longrightarrow> ring_dist N h t < N"
  by (auto simp: ring_dist_def)

lemma ring_dist_tail:
  "h < N \<Longrightarrow> t < N \<Longrightarrow> ring_dist N h t + n < N \<Longrightarrow>
     ring_dist N h ((t + n) mod N) = ring_dist N h t + n"
  by (auto simp: ring_dist_def mod_once split: if_splits)

lemma ring_dist_head:
  "h < N \<Longrightarrow> t < N \<Longrightarrow> n \<le> ring_dist N h t \<Longrightarrow>
     ring_dist N ((h + n) mod N) t = ring_dist N h t - n"
  by (auto simp: ring_dist_def mod_once split: if_splits)

lemma ring_dist_index:
  "h < N \<Longrightarrow> t < N \<Longrightarrow> (h + (ring_dist N h t + k)) mod N = (t + k) mod N"
  by (auto simp: ring_dist_def add.assoc)

lemma ring_old:
  assumes "h < N" "t < N" "k < ring_dist N h t" "a \<le> N - ring_dist N h t"
  shows "\<not> (h + k) mod N + N < t + a \<and> \<not> (t \<le> (h + k) mod N \<and> (h + k) mod N < t + a)"
proof (cases "h \<le> t")
  case True
  with assms have "(h + k) mod N = h + k" by (auto simp: ring_dist_def)
  with True assms show ?thesis by (auto simp: ring_dist_def)
next
  case False
  with assms have "(h + k) mod N = (if h + k < N then h + k else h + k - N)"
    by (auto simp: ring_dist_def mod_once)
  with False assms show ?thesis by (auto simp: ring_dist_def split: if_splits)
qed

lemma ring_distinct:
  assumes "h < N" "i < N" "j < N" "(h + i) mod N = (h + j) mod (N :: nat)"
  shows "i = j"
  using assms by (auto simp: mod_once split: if_splits)

section \<open>The operations on the queue\<close>

lemma umod_dist:
  assumes "unat n \<le> 2147483648" "unat h < unat n" "unat t < unat n"
  shows "\<exists>u. umod (n - h + t) n = Some (u :: u32) \<and> unat u = ring_dist (unat n) (unat h) (unat t)"
proof -
  have m: "unat (n - h) = unat n - unat h" using assms by (simp add: unat_minus_le)
  have "unat (n - h) + unat t < 2 ^ 32" using assms unfolding m by simp
  from umod_sum [OF this, of n] assms show ?thesis
    unfolding m by (simp only: ring_dist_mod)
qed

lemma used_space: "rb_inv r \<Longrightarrow> \<exists>u. ring_buffer_used_space r = Some u \<and> unat u = used r"
  using rb_inv_nat [of r] umod_dist [of "rb_size r" "rb_head r" "rb_tail r"]
  by (simp add: ring_buffer_used_space_def Let_def used_def)

lemma used_less: "rb_inv r \<Longrightarrow> used r < unat (rb_size r)"
  using rb_inv_nat [of r] by (simp add: used_def ring_dist_less)

lemma length_content [simp]: "length (content r) = used r"
  by (simp add: content_def)

lemma free_space:
  "rb_inv r \<Longrightarrow> \<exists>f. ring_buffer_free_space r = Some f \<and>
    unat f = (if used r = 0 then 0 else unat (rb_size r) - used r)"
  using rb_inv_nat [of r] umod_dist [of "rb_size r" "rb_tail r" "rb_head r"]
  by (auto simp: ring_buffer_free_space_def Let_def used_def ring_dist_def)

lemma consume:
  assumes "rb_inv r" "unat n \<le> used r"
  shows "\<exists>r'. ring_buffer_consume r n = Some r' \<and> rb_inv r' \<and> content r' = drop (unat n) (content r) \<and>
    rb_size r' = rb_size r \<and> rb_tail r' = rb_tail r"
proof -
  note i = rb_inv_nat [OF assms(1)]
  let ?N = "unat (rb_size r)" and ?h = "unat (rb_head r)" and ?t = "unat (rb_tail r)"
  have "unat n < ?N" using assms(2) used_less [OF assms(1)] by simp
  then obtain h where h: "umod (rb_head r + n) (rb_size r) = Some h" "unat h = (?h + unat n) mod ?N"
    using i umod_sum [of "rb_head r" n "rb_size r"] by auto
  let ?r = "r\<lparr>rb_head := h\<rparr>"
  have inv: "rb_inv ?r"
    using assms(1) i h(2) by (simp add: rb_inv_def word_less_nat_alt)
  have u: "used ?r = used r - unat n"
    using i ring_dist_head [of ?h ?N ?t "unat n"] assms(2) by (simp add: used_def h(2))
  have "content ?r = drop (unat n) (content r)"
    by (rule nth_equalityI) (auto simp: u content_def h(2) mod_simps ac_simps)
  with inv h(1) show ?thesis by (simp add: ring_buffer_consume_def)
qed

lemma get_data:
  assumes "rb_inv r"
  shows "\<exists>p n. ring_buffer_get_data r = Some (p, n) \<and> p = rb_head r \<and>
    unat n = min (unat (rb_size r) - unat (rb_head r)) (used r)"
proof -
  note i = rb_inv_nat [OF assms]
  obtain u where u: "umod (rb_size r - rb_head r + rb_tail r) (rb_size r) = Some u" "unat u = used r"
    using used_space [OF assms] by (auto simp: ring_buffer_used_space_def Let_def)
  have "unat (min (rb_size r - rb_head r) u) = min (unat (rb_size r) - unat (rb_head r)) (used r)"
    using i by (simp add: unat_min u(2) unat_minus_le)
  then show ?thesis by (simp add: ring_buffer_get_data_def u(1))
qed

definition room :: "ring_buffer_t \<Rightarrow> nat" where
  "room r = unat (rb_size r) - used r"

text \<open>What a write leaves in the cells: the data from \<open>tail\<close> on, around the end of the buffer.\<close>

lemma write_cells:
  assumes inv: "rb_inv r" and len: "unat n \<le> length data"
  shows "\<exists>r' a. ring_buffer_write r data n = Some (r', a) \<and> unat a = min (unat n) (room r) \<and>
    rb_size r' = rb_size r \<and> rb_head r' = rb_head r \<and> length (rb_buffer r') = length (rb_buffer r) \<and>
    unat (rb_tail r') = (unat (rb_tail r) + unat a) mod unat (rb_size r) \<and>
    (\<forall>k < unat a. rb_buffer r' ! ((unat (rb_tail r) + k) mod unat (rb_size r)) = data ! k) \<and>
    (\<forall>k < used r. rb_buffer r' ! ((unat (rb_head r) + k) mod unat (rb_size r)) =
       rb_buffer r ! ((unat (rb_head r) + k) mod unat (rb_size r)))"
proof -
  note i = rb_inv_nat [OF inv]
  let ?N = "unat (rb_size r)" and ?h = "unat (rb_head r)" and ?t = "unat (rb_tail r)"
  let ?e = "rb_size r - rb_tail r"
  have e: "unat ?e = ?N - ?t" using i by (simp add: unat_minus_le)
  obtain f where f: "(if rb_tail r = rb_head r then Some (rb_size r)
      else umod (?e + rb_head r) (rb_size r)) = Some f" "unat f = room r"
  proof (cases "rb_tail r = rb_head r")
    case False
    then have "?t \<noteq> ?h" by (simp add: word_unat_eq_iff)
    then show ?thesis
      using that i umod_dist [of "rb_size r" "rb_tail r" "rb_head r"] False
      by (auto simp: room_def used_def ring_dist_def split: if_splits)
  qed (use that in \<open>simp add: room_def used_def ring_dist_def\<close>)
  define a where "a = min n f"
  have a: "unat a = min (unat n) (room r)" by (simp add: a_def unat_min f(2))
  have aN: "unat a \<le> ?N" "unat a \<le> unat n" unfolding a by (auto simp: room_def)
  define m where "m = min (unat a) (?N - ?t)"
  have m: "unat (min a ?e) = m" by (simp add: m_def unat_min e)
  have "m \<le> length data" "?t + m \<le> length (rb_buffer r)" using i aN len by (auto simp: m_def)
  then obtain b where b: "memcpy (rb_buffer r) ?t data 0 m = Some b"
    by (simp add: memcpy_def blit_def)
  have lb: "length b = ?N" using b i by (auto simp: mem_simps)
  have bn: "b ! j = (if ?t \<le> j \<and> j < ?t + m then data ! (j - ?t) else rb_buffer r ! j)" if "j < ?N" for j
    using memcpy_nth [OF b, of j] that i by simp
  obtain b' where b': "(if ?e < a then memcpy b 0 data (unat ?e) (unat (a - ?e)) else Some b) = Some b'"
    and lb': "length b' = ?N"
    and bn': "\<And>j. j < ?N \<Longrightarrow> b' ! j = (if j + ?N < ?t + unat a then data ! (?N - ?t + j) else b ! j)"
  proof (cases "?e < a")
    case True
    then have lt: "?N - ?t < unat a" using e by (simp add: word_less_nat_alt)
    then have d: "unat (a - ?e) = unat a - (?N - ?t)"
      using e by (simp add: unat_minus_le)
    obtain b' where c: "memcpy b 0 data (?N - ?t) (unat a - (?N - ?t)) = Some b'"
      using lt aN len i lb by (auto simp: mem_simps)
    moreover have "length b' = ?N" using c lb by (auto simp: mem_simps)
    moreover have "b' ! j = (if j + ?N < ?t + unat a then data ! (?N - ?t + j) else b ! j)" if "j < ?N" for j
      using memcpy_nth [OF c, of j] that lb lt i by (auto simp: less_diff_conv)
    ultimately show ?thesis using that [of b'] True e d by simp
  next
    case False
    then have "unat a \<le> ?N - ?t" using e by (simp add: word_less_nat_alt)
    then have "\<not> j + ?N < ?t + unat a" for j using i by linarith
    then show ?thesis using that [of b] False lb by simp
  qed
  have sum: "?t + unat a < 2 ^ 32" using aN i by simp
  obtain t where t: "umod (rb_tail r + a) (rb_size r) = Some t" "unat t = (?t + unat a) mod ?N"
    using umod_sum [OF sum, of "rb_size r"] i by auto
  have run: "ring_buffer_write r data n = Some (r\<lparr>rb_buffer := b', rb_tail := t\<rparr>, a)"
    using f(1) b m b' t(1) unfolding ring_buffer_write_def a_def by simp
  have new: "b' ! ((?t + k) mod ?N) = data ! k" if "k < unat a" for k
  proof -
    have mo: "(?t + k) mod ?N = (if ?t + k < ?N then ?t + k else ?t + k - ?N)"
      using that i aN by (simp add: mod_once)
    have "(?t + k) mod ?N < ?N" using i by simp
    from bn' [OF this] bn [OF this] mo that i aN show ?thesis
      by (auto simp: m_def split: if_splits)
  qed
  have old: "b' ! ((?h + k) mod ?N) = rb_buffer r ! ((?h + k) mod ?N)" if "k < used r" for k
  proof -
    let ?j = "(?h + k) mod ?N"
    have "unat a \<le> ?N - ring_dist ?N ?h ?t" "k < ring_dist ?N ?h ?t"
      using a that by (simp_all add: room_def used_def)
    then have no: "\<not> ?j + ?N < ?t + unat a" and no': "\<not> (?t \<le> ?j \<and> ?j < ?t + unat a)"
      using ring_old [of ?h ?N ?t k "unat a"] i by simp_all
    have "m \<le> unat a" by (simp add: m_def)
    with no' have no'': "\<not> (?t \<le> ?j \<and> ?j < ?t + m)" by linarith
    have jN: "?j < ?N" using i by simp
    have "b' ! ?j = b ! ?j" using bn' [OF jN] no by (simp only: if_False)
    also have "\<dots> = rb_buffer r ! ?j" using bn [OF jN] no'' by (simp only: if_False)
    finally show ?thesis .
  qed
  show ?thesis
    using run a t(2) lb' i new old by (intro exI [of _ "r\<lparr>rb_buffer := b', rb_tail := t\<rparr>"] exI [of _ a]) simp
qed

lemma write_inv:
  assumes "rb_inv r" "unat n \<le> length data" "ring_buffer_write r data n = Some (r', a)"
  shows "rb_inv r'"
  using write_cells [OF assms(1,2)] assms(1,3) rb_inv_nat [OF assms(1)]
  by (auto simp: rb_inv_def word_less_nat_alt)

lemma write_appends:
  assumes inv: "rb_inv r" and len: "unat n \<le> length data" and lt: "unat n < room r"
  shows "\<exists>r'. ring_buffer_write r data n = Some (r', n) \<and> rb_inv r' \<and>
    content r' = content r @ take (unat n) data"
proof -
  note i = rb_inv_nat [OF inv]
  obtain r' a where r': "ring_buffer_write r data n = Some (r', a)" "unat a = min (unat n) (room r)"
    "rb_size r' = rb_size r" "rb_head r' = rb_head r"
    "unat (rb_tail r') = (unat (rb_tail r) + unat a) mod unat (rb_size r)"
    "\<forall>k < unat a. rb_buffer r' ! ((unat (rb_tail r) + k) mod unat (rb_size r)) = data ! k"
    "\<forall>k < used r. rb_buffer r' ! ((unat (rb_head r) + k) mod unat (rb_size r)) =
       rb_buffer r ! ((unat (rb_head r) + k) mod unat (rb_size r))"
    using write_cells [OF inv len] by blast
  have an: "a = n" using r'(2) lt by (simp add: word_unat_eq_iff)
  have u: "used r' = used r + unat n"
    using i lt ring_dist_tail [of "unat (rb_head r)" "unat (rb_size r)" "unat (rb_tail r)" "unat n"]
    by (simp add: used_def r'(3,4,5) an room_def less_diff_conv)
  have "content r' = content r @ take (unat n) data"
  proof (rule nth_equalityI)
    show "length (content r') = length (content r @ take (unat n) data)"
      using u len by simp
    fix k
    assume "k < length (content r')"
    then have k: "k < used r + unat n" by (simp add: u)
    show "content r' ! k = (content r @ take (unat n) data) ! k"
    proof (cases "k < used r")
      case True
      then show ?thesis using k r'(3,4,7) by (simp add: content_def u nth_append)
    next
      case False
      then have "(unat (rb_head r) + k) mod unat (rb_size r) =
          (unat (rb_tail r) + (k - used r)) mod unat (rb_size r)"
        using ring_dist_index [of "unat (rb_head r)" "unat (rb_size r)" "unat (rb_tail r)" "k - used r"] i
        by (simp add: used_def)
      moreover have "k - used r < unat n" using False k by simp
      moreover have "rb_buffer r' ! ((unat (rb_tail r) + (k - used r)) mod unat (rb_size r)) = data ! (k - used r)"
        using r'(6) calculation(2) an by blast
      ultimately show ?thesis using False k r'(3,4) len
        by (simp add: content_def u nth_append del: add_diff_assoc2)
    qed
  qed
  with r'(1) an write_inv [OF inv len r'(1)] show ?thesis by blast
qed

lemma write_fills:
  assumes inv: "rb_inv r" and len: "unat n \<le> length data" and ge: "room r \<le> unat n"
  shows "\<exists>r' a. ring_buffer_write r data n = Some (r', a) \<and> unat a = room r \<and> rb_inv r' \<and> content r' = []"
proof -
  note i = rb_inv_nat [OF inv]
  obtain r' a where r': "ring_buffer_write r data n = Some (r', a)" "unat a = room r"
    "rb_size r' = rb_size r" "rb_head r' = rb_head r"
    "unat (rb_tail r') = (unat (rb_tail r) + unat a) mod unat (rb_size r)"
    using write_cells [OF inv len] ge by auto
  have "unat (rb_tail r') = unat (rb_head r')"
    unfolding r'(2-5) using i
    by (auto simp: room_def used_def ring_dist_def mod_once split: if_splits)
  then have "used r' = 0" by (simp add: used_def ring_dist_def)
  then have "content r' = []" by (simp add: content_def)
  with r'(1,2) write_inv [OF inv len r'(1)] show ?thesis by blast
qed

section \<open>The ring buffer is a byte queue\<close>

definition ring_front :: "ring_buffer_t \<Rightarrow> nat" where
  "ring_front r = unat (rb_head r)"

definition ring_span :: "ring_buffer_t \<Rightarrow> nat" where
  "ring_span r = unat (rb_size r) - unat (rb_head r)"

definition ring_cell :: "ring_buffer_t \<Rightarrow> nat \<Rightarrow> u8 option" where
  "ring_cell r i = rd (rb_buffer r) i"

definition ring_advance :: "ring_buffer_t \<Rightarrow> nat \<Rightarrow> ring_buffer_t option" where
  "ring_advance r n = ring_buffer_consume r (word_of_nat n)"

text \<open>The size is a parameter of the invariant; consuming moves the head only.\<close>

definition ring_at :: "u32 \<Rightarrow> ring_buffer_t \<Rightarrow> bool" where
  "ring_at n r \<longleftrightarrow> rb_inv r \<and> rb_size r = n"

lemma consume_fields: "ring_buffer_consume r k = Some r' \<Longrightarrow> rb_tail r' = rb_tail r \<and> rb_size r' = rb_size r"
  by (auto simp: ring_buffer_consume_def split: bind_splits)

interpretation ring: byte_queue content "ring_at n" ring_front ring_span ring_cell ring_advance for n
proof unfold_locales
  fix r
  assume "ring_at n r"
  then show "0 < ring_span r" using rb_inv_nat [of r] by (simp add: ring_at_def ring_span_def)
next
  fix r j
  assume "ring_at n r" and j: "j < ring_span r" "j < length (content r)"
  then have i: "rb_inv r" by (simp add: ring_at_def)
  show "ring_cell r (ring_front r + j) = Some (content r ! j)"
    using rb_inv_nat [OF i] j by (simp add: ring_cell_def ring_front_def ring_span_def rd_def content_def)
next
  fix r k
  assume at: "ring_at n r" and k: "k \<le> length (content r)"
  then have inv: "rb_inv r" by (simp add: ring_at_def)
  have "k < 2 ^ 32" using k used_less [OF inv] rb_inv_nat(2) [OF inv] by simp
  then have "unat (word_of_nat k :: u32) = k" by (simp add: unat_of_nat)
  with consume [OF inv, of "word_of_nat k"] k at
  show "\<exists>r'. ring_advance r k = Some r' \<and> ring_at n r' \<and> content r' = drop k (content r)"
    by (auto simp: ring_advance_def ring_at_def)
qed

section \<open>Properties\<close>

text \<open>
  C27. A write below the free space appends exactly its data to the queued bytes, reports all of it
  written, touches only allocated cells and keeps the invariant, also when it wraps around the end.
\<close>

theorem ring_write_appends:
  assumes "rb_inv r" and "unat data_length \<le> length data" and "unat data_length < unat (rb_size r) - used r"
  shows "\<exists>r'. ring_buffer_write r data data_length = Some (r', data_length) \<and> rb_inv r' \<and>
    content r' = content r @ take (unat data_length) data"
  using write_appends [OF assms(1,2)] assms(3) by (simp add: room_def)

theorem ring_write_appends_witness:
  "\<exists>r'. ring_buffer_write \<lparr>rb_size = 4, rb_head = 2, rb_tail = 3, rb_buffer = [0, 0, 7, 0]\<rparr> [8, 9] 2
      = Some (r', 2) \<and> rb_inv r' \<and> content r' = [7, 8, 9]"
  using ring_write_appends [of "\<lparr>rb_size = 4, rb_head = 2, rb_tail = 3, rb_buffer = [0, 0, 7, 0]\<rparr>" 2 "[8, 9]"]
  by (simp add: rb_inv_def used_def ring_dist_def content_def)

text \<open>
  A write that fills the buffer empties it: when the data is at least as long as the free
  space, the write reports the whole free space as written, but \<open>tail\<close> meets \<open>head\<close> and both
  the old content and the new data are gone.
\<close>

theorem ring_write_full_loses:
  assumes "rb_inv r" and "unat data_length \<le> length data" and "unat (rb_size r) - used r \<le> unat data_length"
  shows "\<exists>r' a. ring_buffer_write r data data_length = Some (r', a) \<and>
    unat a = unat (rb_size r) - used r \<and> content r' = [] \<and> ring_buffer_used_space r' = Some 0"
proof -
  obtain r' a where w: "ring_buffer_write r data data_length = Some (r', a)"
    "unat a = room r" "rb_inv r'" "content r' = []"
    using write_fills [OF assms(1,2)] assms(3) by (auto simp: room_def)
  moreover obtain u where "ring_buffer_used_space r' = Some u" "unat u = used r'"
    using used_space [OF w(3)] by blast
  moreover have "used r' = 0" using w(4) length_content [of r'] by simp
  ultimately show ?thesis by (auto simp: room_def simp flip: unat_eq_0)
qed

theorem ring_write_full_loses_witness:
  "\<exists>r' a. ring_buffer_write \<lparr>rb_size = 4, rb_head = 2, rb_tail = 3, rb_buffer = [0, 0, 7, 0]\<rparr> [8, 9, 10] 3
      = Some (r', a) \<and> unat a = 3 \<and> content r' = [] \<and> ring_buffer_used_space r' = Some 0"
  using ring_write_full_loses [of "\<lparr>rb_size = 4, rb_head = 2, rb_tail = 3, rb_buffer = [0, 0, 7, 0]\<rparr>" 3 "[8, 9, 10]"]
  by (simp add: rb_inv_def used_def ring_dist_def)

end
