(* ===== verification/UartReceive.thy ===== *)
theory UartReceive
  imports RingBuffer
begin

text \<open>
  The receive path of \<open>Platform/MCU/STM32F4xx/peripherals/platform_uart.c\<close>: the thread that calls
  \<open>platform_uart_receive_bytes\<close> and the interrupt that fills the ring buffer, as they run concurrently. The thread is a
  machine with a program counter (\<open>uart_reader\<close>), one access of the shared driver per step and
  one step per byte of the \<open>memcpy\<close>; between any two of its steps bytes arrive (\<open>uart_rx_byte\<close>): the circular DMA stores a
  byte at offset \<open>size - NDTR\<close> and counts \<open>NDTR\<close> down from \<open>size\<close> (the documented behaviour of the
  peripheral), then \<open>platform_uart_irq\<close> moves the tail and may wake the thread. The interrupt of a byte is served before the next byte arrives.
  A wait for the semaphore ends when it is set or, at any moment at which it is not, by a timeout.
\<close>

record platform_uart_driver_t =
  rx_buffer :: "ring_buffer_t option"
  rx_size :: u32
  last_receive_result :: OSStatus
  rx_complete :: bool
  NDTR :: u32

definition platform_uart_get_length_in_buffer :: "platform_uart_driver_t \<Rightarrow> u32 option" where
  "platform_uart_get_length_in_buffer d = Option.bind (rx_buffer d) ring_buffer_used_space"

definition platform_uart_irq :: "platform_uart_driver_t \<Rightarrow> platform_uart_driver_t option" where
  "platform_uart_irq d = do {
     r \<leftarrow> rx_buffer d;
     let r = r\<lparr>rb_tail := rb_size r - NDTR d\<rparr>;
     let d = d\<lparr>rx_buffer := Some r\<rparr>;
     u \<leftarrow> ring_buffer_used_space r;
     Some (if 0 < rx_size d \<and> rx_size d \<le> u then d\<lparr>rx_complete := True, rx_size := 0\<rparr> else d)
   }"

definition uart_rx_byte :: "platform_uart_driver_t \<Rightarrow> u8 \<Rightarrow> platform_uart_driver_t option" where
  "uart_rx_byte d x = do {
     r \<leftarrow> rx_buffer d;
     b \<leftarrow> wr (rb_buffer r) (unat (rb_size r - NDTR d)) x;
     platform_uart_irq (d\<lparr>rx_buffer := Some (r\<lparr>rb_buffer := b\<rparr>),
       NDTR := (if NDTR d = 1 then rb_size r else NDTR d - 1)\<rparr>)
   }"

section \<open>The reader\<close>

text \<open>
  Where the thread is, with \<open>transfer_size\<close>: in front of the test of the outer loop, of the check of the used space, of the
  assignments of \<open>last_receive_result\<close> and \<open>rx_size\<close>, in the wait, behind it with its status, in front of
  \<open>err = last_receive_result\<close>, of \<open>ring_buffer_get_data\<close>, in the copying of \<open>bytes_available\<close> bytes from the offset
  \<open>available_data\<close>, some of them copied already, in front of the test of the inner loop, and at the end.
\<close>

datatype uart_pc =
    Loop
  | Check u32
  | Arm u32
  | Wait u32
  | Woken OSStatus u32
  | Fetch u32
  | Grab u32
  | Copy nat u32 nat u32
  | Test u32
  | Done

text \<open>A call in progress: \<open>expected_data_size\<close>, \<open>err\<close> and the bytes stored at \<open>data_in\<close> so far.\<close>

record uart_call =
  uc_driver :: platform_uart_driver_t
  uc_pc :: uart_pc
  uc_expected :: u32
  uc_err :: OSStatus
  uc_data :: bytes

definition uart_reader :: "bool \<Rightarrow> uart_call \<Rightarrow> uart_call option" where
  "uart_reader timed_out s =
     (let d = uc_driver s in
      case uc_pc s of
        Loop \<Rightarrow>
          if uc_expected s = 0 then Some (s\<lparr>uc_pc := Done\<rparr>)
          else do { r \<leftarrow> rx_buffer d; Some (s\<lparr>uc_pc := Check (min (rb_size r div 2) (uc_expected s))\<rparr>) }
      | Check t \<Rightarrow> do {
          u \<leftarrow> platform_uart_get_length_in_buffer d;
          Some (s\<lparr>uc_pc := (if u < t then Arm t else Fetch t)\<rparr>)
        }
      | Arm t \<Rightarrow> Some (s\<lparr>uc_driver := d\<lparr>last_receive_result := kNoErr, rx_size := t\<rparr>, uc_pc := Wait t\<rparr>)
      | Wait t \<Rightarrow> Some
          (if rx_complete d then s\<lparr>uc_driver := d\<lparr>rx_complete := False\<rparr>, uc_pc := Woken kNoErr t\<rparr>
           else if timed_out then s\<lparr>uc_pc := Woken kTimeoutErr t\<rparr> else s)
      | Woken e t \<Rightarrow> Some
          (s\<lparr>uc_driver := d\<lparr>rx_size := 0\<rparr>, uc_err := e, uc_pc := (if e \<noteq> kNoErr then Done else Fetch t)\<rparr>)
      | Fetch t \<Rightarrow> Some (s\<lparr>uc_err := last_receive_result d, uc_expected := uc_expected s - t, uc_pc := Grab t\<rparr>)
      | Grab t \<Rightarrow> do {
          r \<leftarrow> rx_buffer d;
          (p, n) \<leftarrow> ring_buffer_get_data r;
          Some (s\<lparr>uc_pc := Copy (unat p) (min n t) 0 t\<rparr>)
        }
      | Copy p n j t \<Rightarrow>
          if j < unat n then do {
            r \<leftarrow> rx_buffer d;
            x \<leftarrow> rd (rb_buffer r) (p + j);
            Some (s\<lparr>uc_data := uc_data s @ [x], uc_pc := Copy p n (Suc j) t\<rparr>)
          }
          else do {
            r \<leftarrow> rx_buffer d;
            r \<leftarrow> ring_buffer_consume r n;
            Some (s\<lparr>uc_driver := d\<lparr>rx_buffer := Some r\<rparr>, uc_pc := Test (t - n)\<rparr>)
          }
      | Test t \<Rightarrow> Some (s\<lparr>uc_pc := (if t \<noteq> 0 then Grab t else Loop)\<rparr>)
      | Done \<Rightarrow> Some s)"

text \<open>
  The call. Without a ring buffer the DMA writes to \<open>data_in\<close> directly (\<open>receive_bytes\<close>, a
  parameter: the driver, the bytes and the status when it returns).
\<close>

definition platform_uart_receive_bytes ::
  "(platform_uart_driver_t \<Rightarrow> u32 \<Rightarrow> (platform_uart_driver_t \<times> bytes \<times> OSStatus) option) \<Rightarrow>
     platform_uart_driver_t \<Rightarrow> u32 \<Rightarrow> uart_call option" where
  "platform_uart_receive_bytes receive_bytes d expected_data_size =
     (let s = \<lparr>uc_driver = d, uc_pc = Loop, uc_expected = expected_data_size, uc_err = kNoErr, uc_data = []\<rparr> in
      if expected_data_size = 0 then Some (s\<lparr>uc_pc := Done, uc_err := kParamErr\<rparr>)
      else case rx_buffer d of
        None \<Rightarrow> do {
          (d, bs, err) \<leftarrow> receive_bytes d expected_data_size;
          Some (s\<lparr>uc_driver := d, uc_pc := Done, uc_err := err, uc_data := bs\<rparr>)
        }
      | Some r \<Rightarrow> Some s)"

section \<open>Runs\<close>

text \<open>A byte that arrives now would fill the last cell, after which head and tail are equal and the ring looks empty.\<close>

definition ring_full :: "platform_uart_driver_t \<Rightarrow> bool" where
  "ring_full d = (case rx_buffer d of None \<Rightarrow> False | Some r \<Rightarrow> room r \<le> 1)"

text \<open>
  Runs from a state, with the number of moves of the reader, the bytes that have arrived and whether one of them found
  the ring full. A step in which the reader stays where it is - it waits, or has ended - is no move.
\<close>

inductive uart_run :: "uart_call \<Rightarrow> nat \<Rightarrow> bytes \<Rightarrow> bool \<Rightarrow> uart_call \<Rightarrow> bool" for s where
  start: "uart_run s 0 [] False s"
| reader: "uart_run s k line over s1 \<Longrightarrow> uart_reader timed_out s1 = Some s2 \<Longrightarrow>
    uart_run s (if s2 = s1 then k else Suc k) line over s2"
| byte: "uart_run s k line over s1 \<Longrightarrow> uart_rx_byte (uc_driver s1) x = Some d \<Longrightarrow>
    uart_run s k (line @ [x]) (over \<or> ring_full (uc_driver s1)) (s1\<lparr>uc_driver := d\<rparr>)"

section \<open>The driver between two bytes\<close>

definition uart_ok :: "platform_uart_driver_t \<Rightarrow> ring_buffer_t \<Rightarrow> bool" where
  "uart_ok d r \<longleftrightarrow> rx_buffer d = Some r \<and> rb_inv r \<and> 2 \<le> rb_size r \<and> last_receive_result d = kNoErr \<and>
     0 < NDTR d \<and> NDTR d \<le> rb_size r \<and> rb_tail r = rb_size r - NDTR d"

text \<open>A byte arrives: it is queued when there is room for it.\<close>

lemma write_one:
  assumes "rb_inv r" "1 < room r"
  shows "\<exists>r'. ring_buffer_write r [x] 1 = Some (r', 1) \<and> rb_inv r' \<and> content r' = content r @ [x] \<and>
    r' = r\<lparr>rb_buffer := (rb_buffer r)[unat (rb_tail r) := x], rb_tail := rb_tail r'\<rparr> \<and>
    unat (rb_tail r') = (unat (rb_tail r) + 1) mod unat (rb_size r)"
proof -
  obtain r' where w: "ring_buffer_write r [x] 1 = Some (r', 1)" "rb_inv r'"
      "content r' = content r @ [x]"
    using write_appends [of r 1 "[x]"] assms by auto
  note i = rb_inv_nat [OF assms(1)]
  have e: "1 \<le> rb_size r - rb_tail r"
    using i by (simp add: word_le_nat_alt unat_minus_le)
  have m: "memcpy (rb_buffer r) (unat (rb_tail r)) [x] 0 1 = Some ((rb_buffer r)[unat (rb_tail r) := x])"
    using i by (simp add: memcpy_def blit_def slice_def upd_conv_take_nth_drop)
  obtain rr a where "ring_buffer_write r [x] 1 = Some (rr, a)"
      "unat (rb_tail rr) = (unat (rb_tail r) + unat a) mod unat (rb_size r)"
    using write_cells [OF assms(1), of 1 "[x]"] by auto
  then have t: "unat (rb_tail r') = (unat (rb_tail r) + 1) mod unat (rb_size r)"
    using w(1) by simp
  have "r' = r\<lparr>rb_buffer := (rb_buffer r)[unat (rb_tail r) := x], rb_tail := rb_tail r'\<rparr>"
    using w(1) e m unfolding ring_buffer_write_def
    by (auto simp: Let_def min_def bind_eq_Some_conv split: if_splits)
  with w t show ?thesis by blast
qed

lemma uart_rx_byte_queues:
  assumes ok: "uart_ok d r" and rm: "1 < room r"
  shows "\<exists>d' r'. uart_rx_byte d x = Some d' \<and> uart_ok d' r' \<and> content r' = content r @ [x] \<and>
    rb_size r' = rb_size r \<and> rb_head r' = rb_head r \<and>
    (if 0 < rx_size d \<and> unat (rx_size d) \<le> Suc (used r) then rx_complete d' \<and> rx_size d' = 0
     else rx_complete d' = rx_complete d \<and> rx_size d' = rx_size d)"
proof -
  have inv: "rb_inv r" using ok by (simp add: uart_ok_def)
  obtain r' where w: "rb_inv r'" "content r' = content r @ [x]"
    "r' = r\<lparr>rb_buffer := (rb_buffer r)[unat (rb_tail r) := x], rb_tail := rb_tail r'\<rparr>"
    "unat (rb_tail r') = (unat (rb_tail r) + 1) mod unat (rb_size r)"
    using write_one [OF inv rm] by blast
  note i = rb_inv_nat [OF inv]
  define n where "n = (if NDTR d = 1 then rb_size r else NDTR d - 1)"
  have nd: "0 < unat (NDTR d)" "unat (NDTR d) \<le> unat (rb_size r)" "2 \<le> unat (rb_size r)"
    using ok by (auto simp: uart_ok_def word_less_nat_alt word_le_nat_alt)
  have t: "unat (rb_tail r) = unat (rb_size r) - unat (NDTR d)"
    using ok nd by (simp add: uart_ok_def unat_minus_le)
  have n: "0 < unat n" "unat n \<le> unat (rb_size r)"
    "unat (rb_size r) - unat n = (unat (rb_tail r) + 1) mod unat (rb_size r)"
  proof -
    have "unat n = (if unat (NDTR d) = 1 then unat (rb_size r) else unat (NDTR d) - 1)"
      using nd by (auto simp: n_def word_unat_eq_iff unat_minus_le)
    then show "0 < unat n" "unat n \<le> unat (rb_size r)"
      "unat (rb_size r) - unat n = (unat (rb_tail r) + 1) mod unat (rb_size r)"
      using nd t by auto
  qed
  have tail: "rb_size r - n = rb_tail r'"
    using n w(4) by (simp add: word_unat_eq_iff unat_minus_le)
  have pos: "rb_size r - NDTR d = rb_tail r" using ok by (simp add: uart_ok_def)
  obtain u where u: "ring_buffer_used_space r' = Some u" "unat u = Suc (used r)"
    using used_space [OF w(1)] length_content [of r'] w(2) by auto
  have r': "r\<lparr>rb_buffer := (rb_buffer r)[unat (rb_tail r) := x], rb_tail := rb_tail r'\<rparr> = r'"
    using w(3) by simp
  define d' where "d' = d\<lparr>rx_buffer := Some r', NDTR := n\<rparr>"
  let ?d = "if 0 < rx_size d \<and> rx_size d \<le> u then d'\<lparr>rx_complete := True, rx_size := 0\<rparr> else d'"
  have "uart_rx_byte d x = Some ?d"
    using ok i unfolding uart_rx_byte_def platform_uart_irq_def d'_def
    by (simp add: uart_ok_def wr_def pos tail r' u(1) Let_def flip: n_def)
  moreover have "rb_size r' = rb_size r" "rb_head r' = rb_head r" by (subst w(3), simp)+
  moreover have "uart_ok ?d r'"
    using ok w(1) n calculation(2) tail
    by (simp add: uart_ok_def d'_def word_less_nat_alt word_le_nat_alt)
  moreover have "rx_size d \<le> u \<longleftrightarrow> unat (rx_size d) \<le> Suc (used r)" by (simp add: word_le_nat_alt u(2))
  ultimately show ?thesis
    using w(2) by (intro exI [of _ ?d] exI [of _ r']) (simp add: d'_def)
qed

section \<open>The invariant of a call\<close>

text \<open>How many bytes of the front of the ring are copied but not yet consumed.\<close>

fun copied :: "uart_pc \<Rightarrow> nat" where
  "copied (Copy p n j t) = j"
| "copied _ = 0"

definition quiet :: "platform_uart_driver_t \<Rightarrow> bool" where
  "quiet d \<longleftrightarrow> rx_size d = 0 \<and> \<not> rx_complete d"

text \<open>What holds at each place of the code, for a call of \<open>n\<close> bytes with \<open>m\<close> of them stored and \<open>e\<close> expected.\<close>

fun pc_ok :: "nat \<Rightarrow> nat \<Rightarrow> nat \<Rightarrow> platform_uart_driver_t \<Rightarrow> ring_buffer_t \<Rightarrow> uart_pc \<Rightarrow> bool" where
  "pc_ok n m e d r Loop \<longleftrightarrow> m + e = n \<and> quiet d"
| "pc_ok n m e d r (Check t) \<longleftrightarrow> m + e = n \<and> 0 < unat t \<and> unat t \<le> e \<and> quiet d"
| "pc_ok n m e d r (Arm t) \<longleftrightarrow> m + e = n \<and> 0 < unat t \<and> unat t \<le> e \<and> quiet d"
| "pc_ok n m e d r (Wait t) \<longleftrightarrow> m + e = n \<and> 0 < unat t \<and> unat t \<le> e \<and>
     (if rx_complete d then rx_size d = 0 \<and> unat t \<le> used r else rx_size d = t)"
| "pc_ok n m e d r (Woken err t) \<longleftrightarrow> m + e = n \<and> 0 < unat t \<and> unat t \<le> e \<and>
     (err = kNoErr \<and> quiet d \<and> unat t \<le> used r \<or> err = kTimeoutErr)"
| "pc_ok n m e d r (Fetch t) \<longleftrightarrow> m + e = n \<and> 0 < unat t \<and> unat t \<le> e \<and> unat t \<le> used r \<and> quiet d"
| "pc_ok n m e d r (Grab t) \<longleftrightarrow> m + e + unat t = n \<and> 0 < unat t \<and> unat t \<le> used r \<and> quiet d"
| "pc_ok n m e d r (Copy p k j t) \<longleftrightarrow> m + e + unat t = n + j \<and> 0 < unat k \<and> j \<le> unat k \<and> unat k \<le> unat t \<and>
     unat t \<le> used r \<and> p = ring_front r \<and> unat k \<le> ring_span r \<and> quiet d"
| "pc_ok n m e d r (Test t) \<longleftrightarrow> m + e + unat t = n \<and> unat t \<le> used r \<and> quiet d"
| "pc_ok n m e d r Done \<longleftrightarrow> True"

definition call_ok :: "nat \<Rightarrow> bytes \<Rightarrow> uart_call \<Rightarrow> bool" where
  "call_ok n w s \<longleftrightarrow> (\<exists>r. uart_ok (uc_driver s) r \<and> ring.taken (rb_size r) (uc_data s) (copied (uc_pc s)) r w \<and>
     pc_ok n (length (uc_data s)) (unat (uc_expected s)) (uc_driver s) r (uc_pc s) \<and>
     (if uc_pc s = Done then uc_err s = kNoErr \<and> length (uc_data s) = n \<or> uc_err s = kTimeoutErr \<and> length (uc_data s) < n
      else uc_err s = kNoErr))"

text \<open>How many moves are left at most.\<close>

fun uart_work :: "nat \<Rightarrow> uart_pc \<Rightarrow> nat" where
  "uart_work e Loop = 12 * e + 1"
| "uart_work e (Check t) = 12 * e"
| "uart_work e (Arm t) = 12 * e - 1"
| "uart_work e (Wait t) = 12 * e - 2"
| "uart_work e (Woken err t) = 12 * e - 3"
| "uart_work e (Fetch t) = 12 * e - 4"
| "uart_work e (Grab t) = 12 * e + 5 * unat t + 2"
| "uart_work e (Copy p k j t) = 12 * e + 5 * unat t + 1 - j"
| "uart_work e (Test t) = 12 * e + 5 * unat t + 3"
| "uart_work e Done = 0"

section \<open>Every step keeps the invariant\<close>

lemma call_ok_byte:
  assumes c: "call_ok n w s" and b: "uart_rx_byte (uc_driver s) x = Some d" and room: "\<not> ring_full (uc_driver s)"
  shows "call_ok n (w @ [x]) (s\<lparr>uc_driver := d\<rparr>)"
proof -
  obtain r where r: "uart_ok (uc_driver s) r" "ring.taken (rb_size r) (uc_data s) (copied (uc_pc s)) r w"
    "pc_ok n (length (uc_data s)) (unat (uc_expected s)) (uc_driver s) r (uc_pc s)"
    "if uc_pc s = Done then uc_err s = kNoErr \<and> length (uc_data s) = n \<or> uc_err s = kTimeoutErr \<and> length (uc_data s) < n
     else uc_err s = kNoErr"
    using c by (auto simp: call_ok_def)
  have "1 < room r" using room r(1) by (simp add: ring_full_def uart_ok_def)
  from uart_rx_byte_queues [OF r(1) this, of x] b
  obtain r' where r': "uart_ok d r'" "content r' = content r @ [x]" "rb_size r' = rb_size r" "rb_head r' = rb_head r"
    "if 0 < rx_size (uc_driver s) \<and> unat (rx_size (uc_driver s)) \<le> Suc (used r) then rx_complete d \<and> rx_size d = 0
     else rx_complete d = rx_complete (uc_driver s) \<and> rx_size d = rx_size (uc_driver s)"
    by auto
  have u: "used r' = Suc (used r)" using r'(2) length_content [of r'] by simp
  have "ring_at (rb_size r) r'" using r'(1,3) by (simp add: ring_at_def uart_ok_def)
  then have t: "ring.taken (rb_size r') (uc_data s) (copied (uc_pc s)) r' (w @ [x])"
    using ring.taken_arrival [OF r(2) _ r'(2)] r'(3) by simp
  have f: "ring_front r' = ring_front r" "ring_span r' = ring_span r" using r'(3,4) by (simp_all add: ring_front_def ring_span_def)
  have "pc_ok n (length (uc_data s)) (unat (uc_expected s)) d r' (uc_pc s)"
    using r(3) r'(5) by (cases "uc_pc s") (auto simp: quiet_def u f word_less_nat_alt split: if_splits)
  then show ?thesis using r'(1) t r(4) by (auto simp: call_ok_def)
qed

text \<open>A step of the reader: it never faults, moves unless it waits or has ended, and every move counts down.\<close>

definition good_move :: "nat \<Rightarrow> bytes \<Rightarrow> bool \<Rightarrow> uart_call \<Rightarrow> uart_call \<Rightarrow> bool" where
  "good_move n w timed_out s s' \<longleftrightarrow> call_ok n w s' \<and>
     (if s' = s then uc_pc s = Done \<or> (\<exists>t. uc_pc s = Wait t) \<and> \<not> timed_out \<and> \<not> rx_complete (uc_driver s)
      else uart_work (unat (uc_expected s')) (uc_pc s') < uart_work (unat (uc_expected s)) (uc_pc s))"

lemma differs: "uc_pc s' \<noteq> uc_pc s \<Longrightarrow> s' \<noteq> s"
  by auto

lemma reader_copies:
  assumes c: "call_ok n w s" and pc: "uc_pc s = Copy p k j t"
  shows "\<exists>s'. uart_reader b s = Some s' \<and> good_move n w b s s'"
proof -
  obtain r where r: "uart_ok (uc_driver s) r" "ring.taken (rb_size r) (uc_data s) j r w" "uc_err s = kNoErr"
    "length (uc_data s) + unat (uc_expected s) + unat t = n + j" "0 < unat k" "j \<le> unat k" "unat k \<le> unat t"
     "unat t \<le> used r" "p = ring_front r" "unat k \<le> ring_span r" "quiet (uc_driver s)"
    using c pc by (auto simp: call_ok_def)
  have rx: "rx_buffer (uc_driver s) = Some r" "rb_inv r" using r(1) by (simp_all add: uart_ok_def)
  show ?thesis
  proof (cases "j < unat k")
    case True
    obtain x where x: "ring_cell r (ring_front r + j) = Some x" "ring.taken (rb_size r) (uc_data s @ [x]) (Suc j) r w"
      using ring.taken_copy [OF r(2)] True r(7,8,10) by force
    let ?s = "s\<lparr>uc_data := uc_data s @ [x], uc_pc := Copy p k (Suc j) t\<rparr>"
    have "uart_reader b s = Some ?s" using True pc rx(1) x(1) r(9) by (simp add: uart_reader_def ring_cell_def)
    moreover have "call_ok n w ?s" using r x(2) True by (auto simp: call_ok_def)
    moreover have "?s \<noteq> s" using pc by (intro differs) simp
    ultimately show ?thesis using True r(7) pc by (intro exI [of _ ?s]) (simp add: good_move_def)
  next
    case False
    then have j: "j = unat k" using r(6) by simp
    have a: "ring_advance r j = ring_buffer_consume r k" by (simp add: ring_advance_def j)
    obtain r' where r': "ring_buffer_consume r k = Some r'" "ring.taken (rb_size r) (uc_data s) 0 r' w" "content r' = drop j (content r)"
      using ring.taken_advance [OF r(2)] unfolding a by blast
    note same = consume_fields [OF r'(1)]
    have t': "unat (t - k) = unat t - unat k" using r(7) by (simp add: unat_minus_le)
    have u: "used r' = used r - unat k" using r'(3) length_content [of r'] j by simp
    let ?s = "s\<lparr>uc_driver := (uc_driver s)\<lparr>rx_buffer := Some r'\<rparr>, uc_pc := Test (t - k)\<rparr>"
    have "rb_inv r'" using r'(2) by (simp add: ring.taken_def ring_at_def)
    then have "uart_ok ((uc_driver s)\<lparr>rx_buffer := Some r'\<rparr>) r'" using r(1) same by (simp add: uart_ok_def)
    then have "call_ok n w ?s" using r(3-8,11) r'(2) same t' u j by (auto simp: call_ok_def quiet_def)
    moreover have "uart_reader b s = Some ?s" using False pc rx(1) r'(1) by (simp add: uart_reader_def)
    moreover have "?s \<noteq> s" using pc by (intro differs) simp
    moreover have "uart_work (unat (uc_expected ?s)) (uc_pc ?s) < uart_work (unat (uc_expected s)) (uc_pc s)"
      using r(5,7) pc t' j by simp
    ultimately show ?thesis by (intro exI [of _ ?s]) (simp only: good_move_def if_False simp_thms)
  qed
qed

lemma reader_moves:
  assumes c: "call_ok n w s"
  shows "\<exists>s'. uart_reader b s = Some s' \<and> good_move n w b s s'"
proof -
  obtain r where r: "uart_ok (uc_driver s) r" "ring.taken (rb_size r) (uc_data s) (copied (uc_pc s)) r w"
    "pc_ok n (length (uc_data s)) (unat (uc_expected s)) (uc_driver s) r (uc_pc s)"
    "if uc_pc s = Done then uc_err s = kNoErr \<and> length (uc_data s) = n \<or> uc_err s = kTimeoutErr \<and> length (uc_data s) < n
     else uc_err s = kNoErr"
    using c by (auto simp: call_ok_def)
  have rx: "rx_buffer (uc_driver s) = Some r" "rb_inv r" "last_receive_result (uc_driver s) = kNoErr" "2 \<le> unat (rb_size r)"
    using r(1) by (simp_all add: uart_ok_def word_le_nat_alt)
  have go: ?thesis
    if "uart_reader b s = Some (s\<lparr>uc_driver := d, uc_err := e, uc_expected := m, uc_pc := q\<rparr>)" "q \<noteq> uc_pc s"
      "copied q = copied (uc_pc s)" "uart_ok d r" "pc_ok n (length (uc_data s)) (unat m) d r q"
      "if q = Done then e = kNoErr \<and> length (uc_data s) = n \<or> e = kTimeoutErr \<and> length (uc_data s) < n else e = kNoErr"
      "uart_work (unat m) q < uart_work (unat (uc_expected s)) (uc_pc s)" for d e m q
  proof -
    let ?s = "s\<lparr>uc_driver := d, uc_err := e, uc_expected := m, uc_pc := q\<rparr>"
    have "call_ok n w ?s" using that r(2) by (auto simp: call_ok_def)
    moreover have "?s \<noteq> s" using that(2) by (intro differs) simp
    ultimately show ?thesis using that(1,7) by (intro exI [of _ ?s]) (simp add: good_move_def)
  qed
  show ?thesis
  proof (cases "uc_pc s")
    case Loop
    show ?thesis
    proof (cases "uc_expected s = 0")
      case True
      then show ?thesis using Loop r by (intro go [of Done 0 "uc_err s" "uc_driver s"]) (auto simp: uart_reader_def)
    next
      case False
      then have "0 < unat (uc_expected s)" by (simp add: unat_gt_0)
      moreover have "unat (min (rb_size r div 2) (uc_expected s)) = min (unat (rb_size r) div 2) (unat (uc_expected s))"
        by (simp add: unat_min unat_div)
      ultimately show ?thesis using Loop r rx False
        by (intro go [of "Check (min (rb_size r div 2) (uc_expected s))" "uc_expected s" "uc_err s" "uc_driver s"])
          (auto simp: uart_reader_def)
    qed
  next
    case (Check t)
    obtain u where u: "ring_buffer_used_space r = Some u" "unat u = used r" using used_space [OF rx(2)] by blast
    then have g: "uart_reader b s = Some (s\<lparr>uc_pc := (if used r < unat t then Arm t else Fetch t)\<rparr>)"
      using Check rx(1) by (simp add: uart_reader_def platform_uart_get_length_in_buffer_def word_less_nat_alt)
    show ?thesis using Check r g
      by (intro go [of "if used r < unat t then Arm t else Fetch t" "uc_expected s" "uc_err s" "uc_driver s"]) auto
  next
    case (Arm t)
    let ?d = "(uc_driver s)\<lparr>last_receive_result := kNoErr, rx_size := t\<rparr>"
    show ?thesis using Arm r
      by (intro go [of "Wait t" "uc_expected s" "uc_err s" ?d]) (auto simp: uart_reader_def uart_ok_def quiet_def)
  next
    case (Wait t)
    show ?thesis
    proof (cases "rx_complete (uc_driver s)")
      case True
      then show ?thesis using Wait r
        by (intro go [of "Woken kNoErr t" "uc_expected s" "uc_err s" "(uc_driver s)\<lparr>rx_complete := False\<rparr>"])
          (auto simp: uart_reader_def uart_ok_def quiet_def)
    next
      case False
      show ?thesis
      proof (cases b)
        case True
        then show ?thesis using Wait r False
          by (intro go [of "Woken kTimeoutErr t" "uc_expected s" "uc_err s" "uc_driver s"]) (auto simp: uart_reader_def)
      next
        case nt: False
        then have "uart_reader b s = Some s" using Wait False by (simp add: uart_reader_def)
        then show ?thesis using c Wait nt False by (intro exI [of _ s]) (simp add: good_move_def)
      qed
    qed
  next
    case (Woken e t)
    show ?thesis using Woken r
      by (intro go [of "if e \<noteq> kNoErr then Done else Fetch t" "uc_expected s" e "(uc_driver s)\<lparr>rx_size := 0\<rparr>"])
        (auto simp: uart_reader_def uart_ok_def quiet_def)
  next
    case (Fetch t)
    then have e: "unat (uc_expected s - t) = unat (uc_expected s) - unat t" "unat t \<le> unat (uc_expected s)" "0 < unat t"
      using r(3) by (simp_all add: unat_minus_le)
    show ?thesis using Fetch r rx(3) e
      by (intro go [of "Grab t" "uc_expected s - t" kNoErr "uc_driver s"]) (auto simp: uart_reader_def)
  next
    case (Grab t)
    obtain k where k: "ring_buffer_get_data r = Some (rb_head r, k)" "unat k = min (ring_span r) (used r)"
      using get_data [OF rx(2)] by (auto simp: ring_span_def)
    have "0 < ring_span r" using rb_inv_nat [OF rx(2)] by (simp add: ring_span_def)
    then show ?thesis using Grab r rx(1) k
      by (intro go [of "Copy (unat (rb_head r)) (min k t) 0 t" "uc_expected s" "uc_err s" "uc_driver s"])
        (auto simp: uart_reader_def unat_min ring_front_def)
  next
    case (Copy p k j t)
    then show ?thesis using reader_copies [OF c] by blast
  next
    case (Test t)
    show ?thesis using Test r
      by (intro go [of "if t \<noteq> 0 then Grab t else Loop" "uc_expected s" "uc_err s" "uc_driver s"])
        (auto simp: uart_reader_def unat_gt_0)
  next
    case Done
    then have "uart_reader b s = Some s" by (simp add: uart_reader_def)
    then show ?thesis using c Done by (intro exI [of _ s]) (simp add: good_move_def)
  qed
qed

lemma uart_run_ok:
  assumes "uart_run s k line over s'" and "call_ok n w s" and "\<not> over"
  shows "call_ok n (w @ line) s' \<and> k + uart_work (unat (uc_expected s')) (uc_pc s') \<le> uart_work (unat (uc_expected s)) (uc_pc s)"
  using assms
proof (induction rule: uart_run.induct)
  case start
  then show ?case by simp
next
  case (reader k line over s1 timed_out s2)
  then have c: "call_ok n (w @ line) s1" by blast
  have "good_move n (w @ line) timed_out s1 s2" using reader_moves [OF c, of timed_out] reader.hyps(2) by auto
  then show ?case using reader by (auto simp: good_move_def split: if_splits)
next
  case (byte k line over s1 x d)
  then have "call_ok n (w @ line) s1" "\<not> ring_full (uc_driver s1)" by auto
  from call_ok_byte [OF this(1) byte.hyps(2) this(2)] show ?case using byte by auto
qed

section \<open>What can go wrong\<close>

text \<open>A byte that arrives at a full ring makes it look empty: all queued bytes are lost with it.\<close>

lemma full_ring_empties:
  assumes ok: "uart_ok d r" and full: "room r = 1"
  shows "\<exists>d' r'. uart_rx_byte d x = Some d' \<and> rx_buffer d' = Some r' \<and> content r' = []"
proof -
  have inv: "rb_inv r" using ok by (simp add: uart_ok_def)
  note i = rb_inv_nat [OF inv]
  define n where "n = (if NDTR d = 1 then rb_size r else NDTR d - 1)"
  have nd: "0 < unat (NDTR d)" "unat (NDTR d) \<le> unat (rb_size r)" "2 \<le> unat (rb_size r)"
    using ok by (auto simp: uart_ok_def word_less_nat_alt word_le_nat_alt)
  have t: "unat (rb_tail r) = unat (rb_size r) - unat (NDTR d)"
    using ok nd by (simp add: uart_ok_def unat_minus_le)
  have un: "unat n = (if unat (NDTR d) = 1 then unat (rb_size r) else unat (NDTR d) - 1)"
    using nd by (auto simp: n_def word_unat_eq_iff unat_minus_le)
  have pos: "rb_size r - NDTR d = rb_tail r" using ok by (simp add: uart_ok_def)
  let ?r = "r\<lparr>rb_buffer := (rb_buffer r)[unat (rb_tail r) := x], rb_tail := rb_size r - n\<rparr>"
  have tail: "unat (rb_size r - n) = unat (rb_size r) - unat n" using nd un by (intro unat_minus_le) auto
  then have "unat (rb_tail ?r) = unat (rb_head r)"
    using full nd t un i by (auto simp: room_def used_def ring_dist_def split: if_splits)
  then have u: "used ?r = 0" by (simp add: used_def ring_dist_def)
  have "rb_inv ?r" using inv i nd un tail by (simp add: rb_inv_def word_less_nat_alt split: if_splits)
  from used_space [OF this] obtain k where "ring_buffer_used_space ?r = Some k" by blast
  then have "\<exists>d'. uart_rx_byte d x = Some d' \<and> rx_buffer d' = Some ?r"
    using ok i by (auto simp: uart_rx_byte_def platform_uart_irq_def uart_ok_def wr_def pos Let_def simp flip: n_def)
  moreover have "content ?r = []" using u by (simp add: content_def)
  ultimately show ?thesis by blast
qed

text \<open>
  The last byte that is missing arrives between the check of the used space and the assignment of \<open>rx_size\<close>: the
  interrupt sees \<open>rx_size = 0\<close> and does not wake the reader, which then waits - for another byte or the
  timeout - although the data are there.
\<close>

lemma wakeup_missed:
  assumes "uart_ok (uc_driver s) r" and "uc_pc s = Arm t" and "quiet (uc_driver s)" and "used r + 1 = unat t" and "1 < room r"
  shows "\<exists>s1 r1. uart_run s 1 [x] False s1 \<and> uart_ok (uc_driver s1) r1 \<and> content r1 = content r @ [x] \<and> used r1 = unat t \<and>
    uc_pc s1 = Wait t \<and> uart_reader False s1 = Some s1 \<and> uart_reader True s1 = Some (s1\<lparr>uc_pc := Woken kTimeoutErr t\<rparr>)"
proof -
  obtain d r1 where d: "uart_rx_byte (uc_driver s) x = Some d" "uart_ok d r1" "content r1 = content r @ [x]"
    "rx_complete d = rx_complete (uc_driver s)"
    using uart_rx_byte_queues [OF assms(1,5), of x] assms(3) by (auto simp: quiet_def)
  let ?s0 = "s\<lparr>uc_driver := d\<rparr>"
  let ?s1 = "?s0\<lparr>uc_driver := d\<lparr>last_receive_result := kNoErr, rx_size := t\<rparr>, uc_pc := Wait t\<rparr>"
  have full: "\<not> ring_full (uc_driver s)" using assms(1,5) by (simp add: ring_full_def uart_ok_def)
  have "uart_run s 0 ([] @ [x]) (False \<or> ring_full (uc_driver s)) ?s0"
    by (rule uart_run.byte [OF uart_run.start d(1)])
  then have 0: "uart_run s 0 [x] False ?s0" using full by simp
  have "uart_reader False ?s0 = Some ?s1" using assms(2) by (simp add: uart_reader_def)
  from uart_run.reader [OF 0 this] have "uart_run s (if ?s1 = ?s0 then 0 else Suc 0) [x] False ?s1" .
  moreover have "?s1 \<noteq> ?s0" using assms(2) by (intro differs) simp
  ultimately have run: "uart_run s 1 [x] False ?s1" by (simp only: if_False One_nat_def)
  have "used r1 = unat t" using arg_cong [OF d(3), of length] assms(4) by simp
  then show ?thesis
    using run d(2-4) assms(3) by (intro exI [of _ ?s1] exI [of _ r1]) (simp add: uart_ok_def uart_reader_def quiet_def)
qed

section \<open>Properties\<close>

text \<open>
  C34. A receive of \<open>n\<close> bytes through the ring buffer, with bytes arriving at any moment between the steps of the reader and the wait
  timing out at any moment at which the semaphore is not set. In every such run the bytes stored at \<open>data_in\<close> and
  the queued bytes behind those copied from the ring are together the bytes that were queued at the call
  followed by those that have arrived: none is lost, duplicated or reordered. At most \<open>n\<close> bytes are stored; when the call
  has returned its status is \<open>kNoErr\<close> with exactly \<open>n\<close> bytes stored, or \<open>kTimeoutErr\<close> with fewer. The
  reader never faults, it stays where it is only in the wait with the semaphore not set and at the end, and it ends after at most \<open>12 * n + 1\<close> other
  steps. Provisos: the driver has a ring buffer; no byte arrives at a full ring (it would empty it, \<open>full_ring_empties\<close>);
  at the call nothing is left of an earlier one, neither \<open>rx_size\<close> nor the semaphore. A timeout does not
  mean that the bytes are missing (\<open>wakeup_missed\<close>).
\<close>

theorem uart_receive_in_order:
  assumes "uart_ok d r" and "rx_size d = 0" and "\<not> rx_complete d" and "n \<noteq> 0"
    and "platform_uart_receive_bytes dma d n = Some s" and "uart_run s moves line False s'"
  shows "(\<exists>r'. uart_ok (uc_driver s') r' \<and> copied (uc_pc s') \<le> length (content r') \<and>
      uc_data s' @ drop (copied (uc_pc s')) (content r') = content r @ line) \<and>
    length (uc_data s') \<le> unat n \<and>
    (uc_pc s' = Done \<longrightarrow> uc_err s' = kNoErr \<and> length (uc_data s') = unat n \<or>
       uc_err s' = kTimeoutErr \<and> length (uc_data s') < unat n) \<and>
    (\<forall>timed_out. \<exists>s''. uart_reader timed_out s' = Some s'' \<and>
       (s'' = s' \<longrightarrow> uc_pc s' = Done \<or> (\<exists>t. uc_pc s' = Wait t) \<and> \<not> timed_out \<and> \<not> rx_complete (uc_driver s'))) \<and>
    moves \<le> 12 * unat n + 1"
proof -
  have s: "s = \<lparr>uc_driver = d, uc_pc = Loop, uc_expected = n, uc_err = kNoErr, uc_data = []\<rparr>"
    using assms(1,4,5) by (simp add: platform_uart_receive_bytes_def uart_ok_def Let_def)
  have "ring.taken (rb_size r) [] 0 r (content r)" using assms(1) by (simp add: ring.taken_def ring_at_def uart_ok_def)
  then have "call_ok (unat n) (content r) s" using assms(1-3) by (auto simp: s call_ok_def quiet_def)
  from uart_run_ok [OF assms(6) this] have ok: "call_ok (unat n) (content r @ line) s'" and m: "moves \<le> 12 * unat n + 1"
    by (auto simp: s)
  obtain r' where r': "uart_ok (uc_driver s') r'" "ring.taken (rb_size r') (uc_data s') (copied (uc_pc s')) r' (content r @ line)"
    "pc_ok (unat n) (length (uc_data s')) (unat (uc_expected s')) (uc_driver s') r' (uc_pc s')"
    "uc_pc s' = Done \<longrightarrow> uc_err s' = kNoErr \<and> length (uc_data s') = unat n \<or>
       uc_err s' = kTimeoutErr \<and> length (uc_data s') < unat n"
    using ok by (auto simp: call_ok_def split: if_splits)
  have "length (uc_data s') \<le> unat n" using r'(3,4) by (cases "uc_pc s'") auto
  moreover have "\<forall>b. \<exists>s''. uart_reader b s' = Some s'' \<and>
       (s'' = s' \<longrightarrow> uc_pc s' = Done \<or> (\<exists>t. uc_pc s' = Wait t) \<and> \<not> b \<and> \<not> rx_complete (uc_driver s'))"
  proof
    fix b
    obtain s'' where "uart_reader b s' = Some s''" "good_move (unat n) (content r @ line) b s' s''"
      using reader_moves [OF ok, of b] by blast
    then show "\<exists>s''. uart_reader b s' = Some s'' \<and>
       (s'' = s' \<longrightarrow> uc_pc s' = Done \<or> (\<exists>t. uc_pc s' = Wait t) \<and> \<not> b \<and> \<not> rx_complete (uc_driver s'))"
      by (auto simp: good_move_def)
  qed
  ultimately show ?thesis using r'(1,2,4) m unfolding ring.taken_def by blast
qed

text \<open>Some moves of the reader in a row, without a timeout.\<close>

fun uart_moves :: "nat \<Rightarrow> uart_call \<Rightarrow> uart_call option" where
  "uart_moves 0 s = Some s"
| "uart_moves (Suc k) s = Option.bind (uart_reader False s) (uart_moves k)"

lemma uart_moves_run:
  "uart_moves m s1 = Some s' \<Longrightarrow> uart_run s k line over s1 \<Longrightarrow> \<exists>k'. uart_run s k' line over s'"
proof (induction m arbitrary: s1 k)
  case (Suc m)
  then obtain s2 where "uart_reader False s1 = Some s2" "uart_moves m s2 = Some s'" by (auto split: bind_splits)
  then show ?case using Suc.IH uart_run.reader [OF Suc.prems(2)] by blast
qed auto

definition sample_driver :: platform_uart_driver_t where
  "sample_driver = \<lparr>rx_buffer = Some \<lparr>rb_size = 4, rb_head = 2, rb_tail = 3, rb_buffer = [0, 0, 7, 0]\<rparr>, rx_size = 0,
     last_receive_result = kNoErr, rx_complete = False, NDTR = 1\<rparr>"

definition sample_call :: uart_call where
  "sample_call = \<lparr>uc_driver = sample_driver, uc_pc = Loop, uc_expected = 3, uc_err = kNoErr, uc_data = []\<rparr>"

text \<open>Three bytes: one is queued, one arrives before the call looks, one while it copies the first two.\<close>

theorem uart_receive_in_order_witness:
  "\<exists>moves s'. uart_run sample_call moves [8, 9] False s' \<and> uc_pc s' = Done \<and> uc_err s' = kNoErr \<and> uc_data s' = [7, 8, 9]"
proof -
  obtain d1 where d1: "uart_rx_byte sample_driver 8 = Some d1" "\<not> ring_full sample_driver"
    "d1 = \<lparr>rx_buffer = Some \<lparr>rb_size = 4, rb_head = 2, rb_tail = 0, rb_buffer = [0, 0, 7, 8]\<rparr>, rx_size = 0,
       last_receive_result = kNoErr, rx_complete = False, NDTR = 4\<rparr>"
    by (simp add: sample_driver_def uart_rx_byte_def platform_uart_irq_def ring_buffer_used_space_def umod_def wr_def Let_def
        ring_full_def room_def used_def ring_dist_def)
  have "uart_run sample_call 0 ([] @ [8]) (False \<or> ring_full (uc_driver sample_call)) (sample_call\<lparr>uc_driver := d1\<rparr>)"
    by (rule uart_run.byte [OF uart_run.start]) (simp add: sample_call_def d1(1))
  then have 1: "uart_run sample_call 0 [8] False (sample_call\<lparr>uc_driver := d1\<rparr>)" using d1(2) by (simp add: sample_call_def)
  define s2 where "s2 = \<lparr>uc_driver = d1, uc_pc = Copy 2 2 1 2, uc_expected = 1, uc_err = kNoErr, uc_data = [7]\<rparr>"
  have "uart_moves 5 (sample_call\<lparr>uc_driver := d1\<rparr>) = Some s2"
    unfolding s2_def d1(3) sample_call_def by code_simp
  then obtain k where 2: "uart_run sample_call k [8] False s2" using uart_moves_run [OF _ 1] by blast
  define d3 where "d3 = \<lparr>rx_buffer = Some \<lparr>rb_size = 4, rb_head = 2, rb_tail = 1, rb_buffer = [9, 0, 7, 8]\<rparr>, rx_size = 0,
       last_receive_result = kNoErr, rx_complete = False, NDTR = 3\<rparr>"
  have b: "uart_rx_byte d1 9 = Some d3" "\<not> ring_full d1"
    by (simp_all add: d1(3) d3_def uart_rx_byte_def platform_uart_irq_def ring_buffer_used_space_def umod_def wr_def Let_def
        ring_full_def room_def used_def ring_dist_def)
  have "uart_run sample_call k ([8] @ [9]) (False \<or> ring_full (uc_driver s2)) (s2\<lparr>uc_driver := d3\<rparr>)"
    by (rule uart_run.byte [OF 2]) (simp add: s2_def b(1))
  then have 3: "uart_run sample_call k [8, 9] False (s2\<lparr>uc_driver := d3\<rparr>)" using b(2) by (simp add: s2_def)
  have "map_option (\<lambda>s. (uc_pc s, uc_err s)) (uart_moves 12 (s2\<lparr>uc_driver := d3\<rparr>)) = Some (Done, kNoErr)"
    unfolding s2_def d3_def by code_simp
  then obtain s' where s': "uart_moves 12 (s2\<lparr>uc_driver := d3\<rparr>) = Some s'" "uc_pc s' = Done" "uc_err s' = kNoErr" by auto
  obtain moves where run: "uart_run sample_call moves [8, 9] False s'" using uart_moves_run [OF s'(1) 3] by blast
  have ok: "uart_ok sample_driver (the (rx_buffer sample_driver))" "rx_size sample_driver = 0" "\<not> rx_complete sample_driver"
    "content (the (rx_buffer sample_driver)) = [7]"
    by (simp_all add: sample_driver_def uart_ok_def rb_inv_def content_def used_def ring_dist_def)
  have call: "platform_uart_receive_bytes (\<lambda>d n. None) sample_driver 3 = Some sample_call"
    by (simp add: platform_uart_receive_bytes_def sample_call_def sample_driver_def)
  obtain r' where "uc_data s' @ content r' = [7, 8, 9]" "length (uc_data s') = 3"
    using uart_receive_in_order [OF ok(1-3) _ call run] s'(2,3) ok(4) by auto
  then have "uc_data s' = [7, 8, 9]" by (metis append_eq_append_conv append_Nil2 length_Cons list.size(3) numeral_3_eq_3)
  then show ?thesis using run s'(2,3) by blast
qed

end
