(* ===== verification/StringConv.thy ===== *)
theory StringConv
  imports Prelude
begin

text \<open>
  The conversions of \<open>libraries/utilities/StringUtils.c\<close> between numbers, hardware addresses,
  binary data and text, and its string duplicators. A pointer argument is the buffer it points
  to, read and written through checked accesses; \<open>malloc\<close> is a parameter that
  returns a block of the requested size or fails. The outer \<open>None\<close> of a result is an access outside
  a buffer, an inner \<open>None\<close> is a returned \<open>NULL\<close>.
\<close>

type_synonym allocator = "nat \<Rightarrow> bytes option"

definition malloc_ok :: "allocator \<Rightarrow> bool" where
  "malloc_ok malloc \<longleftrightarrow> (\<forall>n b. malloc n = Some b \<longrightarrow> length b = n)"

text \<open>\<open>sprintf(buf + i, ...)\<close> with the output \<open>s\<close>: the text and its terminator.\<close>

definition sprintf_at :: "bytes \<Rightarrow> nat \<Rightarrow> bytes \<Rightarrow> bytes option" where
  "sprintf_at buf i s = blit buf i (s @ [0])"

section \<open>Digits\<close>

definition IS_AF :: "u8 \<Rightarrow> bool" where "IS_AF c \<longleftrightarrow> 0x41 \<le> c \<and> c \<le> 0x46"
definition IS_af :: "u8 \<Rightarrow> bool" where "IS_af c \<longleftrightarrow> 0x61 \<le> c \<and> c \<le> 0x66"
definition IS_09 :: "u8 \<Rightarrow> bool" where "IS_09 c \<longleftrightarrow> 0x30 \<le> c \<and> c \<le> 0x39"
definition ISVALIDHEX :: "u8 \<Rightarrow> bool" where "ISVALIDHEX c \<longleftrightarrow> IS_AF c \<or> IS_af c \<or> IS_09 c"
definition CONVERTHEX :: "u8 \<Rightarrow> u32" where
  "CONVERTHEX c = (if IS_09 c then ucast c - 0x30 else if IS_AF c then ucast c - 0x41 + 10 else ucast c - 0x61 + 10)"

section \<open>Duplicating strings\<close>

definition formatMACAddr :: "bytes \<Rightarrow> bytes \<Rightarrow> bytes option" where
  "formatMACAddr destAddr srcAddr = do {
     c0 \<leftarrow> rd srcAddr 0; c1 \<leftarrow> rd srcAddr 1; c2 \<leftarrow> rd srcAddr 2; c3 \<leftarrow> rd srcAddr 3;
     c4 \<leftarrow> rd srcAddr 4; c5 \<leftarrow> rd srcAddr 5; c6 \<leftarrow> rd srcAddr 6; c7 \<leftarrow> rd srcAddr 7;
     c8 \<leftarrow> rd srcAddr 8; c9 \<leftarrow> rd srcAddr 9; c10 \<leftarrow> rd srcAddr 10; c11 \<leftarrow> rd srcAddr 11;
     sprintf_at destAddr 0
       [toupper c0, toupper c1, 0x3A, toupper c2, toupper c3, 0x3A, toupper c4, toupper c5, 0x3A,
        toupper c6, toupper c7, 0x3A, toupper c8, toupper c9, 0x3A, toupper c10, toupper c11]
   }"

definition strdup :: "allocator \<Rightarrow> bytes option \<Rightarrow> bytes option option" where
  "strdup malloc src = (case src of
     None \<Rightarrow> Some None
   | Some s \<Rightarrow> do {
       c \<leftarrow> rd s 0;
       (if c = 0 then Some None
        else do {
          n \<leftarrow> c_strlen s;
          (case malloc (n + 1) of
             None \<Rightarrow> Some None
           | Some dst \<Rightarrow> map_option Some (memcpy dst 0 s 0 (n + 1)))
        })
     })"

fun count_dots :: "bytes \<Rightarrow> nat" where
  "count_dots [] = 0"
| "count_dots (c # cs) = (if c = 0x2E then 1 else 0) + count_dots cs"

fun trans_dot_loop :: "bytes \<Rightarrow> nat \<Rightarrow> bytes \<Rightarrow> (bytes \<times> nat) option" where
  "trans_dot_loop dst j [] = Some (dst, j)"
| "trans_dot_loop dst j (c # cs) =
     (if c = 0x2E
      then do { dst \<leftarrow> wr dst j 0x2F; dst \<leftarrow> wr dst (j + 1) 0x2E; trans_dot_loop dst (j + 2) cs }
      else do { dst \<leftarrow> wr dst j c; trans_dot_loop dst (j + 1) cs })"

text \<open>The result of \<open>malloc\<close> is used without a check; writing through \<open>NULL\<close> is a fault.\<close>

definition strdup_trans_dot :: "allocator \<Rightarrow> bytes \<Rightarrow> bytes option" where
  "strdup_trans_dot malloc src = do {
     s \<leftarrow> c_string src;
     dst \<leftarrow> malloc (length s + 1 + count_dots s);
     (dst, j) \<leftarrow> trans_dot_loop dst 0 s;
     wr dst j 0
   }"

fun strnlen :: "bytes \<Rightarrow> nat \<Rightarrow> nat option" where
  "strnlen s 0 = Some 0"
| "strnlen [] (Suc maxsize) = None"
| "strnlen (c # s) (Suc maxsize) = (if c = 0 then Some 0 else map_option Suc (strnlen s maxsize))"

section \<open>Numbers\<close>

text \<open>
  The loop of \<open>Int2Str\<close>: \<open>k\<close> rounds to go, \<open>Div\<close>, \<open>j\<close> and \<open>Status\<close> as in the source;
  \<open>intnum / Div\<close> is unsigned because \<open>Div\<close> is.
\<close>

fun Int2Str_loop :: "nat \<Rightarrow> bytes \<Rightarrow> u32 \<Rightarrow> u32 \<Rightarrow> nat \<Rightarrow> nat \<Rightarrow> bytes option" where
  "Int2Str_loop 0 s intnum Div j Status = Some s"
| "Int2Str_loop (Suc k) s intnum Div j Status = do {
     s \<leftarrow> wr s j (ucast (intnum div Div) + 48);
     c \<leftarrow> rd s j;
     (if c = 0x30 \<and> Status = 0
      then Int2Str_loop k s (intnum mod Div) (Div div 10) 0 Status
      else Int2Str_loop k s (intnum mod Div) (Div div 10) (j + 1) (Status + 1))
   }"

definition Int2Str :: "bytes \<Rightarrow> u32 \<Rightarrow> bytes option" where
  "Int2Str s intnum = Int2Str_loop 10 s intnum 1000000000 0 0"

text \<open>
  \<open>Str2Int\<close> returns its result and the number it stores, if any; each loop is the rounds
  \<open>i < 11\<close> of the source.
\<close>

function Str2Int_hex :: "bytes \<Rightarrow> nat \<Rightarrow> u32 \<Rightarrow> (u32 \<times> u32 option) option" where
  "Str2Int_hex inputstr i val =
     (if i < 11 then do {
        c \<leftarrow> rd inputstr i;
        (if c = 0 then Some (1, Some val)
         else if ISVALIDHEX c then Str2Int_hex inputstr (i + 1) (push_bit 4 val + CONVERTHEX c)
         else Some (0, None))
      } else Some (0, None))"
  by pat_completeness auto
termination
  by (relation "measure (\<lambda>(s, i, v). 11 - i)") auto

function Str2Int_dec :: "bytes \<Rightarrow> nat \<Rightarrow> u32 \<Rightarrow> (u32 \<times> u32 option) option" where
  "Str2Int_dec inputstr i val =
     (if i < 11 then do {
        c \<leftarrow> rd inputstr i;
        (if c = 0 then Some (1, Some val)
         else if (c = 0x6B \<or> c = 0x4B) \<and> 0 < i then Some (1, Some (push_bit 10 val))
         else if (c = 0x6D \<or> c = 0x4D) \<and> 0 < i then Some (1, Some (push_bit 20 val))
         else if IS_09 c then Str2Int_dec inputstr (i + 1) (val * 10 + (ucast c - 0x30))
         else Some (0, None))
      } else Some (0, None))"
  by pat_completeness auto
termination
  by (relation "measure (\<lambda>(s, i, v). 11 - i)") auto

declare Str2Int_hex.simps [simp del] Str2Int_dec.simps [simp del]

definition Str2Int :: "bytes \<Rightarrow> (u32 \<times> u32 option) option" where
  "Str2Int inputstr = do {
     c0 \<leftarrow> rd inputstr 0;
     hex \<leftarrow> (if c0 = 0x30 then map_option (\<lambda>c1. c1 = 0x78 \<or> c1 = 0x58) (rd inputstr 1) else Some False);
     (if hex then do {
        c2 \<leftarrow> rd inputstr 2;
        (if c2 = 0 then Some (0, None) else Str2Int_hex inputstr 2 0)
      } else Str2Int_dec inputstr 0 0)
   }"

section \<open>Hardware addresses\<close>

text \<open>The inner loop: the value \<open>x\<close> of up to two digits, their number \<open>i\<close> and what is left.\<close>

fun hw_segment :: "bytes \<Rightarrow> nat \<Rightarrow> int \<Rightarrow> nat \<times> int \<times> bytes" where
  "hw_segment [] i x = (i, x, [])"
| "hw_segment (c # src) i x =
     (if 2 \<le> i then (i, x, c # src)
      else if isdigit c then hw_segment src (i + 1) (x * 16 + (uint c - 0x30))
      else if isxdigit c then hw_segment src (i + 1) (x * 16 + 10 + (uint (tolower c) - 0x61))
      else if i \<noteq> 0 \<or> c \<noteq> 0x3A \<and> c \<noteq> 0x2D \<and> c \<noteq> 0x20 then (i, x, src)
      else hw_segment src i x)"

text \<open>The bytes stored at \<open>outAddr\<close> come with the status, those before an error included.\<close>

fun TextToHardwareAddress :: "bytes \<Rightarrow> nat \<Rightarrow> OSStatus \<times> bytes" where
  "TextToHardwareAddress src 0 = (kNoErr, [])"
| "TextToHardwareAddress src (Suc n) =
     (case hw_segment src 0 0 of (i, x, src') \<Rightarrow>
        if i = 0 then (kMalformedErr, [])
        else if \<not> (0 \<le> x \<and> x \<le> 0xFF) then (kRangeErr, [])
        else case TextToHardwareAddress src' n of (err, out) \<Rightarrow> (err, word_of_int x # out))"

section \<open>Binary data as text\<close>

definition hex_digit :: "u8 \<Rightarrow> u8" where
  "hex_digit d = (if d < 10 then 0x30 + d else 0x41 + (d - 10))"

text \<open>The output of the formats \<open>%02X\<close>, and of it followed by a separator.\<close>

definition fmt_02X :: "u8 \<Rightarrow> bytes" where
  "fmt_02X b = [hex_digit (b div 16), hex_digit (b mod 16)]"

fun hex_loop :: "bytes \<Rightarrow> nat \<Rightarrow> bytes list \<Rightarrow> (bytes \<times> nat) option" where
  "hex_loop buf i [] = Some (buf, i)"
| "hex_loop buf i (s # ss) = do { buf \<leftarrow> sprintf_at buf i s; hex_loop buf (i + length s) ss }"

text \<open>What the three functions share: allocate, print the pieces in turn, terminate.\<close>

definition hex_string :: "allocator \<Rightarrow> nat \<Rightarrow> bytes list \<Rightarrow> bytes option option" where
  "hex_string malloc n pieces =
     (case malloc n of
        None \<Rightarrow> Some None
      | Some buf_str \<Rightarrow> do {
          (buf_str, i) \<leftarrow> hex_loop buf_str 0 pieces;
          map_option Some (wr buf_str i 0)
        })"

definition DataToHexString :: "allocator \<Rightarrow> bytes \<Rightarrow> bytes option option" where
  "DataToHexString malloc inBuf =
     (if inBuf = [] then Some None
      else hex_string malloc (2 * length inBuf + 1) (map fmt_02X inBuf))"

definition DataToHexStringWithSpaces :: "allocator \<Rightarrow> bytes \<Rightarrow> bytes option option" where
  "DataToHexStringWithSpaces malloc inBuf =
     (if inBuf = [] then Some None
      else hex_string malloc (3 * length inBuf + 1) (map (\<lambda>b. fmt_02X b @ [0x20]) inBuf))"

definition DataToHexStringWithColons :: "allocator \<Rightarrow> bytes \<Rightarrow> bytes option option" where
  "DataToHexStringWithColons malloc inBuf =
     (if inBuf = [] then Some None
      else hex_string malloc (3 * length inBuf + 1)
        (map (\<lambda>i. if i = length inBuf - 1 then fmt_02X (inBuf ! i) else fmt_02X (inBuf ! i) @ [0x3A])
           [0..<length inBuf]))"

definition DataToCString :: "allocator \<Rightarrow> bytes \<Rightarrow> bytes option option" where
  "DataToCString malloc inBuf =
     (if inBuf = [] then Some None
      else case malloc (length inBuf + 1) of
        None \<Rightarrow> Some None
      | Some cString \<Rightarrow> do {
          cString \<leftarrow> memcpy cString 0 inBuf 0 (length inBuf);
          map_option Some (wr cString (length inBuf) 0)
        })"

section \<open>Decimal digits\<close>

text \<open>The \<open>k\<close> low decimal digits of a number as text, and the number a text denotes.\<close>

fun dec_digits :: "nat \<Rightarrow> nat \<Rightarrow> bytes" where
  "dec_digits 0 r = []"
| "dec_digits (Suc k) r = word_of_nat (48 + r div 10 ^ k) # dec_digits k (r mod 10 ^ k)"

abbreviation dec_step :: "'a::len word \<Rightarrow> u8 \<Rightarrow> 'a word" where
  "dec_step \<equiv> \<lambda>v c. v * 10 + (ucast c - 0x30)"

lemma length_dec_digits [simp]: "length (dec_digits k r) = k"
  by (induction k arbitrary: r) auto

lemma IS_09_digit: "d < 10 \<Longrightarrow> IS_09 (word_of_nat (48 + d))"
  unfolding IS_09_def word_le_nat_alt unat_of_nat by simp

lemma ucast_digit: "d < 10 \<Longrightarrow> ucast (word_of_nat (48 + d) :: u8) - 0x30 = (word_of_nat d :: 'a::len word)"
proof -
  assume d: "d < 10"
  then have "unat (word_of_nat (48 + d) :: u8) = 48 + d" by (simp add: unat_of_nat del: of_nat_add)
  then have "(ucast (word_of_nat (48 + d) :: u8) :: 'a word) = word_of_nat (48 + d)"
    by (metis of_nat_unat)
  then show ?thesis by simp
qed

lemma dec_digits_IS_09: "r < 10 ^ k \<Longrightarrow> c \<in> set (dec_digits k r) \<Longrightarrow> IS_09 c"
proof (induction k arbitrary: r)
  case (Suc k)
  have "r div 10 ^ k < 10" using Suc.prems(1) by (simp add: less_mult_imp_div_less)
  moreover have "r mod 10 ^ k < 10 ^ k" by simp
  ultimately show ?case
    using Suc.IH [of "r mod 10 ^ k"] Suc.prems(2) IS_09_digit by (auto simp del: of_nat_add)
qed simp

lemma dec_digits_value:
  "r < 10 ^ k \<Longrightarrow> foldl dec_step v (dec_digits k r) = v * word_of_nat (10 ^ k) + word_of_nat r"
proof (induction k arbitrary: r v)
  case (Suc k)
  have d: "r div 10 ^ k < 10" using Suc.prems(1) by (simp add: less_mult_imp_div_less)
  have "foldl dec_step v (dec_digits (Suc k) r) =
      (v * 10 + word_of_nat (r div 10 ^ k)) * word_of_nat (10 ^ k) + word_of_nat (r mod 10 ^ k)"
    using Suc.IH [of "r mod 10 ^ k"] by (simp add: ucast_digit [OF d] del: of_nat_add)
  also have "\<dots> = v * word_of_nat (10 ^ Suc k) + word_of_nat (r div 10 ^ k * 10 ^ k + r mod 10 ^ k)"
    by (simp only: of_nat_add of_nat_mult of_nat_numeral power_Suc distrib_right mult.assoc add.assoc)
  finally show ?case by (simp only: div_mult_mod_eq)
qed simp

lemma foldl_dec_dropWhile: "foldl dec_step 0 (dropWhile ((=) 0x30) p) = foldl dec_step 0 p"
  by (induction p) auto

section \<open>\<open>Int2Str\<close>\<close>

lemma word_digit_0: "d < 10 \<Longrightarrow> (word_of_nat (48 + d) :: u8) = 0x30 \<longleftrightarrow> d = 0"
  unfolding word_unat_eq_iff unat_of_nat by simp

lemma Int2Str_digit:
  assumes "unat Div = 10 ^ k" "unat r < 10 ^ Suc k"
  shows "(ucast (r div Div :: u32) + 48 :: u8) = word_of_nat (48 + unat r div 10 ^ k)"
proof -
  have "unat (r div Div) = unat r div 10 ^ k" using assms(1) by (simp add: unat_div)
  then have "(ucast (r div Div) :: u8) = word_of_nat (unat r div 10 ^ k)" by (metis of_nat_unat)
  then show ?thesis by simp
qed

lemma div10: "unat Div = 10 ^ Suc k \<Longrightarrow> unat (Div div 10 :: u32) = 10 ^ k"
  by (simp add: unat_div)

lemma div10_cases: "unat Div = 10 ^ k \<Longrightarrow> k = 0 \<or> unat (Div div 10 :: u32) = 10 ^ (k - 1)"
  by (cases k) (auto simp: div10)

lemma drop_take_update:
  "j < length s \<Longrightarrow> take (Suc j) (s[j := c]) = take j s @ [c]"
  "j < length s \<Longrightarrow> drop (Suc (j + k)) (s[j := c]) = drop (Suc (j + k)) s"
  by (simp_all add: take_Suc_conv_app_nth)

text \<open>Once a digit other than zero has been written, every further digit stays.\<close>

lemma Int2Str_loop_tail:
  assumes "0 < Status" "j + k \<le> length s" "unat r < 10 ^ k" "k = 0 \<or> unat Div = 10 ^ (k - 1)"
  shows "Int2Str_loop k s r Div j Status = Some (take j s @ dec_digits k (unat r) @ drop (j + k) s)"
  using assms
proof (induction k arbitrary: s r Div j Status)
  case (Suc k)
  let ?c = "word_of_nat (48 + unat r div 10 ^ k) :: u8"
  have D: "unat Div = 10 ^ k" using Suc.prems(4) by simp
  have c: "ucast (r div Div) + 48 = ?c" using Int2Str_digit [OF D Suc.prems(3)] .
  have m: "unat (r mod Div) = unat r mod 10 ^ k" by (simp add: unat_mod D)
  have "Int2Str_loop k (s[j := ?c]) (r mod Div) (Div div 10) (j + 1) (Status + 1) =
      Some (take (j + 1) (s[j := ?c]) @ dec_digits k (unat (r mod Div)) @ drop (j + 1 + k) (s[j := ?c]))"
    using Suc.prems div10_cases [OF D] by (intro Suc.IH) (auto simp: m)
  then show ?case
    using Suc.prems(1,2) unfolding Int2Str_loop.simps c m
    by (simp add: wr_def rd_def drop_take_update del: of_nat_add)
qed simp

lemma Int2Str_loop_head:
  assumes "0 < k" "k \<le> length s" "unat r < 10 ^ k" "unat Div = 10 ^ (k - 1)"
  shows "Int2Str_loop k s r Div 0 0 =
    (let p = dropWhile ((=) 0x30) (dec_digits k (unat r));
         p = (if p = [] then [0x30] else p)
     in Some (p @ drop (length p) s))"
  using assms
proof (induction k arbitrary: s r Div)
  case (Suc k)
  let ?d = "unat r div 10 ^ k"
  let ?c = "word_of_nat (48 + ?d) :: u8"
  have D: "unat Div = 10 ^ k" using Suc.prems(4) by simp
  have c: "ucast (r div Div) + 48 = ?c" using Int2Str_digit [OF D Suc.prems(3)] .
  have m: "unat (r mod Div) = unat r mod 10 ^ k" by (simp add: unat_mod D)
  have d: "?d < 10" using Suc.prems(3) by (simp add: less_mult_imp_div_less)
  have len: "length (s[0 := ?c]) = length s" "0 < length s" using Suc.prems(2) by auto
  show ?case
  proof (cases "?d = 0")
    case z: True
    have run: "Int2Str_loop (Suc k) s r Div 0 0 =
        Int2Str_loop k (s[0 := ?c]) (r mod Div) (Div div 10) 0 0"
      using len unfolding Int2Str_loop.simps c by (simp add: wr_def rd_def z)
    show ?thesis
    proof (cases k)
      case 0
      with z len show ?thesis unfolding run by (cases s) (auto simp: Let_def)
    next
      case (Suc k')
      have "unat (Div div 10) = 10 ^ (k - 1)" using D Suc by (simp add: div10)
      then show ?thesis
        unfolding run using Suc.IH [of "s[0 := ?c]" "r mod Div" "Div div 10"] Suc.prems(2) z m Suc
        by (auto simp: Let_def)
    qed
  next
    case False
    then have nz: "?c \<noteq> 0x30" using word_digit_0 [OF d] by simp
    have "Int2Str_loop k (s[0 := ?c]) (r mod Div) (Div div 10) 1 1 =
        Some (take 1 (s[0 := ?c]) @ dec_digits k (unat (r mod Div)) @ drop (1 + k) (s[0 := ?c]))"
      using Suc.prems(2) div10_cases [OF D] by (intro Int2Str_loop_tail) (auto simp: m)
    then show ?thesis
      using len nz unfolding Int2Str_loop.simps c m
      by (cases s) (auto simp: wr_def rd_def Let_def simp del: of_nat_add)
  qed
qed simp

section \<open>\<open>Str2Int\<close> reads what \<open>Int2Str\<close> wrote\<close>

lemma IS_09_chars:
  assumes "IS_09 c"
  shows "c \<noteq> 0" "c \<noteq> 0x6B" "c \<noteq> 0x4B" "c \<noteq> 0x6D" "c \<noteq> 0x4D" "c \<noteq> 0x78" "c \<noteq> 0x58"
  using assms by (auto simp: IS_09_def)

lemma Str2Int_dec_digits:
  assumes "\<forall>c \<in> set p. IS_09 c" "i + length p \<le> 10" "length q = i"
  shows "Str2Int_dec (q @ p @ 0 # t) i val = Some (1, Some (foldl dec_step val p))"
  using assms
proof (induction p arbitrary: i q val)
  case Nil
  then show ?case by (simp add: Str2Int_dec.simps [of _ i] rd_def nth_append)
next
  case (Cons c p)
  have "Str2Int_dec ((q @ [c]) @ p @ 0 # t) (i + 1) (val * 10 + (ucast c - 0x30)) =
      Some (1, Some (foldl dec_step (val * 10 + (ucast c - 0x30)) p))"
    using Cons.prems by (intro Cons.IH) auto
  then show ?case
    using Cons.prems IS_09_chars [of c] by (simp add: Str2Int_dec.simps [of _ i] rd_def nth_append)
qed

lemma Str2Int_digits:
  assumes "\<forall>c \<in> set p. IS_09 c" "0 < length p" "length p \<le> 10"
  shows "Str2Int (p @ 0 # t) = Some (1, Some (foldl dec_step 0 p))"
proof -
  obtain c p' where p: "p = c # p'" using assms(2) by (cases p) auto
  have "\<exists>d. rd (p @ 0 # t) 1 = Some d \<and> d \<noteq> 0x78 \<and> d \<noteq> 0x58"
    using assms(1) IS_09_chars by (cases p') (auto simp: p rd_def)
  moreover have "Str2Int_dec (p @ 0 # t) 0 0 = Some (1, Some (foldl dec_step 0 p))"
    using Str2Int_dec_digits [of p 0 "[]"] assms by simp
  ultimately show ?thesis by (auto simp: Str2Int_def p rd_def)
qed

definition decimal :: "u32 \<Rightarrow> bytes" where
  "decimal v = (let p = dropWhile ((=) 0x30) (dec_digits 10 (unat v)) in if p = [] then [0x30] else p)"

lemma unat_u32_bound: "unat (v :: u32) < 10 ^ 10"
proof -
  have "unat v < 2 ^ LENGTH(32)" by (rule unsigned_less)
  then show ?thesis by simp
qed

lemma decimal_digits:
  "\<forall>c \<in> set (decimal v). IS_09 c" "0 < length (decimal v)" "length (decimal v) \<le> 10"
proof -
  have "\<forall>c \<in> set (dec_digits 10 (unat v)). IS_09 c"
    using dec_digits_IS_09 [OF unat_u32_bound] by blast
  then show "\<forall>c \<in> set (decimal v). IS_09 c"
    by (auto simp: decimal_def Let_def IS_09_def dest: set_dropWhileD)
  show "0 < length (decimal v)" by (simp add: decimal_def Let_def)
  show "length (decimal v) \<le> 10"
    using length_dropWhile_le [of "(=) 0x30" "dec_digits 10 (unat v)"] by (simp add: decimal_def Let_def)
qed

lemma decimal_value_of_nat: "foldl dec_step 0 (decimal v) = word_of_nat (unat v)"
proof -
  have "foldl dec_step 0 (decimal v) = foldl dec_step 0 (dec_digits 10 (unat v))"
    using foldl_dec_dropWhile [of "dec_digits 10 (unat v)"]
    by (cases "dropWhile ((=) 0x30) (dec_digits 10 (unat v))") (simp_all add: decimal_def)
  also have "\<dots> = word_of_nat (unat v)"
    using dec_digits_value [OF unat_u32_bound, of 0 v] by simp
  finally show ?thesis by simp
qed

lemma decimal_value: "foldl dec_step 0 (decimal v) = v"
  by (simp add: decimal_value_of_nat)

lemma Int2Str_decimal:
  assumes "10 \<le> length s"
  shows "Int2Str s v = Some (decimal v @ drop (length (decimal v)) s)"
  using assms Int2Str_loop_head [of 10 s v 1000000000] unat_u32_bound [of v]
  by (simp add: Int2Str_def decimal_def Let_def)

section \<open>Hexadecimal text\<close>

lemma hex_loop_pieces:
  assumes "i + length (concat ss) < length buf"
  shows "hex_loop buf i ss = Some (take i buf @ concat ss @ (if ss = [] then [] else [0]) @
      drop (i + length (concat ss) + (if ss = [] then 0 else 1)) buf, i + length (concat ss))"
  using assms
proof (induction ss arbitrary: buf i)
  case (Cons s ss)
  define b where "b = take i buf @ (s @ [0]) @ drop (i + length (s @ [0])) buf"
  have w: "sprintf_at buf i s = Some b"
    using Cons.prems by (simp add: sprintf_at_def blit_def b_def)
  have "take (i + length s) b = take i buf @ s"
    using Cons.prems by (simp add: b_def)
  moreover have "drop (i + length s + k) b = (if k = 0 then [0] else []) @ drop (i + length s + max 1 k) buf" for k
    using Cons.prems by (cases k) (simp_all add: b_def ac_simps)
  ultimately show ?case
    using Cons.prems Cons.IH [of "i + length s" b] w
    by (simp add: b_def add.assoc)
qed simp

lemma hex_string_text:
  assumes "malloc_ok malloc" "malloc n = Some b" "length (concat ss) < n" "ss \<noteq> []"
  shows "\<exists>t. hex_string malloc n ss = Some (Some (concat ss @ 0 # t))"
  using assms hex_loop_pieces [of 0 ss b]
  by (auto simp: hex_string_def malloc_ok_def wr_def)

section \<open>Reading hardware addresses\<close>

text \<open>The value of one digit for \<open>TextToHardwareAddress\<close>.\<close>

lemma hex_digit_range: "\<forall>d \<in> set (map word_of_nat [0..<16]). hex_digit d \<noteq> 0 \<and>
    (if isdigit (hex_digit d) then uint (hex_digit d) - 0x30 = uint d
     else isxdigit (hex_digit d) \<and> 10 + (uint (tolower (hex_digit d)) - 0x61) = uint d)"
  by (simp add: hex_digit_def isdigit_def isxdigit_def tolower_def upt_rec)

lemma hex_digit_value:
  assumes "d < 16"
  shows "hex_digit d \<noteq> 0"
    "isdigit (hex_digit d) \<Longrightarrow> uint (hex_digit d) - 0x30 = uint d"
    "\<not> isdigit (hex_digit d) \<Longrightarrow> isxdigit (hex_digit d)"
    "\<not> isdigit (hex_digit d) \<Longrightarrow> 10 + (uint (tolower (hex_digit d)) - 0x61) = uint d"
proof -
  have "unat d < 16" using assms by (simp add: word_less_nat_alt)
  then have "d \<in> set (map word_of_nat [0..<16])" by (auto intro!: image_eqI [of _ _ "unat d"])
  with hex_digit_range have "hex_digit d \<noteq> 0 \<and>
    (if isdigit (hex_digit d) then uint (hex_digit d) - 0x30 = uint d
     else isxdigit (hex_digit d) \<and> 10 + (uint (tolower (hex_digit d)) - 0x61) = uint d)" by blast
  then show "hex_digit d \<noteq> 0"
    "isdigit (hex_digit d) \<Longrightarrow> uint (hex_digit d) - 0x30 = uint d"
    "\<not> isdigit (hex_digit d) \<Longrightarrow> isxdigit (hex_digit d)"
    "\<not> isdigit (hex_digit d) \<Longrightarrow> 10 + (uint (tolower (hex_digit d)) - 0x61) = uint d"
    by (simp_all split: if_splits)
qed

lemma hw_segment_digit:
  "d < 16 \<Longrightarrow> i < 2 \<Longrightarrow> hw_segment (hex_digit d # src) i x = hw_segment src (i + 1) (x * 16 + uint d)"
  using hex_digit_value [of d] by (cases "isdigit (hex_digit d)") (simp_all add: add.assoc)

lemma hw_segment_full: "hw_segment src 2 x = (2, x, src)"
  by (cases src) auto

lemma nibbles: "b div 16 < 16" "b mod 16 < 16" "uint (b div 16) * 16 + uint (b mod 16) = uint b" for b :: u8
proof -
  have "uint b < 2 ^ LENGTH(8)" by (rule uint_lt2p)
  then have "uint b div 16 < 16" by simp
  then show "b div 16 < 16" by (simp add: word_less_def uint_div)
  show "b mod 16 < 16" by (simp add: word_less_def uint_mod)
  show "uint (b div 16) * 16 + uint (b mod 16) = uint b" by (simp add: uint_div uint_mod)
qed

lemma hw_segment_02X: "hw_segment (fmt_02X b @ src) 0 0 = (2, uint b, src)"
proof -
  have "hw_segment (fmt_02X b @ src) 0 0 = hw_segment src 2 (uint (b div 16) * 16 + uint (b mod 16))"
    unfolding fmt_02X_def append_Cons append_Nil
    by (simp add: hw_segment_digit nibbles(1,2) numeral_2_eq_2 del: hw_segment.simps)
  then show ?thesis by (simp only: nibbles(3) hw_segment_full)
qed

definition mac_pieces :: "bytes \<Rightarrow> bytes list" where
  "mac_pieces b = map (\<lambda>i. if i = length b - 1 then fmt_02X (b ! i) else fmt_02X (b ! i) @ [0x3A]) [0..<length b]"

lemma mac_pieces_single: "mac_pieces [x] = [fmt_02X x]"
  by (simp add: mac_pieces_def)

lemma mac_pieces_Cons: "b \<noteq> [] \<Longrightarrow> mac_pieces (x # b) = (fmt_02X x @ [0x3A]) # mac_pieces b"
  unfolding mac_pieces_def
  by (rule nth_equalityI) (auto simp: nth_Cons' simp del: upt_Suc)

lemma length_mac_text: "b \<noteq> [] \<Longrightarrow> length (concat (mac_pieces b)) + 1 = 3 * length b"
proof (induction b rule: induct_list012)
  case (3 x y zs)
  then show ?case by (simp add: mac_pieces_Cons fmt_02X_def)
qed (simp_all add: mac_pieces_single fmt_02X_def)

lemma mac_text_no_NUL: "b \<noteq> [] \<Longrightarrow> 0 \<notin> set (concat (mac_pieces b))"
proof (induction b rule: induct_list012)
  case (3 x y zs)
  then show ?case using hex_digit_value(1) nibbles(1,2) by (simp add: mac_pieces_Cons fmt_02X_def)
next
  case (2 x)
  then show ?case using hex_digit_value(1) nibbles(1,2) by (simp add: mac_pieces_single fmt_02X_def)
qed simp

lemma hw_segment_colon: "hw_segment (0x3A # src) 0 0 = hw_segment src 0 0"
  by (simp add: isdigit_def isxdigit_def)

lemma TextToHardwareAddress_colon:
  "TextToHardwareAddress (0x3A # src) n = TextToHardwareAddress src n"
  by (cases n) (simp_all add: hw_segment_colon del: hw_segment.simps)

lemma TextToHardwareAddress_02X:
  "TextToHardwareAddress (fmt_02X x @ src) (Suc n) =
     (case TextToHardwareAddress src n of (err, out) \<Rightarrow> (err, x # out))"
proof -
  have "uint x < 2 ^ LENGTH(8)" by (rule uint_lt2p)
  then show ?thesis by (simp add: hw_segment_02X)
qed

lemma TextToHardwareAddress_mac:
  "b \<noteq> [] \<Longrightarrow> TextToHardwareAddress (concat (mac_pieces b)) (length b) = (kNoErr, b)"
proof (induction b rule: induct_list012)
  case (2 x)
  show ?case using TextToHardwareAddress_02X [of x "[]" 0] by (simp add: mac_pieces_single)
next
  case (3 x y zs)
  then have "TextToHardwareAddress (concat (mac_pieces (y # zs))) (length (y # zs)) = (kNoErr, y # zs)" by simp
  then show ?case
    using TextToHardwareAddress_02X [of x "0x3A # concat (mac_pieces (y # zs))" "length (y # zs)"]
    by (simp add: mac_pieces_Cons TextToHardwareAddress_colon del: TextToHardwareAddress.simps)
qed simp

section \<open>Properties\<close>

text \<open>
  \<open>Str2Int\<close> reads back every 32-bit number that \<open>Int2Str\<close> wrote into a zeroed buffer of
  eleven bytes, and both stay inside the buffer.
\<close>

theorem Str2Int_Int2Str:
  "\<exists>s. Int2Str (replicate 11 0) v = Some s \<and> Str2Int s = Some (1, Some v)"
proof -
  have "Str2Int (decimal v @ 0 # replicate (10 - length (decimal v)) 0) = Some (1, Some v)"
    using Str2Int_digits [OF decimal_digits] by (simp only: decimal_value)
  moreover have "drop (length (decimal v)) (replicate 11 (0 :: u8)) = 0 # replicate (10 - length (decimal v)) 0"
    using decimal_digits(3) [of v] by (cases "11 - length (decimal v)") auto
  ultimately show ?thesis using Int2Str_decimal [of "replicate 11 0" v] by simp
qed

text \<open>
  \<open>DataToHexStringWithColons\<close> stays inside the block it allocates, and
  \<open>TextToHardwareAddress\<close> recovers the bytes from the string it returns.
\<close>

theorem hardware_address_roundtrip:
  assumes "malloc_ok malloc" and "malloc (3 * length b + 1) \<noteq> None" and "b \<noteq> []"
  shows "\<exists>s text. DataToHexStringWithColons malloc b = Some (Some s) \<and> c_string s = Some text \<and>
    TextToHardwareAddress text (length b) = (kNoErr, b)"
proof -
  obtain blk where "malloc (3 * length b + 1) = Some blk" using assms(2) by blast
  moreover have "length (concat (mac_pieces b)) < 3 * length b + 1"
    using length_mac_text [OF assms(3)] by simp
  moreover have "mac_pieces b \<noteq> []" using assms(3) by (simp add: mac_pieces_def)
  ultimately obtain t where "hex_string malloc (3 * length b + 1) (mac_pieces b)
      = Some (Some (concat (mac_pieces b) @ 0 # t))"
    using hex_string_text [OF assms(1)] by blast
  then have "DataToHexStringWithColons malloc b = Some (Some (concat (mac_pieces b) @ 0 # t))"
    using assms(3) by (simp add: DataToHexStringWithColons_def mac_pieces_def)
  then show ?thesis
    using mac_text_no_NUL [OF assms(3)] TextToHardwareAddress_mac [OF assms(3)] by auto
qed

theorem hardware_address_roundtrip_witness:
  "\<exists>s text. DataToHexStringWithColons (\<lambda>n. Some (replicate n 0xAA)) [0xC8, 0x93, 0x46] = Some (Some s) \<and>
    c_string s = Some text \<and> TextToHardwareAddress text 3 = (kNoErr, [0xC8, 0x93, 0x46])"
  using hardware_address_roundtrip [of "\<lambda>n. Some (replicate n 0xAA)" "[0xC8, 0x93, 0x46]"]
  by (simp add: malloc_ok_def eval_nat_numeral del: TextToHardwareAddress.simps)

end
