(* ===== verification/StringCmp.thy ===== *)
theory StringCmp
  imports StringConv
begin

text \<open>
  The comparisons and searches of \<open>libraries/utilities/StringUtils.c\<close>, the TLV walker of
  \<open>TLVUtils.c\<close> and the constant-time comparison of \<open>SecurityUtils.c\<close>. Case-insensitive
  comparison is specified by the lexicographic order of the lower-case strings; \<open>memmem\<close> is sound
  but does not find every occurrence.
\<close>

section \<open>Case-insensitive comparison\<close>

fun strnicmp :: "bytes \<Rightarrow> bytes \<Rightarrow> nat \<Rightarrow> int option" where
  "strnicmp inS1 inS2 0 = Some 0"
| "strnicmp inS1 inS2 (Suc n) = do {
     a \<leftarrow> rd inS1 0;
     b \<leftarrow> rd inS2 0;
     let c1 = tolower a;
     let c2 = tolower b;
     (if c1 < c2 then Some (- 1)
      else if c1 > c2 then Some 1
      else if c1 = 0 then Some 0
      else strnicmp (tl inS1) (tl inS2) n)
   }"

fun strnicmpx :: "bytes \<Rightarrow> nat \<Rightarrow> bytes \<Rightarrow> int option" where
  "strnicmpx s1 0 s2 = do { b \<leftarrow> rd s2 0; Some (if b \<noteq> 0 then - 1 else 0) }"
| "strnicmpx s1 (Suc n) s2 = do {
     a \<leftarrow> rd s1 0;
     b \<leftarrow> rd s2 0;
     let c1 = tolower a;
     let c2 = tolower b;
     (if c1 < c2 then Some (- 1)
      else if c1 > c2 then Some 1
      else if c2 = 0 then Some 0
      else strnicmpx (tl s1) n (tl s2))
   }"

definition strnicmp_suffix :: "bytes \<Rightarrow> nat \<Rightarrow> bytes \<Rightarrow> int option" where
  "strnicmp_suffix inStr inMaxLen inSuffix = do {
     stringLen \<leftarrow> strnlen inStr inMaxLen;
     suffixLen \<leftarrow> c_strlen inSuffix;
     (if suffixLen \<le> stringLen
      then strnicmpx (drop (stringLen - suffixLen) inStr) suffixLen inSuffix
      else Some (- 1))
   }"

text \<open>\<open>strstr\<close>: the offset of the first occurrence.\<close>

fun strstr :: "bytes \<Rightarrow> bytes \<Rightarrow> nat option" where
  "strstr s f = (if take (length f) s = f then Some 0
     else case s of [] \<Rightarrow> None | c # s' \<Rightarrow> map_option Suc (strstr s' f))"

declare strstr.simps [simp del]

text \<open>
  A lower-case copy in a block from \<open>calloc\<close>, whose result is not checked: writing the first
  character through \<open>NULL\<close> is a fault, while the empty string leaves the pointer alone.
\<close>

definition lower_copy :: "(nat \<Rightarrow> bool) \<Rightarrow> bytes \<Rightarrow> bytes option option" where
  "lower_copy calloc s =
     (if calloc (length s + 1) then Some (Some (map tolower s @ [0]))
      else if s = [] then Some None else None)"

definition strnstr_suffix :: "(nat \<Rightarrow> bool) \<Rightarrow> bytes \<Rightarrow> nat \<Rightarrow> bytes \<Rightarrow> nat option option" where
  "strnstr_suffix calloc inStr inMaxLen inSuffix = do {
     suffix \<leftarrow> c_string inSuffix;
     stringLen \<leftarrow> strnlen inStr inMaxLen;
     instr_tmp \<leftarrow> lower_copy calloc (take stringLen inStr);
     inSuffix_tmp \<leftarrow> lower_copy calloc suffix;
     (if length suffix \<le> stringLen
      then do {
        i \<leftarrow> instr_tmp; i \<leftarrow> c_string i;
        f \<leftarrow> inSuffix_tmp; f \<leftarrow> c_string f;
        Some (strstr i f)
      } else Some None)
   }"

section \<open>\<open>memmem\<close>\<close>

datatype inner_result = Found nat | Mismatch nat

text \<open>The inner loop from \<open>p\<close> with \<open>q\<close> matched bytes behind it (\<open>len = q\<close>).\<close>

function memmem_inner :: "bytes \<Rightarrow> nat \<Rightarrow> bytes \<Rightarrow> nat \<Rightarrow> nat \<Rightarrow> inner_result option" where
  "memmem_inner start p pat f_len q = do {
     a \<leftarrow> rd start p;
     b \<leftarrow> rd pat q;
     (if a = b
      then if q + 1 = f_len then Some (Found (p + 1 - f_len))
           else memmem_inner start (p + 1) pat f_len (q + 1)
      else Some (Mismatch (p + 1)))
   }"
  by pat_completeness auto
termination
  by (relation "measure (\<lambda>(s, p, f, n, q). length s - p)") (auto simp: mem_simps)

declare memmem_inner.simps [simp del]

lemma memmem_inner_mismatch: "memmem_inner s p f n q = Some (Mismatch p') \<Longrightarrow> p < p' \<and> p' \<le> length s"
proof (induction s p f n q rule: memmem_inner.induct)
  case (1 s p f n q)
  from 1(2) obtain a b where r: "rd s p = Some a" "rd f q = Some b"
    by (auto simp: memmem_inner.simps [of s p] bind_eq_Some_conv)
  from 1(2) have "if a = b then q + 1 \<noteq> n \<and> memmem_inner s (p + 1) f n (q + 1) = Some (Mismatch p')
      else p' = p + 1"
    by (simp add: memmem_inner.simps [of s p] r split: if_splits)
  with 1(1) [OF r] r show ?case by (fastforce simp: mem_simps split: if_splits)
qed

function memmem_outer :: "bytes \<Rightarrow> nat \<Rightarrow> bytes \<Rightarrow> nat \<Rightarrow> nat \<Rightarrow> nat option option" where
  "memmem_outer start s_len pat f_len p =
     (if p + f_len \<le> s_len
      then case memmem_inner start p pat f_len 0 of
          None \<Rightarrow> None
        | Some (Found k) \<Rightarrow> Some (Some k)
        | Some (Mismatch p') \<Rightarrow> memmem_outer start s_len pat f_len p'
      else Some None)"
  by pat_completeness auto
termination
  by (relation "measure (\<lambda>(s, n, f, m, p). length s - p)")
    (auto dest!: memmem_inner_mismatch)

declare memmem_outer.simps [simp del]

definition memmem :: "bytes \<Rightarrow> nat \<Rightarrow> bytes \<Rightarrow> nat \<Rightarrow> nat option option" where
  "memmem start s_len pat f_len = memmem_outer start s_len pat f_len 0"

section \<open>Type-length-value items\<close>

text \<open>The item's id, its data and what follows it, when the status is \<open>kNoErr\<close>.\<close>

definition TLVGetNext :: "bytes \<Rightarrow> OSStatus \<times> (u8 \<times> bytes \<times> bytes) option" where
  "TLVGetNext src =
     (if length src < 2 then (kNotFoundErr, None)
      else let len = unat (src ! 1)
        in if length src < 2 + len then (kUnderrunErr, None)
           else (kNoErr, Some (src ! 0, slice src 2 len, drop (2 + len) src)))"

section \<open>Constant-time comparison\<close>

definition memcmp_constant_time :: "bytes \<Rightarrow> bytes \<Rightarrow> nat \<Rightarrow> u32 option" where
  "memcmp_constant_time a b inLen =
     foldl (\<lambda>r i. do { result \<leftarrow> r; x \<leftarrow> rd a i; y \<leftarrow> rd b i; Some (result OR ucast (x XOR y)) })
       (Some 0) [0..<inLen]"

section \<open>Comparison is the order of the lower-case strings\<close>

fun lex3 :: "bytes \<Rightarrow> bytes \<Rightarrow> int" where
  "lex3 [] [] = 0"
| "lex3 [] (b # t) = - 1"
| "lex3 (a # s) [] = 1"
| "lex3 (a # s) (b # t) = (if a < b then - 1 else if b < a then 1 else lex3 s t)"

lemma lex3_eq_0_iff: "lex3 s t = 0 \<longleftrightarrow> s = t"
  by (induction s t rule: lex3.induct) auto

lemma lex3_swap: "lex3 t s = - lex3 s t"
  by (induction s t rule: lex3.induct) auto

lemma c_string_cases:
  assumes "c_string b = Some s"
  obtains "s = []" "rd b 0 = Some 0"
  | c s' where "s = c # s'" "c \<noteq> 0" "rd b 0 = Some c" "c_string (tl b) = Some s'"
  using assms by (cases b) (auto simp: rd_def split: if_splits)

lemma tolower_pos: "0 < tolower c \<longleftrightarrow> c \<noteq> 0" "tolower c \<noteq> 0 \<longleftrightarrow> c \<noteq> 0" "\<not> tolower c < 0"
  using tolower_eq_0_iff [of c] word_neq_0_conv [of "tolower c"] by auto

lemma tolower_0 [simp]: "tolower 0 = 0"
  by (simp add: tolower_def)

lemma strnicmp_lex3:
  "c_string b1 = Some s \<Longrightarrow> c_string b2 = Some t \<Longrightarrow>
     strnicmp b1 b2 n = Some (lex3 (map tolower (take n s)) (map tolower (take n t)))"
proof (induction n arbitrary: b1 b2 s t)
  case (Suc n)
  show ?case
    using Suc.prems(1)
  proof (cases rule: c_string_cases)
    case 1
    from Suc.prems(2) show ?thesis
      by (cases rule: c_string_cases) (use 1 in \<open>auto simp: tolower_pos Let_def\<close>)
  next
    case (2 c s')
    show ?thesis
      using Suc.prems(2)
    proof (cases rule: c_string_cases)
      case 1
      with 2 show ?thesis by (auto simp: tolower_pos Let_def)
    next
      case (2 d t')
      then show ?thesis
        using \<open>s = c # s'\<close> \<open>rd b1 0 = Some c\<close> \<open>c \<noteq> 0\<close> Suc.IH [OF \<open>c_string (tl b1) = Some s'\<close> 2(4)]
        by (simp add: Let_def tolower_pos)
    qed
  qed
qed simp

lemma strnicmpx_lex3:
  "n \<le> length b1 \<Longrightarrow> 0 \<notin> set (take n b1) \<Longrightarrow> c_string b2 = Some t \<Longrightarrow>
     strnicmpx b1 n b2 = Some (lex3 (map tolower (take n b1)) (map tolower t))"
proof (induction n arbitrary: b1 b2 t)
  case 0
  from 0(3) show ?case by (cases rule: c_string_cases) auto
next
  case (Suc n)
  obtain c b1' where b1: "b1 = c # b1'" using Suc.prems(1) by (cases b1) auto
  from Suc.prems(3) show ?case
  proof (cases rule: c_string_cases)
    case 1
    with b1 Suc.prems(2) show ?thesis by (auto simp: rd_def tolower_pos Let_def)
  next
    case (2 d t')
    then have "strnicmpx b1' n (tl b2) = Some (lex3 (map tolower (take n b1')) (map tolower t'))"
      using Suc.prems(1,2) b1 by (intro Suc.IH) auto
    with 2 b1 Suc.prems(2) show ?thesis by (simp add: rd_def tolower_pos Let_def)
  qed
qed

lemma strnlen_c_string: "c_string b = Some s \<Longrightarrow> strnlen b n = Some (min n (length s))"
proof (induction b n arbitrary: s rule: strnlen.induct)
  case (3 c b n)
  then show ?case by (auto split: if_splits)
qed auto

lemma c_string_prefix: "c_string b = Some s \<Longrightarrow> n \<le> length s \<Longrightarrow> take n b = take n s"
  using c_string_SomeD by fastforce

lemma take_drop_lower: "take k (drop j s) = drop j (take (j + k) s)"
  by (simp add: take_drop add.commute)

lemma strnicmp_suffix_lex3:
  assumes "c_string b = Some s" "c_string f = Some t"
  shows "strnicmp_suffix b n f = Some
    (if length t \<le> length (take n s)
     then lex3 (map tolower (drop (length (take n s) - length t) (take n s))) (map tolower t) else - 1)"
proof -
  define m where "m = min n (length s)"
  obtain r where b: "b = s @ 0 # r" "0 \<notin> set s" using c_string_SomeD [OF assms(1)] by auto
  have len: "length (take n s) = m" by (simp add: m_def min.commute)
  note run = strnlen_c_string [OF assms(1), of n, folded m_def]
  show ?thesis
  proof (cases "length t \<le> m")
    case True
    have d: "take (length t) (drop (m - length t) b) = drop (m - length t) (take n s)"
      using True b by (auto simp: m_def take_drop_lower min_def)
    have "strnicmpx (drop (m - length t) b) (length t) f =
        Some (lex3 (map tolower (take (length t) (drop (m - length t) b))) (map tolower t))"
    proof (rule strnicmpx_lex3)
      show "length t \<le> length (drop (m - length t) b)" using True b by (auto simp: m_def)
      show "0 \<notin> set (take (length t) (drop (m - length t) b))"
        unfolding d using b by (auto dest: in_set_dropD in_set_takeD)
    qed (rule assms(2))
    with True show ?thesis
      unfolding len d by (simp add: strnicmp_suffix_def c_strlen_def assms(2) run)
  next
    case False
    then show ?thesis
      unfolding len by (simp add: strnicmp_suffix_def c_strlen_def assms(2) run)
  qed
qed

section \<open>What \<open>memmem\<close> finds\<close>

lemma memmem_inner_found:
  "memmem_inner s p f n q = Some (Found k) \<Longrightarrow> q < n \<Longrightarrow> n \<le> length f \<Longrightarrow> q \<le> p \<Longrightarrow>
     k + n \<le> length s \<and> k + q = p \<and> (\<forall>i. q \<le> i \<and> i < n \<longrightarrow> s ! (k + i) = f ! i)"
proof (induction s p f n q rule: memmem_inner.induct)
  case (1 s p f n q)
  from 1(2) have r: "rd s p = Some (s ! p)" "rd f q = Some (f ! q)" "p < length s"
    and e: "s ! p = f ! q"
    and c: "if q + 1 = n then k = p + 1 - n else memmem_inner s (p + 1) f n (q + 1) = Some (Found k)"
    by (auto simp: memmem_inner.simps [of s p] bind_eq_Some_conv mem_simps split: if_splits)
  show ?case
  proof (cases "q + 1 = n")
    case True
    with c e r 1(5) have k: "k = p - q" "k + q = p" by auto
    have "s ! (k + i) = f ! i" if "q \<le> i" "i < n" for i
    proof -
      have "i = q" using that True by simp
      then show ?thesis using e k by simp
    qed
    with k True r(3) show ?thesis by auto
  next
    case False
    then have "k + n \<le> length s \<and> k + (q + 1) = p + 1 \<and>
        (\<forall>i. q + 1 \<le> i \<and> i < n \<longrightarrow> s ! (k + i) = f ! i)"
      using 1(3-5) c by (intro 1(1) [OF r(1,2) e False]) auto
    then show ?thesis using e by (auto simp: less_Suc_eq_le le_eq_less_or_eq [of q])
  qed
qed

lemma memmem_outer_sound:
  "memmem_outer s n f m p = Some (Some k) \<Longrightarrow> 0 < m \<Longrightarrow> m \<le> length f \<Longrightarrow> p \<le> k \<and> slice s k m = take m f"
proof (induction s n f m p rule: memmem_outer.induct)
  case (1 s n f m p)
  from 1(2) have c: "p + m \<le> n"
    by (simp add: memmem_outer.simps [of s n f m p] split: if_splits)
  show ?case
  proof (cases "memmem_inner s p f m 0")
    case None
    with 1(2) c show ?thesis by (simp add: memmem_outer.simps [of s n f m p])
  next
    case (Some r)
    show ?thesis
    proof (cases r)
      case (Found k')
      with Some 1(2) c have "k' = k" by (simp add: memmem_outer.simps [of s n f m p])
      with memmem_inner_found [of s p f m 0 k] Some Found 1(3,4) show ?thesis
        by (auto intro!: nth_equalityI simp: slice_nth)
    next
      case (Mismatch p')
      with Some 1(2) c have "memmem_outer s n f m p' = Some (Some k)"
        by (simp add: memmem_outer.simps [of s n f m p])
      with 1(1) [OF c Some Mismatch] 1(3,4) memmem_inner_mismatch [of s p f m 0 p'] Some Mismatch
      show ?thesis by auto
    qed
  qed
qed

text \<open>From a real occurrence the inner loop runs to its end.\<close>

lemma memmem_inner_complete:
  assumes "q < n" "n \<le> length f" "k + n \<le> length s" "\<forall>i < n. s ! (k + i) = f ! i"
  shows "memmem_inner s (k + q) f n q = Some (Found k)"
  using assms
proof (induction "n - q" arbitrary: q)
  case (Suc d)
  then have r: "rd s (k + q) = Some (f ! q)" "rd f q = Some (f ! q)" by (auto simp: rd_def)
  show ?case
  proof (cases "q + 1 = n")
    case True
    then show ?thesis using r by (simp add: memmem_inner.simps [of s "k + q"])
  next
    case False
    with Suc.hyps Suc.prems have "memmem_inner s (k + (q + 1)) f n (q + 1) = Some (Found k)"
      by (intro Suc.hyps(1)) auto
    with False r show ?thesis by (simp add: memmem_inner.simps [of s "k + q"])
  qed
qed simp

lemma memmem_outer_skip:
  assumes "f \<noteq> []" "hd f \<notin> set u" "p \<le> length u" "length f = m" "length (u @ f @ v) = n"
  shows "memmem_outer (u @ f @ v) n f m p = Some (Some (length u))"
  using assms(3)
proof (induction "length u - p" arbitrary: p)
  case 0
  then have p: "p = length u" by simp
  have "memmem_inner (u @ f @ v) (length u + 0) f m 0 = Some (Found (length u))"
    using assms by (intro memmem_inner_complete) (auto simp: nth_append)
  then show ?case using assms p by (subst memmem_outer.simps) simp
next
  case (Suc d)
  then have p: "p < length u" by simp
  then have "u ! p \<noteq> hd f" using assms(2) by (metis nth_mem)
  then have "memmem_inner (u @ f @ v) p f m 0 = Some (Mismatch (p + 1))"
    using p assms(1) by (simp add: memmem_inner.simps [of _ p] rd_def nth_append hd_conv_nth)
  moreover have "memmem_outer (u @ f @ v) n f m (p + 1) = Some (Some (length u))"
    using Suc by (intro Suc.hyps(1)) auto
  ultimately show ?case using p assms(4,5) by (auto simp: memmem_outer.simps [of _ _ _ _ p])
qed

section \<open>Walking a TLV region\<close>

text \<open>The items of a region, in order, until \<open>TLVGetNext\<close> reports its end or an error.\<close>

fun encode_tlv :: "(u8 \<times> bytes) list \<Rightarrow> bytes" where
  "encode_tlv [] = []"
| "encode_tlv ((i, d) # items) = i # word_of_nat (length d) # d @ encode_tlv items"

function tlv_walk :: "bytes \<Rightarrow> (u8 \<times> bytes) list \<times> OSStatus" where
  "tlv_walk src = (case TLVGetNext src of
     (err, None) \<Rightarrow> ([], err)
   | (err, Some (i, d, nxt)) \<Rightarrow> (case tlv_walk nxt of (items, e) \<Rightarrow> ((i, d) # items, e)))"
  by pat_completeness auto
termination
  by (relation "measure length") (auto simp: TLVGetNext_def Let_def split: if_splits)

declare tlv_walk.simps [simp del]

lemma TLVGetNext_item:
  assumes "length d < 256"
  shows "TLVGetNext (i # word_of_nat (length d) # d @ rest) = (kNoErr, Some (i, d, rest))"
  using assms by (simp add: TLVGetNext_def slice_def unat_of_nat)

lemma tlv_walk_encode:
  "\<forall>(i, d) \<in> set items. length d < 256 \<Longrightarrow> length rest < 2 \<Longrightarrow>
     tlv_walk (encode_tlv items @ rest) = (items, kNotFoundErr)"
proof (induction items rule: encode_tlv.induct)
  case 1
  then show ?case by (simp add: tlv_walk.simps [of rest] TLVGetNext_def)
next
  case (2 i d items)
  then show ?case
    using TLVGetNext_item [of d i "encode_tlv items @ rest"] by (subst tlv_walk.simps) simp
qed

section \<open>Constant-time comparison\<close>

lemma foldl_or_zero:
  assumes "\<forall>i \<in> set js. i < length a \<and> i < length b"
  shows "\<exists>w. foldl (\<lambda>r i. do { result \<leftarrow> r; x \<leftarrow> rd a i; y \<leftarrow> rd b i; Some (result OR ucast (x XOR y)) })
       (Some v) js = Some (w :: u32) \<and> (w = 0 \<longleftrightarrow> v = 0 \<and> (\<forall>i \<in> set js. a ! i = b ! i))"
  using assms
proof (induction js arbitrary: v)
  case (Cons j js)
  have "v OR ucast (a ! j XOR b ! j) = (0 :: u32) \<longleftrightarrow> v = 0 \<and> a ! j = b ! j"
    by (simp add: or_eq_0_iff ucast_u32_eq_0_iff xor_eq_0_iff)
  with Cons.IH [of "v OR ucast (a ! j XOR b ! j)"] Cons.prems show ?case
    by (auto simp: rd_def)
qed simp

lemma ends_with: "(\<exists>u. s = u @ t) \<longleftrightarrow> length t \<le> length s \<and> drop (length s - length t) s = t"
  by (metis append_eq_conv_conj append_take_drop_id diff_add_inverse2 length_append le_add2)

section \<open>Properties\<close>

text \<open>
  On C strings \<open>strnicmp\<close> is the three-way lexicographic comparison of the first \<open>n\<close>
  characters in lower case; it never reads past a terminator.
\<close>

theorem strnicmp_is_lexicographic:
  assumes "c_string inS1 = Some s" and "c_string inS2 = Some t"
  shows "strnicmp inS1 inS2 n = Some (lex3 (map tolower (take n s)) (map tolower (take n t)))"
  by (rule strnicmp_lex3 [OF assms])

theorem strnicmp_is_lexicographic_witness:
  "strnicmp [0x48, 0x4F, 0x53, 0x54, 0] [0x68, 0x6F, 0x73, 0] 4 = Some 1 \<and>
   lex3 [0x68, 0x6F, 0x73, 0x74] [0x68, 0x6F, 0x73] = 1"
  using strnicmp_is_lexicographic [of "[0x48, 0x4F, 0x53, 0x54, 0]" "[0x48, 0x4F, 0x53, 0x54]"
      "[0x68, 0x6F, 0x73, 0]" "[0x68, 0x6F, 0x73]" 4]
  by (simp add: tolower_def)

text \<open>
  \<open>strnicmp_suffix\<close> returns 0 exactly when the string, cut at \<open>inMaxLen\<close>, ends with the suffix
  up to case.
\<close>

theorem strnicmp_suffix_iff:
  assumes "c_string inStr = Some s" and "c_string inSuffix = Some t"
  shows "strnicmp_suffix inStr n inSuffix = Some 0 \<longleftrightarrow>
    (\<exists>u. map tolower (take n s) = u @ map tolower t)"
proof -
  let ?s = "map tolower (take n s)" and ?t = "map tolower t"
  have "(\<exists>u. ?s = u @ ?t) \<longleftrightarrow> length ?t \<le> length ?s \<and> drop (length ?s - length ?t) ?s = ?t"
    by (rule ends_with)
  then show ?thesis
    unfolding strnicmp_suffix_lex3 [OF assms] by (auto simp: lex3_eq_0_iff drop_map split: if_splits)
qed

theorem strnicmp_suffix_iff_witness:
  "strnicmp_suffix [0x61, 0x2E, 0x4A, 0x53, 0] 9 [0x2E, 0x6A, 0x73, 0] = Some 0 \<longleftrightarrow>
    (\<exists>u. [0x61, 0x2E, 0x6A, 0x73] = u @ [0x2E, 0x6A, 0x73])"
  using strnicmp_suffix_iff [of "[0x61, 0x2E, 0x4A, 0x53, 0]" "[0x61, 0x2E, 0x4A, 0x53]"
      "[0x2E, 0x6A, 0x73, 0]" "[0x2E, 0x6A, 0x73]" 9]
  by (simp add: tolower_def)

text \<open>
  \<open>memmem\<close> finds a pattern whose first byte does not occur before it: the search then
  ends with the offset of that occurrence, without reading outside the two regions.
\<close>

theorem memmem_finds:
  assumes "pat \<noteq> []" and "hd pat \<notin> set u"
  shows "memmem (u @ pat @ v) (length (u @ pat @ v)) pat (length pat) = Some (Some (length u))"
  unfolding memmem_def using assms by (intro memmem_outer_skip) auto

theorem memmem_finds_witness:
  "memmem [0x61, 0x0D, 0x0A, 0x62] (Suc 3) [0x0D, 0x0A] (Suc 1) = Some (Some 1)"
  using memmem_finds [of "[0x0D, 0x0A]" "[0x61]" "[0x62]"] by (simp add: numeral_3_eq_3)

text \<open>
  A result of \<open>memmem\<close> is an occurrence of the pattern inside the region, but the search does
  not step back after a partial match: \<open>aab\<close> is searched for \<open>ab\<close> in vain.
\<close>

theorem memmem_sound_incomplete:
  "(memmem start s_len pat f_len = Some (Some k) \<and> 0 < f_len \<and> f_len \<le> length pat \<longrightarrow>
     slice start k f_len = take f_len pat) \<and>
   (a \<noteq> b \<longrightarrow> memmem [a, a, b] 3 [a, b] 2 = Some None)"
proof -
  have "memmem [a, a, b] 3 [a, b] 2 = Some None" if "a \<noteq> b"
    using that by (simp add: memmem_def memmem_outer.simps memmem_inner.simps rd_def)
  then show ?thesis using memmem_outer_sound by (auto simp: memmem_def)
qed

theorem memmem_sound_incomplete_witness:
  "slice [0x61, 0x0D, 0x0A] 1 2 = [0x0D, 0x0A :: u8] \<and> memmem [0x0D, 0x0D, 0x0A] 3 [0x0D, 0x0A] 2 = Some None"
  using memmem_sound_incomplete [of "[0x61, 0x0D, 0x0A]" 3 "[0x0D, 0x0A]" 2 1 "0x0D" "0x0A"]
  by (simp add: memmem_def memmem_outer.simps memmem_inner.simps rd_def)

text \<open>
  C38. Walking a region with \<open>TLVGetNext\<close> yields exactly the items it was built from, in order, and
  ends with \<open>kNotFoundErr\<close> (fewer than two bytes left).
\<close>

theorem tlv_roundtrip:
  assumes "\<forall>(i, d) \<in> set items. length d < 256" and "length rest < 2"
  shows "tlv_walk (encode_tlv items @ rest) = (items, kNotFoundErr)"
  by (rule tlv_walk_encode [OF assms])

theorem tlv_roundtrip_witness:
  "tlv_walk [1, 2, 7, 8, 5, 0] = ([(1, [7, 8]), (5, [])], kNotFoundErr)"
  using tlv_roundtrip [of "[(1, [7, 8]), (5, [])]" "[]"] by simp

text \<open>
  \<open>memcmp_constant_time\<close> reads every byte of both regions and returns 0 exactly when
  they are equal.
\<close>

theorem memcmp_constant_time_iff:
  assumes "n \<le> length a" and "n \<le> length b"
  shows "\<exists>r. memcmp_constant_time a b n = Some r \<and> (r = 0 \<longleftrightarrow> take n a = take n b)"
  using foldl_or_zero [of "[0..<n]" a b 0] assms
  by (auto simp: memcmp_constant_time_def list_eq_iff_nth_eq)

theorem memcmp_constant_time_iff_witness:
  "\<exists>r. memcmp_constant_time [1, 2] [1, 3] 2 = Some r \<and> (r = 0 \<longleftrightarrow> [1, 2] = [1, 3 :: u8])"
  using memcmp_constant_time_iff [of 2 "[1, 2]" "[1, 3]"] by simp

end
