(* ===== verification/Scanf.thy ===== *)
theory Scanf
  imports StringConv
begin

text \<open>
  \<open>VSNScanF\<close> of \<open>libraries/utilities/StringUtils.c\<close>, the formatted reader that the HTTP code uses
  for header values. The text is a list and \<open>src\<close> an offset into it; the format is the list of its
  bytes with the terminator, reading past it is a fault. The variadic arguments are a list; the
  stores through them are the list \<open>stores\<close>, in order, so that the caller's memory stays a parameter.
  Each stage of the loop body is a definition; \<open>int\<close> arithmetic on the field width that overflows
  is undefined and a fault, the accumulator \<open>x\<close> is 64 bits wide and wraps.
\<close>

datatype va = Width int | Dest bool

datatype store =
    StPtr nat
  | StSize nat
  | StChars bytes
  | StString bytes
  | StPos nat
  | StNum8 u8
  | StNum16 u16
  | StNum32 u32
  | StNum64 u64

record scan_state =
  src :: nat
  fmt :: bytes
  args :: "va list"
  matched :: int
  stores :: "store list"

text \<open>\<open>Next\<close> is \<open>continue\<close>, \<open>Done\<close> leaves the loop (\<open>break\<close> or \<open>goto exit\<close>).\<close>

datatype scan_step = Next scan_state | Done scan_state

abbreviation INT_MAX :: int where "INT_MAX \<equiv> 2147483647"

definition head :: "bytes \<Rightarrow> u8 option" where
  "head f = rd f 0"

text \<open>\<open>va_arg\<close> for a pointer: whether it is not \<open>NULL\<close>.\<close>

fun va_ptr :: "va list \<Rightarrow> (bool \<times> va list) option" where
  "va_ptr (Dest b # as) = Some (b, as)"
| "va_ptr _ = None"

fun va_int :: "va list \<Rightarrow> (int \<times> va list) option" where
  "va_int (Width n # as) = Some (n, as)"
| "va_int _ = None"

text \<open>Storing through an optional pointer, as for \<open>ptrArg\<close> and \<open>sizeArg\<close>.\<close>

definition store_opt :: "store \<Rightarrow> scan_state \<Rightarrow> scan_state option" where
  "store_opt v st = do {
     (p, as) \<leftarrow> va_ptr (args st);
     Some (st\<lparr>args := as, stores := stores st @ (if p then [v] else [])\<rparr>)
   }"

section \<open>The format\<close>

fun skip_format_space :: "bytes \<Rightarrow> bytes" where
  "skip_format_space [] = []"
| "skip_format_space (c # f) = (if isspace c then skip_format_space f else c # f)"

definition skip_space :: "bytes \<Rightarrow> nat \<Rightarrow> nat" where
  "skip_space b i = scan (\<lambda>c. \<not> isspace c) b i (length b)"

text \<open>Flags: \<open>*\<close>, \<open>#\<close> and \<open>&\<close> as \<open>(suppress, alt, storePtr)\<close>.\<close>

fun scan_flags :: "bytes \<Rightarrow> bool \<Rightarrow> nat \<Rightarrow> bool \<Rightarrow> (bool \<times> nat \<times> bool \<times> bytes) option" where
  "scan_flags [] suppress alt storePtr = None"
| "scan_flags (c # f) suppress alt storePtr =
     (if c = 0x2A then scan_flags f True alt storePtr
      else if c = 0x23 then scan_flags f suppress (alt + 1) storePtr
      else if c = 0x26 then scan_flags f suppress alt True
      else Some (suppress, alt, storePtr, c # f))"

fun width_digits :: "bytes \<Rightarrow> int \<Rightarrow> (int \<times> bytes) option" where
  "width_digits [] w = None"
| "width_digits (c # f) w =
     (if isdigit c
      then if w * 10 + (uint c - 0x30) \<le> INT_MAX then width_digits f (w * 10 + (uint c - 0x30)) else None
      else Some (w, c # f))"

text \<open>Field width, from the format or the arguments; \<open>None\<close> inside is the \<open>goto exit\<close>.\<close>

definition scan_width :: "bytes \<Rightarrow> va list \<Rightarrow> ((int \<times> bytes) option \<times> va list) option" where
  "scan_width f as = do {
     c \<leftarrow> head f;
     (if isdigit c then do { r \<leftarrow> width_digits f 0; Some (Some r, as) }
      else if c = 0x2E then do {
        (w, as) \<leftarrow> va_int as;
        Some (if w < 0 then None else Some (w, tl f), as)
      } else Some (Some (INT_MAX, f), as))
   }"

text \<open>Size modifier: \<open>hh\<close> becomes \<open>H\<close>, \<open>ll\<close> becomes \<open>L\<close>.\<close>

definition scan_modifier :: "bytes \<Rightarrow> (u8 \<times> bytes) option" where
  "scan_modifier f = do {
     c \<leftarrow> head f;
     (if c = 0x68 then do {
        d \<leftarrow> rd f 1;
        Some (if d = 0x68 then (0x48, drop 2 f) else (0x68, drop 1 f))
      } else if c = 0x6C then do {
        d \<leftarrow> rd f 1;
        Some (if d = 0x6C then (0x4C, drop 2 f) else (0x6C, drop 1 f))
      } else if c = 0x6A \<or> c = 0x7A \<or> c = 0x74 then Some (c, drop 1 f)
      else Some (0, f))
   }"

section \<open>Text conversions\<close>

text \<open>
  \<open>while( src < end && *src != 0 && p( *src ) && fieldWidth-- > 0 ) ++src\<close>: at most \<open>fieldWidth\<close>
  bytes.
\<close>

definition scan_field :: "(u8 \<Rightarrow> bool) \<Rightarrow> bytes \<Rightarrow> nat \<Rightarrow> int \<Rightarrow> nat" where
  "scan_field p b i fieldWidth =
     scan (\<lambda>c. c = 0 \<or> \<not> p c) b i (min (length b) (i + nat fieldWidth))"

definition conv_c :: "bytes \<Rightarrow> u8 \<Rightarrow> bool \<Rightarrow> bool \<Rightarrow> int \<Rightarrow> scan_state \<Rightarrow> scan_step option" where
  "conv_c b sizeModifier suppress storePtr fieldWidth st =
     (if sizeModifier \<noteq> 0 then Some (Done st)
      else if storePtr then
        (let len = min (length b - src st) (nat fieldWidth)
         in if suppress then Some (Next (st\<lparr>src := src st + len\<rparr>))
            else do {
              st \<leftarrow> store_opt (StPtr (src st)) st;
              st \<leftarrow> store_opt (StSize len) st;
              Some (Next (st\<lparr>src := src st + len, matched := matched st + 1\<rparr>))
            })
      else
        (let w = (if fieldWidth = INT_MAX then 1 else fieldWidth)
         in if int (length b - src st) < w then Some (Done st)
            else if suppress then Some (Next (st\<lparr>src := src st + nat w\<rparr>))
            else do {
              (s, as) \<leftarrow> va_ptr (args st);
              (if \<not> s then Some (Done (st\<lparr>args := as\<rparr>))
               else Some (Next (st\<lparr>args := as, src := src st + nat w, matched := matched st + 1,
                      stores := stores st @ [StChars (slice b (src st) (nat w))]\<rparr>)))
            }))"

text \<open>
  Delivering the bytes \<open>[old, new)\<close> of a \<open>%s\<close> or \<open>%[\<close>: skipped, as pointer and size, or copied
  with a terminator.
\<close>

definition store_text :: "bytes \<Rightarrow> bool \<Rightarrow> bool \<Rightarrow> nat \<Rightarrow> nat \<Rightarrow> scan_state \<Rightarrow> scan_step option" where
  "store_text b suppress storePtr old new st =
     (if suppress then Some (Next (st\<lparr>src := new\<rparr>))
      else if storePtr then do {
        st \<leftarrow> store_opt (StPtr old) st;
        st \<leftarrow> store_opt (StSize (new - old)) st;
        Some (Next (st\<lparr>src := new, matched := matched st + 1\<rparr>))
      } else do {
        (s, as) \<leftarrow> va_ptr (args st);
        (if \<not> s then Some (Done (st\<lparr>args := as\<rparr>))
         else Some (Next (st\<lparr>args := as, src := new, matched := matched st + 1,
                stores := stores st @ [StString (slice b old (new - old))]\<rparr>)))
      })"

definition conv_s :: "bytes \<Rightarrow> u8 \<Rightarrow> bool \<Rightarrow> nat \<Rightarrow> bool \<Rightarrow> int \<Rightarrow> scan_state \<Rightarrow> scan_step option" where
  "conv_s b sizeModifier suppress alt storePtr fieldWidth st =
     (if sizeModifier \<noteq> 0 then Some (Done st)
      else
        (let old = skip_space b (src st);
             new = scan_field (\<lambda>c. \<not> isspace c) b old fieldWidth
         in if alt = 0 \<and> (length b \<le> old \<or> b ! old = 0) then Some (Done (st\<lparr>src := old\<rparr>))
            else store_text b suppress storePtr old new (st\<lparr>src := old\<rparr>)))"

text \<open>The scanlist after \<open>%[\<close>: complement flag, its characters, and the format behind \<open>]\<close>.\<close>

definition scan_set :: "bytes \<Rightarrow> (bool \<times> bytes \<times> bytes) option option" where
  "scan_set f = do {
     c \<leftarrow> head f;
     let notSet = (c = 0x5E);
     let f = (if notSet then tl f else f);
     c \<leftarrow> head f;
     let first = (if c = 0x5D then 1 else 0);
     let e = scan (\<lambda>c. c = 0 \<or> c = 0x5D) f first (length f);
     c \<leftarrow> rd f e;
     Some (if c = 0 then None else Some (notSet, take e f, drop (e + 1) f))
   }"

definition conv_set_match ::
  "bytes \<Rightarrow> bool \<Rightarrow> bytes \<Rightarrow> bool \<Rightarrow> nat \<Rightarrow> bool \<Rightarrow> int \<Rightarrow> scan_state \<Rightarrow> scan_step option" where
  "conv_set_match b notSet chars suppress alt storePtr fieldWidth st =
     (let old = src st;
          new = scan_field (\<lambda>c. (c \<in> set chars) \<noteq> notSet) b old fieldWidth;
          st = st\<lparr>src := new\<rparr>
      in if old = new \<and> alt = 0 then Some (Done st)
         else store_text b suppress storePtr old new st)"

definition conv_set :: "bytes \<Rightarrow> u8 \<Rightarrow> bool \<Rightarrow> nat \<Rightarrow> bool \<Rightarrow> int \<Rightarrow> scan_state \<Rightarrow> scan_step option" where
  "conv_set b sizeModifier suppress alt storePtr fieldWidth st =
     (if sizeModifier \<noteq> 0 then Some (Done st)
      else do {
        r \<leftarrow> scan_set (fmt st);
        (case r of
           None \<Rightarrow> Some (Done st)
         | Some (notSet, chars, f) \<Rightarrow>
             conv_set_match b notSet chars suppress alt storePtr fieldWidth (st\<lparr>fmt := f\<rparr>))
      })"

definition conv_percent :: "bytes \<Rightarrow> u8 \<Rightarrow> bool \<Rightarrow> int \<Rightarrow> scan_state \<Rightarrow> scan_step" where
  "conv_percent b sizeModifier suppress fieldWidth st =
     (if sizeModifier \<noteq> 0 \<or> fieldWidth \<noteq> INT_MAX \<or> suppress \<or> length b \<le> src st then Done st
      else if b ! src st \<noteq> 0x25 then Done (st\<lparr>src := src st + 1\<rparr>)
      else Next (st\<lparr>src := src st + 1\<rparr>))"

definition conv_n :: "u8 \<Rightarrow> bool \<Rightarrow> int \<Rightarrow> scan_state \<Rightarrow> scan_step option" where
  "conv_n sizeModifier suppress fieldWidth st =
     (if sizeModifier \<noteq> 0 \<or> fieldWidth \<noteq> INT_MAX \<or> suppress then Some (Done st)
      else do {
        (i, as) \<leftarrow> va_ptr (args st);
        (if \<not> i then Some (Done (st\<lparr>args := as\<rparr>))
         else Some (Next (st\<lparr>args := as, stores := stores st @ [StPos (src st)]\<rparr>)))
      })"

section \<open>Number conversions\<close>

text \<open>Sign, as \<open>(negative, src, fieldWidth)\<close>.\<close>

definition scan_sign :: "bytes \<Rightarrow> nat \<Rightarrow> int \<Rightarrow> bool \<times> nat \<times> int" where
  "scan_sign b i w =
     (if 1 < length b - i \<and> 0 < w
      then if b ! i = 0x2D then (True, i + 1, w - 1)
           else if b ! i = 0x2B then (False, i + 1, w - 1)
           else (False, i, w)
      else (False, i, w))"

text \<open>Base 0 takes its base from the text; bases 16 and 2 skip their own prefix.\<close>

definition scan_prefix :: "bytes \<Rightarrow> int \<Rightarrow> nat \<Rightarrow> int \<Rightarrow> int \<times> nat \<times> int" where
  "scan_prefix b base i w =
     (let left = length b - i
      in if base = 0
         then if 2 < left \<and> 2 \<le> w \<and> b ! i = 0x30 \<and> tolower (b ! (i + 1)) = 0x78 \<and> isxdigit (b ! (i + 2))
              then (16, i + 2, w - 2)
              else if 2 < left \<and> 2 \<le> w \<and> b ! i = 0x30 \<and> tolower (b ! (i + 1)) = 0x62 \<and>
                   (b ! (i + 2) = 0x30 \<or> b ! (i + 2) = 0x31)
              then (2, i + 2, w - 2)
              else if 1 < left \<and> 1 \<le> w \<and> b ! i = 0x30 \<and> 0x30 \<le> b ! (i + 1) \<and> b ! (i + 1) \<le> 0x37
              then (8, i + 1, w - 1)
              else (10, i, w)
         else if base = 16 \<and> 2 \<le> left \<and> 2 \<le> w \<and> b ! i = 0x30 \<and> tolower (b ! (i + 1)) = 0x78
         then (16, i + 2, w - 2)
         else if base = 2 \<and> 2 \<le> left \<and> 2 \<le> w \<and> b ! i = 0x30 \<and> tolower (b ! (i + 1)) = 0x62
         then (2, i + 2, w - 2)
         else (base, i, w))"

definition digit_value :: "u8 \<Rightarrow> int option" where
  "digit_value c =
     (if isdigit c then Some (uint c - 0x30)
      else if isxdigit c then Some (10 + (uint (tolower c) - 0x61)) else None)"

function scan_digits :: "bytes \<Rightarrow> nat \<Rightarrow> int \<Rightarrow> int \<Rightarrow> u64 \<Rightarrow> nat \<times> u64" where
  "scan_digits b i w base x =
     (if i < length b \<and> 0 < w
      then case digit_value (b ! i) of
          None \<Rightarrow> (i, x)
        | Some v \<Rightarrow> if base \<le> v then (i, x)
                    else scan_digits b (i + 1) (w - 1) base (x * word_of_int base + word_of_int v)
      else (i, x))"
  by pat_completeness auto
termination
  by (relation "measure (\<lambda>(b, i, w, base, x). length b - i)") auto

declare scan_digits.simps [simp del]

text \<open>The stored width on the 32-bit target: \<open>long\<close>, \<open>size_t\<close>, \<open>ptrdiff_t\<close> and pointers have 32 bits.\<close>

definition store_number :: "u8 \<Rightarrow> u64 \<Rightarrow> store option" where
  "store_number sizeModifier x =
     (if sizeModifier = 0 \<or> sizeModifier = 0x6C \<or> sizeModifier = 0x7A \<or> sizeModifier = 0x74 \<or> sizeModifier = 0x70
      then Some (StNum32 (ucast x))
      else if sizeModifier = 0x48 then Some (StNum8 (ucast x))
      else if sizeModifier = 0x68 then Some (StNum16 (ucast x))
      else if sizeModifier = 0x4C \<or> sizeModifier = 0x6A then Some (StNum64 x)
      else None)"

definition conv_number :: "bytes \<Rightarrow> u8 \<Rightarrow> int \<Rightarrow> bool \<Rightarrow> int \<Rightarrow> scan_state \<Rightarrow> scan_step option" where
  "conv_number b sizeModifier base suppress fieldWidth st =
     (let i = skip_space b (src st);
          (negative, old, w) = scan_sign b i fieldWidth;
          (base, i, w) = scan_prefix b base old w;
          (i, x) = scan_digits b i w base 0;
          st = st\<lparr>src := i\<rparr>
      in if i = old then Some (Done st)
         else if suppress then Some (Next st)
         else do {
           (p, as) \<leftarrow> va_ptr (args st);
           (if \<not> p then Some (Done (st\<lparr>args := as\<rparr>))
            else case store_number sizeModifier (if negative then - x else x) of
                None \<Rightarrow> Some (Done (st\<lparr>args := as\<rparr>))
              | Some v \<Rightarrow> Some (Next (st\<lparr>args := as, matched := matched st + 1, stores := stores st @ [v]\<rparr>)))
         })"

section \<open>The loop\<close>

text \<open>Base of a number conversion.\<close>

definition conv_base :: "u8 \<Rightarrow> int option" where
  "conv_base c =
     (if c = 0x64 \<or> c = 0x75 then Some 10
      else if c = 0x70 \<or> c = 0x78 \<or> c = 0x58 then Some 16
      else if c = 0x6F then Some 8
      else if c = 0x69 then Some 0
      else if c = 0x62 then Some 2
      else None)"

definition scan_conversion ::
  "bytes \<Rightarrow> bool \<Rightarrow> nat \<Rightarrow> bool \<Rightarrow> int \<Rightarrow> u8 \<Rightarrow> scan_state \<Rightarrow> scan_step option" where
  "scan_conversion b suppress alt storePtr fieldWidth sizeModifier st = do {
     c \<leftarrow> head (fmt st);
     let st = st\<lparr>fmt := tl (fmt st)\<rparr>;
     (if c = 0x63 then conv_c b sizeModifier suppress storePtr fieldWidth st
      else if c = 0x73 then conv_s b sizeModifier suppress alt storePtr fieldWidth st
      else if c = 0x5B then conv_set b sizeModifier suppress alt storePtr fieldWidth st
      else if c = 0x25 then Some (conv_percent b sizeModifier suppress fieldWidth st)
      else if c = 0x6E then conv_n sizeModifier suppress fieldWidth st
      else case conv_base c of
          None \<Rightarrow> Some (Done st)
        | Some base \<Rightarrow> conv_number b (if c = 0x70 \<and> sizeModifier = 0 then 0x70 else sizeModifier)
            base suppress fieldWidth st)
   }"

text \<open>Flags, width and modifier of a conversion whose \<open>%\<close> has been read.\<close>

definition scan_directive :: "bytes \<Rightarrow> scan_state \<Rightarrow> scan_step option" where
  "scan_directive b st = do {
     (suppress, alt, storePtr, f) \<leftarrow> scan_flags (fmt st) False 0 False;
     (w, as) \<leftarrow> scan_width f (args st);
     (case w of
        None \<Rightarrow> Some (Done (st\<lparr>args := as\<rparr>))
      | Some (fieldWidth, f) \<Rightarrow> do {
          (sizeModifier, f) \<leftarrow> scan_modifier f;
          c \<leftarrow> head f;
          (if c = 0 then Some (Done (st\<lparr>args := as\<rparr>))
           else scan_conversion b suppress alt storePtr fieldWidth sizeModifier (st\<lparr>fmt := f, args := as\<rparr>))
        })
   }"

definition scan_body :: "bytes \<Rightarrow> scan_state \<Rightarrow> scan_step option" where
  "scan_body b st = do {
     c \<leftarrow> head (fmt st);
     let st = (if isspace c then st\<lparr>fmt := skip_format_space (fmt st), src := skip_space b (src st)\<rparr> else st);
     c \<leftarrow> head (fmt st);
     (if c = 0 then Some (Done st)
      else if c \<noteq> 0x25
      then if length b \<le> src st then Some (Done st)
           else let st' = st\<lparr>fmt := tl (fmt st), src := src st + 1\<rparr>
             in Some (if c \<noteq> b ! src st then Done st' else Next st')
      else scan_directive b (st\<lparr>fmt := tl (fmt st)\<rparr>))
   }"

section \<open>Every round consumes part of the format\<close>

named_theorems fmt_le \<open>the format only gets shorter\<close>

lemma skip_format_space_le [fmt_le]: "length (skip_format_space f) \<le> length f"
  by (induction f) auto

lemma scan_flags_le [fmt_le]: "scan_flags f s a p = Some (s', a', p', f') \<Longrightarrow> length f' \<le> length f"
  by (induction f s a p rule: scan_flags.induct) (auto split: if_splits)

lemma width_digits_le [fmt_le]: "width_digits f w = Some (w', f') \<Longrightarrow> length f' \<le> length f"
  by (induction f w rule: width_digits.induct) (auto split: if_splits)

lemma scan_width_le [fmt_le]: "scan_width f as = Some (Some (w, f'), as') \<Longrightarrow> length f' \<le> length f"
  by (auto simp: scan_width_def bind_eq_Some_conv split: if_splits dest: width_digits_le)

lemma scan_modifier_le [fmt_le]: "scan_modifier f = Some (m, f') \<Longrightarrow> length f' \<le> length f"
  by (auto simp: scan_modifier_def bind_eq_Some_conv split: if_splits)

lemma scan_set_le [fmt_le]: "scan_set f = Some (Some (n, cs, f')) \<Longrightarrow> length f' \<le> length f"
  by (auto simp: scan_set_def bind_eq_Some_conv Let_def split: if_splits)

lemma store_opt_fmt [simp]: "store_opt v st = Some st' \<Longrightarrow> fmt st' = fmt st"
  by (auto simp: store_opt_def bind_eq_Some_conv)

lemma store_text_fmt: "store_text b s p i j st = Some (Next st') \<Longrightarrow> fmt st' = fmt st"
  by (auto simp: store_text_def bind_eq_Some_conv split: if_splits)

lemma conv_fmt:
  "conv_c b m s p w st = Some (Next st') \<Longrightarrow> fmt st' = fmt st"
  "conv_s b m s a p w st = Some (Next st') \<Longrightarrow> fmt st' = fmt st"
  "conv_percent b m s w st = Next st' \<Longrightarrow> fmt st' = fmt st"
  "conv_n m s w st = Some (Next st') \<Longrightarrow> fmt st' = fmt st"
  "conv_number b m base s w st = Some (Next st') \<Longrightarrow> fmt st' = fmt st"
  by (auto simp: conv_c_def conv_s_def conv_percent_def conv_n_def conv_number_def bind_eq_Some_conv Let_def
      split: if_splits prod.splits option.splits dest: store_text_fmt)

lemma conv_set_match_fmt: "conv_set_match b n cs s a p w st = Some (Next st') \<Longrightarrow> fmt st' = fmt st"
  by (auto simp: conv_set_match_def Let_def split: if_splits dest: store_text_fmt)

lemma conv_set_fmt:
  assumes "conv_set b m s a p w st = Some (Next st')"
  shows "length (fmt st') \<le> length (fmt st)"
proof -
  obtain n cs f where "scan_set (fmt st) = Some (Some (n, cs, f))"
    "conv_set_match b n cs s a p w (st\<lparr>fmt := f\<rparr>) = Some (Next st')"
    using assms by (auto simp: conv_set_def bind_eq_Some_conv split: if_splits option.splits)
  with conv_set_match_fmt scan_set_le show ?thesis by fastforce
qed

lemma scan_conversion_fmt:
  assumes "scan_conversion b s a p w m st = Some (Next st')"
  shows "length (fmt st') < length (fmt st)"
proof -
  have "0 < length (fmt st)"
    using assms by (auto simp: scan_conversion_def head_def bind_eq_Some_conv mem_simps)
  moreover have "length (fmt st') \<le> length (tl (fmt st))"
    using assms
    by (auto simp: scan_conversion_def bind_eq_Some_conv Let_def split: if_splits option.splits
        dest: conv_fmt conv_set_fmt)
  ultimately show ?thesis by (cases "fmt st") auto
qed

lemma scan_directive_fmt: "scan_directive b st = Some (Next st') \<Longrightarrow> length (fmt st') < length (fmt st)"
  by (auto simp: scan_directive_def bind_eq_Some_conv split: if_splits option.splits
      dest!: scan_conversion_fmt scan_flags_le scan_width_le scan_modifier_le)

lemma scan_body_fmt:
  assumes "scan_body b st = Some (Next st')"
  shows "length (fmt st') < length (fmt st)"
proof -
  define st1 where "st1 = (case fmt st of [] \<Rightarrow> st | c # _ \<Rightarrow>
    if isspace c then st\<lparr>fmt := skip_format_space (fmt st), src := skip_space b (src st)\<rparr> else st)"
  have le: "length (fmt st1) \<le> length (fmt st)"
    using skip_format_space_le [of "fmt st"] by (auto simp: st1_def split: list.split)
  have "length (fmt st') < length (fmt st1)"
    using assms
    by (cases "fmt st")
      (auto simp: scan_body_def st1_def head_def bind_eq_Some_conv mem_simps Let_def split: if_splits
        dest!: scan_directive_fmt)
  with le show ?thesis by simp
qed

function VSNScanF_loop :: "bytes \<Rightarrow> scan_state \<Rightarrow> scan_state option" where
  "VSNScanF_loop b st = (case scan_body b st of
     None \<Rightarrow> None
   | Some (Done st') \<Rightarrow> Some st'
   | Some (Next st') \<Rightarrow> VSNScanF_loop b st')"
  by pat_completeness auto
termination
  by (relation "measure (\<lambda>(b, st). length (fmt st))") (auto dest: scan_body_fmt)

declare VSNScanF_loop.simps [simp del]

text \<open>The number of conversions that stored, and what they stored.\<close>

definition VSNScanF :: "bytes \<Rightarrow> bytes \<Rightarrow> va list \<Rightarrow> (int \<times> store list) option" where
  "VSNScanF inString inFormat inArgs = do {
     st \<leftarrow> VSNScanF_loop inString \<lparr>src = 0, fmt = inFormat, args = inArgs, matched = 0, stores = []\<rparr>;
     Some (matched st, stores st)
   }"

lemma VSNScanF_loop_Next: "scan_body b st = Some (Next st') \<Longrightarrow> VSNScanF_loop b st = VSNScanF_loop b st'"
  by (simp add: VSNScanF_loop.simps [of b st])

lemma VSNScanF_loop_Done: "scan_body b st = Some (Done st') \<Longrightarrow> VSNScanF_loop b st = Some st'"
  by (simp add: VSNScanF_loop.simps [of b st])

lemma scan_body_end: "fmt st = [0] \<Longrightarrow> scan_body b st = Some (Done st)"
  by (simp add: scan_body_def head_def rd_def isspace_def)

lemmas scan_body_simps = scan_body_def head_def rd_def isspace_def isdigit_def scan_directive_def
  scan_width_def scan_modifier_def scan_conversion_def

section \<open>What is stored comes from the text\<close>

definition store_ok :: "bytes \<Rightarrow> store \<Rightarrow> bool" where
  "store_ok b v = (case v of
     StPtr i \<Rightarrow> i \<le> length b
   | StPos i \<Rightarrow> i \<le> length b
   | StSize n \<Rightarrow> n \<le> length b
   | StChars s \<Rightarrow> \<exists>u w. b = u @ s @ w
   | StString s \<Rightarrow> 0 \<notin> set s \<and> (\<exists>u w. b = u @ s @ w)
   | _ \<Rightarrow> True)"

definition scan_ok :: "bytes \<Rightarrow> scan_state \<Rightarrow> bool" where
  "scan_ok b st \<longleftrightarrow> src st \<le> length b \<and> (\<forall>v \<in> set (stores st). store_ok b v)"

fun step_ok :: "bytes \<Rightarrow> scan_step \<Rightarrow> bool" where
  "step_ok b (Next st) = scan_ok b st"
| "step_ok b (Done st) = scan_ok b st"

lemma slice_infix: "i + n \<le> length b \<Longrightarrow> \<exists>u w. b = u @ slice b i n @ w"
  by (rule exI [of _ "take i b"], rule exI [of _ "drop (i + n) b"])
    (simp add: slice_def flip: append_assoc take_add)

lemma skip_space_le: "i \<le> length b \<Longrightarrow> i \<le> skip_space b i \<and> skip_space b i \<le> length b"
  by (simp add: skip_space_def scan_bounds)

lemma scan_field_bounds:
  assumes "i \<le> length b"
  shows "i \<le> scan_field p b i w" "scan_field p b i w \<le> length b"
    "0 \<notin> set (slice b i (scan_field p b i w - i))"
proof -
  let ?q = "\<lambda>c :: u8. c = 0 \<or> \<not> p c" and ?e = "min (length b) (i + nat w)"
  let ?k = "scan ?q b i ?e"
  have "?k \<le> ?e" by (rule scan_le) (simp add: assms)
  then have k: "i \<le> ?k" "?k \<le> ?e" by (simp_all add: scan_ge)
  then show "i \<le> scan_field p b i w" "scan_field p b i w \<le> length b" by (simp_all add: scan_field_def)
  have "slice b i (?k - i) ! j \<noteq> 0" if "j < ?k - i" for j
    using scan_skip [of i "i + j" ?q b ?e] that k by (simp add: slice_nth)
  then show "0 \<notin> set (slice b i (scan_field p b i w - i))"
    using k by (auto simp: scan_field_def in_set_conv_nth)
qed

lemma store_ok_simps [simp]:
  "store_ok b (StPtr i) \<longleftrightarrow> i \<le> length b" "store_ok b (StSize i) \<longleftrightarrow> i \<le> length b"
  "store_ok b (StPos i) \<longleftrightarrow> i \<le> length b"
  "store_ok b (StNum8 w8)" "store_ok b (StNum16 w16)" "store_ok b (StNum32 w32)" "store_ok b (StNum64 w64)"
  by (simp_all add: store_ok_def)

lemma store_ok_slice:
  assumes "i + n \<le> length b"
  shows "store_ok b (StChars (slice b i n))" "0 \<notin> set (slice b i n) \<Longrightarrow> store_ok b (StString (slice b i n))"
  unfolding store_ok_def store.case by (intro conjI slice_infix assms; assumption?)+

lemma scan_ok_src: "scan_ok b st \<Longrightarrow> src st \<le> length b"
  by (simp add: scan_ok_def)

lemma scan_ok_update:
  "scan_ok b st \<Longrightarrow> scan_ok b (st\<lparr>args := as\<rparr>)" "scan_ok b st \<Longrightarrow> scan_ok b (st\<lparr>fmt := f\<rparr>)"
  "scan_ok b st \<Longrightarrow> scan_ok b (st\<lparr>matched := n\<rparr>)"
  "scan_ok b st \<Longrightarrow> i \<le> length b \<Longrightarrow> scan_ok b (st\<lparr>src := i\<rparr>)"
  "scan_ok b st \<Longrightarrow> store_ok b v \<Longrightarrow> scan_ok b (st\<lparr>stores := stores st @ [v]\<rparr>)"
  by (auto simp: scan_ok_def)

lemma store_opt_ok:
  assumes "store_opt v st = Some st'" "store_ok b v" "scan_ok b st"
  shows "scan_ok b st'"
proof -
  obtain p as where "va_ptr (args st) = Some (p, as)"
    using assms(1) by (auto simp: store_opt_def bind_eq_Some_conv)
  with assms(1) have "st' = st\<lparr>args := as, stores := stores st @ (if p then [v] else [])\<rparr>"
    by (simp add: store_opt_def)
  with assms(2,3) show ?thesis by (cases p) (simp_all add: scan_ok_def)
qed

lemma store_text_ok:
  assumes "scan_ok b st" "i \<le> j" "j \<le> length b" "0 \<notin> set (slice b i (j - i))"
    "store_text b s p i j st = Some r"
  shows "step_ok b r"
proof -
  have "store_ok b (StString (slice b i (j - i)))" using assms(2-4) by (intro store_ok_slice) auto
  then have a: "scan_ok b (st\<lparr>stores := stores st @ [StString (slice b i (j - i))]\<rparr>)"
    using assms(1) by (intro scan_ok_update)
  have "scan_ok b (st\<lparr>args := as, src := j, matched := n, stores := stores st @ [StString (slice b i (j - i))]\<rparr>)" for as n
    using a assms(3) by (simp add: scan_ok_def)
  moreover have "scan_ok b (st2\<lparr>src := j, matched := n\<rparr>)"
    if "store_opt (StPtr i) st = Some st1" "store_opt (StSize (j - i)) st1 = Some st2" for st1 st2 n
  proof -
    have "scan_ok b st1" using store_opt_ok [OF that(1)] assms(1-3) by simp
    with store_opt_ok [OF that(2)] assms(3) have "scan_ok b st2" by simp
    with assms(3) show ?thesis by (simp add: scan_ok_def)
  qed
  moreover have "scan_ok b (st\<lparr>args := as\<rparr>)" "scan_ok b (st\<lparr>src := j\<rparr>)" for as
    using assms(1,3) by (simp_all add: scan_ok_def)
  ultimately show ?thesis
    using assms(5) unfolding store_text_def
    by (cases s; cases p) (auto simp: bind_eq_Some_conv simp del: store_ok_simps split: if_splits)
qed

lemma conv_c_ok:
  assumes "scan_ok b st" "conv_c b m s p w st = Some r"
  shows "step_ok b r"
proof (cases "m \<noteq> 0")
  case True
  with assms show ?thesis by (simp add: conv_c_def) (auto simp: assms(1))
next
  case m: False
  note le = scan_ok_src [OF assms(1)]
  show ?thesis
  proof (cases p)
    case True
    let ?n = "min (length b - src st) (nat w)"
    have n: "src st + ?n \<le> length b" using le by simp
    have "scan_ok b (st2\<lparr>src := src st2 + ?n, matched := k\<rparr>)"
      if "store_opt (StPtr (src st)) st = Some st1" "store_opt (StSize ?n) st1 = Some st2" for st1 st2 k
    proof -
      have "scan_ok b st1" using store_opt_ok [OF that(1)] assms(1) le by simp
      then have "scan_ok b st2" using store_opt_ok [OF that(2)] le by simp
      moreover have "src st2 = src st" using that by (auto simp: store_opt_def bind_eq_Some_conv)
      ultimately show ?thesis using n by (simp add: scan_ok_def)
    qed
    then show ?thesis
      using assms(2) m True n scan_ok_update(4) [OF assms(1), of "src st + ?n"]
      unfolding conv_c_def Let_def by (auto simp: bind_eq_Some_conv split: if_splits)
  next
    case False
    define w' where "w' = (if w = INT_MAX then 1 else w)"
    show ?thesis
    proof (cases "int (length b - src st) < w'")
      case True
      with assms m False show ?thesis by (simp add: conv_c_def Let_def flip: w'_def) (auto simp: assms(1))
    next
      case fits: False
      then have n: "src st + nat w' \<le> length b" using le by simp
      have "scan_ok b (st\<lparr>args := as, src := src st + nat w', matched := k,
          stores := stores st @ [StChars (slice b (src st) (nat w'))]\<rparr>)" for as k
        using scan_ok_update(5) [OF assms(1) store_ok_slice(1) [OF n]] n by (simp add: scan_ok_def)
      then show ?thesis
        using assms(2) m False fits scan_ok_update(1,4) [OF assms(1)] n
        unfolding conv_c_def Let_def w'_def [symmetric]
        by (auto simp: bind_eq_Some_conv split: if_splits)
    qed
  qed
qed

lemma conv_s_ok:
  assumes "scan_ok b st" "conv_s b m s a p w st = Some r"
  shows "step_ok b r"
proof -
  define old where "old = skip_space b (src st)"
  have o: "old \<le> length b" using skip_space_le [OF scan_ok_src [OF assms(1)]] by (simp add: old_def)
  have ok: "scan_ok b (st\<lparr>src := old\<rparr>)" using assms(1) o by (intro scan_ok_update)
  note deliver = store_text_ok [OF ok scan_field_bounds [OF o]]
  show ?thesis
    using assms ok unfolding conv_s_def Let_def old_def [symmetric]
    by (auto split: if_splits intro: deliver)
qed

lemma conv_set_ok:
  assumes "scan_ok b st" "conv_set b m s a p w st = Some r"
  shows "step_ok b r"
proof -
  have match: "step_ok b r" if "conv_set_match b n cs s a p w st' = Some r" "scan_ok b st'" for n cs st'
  proof -
    note o = scan_ok_src [OF that(2)]
    let ?new = "scan_field (\<lambda>c. (c \<in> set cs) \<noteq> n) b (src st') w"
    have ok: "scan_ok b (st'\<lparr>src := ?new\<rparr>)"
      using that(2) scan_field_bounds(2) [OF o] by (intro scan_ok_update)
    note deliver = store_text_ok [OF ok scan_field_bounds [OF o]]
    show ?thesis
      using that(1) ok unfolding conv_set_match_def Let_def by (auto split: if_splits intro: deliver)
  qed
  have "scan_ok b (st\<lparr>fmt := f\<rparr>)" for f using assms(1) by (rule scan_ok_update)
  with assms match show ?thesis
    by (auto simp: conv_set_def bind_eq_Some_conv split: if_splits option.splits)
qed

lemma scan_digits_le: "i \<le> length b \<Longrightarrow> i \<le> fst (scan_digits b i w base x) \<and> fst (scan_digits b i w base x) \<le> length b"
proof (induction b i w base x rule: scan_digits.induct)
  case (1 b i w base x)
  then show ?case
    by (subst (1 2) scan_digits.simps) (fastforce split: option.split)
qed

lemma scan_sign_le: "i \<le> length b \<Longrightarrow> scan_sign b i w = (n, j, w') \<Longrightarrow> j \<le> length b"
  by (auto simp: scan_sign_def split: if_splits)

lemma scan_prefix_le: "i \<le> length b \<Longrightarrow> scan_prefix b base i w = (base', j, w') \<Longrightarrow> j \<le> length b"
  by (auto simp: scan_prefix_def Let_def split: if_splits)

lemma conv_number_ok:
  assumes "scan_ok b st" "conv_number b m base s w st = Some r"
  shows "step_ok b r"
proof -
  obtain n j w' where sg: "scan_sign b (skip_space b (src st)) w = (n, j, w')" by (rule prod_cases3)
  obtain base' k w'' where pf: "scan_prefix b base j w' = (base', k, w'')" by (rule prod_cases3)
  obtain e x where d: "scan_digits b k w'' base' 0 = (e, x)" by (rule prod.exhaust)
  have "e \<le> length b"
    using scan_digits_le [OF scan_prefix_le [OF scan_sign_le [OF _ sg] pf], of w'' base' 0] d
      skip_space_le [OF scan_ok_src [OF assms(1)]] by simp
  then have ok: "scan_ok b (st\<lparr>src := e\<rparr>)" using assms(1) by (intro scan_ok_update)
  have "store_ok b v" if "store_number m' y = Some v" for m' y v
    using that by (auto simp: store_number_def split: if_splits)
  then have "scan_ok b (st\<lparr>src := e, args := as, matched := k, stores := stores st @ [v]\<rparr>)"
    if "store_number m' y = Some v" for m' y v as k
    using that ok by (simp add: scan_ok_def)
  then show ?thesis
    using assms(2) ok scan_ok_update(1) [OF ok]
    unfolding conv_number_def sg pf d Let_def case_prod_conv
    by (auto simp: bind_eq_Some_conv split: if_splits option.splits)
qed

lemma scan_conversion_ok:
  assumes "scan_ok b st" "scan_conversion b s a p w m st = Some r"
  shows "step_ok b r"
proof -
  obtain c where c: "head (fmt st) = Some c" using assms(2) by (auto simp: scan_conversion_def bind_eq_Some_conv)
  define st' where "st' = st\<lparr>fmt := tl (fmt st)\<rparr>"
  have ok: "scan_ok b st'" using assms(1) by (simp add: st'_def scan_ok_def)
  have "step_ok b (conv_percent b m s w st')" using ok by (auto simp: conv_percent_def scan_ok_def)
  moreover have "step_ok b r" if "conv_n m s w st' = Some r"
    using that ok by (auto simp: conv_n_def scan_ok_def bind_eq_Some_conv split: if_splits)
  ultimately show ?thesis
    using assms(2) ok unfolding scan_conversion_def c
    by (auto simp: Let_def simp flip: st'_def split: if_splits option.splits
        dest: conv_c_ok conv_s_ok conv_set_ok conv_number_ok)
qed

lemma scan_directive_ok:
  assumes "scan_ok b st" "scan_directive b st = Some r"
  shows "step_ok b r"
proof -
  have "scan_ok b (st\<lparr>fmt := f, args := as\<rparr>)" "scan_ok b (st\<lparr>args := as\<rparr>)" for f as
    using assms(1) by (auto simp: scan_ok_def)
  with assms(2) show ?thesis
    by (auto simp: scan_directive_def bind_eq_Some_conv split: if_splits option.splits
        dest!: scan_conversion_ok [rotated])
qed

lemma scan_body_ok:
  assumes "scan_ok b st" "scan_body b st = Some r"
  shows "step_ok b r"
proof -
  obtain c where c: "head (fmt st) = Some c" using assms(2) by (auto simp: scan_body_def bind_eq_Some_conv)
  define st' where "st' = (if isspace c then st\<lparr>fmt := skip_format_space (fmt st), src := skip_space b (src st)\<rparr> else st)"
  have ok: "scan_ok b st'"
    using assms(1) skip_space_le [OF scan_ok_src [OF assms(1)]] by (auto simp: st'_def scan_ok_def)
  obtain d where d: "head (fmt st') = Some d"
    using assms(2) by (auto simp: scan_body_def c bind_eq_Some_conv simp flip: st'_def)
  have "scan_ok b (st'\<lparr>fmt := f\<rparr>)" for f using ok by (simp add: scan_ok_def)
  moreover have "scan_ok b (st'\<lparr>fmt := f, src := src st' + 1\<rparr>)" if "\<not> length b \<le> src st'" for f
    using that ok by (simp add: scan_ok_def)
  moreover have "(if d = 0 then Some (Done st')
      else if d \<noteq> 0x25
      then if length b \<le> src st' then Some (Done st')
           else let st'' = st'\<lparr>fmt := tl (fmt st'), src := src st' + 1\<rparr>
             in Some (if d \<noteq> b ! src st' then Done st'' else Next st'')
      else scan_directive b (st'\<lparr>fmt := tl (fmt st')\<rparr>)) = Some r"
    using assms(2) d unfolding scan_body_def c by (simp flip: st'_def)
  ultimately show ?thesis
    using ok scan_directive_ok [of b "st'\<lparr>fmt := tl (fmt st')\<rparr>" r]
    by (auto simp: Let_def split: if_splits)
qed

lemma VSNScanF_loop_ok: "scan_ok b st \<Longrightarrow> VSNScanF_loop b st = Some st' \<Longrightarrow> scan_ok b st'"
proof (induction b st rule: VSNScanF_loop.induct)
  case (1 b st)
  show ?case
  proof (cases "scan_body b st")
    case (Some r)
    with scan_body_ok [OF 1(2)] have "step_ok b r" by blast
    with Some 1 show ?thesis by (cases r) (simp_all add: VSNScanF_loop.simps [of b st])
  qed (use 1(3) in \<open>simp add: VSNScanF_loop.simps [of b st]\<close>)
qed

section \<open>Decimal numbers\<close>

lemma digit_value_digit: "isdigit c \<Longrightarrow> digit_value c = Some (uint c - 0x30) \<and> uint c - 0x30 < 10"
  by (simp add: digit_value_def isdigit_def word_le_def)

lemma uint_hex_letter: "isxdigit c \<Longrightarrow> \<not> isdigit c \<Longrightarrow> 0x61 \<le> uint (tolower c)"
proof -
  assume "isxdigit c" "\<not> isdigit c"
  then consider "0x41 \<le> uint c" "uint c \<le> 0x46" | "0x61 \<le> uint c" "uint c \<le> 0x66"
    by (auto simp: isxdigit_def word_le_def)
  then show ?thesis
  proof cases
    case 1
    then have "uint (c + 0x20) = uint c + 0x20" by (simp add: uint_word_ariths)
    with 1 show ?thesis by (simp add: tolower_def word_le_def)
  next
    case 2
    then show ?thesis by (simp add: tolower_def word_le_def)
  qed
qed

lemma digit_value_other: "\<not> isdigit c \<Longrightarrow> digit_value c = Some v \<Longrightarrow> 10 \<le> v"
  using uint_hex_letter [of c] by (auto simp: digit_value_def split: if_splits)

lemma scan_digits_decimal:
  assumes "\<forall>c \<in> set p. isdigit c" "length pre = i" "int (length p) < w" "rest = [] \<or> \<not> isdigit (hd rest)"
  shows "scan_digits (pre @ p @ rest) i w 10 x = (i + length p, foldl dec_step x p)"
  using assms
proof (induction p arbitrary: pre i w x)
  case Nil
  then show ?case
    using digit_value_other [of "hd rest"]
    by (cases rest) (auto simp: scan_digits.simps [of _ i] nth_append split: option.split)
next
  case (Cons c p)
  have d: "digit_value c = Some (uint c - 0x30)" "uint c - 0x30 < 10"
    using digit_value_digit [of c] Cons.prems(1) by auto
  have w: "(word_of_int (uint c - 0x30) :: u64) = ucast c - 0x30"
    by simp
  have "scan_digits ((pre @ [c]) @ p @ rest) (i + 1) (w - 1) 10 (x * 10 + (ucast c - 0x30)) =
      (i + 1 + length p, foldl dec_step (x * 10 + (ucast c - 0x30)) p)"
    using Cons.prems by (intro Cons.IH) auto
  then show ?case
    using Cons.prems d by (simp add: scan_digits.simps [of _ i] nth_append w)
qed

lemma isdigit_IS_09: "isdigit c \<longleftrightarrow> IS_09 c"
  by (simp add: isdigit_def IS_09_def)

lemma scan_decimal_number:
  fixes v :: u32
  assumes ws: "\<forall>c \<in> set ws. isspace c" and rest: "rest = [] \<or> \<not> isdigit (hd rest)"
  defines "b \<equiv> ws @ decimal v @ rest"
  shows "skip_space b 0 = length ws" "scan_sign b (length ws) INT_MAX = (False, length ws, INT_MAX)"
    "scan_prefix b 10 (length ws) INT_MAX = (10, length ws, INT_MAX)"
    "scan_digits b (length ws) INT_MAX 10 0 = (length ws + length (decimal v), word_of_nat (unat v))"
proof -
  obtain c p where c: "decimal v = c # p" using decimal_digits(2) [of v] by (cases "decimal v") auto
  have cd: "IS_09 c" using decimal_digits(1) [of v] by (simp add: c)
  have at: "length ws < length b" "b ! length ws = c" by (simp_all add: b_def c)
  have ns: "\<not> isspace c" using cd by (auto simp: IS_09_def isspace_def word_le_nat_alt)
  show "skip_space b 0 = length ws"
    unfolding skip_space_def
    using ws at ns by (intro scan_eqI) (auto simp: b_def nth_append)
  have "c \<noteq> 0x2D" "c \<noteq> 0x2B" using cd by (auto simp: IS_09_def)
  then show "scan_sign b (length ws) INT_MAX = (False, length ws, INT_MAX)"
    by (simp add: scan_sign_def at)
  show "scan_prefix b 10 (length ws) INT_MAX = (10, length ws, INT_MAX)"
    by (simp add: scan_prefix_def)
  show "scan_digits b (length ws) INT_MAX 10 0 = (length ws + length (decimal v), word_of_nat (unat v))"
    unfolding b_def using decimal_digits(1,3) [of v] rest
    by (subst scan_digits_decimal) (auto simp: isdigit_IS_09 decimal_value_of_nat)
qed

lemma conv_decimal_number:
  assumes ws: "\<forall>c \<in> set ws. isspace c" and rest: "rest = [] \<or> \<not> isdigit (hd rest)"
  shows "conv_number (ws @ decimal v @ rest) 0 10 False INT_MAX
      \<lparr>src = 0, fmt = f, args = [Dest True], matched = n, stores = []\<rparr> =
    Some (Next \<lparr>src = length ws + length (decimal v), fmt = f, args = [], matched = n + 1, stores = [StNum32 v]\<rparr>)"
proof -
  note s = scan_decimal_number [OF assms, of v]
  have "(ucast (word_of_nat (unat v) :: u64) :: u32) = v"
  proof -
    have "(word_of_nat (unat v) :: u64) = ucast v" by simp
    then show ?thesis by (simp only: ucast_ucast_id) (simp add: ucast_ucast_id)
  qed
  then show ?thesis
    using decimal_digits(2) [of v] s by (simp add: conv_number_def store_number_def)
qed

text \<open>The same with the modifier \<open>ll\<close>, on a text that is nothing but the number.\<close>

lemma scanf_llu_decimal:
  "VSNScanF (decimal v) [0x25, 0x6C, 0x6C, 0x75, 0] [Dest True] = Some (1, [StNum64 (ucast v)])"
proof -
  note s = scan_decimal_number [of "[]" "[]" v, simplified]
  have "conv_number (decimal v) 0x4C 10 False INT_MAX
      \<lparr>src = 0, fmt = [0], args = [Dest True], matched = 0, stores = []\<rparr> =
    Some (Next \<lparr>src = length (decimal v), fmt = [0], args = [], matched = 1, stores = [StNum64 (ucast v)]\<rparr>)"
    using decimal_digits(2) [of v] s by (simp add: conv_number_def store_number_def)
  then have "scan_body (decimal v) \<lparr>src = 0, fmt = [0x25, 0x6C, 0x6C, 0x75, 0], args = [Dest True],
        matched = 0, stores = []\<rparr> =
      Some (Next \<lparr>src = length (decimal v), fmt = [0], args = [], matched = 1, stores = [StNum64 (ucast v)]\<rparr>)"
    by (simp add: scan_body_simps conv_base_def)
  then show ?thesis
    by (simp add: VSNScanF_def VSNScanF_loop_Next VSNScanF_loop_Done scan_body_end)
qed

section \<open>Properties\<close>

text \<open>
  \<open>VSNScanF\<close> stores only what lies in the text: every pointer, size and position it stores is
  inside the text, every string it copies is a part of the text without a terminator in it.
\<close>

theorem scanf_stores_from_text:
  assumes "VSNScanF inString inFormat inArgs = Some (n, out)"
  shows "\<forall>v \<in> set out. store_ok inString v"
proof -
  obtain st where st: "VSNScanF_loop inString
      \<lparr>src = 0, fmt = inFormat, args = inArgs, matched = 0, stores = []\<rparr> = Some st" "out = stores st"
    using assms by (auto simp: VSNScanF_def bind_eq_Some_conv)
  have "scan_ok inString st" by (rule VSNScanF_loop_ok [OF _ st(1)]) (simp add: scan_ok_def)
  then show ?thesis by (simp add: scan_ok_def st(2))
qed

theorem scanf_stores_from_text_witness:
  "VSNScanF [0x61, 0x3D] [0x25, 0x63, 0] [Dest True] = Some (1, [StChars [0x61]]) \<and>
    store_ok [0x61, 0x3D] (StChars [0x61])"
proof -
  have "scan_body [0x61, 0x3D] \<lparr>src = 0, fmt = [0x25, 0x63, 0], args = [Dest True], matched = 0, stores = []\<rparr> =
      Some (Next \<lparr>src = 1, fmt = [0], args = [], matched = 1, stores = [StChars [0x61]]\<rparr>)"
    by (simp add: scan_body_simps conv_c_def slice_def)
  then have "VSNScanF [0x61, 0x3D] [0x25, 0x63, 0] [Dest True] = Some (1, [StChars [0x61]])"
    by (simp add: VSNScanF_def VSNScanF_loop_Next VSNScanF_loop_Done scan_body_end)
  with scanf_stores_from_text [OF this] show ?thesis by simp
qed

text \<open>
  The format \<open>%u\<close> reads every 32-bit number back from its decimal text, after any white
  space and up to the first character that is no digit.
\<close>

theorem scanf_reads_decimal:
  assumes "\<forall>c \<in> set ws. isspace c" and "rest = [] \<or> \<not> isdigit (hd rest)"
  shows "VSNScanF (ws @ decimal v @ rest) [0x25, 0x75, 0] [Dest True] = Some (1, [StNum32 v])"
proof -
  let ?st = "\<lparr>src = 0, fmt = [0x25, 0x75, 0], args = [Dest True], matched = 0, stores = []\<rparr>"
  have "scan_body (ws @ decimal v @ rest) ?st = Some (Next
      \<lparr>src = length ws + length (decimal v), fmt = [0], args = [], matched = 1, stores = [StNum32 v]\<rparr>)"
    using conv_decimal_number [OF assms, of v "[0]" 0] by (simp add: scan_body_simps conv_base_def)
  then show ?thesis
    by (simp add: VSNScanF_def VSNScanF_loop_Next VSNScanF_loop_Done scan_body_end)
qed

theorem scanf_reads_decimal_witness:
  "VSNScanF ([0x20] @ decimal 4294967295 @ [0x3B]) [0x25, 0x75, 0] [Dest True] = Some (1, [StNum32 4294967295])"
  using scanf_reads_decimal [of "[0x20]" "[0x3B]" 4294967295] by (simp add: isspace_def isdigit_def)

end
