(* ===== verification/URLParse.thy ===== *)
theory URLParse
  imports Prelude
begin

text \<open>
  \<open>URLParseComponents\<close> of \<open>libraries/utilities/URLUtils.c\<close>. The text \<open>[inSrc, inEnd)\<close> is a list,
  pointers into it are offsets, a \<open>NULL\<close> pointer is \<open>None\<close>. Each \<open>while\<close> loop is a \<open>scan\<close>;
  \<open>last_read\<close> is the character the loop left in \<open>c\<close>. The parts found, put together again with
  their delimiters, are the text that was parsed.
\<close>

record URLComponents =
  schemePtr :: "nat option"
  schemeLen :: nat
  userPtr :: "nat option"
  userLen :: nat
  passwordPtr :: "nat option"
  passwordLen :: nat
  hostPtr :: "nat option"
  hostLen :: nat
  pathPtr :: nat
  pathLen :: nat
  queryPtr :: "nat option"
  queryLen :: nat
  fragmentPtr :: "nat option"
  fragmentLen :: nat
  segmentPtr :: nat
  segmentEnd :: nat

text \<open>The value of \<open>c\<close> after a loop that began at \<open>i\<close> with \<open>c\<close> equal to \<open>c0\<close> and ended at \<open>p\<close>.\<close>

definition last_read :: "bytes \<Rightarrow> u8 \<Rightarrow> nat \<Rightarrow> nat \<Rightarrow> u8" where
  "last_read b c0 i p = (if p < length b then b ! p else if i < p then b ! (p - 1) else c0)"

definition url_scheme :: "bytes \<Rightarrow> nat option \<times> nat \<times> nat" where
  "url_scheme b =
     (let ptr = scan (\<lambda>c. c = 0x3A \<or> c = 0x2F \<or> c = 0x3F \<or> c = 0x23) b 0 (length b);
          c = last_read b 0 0 ptr
      in if c = 0x3A then (Some 0, ptr, ptr + 1) else (None, 0, 0))"

text \<open>User, password and host of an authority \<open>[a, e)\<close>, each as pointer and length.\<close>

definition url_authority :: "bytes \<Rightarrow> nat \<Rightarrow> nat \<Rightarrow>
    (nat option \<times> nat) \<times> (nat option \<times> nat) \<times> (nat option \<times> nat)" where
  "url_authority b authorityPtr authorityEnd =
     (let userInfoEnd = scan (\<lambda>c. c = 0x40) b authorityPtr authorityEnd
      in if userInfoEnd < authorityEnd
         then let userEnd = scan (\<lambda>c. c = 0x3A) b authorityPtr userInfoEnd;
                  password = (if userEnd < userInfoEnd
                    then (Some (userEnd + 1), userInfoEnd - (userEnd + 1)) else (None, 0))
              in ((Some authorityPtr, userEnd - authorityPtr), password,
                  (Some (userInfoEnd + 1), authorityEnd - (userInfoEnd + 1)))
         else ((None, 0), (None, 0), (Some authorityPtr, authorityEnd - authorityPtr)))"

text \<open>
  Path, query and fragment from \<open>path\<close> on: the end of the path, the two optional parts, and where
  \<open>inSrc\<close> ends up.
\<close>

definition url_tail :: "bytes \<Rightarrow> nat \<Rightarrow> nat \<times> (nat option \<times> nat) \<times> (nat option \<times> nat) \<times> nat" where
  "url_tail b path =
     (let inEnd = length b;
          pathEnd = scan (\<lambda>c. c = 0x3F \<or> c = 0x23) b path inEnd;
          c = last_read b 0 path pathEnd;
          q = pathEnd + 1;
          queryEnd = scan (\<lambda>c. c = 0x23) b q inEnd;
          query = (if c = 0x3F then (Some q, queryEnd - q) else (None, 0));
          inSrc = (if c = 0x3F then queryEnd else pathEnd);
          c = (if c = 0x3F then last_read b c q queryEnd else c)
      in if c = 0x23 then (pathEnd, query, (Some (inSrc + 1), inEnd - (inSrc + 1)), inEnd)
         else (pathEnd, query, (None, 0), inSrc))"

text \<open>The components, and the offset stored at \<open>outSrc\<close>.\<close>

definition URLParseComponents :: "bytes \<Rightarrow> URLComponents \<times> nat" where
  "URLParseComponents b =
     (let inEnd = length b;
          (scheme, schemeEnd, inSrc) = url_scheme b;
          auth = 2 \<le> inEnd - inSrc \<and> b ! inSrc = 0x2F \<and> b ! (inSrc + 1) = 0x2F;
          authorityEnd = scan (\<lambda>c. c = 0x2F \<or> c = 0x3F \<or> c = 0x23) b (inSrc + 2) inEnd;
          (user, password, host) =
            (if auth then url_authority b (inSrc + 2) authorityEnd else ((None, 0), (None, 0), (None, 0)));
          path = (if auth then authorityEnd else inSrc);
          (pathEnd, query, fragment, inSrc) = url_tail b path
      in (\<lparr>schemePtr = scheme, schemeLen = schemeEnd, userPtr = fst user, userLen = snd user,
           passwordPtr = fst password, passwordLen = snd password, hostPtr = fst host, hostLen = snd host,
           pathPtr = path, pathLen = pathEnd - path, queryPtr = fst query, queryLen = snd query,
           fragmentPtr = fst fragment, fragmentLen = snd fragment,
           segmentPtr = (if path < pathEnd \<and> b ! path = 0x2F then path + 1 else path),
           segmentEnd = (if path < pathEnd \<and> b ! (pathEnd - 1) = 0x2F then pathEnd - 1 else pathEnd)\<rparr>,
          inSrc))"

section \<open>Putting the parts together\<close>

definition part :: "bytes \<Rightarrow> nat option \<Rightarrow> nat \<Rightarrow> bytes \<Rightarrow> bytes \<Rightarrow> bytes" where
  "part b p n before after = (case p of None \<Rightarrow> [] | Some i \<Rightarrow> before @ slice b i n @ after)"

definition url_text :: "bytes \<Rightarrow> URLComponents \<Rightarrow> bytes" where
  "url_text b u =
     part b (schemePtr u) (schemeLen u) [] [0x3A] @
     (if hostPtr u = None then []
      else [0x2F, 0x2F] @
        (if userPtr u = None then []
         else part b (userPtr u) (userLen u) [] [] @ part b (passwordPtr u) (passwordLen u) [0x3A] [] @ [0x40]) @
        part b (hostPtr u) (hostLen u) [] []) @
     slice b (pathPtr u) (pathLen u) @
     part b (queryPtr u) (queryLen u) [0x3F] [] @
     part b (fragmentPtr u) (fragmentLen u) [0x23] []"

lemma slice_split: "i \<le> k \<Longrightarrow> k \<le> e \<Longrightarrow> e \<le> length b \<Longrightarrow>
    slice b i (k - i) @ slice b k (e - k) = slice b i (e - i)"
  using slice_append [of i "k - i" "e - k" b] by simp

lemma slice_step: "i < e \<Longrightarrow> e \<le> length b \<Longrightarrow> slice b i (e - i) = b ! i # slice b (i + 1) (e - (i + 1))"
  by (simp add: slice_def Cons_nth_drop_Suc [symmetric] Suc_diff_Suc [symmetric])

text \<open>The rest of the text from \<open>i\<close> on.\<close>

abbreviation rest :: "bytes \<Rightarrow> nat \<Rightarrow> bytes" where
  "rest b i \<equiv> slice b i (length b - i)"

lemma rest_end [simp]: "rest b (length b) = []"
  by simp

lemma scan_split:
  "i \<le> length b \<Longrightarrow> slice b i (scan p b i (length b) - i) @ rest b (scan p b i (length b)) = rest b i"
  by (intro slice_split scan_ge scan_le) auto

lemma last_read_scan:
  assumes "i \<le> length b" "p c" "c0 \<noteq> c"
  shows "last_read b c0 i (scan p b i (length b)) = c \<longleftrightarrow>
    scan p b i (length b) < length b \<and> b ! scan p b i (length b) = c"
proof -
  let ?k = "scan p b i (length b)"
  have "b ! (?k - 1) \<noteq> c" if "i < ?k"
  proof -
    have "i \<le> ?k - 1" "?k - 1 < ?k" using that by linarith+
    then have "\<not> p (b ! (?k - 1))" by (rule scan_skip)
    then show ?thesis using assms(2) by auto
  qed
  then show ?thesis using assms(3) by (auto simp: last_read_def)
qed

lemma url_scheme_text:
  assumes "url_scheme b = (scheme, n, i)"
  shows "part b scheme n [] [0x3A] @ rest b i = b" "i \<le> length b"
proof -
  let ?p = "\<lambda>c :: u8. c = 0x3A \<or> c = 0x2F \<or> c = 0x3F \<or> c = 0x23"
  let ?k = "scan ?p b 0 (length b)"
  have le: "?k \<le> length b" by (rule scan_le) simp
  have lr: "last_read b 0 0 ?k = 0x3A \<longleftrightarrow> ?k < length b \<and> b ! ?k = 0x3A"
    by (rule last_read_scan) auto
  have s: "slice b 0 ?k @ rest b ?k = b" using scan_split [of 0 b ?p] by simp
  show "part b scheme n [] [0x3A] @ rest b i = b" "i \<le> length b"
    using assms lr le s slice_step [of ?k "length b" b]
    by (auto simp: url_scheme_def Let_def part_def split: if_splits)
qed

lemma url_authority_text:
  assumes "url_authority b a e = (user, password, host)" "a \<le> e" "e \<le> length b"
  shows "fst host \<noteq> None"
    "(if fst user = None then []
      else part b (fst user) (snd user) [] [] @ part b (fst password) (snd password) [0x3A] [] @ [0x40]) @
       part b (fst host) (snd host) [] [] = slice b a (e - a)"
proof -
  let ?u = "scan (\<lambda>c. c = 0x40) b a e"
  let ?v = "scan (\<lambda>c. c = 0x3A) b a ?u"
  show "fst host \<noteq> None" using assms(1) by (auto simp: url_authority_def Let_def split: if_splits)
  show "(if fst user = None then []
      else part b (fst user) (snd user) [] [] @ part b (fst password) (snd password) [0x3A] [] @ [0x40]) @
       part b (fst host) (snd host) [] [] = slice b a (e - a)"
  proof (cases "?u < e")
    case True
    have u: "a \<le> ?u" "b ! ?u = 0x40" using scan_ge [of a "\<lambda>c. c = 0x40" b e] scan_stop [OF True] by auto
    have v: "a \<le> ?v" "?v \<le> ?u" using scan_ge scan_le [OF u(1)] by auto
    have full: "slice b a (?u - a) @ 0x40 # slice b (?u + 1) (e - (?u + 1)) = slice b a (e - a)"
      using slice_split [of a ?u e b] slice_step [of ?u e b] True assms(3) u by simp
    have "slice b a (?v - a) @ slice b ?v (?u - ?v) = slice b a (?u - a)"
      using v True assms(3) by (intro slice_split) auto
    with full have "slice b a (?v - a) @ slice b ?v (?u - ?v) @ 0x40 # slice b (?u + 1) (e - (?u + 1)) = slice b a (e - a)"
      by (metis append_assoc)
    moreover have "slice b ?v (?u - ?v) = 0x3A # slice b (?v + 1) (?u - (?v + 1))" if "?v < ?u"
      using slice_step [of ?v ?u b] that True assms(3) scan_stop [OF that] by simp
    moreover have "slice b ?v (?u - ?v) = []" if "\<not> ?v < ?u" using that by simp
    ultimately show ?thesis
      using assms(1) True by (auto simp: url_authority_def Let_def part_def split: if_splits)
  next
    case False
    then show ?thesis using assms by (auto simp: url_authority_def Let_def part_def)
  qed
qed

lemma url_tail_text:
  assumes "url_tail b path = (pe, q, f, e)" "path \<le> length b"
  shows "slice b path (pe - path) @ part b (fst q) (snd q) [0x3F] [] @ part b (fst f) (snd f) [0x23] [] = rest b path"
    "e = length b"
proof -
  let ?p = "scan (\<lambda>c. c = 0x3F \<or> c = 0x23) b path (length b)"
  let ?c = "last_read b 0 path ?p"
  let ?q = "scan (\<lambda>c. c = 0x23) b (?p + 1) (length b)"
  have p: "path \<le> ?p" "?p \<le> length b" using scan_ge scan_le [OF assms(2)] by auto
  have c: "?c = 0x3F \<longleftrightarrow> ?p < length b \<and> b ! ?p = 0x3F" "?c = 0x23 \<longleftrightarrow> ?p < length b \<and> b ! ?p = 0x23"
    by (intro last_read_scan assms(2); simp)+
  have ps: "slice b path (?p - path) @ rest b ?p = rest b path" using scan_split [OF assms(2)] .
  have tail: "slice b path (pe - path) @ part b (fst q) (snd q) [0x3F] [] @ part b (fst f) (snd f) [0x23] [] = rest b path
      \<and> e = length b"
  proof (cases "?c = 0x3F")
    case True
    then have lt: "?p < length b" "rest b ?p = 0x3F # rest b (?p + 1)"
      using c(1) slice_step [of ?p "length b" b] by auto
    then have qb: "?p + 1 \<le> ?q" "?q \<le> length b" by (auto intro!: scan_ge scan_le)
    have qs: "slice b (?p + 1) (?q - (?p + 1)) @ rest b ?q = rest b (?p + 1)"
      using scan_split [of "?p + 1" b] lt(1) by simp
    have l: "last_read b ?c (?p + 1) ?q = 0x23 \<longleftrightarrow> ?q < length b \<and> b ! ?q = 0x23"
      using lt(1) True by (intro last_read_scan) auto
    have "rest b ?q = (if ?q < length b then 0x23 # rest b (?q + 1) else [])" if "last_read b ?c (?p + 1) ?q = 0x23 \<or> \<not> ?q < length b"
      using that l slice_step [of ?q "length b" b] by auto
    moreover have "last_read b ?c (?p + 1) ?q = 0x23 \<or> \<not> ?q < length b"
      using l scan_stop [of "\<lambda>c. c = 0x23" b "?p + 1" "length b"] by blast
    ultimately show ?thesis
      using assms(1) True lt ps qs l qb
      unfolding url_tail_def Let_def part_def by (auto split: if_splits)
  next
    case False
    have stop: "?c = 0x23 \<or> \<not> ?p < length b"
      using c False scan_stop [of "\<lambda>c. c = 0x3F \<or> c = 0x23" b path "length b"] by blast
    have "rest b ?p = (if ?p < length b then 0x23 # rest b (?p + 1) else [])"
      using stop c slice_step [of ?p "length b" b] by auto
    then show ?thesis
      using assms(1) False stop c ps p
      unfolding url_tail_def Let_def part_def by (auto split: if_splits)
  qed
  then show "slice b path (pe - path) @ part b (fst q) (snd q) [0x3F] [] @ part b (fst f) (snd f) [0x23] [] = rest b path"
    "e = length b" by simp_all
qed

lemma url_authority_or_path:
  defines "A \<equiv> \<lambda>b i. 2 \<le> length b - i \<and> b ! i = 0x2F \<and> b ! (i + 1) = 0x2F"
    and "e \<equiv> \<lambda>b i. scan (\<lambda>c. c = 0x2F \<or> c = 0x3F \<or> c = 0x23) b (i + 2) (length b)"
  assumes "i \<le> length b" and "path = (if A b i then e b i else i)"
    and "(if A b i then url_authority b (i + 2) (e b i) else ((None, 0), (None, 0), (None, 0))) = (user, password, host)"
  shows "path \<le> length b" and "(if fst host = None then [] else [0x2F, 0x2F] @
        (if fst user = None then []
         else part b (fst user) (snd user) [] [] @ part b (fst password) (snd password) [0x3A] [] @ [0x40]) @
        part b (fst host) (snd host) [] []) @ rest b path = rest b i"
proof -
  show "path \<le> length b" unfolding assms(4) e_def using assms(3) by (auto intro!: scan_le simp: A_def)
  show "(if fst host = None then [] else [0x2F, 0x2F] @
        (if fst user = None then []
         else part b (fst user) (snd user) [] [] @ part b (fst password) (snd password) [0x3A] [] @ [0x40]) @
        part b (fst host) (snd host) [] []) @ rest b path = rest b i"
  proof (cases "A b i")
    case True
    then have e: "i + 2 \<le> e b i" "e b i \<le> length b" by (auto intro!: scan_ge scan_le simp: A_def e_def)
    have "i < length b" "i + 1 < length b" using True by (auto simp: A_def)
    then have two: "rest b i = [0x2F, 0x2F] @ rest b (i + 2)"
      using True slice_step [of i "length b" b] slice_step [of "i + 1" "length b" b] by (simp add: A_def)
    have sp: "slice b (i + 2) (e b i - (i + 2)) @ rest b (e b i) = rest b (i + 2)"
      using e by (intro slice_split) auto
    have "url_authority b (i + 2) (e b i) = (user, password, host)" using assms(5) True by simp
    note url_authority_text [OF this e]
    then show ?thesis unfolding two sp [symmetric] assms(4) if_P [OF True] by (simp flip: append_assoc)
  next
    case False
    then show ?thesis using assms(4,5) by auto
  qed
qed

text \<open>
  C37. \<open>URLParseComponents\<close> loses nothing: for every text, scheme, user, password, host, path,
  query and fragment, put together with the delimiters \<open>:\<close>, \<open>//\<close>, \<open>@\<close>, \<open>?\<close> and \<open>#\<close> of
  those that are present, are the text, and the whole text is consumed.
\<close>

theorem URL_recompose:
  "url_text b (fst (URLParseComponents b)) = b \<and> snd (URLParseComponents b) = length b"
proof -
  obtain scheme sn i where sch: "url_scheme b = (scheme, sn, i)" by (rule prod_cases3)
  note st = url_scheme_text [OF sch]
  let ?auth = "2 \<le> length b - i \<and> b ! i = 0x2F \<and> b ! (i + 1) = 0x2F"
  let ?e = "scan (\<lambda>c. c = 0x2F \<or> c = 0x3F \<or> c = 0x23) b (i + 2) (length b)"
  define path where "path = (if ?auth then ?e else i)"
  obtain user password host where au:
    "(if ?auth then url_authority b (i + 2) ?e else ((None, 0), (None, 0), (None, 0))) = (user, password, host)"
    by (rule prod_cases3)
  obtain pe q f e where ta: "url_tail b path = (pe, q, f, e)" by (rule prod_cases4)
  have path: "path \<le> length b" and authority: "(if fst host = None then [] else [0x2F, 0x2F] @
        (if fst user = None then []
         else part b (fst user) (snd user) [] [] @ part b (fst password) (snd password) [0x3A] [] @ [0x40]) @
        part b (fst host) (snd host) [] []) @ rest b path = rest b i"
    using url_authority_or_path [OF st(2) path_def au] by blast+
  have run: "URLParseComponents b = (\<lparr>schemePtr = scheme, schemeLen = sn, userPtr = fst user, userLen = snd user,
           passwordPtr = fst password, passwordLen = snd password, hostPtr = fst host, hostLen = snd host,
           pathPtr = path, pathLen = pe - path, queryPtr = fst q, queryLen = snd q,
           fragmentPtr = fst f, fragmentLen = snd f,
           segmentPtr = (if path < pe \<and> b ! path = 0x2F then path + 1 else path),
           segmentEnd = (if path < pe \<and> b ! (pe - 1) = 0x2F then pe - 1 else pe)\<rparr>, e)"
    unfolding URLParseComponents_def Let_def sch case_prod_conv au path_def [symmetric] ta ..
  have "url_text b (fst (URLParseComponents b)) = part b scheme sn [] [0x3A] @
      (if fst host = None then [] else [0x2F, 0x2F] @
        (if fst user = None then []
         else part b (fst user) (snd user) [] [] @ part b (fst password) (snd password) [0x3A] [] @ [0x40]) @
        part b (fst host) (snd host) [] []) @
      (slice b path (pe - path) @ part b (fst q) (snd q) [0x3F] [] @ part b (fst f) (snd f) [0x23] [])"
    by (simp add: run url_text_def)
  also have "\<dots> = part b scheme sn [] [0x3A] @ rest b i"
    by (simp only: url_tail_text(1) [OF ta path] authority)
  finally show ?thesis
    using st(1) url_tail_text(2) [OF ta path] by (simp add: run)
qed

end
