(* ===== verification/HTTPParse.thy ===== *)
theory HTTPParse
  imports Scanf StringCmp URLParse
begin

text \<open>
  The parser half of \<open>libraries/utilities/HTTPUtils.c\<close>: finding the end of a header, header fields,
  the start line with \<open>HTTPHeaderParse\<close>, and the size line of a chunk. Pointers into the header
  buffer are offsets; \<open>NoText\<close> is the literal \<open>""\<close> that \<open>HTTPHeaderParse\<close> stores first.
\<close>

abbreviation CR :: u8 where "CR \<equiv> 0x0D"
abbreviation LF :: u8 where "LF \<equiv> 0x0A"
abbreviation CRLF :: bytes where "CRLF \<equiv> [0x0D, 0x0A]"

section \<open>The end of a header\<close>

function find_blank :: "bytes \<Rightarrow> nat \<Rightarrow> nat option" where
  "find_blank b i =
     (let s = scan (\<lambda>c. c = LF) b i (length b);
          len = length b - s
      in if length b \<le> s then None
         else if 3 \<le> len \<and> b ! (s + 1) = CR \<and> b ! (s + 2) = LF then Some (s + 3)
         else if 2 \<le> len \<and> b ! (s + 1) = LF then Some (s + 2)
         else if len \<le> 1 then None
         else find_blank b (s + 1))"
  by pat_completeness auto
termination
proof (relation "measure (\<lambda>(b, i). length b - i)", goal_cases)
  case (2 b i s len)
  then show ?case using scan_ge [of i "\<lambda>c. c = LF" b "length b"] by simp
qed simp

declare find_blank.simps [simp del]

text \<open>\<open>findHeader\<close> on the first \<open>len\<close> bytes of the buffer; \<open>outHeaderEnd\<close> is their end on failure.\<close>

definition findHeader :: "bytes \<Rightarrow> bool \<times> nat" where
  "findHeader b =
     (if 4 \<le> length b \<and> b ! 0 = 0x24 then (True, 4)
      else case find_blank b 0 of Some e \<Rightarrow> (True, e) | None \<Rightarrow> (False, length b))"

section \<open>Header fields\<close>

definition skip_eol :: "bytes \<Rightarrow> nat \<Rightarrow> nat" where
  "skip_eol b s =
     (let s = (if s < length b \<and> b ! s = CR then s + 1 else s)
      in if s < length b \<and> b ! s = LF then s + 1 else s)"

abbreviation eol :: "bytes \<Rightarrow> nat \<Rightarrow> nat" where
  "eol b i \<equiv> scan (\<lambda>c. c = CR \<or> c = LF) b i (length b)"

text \<open>Continuation lines: the end of the value and where the next line starts.\<close>

function http_continue :: "bytes \<Rightarrow> nat \<Rightarrow> nat \<Rightarrow> nat \<times> nat" where
  "http_continue b s valueEnd =
     (if s < length b \<and> (b ! s = 0x20 \<or> b ! s = 0x09)
      then let e = eol b (s + 1) in http_continue b (skip_eol b e) e
      else (valueEnd, s))"
  by pat_completeness auto
termination
proof (relation "measure (\<lambda>(b, s, v). length b - s)", goal_cases)
  case (2 b s v e)
  have "s + 1 \<le> e" unfolding 2(2) by (rule scan_ge)
  with 2 show ?case by (auto simp: skip_eol_def Let_def)
qed simp

declare http_continue.simps [simp del]

text \<open>Name and value as offset and length, and the offset of the next line.\<close>

record http_field =
  namePos :: nat
  nameLen :: nat
  valuePos :: nat
  valueLen :: nat
  nextPos :: nat

definition http_field_at :: "bytes \<Rightarrow> nat \<Rightarrow> nat \<Rightarrow> nat \<Rightarrow> nat \<Rightarrow> http_field" where
  "http_field_at b linePtr matchLen lineEnd s =
     (let valuePtr = scan (\<lambda>c. c \<noteq> 0x20 \<and> c \<noteq> 0x09) b (linePtr + matchLen + 1) lineEnd;
          (valueEnd, s) = http_continue b s lineEnd
      in \<lparr>namePos = linePtr, nameLen = matchLen, valuePos = valuePtr, valueLen = valueEnd - valuePtr,
          nextPos = s\<rparr>)"

lemma skip_eol_less: "eol b i < length b \<Longrightarrow> eol b i < skip_eol b (eol b i)"
  using scan_stop [of "\<lambda>c. c = CR \<or> c = LF" b i "length b"] by (auto simp: skip_eol_def Let_def)

lemma skip_eol_progress:
  assumes "\<not> length b \<le> eol b i"
  shows "length b - skip_eol b (eol b i) < length b - i"
proof -
  have "i \<le> eol b i" by (rule scan_ge)
  moreover have "eol b i < skip_eol b (eol b i)" using assms by (intro skip_eol_less) simp
  ultimately show ?thesis using assms by linarith
qed

text \<open>
  \<open>HTTPGetHeaderField\<close> from offset \<open>s\<close> on. The name is a C string or \<open>NULL\<close>; \<open>None\<close> inside is
  \<open>kNotFoundErr\<close>.
\<close>

function get_field_loop :: "bytes \<Rightarrow> bytes option \<Rightarrow> nat \<Rightarrow> nat \<Rightarrow> http_field option option" where
  "get_field_loop b inName matchLen linePtr =
     (let lineEnd = eol b linePtr;
          s = skip_eol b lineEnd
      in if length b \<le> lineEnd then Some None
         else case inName of
           None \<Rightarrow>
             (let nameEnd = scan (\<lambda>c. c = 0x3A) b linePtr lineEnd
              in if lineEnd \<le> nameEnd then get_field_loop b inName matchLen s
                 else Some (Some (http_field_at b linePtr (nameEnd - linePtr) lineEnd s)))
         | Some name \<Rightarrow>
             (if lineEnd - linePtr \<le> matchLen \<or> b ! (linePtr + matchLen) \<noteq> 0x3A
              then get_field_loop b inName matchLen s
              else case strnicmp (drop linePtr b) name matchLen of
                  None \<Rightarrow> None
                | Some r \<Rightarrow> if r \<noteq> 0 then get_field_loop b inName matchLen s
                           else Some (Some (http_field_at b linePtr matchLen lineEnd s))))"
  by pat_completeness auto

termination
  by (relation "measure (\<lambda>(b, n, m, i). length b - i)")
    (simp_all only: wf_measure in_measure case_prod_conv, (rule skip_eol_progress, assumption)+)

declare get_field_loop.simps [simp del]

definition HTTPGetHeaderField :: "bytes \<Rightarrow> bytes option \<Rightarrow> http_field option option" where
  "HTTPGetHeaderField b inName = (case inName of
     None \<Rightarrow> get_field_loop b None 0 0
   | Some name \<Rightarrow> do { n \<leftarrow> c_strlen name; get_field_loop b inName n 0 })"

text \<open>The number of conversions, or the (negative) error of a missing field, with the stores.\<close>

definition HTTPScanFHeaderValue :: "bytes \<Rightarrow> bytes \<Rightarrow> bytes \<Rightarrow> va list \<Rightarrow> (int \<times> store list) option" where
  "HTTPScanFHeaderValue b inName inFormat inArgs = do {
     f \<leftarrow> HTTPGetHeaderField b (Some inName);
     (case f of
        None \<Rightarrow> Some (kNotFoundErr, [])
      | Some f \<Rightarrow> VSNScanF (slice b (valuePos f) (valueLen f)) inFormat inArgs)
   }"

section \<open>Chunks\<close>

function find_crlf :: "bytes \<Rightarrow> nat \<Rightarrow> nat option" where
  "find_crlf b i =
     (let s = scan (\<lambda>c. c = CR) b i (length b);
          len = length b - s
      in if length b \<le> s then None
         else if 2 \<le> len \<and> b ! (s + 1) = LF then Some s
         else if len \<le> 1 then None
         else find_crlf b (s + 1))"
  by pat_completeness auto
termination
proof (relation "measure (\<lambda>(b, i). length b - i)", goal_cases)
  case (2 b i s len)
  then show ?case using scan_ge [of i "\<lambda>c. c = CR" b "length b"] by simp
qed simp

declare find_crlf.simps [simp del]

text \<open>\<open>findCRLF\<close>: the offset behind the first CRLF, stored at \<open>nextDataPtr\<close>.\<close>

definition findCRLF :: "bytes \<Rightarrow> nat option" where
  "findCRLF b = map_option (\<lambda>s. s + 2) (find_crlf b 0)"

text \<open>
  A store into the 64-bit length of the caller: \<open>%x\<close> writes the low 32 bits only (the target is
  little endian).
\<close>

definition store_u64 :: "u64 \<Rightarrow> store list \<Rightarrow> u64" where
  "store_u64 cell out = (case out of
     [StNum64 x] \<Rightarrow> x
   | [StNum32 x] \<Rightarrow> (cell AND NOT (mask 32)) OR ucast x
   | _ \<Rightarrow> cell)"

text \<open>The new length and the offset of the chunk's data, when the size line is complete.\<close>

definition findChunkedDataLength :: "bytes \<Rightarrow> u64 \<Rightarrow> (u64 \<times> nat) option option" where
  "findChunkedDataLength b cell = (case find_crlf b 0 of
     None \<Rightarrow> Some None
   | Some s \<Rightarrow> do {
       c \<leftarrow> rd b 0;
       (n, out) \<leftarrow> (if c = 0x30 then VSNScanF (str ''0'') (str ''%llu'' @ [0]) [Dest True]
                  else VSNScanF (take s b) (str ''%x'' @ [0]) [Dest True]);
       Some (Some (store_u64 cell out, s + 2))
     })"

section \<open>The header record\<close>

datatype text_ptr = NoText | At nat

record HTTPHeader_t =
  buf :: bytes
  len :: nat
  methodPtr :: text_ptr
  methodLen :: nat
  urlPtr :: text_ptr
  urlLen :: nat
  url :: "URLComponents option"
  protocolPtr :: text_ptr
  protocolLen :: nat
  statusCode :: int
  reasonPhrasePtr :: text_ptr
  reasonPhraseLen :: nat
  channelID :: u8
  contentLength :: u64
  persistent :: bool
  chunkedData :: bool

definition text_at :: "HTTPHeader_t \<Rightarrow> text_ptr \<Rightarrow> nat \<Rightarrow> bytes" where
  "text_at h p n = (case p of NoText \<Rightarrow> [0] | At i \<Rightarrow> slice (buf h) i n)"

definition header_reset :: "HTTPHeader_t \<Rightarrow> HTTPHeader_t" where
  "header_reset h = h\<lparr>methodPtr := NoText, methodLen := 0, urlPtr := NoText, urlLen := 0, url := None,
     protocolPtr := NoText, protocolLen := 0, statusCode := - 1, reasonPhrasePtr := NoText,
     reasonPhraseLen := 0, channelID := 0, contentLength := 0, persistent := False\<rparr>"

text \<open>
  The start line of a request whose method ends at \<open>p\<close>, and of a response whose protocol name
  ends at \<open>p\<close>; \<open>None\<close> with the header as far as it was filled is \<open>kMalformedErr\<close>.
\<close>

definition parse_request :: "bytes \<Rightarrow> nat \<Rightarrow> HTTPHeader_t \<Rightarrow> nat option \<times> HTTPHeader_t" where
  "parse_request b p h =
     (let h = h\<lparr>methodPtr := At 0, methodLen := p, urlPtr := At (p + 1)\<rparr>;
          u = scan (\<lambda>c. c = 0x20) b (p + 1) (length b);
          h = h\<lparr>urlLen := u - (p + 1)\<rparr>
      in if length b \<le> u then (None, h)
         else let h = h\<lparr>url := Some (fst (URLParseComponents (slice b (p + 1) (u - (p + 1))))),
                      protocolPtr := At (u + 1)\<rparr>;
                  q = eol b (u + 1);
                  h = h\<lparr>protocolLen := q - (u + 1)\<rparr>
           in if length b \<le> q then (None, h) else (Some (q + 1), h))"

text \<open>
  The status code is summed up in a C \<open>int\<close> of 32 bits: \<open>None\<close> is the overflow, which C leaves undefined.
\<close>

function scan_status :: "bytes \<Rightarrow> nat \<Rightarrow> int \<Rightarrow> (nat \<times> int) option" where
  "scan_status b i x =
     (if i < length b \<and> 0x30 \<le> b ! i \<and> b ! i \<le> 0x39 then
        (let x = x * 10 + (uint (b ! i) - 0x30)
         in if 2 ^ 31 \<le> x then None else scan_status b (i + 1) x)
      else Some (i, x))"
  by pat_completeness auto
termination
  by (relation "measure (\<lambda>(b, i, x). length b - i)") auto

declare scan_status.simps [simp del]

definition parse_response :: "bytes \<Rightarrow> nat \<Rightarrow> HTTPHeader_t \<Rightarrow> (nat option \<times> HTTPHeader_t) option" where
  "parse_response b p h =
     (let q = scan (\<lambda>c. c = 0x20) b (p + 1) (length b);
          h = h\<lparr>protocolPtr := At 0, protocolLen := q\<rparr>
      in if length b \<le> q then Some (None, h)
         else do {
           (i, x) \<leftarrow> scan_status b (q + 1) 0;
           let c = last_read b 0 (q + 1) i;
           let i = (if c = 0x20 then i + 1 else i);
           let e = eol b i;
           let h = h\<lparr>statusCode := x, reasonPhrasePtr := At i, reasonPhraseLen := e - i\<rparr>;
           Some (if length b \<le> e then (None, h) else (Some (e + 1), h))
         })"

text \<open>The fields every header is searched for.\<close>

definition parse_fields :: "bytes \<Rightarrow> HTTPHeader_t \<Rightarrow> HTTPHeader_t option" where
  "parse_fields b h = do {
     f \<leftarrow> HTTPGetHeaderField b (Some (str ''Connection'' @ [0]));
     r \<leftarrow> (case f of
         None \<Rightarrow> strnicmpx (text_at h (protocolPtr h) (protocolLen h)) (protocolLen h) (str ''HTTP/1.0'' @ [0])
       | Some f \<Rightarrow> strnicmpx (slice b (valuePos f) (valueLen f)) (valueLen f) (str ''close'' @ [0]));
     let h = h\<lparr>persistent := (r \<noteq> 0)\<rparr>;
     f \<leftarrow> HTTPGetHeaderField b (Some (str ''Transfer-Encoding'' @ [0]));
     chunked \<leftarrow> (case f of
         None \<Rightarrow> Some False
       | Some f \<Rightarrow> map_option (\<lambda>r. r = 0)
           (strnicmpx (slice b (valuePos f) (valueLen f)) (valueLen f) (str ''chunked'' @ [0])));
     let h = h\<lparr>chunkedData := chunked\<rparr>;
     (n, out) \<leftarrow> HTTPScanFHeaderValue b (str ''Content-Length'' @ [0]) (str ''%llu'' @ [0]) [Dest True];
     Some (h\<lparr>contentLength := store_u64 (contentLength h) out\<rparr>)
   }"

text \<open>The buffer's length is \<open>bufLen\<close>; the header is its first \<open>len\<close> bytes.\<close>

definition HTTPHeaderParse :: "HTTPHeader_t \<Rightarrow> (OSStatus \<times> HTTPHeader_t) option" where
  "HTTPHeaderParse h =
     (if length (buf h) \<le> len h then Some (kParamErr, h)
      else
       (let h = header_reset h;
            b = take (len h) (buf h)
        in if len h = 4 \<and> b ! 0 = 0x24
           then Some (kNoErr, h\<lparr>channelID := b ! 1,
                   contentLength := (push_bit 8 (ucast (b ! 2))) OR ucast (b ! 3),
                   methodPtr := At 0, methodLen := 1\<rparr>)
           else
            (let p = scan (\<lambda>c. c = 0x20 \<or> c = 0x2F) b 0 (length b)
             in if length b \<le> p then Some (kMalformedErr, h)
                else case (if b ! p = 0x20 then Some (parse_request b p h) else parse_response b p h) of
                    None \<Rightarrow> None
                  | Some (None, h) \<Rightarrow> Some (kMalformedErr, h)
                  | Some (Some i, h) \<Rightarrow>
                      (if length b \<le> i then Some (kMalformedErr, h)
                       else map_option (\<lambda>h. (kNoErr, h)) (parse_fields b h)))))"

definition HTTPHeaderMatchMethod :: "HTTPHeader_t \<Rightarrow> bytes \<Rightarrow> OSStatus option" where
  "HTTPHeaderMatchMethod h method = do {
     r \<leftarrow> strnicmpx (text_at h (methodPtr h) (methodLen h)) (methodLen h) method;
     Some (if r = 0 then kNoErr else kNotFoundErr)
   }"

text \<open>The path of the request, empty when there is no parsed URL.\<close>

definition url_path :: "HTTPHeader_t \<Rightarrow> bytes" where
  "url_path h = (case (urlPtr h, url h) of
     (At i, Some u) \<Rightarrow> slice (buf h) (i + pathPtr u) (pathLen u)
   | _ \<Rightarrow> [])"

definition HTTPHeaderMatchURL :: "HTTPHeader_t \<Rightarrow> bytes \<Rightarrow> OSStatus option" where
  "HTTPHeaderMatchURL h pat = do {
     r \<leftarrow> strnicmp_suffix (url_path h) (length (url_path h)) pat;
     Some (if r = 0 then kNoErr else kNotFoundErr)
   }"

definition HTTPHeaderMatchPartialURL :: "(nat \<Rightarrow> bool) \<Rightarrow> HTTPHeader_t \<Rightarrow> bytes \<Rightarrow> nat option option" where
  "HTTPHeaderMatchPartialURL calloc h pat = strnstr_suffix calloc (url_path h) (length (url_path h)) pat"

section \<open>The first empty line\<close>

definition blank_line :: "bytes \<Rightarrow> nat \<Rightarrow> bool" where
  "blank_line b s \<longleftrightarrow> b ! s = LF \<and>
     (s + 2 < length b \<and> b ! (s + 1) = CR \<and> b ! (s + 2) = LF \<or> s + 1 < length b \<and> b ! (s + 1) = LF)"

definition blank_end :: "bytes \<Rightarrow> nat \<Rightarrow> nat" where
  "blank_end b s = (if b ! (s + 1) = CR then s + 3 else s + 2)"

lemma find_blank_spec:
  "(case find_blank b i of
      None \<Rightarrow> \<forall>s \<ge> i. \<not> blank_line b s
    | Some e \<Rightarrow> \<exists>s \<ge> i. blank_line b s \<and> e = blank_end b s \<and> (\<forall>s'. i \<le> s' \<and> s' < s \<longrightarrow> \<not> blank_line b s'))"
proof (induction b i rule: find_blank.induct)
  case (1 b i)
  define s where "s = scan (\<lambda>c. c = LF) b i (length b)"
  have ge: "i \<le> s" unfolding s_def by (rule scan_ge)
  have before: "\<not> blank_line b j" if "i \<le> j" "j < s" for j
    using scan_skip [of i j "\<lambda>c. c = LF" b "length b"] that by (simp add: s_def blank_line_def)
  note unf = find_blank.simps [of b i, unfolded Let_def, folded s_def]
  show ?case
  proof (cases "length b \<le> s")
    case True
    then have "\<not> blank_line b j" if "i \<le> j" for j
      using before [OF that] by (cases "j < s") (auto simp: blank_line_def)
    with True show ?thesis by (simp add: unf)
  next
    case lt: False
    then have lf: "b ! s = LF" using scan_stop [of "\<lambda>c. c = LF" b i "length b"] by (simp add: s_def)
    show ?thesis
    proof (cases "blank_line b s")
      case True
      then have "find_blank b i = Some (blank_end b s)"
        using lt by (auto simp: unf blank_line_def blank_end_def)
      with True ge before show ?thesis by auto
    next
      case no: False
      show ?thesis
      proof (cases "length b - s \<le> 1")
        case True
        then have "\<not> blank_line b j" if "i \<le> j" for j
          using before [OF that] no by (cases "j < s"; cases "j = s") (auto simp: blank_line_def)
        moreover have "find_blank b i = None" using True lt no lf by (auto simp: unf blank_line_def)
        ultimately show ?thesis by simp
      next
        case False
        have rec: "find_blank b i = find_blank b (s + 1)"
          using lt no lf False by (auto simp: unf blank_line_def)
        have ih: "case find_blank b (s + 1) of None \<Rightarrow> \<forall>j \<ge> s + 1. \<not> blank_line b j
          | Some e \<Rightarrow> \<exists>j \<ge> s + 1. blank_line b j \<and> e = blank_end b j \<and>
              (\<forall>j'. s + 1 \<le> j' \<and> j' < j \<longrightarrow> \<not> blank_line b j')"
          using lt no lf False by (intro 1) (auto simp: s_def [symmetric] blank_line_def)
        have split: "i \<le> j \<Longrightarrow> \<not> blank_line b j \<or> s + 1 \<le> j" for j
          using before [of j] no by (cases "j < s"; cases "j = s") auto
        show ?thesis
        proof (cases "find_blank b (s + 1)")
          case None
          with ih split rec show ?thesis by auto
        next
          case (Some e)
          with ih obtain j where j: "s + 1 \<le> j" "blank_line b j" "e = blank_end b j"
            "\<forall>j'. s + 1 \<le> j' \<and> j' < j \<longrightarrow> \<not> blank_line b j'" by auto
          have "\<forall>j'. i \<le> j' \<and> j' < j \<longrightarrow> \<not> blank_line b j'" using split j(4) by blast
          with j ge Some rec show ?thesis by (auto intro!: exI [of _ j])
        qed
      qed
    qed
  qed
qed

section \<open>Looking up a field\<close>

lemma strnicmp_prefix:
  "n \<le> length b \<Longrightarrow> n \<le> length t \<Longrightarrow> 0 \<notin> set (take n t) \<Longrightarrow>
     \<exists>r. strnicmp b t n = Some r \<and> (r = 0 \<longleftrightarrow> map tolower (take n b) = map tolower (take n t))"
proof (induction n arbitrary: b t)
  case (Suc n)
  obtain c b' where b: "b = c # b'" using Suc.prems(1) by (cases b) auto
  obtain d t' where t: "t = d # t'" using Suc.prems(2) by (cases t) auto
  have d: "d \<noteq> 0" using Suc.prems(3) t by simp
  obtain r where r: "strnicmp b' t' n = Some r" "r = 0 \<longleftrightarrow> map tolower (take n b') = map tolower (take n t')"
    using Suc.IH [of b' t'] Suc.prems b t by auto
  show ?case
  proof (cases "tolower c = tolower d")
    case True
    then have "tolower c \<noteq> 0" using d tolower_pos(2) by simp
    with True r show ?thesis by (simp add: b t rd_def Let_def)
  next
    case False
    then have "tolower c < tolower d \<or> tolower d < tolower c" by auto
    with False show ?thesis by (auto simp: b t rd_def Let_def)
  qed
qed simp

text \<open>A line of the header that starts with the name, up to case, and a colon.\<close>

definition names :: "bytes \<Rightarrow> bytes \<Rightarrow> bool" where
  "names line name \<longleftrightarrow> length name < length line \<and> line ! length name = 0x3A \<and>
     map tolower (take (length name) line) = map tolower name"

definition one_line :: "bytes \<Rightarrow> bool" where
  "one_line l \<longleftrightarrow> CR \<notin> set l \<and> LF \<notin> set l"

lemma eol_line:
  assumes "one_line l"
  shows "eol (u @ l @ CRLF @ r) (length u) = length u + length l"
    "skip_eol (u @ l @ CRLF @ r) (length u + length l) = length u + length l + 2"
proof -
  show "eol (u @ l @ CRLF @ r) (length u) = length u + length l"
    using assms by (intro scan_find [where u = u and m = l and x = CR and r = "LF # r"]) (auto simp: one_line_def)
  show "skip_eol (u @ l @ CRLF @ r) (length u + length l) = length u + length l + 2"
    by (simp add: skip_eol_def nth_append)
qed

lemma get_field_line:
  fixes u r :: bytes
  assumes l: "one_line l" and n: "0 \<notin> set name"
  defines "b \<equiv> u @ l @ CRLF @ r"
  shows "get_field_loop b (Some (name @ [0])) (length name) (length u) =
    (if names l name
     then Some (Some (http_field_at b (length u) (length name) (length u + length l) (length u + length l + 2)))
     else get_field_loop b (Some (name @ [0])) (length name) (length (u @ l @ CRLF)))"
proof -
  note e = eol_line [OF l, of u r, folded b_def]
  have lt: "\<not> length b \<le> length u + length l" by (simp add: b_def)
  note unf = get_field_loop.simps [of b "Some (name @ [0])" "length name" "length u", unfolded Let_def e]
  show ?thesis
  proof (cases "length l \<le> length name \<or> l ! length name \<noteq> 0x3A")
    case True
    moreover have "b ! (length u + length name) = l ! length name" if "\<not> length l \<le> length name"
      using that by (simp add: b_def nth_append)
    ultimately show ?thesis
      using lt by (auto simp: unf names_def)
  next
    case False
    then have at: "b ! (length u + length name) = 0x3A" "length name \<le> length l"
      by (auto simp: b_def nth_append)
    have "drop (length u) b = l @ CRLF @ r" by (simp add: b_def)
    then obtain k where k: "strnicmp (drop (length u) b) (name @ [0]) (length name) = Some k"
      "k = 0 \<longleftrightarrow> map tolower (take (length name) l) = map tolower name"
      using strnicmp_prefix [of "length name" "l @ CRLF @ r" "name @ [0]"] at(2) n by auto
    show ?thesis
      using lt False at k by (simp add: unf names_def)
  qed
qed

text \<open>Lines before the first that names the field are passed over.\<close>

abbreviation lines :: "bytes list \<Rightarrow> bytes" where
  "lines ls \<equiv> concat (map (\<lambda>l. l @ CRLF) ls)"

lemma get_field_skip:
  assumes "\<forall>l \<in> set ls. one_line l \<and> \<not> names l name" "0 \<notin> set name"
  shows "get_field_loop (u @ lines ls @ r) (Some (name @ [0])) (length name) (length u) =
    get_field_loop (u @ lines ls @ r) (Some (name @ [0])) (length name) (length (u @ lines ls))"
  using assms
proof (induction ls arbitrary: u)
  case (Cons l ls)
  have "get_field_loop (u @ l @ CRLF @ lines ls @ r) (Some (name @ [0])) (length name) (length u) =
      get_field_loop (u @ l @ CRLF @ lines ls @ r) (Some (name @ [0])) (length name) (length (u @ l @ CRLF))"
    using Cons.prems get_field_line [of l name u "lines ls @ r"] by simp
  with Cons.IH [of "u @ l @ CRLF"] Cons.prems show ?case by simp
qed simp

lemma get_field_end: "get_field_loop b n m (length b) = Some None"
  by (simp add: get_field_loop.simps [of b n m "length b"])

text \<open>The value of a field on one line whose next line is no continuation.\<close>

lemma http_field_value:
  fixes u :: bytes
  assumes "one_line v" "one_line n" "v = [] \<or> hd v \<noteq> 0x20 \<and> hd v \<noteq> 0x09"
    and "r = [] \<or> hd r \<noteq> 0x20 \<and> hd r \<noteq> 0x09"
  defines "b \<equiv> u @ (n @ [0x3A, 0x20] @ v) @ CRLF @ r"
  shows "http_field_at b (length u) (length n) (length u + length (n @ [0x3A, 0x20] @ v))
      (length u + length (n @ [0x3A, 0x20] @ v) + 2) =
    \<lparr>namePos = length u, nameLen = length n, valuePos = length u + length n + 2, valueLen = length v,
     nextPos = length u + length (n @ [0x3A, 0x20] @ v) + 2\<rparr>"
    "slice b (length u + length n + 2) (length v) = v"
proof -
  let ?e = "length u + length (n @ [0x3A, 0x20] @ v)"
  have "scan (\<lambda>c. c \<noteq> 0x20 \<and> c \<noteq> 0x09) b (length u + length n + 1) ?e = length u + length n + 2"
  proof (rule scan_eqI)
    show "\<not> (b ! j \<noteq> 0x20 \<and> b ! j \<noteq> 0x09)" if "length u + length n + 1 \<le> j" "j < length u + length n + 2" for j
    proof -
      have "j = length u + length n + 1" using that by simp
      then show ?thesis by (simp add: b_def nth_append)
    qed
    show "b ! (length u + length n + 2) \<noteq> 0x20 \<and> b ! (length u + length n + 2) \<noteq> 0x09"
      if "length u + length n + 2 < ?e"
      using that assms(3) by (auto simp: b_def nth_append hd_conv_nth)
  qed (auto)
  moreover have "\<not> (?e + 2 < length b \<and> (b ! (?e + 2) = 0x20 \<or> b ! (?e + 2) = 0x09))"
    using assms(4) by (auto simp: b_def nth_append hd_conv_nth)
  then have "http_continue b (?e + 2) ?e = (?e, ?e + 2)"
    by (simp only: http_continue.simps [of b "?e + 2"] if_False)
  ultimately show "http_field_at b (length u) (length n) ?e (?e + 2) =
    \<lparr>namePos = length u, nameLen = length n, valuePos = length u + length n + 2, valueLen = length v,
     nextPos = ?e + 2\<rparr>"
    unfolding http_field_at_def Let_def by simp
  show "slice b (length u + length n + 2) (length v) = v"
    by (simp add: b_def slice_def)
qed

lemma one_line_append [simp]: "one_line (a @ b) \<longleftrightarrow> one_line a \<and> one_line b"
  by (auto simp: one_line_def)

lemma one_line_simps [simp]: "one_line []" "one_line (c # l) \<longleftrightarrow> c \<noteq> CR \<and> c \<noteq> LF \<and> one_line l"
  by (auto simp: one_line_def)

lemma get_missing_field:
  assumes "\<forall>l \<in> set ls. one_line l \<and> \<not> names l name" "0 \<notin> set name"
  shows "HTTPGetHeaderField (lines ls) (Some (name @ [0])) = Some None"
  using get_field_skip [OF assms, of "[]" "[]"] assms(2) get_field_end [of "lines ls"]
  by (simp add: HTTPGetHeaderField_def c_strlen_def)

lemma get_present_field:
  assumes "\<forall>l \<in> set ls. one_line l \<and> \<not> names l name" "0 \<notin> set name" "map tolower n = map tolower name"
    "one_line n" "one_line v" "v = [] \<or> hd v \<noteq> 0x20 \<and> hd v \<noteq> 0x09" "r = [] \<or> hd r \<noteq> 0x20 \<and> hd r \<noteq> 0x09"
  defines "b \<equiv> lines ls @ (n @ [0x3A, 0x20] @ v) @ CRLF @ r"
  shows "\<exists>f. HTTPGetHeaderField b (Some (name @ [0])) = Some (Some f) \<and>
    slice b (valuePos f) (valueLen f) = v \<and> slice b (namePos f) (nameLen f) = n \<and>
    nextPos f = length b - length r"
proof -
  let ?l = "n @ [0x3A, 0x20] @ v" and ?u = "lines ls"
  have len: "length n = length name" using assms(3) by (metis length_map)
  have nm: "names ?l name" using assms(3) len by (simp add: names_def nth_append flip: len)
  have "HTTPGetHeaderField b (Some (name @ [0])) = get_field_loop b (Some (name @ [0])) (length name) 0"
    using assms(2) by (simp add: HTTPGetHeaderField_def c_strlen_def)
  also have "\<dots> = get_field_loop b (Some (name @ [0])) (length name) (length ?u)"
    using get_field_skip [OF assms(1,2), of "[]" "?l @ CRLF @ r"] by (simp add: b_def)
  also have "\<dots> = Some (Some (http_field_at b (length ?u) (length n) (length ?u + length ?l) (length ?u + length ?l + 2)))"
    using get_field_line [of ?l name ?u r] assms(2,4,5) nm len by (simp add: b_def)
  finally show ?thesis
    using http_field_value [OF assms(5,4,6,7), of ?u] by (simp add: b_def slice_def)
qed

section \<open>Chunk sizes\<close>

lemma find_crlf_first:
  assumes "CR \<notin> set ds"
  shows "find_crlf (ds @ CRLF @ d) 0 = Some (length ds)"
proof -
  have "scan (\<lambda>c. c = CR) (ds @ CRLF @ d) 0 (length (ds @ CRLF @ d)) = length ds"
    using scan_find [of "ds @ CRLF @ d" "[]" ds CR "LF # d" "\<lambda>c. c = CR" 0 "length (ds @ CRLF @ d)"] assms
    by fastforce
  then show ?thesis by (subst find_crlf.simps) (simp add: nth_append)
qed

definition hex_value :: "bytes \<Rightarrow> u64" where
  "hex_value ds = foldl (\<lambda>x c. x * 16 + word_of_int (the (digit_value c))) 0 ds"

lemma digit_value_xdigit: "isxdigit c \<Longrightarrow> \<exists>v. digit_value c = Some v \<and> v < 16"
proof -
  assume x: "isxdigit c"
  show ?thesis
  proof (cases "isdigit c")
    case True
    with digit_value_digit [OF True] show ?thesis by auto
  next
    case False
    with x consider "0x41 \<le> uint c" "uint c \<le> 0x46" | "0x61 \<le> uint c" "uint c \<le> 0x66"
      by (auto simp: isxdigit_def word_le_def)
    then have "uint (tolower c) \<le> 0x66"
    proof cases
      case 1
      then have "uint (c + 0x20) = uint c + 0x20" by (simp add: uint_word_ariths)
      with 1 show ?thesis by (simp add: tolower_def word_le_def)
    next
      case 2
      then show ?thesis by (simp add: tolower_def word_le_def)
    qed
    with x False show ?thesis by (simp add: digit_value_def)
  qed
qed

lemma scan_digits_hex:
  assumes "\<forall>c \<in> set p. isxdigit c" "length pre = i" "int (length p) < w"
  shows "scan_digits (pre @ p) i w 16 x =
    (i + length p, foldl (\<lambda>x c. x * 16 + word_of_int (the (digit_value c))) x p)"
  using assms
proof (induction p arbitrary: pre i w x)
  case Nil
  then show ?case by (simp add: scan_digits.simps [of _ i])
next
  case (Cons c p)
  obtain v where v: "digit_value c = Some v" "v < 16"
    using digit_value_xdigit [of c] Cons.prems(1) by auto
  have "scan_digits ((pre @ [c]) @ p) (i + 1) (w - 1) 16 (x * 16 + word_of_int v) =
      (i + 1 + length p, foldl (\<lambda>x c. x * 16 + word_of_int (the (digit_value c))) (x * 16 + word_of_int v) p)"
    using Cons.prems by (intro Cons.IH) auto
  then show ?case
    using Cons.prems v by (simp add: scan_digits.simps [of _ i] nth_append)
qed

lemma xdigit_chars:
  assumes "isxdigit c"
  shows "c \<noteq> 0" "\<not> isspace c" "c \<noteq> 0x2D" "c \<noteq> 0x2B" "c \<noteq> CR"
  using assms by (auto simp: isxdigit_def isdigit_def isspace_def word_le_nat_alt)

lemma scanf_hex:
  assumes "\<forall>c \<in> set ds. isxdigit c" "ds \<noteq> []" "hd ds \<noteq> 0x30" "length ds \<le> 8"
  shows "VSNScanF ds [0x25, 0x78, 0] [Dest True] = Some (1, [StNum32 (ucast (hex_value ds))])"
proof -
  obtain c p where c: "ds = c # p" using assms(2) by (cases ds) auto
  note x = xdigit_chars [of c]
  have "skip_space ds 0 = 0" unfolding skip_space_def
    using x assms(1) by (intro scan_eqI) (auto simp: c)
  moreover have "scan_sign ds 0 INT_MAX = (False, 0, INT_MAX)" using x assms(1) by (auto simp: scan_sign_def c)
  moreover have "scan_prefix ds 16 0 INT_MAX = (16, 0, INT_MAX)" using assms(3) by (auto simp: scan_prefix_def c)
  moreover have "scan_digits ds 0 INT_MAX 16 0 = (length ds, hex_value ds)"
    using scan_digits_hex [of ds "[]" 0 INT_MAX 0] assms(1,4) by (simp add: hex_value_def)
  ultimately have "conv_number ds 0 16 False INT_MAX
      \<lparr>src = 0, fmt = [0], args = [Dest True], matched = 0, stores = []\<rparr> =
    Some (Next \<lparr>src = length ds, fmt = [0], args = [], matched = 1, stores = [StNum32 (ucast (hex_value ds))]\<rparr>)"
    using assms(2) by (simp add: conv_number_def store_number_def)
  then have "scan_body ds \<lparr>src = 0, fmt = [0x25, 0x78, 0], args = [Dest True], matched = 0, stores = []\<rparr> =
      Some (Next \<lparr>src = length ds, fmt = [0], args = [], matched = 1, stores = [StNum32 (ucast (hex_value ds))]\<rparr>)"
    by (simp add: scan_body_simps conv_base_def)
  then show ?thesis
    by (simp add: VSNScanF_def VSNScanF_loop_Next VSNScanF_loop_Done scan_body_end)
qed

lemma scanf_zero: "VSNScanF [0x30] [0x25, 0x6C, 0x6C, 0x75, 0] [Dest True] = Some (1, [StNum64 0])"
proof -
  have "dec_digits k 0 = replicate k 0x30" for k by (induction k) auto
  moreover have "dropWhile ((=) 0x30) (replicate k (0x30 :: u8)) = []" for k by (induction k) auto
  ultimately have "decimal 0 = [0x30]" by (simp add: decimal_def)
  with scanf_llu_decimal [of 0] show ?thesis by simp
qed

lemma chunk_size_line:
  assumes "\<forall>c \<in> set ds. isxdigit c" and "ds \<noteq> []" and "length ds \<le> 8"
  shows "findChunkedDataLength (ds @ CRLF @ d) cell = Some (Some
    (if hd ds = 0x30 then 0 else (cell AND NOT (mask 32)) OR ucast (ucast (hex_value ds) :: u32), length ds + 2))"
proof -
  have "CR \<notin> set ds" using assms(1) xdigit_chars(5) by blast
  then have f: "find_crlf (ds @ CRLF @ d) 0 = Some (length ds)" by (rule find_crlf_first)
  have h: "rd (ds @ CRLF @ d) 0 = Some (hd ds)" using assms(2) by (cases ds) (auto simp: rd_def)
  show ?thesis
    using assms f h scanf_zero scanf_hex [OF assms(1,2) _ assms(3)]
    by (simp add: findChunkedDataLength_def store_u64_def)
qed

section \<open>Properties\<close>

text \<open>
  \<open>findHeader\<close> returns the end of the first empty line (LF LF or LF CR LF) of a buffer that
  does not start with the interleaved-data mark \<open>$\<close>, and fails exactly when there is none.
\<close>

theorem findHeader_first_empty_line:
  assumes "b = [] \<or> b ! 0 \<noteq> 0x24"
  shows "(\<exists>s. blank_line b s \<and> (\<forall>s' < s. \<not> blank_line b s') \<and> findHeader b = (True, blank_end b s)) \<or>
    (\<forall>s. \<not> blank_line b s) \<and> findHeader b = (False, length b)"
  using find_blank_spec [where b = b and i = 0] assms
  by (cases "find_blank b 0") (auto simp: findHeader_def)

theorem findHeader_first_empty_line_witness:
  "(\<exists>s. blank_line [0x61, LF, CR, LF] s \<and> (\<forall>s' < s. \<not> blank_line [0x61, LF, CR, LF] s') \<and>
     findHeader [0x61, LF, CR, LF] = (True, blank_end [0x61, LF, CR, LF] s)) \<or>
   (\<forall>s. \<not> blank_line [0x61, LF, CR, LF] s) \<and> findHeader [0x61, LF, CR, LF] = (False, length [0x61, LF, CR, LF])"
  using findHeader_first_empty_line [of "[0x61, LF, CR, LF]"]
  by (simp only: nth_Cons_0) simp

text \<open>
  \<open>HTTPGetHeaderField\<close> finds the first line whose name equals the given name up to case, and
  returns exactly its value without the white space in front.
\<close>

theorem header_field_lookup:
  assumes "\<forall>l \<in> set ls. one_line l \<and> \<not> names l name" and "0 \<notin> set name" and "map tolower n = map tolower name"
    and "one_line n" and "one_line v" and "v = [] \<or> hd v \<noteq> 0x20 \<and> hd v \<noteq> 0x09"
    and "r = [] \<or> hd r \<noteq> 0x20 \<and> hd r \<noteq> 0x09"
  shows "\<exists>f. HTTPGetHeaderField (lines ls @ (n @ [0x3A, 0x20] @ v) @ CRLF @ r) (Some (name @ [0])) = Some (Some f) \<and>
    slice (lines ls @ (n @ [0x3A, 0x20] @ v) @ CRLF @ r) (valuePos f) (valueLen f) = v"
  using get_present_field [OF assms] by blast

theorem header_field_lookup_witness:
  "\<exists>f. HTTPGetHeaderField (lines [[0x47]] @ ([0x48, 0x6F] @ [0x3A, 0x20] @ [0x78]) @ CRLF @ CRLF) (Some ([0x68, 0x4F] @ [0]))
      = Some (Some f) \<and>
    slice (lines [[0x47]] @ ([0x48, 0x6F] @ [0x3A, 0x20] @ [0x78]) @ CRLF @ CRLF) (valuePos f) (valueLen f) = [0x78]"
  by (rule header_field_lookup) (simp_all add: one_line_def names_def tolower_def)

text \<open>
  A chunk size line of up to eight hexadecimal digits is read as its value, but into the low 32
  bits of the caller's 64-bit length only, and a line that starts with the digit 0 counts as the
  last chunk whatever follows: the sizes \<open>0A\<close> and \<open>0\<close> are the same to \<open>findChunkedDataLength\<close>.
\<close>

theorem chunk_size:
  assumes "\<forall>c \<in> set ds. isxdigit c" and "ds \<noteq> []" and "length ds \<le> 8"
  shows "findChunkedDataLength (ds @ CRLF @ d) cell = Some (Some
    (if hd ds = 0x30 then 0 else (cell AND NOT (mask 32)) OR ucast (ucast (hex_value ds) :: u32), length ds + 2))"
  using assms by (rule chunk_size_line)

theorem chunk_size_witness:
  "findChunkedDataLength ([0x30, 0x41] @ CRLF @ [1, 2]) 7 = Some (Some (0, length [0x30, 0x41 :: u8] + 2)) \<and>
   findChunkedDataLength ([0x31, 0x41] @ CRLF @ [1, 2]) 0 =
     Some (Some (ucast (ucast (hex_value [0x31, 0x41]) :: u32), length [0x31, 0x41 :: u8] + 2))"
proof -
  have x: "isxdigit 0x30" "isxdigit 0x31" "isxdigit 0x41" by (simp_all add: isxdigit_def isdigit_def)
  show ?thesis
    using chunk_size [of "[0x30, 0x41]" "[1, 2]" 7] chunk_size [of "[0x31, 0x41]" "[1, 2]" 0] x by simp
qed

end
