(* ===== verification/HTTPBuild.thy ===== *)
theory HTTPBuild
  imports HTTPParse
begin

text \<open>
  The message builders of \<open>libraries/utilities/HTTPUtils.c\<close>. Each allocates a block, prints the
  header into it and, for messages with a body, copies the body behind the header. A result is the
  status with the message block and its size; \<open>None\<close> is a write outside the block. The responses built
  here are read back by \<open>HTTPHeaderParse\<close>.
\<close>

definition fmt_d :: "int \<Rightarrow> bytes" where
  "fmt_d i = (if i < 0 then 0x2D # decimal (word_of_int (- i)) else decimal (word_of_int i))"

text \<open>\<open>snprintf( blk, n, ... )\<close> with the output \<open>s\<close>: cut to \<open>n - 1\<close> characters and terminated.\<close>

definition snprintf_to :: "bytes \<Rightarrow> nat \<Rightarrow> bytes \<Rightarrow> bytes option" where
  "snprintf_to blk n s = blit blk 0 (take (n - 1) s @ [0])"

type_synonym message = "OSStatus \<times> (bytes \<times> nat) option"

definition kCRLFNewLine :: bytes where "kCRLFNewLine = CRLF"
definition kCRLFLineEnding :: bytes where "kCRLFLineEnding = CRLF @ CRLF"

text \<open>The argument part \<open>%s %s%s%s %d%s\<close> that all builders share: content type and length.\<close>

definition entity_fields :: "bytes \<Rightarrow> nat \<Rightarrow> bytes" where
  "entity_fields contentType inDataLen =
     str ''Content-Type:'' @ [0x20] @ contentType @ kCRLFNewLine @
     str ''Content-Length:'' @ [0x20] @ fmt_d (sint (word_of_nat inDataLen :: u32)) @ kCRLFLineEnding"

text \<open>Size of a message without a body, and a message with its body copied behind the header.\<close>

definition finish_header :: "bytes \<Rightarrow> message option" where
  "finish_header blk = do { n \<leftarrow> c_strlen blk; Some (kNoErr, Some (blk, n)) }"

definition finish_body :: "bytes \<Rightarrow> bytes \<Rightarrow> message option" where
  "finish_body blk inData = do {
     n \<leftarrow> c_strlen blk;
     blk \<leftarrow> memcpy blk n inData 0 (length inData);
     Some (kNoErr, Some (blk, n + length inData))
   }"

definition CreateSimpleHTTPOKMessage :: "allocator \<Rightarrow> message option" where
  "CreateSimpleHTTPOKMessage malloc = (case malloc 200 of
     None \<Rightarrow> Some (kNoMemoryErr, None)
   | Some blk \<Rightarrow> do {
       blk \<leftarrow> sprintf_at blk 0 (str ''HTTP/1.1 200 OK'' @ kCRLFLineEnding);
       finish_header blk
     })"

definition CreateSimpleHTTPMessage :: "allocator \<Rightarrow> bytes option \<Rightarrow> bytes option \<Rightarrow> message option" where
  "CreateSimpleHTTPMessage malloc contentType inData = (case (contentType, inData) of
     (Some ct, Some d) \<Rightarrow>
       (if d = [] then Some (kParamErr, None)
        else case malloc (length d + 200) of
          None \<Rightarrow> Some (kNoMemoryErr, None)
        | Some blk \<Rightarrow> do {
            blk \<leftarrow> snprintf_to blk 200 (str ''HTTP/1.1 '' @ fmt_d 200 @ str '' OK'' @ kCRLFNewLine @
              entity_fields ct (length d));
            finish_body blk d
          })
   | _ \<Rightarrow> Some (kParamErr, None))"

definition CreateSimpleHTTPMessageNoCopy :: "allocator \<Rightarrow> bytes option \<Rightarrow> nat \<Rightarrow> message option" where
  "CreateSimpleHTTPMessageNoCopy malloc contentType inDataLen = (case contentType of
     None \<Rightarrow> Some (kParamErr, None)
   | Some ct \<Rightarrow>
       (if inDataLen = 0 then Some (kParamErr, None)
        else case malloc 200 of
          None \<Rightarrow> Some (kNoMemoryErr, None)
        | Some blk \<Rightarrow> do {
            blk \<leftarrow> snprintf_to blk 200 (str ''HTTP/1.1 200 OK'' @ kCRLFNewLine @ entity_fields ct inDataLen);
            finish_header blk
          }))"

definition getStatusString :: "int \<Rightarrow> bytes" where
  "getStatusString status =
     (if status = 200 then str ''OK''
      else if status = 204 then str ''No Content''
      else if status = 206 then str ''Multi0Status''
      else if status = 400 then str ''Bad Request''
      else if status = 404 then str ''Not Found''
      else if status = 405 then str ''Not Allowed''
      else if status = 403 then str ''Forbidden''
      else if status = 470 then str ''Authentication Error''
      else if status = 500 then str ''Internal Server Error''
      else str ''OK'')"

definition CreateHTTPRespondMessageNoCopy :: "allocator \<Rightarrow> int \<Rightarrow> bytes \<Rightarrow> nat \<Rightarrow> message option" where
  "CreateHTTPRespondMessageNoCopy malloc status contentType inDataLen = (case malloc 200 of
     None \<Rightarrow> Some (kNoMemoryErr, None)
   | Some blk \<Rightarrow> do {
       blk \<leftarrow> snprintf_to blk 200 (str ''HTTP/1.1 '' @ fmt_d status @ [0x20] @ getStatusString status @
         (if inDataLen \<noteq> 0 then kCRLFNewLine @ entity_fields contentType inDataLen else kCRLFLineEnding));
       finish_header blk
     })"

definition CreateHTTPMessage :: "allocator \<Rightarrow> bytes \<Rightarrow> bytes \<Rightarrow> bytes \<Rightarrow> bytes \<Rightarrow> message option" where
  "CreateHTTPMessage malloc methold inUrl contentType inData = (case malloc (length inData + 500) of
     None \<Rightarrow> Some (kNoMemoryErr, None)
   | Some blk \<Rightarrow> do {
       blk \<leftarrow> sprintf_at blk 0 (methold @ [0x20] @ inUrl @ str ''? HTTP/1.1'' @
         (if inData \<noteq> [] then kCRLFNewLine @ entity_fields contentType (length inData)
          else [0x20] @ kCRLFLineEnding));
       finish_body blk inData
     })"

definition CreateHTTPMessageWithHost ::
  "allocator \<Rightarrow> bytes \<Rightarrow> bytes \<Rightarrow> bytes \<Rightarrow> u16 \<Rightarrow> bytes \<Rightarrow> bytes \<Rightarrow> message option" where
  "CreateHTTPMessageWithHost malloc methold inUrl host port contentType inData =
     (case malloc (length inData + 500) of
        None \<Rightarrow> Some (kNoMemoryErr, None)
      | Some blk \<Rightarrow> do {
          blk \<leftarrow> sprintf_at blk 0 (methold @ [0x20] @ inUrl @ str '' HTTP/1.1'' @ kCRLFNewLine @
            str ''Host: '' @ host @ [0x3A] @ fmt_d (uint port) @
            (if inData \<noteq> [] then kCRLFNewLine @ entity_fields contentType (length inData)
             else kCRLFLineEnding));
          finish_body blk inData
        })"

section \<open>What a response block holds\<close>

lemma snprintf_fits:
  assumes "length s < n" "n \<le> length blk" "0 \<notin> set s"
  shows "\<exists>t. snprintf_to blk n s = Some (s @ 0 # t) \<and> c_strlen (s @ 0 # t) = Some (length s)"
  using assms by (simp add: snprintf_to_def blit_def c_strlen_def)

lemma isdigit_decimal: "c \<in> set (decimal v) \<Longrightarrow> isdigit c"
  using decimal_digits(1) [of v] by (simp add: isdigit_IS_09)

lemma decimal_chars:
  assumes "c \<in> set (decimal v)"
  shows "c \<noteq> 0" "c \<noteq> CR" "c \<noteq> LF" "c \<noteq> 0x20" "c \<noteq> 0x09" "c \<noteq> 0x3A" "0x30 \<le> c \<and> c \<le> 0x39"
  using isdigit_decimal [OF assms] by (auto simp: isdigit_def)

abbreviation dec_step_int :: "int \<Rightarrow> u8 \<Rightarrow> int" where
  "dec_step_int \<equiv> \<lambda>x c. x * 10 + (uint c - 0x30)"

lemma dec_step_int_grows: "\<forall>c \<in> set p. isdigit c \<Longrightarrow> 0 \<le> x \<Longrightarrow> x \<le> foldl dec_step_int x p"
proof (induction p arbitrary: x)
  case (Cons c p)
  then have d: "0 \<le> uint c - 0x30" by (simp add: isdigit_def word_le_def)
  with Cons.prems(2) have "x \<le> dec_step_int x c" by simp
  also have "\<dots> \<le> foldl dec_step_int (dec_step_int x c) p"
    using Cons.prems d by (intro Cons.IH) auto
  finally show ?case by simp
qed simp

lemma scan_status_decimal:
  assumes "\<forall>c \<in> set p. isdigit c" "length u = i" "x0 \<noteq> [] \<and> \<not> isdigit (hd x0)" "0 \<le> x"
    and "foldl dec_step_int x p < 2 ^ 31"
  shows "scan_status (u @ p @ x0) i x = Some (i + length p, foldl dec_step_int x p)"
  using assms
proof (induction p arbitrary: u i x)
  case Nil
  then show ?case
    by (subst scan_status.simps) (auto simp: nth_append isdigit_def hd_conv_nth)
next
  case (Cons c p)
  have d: "0 \<le> uint c - 0x30" using Cons.prems(1) by (simp add: isdigit_def word_le_def)
  then have x: "0 \<le> dec_step_int x c" using Cons.prems(4) by simp
  have "dec_step_int x c < 2 ^ 31"
    using dec_step_int_grows [of p "dec_step_int x c"] Cons.prems(1,5) x by simp
  moreover have "scan_status ((u @ [c]) @ p @ x0) (i + 1) (dec_step_int x c) =
      Some (i + 1 + length p, foldl dec_step_int (dec_step_int x c) p)"
    using Cons.prems x by (intro Cons.IH) auto
  ultimately show ?case
    using Cons.prems by (subst scan_status.simps) (simp add: nth_append isdigit_def)
qed

lemma uint_digit: "d < 10 \<Longrightarrow> uint (word_of_nat (48 + d) :: u8) - 0x30 = int d"
proof -
  assume "d < 10"
  then have "unat (word_of_nat (48 + d) :: u8) = 48 + d" by (simp add: unat_of_nat del: of_nat_add)
  then have "uint (word_of_nat (48 + d) :: u8) = int (48 + d)" by (metis uint_nat)
  then show ?thesis by simp
qed

lemma dec_digits_int: "r < 10 ^ k \<Longrightarrow> foldl dec_step_int x (dec_digits k r) = x * 10 ^ k + int r"
proof (induction k arbitrary: r x)
  case (Suc k)
  have d: "r div 10 ^ k < 10" using Suc.prems(1) by (simp add: less_mult_imp_div_less)
  have "foldl dec_step_int x (dec_digits (Suc k) r) =
      (x * 10 + int (r div 10 ^ k)) * 10 ^ k + int (r mod 10 ^ k)"
    using Suc.IH [of "r mod 10 ^ k"] by (simp add: uint_digit [OF d] del: of_nat_add)
  also have "\<dots> = x * 10 ^ Suc k + int (r div 10 ^ k * 10 ^ k + r mod 10 ^ k)"
    by (simp only: of_nat_add of_nat_mult of_nat_power of_nat_numeral power_Suc distrib_right mult.assoc add.assoc)
  finally show ?case by (simp only: div_mult_mod_eq)
qed simp

lemma foldl_int_dropWhile: "foldl dec_step_int 0 (dropWhile ((=) 0x30) p) = foldl dec_step_int 0 p"
  by (induction p) auto

lemma decimal_int: "foldl dec_step_int 0 (decimal v) = uint v"
proof -
  have "foldl dec_step_int 0 (decimal v) = foldl dec_step_int 0 (dec_digits 10 (unat v))"
    using foldl_int_dropWhile [of "dec_digits 10 (unat v)"]
    by (cases "dropWhile ((=) 0x30) (dec_digits 10 (unat v))") (simp_all add: decimal_def)
  then show ?thesis using dec_digits_int [OF unat_u32_bound, of 0 v] by simp
qed

section \<open>Reading a response back\<close>

text \<open>The header text of a response with a body, split into lines.\<close>

definition response_text :: "u32 \<Rightarrow> bytes \<Rightarrow> bytes \<Rightarrow> u32 \<Rightarrow> bytes" where
  "response_text status reason ct n =
     lines [str ''HTTP/1.1 '' @ decimal status @ [0x20] @ reason, str ''Content-Type: '' @ ct,
       str ''Content-Length: '' @ decimal n, []]"

lemma parse_response_text:
  fixes status :: u32 and r :: bytes
  assumes "one_line reason" "uint status < 2 ^ 31"
  defines "b \<equiv> str ''HTTP/1.1 '' @ decimal status @ [0x20] @ reason @ CRLF @ r"
  shows "parse_response b 4 h = Some (Some (length (decimal status) + length reason + 11),
      h\<lparr>protocolPtr := At 0, protocolLen := 8, statusCode := uint status,
        reasonPhrasePtr := At (10 + length (decimal status)), reasonPhraseLen := length reason\<rparr>)"
proof -
  let ?d = "decimal status"
  have q: "scan (\<lambda>c. c = 0x20) b 5 (length b) = 8"
    using scan_find [of b "str ''HTTP/''" "str ''1.1''" "0x20" "?d @ [0x20] @ reason @ CRLF @ r" "\<lambda>c. c = 0x20" 5 "length b"]
    by (simp add: b_def)
  have st: "scan_status b 9 0 = Some (9 + length ?d, uint status)"
    using scan_status_decimal [of ?d "str ''HTTP/1.1 ''" 9 "[0x20] @ reason @ CRLF @ r" 0] isdigit_decimal assms(2)
    by (simp add: b_def decimal_int isdigit_def)
  have lr: "last_read b 0 9 (9 + length ?d) = 0x20"
    by (simp add: last_read_def b_def nth_append)
  have e: "eol b (10 + length ?d) = 10 + length ?d + length reason"
    using assms(1) scan_find [of b "str ''HTTP/1.1 '' @ ?d @ [0x20]" reason CR "LF # r" "\<lambda>c. c = CR \<or> c = LF"
        "10 + length ?d" "length b"]
    by (simp add: b_def one_line_def ball_conj_distrib) blast
  show ?thesis
    using q st lr e unfolding parse_response_def Let_def
    by (simp add: b_def)
qed

lemma one_line_decimal [simp]: "one_line (decimal v)"
  by (auto simp: one_line_def dest: decimal_chars(2,3))

lemma one_line_status [simp]: "one_line (getStatusString s)"
  by (simp add: getStatusString_def one_line_def)

lemma names_response:
  "\<not> names (str ''HTTP/1.1 '' @ x) (str ''Connection'')" "\<not> names (str ''Content-Type: '' @ x) (str ''Connection'')"
  "\<not> names (str ''Content-Length: '' @ x) (str ''Connection'')" "\<not> names [] name"
  "\<not> names (str ''HTTP/1.1 '' @ x) (str ''Transfer-Encoding'')"
  "\<not> names (str ''Content-Type: '' @ x) (str ''Transfer-Encoding'')"
  "\<not> names (str ''Content-Length: '' @ x) (str ''Transfer-Encoding'')"
  "\<not> names (str ''HTTP/1.1 '' @ x) (str ''Content-Length'')"
  "\<not> names (str ''Content-Type: '' @ x) (str ''Content-Length'')"
  by (simp_all add: names_def tolower_def)

lemma parse_fields_response:
  fixes n :: u32
  assumes "one_line reason" "one_line ct" "protocolPtr h = At 0" "protocolLen h = 8"
    and "take 8 (buf h) = str ''HTTP/1.1''"
  shows "parse_fields (response_text status reason ct n) h =
    Some (h\<lparr>persistent := True, chunkedData := False, contentLength := ucast n\<rparr>)"
proof -
  let ?l1 = "str ''HTTP/1.1 '' @ decimal status @ [0x20] @ reason"
  let ?l2 = "str ''Content-Type: '' @ ct"
  let ?l3 = "str ''Content-Length: '' @ decimal n"
  have ol: "\<forall>l \<in> set [?l1, ?l2, ?l3, []]. one_line l" using assms(1,2) by simp
  have c: "HTTPGetHeaderField (response_text status reason ct n) (Some (str ''Connection'' @ [0])) = Some None"
    unfolding response_text_def using ol names_response by (intro get_missing_field) simp_all
  have te: "HTTPGetHeaderField (response_text status reason ct n) (Some (str ''Transfer-Encoding'' @ [0])) = Some None"
    unfolding response_text_def using ol names_response by (intro get_missing_field) simp_all
  have d: "decimal n = [] \<or> hd (decimal n) \<noteq> 0x20 \<and> hd (decimal n) \<noteq> 0x09"
    using decimal_chars [of "hd (decimal n)" n] by (cases "decimal n") auto
  have t: "response_text status reason ct n =
      lines [?l1, ?l2] @ (str ''Content-Length'' @ [0x3A, 0x20] @ decimal n) @ CRLF @ CRLF"
    by (simp add: response_text_def)
  obtain f where f: "HTTPGetHeaderField (response_text status reason ct n) (Some (str ''Content-Length'' @ [0])) = Some (Some f)"
    "slice (response_text status reason ct n) (valuePos f) (valueLen f) = decimal n"
    using get_present_field [of "[?l1, ?l2]" "str ''Content-Length''" "str ''Content-Length''" "decimal n" CRLF]
      ol d names_response unfolding t by auto
  have "HTTPScanFHeaderValue (response_text status reason ct n) (str ''Content-Length'' @ [0]) (str ''%llu'' @ [0]) [Dest True]
      = Some (1, [StNum64 (ucast n)])"
    using f scanf_llu_decimal [of n] by (simp add: HTTPScanFHeaderValue_def)
  moreover have "strnicmpx (text_at h (protocolPtr h) (protocolLen h)) (protocolLen h) (str ''HTTP/1.0'' @ [0]) = Some 1"
    using assms(3-5) strnicmpx_lex3 [of 8 "str ''HTTP/1.1''" "str ''HTTP/1.0'' @ [0]" "str ''HTTP/1.0''"]
    by (simp add: text_at_def slice_def tolower_def)
  ultimately show ?thesis
    unfolding parse_fields_def c te by (simp add: store_u64_def)
qed

lemma parse_response_message:
  fixes n :: u32
  assumes "one_line reason" "one_line ct" "length (response_text status reason ct n) < length (buf h)"
    and "take (length (response_text status reason ct n)) (buf h) = response_text status reason ct n"
    and "len h = length (response_text status reason ct n)" and "uint status < 2 ^ 31"
  shows "\<exists>h'. HTTPHeaderParse h = Some (kNoErr, h') \<and> statusCode h' = uint status \<and> contentLength h' = ucast n \<and>
    persistent h' \<and> \<not> chunkedData h' \<and> protocolLen h' = 8 \<and>
    text_at h' (reasonPhrasePtr h') (reasonPhraseLen h') = reason"
proof -
  let ?T = "response_text status reason ct n"
  let ?r = "lines [str ''Content-Type: '' @ ct, str ''Content-Length: '' @ decimal n, []]"
  let ?h = "header_reset h"
  have T: "?T = str ''HTTP/1.1 '' @ decimal status @ [0x20] @ reason @ CRLF @ ?r"
    by (simp add: response_text_def)
  have long: "length ?T \<noteq> 4" "length (decimal status) + length reason + 11 < length ?T"
    by (simp_all add: response_text_def)
  have bh: "buf ?h = buf h" "len ?h = length ?T" using assms(5) by (simp_all add: header_reset_def)
  have p: "scan (\<lambda>c. c = 0x20 \<or> c = 0x2F) ?T 0 (length ?T) = 4"
    using scan_find [of ?T "[]" "str ''HTTP''" "0x2F" "str ''1.1 '' @ decimal status @ [0x20] @ reason @ CRLF @ ?r"
        "\<lambda>c. c = 0x20 \<or> c = 0x2F" 0 "length ?T"]
    by (simp add: T)
  have p4: "?T ! 4 = 0x2F" by (simp add: T)
  define h1 where "h1 = ?h\<lparr>protocolPtr := At 0, protocolLen := 8, statusCode := uint status,
        reasonPhrasePtr := At (10 + length (decimal status)), reasonPhraseLen := length reason\<rparr>"
  have pr: "parse_response ?T 4 ?h = Some (Some (length (decimal status) + length reason + 11), h1)"
    unfolding T h1_def by (rule parse_response_text [OF assms(1,6)])
  have "take 8 (buf h1) = take 8 (take (length ?T) (buf h))"
    using long(2) by (simp add: h1_def bh min_def)
  then have "take 8 (buf h1) = str ''HTTP/1.1''" by (simp add: assms(4)) (simp add: T)
  then have pf: "parse_fields ?T h1 = Some (h1\<lparr>persistent := True, chunkedData := False, contentLength := ucast n\<rparr>)"
    using assms(1,2) by (intro parse_fields_response) (simp_all add: h1_def)
  have run: "HTTPHeaderParse h = Some (kNoErr, h1\<lparr>persistent := True, chunkedData := False, contentLength := ucast n\<rparr>)"
    using assms(3) long p p4 pr pf
    unfolding HTTPHeaderParse_def Let_def assms(5) bh(2) by (simp add: bh assms(4))
  have "slice (buf h) (10 + length (decimal status)) (length reason) =
      slice (take (length ?T) (buf h)) (10 + length (decimal status)) (length reason)"
    using long(2) by (intro slice_take [symmetric]) simp
  also have "\<dots> = slice ?T (10 + length (decimal status)) (length reason)" by (simp only: assms(4))
  also have "\<dots> = reason"
    using slice_mid [of "str ''HTTP/1.1 '' @ decimal status @ [0x20]" "10 + length (decimal status)"
        "length reason" reason "CRLF @ ?r"]
    unfolding T by simp
  finally show ?thesis
    using run by (simp add: h1_def bh text_at_def)
qed

text \<open>The message is its text, terminated.\<close>

lemma respond_message:
  assumes "malloc_ok malloc" and "malloc 200 \<noteq> None" and "0 \<notin> set ct"
    and "0 \<le> status" and "status < 2 ^ 31" and "0 < n" and "n < 2 ^ 31"
    and "length (response_text (word_of_int status) (getStatusString status) ct (word_of_nat n)) < 199"
  shows "\<exists>t. CreateHTTPRespondMessageNoCopy malloc status ct n =
    Some (kNoErr, Some (response_text (word_of_int status) (getStatusString status) ct (word_of_nat n) @ 0 # t,
      length (response_text (word_of_int status) (getStatusString status) ct (word_of_nat n))))"
proof -
  define st :: u32 where "st = word_of_int status"
  define w :: u32 where "w = word_of_nat n"
  let ?T = "response_text st (getStatusString status) ct w"
  have w: "unat w = n" using assms(7) by (simp add: w_def unat_of_nat)
  then have "uint w = int n" by (metis uint_nat)
  then have sw: "sint w = int n"
    using assms(7) unfolding sint_uint by (simp add: signed_take_bit_int_eq_self_iff)
  obtain blk where blk: "malloc 200 = Some blk" "length blk = 200"
    using assms(1,2) by (auto simp: malloc_ok_def)
  have msg: "str ''HTTP/1.1 '' @ fmt_d status @ [0x20] @ getStatusString status @ kCRLFNewLine @ entity_fields ct n = ?T"
    using assms(4,6) sw by (simp add: fmt_d_def response_text_def entity_fields_def kCRLFNewLine_def
        kCRLFLineEnding_def st_def w_def)
  have "0 \<notin> set ?T"
    using assms(3) decimal_chars(1) by (auto simp: response_text_def getStatusString_def)
  then obtain t where t: "snprintf_to blk 200 ?T = Some (?T @ 0 # t)" "c_strlen (?T @ 0 # t) = Some (length ?T)"
    using snprintf_fits [of ?T 200 blk] assms(8) blk(2) by (auto simp: st_def w_def)
  have "CreateHTTPRespondMessageNoCopy malloc status ct n = Some (kNoErr, Some (?T @ 0 # t, length ?T))"
    using assms(6) t msg by (simp add: CreateHTTPRespondMessageNoCopy_def blk(1) finish_header_def)
  then show ?thesis unfolding st_def w_def by blast
qed

section \<open>Properties\<close>

text \<open>
  A response that \<open>CreateHTTPRespondMessageNoCopy\<close> builds for a body is read back by
  \<open>HTTPHeaderParse\<close>: same status code, same content length, the reason phrase of
  \<open>getStatusString\<close>, persistent, not chunked. The block is not overrun.
\<close>

theorem response_roundtrip:
  assumes "malloc_ok malloc" and "malloc 200 \<noteq> None" and "one_line ct" and "0 \<notin> set ct"
    and "0 \<le> status" and "status < 2 ^ 31" and "0 < n" and "n < 2 ^ 31"
    and "length (response_text (word_of_int status) (getStatusString status) ct (word_of_nat n)) < 199"
  shows "\<exists>blk m. CreateHTTPRespondMessageNoCopy malloc status ct n = Some (kNoErr, Some (blk, m)) \<and>
    (\<forall>h0. buf h0 = blk \<and> len h0 = m \<longrightarrow> (\<exists>h. HTTPHeaderParse h0 = Some (kNoErr, h) \<and>
       statusCode h = status \<and> contentLength h = word_of_nat n \<and> persistent h \<and> \<not> chunkedData h \<and>
       text_at h (reasonPhrasePtr h) (reasonPhraseLen h) = getStatusString status))"
proof -
  define st :: u32 where "st = word_of_int status"
  define w :: u32 where "w = word_of_nat n"
  let ?T = "response_text st (getStatusString status) ct w"
  have st: "uint st = status" using assms(5,6) by (simp add: st_def uint_word_of_int)
  have w: "unat w = n" using assms(8) by (simp add: w_def unat_of_nat)
  obtain t where run: "CreateHTTPRespondMessageNoCopy malloc status ct n = Some (kNoErr, Some (?T @ 0 # t, length ?T))"
    using respond_message [OF assms(1,2,4-9)] unfolding st_def w_def by blast
  have "\<exists>h. HTTPHeaderParse h0 = Some (kNoErr, h) \<and>
       statusCode h = status \<and> contentLength h = word_of_nat n \<and> persistent h \<and> \<not> chunkedData h \<and>
       text_at h (reasonPhrasePtr h) (reasonPhraseLen h) = getStatusString status"
    if "buf h0 = ?T @ 0 # t \<and> len h0 = length ?T" for h0
    using that parse_response_message [of "getStatusString status" ct st w h0] assms(3,6) st w by auto
  with run show ?thesis by blast
qed

theorem response_roundtrip_witness:
  "\<exists>blk m. CreateHTTPRespondMessageNoCopy (\<lambda>n. Some (replicate n 0xFF)) 404 (str ''text/html'') 10
      = Some (kNoErr, Some (blk, m)) \<and>
    (\<forall>h0. buf h0 = blk \<and> len h0 = m \<longrightarrow> (\<exists>h. HTTPHeaderParse h0 = Some (kNoErr, h) \<and>
       statusCode h = 404 \<and> contentLength h = word_of_nat 10 \<and> persistent h \<and> \<not> chunkedData h \<and>
       text_at h (reasonPhrasePtr h) (reasonPhraseLen h) = str ''Not Found''))"
proof -
  have "length (response_text (word_of_int 404) (getStatusString 404) (str ''text/html'') (word_of_nat 10)) < 199"
    using decimal_digits(3) [of 404] decimal_digits(3) [of 10]
    by (simp add: response_text_def getStatusString_def)
  then have "\<exists>blk m. CreateHTTPRespondMessageNoCopy (\<lambda>n. Some (replicate n 0xFF)) 404 (str ''text/html'') 10
      = Some (kNoErr, Some (blk, m)) \<and>
    (\<forall>h0. buf h0 = blk \<and> len h0 = m \<longrightarrow> (\<exists>h. HTTPHeaderParse h0 = Some (kNoErr, h) \<and>
       statusCode h = 404 \<and> contentLength h = word_of_nat 10 \<and> persistent h \<and> \<not> chunkedData h \<and>
       text_at h (reasonPhrasePtr h) (reasonPhraseLen h) = getStatusString 404))"
    by (intro response_roundtrip) (simp_all add: malloc_ok_def)
  moreover have "getStatusString 404 = str ''Not Found''" by (simp add: getStatusString_def)
  ultimately show ?thesis by (simp only:)
qed

end
