(* ===== verification/HTTPReceive.thy ===== *)
theory HTTPReceive
  imports HTTPBuild
begin

text \<open>
  Receiving HTTP messages, the socket half of \<open>libraries/utilities/HTTPUtils.c\<close>: creating and clearing a header,
  \<open>SocketReadHTTPHeader\<close>, \<open>SocketReadHTTPBody\<close> and their TLS variants, and \<open>SocketSend\<close> and the descriptors of
  \<open>SocketUtils.c\<close>. A socket is what arrives on it: segments of bytes and periods of 5 seconds without data, the
  end of the list is the end of the connection. \<open>calloc\<close> and the two callbacks of the application are parameters;
  the callbacks do not change the header.
\<close>

section \<open>Sockets\<close>

datatype sock_event = Segment bytes | Silence

text \<open>What a TLS record holds beyond a read stays in the TLS layer, where \<open>select\<close> does not see it; what a read of
  a plain socket leaves stays in the socket.\<close>

record sock =
  tls_pending :: bytes
  events :: "sock_event list"

fun next_segment :: "sock_event list \<Rightarrow> bytes \<times> sock_event list" where
  "next_segment [] = ([], [])"
| "next_segment (Silence # es) = next_segment es"
| "next_segment (Segment b # es) = (if b = [] then next_segment es else (b, es))"

text \<open>\<open>read\<close> and \<open>ssl_recv\<close>; no bytes stand for a result of zero or an error.\<close>

definition sock_read :: "bool \<Rightarrow> nat \<Rightarrow> sock \<Rightarrow> bytes \<times> sock" where
  "sock_read tls n s =
     (if tls_pending s \<noteq> [] then (take n (tls_pending s), s\<lparr>tls_pending := drop n (tls_pending s)\<rparr>)
      else case next_segment (events s) of (b, es) \<Rightarrow>
        (take n b, if tls then s\<lparr>tls_pending := drop n b, events := es\<rparr>
                   else s\<lparr>events := (if drop n b = [] then es else Segment (drop n b) # es)\<rparr>))"

text \<open>\<open>select\<close> with a timeout of 5 seconds. Without a timeout it ends with data or the end of the connection.\<close>

definition select_5s :: "sock \<Rightarrow> bool \<times> sock" where
  "select_5s s = (case events s of Silence # es \<Rightarrow> (False, s\<lparr>events := es\<rparr>) | _ \<Rightarrow> (True, s))"

fun event_bytes :: "sock_event list \<Rightarrow> bytes" where
  "event_bytes [] = []"
| "event_bytes (Silence # es) = event_bytes es"
| "event_bytes (Segment b # es) = b @ event_bytes es"

definition sock_bytes :: "sock \<Rightarrow> bytes" where
  "sock_bytes s = tls_pending s @ event_bytes (events s)"

definition sock_size :: "sock \<Rightarrow> nat" where
  "sock_size s = length (sock_bytes s)"

lemma next_segment_bytes:
  "next_segment es = (b, es') \<Longrightarrow> event_bytes es = b @ event_bytes es' \<and> (b = [] \<longrightarrow> es' = [] \<and> event_bytes es = [])"
  by (induction es rule: next_segment.induct) (auto split: if_splits)

lemma sock_read_bytes:
  assumes "sock_read tls n s = (b, s')"
  shows "sock_bytes s = b @ sock_bytes s'" and "length b \<le> n" and "0 < n \<Longrightarrow> sock_bytes s \<noteq> [] \<Longrightarrow> b \<noteq> []"
proof -
  obtain c es where c: "next_segment (events s) = (c, es)" by (meson surj_pair)
  note nb = next_segment_bytes [OF c]
  show "sock_bytes s = b @ sock_bytes s'"
    using assms c nb by (auto simp: sock_read_def sock_bytes_def split: if_splits)
  show "length b \<le> n" using assms c by (auto simp: sock_read_def split: if_splits)
  show "b \<noteq> []" if "0 < n" "sock_bytes s \<noteq> []"
    using assms c nb that by (auto simp: sock_read_def sock_bytes_def split: if_splits)
qed

lemma sock_read_size: "sock_read tls n s = (b, s') \<Longrightarrow> b \<noteq> [] \<Longrightarrow> sock_size s' < sock_size s"
  using sock_read_bytes(1) [of tls n s b s'] by (simp add: sock_size_def)

lemma select_5s_bytes: "select_5s s = (r, s') \<Longrightarrow> sock_bytes s' = sock_bytes s"
  by (auto simp: select_5s_def sock_bytes_def split: list.splits sock_event.splits)

section \<open>The receiver\<close>

abbreviation READ_LENGTH :: nat where "READ_LENGTH \<equiv> 1500"

text \<open>\<open>extraDataPtr\<close>: null, a block of its own, or an offset in the buffer for chunked data, whose length is
  \<open>chunkedDataBufferLen\<close>.\<close>

datatype extra_ptr = Extra_null | Extra_block bytes | Extra_chunk nat

record http_rx =
  hdr :: HTTPHeader_t
  extraDataPtr :: extra_ptr
  extraDataLen :: u32
  chunkedDataBuffer :: "bytes option"
  isCallbackSupported :: bool

record 'u http_app =
  onReceivedDataCallback :: "(u32 \<Rightarrow> bytes \<Rightarrow> 'u \<Rightarrow> OSStatus \<times> 'u) option"
  onClearCallback :: "('u \<Rightarrow> 'u) option"

text \<open>The header, the socket and what the application keeps.\<close>

record 'u http_run =
  rx :: http_rx
  conn :: sock
  app_state :: 'u

text \<open>A call through a null pointer is a fault; the result of the callback is not looked at in the body.\<close>

definition deliver :: "'u http_app \<Rightarrow> u32 \<Rightarrow> bytes \<Rightarrow> 'u http_run \<Rightarrow> 'u http_run option" where
  "deliver app pos data s =
     (case onReceivedDataCallback app of None \<Rightarrow> None
      | Some f \<Rightarrow> Some (s\<lparr>app_state := snd (f pos data (app_state s))\<rparr>))"

definition empty_header :: "nat \<Rightarrow> HTTPHeader_t" where
  "empty_header bufLen = \<lparr>buf = replicate bufLen 0, len = 0, methodPtr = NoText, methodLen = 0, urlPtr = NoText, urlLen = 0,
     url = None, protocolPtr = NoText, protocolLen = 0, statusCode = 0, reasonPhrasePtr = NoText, reasonPhraseLen = 0,
     channelID = 0, contentLength = 0, persistent = False, chunkedData = False\<rparr>"

text \<open>When the second allocation fails the freed header is returned all the same: a fault for its user.\<close>

definition HTTPHeaderCreateWithCallback :: "(nat \<Rightarrow> bool) \<Rightarrow> bool \<Rightarrow> nat \<Rightarrow> http_rx option option" where
  "HTTPHeaderCreateWithCallback calloc header_block bufLen =
     (if \<not> header_block then Some None
      else if \<not> calloc bufLen then None
      else Some (Some \<lparr>hdr = empty_header bufLen, extraDataPtr = Extra_null, extraDataLen = 0, chunkedDataBuffer = None,
        isCallbackSupported = False\<rparr>))"

section \<open>Reading a header\<close>

text \<open>The loop up to \<open>findHeader\<close>: the end of the header, or \<open>None\<close> when the connection ends or the buffer is full.\<close>

function read_header_loop :: "bool \<Rightarrow> HTTPHeader_t \<Rightarrow> sock \<Rightarrow> (nat option \<times> HTTPHeader_t \<times> sock) option" where
  "read_header_loop tls h s =
     (if length (buf h) < len h then None
      else case findHeader (take (len h) (buf h)) of (found, end) \<Rightarrow>
        if found then Some (Some end, h, s)
        else (case sock_read tls (length (buf h) - len h) s of (b, s') \<Rightarrow>
          if b = [] then Some (None, h, s')
          else (case blit (buf h) (len h) b of None \<Rightarrow> None
            | Some buf' \<Rightarrow> read_header_loop tls (h\<lparr>buf := buf', len := len h + length b\<rparr>) s')))"
  by pat_completeness auto
termination
  by (relation "measure (\<lambda>(tls, h, s). sock_size s)") (auto dest: sock_read_size [OF sym])

declare read_header_loop.simps [simp del]

text \<open>What follows the header: \<open>data\<close> are the bytes behind it.\<close>

definition store_extra ::
  "(nat \<Rightarrow> bool) \<Rightarrow> 'u http_app \<Rightarrow> bytes \<Rightarrow> 'u http_run \<Rightarrow> (OSStatus \<times> 'u http_run) option" where
  "store_extra calloc app data s =
     (let h = rx s in
      if chunkedData (hdr h) then
        (let n = (if extraDataLen h > of_nat READ_LENGTH then unat (extraDataLen h) else READ_LENGTH) in
         if \<not> calloc n then Some (kNoMemoryErr, s\<lparr>rx := h\<lparr>chunkedDataBuffer := None\<rparr>\<rparr>)
         else (case blit (replicate n 0) 0 data of None \<Rightarrow> None
           | Some b \<Rightarrow> Some (kNoErr, s\<lparr>rx := h\<lparr>chunkedDataBuffer := Some b, extraDataPtr := Extra_chunk 0\<rparr>\<rparr>)))
      else if contentLength (hdr h) \<noteq> 0 then
        (let copyDataLen = (if contentLength (hdr h) \<ge> ucast (extraDataLen h) then extraDataLen h
               else ucast (contentLength (hdr h)));
             copy = take (unat copyDataLen) data;
             (called, s) = (case onReceivedDataCallback app of None \<Rightarrow> (False, s)
               | Some f \<Rightarrow> (case f 0 copy (app_state s) of (err, u) \<Rightarrow> (err = kNoErr, s\<lparr>app_state := u\<rparr>))) in
         if called then
           (if \<not> calloc READ_LENGTH then Some (kNoMemoryErr, s\<lparr>rx := h\<lparr>isCallbackSupported := True\<rparr>\<rparr>)
            else Some (kNoErr, s\<lparr>rx := h\<lparr>isCallbackSupported := True, extraDataPtr := Extra_block (replicate READ_LENGTH 0)\<rparr>\<rparr>))
         else let n = unat (ucast (contentLength (hdr h)) :: u32) in
           if \<not> calloc n then Some (kNoMemoryErr, s\<lparr>rx := h\<lparr>isCallbackSupported := False\<rparr>\<rparr>)
           else (case blit (replicate n 0) 0 copy of None \<Rightarrow> None
             | Some b \<Rightarrow> Some (kNoErr, s\<lparr>rx := h\<lparr>isCallbackSupported := False, extraDataPtr := Extra_block b\<rparr>\<rparr>)))
      else Some (kNoErr, s))"

text \<open>A pointer into the chunk buffer cannot be freed without leaving \<open>chunkedDataBufferPtr\<close> dangling: a fault.\<close>

definition read_http_header ::
  "bool \<Rightarrow> (nat \<Rightarrow> bool) \<Rightarrow> 'u http_app \<Rightarrow> 'u http_run \<Rightarrow> (OSStatus \<times> 'u http_run) option" where
  "read_http_header tls calloc app s =
     (case read_header_loop tls (hdr (rx s)) (conn s) of None \<Rightarrow> None
      | Some (None, h, c) \<Rightarrow> Some (kConnectionErr, s\<lparr>rx := (rx s)\<lparr>hdr := h\<rparr>, conn := c\<rparr>)
      | Some (Some end, h, c) \<Rightarrow>
          (case HTTPHeaderParse (h\<lparr>len := end\<rparr>) of None \<Rightarrow> None
           | Some (err, h') \<Rightarrow>
               if err \<noteq> kNoErr then Some (err, s\<lparr>rx := (rx s)\<lparr>hdr := h'\<rparr>, conn := c\<rparr>)
               else case extraDataPtr (rx s) of Extra_chunk k \<Rightarrow> None
               | _ \<Rightarrow> store_extra calloc app (slice (buf h) end (len h - end))
                      (s\<lparr>rx := (rx s)\<lparr>hdr := h', extraDataLen := of_nat (len h - end), extraDataPtr := Extra_null\<rparr>,
                         conn := c\<rparr>)))"

definition SocketReadHTTPHeader ::
  "(nat \<Rightarrow> bool) \<Rightarrow> 'u http_app \<Rightarrow> 'u http_run \<Rightarrow> (OSStatus \<times> 'u http_run) option" where
  "SocketReadHTTPHeader = read_http_header False"

definition SocketReadHTTPSHeader ::
  "(nat \<Rightarrow> bool) \<Rightarrow> 'u http_app \<Rightarrow> 'u http_run \<Rightarrow> (OSStatus \<times> 'u http_run) option" where
  "SocketReadHTTPSHeader = read_http_header True"

section \<open>Reading a chunked body\<close>

abbreviation with_rx :: "(http_rx \<Rightarrow> http_rx) \<Rightarrow> 'u http_run \<Rightarrow> 'u http_run" where
  "with_rx f s \<equiv> s\<lparr>rx := f (rx s)\<rparr>"

abbreviation set_length :: "u64 \<Rightarrow> http_rx \<Rightarrow> http_rx" where
  "set_length n h \<equiv> h\<lparr>hdr := (hdr h)\<lparr>contentLength := n\<rparr>\<rparr>"

text \<open>A read to an offset of the chunk buffer: the bytes, with the buffer and the socket updated.\<close>

definition read_chunk :: "bool \<Rightarrow> nat \<Rightarrow> nat \<Rightarrow> 'u http_run \<Rightarrow> (bytes \<times> 'u http_run) option" where
  "read_chunk tls off n s =
     (case chunkedDataBuffer (rx s) of None \<Rightarrow> None
      | Some b \<Rightarrow> (case sock_read tls n (conn s) of (d, c) \<Rightarrow>
          (case blit b off d of None \<Rightarrow> None
           | Some b \<Rightarrow> Some (d, (with_rx (\<lambda>h. h\<lparr>chunkedDataBuffer := Some b\<rparr>) s)\<lparr>conn := c\<rparr>))))"

lemma read_chunk_size:
  "read_chunk tls off n s = Some (d, s') \<Longrightarrow> d \<noteq> [] \<Longrightarrow> sock_size (conn s') < sock_size (conn s)"
  by (auto simp: read_chunk_def split: option.splits prod.splits dest: sock_read_size)

text \<open>The size line of the next chunk; \<open>extraDataPtr\<close> is left at the end of the data when it is not complete.\<close>

function find_chunk :: "bool \<Rightarrow> 'u http_run \<Rightarrow> (OSStatus \<times> 'u http_run) option" where
  "find_chunk tls s =
     (case chunkedDataBuffer (rx s) of None \<Rightarrow> None
      | Some b \<Rightarrow>
          if length b < unat (extraDataLen (rx s)) then None
          else (case findChunkedDataLength (take (unat (extraDataLen (rx s))) b) (contentLength (hdr (rx s))) of
            None \<Rightarrow> None
          | Some (Some (n, off)) \<Rightarrow> Some (kNoErr, with_rx (\<lambda>h. set_length n h\<lparr>extraDataPtr := Extra_chunk off\<rparr>) s)
          | Some None \<Rightarrow>
              let s = with_rx (\<lambda>h. h\<lparr>extraDataPtr := Extra_chunk (unat (extraDataLen h))\<rparr>) s in
              if \<not> unat (extraDataLen (rx s)) < length b then Some (kMalformedErr, s)
              else (case read_chunk tls (unat (extraDataLen (rx s))) (length b - unat (extraDataLen (rx s))) s of
                None \<Rightarrow> None
              | Some (d, s') \<Rightarrow>
                  if d = [] then Some (kConnectionErr, s')
                  else find_chunk tls (with_rx (\<lambda>h. h\<lparr>extraDataLen := extraDataLen h + of_nat (length d)\<rparr>) s'))))"
  by pat_completeness auto
termination
  by (relation "measure (\<lambda>(tls, s). sock_size (conn s))") (auto dest: read_chunk_size)

text \<open>The end of the trailer behind the last chunk, whose size line has \<open>off\<close> bytes: the difference of 256 is one of 32-bit numbers,
  and the callback gets the bytes at \<open>extraDataPtr\<close>.\<close>

function find_trailer :: "bool \<Rightarrow> 'u http_app \<Rightarrow> nat \<Rightarrow> 'u http_run \<Rightarrow> (OSStatus \<times> 'u http_run) option" where
  "find_trailer tls app off s =
     (case chunkedDataBuffer (rx s) of None \<Rightarrow> None
      | Some b \<Rightarrow>
          if length b < unat (extraDataLen (rx s)) \<or> unat (extraDataLen (rx s)) < off then None
          else if findCRLF (slice b off (unat (extraDataLen (rx s)) - off)) \<noteq> None then Some (kNoErr, s)
          else (case read_chunk tls (unat (extraDataLen (rx s))) (unat (256 - extraDataLen (rx s))) s of
            None \<Rightarrow> None
          | Some (d, s') \<Rightarrow>
              if d = [] then Some (kConnectionErr, s')
              else let len = extraDataLen (rx s'); s' = with_rx (\<lambda>h. h\<lparr>extraDataLen := len + of_nat (length d)\<rparr>) s' in
                (case deliver app len (slice (the (chunkedDataBuffer (rx s'))) off (length d)) s' of
                  None \<Rightarrow> None | Some s'' \<Rightarrow> find_trailer tls app off s'')))"
  by pat_completeness auto
termination
  by (relation "measure (\<lambda>(tls, app, off, s). sock_size (conn s))") (auto simp: deliver_def dest!: read_chunk_size split: option.splits)

text \<open>The rest of a chunk that is longer than what has arrived; \<open>off\<close> is the place of its data, \<open>pos\<close> counts what the
  callback got.\<close>

function read_rest :: "bool \<Rightarrow> 'u http_app \<Rightarrow> nat \<Rightarrow> u32 \<Rightarrow> 'u http_run \<Rightarrow> (OSStatus \<times> u32 \<times> 'u http_run) option" where
  "read_rest tls app off pos s =
     (let h = rx s; size = (case chunkedDataBuffer h of None \<Rightarrow> 0 | Some b \<Rightarrow> of_nat (length b)) :: u32;
          got = extraDataLen h - of_nat off in
      if ucast (extraDataLen h) < contentLength (hdr h) + of_nat off then
        (let readLength = (if contentLength (hdr h) - ucast got > ucast (size - of_nat off) then size - of_nat off
               else ucast (contentLength (hdr h) - ucast got)) in
         (case read_chunk tls off (unat readLength) s of None \<Rightarrow> None
          | Some (d, s') \<Rightarrow>
              if d = [] then Some (kConnectionErr, pos, s')
              else (case deliver app pos d (with_rx (\<lambda>h. h\<lparr>extraDataLen := extraDataLen h + of_nat (length d)\<rparr>) s') of
                None \<Rightarrow> None
              | Some s'' \<Rightarrow> read_rest tls app off (pos + of_nat (length d)) s'')))
      else Some (kNoErr, pos, s))"
  by pat_completeness auto
termination
  by (relation "measure (\<lambda>(tls, app, off, pos, s). sock_size (conn s))") (auto simp: deliver_def dest!: read_chunk_size split: option.splits)

declare find_chunk.simps [simp del] find_trailer.simps [simp del] read_rest.simps [simp del]

text \<open>One chunk behind its size line of \<open>off\<close> bytes: it is there with its CR LF, only the LF is missing, or more of it is
  missing.\<close>

definition chunk_complete ::
  "'u http_app \<Rightarrow> nat \<Rightarrow> u32 \<Rightarrow> bytes \<Rightarrow> 'u http_run \<Rightarrow> (OSStatus \<times> u32 \<times> 'u http_run) option" where
  "chunk_complete app off pos b s =
     (let n = contentLength (hdr (rx s)); L = off + unat n + 2 in
      if length b < L \<or> unat (extraDataLen (rx s)) < L then None
      else if \<not> (b ! (off + unat n) = CR \<and> b ! (off + unat n + 1) = LF) then Some (kMalformedErr, pos, s)
      else (case deliver app pos (slice b off (unat n)) s of None \<Rightarrow> None
        | Some s \<Rightarrow> Some (kNoErr, pos + ucast n, with_rx (\<lambda>h. h\<lparr>chunkedDataBuffer := Some (drop L b @ drop (length b - L) b),
            extraDataLen := extraDataLen h - of_nat L\<rparr>) s)))"

definition chunk_last_byte ::
  "bool \<Rightarrow> 'u http_app \<Rightarrow> nat \<Rightarrow> u32 \<Rightarrow> bytes \<Rightarrow> 'u http_run \<Rightarrow> (OSStatus \<times> u32 \<times> 'u http_run) option" where
  "chunk_last_byte tls app off pos b s =
     (let n = unat (extraDataLen (rx s)) - off - 1 in
      case rd b (unat (extraDataLen (rx s)) - 1) of None \<Rightarrow> None
      | Some c \<Rightarrow>
          if c \<noteq> CR then Some (kMalformedErr, pos, s)
          else (case deliver app pos (slice b off n) s of None \<Rightarrow> None
            | Some s \<Rightarrow>
                (case read_chunk tls off 1 s of None \<Rightarrow> None
                 | Some (d, s) \<Rightarrow>
                     if d = [] then Some (kConnectionErr, pos + of_nat n, s)
                     else if hd d \<noteq> LF then Some (kMalformedErr, pos + of_nat n, s)
                     else Some (kNoErr, pos + of_nat n, with_rx (\<lambda>h. h\<lparr>extraDataLen := 0\<rparr>) s))))"

definition chunk_end ::
  "bool \<Rightarrow> nat \<Rightarrow> u32 \<Rightarrow> 'u http_run \<Rightarrow> (OSStatus \<times> u32 \<times> 'u http_run) option" where
  "chunk_end tls off pos s =
     (case read_chunk tls off 2 s of None \<Rightarrow> None
      | Some (d, s) \<Rightarrow>
          if d = [] then Some (kConnectionErr, pos, s)
          else (case chunkedDataBuffer (rx s) of None \<Rightarrow> None
            | Some b \<Rightarrow>
                if length b < off + 2 then None
                else if \<not> (b ! off = CR \<and> b ! (off + 1) = LF) then Some (kMalformedErr, pos, s)
                else Some (kNoErr, pos, with_rx (\<lambda>h. h\<lparr>extraDataLen := 0\<rparr>) s)))"

definition chunk_partial ::
  "bool \<Rightarrow> 'u http_app \<Rightarrow> nat \<Rightarrow> u32 \<Rightarrow> bytes \<Rightarrow> 'u http_run \<Rightarrow> (OSStatus \<times> u32 \<times> 'u http_run) option" where
  "chunk_partial tls app off pos b s =
     (let n = unat (extraDataLen (rx s)) - off in
      if length b < off + n \<or> unat (extraDataLen (rx s)) < off then None
      else (case deliver app pos (slice b off n) s of None \<Rightarrow> None
        | Some s \<Rightarrow>
            (case read_rest tls app off (pos + of_nat n) s of None \<Rightarrow> None
             | Some (err, pos, s) \<Rightarrow> if err \<noteq> kNoErr then Some (err, pos, s) else chunk_end tls off pos s)))"

definition chunk_data ::
  "bool \<Rightarrow> 'u http_app \<Rightarrow> nat \<Rightarrow> u32 \<Rightarrow> 'u http_run \<Rightarrow> (OSStatus \<times> u32 \<times> 'u http_run) option" where
  "chunk_data tls app off pos s =
     (let n = contentLength (hdr (rx s)) in
      case chunkedDataBuffer (rx s) of None \<Rightarrow> None
      | Some b \<Rightarrow>
          if ucast (extraDataLen (rx s)) \<ge> n + of_nat off + 2 then chunk_complete app off pos b s
          else if ucast (extraDataLen (rx s)) = n + of_nat off + 1 then chunk_last_byte tls app off pos b s
          else chunk_partial tls app off pos b s)"

text \<open>Progress: every chunk takes bytes from the socket or from the buffer.\<close>

definition smaller :: "'u http_run \<Rightarrow> 'u http_run \<Rightarrow> bool" where
  "smaller s' s \<longleftrightarrow> sock_size (conn s') < sock_size (conn s) \<or>
     sock_size (conn s') = sock_size (conn s) \<and> extraDataLen (rx s') < extraDataLen (rx s)"

lemma deliver_fields: "deliver app p d s = Some s' \<Longrightarrow> rx s' = rx s \<and> conn s' = conn s"
  by (auto simp: deliver_def split: option.splits)

lemma read_chunk_le: "read_chunk tls off n s = Some (d, s') \<Longrightarrow> sock_size (conn s') \<le> sock_size (conn s)"
  by (auto simp: read_chunk_def sock_size_def split: option.splits prod.splits dest!: sock_read_bytes(1))

lemma find_chunk_le:
  "find_chunk tls s = Some (err, s') \<Longrightarrow>
     sock_size (conn s') < sock_size (conn s) \<or> err \<noteq> kNoErr \<or> conn s' = conn s \<and> extraDataLen (rx s') = extraDataLen (rx s)"
proof (induction tls s rule: find_chunk.induct)
  case (1 tls s)
  show ?case
    using 1 read_chunk_size [of tls] by (subst (asm) (2) find_chunk.simps) (fastforce simp: Let_def split: option.splits if_splits prod.splits)
qed

lemma read_rest_le: "read_rest tls app off pos s = Some (err, pos', s') \<Longrightarrow> sock_size (conn s') \<le> sock_size (conn s)"
proof (induction "sock_size (conn s)" arbitrary: pos s rule: less_induct)
  case less
  show ?case
  proof (cases "pos' = pos \<and> s' = s")
    case False
    then obtain n d s1 where 1: "read_chunk tls off n s = Some (d, s1)"
      and 2: "d = [] \<and> s' = s1 \<or> d \<noteq> [] \<and> (\<exists>s2 p. conn s2 = conn s1 \<and> read_rest tls app off p s2 = Some (err, pos', s'))"
      using less.prems by (subst (asm) read_rest.simps)
        (fastforce simp: Let_def split: if_splits option.splits prod.splits dest: deliver_fields)
    from 2 show ?thesis
    proof (elim disjE conjE exE)
      fix s2 p
      assume d: "d \<noteq> []" and s2: "conn s2 = conn s1" and r: "read_rest tls app off p s2 = Some (err, pos', s')"
      have lt: "sock_size (conn s2) < sock_size (conn s)" using read_chunk_size [OF 1 d] by (simp add: s2)
      show ?thesis using less.hyps [OF lt r] lt by simp
    qed (use read_chunk_le [OF 1] in simp)
  qed simp
qed

lemma unat_bound: "unat (x :: u32) < 2 ^ 32"
proof -
  have "unat x < 2 ^ LENGTH(32)" by (rule unsigned_less)
  then show ?thesis by simp
qed

lemma unat_of_nat_u32: "n < 2 ^ 32 \<Longrightarrow> unat (of_nat n :: u32) = n"
  by (simp add: unat_of_nat take_bit_eq_mod)

lemma chunk_complete_smaller:
  assumes "chunk_complete app off pos b s = Some (kNoErr, pos', s')"
  shows "smaller s' s"
proof -
  let ?h = "extraDataLen (rx s)" and ?L = "off + unat (contentLength (hdr (rx s))) + 2"
  have L: "\<not> unat ?h < ?L" "extraDataLen (rx s') = ?h - of_nat ?L" "conn s' = conn s"
    using assms by (auto simp: chunk_complete_def Let_def split: if_splits option.splits dest: deliver_fields)
  have "?L < 2 ^ 32" using L(1) unat_bound [of ?h] by simp
  then have "unat (of_nat ?L :: u32) = ?L" by (rule unat_of_nat_u32)
  then have "?h - of_nat ?L < ?h" using L(1) by (simp add: word_less_nat_alt unat_sub word_le_nat_alt del: of_nat_add)
  then show ?thesis using L(2,3) by (simp add: smaller_def)
qed

lemma chunk_data_smaller:
  assumes "chunk_data tls app off pos s = Some (kNoErr, pos', s')"
  shows "smaller s' s"
proof -
  obtain b where "chunk_complete app off pos b s = Some (kNoErr, pos', s') \<or>
      chunk_last_byte tls app off pos b s = Some (kNoErr, pos', s') \<or> chunk_partial tls app off pos b s = Some (kNoErr, pos', s')"
    using assms by (auto simp: chunk_data_def Let_def split: option.splits if_splits)
  then show ?thesis
  proof (elim disjE)
    assume "chunk_last_byte tls app off pos b s = Some (kNoErr, pos', s')"
    then obtain s1 d s2 where "deliver app pos (slice b off (unat (extraDataLen (rx s)) - off - 1)) s = Some s1"
      "read_chunk tls off 1 s1 = Some (d, s2)" "d \<noteq> []" "conn s' = conn s2"
      by (auto simp: chunk_last_byte_def Let_def split: if_splits option.splits)
    then show ?thesis using read_chunk_size [of tls off 1 s1 d s2] deliver_fields by (force simp: smaller_def)
  next
    assume "chunk_partial tls app off pos b s = Some (kNoErr, pos', s')"
    then obtain s1 p s2 where 1: "deliver app pos (slice b off (unat (extraDataLen (rx s)) - off)) s = Some s1"
      "read_rest tls app off (pos + of_nat (unat (extraDataLen (rx s)) - off)) s1 = Some (kNoErr, p, s2)"
      "chunk_end tls off p s2 = Some (kNoErr, pos', s')"
      by (auto simp: chunk_partial_def Let_def split: if_splits option.splits)
    then obtain d s3 where "read_chunk tls off 2 s2 = Some (d, s3)" "d \<noteq> []" "conn s' = conn s3"
      by (auto simp: chunk_end_def split: if_splits option.splits)
    then show ?thesis using read_chunk_size [of tls off 2 s2 d s3] read_rest_le [OF 1(2)] deliver_fields [OF 1(1)]
      by (simp add: smaller_def)
  qed (rule chunk_complete_smaller)
qed

function chunk_loop :: "bool \<Rightarrow> 'u http_app \<Rightarrow> u32 \<Rightarrow> 'u http_run \<Rightarrow> (OSStatus \<times> 'u http_run) option" where
  "chunk_loop tls app pos s =
     (case find_chunk tls s of None \<Rightarrow> None
      | Some (err, s1) \<Rightarrow>
          if err \<noteq> kNoErr then Some (err, s1)
          else (case extraDataPtr (rx s1) of
            Extra_chunk off \<Rightarrow>
              if contentLength (hdr (rx s1)) = 0 then find_trailer tls app off s1
              else (case chunk_data tls app off pos s1 of None \<Rightarrow> None
                | Some (err, pos', s2) \<Rightarrow>
                    if err \<noteq> kNoErr then Some (err, s2) else chunk_loop tls app pos' s2)
          | _ \<Rightarrow> None))"
  by pat_completeness auto
termination
proof (relation "measures [\<lambda>(tls, app, pos, s). sock_size (conn s), \<lambda>(tls, app, pos, s). unat (extraDataLen (rx s))]", goal_cases)
  case (2 tls app pos s r err s1 off r2 err2 r3 pos' s2)
  then show ?case using find_chunk_le [of tls s kNoErr s1] chunk_data_smaller [of tls app off pos s1 pos' s2]
    by (auto simp: smaller_def word_less_nat_alt)
qed simp

declare chunk_loop.simps [simp del]

section \<open>Reading a body\<close>

text \<open>A round of the loop for a body with a content length, into the block behind \<open>extraDataPtr\<close> or through the
  callback.\<close>

definition content_round :: "bool \<Rightarrow> 'u http_app \<Rightarrow> 'u http_run \<Rightarrow> (OSStatus \<times> 'u http_run) option" where
  "content_round tls app s =
     (let h = rx s; got = extraDataLen h; n = contentLength (hdr h) in
      case select_5s (conn s) of (readable, c) \<Rightarrow>
        if \<not> readable then Some (kNotReadableErr, s\<lparr>conn := c\<rparr>)
        else (case extraDataPtr h of
          Extra_block b \<Rightarrow>
            (let off = (if isCallbackSupported h then 0 else unat got);
                 readLength = (if isCallbackSupported h \<and> n - ucast got > of_nat READ_LENGTH then of_nat READ_LENGTH
                   else ucast (n - ucast got)) :: u32 in
             case sock_read tls (unat readLength) c of (d, c) \<Rightarrow>
               (case blit b off d of None \<Rightarrow> None
                | Some b \<Rightarrow>
                    let s = s\<lparr>rx := h\<lparr>extraDataPtr := Extra_block b\<rparr>, conn := c\<rparr> in
                    if d = [] then Some (kConnectionErr, s)
                    else let s = with_rx (\<lambda>h. h\<lparr>extraDataLen := got + of_nat (length d)\<rparr>) s in
                      map_option (Pair kNoErr) (if isCallbackSupported h then deliver app got d s else Some s)))
        | _ \<Rightarrow> None))"

lemma content_round_size:
  assumes "content_round tls app s = Some (kNoErr, s')"
  shows "sock_size (conn s') < sock_size (conn s)"
proof -
  obtain c n d where c: "select_5s (conn s) = (True, c)" "sock_read tls n c = (d, conn s')" "d \<noteq> []"
    using assms by (fastforce simp: content_round_def Let_def split: if_splits prod.splits extra_ptr.splits option.splits
        dest: deliver_fields)
  show ?thesis using sock_read_size [OF c(2,3)] select_5s_bytes [OF c(1)] by (simp add: sock_size_def)
qed

function read_content :: "bool \<Rightarrow> 'u http_app \<Rightarrow> 'u http_run \<Rightarrow> (OSStatus \<times> 'u http_run) option" where
  "read_content tls app s =
     (if ucast (extraDataLen (rx s)) < contentLength (hdr (rx s)) then
        (case content_round tls app s of None \<Rightarrow> None
         | Some (err, s') \<Rightarrow> if err \<noteq> kNoErr then Some (err, s') else read_content tls app s')
      else Some (kNoErr, s))"
  by pat_completeness auto
termination
  by (relation "measure (\<lambda>(tls, app, s). sock_size (conn s))") (auto dest: content_round_size)

declare read_content.simps [simp del]

definition read_http_body :: "bool \<Rightarrow> 'u http_app \<Rightarrow> 'u http_run \<Rightarrow> (OSStatus \<times> 'u http_run) option" where
  "read_http_body tls app s =
     (case (if chunkedData (hdr (rx s)) then chunk_loop tls app 0 s else read_content tls app s) of
        None \<Rightarrow> None
      | Some (err, s) \<Rightarrow>
          Some (err, if err \<noteq> kNoErr then with_rx (\<lambda>h. h\<lparr>hdr := (hdr h)\<lparr>len := 0\<rparr>\<rparr>) s else s))"

definition SocketReadHTTPBody :: "'u http_app \<Rightarrow> 'u http_run \<Rightarrow> (OSStatus \<times> 'u http_run) option" where
  "SocketReadHTTPBody = read_http_body False"

definition SocketReadHTTPSBody :: "'u http_app \<Rightarrow> 'u http_run \<Rightarrow> (OSStatus \<times> 'u http_run) option" where
  "SocketReadHTTPSBody = read_http_body True"

section \<open>The next message\<close>

text \<open>Clearing moves what has arrived of the next message to the buffer.\<close>

definition HTTPHeaderClear :: "'u http_app \<Rightarrow> 'u http_run \<Rightarrow> 'u http_run option" where
  "HTTPHeaderClear app s =
     (let s = (case onClearCallback app of None \<Rightarrow> s | Some f \<Rightarrow> s\<lparr>app_state := f (app_state s)\<rparr>);
          h = rx s; have = unat (extraDataLen h) in
      case (if chunkedData (hdr h) \<and> chunkedDataBuffer h \<noteq> None then
          (case (extraDataPtr h, chunkedDataBuffer h) of
             (Extra_chunk off, Some b) \<Rightarrow>
               if have < off \<or> length b < have then None
               else map_option (\<lambda>hd. h\<lparr>hdr := hd\<lparr>chunkedData := False\<rparr>, chunkedDataBuffer := None\<rparr>)
                 (case findCRLF (slice b off (have - off)) of
                    None \<Rightarrow> Some (hdr h)
                  | Some p \<Rightarrow>
                      let n = have - (off + p) in
                      if n > 512 then Some ((hdr h)\<lparr>len := 0\<rparr>)
                      else map_option (\<lambda>t. (hdr h)\<lparr>buf := t, len := n\<rparr>) (memcpy (buf (hdr h)) 0 b (off + p) n))
           | _ \<Rightarrow> None)
        else if ucast (extraDataLen h) > contentLength (hdr h) then
          (let n = have - unat (contentLength (hdr h)) in
           case extraDataPtr h of
             Extra_block b \<Rightarrow> map_option (\<lambda>t. h\<lparr>hdr := (hdr h)\<lparr>buf := t, len := n\<rparr>\<rparr>)
               (memcpy (buf (hdr h)) 0 b (unat (contentLength (hdr h))) n)
           | _ \<Rightarrow> None)
        else (case extraDataPtr h of Extra_chunk k \<Rightarrow> None | _ \<Rightarrow> Some (h\<lparr>hdr := (hdr h)\<lparr>len := 0\<rparr>\<rparr>))) of
        None \<Rightarrow> None
      | Some h \<Rightarrow> Some (s\<lparr>rx := h\<lparr>extraDataLen := 0, extraDataPtr := Extra_null, isCallbackSupported := False\<rparr>\<rparr>))"

text \<open>\<open>HTTPHeaderDestory\<close> with the address of a header: the pointer is null afterwards.\<close>

definition HTTPHeaderDestory :: "'u http_app \<Rightarrow> 'u http_run option \<Rightarrow> 'u option option" where
  "HTTPHeaderDestory app s =
     (case s of None \<Rightarrow> Some None | Some s \<Rightarrow> map_option (\<lambda>s. Some (app_state s)) (HTTPHeaderClear app s))"

section \<open>Sending\<close>

abbreviation kNotWritableErr :: OSStatus where "kNotWritableErr \<equiv> - 6739"

text \<open>What \<open>select\<close> and \<open>write\<close> answer: 5 seconds without room, or room for some bytes; none is an error.\<close>

datatype write_event = No_room | Room nat

function send_loop :: "bytes \<Rightarrow> nat \<Rightarrow> write_event list \<Rightarrow> bytes \<Rightarrow> OSStatus \<times> write_event list \<times> bytes" where
  "send_loop inBuf numWritten [] out = (kNotWritableErr, [], out)"
| "send_loop inBuf numWritten (No_room # ws) out = (kNotWritableErr, ws, out)"
| "send_loop inBuf numWritten (Room k # ws) out =
     (let d = take k (drop numWritten inBuf) in
      if d = [] then (kNotWritableErr, ws, out)
      else if numWritten + length d < length inBuf then send_loop inBuf (numWritten + length d) ws (out @ d)
      else (kNoErr, ws, out @ d))"
  by pat_completeness auto
termination
  by (relation "measure (\<lambda>(b, n, ws, out). length ws)") auto

definition SocketSend :: "int \<Rightarrow> bytes option \<Rightarrow> write_event list \<Rightarrow> bytes \<Rightarrow> OSStatus \<times> write_event list \<times> bytes" where
  "SocketSend fd inBuf ws out =
     (case inBuf of None \<Rightarrow> (kParamErr, ws, out)
      | Some b \<Rightarrow> if fd < 0 \<or> b = [] then (kParamErr, ws, out) else send_loop b 0 ws out)"

text \<open>Descriptors: closing sets the variable to -1. The log is of the descriptors that are closed.\<close>

definition SocketClose :: "int \<Rightarrow> int \<times> int list" where
  "SocketClose fd = (if fd < 0 then (fd, []) else (- 1, [fd]))"

text \<open>The descriptor of an event, closed by \<open>mico_delete_event_fd\<close>.\<close>

definition SocketCloseForOSEvent :: "int \<Rightarrow> int \<times> int list" where
  "SocketCloseForOSEvent fd = (if fd < 0 then (fd, []) else (- 1, [fd]))"

fun min_fd :: "int list \<Rightarrow> nat \<Rightarrow> int \<Rightarrow> nat \<Rightarrow> int \<times> nat" where
  "min_fd [] i minFd minFdIndex = (minFd, minFdIndex)"
| "min_fd (x # xs) i minFd minFdIndex = (if minFd \<ge> x then min_fd xs (i + 1) x i else min_fd xs (i + 1) minFd minFdIndex)"

definition SocketAccept :: "int list \<Rightarrow> int \<Rightarrow> (int list \<times> int list) option" where
  "SocketAccept clients newFd =
     (case clients of [] \<Rightarrow> None
      | x # xs \<Rightarrow> (case min_fd clients 0 x 0 of (minFd, i) \<Rightarrow>
          Some (clients[i := newFd], if minFd \<noteq> - 1 then snd (SocketClose minFd) else [])))"

end
