(* ===== verification/HTTPTransfer.thy ===== *)
theory HTTPTransfer
  imports HTTPReceive
begin

text \<open>
  An HTTP message on its way: what \<open>SocketSend\<close> writes arrives in segments of any size and is read back by
  \<open>SocketReadHTTPHeader\<close> and \<open>SocketReadHTTPBody\<close>. The prefixes of a response have a complete header from its blank
  line on, so the segmentation does not matter.
\<close>

section \<open>Arrival of a header\<close>

lemma sock_read_plain:
  assumes "sock_read False n c = (d, c')" and "Silence \<notin> set (events c)" and "tls_pending c = []"
  shows "Silence \<notin> set (events c') \<and> tls_pending c' = []"
proof -
  have "next_segment es = (b, es') \<Longrightarrow> set es' \<subseteq> set es" for es b es'
    by (induction es rule: next_segment.induct) (auto split: if_splits)
  then show ?thesis using assms by (fastforce simp: sock_read_def split: prod.splits if_splits)
qed

text \<open>Everything that arrives is \<open>w\<close>, and the prefixes of \<open>w\<close> with a complete header are those of at least \<open>e\<close> bytes.\<close>

lemma header_arrives:
  assumes "\<forall>k \<le> length w. findHeader (take k w) = (if k < e then (False, k) else (True, e))"
    and "e \<le> length w" and "e < length (buf h)" and "len h \<le> length (buf h)"
    and "take (len h) (buf h) @ sock_bytes c = w" and "Silence \<notin> set (events c)" and "tls_pending c = []"
  shows "\<exists>b n c'. read_header_loop False h c = Some (Some e, h\<lparr>buf := b, len := n\<rparr>, c') \<and> length b = length (buf h) \<and>
    e \<le> n \<and> n \<le> length b \<and> take n b @ sock_bytes c' = w \<and> Silence \<notin> set (events c') \<and> tls_pending c' = []"
  using assms(3-)
proof (induction "sock_size c" arbitrary: h c rule: less_induct)
  case less
  have p: "take (len h) (buf h) = take (len h) w" using less.prems(3) less.prems(2) by (metis append_eq_conv_conj length_take min.absorb2)
  have lw: "len h \<le> length w" using less.prems(2,3) by (metis le_add1 length_append length_take min.absorb2)
  have f: "findHeader (take (len h) (buf h)) = (if len h < e then (False, len h) else (True, e))"
    using assms(1) lw by (simp add: p)
  show ?case
  proof (cases "len h < e")
    case False
    then show ?thesis
      using f less.prems by (intro exI [of _ "buf h"] exI [of _ "len h"] exI [of _ c]) (subst read_header_loop.simps, auto)
  next
    case True
    obtain d c' where r: "sock_read False (length (buf h) - len h) c = (d, c')" by (meson surj_pair)
    have "sock_bytes c \<noteq> []"
    proof
      assume "sock_bytes c = []"
      then have "length w \<le> len h" using less.prems(2,3) by (metis append_Nil2 length_take min.absorb2 order_refl)
      then show False using True assms(2) by simp
    qed
    moreover have "0 < length (buf h) - len h" using True less.prems(1) by simp
    ultimately have d: "d \<noteq> []" "length d \<le> length (buf h) - len h" "sock_bytes c = d @ sock_bytes c'"
      using sock_read_bytes [OF r] by blast+
    define h' where "h' = h\<lparr>buf := take (len h) (buf h) @ d @ drop (len h + length d) (buf h), len := len h + length d\<rparr>"
    have l: "length (buf h') = length (buf h)" using d(2) less.prems(2) by (simp add: h'_def)
    have step: "read_header_loop False h c = read_header_loop False h' c'"
    proof -
      have "blit (buf h) (len h) d = Some (buf h')" using d(2) less.prems(2) by (simp add: blit_def h'_def)
      moreover have "h\<lparr>buf := buf h', len := len h + length d\<rparr> = h'" by (simp add: h'_def)
      moreover have "findHeader (take (len h) (buf h)) = (False, len h)" using f True by simp
      ultimately show ?thesis
        unfolding read_header_loop.simps [of False h c] using r d(1) less.prems(2) by simp
    qed
    have "take (len h') (buf h') @ sock_bytes c' = w"
      using less.prems(2,3) d(3) by (simp add: h'_def)
    then have "\<exists>b n c''. read_header_loop False h' c' = Some (Some e, h'\<lparr>buf := b, len := n\<rparr>, c'') \<and> length b = length (buf h') \<and>
      e \<le> n \<and> n \<le> length b \<and> take n b @ sock_bytes c'' = w \<and> Silence \<notin> set (events c'') \<and> tls_pending c'' = []"
      using less.prems(1) l d(2) sock_read_plain [OF r less.prems(4,5)] sock_read_size [OF r d(1)] less.prems(2)
      by (intro less.hyps) (auto simp: h'_def)
    then show ?thesis unfolding step l by (simp add: h'_def)
  qed
qed

section \<open>Arrival of a body\<close>

lemma unat_small [simp]: "unat (x :: u32) < 18446744073709551616"
  using unat_bound [of x] by simp

lemma content_arrives:
  assumes "extraDataPtr (rx s) = Extra_block b" and "length b = length body" and "length body < 2 ^ 32"
    and "contentLength (hdr (rx s)) = of_nat (length body)" and "\<not> isCallbackSupported (rx s)"
    and "take (unat (extraDataLen (rx s))) b @ sock_bytes (conn s) = body @ behind" and "unat (extraDataLen (rx s)) \<le> length body"
    and "Silence \<notin> set (events (conn s))" and "tls_pending (conn s) = []"
  shows "\<exists>s'. read_content False app s = Some (kNoErr, s') \<and> extraDataPtr (rx s') = Extra_block body \<and>
    hdr (rx s') = hdr (rx s) \<and> sock_bytes (conn s') = behind \<and> app_state s' = app_state s"
  using assms
proof (induction "sock_size (conn s)" arbitrary: s b rule: less_induct)
  case less
  let ?m = "unat (extraDataLen (rx s))" and ?n = "length body"
  have n: "unat (of_nat ?n :: u64) = ?n" using less.prems(3) by (simp add: unat_of_nat take_bit_eq_mod)
  have m: "unat (ucast (extraDataLen (rx s)) :: u64) = ?m" by (simp add: unsigned_ucast_eq take_bit_nat_eq_self_iff unat_small)
  have c: "ucast (extraDataLen (rx s)) < contentLength (hdr (rx s)) \<longleftrightarrow> ?m < ?n"
    by (simp add: word_less_nat_alt n m less.prems(4))
  show ?case
  proof (cases "?m < ?n")
    case False
    then have "?m = ?n" using less.prems(7) by simp
    then have "b = body" "sock_bytes (conn s) = behind" using less.prems(2,6) by auto
    then show ?thesis using less.prems(1) c False by (subst read_content.simps) auto
  next
    case True
    define k where "k = ?n - ?m"
    have len: "unat (ucast (contentLength (hdr (rx s)) - ucast (extraDataLen (rx s))) :: u32) = k"
    proof -
      have "unat (of_nat ?n - ucast (extraDataLen (rx s)) :: u64) = k"
        using True by (simp add: unat_sub word_le_nat_alt n m k_def)
      moreover have "k < 2 ^ 32" using less.prems(3) by (simp add: k_def)
      ultimately show ?thesis by (simp add: less.prems(4) unsigned_ucast_eq take_bit_nat_eq_self)
    qed
    obtain d c' where r: "sock_read False k (conn s) = (d, c')" by (meson surj_pair)
    have "length (sock_bytes (conn s)) = ?n + length behind - ?m"
      using arg_cong [OF less.prems(6), of length] less.prems(2,7) by simp
    then have "sock_bytes (conn s) \<noteq> []" using True by force
    moreover have "0 < k" using True by (simp add: k_def)
    ultimately have d: "d \<noteq> []" "length d \<le> k" "sock_bytes (conn s) = d @ sock_bytes c'"
      using sock_read_bytes [OF r] by blast+
    define b' where "b' = take ?m b @ d @ drop (?m + length d) b"
    define s1 where "s1 = s\<lparr>rx := (rx s)\<lparr>extraDataPtr := Extra_block b', extraDataLen := extraDataLen (rx s) + of_nat (length d)\<rparr>, conn := c'\<rparr>"
    have "select_5s (conn s) = (True, conn s)"
      using less.prems(8) by (auto simp: select_5s_def split: list.splits sock_event.splits)
    then have step: "content_round False app s = Some (kNoErr, s1)"
      using less.prems(1,2,5,7) len r d True
      by (simp add: content_round_def Let_def blit_def b'_def s1_def k_def)
    have m1: "unat (extraDataLen (rx s1)) = ?m + length d"
      using d(2) less.prems(3) True by (simp add: s1_def k_def unat_word_ariths unat_of_nat_u32)
    have lb: "length b' = length body" using less.prems(2) d(2) True by (simp add: b'_def k_def)
    have "\<exists>s'. read_content False app s1 = Some (kNoErr, s') \<and> extraDataPtr (rx s') = Extra_block body \<and>
      hdr (rx s') = hdr (rx s1) \<and> sock_bytes (conn s') = behind \<and> app_state s' = app_state s1"
    proof (rule less.hyps)
      show "sock_size (conn s1) < sock_size (conn s)" using sock_read_size [OF r d(1)] by (simp add: s1_def)
      show "take (unat (extraDataLen (rx s1))) b' @ sock_bytes (conn s1) = body @ behind"
        using less.prems(2,6,7) d(3) True unfolding m1 by (simp add: b'_def s1_def)
      show "unat (extraDataLen (rx s1)) \<le> length body" unfolding m1 using d(2) True by (simp add: k_def)
    qed (use lb less.prems sock_read_plain [OF r less.prems(8,9)] in \<open>simp_all add: s1_def\<close>)
    then show ?thesis using c True step by (subst read_content.simps) (auto simp: s1_def)
  qed
qed

section \<open>The header of a response\<close>

lemma blank_line_shift: "blank_line (u @ w) (length u + i) = blank_line w i"
  by (simp add: blank_line_def nth_append)

lemma lines_not_blank:
  "\<forall>l \<in> set ls. one_line l \<and> l \<noteq> [] \<Longrightarrow> i + 1 < length (lines ls) \<Longrightarrow> \<not> blank_line (lines ls @ CRLF @ r) i"
proof (induction ls arbitrary: i)
  case (Cons l ls)
  let ?w = "lines ls @ CRLF @ r"
  have w: "lines (l # ls) @ CRLF @ r = l @ CR # LF # ?w" by simp
  have l: "one_line l" using Cons.prems(1) by simp
  have "i < length l + 2 \<or> i = length (l @ CRLF) + (i - (length l + 2))" by auto
  then consider "i < length l" | "i = length l" | "i = length l + 1" | j where "i = length (l @ CRLF) + j"
    by (auto simp: less_Suc_eq)
  then show ?case
  proof cases
    case 1
    then have "(lines (l # ls) @ CRLF @ r) ! i = l ! i" by (simp add: nth_append)
    moreover have "l ! i \<noteq> LF" using l nth_mem [OF 1] by (metis one_line_def)
    ultimately show ?thesis unfolding blank_line_def by metis
  next
    case 2
    then show ?thesis unfolding w by (simp add: blank_line_def nth_append)
  next
    case 3
    then have "ls \<noteq> []" using Cons.prems(2) by auto
    then obtain l' ls' where ls: "ls = l' # ls'" by (cases ls) auto
    then obtain c l'' where c: "l' = c # l''" "c \<noteq> CR" "c \<noteq> LF" using Cons.prems(1) by (cases l') auto
    show ?thesis unfolding w 3 using c by (simp add: blank_line_def nth_append ls)
  next
    case (4 j)
    have "\<not> blank_line ?w j" using Cons.prems 4 by (intro Cons.IH) auto
    then show ?thesis using blank_line_shift [of "l @ CRLF" ?w j] by (simp add: 4 w)
  qed
qed simp

lemma header_prefixes:
  fixes ls :: "bytes list" and r :: bytes
  assumes "\<forall>l \<in> set ls. one_line l \<and> l \<noteq> []" and "ls \<noteq> []" and "hd (hd ls) \<noteq> 0x24"
  defines "w \<equiv> lines ls @ CRLF @ r" and "e \<equiv> length (lines ls) + 2"
  shows "\<forall>k \<le> length w. findHeader (take k w) = (if k < e then (False, k) else (True, e))"
proof (intro allI impI)
  fix k assume k: "k \<le> length w"
  define m where "m = length (lines ls) - 1"
  have len: "2 \<le> length (lines ls)" using assms(2) by (cases ls) auto
  have e: "e = m + 3" "length (lines ls) = m + 1" using len by (simp_all add: m_def e_def)
  have last: "w ! m = LF" "w ! (m + 1) = CR" "w ! (m + 2) = LF" "m + 2 < length w"
  proof -
    obtain ls' l where "ls = ls' @ [l]" using assms(2) by (metis rev_exhaust)
    then have "w = (lines ls' @ l @ [CR]) @ LF # CR # LF # r" "m = length (lines ls' @ l @ [CR])"
      by (simp_all add: w_def m_def)
    then show "w ! m = LF" "w ! (m + 1) = CR" "w ! (m + 2) = LF" "m + 2 < length w" by (simp_all add: nth_append)
  qed
  have pre: "blank_line (take k w) i \<Longrightarrow> blank_line w i \<and> i + 1 < k" for i
    using k by (auto simp: blank_line_def)
  have nb: "i < m \<Longrightarrow> \<not> blank_line (take k w) i" for i
    using lines_not_blank [OF assms(1), of i r] pre [of i] e(2) by (auto simp: w_def)
  have "take k w = [] \<or> take k w ! 0 \<noteq> 0x24"
  proof (cases k)
    case (Suc k')
    obtain l ls' where "ls = l # ls'" using assms(2) by (cases ls) auto
    then show ?thesis using Suc assms(1,3) by (cases l) (auto simp: w_def)
  qed simp
  then have f: "(\<exists>i. blank_line (take k w) i \<and> (\<forall>j < i. \<not> blank_line (take k w) j) \<and> findHeader (take k w) = (True, blank_end (take k w) i)) \<or>
    (\<forall>i. \<not> blank_line (take k w) i) \<and> findHeader (take k w) = (False, length (take k w))"
    using find_blank_spec [where b = "take k w" and i = 0] by (cases "find_blank (take k w) 0") (auto simp: findHeader_def)
  show "findHeader (take k w) = (if k < e then (False, k) else (True, e))"
  proof (cases "k < e")
    case True
    have "\<not> blank_line (take k w) i" for i
    proof
      assume b: "blank_line (take k w) i"
      then have "i + 1 < k" "\<not> i < m" using pre nb by blast+
      then have "i = m" "k = m + 2" using True by (auto simp: e(1))
      then show False using b last(2) by (simp add: blank_line_def)
    qed
    then show ?thesis using f True k by auto
  next
    case False
    have "blank_line (take k w) m" using last False by (simp add: blank_line_def e(1))
    moreover have "blank_end (take k w) m = e" using last(2) False by (simp add: blank_end_def e(1))
    ultimately show ?thesis using f False nb by (metis linorder_neqE_nat)
  qed
qed

lemma response_prefixes:
  fixes st n :: u32 and r :: bytes
  assumes "one_line reason" and "one_line ct"
  defines "T \<equiv> response_text st reason ct n"
  shows "\<forall>k \<le> length (T @ r). findHeader (take k (T @ r)) = (if k < length T then (False, k) else (True, length T))"
  using header_prefixes [of "[str ''HTTP/1.1 '' @ decimal st @ [0x20] @ reason, str ''Content-Type: '' @ ct,
       str ''Content-Length: '' @ decimal n]" r] assms
  by (simp add: response_text_def)

section \<open>Sending\<close>

lemma send_loop_all:
  "send_loop b k ws out = (kNoErr, ws', out') \<Longrightarrow> k \<le> length b \<Longrightarrow> out' = out @ drop k b"
proof (induction b k ws out rule: send_loop.induct)
  case (3 b k n ws out)
  let ?d = "take n (drop k b)"
  have d: "?d \<noteq> []" using "3.prems"(1) by (auto simp: Let_def split: if_splits)
  show ?case
  proof (cases "k + length ?d < length b")
    case True
    then have n: "length ?d = n" by (simp add: min_def split: if_splits)
    have "out' = (out @ ?d) @ drop (k + n) b"
      using "3.IH" [OF refl d True] "3.prems" d True unfolding n by (auto simp: Let_def n)
    moreover have "?d @ drop (k + n) b = drop k b" by (metis append_take_drop_id drop_drop add.commute)
    ultimately show ?thesis by simp
  next
    case False
    then have "out' = out @ ?d" "k + length ?d = length b" using "3.prems" d by (auto simp: Let_def)
    then show ?thesis by (simp add: min_def split: if_splits)
  qed
qed auto

lemma SocketSend_all: "SocketSend fd (Some b) ws out = (kNoErr, ws', out') \<Longrightarrow> out' = out @ b"
  by (auto simp: SocketSend_def dest: send_loop_all split: if_splits)

section \<open>A response with its body\<close>

lemma ucast_u64: "unat (ucast (x :: u32) :: u64) = unat x"
  by (simp add: unsigned_ucast_eq take_bit_nat_eq_self_iff)

lemma response_arrives:
  fixes st :: u32 and body ct reason :: bytes
  defines "T \<equiv> response_text st reason ct (of_nat (length body))"
  assumes tx: "one_line reason" "one_line ct" and us: "uint st < 2 ^ 31"
    and bd: "body \<noteq> []" "length body < 2 ^ 32"
    and bf: "len (hdr (rx s)) = 0" "length T < length (buf (hdr (rx s)))"
    and pt: "extraDataPtr (rx s) = Extra_null" and ap: "onReceivedDataCallback app = None" and ca: "\<And>n. calloc n"
    and cn: "sock_bytes (conn s) = T @ body" "Silence \<notin> set (events (conn s))" "tls_pending (conn s) = []"
  shows "\<exists>s1 s2. SocketReadHTTPHeader calloc app s = Some (kNoErr, s1) \<and> statusCode (hdr (rx s1)) = uint st \<and>
    contentLength (hdr (rx s1)) = of_nat (length body) \<and> persistent (hdr (rx s1)) \<and>
    text_at (hdr (rx s1)) (reasonPhrasePtr (hdr (rx s1))) (reasonPhraseLen (hdr (rx s1))) = reason \<and>
    SocketReadHTTPBody app s1 = Some (kNoErr, s2) \<and> extraDataPtr (rx s2) = Extra_block body \<and> sock_bytes (conn s2) = []"
proof -
  let ?h = "hdr (rx s)" and ?n = "length body"
  have pre: "\<forall>k \<le> length (T @ body). findHeader (take k (T @ body)) = (if k < length T then (False, k) else (True, length T))"
    unfolding T_def by (rule response_prefixes [OF tx])
  have w: "take (len ?h) (buf ?h) @ sock_bytes (conn s) = T @ body" by (simp add: bf(1) cn(1))
  have z: "len ?h \<le> length (buf ?h)" "length T \<le> length (T @ body)" by (simp_all add: bf(1))
  obtain b n c where l: "read_header_loop False ?h (conn s) = Some (Some (length T), ?h\<lparr>buf := b, len := n\<rparr>, c)"
    "length b = length (buf ?h)" "length T \<le> n" "n \<le> length b" "take n b @ sock_bytes c = T @ body"
    "Silence \<notin> set (events c)" "tls_pending c = []"
    using header_arrives [OF pre z(2) bf(2) z(1) w cn(2,3)] by blast
  have T: "take (length T) b = T"
    using arg_cong [OF l(5), of "take (length T)"] l(3,4) by (simp add: min_def split: if_splits)
  obtain h' where p: "HTTPHeaderParse (?h\<lparr>buf := b, len := length T\<rparr>) = Some (kNoErr, h')" "statusCode h' = uint st"
    "contentLength h' = ucast (of_nat ?n :: u32)" "persistent h'" "\<not> chunkedData h'"
    "text_at h' (reasonPhrasePtr h') (reasonPhraseLen h') = reason"
    using parse_response_message [OF tx, of st "of_nat ?n" "?h\<lparr>buf := b, len := length T\<rparr>"] T l(2) bf(2) us
    unfolding T_def by auto
  define m where "m = n - length T"
  have ml: "m \<le> ?n" using arg_cong [OF l(5), of length] l(3,4) by (simp add: m_def)
  have sl: "slice b (length T) m @ sock_bytes c = body"
    using arg_cong [OF l(5), of "drop (length T)"] l(3,4) by (simp add: slice_def m_def drop_take)
  have um: "unat (of_nat m :: u32) = m" "unat (of_nat ?n :: u32) = ?n" using ml bd(2) by (simp_all add: unat_of_nat_u32)
  have cl: "contentLength h' = of_nat ?n" "unat (contentLength h') = ?n" "contentLength h' \<noteq> 0"
    "ucast (of_nat m :: u32) \<le> contentLength h'" "unat (ucast (contentLength h') :: u32) = ?n"
  proof -
    have u: "unat (contentLength h') = ?n" using p(3) um(2) by (simp add: ucast_u64)
    show "contentLength h' = of_nat ?n" using bd(2)
      by (intro word_unat_eq_iff [THEN iffD2]) (simp add: u unat_of_nat take_bit_eq_mod)
    show "unat (contentLength h') = ?n" by (rule u)
    show "contentLength h' \<noteq> 0" using u bd(1) by auto
    show "ucast (of_nat m :: u32) \<le> contentLength h'" using u ml um(1) by (simp add: word_le_nat_alt ucast_u64)
    show "unat (ucast (contentLength h') :: u32) = ?n" using u bd(2)
      by (simp add: unsigned_ucast_eq take_bit_nat_eq_self_iff)
  qed
  define e where "e = slice b (length T) m @ replicate (?n - m) 0"
  define s1 where "s1 = s\<lparr>rx := (rx s)\<lparr>hdr := h', extraDataLen := of_nat m, extraDataPtr := Extra_block e, isCallbackSupported := False\<rparr>, conn := c\<rparr>"
  have lm: "length (slice b (length T) m) = m" using l(3,4) by (simp add: m_def)
  have 1: "SocketReadHTTPHeader calloc app s = Some (kNoErr, s1)"
    using l(1,2,3,4) p(1,5) pt ap ca cl um lm ml
    by (simp add: SocketReadHTTPHeader_def read_http_header_def store_extra_def Let_def blit_def s1_def e_def m_def)
  have "\<exists>s2. read_content False app s1 = Some (kNoErr, s2) \<and> extraDataPtr (rx s2) = Extra_block body \<and>
    hdr (rx s2) = hdr (rx s1) \<and> sock_bytes (conn s2) = [] \<and> app_state s2 = app_state s1"
  proof (rule content_arrives)
    show "extraDataPtr (rx s1) = Extra_block e" by (simp add: s1_def)
    show "length e = length body" using lm ml by (simp add: e_def)
    show "take (unat (extraDataLen (rx s1))) e @ sock_bytes (conn s1) = body @ []"
      using sl lm by (simp add: s1_def um e_def)
  qed (use ml bd(2) cl(1) l(6,7) um in \<open>simp_all add: s1_def\<close>)
  then show ?thesis
    using 1 p(2-6) cl(1) by (auto simp: s1_def SocketReadHTTPBody_def read_http_body_def)
qed

section \<open>What is stored behind a header\<close>

lemma store_extra_block:
  assumes "store_extra calloc app data s = Some (kNoErr, s1)" and "onReceivedDataCallback app = None"
    and "\<not> chunkedData (hdr (rx s1))" and "extraDataPtr (rx s) = Extra_null"
  shows "extraDataPtr (rx s1) = Extra_null \<and> contentLength (hdr (rx s1)) = 0 \<or>
    (\<exists>b. extraDataPtr (rx s1) = Extra_block b \<and> length b = unat (ucast (contentLength (hdr (rx s1))) :: u32))"
proof (cases "chunkedData (hdr (rx s))")
  case True
  then show ?thesis using assms(1,3) by (auto simp: store_extra_def Let_def split: if_splits option.splits)
next
  case False
  then show ?thesis using assms(1,2,4)
    by (cases "contentLength (hdr (rx s)) = 0") (auto simp: store_extra_def Let_def blit_def split: if_splits)
qed

lemma read_http_header_stored:
  assumes "read_http_header tls calloc app s = Some (kNoErr, s1)"
  shows "\<exists>d s0. extraDataPtr (rx s0) = Extra_null \<and> store_extra calloc app d s0 = Some (kNoErr, s1)"
proof -
  obtain e h c where 1: "read_header_loop tls (hdr (rx s)) (conn s) = Some (Some e, h, c)"
    using assms by (auto simp: read_http_header_def split: option.splits)
  obtain h' where 2: "HTTPHeaderParse (h\<lparr>len := e\<rparr>) = Some (kNoErr, h')"
    using assms 1 by (auto simp: read_http_header_def split: option.splits if_splits)
  let ?s = "s\<lparr>rx := (rx s)\<lparr>hdr := h', extraDataLen := of_nat (len h - e), extraDataPtr := Extra_null\<rparr>, conn := c\<rparr>"
  have "store_extra calloc app (slice (buf h) e (len h - e)) ?s = Some (kNoErr, s1)"
    using assms 1 2 by (cases "extraDataPtr (rx s)") (simp_all add: read_http_header_def)
  then show ?thesis by (intro exI [of _ "slice (buf h) e (len h - e)"] exI [of _ ?s]) simp
qed

section \<open>A chunked body\<close>

text \<open>A chunk: the digits of its size and its data.\<close>

type_synonym chunk = "bytes \<times> bytes"

definition chunk_ok :: "chunk \<Rightarrow> bool" where
  "chunk_ok c \<longleftrightarrow> (case c of (ds, d) \<Rightarrow> list_all isxdigit ds \<and> ds \<noteq> [] \<and> hd ds \<noteq> 0x30 \<and> length ds \<le> 8 \<and>
     hex_value ds = of_nat (length d) \<and> 0 < length d)"

definition chunk_text :: "chunk \<Rightarrow> bytes" where
  "chunk_text c = fst c @ CRLF @ snd c @ CRLF"

fun chunked_text :: "chunk list \<Rightarrow> bytes" where
  "chunked_text [] = [0x30] @ CRLF @ CRLF"
| "chunked_text (c # cs) = chunk_text c @ chunked_text cs"

text \<open>What the callback makes of the chunks, each with its place in the body.\<close>

fun delivered :: "(u32 \<Rightarrow> bytes \<Rightarrow> 'u \<Rightarrow> OSStatus \<times> 'u) \<Rightarrow> u32 \<Rightarrow> chunk list \<Rightarrow> 'u \<Rightarrow> 'u" where
  "delivered f pos [] u = u"
| "delivered f pos ((ds, d) # cs) u = delivered f (pos + of_nat (length d)) cs (snd (f pos d u))"

lemma find_chunk_line:
  assumes "chunkedDataBuffer (rx s) = Some b" and "unat (extraDataLen (rx s)) \<le> length b"
    and "take (unat (extraDataLen (rx s))) b = ds @ CRLF @ r"
    and "list_all isxdigit ds" and "ds \<noteq> []" and "length ds \<le> 8" and "contentLength (hdr (rx s)) AND NOT (mask 32) = 0"
  shows "find_chunk tls s = Some (kNoErr, with_rx (\<lambda>h. set_length
    (if hd ds = 0x30 then 0 else ucast (ucast (hex_value ds) :: u32)) h\<lparr>extraDataPtr := Extra_chunk (length ds + 2)\<rparr>) s)"
  using assms chunk_size_line [of ds r "contentLength (hdr (rx s))"]
  by (subst find_chunk.simps) (simp add: list_all_iff)

lemma chunks_in_buffer:
  assumes "list_all chunk_ok cs" and "chunkedDataBuffer (rx s) = Some b" and "length b < 2 ^ 31"
    and "take (unat (extraDataLen (rx s))) b = chunked_text cs" and "unat (extraDataLen (rx s)) \<le> length b"
    and "contentLength (hdr (rx s)) AND NOT (mask 32) = 0" and "onReceivedDataCallback app = Some f"
  shows "\<exists>s'. chunk_loop tls app pos s = Some (kNoErr, s') \<and> app_state s' = delivered f pos cs (app_state s) \<and> conn s' = conn s"
  using assms
proof (induction cs arbitrary: s b pos)
  case Nil
  have "isxdigit 0x30" by (simp add: isxdigit_def isdigit_def)
  then have f: "find_chunk tls s = Some (kNoErr, with_rx (\<lambda>h. set_length 0 h\<lparr>extraDataPtr := Extra_chunk 3\<rparr>) s)"
    using find_chunk_line [OF Nil.prems(2,5), of "[0x30]" CRLF tls] Nil.prems(4,6) by simp
  have l: "unat (extraDataLen (rx s)) = 5" using arg_cong [OF Nil.prems(4), of length] Nil.prems(5) by simp
  have "slice b 3 2 = CRLF" using arg_cong [OF Nil.prems(4), of "drop 3"] by (simp add: slice_def drop_take l)
  then have "findCRLF (slice b 3 2) \<noteq> None" by (simp add: findCRLF_def find_crlf_first [of "[]", simplified])
  then show ?case using Nil.prems(2,5) f l by (subst chunk_loop.simps) (simp add: find_trailer.simps)
next
  case (Cons c cs)
  obtain ds d where c: "c = (ds, d)" by (cases c)
  let ?h = "rx s" and ?n = "of_nat (length d) :: u64" and ?o = "length ds + 2"
  define L where "L = ?o + length d + 2"
  have ds: "list_all isxdigit ds" "ds \<noteq> []" "hd ds \<noteq> 0x30" "length ds \<le> 8" "hex_value ds = of_nat (length d)" "0 < length d"
    using Cons.prems(1) by (simp_all add: chunk_ok_def c)
  have t: "take (unat (extraDataLen ?h)) b = ds @ CRLF @ d @ CRLF @ chunked_text cs"
    using Cons.prems(4) by (simp add: c chunk_text_def)
  have len: "unat (extraDataLen ?h) = L + length (chunked_text cs)"
    using arg_cong [OF t, of length] Cons.prems(5) by (simp add: L_def)
  have small: "L < 2 ^ 31" "length d < 2 ^ 31" using len Cons.prems(3,5) by (simp_all add: L_def)
  define n :: u64 where "n = ucast (ucast (hex_value ds) :: u32)"
  have un: "unat n = length d" "n \<noteq> 0" "n AND NOT (mask 32) = 0" "ucast n = (of_nat (length d) :: u32)"
  proof -
    have x: "unat (ucast (hex_value ds) :: u32) = length d"
      using small(2) by (simp add: ds(5) unsigned_ucast_eq unat_of_nat take_bit_eq_mod)
    then show u: "unat n = length d" by (simp add: n_def ucast_u64)
    show "n \<noteq> 0" using u ds(6) by auto
    show "n AND NOT (mask 32) = 0" unfolding n_def by (intro bit_word_eqI) (auto simp: bit_simps)
    show "ucast n = (of_nat (length d) :: u32)"
      using x small(2) u by (intro word_unat_eq_iff [THEN iffD2]) (simp add: unsigned_ucast_eq unat_of_nat_u32 take_bit_nat_eq_self)
  qed
  define s1 where "s1 = with_rx (\<lambda>h. set_length n h\<lparr>extraDataPtr := Extra_chunk ?o\<rparr>) s"
  have f: "find_chunk tls s = Some (kNoErr, s1)"
    using find_chunk_line [OF Cons.prems(2,5) t ds(1,2,4) Cons.prems(6)] ds(3) by (simp add: s1_def n_def)
  have at: "b ! i = (ds @ CRLF @ d @ CRLF @ chunked_text cs) ! i" if "i < L" for i
    using nth_take [of i "unat (extraDataLen ?h)" b] that len unfolding t by simp
  have crlf: "b ! (?o + length d) = CR" "b ! (?o + length d + 1) = LF"
    using at [of "?o + length d"] at [of "?o + length d + 1"] by (simp_all add: L_def nth_append)
  have sl: "slice b ?o (length d) = d"
    using arg_cong [OF t, of "\<lambda>x. take (length d) (drop ?o x)"] len by (simp add: slice_def drop_take L_def)
  define b' where "b' = drop L b @ drop (length b - L) b"
  define s2 where "s2 = with_rx (\<lambda>h. h\<lparr>chunkedDataBuffer := Some b', extraDataLen := extraDataLen h - of_nat L\<rparr>)
    (s1\<lparr>app_state := snd (f pos d (app_state s1))\<rparr>)"
  have big: "n + of_nat ?o + 2 \<le> ucast (extraDataLen ?h)"
  proof -
    have "n = of_nat (length d)" by (simp flip: un(1))
    then have "n + of_nat ?o + 2 = of_nat L" by (simp add: L_def)
    then have "unat (n + of_nat ?o + 2) = L" using small(1) by (simp add: unat_of_nat take_bit_eq_mod)
    then show ?thesis using len by (simp add: word_le_nat_alt ucast_u64)
  qed
  have "chunk_complete app ?o pos b s1 = Some (kNoErr, pos + of_nat (length d), s2)"
    using Cons.prems(2,5,7) un(1,4) len crlf sl
    by (simp add: chunk_complete_def Let_def deliver_def s1_def s2_def b'_def L_def ac_simps)
  then have step: "chunk_loop tls app pos s = chunk_loop tls app (pos + of_nat (length d)) s2"
    using f un(2) big Cons.prems(2) by (subst chunk_loop.simps) (simp add: chunk_data_def Let_def s1_def)
  have ext: "unat (extraDataLen (rx s2)) = length (chunked_text cs)"
    using len small(1) by (simp add: s2_def s1_def unat_sub word_le_nat_alt unat_of_nat_u32)
  have "\<exists>s'. chunk_loop tls app (pos + of_nat (length d)) s2 = Some (kNoErr, s') \<and>
    app_state s' = delivered f (pos + of_nat (length d)) cs (app_state s2) \<and> conn s' = conn s2"
  proof (rule Cons.IH)
    show "take (unat (extraDataLen (rx s2))) b' = chunked_text cs"
    proof -
      have "drop L (take (unat (extraDataLen ?h)) b) = chunked_text cs"
      proof -
        have "length (ds @ CRLF @ d @ CRLF) = L" by (simp add: L_def)
        moreover have "take (unat (extraDataLen ?h)) b = (ds @ CRLF @ d @ CRLF) @ chunked_text cs" using t by simp
        ultimately show ?thesis by (metis append_eq_conv_conj)
      qed
      then show ?thesis using len Cons.prems(5) unfolding ext by (simp add: b'_def drop_take)
    qed
    show "unat (extraDataLen (rx s2)) \<le> length b'" unfolding ext using len Cons.prems(5) by (simp add: b'_def)
    show "length b' < 2 ^ 31" using Cons.prems(3,5) len by (simp add: b'_def)
  qed (use Cons.prems un(3) in \<open>simp_all add: s2_def s1_def\<close>)
  then show ?case unfolding step by (simp add: c s2_def s1_def)
qed

section \<open>Properties\<close>

text \<open>
  C7. A response that \<open>CreateHTTPRespondMessageNoCopy\<close> builds for a body, sent with the body by two calls of
  \<open>SocketSend\<close>, whatever the pieces in which the socket takes it, and arriving in segments of any size without a pause of 5
  seconds, is read by \<open>SocketReadHTTPHeader\<close> and \<open>SocketReadHTTPBody\<close>: same status, reason and length, and
  the block behind \<open>extraDataPtr\<close> is the body. Nothing is left on the socket.
\<close>

theorem http_response_received:
  fixes ct body :: bytes and s :: "'u http_run"
  assumes "malloc_ok malloc" and "malloc 200 \<noteq> None" and "one_line ct" and "0 \<notin> set ct" and "0 \<le> status" and "status < 2 ^ 31"
    and "body \<noteq> []" and "length body < 2 ^ 31"
    and "length (response_text (word_of_int status) (getStatusString status) ct (word_of_nat (length body))) < 199"
    and "CreateHTTPRespondMessageNoCopy malloc status ct (length body) = Some (kNoErr, Some (blk, m))"
    and "SocketSend fd (Some (take m blk)) ws [] = (kNoErr, ws', written)" and "SocketSend fd (Some body) ws' written = (kNoErr, ws'', sent)"
    and "sock_bytes (conn s) = sent" and "Silence \<notin> set (events (conn s))" and "tls_pending (conn s) = []"
    and "len (hdr (rx s)) = 0" and "length (buf (hdr (rx s))) = 200" and "extraDataPtr (rx s) = Extra_null"
    and "onReceivedDataCallback app = None" and "\<And>n. calloc n"
  shows "\<exists>s1 s2. SocketReadHTTPHeader calloc app s = Some (kNoErr, s1) \<and> statusCode (hdr (rx s1)) = status \<and>
    text_at (hdr (rx s1)) (reasonPhrasePtr (hdr (rx s1))) (reasonPhraseLen (hdr (rx s1))) = getStatusString status \<and>
    contentLength (hdr (rx s1)) = of_nat (length body) \<and> persistent (hdr (rx s1)) \<and>
    SocketReadHTTPBody app s1 = Some (kNoErr, s2) \<and> extraDataPtr (rx s2) = Extra_block body \<and> sock_bytes (conn s2) = []"
proof -
  let ?T = "response_text (word_of_int status) (getStatusString status) ct (word_of_nat (length body))"
  have "0 < length body" using assms(7) by simp
  then have "take m blk = ?T"
    using respond_message [OF assms(1,2,4-6) _ assms(8,9)] assms(10) by auto
  then have "sock_bytes (conn s) = ?T @ body"
    using SocketSend_all [OF assms(11)] SocketSend_all [OF assms(12)] assms(13) by simp
  moreover have "uint (word_of_int status :: u32) = status" using assms(5,6) by (simp add: uint_word_of_int)
  moreover have "length body < 2 ^ 32" "length ?T < length (buf (hdr (rx s)))" using assms(8,9,17) by simp_all
  ultimately show ?thesis
    using response_arrives [of "getStatusString status" ct "word_of_int status" body s app calloc] assms(3,6,7,14-16,18-20)
    by auto
qed

theorem http_response_received_witness:
  "\<exists>blk m ws' written ws'' sent s1 s2. let T = response_text 200 (getStatusString 200) (str ''text/html'') 3 in
    CreateHTTPRespondMessageNoCopy (\<lambda>n. Some (replicate n 0xFF)) 200 (str ''text/html'') 3 = Some (kNoErr, Some (blk, m)) \<and>
    SocketSend 5 (Some (take m blk)) [Room 20, Room 300, Room 2, Room 9] [] = (kNoErr, ws', written) \<and>
    SocketSend 5 (Some [65, 66, 67]) ws' written = (kNoErr, ws'', sent) \<and>
    SocketReadHTTPHeader (\<lambda>n. True) \<lparr>onReceivedDataCallback = None, onClearCallback = None\<rparr>
      \<lparr>rx = \<lparr>hdr = empty_header 200, extraDataPtr = Extra_null, extraDataLen = 0, chunkedDataBuffer = None, isCallbackSupported = False\<rparr>,
        conn = \<lparr>tls_pending = [], events = [Segment (take 30 T), Segment (drop 30 T @ [65]), Segment [66, 67]]\<rparr>, app_state = ()\<rparr>
      = Some (kNoErr, s1) \<and> statusCode (hdr (rx s1)) = 200 \<and>
    SocketReadHTTPBody \<lparr>onReceivedDataCallback = None, onClearCallback = None\<rparr> s1 = Some (kNoErr, s2) \<and>
    extraDataPtr (rx s2) = Extra_block [65, 66, 67]"
proof -
  define T where "T = response_text 200 (getStatusString 200) (str ''text/html'') 3"
  have T: "length T < 199" "20 < length T" "T \<noteq> []"
    using decimal_digits(3) [of 200] decimal_digits(3) [of 3] by (simp_all add: T_def response_text_def getStatusString_def)
  obtain t where c: "CreateHTTPRespondMessageNoCopy (\<lambda>n. Some (replicate n 0xFF)) 200 (str ''text/html'') 3 = Some (kNoErr, Some (T @ t, length T))"
    using respond_message [of "\<lambda>n. Some (replicate n 0xFF)" "str ''text/html''" 200 3] T(1) by (auto simp: T_def malloc_ok_def)
  have h: "SocketSend 5 (Some (take (length T) (T @ t))) [Room 20, Room 300, Room 2, Room 9] [] = (kNoErr, [Room 2, Room 9], T)"
    using T by (simp add: SocketSend_def min_def)
  have b: "SocketSend 5 (Some [65, 66, 67]) [Room 2, Room 9] T = (kNoErr, [], T @ [65, 66, 67])"
    by (simp add: SocketSend_def)
  define app :: "unit http_app" where "app = \<lparr>onReceivedDataCallback = None, onClearCallback = None\<rparr>"
  define s where "s = \<lparr>rx = \<lparr>hdr = empty_header 200, extraDataPtr = Extra_null, extraDataLen = 0, chunkedDataBuffer = None,
      isCallbackSupported = False\<rparr>,
    conn = \<lparr>tls_pending = [], events = [Segment (take 30 T), Segment (drop 30 T @ [65]), Segment [66, 67]]\<rparr>, app_state = ()\<rparr>"
  have "\<exists>s1 s2. SocketReadHTTPHeader (\<lambda>n. True) app s = Some (kNoErr, s1) \<and> statusCode (hdr (rx s1)) = 200 \<and>
    text_at (hdr (rx s1)) (reasonPhrasePtr (hdr (rx s1))) (reasonPhraseLen (hdr (rx s1))) = getStatusString 200 \<and>
    contentLength (hdr (rx s1)) = of_nat (length [65, 66, 67 :: u8]) \<and> persistent (hdr (rx s1)) \<and>
    SocketReadHTTPBody app s1 = Some (kNoErr, s2) \<and> extraDataPtr (rx s2) = Extra_block [65, 66, 67] \<and> sock_bytes (conn s2) = []"
  proof (rule http_response_received [OF _ _ _ _ _ _ _ _ _ _ h b])
    show "CreateHTTPRespondMessageNoCopy (\<lambda>n. Some (replicate n 0xFF)) 200 (str ''text/html'') (length [65, 66, 67 :: u8])
      = Some (kNoErr, Some (T @ t, length T))" using c by (simp add: numeral_eq_Suc)
    show "length (response_text (word_of_int 200) (getStatusString 200) (str ''text/html'') (word_of_nat (length [65, 66, 67 :: u8]))) < 199"
      using T(1) by (simp add: T_def)
    show "sock_bytes (conn s) = T @ [65, 66, 67]" by (simp add: s_def sock_bytes_def)
  qed (simp_all add: app_def s_def malloc_ok_def one_line_def empty_header_def)
  then show ?thesis using c h b unfolding Let_def T_def app_def s_def by blast
qed

text \<open>
  C31. When the bytes that arrive with a header go beyond its body, the beginning of a next message, and no callback takes
  them, \<open>HTTPHeaderClear\<close> moves them from a place behind the block that was allocated for the body, or from a null
  pointer when there is no body: a fault.
\<close>

theorem pipelined_message_faults:
  assumes "SocketReadHTTPHeader calloc app s = Some (kNoErr, s1)" and "onReceivedDataCallback app = None"
    and "\<not> chunkedData (hdr (rx s1))" and "contentLength (hdr (rx s1)) < ucast (extraDataLen (rx s1))"
  shows "SocketReadHTTPBody app s1 = Some (kNoErr, s1) \<and> HTTPHeaderClear app s1 = None"
proof -
  let ?n = "contentLength (hdr (rx s1))" and ?m = "extraDataLen (rx s1)"
  have b: "extraDataPtr (rx s1) = Extra_null \<or> (\<exists>b. extraDataPtr (rx s1) = Extra_block b \<and> length b = unat (ucast ?n :: u32))"
    using read_http_header_stored assms(1) store_extra_block [OF _ assms(2,3)] unfolding SocketReadHTTPHeader_def by metis
  have lt: "unat ?n < unat ?m" using assms(4) by (simp add: word_less_nat_alt ucast_u64)
  then have "unat ?n < 2 ^ 32" using unat_bound [of ?m] by simp
  then have n: "unat (ucast ?n :: u32) = unat ?n" by (simp add: unsigned_ucast_eq take_bit_nat_eq_self_iff)
  have "\<not> ucast ?m < ?n" using assms(4) by simp
  then have "read_content False app s1 = Some (kNoErr, s1)" by (subst read_content.simps) simp
  moreover have "HTTPHeaderClear app s1 = None"
  proof -
    have out: "memcpy t 0 b (unat ?n) (unat ?m - unat ?n) = None" if "length b = unat ?n" for t b
      using that lt by (simp add: memcpy_def)
    from b show ?thesis
    proof (elim disjE exE conjE)
      fix b assume "extraDataPtr (rx s1) = Extra_block b" "length b = unat (ucast ?n :: u32)"
      then show ?thesis using out [of b] n assms(3,4) by (cases "onClearCallback app") (simp_all add: HTTPHeaderClear_def Let_def)
    qed (use assms(3,4) in \<open>cases "onClearCallback app"; simp add: HTTPHeaderClear_def Let_def\<close>)
  qed
  ultimately show ?thesis using assms(3) by (simp add: SocketReadHTTPBody_def read_http_body_def)
qed


theorem pipelined_message_faults_witness:
  "case SocketReadHTTPHeader (\<lambda>n. True) \<lparr>onReceivedDataCallback = None, onClearCallback = None\<rparr>
      \<lparr>rx = \<lparr>hdr = empty_header 64, extraDataPtr = Extra_null, extraDataLen = 0, chunkedDataBuffer = None, isCallbackSupported = False\<rparr>,
        conn = \<lparr>tls_pending = [], events = [Segment (str ''HTTP/1.1 200 OK'' @ CRLF @ str ''Content-Length: 1'' @ CRLF @ CRLF @ str ''AHT'')]\<rparr>,
        app_state = ()\<rparr> of
     None \<Rightarrow> False
   | Some (err, s1) \<Rightarrow> err = kNoErr \<and> contentLength (hdr (rx s1)) = 1 \<and> extraDataLen (rx s1) = 3 \<and>
       HTTPHeaderClear \<lparr>onReceivedDataCallback = None, onClearCallback = None\<rparr> s1 = None"
  (is "case ?r of None \<Rightarrow> False | Some (err, s1) \<Rightarrow> _ err s1")
proof -
  have "case ?r of None \<Rightarrow> False | Some (err, s1) \<Rightarrow>
      err = kNoErr \<and> \<not> chunkedData (hdr (rx s1)) \<and> contentLength (hdr (rx s1)) = 1 \<and> extraDataLen (rx s1) = 3"
    by code_simp
  then obtain s1 where "?r = Some (kNoErr, s1)" "\<not> chunkedData (hdr (rx s1))" "contentLength (hdr (rx s1)) = 1" "extraDataLen (rx s1) = 3"
    by (auto split: option.splits)
  then show ?thesis using pipelined_message_faults [of "\<lambda>n. True" "\<lparr>onReceivedDataCallback = None, onClearCallback = None\<rparr>" _ s1] by simp
qed

text \<open>
  C12. A chunked body that has arrived, any number of chunks that are not empty and have sizes without leading zeros, is
  taken apart by \<open>SocketReadHTTPBody\<close>: the callback gets the data of every chunk in order, with its place in the
  body, and nothing more is read from the socket.
\<close>

theorem chunked_body_delivered:
  assumes "list_all chunk_ok cs" and "chunkedData (hdr (rx s))" and "chunkedDataBuffer (rx s) = Some b" and "length b < 2 ^ 31"
    and "take (unat (extraDataLen (rx s))) b = chunked_text cs" and "unat (extraDataLen (rx s)) \<le> length b"
    and "contentLength (hdr (rx s)) AND NOT (mask 32) = 0" and "onReceivedDataCallback app = Some f"
  shows "\<exists>s'. SocketReadHTTPBody app s = Some (kNoErr, s') \<and> app_state s' = delivered f 0 cs (app_state s) \<and> conn s' = conn s"
proof -
  obtain s' where "chunk_loop False app 0 s = Some (kNoErr, s')" "app_state s' = delivered f 0 cs (app_state s)" "conn s' = conn s"
    using chunks_in_buffer [OF assms(1,3-8), of False 0] by blast
  then show ?thesis using assms(2) by (simp add: SocketReadHTTPBody_def read_http_body_def)
qed

theorem chunked_body_delivered_witness:
  "\<exists>s'. SocketReadHTTPBody \<lparr>onReceivedDataCallback = Some (\<lambda>pos d u. (0, u @ [(pos, d)])), onClearCallback = None\<rparr>
      \<lparr>rx = \<lparr>hdr = empty_header 64\<lparr>chunkedData := True\<rparr>, extraDataPtr = Extra_chunk 0, extraDataLen = 20,
        chunkedDataBuffer = Some (chunked_text [([0x33], [97, 98, 99]), ([0x32], [100, 101])] @ [0, 0, 0]), isCallbackSupported = False\<rparr>,
        conn = \<lparr>tls_pending = [], events = []\<rparr>, app_state = []\<rparr> = Some (kNoErr, s') \<and>
    app_state s' = [(0, [97, 98, 99]), (3, [100, 101])] \<and> conn s' = \<lparr>tls_pending = [], events = []\<rparr>"
  using chunked_body_delivered [of "[([0x33], [97, 98, 99]), ([0x32], [100, 101])]"
      "\<lparr>rx = \<lparr>hdr = empty_header 64\<lparr>chunkedData := True\<rparr>, extraDataPtr = Extra_chunk 0, extraDataLen = 20,
        chunkedDataBuffer = Some (chunked_text [([0x33], [97, 98, 99]), ([0x32], [100, 101])] @ [0, 0, 0]), isCallbackSupported = False\<rparr>,
        conn = \<lparr>tls_pending = [], events = []\<rparr>, app_state = []\<rparr>"
      "chunked_text [([0x33], [97, 98, 99]), ([0x32], [100, 101])] @ [0, 0, 0]"
      "\<lparr>onReceivedDataCallback = Some (\<lambda>pos d u. (0, u @ [(pos, d)])), onClearCallback = None\<rparr>" "\<lambda>pos d u. (0, u @ [(pos, d)])"]
  by (simp add: chunk_ok_def chunk_text_def empty_header_def isxdigit_def isdigit_def hex_value_def digit_value_def)

end
