(* ===== verification/FlashMem.thy ===== *)
theory FlashMem
  imports Prelude
begin

text \<open>
  What a NOR flash array promises, as functions on an address space of bytes: programming can only
  clear bits, erasing sets a whole unit to \<open>0xFF\<close>, reading changes nothing. The drivers of
  \<open>SpiFlash\<close> and \<open>McuFlash\<close> are proved to implement these three functions, and
  \<open>MicoFlash\<close> and its clients use only their laws.
\<close>

type_synonym cells = "nat \<Rightarrow> u8"

definition program :: "cells \<Rightarrow> nat \<Rightarrow> bytes \<Rightarrow> cells" where
  "program m a ds = (\<lambda>x. if a \<le> x \<and> x < a + length ds then m x AND ds ! (x - a) else m x)"

definition erase :: "cells \<Rightarrow> nat \<Rightarrow> nat \<Rightarrow> cells" where
  "erase m a n = (\<lambda>x. if a \<le> x \<and> x < a + n then 0xFF else m x)"

definition mread :: "cells \<Rightarrow> nat \<Rightarrow> nat \<Rightarrow> bytes" where
  "mread m a n = map m [a ..< a + n]"

definition blank :: "cells \<Rightarrow> nat \<Rightarrow> nat \<Rightarrow> bool" where
  "blank m a n \<longleftrightarrow> (\<forall>x \<in> {a ..< a + n}. m x = 0xFF)"

named_theorems flash_simps \<open>algebra of programming, erasing and reading\<close>

lemma program_Nil [flash_simps]: "program m a [] = m"
  by (rule ext) (auto simp: program_def)

lemma program_append [flash_simps]:
  "program (program m a d1) (a + length d1) d2 = program m a (d1 @ d2)"
  by (rule ext) (auto simp: program_def nth_append)

lemma program_snoc: "program (program m a ds) (a + length ds) [d] = program m a (ds @ [d])"
  by (rule program_append)

lemma length_mread [simp]: "length (mread m a n) = n"
  by (simp add: mread_def)

lemma mread_0 [simp]: "mread m a 0 = []"
  by (simp add: mread_def)

lemma mread_nth: "k < n \<Longrightarrow> mread m a n ! k = m (a + k)"
  by (simp add: mread_def)

lemma mread_cong: "(\<And>x. a \<le> x \<Longrightarrow> x < a + n \<Longrightarrow> m x = m' x) \<Longrightarrow> mread m a n = mread m' a n"
  by (simp add: mread_def)

lemma mread_add: "mread m a (k + n) = mread m a k @ mread m (a + k) n"
proof -
  have "[a ..< a + k + n] = [a ..< a + k] @ [a + k ..< a + k + n]"
    by (rule upt_add_eq_append) simp
  then show ?thesis by (simp add: mread_def add.assoc)
qed

lemma and_ff [simp]: "(0xFF :: u8) AND x = x"
proof -
  have "(0xFF :: u8) = - 1" by simp
  then show ?thesis by (simp only: and.left_neutral)
qed

text \<open>Programming blank cells and reading them back returns the data.\<close>

lemma mread_program_blank [flash_simps]:
  assumes "blank m a (length ds)"
  shows "mread (program m a ds) a (length ds) = ds"
proof (rule nth_equalityI)
  show "mread (program m a ds) a (length ds) ! i = ds ! i"
    if "i < length (mread (program m a ds) a (length ds))" for i
    using that assms by (simp add: mread_nth program_def blank_def)
qed simp

lemma mread_program_disjoint:
  assumes "b + n \<le> a \<or> a + length ds \<le> b"
  shows "mread (program m a ds) b n = mread m b n"
  using assms by (intro mread_cong) (auto simp: program_def)

lemma blank_erase [flash_simps]: "a \<le> b \<Longrightarrow> b + k \<le> a + n \<Longrightarrow> blank (erase m a n) b k"
  by (auto simp: blank_def erase_def)

lemma mread_erase_disjoint: "b + k \<le> a \<or> a + n \<le> b \<Longrightarrow> mread (erase m a n) b k = mread m b k"
  by (intro mread_cong) (auto simp: erase_def)

lemma erase_0 [simp]: "erase m a 0 = m"
  by (rule ext) (auto simp: erase_def)

lemma erase_append: "erase (erase m a n) (a + n) k = erase m a (n + k)"
  by (rule ext) (auto simp: erase_def)

lemma program_outside: "x < a \<or> a + length ds \<le> x \<Longrightarrow> program m a ds x = m x"
  by (auto simp: program_def)

lemma erase_outside: "x < a \<or> a + n \<le> x \<Longrightarrow> erase m a n x = m x"
  by (auto simp: erase_def)

text \<open>Verification after programming: what was programmed is read back exactly when no bit had
  to be set.\<close>

lemma program_byte_eq: "program m a [d] a = d \<longleftrightarrow> m a AND d = d"
  by (simp add: program_def)

text \<open>What a write leaves that was read back: the bytes themselves, whatever was there.\<close>

definition patch :: "cells \<Rightarrow> nat \<Rightarrow> bytes \<Rightarrow> cells" where
  "patch m a ds = (\<lambda>x. if a \<le> x \<and> x < a + length ds then ds ! (x - a) else m x)"

lemma patch_Nil [flash_simps]: "patch m a [] = m"
  by (rule ext) (auto simp: patch_def)

lemma patch_append [flash_simps]:
  "patch (patch m a d1) (a + length d1) d2 = patch m a (d1 @ d2)"
  by (rule ext) (auto simp: patch_def nth_append)

lemma mread_patch [flash_simps]: "mread (patch m a ds) a (length ds) = ds"
  by (rule nth_equalityI) (simp_all add: mread_nth patch_def)

lemma patch_outside: "x < a \<or> a + length ds \<le> x \<Longrightarrow> patch m a ds x = m x"
  by (auto simp: patch_def)

lemma mread_patch_disjoint:
  assumes "b + n \<le> a \<or> a + length ds \<le> b"
  shows "mread (patch m a ds) b n = mread m b n"
  using assms by (intro mread_cong) (auto simp: patch_def)

lemma program_blank: "blank m a (length ds) \<Longrightarrow> program m a ds = patch m a ds"
  by (rule ext) (auto simp: program_def patch_def blank_def)

lemma patchI:
  assumes "\<And>x. x < a \<or> a + length ds \<le> x \<Longrightarrow> m' x = m x" and "mread m' a (length ds) = ds"
  shows "m' = patch m a ds"
proof (rule ext)
  fix x
  show "m' x = patch m a ds x"
  proof (cases "a \<le> x \<and> x < a + length ds")
    case True
    then have "x - a < length ds" by auto
    then have "m' x = mread m' a (length ds) ! (x - a)" using True by (simp add: mread_nth)
    then show ?thesis using True assms(2) by (simp add: patch_def)
  qed (use assms(1) in \<open>auto simp: patch_def\<close>)
qed

lemma blank_split: "blank m a (k + n) \<longleftrightarrow> blank m a k \<and> blank m (a + k) n"
proof -
  have "{a ..< a + (k + n)} = {a ..< a + k} \<union> {a + k ..< a + k + n}" by auto
  then show ?thesis unfolding blank_def by (simp only: ball_Un)
qed

lemma blank_patch:
  assumes "b + n \<le> a \<or> a + length ds \<le> b"
  shows "blank (patch m a ds) b n = blank m b n"
  unfolding blank_def by (rule ball_cong [OF refl]) (use assms in \<open>auto simp: patch_def\<close>)

end
