(* ===== verification/SpiFlash.thy ===== *)
theory SpiFlash
  imports FlashMem
begin

text \<open>
  The serial NOR flash driver \<open>Platform/Drivers/spi_flash/spi_flash.c\<close>, built as the board builds
  it (\<open>SFLASH_SUPPORT_MACRONIX_PARTS\<close>, \<open>USE_MICO_SPI_FLASH\<close>). The SPI peripheral with the chip
  behind it is the parameter \<open>xfer\<close>: a transfer sends a command byte, parameter bytes and data
  bytes and samples \<open>n\<close> bytes; it returns the status of \<open>MicoSpiTransfer\<close>, the sampled bytes by
  their index, and the chip's next state. The locale \<open>spi_nor\<close> states what the JEDEC command set
  promises of a healthy chip. Operations return \<open>None\<close> where the busy poll never ends or where data
  outside the caller's buffer would be read.
\<close>

section \<open>Transfers\<close>

type_synonym 'c xfer = "u8 \<Rightarrow> bytes \<Rightarrow> bytes \<Rightarrow> nat \<Rightarrow> 'c \<Rightarrow> OSStatus \<times> (nat \<Rightarrow> u8) \<times> 'c"

datatype sflash_write_allowed_t = SFLASH_WRITE_NOT_ALLOWED | SFLASH_WRITE_ALLOWED

record sflash_handle_t =
  device_id :: u32
  write_allowed :: sflash_write_allowed_t

abbreviation SFLASH_WRITE_STATUS_REGISTER :: u8 where "SFLASH_WRITE_STATUS_REGISTER \<equiv> 0x01"
abbreviation SFLASH_WRITE :: u8 where "SFLASH_WRITE \<equiv> 0x02"
abbreviation SFLASH_READ :: u8 where "SFLASH_READ \<equiv> 0x03"
abbreviation SFLASH_READ_STATUS_REGISTER :: u8 where "SFLASH_READ_STATUS_REGISTER \<equiv> 0x05"
abbreviation SFLASH_WRITE_ENABLE :: u8 where "SFLASH_WRITE_ENABLE \<equiv> 0x06"
abbreviation SFLASH_SECTOR_ERASE :: u8 where "SFLASH_SECTOR_ERASE \<equiv> 0x20"
abbreviation SFLASH_BLOCK_ERASE_MID :: u8 where "SFLASH_BLOCK_ERASE_MID \<equiv> 0x52"
abbreviation SFLASH_BLOCK_ERASE_LARGE :: u8 where "SFLASH_BLOCK_ERASE_LARGE \<equiv> 0xD8"
abbreviation SFLASH_READ_JEDEC_ID :: u8 where "SFLASH_READ_JEDEC_ID \<equiv> 0x9F"
abbreviation SFLASH_CHIP_ERASE1 :: u8 where "SFLASH_CHIP_ERASE1 \<equiv> 0x60"
abbreviation SFLASH_CHIP_ERASE2 :: u8 where "SFLASH_CHIP_ERASE2 \<equiv> 0xC7"
abbreviation SFLASH_STATUS_REGISTER_BUSY :: u8 where "SFLASH_STATUS_REGISTER_BUSY \<equiv> 0x01"
abbreviation SFLASH_STATUS_REGISTER_WRITE_ENABLED :: u8 where
  "SFLASH_STATUS_REGISTER_WRITE_ENABLED \<equiv> 0x02"

text \<open>Any failure of \<open>MicoSpiTransfer\<close> becomes \<open>- 1\<close>.\<close>

definition sflash_platform_send_recv :: "'c xfer \<Rightarrow> 'c xfer" where
  "sflash_platform_send_recv xfer cmd ps out n c =
     (case xfer cmd ps out n c of (err, r, c') \<Rightarrow> (if err \<noteq> kNoErr then - 1 else 0, r, c'))"

definition is_write_command :: "u8 \<Rightarrow> bool" where
  "is_write_command cmd \<longleftrightarrow>
     cmd = SFLASH_WRITE \<or> cmd = SFLASH_CHIP_ERASE1 \<or> cmd = SFLASH_CHIP_ERASE2 \<or>
     cmd = SFLASH_SECTOR_ERASE \<or> cmd = SFLASH_BLOCK_ERASE_MID \<or> cmd = SFLASH_BLOCK_ERASE_LARGE"

text \<open>The \<open>do ... while\<close> at the end of \<open>generic_sflash_command\<close>. Its status read is the generic
  command itself, which for that command is one transfer.\<close>

partial_function (option) sflash_poll :: "'c xfer \<Rightarrow> 'c \<Rightarrow> (OSStatus \<times> 'c) option" where
  "sflash_poll xfer c =
     (case sflash_platform_send_recv xfer SFLASH_READ_STATUS_REGISTER [] [] 1 c of (status, r, c') \<Rightarrow>
        if status \<noteq> 0 then Some (status, c')
        else if r 0 AND SFLASH_STATUS_REGISTER_BUSY \<noteq> 0 then sflash_poll xfer c'
        else Some (0, c'))"

definition generic_sflash_command ::
  "'c xfer \<Rightarrow> u8 \<Rightarrow> bytes \<Rightarrow> bytes \<Rightarrow> nat \<Rightarrow> 'c \<Rightarrow> (OSStatus \<times> (nat \<Rightarrow> u8) \<times> 'c) option" where
  "generic_sflash_command xfer cmd ps out n c =
     (case sflash_platform_send_recv xfer cmd ps out n c of (status, r, c') \<Rightarrow>
        if status \<noteq> 0 then Some (status, r, c')
        else if is_write_command cmd
        then map_option (\<lambda>(status, c''). (status, r, c'')) (sflash_poll xfer c')
        else Some (0, r, c'))"

section \<open>Operations\<close>

definition sflash_command :: "'c xfer \<Rightarrow> u8 \<Rightarrow> bytes \<Rightarrow> bytes \<Rightarrow> 'c \<Rightarrow> (OSStatus \<times> 'c) option" where
  "sflash_command xfer cmd ps out c =
     map_option (\<lambda>(status, r, c'). (status, c')) (generic_sflash_command xfer cmd ps out 0 c)"

definition sflash_read_ID :: "'c xfer \<Rightarrow> 'c \<Rightarrow> (OSStatus \<times> (nat \<Rightarrow> u8) \<times> 'c) option" where
  "sflash_read_ID xfer c = generic_sflash_command xfer SFLASH_READ_JEDEC_ID [] [] 3 c"

definition sflash_read_status_register :: "'c xfer \<Rightarrow> 'c \<Rightarrow> (OSStatus \<times> (nat \<Rightarrow> u8) \<times> 'c) option" where
  "sflash_read_status_register xfer c =
     generic_sflash_command xfer SFLASH_READ_STATUS_REGISTER [] [] 1 c"

definition sflash_write_status_register :: "'c xfer \<Rightarrow> u8 \<Rightarrow> 'c \<Rightarrow> (OSStatus \<times> 'c) option" where
  "sflash_write_status_register xfer v c = sflash_command xfer SFLASH_WRITE_STATUS_REGISTER [] [v] c"

definition sflash_write_enable ::
  "'c xfer \<Rightarrow> sflash_handle_t \<Rightarrow> 'c \<Rightarrow> (OSStatus \<times> 'c) option" where
  "sflash_write_enable xfer h c =
     (if write_allowed h = SFLASH_WRITE_ALLOWED then do {
        (status, c1) \<leftarrow> sflash_command xfer SFLASH_WRITE_ENABLE [] [] c;
        if status \<noteq> 0 then Some (status, c1) else do {
          (status, r, c2) \<leftarrow> sflash_read_status_register xfer c1;
          if status \<noteq> 0 then Some (status, c2)
          else if r 0 \<noteq> SFLASH_STATUS_REGISTER_WRITE_ENABLED then do {
            (status, c3) \<leftarrow> sflash_write_status_register xfer 0 c2;
            if status \<noteq> 0 then Some (status, c3) else do {
              (status, c4) \<leftarrow> sflash_command xfer SFLASH_WRITE_ENABLE [] [] c3;
              if status \<noteq> 0 then Some (status, c4) else Some (0, c4)
            }
          }
          else Some (0, c2)
        }
      }
      else Some (- 1, c))"

definition sflash_chip_erase :: "'c xfer \<Rightarrow> sflash_handle_t \<Rightarrow> 'c \<Rightarrow> (OSStatus \<times> 'c) option" where
  "sflash_chip_erase xfer h c = do {
     (status, c1) \<leftarrow> sflash_write_enable xfer h c;
     if status \<noteq> 0 then Some (status, c1) else sflash_command xfer SFLASH_CHIP_ERASE1 [] [] c1
   }"

text \<open>The three address bytes of a command, most significant first.\<close>

definition device_address_array :: "u32 \<Rightarrow> bytes" where
  "device_address_array a =
     [ucast (drop_bit 16 (a AND 0x00FF0000)),
      ucast (drop_bit 8 (a AND 0x0000FF00)),
      ucast (drop_bit 0 (a AND 0x000000FF))]"

definition sflash_sector_erase ::
  "'c xfer \<Rightarrow> sflash_handle_t \<Rightarrow> u32 \<Rightarrow> 'c \<Rightarrow> (OSStatus \<times> 'c) option" where
  "sflash_sector_erase xfer h device_address c = do {
     (status, c1) \<leftarrow> sflash_write_enable xfer h c;
     if status \<noteq> 0 then Some (status, c1)
     else sflash_command xfer SFLASH_SECTOR_ERASE (device_address_array device_address) [] c1
   }"

text \<open>The read returns the sampled bytes; the caller's buffer receives the first \<open>n\<close> of them.\<close>

definition sflash_read :: "'c xfer \<Rightarrow> u32 \<Rightarrow> nat \<Rightarrow> 'c \<Rightarrow> (OSStatus \<times> bytes \<times> 'c) option" where
  "sflash_read xfer device_address n c =
     map_option (\<lambda>(status, r, c'). (status, map r [0..<n], c'))
       (generic_sflash_command xfer SFLASH_READ (device_address_array device_address) [] n c)"

definition sflash_get_size :: "sflash_handle_t \<Rightarrow> u32" where
  "sflash_get_size h =
     (if device_id h = 0xC22014 then 0x100000
      else if device_id h = 0xC22015 then 0x200000 else 0)"

text \<open>\<open>size\<close> is a C \<open>int\<close>. Every supported part programs up to 256 bytes per command, each after a
  write enable.\<close>

function sflash_write_page ::
  "'c xfer \<Rightarrow> sflash_handle_t \<Rightarrow> u32 \<Rightarrow> bytes \<Rightarrow> int \<Rightarrow> 'c \<Rightarrow> (OSStatus \<times> 'c) option" where
  "sflash_write_page xfer h device_address data_addr n c =
     (if write_allowed h \<noteq> SFLASH_WRITE_ALLOWED then Some (- 1, c)
      else if n > 0 then
        (let write_size = (if n > 256 then 256 else n) in
         if length data_addr < nat write_size then None
         else do {
           (status, c1) \<leftarrow> sflash_write_enable xfer h c;
           if status \<noteq> 0 then Some (status, c1) else do {
             (status, c2) \<leftarrow> sflash_command xfer SFLASH_WRITE (device_address_array device_address)
                               (take (nat write_size) data_addr) c1;
             if status \<noteq> 0 then Some (status, c2)
             else sflash_write_page xfer h (device_address + of_int write_size)
                    (drop (nat write_size) data_addr) (n - write_size) c2
           }
         })
      else Some (0, c))"
  by pat_completeness auto
termination
  by (relation "measure (\<lambda>(xfer, h, a, data_addr, n, c). nat n)") auto

declare sflash_write_page.simps [simp del]

text \<open>\<open>while (NumOfPage--)\<close>: whole pages, the status of the last one kept.\<close>

fun sflash_write_pages ::
  "'c xfer \<Rightarrow> sflash_handle_t \<Rightarrow> nat \<Rightarrow> u32 \<Rightarrow> bytes \<Rightarrow> OSStatus \<Rightarrow> 'c
     \<Rightarrow> (OSStatus \<times> u32 \<times> bytes \<times> 'c) option" where
  "sflash_write_pages xfer h 0 device_address data_addr status c =
     Some (status, device_address, data_addr, c)"
| "sflash_write_pages xfer h (Suc NumOfPage) device_address data_addr status c = do {
     (status, c1) \<leftarrow> sflash_write_page xfer h device_address data_addr 256 c;
     sflash_write_pages xfer h NumOfPage (device_address + 256) (drop 256 data_addr) status c1
   }"

definition sflash_write ::
  "'c xfer \<Rightarrow> sflash_handle_t \<Rightarrow> u32 \<Rightarrow> bytes \<Rightarrow> u32 \<Rightarrow> 'c \<Rightarrow> (OSStatus \<times> 'c) option" where
  "sflash_write xfer h device_address data_addr n c =
     (let Addr = (ucast (device_address mod 0x100) :: u8);
          count = (ucast (0x100 - (ucast Addr :: u32)) :: u8);
          NumOfPage = (ucast (n div 0x100) :: u8);
          NumOfSingle = (ucast (n mod 0x100) :: u8) in
      if Addr = 0 then
        (if NumOfPage = 0 then sflash_write_page xfer h device_address data_addr (sint n) c
         else do {
           (status, a1, d1, c1) \<leftarrow> sflash_write_pages xfer h (unat NumOfPage) device_address data_addr 0 c;
           sflash_write_page xfer h a1 d1 (uint NumOfSingle) c1
         })
      else
        (if NumOfPage = 0 then
           (if NumOfSingle > count then
              (let temp = NumOfSingle - count in do {
                 (status, c1) \<leftarrow> sflash_write_page xfer h device_address data_addr (uint count) c;
                 sflash_write_page xfer h (device_address + ucast count)
                   (drop (unat count) data_addr) (uint temp) c1
               })
            else sflash_write_page xfer h device_address data_addr (sint n) c)
         else
           (let n' = n - ucast count;
                NumOfPage = (ucast (n' div 0x100) :: u8);
                NumOfSingle = (ucast (n' mod 0x100) :: u8) in do {
              (status, c1) \<leftarrow> sflash_write_page xfer h device_address data_addr (uint count) c;
              (status, a2, d2, c2) \<leftarrow> sflash_write_pages xfer h (unat NumOfPage)
                 (device_address + ucast count) (drop (unat count) data_addr) status c1;
              if NumOfSingle \<noteq> 0
              then sflash_write_page xfer h a2 d2 (uint NumOfSingle) c2
              else Some (status, c2)
            })))"

text \<open>\<open>sflash_platform_init\<close> succeeds exactly when \<open>MicoSpiInitialize\<close> (\<open>spi_init\<close>) does; the
  handle then carries the JEDEC id the chip answered.\<close>

definition init_sflash ::
  "('c \<Rightarrow> OSStatus \<times> 'c) \<Rightarrow> 'c xfer \<Rightarrow> sflash_write_allowed_t \<Rightarrow> sflash_handle_t \<Rightarrow> 'c
     \<Rightarrow> (OSStatus \<times> sflash_handle_t \<times> 'c) option" where
  "init_sflash spi_init xfer write_allowed_in h c =
     (case spi_init c of (err, c1) \<Rightarrow>
        if err \<noteq> kNoErr then Some (- 1, h, c1)
        else let h1 = \<lparr>device_id = 0, write_allowed = write_allowed_in\<rparr> in do {
          (status, r, c2) \<leftarrow> sflash_read_ID xfer c1;
          if status \<noteq> 0 then Some (status, h1, c2)
          else let h2 = h1\<lparr>device_id := push_bit 16 (ucast (r 0)) + push_bit 8 (ucast (r 1)) +
                                         push_bit 0 (ucast (r 2))\<rparr> in
            if write_allowed_in = SFLASH_WRITE_ALLOWED then do {
              (status, c3) \<leftarrow> sflash_write_enable xfer h2 c2;
              if status \<noteq> 0 then Some (status, h2, c3) else Some (0, h2, c3)
            }
            else Some (0, h2, c2)
        })"

section \<open>Address bytes\<close>

definition addr24 :: "bytes \<Rightarrow> nat" where
  "addr24 ps = unat (ps ! 0) * 65536 + unat (ps ! 1) * 256 + unat (ps ! 2)"

lemma unat_ucast8: "unat (ucast (w :: u32) :: u8) = unat w mod 256"
  by (simp add: unsigned_ucast_eq take_bit_eq_mod)

lemma masked_byte:
  "(ucast (drop_bit 16 (a AND 0x00FF0000)) :: u8) = ucast (drop_bit 16 (a :: u32))"
  "(ucast (drop_bit 8 (a AND 0x0000FF00)) :: u8) = ucast (drop_bit 8 (a :: u32))"
  "(ucast (drop_bit 0 (a AND 0x000000FF)) :: u8) = ucast (a :: u32)"
proof -
  have m: "(0x00FF0000 :: u32) = push_bit 16 (mask 8)" "(0x0000FF00 :: u32) = push_bit 8 (mask 8)"
    "(0x000000FF :: u32) = mask 8" by (simp_all add: mask_eq_exp_minus_1 push_bit_eq_mult)
  show "(ucast (drop_bit 16 (a AND 0x00FF0000)) :: u8) = ucast (drop_bit 16 (a :: u32))"
    unfolding m by (rule bit_word_eqI) (auto simp: bit_simps)
  show "(ucast (drop_bit 8 (a AND 0x0000FF00)) :: u8) = ucast (drop_bit 8 (a :: u32))"
    unfolding m by (rule bit_word_eqI) (auto simp: bit_simps)
  show "(ucast (drop_bit 0 (a AND 0x000000FF)) :: u8) = ucast (a :: u32)"
    unfolding m by (rule bit_word_eqI) (auto simp: bit_simps)
qed

lemma addr24_array: "unat a < 2 ^ 24 \<Longrightarrow> addr24 (device_address_array a) = unat a"
proof -
  assume a: "unat a < 2 ^ 24"
  have n: "[x, y, z] ! 0 = x" "[x, y, z] ! 1 = y" "[x, y, z] ! 2 = z" for x y z :: u8 by simp_all
  have d: "unat (drop_bit 16 a) = unat a div 65536" "unat (drop_bit 8 a) = unat a div 256"
    by (simp_all only: unat_drop_bit_eq) (simp_all add: drop_bit_eq_div)
  have "addr24 (device_address_array a)
      = (unat a div 65536 mod 256) * 65536 + (unat a div 256 mod 256) * 256 + unat a mod 256"
    unfolding addr24_def device_address_array_def masked_byte n unat_ucast8 d ..
  also have "unat a div 65536 mod 256 = unat a div 65536"
    using a by (intro mod_less) (simp add: div_less_iff_less_mult)
  also have "unat a div 65536 * 65536 + (unat a div 256 mod 256) * 256 + unat a mod 256 = unat a"
    using div_mult_mod_eq [of "unat a" 256] div_mult_mod_eq [of "unat a div 256" 256]
      div_mult2_eq [of "unat a" 256 256, simplified] by linarith
  finally show ?thesis .
qed

lemma length_device_address_array [simp]: "length (device_address_array a) = 3"
  by (simp add: device_address_array_def)

section \<open>What the driver relies on\<close>

text \<open>
  A healthy idle chip (\<open>pending = 0\<close>) executes commands as the JEDEC command set documents them;
  after a program or erase it reports busy in a finite number \<open>pending\<close> of status reads, and then
  in no more. \<open>wel\<close> is the write-enable latch, \<open>prot\<close> the protection bits. A page program wraps
  inside its 256-byte page; the law here is about data that stays inside the page.
\<close>

locale spi_nor =
  fixes xfer :: "'c xfer"
    and cells_of :: "'c \<Rightarrow> cells"
    and wel :: "'c \<Rightarrow> bool"
    and prot :: "'c \<Rightarrow> u8"
    and pending :: "'c \<Rightarrow> nat"
    and capacity :: nat
  assumes capacity: "capacity \<le> 2 ^ 24"
    and wren: "pending c = 0 \<Longrightarrow> xfer SFLASH_WRITE_ENABLE [] [] 0 c = (err, r, c') \<Longrightarrow>
      err = kNoErr \<and> cells_of c' = cells_of c \<and> wel c' \<and> prot c' = prot c \<and> pending c' = 0"
    and rdsr: "xfer SFLASH_READ_STATUS_REGISTER [] [] 1 c = (err, r, c') \<Longrightarrow>
      err = kNoErr \<and> cells_of c' = cells_of c \<and> wel c' = wel c \<and> prot c' = prot c \<and>
      pending c' = pending c - 1 \<and>
      (r 0 AND SFLASH_STATUS_REGISTER_BUSY \<noteq> 0 \<longleftrightarrow> 0 < pending c) \<and>
      (pending c = 0 \<longrightarrow> prot c = 0 \<longrightarrow> wel c \<longrightarrow> r 0 = SFLASH_STATUS_REGISTER_WRITE_ENABLED)"
    and page_program: "pending c = 0 \<Longrightarrow> prot c = 0 \<Longrightarrow> wel c \<Longrightarrow> length ps = 3 \<Longrightarrow>
      addr24 ps + length ds \<le> capacity \<Longrightarrow> 0 < length ds \<Longrightarrow>
      addr24 ps mod 256 + length ds \<le> 256 \<Longrightarrow>
      xfer SFLASH_WRITE ps ds 0 c = (err, r, c') \<Longrightarrow>
      err = kNoErr \<and> cells_of c' = program (cells_of c) (addr24 ps) ds \<and> prot c' = 0"
    and sector_erase: "pending c = 0 \<Longrightarrow> prot c = 0 \<Longrightarrow> wel c \<Longrightarrow> length ps = 3 \<Longrightarrow>
      addr24 ps < capacity \<Longrightarrow>
      xfer SFLASH_SECTOR_ERASE ps [] 0 c = (err, r, c') \<Longrightarrow>
      err = kNoErr \<and> cells_of c' = erase (cells_of c) (addr24 ps div 4096 * 4096) 4096 \<and>
      prot c' = 0"
    and read_data: "pending c = 0 \<Longrightarrow> length ps = 3 \<Longrightarrow> addr24 ps + n \<le> capacity \<Longrightarrow>
      xfer SFLASH_READ ps [] n c = (err, r, c') \<Longrightarrow>
      err = kNoErr \<and> (\<forall>i < n. r i = cells_of c (addr24 ps + i)) \<and> cells_of c' = cells_of c \<and>
      prot c' = prot c \<and> pending c' = 0"
begin

definition ready :: "'c \<Rightarrow> bool" where
  "ready c \<longleftrightarrow> pending c = 0 \<and> prot c = 0"

lemma poll_done:
  "prot c = 0 \<Longrightarrow> \<exists>c'. sflash_poll xfer c = Some (0, c') \<and> cells_of c' = cells_of c \<and> ready c'"
proof (induction "pending c" arbitrary: c rule: less_induct)
  case less
  obtain err r c1 where x: "xfer SFLASH_READ_STATUS_REGISTER [] [] 1 c = (err, r, c1)"
    by (rule prod_cases3)
  note s = rdsr [OF x]
  have unf: "sflash_poll xfer c =
     (if r 0 AND SFLASH_STATUS_REGISTER_BUSY \<noteq> 0 then sflash_poll xfer c1 else Some (0, c1))"
    by (subst sflash_poll.simps) (use s x in \<open>simp add: sflash_platform_send_recv_def\<close>)
  show ?case
  proof (cases "0 < pending c")
    case True
    then have "\<exists>c'. sflash_poll xfer c1 = Some (0, c') \<and> cells_of c' = cells_of c1 \<and> ready c'"
      using s less.prems by (intro less.hyps) auto
    then show ?thesis using s unf True by simp
  next
    case False
    then show ?thesis using s unf less.prems by (simp add: ready_def)
  qed
qed

text \<open>A write command is finished when the driver returns.\<close>

lemma write_command_done:
  assumes x: "xfer cmd ps ds 0 c = (err, r, c')" and err: "err = kNoErr" and p: "prot c' = 0"
    and cmd: "is_write_command cmd"
  shows "\<exists>c''. sflash_command xfer cmd ps ds c = Some (0, c'') \<and> cells_of c'' = cells_of c' \<and> ready c''"
  using poll_done [OF p] x err cmd
  by (auto simp: sflash_command_def generic_sflash_command_def sflash_platform_send_recv_def)

lemma write_enable_done:
  assumes c: "ready c" and h: "write_allowed h = SFLASH_WRITE_ALLOWED"
  shows "\<exists>c'. sflash_write_enable xfer h c = Some (0, c') \<and> cells_of c' = cells_of c \<and>
    ready c' \<and> wel c'"
proof -
  obtain e1 r1 c1 where x1: "xfer SFLASH_WRITE_ENABLE [] [] 0 c = (e1, r1, c1)"
    by (rule prod_cases3)
  have s1: "e1 = kNoErr" "cells_of c1 = cells_of c" "wel c1" "prot c1 = 0" "pending c1 = 0"
    using wren [OF _ x1] c by (auto simp: ready_def)
  obtain e2 r2 c2 where x2: "xfer SFLASH_READ_STATUS_REGISTER [] [] 1 c1 = (e2, r2, c2)"
    by (rule prod_cases3)
  have s2: "e2 = kNoErr" "cells_of c2 = cells_of c1" "wel c2" "prot c2 = 0" "pending c2 = 0"
    "r2 0 = SFLASH_STATUS_REGISTER_WRITE_ENABLED"
    using rdsr [OF x2] s1 by auto
  have w1: "sflash_command xfer SFLASH_WRITE_ENABLE [] [] c = Some (0, c1)"
    using x1 s1(1) by (simp add: sflash_command_def generic_sflash_command_def
        sflash_platform_send_recv_def is_write_command_def)
  have w2: "sflash_read_status_register xfer c1 = Some (0, r2, c2)"
    using x2 s2(1) by (simp add: sflash_read_status_register_def generic_sflash_command_def
        sflash_platform_send_recv_def is_write_command_def)
  show ?thesis
    using s1 s2 h by (simp add: sflash_write_enable_def w1 w2 ready_def)
qed

lemma program_done:
  assumes c: "ready c" "wel c" and a: "unat a + length ds \<le> capacity" "0 < length ds"
    "unat a mod 256 + length ds \<le> 256"
  shows "\<exists>c'. sflash_command xfer SFLASH_WRITE (device_address_array a) ds c = Some (0, c') \<and>
    cells_of c' = program (cells_of c) (unat a) ds \<and> ready c'"
proof -
  have "unat a < capacity" using a by linarith
  with capacity have a24: "addr24 (device_address_array a) = unat a"
    by (intro addr24_array) simp
  obtain e r c1 where x: "xfer SFLASH_WRITE (device_address_array a) ds 0 c = (e, r, c1)"
    by (rule prod_cases3)
  have "e = kNoErr \<and> cells_of c1 = program (cells_of c) (unat a) ds \<and> prot c1 = 0"
    using page_program [OF _ _ _ _ _ _ _ x] c a by (simp add: a24 ready_def)
  with write_command_done [OF x] show ?thesis by (auto simp: is_write_command_def)
qed

lemma sector_erase_done:
  assumes c: "ready c" and h: "write_allowed h = SFLASH_WRITE_ALLOWED" and a: "unat a < capacity"
  shows "\<exists>c'. sflash_sector_erase xfer h a c = Some (0, c') \<and>
    cells_of c' = erase (cells_of c) (unat a div 4096 * 4096) 4096 \<and> ready c'"
proof -
  obtain c1 where w: "sflash_write_enable xfer h c = Some (0, c1)" "cells_of c1 = cells_of c"
    "ready c1" "wel c1" using write_enable_done [OF c h] by blast
  have "unat a < capacity" using a by linarith
  with capacity have a24: "addr24 (device_address_array a) = unat a"
    by (intro addr24_array) simp
  obtain e r c2 where x: "xfer SFLASH_SECTOR_ERASE (device_address_array a) [] 0 c1 = (e, r, c2)"
    by (rule prod_cases3)
  have "e = kNoErr \<and> cells_of c2 = erase (cells_of c1) (unat a div 4096 * 4096) 4096 \<and> prot c2 = 0"
    using sector_erase [OF _ _ _ _ _ x] w a by (simp add: a24 ready_def)
  with write_command_done [OF x] w show ?thesis
    by (auto simp: is_write_command_def sflash_sector_erase_def)
qed

lemma read_done:
  assumes c: "ready c" and a: "unat a + n \<le> capacity" "0 < n"
  shows "\<exists>c'. sflash_read xfer a n c = Some (0, mread (cells_of c) (unat a) n, c') \<and>
    cells_of c' = cells_of c \<and> ready c'"
proof -
  have "unat a < capacity" using a by linarith
  with capacity have a24: "addr24 (device_address_array a) = unat a"
    by (intro addr24_array) simp
  obtain e r c1 where x: "xfer SFLASH_READ (device_address_array a) [] n c = (e, r, c1)"
    by (rule prod_cases3)
  have s: "e = kNoErr \<and> (\<forall>i < n. r i = cells_of c (unat a + i)) \<and> cells_of c1 = cells_of c \<and>
      prot c1 = 0 \<and> pending c1 = 0"
    using read_data [OF _ _ _ x] c a by (simp add: a24 ready_def)
  have "map r [0..<n] = mread (cells_of c) (unat a) n"
    using s by (intro nth_equalityI) (simp_all add: mread_nth)
  with s x show ?thesis
    by (simp add: sflash_read_def generic_sflash_command_def sflash_platform_send_recv_def
        is_write_command_def ready_def)
qed

end

section \<open>Page arithmetic\<close>

lemma unat_mod_u32: "unat ((n :: u32) mod 0x100) = unat n mod 256"
  by (simp add: unat_mod)

lemma unat_div_u32: "unat ((n :: u32) div 0x100) = unat n div 256"
  by (simp add: unat_div)

lemma page_offset: "unat (ucast ((n :: u32) mod 0x100) :: u8) = unat n mod 256"
  by (simp only: unat_ucast8 unat_mod_u32 mod_mod_trivial)

lemma page_number:
  assumes "unat n < 65536"
  shows "unat (ucast ((n :: u32) div 0x100) :: u8) = unat n div 256"
proof -
  have "unat n div 256 < 256" using assms by (simp add: div_less_iff_less_mult)
  then show ?thesis by (simp only: unat_ucast8 unat_div_u32 mod_less)
qed

lemma unat_ucast32: "unat (ucast (w :: u8) :: u32) = unat w"
proof -
  have "unat w < 2 ^ LENGTH(8)" by (rule unsigned_less)
  then show ?thesis by (simp add: unsigned_ucast_eq take_bit_nat_eq_self)
qed

lemma page_room:
  assumes "(w :: u8) \<noteq> 0"
  shows "unat (ucast (0x100 - (ucast w :: u32)) :: u8) = 256 - unat w"
proof -
  have w: "0 < unat w" "unat w < 256"
    using assms unsigned_less [where w = w and 'a = nat] by (auto simp: unat_gt_0)
  have le: "(ucast w :: u32) \<le> 0x100"
    using w by (simp add: word_le_nat_alt unat_ucast32)
  have "unat (0x100 - (ucast w :: u32)) = 256 - unat w"
    by (simp add: unat_sub [OF le] unat_ucast32)
  then show ?thesis using w by (simp only: unat_ucast8) simp
qed

lemma sint_small_u32: "unat (n :: u32) < 2 ^ 31 \<Longrightarrow> sint n = int (unat n)"
proof -
  assume n: "unat n < 2 ^ 31"
  have "int (unat n) < int (2 ^ 31)" using n by (simp only: of_nat_less_iff)
  then have "uint n < 2147483648" by simp
  then have "sint n = uint n"
    using order_trans [of "- 2147483648" 0 "uint n"] unfolding sint_uint
    by (simp add: signed_take_bit_int_eq_self_iff)
  from this uint_nat show ?thesis by (rule trans)
qed

lemma round_up:
  assumes "0 < x mod 256"
  shows "x + (256 - x mod 256) = (x div 256 + 1) * (256 :: nat)"
proof -
  define q r where "q = x div 256" and "r = x mod 256"
  have "x = q * 256 + r" "r < 256" by (simp_all add: q_def r_def)
  then show ?thesis by (simp flip: q_def r_def)
qed

section \<open>Writes across pages\<close>

context spi_nor begin

lemma write_page_done:
  assumes c: "ready c" and h: "write_allowed h = SFLASH_WRITE_ALLOWED"
    and d: "k \<le> length data" and a: "unat a + k \<le> capacity" "unat a mod 256 + k \<le> 256"
  shows "\<exists>c'. sflash_write_page xfer h a data (int k) c = Some (0, c') \<and>
    cells_of c' = program (cells_of c) (unat a) (take k data) \<and> ready c'"
proof (cases "k = 0")
  case True
  then show ?thesis using c h by (simp add: flash_simps sflash_write_page.simps)
next
  case False
  obtain c1 where w: "sflash_write_enable xfer h c = Some (0, c1)" "cells_of c1 = cells_of c"
    "ready c1" "wel c1" using write_enable_done [OF c h] by blast
  obtain c2 where p: "sflash_command xfer SFLASH_WRITE (device_address_array a) (take k data) c1 =
      Some (0, c2)" "cells_of c2 = program (cells_of c1) (unat a) (take k data)" "ready c2"
    using program_done [of c1 a "take k data"] w a d False by (auto simp: min_absorb2)
  have kk: "\<not> 256 < k" using a by simp
  have "sflash_write_page xfer h a data (int k) c = Some (0, c2)"
    by (subst sflash_write_page.simps)
       (use w p d h False in \<open>simp add: kk\<close>, simp add: sflash_write_page.simps h)
  then show ?thesis using p w by simp
qed

lemma write_pages_done:
  assumes "ready c" and h: "write_allowed h = SFLASH_WRITE_ALLOWED"
    and "k * 256 \<le> length data" and "unat a + k * 256 \<le> capacity" and "unat a mod 256 = 0"
  shows "\<exists>c'. sflash_write_pages xfer h k a data st c =
      Some (if k = 0 then st else 0, a + of_nat (k * 256), drop (k * 256) data, c') \<and>
    cells_of c' = program (cells_of c) (unat a) (take (k * 256) data) \<and> ready c'"
  using assms(1,3-)
proof (induction k arbitrary: a data st c)
  case 0
  then show ?case by (simp add: flash_simps)
next
  case (Suc k)
  obtain c1 where p: "sflash_write_page xfer h a data 256 c = Some (0, c1)"
    "cells_of c1 = program (cells_of c) (unat a) (take 256 data)" "ready c1"
    using write_page_done [of c h 256 data a] Suc.prems h by auto
  have cap: "unat a + 256 + k * 256 \<le> capacity" using Suc.prems by simp
  have "unat a + 256 < 2 ^ 32" using cap capacity by simp
  then have a1: "unat (a + 256) = unat a + 256" by (simp add: unat_word_ariths)
  have ld: "k * 256 \<le> length (drop 256 data)" using Suc.prems(2) by auto
  have al: "unat (a + 256) mod 256 = 0" using Suc.prems(4) by (simp add: a1)
  obtain c2 where q: "sflash_write_pages xfer h k (a + 256) (drop 256 data) 0 c1 =
      Some (if k = 0 then 0 else 0, a + 256 + of_nat (k * 256), drop (k * 256) (drop 256 data), c2)"
    "cells_of c2 = program (cells_of c1) (unat (a + 256)) (take (k * 256) (drop 256 data))" "ready c2"
    using Suc.IH [OF p(3) ld _ al, of 0] cap unfolding a1 by auto
  have t: "take (Suc k * 256) data = take 256 data @ take (k * 256) (drop 256 data)"
    by (simp add: take_add)
  have l: "unat a + 256 = unat a + length (take 256 data)" using Suc.prems by simp
  have "cells_of c2 = program (cells_of c) (unat a) (take (Suc k * 256) data)"
    unfolding t q(2) p(2) a1 by (subst l) (rule program_append)
  then show ?case using p q by (simp add: algebra_simps)
qed


text \<open>The loop of a single call of \<open>sflash_write_page\<close> over more than a page.\<close>

lemma long_page_done:
  assumes "ready c" and h: "write_allowed h = SFLASH_WRITE_ALLOWED"
    and "k \<le> length data" and "unat a + k \<le> capacity" and "unat a mod 256 = 0"
  shows "\<exists>c'. sflash_write_page xfer h a data (int k) c = Some (0, c') \<and>
    cells_of c' = program (cells_of c) (unat a) (take k data) \<and> ready c'"
  using assms(1,3-)
proof (induction k arbitrary: a data c rule: less_induct)
  case (less k)
  show ?case
  proof (cases "k \<le> 256")
    case True
    then show ?thesis using less.prems by (intro write_page_done h) auto
  next
    case False
    obtain c1 where w: "sflash_write_enable xfer h c = Some (0, c1)" "cells_of c1 = cells_of c"
      "ready c1" "wel c1" using write_enable_done [OF less.prems(1) h] by blast
    obtain c2 where p: "sflash_command xfer SFLASH_WRITE (device_address_array a) (take 256 data) c1 =
        Some (0, c2)" "cells_of c2 = program (cells_of c1) (unat a) (take 256 data)" "ready c2"
      using program_done [of c1 a "take 256 data"] w less.prems False by (auto simp: min_absorb2)
    have cap: "unat a + 256 + (k - 256) \<le> capacity" using less.prems(3) False by simp
    then have "unat a + 256 < 2 ^ 32" using capacity by simp
    then have a1: "unat (a + 256) = unat a + 256" by (simp add: unat_word_ariths)
    have ld: "k - 256 \<le> length (drop 256 data)" using less.prems(2) by auto
    have al: "unat (a + 256) mod 256 = 0" using less.prems(4) by (simp add: a1)
    obtain c3 where q: "sflash_write_page xfer h (a + 256) (drop 256 data) (int (k - 256)) c2 = Some (0, c3)"
      "cells_of c3 = program (cells_of c2) (unat (a + 256)) (take (k - 256) (drop 256 data))" "ready c3"
      using less.IH [of "k - 256", OF _ p(3) ld _ al] cap False unfolding a1 by auto
    have t: "take k data = take 256 data @ take (k - 256) (drop 256 data)"
      using False by (simp flip: take_add)
    have l: "unat a + 256 = unat a + length (take 256 data)" using less.prems(2) False by simp
    have "cells_of c3 = program (cells_of c) (unat a) (take k data)"
      unfolding t q(2) p(2) a1 w(2) by (subst l) (rule program_append)
    moreover have "sflash_write_page xfer h a data (int k) c = Some (0, c3)"
      by (subst sflash_write_page.simps)
         (use w(1) p(1) q(1) less.prems(2) h False in \<open>simp add: of_nat_diff\<close>)
    ultimately show ?thesis using q(3) by blast
  qed
qed

text \<open>Whole pages followed by the bytes of the last one, from a page boundary.\<close>

lemma pages_and_tail_done:
  assumes c: "ready c" and h: "write_allowed h = SFLASH_WRITE_ALLOWED"
    and d: "N \<le> length data" and a: "unat a + N \<le> capacity" and am: "unat a mod 256 = 0"
  shows "\<exists>st' a1 d1 c1 c'.
    sflash_write_pages xfer h (N div 256) a data st c = Some (st', a1, d1, c1) \<and>
    (st = 0 \<longrightarrow> st' = 0) \<and>
    sflash_write_page xfer h a1 d1 (int (N mod 256)) c1 = Some (0, c') \<and>
    cells_of c' = program (cells_of c) (unat a) (take N data) \<and> ready c'"
proof -
  define k where "k = N div 256"
  have k: "N = k * 256 + N mod 256" by (simp add: k_def)
  have k1: "k * 256 \<le> length data" "unat a + k * 256 \<le> capacity" using k d a by linarith+
  obtain c1 where p: "sflash_write_pages xfer h k a data st c =
      Some (if k = 0 then st else 0, a + of_nat (k * 256), drop (k * 256) data, c1)"
    "cells_of c1 = program (cells_of c) (unat a) (take (k * 256) data)" "ready c1"
    using write_pages_done [OF c h k1 am, of st] by blast
  have "unat a + k * 256 < 2 ^ 32" using k1 capacity by simp
  then have a1: "unat (a + of_nat (k * 256)) = unat a + k * 256"
    by (simp add: unat_word_ariths unat_of_nat)
  have l2: "N mod 256 \<le> length (drop (k * 256) data)" using d k by (simp; linarith)
  have "\<exists>c'. sflash_write_page xfer h (a + of_nat (k * 256)) (drop (k * 256) data)
        (int (N mod 256)) c1 = Some (0, c') \<and>
      cells_of c' = program (cells_of c1) (unat (a + of_nat (k * 256)))
        (take (N mod 256) (drop (k * 256) data)) \<and> ready c'"
  proof (rule write_page_done [OF p(3) h l2])
    show "unat (a + of_nat (k * 256)) + N mod 256 \<le> capacity"
      unfolding a1 using a k by linarith
    show "unat (a + of_nat (k * 256)) mod 256 + N mod 256 \<le> 256"
      unfolding a1 using am by (simp add: mod_add_eq [symmetric] less_imp_le)
  qed
  then obtain c2 where q: "sflash_write_page xfer h (a + of_nat (k * 256)) (drop (k * 256) data)
        (int (N mod 256)) c1 = Some (0, c2)"
      "cells_of c2 = program (cells_of c1) (unat a + k * 256)
        (take (N mod 256) (drop (k * 256) data))" "ready c2" unfolding a1 by blast
  have t: "take N data = take (k * 256) data @ take (N mod 256) (drop (k * 256) data)"
    by (subst k) (rule take_add)
  have "cells_of c2 = program (cells_of c) (unat a) (take N data)"
    unfolding q(2) p(2) t using k1(1) by (metis program_append length_take min_absorb2)
  with p q show ?thesis by (auto simp: k_def)
qed

text \<open>The heart of the driver: any write shorter than 64 KiB is the linear program of its bytes,
  page boundaries notwithstanding.\<close>

lemma aligned_write_done:
  assumes c: "ready c" and h: "write_allowed h = SFLASH_WRITE_ALLOWED"
    and n: "unat n < 65536" and d: "unat n \<le> length data" and a: "unat a + unat n \<le> capacity"
    and am: "unat a mod 256 = 0"
  shows "\<exists>c'. sflash_write xfer h a data n c = Some (0, c') \<and>
    cells_of c' = program (cells_of c) (unat a) (take (unat n) data) \<and> ready c'"
proof -
  have A0: "(ucast (a mod 0x100) :: u8) = 0" using am page_offset [of a] by (metis unat_eq_zero)
  have pg: "unat (ucast (n div 0x100) :: u8) = unat n div 256" using n by (rule page_number)
  have sg: "uint (ucast (n mod 0x100) :: u8) = int (unat n mod 256)"
    by (metis uint_nat page_offset)
  have sn: "sint n = int (unat n)" using n by (intro sint_small_u32) simp
  show ?thesis
  proof (cases "unat n div 256 = 0")
    case True
    have "\<exists>c'. sflash_write_page xfer h a data (int (unat n)) c = Some (0, c') \<and>
        cells_of c' = program (cells_of c) (unat a) (take (unat n) data) \<and> ready c'"
      using True d a am by (intro write_page_done [OF c h]) auto
    moreover have "(ucast (n div 0x100) :: u8) = 0" using True pg by (metis unat_eq_zero)
    ultimately show ?thesis by (simp only: sflash_write_def Let_def A0 sn if_True simp_thms)
  next
    case False
    have "(ucast (n div 0x100) :: u8) \<noteq> 0" using False pg by (metis unsigned_0)
    then show ?thesis
      using pages_and_tail_done [OF c h d a am, of 0]
      by (auto simp: sflash_write_def Let_def A0 pg sg)
  qed
qed

lemma unaligned_write_done:
  assumes c: "ready c" and h: "write_allowed h = SFLASH_WRITE_ALLOWED"
    and n: "unat n < 65536" and d: "unat n \<le> length data" and a: "unat a + unat n \<le> capacity"
    and am: "unat a mod 256 \<noteq> 0"
  shows "\<exists>c'. sflash_write xfer h a data n c = Some (0, c') \<and>
    cells_of c' = program (cells_of c) (unat a) (take (unat n) data) \<and> ready c'"
proof -
  define off where "off = unat a mod 256"
  define A where "A = (ucast (a mod 0x100) :: u8)"
  define cnt where "cnt = (ucast (0x100 - (ucast A :: u32)) :: u8)"
  have uA: "unat A = off" by (simp only: page_offset off_def A_def)
  have A0: "A \<noteq> 0" using am uA unfolding off_def by (metis unsigned_0)
  have uc: "unat cnt = 256 - off" unfolding cnt_def uA [symmetric] by (rule page_room [OF A0])
  have off: "0 < off" "off < 256" using am by (simp_all add: off_def)
  have pg: "unat (ucast (n div 0x100) :: u8) = unat n div 256" using n by (rule page_number)
  have sg: "unat (ucast (n mod 0x100) :: u8) = unat n mod 256" by (rule page_offset)
  have sn: "sint n = int (unat n)" using n by (intro sint_small_u32) simp
  have "unat a + unat cnt = (unat a div 256 + 1) * 256"
    using am unfolding uc off_def by (intro round_up) simp
  then have am2: "(unat a + unat cnt) mod 256 = 0" by simp
  have gt: "unat (ucast (n mod 0x100) :: u8) > unat cnt \<longleftrightarrow> unat n mod 256 > unat cnt"
    by (simp only: sg)
  show ?thesis
  proof (cases "unat n \<le> unat cnt")
    case True
    then have N: "unat n < 256" using uc off by linarith
    have p0: "(ucast (n div 0x100) :: u8) = 0" using N pg by (metis div_less unat_eq_zero)
    have ng: "\<not> ucast (n mod 0x100) > cnt"
      using True N unfolding word_less_nat_alt by (simp only: sg mod_less not_less)
    have "\<exists>c'. sflash_write_page xfer h a data (int (unat n)) c = Some (0, c') \<and>
        cells_of c' = program (cells_of c) (unat a) (take (unat n) data) \<and> ready c'"
      using True d a off uc unfolding off_def by (intro write_page_done [OF c h]) auto
    then show ?thesis
      using A0 p0 ng sn by (simp only: sflash_write_def Let_def if_True if_False
          flip: A_def cnt_def) simp
  next
    case False
    have small: "unat a + unat cnt \<le> capacity" "unat cnt \<le> length data" using False a d by linarith+
    then have "unat a + unat cnt < 2 ^ 32" using capacity by simp
    then have a1: "unat (a + ucast cnt) = unat a + unat cnt"
      by (simp add: unat_word_ariths unat_ucast32)
    obtain c1 where p: "sflash_write_page xfer h a data (uint cnt) c = Some (0, c1)"
      "cells_of c1 = program (cells_of c) (unat a) (take (unat cnt) data)" "ready c1"
      using write_page_done [OF c h small(2) small(1)] off uc unfolding off_def
      by (auto simp: uint_nat)
    define N' where "N' = unat n - unat cnt"
    have d': "N' \<le> length (drop (unat cnt) data)" using d by (simp add: N'_def)
    have a': "unat (a + ucast cnt) + N' \<le> capacity" using a False unfolding a1 N'_def by linarith
    have t: "take (unat n) data = take (unat cnt) data @ take N' (drop (unat cnt) data)"
      using False take_add [of "unat cnt" N' data] by (simp add: N'_def)
    have cells: "program (cells_of c1) (unat (a + ucast cnt)) (take N' (drop (unat cnt) data)) =
        program (cells_of c) (unat a) (take (unat n) data)"
      unfolding p(2) t a1 using small(2) by (metis program_append length_take min_absorb2)
    show ?thesis
    proof (cases "unat n div 256 = 0")
      case True
      then have N: "unat n < 256" by (simp add: div_eq_0_iff)
      have p0: "(ucast (n div 0x100) :: u8) = 0" using True pg by (metis unat_eq_zero)
      have g: "ucast (n mod 0x100) > cnt"
        using False N unfolding word_less_nat_alt by (simp only: sg mod_less not_le)
      have tmp: "uint (ucast (n mod 0x100) - cnt) = int N'"
        unfolding uint_nat using g N
        by (subst unat_sub) (simp_all only: sg mod_less N'_def less_imp_le)
      have "\<exists>c'. sflash_write_page xfer h (a + ucast cnt) (drop (unat cnt) data) (int N') c1 =
            Some (0, c') \<and>
          cells_of c' = program (cells_of c1) (unat (a + ucast cnt)) (take N' (drop (unat cnt) data)) \<and>
          ready c'"
        using a' N am2 by (intro write_page_done [OF p(3) h d']) (auto simp: a1 N'_def)
      then show ?thesis unfolding cells
        using A0 p0 g tmp p(1) by (simp only: sflash_write_def Let_def if_True if_False
          flip: A_def cnt_def) simp
    next
      case False
      then have p0: "(ucast (n div 0x100) :: u8) \<noteq> 0" using pg by (metis unsigned_0)
      have le: "ucast cnt \<le> n"
        using \<open>\<not> unat n \<le> unat cnt\<close> by (simp add: word_le_nat_alt unat_ucast32)
      have n': "unat (n - ucast cnt) = N'"
        by (simp add: unat_sub [OF le] unat_ucast32 N'_def)
      have pg': "unat (ucast ((n - ucast cnt) div 0x100) :: u8) = N' div 256"
        using n n' by (subst page_number) (simp_all add: N'_def)
      have sg': "unat (ucast ((n - ucast cnt) mod 0x100) :: u8) = N' mod 256"
        by (simp only: page_offset n')
      have am': "unat (a + ucast cnt) mod 256 = 0" using am2 by (simp only: a1)
      obtain st' a2 d2 c2 c' where q:
        "sflash_write_pages xfer h (N' div 256) (a + ucast cnt) (drop (unat cnt) data) 0 c1 =
           Some (st', a2, d2, c2)" "st' = 0"
        "sflash_write_page xfer h a2 d2 (int (N' mod 256)) c2 = Some (0, c')"
        "cells_of c' = program (cells_of c1) (unat (a + ucast cnt)) (take N' (drop (unat cnt) data))"
        "ready c'"
        using pages_and_tail_done [OF p(3) h d' a' am', of 0] by auto
      have last: "(if (ucast ((n - ucast cnt) mod 0x100) :: u8) \<noteq> 0
          then sflash_write_page xfer h a2 d2 (uint (ucast ((n - ucast cnt) mod 0x100) :: u8)) c2
          else Some (st', c2)) = Some (0, c')"
        using q(2,3) sg' h by (cases "N' mod 256 = 0") (auto simp: uint_nat unat_eq_0 sflash_write_page.simps)
      have "sflash_write xfer h a data n c = Some (0, c')"
        unfolding sflash_write_def Let_def
        using A0 p0 p(1) q(1) last by (simp only: pg' if_False flip: A_def cnt_def) simp
      then show ?thesis using q(4,5) cells by metis
    qed
  qed
qed

end

section \<open>A chip\<close>

text \<open>The part the board carries, as its data sheet describes it: a 2 MiB array, programmed by pages
  that wrap, busy for \<open>latency\<close> status reads after each write command, deaf while busy.\<close>

record mx25 =
  mx_cells :: cells
  mx_wel :: bool
  mx_prot :: u8
  mx_busy :: nat
  mx_latency :: nat

definition page_program :: "cells \<Rightarrow> nat \<Rightarrow> bytes \<Rightarrow> cells" where
  "page_program m a ds = (\<lambda>x.
     let p = a div 256 * 256; i = (x - p + (256 - a mod 256)) mod 256 in
     if p \<le> x \<and> x < p + 256 \<and> i < length ds then m x AND ds ! i else m x)"

definition mx25_status :: "mx25 \<Rightarrow> u8" where
  "mx25_status c =
     (if 0 < mx_busy c then 1 else 0) OR (if mx_wel c then 2 else 0) OR (mx_prot c AND 0x3C)"

definition mx25_xfer :: "mx25 xfer" where
  "mx25_xfer cmd ps ds n c =
     (if cmd = SFLASH_READ_STATUS_REGISTER
      then (kNoErr, \<lambda>i. mx25_status c, c\<lparr>mx_busy := mx_busy c - 1\<rparr>)
      else if 0 < mx_busy c then (kNoErr, \<lambda>i. 0, c)
      else if cmd = SFLASH_WRITE_ENABLE then (kNoErr, \<lambda>i. 0, c\<lparr>mx_wel := True\<rparr>)
      else if cmd = SFLASH_READ then (kNoErr, \<lambda>i. mx_cells c (addr24 ps + i), c)
      else if cmd = SFLASH_READ_JEDEC_ID then (kNoErr, \<lambda>i. [0xC2, 0x20, 0x15] ! (i mod 3), c)
      else if \<not> mx_wel c then (kNoErr, \<lambda>i. 0, c)
      else if cmd = SFLASH_WRITE_STATUS_REGISTER
      then (kNoErr, \<lambda>i. 0, c\<lparr>mx_wel := False, mx_prot := ds ! 0 AND 0x3C, mx_busy := mx_latency c\<rparr>)
      else if mx_prot c \<noteq> 0 then (kNoErr, \<lambda>i. 0, c)
      else if cmd = SFLASH_WRITE
      then (kNoErr, \<lambda>i. 0, c\<lparr>mx_wel := False, mx_busy := mx_latency c,
              mx_cells := page_program (mx_cells c) (addr24 ps) ds\<rparr>)
      else if cmd = SFLASH_SECTOR_ERASE
      then (kNoErr, \<lambda>i. 0, c\<lparr>mx_wel := False, mx_busy := mx_latency c,
              mx_cells := erase (mx_cells c) (addr24 ps div 4096 * 4096) 4096\<rparr>)
      else if cmd = SFLASH_CHIP_ERASE1 \<or> cmd = SFLASH_CHIP_ERASE2
      then (kNoErr, \<lambda>i. 0, c\<lparr>mx_wel := False, mx_busy := mx_latency c, mx_cells := \<lambda>x. 0xFF\<rparr>)
      else (kNoErr, \<lambda>i. 0, c))"

lemma page_program_inside:
  assumes "a mod 256 + length ds \<le> 256"
  shows "page_program m a ds = program m a ds"
proof (rule ext)
  fix x
  define p r where "p = a div 256 * 256" and "r = a mod 256"
  have a: "a = p + r" "r < 256" "r + length ds \<le> 256" using assms by (simp_all add: p_def r_def)
  show "page_program m a ds x = program m a ds x"
  proof (cases "p \<le> x \<and> x < p + 256")
    case False
    have "program m a ds x = m x" using False a by (intro program_outside) auto
    moreover have "page_program m a ds x = m x"
      using False by (auto simp: page_program_def Let_def simp flip: p_def)
    ultimately show ?thesis by simp
  next
    case True
    define y where "y = x - p"
    have y: "x = p + y" "y < 256" using True by (auto simp: y_def)
    have i: "(y + (256 - r)) mod 256 = (if r \<le> y then y - r else y + 256 - r)"
    proof (cases "r \<le> y")
      case True
      then have e: "y + (256 - r) = (y - r) + 256" using a by simp
      show ?thesis unfolding e mod_add_self2 using True y by simp
    qed (use y a in simp)
    have "page_program m a ds x =
        (if (y + (256 - r)) mod 256 < length ds then m x AND ds ! ((y + (256 - r)) mod 256) else m x)"
      using True by (simp add: page_program_def Let_def y_def flip: p_def r_def)
    moreover have "program m a ds x =
        (if r \<le> y \<and> y < r + length ds then m x AND ds ! (y - r) else m x)"
      unfolding program_def a(1) y(1) by auto
    ultimately show ?thesis using a(3) y(2) unfolding i by auto
  qed
qed

lemma mx25_status_busy: "mx25_status c AND 1 \<noteq> 0 \<longleftrightarrow> 0 < mx_busy c"
proof -
  have p: "(mx_prot c AND 0x3C) AND 1 = 0" by (simp only: and.assoc) simp
  show ?thesis unfolding mx25_status_def
    by (simp only: bit.conj_disj_distrib2 p) simp
qed

interpretation mx25: spi_nor mx25_xfer mx_cells mx_wel mx_prot mx_busy "2 ^ 21"
proof
  show "err = kNoErr \<and> mx_cells c' = mx_cells c \<and> mx_wel c' = mx_wel c \<and> mx_prot c' = mx_prot c \<and>
      mx_busy c' = mx_busy c - 1 \<and> (r 0 AND SFLASH_STATUS_REGISTER_BUSY \<noteq> 0 \<longleftrightarrow> 0 < mx_busy c) \<and>
      (mx_busy c = 0 \<longrightarrow> mx_prot c = 0 \<longrightarrow> mx_wel c \<longrightarrow> r 0 = SFLASH_STATUS_REGISTER_WRITE_ENABLED)"
    if "mx25_xfer SFLASH_READ_STATUS_REGISTER [] [] 1 c = (err, r, c')" for c err r c'
    using that mx25_status_busy [of c]
    by (auto simp: mx25_xfer_def mx25_status_def)
qed (auto simp: mx25_xfer_def page_program_inside)

section \<open>Properties\<close>

lemma empty_page_write: "write_allowed h = SFLASH_WRITE_ALLOWED \<Longrightarrow>
    sflash_write_page xfer h a data 0 c = Some (0, c)"
  by (simp add: sflash_write_page.simps)

lemma wrap_pages: "(n :: nat) mod 65536 div 256 = n div 256 mod 256"
  using mod_mult2_eq [of n 256 256] by simp

text \<open>
  C22. Writing to the serial flash: on a healthy idle unprotected chip, \<open>sflash_write\<close> of fewer than
  65536 bytes at any address terminates, returns 0 and leaves in the array exactly the linear program
  of the given bytes at the given address, although the chip itself programs page by page and wraps
  inside a page.
\<close>

theorem sflash_write_linear:
  assumes "spi_nor xfer cells_of wel prot pending capacity"
    and "pending c = 0" and "prot c = 0" and "write_allowed h = SFLASH_WRITE_ALLOWED"
    and "unat n < 65536" and "unat n \<le> length data" and "unat a + unat n \<le> capacity"
  shows "\<exists>c'. sflash_write xfer h a data n c = Some (0, c') \<and>
    cells_of c' = program (cells_of c) (unat a) (take (unat n) data) \<and>
    pending c' = 0 \<and> prot c' = 0"
proof -
  note r = spi_nor.ready_def [OF assms(1)]
  have c: "spi_nor.ready prot pending c" using assms(2,3) by (simp add: r)
  show ?thesis
    using spi_nor.aligned_write_done [OF assms(1) c assms(4-7)]
      spi_nor.unaligned_write_done [OF assms(1) c assms(4-7)]
    by (cases "unat a mod 256 = 0") (auto simp: r)
qed

theorem sflash_write_linear_witness:
  "\<exists>c'. sflash_write mx25_xfer \<lparr>device_id = 0xC22015, write_allowed = SFLASH_WRITE_ALLOWED\<rparr>
      0xFE [1, 2, 3, 4] 4
      \<lparr>mx_cells = \<lambda>x. 0xFF, mx_wel = False, mx_prot = 0, mx_busy = 0, mx_latency = 5\<rparr> = Some (0, c') \<and>
    mread (mx_cells c') 0xFD 6 = [0xFF, 1, 2, 3, 4, 0xFF]"
proof -
  let ?c = "\<lparr>mx_cells = \<lambda>x. 0xFF, mx_wel = False, mx_prot = 0, mx_busy = 0, mx_latency = 5\<rparr>"
  let ?h = "\<lparr>device_id = 0xC22015, write_allowed = SFLASH_WRITE_ALLOWED\<rparr>"
  obtain c' where "sflash_write mx25_xfer ?h 0xFE [1, 2, 3, 4] 4 ?c = Some (0, c')"
    "mx_cells c' = program (mx_cells ?c) (unat (0xFE :: u32)) (take (unat (4 :: u32)) [1, 2, 3, 4])"
    using sflash_write_linear [OF mx25.spi_nor_axioms, of ?c ?h 4 "[1, 2, 3, 4]" "0xFE"] by auto
  moreover have "mread (program (\<lambda>x. 0xFF) 254 [1, 2, 3, 4]) 0xFD 6 = [0xFF, 1, 2, 3, 4, 0xFF]"
    by (simp add: mread_def program_def upt_rec)
  ultimately show ?thesis by auto
qed

text \<open>
  C39. The page counter is a \<open>uint8_t\<close>: a page-aligned write of \<open>n \<ge> 65536\<close> bytes returns 0 in every case, but when \<open>n mod
  65536\<close> is at least 256 only the first \<open>n mod 65536\<close> bytes of the data are stored and the rest is lost; when it is
  less, the counter is 0 and the branch for short writes stores all \<open>n\<close> bytes. The chip is idle and
  unprotected and the range within it.
\<close>

theorem sflash_write_page_count_wraps:
  assumes "spi_nor xfer cells_of wel prot pending capacity"
    and "pending c = 0" and "prot c = 0" and "write_allowed h = SFLASH_WRITE_ALLOWED"
    and "65536 \<le> unat n" and "unat n \<le> length data" and "unat a + unat n \<le> capacity"
    and "unat a mod 256 = 0"
    and "stored = (if unat n mod 65536 < 256 then unat n else unat n mod 65536)"
  shows "\<exists>c'. sflash_write xfer h a data n c = Some (0, c') \<and>
    cells_of c' = program (cells_of c) (unat a) (take stored data)"
proof -
  have c: "spi_nor.ready prot pending c" using assms(2,3) by (simp add: spi_nor.ready_def [OF assms(1)])
  have A0: "(ucast (a mod 0x100) :: u8) = 0" using assms(8) page_offset [of a] by (metis unat_eq_zero)
  have pg: "unat (ucast (n div 0x100) :: u8) = unat n mod 65536 div 256"
    unfolding unat_ucast8 unat_div_u32 by (rule wrap_pages [symmetric])
  show ?thesis
  proof (cases "unat n mod 65536 < 256")
    case True
    then have "(ucast (n div 0x100) :: u8) = 0" using pg by (metis div_less unat_eq_zero)
    moreover have "unat n \<le> 2 ^ 24" using assms(7) spi_nor.capacity [OF assms(1)] by linarith
    then have "sint n = int (unat n)" by (intro sint_small_u32) simp
    ultimately show ?thesis
      using spi_nor.long_page_done [OF assms(1) c assms(4,6,7,8)] True
      by (auto simp: sflash_write_def Let_def A0 assms(9))
  next
    case False
    define N where "N = unat n mod 65536"
    have NN: "N \<le> unat n" "256 \<le> N" using False by (simp_all add: N_def)
    have sg: "uint (ucast (n mod 0x100) :: u8) = int (N mod 256)"
      unfolding uint_nat page_offset N_def by (simp add: mod_mod_cancel)
    have "N div 256 \<noteq> 0" using NN by (simp add: div_eq_0_iff)
    then have "(ucast (n div 0x100) :: u8) \<noteq> 0" using pg by (metis N_def unsigned_0)
    then show ?thesis
      using spi_nor.pages_and_tail_done [OF assms(1) c assms(4) _ _ assms(8), of N data 0] NN assms(6,7,9) False
      by (auto simp: sflash_write_def Let_def A0 pg sg simp flip: N_def)
  qed
qed

theorem sflash_write_page_count_wraps_witness:
  "\<exists>c'. sflash_write mx25_xfer \<lparr>device_id = 0xC22015, write_allowed = SFLASH_WRITE_ALLOWED\<rparr>
      0 (replicate 65792 0) 65792
      \<lparr>mx_cells = \<lambda>x. 0xFF, mx_wel = False, mx_prot = 0, mx_busy = 0, mx_latency = 5\<rparr> = Some (0, c') \<and>
    mx_cells c' 255 = 0 \<and> mx_cells c' 256 = 0xFF"
proof -
  let ?c = "\<lparr>mx_cells = \<lambda>x. 0xFF, mx_wel = False, mx_prot = 0, mx_busy = 0, mx_latency = 5\<rparr>"
  let ?h = "\<lparr>device_id = 0xC22015, write_allowed = SFLASH_WRITE_ALLOWED\<rparr>"
  obtain c' where "sflash_write mx25_xfer ?h 0 (replicate 65792 0) 65792 ?c = Some (0, c')"
    "mx_cells c' = program (mx_cells ?c) 0 (replicate 256 0)"
    using sflash_write_page_count_wraps [OF mx25.spi_nor_axioms, of ?c ?h 65792
        "replicate 65792 0" 0 256] by auto
  then show ?thesis by (auto simp: program_def)
qed

text \<open>
  Errors of whole pages are not reported: for a page-aligned write of whole pages the status comes
  from a final write of no bytes, so whatever the SPI transfers answer - every one of them may
  fail - a call that returns reports success.
\<close>

theorem sflash_write_loses_page_errors:
  assumes "sflash_write xfer h a data n c = Some (status, c')"
    and "write_allowed h = SFLASH_WRITE_ALLOWED"
    and "a mod 0x100 = 0" and "n mod 0x100 = 0" and "n < 0x10000" and "n \<noteq> 0"
  shows "status = 0"
proof -
  have N: "unat n < 65536" using assms(5) by (simp add: word_less_nat_alt)
  have "unat n mod 256 = 0" using assms(4) by (metis unat_mod_u32 unsigned_0)
  moreover have "unat n \<noteq> 0" using assms(6) by (simp add: unat_eq_0)
  ultimately have "unat n div 256 \<noteq> 0" by (metis add_0 div_mult_mod_eq mult_zero_left)
  then have p0: "(ucast (n div 0x100) :: u8) \<noteq> 0" using page_number [OF N] by (metis unsigned_0)
  have "sflash_write xfer h a data n c = do {
      (status, a1, d1, c1) \<leftarrow> sflash_write_pages xfer h (unat (ucast (n div 0x100) :: u8)) a data 0 c;
      sflash_write_page xfer h a1 d1 0 c1 }"
    using p0 by (simp add: sflash_write_def Let_def assms(3,4))
  from trans [OF this [symmetric] assms(1)] show ?thesis
    by (auto simp: empty_page_write [OF assms(2)] bind_eq_Some_conv)
qed

theorem sflash_write_loses_page_errors_witness:
  "map_option fst (sflash_write (\<lambda>cmd ps ds k c. (kTimeoutErr, \<lambda>i. 0, c))
     \<lparr>device_id = 0xC22015, write_allowed = SFLASH_WRITE_ALLOWED\<rparr> 0 (replicate 256 7) 256 ()) = Some 0"
proof -
  define x :: "unit xfer" where "x = (\<lambda>cmd ps ds k c. (kTimeoutErr, \<lambda>i. 0, c))"
  let ?h = "\<lparr>device_id = 0xC22015, write_allowed = SFLASH_WRITE_ALLOWED\<rparr>"
  have p: "sflash_write_page x ?h 0 (replicate 256 7) 256 () = Some (- 1, ())"
    by (simp add: sflash_write_enable_def sflash_command_def generic_sflash_command_def
        sflash_platform_send_recv_def sflash_write_page.simps x_def)
  have "sflash_write x ?h 0 (replicate 256 7) 256 () = Some (0, ())"
    by (simp add: sflash_write_def p empty_page_write)
  then show ?thesis
    using sflash_write_loses_page_errors [of x ?h 0 "replicate 256 7" 256 "()"]
    unfolding x_def [symmetric] by simp
qed

end
