(* ===== verification/McuFlash.thy ===== *)
theory McuFlash
  imports SpiFlash
begin

text \<open>
  The flash driver of the microcontroller, \<open>STM32F4xx/peripherals/platform_flash.c\<close>, built with
  \<open>USE_MICO_SPI_FLASH\<close> and without \<open>MCU_EBANLE_FLASH_PROTECT\<close>. The vendor's peripheral library is
  the parameter \<open>flash_hw\<close>: memory-mapped reading, programming of a word or a byte, erasing of a
  sector; its Boolean says that the result was \<open>FLASH_COMPLETE\<close>. A 32-bit word in memory is the
  four bytes it occupies. \<open>None\<close> is a read outside the caller's data.
\<close>

section \<open>Embedded flash\<close>

record 'f flash_hw =
  fl_cells :: "'f \<Rightarrow> cells"
  FLASH_ProgramWord :: "u32 \<Rightarrow> bytes \<Rightarrow> 'f \<Rightarrow> bool \<times> 'f"
  FLASH_ProgramByte :: "u32 \<Rightarrow> u8 \<Rightarrow> 'f \<Rightarrow> bool \<times> 'f"
  FLASH_EraseSector :: "u32 \<Rightarrow> 'f \<Rightarrow> bool \<times> 'f"
  FLASH_Unlock :: "'f \<Rightarrow> 'f"

abbreviation FLASH_END_ADDRESS :: u32 where "FLASH_END_ADDRESS \<equiv> 0x080FFFFF"

text \<open>The constants \<open>FLASH_Sector_n\<close> of the vendor's header are \<open>8 * n\<close>.\<close>

definition GetSector :: "u32 \<Rightarrow> u32" where
  "GetSector Address =
     (if Address < 0x08004000 \<and> Address \<ge> 0x08000000 then 0
      else if Address < 0x08008000 \<and> Address \<ge> 0x08004000 then 8
      else if Address < 0x0800C000 \<and> Address \<ge> 0x08008000 then 16
      else if Address < 0x08010000 \<and> Address \<ge> 0x0800C000 then 24
      else if Address < 0x08020000 \<and> Address \<ge> 0x08010000 then 32
      else if Address < 0x08040000 \<and> Address \<ge> 0x08020000 then 40
      else if Address < 0x08060000 \<and> Address \<ge> 0x08040000 then 48
      else if Address < 0x08080000 \<and> Address \<ge> 0x08060000 then 56
      else if Address < 0x080A0000 \<and> Address \<ge> 0x08080000 then 64
      else if Address < 0x080C0000 \<and> Address \<ge> 0x080A0000 then 72
      else if Address < 0x080E0000 \<and> Address \<ge> 0x080C0000 then 80
      else 88)"

definition GetAddress :: "u32 \<Rightarrow> (u32 \<times> u32) option" where
  "GetAddress sector =
     (if sector = 0 then Some (0x08000000, 0x08004000 - 1)
      else if sector = 8 then Some (0x08004000, 0x08008000 - 1)
      else if sector = 16 then Some (0x08008000, 0x0800C000 - 1)
      else if sector = 24 then Some (0x0800C000, 0x08010000 - 1)
      else if sector = 32 then Some (0x08010000, 0x08020000 - 1)
      else if sector = 40 then Some (0x08020000, 0x08040000 - 1)
      else if sector = 48 then Some (0x08040000, 0x08060000 - 1)
      else if sector = 56 then Some (0x08060000, 0x08080000 - 1)
      else if sector = 64 then Some (0x08080000, 0x080A0000 - 1)
      else if sector = 72 then Some (0x080A0000, 0x080C0000 - 1)
      else if sector = 80 then Some (0x080C0000, 0x080E0000 - 1)
      else if sector = 88 then Some (0x080E0000, FLASH_END_ADDRESS - 1)
      else None)"

text \<open>The scan for a word that is not erased: \<open>j\<close> advances by eight bytes, each step looks at one
  32-bit word. \<open>True\<close> when the loop ran past the end.\<close>

function blank_check :: "cells \<Rightarrow> nat \<Rightarrow> nat \<Rightarrow> bool" where
  "blank_check m j end_address =
     (if j \<le> end_address
      then (if mread m j 4 \<noteq> [0xFF, 0xFF, 0xFF, 0xFF] then False else blank_check m (j + 8) end_address)
      else True)"
  by pat_completeness auto
termination
  by (relation "measure (\<lambda>(m, j, e). Suc e - j)") auto

declare blank_check.simps [simp del]

text \<open>The loop over the sectors. \<open>StartAddress\<close> and \<open>EndAddress\<close> keep their values when
  \<open>GetAddress\<close> does not know the sector.\<close>

function erase_sectors ::
  "'f flash_hw \<Rightarrow> nat \<Rightarrow> nat \<Rightarrow> u32 \<Rightarrow> u32 \<Rightarrow> 'f \<Rightarrow> OSStatus \<times> 'f" where
  "erase_sectors hw i EndSector StartAddress EndAddress f =
     (if i \<le> EndSector then
        (case (case GetAddress (of_nat i) of None \<Rightarrow> (StartAddress, EndAddress) | Some se \<Rightarrow> se) of
           (s, e) \<Rightarrow>
             if blank_check (fl_cells hw f) (unat s) (unat e)
             then erase_sectors hw (i + 8) EndSector s e f
             else (case FLASH_EraseSector hw (of_nat i) f of (complete, f1) \<Rightarrow>
                     if \<not> complete then (kWriteErr, f1)
                     else erase_sectors hw (i + 8) EndSector s e f1))
      else (kNoErr, f))"
  by pat_completeness auto
termination
  by (relation "measure (\<lambda>(hw, i, E, s, e, f). Suc E - i)") auto

declare erase_sectors.simps [simp del]

definition internalFlashErase :: "'f flash_hw \<Rightarrow> u32 \<Rightarrow> u32 \<Rightarrow> 'f \<Rightarrow> OSStatus \<times> 'f" where
  "internalFlashErase hw StartAddress EndAddress f =
     erase_sectors hw (unat (GetSector StartAddress)) (unat (GetSector EndAddress))
       StartAddress EndAddress f"

text \<open>\<open>n\<close> bytes are left to write; each one is read back.\<close>

fun internalFlashByteWrite ::
  "'f flash_hw \<Rightarrow> nat \<Rightarrow> u32 \<Rightarrow> bytes \<Rightarrow> 'f \<Rightarrow> (OSStatus \<times> u32 \<times> 'f) option" where
  "internalFlashByteWrite hw 0 FlashAddress Data f = Some (kNoErr, FlashAddress, f)"
| "internalFlashByteWrite hw (Suc n) FlashAddress Data f =
     (if FlashAddress \<le> FLASH_END_ADDRESS then
        (case Data of [] \<Rightarrow> None
         | dataInRam # Data' \<Rightarrow>
             (case FLASH_ProgramByte hw FlashAddress dataInRam f of (complete, f1) \<Rightarrow>
                if \<not> complete then Some (kWriteErr, FlashAddress, f1)
                else if fl_cells hw f1 (unat FlashAddress) \<noteq> dataInRam
                then Some (kChecksumErr, FlashAddress, f1)
                else internalFlashByteWrite hw n (FlashAddress + 1) Data' f1))
      else Some (kNoErr, FlashAddress, f))"

text \<open>The word loop: \<open>k\<close> words are left; the result tells how many were written.\<close>

fun flash_words ::
  "'f flash_hw \<Rightarrow> nat \<Rightarrow> nat \<Rightarrow> u32 \<Rightarrow> bytes \<Rightarrow> 'f \<Rightarrow> (OSStatus \<times> nat \<times> u32 \<times> 'f) option" where
  "flash_words hw 0 i FlashAddress Data f = Some (kNoErr, i, FlashAddress, f)"
| "flash_words hw (Suc k) i FlashAddress Data f =
     (if FlashAddress \<le> FLASH_END_ADDRESS - 3 then
        (if length Data < 4 then None
         else (case FLASH_ProgramWord hw FlashAddress (take 4 Data) f of (complete, f1) \<Rightarrow>
                if \<not> complete then Some (kWriteErr, i, FlashAddress, f1)
                else if mread (fl_cells hw f1) (unat FlashAddress) 4 \<noteq> take 4 Data
                then Some (kChecksumErr, i, FlashAddress, f1)
                else flash_words hw k (i + 1) (FlashAddress + 4) (drop 4 Data) f1))
      else Some (kNoErr, i, FlashAddress, f))"

definition flash_aligned_write ::
  "'f flash_hw \<Rightarrow> u32 \<Rightarrow> bytes \<Rightarrow> u32 \<Rightarrow> 'f \<Rightarrow> (OSStatus \<times> u32 \<times> 'f) option" where
  "flash_aligned_write hw FlashAddress Data DataLength32 f = do {
     (err, i, a, f1) \<leftarrow> flash_words hw (unat (DataLength32 div 4)) 0 FlashAddress Data f;
     if err \<noteq> kNoErr then Some (err, a, f1)
     else internalFlashByteWrite hw (unat (DataLength32 - of_nat (i * 4))) a (drop (i * 4) Data) f1
   }"

definition internalFlashWrite ::
  "'f flash_hw \<Rightarrow> u32 \<Rightarrow> bytes \<Rightarrow> u32 \<Rightarrow> 'f \<Rightarrow> (OSStatus \<times> u32 \<times> 'f) option" where
  "internalFlashWrite hw FlashAddress Data DataLength f =
     (if FlashAddress mod 4 \<noteq> 0 then
        (let startNumber = (ucast (4 - FlashAddress mod 4) :: u8) in do {
           (err, a, f1) \<leftarrow> internalFlashByteWrite hw (unat startNumber) FlashAddress Data f;
           if err \<noteq> kNoErr then Some (err, a, f1)
           else flash_aligned_write hw a (drop (unat startNumber) Data)
                  (DataLength - ucast startNumber) f1
         })
      else flash_aligned_write hw FlashAddress Data DataLength f)"

section \<open>The two flash devices of the board\<close>

record ('f, 'c) flash_env =
  env_hw :: "'f flash_hw"
  env_xfer :: "'c xfer"
  env_spi_init :: "'c \<Rightarrow> OSStatus \<times> 'c"

record ('f, 'c) flash_state =
  internal :: 'f
  chip :: 'c
  sflash_handle :: sflash_handle_t

datatype platform_flash_type_t = FLASH_TYPE_EMBEDDED | FLASH_TYPE_SPI | FLASH_TYPE_OTHER

record platform_flash_t =
  flash_type :: platform_flash_type_t
  flash_start_addr :: u32
  flash_length :: u32

definition internalFlashInitialize :: "'f flash_hw \<Rightarrow> 'f \<Rightarrow> OSStatus \<times> 'f" where
  "internalFlashInitialize hw f = (kNoErr, FLASH_Unlock hw f)"

function spi_sectors :: "'c xfer \<Rightarrow> sflash_handle_t \<Rightarrow> nat \<Rightarrow> nat \<Rightarrow> 'c \<Rightarrow> (OSStatus \<times> 'c) option" where
  "spi_sectors xfer h i EndSector c =
     (if i \<le> EndSector then do {
        (status, c1) \<leftarrow> sflash_sector_erase xfer h (push_bit 12 (of_nat i)) c;
        if status \<noteq> kNoErr then Some (kWriteErr, c1) else spi_sectors xfer h (i + 1) EndSector c1
      }
      else Some (kNoErr, c))"
  by pat_completeness auto
termination
  by (relation "measure (\<lambda>(x, h, i, E, c). Suc E - i)") auto

declare spi_sectors.simps [simp del]

definition spiFlashErase ::
  "'c xfer \<Rightarrow> sflash_handle_t \<Rightarrow> u32 \<Rightarrow> u32 \<Rightarrow> 'c \<Rightarrow> (OSStatus \<times> 'c) option" where
  "spiFlashErase xfer h StartAddress EndAddress c =
     spi_sectors xfer h (unat (drop_bit 12 StartAddress)) (unat (drop_bit 12 EndAddress)) c"

text \<open>A missing peripheral (\<open>NULL\<close>) is \<open>None\<close>.\<close>

definition platform_flash_init ::
  "('f, 'c) flash_env \<Rightarrow> platform_flash_t option \<Rightarrow> ('f, 'c) flash_state
     \<Rightarrow> (OSStatus \<times> ('f, 'c) flash_state) option" where
  "platform_flash_init env peripheral s =
     (case peripheral of None \<Rightarrow> Some (kParamErr, s)
      | Some p \<Rightarrow>
          (case flash_type p of
             FLASH_TYPE_EMBEDDED \<Rightarrow>
               (case internalFlashInitialize (env_hw env) (internal s) of
                  (err, f) \<Rightarrow> Some (err, s\<lparr>internal := f\<rparr>))
           | FLASH_TYPE_SPI \<Rightarrow> do {
               (err, h, c) \<leftarrow> init_sflash (env_spi_init env) (env_xfer env) SFLASH_WRITE_ALLOWED
                                (sflash_handle s) (chip s);
               Some (err, s\<lparr>sflash_handle := h, chip := c\<rparr>)
             }
           | FLASH_TYPE_OTHER \<Rightarrow> Some (kTypeErr, s)))"

definition platform_flash_erase ::
  "('f, 'c) flash_env \<Rightarrow> platform_flash_t option \<Rightarrow> u32 \<Rightarrow> u32 \<Rightarrow> ('f, 'c) flash_state
     \<Rightarrow> (OSStatus \<times> ('f, 'c) flash_state) option" where
  "platform_flash_erase env peripheral start_address end_address s =
     (case peripheral of None \<Rightarrow> Some (kParamErr, s)
      | Some p \<Rightarrow>
          if \<not> (start_address \<ge> flash_start_addr p \<and>
                end_address \<le> flash_start_addr p + flash_length p - 1)
          then Some (kParamErr, s)
          else (case flash_type p of
             FLASH_TYPE_EMBEDDED \<Rightarrow>
               (case internalFlashErase (env_hw env) start_address end_address (internal s) of
                  (err, f) \<Rightarrow> Some (err, s\<lparr>internal := f\<rparr>))
           | FLASH_TYPE_SPI \<Rightarrow> do {
               (err, c) \<leftarrow> spiFlashErase (env_xfer env) (sflash_handle s) start_address end_address (chip s);
               Some (err, s\<lparr>chip := c\<rparr>)
             }
           | FLASH_TYPE_OTHER \<Rightarrow> Some (kTypeErr, s)))"

text \<open>\<open>*start_address\<close> is returned as the operation leaves it.\<close>

definition platform_flash_write ::
  "('f, 'c) flash_env \<Rightarrow> platform_flash_t option \<Rightarrow> u32 \<Rightarrow> bytes \<Rightarrow> u32 \<Rightarrow> ('f, 'c) flash_state
     \<Rightarrow> (OSStatus \<times> u32 \<times> ('f, 'c) flash_state) option" where
  "platform_flash_write env peripheral start_address data n s =
     (case peripheral of None \<Rightarrow> Some (kParamErr, start_address, s)
      | Some p \<Rightarrow>
          if \<not> (start_address \<ge> flash_start_addr p \<and>
                start_address + n \<le> flash_start_addr p + flash_length p)
          then Some (kParamErr, start_address, s)
          else (case flash_type p of
             FLASH_TYPE_EMBEDDED \<Rightarrow> do {
               (err, a, f) \<leftarrow> internalFlashWrite (env_hw env) start_address data n (internal s);
               Some (err, a, s\<lparr>internal := f\<rparr>)
             }
           | FLASH_TYPE_SPI \<Rightarrow> do {
               (err, c) \<leftarrow> sflash_write (env_xfer env) (sflash_handle s) start_address data n (chip s);
               Some (err, if err \<noteq> kNoErr then start_address else start_address + n, s\<lparr>chip := c\<rparr>)
             }
           | FLASH_TYPE_OTHER \<Rightarrow> Some (kTypeErr, start_address, s)))"

text \<open>The read returns what \<open>data\<close> receives: nothing when the operation fails before reading.\<close>

definition platform_flash_read ::
  "('f, 'c) flash_env \<Rightarrow> platform_flash_t option \<Rightarrow> u32 \<Rightarrow> u32 \<Rightarrow> ('f, 'c) flash_state
     \<Rightarrow> (OSStatus \<times> u32 \<times> bytes \<times> ('f, 'c) flash_state) option" where
  "platform_flash_read env peripheral start_address n s =
     (case peripheral of None \<Rightarrow> Some (kParamErr, start_address, [], s)
      | Some p \<Rightarrow>
          if \<not> (start_address \<ge> flash_start_addr p \<and>
                start_address + n \<le> flash_start_addr p + flash_length p)
          then Some (kParamErr, start_address, [], s)
          else (case flash_type p of
             FLASH_TYPE_EMBEDDED \<Rightarrow>
               Some (kNoErr, start_address + n,
                 mread (fl_cells (env_hw env) (internal s)) (unat start_address) (unat n), s)
           | FLASH_TYPE_SPI \<Rightarrow> do {
               (err, ds, c) \<leftarrow> sflash_read (env_xfer env) start_address (unat n) (chip s);
               Some (err, if err \<noteq> kNoErr then start_address else start_address + n,
                 if err \<noteq> kNoErr then [] else ds, s\<lparr>chip := c\<rparr>)
             }
           | FLASH_TYPE_OTHER \<Rightarrow> Some (kTypeErr, start_address, [], s)))"

text \<open>Protection: without option bytes support the embedded branch does nothing.\<close>

definition platform_flash_protect :: "platform_flash_t option \<Rightarrow> u32 \<Rightarrow> u32 \<Rightarrow> OSStatus" where
  "platform_flash_protect peripheral start_address end_address =
     (case peripheral of None \<Rightarrow> kParamErr
      | Some p \<Rightarrow>
          if \<not> (start_address \<ge> flash_start_addr p \<and>
                end_address \<le> flash_start_addr p + flash_length p - 1)
          then kParamErr
          else (case flash_type p of
             FLASH_TYPE_EMBEDDED \<Rightarrow> kNoErr
           | FLASH_TYPE_SPI \<Rightarrow> kNoErr
           | FLASH_TYPE_OTHER \<Rightarrow> kTypeErr))"

definition platform_flash_enable_protect :: "platform_flash_t option \<Rightarrow> u32 \<Rightarrow> u32 \<Rightarrow> OSStatus" where
  "platform_flash_enable_protect = platform_flash_protect"

definition platform_flash_disable_protect :: "platform_flash_t option \<Rightarrow> u32 \<Rightarrow> u32 \<Rightarrow> OSStatus" where
  "platform_flash_disable_protect = platform_flash_protect"

section \<open>Writing with verification\<close>

lemma start_number:
  assumes "(a :: u32) mod 4 \<noteq> 0"
  shows "unat (ucast (4 - a mod 4) :: u8) = 4 - unat a mod 4" and "0 < unat a mod 4"
proof -
  have m: "unat (a mod 4) = unat a mod 4" by (simp add: unat_mod)
  then show pos: "0 < unat a mod 4" using assms by (metis gr0I unat_eq_zero)
  have le: "a mod 4 \<le> 4" by (simp add: word_le_nat_alt m less_imp_le)
  have "unat (4 - a mod 4) = 4 - unat a mod 4" by (simp add: unat_sub [OF le] m)
  then show "unat (ucast (4 - a mod 4) :: u8) = 4 - unat a mod 4" by (simp only: unat_ucast8) simp
qed

text \<open>All that the write path needs from the hardware: programming an address changes no other
  cell. Completion is reported by the hardware and the contents are read back by the driver.\<close>

locale mcu_nor =
  fixes hw :: "'f flash_hw"
  assumes program_byte: "FLASH_ProgramByte hw a d f = (complete, f') \<Longrightarrow> x \<noteq> unat a \<Longrightarrow>
      fl_cells hw f' x = fl_cells hw f x"
    and program_word: "FLASH_ProgramWord hw a ds f = (complete, f') \<Longrightarrow>
      x < unat a \<or> unat a + 4 \<le> x \<Longrightarrow> fl_cells hw f' x = fl_cells hw f x"
begin

lemma byte_write_patch:
  assumes "internalFlashByteWrite hw n a data f = Some (0, a', f')" and "unat a + n \<le> 0x08100000"
  shows "n \<le> length data \<and> a' = a + of_nat n \<and>
    fl_cells hw f' = patch (fl_cells hw f) (unat a) (take n data)"
  using assms
proof (induction n arbitrary: a data f)
  case 0
  then show ?case by (simp add: flash_simps)
next
  case (Suc n)
  have le: "a \<le> FLASH_END_ADDRESS" using Suc.prems(2) by (simp add: word_le_nat_alt)
  have a1: "unat (a + 1) = unat a + 1" using Suc.prems(2) by (simp add: unat_word_ariths)
  obtain d ds where data: "data = d # ds" using Suc.prems(1) le by (cases data) auto
  obtain complete f1 where p: "FLASH_ProgramByte hw a d f = (complete, f1)" by (rule prod.exhaust)
  have ok: "complete" "fl_cells hw f1 (unat a) = d"
    "internalFlashByteWrite hw n (a + 1) ds f1 = Some (0, a', f')"
    using Suc.prems(1) le p by (auto simp: data split: if_splits)
  have one: "fl_cells hw f1 = patch (fl_cells hw f) (unat a) [d]"
    by (rule patchI) (use program_byte [OF p] ok(2) in \<open>auto simp: mread_def\<close>)
  have ih: "n \<le> length ds \<and> a' = a + 1 + of_nat n \<and>
      fl_cells hw f' = patch (fl_cells hw f1) (unat a + 1) (take n ds)"
    using Suc.IH [OF ok(3)] Suc.prems(2) by (simp add: a1)
  moreover have "patch (fl_cells hw f1) (unat a + 1) (take n ds) =
      patch (fl_cells hw f) (unat a) (take (Suc n) data)"
    using patch_append [of "fl_cells hw f" "unat a" "[d]" "take n ds"] by (simp add: one data)
  ultimately show ?case by (simp add: data)
qed

lemma words_patch:
  assumes "flash_words hw k i a data f = Some (0, i', a', f')" and "unat a + 4 * k \<le> 0x08100000"
  shows "4 * k \<le> length data \<and> i' = i + k \<and> a' = a + of_nat (4 * k) \<and>
    fl_cells hw f' = patch (fl_cells hw f) (unat a) (take (4 * k) data)"
  using assms
proof (induction k arbitrary: i a data f)
  case 0
  then show ?case by (simp add: flash_simps)
next
  case (Suc k)
  have le: "a \<le> FLASH_END_ADDRESS - 3" using Suc.prems(2) by (simp add: word_le_nat_alt)
  have a1: "unat (a + 4) = unat a + 4" using Suc.prems(2) by (simp add: unat_word_ariths)
  have len: "4 \<le> length data" using Suc.prems(1) le by (auto split: if_splits)
  obtain complete f1 where p: "FLASH_ProgramWord hw a (take 4 data) f = (complete, f1)"
    by (rule prod.exhaust)
  have ok: "complete" "mread (fl_cells hw f1) (unat a) 4 = take 4 data"
    "flash_words hw k (i + 1) (a + 4) (drop 4 data) f1 = Some (0, i', a', f')"
    using Suc.prems(1) le len p by (auto split: if_splits)
  have one: "fl_cells hw f1 = patch (fl_cells hw f) (unat a) (take 4 data)"
    by (rule patchI) (use program_word [OF p] ok(2) len in \<open>auto simp: min_absorb2\<close>)
  have ih: "4 * k \<le> length (drop 4 data) \<and> i' = i + 1 + k \<and> a' = a + 4 + of_nat (4 * k) \<and>
      fl_cells hw f' = patch (fl_cells hw f1) (unat a + 4) (take (4 * k) (drop 4 data))"
    using Suc.IH [OF ok(3)] Suc.prems(2) by (simp add: a1)
  have "take (4 * Suc k) data = take 4 data @ take (4 * k) (drop 4 data)"
    using take_add [of 4 "4 * k" data] by simp
  then have "patch (fl_cells hw f1) (unat a + 4) (take (4 * k) (drop 4 data)) =
      patch (fl_cells hw f) (unat a) (take (4 * Suc k) data)"
    using patch_append [of "fl_cells hw f" "unat a" "take 4 data" "take (4 * k) (drop 4 data)"] len
    by (simp add: one min_absorb2)
  moreover have "4 * Suc k \<le> length data" using ih len by auto
  ultimately show ?case using ih by (simp add: algebra_simps)
qed

lemma aligned_write_patch:
  assumes w: "flash_aligned_write hw a data n f = Some (0, a', f')"
    and a: "unat a + unat n \<le> 0x08100000"
  shows "unat n \<le> length data \<and> a' = a + n \<and>
    fl_cells hw f' = patch (fl_cells hw f) (unat a) (take (unat n) data)"
proof -
  define k where "k = unat n div 4"
  have k: "unat (n div 4) = k" by (simp add: unat_div k_def)
  have N: "unat n = 4 * k + unat n mod 4" by (simp add: k_def)
  obtain err i a1 f1 where p: "flash_words hw k 0 a data f = Some (err, i, a1, f1)"
    using w by (auto simp: flash_aligned_write_def k bind_eq_Some_conv)
  have err: "err = 0" using w p by (auto simp: flash_aligned_write_def k split: if_splits)
  have s: "4 * k \<le> length data" "i = k" "a1 = a + of_nat (4 * k)"
    "fl_cells hw f1 = patch (fl_cells hw f) (unat a) (take (4 * k) data)"
    using words_patch [of k 0 a data f i a1 f1] p err a N by auto
  have k4: "unat (of_nat (k * 4) :: u32) = k * 4" unfolding unat_of_nat using N a by simp
  then have le: "of_nat (k * 4) \<le> n" using N unfolding word_le_nat_alt by linarith
  have left: "unat (n - of_nat (k * 4)) = unat n mod 4"
    unfolding unat_sub [OF le] k4 using N by (metis add_diff_cancel_left' mult.commute)
  have q: "internalFlashByteWrite hw (unat n mod 4) a1 (drop (4 * k) data) f1 = Some (0, a', f')"
    using w p err s(2) left by (simp add: flash_aligned_write_def k mult.commute)
  have a1: "unat a1 = unat a + 4 * k"
    using a N unfolding s(3) by (simp add: unat_word_ariths unat_of_nat)
  have b: "unat n mod 4 \<le> length (drop (4 * k) data)" "a' = a1 + of_nat (unat n mod 4)"
    "fl_cells hw f' = patch (fl_cells hw f1) (unat a1) (take (unat n mod 4) (drop (4 * k) data))"
    using byte_write_patch [OF q] a N a1 by auto
  have t: "take (unat n) data = take (4 * k) data @ take (unat n mod 4) (drop (4 * k) data)"
    by (subst N) (rule take_add)
  have "fl_cells hw f' = patch (fl_cells hw f) (unat a) (take (unat n) data)"
    unfolding b(3) s(4) t a1 using s(1) by (metis patch_append length_take min_absorb2)
  moreover have "a' = a + n"
  proof -
    have "of_nat (4 * k) + of_nat (unat n mod 4) = (of_nat (unat n) :: u32)"
      by (subst (2) N) (simp only: of_nat_add)
    then have "of_nat (4 * k) + of_nat (unat n mod 4) = n" by (simp only: of_nat_unat) simp
    then show ?thesis unfolding b(2) s(3) by (simp only: add.assoc)
  qed
  moreover have "unat n \<le> length data" using b(1) s(1) N by simp
  ultimately show ?thesis by blast
qed

lemma write_patch:
  assumes w: "internalFlashWrite hw a data n f = Some (0, a', f')"
    and a: "unat a + unat n \<le> 0x08100000"
    and short: "unat a mod 4 = 0 \<or> 4 - unat a mod 4 \<le> unat n"
  shows "unat n \<le> length data \<and> a' = a + n \<and>
    fl_cells hw f' = patch (fl_cells hw f) (unat a) (take (unat n) data)"
proof (cases "a mod 4 = 0")
  case True
  then show ?thesis using w a by (intro aligned_write_patch) (auto simp: internalFlashWrite_def)
next
  case False
  define st where "st = (ucast (4 - a mod 4) :: u8)"
  have st: "unat st = 4 - unat a mod 4" "0 < unat a mod 4"
    unfolding st_def using start_number [OF False] by auto
  then have le: "unat st \<le> unat n" using short by auto
  obtain a1 f1 where p: "internalFlashByteWrite hw (unat st) a data f = Some (0, a1, f1)"
      and q: "flash_aligned_write hw a1 (drop (unat st) data) (n - ucast st) f1 = Some (0, a', f')"
    using w False by (auto simp: internalFlashWrite_def Let_def bind_eq_Some_conv
        simp flip: st_def split: if_splits)
  have s: "unat st \<le> length data" "a1 = a + of_nat (unat st)"
    "fl_cells hw f1 = patch (fl_cells hw f) (unat a) (take (unat st) data)"
    using byte_write_patch [OF p] a le by auto
  have a1: "unat a1 = unat a + unat st"
    using a le unfolding s(2) of_nat_unat by (simp add: unat_word_ariths unat_ucast32)
  have "ucast st \<le> n" using le by (simp add: word_le_nat_alt unat_ucast32)
  then have n': "unat (n - ucast st) = unat n - unat st" by (simp add: unat_sub unat_ucast32)
  have b: "unat n - unat st \<le> length (drop (unat st) data)" "a' = a1 + (n - ucast st)"
    "fl_cells hw f' = patch (fl_cells hw f1) (unat a1) (take (unat n - unat st) (drop (unat st) data))"
    using aligned_write_patch [OF q] a le by (auto simp: a1 n')
  have t: "take (unat n) data = take (unat st) data @ take (unat n - unat st) (drop (unat st) data)"
    using le take_add [of "unat st" "unat n - unat st" data] by simp
  have "fl_cells hw f' = patch (fl_cells hw f) (unat a) (take (unat n) data)"
    unfolding b(3) s(3) t a1 using s(1) by (metis patch_append length_take min_absorb2)
  moreover have "a' = a + n" unfolding b(2) s(2) by (simp add: of_nat_unat)
  moreover have "unat n \<le> length data" using b(1) s(1) le by simp
  ultimately show ?thesis by blast
qed

end

lemma byte_write_within:
  assumes "internalFlashByteWrite hw n a data f = Some (0, a', f')" and "unat a + n \<le> 0x08100000"
  shows "n \<le> length data"
  using assms
proof (induction n arbitrary: a data f)
  case (Suc n)
  have le: "a \<le> FLASH_END_ADDRESS" using Suc.prems(2) by (simp add: word_le_nat_alt)
  have a1: "unat (a + 1) = unat a + 1" using Suc.prems(2) by (simp add: unat_word_ariths)
  from Suc.prems show ?case
    by (auto simp: le a1 split: list.splits prod.splits if_splits dest!: Suc.IH)
qed simp

section \<open>Sectors\<close>

text \<open>The sector layout of the part: the address where sector \<open>n\<close> starts, for \<open>n < 12\<close>, and the
  end of the array.\<close>

definition sector_base :: "nat \<Rightarrow> nat" where
  "sector_base n =
     [0x08000000, 0x08004000, 0x08008000, 0x0800C000, 0x08010000, 0x08020000, 0x08040000,
      0x08060000, 0x08080000, 0x080A0000, 0x080C0000, 0x080E0000, 0x08100000] ! n"

lemma less_12_cases:
  assumes "n < 12" and "list_all P [0 ..< 12]"
  shows "P n"
  using assms by (simp add: list_all_iff)

lemma GetAddress_sector:
  assumes "n < 12"
  shows "GetAddress (of_nat (8 * n)) = Some (of_nat (sector_base n),
    of_nat (if n = 11 then 0x080FFFFE else sector_base (Suc n) - 1))"
  by (rule less_12_cases [OF assms]) (simp add: upt_rec GetAddress_def sector_base_def)

lemma sector_base_mono: "n < 12 \<Longrightarrow> sector_base n < sector_base (Suc n)"
  by (rule less_12_cases) (simp_all add: upt_rec sector_base_def)

lemma sector_base_le: "n \<le> m \<Longrightarrow> m \<le> 12 \<Longrightarrow> sector_base n \<le> sector_base m"
proof (induction m rule: dec_induct)
  case (step k)
  then show ?case using sector_base_mono [of k] by simp
qed simp

lemma sector_base_top: "n \<le> 12 \<Longrightarrow> sector_base n \<le> 0x08100000"
  using sector_base_le [of n 12] by (simp add: sector_base_def)

lemma GetSector_range:
  assumes "0x08000000 \<le> unat a" and "unat a < 0x08100000"
  shows "\<exists>n < 12. GetSector a = of_nat (8 * n) \<and> sector_base n \<le> unat a \<and> unat a < sector_base (Suc n)"
proof -
  have g: "\<exists>n < 12. sector_base n \<le> unat a \<and> unat a < sector_base (Suc n)"
  proof -
    have "\<exists>n < 12. \<not> sector_base (Suc n) \<le> x \<and> sector_base n \<le> x"
      if "sector_base 0 \<le> x" "\<not> sector_base 12 \<le> x" for x
      using ex_least_nat_less [of "\<lambda>n. \<not> sector_base n \<le> x" 12] that by auto
    from this [of "unat a"] assms show ?thesis by (auto simp: sector_base_def not_le)
  qed
  then obtain n where n: "n < 12" "sector_base n \<le> unat a" "unat a < sector_base (Suc n)" by blast
  have "sector_base n \<le> unat a \<longrightarrow> unat a < sector_base (Suc n) \<longrightarrow> GetSector a = of_nat (8 * n)"
    by (rule less_12_cases [OF n(1)])
       (simp add: upt_rec GetSector_def sector_base_def word_less_nat_alt word_le_nat_alt)
  with n show ?thesis by blast
qed

lemma blank_check_iff:
  "blank_check m j e \<longleftrightarrow> (\<forall>k. j + 8 * k \<le> e \<longrightarrow> mread m (j + 8 * k) 4 = [0xFF, 0xFF, 0xFF, 0xFF])"
proof (induction m j e rule: blank_check.induct)
  case (1 m j e)
  show ?case
  proof (cases "j \<le> e \<and> mread m j 4 = [0xFF, 0xFF, 0xFF, 0xFF]")
    case True
    have "(\<forall>k. j + 8 * k \<le> e \<longrightarrow> mread m (j + 8 * k) 4 = [0xFF, 0xFF, 0xFF, 0xFF]) \<longleftrightarrow>
        (\<forall>k. j + 8 + 8 * k \<le> e \<longrightarrow> mread m (j + 8 + 8 * k) 4 = [0xFF, 0xFF, 0xFF, 0xFF])"
      (is "(\<forall>k. ?P k) \<longleftrightarrow> (\<forall>k. ?Q k)")
    proof -
      have "?P (Suc k) = ?Q k" for k by (simp add: add.assoc)
      moreover have "?P 0" using True by simp
      ultimately show ?thesis by (metis not0_implies_Suc)
    qed
    then show ?thesis using 1 True by (simp add: blank_check.simps [of m j e])
  next
    case False
    then show ?thesis
      by (subst blank_check.simps) (auto intro: exI [where x = 0])
  qed
qed

text \<open>The scan looks at every other word: the four bytes at each address divisible by eight.\<close>

definition even_words_blank :: "cells \<Rightarrow> nat \<Rightarrow> nat \<Rightarrow> bool" where
  "even_words_blank m a b \<longleftrightarrow> (\<forall>x. a \<le> x \<and> x < b \<and> x mod 8 < 4 \<longrightarrow> m x = 0xFF)"

lemma mread_4: "mread m a 4 = [m a, m (a + 1), m (a + 2), m (a + 3)]"
  by (simp add: mread_def upt_rec eval_nat_numeral)

lemma blank_check_even_words:
  assumes "a = 8 * a'" and "b = 8 * b'" and "a < b" and "b \<le> e + 8" and "e < b"
  shows "blank_check m a e \<longleftrightarrow> even_words_blank m a b"
proof
  assume bc: "blank_check m a e"
  show "even_words_blank m a b" unfolding even_words_blank_def
  proof (intro allI impI)
    fix x
    assume x: "a \<le> x \<and> x < b \<and> x mod 8 < 4"
    define k where "k = x div 8 - a'"
    have "a' \<le> x div 8" using x assms(1) div_le_mono [of "8 * a'" x 8] by simp
    then have ak: "a + 8 * k = 8 * (x div 8)" by (simp add: k_def assms(1) diff_mult_distrib2)
    have "x div 8 < b'" using x assms(2) by (simp add: div_less_iff_less_mult mult.commute)
    then have "8 * (x div 8) + 8 \<le> b" unfolding assms(2) by linarith
    then have xk: "x = a + 8 * k + x mod 8" "a + 8 * k \<le> e"
      using assms(4) unfolding ak by simp_all
    then have "mread m (a + 8 * k) 4 = [0xFF, 0xFF, 0xFF, 0xFF]"
      using bc by (simp add: blank_check_iff)
    moreover have "x mod 8 = 0 \<or> x mod 8 = 1 \<or> x mod 8 = 2 \<or> x mod 8 = 3" using x by linarith
    ultimately show "m x = 0xFF" using xk(1) by (auto simp: mread_4)
  qed
next
  assume ew: "even_words_blank m a b"
  show "blank_check m a e" unfolding blank_check_iff
  proof (intro allI impI)
    fix k
    assume k: "a + 8 * k \<le> e"
    have "8 * (a' + k) < 8 * b'" using k assms(1,2,5) by simp
    then have "a' + k < b'" by simp
    then have b: "a + 8 * k + 3 < b" unfolding assms(1,2) by linarith
    have "m (a + 8 * k + i) = 0xFF" if "i < 4" for i
    proof -
      have "a + 8 * k + i = i + 8 * (a' + k)" using assms(1) by simp
      then have "(a + 8 * k + i) mod 8 = i" using that by (simp only: mod_mult_self2) simp
      then show ?thesis using ew b that unfolding even_words_blank_def by auto
    qed
    from this [of 0] this [of 1] this [of 2] this [of 3]
    show "mread m (a + 8 * k) 4 = [0xFF, 0xFF, 0xFF, 0xFF]" by (simp add: mread_4)
  qed
qed

lemma sector_base_8: "n \<le> 12 \<Longrightarrow> \<exists>k. sector_base n = 8 * k"
proof (cases "n = 12")
  case False
  assume "n \<le> 12"
  with False have "n < 12" by simp
  then have "8 dvd sector_base n"
    by (rule less_12_cases) (simp add: upt_rec sector_base_def)
  then show ?thesis by (auto elim: dvdE)
qed (simp add: sector_base_def)

text \<open>What a successful erase of a sector leaves.\<close>

locale mcu_erase =
  fixes hw :: "'f flash_hw"
  assumes erase_sector: "n < 12 \<Longrightarrow> FLASH_EraseSector hw (of_nat (8 * n)) f = (True, f') \<Longrightarrow>
      fl_cells hw f' = erase (fl_cells hw f) (sector_base n) (sector_base (Suc n) - sector_base n)"
begin

lemma erase_sectors_done:
  assumes "erase_sectors hw (8 * n) (8 * N) s e f = (kNoErr, f')" and "N < 12" and "n \<le> Suc N"
  shows "(\<forall>x. x < sector_base n \<or> sector_base (Suc N) \<le> x \<longrightarrow> fl_cells hw f' x = fl_cells hw f x) \<and>
    even_words_blank (fl_cells hw f') (sector_base n) (sector_base (Suc N))"
  using assms(1,3)
proof (induction "Suc N - n" arbitrary: n s e f)
  case 0
  then show ?case by (auto simp: erase_sectors.simps even_words_blank_def)
next
  case (Suc k)
  then have n: "n \<le> N" "n < 12" using assms(2) by auto
  define b b' where "b = sector_base n" and "b' = sector_base (Suc n)"
  have bb: "b < b'" "b' \<le> sector_base (Suc N)"
    using sector_base_mono [OF n(2)] sector_base_le [of "Suc n" "Suc N"] n assms(2)
    by (simp_all add: b_def b'_def)
  define e' where "e' = (if n = 11 then 0x080FFFFE else b' - 1)"
  have top: "b' \<le> 0x08100000" using sector_base_top [of "Suc n"] n(2) by (simp add: b'_def)
  obtain s1 e1 where ga: "GetAddress (of_nat (8 * n)) = Some (s1, e1)"
    "s1 = of_nat b" "e1 = of_nat e'"
    using GetAddress_sector [OF n(2)] by (simp add: b_def b'_def e'_def)
  have "e' < 2 ^ 32" "b < 2 ^ 32" using top bb by (auto simp: e'_def)
  then have us: "unat s1 = b" "unat e1 = e'" by (simp_all add: ga unat_of_nat)
  have e': "b' \<le> e' + 8" "e' < b'"
    using bb by (auto simp: e'_def b'_def sector_base_def)
  obtain q q' where q: "b = 8 * q" "b' = 8 * q'"
    using sector_base_8 [of n] sector_base_8 [of "Suc n"] n(2) by (auto simp: b_def b'_def)
  have bc: "blank_check m b e' \<longleftrightarrow> even_words_blank m b b'" for m
    by (rule blank_check_even_words [OF q bb(1) e'])
  have "\<exists>f1. erase_sectors hw (8 * Suc n) (8 * N) s1 e1 f1 = (kNoErr, f') \<and>
      even_words_blank (fl_cells hw f1) b b' \<and>
      (\<forall>x. x < b \<or> b' \<le> x \<longrightarrow> fl_cells hw f1 x = fl_cells hw f x)"
  proof (cases "blank_check (fl_cells hw f) b e'")
    case True
    then have "erase_sectors hw (8 * Suc n) (8 * N) s1 e1 f = (kNoErr, f')"
      using Suc.prems(1) n(1) ga(1)
      by (subst (asm) erase_sectors.simps) (simp add: us algebra_simps)
    then show ?thesis using True bc by blast
  next
    case False
    obtain ok f1 where er: "FLASH_EraseSector hw (of_nat (8 * n)) f = (ok, f1)" by (rule prod.exhaust)
    have s: "ok" "erase_sectors hw (8 * Suc n) (8 * N) s1 e1 f1 = (kNoErr, f')"
      using Suc.prems(1) n(1) ga(1) er False
      by (subst (asm) erase_sectors.simps; simp add: us algebra_simps split: if_splits)+
    have "fl_cells hw f1 = erase (fl_cells hw f) b (b' - b)"
      using erase_sector [OF n(2)] er s(1) by (simp add: b_def b'_def)
    with s show ?thesis using bb by (auto simp: even_words_blank_def erase_def)
  qed
  then obtain f1 where f1: "erase_sectors hw (8 * Suc n) (8 * N) s1 e1 f1 = (kNoErr, f')"
    "even_words_blank (fl_cells hw f1) b b'"
    "\<And>x. x < b \<or> b' \<le> x \<Longrightarrow> fl_cells hw f1 x = fl_cells hw f x" by blast
  have ih: "(\<forall>x. x < b' \<or> sector_base (Suc N) \<le> x \<longrightarrow> fl_cells hw f' x = fl_cells hw f1 x) \<and>
      even_words_blank (fl_cells hw f') b' (sector_base (Suc N))"
    using Suc.hyps(1) [OF _ f1(1)] Suc.hyps(2) n(1) by (simp add: b'_def)
  have "even_words_blank (fl_cells hw f') b (sector_base (Suc N))"
    unfolding even_words_blank_def
  proof (intro allI impI)
    fix x assume x: "b \<le> x \<and> x < sector_base (Suc N) \<and> x mod 8 < 4"
    show "fl_cells hw f' x = 0xFF"
      using x ih f1(2) by (cases "x < b'") (auto simp: even_words_blank_def)
  qed
  with ih f1(3) bb show ?case by (auto simp flip: b_def)
qed

end

section \<open>A healthy device\<close>

locale mcu_nor_ok = mcu_nor hw + mcu_erase hw for hw :: "'f flash_hw" +
  assumes program_byte_ok: "\<exists>f'. FLASH_ProgramByte hw a d f = (True, f') \<and>
      fl_cells hw f' = program (fl_cells hw f) (unat a) [d]"
    and program_word_ok: "length ds = 4 \<Longrightarrow> \<exists>f'. FLASH_ProgramWord hw a ds f = (True, f') \<and>
      fl_cells hw f' = program (fl_cells hw f) (unat a) ds"
begin

lemma byte_write_total:
  assumes "n \<le> length data" and "unat a + n \<le> 0x08100000" and "blank (fl_cells hw f) (unat a) n"
  shows "\<exists>a' f'. internalFlashByteWrite hw n a data f = Some (0, a', f')"
  using assms
proof (induction n arbitrary: a data f)
  case (Suc n)
  have le: "a \<le> FLASH_END_ADDRESS" using Suc.prems(2) by (simp add: word_le_nat_alt)
  have a1: "unat (a + 1) = unat a + 1" using Suc.prems(2) by (simp add: unat_word_ariths)
  obtain d ds where data: "data = d # ds" using Suc.prems(1) by (cases data) auto
  obtain f1 where p: "FLASH_ProgramByte hw a d f = (True, f1)"
    "fl_cells hw f1 = program (fl_cells hw f) (unat a) [d]" using program_byte_ok by blast
  have b: "blank (fl_cells hw f) (unat a) 1" "blank (fl_cells hw f) (unat a + 1) n"
    using Suc.prems(3) blank_split [of _ "unat a" 1 n] by simp_all
  have p2: "fl_cells hw f1 = patch (fl_cells hw f) (unat a) [d]"
    using program_blank [of _ "unat a" "[d]"] b(1) p(2) by simp
  have "blank (fl_cells hw f1) (unat (a + 1)) n" unfolding p2 a1 using b(2) by (simp add: blank_patch)
  then obtain a' f' where "internalFlashByteWrite hw n (a + 1) ds f1 = Some (0, a', f')"
    using Suc.IH [of ds "a + 1" f1] Suc.prems(1,2) by (auto simp: data a1)
  moreover have "fl_cells hw f1 (unat a) = d" by (simp add: p2 patch_def)
  ultimately show ?case using le p(1) by (simp add: data)
qed simp

lemma words_total:
  assumes "4 * k \<le> length data" and "unat a + 4 * k \<le> 0x08100000"
    and "blank (fl_cells hw f) (unat a) (4 * k)"
  shows "\<exists>i' a' f'. flash_words hw k i a data f = Some (0, i', a', f')"
  using assms
proof (induction k arbitrary: i a data f)
  case (Suc k)
  have le: "a \<le> FLASH_END_ADDRESS - 3" using Suc.prems(2) by (simp add: word_le_nat_alt)
  have a1: "unat (a + 4) = unat a + 4" using Suc.prems(2) by (simp add: unat_word_ariths)
  have l4: "length (take 4 data) = 4" using Suc.prems(1) by simp
  obtain f1 where p: "FLASH_ProgramWord hw a (take 4 data) f = (True, f1)"
    "fl_cells hw f1 = program (fl_cells hw f) (unat a) (take 4 data)"
    using program_word_ok [OF l4] by blast
  have b: "blank (fl_cells hw f) (unat a) 4" "blank (fl_cells hw f) (unat a + 4) (4 * k)"
    using Suc.prems(3) blank_split [of _ "unat a" 4 "4 * k"] by simp_all
  have p2: "fl_cells hw f1 = patch (fl_cells hw f) (unat a) (take 4 data)"
    using program_blank [of _ "unat a" "take 4 data"] b(1) p(2) l4 by simp
  have "blank (fl_cells hw f1) (unat (a + 4)) (4 * k)" unfolding p2 a1
    by (subst blank_patch) (use b(2) in auto)
  moreover have "4 * k \<le> length (drop 4 data)" using Suc.prems(1) by auto
  ultimately obtain i' a' f' where "flash_words hw k (i + 1) (a + 4) (drop 4 data) f1 = Some (0, i', a', f')"
    using Suc.IH [of "drop 4 data" "a + 4" f1 "i + 1"] Suc.prems(2) by (auto simp: a1)
  moreover have "mread (fl_cells hw f1) (unat a) 4 = take 4 data"
    unfolding p2 using mread_patch [of _ "unat a" "take 4 data"] l4 by simp
  ultimately show ?case using le p(1) l4 by simp
qed simp

lemma aligned_write_total:
  assumes d: "unat n \<le> length data" and a: "unat a + unat n \<le> 0x08100000"
    and b: "blank (fl_cells hw f) (unat a) (unat n)"
  shows "\<exists>a' f'. flash_aligned_write hw a data n f = Some (0, a', f')"
proof -
  define k where "k = unat n div 4"
  have k: "unat (n div 4) = k" by (simp add: unat_div k_def)
  have N: "unat n = 4 * k + unat n mod 4" by (simp add: k_def)
  have kd: "4 * k \<le> length data" "unat a + 4 * k \<le> 0x08100000" using N d a by linarith+
  have bb: "blank (fl_cells hw f) (unat a) (4 * k)"
    "blank (fl_cells hw f) (unat a + 4 * k) (unat n mod 4)"
    using b blank_split [of "fl_cells hw f" "unat a" "4 * k" "unat n mod 4"] N by simp_all
  obtain i a1 f1 where p: "flash_words hw k 0 a data f = Some (0, i, a1, f1)"
    using words_total [OF kd bb(1), of 0] by blast
  have s: "i = k" "a1 = a + of_nat (4 * k)"
    "fl_cells hw f1 = patch (fl_cells hw f) (unat a) (take (4 * k) data)"
    using words_patch [OF p kd(2)] by auto
  have a1: "unat a1 = unat a + 4 * k"
    using kd(2) unfolding s(2) by (simp add: unat_word_ariths unat_of_nat)
  have k4: "unat (of_nat (k * 4) :: u32) = k * 4" unfolding unat_of_nat using N a by simp
  then have le: "of_nat (k * 4) \<le> n" using N unfolding word_le_nat_alt by linarith
  have left: "unat (n - of_nat (k * 4)) = unat n mod 4"
    unfolding unat_sub [OF le] k4 using N by (metis add_diff_cancel_left' mult.commute)
  have "blank (fl_cells hw f1) (unat a1) (unat n mod 4)"
    unfolding s(3) a1 by (subst blank_patch) (use bb(2) kd(1) in auto)
  moreover have "unat n mod 4 \<le> length (drop (4 * k) data)" using d N by (simp; linarith)
  moreover have "unat a1 + unat n mod 4 \<le> 0x08100000" unfolding a1 using a N by linarith
  ultimately obtain a' f' where
    "internalFlashByteWrite hw (unat n mod 4) a1 (drop (4 * k) data) f1 = Some (0, a', f')"
    using byte_write_total by blast
  then show ?thesis using p s(1) left by (simp add: flash_aligned_write_def k mult.commute)
qed

lemma write_total:
  assumes d: "unat n \<le> length data" and a: "unat a + unat n \<le> 0x08100000"
    and b: "blank (fl_cells hw f) (unat a) (unat n)"
    and short: "unat a mod 4 = 0 \<or> 4 - unat a mod 4 \<le> unat n"
  shows "\<exists>a' f'. internalFlashWrite hw a data n f = Some (0, a', f')"
proof (cases "a mod 4 = 0")
  case True
  then show ?thesis using aligned_write_total [OF d a b] by (simp add: internalFlashWrite_def)
next
  case False
  define st where "st = (ucast (4 - a mod 4) :: u8)"
  have st: "unat st = 4 - unat a mod 4" "0 < unat a mod 4"
    unfolding st_def using start_number [OF False] by auto
  then have le: "unat st \<le> unat n" using short by auto
  have bb: "blank (fl_cells hw f) (unat a) (unat st)"
    "blank (fl_cells hw f) (unat a + unat st) (unat n - unat st)"
    using b blank_split [of "fl_cells hw f" "unat a" "unat st" "unat n - unat st"] le by simp_all
  have sd: "unat st \<le> length data" "unat a + unat st \<le> 0x08100000" using le d a by linarith+
  obtain a1 f1 where p: "internalFlashByteWrite hw (unat st) a data f = Some (0, a1, f1)"
    using byte_write_total [OF sd bb(1)] by blast
  have s: "a1 = a + of_nat (unat st)"
    "fl_cells hw f1 = patch (fl_cells hw f) (unat a) (take (unat st) data)"
    using byte_write_patch [OF p sd(2)] by auto
  have a1: "unat a1 = unat a + unat st"
    using sd(2) unfolding s(1) of_nat_unat by (simp add: unat_word_ariths unat_ucast32)
  have "ucast st \<le> n" using le by (simp add: word_le_nat_alt unat_ucast32)
  then have n': "unat (n - ucast st) = unat n - unat st" by (simp add: unat_sub unat_ucast32)
  have "blank (fl_cells hw f1) (unat a1) (unat n - unat st)"
    unfolding s(2) a1 by (subst blank_patch) (use bb(2) sd(1) in auto)
  then obtain a' f' where
    "flash_aligned_write hw a1 (drop (unat st) data) (n - ucast st) f1 = Some (0, a', f')"
    using aligned_write_total [of "n - ucast st" "drop (unat st) data" a1 f1] a le
      diff_le_mono [OF d, of "unat st"]
    by (auto simp: n' a1)
  then show ?thesis using p False by (simp add: internalFlashWrite_def Let_def flip: st_def)
qed

end

section \<open>The part\<close>

text \<open>The array itself as the device: programming clears bits, erasing sets a sector.\<close>

definition stm32_hw :: "cells flash_hw" where
  "stm32_hw =
     \<lparr>fl_cells = (\<lambda>m. m),
      FLASH_ProgramWord = (\<lambda>a ds m. (True, program m (unat a) (take 4 ds))),
      FLASH_ProgramByte = (\<lambda>a d m. (True, program m (unat a) [d])),
      FLASH_EraseSector = (\<lambda>i m. let n = unat i div 8 in
         if n < 12 then (True, erase m (sector_base n) (sector_base (Suc n) - sector_base n))
         else (False, m)),
      FLASH_Unlock = (\<lambda>m. m)\<rparr>"

lemma sector_number: "n < 12 \<Longrightarrow> unat (of_nat (8 * n) :: u32) div 8 = n"
  by (simp only: unat_of_nat) simp

interpretation stm32: mcu_nor_ok stm32_hw
proof
  show "fl_cells stm32_hw f' x = fl_cells stm32_hw f x"
    if "FLASH_ProgramByte stm32_hw a d f = (complete, f')" "x \<noteq> unat a" for a d f complete f' x
    using that by (auto simp: stm32_hw_def intro!: program_outside)
  show "fl_cells stm32_hw f' x = fl_cells stm32_hw f x"
    if "FLASH_ProgramWord stm32_hw a ds f = (complete, f')" "x < unat a \<or> unat a + 4 \<le> x"
    for a ds f complete f' x
    using that by (auto simp: stm32_hw_def intro!: program_outside)
  show "fl_cells stm32_hw f' =
      erase (fl_cells stm32_hw f) (sector_base n) (sector_base (Suc n) - sector_base n)"
    if "n < 12" "FLASH_EraseSector stm32_hw (of_nat (8 * n)) f = (True, f')" for n f f'
    using that sector_number [OF that(1)] by (simp add: stm32_hw_def Let_def)
qed (simp_all add: stm32_hw_def)

text \<open>The first loop always runs up to the next word boundary.\<close>

lemma short_unaligned_fails:
  assumes "unat a mod 4 \<noteq> 0" and "length data < 4 - unat a mod 4" and "unat a \<le> 0x08100000"
    and w: "internalFlashWrite hw a data n f = Some (kNoErr, a', f')"
  shows False
proof -
  have "unat (a mod 4) = unat a mod 4" by (simp add: unat_mod)
  then have am: "a mod 4 \<noteq> 0" using assms(1) by (metis unsigned_0)
  obtain a1 f1 where "internalFlashByteWrite hw (4 - unat a mod 4) a data f = Some (0, a1, f1)"
    using w am start_number(1) [OF am]
    by (auto simp: internalFlashWrite_def Let_def bind_eq_Some_conv split: if_splits)
  moreover have "unat a + (4 - unat a mod 4) \<le> 0x08100000" using assms(1,3) by presburger
  ultimately show False using byte_write_within assms(2) by (metis not_le)
qed

section \<open>Properties\<close>

text \<open>
  C23. Verified writing: whatever the flash hardware does - words that do not take their value, commands
  that report completion without programming - if \<open>internalFlashWrite\<close> returns \<open>kNoErr\<close>, the
  destination holds exactly the caller's bytes, no other cell has changed and the address has advanced
  by the length. The demand on the hardware is that programming touches no other address; the range ends within
  the flash. A write that is shorter than the distance from an unaligned address to the next word is covered only when the caller's
  block ends with its data, because there the first loop goes on to program what lies behind the data (then such
  a write does not succeed; see \<open>internalFlashWrite_short_unaligned\<close>). For all other writes the
  block may be longer than the data.
\<close>

theorem internalFlashWrite_verified:
  assumes "mcu_nor hw" and "internalFlashWrite hw a data n f = Some (kNoErr, a', f')"
    and "unat a + unat n \<le> 0x08100000"
    and "unat a mod 4 = 0 \<or> 4 - unat a mod 4 \<le> unat n \<or> length data = unat n"
  shows "mread (fl_cells hw f') (unat a) (unat n) = take (unat n) data \<and>
    (\<forall>x. x < unat a \<or> unat a + unat n \<le> x \<longrightarrow> fl_cells hw f' x = fl_cells hw f x) \<and> a' = a + n"
proof -
  have "unat a mod 4 = 0 \<or> 4 - unat a mod 4 \<le> unat n"
    using short_unaligned_fails [OF _ _ _ assms(2)] assms(3,4) by fastforce
  note w = mcu_nor.write_patch [OF assms(1-3) this]
  have p: "unat n \<le> length data" "a' = a + n"
    "fl_cells hw f' = patch (fl_cells hw f) (unat a) (take (unat n) data)"
    using w by simp_all
  then have l: "length (take (unat n) data) = unat n" by simp
  show ?thesis unfolding p(2,3) using mread_patch [of _ "unat a" "take (unat n) data"]
    unfolding l by (auto simp: patch_outside)
qed

theorem internalFlashWrite_verified_witness:
  "\<exists>f'. internalFlashWrite stm32_hw 0x08000003 [1, 2, 3, 4, 5, 6] 6 (\<lambda>x. 0xFF) = Some (kNoErr, 0x08000009, f') \<and>
    mread f' 0x08000003 6 = [1, 2, 3, 4, 5, 6]"
proof -
  have "\<exists>a' f'. internalFlashWrite stm32_hw 0x08000003 [1, 2, 3, 4, 5, 6] 6 (\<lambda>x. 0xFF) = Some (kNoErr, a', f')"
    by (simp add: internalFlashWrite_def flash_aligned_write_def stm32_hw_def program_def mread_def upt_rec)
  then obtain a' f' where w: "internalFlashWrite stm32_hw 0x08000003 [1, 2, 3, 4, 5, 6] 6 (\<lambda>x. 0xFF) =
      Some (kNoErr, a', f')" by blast
  with internalFlashWrite_verified [OF stm32.mcu_nor_axioms w] show ?thesis
    by (simp add: stm32_hw_def)
qed

text \<open>
  Short unaligned writes: the first loop always runs up to the next word boundary. A write of
  fewer bytes than that never succeeds - on any hardware it fails or goes on to read beyond the
  caller's data.
\<close>

theorem internalFlashWrite_short_unaligned:
  assumes "a mod 4 \<noteq> 0" and "length data < 4 - unat a mod 4" and "unat a + 4 \<le> 0x08100000"
  shows "internalFlashWrite hw a data n f \<noteq> Some (kNoErr, a', f')"
  using short_unaligned_fails [OF _ assms(2)] start_number [OF assms(1)] assms(3) by auto

theorem internalFlashWrite_short_unaligned_witness:
  "\<forall>f'. internalFlashWrite stm32_hw 0x08000001 [7] 1 (\<lambda>x. 0xFF) \<noteq> Some (kNoErr, 0x08000002, f')"
  by (intro allI internalFlashWrite_short_unaligned) simp_all

text \<open>
  Erasing: when \<open>internalFlashErase\<close> returns \<open>kNoErr\<close>, every even word (the four bytes at an address
  divisible by eight) of every sector between the two addresses is blank, and nothing outside
  those sectors has changed. Odd words are not covered.
\<close>

theorem internalFlashErase_even_words:
  assumes "mcu_erase hw" and "internalFlashErase hw a b f = (kNoErr, f')"
    and "0x08000000 \<le> unat a" and "a \<le> b" and "unat b < 0x08100000"
  shows "\<exists>lo hi. lo \<le> unat a \<and> unat b < hi \<and> even_words_blank (fl_cells hw f') lo hi \<and>
    (\<forall>x. x < lo \<or> hi \<le> x \<longrightarrow> fl_cells hw f' x = fl_cells hw f x) \<and>
    lo \<in> range sector_base \<and> hi \<in> range sector_base"
proof -
  have ab: "unat a \<le> unat b" using assms(4) by (simp add: word_le_nat_alt)
  obtain n where n: "n < 12" "GetSector a = of_nat (8 * n)" "sector_base n \<le> unat a"
    using GetSector_range [of a] assms(3,5) ab by auto
  obtain N where N: "N < 12" "GetSector b = of_nat (8 * N)" "sector_base N \<le> unat b" "unat b < sector_base (Suc N)"
    using GetSector_range [of b] assms(3,5) ab by auto
  have "n \<le> Suc N"
  proof (rule ccontr)
    assume "\<not> n \<le> Suc N"
    then have "sector_base (Suc N) \<le> sector_base n" using n(1) by (intro sector_base_le) auto
    then show False using n(3) N(4) ab by simp
  qed
  moreover have "unat (of_nat (8 * n) :: u32) = 8 * n" "unat (of_nat (8 * N) :: u32) = 8 * N"
    unfolding unat_of_nat using n(1) N(1) by simp_all
  ultimately have "(\<forall>x. x < sector_base n \<or> sector_base (Suc N) \<le> x \<longrightarrow> fl_cells hw f' x = fl_cells hw f x) \<and>
    even_words_blank (fl_cells hw f') (sector_base n) (sector_base (Suc N))"
    using mcu_erase.erase_sectors_done [OF assms(1) _ N(1)] assms(2)
    by (simp add: internalFlashErase_def n(2) N(2) del: of_nat_mult)
  with n(3) N(4) show ?thesis by blast
qed

theorem internalFlashErase_even_words_witness:
  "\<exists>f'. internalFlashErase stm32_hw 0x08000000 0x08000003 (\<lambda>x. if x = 0x08000000 then 0 else 0xFF) =
      (kNoErr, f') \<and> f' 0x08000000 = 0xFF"
proof -
  let ?f = "(\<lambda>x. if x = 0x08000000 then 0 else 0xFF) :: cells"
  have "\<exists>f'. internalFlashErase stm32_hw 0x08000000 0x08000003 ?f = (kNoErr, f')"
    by (simp add: internalFlashErase_def GetSector_def erase_sectors.simps [of _ 0 0]
        erase_sectors.simps [of _ "Suc _"] erase_sectors.simps [of _ "8"] GetAddress_def
        stm32_hw_def blank_check.simps mread_4)
  then obtain f' where e: "internalFlashErase stm32_hw 0x08000000 0x08000003 ?f = (kNoErr, f')" by blast
  from internalFlashErase_even_words [OF stm32.mcu_erase_axioms this]
  obtain lo hi where "lo \<le> 0x08000000" "0x08000003 < hi" "even_words_blank f' lo hi"
    by (auto simp: stm32_hw_def)
  then have "f' 0x08000000 = 0xFF" by (simp add: even_words_blank_def)
  with e show ?thesis by blast
qed

text \<open>
  The blank check steps over every second word: a sector whose even words are blank is taken for
  erased, so data in its odd words survives an erase that reports success.
\<close>

theorem internalFlashErase_keeps_odd_words:
  assumes "n < 12" and "even_words_blank (fl_cells hw f) (sector_base n) (sector_base (Suc n))"
    and "GetSector a = of_nat (8 * n)" and "GetSector b = of_nat (8 * n)"
  shows "internalFlashErase hw a b f = (kNoErr, f)"
proof -
  define e' where "e' = (if n = 11 then 0x080FFFFE else sector_base (Suc n) - 1)"
  have lt: "sector_base n < sector_base (Suc n)" by (rule sector_base_mono [OF assms(1)])
  have top: "sector_base (Suc n) \<le> 0x08100000" using sector_base_top [of "Suc n"] assms(1) by simp
  have u: "unat (of_nat (8 * n) :: u32) = 8 * n" "unat (of_nat (sector_base n) :: u32) = sector_base n"
    "unat (of_nat e' :: u32) = e'"
    unfolding unat_of_nat using assms(1) lt top by (simp_all add: e'_def)
  obtain q q' where q: "sector_base n = 8 * q" "sector_base (Suc n) = 8 * q'"
    using sector_base_8 [of n] sector_base_8 [of "Suc n"] assms(1) by auto
  have "sector_base (Suc n) \<le> e' + 8" "e' < sector_base (Suc n)"
    using lt by (auto simp: e'_def sector_base_def)
  then have "blank_check (fl_cells hw f) (sector_base n) e'"
    using blank_check_even_words [OF q lt] assms(2) by simp
  then show ?thesis
    using GetAddress_sector [OF assms(1)] u
    by (simp add: internalFlashErase_def assms(3,4) erase_sectors.simps [of hw "8 * n"]
        erase_sectors.simps [of hw "8 * n + 8"] flip: e'_def del: of_nat_mult)
qed

theorem internalFlashErase_keeps_odd_words_witness:
  "internalFlashErase stm32_hw 0x08000000 0x08003FFF (\<lambda>x. if x = 0x08000004 then 0 else 0xFF) =
     (kNoErr, \<lambda>x. if x = 0x08000004 then 0 else 0xFF)"
  by (rule internalFlashErase_keeps_odd_words [of 0])
     (simp_all add: GetSector_def even_words_blank_def stm32_hw_def)

end
