(* ===== verification/MicoFlash.thy ===== *)
theory MicoFlash
  imports McuFlash
begin

text \<open>
  Logical flash partitions, \<open>mico_platform_common.c\<close>, over the tables of the board
  (\<open>Board/MiCOKit-3165/platform.c\<close>). Every operation translates an offset into an address of the
  owning device, checks the partition's options and bounds, initialises the driver on first use and
  calls the driver under the driver's mutex. The tables are arrays: an index outside
  \<open>mico_partitions\<close> is \<open>None\<close>. The real-time kernel is a parameter: the status \<open>init_mutex\<close> of
  creating a mutex; in a sequence of calls of one thread locking has no further effect.
\<close>

section \<open>Tables\<close>

datatype mico_flash_t = MICO_FLASH_EMBEDDED | MICO_FLASH_SPI | MICO_FLASH_MAX | MICO_FLASH_NONE

record mico_logic_partition_t =
  partition_owner :: mico_flash_t
  partition_start_addr :: u32
  partition_length :: u32
  partition_options :: u32

abbreviation MICO_PARTITION_ERROR :: int where "MICO_PARTITION_ERROR \<equiv> - 1"
abbreviation MICO_PARTITION_BOOTLOADER :: int where "MICO_PARTITION_BOOTLOADER \<equiv> 0"
abbreviation MICO_PARTITION_APPLICATION :: int where "MICO_PARTITION_APPLICATION \<equiv> 1"
abbreviation MICO_PARTITION_ATE :: int where "MICO_PARTITION_ATE \<equiv> 2"
abbreviation MICO_PARTITION_OTA_TEMP :: int where "MICO_PARTITION_OTA_TEMP \<equiv> 3"
abbreviation MICO_PARTITION_RF_FIRMWARE :: int where "MICO_PARTITION_RF_FIRMWARE \<equiv> 4"
abbreviation MICO_PARTITION_PARAMETER_1 :: int where "MICO_PARTITION_PARAMETER_1 \<equiv> 5"
abbreviation MICO_PARTITION_PARAMETER_2 :: int where "MICO_PARTITION_PARAMETER_2 \<equiv> 6"
abbreviation MICO_PARTITION_MAX :: int where "MICO_PARTITION_MAX \<equiv> 7"

abbreviation PAR_OPT_READ_EN :: u32 where "PAR_OPT_READ_EN \<equiv> 1"
abbreviation PAR_OPT_WRITE_EN :: u32 where "PAR_OPT_WRITE_EN \<equiv> 2"
abbreviation PAR_OPT_READ_MASK :: u32 where "PAR_OPT_READ_MASK \<equiv> 1"
abbreviation PAR_OPT_WRITE_MASK :: u32 where "PAR_OPT_WRITE_MASK \<equiv> 2"

text \<open>In the order of the enumeration; the table does not mention \<open>MICO_PARTITION_ATE\<close>, whose entry
  is therefore zero.\<close>

definition mico_partitions :: "mico_logic_partition_t list" where
  "mico_partitions =
    [\<lparr>partition_owner = MICO_FLASH_EMBEDDED, partition_start_addr = 0x08000000,
      partition_length = 0x8000, partition_options = PAR_OPT_READ_EN\<rparr>,
     \<lparr>partition_owner = MICO_FLASH_EMBEDDED, partition_start_addr = 0x0800C000,
      partition_length = 0x74000, partition_options = PAR_OPT_READ_EN\<rparr>,
     \<lparr>partition_owner = MICO_FLASH_EMBEDDED, partition_start_addr = 0,
      partition_length = 0, partition_options = 0\<rparr>,
     \<lparr>partition_owner = MICO_FLASH_SPI, partition_start_addr = 0x40000,
      partition_length = 0x70000, partition_options = PAR_OPT_READ_EN OR PAR_OPT_WRITE_EN\<rparr>,
     \<lparr>partition_owner = MICO_FLASH_SPI, partition_start_addr = 0x2000,
      partition_length = 0x3E000, partition_options = PAR_OPT_READ_EN\<rparr>,
     \<lparr>partition_owner = MICO_FLASH_SPI, partition_start_addr = 0,
      partition_length = 0x1000, partition_options = PAR_OPT_READ_EN OR PAR_OPT_WRITE_EN\<rparr>,
     \<lparr>partition_owner = MICO_FLASH_SPI, partition_start_addr = 0x1000,
      partition_length = 0x1000, partition_options = PAR_OPT_READ_EN OR PAR_OPT_WRITE_EN\<rparr>]"

definition platform_flash_peripherals :: "mico_flash_t \<Rightarrow> platform_flash_t option" where
  "platform_flash_peripherals owner =
     (case owner of
        MICO_FLASH_EMBEDDED \<Rightarrow> Some \<lparr>flash_type = FLASH_TYPE_EMBEDDED,
          flash_start_addr = 0x08000000, flash_length = 0x80000\<rparr>
      | MICO_FLASH_SPI \<Rightarrow> Some \<lparr>flash_type = FLASH_TYPE_SPI,
          flash_start_addr = 0x000000, flash_length = 0x200000\<rparr>
      | _ \<Rightarrow> None)"

record platform_flash_driver_t =
  flash_mutex :: bool
  initialized :: bool

record ('f, 'c) mico_env = "('f, 'c) flash_env" +
  init_mutex :: OSStatus
  bootloader :: bool

record ('f, 'c) flash_sys =
  drivers :: "mico_flash_t \<Rightarrow> platform_flash_driver_t"
  devices :: "('f, 'c) flash_state"

section \<open>Operations\<close>

definition partition_at :: "int \<Rightarrow> mico_logic_partition_t option" where
  "partition_at i =
     (if 0 \<le> i \<and> nat i < length mico_partitions then Some (mico_partitions ! nat i) else None)"

definition MicoFlashGetInfo :: "int \<Rightarrow> mico_logic_partition_t option" where
  "MicoFlashGetInfo inPartition =
     (if inPartition < 0 \<or> inPartition \<ge> MICO_PARTITION_MAX then None else partition_at inPartition)"

text \<open>The driver is marked as initialised whatever \<open>platform_flash_init\<close> returned.\<close>

definition MicoFlashInitialize ::
  "('f, 'c) mico_env \<Rightarrow> int \<Rightarrow> ('f, 'c) flash_sys \<Rightarrow> (OSStatus \<times> ('f, 'c) flash_sys) option" where
  "MicoFlashInitialize env par s =
     (if \<not> par > MICO_PARTITION_ERROR then Some (kParamErr, s)
      else if \<not> par < MICO_PARTITION_MAX then Some (kParamErr, s)
      else do {
        p \<leftarrow> partition_at par;
        let owner = partition_owner p;
        if owner = MICO_FLASH_NONE then Some (kNotFoundErr, s)
        else if \<not> flash_mutex (drivers s owner) \<and> init_mutex env \<noteq> kNoErr then Some (init_mutex env, s)
        else do {
          (err, d) \<leftarrow> platform_flash_init (flash_env.truncate env) (platform_flash_peripherals owner) (devices s);
          Some (err, \<lparr>drivers = (drivers s)(owner := \<lparr>flash_mutex = True, initialized = True\<rparr>),
                      devices = d\<rparr>)
        }
      })"

text \<open>The checks that the operations share, in their order; \<open>opt\<close> and \<open>en\<close> are those of reading or
  writing, or zero for the operations that do not look at the options.\<close>

definition flash_checks ::
  "int \<Rightarrow> mico_logic_partition_t \<Rightarrow> bool \<Rightarrow> u32 \<Rightarrow> u32 \<Rightarrow> u32 \<Rightarrow> OSStatus" where
  "flash_checks par p boot opt start_addr end_addr =
     (if \<not> par > MICO_PARTITION_ERROR then kParamErr
      else if \<not> par < MICO_PARTITION_MAX then kParamErr
      else if partition_owner p = MICO_FLASH_NONE then kNotFoundErr
      else if \<not> boot \<and> partition_options p AND opt \<noteq> opt then kPermissionErr
      else if \<not> start_addr \<ge> partition_start_addr p then kParamErr
      else if \<not> end_addr < partition_start_addr p + partition_length p then kParamErr
      else kNoErr)"

definition flash_ensure_init ::
  "('f, 'c) mico_env \<Rightarrow> int \<Rightarrow> mico_flash_t \<Rightarrow> ('f, 'c) flash_sys \<Rightarrow> (OSStatus \<times> ('f, 'c) flash_sys) option" where
  "flash_ensure_init env par owner s =
     (if \<not> initialized (drivers s owner) then MicoFlashInitialize env par s else Some (kNoErr, s))"

definition MicoFlashErase ::
  "('f, 'c) mico_env \<Rightarrow> int \<Rightarrow> u32 \<Rightarrow> u32 \<Rightarrow> ('f, 'c) flash_sys \<Rightarrow> (OSStatus \<times> ('f, 'c) flash_sys) option" where
  "MicoFlashErase env par off_set n s = do {
     p \<leftarrow> partition_at par;
     let start_addr = partition_start_addr p + off_set;
     let end_addr = partition_start_addr p + off_set + n - 1;
     if n = 0 then Some (kNoErr, s)
     else let err = flash_checks par p (bootloader env) PAR_OPT_WRITE_MASK start_addr end_addr in
       if err \<noteq> kNoErr then Some (err, s)
       else do {
         (err, s1) \<leftarrow> flash_ensure_init env par (partition_owner p) s;
         if err \<noteq> kNoErr then Some (err, s1)
         else do {
           (err, d) \<leftarrow> platform_flash_erase (flash_env.truncate env)
             (platform_flash_peripherals (partition_owner p)) start_addr end_addr (devices s1);
           Some (err, s1\<lparr>devices := d\<rparr>)
         }
       }
   }"

definition MicoFlashWrite ::
  "('f, 'c) mico_env \<Rightarrow> int \<Rightarrow> u32 \<Rightarrow> bytes \<Rightarrow> u32 \<Rightarrow> ('f, 'c) flash_sys
     \<Rightarrow> (OSStatus \<times> u32 \<times> ('f, 'c) flash_sys) option" where
  "MicoFlashWrite env par off_set inBuffer inBufferLength s = do {
     p \<leftarrow> partition_at par;
     let start_addr = partition_start_addr p + off_set;
     let end_addr = partition_start_addr p + off_set + inBufferLength - 1;
     if inBufferLength = 0 then Some (kNoErr, off_set, s)
     else let err = flash_checks par p (bootloader env) PAR_OPT_WRITE_MASK start_addr end_addr in
       if err \<noteq> kNoErr then Some (err, off_set, s)
       else do {
         (err, s1) \<leftarrow> flash_ensure_init env par (partition_owner p) s;
         if err \<noteq> kNoErr then Some (err, off_set, s1)
         else do {
           (err, a, d) \<leftarrow> platform_flash_write (flash_env.truncate env)
             (platform_flash_peripherals (partition_owner p)) start_addr inBuffer inBufferLength (devices s1);
           Some (err, a - partition_start_addr p, s1\<lparr>devices := d\<rparr>)
         }
       }
   }"

definition MicoFlashRead ::
  "('f, 'c) mico_env \<Rightarrow> int \<Rightarrow> u32 \<Rightarrow> u32 \<Rightarrow> ('f, 'c) flash_sys
     \<Rightarrow> (OSStatus \<times> u32 \<times> bytes \<times> ('f, 'c) flash_sys) option" where
  "MicoFlashRead env par off_set inBufferLength s = do {
     p \<leftarrow> partition_at par;
     let start_addr = partition_start_addr p + off_set;
     let end_addr = partition_start_addr p + off_set + inBufferLength - 1;
     if inBufferLength = 0 then Some (kNoErr, off_set, [], s)
     else let err = flash_checks par p (bootloader env) PAR_OPT_READ_MASK start_addr end_addr in
       if err \<noteq> kNoErr then Some (err, off_set, [], s)
       else do {
         (err, s1) \<leftarrow> flash_ensure_init env par (partition_owner p) s;
         if err \<noteq> kNoErr then Some (err, off_set, [], s1)
         else do {
           (err, a, ds, d) \<leftarrow> platform_flash_read (flash_env.truncate env)
             (platform_flash_peripherals (partition_owner p)) start_addr inBufferLength (devices s1);
           Some (err, a - partition_start_addr p, ds, s1\<lparr>devices := d\<rparr>)
         }
       }
   }"

definition MicoFlashEnableSecurity ::
  "('f, 'c) mico_env \<Rightarrow> int \<Rightarrow> u32 \<Rightarrow> u32 \<Rightarrow> ('f, 'c) flash_sys \<Rightarrow> (OSStatus \<times> ('f, 'c) flash_sys) option" where
  "MicoFlashEnableSecurity env par off_set n s = do {
     p \<leftarrow> partition_at par;
     let start_addr = partition_start_addr p + off_set;
     let end_addr = partition_start_addr p + off_set + n - 1;
     if n = 0 then Some (kNoErr, s)
     else let err = flash_checks par p True 0 start_addr end_addr in
       if err \<noteq> kNoErr then Some (err, s)
       else do {
         (err, s1) \<leftarrow> flash_ensure_init env par (partition_owner p) s;
         if err \<noteq> kNoErr then Some (err, s1)
         else Some (platform_flash_enable_protect (platform_flash_peripherals (partition_owner p))
                      start_addr end_addr, s1)
       }
   }"

text \<open>Compiled for the boot loader only; unlike the others it does not accept an empty range.\<close>

definition MicoFlashDisableSecurity ::
  "('f, 'c) mico_env \<Rightarrow> int \<Rightarrow> u32 \<Rightarrow> u32 \<Rightarrow> ('f, 'c) flash_sys \<Rightarrow> (OSStatus \<times> ('f, 'c) flash_sys) option" where
  "MicoFlashDisableSecurity env par off_set n s = do {
     p \<leftarrow> partition_at par;
     let start_addr = partition_start_addr p + off_set;
     let end_addr = partition_start_addr p + off_set + n - 1;
     let err = flash_checks par p True 0 start_addr end_addr;
     if err \<noteq> kNoErr then Some (err, s)
     else do {
       (err, s1) \<leftarrow> flash_ensure_init env par (partition_owner p) s;
       if err \<noteq> kNoErr then Some (err, s1)
       else Some (platform_flash_disable_protect (platform_flash_peripherals (partition_owner p))
                    start_addr end_addr, s1)
     }
   }"

text \<open>The 33-byte buffer \<open>ver\<close> is cleared and receives 32 bytes from the end of the boot loader.\<close>

definition mico_get_bootloader_ver ::
  "('f, 'c) mico_env \<Rightarrow> ('f, 'c) flash_sys \<Rightarrow> (bytes \<times> ('f, 'c) flash_sys) option" where
  "mico_get_bootloader_ver env s = do {
     p \<leftarrow> partition_at MICO_PARTITION_BOOTLOADER;
     let version_offset = partition_length p - 0x20;
     (err, off, ds, s1) \<leftarrow> MicoFlashRead env MICO_PARTITION_BOOTLOADER version_offset 32 s;
     Some (ds @ replicate (33 - length ds) 0, s1)
   }"

section \<open>Partitions on the serial flash\<close>

text \<open>A partition of the serial flash whose options grant \<open>opt\<close>.\<close>

definition spi_partition :: "int \<Rightarrow> mico_logic_partition_t \<Rightarrow> u32 \<Rightarrow> bool" where
  "spi_partition par p opt \<longleftrightarrow> partition_at par = Some p \<and> 0 \<le> par \<and> par < MICO_PARTITION_MAX \<and>
     partition_owner p = MICO_FLASH_SPI \<and> partition_options p AND opt = opt \<and>
     unat (partition_start_addr p) + unat (partition_length p) \<le> 0x200000 \<and>
     unat (partition_start_addr p) mod 4096 = 0 \<and> unat (partition_length p) mod 4096 = 0"

lemma range_checks:
  assumes p: "spi_partition par p opt" and n: "0 < unat n"
    and r: "unat off + unat n \<le> unat (partition_length p)"
  shows "flash_checks par p boot opt (partition_start_addr p + off)
      (partition_start_addr p + off + n - 1) = kNoErr"
    and "unat (partition_start_addr p + off) = unat (partition_start_addr p) + unat off"
    and "unat (partition_start_addr p + off + n - 1) = unat (partition_start_addr p) + unat off + unat n - 1"
    and "unat (partition_start_addr p + off + n) = unat (partition_start_addr p) + unat off + unat n"
proof -
  define S L F N where "S = unat (partition_start_addr p)" and "L = unat (partition_length p)"
    and "F = unat off" and "N = unat n"
  have b: "S + L \<le> 0x200000" "F + N \<le> L" "0 < N"
    using assms by (simp_all add: spi_partition_def S_def L_def F_def N_def)
  show a: "unat (partition_start_addr p + off) = S + F"
    using b by (simp add: unat_word_ariths S_def F_def)
  show c: "unat (partition_start_addr p + off + n) = S + F + N"
    using b by (subst unat_word_ariths) (simp add: a flip: N_def)
  have "1 \<le> partition_start_addr p + off + n" using b by (simp add: word_le_nat_alt c)
  then show e: "unat (partition_start_addr p + off + n - 1) = S + F + N - 1"
    by (simp add: unat_sub c)
  have l: "unat (partition_start_addr p + partition_length p) = S + L"
    using b by (simp add: unat_word_ariths S_def L_def)
  show "flash_checks par p boot opt (partition_start_addr p + off)
      (partition_start_addr p + off + n - 1) = kNoErr"
    using p b by (simp add: flash_checks_def spi_partition_def word_le_nat_alt word_less_nat_alt
        a e l flip: S_def)
qed

text \<open>The boot loader's build does not look at the options.\<close>

lemma checks_for:
  assumes "spi_partition par p opt" and "boot \<or> opt = en" and "0 < unat n"
    and "unat off + unat n \<le> unat (partition_length p)"
  shows "flash_checks par p boot en (partition_start_addr p + off)
      (partition_start_addr p + off + n - 1) = kNoErr"
proof -
  have "flash_checks par p True a x y = flash_checks par p True b x y" for a b x y
    by (simp add: flash_checks_def)
  then show ?thesis using range_checks(1) [OF assms(1,3,4), of boot] assms(2) by (cases boot) metis+
qed

locale mico_spi = spi_nor "env_xfer env" cells_of wel prot pending "0x200000"
  for env :: "('f, 'c) mico_env" and cells_of :: "'c \<Rightarrow> cells" and wel :: "'c \<Rightarrow> bool"
    and prot :: "'c \<Rightarrow> u8" and pending :: "'c \<Rightarrow> nat"
begin

definition sys_ready :: "('f, 'c) flash_sys \<Rightarrow> bool" where
  "sys_ready s \<longleftrightarrow> initialized (drivers s MICO_FLASH_SPI) \<and>
     write_allowed (sflash_handle (devices s)) = SFLASH_WRITE_ALLOWED \<and> ready (chip (devices s))"

definition spi_cells :: "('f, 'c) flash_sys \<Rightarrow> cells" where
  "spi_cells s = cells_of (chip (devices s))"

lemma env_truncate [simp]: "env_xfer (flash_env.truncate env) = env_xfer env"
  by (simp add: flash_env.truncate_def)

lemma spi_sectors_done:
  assumes "ready c" and "write_allowed h = SFLASH_WRITE_ALLOWED" and "E < 512" and "i \<le> Suc E"
  shows "\<exists>c'. spi_sectors (env_xfer env) h i E c = Some (0, c') \<and> ready c' \<and>
    cells_of c' = erase (cells_of c) (i * 4096) ((Suc E - i) * 4096)"
  using assms(1,4)
proof (induction "Suc E - i" arbitrary: i c)
  case 0
  then show ?case by (simp add: spi_sectors.simps)
next
  case (Suc k)
  have i: "i \<le> E" "i < 512" using Suc.hyps(2) assms(3) by auto
  have pb: "unat (push_bit 12 (of_nat i :: u32)) = i * 4096"
    using i by (simp add: push_bit_eq_mult unat_word_ariths unat_of_nat)
  obtain c1 where e: "sflash_sector_erase (env_xfer env) h (push_bit 12 (of_nat i)) c = Some (0, c1)"
    "cells_of c1 = erase (cells_of c) (i * 4096) 4096" "ready c1"
    using sector_erase_done [OF Suc.prems(1) assms(2), of "push_bit 12 (of_nat i)"] i
    by (auto simp: pb)
  obtain c2 where r: "spi_sectors (env_xfer env) h (Suc i) E c1 = Some (0, c2)" "ready c2"
    "cells_of c2 = erase (cells_of c1) (Suc i * 4096) ((Suc E - Suc i) * 4096)"
    using Suc.hyps(1) [OF _ e(3), of "Suc i"] Suc.hyps(2) i(1) by fastforce
  have "(Suc E - i) * 4096 = 4096 + (Suc E - Suc i) * 4096" using i(1) by simp
  then have "cells_of c2 = erase (cells_of c) (i * 4096) ((Suc E - i) * 4096)"
    unfolding r(3) e(2) using erase_append [of "cells_of c" "i * 4096" 4096 "(Suc E - Suc i) * 4096"]
    by (simp add: add.commute)
  then show ?case using e(1) r(1,2) i(1) by (subst spi_sectors.simps) simp
qed

text \<open>The driver of the serial flash by itself.\<close>

definition dev_ready :: "('f, 'c) flash_state \<Rightarrow> bool" where
  "dev_ready d \<longleftrightarrow> write_allowed (sflash_handle d) = SFLASH_WRITE_ALLOWED \<and> ready (chip d)"

lemma sys_ready_dev: "sys_ready s \<longleftrightarrow> initialized (drivers s MICO_FLASH_SPI) \<and> dev_ready (devices s)"
  by (simp add: sys_ready_def dev_ready_def)

lemma dev_write:
  assumes d: "dev_ready d" and n0: "0 < unat n" and n: "unat n < 65536" "unat n \<le> length buf"
    and r: "unat a + unat n \<le> 0x200000"
  shows "\<exists>d'. platform_flash_write (flash_env.truncate env) (platform_flash_peripherals MICO_FLASH_SPI) a buf n d =
      Some (kNoErr, a + n, d') \<and> dev_ready d' \<and> cells_of (chip d') = program (cells_of (chip d)) (unat a) (take (unat n) buf)"
proof -
  have c: "ready (chip d)" "write_allowed (sflash_handle d) = SFLASH_WRITE_ALLOWED"
    using d by (simp_all add: dev_ready_def)
  obtain c' where w: "sflash_write (env_xfer env) (sflash_handle d) a buf n (chip d) = Some (0, c')" "ready c'"
    "cells_of c' = program (cells_of (chip d)) (unat a) (take (unat n) buf)"
    using aligned_write_done [OF c n r] unaligned_write_done [OF c n r] by blast
  have e: "unat (a + n - 1) = unat a + unat n - 1" "unat (a + n) = unat a + unat n"
  proof -
    show s: "unat (a + n) = unat a + unat n" using r by (simp add: unat_word_ariths)
    then have "1 \<le> a + n" using n0 by (simp add: word_le_nat_alt)
    then show "unat (a + n - 1) = unat a + unat n - 1" by (simp add: unat_sub s)
  qed
  have "platform_flash_write (flash_env.truncate env) (platform_flash_peripherals MICO_FLASH_SPI) a buf n d =
      Some (kNoErr, a + n, d\<lparr>chip := c'\<rparr>)"
    using w(1) r by (simp add: platform_flash_write_def platform_flash_peripherals_def word_le_nat_alt e)
  then show ?thesis using w d by (simp add: dev_ready_def)
qed

lemma dev_read:
  assumes d: "dev_ready d" and n0: "0 < unat n" and r: "unat a + unat n \<le> 0x200000"
  shows "\<exists>d'. platform_flash_read (flash_env.truncate env) (platform_flash_peripherals MICO_FLASH_SPI) a n d =
      Some (kNoErr, a + n, mread (cells_of (chip d)) (unat a) (unat n), d') \<and> dev_ready d' \<and>
    cells_of (chip d') = cells_of (chip d)"
proof -
  have c: "ready (chip d)" using d by (simp add: dev_ready_def)
  obtain c' where w: "sflash_read (env_xfer env) a (unat n) (chip d) =
      Some (0, mread (cells_of (chip d)) (unat a) (unat n), c')" "cells_of c' = cells_of (chip d)" "ready c'"
    using read_done [OF c r n0] by blast
  have e: "unat (a + n) = unat a + unat n" using r by (simp add: unat_word_ariths)
  have "platform_flash_read (flash_env.truncate env) (platform_flash_peripherals MICO_FLASH_SPI) a n d =
      Some (kNoErr, a + n, mread (cells_of (chip d)) (unat a) (unat n), d\<lparr>chip := c'\<rparr>)"
    using w(1) r by (simp add: platform_flash_read_def platform_flash_peripherals_def word_le_nat_alt e)
  then show ?thesis using w d by (simp add: dev_ready_def)
qed

lemma dev_erase:
  assumes d: "dev_ready d" and r: "unat a \<le> unat b" "unat b < 0x200000"
  defines "lo \<equiv> unat a div 4096 * 4096" and "hi \<equiv> unat b div 4096 * 4096 + 4096"
  shows "\<exists>d'. platform_flash_erase (flash_env.truncate env) (platform_flash_peripherals MICO_FLASH_SPI) a b d =
      Some (kNoErr, d') \<and> dev_ready d' \<and> cells_of (chip d') = erase (cells_of (chip d)) lo (hi - lo)"
proof -
  have c: "ready (chip d)" "write_allowed (sflash_handle d) = SFLASH_WRITE_ALLOWED"
    using d by (simp_all add: dev_ready_def)
  have db: "unat (drop_bit 12 w) = unat w div 4096" for w :: u32
    by (simp only: unat_drop_bit_eq) (simp add: drop_bit_eq_div)
  define E where "E = unat b div 4096"
  have "unat b < 512 * 4096" using r(2) by simp
  then have E: "E < 512" unfolding E_def by (rule less_mult_imp_div_less)
  have i: "unat a div 4096 \<le> E" unfolding E_def using r(1) by (rule div_le_mono)
  have ln: "hi - lo = (Suc E - unat a div 4096) * 4096"
    by (simp add: hi_def lo_def E_def diff_mult_distrib)
  obtain c' where w: "spiFlashErase (env_xfer env) (sflash_handle d) a b (chip d) = Some (0, c')"
    "ready c'" "cells_of c' = erase (cells_of (chip d)) lo (hi - lo)"
    using spi_sectors_done [OF c E, of "unat a div 4096"] i
    unfolding spiFlashErase_def db ln unfolding lo_def E_def by auto
  have "platform_flash_erase (flash_env.truncate env) (platform_flash_peripherals MICO_FLASH_SPI) a b d =
      Some (kNoErr, d\<lparr>chip := c'\<rparr>)"
    using w(1) r by (simp add: platform_flash_erase_def platform_flash_peripherals_def word_le_nat_alt)
  then show ?thesis using w d by (simp add: dev_ready_def)
qed

lemma part_write_for:
  assumes p: "spi_partition par p opt" and o: "bootloader env \<or> opt = PAR_OPT_WRITE_MASK"
    and s: "sys_ready s"
    and n: "0 < unat n" "unat n < 65536" "unat n \<le> length buf"
    and r: "unat off + unat n \<le> unat (partition_length p)"
  shows "\<exists>s'. MicoFlashWrite env par off buf n s = Some (kNoErr, off + n, s') \<and> sys_ready s' \<and>
    spi_cells s' = program (spi_cells s) (unat (partition_start_addr p) + unat off) (take (unat n) buf)"
proof -
  note rc = range_checks [OF p n(1) r]
  have b: "unat (partition_start_addr p + off) + unat n \<le> 0x200000"
    using p r by (simp add: spi_partition_def rc(2))
  have d: "dev_ready (devices s)" using s by (simp add: sys_ready_dev)
  obtain d' where w: "platform_flash_write (flash_env.truncate env) (platform_flash_peripherals MICO_FLASH_SPI)
      (partition_start_addr p + off) buf n (devices s) = Some (kNoErr, partition_start_addr p + off + n, d')"
    "dev_ready d'" "cells_of (chip d') = program (spi_cells s) (unat (partition_start_addr p + off)) (take (unat n) buf)"
    using dev_write [OF d n b] by (auto simp: spi_cells_def)
  have n0: "n \<noteq> 0" using n(1) by auto
  have "MicoFlashWrite env par off buf n s = Some (kNoErr, off + n, s\<lparr>devices := d'\<rparr>)"
    using p s n0 w(1) checks_for [OF p o n(1) r]
    by (simp add: MicoFlashWrite_def spi_partition_def flash_ensure_init_def sys_ready_def)
  then show ?thesis using w s by (simp add: sys_ready_dev spi_cells_def rc(2))
qed

lemmas part_write = part_write_for [OF _ disjI2 [OF refl]]

lemma part_read_for:
  assumes p: "spi_partition par p opt" and o: "bootloader env \<or> opt = PAR_OPT_READ_MASK"
    and s: "sys_ready s" and n: "0 < unat n"
    and r: "unat off + unat n \<le> unat (partition_length p)"
  shows "\<exists>s'. MicoFlashRead env par off n s = Some (kNoErr, off + n,
      mread (spi_cells s) (unat (partition_start_addr p) + unat off) (unat n), s') \<and>
    sys_ready s' \<and> spi_cells s' = spi_cells s"
proof -
  note rc = range_checks [OF p n r]
  have b: "unat (partition_start_addr p + off) + unat n \<le> 0x200000"
    using p r by (simp add: spi_partition_def rc(2))
  have d: "dev_ready (devices s)" using s by (simp add: sys_ready_dev)
  obtain d' where w: "platform_flash_read (flash_env.truncate env) (platform_flash_peripherals MICO_FLASH_SPI)
      (partition_start_addr p + off) n (devices s) = Some (kNoErr, partition_start_addr p + off + n,
        mread (spi_cells s) (unat (partition_start_addr p + off)) (unat n), d')"
    "dev_ready d'" "cells_of (chip d') = spi_cells s"
    using dev_read [OF d n b] by (auto simp: spi_cells_def)
  have n0: "n \<noteq> 0" using n by auto
  have "MicoFlashRead env par off n s = Some (kNoErr, off + n,
      mread (spi_cells s) (unat (partition_start_addr p) + unat off) (unat n), s\<lparr>devices := d'\<rparr>)"
    using p s n0 w(1) checks_for [OF p o n r]
    by (simp add: MicoFlashRead_def spi_partition_def flash_ensure_init_def sys_ready_def rc(2))
  then show ?thesis using w s by (simp add: sys_ready_dev spi_cells_def)
qed

lemmas part_read = part_read_for [OF _ disjI2 [OF refl]]

lemma part_erase_for:
  assumes p: "spi_partition par p opt" and o: "bootloader env \<or> opt = PAR_OPT_WRITE_MASK"
    and s: "sys_ready s" and n: "0 < unat n"
    and r: "unat off + unat n \<le> unat (partition_length p)"
  defines "a \<equiv> unat (partition_start_addr p) + unat off"
  defines "lo \<equiv> a div 4096 * 4096" and "hi \<equiv> (a + unat n - 1) div 4096 * 4096 + 4096"
  shows "\<exists>s'. MicoFlashErase env par off n s = Some (kNoErr, s') \<and> sys_ready s' \<and>
    spi_cells s' = erase (spi_cells s) lo (hi - lo)"
proof -
  note rc = range_checks [OF p n r, folded a_def]
  have b: "unat (partition_start_addr p + off) \<le> unat (partition_start_addr p + off + n - 1)"
    "unat (partition_start_addr p + off + n - 1) < 0x200000"
    using p r n unfolding rc(2,3) a_def spi_partition_def by linarith+
  have d: "dev_ready (devices s)" using s by (simp add: sys_ready_dev)
  obtain d' where w: "platform_flash_erase (flash_env.truncate env) (platform_flash_peripherals MICO_FLASH_SPI)
      (partition_start_addr p + off) (partition_start_addr p + off + n - 1) (devices s) = Some (kNoErr, d')"
    "dev_ready d'" "cells_of (chip d') = erase (spi_cells s) lo (hi - lo)"
    using dev_erase [OF d b] by (auto simp: spi_cells_def rc(2,3) lo_def hi_def)
  have n0: "n \<noteq> 0" using n by auto
  have "MicoFlashErase env par off n s = Some (kNoErr, s\<lparr>devices := d'\<rparr>)"
    using p s n0 w(1) checks_for [OF p o n r]
    by (simp add: MicoFlashErase_def spi_partition_def flash_ensure_init_def sys_ready_def)
  then show ?thesis using w s by (simp add: sys_ready_dev spi_cells_def)
qed

lemmas part_erase = part_erase_for [OF _ disjI2 [OF refl]]

end

section \<open>The interface that the clients of the partitions use\<close>

record 's flash_ops =
  op_erase :: "int \<Rightarrow> u32 \<Rightarrow> u32 \<Rightarrow> 's \<Rightarrow> (OSStatus \<times> 's) option"
  op_write :: "int \<Rightarrow> u32 \<Rightarrow> bytes \<Rightarrow> u32 \<Rightarrow> 's \<Rightarrow> (OSStatus \<times> u32 \<times> 's) option"
  op_read :: "int \<Rightarrow> u32 \<Rightarrow> u32 \<Rightarrow> 's \<Rightarrow> (OSStatus \<times> u32 \<times> bytes \<times> 's) option"

definition mico_flash_ops :: "('f, 'c) mico_env \<Rightarrow> ('f, 'c) flash_sys flash_ops" where
  "mico_flash_ops env =
     \<lparr>op_erase = MicoFlashErase env, op_write = MicoFlashWrite env, op_read = MicoFlashRead env\<rparr>"

definition overwrite :: "bytes \<Rightarrow> nat \<Rightarrow> bytes \<Rightarrow> bytes" where
  "overwrite c i d = take i c @ d @ drop (i + length d) c"

lemma length_overwrite [simp]: "i + length d \<le> length c \<Longrightarrow> length (overwrite c i d) = length c"
  by (simp add: overwrite_def)

lemma slice_overwrite_same: "i + length d \<le> length c \<Longrightarrow> slice (overwrite c i d) i (length d) = d"
  by (simp add: overwrite_def slice_def)

lemma slice_overwrite_before:
  assumes "j + n \<le> i" and "i + length d \<le> length c"
  shows "slice (overwrite c i d) j n = slice c j n"
  using slice_blit_before [of c i d "overwrite c i d" j n] assms
  by (simp add: blit_def overwrite_def)

lemma slice_overwrite_after:
  assumes "i + length d \<le> j" and "i + length d \<le> length c"
  shows "slice (overwrite c i d) j n = slice c j n"
  using slice_blit_after [of c i d "overwrite c i d" j n] assms
  by (simp add: blit_def overwrite_def)

lemma slice_replicate [simp]: "i + n \<le> k \<Longrightarrow> slice (replicate k x) i n = replicate n x"
  by (simp add: slice_def)

text \<open>What a partition of one erase unit promises to a client that keeps parameters in it.\<close>

locale param_store =
  fixes ops :: "'s flash_ops" and inv :: "'s \<Rightarrow> bool" and content :: "'s \<Rightarrow> int \<Rightarrow> bytes"
    and parts :: "int set"
  assumes content_length: "inv s \<Longrightarrow> p \<in> parts \<Longrightarrow> length (content s p) = 4096"
    and erase_part: "inv s \<Longrightarrow> p \<in> parts \<Longrightarrow> 0 < unat n \<Longrightarrow> unat n \<le> 4096 \<Longrightarrow>
      \<exists>s'. op_erase ops p 0 n s = Some (kNoErr, s') \<and> inv s' \<and>
        content s' = (content s)(p := replicate 4096 0xFF)"
    and write_part: "inv s \<Longrightarrow> p \<in> parts \<Longrightarrow> unat n \<le> length b \<Longrightarrow> unat off + unat n \<le> 4096 \<Longrightarrow>
      slice (content s p) (unat off) (unat n) = replicate (unat n) 0xFF \<Longrightarrow>
      \<exists>s'. op_write ops p off b n s = Some (kNoErr, off + n, s') \<and> inv s' \<and>
        content s' = (content s)(p := overwrite (content s p) (unat off) (take (unat n) b))"
    and read_part: "inv s \<Longrightarrow> p \<in> parts \<Longrightarrow> unat off + unat n \<le> 4096 \<Longrightarrow>
      \<exists>s'. op_read ops p off n s = Some (kNoErr, off + n, slice (content s p) (unat off) (unat n), s') \<and>
        inv s' \<and> content s' = content s"

lemma mread_overwrite:
  assumes "off + length d \<le> n"
  shows "mread (patch m (a + off) d) a n = overwrite (mread m a n) off d"
proof (rule nth_equalityI)
  fix i
  assume "i < length (mread (patch m (a + off) d) a n)"
  then show "mread (patch m (a + off) d) a n ! i = overwrite (mread m a n) off d ! i"
    using assms by (auto simp: mread_nth patch_def overwrite_def nth_append)
qed (use assms in simp)

lemma blank_mread: "blank m a n \<longleftrightarrow> mread m a n = replicate n 0xFF"
proof
  assume r: "mread m a n = replicate n 0xFF"
  show "blank m a n" unfolding blank_def
  proof
    fix x assume x: "x \<in> {a ..< a + n}"
    then have "x - a < n" by auto
    then show "m x = 0xFF" using x mread_nth [of "x - a" n m a] r by simp
  qed
qed (auto intro!: nth_equalityI simp: mread_nth blank_def)

lemma mread_erase_all: "mread (erase m a n) a n = replicate n 0xFF"
  by (rule nth_equalityI) (simp_all add: mread_nth erase_def)

lemma slice_mread: "off + k \<le> n \<Longrightarrow> slice (mread m a n) off k = mread m (a + off) k"
  by (rule nth_equalityI) (simp_all add: slice_nth mread_nth add.assoc)

definition param_start :: "int \<Rightarrow> nat" where
  "param_start p = (if p = MICO_PARTITION_PARAMETER_2 then 0x1000 else 0)"

lemma param_partition:
  assumes "p \<in> {MICO_PARTITION_PARAMETER_1, MICO_PARTITION_PARAMETER_2}" and "opt = 1 \<or> opt = 2"
  shows "\<exists>q. spi_partition p q opt \<and> unat (partition_start_addr q) = param_start p \<and>
    unat (partition_length q) = 4096"
  using assms
  by (auto simp: spi_partition_def partition_at_def mico_partitions_def param_start_def)

context mico_spi begin

definition param_content :: "('f, 'c) flash_sys \<Rightarrow> int \<Rightarrow> bytes" where
  "param_content s p = (if p \<in> {MICO_PARTITION_PARAMETER_1, MICO_PARTITION_PARAMETER_2}
     then mread (spi_cells s) (param_start p) 4096 else [])"

lemma param_content_upd:
  assumes p: "p \<in> {MICO_PARTITION_PARAMETER_1, MICO_PARTITION_PARAMETER_2}"
    and "\<And>x. x < param_start p \<or> param_start p + 4096 \<le> x \<Longrightarrow> spi_cells s' x = spi_cells s x"
  shows "param_content s' = (param_content s)(p := mread (spi_cells s') (param_start p) 4096)"
proof (rule ext)
  fix q
  show "param_content s' q = ((param_content s)(p := mread (spi_cells s') (param_start p) 4096)) q"
    using assms by (auto simp: param_content_def param_start_def intro!: mread_cong)
qed

lemma param_erase:
  assumes s: "sys_ready s" and p: "p \<in> {MICO_PARTITION_PARAMETER_1, MICO_PARTITION_PARAMETER_2}"
    and n: "0 < unat n" "unat n \<le> 4096"
  shows "\<exists>s'. MicoFlashErase env p 0 n s = Some (kNoErr, s') \<and> sys_ready s' \<and>
    param_content s' = (param_content s)(p := replicate 4096 0xFF)"
proof -
  obtain q where q: "spi_partition p q PAR_OPT_WRITE_MASK" "unat (partition_start_addr q) = param_start p"
    "unat (partition_length q) = 4096" using param_partition [OF p, of 2] by auto
  have lo: "(param_start p + unat (0 :: u32)) div 4096 * 4096 = param_start p"
    by (simp add: param_start_def)
  have "(param_start p + unat (0 :: u32) + unat n - 1) div 4096 = param_start p div 4096"
    using n by (auto simp: param_start_def intro!: div_nat_eqI)
  then have hi: "(param_start p + unat (0 :: u32) + unat n - 1) div 4096 * 4096 + 4096 = param_start p + 4096"
    by (simp add: param_start_def)
  obtain s' where e: "MicoFlashErase env p 0 n s = Some (kNoErr, s')" "sys_ready s'"
    "spi_cells s' = erase (spi_cells s) (param_start p) 4096"
    using part_erase [OF q(1) s n(1), of 0] n(2) unfolding q(2,3) lo hi by auto
  have "param_content s' = (param_content s)(p := replicate 4096 0xFF)"
    using param_content_upd [OF p, of s' s] by (simp add: e(3) erase_outside mread_erase_all)
  with e show ?thesis by blast
qed

lemma param_write:
  assumes s: "sys_ready s" and p: "p \<in> {MICO_PARTITION_PARAMETER_1, MICO_PARTITION_PARAMETER_2}"
    and n: "unat n \<le> length b" and r: "unat off + unat n \<le> 4096"
    and bl: "slice (param_content s p) (unat off) (unat n) = replicate (unat n) 0xFF"
  shows "\<exists>s'. MicoFlashWrite env p off b n s = Some (kNoErr, off + n, s') \<and> sys_ready s' \<and>
    param_content s' = (param_content s)(p := overwrite (param_content s p) (unat off) (take (unat n) b))"
proof (cases "n = 0")
  case True
  obtain q where "spi_partition p q PAR_OPT_WRITE_MASK" using param_partition [OF p, of 2] by auto
  then show ?thesis using True s
    by (simp add: MicoFlashWrite_def spi_partition_def overwrite_def)
next
  case False
  then have n0: "0 < unat n" by (simp add: unat_gt_0)
  obtain q where q: "spi_partition p q PAR_OPT_WRITE_MASK" "unat (partition_start_addr q) = param_start p"
    "unat (partition_length q) = 4096" using param_partition [OF p, of 2] by auto
  have n16: "unat n < 65536" using r by simp
  have pc: "param_content s p = mread (spi_cells s) (param_start p) 4096"
    using p by (simp add: param_content_def)
  have "mread (spi_cells s) (param_start p + unat off) (unat n) = replicate (unat n) 0xFF"
    using bl r by (simp add: pc slice_mread)
  then have bk: "blank (spi_cells s) (param_start p + unat off) (length (take (unat n) b))"
    using n by (simp add: blank_mread min_absorb2)
  obtain s' where w: "MicoFlashWrite env p off b n s = Some (kNoErr, off + n, s')" "sys_ready s'"
    "spi_cells s' = patch (spi_cells s) (param_start p + unat off) (take (unat n) b)"
    using part_write [OF q(1) s n0 n16 n, of off] r unfolding q(2,3) program_blank [OF bk] by auto
  have "param_content s' = (param_content s)(p := mread (spi_cells s') (param_start p) 4096)"
    using r n by (intro param_content_upd [OF p]) (auto simp: w(3) patch_def)
  also have "mread (spi_cells s') (param_start p) 4096 =
      overwrite (param_content s p) (unat off) (take (unat n) b)"
    unfolding w(3) pc using r n by (intro mread_overwrite) simp
  finally show ?thesis using w by blast
qed

lemma param_read:
  assumes s: "sys_ready s" and p: "p \<in> {MICO_PARTITION_PARAMETER_1, MICO_PARTITION_PARAMETER_2}"
    and r: "unat off + unat n \<le> 4096"
  shows "\<exists>s'. MicoFlashRead env p off n s =
      Some (kNoErr, off + n, slice (param_content s p) (unat off) (unat n), s') \<and>
    sys_ready s' \<and> param_content s' = param_content s"
proof (cases "n = 0")
  case True
  obtain q where "spi_partition p q PAR_OPT_READ_MASK" using param_partition [OF p, of 1] by auto
  then show ?thesis using True s by (simp add: MicoFlashRead_def spi_partition_def)
next
  case False
  then have n0: "0 < unat n" by (simp add: unat_gt_0)
  obtain q where q: "spi_partition p q PAR_OPT_READ_MASK" "unat (partition_start_addr q) = param_start p"
    "unat (partition_length q) = 4096" using param_partition [OF p, of 1] by auto
  have pc: "param_content s p = mread (spi_cells s) (param_start p) 4096"
    using p by (simp add: param_content_def)
  obtain s' where w: "MicoFlashRead env p off n s =
      Some (kNoErr, off + n, mread (spi_cells s) (param_start p + unat off) (unat n), s')" "sys_ready s'"
    "spi_cells s' = spi_cells s"
    using part_read [OF q(1) s n0, of off] r unfolding q(2,3) by auto
  have "param_content s' = param_content s" by (rule ext) (simp add: param_content_def w(3))
  with w show ?thesis using r by (auto simp: pc slice_mread)
qed

end

text \<open>The partitions \<open>PARAMETER_1\<close> and \<open>PARAMETER_2\<close> on a healthy serial flash are such a store.\<close>

sublocale mico_spi \<subseteq> params: param_store "mico_flash_ops env" sys_ready param_content
  "{MICO_PARTITION_PARAMETER_1, MICO_PARTITION_PARAMETER_2}"
proof
  show "length (param_content s p) = 4096"
    if "p \<in> {MICO_PARTITION_PARAMETER_1, MICO_PARTITION_PARAMETER_2}" for s p
    using that by (simp add: param_content_def)
qed (simp_all add: mico_flash_ops_def param_erase param_write param_read del: insert_iff)

section \<open>The board\<close>

definition board_env :: "(cells, mx25) mico_env" where
  "board_env =
     \<lparr>env_hw = stm32_hw, env_xfer = mx25_xfer, env_spi_init = (\<lambda>c. (kNoErr, c)),
      init_mutex = kNoErr, bootloader = False\<rparr>"

interpretation board: mico_spi board_env mx_cells mx_wel mx_prot mx_busy
proof -
  have "spi_nor mx25_xfer mx_cells mx_wel mx_prot mx_busy (2 ^ 21)" by (rule mx25.spi_nor_axioms)
  then show "mico_spi board_env mx_cells mx_wel mx_prot mx_busy"
    by (simp add: mico_spi_def board_env_def)
qed

definition board_sys :: "(cells, mx25) flash_sys" where
  "board_sys =
     \<lparr>drivers = (\<lambda>owner. \<lparr>flash_mutex = True, initialized = True\<rparr>),
      devices = \<lparr>internal = (\<lambda>x. 0xFF),
        chip = \<lparr>mx_cells = (\<lambda>x. 0xFF), mx_wel = False, mx_prot = 0, mx_busy = 0, mx_latency = 3\<rparr>,
        sflash_handle = \<lparr>device_id = 0xC22015, write_allowed = SFLASH_WRITE_ALLOWED\<rparr>\<rparr>\<rparr>"

lemma board_sys_ready: "board.sys_ready board_sys"
  by (simp add: board.sys_ready_def mx25.ready_def board_sys_def)

section \<open>Runs of operations\<close>

datatype flash_op = Op_Erase u32 u32 | Op_Write u32 bytes | Op_Read u32 u32

text \<open>One call on a partition; the client may ignore the status.\<close>

fun flash_step ::
  "('f, 'c) mico_env \<Rightarrow> int \<Rightarrow> flash_op \<Rightarrow> ('f, 'c) flash_sys \<Rightarrow> (OSStatus \<times> ('f, 'c) flash_sys) option" where
  "flash_step env par (Op_Erase off n) s = MicoFlashErase env par off n s"
| "flash_step env par (Op_Write off b) s =
     map_option (\<lambda>(err, off', s'). (err, s')) (MicoFlashWrite env par off b (of_nat (length b)) s)"
| "flash_step env par (Op_Read off n) s =
     map_option (\<lambda>(err, off', ds, s'). (err, s')) (MicoFlashRead env par off n s)"

fun flash_run ::
  "('f, 'c) mico_env \<Rightarrow> int \<Rightarrow> flash_op list \<Rightarrow> ('f, 'c) flash_sys \<Rightarrow> ('f, 'c) flash_sys option" where
  "flash_run env par [] s = Some s"
| "flash_run env par (x # xs) s = do {
     (err, s1) \<leftarrow> flash_step env par x s;
     flash_run env par xs s1
   }"

text \<open>Requests whose end is below 4 GiB less 2 MiB, so that no address computation wraps; writes
  stay below the 64 KiB that the serial flash driver handles.\<close>

fun sane :: "flash_op \<Rightarrow> bool" where
  "sane (Op_Erase off n) \<longleftrightarrow> unat off + unat n < 2 ^ 32 - 2 ^ 21"
| "sane (Op_Write off b) \<longleftrightarrow> length b < 65536 \<and> unat off + length b < 2 ^ 32 - 2 ^ 21"
| "sane (Op_Read off n) \<longleftrightarrow> unat off + unat n < 2 ^ 32 - 2 ^ 21"

lemma out_of_range_rejected:
  assumes p: "spi_partition par p opt" and n: "0 < unat n"
    and w: "unat off + unat n < 2 ^ 32 - 2 ^ 21" and r: "unat (partition_length p) < unat off + unat n"
  shows "flash_checks par p boot opt (partition_start_addr p + off)
    (partition_start_addr p + off + n - 1) = kParamErr"
proof -
  define S L F N where "S = unat (partition_start_addr p)" and "L = unat (partition_length p)"
    and "F = unat off" and "N = unat n"
  have b: "S + L \<le> 0x200000" "L < F + N" "0 < N" "F + N < 2 ^ 32 - 2 ^ 21"
    using assms by (simp_all add: spi_partition_def S_def L_def F_def N_def)
  have a: "unat (partition_start_addr p + off) = S + F"
    using b by (simp add: unat_word_ariths S_def F_def)
  have c: "unat (partition_start_addr p + off + n) = S + F + N"
    using b by (subst unat_word_ariths) (simp add: a flip: N_def)
  have "1 \<le> partition_start_addr p + off + n" using b by (simp add: word_le_nat_alt c)
  then have e: "unat (partition_start_addr p + off + n - 1) = S + F + N - 1"
    by (simp add: unat_sub c)
  have l: "unat (partition_start_addr p + partition_length p) = S + L"
    using b by (simp add: unat_word_ariths S_def L_def)
  show ?thesis
    using p b by (simp add: flash_checks_def spi_partition_def word_le_nat_alt word_less_nat_alt
        a e l flip: S_def)
qed

lemma spi_partition_weaken: "spi_partition par p (1 OR 2) \<Longrightarrow> opt = 1 \<or> opt = 2 \<Longrightarrow> spi_partition par p opt"
proof -
  have "x AND (1 OR 2) = 1 OR 2 \<Longrightarrow> x AND 1 = 1 \<and> x AND 2 = 2" for x :: u32
  proof -
    assume x: "x AND (1 OR 2) = 1 OR 2"
    have "x AND 1 = (x AND (1 OR 2)) AND 1" "x AND 2 = (x AND (1 OR 2)) AND 2"
      by (simp_all only: and.assoc) simp_all
    then show ?thesis unfolding x by simp
  qed
  then show "spi_partition par p (1 OR 2) \<Longrightarrow> opt = 1 \<or> opt = 2 \<Longrightarrow> spi_partition par p opt"
    unfolding spi_partition_def by metis
qed

context mico_spi begin

lemma step_isolated:
  assumes p: "spi_partition par p (1 OR 2)" and s: "sys_ready s" and x: "sane x"
  shows "\<exists>err s'. flash_step env par x s = Some (err, s') \<and> sys_ready s' \<and>
    (\<forall>y. y < unat (partition_start_addr p) \<or>
       unat (partition_start_addr p) + unat (partition_length p) \<le> y \<longrightarrow> spi_cells s' y = spi_cells s y)"
proof -
  define S L where "S = unat (partition_start_addr p)" and "L = unat (partition_length p)"
  have at: "partition_at par = Some p" using p by (simp add: spi_partition_def)
  have pw: "spi_partition par p PAR_OPT_WRITE_MASK" and pr: "spi_partition par p PAR_OPT_READ_MASK"
    using spi_partition_weaken [OF p] by blast+
  show ?thesis
  proof (cases x)
    case (Op_Erase off n)
    consider "n = 0" | "0 < unat n" "L < unat off + unat n" | "0 < unat n" "unat off + unat n \<le> L"
      by (metis gr0I not_le unat_eq_0)
    then show ?thesis
    proof cases
      case 2
      then show ?thesis using s x Op_Erase at out_of_range_rejected [OF pw 2(1), of off "bootloader env"]
        by (auto simp: MicoFlashErase_def L_def Let_def)
    next
      case 3
      obtain q l where q: "S = 4096 * q" "L = 4096 * l"
        using p by (auto simp: spi_partition_def S_def L_def mod_eq_0_iff_dvd elim!: dvdE)
      define a b where "a = S + unat off" and "b = (S + unat off + unat n - 1)"
      have ab: "S \<le> a" "b < S + L" using 3 by (simp_all add: a_def b_def)
      have lo: "S \<le> a div 4096 * 4096" using div_le_mono [OF ab(1), of 4096] by (simp add: q)
      have "b div 4096 < q + l" using ab(2) by (intro less_mult_imp_div_less) (simp add: q)
      then have hi: "b div 4096 * 4096 + 4096 \<le> S + L" unfolding q by linarith
      obtain s' where e: "MicoFlashErase env par off n s = Some (kNoErr, s')" "sys_ready s'"
        "spi_cells s' = erase (spi_cells s) (a div 4096 * 4096) (b div 4096 * 4096 + 4096 - a div 4096 * 4096)"
        using part_erase [OF pw s 3(1) 3(2) [unfolded L_def]] unfolding a_def b_def S_def by auto
      then show ?thesis using lo hi Op_Erase
        by (auto simp: erase_def simp flip: S_def L_def)
    qed (use s Op_Erase at in \<open>simp add: MicoFlashErase_def\<close>)
  next
    case (Op_Write off b)
    define n where "n = (of_nat (length b) :: u32)"
    have n: "unat n = length b" using x Op_Write unfolding n_def unat_of_nat by simp
    consider "n = 0" | "0 < unat n" "L < unat off + unat n" | "0 < unat n" "unat off + unat n \<le> L"
      by (metis gr0I not_le unat_eq_0)
    then show ?thesis
    proof cases
      case 2
      have "flash_step env par x s = Some (kParamErr, s)"
        using x Op_Write at out_of_range_rejected [OF pw 2(1), of off "bootloader env"] 2 n
        by (auto simp: MicoFlashWrite_def L_def Let_def simp flip: n_def)
      then show ?thesis using s by simp
    next
      case 3
      obtain s' where e: "MicoFlashWrite env par off b n s = Some (kNoErr, off + n, s')" "sys_ready s'"
        "spi_cells s' = program (spi_cells s) (S + unat off) (take (unat n) b)"
        using part_write [OF pw s 3(1) _ _ 3(2) [unfolded L_def], of b] x Op_Write n
        unfolding S_def by auto
      have "flash_step env par x s = Some (kNoErr, s')" using Op_Write e(1) by (simp flip: n_def)
      then show ?thesis using e 3 by (auto simp: program_def n simp flip: S_def L_def)
    qed (use s Op_Write at in \<open>simp add: MicoFlashWrite_def flip: n_def\<close>)
  next
    case (Op_Read off n)
    consider "n = 0" | "0 < unat n" "L < unat off + unat n" | "0 < unat n" "unat off + unat n \<le> L"
      by (metis gr0I not_le unat_eq_0)
    then show ?thesis
    proof cases
      case 2
      then show ?thesis using s x Op_Read at out_of_range_rejected [OF pr 2(1), of off "bootloader env"]
        by (auto simp: MicoFlashRead_def L_def Let_def)
    next
      case 3
      then show ?thesis using part_read [OF pr s 3(1) 3(2) [unfolded L_def]] Op_Read by auto
    qed (use s Op_Read at in \<open>simp add: MicoFlashRead_def\<close>)
  qed
qed

lemma run_isolated:
  assumes "spi_partition par p (1 OR 2)" and "sys_ready s" and "\<forall>x \<in> set xs. sane x"
  shows "\<exists>s'. flash_run env par xs s = Some s' \<and> sys_ready s' \<and>
    (\<forall>y. y < unat (partition_start_addr p) \<or>
       unat (partition_start_addr p) + unat (partition_length p) \<le> y \<longrightarrow> spi_cells s' y = spi_cells s y)"
  using assms(2,3)
proof (induction xs arbitrary: s)
  case (Cons x xs)
  obtain err s1 where a: "flash_step env par x s = Some (err, s1)" "sys_ready s1"
    "\<forall>y. y < unat (partition_start_addr p) \<or>
       unat (partition_start_addr p) + unat (partition_length p) \<le> y \<longrightarrow> spi_cells s1 y = spi_cells s y"
    using step_isolated [OF assms(1) Cons.prems(1), of x] Cons.prems(2) by fastforce
  obtain s2 where b: "flash_run env par xs s1 = Some s2" "sys_ready s2"
    "\<forall>y. y < unat (partition_start_addr p) \<or>
       unat (partition_start_addr p) + unat (partition_length p) \<le> y \<longrightarrow> spi_cells s2 y = spi_cells s1 y"
    using Cons.IH [OF a(2)] Cons.prems(2) by fastforce
  show ?case using a b by simp
qed simp

end

section \<open>Properties\<close>

text \<open>
  C6. Isolation of the readable and writable partitions of the serial flash (\<open>PARAMETER_1\<close>, \<open>PARAMETER_2\<close> and
  \<open>OTA_TEMP\<close>): in a sequence of erase, write and read requests on such a partition, in range or not, every call
  returns and no cell of the serial flash outside the partition ever changes. The requests are \<open>sane\<close>: offset plus
  length is below 4 GiB less 2 MiB, so that no address computation wraps, and a write has fewer
  than 65536 bytes. The first is needed: the check adds in 32 bits, and a request that wraps passes it
  (\<open>wrapped_range_passes\<close> below). The driver is initialised and the chip idle and unprotected at the start.
\<close>

theorem partition_isolation:
  assumes "mico_spi env cells_of wel prot pending" and "spi_partition par p (PAR_OPT_READ_EN OR PAR_OPT_WRITE_EN)"
    and "initialized (drivers s MICO_FLASH_SPI)"
    and "write_allowed (sflash_handle (devices s)) = SFLASH_WRITE_ALLOWED"
    and "pending (chip (devices s)) = 0" and "prot (chip (devices s)) = 0"
    and "\<forall>x \<in> set xs. sane x"
  shows "\<exists>s'. flash_run env par xs s = Some s' \<and>
    (\<forall>y. y < unat (partition_start_addr p) \<or> unat (partition_start_addr p) + unat (partition_length p) \<le> y \<longrightarrow>
      cells_of (chip (devices s')) y = cells_of (chip (devices s)) y)"
proof -
  have sn: "spi_nor (env_xfer env) cells_of wel prot pending 0x200000"
    using assms(1) by (simp add: mico_spi_def)
  have "mico_spi.sys_ready prot pending s"
    using assms(3-6) by (simp add: mico_spi.sys_ready_def [OF assms(1)] spi_nor.ready_def [OF sn])
  from mico_spi.run_isolated [OF assms(1,2) this assms(7)] show ?thesis
    by (auto simp: mico_spi.spi_cells_def [OF assms(1)])
qed

theorem partition_isolation_witness:
  "\<exists>s'. flash_run board_env MICO_PARTITION_PARAMETER_1
      [Op_Erase 0 0x1000, Op_Write 0xFFE [1, 2, 3], Op_Write 0xFFE [1, 2]] board_sys = Some s' \<and>
    mx_cells (chip (devices s')) 0x1000 = 0xFF"
  using partition_isolation [OF board.mico_spi_axioms, of MICO_PARTITION_PARAMETER_1 "mico_partitions ! 5"
      board_sys "[Op_Erase 0 0x1000, Op_Write 0xFFE [1, 2, 3], Op_Write 0xFFE [1, 2]]"]
  by (auto simp: spi_partition_def partition_at_def mico_partitions_def board_sys_def)

text \<open>
  Storage round trip: after erasing a range of a partition of the serial flash, writing bytes at an
  offset in it and reading the same offset and length returns the bytes; all three calls succeed and
  both offsets advance by the length.
\<close>

theorem partition_roundtrip:
  assumes "mico_spi env cells_of wel prot pending" and "spi_partition par p (PAR_OPT_READ_EN OR PAR_OPT_WRITE_EN)"
    and "initialized (drivers s MICO_FLASH_SPI)"
    and "write_allowed (sflash_handle (devices s)) = SFLASH_WRITE_ALLOWED"
    and "pending (chip (devices s)) = 0" and "prot (chip (devices s)) = 0"
    and "0 < unat n" and "unat n < 65536" and "unat n \<le> length data"
    and "unat off + unat n \<le> unat (partition_length p)"
  shows "\<exists>s1 s2 s3. MicoFlashErase env par off n s = Some (kNoErr, s1) \<and>
    MicoFlashWrite env par off data n s1 = Some (kNoErr, off + n, s2) \<and>
    MicoFlashRead env par off n s2 = Some (kNoErr, off + n, take (unat n) data, s3)"
proof -
  have sn: "spi_nor (env_xfer env) cells_of wel prot pending 0x200000"
    using assms(1) by (simp add: mico_spi_def)
  have r: "mico_spi.sys_ready prot pending s"
    using assms(3-6) by (simp add: mico_spi.sys_ready_def [OF assms(1)] spi_nor.ready_def [OF sn])
  have pw: "spi_partition par p PAR_OPT_WRITE_MASK" and pr: "spi_partition par p PAR_OPT_READ_MASK"
    using spi_partition_weaken [OF assms(2)] by blast+
  define a where "a = unat (partition_start_addr p) + unat off"
  define lo hi where "lo = a div 4096 * 4096" and "hi = (a + unat n - 1) div 4096 * 4096 + 4096"
  obtain s1 where e: "MicoFlashErase env par off n s = Some (kNoErr, s1)"
    "mico_spi.sys_ready prot pending s1"
    "mico_spi.spi_cells cells_of s1 = erase (mico_spi.spi_cells cells_of s) lo (hi - lo)"
    using mico_spi.part_erase [OF assms(1) pw r assms(7,10)] unfolding a_def lo_def hi_def by blast
  have l: "length (take (unat n) data) = unat n" using assms(9) by simp
  define b where "b = a + unat n - 1"
  have "b < b div 4096 * 4096 + 4096" using mod_less_divisor [of 4096 b] div_mult_mod_eq [of b 4096] by linarith
  moreover have "a + unat n = b + 1" using assms(7) by (simp add: b_def)
  ultimately have lohi: "lo \<le> a" "a + unat n \<le> hi"
    unfolding lo_def hi_def b_def [symmetric] by simp_all
  have bl: "blank (mico_spi.spi_cells cells_of s1) a (length (take (unat n) data))"
    unfolding e(3) l using lohi by (intro blank_erase) auto
  obtain s2 where w: "MicoFlashWrite env par off data n s1 = Some (kNoErr, off + n, s2)"
    "mico_spi.sys_ready prot pending s2"
    "mico_spi.spi_cells cells_of s2 = program (mico_spi.spi_cells cells_of s1) a (take (unat n) data)"
    using mico_spi.part_write [OF assms(1) pw e(2) assms(7,8,9,10)] unfolding a_def by blast
  obtain s3 where "MicoFlashRead env par off n s2 = Some (kNoErr, off + n,
      mread (mico_spi.spi_cells cells_of s2) a (unat n), s3)"
    using mico_spi.part_read [OF assms(1) pr w(2) assms(7,10)] unfolding a_def by blast
  moreover have "mread (mico_spi.spi_cells cells_of s2) a (unat n) = take (unat n) data"
    using mread_program_blank [OF bl] unfolding w(3) l .
  ultimately show ?thesis using e(1) w(1) by auto
qed

theorem partition_roundtrip_witness:
  "\<exists>s1 s2 s3. MicoFlashErase board_env MICO_PARTITION_OTA_TEMP 0x1234 5 board_sys = Some (kNoErr, s1) \<and>
    MicoFlashWrite board_env MICO_PARTITION_OTA_TEMP 0x1234 (str ''hello'') 5 s1 = Some (kNoErr, 0x1239, s2) \<and>
    MicoFlashRead board_env MICO_PARTITION_OTA_TEMP 0x1234 5 s2 = Some (kNoErr, 0x1239, str ''hello'', s3)"
  using partition_roundtrip [OF board.mico_spi_axioms, of MICO_PARTITION_OTA_TEMP "mico_partitions ! 3"
      board_sys 5 "str ''hello''" "0x1234"]
  by (simp add: spi_partition_def partition_at_def mico_partitions_def board_sys_def)

text \<open>The bounds are compared after 32-bit additions: a range that wraps round the address space passes
  them, here on \<open>PARAMETER_1\<close>, which starts at address 0.\<close>

lemma wrapped_range_passes:
  "flash_checks MICO_PARTITION_PARAMETER_1 (mico_partitions ! 5) boot PAR_OPT_WRITE_MASK
     (0 + 0xFFFFF000) (0 + 0xFFFFF000 + 0x1001 - 1) = kNoErr"
  by (simp add: flash_checks_def mico_partitions_def)

end
