(* ===== verification/ParaStorage.thy ===== *)
theory ParaStorage
  imports MicoFlash CheckSum StringConv
begin

text \<open>
  The configuration store, \<open>MICO/system/mico_system_para_storage.c\<close>. A configuration is the
  structure \<open>flash_content_t\<close> (boot table and system configuration) together with the
  application's user data; both and a CRC are kept in partition \<open>PARAMETER_1\<close> with a copy in
  \<open>PARAMETER_2\<close>. The structure is kept as the bytes it occupies: its layout depends on the
  compiler and is the parameter \<open>sys_layout\<close>, sizes and offsets of the fields that the code
  touches. Flash operations are the parameter \<open>flash_ops\<close>, for which \<open>MicoFlash\<close> provides the
  model of the code; the application's \<open>appRestoreDefault_callback\<close> and \<open>malloc\<close> are parameters. What an
  interrupted save leaves is read off the code's own run over operations that record their states, \<open>traced_ops\<close>.
\<close>

section \<open>Data\<close>

record sys_layout =
  SYS_CONFIG_SIZE :: nat
  enum_size :: nat
  o_name :: nat
  o_rfPowerSaveEnable :: nat
  o_mcuPowerSaveEnable :: nat
  o_dhcpEnable :: nat
  o_localIp :: nat
  o_netMask :: nat
  o_gateWay :: nat
  o_dnsServer :: nat
  o_configured :: nat
  o_easyLinkByPass :: nat
  o_magic_number :: nat
  o_seed :: nat
  default_name :: bytes

text \<open>\<open>sizeof(boot_table_t)\<close> is 24: two words, eight version bytes, two bytes, the CRC and four
  reserved bytes.\<close>

abbreviation SYS_CONFIG_OFFSET :: nat where "SYS_CONFIG_OFFSET \<equiv> 24"
abbreviation USER_CONFIG_OFFSET :: u32 where "USER_CONFIG_OFFSET \<equiv> 0x400"
abbreviation CRC_OFFSET :: u32 where "CRC_OFFSET \<equiv> 0xE00"
abbreviation SYS_MAGIC_NUMBR :: u32 where "SYS_MAGIC_NUMBR \<equiv> 0xA43E2165"

definition flash_content_size :: "sys_layout \<Rightarrow> nat" where
  "flash_content_size L = SYS_CONFIG_OFFSET + SYS_CONFIG_SIZE L"

record mico_Context_t =
  flashContentInRam :: bytes
  user_config_data :: bytes
  st_localIp :: bytes
  st_netMask :: bytes
  st_gateWay :: bytes
  st_dnsServer :: bytes

text \<open>The program state: the flash, the context and the static \<open>seedNum\<close>.\<close>

record 's para_sys =
  flash_store :: 's
  ram_context :: mico_Context_t
  seedNum :: u32

definition le16 :: "u16 \<Rightarrow> bytes" where
  "le16 w = [ucast w, ucast (drop_bit 8 w)]"

definition le16_of :: "bytes \<Rightarrow> u16" where
  "le16_of b = ucast (b ! 0) OR push_bit 8 (ucast (b ! 1))"

definition le32 :: "u32 \<Rightarrow> bytes" where
  "le32 w = [ucast w, ucast (drop_bit 8 w), ucast (drop_bit 16 w), ucast (drop_bit 24 w)]"

definition le32_of :: "bytes \<Rightarrow> u32" where
  "le32_of b = ucast (b ! 0) OR push_bit 8 (ucast (b ! 1)) OR push_bit 16 (ucast (b ! 2)) OR
     push_bit 24 (ucast (b ! 3))"

text \<open>Reading and writing a field of \<open>micoSystemConfig\<close>.\<close>

definition get_field :: "mico_Context_t \<Rightarrow> nat \<Rightarrow> nat \<Rightarrow> bytes" where
  "get_field ctx off n = slice (flashContentInRam ctx) (SYS_CONFIG_OFFSET + off) n"

definition set_field :: "nat \<Rightarrow> bytes \<Rightarrow> mico_Context_t \<Rightarrow> mico_Context_t" where
  "set_field off v ctx =
     ctx\<lparr>flashContentInRam := overwrite (flashContentInRam ctx) (SYS_CONFIG_OFFSET + off) v\<rparr>"

section \<open>Operations\<close>

definition is_crc_match :: "u16 \<Rightarrow> u16 \<Rightarrow> bool" where
  "is_crc_match crc_1 crc_2 =
     (if crc_1 = 0 \<or> crc_2 = 0 then False else if crc_1 \<noteq> crc_2 then False else True)"

definition config_crc :: "bytes \<Rightarrow> bytes \<Rightarrow> u16" where
  "config_crc sys user =
     snd (CRC16_Final (CRC16_Update (CRC16_Update (CRC16_Init \<lparr>crc = 0\<rparr>) sys) user))"

text \<open>Erase a partition and write a configuration into it: the sequence that the code has four
  times, stopping at the first error.\<close>

definition write_config ::
  "'s flash_ops \<Rightarrow> int \<Rightarrow> u32 \<Rightarrow> bytes \<Rightarrow> bytes \<Rightarrow> u16 \<Rightarrow> 's \<Rightarrow> (OSStatus \<times> 's) option" where
  "write_config ops par erase_size content user crc_result s = do {
     (err, s) \<leftarrow> op_erase ops par 0 erase_size s;
     if err \<noteq> kNoErr then Some (err, s) else do {
       (err, para_offset, s) \<leftarrow> op_write ops par 0 content (of_nat (length content)) s;
       if err \<noteq> kNoErr then Some (err, s) else do {
         (err, para_offset, s) \<leftarrow> op_write ops par USER_CONFIG_OFFSET user (of_nat (length user)) s;
         if err \<noteq> kNoErr then Some (err, s) else do {
           (err, para_offset, s) \<leftarrow> op_write ops par CRC_OFFSET (le16 crc_result) 2 s;
           Some (err, s)
         }
       }
     }
   }"

definition sys_config :: "sys_layout \<Rightarrow> mico_Context_t \<Rightarrow> bytes" where
  "sys_config L ctx = slice (flashContentInRam ctx) SYS_CONFIG_OFFSET (SYS_CONFIG_SIZE L)"

text \<open>The status of the read-back is not looked at; a read that delivers nothing leaves
  \<open>crc_readback\<close> uninitialised.\<close>

definition internal_update_config ::
  "'s flash_ops \<Rightarrow> sys_layout \<Rightarrow> mico_Context_t \<Rightarrow> 's \<Rightarrow> (OSStatus \<times> 's) option" where
  "internal_update_config ops L ctx s =
     (let crc_result = config_crc (sys_config L ctx) (user_config_data ctx);
          content = take (flash_content_size L) (flashContentInRam ctx);
          n = of_nat (flash_content_size L) in do {
        (err, s) \<leftarrow> write_config ops MICO_PARTITION_PARAMETER_1 n content (user_config_data ctx) crc_result s;
        if err \<noteq> kNoErr then Some (err, s) else do {
          (err, para_offset, ds, s) \<leftarrow> op_read ops MICO_PARTITION_PARAMETER_1 CRC_OFFSET 2 s;
          if length ds < 2 then None
          else if le16_of ds = 0 then Some (kWriteErr, s)
          else write_config ops MICO_PARTITION_PARAMETER_2 n content (user_config_data ctx) crc_result s
        }
      })"

definition default_context :: "sys_layout \<Rightarrow> u32 \<Rightarrow> mico_Context_t \<Rightarrow> mico_Context_t" where
  "default_context L seed ctx =
     set_field (o_seed L) (le32 seed)
       (set_field (o_magic_number L) (le32 SYS_MAGIC_NUMBR)
         (set_field (o_mcuPowerSaveEnable L) [0]
           (set_field (o_rfPowerSaveEnable L) [0]
             (set_field (o_easyLinkByPass L) [0]
               (set_field (o_configured L) (replicate (enum_size L) 0)
                 (set_field (o_name L) (default_name L @ [0])
                   (ctx\<lparr>flashContentInRam := replicate (flash_content_size L) 0\<rparr>)))))))"

text \<open>A missing context (\<open>NULL\<close>) is refused.\<close>

definition mico_system_context_restore ::
  "'s flash_ops \<Rightarrow> sys_layout \<Rightarrow> (bytes \<Rightarrow> bytes) \<Rightarrow> mico_Context_t option \<Rightarrow> u32 \<Rightarrow> 's
     \<Rightarrow> (OSStatus \<times> mico_Context_t option \<times> 's) option" where
  "mico_system_context_restore ops L appRestoreDefault_callback inContext seed s =
     (case inContext of None \<Rightarrow> Some (kNotPreparedErr, None, s)
      | Some ctx \<Rightarrow>
          let ctx1 = default_context L seed ctx;
              ctx2 = ctx1\<lparr>user_config_data := appRestoreDefault_callback (user_config_data ctx1)\<rparr> in do {
            (err, s) \<leftarrow> internal_update_config ops L ctx2 s;
            Some (err, Some ctx2, s)
          })"

text \<open>Built with \<open>MFG_MODE_AUTO\<close>: only the name, the state and the magic number are set.
  \<open>mfgConfigured\<close> is the enumerator 3.\<close>

definition MICORestoreMFG ::
  "'s flash_ops \<Rightarrow> sys_layout \<Rightarrow> (bytes \<Rightarrow> bytes) \<Rightarrow> mico_Context_t option \<Rightarrow> 's
     \<Rightarrow> (OSStatus \<times> mico_Context_t option \<times> 's) option" where
  "MICORestoreMFG ops L appRestoreDefault_callback inContext s =
     (case inContext of None \<Rightarrow> Some (kNotPreparedErr, None, s)
      | Some ctx \<Rightarrow>
          let ctx1 = set_field (o_magic_number L) (le32 SYS_MAGIC_NUMBR)
                (set_field (o_configured L) (take (enum_size L) (le32 3))
                  (set_field (o_name L) (default_name L @ [0]) ctx));
              ctx2 = ctx1\<lparr>user_config_data := appRestoreDefault_callback (user_config_data ctx1)\<rparr> in do {
            (err, s) \<leftarrow> internal_update_config ops L ctx2 s;
            Some (err, Some ctx2, s)
          })"

text \<open>\<open>mico_system_context_update\<close>: the seed is counted up first.\<close>

definition mico_system_context_update ::
  "'s flash_ops \<Rightarrow> sys_layout \<Rightarrow> mico_Context_t option \<Rightarrow> u32 \<Rightarrow> 's
     \<Rightarrow> (OSStatus \<times> mico_Context_t option \<times> u32 \<times> 's) option" where
  "mico_system_context_update ops L in_context seed s =
     (case in_context of None \<Rightarrow> Some (kNotPreparedErr, None, seed, s)
      | Some ctx \<Rightarrow>
          let seed = seed + 1; ctx1 = set_field (o_seed L) (le32 seed) ctx in do {
            (err, s) \<leftarrow> internal_update_config ops L ctx1 s;
            Some (err, Some ctx1, seed, s)
          })"

text \<open>\<open>strcpy(dst, src)\<close>; \<open>None\<close> when the string is not terminated in its source or too long.\<close>

definition strcpy :: "bytes \<Rightarrow> bytes \<Rightarrow> bytes option" where
  "strcpy dst src = do { t \<leftarrow> c_string src; blit dst 0 (t @ [0]) }"

definition copy_static_ip :: "sys_layout \<Rightarrow> mico_Context_t \<Rightarrow> mico_Context_t option" where
  "copy_static_ip L ctx =
     (let from = (\<lambda>off. drop (SYS_CONFIG_OFFSET + off) (flashContentInRam ctx)) in do {
        ip \<leftarrow> strcpy (st_localIp ctx) (from (o_localIp L));
        mask \<leftarrow> strcpy (st_netMask ctx) (from (o_netMask L));
        gw \<leftarrow> strcpy (st_gateWay ctx) (from (o_gateWay L));
        dns \<leftarrow> strcpy (st_dnsServer ctx) (from (o_dnsServer L));
        Some (ctx\<lparr>st_localIp := ip, st_netMask := mask, st_gateWay := gw, st_dnsServer := dns\<rparr>)
      })"

text \<open>What a read leaves in its destination: a failed read delivers nothing.\<close>

definition read_into :: "bytes \<Rightarrow> bytes \<Rightarrow> bytes" where
  "read_into buf ds = ds @ drop (length ds) buf"

text \<open>The part of \<open>MICOReadConfiguration\<close> that decides between the two partitions, with the
  loaded data in \<open>ctx\<close> and the backup in \<open>sys_backup\<close>.\<close>

definition recover_config ::
  "'s flash_ops \<Rightarrow> sys_layout \<Rightarrow> (bytes \<Rightarrow> bytes) \<Rightarrow> u16 \<Rightarrow> u16 \<Rightarrow> u16 \<Rightarrow> u16 \<Rightarrow> bytes \<Rightarrow> mico_Context_t \<Rightarrow> u32 \<Rightarrow> 's
     \<Rightarrow> (OSStatus \<times> mico_Context_t \<times> 's) option" where
  "recover_config ops L cb crc_result crc_target crc_backup_result crc_backup_target sys_backup ctx seed s =
     (if \<not> is_crc_match crc_result crc_target then
        (if \<not> is_crc_match crc_backup_result crc_backup_target then do {
           (err, ctx', s) \<leftarrow> mico_system_context_restore ops L cb (Some ctx) seed s;
           Some (err, the ctx', s)
         }
         else do {
           let ctx1 = ctx\<lparr>flashContentInRam := replicate SYS_CONFIG_OFFSET 0 @ sys_backup\<rparr>;
           p \<leftarrow> MicoFlashGetInfo MICO_PARTITION_PARAMETER_1;
           (err, s) \<leftarrow> write_config ops MICO_PARTITION_PARAMETER_1 (partition_length p)
             (flashContentInRam ctx1) (user_config_data ctx1) crc_backup_result s;
           Some (err, ctx1, s)
         })
      else if \<not> is_crc_match crc_result crc_backup_result \<or> \<not> is_crc_match crc_backup_result crc_backup_target
      then do {
        p \<leftarrow> MicoFlashGetInfo MICO_PARTITION_PARAMETER_2;
        (err, s) \<leftarrow> write_config ops MICO_PARTITION_PARAMETER_2 (partition_length p)
          (flashContentInRam ctx) (user_config_data ctx) crc_target s;
        Some (err, ctx, s)
      }
      else Some (kNoErr, ctx, s))"

text \<open>The end of \<open>MICOReadConfiguration\<close>: the seed, the magic number and the static addresses.\<close>

definition finish_config ::
  "'s flash_ops \<Rightarrow> sys_layout \<Rightarrow> (bytes \<Rightarrow> bytes) \<Rightarrow> bool \<Rightarrow> mico_Context_t \<Rightarrow> 's
     \<Rightarrow> (OSStatus \<times> 's para_sys) option" where
  "finish_config ops L cb mfg_mode_auto ctx s =
     (let seed = le32_of (get_field ctx (o_seed L) 4);
          seed = (if seed = - 1 then 0 else seed) in do {
        (err, ctx, s) \<leftarrow>
          (if le32_of (get_field ctx (o_magic_number L) 4) \<noteq> SYS_MAGIC_NUMBR then do {
             (err, ctx', s) \<leftarrow>
               (if mfg_mode_auto then MICORestoreMFG ops L cb (Some ctx) s
                else mico_system_context_restore ops L cb (Some ctx) seed s);
             Some (err, the ctx', s)
           }
           else Some (kNoErr, ctx, s));
        if err \<noteq> kNoErr then Some (err, \<lparr>flash_store = s, ram_context = ctx, seedNum = seed\<rparr>)
        else if get_field ctx (o_dhcpEnable L) 1 = [0] then do {
          ctx \<leftarrow> copy_static_ip L ctx;
          Some (kNoErr, \<lparr>flash_store = s, ram_context = ctx, seedNum = seed\<rparr>)
        }
        else Some (kNoErr, \<lparr>flash_store = s, ram_context = ctx, seedNum = seed\<rparr>)
      })"

text \<open>Statuses of the reads are overwritten; only what they delivered counts. A CRC that was not
  read is an uninitialised variable. \<open>malloc\<close> blocks keep their previous content.\<close>

definition MICOReadConfiguration ::
  "'s flash_ops \<Rightarrow> allocator \<Rightarrow> sys_layout \<Rightarrow> (bytes \<Rightarrow> bytes) \<Rightarrow> bool \<Rightarrow> 's para_sys
     \<Rightarrow> (OSStatus \<times> 's para_sys) option" where
  "MICOReadConfiguration ops malloc L cb mfg_mode_auto ps =
     (let ctx = ram_context ps; user_size = length (user_config_data ctx) in
      case malloc (SYS_CONFIG_SIZE L) of None \<Rightarrow> Some (kNoMemoryErr, ps)
      | Some sys_backup_data \<Rightarrow>
      (case malloc user_size of None \<Rightarrow> Some (kNoMemoryErr, ps)
       | Some user_backup_data \<Rightarrow> do {
           (err, o1, d1, s) \<leftarrow> op_read ops MICO_PARTITION_PARAMETER_1 0 (of_nat (flash_content_size L)) (flash_store ps);
           (err, o2, d2, s) \<leftarrow> op_read ops MICO_PARTITION_PARAMETER_1 USER_CONFIG_OFFSET (of_nat user_size) s;
           let ctx = ctx\<lparr>flashContentInRam := read_into (flashContentInRam ctx) d1,
                         user_config_data := read_into (user_config_data ctx) d2\<rparr>;
           let crc_result = config_crc (sys_config L ctx) (user_config_data ctx);
           (err, o3, crc_target, s) \<leftarrow> op_read ops MICO_PARTITION_PARAMETER_1 CRC_OFFSET 2 s;
           (err, o4, d4, s) \<leftarrow> op_read ops MICO_PARTITION_PARAMETER_2 (of_nat SYS_CONFIG_OFFSET) (of_nat (SYS_CONFIG_SIZE L)) s;
           (err, o5, d5, s) \<leftarrow> op_read ops MICO_PARTITION_PARAMETER_2 USER_CONFIG_OFFSET (of_nat user_size) s;
           let sys_backup = read_into sys_backup_data d4;
           let crc_backup_result = config_crc sys_backup (read_into user_backup_data d5);
           (err, o6, crc_backup_target, s) \<leftarrow> op_read ops MICO_PARTITION_PARAMETER_2 CRC_OFFSET 2 s;
           if length crc_target < 2 \<or> length crc_backup_target < 2 then None
           else do {
             (err, ctx, s) \<leftarrow> recover_config ops L cb crc_result (le16_of crc_target)
               crc_backup_result (le16_of crc_backup_target) sys_backup ctx (seedNum ps) s;
             if err \<noteq> kNoErr then Some (err, ps\<lparr>flash_store := s, ram_context := ctx\<rparr>)
             else finish_config ops L cb mfg_mode_auto ctx s
           }
         }))"

section \<open>What a written partition holds\<close>

lemma le16_inverse [simp]: "le16_of (le16 w) = w"
  unfolding le16_of_def le16_def by (rule bit_word_eqI) (auto simp: bit_simps)

lemma le32_inverse [simp]: "le32_of (le32 w) = w"
proof (rule bit_word_eqI)
  fix n
  assume "n < LENGTH(32)"
  then consider "n < 8" | "8 \<le> n" "n < 16" | "16 \<le> n" "n < 24" | "24 \<le> n" "n < 32" by force
  then show "bit (le32_of (le32 w)) n \<longleftrightarrow> bit w n"
    by cases (auto simp: le32_of_def le32_def bit_simps)
qed

lemma length_le [simp]: "length (le16 w) = 2" "length (le32 v) = 4"
  by (simp_all add: le16_def le32_def)

definition config_image :: "bytes \<Rightarrow> bytes \<Rightarrow> u16 \<Rightarrow> bytes" where
  "config_image c u w16 =
     overwrite (overwrite (overwrite (replicate 4096 0xFF) 0 c) 0x400 u) 0xE00 (le16 w16)"

lemma image_slices:
  assumes "length c \<le> 0x400" and "length u \<le> 0xA00"
  shows "slice (config_image c u w16) 0 (length c) = c"
    and "i + n \<le> length c \<Longrightarrow> slice (config_image c u w16) i n = slice c i n"
    and "slice (config_image c u w16) 0x400 (length u) = u"
    and "slice (config_image c u w16) 0xE00 2 = le16 w16"
proof -
  show a: "slice (config_image c u w16) 0 (length c) = c"
    unfolding config_image_def using assms
    by (simp add: slice_overwrite_before slice_overwrite_same)
  show "slice (config_image c u w16) i n = slice c i n" if "i + n \<le> length c"
  proof -
    have "slice (config_image c u w16) i n = slice (slice (config_image c u w16) 0 (length c)) i n"
      using slice_take [OF that, of "config_image c u w16"] by (simp add: slice_def [of _ 0])
    then show ?thesis unfolding a .
  qed
  show "slice (config_image c u w16) 0x400 (length u) = u"
    unfolding config_image_def using assms by (simp add: slice_overwrite_before slice_overwrite_same)
  show "slice (config_image c u w16) 0xE00 2 = le16 w16"
    unfolding config_image_def using assms slice_overwrite_same [of _ "le16 w16"] by simp
qed

lemma length_config_image [simp]: "length c \<le> 0x400 \<Longrightarrow> length u \<le> 0xA00 \<Longrightarrow> length (config_image c u w16) = 4096"
  by (simp add: config_image_def)

lemma unat_of_small: "k < 65536 \<Longrightarrow> unat (of_nat k :: u32) = k"
  by (simp add: unat_of_nat)

text \<open>Power may fail between any two flash operations. Whatever code runs on \<open>traced_ops ops\<close> runs on
  \<open>ops\<close> and also lists the state that each operation leaves: the states in which power can fail.\<close>

definition traced_ops :: "'s flash_ops \<Rightarrow> ('s \<times> 's list) flash_ops" where
  "traced_ops ops =
     \<lparr>op_erase = \<lambda>p off n (s, h). do {
        (err, s) \<leftarrow> op_erase ops p off n s; Some (err, (s, h @ [s])) },
      op_write = \<lambda>p off b n (s, h). do {
        (err, off, s) \<leftarrow> op_write ops p off b n s; Some (err, off, (s, h @ [s])) },
      op_read = \<lambda>p off n (s, h). do {
        (err, off, ds, s) \<leftarrow> op_read ops p off n s; Some (err, off, ds, (s, h @ [s])) }\<rparr>"

lemma traced_ops_simps [simp]:
  "op_erase (traced_ops ops) p off n (s, h) =
     do { (err, s) \<leftarrow> op_erase ops p off n s; Some (err, (s, h @ [s])) }"
  "op_write (traced_ops ops) p off b n (s, h) =
     do { (err, off, s) \<leftarrow> op_write ops p off b n s; Some (err, off, (s, h @ [s])) }"
  "op_read (traced_ops ops) p off n (s, h) =
     do { (err, off, ds, s) \<leftarrow> op_read ops p off n s; Some (err, off, ds, (s, h @ [s])) }"
  by (simp_all add: traced_ops_def)

context param_store begin

lemma write_config_traced:
  assumes s: "inv s" and p: "p \<in> parts" and n: "0 < unat n" "unat n \<le> 4096"
    and c: "length c \<le> 0x400" and u: "length u \<le> 0xA00"
  shows "\<exists>s' h'. write_config ops p n c u w16 s = Some (kNoErr, s') \<and> inv s' \<and>
    content s' = (content s)(p := config_image c u w16) \<and>
    (\<forall>h. write_config (traced_ops ops) p n c u w16 (s, h) = Some (kNoErr, (s', h @ h'))) \<and>
    length h' = 4 \<and> last h' = s' \<and> (\<forall>t\<in>set h'. \<forall>q. q \<noteq> p \<longrightarrow> content t q = content s q)"
proof -
  obtain s1 where e: "op_erase ops p 0 n s = Some (kNoErr, s1)" "inv s1"
    "content s1 = (content s)(p := replicate 4096 0xFF)"
    using erase_part [OF s p n] by blast
  have uc: "unat (of_nat (length c) :: u32) = length c" "unat (of_nat (length u) :: u32) = length u"
    using c u by (simp_all add: unat_of_small)
  obtain s2 where w1: "op_write ops p 0 c (of_nat (length c)) s1 = Some (kNoErr, of_nat (length c), s2)" "inv s2"
    "content s2 = (content s1)(p := overwrite (content s1 p) 0 c)"
    using write_part [OF e(2) p, of "of_nat (length c)" c 0] c by (auto simp: uc e(3))
  have b: "slice (content s2 p) 0x400 (length u) = replicate (length u) 0xFF"
    using c u by (simp add: w1(3) e(3) slice_overwrite_after)
  obtain s3 where w2: "op_write ops p USER_CONFIG_OFFSET u (of_nat (length u)) s2 =
      Some (kNoErr, USER_CONFIG_OFFSET + of_nat (length u), s3)" "inv s3"
    "content s3 = (content s2)(p := overwrite (content s2 p) 0x400 u)"
    using write_part [OF w1(2) p, of "of_nat (length u)" u USER_CONFIG_OFFSET] u b by (auto simp: uc)
  have b2: "slice (content s3 p) 0xE00 2 = replicate 2 0xFF"
    using c u by (simp add: w2(3) w1(3) e(3) slice_overwrite_after)
  obtain s4 where w3: "op_write ops p CRC_OFFSET (le16 w16) 2 s3 = Some (kNoErr, CRC_OFFSET + 2, s4)" "inv s4"
    "content s4 = (content s3)(p := overwrite (content s3 p) 0xE00 (le16 w16))"
    using write_part [OF w2(2) p, of 2 "le16 w16" CRC_OFFSET] b2 by auto
  have s4: "content s4 = (content s)(p := config_image c u w16)"
    by (rule ext) (simp add: w3(3) w2(3) w1(3) e(3) config_image_def)
  show ?thesis
    by (rule exI [of _ s4], rule exI [of _ "[s1, s2, s3, s4]"])
       (use e(1) w1(1) w2(1) w3(1,2) s4 in \<open>simp add: write_config_def e(3) w1(3) w2(3)\<close>)
qed

lemma write_config_done:
  assumes "inv s" "p \<in> parts" "0 < unat n" "unat n \<le> 4096" "length c \<le> 0x400" "length u \<le> 0xA00"
  shows "\<exists>s'. write_config ops p n c u w16 s = Some (kNoErr, s') \<and> inv s' \<and>
    content s' = (content s)(p := config_image c u w16)"
  using write_config_traced [OF assms] by blast

lemma update_config_done:
  assumes s: "inv s" and p: "{MICO_PARTITION_PARAMETER_1, MICO_PARTITION_PARAMETER_2} \<subseteq> parts"
    and c: "length (flashContentInRam ctx) = flash_content_size L" "flash_content_size L \<le> 0x400"
    and u: "length (user_config_data ctx) \<le> 0xA00"
    and w16: "w16 = config_crc (sys_config L ctx) (user_config_data ctx)" "w16 \<noteq> 0"
  shows "\<exists>s'. internal_update_config ops L ctx s = Some (kNoErr, s') \<and> inv s' \<and>
    content s' = (content s)
      (MICO_PARTITION_PARAMETER_1 := config_image (flashContentInRam ctx) (user_config_data ctx) w16,
       MICO_PARTITION_PARAMETER_2 := config_image (flashContentInRam ctx) (user_config_data ctx) w16)"
proof -
  let ?c = "flashContentInRam ctx" and ?u = "user_config_data ctx"
  have n: "unat (of_nat (flash_content_size L) :: u32) = flash_content_size L"
    using c(2) by (simp add: unat_of_small)
  have n0: "0 < unat (of_nat (flash_content_size L) :: u32)" "unat (of_nat (flash_content_size L) :: u32) \<le> 4096"
    unfolding n using c(2) by (simp_all add: flash_content_size_def)
  have lc: "length ?c \<le> 0x400" using c by simp
  have pp: "MICO_PARTITION_PARAMETER_1 \<in> parts" "MICO_PARTITION_PARAMETER_2 \<in> parts" using p by auto
  obtain s1 where w: "write_config ops MICO_PARTITION_PARAMETER_1 (of_nat (flash_content_size L)) ?c ?u w16 s = Some (kNoErr, s1)"
    "inv s1" "content s1 = (content s)(MICO_PARTITION_PARAMETER_1 := config_image ?c ?u w16)"
    using write_config_done [OF s pp(1) n0 lc u] by blast
  obtain s2 where r: "op_read ops MICO_PARTITION_PARAMETER_1 CRC_OFFSET 2 s1 =
      Some (kNoErr, CRC_OFFSET + 2, le16 w16, s2)" "inv s2" "content s2 = content s1"
    using read_part [OF w(2) pp(1), of CRC_OFFSET 2] image_slices(4) [OF lc u] by (auto simp: w(3))
  obtain s3 where w2: "write_config ops MICO_PARTITION_PARAMETER_2 (of_nat (flash_content_size L)) ?c ?u w16 s2 = Some (kNoErr, s3)"
    "inv s3" "content s3 = (content s2)(MICO_PARTITION_PARAMETER_2 := config_image ?c ?u w16)"
    using write_config_done [OF r(2) pp(2) n0 lc u] by blast
  have "take (flash_content_size L) ?c = ?c" using c(1) by simp
  then have "internal_update_config ops L ctx s = Some (kNoErr, s3)"
    using w(1) r(1) w2(1) w16 by (simp add: internal_update_config_def Let_def)
  then show ?thesis using w2 by (simp add: r(3) w(3))
qed

text \<open>What the loading part of \<open>MICOReadConfiguration\<close> computes from the two partitions.\<close>

lemma read_config:
  assumes s: "inv (flash_store ps)"
    and p: "{MICO_PARTITION_PARAMETER_1, MICO_PARTITION_PARAMETER_2} \<subseteq> parts"
    and sz: "flash_content_size L \<le> 0x400"
    and c: "length (flashContentInRam (ram_context ps)) = flash_content_size L"
    and u: "length (user_config_data (ram_context ps)) \<le> 0xA00"
    and m: "malloc (SYS_CONFIG_SIZE L) = Some sb" "length sb = SYS_CONFIG_SIZE L"
      "malloc (length (user_config_data (ram_context ps))) = Some ub"
      "length ub = length (user_config_data (ram_context ps))"
  defines "m1 \<equiv> content (flash_store ps) MICO_PARTITION_PARAMETER_1"
    and "m2 \<equiv> content (flash_store ps) MICO_PARTITION_PARAMETER_2"
    and "ul \<equiv> length (user_config_data (ram_context ps))"
  defines "ctx1 \<equiv> (ram_context ps)\<lparr>flashContentInRam := slice m1 0 (flash_content_size L),
      user_config_data := slice m1 0x400 ul\<rparr>"
  shows "\<exists>s1. inv s1 \<and> content s1 = content (flash_store ps) \<and>
    MICOReadConfiguration ops malloc L cb mfg ps = do {
      (err, ctx, s) \<leftarrow> recover_config ops L cb (config_crc (sys_config L ctx1) (slice m1 0x400 ul))
        (le16_of (slice m1 0xE00 2)) (config_crc (slice m2 24 (SYS_CONFIG_SIZE L)) (slice m2 0x400 ul))
        (le16_of (slice m2 0xE00 2)) (slice m2 24 (SYS_CONFIG_SIZE L)) ctx1 (seedNum ps) s1;
      if err \<noteq> kNoErr then Some (err, ps\<lparr>flash_store := s, ram_context := ctx\<rparr>)
      else finish_config ops L cb mfg ctx s
    }"
proof -
  let ?s0 = "flash_store ps" and ?S = "SYS_CONFIG_SIZE L" and ?F = "flash_content_size L"
  have pp: "MICO_PARTITION_PARAMETER_1 \<in> parts" "MICO_PARTITION_PARAMETER_2 \<in> parts" using p by auto
  have uf: "unat (of_nat ?F :: u32) = ?F" "unat (of_nat ?S :: u32) = ?S" "unat (of_nat ul :: u32) = ul"
    using sz u by (simp_all add: unat_of_small ul_def) (simp add: unat_of_small flash_content_size_def)
  have F: "?F = 24 + ?S" by (simp add: flash_content_size_def)
  have l: "length m1 = 4096" "length m2 = 4096"
    unfolding m1_def m2_def using content_length [OF s] pp by blast+
  have ul: "ul \<le> 0xA00" using u by (simp add: ul_def)
  obtain s1 where r1: "op_read ops MICO_PARTITION_PARAMETER_1 0 (of_nat ?F) ?s0 = Some (kNoErr, of_nat ?F, slice m1 0 ?F, s1)"
    "inv s1" "content s1 = content ?s0"
    using read_part [OF s pp(1), of 0 "of_nat ?F"] sz by (auto simp: uf m1_def)
  obtain s2 where r2: "op_read ops MICO_PARTITION_PARAMETER_1 USER_CONFIG_OFFSET (of_nat ul) s1 =
      Some (kNoErr, USER_CONFIG_OFFSET + of_nat ul, slice m1 0x400 ul, s2)" "inv s2" "content s2 = content ?s0"
    using read_part [OF r1(2) pp(1), of USER_CONFIG_OFFSET "of_nat ul"] ul by (auto simp: uf m1_def r1(3))
  obtain s3 where r3: "op_read ops MICO_PARTITION_PARAMETER_1 CRC_OFFSET 2 s2 =
      Some (kNoErr, CRC_OFFSET + 2, slice m1 0xE00 2, s3)" "inv s3" "content s3 = content ?s0"
    using read_part [OF r2(2) pp(1), of CRC_OFFSET 2] by (auto simp: m1_def r2(3))
  obtain s4 where r4: "op_read ops MICO_PARTITION_PARAMETER_2 24 (of_nat ?S) s3 =
      Some (kNoErr, 24 + of_nat ?S, slice m2 24 ?S, s4)" "inv s4" "content s4 = content ?s0"
    using read_part [OF r3(2) pp(2), of 24 "of_nat ?S"] sz F by (auto simp: uf m2_def r3(3))
  obtain s5 where r5: "op_read ops MICO_PARTITION_PARAMETER_2 USER_CONFIG_OFFSET (of_nat ul) s4 =
      Some (kNoErr, USER_CONFIG_OFFSET + of_nat ul, slice m2 0x400 ul, s5)" "inv s5" "content s5 = content ?s0"
    using read_part [OF r4(2) pp(2), of USER_CONFIG_OFFSET "of_nat ul"] ul by (auto simp: uf m2_def r4(3))
  obtain s6 where r6: "op_read ops MICO_PARTITION_PARAMETER_2 CRC_OFFSET 2 s5 =
      Some (kNoErr, CRC_OFFSET + 2, slice m2 0xE00 2, s6)" "inv s6" "content s6 = content ?s0"
    using read_part [OF r5(2) pp(2), of CRC_OFFSET 2] by (auto simp: m2_def r5(3))
  have ri: "read_into (flashContentInRam (ram_context ps)) (slice m1 0 ?F) = slice m1 0 ?F"
    "read_into (user_config_data (ram_context ps)) (slice m1 0x400 ul) = slice m1 0x400 ul"
    "read_into sb (slice m2 24 ?S) = slice m2 24 ?S"
    "read_into ub (slice m2 0x400 ul) = slice m2 0x400 ul"
    using c m ul sz F l by (simp_all add: read_into_def ul_def)
  have "length (slice m1 0xE00 2) = 2" "length (slice m2 0xE00 2) = 2" using l by simp_all
  with r6(2,3) show ?thesis
    unfolding MICOReadConfiguration_def Let_def
    by (intro exI [of _ s6])
       (simp add: m(1) m(3) [folded ul_def] l r1(1) r2(1) r3(1) r4(1) r5(1) r6(1) ri ctx1_def flip: ul_def)
qed

end

section \<open>Interrupted updates\<close>

context param_store begin

text \<open>The nine operations of an update: as long as the first partition is rewritten the second one is as
  before; from the CRC of the first partition on, the first one is complete.\<close>

lemma update_config_traced:
  assumes s: "inv s" and p: "{MICO_PARTITION_PARAMETER_1, MICO_PARTITION_PARAMETER_2} \<subseteq> parts"
    and c: "length (flashContentInRam ctx) = flash_content_size L" "flash_content_size L \<le> 0x400"
    and u: "length (user_config_data ctx) \<le> 0xA00"
    and w: "w = config_crc (sys_config L ctx) (user_config_data ctx)" "w \<noteq> 0"
  shows "\<exists>s' h. internal_update_config ops L ctx s = Some (kNoErr, s') \<and>
    internal_update_config (traced_ops ops) L ctx (s, []) = Some (kNoErr, (s', h)) \<and>
    length h = 9 \<and> last h = s' \<and>
    (\<forall>t\<in>set h. content t MICO_PARTITION_PARAMETER_2 = content s MICO_PARTITION_PARAMETER_2 \<or>
       content t MICO_PARTITION_PARAMETER_1 = config_image (flashContentInRam ctx) (user_config_data ctx) w)"
proof -
  let ?c = "flashContentInRam ctx" and ?u = "user_config_data ctx"
  let ?n = "of_nat (flash_content_size L) :: u32"
  let ?P = "MICO_PARTITION_PARAMETER_1" and ?Q = "MICO_PARTITION_PARAMETER_2"
  have n0: "0 < unat ?n" "unat ?n \<le> 4096"
    using c(2) by (simp_all add: unat_of_small) (simp add: flash_content_size_def unat_of_small)
  have lc: "length ?c \<le> 0x400" and tc: "take (flash_content_size L) ?c = ?c" using c by simp_all
  have pp: "?P \<in> parts" "?Q \<in> parts" and pq: "?P \<noteq> ?Q" using p by auto
  obtain s1 h1 where w1: "write_config ops ?P ?n ?c ?u w s = Some (kNoErr, s1)" "inv s1"
    "content s1 = (content s)(?P := config_image ?c ?u w)"
    "write_config (traced_ops ops) ?P ?n ?c ?u w (s, []) = Some (kNoErr, (s1, h1))" "length h1 = 4"
    "\<forall>t\<in>set h1. \<forall>q. q \<noteq> ?P \<longrightarrow> content t q = content s q"
    using write_config_traced [OF s pp(1) n0 lc u, of w] by force
  obtain s2 where r: "op_read ops ?P CRC_OFFSET 2 s1 = Some (kNoErr, CRC_OFFSET + 2, le16 w, s2)"
    "inv s2" "content s2 = content s1"
    using read_part [OF w1(2) pp(1), of CRC_OFFSET 2] image_slices(4) [OF lc u] by (auto simp: w1(3))
  obtain s3 h3 where w3: "write_config ops ?Q ?n ?c ?u w s2 = Some (kNoErr, s3)"
    "\<And>h. write_config (traced_ops ops) ?Q ?n ?c ?u w (s2, h) = Some (kNoErr, (s3, h @ h3))"
    "length h3 = 4" "last h3 = s3" "\<forall>t\<in>set h3. \<forall>q. q \<noteq> ?Q \<longrightarrow> content t q = content s2 q"
    using write_config_traced [OF r(2) pp(2) n0 lc u, of w] by force
  have u1: "internal_update_config ops L ctx s = Some (kNoErr, s3)"
    using w1(1) r(1) w3(1) w by (simp add: internal_update_config_def Let_def tc)
  have u2: "internal_update_config (traced_ops ops) L ctx (s, []) = Some (kNoErr, (s3, h1 @ [s2] @ h3))"
    using w1(4) r(1) w3(2) [of "h1 @ [s2]"] w by (simp add: internal_update_config_def Let_def tc)
  have m: "\<forall>t\<in>set (h1 @ [s2] @ h3). content t ?Q = content s ?Q \<or> content t ?P = config_image ?c ?u w"
    using w1(6) w3(5) pq by (auto simp: r(3) w1(3))
  have "h3 \<noteq> []" using w3(3) by auto
  then show ?thesis using u1 u2 m w1(5) w3(3,4) by auto
qed

end

section \<open>Properties\<close>

text \<open>
  C4. A saved configuration survives a reboot: on any flash that keeps its promises, after
  \<open>mico_system_context_update\<close> a later \<open>MICOReadConfiguration\<close>, whatever the RAM holds then, succeeds and
  restores exactly the structure and the user data that were saved, and the seed (which becomes 0 when it is
  \<open>0xFFFFFFFF\<close>). With DHCP the rest of the context is left alone; with a static address its four texts are
  copied from the restored structure into the status. Provisos: the structure has at most \<open>0x400\<close> bytes and the
  user data at most \<open>0xA00\<close>; the structure carries the magic number (otherwise the code restores the
  default settings); the CRC of the data is not the value 0, which the code takes for a missing
  CRC; the two blocks of the read can be allocated; and for a static address the copies stay within their
  arrays (\<open>copy_static_ip\<close> is defined).
\<close>

theorem config_survives_reboot:
  assumes "param_store ops ok content parts" and "{MICO_PARTITION_PARAMETER_1, MICO_PARTITION_PARAMETER_2} \<subseteq> parts"
    and "ok s" and "flash_content_size L \<le> 0x400" and "length (flashContentInRam ctx) = flash_content_size L"
    and "length (user_config_data ctx) \<le> 0xA00" and "o_seed L + 4 \<le> SYS_CONFIG_SIZE L"
    and "ctx1 = set_field (o_seed L) (le32 (seed + 1)) ctx"
    and "config_crc (sys_config L ctx1) (user_config_data ctx1) \<noteq> 0"
    and "le32_of (get_field ctx1 (o_magic_number L) 4) = SYS_MAGIC_NUMBR"
    and "length (flashContentInRam ram) = flash_content_size L"
    and "length (user_config_data ram) = length (user_config_data ctx)"
    and "malloc (SYS_CONFIG_SIZE L) = Some sb" and "length sb = SYS_CONFIG_SIZE L"
    and "malloc (length (user_config_data ctx)) = Some ub" and "length ub = length (user_config_data ctx)"
    and "loaded = ram\<lparr>flashContentInRam := flashContentInRam ctx1, user_config_data := user_config_data ctx\<rparr>"
    and "(if get_field ctx1 (o_dhcpEnable L) 1 = [0] then copy_static_ip L loaded else Some loaded) = Some final"
  shows "\<exists>s1 s2. mico_system_context_update ops L (Some ctx) seed s = Some (kNoErr, Some ctx1, seed + 1, s1) \<and>
    MICOReadConfiguration ops malloc L cb mfg \<lparr>flash_store = s1, ram_context = ram, seedNum = z\<rparr> =
      Some (kNoErr, \<lparr>flash_store = s2, ram_context = final, seedNum = (if seed + 1 = - 1 then 0 else seed + 1)\<rparr>) \<and>
    flashContentInRam final = flashContentInRam ctx1 \<and> user_config_data final = user_config_data ctx"
proof -
  let ?c = "flashContentInRam ctx1" and ?u = "user_config_data ctx"
  let ?seed = "if seed + 1 = - 1 then 0 else seed + 1"
  define w where "w = config_crc (sys_config L ctx1) (user_config_data ctx1)"
  have F: "flash_content_size L = 24 + SYS_CONFIG_SIZE L" by (simp add: flash_content_size_def)
  have u1: "user_config_data ctx1 = ?u" by (simp add: assms(8) set_field_def)
  have c1: "length ?c = flash_content_size L"
    using assms(5,7) F by (simp add: assms(8) set_field_def)
  obtain s1 where s1: "internal_update_config ops L ctx1 s = Some (kNoErr, s1)" "ok s1"
    "content s1 = (content s)(MICO_PARTITION_PARAMETER_1 := config_image ?c ?u w,
       MICO_PARTITION_PARAMETER_2 := config_image ?c ?u w)"
    using param_store.update_config_done [OF assms(1,3,2) c1 assms(4) _ w_def] assms(6,9) u1 w_def by auto
  have upd: "mico_system_context_update ops L (Some ctx) seed s = Some (kNoErr, Some ctx1, seed + 1, s1)"
    using s1(1) by (simp add: mico_system_context_update_def Let_def flip: assms(8))
  let ?ps = "\<lparr>flash_store = s1, ram_context = ram, seedNum = z\<rparr>"
  have lc: "length ?c \<le> 0x400" using c1 assms(4) by simp
  note im = image_slices [OF lc assms(6)]
  have sl: "slice (config_image ?c ?u w) 0 (flash_content_size L) = ?c"
    "slice (config_image ?c ?u w) 24 (SYS_CONFIG_SIZE L) = slice ?c 24 (SYS_CONFIG_SIZE L)"
    "slice (config_image ?c ?u w) 0x400 (length ?u) = ?u"
    using im(1,3) im(2) [of 24 "SYS_CONFIG_SIZE L"] c1 F by simp_all
  have w0: "config_crc (slice ?c 24 (SYS_CONFIG_SIZE L)) ?u = w" "is_crc_match w w"
    using assms(9) by (simp_all add: w_def u1 is_crc_match_def sys_config_def)
  have gf: "get_field loaded off n = get_field ctx1 off n" for off n
    by (simp add: get_field_def assms(17))
  have seed: "le32_of (get_field loaded (o_seed L) 4) = seed + 1"
    using assms(5,7) F slice_overwrite_same [of "24 + o_seed L" "le32 (seed + 1)" "flashContentInRam ctx"]
    by (simp add: gf) (simp add: get_field_def assms(8) set_field_def)
  have fin: "finish_config ops L cb mfg loaded s' = Some (kNoErr, \<lparr>flash_store = s', ram_context = final, seedNum = ?seed\<rparr>)" for s'
    using assms(10,18) seed by (auto simp: finish_config_def Let_def gf split: if_splits)
  have fc: "flashContentInRam final = ?c \<and> user_config_data final = ?u"
    using assms(18) by (auto simp: assms(17) copy_static_ip_def Let_def bind_eq_Some_conv split: if_splits)
  obtain s2 where "MICOReadConfiguration ops malloc L cb mfg ?ps = do {
      (err, ctx, s) \<leftarrow> recover_config ops L cb w w w w (slice ?c 24 (SYS_CONFIG_SIZE L)) loaded z s2;
      if err \<noteq> kNoErr then Some (err, ?ps\<lparr>flash_store := s, ram_context := ctx\<rparr>)
      else finish_config ops L cb mfg ctx s }"
    using param_store.read_config [OF assms(1), of ?ps L malloc sb ub cb mfg] s1(2) assms(2,4,6,11-16)
    by (auto simp: s1(3) sl im(4) w0(1) sys_config_def assms(17))
  then have "MICOReadConfiguration ops malloc L cb mfg ?ps =
      Some (kNoErr, \<lparr>flash_store = s2, ram_context = final, seedNum = ?seed\<rparr>)"
    using w0(2) fin by (simp add: recover_config_def)
  with upd fc show ?thesis by blast
qed

text \<open>A small layout, a saved context and a fresh one, and an allocator, for the examples.\<close>

definition small_layout :: sys_layout where
  "small_layout =
     \<lparr>SYS_CONFIG_SIZE = 12, enum_size = 1, o_name = 10, o_rfPowerSaveEnable = 9, o_mcuPowerSaveEnable = 9,
      o_dhcpEnable = 8, o_localIp = 0, o_netMask = 0, o_gateWay = 0, o_dnsServer = 0, o_configured = 9,
      o_easyLinkByPass = 9, o_magic_number = 0, o_seed = 4, default_name = []\<rparr>"

definition saved_context :: mico_Context_t where
  "saved_context =
     \<lparr>flashContentInRam = replicate 24 0 @ [0x65, 0x21, 0x3E, 0xA4, 0, 0, 0, 0, 1, 0, 0, 0],
      user_config_data = [7], st_localIp = [], st_netMask = [], st_gateWay = [], st_dnsServer = []\<rparr>"

definition fresh_context :: mico_Context_t where
  "fresh_context =
     \<lparr>flashContentInRam = replicate 36 0xAA, user_config_data = [0xAA],
      st_localIp = [], st_netMask = [], st_gateWay = [], st_dnsServer = []\<rparr>"

lemma config_crc_ccitt: "config_crc sys user = crc_ccitt (sys @ user)"
  using crc16_ccitt [of "sys @ user"] by (simp add: config_crc_def crc16_def CRC16_Update_append)

theorem config_survives_reboot_witness:
  "\<exists>s1 s2 ctx1. mico_system_context_update (mico_flash_ops board_env) small_layout (Some saved_context) 0 board_sys =
      Some (kNoErr, Some ctx1, 1, s1) \<and>
    MICOReadConfiguration (mico_flash_ops board_env) (\<lambda>n. Some (replicate n 0)) small_layout (\<lambda>u. u) False
      \<lparr>flash_store = s1, ram_context = fresh_context, seedNum = 0\<rparr> =
      Some (kNoErr, \<lparr>flash_store = s2, ram_context = fresh_context
        \<lparr>flashContentInRam := replicate 24 0 @ [0x65, 0x21, 0x3E, 0xA4, 1, 0, 0, 0, 1, 0, 0, 0],
         user_config_data := [7]\<rparr>, seedNum = 1\<rparr>)"
proof -
  let ?c1 = "set_field (o_seed small_layout) (le32 (0 + 1)) saved_context"
  have c1: "flashContentInRam ?c1 = replicate 24 0 @ [0x65, 0x21, 0x3E, 0xA4, 1, 0, 0, 0, 1, 0, 0, 0]"
    by (simp add: set_field_def saved_context_def small_layout_def overwrite_def le32_def)
  have sys: "sys_config small_layout ?c1 = [0x65, 0x21, 0x3E, 0xA4, 1, 0, 0, 0, 1, 0, 0, 0]"
    by (simp only: sys_config_def c1) (simp add: slice_def small_layout_def)
  have user: "user_config_data ?c1 = [7]" by (simp add: set_field_def saved_context_def)
  have crc: "crc_ccitt ([0x65, 0x21, 0x3E, 0xA4, 1, 0, 0, 0, 1, 0, 0, 0] @ [7]) \<noteq> 0" by code_simp
  have g: "get_field ?c1 (o_magic_number small_layout) 4 = [0x65, 0x21, 0x3E, 0xA4]"
    "get_field ?c1 (o_dhcpEnable small_layout) 1 = [1]"
    by (simp_all only: get_field_def c1) (simp_all add: slice_def small_layout_def)
  let ?m = "\<lambda>n. Some (replicate n (0 :: u8))"
  have L: "flash_content_size small_layout \<le> 0x400"
    "length (flashContentInRam saved_context) = flash_content_size small_layout"
    "length (user_config_data saved_context) \<le> 0xA00"
    "o_seed small_layout + 4 \<le> SYS_CONFIG_SIZE small_layout"
    by (simp_all add: flash_content_size_def small_layout_def saved_context_def)
  have crc1: "config_crc (sys_config small_layout ?c1) (user_config_data ?c1) \<noteq> 0"
    using crc by (simp only: sys user config_crc_ccitt not_False_eq_True)
  have seed: "(if (0 :: u32) + 1 = - 1 then 0 else 0 + 1 :: u32) = 0 + 1" by simp
  have mg: "le32_of (get_field ?c1 (o_magic_number small_layout) 4) = SYS_MAGIC_NUMBR"
    "get_field ?c1 (o_dhcpEnable small_layout) 1 \<noteq> [0]"
    unfolding g by (simp_all add: le32_of_def)
  have R: "length (flashContentInRam fresh_context) = flash_content_size small_layout"
    "length (user_config_data fresh_context) = length (user_config_data saved_context)"
    by (simp_all add: flash_content_size_def small_layout_def saved_context_def fresh_context_def)
  let ?ld = "fresh_context\<lparr>flashContentInRam := flashContentInRam ?c1, user_config_data := user_config_data saved_context\<rparr>"
  have fin: "(if get_field ?c1 (o_dhcpEnable small_layout) 1 = [0] then copy_static_ip small_layout ?ld else Some ?ld) = Some ?ld"
    using mg(2) by (simp only: if_False)
  note survives = config_survives_reboot [OF board.params.param_store_axioms subset_refl board_sys_ready L refl crc1 mg(1) R,
      of ?m, OF refl length_replicate refl length_replicate refl fin, unfolded seed]
  have us: "user_config_data saved_context = [7]" by (simp add: saved_context_def)
  obtain s1 s2 where sv:
    "mico_system_context_update (mico_flash_ops board_env) small_layout (Some saved_context) 0 board_sys =
      Some (kNoErr, Some ?c1, 0 + 1, s1)"
    "MICOReadConfiguration (mico_flash_ops board_env) ?m small_layout (\<lambda>u. u) False
      \<lparr>flash_store = s1, ram_context = fresh_context, seedNum = 0\<rparr> =
      Some (kNoErr, \<lparr>flash_store = s2, ram_context = fresh_context
        \<lparr>flashContentInRam := flashContentInRam ?c1, user_config_data := user_config_data saved_context\<rparr>,
        seedNum = 0 + 1\<rparr>)"
    using survives by blast
  show ?thesis
  proof (rule exI [of _ s1], rule exI [of _ s2], rule exI [of _ ?c1], rule conjI)
    show "mico_system_context_update (mico_flash_ops board_env) small_layout (Some saved_context) 0 board_sys =
        Some (kNoErr, Some ?c1, 1, s1)" using sv(1) by (simp only: add_0)
  qed (use sv(2) [unfolded c1 us] in \<open>simp only: add_0\<close>)
qed

text \<open>
  C21. Power failure: the update is run on the flash with every operation recorded (\<open>traced_ops\<close>). The run
  of \<open>internal_update_config\<close> is the one without the recording; it has nine operations, four on each partition and
  the read-back between them; and wherever it is cut - after any of its operations - either \<open>PARAMETER_2\<close> still holds
  what it held before, or \<open>PARAMETER_1\<close> already holds the complete new configuration with its CRC. The
  flash keeps its promises (no operation fails), a cut within an operation is not considered, the structure has
  at most \<open>0x400\<close> bytes, the user data at most \<open>0xA00\<close>, and the CRC is not 0 (the code refuses it with \<open>kWriteErr\<close>).
\<close>

theorem update_interrupted:
  assumes "param_store ops ok content parts" and "{MICO_PARTITION_PARAMETER_1, MICO_PARTITION_PARAMETER_2} \<subseteq> parts"
    and "ok s" and "flash_content_size L \<le> 0x400" and "length (flashContentInRam ctx) = flash_content_size L"
    and "length (user_config_data ctx) \<le> 0xA00"
    and "w = config_crc (sys_config L ctx) (user_config_data ctx)" and "w \<noteq> 0"
  shows "\<exists>s' cuts. internal_update_config ops L ctx s = Some (kNoErr, s') \<and>
    internal_update_config (traced_ops ops) L ctx (s, []) = Some (kNoErr, (s', cuts)) \<and>
    length cuts = 9 \<and> last cuts = s' \<and>
    (\<forall>t\<in>set cuts. content t MICO_PARTITION_PARAMETER_2 = content s MICO_PARTITION_PARAMETER_2 \<or>
       content t MICO_PARTITION_PARAMETER_1 = config_image (flashContentInRam ctx) (user_config_data ctx) w)"
  using param_store.update_config_traced [OF assms(1,3,2,5,4,6,7,8)] .

theorem update_interrupted_witness:
  "\<exists>s' cuts. internal_update_config (traced_ops (mico_flash_ops board_env)) small_layout saved_context (board_sys, []) =
      Some (kNoErr, (s', cuts)) \<and> length cuts = 9 \<and>
    (\<forall>t\<in>set cuts. board.param_content t MICO_PARTITION_PARAMETER_2 = board.param_content board_sys MICO_PARTITION_PARAMETER_2 \<or>
       board.param_content t MICO_PARTITION_PARAMETER_1 = config_image (flashContentInRam saved_context) [7]
         (config_crc (sys_config small_layout saved_context) [7]))"
proof -
  have sys: "sys_config small_layout saved_context = [0x65, 0x21, 0x3E, 0xA4, 0, 0, 0, 0, 1, 0, 0, 0]"
    by (simp add: sys_config_def slice_def small_layout_def saved_context_def)
  have u: "user_config_data saved_context = [7]" by (simp add: saved_context_def)
  have crc: "crc_ccitt ([0x65, 0x21, 0x3E, 0xA4, 0, 0, 0, 0, 1, 0, 0, 0] @ [7]) \<noteq> 0" by code_simp
  have L: "flash_content_size small_layout \<le> 0x400"
    "length (flashContentInRam saved_context) = flash_content_size small_layout"
    "length (user_config_data saved_context) \<le> 0xA00"
    by (simp_all add: flash_content_size_def small_layout_def saved_context_def)
  have w: "config_crc (sys_config small_layout saved_context) (user_config_data saved_context) \<noteq> 0"
    using crc by (simp only: sys u config_crc_ccitt not_False_eq_True)
  show ?thesis
    using update_interrupted [OF board.params.param_store_axioms subset_refl board_sys_ready L refl w] unfolding u
    by (elim exE conjE) (intro exI conjI, assumption+)
qed

text \<open>
  Recovery from the backup: when the main copy is damaged and the backup is valid,
  \<open>MICOReadConfiguration\<close> succeeds and takes the system configuration from the backup, but the user data
  from the damaged main copy; and it writes that mixture back to \<open>PARAMETER_1\<close> under the CRC of the
  backup, which in general does not belong to it.
\<close>

theorem recovery_mixes_copies:
  assumes "param_store ops ok content parts" and "{MICO_PARTITION_PARAMETER_1, MICO_PARTITION_PARAMETER_2} \<subseteq> parts"
    and "ok s" and "flash_content_size L \<le> 0x400"
    and "length (flashContentInRam ram) = flash_content_size L" and "length (user_config_data ram) = length u"
    and "length u \<le> 0xA00" and "length c = flash_content_size L"
    and "sys = slice c 24 (SYS_CONFIG_SIZE L)" and "w = config_crc sys u" and "w \<noteq> 0"
    and "content s MICO_PARTITION_PARAMETER_2 = config_image c u w"
    and "m1 = content s MICO_PARTITION_PARAMETER_1"
    and "\<not> is_crc_match (config_crc (slice m1 24 (SYS_CONFIG_SIZE L)) (slice m1 0x400 (length u))) (le16_of (slice m1 0xE00 2))"
    and "slice sys (o_magic_number L) 4 = le32 SYS_MAGIC_NUMBR" and "slice sys (o_dhcpEnable L) 1 = [1]"
    and "malloc (SYS_CONFIG_SIZE L) = Some sb" and "length sb = SYS_CONFIG_SIZE L"
    and "malloc (length u) = Some ub" and "length ub = length u"
  shows "\<exists>ps'. MICOReadConfiguration ops malloc L cb mfg \<lparr>flash_store = s, ram_context = ram, seedNum = z\<rparr> =
      Some (kNoErr, ps') \<and>
    flashContentInRam (ram_context ps') = replicate 24 0 @ sys \<and>
    user_config_data (ram_context ps') = slice m1 0x400 (length u) \<and>
    content (flash_store ps') MICO_PARTITION_PARAMETER_1 =
      config_image (replicate 24 0 @ sys) (slice m1 0x400 (length u)) w"
proof -
  let ?ps = "\<lparr>flash_store = s, ram_context = ram, seedNum = z\<rparr>" and ?S = "SYS_CONFIG_SIZE L"
  let ?mu = "slice m1 0x400 (length u)"
  have F: "flash_content_size L = 24 + ?S" by (simp add: flash_content_size_def)
  have l1: "length m1 = 4096" using param_store.content_length [OF assms(1,3)] assms(2,13) by auto
  have lc: "length c \<le> 0x400" using assms(4,8) by simp
  note im = image_slices [OF lc assms(7)]
  have b: "slice (config_image c u w) 24 ?S = sys" "slice (config_image c u w) 0x400 (length u) = u"
    "slice (config_image c u w) 0xE00 2 = le16 w"
    using im(2) [of 24 ?S] im(3,4) assms(8,9) F by simp_all
  have ls: "length sys = ?S" using assms(8,9) F by simp
  define ctx1 where "ctx1 = ram\<lparr>flashContentInRam := slice m1 0 (flash_content_size L), user_config_data := ?mu\<rparr>"
  have s1: "sys_config L ctx1 = slice m1 24 ?S"
    using l1 assms(4) F by (simp add: sys_config_def ctx1_def slice_def drop_take)
  obtain t where t: "ok t" "content t = content s" "MICOReadConfiguration ops malloc L cb mfg ?ps = do {
      (err, ctx, s) \<leftarrow> recover_config ops L cb (config_crc (slice m1 24 ?S) ?mu) (le16_of (slice m1 0xE00 2))
        w w sys ctx1 z t;
      if err \<noteq> kNoErr then Some (err, ?ps\<lparr>flash_store := s, ram_context := ctx\<rparr>)
      else finish_config ops L cb mfg ctx s }"
    using param_store.read_config [OF assms(1), of ?ps L malloc sb ub cb mfg] assms(2-8,17-20) s1 [unfolded ctx1_def]
    by (auto simp: assms(12,13) b assms(10) [symmetric] assms(6) ctx1_def)
  let ?ctx = "ctx1\<lparr>flashContentInRam := replicate 24 0 @ sys\<rparr>"
  obtain p where p: "MicoFlashGetInfo MICO_PARTITION_PARAMETER_1 = Some p" "partition_length p = 0x1000"
    by (simp add: MicoFlashGetInfo_def partition_at_def mico_partitions_def)
  have pp: "MICO_PARTITION_PARAMETER_1 \<in> parts" using assms(2) by simp
  have lens: "length (replicate 24 0 @ sys) \<le> 0x400" "length ?mu \<le> 0xA00"
    using ls F assms(4,7) by simp_all
  obtain t2 where wc: "write_config ops MICO_PARTITION_PARAMETER_1 0x1000 (replicate 24 0 @ sys) ?mu w t = Some (kNoErr, t2)"
    "content t2 = (content t)(MICO_PARTITION_PARAMETER_1 := config_image (replicate 24 0 @ sys) ?mu w)"
    using param_store.write_config_done [OF assms(1) t(1) pp, of "0x1000", OF _ _ lens] by auto
  have rc: "recover_config ops L cb (config_crc (slice m1 24 ?S) ?mu) (le16_of (slice m1 0xE00 2)) w w sys ctx1 z t =
      Some (kNoErr, ?ctx, t2)"
    using assms(14,11) wc(1) p by (simp add: recover_config_def is_crc_match_def [of w w] Let_def ctx1_def)
  have fld: "get_field ?ctx off n = slice sys off n" for off n
    by (simp add: get_field_def slice_def)
  have "\<exists>sd. finish_config ops L cb mfg ?ctx t2 = Some (kNoErr, \<lparr>flash_store = t2, ram_context = ?ctx, seedNum = sd\<rparr>)"
    using assms(15,16) by (simp add: finish_config_def Let_def fld)
  then show ?thesis using t(3) rc wc(2) by (auto simp: ctx1_def)
qed

text \<open>A board whose \<open>PARAMETER_1\<close> was erased when power failed and whose backup is intact.\<close>

definition backup_image :: bytes where
  "backup_image = config_image (flashContentInRam saved_context) [7]
     (config_crc (slice (flashContentInRam saved_context) 24 12) [7])"

definition damaged_sys :: "(cells, mx25) flash_sys" where
  "damaged_sys = board_sys\<lparr>devices := (devices board_sys)\<lparr>chip := (chip (devices board_sys))
     \<lparr>mx_cells := (\<lambda>x. if 0x1000 \<le> x \<and> x < 0x2000 then backup_image ! (x - 0x1000) else 0xFF)\<rparr>\<rparr>\<rparr>"

lemma damaged_sys_contents:
  "board.param_content damaged_sys MICO_PARTITION_PARAMETER_1 = replicate 4096 0xFF"
  "board.param_content damaged_sys MICO_PARTITION_PARAMETER_2 = backup_image"
proof -
  have l: "length backup_image = 4096" by (simp add: backup_image_def saved_context_def)
  show "board.param_content damaged_sys MICO_PARTITION_PARAMETER_1 = replicate 4096 0xFF"
    by (rule nth_equalityI)
       (simp_all add: board.param_content_def board.spi_cells_def damaged_sys_def mread_nth param_start_def)
  show "board.param_content damaged_sys MICO_PARTITION_PARAMETER_2 = backup_image"
    by (rule nth_equalityI)
       (simp_all add: l board.param_content_def board.spi_cells_def damaged_sys_def mread_nth param_start_def)
qed

theorem recovery_mixes_copies_witness:
  "\<exists>ps'. MICOReadConfiguration (mico_flash_ops board_env) (\<lambda>n. Some (replicate n 0)) small_layout (\<lambda>u. u) False
      \<lparr>flash_store = damaged_sys, ram_context = fresh_context, seedNum = 0\<rparr> = Some (kNoErr, ps') \<and>
    user_config_data (ram_context ps') = [0xFF]"
proof -
  let ?c = "flashContentInRam saved_context"
  let ?sys = "slice ?c 24 (SYS_CONFIG_SIZE small_layout)"
  let ?m = "\<lambda>n. Some (replicate n (0 :: u8))"
  let ?m1 = "board.param_content damaged_sys MICO_PARTITION_PARAMETER_1"
  have sys: "?sys = [0x65, 0x21, 0x3E, 0xA4, 0, 0, 0, 0, 1, 0, 0, 0]"
    by (simp add: slice_def small_layout_def saved_context_def)
  have ready: "board.sys_ready damaged_sys"
    using board_sys_ready by (simp add: board.sys_ready_def damaged_sys_def mx25.ready_def)
  have crc: "crc_ccitt ([0x65, 0x21, 0x3E, 0xA4, 0, 0, 0, 0, 1, 0, 0, 0] @ [7]) \<noteq> 0" by code_simp
  have crc1: "config_crc ?sys [7] \<noteq> 0" using crc by (simp only: sys config_crc_ccitt not_False_eq_True)
  have L: "flash_content_size small_layout \<le> 0x400"
    "length (flashContentInRam fresh_context) = flash_content_size small_layout"
    "length (user_config_data fresh_context) = length [7 :: u8]" "length [7 :: u8] \<le> 0xA00"
    "length ?c = flash_content_size small_layout"
    by (simp_all add: flash_content_size_def small_layout_def saved_context_def fresh_context_def)
  have b: "board.param_content damaged_sys MICO_PARTITION_PARAMETER_2 = config_image ?c [7] (config_crc ?sys [7])"
    by (simp add: damaged_sys_contents backup_image_def small_layout_def)
  have m1: "slice ?m1 24 (SYS_CONFIG_SIZE small_layout) = replicate 12 0xFF"
    "slice ?m1 0x400 (length [7 :: u8]) = [0xFF]" "slice ?m1 0xE00 2 = [0xFF, 0xFF]"
    by (simp_all add: damaged_sys_contents small_layout_def numeral_2_eq_2)
  have bad: "crc_ccitt (replicate 12 0xFF @ [0xFF]) \<noteq> le16_of [0xFF, 0xFF]" by code_simp
  have mm: "\<not> is_crc_match (config_crc (slice ?m1 24 (SYS_CONFIG_SIZE small_layout))
      (slice ?m1 0x400 (length [7 :: u8]))) (le16_of (slice ?m1 0xE00 2))"
    unfolding m1 config_crc_ccitt using bad by (simp add: is_crc_match_def del: append.simps)
  have f: "slice ?sys (o_magic_number small_layout) 4 = le32 SYS_MAGIC_NUMBR"
    "slice ?sys (o_dhcpEnable small_layout) 1 = [1]"
    unfolding sys by (simp_all add: small_layout_def slice_def le32_def)
  note mixes = recovery_mixes_copies [OF board.params.param_store_axioms subset_refl ready L refl refl crc1 b refl mm f,
      of ?m, OF refl length_replicate refl length_replicate]
  obtain ps' where "MICOReadConfiguration (mico_flash_ops board_env) ?m small_layout (\<lambda>u. u) False
      \<lparr>flash_store = damaged_sys, ram_context = fresh_context, seedNum = 0\<rparr> = Some (kNoErr, ps')"
    "user_config_data (ram_context ps') = slice ?m1 0x400 (length [7 :: u8])"
    using mixes by blast
  then show ?thesis unfolding m1 by blast
qed

end
