(* ===== verification/OTAUpdate.thy ===== *)
theory OTAUpdate
  imports ParaStorage
begin

text \<open>
  The boot loader's update, \<open>Bootloader/Update_for_OTA.c\<close>: a boot table at the start of
  \<open>PARAMETER_1\<close> announces an image in \<open>OTA_TEMP\<close>; \<open>update\<close> checks the table, copies the image to
  the partition of its type page by page, reading every page back, and then clears the table and
  the image. A table that is not valid makes it erase a non-empty \<open>OTA_TEMP\<close>. The flash
  operations are the parameter \<open>ota_ops\<close>.
\<close>

section \<open>Data\<close>

record 's ota_ops = "'s flash_ops" +
  op_disable :: "int \<Rightarrow> u32 \<Rightarrow> u32 \<Rightarrow> 's \<Rightarrow> (OSStatus \<times> 's) option"

type_synonym Log_Status = int

abbreviation Log_NotExist :: Log_Status where "Log_NotExist \<equiv> 1"
abbreviation Log_NeedUpdate :: Log_Status where "Log_NeedUpdate \<equiv> 2"
abbreviation Log_UpdateTagNotExist :: Log_Status where "Log_UpdateTagNotExist \<equiv> 3"
abbreviation Log_contentTypeNotExist :: Log_Status where "Log_contentTypeNotExist \<equiv> 4"
abbreviation Log_dataLengthOverFlow :: Log_Status where "Log_dataLengthOverFlow \<equiv> 5"
abbreviation Log_StartAddressERROR :: Log_Status where "Log_StartAddressERROR \<equiv> 6"
abbreviation Log_CRCERROR :: Log_Status where "Log_CRCERROR \<equiv> 8"

abbreviation SizePerRW :: nat where "SizePerRW \<equiv> 4096"

text \<open>The fields of the 24 bytes of a \<open>boot_table_t\<close>.\<close>

definition start_address :: "bytes \<Rightarrow> u32" where
  "start_address updateLog = le32_of (slice updateLog 0 4)"

definition image_length :: "bytes \<Rightarrow> u32" where
  "image_length updateLog = le32_of (slice updateLog 4 4)"

definition image_type :: "bytes \<Rightarrow> u8" where
  "image_type updateLog = updateLog ! 16"

definition upgrade_type :: "bytes \<Rightarrow> u8" where
  "upgrade_type updateLog = updateLog ! 17"

definition image_crc :: "bytes \<Rightarrow> u16" where
  "image_crc updateLog = le16_of (slice updateLog 18 2)"

section \<open>Checking the announcement\<close>

text \<open>\<open>while (total_len > 0)\<close>: the CRC of the image in steps of a page.\<close>

function crc_loop ::
  "'s ota_ops \<Rightarrow> int \<Rightarrow> u32 \<Rightarrow> CRC16_Context \<Rightarrow> 's \<Rightarrow> (OSStatus \<times> CRC16_Context \<times> 's) option" where
  "crc_loop ops total_len update_data_offset contex s =
     (if total_len > 0 then
        (let len = (if int SizePerRW < total_len then int SizePerRW else total_len) in do {
           (err, off, ds, s) \<leftarrow> op_read ops MICO_PARTITION_OTA_TEMP update_data_offset (of_int len) s;
           if err \<noteq> kNoErr then Some (err, contex, s)
           else crc_loop ops (total_len - len) off (CRC16_Update contex ds) s
         })
      else Some (kNoErr, contex, s))"
  by pat_completeness auto
termination
  by (relation "measure (\<lambda>(ops, n, off, c, s). nat n)") auto

declare crc_loop.simps [simp del]

text \<open>A mismatch does not change \<open>err\<close>.\<close>

definition checkcrc ::
  "'s ota_ops \<Rightarrow> u16 \<Rightarrow> int \<Rightarrow> int \<Rightarrow> 's \<Rightarrow> (OSStatus \<times> 's) option" where
  "checkcrc ops crc_in partition_type total_len s =
     (if crc_in = 0xFFFF then Some (kNoErr, s)
      else if MicoFlashGetInfo partition_type = None then Some (kNoErr, s)
      else do {
        (err, contex, s) \<leftarrow> crc_loop ops total_len 0 (CRC16_Init \<lparr>crc = 0\<rparr>) s;
        if err \<noteq> kNoErr then Some (err, s)
        else let found = snd (CRC16_Final contex) in
          if found = crc_in then Some (kNoErr, s) else Some (err, s)
      })"

text \<open>The destination is set before the length is checked; it is \<open>- 1\<close> while it is not set.\<close>

definition updateLogCheck ::
  "'s ota_ops \<Rightarrow> bytes \<Rightarrow> 's \<Rightarrow> (Log_Status \<times> int \<times> 's) option" where
  "updateLogCheck ops updateLog s =
     (if list_all (\<lambda>x. x = 0xFF) updateLog then Some (Log_NotExist, - 1, s)
      else if upgrade_type updateLog \<noteq> ch CHR ''U'' then Some (Log_UpdateTagNotExist, - 1, s)
      else do {
        ota \<leftarrow> MicoFlashGetInfo MICO_PARTITION_OTA_TEMP;
        if start_address updateLog \<noteq> partition_start_addr ota then Some (Log_StartAddressERROR, - 1, s)
        else let dest =
            (if image_type updateLog = ch CHR ''B'' then MICO_PARTITION_BOOTLOADER
             else if image_type updateLog = ch CHR ''A'' then MICO_PARTITION_APPLICATION
             else if image_type updateLog = ch CHR ''D'' then MICO_PARTITION_RF_FIRMWARE
             else - 1) in
          if dest = - 1 then Some (Log_contentTypeNotExist, - 1, s)
          else do {
            d \<leftarrow> MicoFlashGetInfo dest;
            if image_length updateLog > partition_length d then Some (Log_dataLengthOverFlow, dest, s)
            else do {
              (err, s) \<leftarrow> checkcrc ops (image_crc updateLog) dest (sint (image_length updateLog)) s;
              if err \<noteq> kNoErr then Some (Log_CRCERROR, dest, s) else Some (Log_NeedUpdate, dest, s)
            }
          }
      })"

section \<open>Copying\<close>

text \<open>The loop over pages; \<open>k\<close> pages are left, the last one of the remaining length and skipped
  when that is zero. \<open>data\<close> and \<open>newData\<close> are the static page buffers.\<close>

fun copy_loop ::
  "'s ota_ops \<Rightarrow> int \<Rightarrow> nat \<Rightarrow> nat \<Rightarrow> u32 \<Rightarrow> u32 \<Rightarrow> bytes \<Rightarrow> bytes \<Rightarrow> 's \<Rightarrow> (OSStatus \<times> 's) option" where
  "copy_loop ops dest rest 0 update_data_offset dest_offset data newData s = Some (kNoErr, s)"
| "copy_loop ops dest rest (Suc k) update_data_offset dest_offset data newData s =
     (if k = 0 \<and> rest = 0 then Some (kNoErr, s)
      else let copyLength = (of_nat (if k = 0 then rest else SizePerRW) :: u32) in do {
        (err, update_data_offset, ds, s) \<leftarrow> op_read ops MICO_PARTITION_OTA_TEMP update_data_offset copyLength s;
        let data = read_into data ds;
        if err \<noteq> kNoErr then Some (err, s) else do {
          (err, dest_offset, s) \<leftarrow> op_write ops dest dest_offset data copyLength s;
          if err \<noteq> kNoErr then Some (err, s) else do {
            (err, dest_offset, ds, s) \<leftarrow> op_read ops dest (dest_offset - copyLength) copyLength s;
            let newData = read_into newData ds;
            if err \<noteq> kNoErr then Some (err, s)
            else if take (unat copyLength) data \<noteq> take (unat copyLength) newData then Some (kWriteErr, s)
            else copy_loop ops dest rest k update_data_offset dest_offset data newData s
          }
        }
      })"

text \<open>Unprotect and erase the destination, then copy.\<close>

definition update_install ::
  "'s ota_ops \<Rightarrow> int \<Rightarrow> u32 \<Rightarrow> u32 \<Rightarrow> bytes \<Rightarrow> bytes \<Rightarrow> 's \<Rightarrow> (OSStatus \<times> 's) option" where
  "update_install ops dest dest_length len data newData s = do {
     (err, s) \<leftarrow> op_disable ops dest 0 dest_length s;
     if err \<noteq> kNoErr then Some (err, s) else do {
       (err, s) \<leftarrow> op_erase ops dest 0 dest_length s;
       if err \<noteq> kNoErr then Some (err, s)
       else copy_loop ops dest (unat len mod SizePerRW) (Suc (unat len div SizePerRW)) 0 0 data newData s
     }
   }"

text \<open>Clear the boot table, keeping the rest of \<open>PARAMETER_1\<close>, and the image.\<close>

definition update_clear ::
  "'s ota_ops \<Rightarrow> u32 \<Rightarrow> u32 \<Rightarrow> bytes \<Rightarrow> 's \<Rightarrow> (OSStatus \<times> 's) option" where
  "update_clear ops para_length ota_length paraSaveInRam s = do {
     (err, s) \<leftarrow> op_disable ops MICO_PARTITION_PARAMETER_1 0 para_length s;
     if err \<noteq> kNoErr then Some (err, s) else do {
       (err, para_offset, ds, s) \<leftarrow> op_read ops MICO_PARTITION_PARAMETER_1 0 para_length s;
       if err \<noteq> kNoErr then Some (err, s) else do {
         let saved = overwrite (read_into paraSaveInRam ds) 0 (replicate 24 0xFF);
         (err, s) \<leftarrow> op_erase ops MICO_PARTITION_PARAMETER_1 0 para_length s;
         if err \<noteq> kNoErr then Some (err, s) else do {
           (err, para_offset, s) \<leftarrow> op_write ops MICO_PARTITION_PARAMETER_1 0 saved para_length s;
           if err \<noteq> kNoErr then Some (err, s) else do {
             (err, s) \<leftarrow> op_disable ops MICO_PARTITION_OTA_TEMP 0 ota_length s;
             if err \<noteq> kNoErr then Some (err, s)
             else op_erase ops MICO_PARTITION_OTA_TEMP 0 ota_length s
           }
         }
       }
     }
   }"

text \<open>Without a valid table: look through \<open>OTA_TEMP\<close> and erase it at the first byte that is not
  blank. The last of the \<open>k\<close> reads is of the remainder; a read of nothing leaves the buffer.\<close>

fun scan_ota ::
  "'s ota_ops \<Rightarrow> u32 \<Rightarrow> nat \<Rightarrow> u32 \<Rightarrow> bytes \<Rightarrow> 's \<Rightarrow> (OSStatus \<times> 's) option" where
  "scan_ota ops ota_length 0 update_data_offset data s = Some (kNoErr, s)"
| "scan_ota ops ota_length (Suc k) update_data_offset data s = do {
     (err, update_data_offset, ds, s) \<leftarrow> op_read ops MICO_PARTITION_OTA_TEMP update_data_offset
       (if k = 0 then ota_length mod of_nat SizePerRW else of_nat SizePerRW) s;
     let data = read_into data ds;
     if err \<noteq> kNoErr then Some (err, s)
     else if list_ex (\<lambda>x. x \<noteq> 0xFF) data then do {
       (err, s) \<leftarrow> op_disable ops MICO_PARTITION_OTA_TEMP 0 ota_length s;
       if err \<noteq> kNoErr then Some (err, s)
       else op_erase ops MICO_PARTITION_OTA_TEMP 0 ota_length s
     }
     else scan_ota ops ota_length k update_data_offset data s
   }"

text \<open>A boot table that was read only in part is an uninitialised local variable.\<close>

definition update :: "'s ota_ops \<Rightarrow> 's \<Rightarrow> (OSStatus \<times> 's) option" where
  "update ops s = do {
     ota \<leftarrow> MicoFlashGetInfo MICO_PARTITION_OTA_TEMP;
     if partition_owner ota = MICO_FLASH_NONE then Some (kUnsupportedErr, s) else do {
       para \<leftarrow> MicoFlashGetInfo MICO_PARTITION_PARAMETER_1;
       if partition_owner para = MICO_FLASH_NONE then Some (kUnsupportedErr, s) else do {
         let blank = replicate SizePerRW 0xFF;
         (err, off, updateLog, s) \<leftarrow> op_read ops MICO_PARTITION_PARAMETER_1 0 24 s;
         if err \<noteq> kNoErr then Some (err, s)
         else if length updateLog < 24 then None
         else do {
           (log, dest, s) \<leftarrow> updateLogCheck ops updateLog s;
           if log \<noteq> Log_NeedUpdate
           then scan_ota ops (partition_length ota) (Suc (unat (partition_length ota) div SizePerRW)) 0 blank s
           else do {
             d \<leftarrow> MicoFlashGetInfo dest;
             if partition_owner d = MICO_FLASH_NONE then Some (kUnsupportedErr, s) else do {
               (err, s) \<leftarrow> update_install ops dest (partition_length d) (image_length updateLog) blank blank s;
               if err \<noteq> kNoErr then Some (err, s)
               else update_clear ops (partition_length para) (partition_length ota)
                      (replicate (unat (partition_length para)) 0xFF @
                       replicate (16 * 1024 - unat (partition_length para)) 0) s
             }
           }
         }
       }
     }
   }"

section \<open>What an update relies on\<close>

text \<open>
  No operation has to succeed. A call on a partition changes no other partition, a write changes
  nothing outside its range, a read changes nothing and a successful read delivers the contents.
  The requests are those of the code: a whole partition, or a range inside it.
\<close>

locale isolated_store =
  fixes ops :: "'s ota_ops" and inv :: "'s \<Rightarrow> bool" and content :: "'s \<Rightarrow> int \<Rightarrow> bytes"
    and psize :: "int \<Rightarrow> nat" and parts :: "int set"
  assumes content_length: "inv s \<Longrightarrow> p \<in> parts \<Longrightarrow> length (content s p) = psize p"
    and psize: "p \<in> parts \<Longrightarrow> 0 < psize p \<and> psize p < 2 ^ 24"
    and disable: "inv s \<Longrightarrow> p \<in> parts \<Longrightarrow> op_disable ops p 0 (of_nat (psize p)) s = Some (err, s') \<Longrightarrow>
      inv s' \<and> content s' = content s"
    and erase_part: "inv s \<Longrightarrow> p \<in> parts \<Longrightarrow> op_erase ops p 0 (of_nat (psize p)) s = Some (err, s') \<Longrightarrow>
      inv s' \<and> (\<forall>q \<in> parts. q \<noteq> p \<longrightarrow> content s' q = content s q)"
    and write_part: "inv s \<Longrightarrow> p \<in> parts \<Longrightarrow> unat off + unat n \<le> psize p \<Longrightarrow> unat n < 65536 \<Longrightarrow>
      unat n \<le> length b \<Longrightarrow> op_write ops p off b n s = Some (err, off', s') \<Longrightarrow>
      inv s' \<and> (\<forall>q \<in> parts. q \<noteq> p \<longrightarrow> content s' q = content s q) \<and>
      take (unat off) (content s' p) = take (unat off) (content s p) \<and> (err = kNoErr \<longrightarrow> off' = off + n)"
    and read_part: "inv s \<Longrightarrow> p \<in> parts \<Longrightarrow> unat off + unat n \<le> psize p \<Longrightarrow>
      op_read ops p off n s = Some (err, off', ds, s') \<Longrightarrow>
      inv s' \<and> content s' = content s \<and>
      (err = kNoErr \<longrightarrow> off' = off + n \<and> ds = slice (content s p) (unat off) (unat n))"
begin

lemma copy_loop_safe:
  assumes "copy_loop ops dest rest k (of_nat done) (of_nat done) data newData s = Some (err, s')"
    and "inv s" and "dest \<in> parts" and "MICO_PARTITION_OTA_TEMP \<in> parts" and "dest \<noteq> MICO_PARTITION_OTA_TEMP"
    and "length data = SizePerRW" and "length newData = SizePerRW" and "rest < SizePerRW"
    and "k \<noteq> 0 \<longrightarrow> done + (k - 1) * SizePerRW + rest \<le> psize dest \<and>
       done + (k - 1) * SizePerRW + rest \<le> psize MICO_PARTITION_OTA_TEMP"
    and "take done (content s dest) = take done (content s MICO_PARTITION_OTA_TEMP)"
  shows "inv s' \<and> (\<forall>q \<in> parts. q \<noteq> dest \<longrightarrow> content s' q = content s q) \<and>
    (err = kNoErr \<longrightarrow> k \<noteq> 0 \<longrightarrow>
      take (done + (k - 1) * SizePerRW + rest) (content s' dest) =
      take (done + (k - 1) * SizePerRW + rest) (content s MICO_PARTITION_OTA_TEMP))"
  using assms(1,2,6,7,9,10)
proof (induction k arbitrary: "done" data newData s)
  case 0
  then show ?case by simp
next
  case (Suc k)
  let ?O = "MICO_PARTITION_OTA_TEMP"
  define n where "n = (if k = 0 then rest else SizePerRW)"
  show ?case
  proof (cases "n = 0")
    case True
    then show ?thesis using Suc.prems by (auto simp: n_def split: if_splits)
  next
    case False
    have nle: "n \<le> SizePerRW" "done + n \<le> psize dest" "done + n \<le> psize ?O"
      using Suc.prems(5) assms(8) by (cases k; auto simp: n_def)+
    have pz: "psize dest < 2 ^ 24" "psize ?O < 2 ^ 24" using psize assms(3,4) by blast+
    have un: "unat (of_nat n :: u32) = n" "unat (of_nat done :: u32) = done"
      using nle pz by (simp_all add: unat_of_nat)
    have un': "unat (of_nat (done + n) :: u32) = done + n"
      unfolding unat_of_nat using nle pz by simp
    obtain e1 o1 d1 s1 where r1: "op_read ops ?O (of_nat done) (of_nat n) s = Some (e1, o1, d1, s1)"
      using Suc.prems(1) False by (auto simp: n_def Let_def bind_eq_Some_conv split: if_splits)
    have a1: "inv s1" "content s1 = content s"
      "e1 = kNoErr \<Longrightarrow> o1 = of_nat (done + n) \<and> d1 = slice (content s ?O) done n"
      using read_part [OF Suc.prems(2) assms(4) _ r1] nle by (auto simp: un)
    show ?thesis
    proof (cases "e1 = kNoErr")
      case False
      then show ?thesis using Suc.prems(1) r1 a1 \<open>n \<noteq> 0\<close>
        by (auto simp: n_def Let_def split: if_splits)
    next
      case True
      note b1 = a1(3) [OF True]
      have ld1: "length d1 = n"
        using b1 content_length [OF Suc.prems(2) assms(4)] nle by simp
      define dat where "dat = read_into data d1"
      have dat: "length dat = SizePerRW" "take n dat = d1"
        using ld1 nle Suc.prems(3) by (simp_all add: dat_def read_into_def)
      obtain e2 o2 s2 where w: "op_write ops dest (of_nat done) dat (of_nat n) s1 = Some (e2, o2, s2)"
        using Suc.prems(1) r1 True \<open>n \<noteq> 0\<close>
        by (auto simp: n_def dat_def Let_def bind_eq_Some_conv split: if_splits)
      have a2: "inv s2" "\<forall>q \<in> parts. q \<noteq> dest \<longrightarrow> content s2 q = content s q"
        "take done (content s2 dest) = take done (content s dest)" "e2 = kNoErr \<Longrightarrow> o2 = of_nat (done + n)"
        using write_part [OF a1(1) assms(3) _ _ _ w] nle dat by (auto simp: un a1(2))
      show ?thesis
      proof (cases "e2 = kNoErr")
        case False
        then show ?thesis using Suc.prems(1) r1 True w a2 \<open>n \<noteq> 0\<close>
          by (auto simp: n_def dat_def Let_def split: if_splits)
      next
        case e2: True
        have o2: "o2 - of_nat n = of_nat done" using a2(4) [OF e2] by simp
        obtain e3 o3 d3 s3 where r3: "op_read ops dest (of_nat done) (of_nat n) s2 = Some (e3, o3, d3, s3)"
          using Suc.prems(1) r1 True w e2 o2 \<open>n \<noteq> 0\<close>
          by (auto simp: n_def dat_def Let_def bind_eq_Some_conv split: if_splits)
        have a3: "inv s3" "content s3 = content s2"
          "e3 = kNoErr \<Longrightarrow> o3 = of_nat (done + n) \<and> d3 = slice (content s2 dest) done n"
          using read_part [OF a2(1) assms(3) _ r3] nle by (auto simp: un)
        show ?thesis
        proof (cases "e3 = kNoErr \<and> take n (read_into newData d3) = d1")
          case False
          then show ?thesis using Suc.prems(1) r1 True w e2 o2 r3 a3 a2 \<open>n \<noteq> 0\<close> un dat
            by (auto simp: n_def dat_def Let_def split: if_splits)
        next
          case ok: True
          note b3 = a3(3) [OF conjunct1 [OF ok]]
          have ld3: "length d3 = n"
            using b3 content_length [OF a2(1) assms(3)] nle by simp
          define new where "new = read_into newData d3"
          have new: "length new = SizePerRW" "take n new = d3"
            using ld3 nle Suc.prems(4) by (simp_all add: new_def read_into_def)
          have eq: "slice (content s2 dest) done n = slice (content s ?O) done n"
            using ok b3 b1 new by (simp add: new_def)
          have next_loop: "copy_loop ops dest rest k (of_nat (done + n)) (of_nat (done + n)) dat new s3 = Some (err, s')"
            using Suc.prems(1) r1 True w e2 o2 r3 ok b1 b3 \<open>n \<noteq> 0\<close> un dat new
            by (simp add: n_def dat_def new_def Let_def split: if_splits)
          have same: "content s3 ?O = content s ?O" using a2(2) a3(2) assms(4,5) by auto
          have tk: "take (done + n) (content s3 dest) = take (done + n) (content s3 ?O)"
            using a2(3) Suc.prems(6) eq arg_cong [OF a3(2), of "\<lambda>f. f dest"] unfolding same
            by (simp add: take_add slice_def)
          have bnd: "k \<noteq> 0 \<longrightarrow> (done + n) + (k - 1) * SizePerRW + rest \<le> psize dest \<and>
              (done + n) + (k - 1) * SizePerRW + rest \<le> psize ?O"
            using Suc.prems(5) by (cases k) (auto simp: n_def)
          have ih: "inv s' \<and> (\<forall>q \<in> parts. q \<noteq> dest \<longrightarrow> content s' q = content s3 q) \<and>
            (err = kNoErr \<longrightarrow> k \<noteq> 0 \<longrightarrow>
              take ((done + n) + (k - 1) * SizePerRW + rest) (content s' dest) =
              take ((done + n) + (k - 1) * SizePerRW + rest) (content s3 ?O))"
            by (rule Suc.IH [OF next_loop a3(1) dat(1) new(1) bnd tk])
          show ?thesis
          proof (cases "k = 0")
            case True
            then have "s' = s3" using next_loop by simp
            then show ?thesis using True a3 a2 tk same by (simp add: n_def)
          next
            case False
            then have e: "done + n + (k - 1) * SizePerRW + rest = done + (Suc k - 1) * SizePerRW + rest"
              by (cases k) (simp_all add: n_def)
            have "\<forall>q \<in> parts. q \<noteq> dest \<longrightarrow> content s' q = content s q"
              using ih a3(2) a2(2) by simp
            then show ?thesis using ih False unfolding e same by blast
          qed
        qed
      qed
    qed
  qed
qed

lemma update_install_safe:
  assumes "update_install ops dest (of_nat (psize dest)) len data newData s = Some (err, s')"
    and "inv s" and "dest \<in> parts" and "MICO_PARTITION_OTA_TEMP \<in> parts" and "dest \<noteq> MICO_PARTITION_OTA_TEMP"
    and "length data = SizePerRW" and "length newData = SizePerRW"
    and "unat len \<le> psize dest" and "unat len \<le> psize MICO_PARTITION_OTA_TEMP"
  shows "inv s' \<and> (\<forall>q \<in> parts. q \<noteq> dest \<longrightarrow> content s' q = content s q) \<and>
    (err = kNoErr \<longrightarrow>
      take (unat len) (content s' dest) = take (unat len) (content s MICO_PARTITION_OTA_TEMP))"
proof -
  obtain e1 s1 where d: "op_disable ops dest 0 (of_nat (psize dest)) s = Some (e1, s1)"
    using assms(1) by (auto simp: update_install_def bind_eq_Some_conv)
  note a1 = disable [OF assms(2,3) d]
  show ?thesis
  proof (cases "e1 = kNoErr")
    case False
    then show ?thesis using assms(1) d a1 by (simp add: update_install_def)
  next
    case e1: True
    obtain e2 s2 where e: "op_erase ops dest 0 (of_nat (psize dest)) s1 = Some (e2, s2)"
      using assms(1) d e1 by (auto simp: update_install_def bind_eq_Some_conv)
    note a2 = erase_part [OF conjunct1 [OF a1] assms(3) e]
    show ?thesis
    proof (cases "e2 = kNoErr")
      case False
      then show ?thesis using assms(1) d e1 e a1 a2 by (simp add: update_install_def)
    next
      case True
      define k where "k = Suc (unat len div SizePerRW)"
      have tot: "0 + (k - 1) * SizePerRW + unat len mod SizePerRW = unat len" by (simp add: k_def)
      have c: "copy_loop ops dest (unat len mod SizePerRW) k (of_nat 0) (of_nat 0) data newData s2 = Some (err, s')"
        using assms(1) d e1 e True by (simp add: update_install_def k_def)
      have "inv s' \<and> (\<forall>q \<in> parts. q \<noteq> dest \<longrightarrow> content s' q = content s2 q) \<and>
        (err = kNoErr \<longrightarrow> k \<noteq> 0 \<longrightarrow>
          take (0 + (k - 1) * SizePerRW + unat len mod SizePerRW) (content s' dest) =
          take (0 + (k - 1) * SizePerRW + unat len mod SizePerRW) (content s2 MICO_PARTITION_OTA_TEMP))"
        by (rule copy_loop_safe [OF c conjunct1 [OF a2] assms(3,4,5,6,7)])
           (use assms(8,9) tot in simp_all)
      then show ?thesis using a1 a2 assms(4,5) unfolding tot by (simp add: k_def)
    qed
  qed
qed

end

section \<open>The operations on the serial flash\<close>

definition ota_flash_ops :: "('f, 'c) mico_env \<Rightarrow> ('f, 'c) flash_sys ota_ops" where
  "ota_flash_ops env =
     \<lparr>op_erase = MicoFlashErase env, op_write = MicoFlashWrite env, op_read = MicoFlashRead env,
      op_disable = MicoFlashDisableSecurity env\<rparr>"

definition spi_parts :: "int set" where
  "spi_parts = {MICO_PARTITION_OTA_TEMP, MICO_PARTITION_RF_FIRMWARE, MICO_PARTITION_PARAMETER_1,
     MICO_PARTITION_PARAMETER_2}"

definition spi_start :: "int \<Rightarrow> nat" where
  "spi_start p = unat (partition_start_addr (mico_partitions ! nat p))"

definition spi_size :: "int \<Rightarrow> nat" where
  "spi_size p = unat (partition_length (mico_partitions ! nat p))"

lemma spi_parts_partition:
  "p \<in> spi_parts \<Longrightarrow> spi_partition p (mico_partitions ! nat p) 0"
  by (auto simp: spi_parts_def spi_partition_def partition_at_def mico_partitions_def)

lemma spi_parts_disjoint:
  "p \<in> spi_parts \<Longrightarrow> q \<in> spi_parts \<Longrightarrow> p \<noteq> q \<Longrightarrow>
     spi_start p + spi_size p \<le> spi_start q \<or> spi_start q + spi_size q \<le> spi_start p"
  by (auto simp: spi_parts_def spi_start_def spi_size_def mico_partitions_def)

lemma spi_parts_aligned:
  "p \<in> spi_parts \<Longrightarrow> spi_start p mod 4096 = 0 \<and> spi_size p mod 4096 = 0 \<and>
     0 < spi_size p \<and> spi_size p < 2 ^ 24"
  by (auto simp: spi_parts_def spi_start_def spi_size_def mico_partitions_def)

lemma whole_sectors:
  assumes "a mod 4096 = 0" and "n mod 4096 = 0" and "0 < (n :: nat)"
  shows "a div 4096 * 4096 = a" and "(a + n - 1) div 4096 * 4096 + 4096 = a + n"
proof -
  obtain i j where ij: "a = 4096 * i" "n = 4096 * j" using assms(1,2) by (auto elim!: dvdE simp: mod_eq_0_iff_dvd)
  have "(a + n - 1) div 4096 = i + j - 1" using assms(3) unfolding ij by (intro div_nat_eqI) auto
  then show "(a + n - 1) div 4096 * 4096 + 4096 = a + n" using assms(3) by (simp add: ij algebra_simps)
qed (use assms(1) in auto)

locale boot_spi = mico_spi env cells_of wel prot pending
  for env :: "('f, 'c) mico_env" and cells_of :: "'c \<Rightarrow> cells" and wel :: "'c \<Rightarrow> bool"
    and prot :: "'c \<Rightarrow> u8" and pending :: "'c \<Rightarrow> nat" +
  assumes boot: "bootloader env"
begin

definition spi_content :: "('f, 'c) flash_sys \<Rightarrow> int \<Rightarrow> bytes" where
  "spi_content s p = mread (spi_cells s) (spi_start p) (spi_size p)"

lemma other_content:
  assumes "p \<in> spi_parts"
    and "\<And>x. x < spi_start p \<or> spi_start p + spi_size p \<le> x \<Longrightarrow> spi_cells s' x = spi_cells s x"
  shows "\<forall>q \<in> spi_parts. q \<noteq> p \<longrightarrow> spi_content s' q = spi_content s q"
proof (intro ballI impI)
  fix q assume "q \<in> spi_parts" "q \<noteq> p"
  then show "spi_content s' q = spi_content s q"
    using spi_parts_disjoint [OF assms(1), of q] assms(2)
    unfolding spi_content_def by (intro mread_cong) auto
qed

lemma spi_erase:
  assumes s: "sys_ready s" and p: "p \<in> spi_parts"
    and r: "MicoFlashErase env p 0 (of_nat (spi_size p)) s = Some (err, s')"
  shows "sys_ready s' \<and> (\<forall>q \<in> spi_parts. q \<noteq> p \<longrightarrow> spi_content s' q = spi_content s q)"
proof -
  have n: "unat (of_nat (spi_size p) :: u32) = spi_size p"
    using spi_parts_aligned [OF p] by (simp add: unat_of_nat)
  note ws = whole_sectors [of "spi_start p" "spi_size p"]
  obtain t where t: "MicoFlashErase env p 0 (of_nat (spi_size p)) s = Some (kNoErr, t)" "sys_ready t"
    "spi_cells t = erase (spi_cells s) (spi_start p) (spi_size p)"
    using part_erase_for [OF spi_parts_partition [OF p] disjI1 [OF boot] s, of "of_nat (spi_size p)" 0]
      spi_parts_aligned [OF p] ws
    by (auto simp: n simp flip: spi_start_def spi_size_def)
  have "\<forall>q \<in> spi_parts. q \<noteq> p \<longrightarrow> spi_content t q = spi_content s q"
    by (rule other_content [OF p]) (auto simp: t(3) erase_def)
  then show ?thesis using t r by simp
qed

lemma spi_write:
  assumes s: "sys_ready s" and p: "p \<in> spi_parts" and l: "unat off + unat n \<le> spi_size p"
    and n: "unat n < 65536" "unat n \<le> length b" and r: "MicoFlashWrite env p off b n s = Some (err, off', s')"
  shows "sys_ready s' \<and> (\<forall>q \<in> spi_parts. q \<noteq> p \<longrightarrow> spi_content s' q = spi_content s q) \<and>
    take (unat off) (spi_content s' p) = take (unat off) (spi_content s p) \<and> (err = kNoErr \<longrightarrow> off' = off + n)"
proof (cases "n = 0")
  case True
  have "partition_at p = Some (mico_partitions ! nat p)"
    using spi_parts_partition [OF p] by (simp add: spi_partition_def)
  then show ?thesis using True r s by (simp add: MicoFlashWrite_def)
next
  case False
  then have n0: "0 < unat n" by (simp add: unat_gt_0)
  obtain t where t: "MicoFlashWrite env p off b n s = Some (kNoErr, off + n, t)" "sys_ready t"
    "spi_cells t = program (spi_cells s) (spi_start p + unat off) (take (unat n) b)"
    using part_write_for [OF spi_parts_partition [OF p] disjI1 [OF boot] s n0 n, of off] l
    by (auto simp flip: spi_start_def spi_size_def)
  have out: "spi_cells t x = spi_cells s x"
    if "x < spi_start p + unat off \<or> spi_start p + spi_size p \<le> x" for x
    using that l n unfolding t(3) by (intro program_outside) auto
  have oth: "\<forall>q \<in> spi_parts. q \<noteq> p \<longrightarrow> spi_content t q = spi_content s q"
    by (rule other_content [OF p]) (auto intro: out)
  have tk: "take (unat off) (spi_content u p) = mread (spi_cells u) (spi_start p) (unat off)" for u
    using slice_mread [of 0 "unat off" "spi_size p" "spi_cells u" "spi_start p"] l
    by (simp add: spi_content_def slice_def)
  have "take (unat off) (spi_content t p) = take (unat off) (spi_content s p)"
    unfolding tk by (rule mread_cong) (auto intro: out)
  then show ?thesis using t r oth by simp
qed

lemma spi_read:
  assumes s: "sys_ready s" and p: "p \<in> spi_parts" and l: "unat off + unat n \<le> spi_size p"
    and r: "MicoFlashRead env p off n s = Some (err, off', ds, s')"
  shows "sys_ready s' \<and> spi_content s' = spi_content s \<and>
    (err = kNoErr \<longrightarrow> off' = off + n \<and> ds = slice (spi_content s p) (unat off) (unat n))"
proof (cases "n = 0")
  case True
  have "partition_at p = Some (mico_partitions ! nat p)"
    using spi_parts_partition [OF p] by (simp add: spi_partition_def)
  then show ?thesis using True r s by (simp add: MicoFlashRead_def)
next
  case False
  then have n0: "0 < unat n" by (simp add: unat_gt_0)
  obtain t where t: "MicoFlashRead env p off n s =
      Some (kNoErr, off + n, mread (spi_cells s) (spi_start p + unat off) (unat n), t)" "sys_ready t"
    "spi_cells t = spi_cells s"
    using part_read_for [OF spi_parts_partition [OF p] disjI1 [OF boot] s n0, of off] l
    by (auto simp flip: spi_start_def spi_size_def)
  have "spi_content t = spi_content s" by (rule ext) (simp add: spi_content_def t(3))
  then show ?thesis using t r l by (auto simp: spi_content_def slice_mread)
qed

lemma spi_disable:
  assumes s: "sys_ready s" and p: "p \<in> spi_parts"
    and r: "MicoFlashDisableSecurity env p 0 (of_nat (spi_size p)) s = Some (err, s')"
  shows "s' = s"
  using assms spi_parts_partition [OF p]
  by (auto simp: MicoFlashDisableSecurity_def spi_partition_def flash_ensure_init_def sys_ready_def
      Let_def split: if_splits)

end

text \<open>The partitions of a healthy serial flash, in the boot loader, are such a store.\<close>

sublocale boot_spi \<subseteq> ota: isolated_store "ota_flash_ops env" sys_ready spi_content spi_size spi_parts
proof unfold_locales
  show "length (spi_content s p) = spi_size p" for s p by (simp add: spi_content_def)
  show "0 < spi_size p \<and> spi_size p < 2 ^ 24" if "p \<in> spi_parts" for p
    using spi_parts_aligned [OF that] by simp
  show "sys_ready s' \<and> spi_content s' = spi_content s"
    if "sys_ready s" "p \<in> spi_parts"
      "op_disable (ota_flash_ops env) p 0 (of_nat (spi_size p)) s = Some (err, s')" for s p err s'
    using spi_disable [of s p err s'] that by (simp add: ota_flash_ops_def)
qed (auto simp: ota_flash_ops_def dest: spi_erase spi_write spi_read)

definition boot_env :: "(cells, mx25) mico_env" where
  "boot_env = board_env\<lparr>bootloader := True\<rparr>"

interpretation boot_board: boot_spi boot_env mx_cells mx_wel mx_prot mx_busy
proof -
  have "spi_nor mx25_xfer mx_cells mx_wel mx_prot mx_busy (2 ^ 21)" by (rule mx25.spi_nor_axioms)
  then show "boot_spi boot_env mx_cells mx_wel mx_prot mx_busy"
    by (simp add: boot_spi_def boot_spi_axioms_def mico_spi_def boot_env_def board_env_def)
qed

section \<open>Updates on a healthy store\<close>

text \<open>Such a store also performs every request, and its sizes are those of the partition table.\<close>

locale healthy_store = isolated_store +
  assumes part_info: "p \<in> parts \<Longrightarrow> \<exists>q. MicoFlashGetInfo p = Some q \<and>
      partition_owner q \<noteq> MICO_FLASH_NONE \<and> unat (partition_length q) = psize p"
    and disable_ok: "inv s \<Longrightarrow> p \<in> parts \<Longrightarrow> \<exists>s'. op_disable ops p 0 (of_nat (psize p)) s = Some (kNoErr, s')"
    and erase_ok: "inv s \<Longrightarrow> p \<in> parts \<Longrightarrow> \<exists>s'. op_erase ops p 0 (of_nat (psize p)) s = Some (kNoErr, s') \<and>
      content s' p = replicate (psize p) 0xFF"
    and write_ok: "inv s \<Longrightarrow> p \<in> parts \<Longrightarrow> unat off + unat n \<le> psize p \<Longrightarrow> unat n < 65536 \<Longrightarrow>
      unat n \<le> length b \<Longrightarrow> slice (content s p) (unat off) (unat n) = replicate (unat n) 0xFF \<Longrightarrow>
      \<exists>off' s'. op_write ops p off b n s = Some (kNoErr, off', s') \<and>
        content s' p = overwrite (content s p) (unat off) (take (unat n) b)"
    and read_ok: "inv s \<Longrightarrow> p \<in> parts \<Longrightarrow> unat off + unat n \<le> psize p \<Longrightarrow>
      \<exists>off' ds s'. op_read ops p off n s = Some (kNoErr, off', ds, s')"
begin

lemma read_exact:
  assumes "inv s" and "p \<in> parts" and "unat off + unat n \<le> psize p"
  shows "\<exists>s'. op_read ops p off n s = Some (kNoErr, off + n, slice (content s p) (unat off) (unat n), s') \<and>
    inv s' \<and> content s' = content s"
  using read_ok [OF assms] read_part [OF assms] by metis

lemma write_exact:
  assumes "inv s" and "p \<in> parts" and "unat off + unat n \<le> psize p" and "unat n < 65536"
    and "unat n \<le> length b" and "slice (content s p) (unat off) (unat n) = replicate (unat n) 0xFF"
  shows "\<exists>s'. op_write ops p off b n s = Some (kNoErr, off + n, s') \<and> inv s' \<and>
    (\<forall>q \<in> parts. q \<noteq> p \<longrightarrow> content s' q = content s q) \<and>
    content s' p = overwrite (content s p) (unat off) (take (unat n) b)"
proof -
  obtain off' s' where w: "op_write ops p off b n s = Some (kNoErr, off', s')"
    "content s' p = overwrite (content s p) (unat off) (take (unat n) b)" using write_ok [OF assms] by blast
  show ?thesis using write_part [OF assms(1-5) w(1)] w by blast
qed

lemma erase_exact:
  assumes "inv s" and "p \<in> parts"
  shows "\<exists>s'. op_erase ops p 0 (of_nat (psize p)) s = Some (kNoErr, s') \<and> inv s' \<and>
    (\<forall>q \<in> parts. q \<noteq> p \<longrightarrow> content s' q = content s q) \<and> content s' p = replicate (psize p) 0xFF"
  using erase_ok [OF assms] erase_part [OF assms] by blast

lemma disable_exact:
  assumes "inv s" and "p \<in> parts"
  shows "\<exists>s'. op_disable ops p 0 (of_nat (psize p)) s = Some (kNoErr, s') \<and> inv s' \<and> content s' = content s"
  using disable_ok [OF assms] disable [OF assms] by blast

lemma unat_part: "p \<in> parts \<Longrightarrow> m \<le> psize p \<Longrightarrow> unat (of_nat m :: u32) = m"
  unfolding unat_of_nat using psize [of p] by simp

lemma copy_loop_completes:
  assumes "inv s" and "dest \<in> parts" and "MICO_PARTITION_OTA_TEMP \<in> parts" and "dest \<noteq> MICO_PARTITION_OTA_TEMP"
    and "length data = SizePerRW" and "length newData = SizePerRW" and "rest < SizePerRW"
    and "k \<noteq> 0 \<longrightarrow> done + (k - 1) * SizePerRW + rest \<le> psize dest \<and>
       done + (k - 1) * SizePerRW + rest \<le> psize MICO_PARTITION_OTA_TEMP"
    and "drop done (content s dest) = replicate (psize dest - done) 0xFF"
  shows "\<exists>s'. copy_loop ops dest rest k (of_nat done) (of_nat done) data newData s = Some (kNoErr, s')"
  using assms(1,5,6,8,9)
proof (induction k arbitrary: "done" data newData s)
  case (Suc k)
  let ?O = "MICO_PARTITION_OTA_TEMP"
  define n where "n = (if k = 0 then rest else SizePerRW)"
  show ?case
  proof (cases "n = 0")
    case False
    have nle: "n \<le> SizePerRW" "done + n \<le> psize dest" "done + n \<le> psize ?O"
      using Suc.prems(4) assms(7) by (cases k; auto simp: n_def)+
    have un: "unat (of_nat n :: u32) = n" "unat (of_nat done :: u32) = done"
      using unat_part [OF assms(2), of n] unat_part [OF assms(2), of "done"] nle by simp_all
    define d1 where "d1 = slice (content s ?O) done n"
    obtain s1 where r1: "op_read ops ?O (of_nat done) (of_nat n) s = Some (kNoErr, of_nat done + of_nat n, d1, s1)"
      "inv s1" "content s1 = content s"
      using read_exact [OF Suc.prems(1) assms(3), of "of_nat done" "of_nat n"] nle by (auto simp: un d1_def)
    have ld1: "length d1 = n"
      using content_length [OF Suc.prems(1) assms(3)] nle by (simp add: d1_def)
    define dat where "dat = read_into data d1"
    have dat: "length dat = SizePerRW" "take n dat = d1"
      using ld1 nle Suc.prems(2) by (simp_all add: dat_def read_into_def)
    have len: "length (content s dest) = psize dest" by (rule content_length [OF Suc.prems(1) assms(2)])
    have bl: "slice (content s1 dest) done n = replicate n 0xFF"
      using Suc.prems(5) nle by (simp add: r1(3) slice_def)
    obtain s2 where w: "op_write ops dest (of_nat done) dat (of_nat n) s1 = Some (kNoErr, of_nat done + of_nat n, s2)"
      "inv s2" "content s2 dest = overwrite (content s dest) done d1"
      using write_exact [OF r1(2) assms(2), of "of_nat done" "of_nat n" dat] nle dat bl
      by (auto simp: un r1(3))
    have s2: "slice (content s2 dest) done n = d1"
      using slice_overwrite_same [of "done" d1 "content s dest"] ld1 nle len by (simp add: w(3))
    obtain s3 where r2: "op_read ops dest (of_nat done) (of_nat n) s2 = Some (kNoErr, of_nat done + of_nat n, d1, s3)"
      "inv s3" "content s3 = content s2"
      using read_exact [OF w(2) assms(2), of "of_nat done" "of_nat n"] nle by (auto simp: un s2)
    define new where "new = read_into newData d1"
    have new: "length new = SizePerRW" "take n new = d1"
      using ld1 nle Suc.prems(3) by (simp_all add: new_def read_into_def)
    have bnd: "k \<noteq> 0 \<longrightarrow> (done + n) + (k - 1) * SizePerRW + rest \<le> psize dest \<and>
        (done + n) + (k - 1) * SizePerRW + rest \<le> psize ?O"
      using Suc.prems(4) by (cases k) (auto simp: n_def)
    have bl': "drop (done + n) (content s3 dest) = replicate (psize dest - (done + n)) 0xFF"
      using arg_cong [OF Suc.prems(5), of "drop n"] ld1 nle len
      by (simp add: r2(3) w(3) overwrite_def add.commute)
    have step: "copy_loop ops dest rest (Suc k) (of_nat done) (of_nat done) data newData s
      = copy_loop ops dest rest k (of_nat (done + n)) (of_nat (done + n)) dat new s3"
      using r1(1) w(1) r2(1) False dat(2) new(2) un(1)
      by (simp add: Let_def n_def [symmetric] dat_def [symmetric] new_def [symmetric]) (auto simp: n_def)
    show ?thesis unfolding step by (rule Suc.IH [OF r2(2) dat(1) new(1) bnd bl'])
  qed (auto simp: n_def split: if_splits)
qed simp

lemma update_install_completes:
  assumes "inv s" and "dest \<in> parts" and "MICO_PARTITION_OTA_TEMP \<in> parts" and "dest \<noteq> MICO_PARTITION_OTA_TEMP"
    and "length data = SizePerRW" and "length newData = SizePerRW"
    and "unat len \<le> psize dest" and "unat len \<le> psize MICO_PARTITION_OTA_TEMP"
  shows "\<exists>s'. update_install ops dest (of_nat (psize dest)) len data newData s = Some (kNoErr, s')"
proof -
  obtain s1 where d: "op_disable ops dest 0 (of_nat (psize dest)) s = Some (kNoErr, s1)" "inv s1"
    using disable_exact [OF assms(1,2)] by blast
  obtain s2 where e: "op_erase ops dest 0 (of_nat (psize dest)) s1 = Some (kNoErr, s2)" "inv s2"
    "content s2 dest = replicate (psize dest) 0xFF" using erase_exact [OF d(2) assms(2)] by blast
  have "\<exists>s'. copy_loop ops dest (unat len mod SizePerRW) (Suc (unat len div SizePerRW)) (of_nat 0) (of_nat 0)
      data newData s2 = Some (kNoErr, s')"
    by (rule copy_loop_completes [OF e(2) assms(2-6)]) (use assms(7,8) e(3) in simp_all)
  then show ?thesis using d(1) e(1) by (simp add: update_install_def)
qed

end

lemma crc_loop_step:
  assumes "n \<noteq> 0" and "k = min SizePerRW n"
  shows "crc_loop ops (int n) off c s = do {
      (err, off, ds, s) \<leftarrow> op_read ops MICO_PARTITION_OTA_TEMP off (of_nat k) s;
      if err \<noteq> kNoErr then Some (err, c, s) else crc_loop ops (int (n - k)) off (CRC16_Update c ds) s
    }"
proof -
  define l where "l = (if int SizePerRW < int n then int SizePerRW else int n)"
  have l: "l = int k" "int n - l = int (n - k)" "0 < int n" using assms by (auto simp: l_def)
  show ?thesis
    unfolding crc_loop.simps [of ops "int n" off c s] l_def [symmetric] Let_def l(2) unfolding l(1)
    using l(3) by simp
qed

context healthy_store begin

lemma crc_loop_completes:
  assumes "inv s" and "MICO_PARTITION_OTA_TEMP \<in> parts" and "off + n \<le> psize MICO_PARTITION_OTA_TEMP"
  shows "\<exists>c' s'. crc_loop ops (int n) (of_nat off) c s = Some (kNoErr, c', s') \<and> inv s' \<and> content s' = content s"
  using assms(1,3)
proof (induction n arbitrary: off c s rule: less_induct)
  case (less n)
  let ?O = "MICO_PARTITION_OTA_TEMP"
  show ?case
  proof (cases "n = 0")
    case True
    then show ?thesis using less.prems by (simp add: crc_loop.simps)
  next
    case False
    define k where "k = min SizePerRW n"
    have k: "k \<le> n" "0 < k" "n - k < n" using False by (simp_all add: k_def)
    have un: "unat (of_nat k :: u32) = k" "unat (of_nat off :: u32) = off"
      using unat_part [OF assms(2), of k] unat_part [OF assms(2), of off] less.prems(2) k by simp_all
    obtain ds s1 where r: "op_read ops ?O (of_nat off) (of_nat k) s = Some (kNoErr, of_nat off + of_nat k, ds, s1)"
      "inv s1" "content s1 = content s"
      using read_exact [OF less.prems(1) assms(2), of "of_nat off" "of_nat k"] less.prems(2) k by (auto simp: un)
    obtain c' s' where ih: "crc_loop ops (int (n - k)) (of_nat (off + k)) (CRC16_Update c ds) s1 = Some (kNoErr, c', s')"
      "inv s'" "content s' = content s1"
      using less.IH [OF k(3) r(2), of "off + k" "CRC16_Update c ds"] less.prems(2) k by auto
    have "crc_loop ops (int n) (of_nat off) c s = Some (kNoErr, c', s')"
      using ih(1) r(1) by (simp add: crc_loop_step [OF False k_def])
    then show ?thesis using ih r(3) by auto
  qed
qed

lemma checkcrc_completes:
  assumes "inv s" and "MICO_PARTITION_OTA_TEMP \<in> parts" and "n \<le> psize MICO_PARTITION_OTA_TEMP"
  shows "\<exists>s'. checkcrc ops c p (int n) s = Some (kNoErr, s') \<and> inv s' \<and> content s' = content s"
proof -
  obtain c' s' where "crc_loop ops (int n) (of_nat 0) (CRC16_Init \<lparr>crc = 0\<rparr>) s = Some (kNoErr, c', s')"
    "inv s'" "content s' = content s"
    using crc_loop_completes [OF assms(1,2), of 0 n] assms(3) by (metis add_0)
  then show ?thesis using assms(1) by (auto simp: checkcrc_def Let_def)
qed

lemma update_clear_completes:
  assumes "inv s" and O: "MICO_PARTITION_OTA_TEMP \<in> parts" and P: "MICO_PARTITION_PARAMETER_1 \<in> parts"
    and n: "24 \<le> psize MICO_PARTITION_PARAMETER_1" "psize MICO_PARTITION_PARAMETER_1 \<le> length buf"
      "psize MICO_PARTITION_PARAMETER_1 < 65536"
  shows "\<exists>s'. update_clear ops (of_nat (psize MICO_PARTITION_PARAMETER_1)) (of_nat (psize MICO_PARTITION_OTA_TEMP)) buf s =
      Some (kNoErr, s') \<and> inv s' \<and>
    content s' MICO_PARTITION_OTA_TEMP = replicate (psize MICO_PARTITION_OTA_TEMP) 0xFF \<and>
    content s' MICO_PARTITION_PARAMETER_1 = overwrite (content s MICO_PARTITION_PARAMETER_1) 0 (replicate 24 0xFF) \<and>
    (\<forall>q \<in> parts. q \<noteq> MICO_PARTITION_OTA_TEMP \<longrightarrow> q \<noteq> MICO_PARTITION_PARAMETER_1 \<longrightarrow> content s' q = content s q)"
proof -
  let ?O = "MICO_PARTITION_OTA_TEMP" and ?P = "MICO_PARTITION_PARAMETER_1"
  define N where "N = psize ?P"
  note uN = unat_part [OF P, of N]
  have lc: "length (content s ?P) = N" using content_length [OF assms(1) P] by (simp add: N_def)
  obtain s1 where a: "op_disable ops ?P 0 (of_nat N) s = Some (kNoErr, s1)" "inv s1" "content s1 = content s"
    using disable_exact [OF assms(1) P] by (auto simp: N_def)
  obtain s2 where b: "op_read ops ?P 0 (of_nat N) s1 = Some (kNoErr, of_nat N, content s ?P, s2)"
    "inv s2" "content s2 = content s"
    using read_exact [OF a(2) P, of 0 "of_nat N"] uN lc by (auto simp: a(3) N_def slice_def)
  define saved where "saved = overwrite (read_into buf (content s ?P)) 0 (replicate 24 0xFF)"
  have saved: "N \<le> length saved" "take N saved = overwrite (content s ?P) 0 (replicate 24 0xFF)"
    using n lc by (auto simp: saved_def read_into_def overwrite_def take_Cons' simp flip: N_def)
  obtain s3 where c: "op_erase ops ?P 0 (of_nat N) s2 = Some (kNoErr, s3)" "inv s3"
    "\<forall>q \<in> parts. q \<noteq> ?P \<longrightarrow> content s3 q = content s q" "content s3 ?P = replicate N 0xFF"
    using erase_exact [OF b(2) P] b(3) by (auto simp: N_def)
  obtain s4 where d: "op_write ops ?P 0 saved (of_nat N) s3 = Some (kNoErr, of_nat N, s4)" "inv s4"
    "\<forall>q \<in> parts. q \<noteq> ?P \<longrightarrow> content s4 q = content s q"
    "content s4 ?P = overwrite (content s ?P) 0 (replicate 24 0xFF)"
    using write_exact [OF c(2) P, of 0 "of_nat N" saved] uN saved n(3) c(3,4) lc n(1)
    by (auto simp: overwrite_def simp flip: N_def)
  obtain s5 where e: "op_disable ops ?O 0 (of_nat (psize ?O)) s4 = Some (kNoErr, s5)" "inv s5"
    "content s5 = content s4" using disable_exact [OF d(2) O] by auto
  obtain s6 where f: "op_erase ops ?O 0 (of_nat (psize ?O)) s5 = Some (kNoErr, s6)" "inv s6"
    "\<forall>q \<in> parts. q \<noteq> ?O \<longrightarrow> content s6 q = content s5 q" "content s6 ?O = replicate (psize ?O) 0xFF"
    using erase_exact [OF e(2) O] by auto
  have "update_clear ops (of_nat N) (of_nat (psize ?O)) buf s = Some (kNoErr, s6)"
    using a(1) b(1) c(1) d(1) e(1) f(1) by (simp add: update_clear_def saved_def Let_def)
  then show ?thesis using f d(3,4) e(3) P by (auto simp: N_def)
qed

end

section \<open>Whole updates\<close>

text \<open>A boot table that announces an image for the partition \<open>dest\<close> that fits into it.\<close>

definition announces :: "bytes \<Rightarrow> int \<Rightarrow> bool" where
  "announces updateLog dest \<longleftrightarrow> length updateLog = 24 \<and> upgrade_type updateLog = ch CHR ''U'' \<and>
     start_address updateLog = 0x40000 \<and>
     dest = (if image_type updateLog = ch CHR ''B'' then MICO_PARTITION_BOOTLOADER
             else if image_type updateLog = ch CHR ''A'' then MICO_PARTITION_APPLICATION
             else if image_type updateLog = ch CHR ''D'' then MICO_PARTITION_RF_FIRMWARE
             else - 1) \<and>
     0 \<le> dest \<and> image_length updateLog \<le> partition_length (mico_partitions ! nat dest)"

lemma info_at: "0 \<le> p \<Longrightarrow> p < MICO_PARTITION_MAX \<Longrightarrow> MicoFlashGetInfo p = Some (mico_partitions ! nat p)"
  by (auto simp: MicoFlashGetInfo_def partition_at_def mico_partitions_def)

lemma ota_start: "partition_start_addr (mico_partitions ! nat MICO_PARTITION_OTA_TEMP) = 0x40000"
  by (simp add: mico_partitions_def)

lemma announced_dest: "announces l dest \<Longrightarrow> 0 \<le> dest \<and> dest < MICO_PARTITION_MAX \<and>
    dest \<noteq> MICO_PARTITION_OTA_TEMP \<and> dest \<noteq> MICO_PARTITION_PARAMETER_1"
  by (auto simp: announces_def)

lemma announced_length: "announces l dest \<Longrightarrow> image_length l \<le> partition_length (mico_partitions ! nat dest)"
  unfolding announces_def by blast

lemma announced_24: "announces l dest \<Longrightarrow> length l = 24"
  unfolding announces_def by blast

lemma announced_not_blank: "announces l dest \<Longrightarrow> \<not> list_all (\<lambda>x. x = 0xFF) l"
proof
  assume a: "announces l dest" and "list_all (\<lambda>x. x = 0xFF) l"
  then have "l ! 17 = 0xFF" by (simp add: announces_def list_all_length)
  with a show False by (simp add: announces_def upgrade_type_def)
qed

lemma updateLogCheck_announced:
  assumes "announces l dest"
  shows "updateLogCheck ops l s = do {
    (err, s) \<leftarrow> checkcrc ops (image_crc l) dest (sint (image_length l)) s;
    if err \<noteq> kNoErr then Some (Log_CRCERROR, dest, s) else Some (Log_NeedUpdate, dest, s)
  }"
proof -
  note d = announced_dest [OF assms]
  have "MicoFlashGetInfo MICO_PARTITION_OTA_TEMP = Some (mico_partitions ! nat MICO_PARTITION_OTA_TEMP)"
    by (rule info_at) simp_all
  moreover have "MicoFlashGetInfo dest = Some (mico_partitions ! nat dest)"
    using d by (intro info_at) auto
  moreover have "\<not> image_length l > partition_length (mico_partitions ! nat dest)"
    using announced_length [OF assms] by (simp only: not_less)
  ultimately show ?thesis
    using announced_not_blank [OF assms] ota_start d assms [unfolded announces_def]
    unfolding updateLogCheck_def by (auto simp: Let_def split: if_splits)
qed

context healthy_store begin

lemma update_completes:
  assumes s: "inv s" and O: "MICO_PARTITION_OTA_TEMP \<in> parts" and P: "MICO_PARTITION_PARAMETER_1 \<in> parts"
    and D: "dest \<in> parts" and a: "announces (take 24 (content s MICO_PARTITION_PARAMETER_1)) dest"
    and n: "psize MICO_PARTITION_PARAMETER_1 < 65536"
  defines "len \<equiv> unat (image_length (take 24 (content s MICO_PARTITION_PARAMETER_1)))"
  assumes l: "len \<le> psize MICO_PARTITION_OTA_TEMP"
  shows "\<exists>s'. update ops s = Some (kNoErr, s') \<and> inv s' \<and>
    take len (content s' dest) = take len (content s MICO_PARTITION_OTA_TEMP) \<and>
    content s' MICO_PARTITION_OTA_TEMP = replicate (psize MICO_PARTITION_OTA_TEMP) 0xFF \<and>
    content s' MICO_PARTITION_PARAMETER_1 = overwrite (content s MICO_PARTITION_PARAMETER_1) 0 (replicate 24 0xFF) \<and>
    (\<forall>q \<in> parts. q \<noteq> MICO_PARTITION_OTA_TEMP \<longrightarrow> q \<noteq> MICO_PARTITION_PARAMETER_1 \<longrightarrow> q \<noteq> dest \<longrightarrow>
       content s' q = content s q)"
proof -
  let ?O = "MICO_PARTITION_OTA_TEMP" and ?P = "MICO_PARTITION_PARAMETER_1"
  define log where "log = take 24 (content s ?P)"
  have a': "announces log dest" using a by (simp add: log_def)
  note dd = announced_dest [OF a']
  have size_of: "unat (partition_length (mico_partitions ! nat p)) = psize p"
    "partition_length (mico_partitions ! nat p) = of_nat (psize p)"
    "partition_owner (mico_partitions ! nat p) \<noteq> MICO_FLASH_NONE"
    if "p \<in> parts" "0 \<le> p" "p < MICO_PARTITION_MAX" for p
    using part_info [OF that(1)] info_at [OF that(2,3)] unat_part [OF that(1) order_refl]
    by (auto intro!: word_unat_eq_iff [THEN iffD2])
  note so = size_of [OF O, simplified] and sp = size_of [OF P, simplified]
    and sd = size_of [OF D conjunct1 [OF dd] conjunct1 [OF conjunct2 [OF dd]]]
  have ld: "len \<le> psize dest"
    using announced_length [OF a'] unfolding len_def log_def word_le_nat_alt sd(1) .
  have n24: "24 \<le> psize ?P" using announced_24 [OF a'] content_length [OF s P] by (simp add: log_def)
  have u24: "slice (content s ?P) 0 24 = log" by (simp add: slice_def log_def)
  obtain s1 where r: "op_read ops ?P 0 24 s = Some (kNoErr, 24, log, s1)" "inv s1" "content s1 = content s"
    using read_exact [OF s P, of 0 24] n24 u24 by auto
  have big: "len < 2 ^ 24" using ld psize [OF D] by simp
  then have si: "sint (image_length log) = int len"
    unfolding len_def log_def by (intro sint_small_u32) simp
  obtain s2 where c: "checkcrc ops (image_crc log) dest (int len) s1 = Some (kNoErr, s2)" "inv s2"
    "content s2 = content s" using checkcrc_completes [OF r(2) O l] r(3) by metis
  have chk: "updateLogCheck ops log s1 = Some (Log_NeedUpdate, dest, s2)"
    unfolding updateLogCheck_announced [OF a'] si using c(1) by simp
  have l2: "unat (image_length log) \<le> psize dest" "unat (image_length log) \<le> psize ?O"
    using ld l by (simp_all add: len_def log_def)
  obtain s3 where i: "update_install ops dest (of_nat (psize dest)) (image_length log)
      (replicate SizePerRW 0xFF) (replicate SizePerRW 0xFF) s2 = Some (kNoErr, s3)"
    using update_install_completes [OF c(2) D O _ length_replicate length_replicate l2] dd by blast
  have i': "inv s3" "\<forall>q \<in> parts. q \<noteq> dest \<longrightarrow> content s3 q = content s q"
    "take len (content s3 dest) = take len (content s ?O)"
    using update_install_safe [OF i c(2) D O _ length_replicate length_replicate l2] dd c(3)
    by (simp_all add: len_def log_def)
  have lb: "psize ?P \<le> length (replicate (psize ?P) 0xFF @ replicate (16 * 1024 - psize ?P) (0 :: u8))" by simp
  obtain s4 where u: "update_clear ops (of_nat (psize ?P)) (of_nat (psize ?O))
      (replicate (psize ?P) 0xFF @ replicate (16 * 1024 - psize ?P) 0) s3 = Some (kNoErr, s4)" "inv s4"
    "content s4 ?O = replicate (psize ?O) 0xFF"
    "content s4 ?P = overwrite (content s3 ?P) 0 (replicate 24 0xFF)"
    "\<forall>q \<in> parts. q \<noteq> ?O \<longrightarrow> q \<noteq> ?P \<longrightarrow> content s4 q = content s3 q"
    using update_clear_completes [OF i'(1) O P n24 lb n] by blast
  note lg = announced_24 [OF a']
  have "update ops s = Some (kNoErr, s4)"
    unfolding update_def
    using info_at [of ?O] info_at [of ?P] info_at [of dest] dd so sp sd r(1) chk i u(1) lg
    by (simp add: Let_def)
  then show ?thesis using u(2-5) i'(2,3) dd D O P by (intro exI [of _ s4]) auto
qed

end

context boot_spi begin

lemma spi_part_at: "p \<in> spi_parts \<Longrightarrow> partition_at p = Some (mico_partitions ! nat p)"
  using spi_parts_partition by (simp add: spi_partition_def)

lemma spi_disable_ok:
  assumes s: "sys_ready s" and p: "p \<in> spi_parts"
  shows "MicoFlashDisableSecurity env p 0 (of_nat (spi_size p)) s = Some (kNoErr, s)"
proof -
  have n: "unat (of_nat (spi_size p) :: u32) = spi_size p" "0 < spi_size p"
    using spi_parts_aligned [OF p] by (simp_all add: unat_of_nat)
  have r: "unat (0 :: u32) + unat (of_nat (spi_size p) :: u32) \<le> unat (partition_length (mico_partitions ! nat p))"
    by (simp add: n spi_size_def)
  have n0: "0 < unat (of_nat (spi_size p) :: u32)" using n by simp
  note ck = checks_for [OF spi_parts_partition [OF p] disjI1 n0 r, of True 0]
  note rc = range_checks(2,3) [OF spi_parts_partition [OF p] n0 r]
  have b: "unat (partition_start_addr (mico_partitions ! nat p)) + spi_size p \<le> 0x200000"
    using spi_parts_partition [OF p] by (simp add: spi_partition_def spi_size_def)
  show ?thesis
    using s spi_parts_partition [OF p] ck rc b n
    by (simp add: MicoFlashDisableSecurity_def spi_partition_def flash_ensure_init_def sys_ready_def
        platform_flash_disable_protect_def platform_flash_protect_def platform_flash_peripherals_def
        word_le_nat_alt Let_def)
qed

lemma spi_erase_ok:
  assumes s: "sys_ready s" and p: "p \<in> spi_parts"
  shows "\<exists>s'. MicoFlashErase env p 0 (of_nat (spi_size p)) s = Some (kNoErr, s') \<and>
    spi_content s' p = replicate (spi_size p) 0xFF"
proof -
  have n: "unat (of_nat (spi_size p) :: u32) = spi_size p"
    using spi_parts_aligned [OF p] by (simp add: unat_of_nat)
  obtain t where t: "MicoFlashErase env p 0 (of_nat (spi_size p)) s = Some (kNoErr, t)" "sys_ready t"
    "spi_cells t = erase (spi_cells s) (spi_start p) (spi_size p)"
    using part_erase_for [OF spi_parts_partition [OF p] disjI1 [OF boot] s, of "of_nat (spi_size p)" 0]
      spi_parts_aligned [OF p] whole_sectors [of "spi_start p" "spi_size p"]
    by (auto simp: n simp flip: spi_start_def spi_size_def)
  then show ?thesis by (simp add: spi_content_def mread_erase_all)
qed

lemma spi_write_ok:
  assumes s: "sys_ready s" and p: "p \<in> spi_parts" and l: "unat off + unat n \<le> spi_size p"
    and n: "unat n < 65536" "unat n \<le> length b"
    and bl: "slice (spi_content s p) (unat off) (unat n) = replicate (unat n) 0xFF"
  shows "\<exists>off' s'. MicoFlashWrite env p off b n s = Some (kNoErr, off', s') \<and>
    spi_content s' p = overwrite (spi_content s p) (unat off) (take (unat n) b)"
proof (cases "n = 0")
  case True
  then show ?thesis by (simp add: MicoFlashWrite_def spi_part_at [OF p] overwrite_def)
next
  case False
  then have n0: "0 < unat n" by (simp add: unat_gt_0)
  have "mread (spi_cells s) (spi_start p + unat off) (unat n) = replicate (unat n) 0xFF"
    using bl l by (simp add: spi_content_def slice_mread)
  then have bk: "blank (spi_cells s) (spi_start p + unat off) (length (take (unat n) b))"
    using n by (simp add: blank_mread min_absorb2)
  obtain t where t: "MicoFlashWrite env p off b n s = Some (kNoErr, off + n, t)"
    "spi_cells t = patch (spi_cells s) (spi_start p + unat off) (take (unat n) b)"
    using part_write_for [OF spi_parts_partition [OF p] disjI1 [OF boot] s n0 n, of off] l
    by (auto simp: program_blank [OF bk] simp flip: spi_start_def spi_size_def)
  then show ?thesis using l n by (auto simp: spi_content_def intro!: mread_overwrite)
qed

lemma spi_read_ok:
  assumes s: "sys_ready s" and p: "p \<in> spi_parts" and l: "unat off + unat n \<le> spi_size p"
  shows "\<exists>off' ds s'. MicoFlashRead env p off n s = Some (kNoErr, off', ds, s')"
proof (cases "n = 0")
  case True
  then show ?thesis by (simp add: MicoFlashRead_def spi_part_at [OF p])
next
  case False
  then have n0: "0 < unat n" by (simp add: unat_gt_0)
  show ?thesis
    using part_read_for [OF spi_parts_partition [OF p] disjI1 [OF boot] s n0, of off] l
    by (auto simp flip: spi_start_def spi_size_def)
qed

lemma spi_info:
  assumes "p \<in> spi_parts"
  shows "\<exists>q. MicoFlashGetInfo p = Some q \<and> partition_owner q \<noteq> MICO_FLASH_NONE \<and>
    unat (partition_length q) = spi_size p"
proof -
  have "0 \<le> p" "p < MICO_PARTITION_MAX" "partition_owner (mico_partitions ! nat p) = MICO_FLASH_SPI"
    using spi_parts_partition [OF assms] by (simp_all add: spi_partition_def)
  then show ?thesis using info_at [of p] by (simp add: spi_size_def)
qed

end

sublocale boot_spi \<subseteq> boot_flash: healthy_store "ota_flash_ops env" sys_ready spi_content spi_size spi_parts
  by unfold_locales
    (auto simp: ota_flash_ops_def spi_info spi_disable_ok spi_erase_ok spi_write_ok spi_read_ok)

context boot_spi begin

lemma update_on_flash:
  assumes s: "sys_ready s" and a: "announces (mread (spi_cells s) 0 24) MICO_PARTITION_RF_FIRMWARE"
    and len: "len = unat (image_length (mread (spi_cells s) 0 24))"
  shows "\<exists>s'. update (ota_flash_ops env) s = Some (kNoErr, s') \<and> sys_ready s' \<and>
    mread (spi_cells s') 0x2000 len = mread (spi_cells s) 0x40000 len \<and>
    mread (spi_cells s') 0x40000 0x70000 = replicate 0x70000 0xFF \<and>
    mread (spi_cells s') 0 0x1000 = replicate 24 0xFF @ mread (spi_cells s) 24 0xFE8"
proof -
  have st: "spi_start MICO_PARTITION_PARAMETER_1 = 0" "spi_start MICO_PARTITION_RF_FIRMWARE = 0x2000"
    "spi_start MICO_PARTITION_OTA_TEMP = 0x40000" "spi_size MICO_PARTITION_PARAMETER_1 = 0x1000"
    "spi_size MICO_PARTITION_RF_FIRMWARE = 0x3E000" "spi_size MICO_PARTITION_OTA_TEMP = 0x70000"
    by (simp_all add: spi_start_def spi_size_def mico_partitions_def)
  have pt: "MICO_PARTITION_OTA_TEMP \<in> spi_parts" "MICO_PARTITION_PARAMETER_1 \<in> spi_parts"
    "MICO_PARTITION_RF_FIRMWARE \<in> spi_parts" by (simp_all add: spi_parts_def)
  have tk: "take n (spi_content t p) = mread (spi_cells t) (spi_start p) n" if "n \<le> spi_size p" for t n p
    using slice_mread [of 0 n "spi_size p" "spi_cells t" "spi_start p"] that
    by (simp add: spi_content_def slice_def)
  have lg: "take 24 (spi_content s MICO_PARTITION_PARAMETER_1) = mread (spi_cells s) 0 24"
    using tk [of 24 MICO_PARTITION_PARAMETER_1] by (simp add: st)
  have l: "len \<le> 0x3E000"
    using announced_length [OF a] by (simp add: len mico_partitions_def word_le_nat_alt)
  have "\<exists>s'. update (ota_flash_ops env) s = Some (kNoErr, s') \<and> sys_ready s' \<and>
    take len (spi_content s' MICO_PARTITION_RF_FIRMWARE) = take len (spi_content s MICO_PARTITION_OTA_TEMP) \<and>
    spi_content s' MICO_PARTITION_OTA_TEMP = replicate (spi_size MICO_PARTITION_OTA_TEMP) 0xFF \<and>
    spi_content s' MICO_PARTITION_PARAMETER_1 =
      overwrite (spi_content s MICO_PARTITION_PARAMETER_1) 0 (replicate 24 0xFF)"
    using boot_flash.update_completes [OF s pt, unfolded lg, OF a] l st by (auto simp flip: len)
  then obtain s' where u: "update (ota_flash_ops env) s = Some (kNoErr, s')" "sys_ready s'"
    "take len (spi_content s' MICO_PARTITION_RF_FIRMWARE) = take len (spi_content s MICO_PARTITION_OTA_TEMP)"
    "spi_content s' MICO_PARTITION_OTA_TEMP = replicate (spi_size MICO_PARTITION_OTA_TEMP) 0xFF"
    "spi_content s' MICO_PARTITION_PARAMETER_1 =
      overwrite (spi_content s MICO_PARTITION_PARAMETER_1) 0 (replicate 24 0xFF)" by blast
  have "mread (spi_cells s) 0 0x1000 = mread (spi_cells s) 0 24 @ mread (spi_cells s) 24 0xFE8"
    using mread_add [of "spi_cells s" 0 24 "0xFE8"] by simp
  then have "drop 24 (mread (spi_cells s) 0 0x1000) = mread (spi_cells s) 24 0xFE8" by simp
  moreover have "mread (spi_cells s') 0x2000 len = mread (spi_cells s) 0x40000 len"
    using u(3) tk [of len MICO_PARTITION_RF_FIRMWARE s'] tk [of len MICO_PARTITION_OTA_TEMP s] l
    by (simp add: st)
  ultimately show ?thesis
    using u(1,2,4,5) by (intro exI [of _ s']) (simp add: st spi_content_def overwrite_def)
qed

end

section \<open>A pending update\<close>

definition announced_sys :: "(cells, mx25) flash_sys" where
  "announced_sys = board_sys\<lparr>devices := (devices board_sys)\<lparr>chip := (chip (devices board_sys))\<lparr>mx_cells :=
     patch (patch (\<lambda>x. 0xFF) 0 ([0, 0, 4, 0, 5, 0, 0, 0] @ str ''v1.0.0.0'' @ str ''DU'' @ [0x12, 0x34, 0, 0, 0, 0]))
       0x40000 (str ''image'')\<rparr>\<rparr>\<rparr>"

lemma announced_sys_table: "mread (mx_cells (chip (devices announced_sys))) 0 24 =
    [0, 0, 4, 0, 5, 0, 0, 0] @ str ''v1.0.0.0'' @ str ''DU'' @ [0x12, 0x34, 0, 0, 0, 0]"
  by (simp add: announced_sys_def mread_def patch_def upt_rec)

lemma announced_sys_image: "mread (mx_cells (chip (devices announced_sys))) 0x40000 5 = str ''image''"
  by (simp add: announced_sys_def mread_def patch_def upt_rec)

lemma announced_sys_announces:
  "announces (mread (mx_cells (chip (devices announced_sys))) 0 24) MICO_PARTITION_RF_FIRMWARE"
  "image_length (mread (mx_cells (chip (devices announced_sys))) 0 24) = 5"
  unfolding announced_sys_table
  by (simp_all add: announces_def upgrade_type_def image_type_def start_address_def image_length_def
      slice_def le32_of_def mico_partitions_def)

lemma announced_sys_ready: "boot_board.sys_ready announced_sys"
  by (simp add: boot_board.sys_ready_def mx25.ready_def announced_sys_def board_sys_def)

section \<open>Properties\<close>

text \<open>
  C20. An interrupted update can be repeated: over any flash that keeps calls on one partition from
  changing another, installing an image - however the erase, the writes and the reads back turn out -
  leaves every other partition as it was, in particular the image in \<open>OTA_TEMP\<close> and its announcement
  in \<open>PARAMETER_1\<close>; and when it reports success the destination starts with the image.
\<close>

theorem ota_install_restartable:
  assumes "isolated_store ops ready content psize parts" and "ready s"
    and "dest \<in> parts" and "MICO_PARTITION_OTA_TEMP \<in> parts" and "dest \<noteq> MICO_PARTITION_OTA_TEMP"
    and "length data = SizePerRW" and "length newData = SizePerRW"
    and "unat len \<le> psize dest" and "unat len \<le> psize MICO_PARTITION_OTA_TEMP"
    and "update_install ops dest (of_nat (psize dest)) len data newData s = Some (err, s')"
  shows "(\<forall>q \<in> parts. q \<noteq> dest \<longrightarrow> content s' q = content s q) \<and>
    (err = kNoErr \<longrightarrow> take (unat len) (content s' dest) = take (unat len) (content s MICO_PARTITION_OTA_TEMP))"
  using isolated_store.update_install_safe [OF assms(1,10,2-9)] by blast

theorem ota_install_restartable_witness:
  "\<exists>s'. update_install (ota_flash_ops boot_env) MICO_PARTITION_RF_FIRMWARE
      (of_nat (spi_size MICO_PARTITION_RF_FIRMWARE)) 5 (replicate SizePerRW 0xFF) (replicate SizePerRW 0xFF)
      announced_sys = Some (kNoErr, s') \<and>
    take 5 (boot_board.spi_content s' MICO_PARTITION_RF_FIRMWARE) =
      take 5 (boot_board.spi_content announced_sys MICO_PARTITION_OTA_TEMP) \<and>
    boot_board.spi_content s' MICO_PARTITION_PARAMETER_1 =
      boot_board.spi_content announced_sys MICO_PARTITION_PARAMETER_1"
proof -
  have p: "MICO_PARTITION_RF_FIRMWARE \<in> spi_parts" "MICO_PARTITION_OTA_TEMP \<in> spi_parts"
    "MICO_PARTITION_RF_FIRMWARE \<noteq> MICO_PARTITION_OTA_TEMP" "MICO_PARTITION_PARAMETER_1 \<in> spi_parts"
    by (simp_all add: spi_parts_def)
  have l: "unat (5 :: u32) \<le> spi_size MICO_PARTITION_RF_FIRMWARE"
    "unat (5 :: u32) \<le> spi_size MICO_PARTITION_OTA_TEMP"
    by (simp_all add: spi_size_def mico_partitions_def)
  obtain s' where "update_install (ota_flash_ops boot_env) MICO_PARTITION_RF_FIRMWARE
      (of_nat (spi_size MICO_PARTITION_RF_FIRMWARE)) 5 (replicate SizePerRW 0xFF) (replicate SizePerRW 0xFF)
      announced_sys = Some (kNoErr, s')"
    using boot_board.boot_flash.update_install_completes [OF announced_sys_ready p(1-3) length_replicate
        length_replicate l] by blast
  with ota_install_restartable [OF boot_board.ota.isolated_store_axioms announced_sys_ready p(1-3)
      length_replicate length_replicate l this] p(4)
  show ?thesis by auto
qed

text \<open>
  C1. A pending update of the RF firmware is carried out: on a serial flash that answers, with a
  boot table that announces an image of type D in its first 24 bytes, \<open>update\<close> terminates without an
  error, the firmware partition starts with the announced number of bytes of \<open>OTA_TEMP\<close>, \<open>OTA_TEMP\<close> is
  blank, and of \<open>PARAMETER_1\<close> exactly the boot table is cleared.
\<close>

theorem ota_update_installs:
  assumes "boot_spi env cells_of wel prot pending"
    and "initialized (drivers s MICO_FLASH_SPI)"
    and "write_allowed (sflash_handle (devices s)) = SFLASH_WRITE_ALLOWED"
    and "pending (chip (devices s)) = 0" and "prot (chip (devices s)) = 0"
    and "announces (mread (cells_of (chip (devices s))) 0 24) MICO_PARTITION_RF_FIRMWARE"
    and "len = unat (image_length (mread (cells_of (chip (devices s))) 0 24))"
  shows "\<exists>s'. update (ota_flash_ops env) s = Some (kNoErr, s') \<and>
    mread (cells_of (chip (devices s'))) 0x2000 len = mread (cells_of (chip (devices s))) 0x40000 len \<and>
    mread (cells_of (chip (devices s'))) 0x40000 0x70000 = replicate 0x70000 0xFF \<and>
    mread (cells_of (chip (devices s'))) 0 0x1000 =
      replicate 24 0xFF @ mread (cells_of (chip (devices s))) 24 0xFE8"
proof -
  have m: "mico_spi env cells_of wel prot pending" using assms(1) by (simp add: boot_spi_def)
  then have sn: "spi_nor (env_xfer env) cells_of wel prot pending 0x200000" by (simp add: mico_spi_def)
  have r: "mico_spi.sys_ready prot pending s"
    using assms(2-5) by (simp add: mico_spi.sys_ready_def [OF m] spi_nor.ready_def [OF sn])
  have c: "mico_spi.spi_cells cells_of t = cells_of (chip (devices t))" for t :: "('a, 'b) flash_sys"
    by (simp add: mico_spi.spi_cells_def [OF m])
  show ?thesis using boot_spi.update_on_flash [OF assms(1) r] assms(6,7) unfolding c by blast
qed

theorem ota_update_installs_witness:
  "\<exists>s'. update (ota_flash_ops boot_env) announced_sys = Some (kNoErr, s') \<and>
    mread (mx_cells (chip (devices s'))) 0x2000 5 = str ''image''"
  using ota_update_installs [OF boot_board.boot_spi_axioms, of announced_sys 5] announced_sys_image
    announced_sys_announces
  by (fastforce simp: announced_sys_def board_sys_def)

text \<open>
  The checksum of an image does not decide anything: two boot tables that differ in it lead to the
  same answer of \<open>checkcrc\<close> in the same state, unless one of them is the value that switches the
  check off; so a damaged image passes.
\<close>

theorem image_crc_not_compared:
  assumes "c \<noteq> 0xFFFF" and "c' \<noteq> 0xFFFF"
  shows "checkcrc ops c dest n s = checkcrc ops c' dest n s"
proof (cases "MicoFlashGetInfo dest = None")
  case False
  show ?thesis
  proof (cases "crc_loop ops n 0 (CRC16_Init \<lparr>crc = 0\<rparr>) s")
    case (Some r)
    obtain err k t where "r = (err, k, t)" by (cases r)
    then show ?thesis using Some assms by (simp add: checkcrc_def Let_def)
  qed (use assms in \<open>simp add: checkcrc_def\<close>)
qed (use assms in \<open>simp add: checkcrc_def\<close>)

theorem image_crc_not_compared_witness:
  "checkcrc (ota_flash_ops boot_env) 0x3412 MICO_PARTITION_RF_FIRMWARE 5 announced_sys =
   checkcrc (ota_flash_ops boot_env) 0 MICO_PARTITION_RF_FIRMWARE 5 announced_sys"
  by (rule image_crc_not_compared) simp_all

end
