(* ===== verification/Ymodem.thy ===== *)
theory Ymodem
  imports OTAUpdate StringConv
begin

text \<open>
  The YMODEM protocol of the boot loader, \<open>Bootloader/ymodem.c\<close>. The serial line is a list of
  receive events, each a byte or the end of a timeout (\<open>None\<close>), and the list of the bytes sent. A
  function returns, faults (it leaves a buffer), or has used up the events it was given and waits.
  The flash driver of the device is the parameter \<open>ym_flash\<close>. Local arrays are not initialised, so
  their contents are parameters.
\<close>

section \<open>Runs on a serial line\<close>

datatype 'a outcome = Returned 'a | Waiting | Faulty

fun andThen :: "'a outcome \<Rightarrow> ('a \<Rightarrow> 'b outcome) \<Rightarrow> 'b outcome" where
  "andThen (Returned x) f = f x"
| "andThen Waiting f = Waiting"
| "andThen Faulty f = Faulty"

lemma andThen_cong [fundef_cong]:
  "m = m' \<Longrightarrow> (\<And>x. m' = Returned x \<Longrightarrow> f x = f' x) \<Longrightarrow> andThen m f = andThen m' f'"
  by (cases m') simp_all

lemma andThen_Returned: "andThen m f = Returned y \<longleftrightarrow> (\<exists>x. m = Returned x \<and> f x = Returned y)"
  by (cases m) simp_all

definition lift :: "'a option \<Rightarrow> 'a outcome" where
  "lift x = (case x of None \<Rightarrow> Faulty | Some v \<Rightarrow> Returned v)"

lemma lift_simps [simp]: "lift None = Faulty" "lift (Some v) = Returned v"
  by (simp_all add: lift_def)

lemma lift_Returned: "lift x = Returned v \<longleftrightarrow> x = Some v"
  by (cases x) simp_all

record 's ym =
  ym_rx :: "u8 option list"
  ym_tx :: bytes
  ym_dev :: 's

record 's ym_flash =
  yf_init :: "'s \<Rightarrow> (OSStatus \<times> 's) option"
  yf_erase :: "u32 \<Rightarrow> u32 \<Rightarrow> 's \<Rightarrow> (OSStatus \<times> 's) option"
  yf_write :: "u32 \<Rightarrow> bytes \<Rightarrow> u32 \<Rightarrow> 's \<Rightarrow> (OSStatus \<times> u32 \<times> 's) option"
  yf_read :: "u32 \<Rightarrow> u32 \<Rightarrow> 's \<Rightarrow> (OSStatus \<times> u32 \<times> bytes \<times> 's) option"

abbreviation PACKET_SEQNO_INDEX :: nat where "PACKET_SEQNO_INDEX \<equiv> 1"
abbreviation PACKET_SEQNO_COMP_INDEX :: nat where "PACKET_SEQNO_COMP_INDEX \<equiv> 2"
abbreviation PACKET_HEADER :: nat where "PACKET_HEADER \<equiv> 3"
abbreviation PACKET_OVERHEAD :: nat where "PACKET_OVERHEAD \<equiv> 5"
abbreviation PACKET_SIZE :: nat where "PACKET_SIZE \<equiv> 128"
abbreviation PACKET_1K_SIZE :: nat where "PACKET_1K_SIZE \<equiv> 1024"
abbreviation FILE_NAME_LENGTH :: nat where "FILE_NAME_LENGTH \<equiv> 256"
abbreviation FILE_SIZE_LENGTH :: nat where "FILE_SIZE_LENGTH \<equiv> 16"
abbreviation SOH :: u8 where "SOH \<equiv> 0x01"
abbreviation STX :: u8 where "STX \<equiv> 0x02"
abbreviation EOT :: u8 where "EOT \<equiv> 0x04"
abbreviation ACK :: u8 where "ACK \<equiv> 0x06"
abbreviation NAK :: u8 where "NAK \<equiv> 0x15"
abbreviation CA :: u8 where "CA \<equiv> 0x18"
abbreviation CRC16 :: u8 where "CRC16 \<equiv> 0x43"
abbreviation ABORT1 :: u8 where "ABORT1 \<equiv> 0x41"
abbreviation ABORT2 :: u8 where "ABORT2 \<equiv> 0x61"
abbreviation MAX_ERRORS :: nat where "MAX_ERRORS \<equiv> 20"

fun Receive_Byte :: "'s ym \<Rightarrow> (u8 option \<times> 's ym) outcome" where
  "Receive_Byte s = (case ym_rx s of [] \<Rightarrow> Waiting | x # xs \<Rightarrow> Returned (x, s\<lparr>ym_rx := xs\<rparr>))"

definition Send_Byte :: "u8 \<Rightarrow> 's ym \<Rightarrow> 's ym" where
  "Send_Byte c s = s\<lparr>ym_tx := ym_tx s @ [c]\<rparr>"

lemma Send_Byte_fields [simp]:
  "ym_rx (Send_Byte c s) = ym_rx s" "ym_dev (Send_Byte c s) = ym_dev s"
  "ym_tx (Send_Byte c s) = ym_tx s @ [c]"
  by (simp_all add: Send_Byte_def)

section \<open>Receiving a packet\<close>

text \<open>The loop that fills \<open>data\<close> from the index \<open>i\<close>; the flag is false on a timeout.\<close>

fun receive_rest :: "nat \<Rightarrow> nat \<Rightarrow> bytes \<Rightarrow> 's ym \<Rightarrow> (bool \<times> bytes \<times> 's ym) outcome" where
  "receive_rest i 0 data s = Returned (True, data, s)"
| "receive_rest i (Suc k) data s =
     andThen (Receive_Byte s) (\<lambda>(c, s).
       case c of None \<Rightarrow> Returned (False, data, s)
       | Some b \<Rightarrow> andThen (lift (wr data i b)) (\<lambda>data. receive_rest (i + 1) k data s))"

text \<open>The result is the return value, \<open>*length\<close> and \<open>data\<close>.\<close>

definition Receive_Packet :: "bytes \<Rightarrow> 's ym \<Rightarrow> (int \<times> int \<times> bytes \<times> 's ym) outcome" where
  "Receive_Packet data s =
     andThen (Receive_Byte s) (\<lambda>(c, s).
       case c of None \<Rightarrow> Returned (- 1, 0, data, s)
       | Some c \<Rightarrow>
           if c = SOH \<or> c = STX then
             (let packet_size = (if c = SOH then PACKET_SIZE else PACKET_1K_SIZE) in
              andThen (lift (wr data 0 c)) (\<lambda>data.
              andThen (receive_rest 1 (packet_size + PACKET_OVERHEAD - 1) data s) (\<lambda>(complete, data, s).
                if \<not> complete then Returned (- 1, 0, data, s)
                else if data ! PACKET_SEQNO_INDEX \<noteq> data ! PACKET_SEQNO_COMP_INDEX XOR 0xff
                then Returned (- 1, 0, data, s)
                else Returned (0, int packet_size, data, s))))
           else if c = EOT then Returned (0, 0, data, s)
           else if c = CA then
             andThen (Receive_Byte s) (\<lambda>(c, s).
               if c = Some CA then Returned (0, - 1, data, s) else Returned (- 1, 0, data, s))
           else if c = ABORT1 \<or> c = ABORT2 then Returned (1, 0, data, s)
           else Returned (- 1, 0, data, s))"

lemma receive_rest_rx:
  "receive_rest i k data s = Returned (f, data', s') \<Longrightarrow> length (ym_rx s') \<le> length (ym_rx s)"
proof (induction i k data s rule: receive_rest.induct)
  case (2 i k data s)
  then show ?case
    by (fastforce simp: andThen_Returned lift_Returned split: list.splits option.splits)
qed simp

lemma Receive_Packet_rx:
  "Receive_Packet data s = Returned (r, l, data', s') \<Longrightarrow> length (ym_rx s') < length (ym_rx s)"
  by (auto simp: Receive_Packet_def andThen_Returned Let_def split: list.splits option.splits if_splits
      dest!: receive_rest_rx)

section \<open>Receiving a file\<close>

function copy_name :: "bytes \<Rightarrow> nat \<Rightarrow> nat \<Rightarrow> bytes \<Rightarrow> (nat \<times> nat \<times> bytes) option" where
  "copy_name packet_data p i fname = do {
     c \<leftarrow> rd packet_data p;
     if c \<noteq> 0 \<and> i < FILE_NAME_LENGTH then do {
       fname \<leftarrow> wr fname i c;
       copy_name packet_data (p + 1) (i + 1) fname
     } else Some (p, i, fname)
   }"
  by pat_completeness auto
termination
  by (relation "measure (\<lambda>(d, p, i, f). FILE_NAME_LENGTH - i)") auto

function copy_size :: "bytes \<Rightarrow> nat \<Rightarrow> nat \<Rightarrow> bytes \<Rightarrow> (nat \<times> bytes) option" where
  "copy_size packet_data p i file_size = do {
     c \<leftarrow> rd packet_data p;
     if c \<noteq> 0x20 \<and> i < FILE_SIZE_LENGTH then do {
       file_size \<leftarrow> wr file_size i c;
       copy_size packet_data (p + 1) (i + 1) file_size
     } else Some (i, file_size)
   }"
  by pat_completeness auto
termination
  by (relation "measure (\<lambda>(d, p, i, f). FILE_SIZE_LENGTH - i)") auto

declare copy_name.simps [simp del] copy_size.simps [simp del]

text \<open>The variables of \<open>Ymodem_Receive\<close>, with \<open>FileName\<close>; \<open>size\<close> keeps its value when \<open>Str2Int\<close>
  stores none.\<close>

record ym_vars =
  packet_data :: bytes
  file_size :: bytes
  FileName :: bytes
  ym_buf :: bytes
  ym_size :: u32
  flashdestination :: u32
  session_begin :: bool
  rx_errors :: nat
  packets_received :: nat

definition parse_file_packet :: "ym_vars \<Rightarrow> ym_vars option" where
  "parse_file_packet v = do {
     (p, i, fname) \<leftarrow> copy_name (packet_data v) PACKET_HEADER 0 (FileName v);
     fname \<leftarrow> wr fname i 0;
     (j, fs) \<leftarrow> copy_size (packet_data v) (p + 1) 0 (file_size v);
     fs \<leftarrow> wr fs j 0;
     (r, n) \<leftarrow> Str2Int fs;
     Some (v\<lparr>FileName := fname, file_size := fs, ym_size := (case n of None \<Rightarrow> ym_size v | Some n \<Rightarrow> n)\<rparr>)
   }"

datatype control = Go_on | End_file | End_session | Return_value int

text \<open>The branch of a packet with the expected sequence number.\<close>

definition file_packet ::
  "'s ym_flash \<Rightarrow> u32 \<Rightarrow> ym_vars \<Rightarrow> 's ym \<Rightarrow> (control \<times> ym_vars \<times> 's ym) outcome" where
  "file_packet fl maxRecvSize v s =
     (if packet_data v ! PACKET_HEADER \<noteq> 0 then
        andThen (lift (parse_file_packet v)) (\<lambda>v.
          if sint (ym_size v) > sint maxRecvSize + 1
          then Returned (Return_value (- 1), v, Send_Byte CA (Send_Byte CA s))
          else andThen (lift (yf_erase fl (flashdestination v) (flashdestination v + maxRecvSize - 1) (ym_dev s)))
            (\<lambda>(err, d). Returned (Go_on,
               v\<lparr>packets_received := packets_received v + 1, session_begin := True\<rparr>,
               Send_Byte CRC16 (Send_Byte ACK (s\<lparr>ym_dev := d\<rparr>)))))
      else Returned (End_session, v, Send_Byte ACK s))"

definition data_packet ::
  "'s ym_flash \<Rightarrow> nat \<Rightarrow> ym_vars \<Rightarrow> 's ym \<Rightarrow> (control \<times> ym_vars \<times> 's ym) outcome" where
  "data_packet fl packet_length v s =
     andThen (lift (blit (ym_buf v) 0 (slice (packet_data v) PACKET_HEADER packet_length))) (\<lambda>b.
     andThen (lift (yf_write fl (flashdestination v) b (of_nat packet_length) (ym_dev s))) (\<lambda>(err, a, d).
       let v = v\<lparr>ym_buf := b, flashdestination := a\<rparr>; s = s\<lparr>ym_dev := d\<rparr> in
       if err = kNoErr
       then Returned (Go_on, v\<lparr>packets_received := packets_received v + 1, session_begin := True\<rparr>,
              Send_Byte ACK s)
       else Returned (Return_value (- 2), v, Send_Byte CA (Send_Byte CA s))))"

text \<open>One round of the inner loop.\<close>

definition receive_round ::
  "'s ym_flash \<Rightarrow> u32 \<Rightarrow> ym_vars \<Rightarrow> 's ym \<Rightarrow> (control \<times> ym_vars \<times> 's ym) outcome" where
  "receive_round fl maxRecvSize v s =
     andThen (Receive_Packet (packet_data v) s) (\<lambda>(r, len, d, s).
       let v = v\<lparr>packet_data := d\<rparr> in
       if r = 0 then
         (let v = v\<lparr>rx_errors := 0\<rparr> in
          if len = - 1 then Returned (Return_value 0, v, Send_Byte ACK s)
          else if len = 0 then Returned (End_file, v, Send_Byte ACK s)
          else if unat (d ! PACKET_SEQNO_INDEX) \<noteq> packets_received v mod 256
          then Returned (Go_on, v, Send_Byte NAK s)
          else if packets_received v = 0 then file_packet fl maxRecvSize v s
          else data_packet fl (nat len) v s)
       else if r = 1 then Returned (Return_value (- 3), v, Send_Byte CA (Send_Byte CA s))
       else
         (let v = v\<lparr>rx_errors := rx_errors v + (if session_begin v then 1 else 0)\<rparr> in
          if rx_errors v > MAX_ERRORS then Returned (Return_value 0, v, Send_Byte CA (Send_Byte CA s))
          else Returned (Go_on, v, Send_Byte CRC16 s)))"

lemma receive_round_rx:
  assumes "receive_round fl m v s = Returned (c, v', s')"
  shows "length (ym_rx s') < length (ym_rx s)"
proof -
  obtain r len d s1 where p: "Receive_Packet (packet_data v) s = Returned (r, len, d, s1)"
    using assms by (auto simp: receive_round_def andThen_Returned)
  have f: "file_packet fl m w t = Returned (c, v', s') \<Longrightarrow> ym_rx s' = ym_rx t" for w t
    by (auto simp: file_packet_def andThen_Returned split: if_splits)
  have g: "data_packet fl k w t = Returned (c, v', s') \<Longrightarrow> ym_rx s' = ym_rx t" for w t k
    by (auto simp: data_packet_def andThen_Returned Let_def split: if_splits)
  have "ym_rx s' = ym_rx s1"
    using assms p by (auto simp: receive_round_def Let_def split: if_splits dest!: f g)
  then show ?thesis using Receive_Packet_rx [OF p] by simp
qed

text \<open>Both loops: a file that is complete starts the inner loop again.\<close>

function receive_loop :: "'s ym_flash \<Rightarrow> u32 \<Rightarrow> ym_vars \<Rightarrow> 's ym \<Rightarrow> (int \<times> ym_vars \<times> 's ym) outcome" where
  "receive_loop fl maxRecvSize v s =
     andThen (receive_round fl maxRecvSize v s) (\<lambda>(c, v, s).
       case c of
         Go_on \<Rightarrow> receive_loop fl maxRecvSize v s
       | End_file \<Rightarrow> receive_loop fl maxRecvSize (v\<lparr>packets_received := 0\<rparr>) s
       | End_session \<Rightarrow> Returned (sint (ym_size v), v, s)
       | Return_value r \<Rightarrow> Returned (r, v, s))"
  by pat_completeness auto
termination
  by (relation "measure (\<lambda>(fl, m, v, s). length (ym_rx s))") (auto dest: receive_round_rx)

declare receive_loop.simps [simp del]

definition Ymodem_Receive ::
  "'s ym_flash \<Rightarrow> bytes \<Rightarrow> u32 \<Rightarrow> u32 \<Rightarrow> bytes \<Rightarrow> bytes \<Rightarrow> bytes \<Rightarrow> 's ym \<Rightarrow> (int \<times> ym_vars \<times> 's ym) outcome" where
  "Ymodem_Receive fl buf dest maxRecvSize packet0 fsize0 fname s =
     andThen (lift (yf_init fl (ym_dev s))) (\<lambda>(err, d).
       receive_loop fl maxRecvSize
         \<lparr>packet_data = packet0, file_size = fsize0, FileName = fname, ym_buf = buf, ym_size = 0,
          flashdestination = dest, session_begin = False, rx_errors = 0, packets_received = 0\<rparr>
         (s\<lparr>ym_dev := d\<rparr>))"

section \<open>Preparing packets\<close>

function prepare_name :: "bytes \<Rightarrow> bytes \<Rightarrow> nat \<Rightarrow> (nat \<times> bytes) option" where
  "prepare_name data fileName i = do {
     c \<leftarrow> rd fileName i;
     if c \<noteq> 0 \<and> i < FILE_NAME_LENGTH then do {
       data \<leftarrow> wr data (i + PACKET_HEADER) c;
       prepare_name data fileName (i + 1)
     } else Some (i, data)
   }"
  by pat_completeness auto
termination
  by (relation "measure (\<lambda>(d, f, i). FILE_NAME_LENGTH - i)") auto

declare prepare_name.simps [simp del]

text \<open>The bytes of \<open>file_ptr\<close> up to its end mark, which must be inside of it.\<close>

fun prepare_size :: "bytes \<Rightarrow> nat \<Rightarrow> bytes \<Rightarrow> (nat \<times> bytes) option" where
  "prepare_size data i [] = None"
| "prepare_size data i (c # file_ptr) =
     (if c = 0 then Some (i, data)
      else do { data \<leftarrow> wr data i c; prepare_size data (i + 1) file_ptr })"

text \<open>\<open>file_ptr0\<close> is what the array of ten bytes holds before \<open>Int2Str\<close> writes the digits.\<close>

definition Ymodem_PrepareIntialPacket :: "bytes \<Rightarrow> bytes \<Rightarrow> bytes \<Rightarrow> u32 \<Rightarrow> bytes option" where
  "Ymodem_PrepareIntialPacket data fileName file_ptr0 length_in = do {
     data \<leftarrow> wr data 0 SOH;
     data \<leftarrow> wr data 1 0x00;
     data \<leftarrow> wr data 2 0xff;
     (i, data) \<leftarrow> prepare_name data fileName 0;
     data \<leftarrow> wr data (i + PACKET_HEADER) 0x00;
     file_ptr \<leftarrow> Int2Str file_ptr0 length_in;
     (i, data) \<leftarrow> prepare_size data (i + PACKET_HEADER + 1) file_ptr;
     blit data i (replicate (PACKET_SIZE + PACKET_HEADER - i) 0)
   }"

text \<open>The status of the read is not looked at.\<close>

definition Ymodem_PreparePacket ::
  "'s ym_flash \<Rightarrow> u32 \<Rightarrow> bytes \<Rightarrow> u8 \<Rightarrow> u32 \<Rightarrow> 's \<Rightarrow> (bytes \<times> 's) option" where
  "Ymodem_PreparePacket fl dest data pktNo sizeBlk d = do {
     let packetSize = (if sizeBlk \<ge> of_nat PACKET_1K_SIZE then PACKET_1K_SIZE else PACKET_SIZE);
     let size_in = (if sizeBlk < of_nat packetSize then unat sizeBlk else packetSize);
     data \<leftarrow> wr data 0 (if packetSize = PACKET_1K_SIZE then STX else SOH);
     data \<leftarrow> wr data 1 pktNo;
     data \<leftarrow> wr data 2 (NOT pktNo);
     (err, a, ds, d) \<leftarrow> yf_read fl dest (of_nat size_in) d;
     data \<leftarrow> blit data PACKET_HEADER ds;
     data \<leftarrow> blit data (size_in + PACKET_HEADER) (replicate (packetSize - size_in) 0x1A);
     Some (data, d)
   }"

definition Cal_CRC16 :: "bytes \<Rightarrow> u16" where
  "Cal_CRC16 data = snd (CRC16_Final (CRC16_Update (CRC16_Init \<lparr>crc = 0\<rparr>) data))"

definition CalChecksum :: "bytes \<Rightarrow> u8" where
  "CalChecksum data = ucast (foldl (\<lambda>s c. s + ucast c) (0 :: u32) data AND 0xff)"

definition Ymodem_SendPacket :: "bytes \<Rightarrow> nat \<Rightarrow> 's ym \<Rightarrow> 's ym" where
  "Ymodem_SendPacket data n s = fold Send_Byte (take n data) s"

text \<open>A packet with its CRC; \<open>CRC16_F\<close> is always 1, so that \<open>CalChecksum\<close> is never sent.\<close>

definition send_packet :: "bytes \<Rightarrow> nat \<Rightarrow> 's ym \<Rightarrow> 's ym" where
  "send_packet data n s =
     (let tempCRC = Cal_CRC16 (slice data PACKET_HEADER n) in
      Send_Byte (ucast (tempCRC AND 0xFF)) (Send_Byte (ucast (drop_bit 8 tempCRC))
        (Ymodem_SendPacket data (n + PACKET_HEADER) s)))"

section \<open>Transmitting a file\<close>

text \<open>The \<open>do ... while (!ackReceived && errors < 0x0A)\<close> loops. In two of them (\<open>strict\<close>) every answer
  but \<open>ACK\<close> is an error, in the others only a timeout is.\<close>

lemma fold_Send_Byte: "fold Send_Byte bs s = s\<lparr>ym_tx := ym_tx s @ bs\<rparr>"
  by (induction bs arbitrary: s) (simp_all add: Send_Byte_def)

lemma send_packet_tx: "\<exists>bs. send_packet data n s = s\<lparr>ym_tx := ym_tx s @ bs\<rparr>"
  unfolding send_packet_def Ymodem_SendPacket_def fold_Send_Byte Let_def by (simp add: Send_Byte_def) blast

lemma send_packet_rx [simp]: "ym_rx (send_packet data n s) = ym_rx s"
  using send_packet_tx [of data n s] by auto

datatype frame = Packet bytes nat | Single u8

fun send_frame :: "frame \<Rightarrow> 's ym \<Rightarrow> 's ym" where
  "send_frame (Packet data n) s = send_packet data n s"
| "send_frame (Single c) s = Send_Byte c s"

lemma send_frame_rx [simp]: "ym_rx (send_frame f s) = ym_rx s"
  by (cases f) simp_all

function send_until_ack :: "bool \<Rightarrow> frame \<Rightarrow> bool \<Rightarrow> nat \<Rightarrow> 's ym \<Rightarrow> (nat \<times> 's ym) outcome" where
  "send_until_ack strict f acked errors s =
     andThen (Receive_Byte (send_frame f s)) (\<lambda>(c, s).
       let acked = (acked \<or> c = Some ACK);
           errors = errors + (if c = Some ACK \<or> \<not> strict \<and> c \<noteq> None then 0 else 1) in
       if \<not> acked \<and> errors < 0x0A then send_until_ack strict f acked errors s
       else Returned (errors, s))"
  by pat_completeness auto
termination
  by (relation "measure (\<lambda>(strict, f, acked, errors, s). length (ym_rx s))")
    (auto split: list.splits)

declare send_until_ack.simps [simp del]

text \<open>\<open>while (size)\<close>: the result is the number of errors when a block was given up.\<close>

function transmit_blocks ::
  "'s ym_flash \<Rightarrow> u32 \<Rightarrow> u32 \<Rightarrow> u16 \<Rightarrow> bytes \<Rightarrow> 's ym \<Rightarrow> (nat option \<times> bytes \<times> 's ym) outcome" where
  "transmit_blocks fl buf_ptr sz blkNumber data s =
     (if sz = 0 then Returned (None, data, s)
      else andThen (lift (Ymodem_PreparePacket fl buf_ptr data (ucast blkNumber) sz (ym_dev s))) (\<lambda>(data, d).
        let pktSize = (if sz \<ge> of_nat PACKET_1K_SIZE then PACKET_1K_SIZE else PACKET_SIZE) in
        andThen (send_until_ack True (Packet data pktSize) False 0 (s\<lparr>ym_dev := d\<rparr>)) (\<lambda>(errors, s).
          if errors \<ge> 0x0A then Returned (Some errors, data, s)
          else if sz > of_nat pktSize
          then transmit_blocks fl (buf_ptr + of_nat pktSize) (sz - of_nat pktSize) (blkNumber + 1) data s
          else Returned (None, data, s))))"
  by pat_completeness auto
termination
  by (relation "measure (\<lambda>(fl, a, sz, b, d, s). unat sz)")
    (auto simp: word_less_nat_alt word_le_nat_alt unat_sub)

declare transmit_blocks.simps [simp del]

text \<open>The last packet: number 0, all zero.\<close>

definition null_packet :: "bytes \<Rightarrow> bytes option" where
  "null_packet data = do {
     data \<leftarrow> wr data 0 SOH;
     data \<leftarrow> wr data 1 0;
     data \<leftarrow> wr data 2 0xFF;
     blit data PACKET_HEADER (replicate PACKET_SIZE 0)
   }"

text \<open>255 bytes of \<open>sendFileName\<close> are copied, whatever its length; \<open>filename255\<close> is the byte after
  them. The last loop starts with \<open>ackReceived\<close> set and with the errors of the loop before.\<close>

definition Ymodem_Transmit ::
  "'s ym_flash \<Rightarrow> u32 \<Rightarrow> bytes \<Rightarrow> u32 \<Rightarrow> bytes \<Rightarrow> u8 \<Rightarrow> bytes \<Rightarrow> 's ym \<Rightarrow> (nat \<times> 's ym) outcome" where
  "Ymodem_Transmit fl dest sendFileName sizeFile packet0 filename255 file_ptr0 s =
     (if length sendFileName < FILE_NAME_LENGTH - 1 then Faulty
      else andThen (lift (Ymodem_PrepareIntialPacket packet0
                     (take (FILE_NAME_LENGTH - 1) sendFileName @ [filename255]) file_ptr0 sizeFile)) (\<lambda>data.
        andThen (send_until_ack False (Packet data PACKET_SIZE) False 0 s) (\<lambda>(errors, s).
          if errors \<ge> 0x0A then Returned (errors, s)
          else andThen (Receive_Byte s) (\<lambda>(c, s).
            andThen (transmit_blocks fl dest sizeFile 1 data s) (\<lambda>(r, data, s).
              case r of Some errors \<Rightarrow> Returned (errors, s)
              | None \<Rightarrow>
                andThen (send_until_ack True (Single EOT) False 0 s) (\<lambda>(errors, s).
                  if errors \<ge> 0x0A then Returned (errors, s)
                  else andThen (lift (null_packet data)) (\<lambda>data.
                    andThen (send_until_ack False (Packet data PACKET_SIZE) False 0 s) (\<lambda>(errors, s).
                      if errors \<ge> 0x0A then Returned (errors, s)
                      else andThen (send_until_ack True (Single EOT) True errors s) (\<lambda>(errors, s).
                        if errors \<ge> 0x0A then Returned (errors, s) else Returned (0, s))))))))))"

section \<open>Sessions of a YMODEM sender\<close>

text \<open>A packet on the line; its last two bytes, the CRC, are arbitrary.\<close>

definition ym_frame :: "u8 \<Rightarrow> bytes \<Rightarrow> u8 \<Rightarrow> u8 \<Rightarrow> bytes" where
  "ym_frame seqno payload crc1 crc2 =
     (if length payload = PACKET_1K_SIZE then STX else SOH) # seqno # (seqno XOR 0xff) # payload @ [crc1, crc2]"

definition payload_size :: "bytes \<Rightarrow> bool" where
  "payload_size p \<longleftrightarrow> length p = PACKET_SIZE \<or> length p = PACKET_1K_SIZE"

text \<open>The payload of the first packet: name, NUL, size in decimal, blank, anything.\<close>

definition name_payload :: "bytes \<Rightarrow> u32 \<Rightarrow> bytes \<Rightarrow> bytes" where
  "name_payload name sz rest = name @ [0] @ decimal sz @ [0x20] @ rest"

fun block_frames :: "nat \<Rightarrow> (bytes \<times> u8 \<times> u8) list \<Rightarrow> bytes" where
  "block_frames k [] = []"
| "block_frames k ((p, c1, c2) # bs) = ym_frame (of_nat k) p c1 c2 @ block_frames (k + 1) bs"

definition block_bytes :: "(bytes \<times> u8 \<times> u8) list \<Rightarrow> bytes" where
  "block_bytes bs = concat (map fst bs)"

definition ym_session :: "bytes \<Rightarrow> u8 \<times> u8 \<Rightarrow> (bytes \<times> u8 \<times> u8) list \<Rightarrow> bytes \<Rightarrow> u8 \<times> u8 \<Rightarrow> bytes" where
  "ym_session first c bs last_payload d =
     ym_frame 0 first (fst c) (snd c) @ block_frames 1 bs @ [EOT] @ ym_frame 0 last_payload (fst d) (snd d)"

lemma receive_rest_bytes:
  assumes "length bs = k" and "i + k \<le> length data"
  shows "receive_rest i k data \<lparr>ym_rx = map Some bs @ rest, ym_tx = t, ym_dev = d\<rparr> =
    Returned (True, take i data @ bs @ drop (i + k) data, \<lparr>ym_rx = rest, ym_tx = t, ym_dev = d\<rparr>)"
  using assms
proof (induction k arbitrary: i bs data)
  case (Suc k)
  obtain b bs' where bs: "bs = b # bs'" "length bs' = k" using Suc.prems(1) by (cases bs) auto
  have w: "wr data i b = Some (data[i := b])" using Suc.prems(2) by (simp add: wr_def)
  have "take (i + 1) (data[i := b]) = take i data @ [b]"
    using Suc.prems(2) by (simp add: take_Suc_conv_app_nth)
  then show ?case
    using Suc.IH [OF bs(2), of "i + 1" "data[i := b]"] Suc.prems(2) by (simp add: bs(1) w)
qed simp

lemma Receive_Packet_frame:
  assumes "payload_size p" and "length data = PACKET_1K_SIZE + PACKET_OVERHEAD"
  shows "Receive_Packet data \<lparr>ym_rx = map Some (ym_frame q p c1 c2) @ rest, ym_tx = t, ym_dev = d\<rparr> =
    Returned (0, int (length p), ym_frame q p c1 c2 @ drop (length p + PACKET_OVERHEAD) data,
      \<lparr>ym_rx = rest, ym_tx = t, ym_dev = d\<rparr>)"
proof -
  define h :: u8 where "h = (if length p = PACKET_1K_SIZE then STX else SOH)"
  define bs where "bs = q # (q XOR 0xff) # p @ [c1, c2]"
  have f: "ym_frame q p c1 c2 = h # bs" by (simp add: ym_frame_def h_def bs_def)
  have l: "length bs = (if h = SOH then PACKET_SIZE else PACKET_1K_SIZE) + PACKET_OVERHEAD - 1"
    "length p = (if h = SOH then PACKET_SIZE else PACKET_1K_SIZE)" and h: "h = SOH \<or> h = STX"
    using assms(1) by (auto simp: h_def bs_def payload_size_def)
  have lb: "length bs = length p + 4" by (simp add: bs_def)
  have w: "wr data 0 h = Some (data[0 := h])" using assms(2) by (simp add: wr_def)
  have t: "take 1 (data[0 := h]) = [h]" using assms(2) by (cases data) simp_all
  have dr: "drop (1 + length bs) (data[0 := h]) = drop (length p + PACKET_OVERHEAD) data"
    by (simp add: lb drop_update_cancel add.commute)
  have r: "receive_rest 1 (length bs) (data[0 := h]) \<lparr>ym_rx = map Some bs @ rest, ym_tx = t', ym_dev = d\<rparr> =
      Returned (True, h # bs @ drop (length p + PACKET_OVERHEAD) data, \<lparr>ym_rx = rest, ym_tx = t', ym_dev = d\<rparr>)"
    for t'
    using receive_rest_bytes [of bs "length bs" 1 "data[0 := h]" rest t' d] assms(1,2) t dr
    by (auto simp: lb payload_size_def)
  define N where "N = (if h = SOH then PACKET_SIZE else PACKET_1K_SIZE)"
  have r': "receive_rest 1 (N + PACKET_OVERHEAD - 1) (data[0 := h]) \<lparr>ym_rx = map Some bs @ rest, ym_tx = t, ym_dev = d\<rparr> =
      Returned (True, h # bs @ drop (length p + PACKET_OVERHEAD) data, \<lparr>ym_rx = rest, ym_tx = t, ym_dev = d\<rparr>)"
    using r [of t] unfolding l(1) N_def .
  have x: "(h # bs @ z) ! PACKET_SEQNO_INDEX = (h # bs @ z) ! PACKET_SEQNO_COMP_INDEX XOR 0xff" for z
    by (simp add: bs_def xor.assoc)
  have s1: "Receive_Byte \<lparr>ym_rx = map Some (h # bs) @ rest, ym_tx = t, ym_dev = d\<rparr> =
      Returned (Some h, \<lparr>ym_rx = map Some bs @ rest, ym_tx = t, ym_dev = d\<rparr>)" by simp
  show ?thesis
    unfolding f Receive_Packet_def s1 andThen.simps split option.case Let_def N_def [symmetric] w lift_simps r'
    using h x l(2) by (simp add: N_def)
qed

lemma copy_name_text:
  assumes "\<forall>c \<in> set name. c \<noteq> 0" and "drop p d = name @ 0 # r" and "i + length name \<le> FILE_NAME_LENGTH"
    and "length f = FILE_NAME_LENGTH"
  shows "copy_name d p i f = Some (p + length name, i + length name, take i f @ name @ drop (i + length name) f)"
  using assms
proof (induction name arbitrary: p i f)
  case Nil
  then have "rd d p = Some 0" by (metis append_Nil drop_eq_Nil list.distinct(1) not_le nth_via_drop rd_Some_iff)
  then show ?case by (subst copy_name.simps) simp
next
  case (Cons c name)
  have "rd d p = Some c" using Cons.prems(2)
    by (metis append_Cons drop_eq_Nil list.distinct(1) not_le nth_via_drop rd_Some_iff)
  moreover have "drop (p + 1) d = name @ 0 # r"
    using arg_cong [OF Cons.prems(2), of "drop 1"] by simp
  moreover have "wr f i c = Some (f[i := c])" using Cons.prems(3,4) by (simp add: wr_def)
  moreover have "take (i + 1) (f[i := c]) = take i f @ [c]"
    using Cons.prems(3,4) by (simp add: take_Suc_conv_app_nth)
  ultimately show ?case
    using Cons.IH [of "p + 1" "i + 1" "f[i := c]"] Cons.prems by (subst copy_name.simps) simp
qed

lemma copy_size_text:
  assumes "\<forall>c \<in> set ds. c \<noteq> 0x20" and "drop p d = ds @ 0x20 # r" and "i + length ds \<le> FILE_SIZE_LENGTH"
    and "length f = FILE_SIZE_LENGTH"
  shows "copy_size d p i f = Some (i + length ds, take i f @ ds @ drop (i + length ds) f)"
  using assms
proof (induction ds arbitrary: p i f)
  case Nil
  then have "rd d p = Some 0x20" by (metis append_Nil drop_eq_Nil list.distinct(1) not_le nth_via_drop rd_Some_iff)
  then show ?case by (subst copy_size.simps) simp
next
  case (Cons c ds)
  have "rd d p = Some c" using Cons.prems(2)
    by (metis append_Cons drop_eq_Nil list.distinct(1) not_le nth_via_drop rd_Some_iff)
  moreover have "drop (p + 1) d = ds @ 0x20 # r"
    using arg_cong [OF Cons.prems(2), of "drop 1"] by simp
  moreover have "wr f i c = Some (f[i := c])" using Cons.prems(3,4) by (simp add: wr_def)
  moreover have "take (i + 1) (f[i := c]) = take i f @ [c]"
    using Cons.prems(3,4) by (simp add: take_Suc_conv_app_nth)
  ultimately show ?case
    using Cons.IH [of "p + 1" "i + 1" "f[i := c]"] Cons.prems by (subst copy_size.simps) simp
qed

lemma wr_end: "n < length f \<Longrightarrow> wr (xs @ drop n f) (length xs) c = Some (xs @ c # drop (n + 1) f)"
  by (simp add: wr_def list_update_append flip: Cons_nth_drop_Suc)

lemma parse_name_payload:
  assumes "\<forall>c \<in> set name. c \<noteq> 0" and "length name < FILE_NAME_LENGTH"
    and "drop PACKET_HEADER (packet_data v) = name @ 0 # decimal sz @ 0x20 # r"
    and "length (FileName v) = FILE_NAME_LENGTH" and "length (file_size v) = FILE_SIZE_LENGTH"
  shows "\<exists>fs. length fs = FILE_SIZE_LENGTH \<and> parse_file_packet v =
    Some (v\<lparr>FileName := name @ 0 # drop (length name + 1) (FileName v), file_size := fs, ym_size := sz\<rparr>)"
proof -
  have a: "copy_name (packet_data v) PACKET_HEADER 0 (FileName v) =
      Some (PACKET_HEADER + length name, length name, name @ drop (length name) (FileName v))"
    using copy_name_text [OF assms(1,3), of 0 "FileName v"] assms(2,4) by simp
  have b: "wr (name @ drop (length name) (FileName v)) (length name) 0 =
      Some (name @ 0 # drop (length name + 1) (FileName v))"
    using assms(2,4) by (intro wr_end) simp
  have dg: "\<forall>c \<in> set (decimal sz). c \<noteq> 0x20" using decimal_digits(1) [of sz] by (auto simp: IS_09_def)
  have dr: "drop (PACKET_HEADER + length name + 1) (packet_data v) = decimal sz @ 0x20 # r"
    using arg_cong [OF assms(3), of "drop (length name + 1)"] by (simp add: add.commute)
  define fs where "fs = decimal sz @ drop (length (decimal sz)) (file_size v)"
  have c: "copy_size (packet_data v) (PACKET_HEADER + length name + 1) 0 (file_size v) = Some (length (decimal sz), fs)"
    using copy_size_text [OF dg dr, of 0 "file_size v"] decimal_digits(3) [of sz] assms(5) by (simp add: fs_def)
  define gs where "gs = decimal sz @ 0 # drop (length (decimal sz) + 1) (file_size v)"
  have d: "wr fs (length (decimal sz)) 0 = Some gs"
    unfolding fs_def gs_def using decimal_digits(3) [of sz] assms(5) by (intro wr_end) simp
  have e: "Str2Int gs = Some (1, Some sz)"
    unfolding gs_def using Str2Int_digits [OF decimal_digits] by (simp add: decimal_value)
  have "length gs = FILE_SIZE_LENGTH" using decimal_digits(3) [of sz] assms(5) by (simp add: gs_def)
  then show ?thesis using a b c d e by (auto simp: parse_file_packet_def)
qed

section \<open>Receiving such a session\<close>

text \<open>The flash that a file is received into: what initialising, erasing and writing promise on the
  addresses below \<open>limit\<close>.\<close>

locale ym_store =
  fixes fl :: "'s ym_flash" and inv :: "'s \<Rightarrow> bool" and mem :: "'s \<Rightarrow> cells" and limit :: nat
  assumes limit: "limit \<le> 2 ^ 31"
    and init_ok: "inv s \<Longrightarrow> \<exists>err s'. yf_init fl s = Some (err, s') \<and> inv s' \<and> mem s' = mem s"
    and erase_ok: "inv s \<Longrightarrow> unat a \<le> unat b \<Longrightarrow> unat b < limit \<Longrightarrow>
      \<exists>err s'. yf_erase fl a b s = Some (err, s') \<and> inv s' \<and>
        blank (mem s') (unat a) (unat b + 1 - unat a) \<and>
        (\<forall>x. x < unat a div 4096 * 4096 \<or> unat b div 4096 * 4096 + 4096 \<le> x \<longrightarrow> mem s' x = mem s x)"
    and write_ok: "inv s \<Longrightarrow> 0 < unat n \<Longrightarrow> unat n < 65536 \<Longrightarrow> unat n \<le> length bs \<Longrightarrow>
      unat a + unat n \<le> limit \<Longrightarrow>
      \<exists>s'. yf_write fl a bs n s = Some (kNoErr, a + n, s') \<and> inv s' \<and>
        mem s' = program (mem s) (unat a) (take (unat n) bs)"
begin

definition vars_ok :: "ym_vars \<Rightarrow> bool" where
  "vars_ok v \<longleftrightarrow> length (packet_data v) = PACKET_1K_SIZE + PACKET_OVERHEAD \<and>
     length (ym_buf v) = PACKET_1K_SIZE \<and> length (FileName v) = FILE_NAME_LENGTH \<and>
     length (file_size v) = FILE_SIZE_LENGTH"

lemma frame_fields:
  "ym_frame q p c1 c2 ! PACKET_SEQNO_INDEX = q"
  "length (ym_frame q p c1 c2) = length p + PACKET_OVERHEAD"
  "drop PACKET_HEADER (ym_frame q p c1 c2 @ r) = p @ [c1, c2] @ r"
  "p \<noteq> [] \<Longrightarrow> (ym_frame q p c1 c2 @ r) ! PACKET_HEADER = hd p"
  "(ym_frame q p c1 c2 @ r) ! PACKET_SEQNO_INDEX = q"
  by (simp_all add: ym_frame_def numeral_3_eq_3 hd_conv_nth nth_append)

lemma round_data:
  assumes v: "vars_ok v" and i: "inv d" and p: "payload_size p"
    and k: "packets_received v \<noteq> 0" and r: "unat (flashdestination v) + length p \<le> limit"
  shows "\<exists>v' d'. receive_round fl m v \<lparr>ym_rx = map Some (ym_frame (of_nat (packets_received v)) p c1 c2) @ rest,
      ym_tx = t, ym_dev = d\<rparr> = Returned (Go_on, v', \<lparr>ym_rx = rest, ym_tx = t @ [ACK], ym_dev = d'\<rparr>) \<and>
    vars_ok v' \<and> inv d' \<and> mem d' = program (mem d) (unat (flashdestination v)) p \<and>
    packets_received v' = packets_received v + 1 \<and> ym_size v' = ym_size v \<and>
    flashdestination v' = flashdestination v + of_nat (length p) \<and> FileName v' = FileName v"
proof -
  define q where "q = (of_nat (packets_received v) :: u8)"
  define f where "f = ym_frame q p c1 c2 @ drop (length p + PACKET_OVERHEAD) (packet_data v)"
  have lp: "0 < length p" "length p \<le> 1024" using p by (auto simp: payload_size_def)
  have rp: "Receive_Packet (packet_data v) \<lparr>ym_rx = map Some (ym_frame q p c1 c2) @ rest, ym_tx = t, ym_dev = d\<rparr> =
    Returned (0, int (length p), f, \<lparr>ym_rx = rest, ym_tx = t, ym_dev = d\<rparr>)"
    unfolding f_def using v by (intro Receive_Packet_frame [OF p]) (simp add: vars_ok_def)
  have lf: "length f = PACKET_1K_SIZE + PACKET_OVERHEAD"
    using v lp by (simp add: f_def vars_ok_def frame_fields(2))
  have sl: "slice f PACKET_HEADER (length p) = p"
    unfolding slice_def f_def frame_fields(3) by simp
  define b where "b = p @ drop (length p) (ym_buf v)"
  have bl: "blit (ym_buf v) 0 (slice f PACKET_HEADER (length p)) = Some b"
    using v lp by (simp add: sl blit_def b_def vars_ok_def)
  have un: "unat (of_nat (length p) :: u32) = length p" using lp by (simp add: unat_of_nat)
  have tb: "take (length p) b = p" "length b = 1024" using v lp by (simp_all add: b_def vars_ok_def)
  obtain d' where w: "yf_write fl (flashdestination v) b (of_nat (length p)) d =
      Some (kNoErr, flashdestination v + of_nat (length p), d')" "inv d'"
    "mem d' = program (mem d) (unat (flashdestination v)) p"
    using write_ok [OF i, of "of_nat (length p)" b "flashdestination v"] lp r tb by (auto simp: un)
  have q1: "f ! PACKET_SEQNO_INDEX = q" unfolding f_def by (rule frame_fields(5))
  have q2: "unat (f ! PACKET_SEQNO_INDEX) = packets_received v mod 256"
    unfolding q1 by (simp add: q_def unat_of_nat)
  show ?thesis
    using rp k v lp bl w lf tb q2
    by (auto simp: receive_round_def data_packet_def Let_def vars_ok_def Send_Byte_def simp flip: q_def)
qed

lemma round_name:
  assumes v: "vars_ok v" and i: "inv d" and k: "packets_received v = 0"
    and p: "payload_size (name_payload name sz e)"
    and nm: "name \<noteq> []" "\<forall>c \<in> set name. c \<noteq> 0" "length name < FILE_NAME_LENGTH"
    and m: "sint sz \<le> sint m + 1" "0 < unat m" "unat (flashdestination v) + unat m \<le> limit"
  shows "\<exists>v' d'. receive_round fl m v \<lparr>ym_rx = map Some (ym_frame 0 (name_payload name sz e) c1 c2) @ rest,
      ym_tx = t, ym_dev = d\<rparr> = Returned (Go_on, v', \<lparr>ym_rx = rest, ym_tx = t @ [ACK, CRC16], ym_dev = d'\<rparr>) \<and>
    vars_ok v' \<and> inv d' \<and> blank (mem d') (unat (flashdestination v)) (unat m) \<and>
    (\<forall>x. x < unat (flashdestination v) div 4096 * 4096 \<or>
       (unat (flashdestination v) + unat m - 1) div 4096 * 4096 + 4096 \<le> x \<longrightarrow> mem d' x = mem d x) \<and>
    packets_received v' = 1 \<and> ym_size v' = sz \<and>
    flashdestination v' = flashdestination v \<and> take (length name + 1) (FileName v') = name @ [0]"
proof -
  define p where "p = name_payload name sz e"
  define f where "f = ym_frame 0 p c1 c2 @ drop (length p + PACKET_OVERHEAD) (packet_data v)"
  have lp: "0 < length p" "length p \<le> 1024" using p by (auto simp: payload_size_def p_def)
  have rp: "Receive_Packet (packet_data v) \<lparr>ym_rx = map Some (ym_frame 0 p c1 c2) @ rest, ym_tx = t, ym_dev = d\<rparr> =
    Returned (0, int (length p), f, \<lparr>ym_rx = rest, ym_tx = t, ym_dev = d\<rparr>)"
    unfolding f_def using v p by (intro Receive_Packet_frame) (simp_all add: vars_ok_def p_def)
  have lf: "length f = PACKET_1K_SIZE + PACKET_OVERHEAD"
    using v lp by (simp add: f_def vars_ok_def frame_fields(2))
  have hd: "f ! PACKET_HEADER \<noteq> 0" "f ! PACKET_SEQNO_INDEX = 0"
    using nm lp unfolding f_def frame_fields(5) by (subst frame_fields(4)) (auto simp: p_def name_payload_def)
  have dr: "drop PACKET_HEADER f = name @ 0 # decimal sz @ 0x20 # (e @ [c1, c2] @ drop (length p + PACKET_OVERHEAD) (packet_data v))"
    unfolding f_def frame_fields(3) by (simp add: p_def name_payload_def)
  define v1 where "v1 = v\<lparr>packet_data := f, rx_errors := 0\<rparr>"
  obtain fs where pf: "length fs = FILE_SIZE_LENGTH"
    "parse_file_packet v1 = Some (v1\<lparr>FileName := name @ 0 # drop (length name + 1) (FileName v1), file_size := fs, ym_size := sz\<rparr>)"
    using parse_name_payload [OF nm(2,3), of v1] dr v by (auto simp: v1_def vars_ok_def)
  define D where "D = unat (flashdestination v)"
  have e1: "unat (flashdestination v + m - 1) = D + unat m - 1"
  proof -
    have a: "unat (flashdestination v + m) = D + unat m"
      using m(3) limit by (simp add: unat_word_ariths D_def)
    then have "1 \<le> flashdestination v + m" using m(2) by (simp add: word_le_nat_alt)
    then show ?thesis by (simp add: unat_sub a)
  qed
  have pre: "unat (flashdestination v) \<le> unat (flashdestination v + m - 1)"
    "unat (flashdestination v + m - 1) < limit"
    using m(2,3) by (simp_all add: e1 D_def)
  obtain err d' where er: "yf_erase fl (flashdestination v) (flashdestination v + m - 1) d = Some (err, d')" "inv d'"
    "blank (mem d') D (unat m)"
    "\<forall>x. x < D div 4096 * 4096 \<or> (D + unat m - 1) div 4096 * 4096 + 4096 \<le> x \<longrightarrow> mem d' x = mem d x"
    using erase_ok [OF i pre] m(2) by (auto simp: e1 simp flip: D_def)
  have nm0: "\<not> sint sz > sint m + 1" using m(1) by simp
  have fp: "file_packet fl m v1 \<lparr>ym_rx = rest, ym_tx = t, ym_dev = d\<rparr> = Returned (Go_on,
      v1\<lparr>FileName := name @ 0 # drop (length name + 1) (FileName v1), file_size := fs, ym_size := sz,
         packets_received := 1, session_begin := True\<rparr>, \<lparr>ym_rx = rest, ym_tx = t @ [ACK, CRC16], ym_dev = d'\<rparr>)"
    using hd(1) pf(2) er(1) nm0 k by (simp add: file_packet_def v1_def Send_Byte_def)
  have "receive_round fl m v \<lparr>ym_rx = map Some (ym_frame 0 p c1 c2) @ rest, ym_tx = t, ym_dev = d\<rparr> =
      file_packet fl m v1 \<lparr>ym_rx = rest, ym_tx = t, ym_dev = d\<rparr>"
    using rp k lp hd(2) by (simp add: receive_round_def v1_def Let_def)
  moreover have "length (name @ 0 # drop (length name + 1) (FileName v1)) = FILE_NAME_LENGTH"
    using v nm(3) by (simp add: v1_def vars_ok_def)
  ultimately show ?thesis
    using v lf pf(1) er(2-4) unfolding fp by (auto simp: v1_def vars_ok_def p_def D_def)
qed

end

context ym_store begin

lemma loop_end:
  assumes v: "vars_ok v" and p: "payload_size p" "hd p = 0"
  shows "\<exists>v'. receive_loop fl m v \<lparr>ym_rx = Some EOT # map Some (ym_frame 0 p c1 c2) @ rest, ym_tx = t, ym_dev = d\<rparr> =
      Returned (sint (ym_size v), v', \<lparr>ym_rx = rest, ym_tx = t @ [ACK, ACK], ym_dev = d\<rparr>) \<and>
    FileName v' = FileName v"
proof -
  define v1 where "v1 = v\<lparr>rx_errors := 0, packets_received := 0\<rparr>"
  define f where "f = ym_frame 0 p c1 c2 @ drop (length p + PACKET_OVERHEAD) (packet_data v)"
  have a: "receive_round fl m v \<lparr>ym_rx = Some EOT # map Some (ym_frame 0 p c1 c2) @ rest, ym_tx = t, ym_dev = d\<rparr> =
      Returned (End_file, v\<lparr>rx_errors := 0\<rparr>, \<lparr>ym_rx = map Some (ym_frame 0 p c1 c2) @ rest, ym_tx = t @ [ACK], ym_dev = d\<rparr>)"
    by (simp add: receive_round_def Receive_Packet_def Send_Byte_def)
  have rp: "Receive_Packet (packet_data v1) \<lparr>ym_rx = map Some (ym_frame 0 p c1 c2) @ rest, ym_tx = t @ [ACK], ym_dev = d\<rparr> =
    Returned (0, int (length p), f, \<lparr>ym_rx = rest, ym_tx = t @ [ACK], ym_dev = d\<rparr>)"
    unfolding f_def v1_def using v Receive_Packet_frame [OF p(1), of "packet_data v"] by (simp add: vars_ok_def)
  have l: "0 < length p" "p \<noteq> []" using p(1) by (auto simp: payload_size_def)
  have h: "f ! PACKET_HEADER = 0" "f ! PACKET_SEQNO_INDEX = 0"
    unfolding f_def frame_fields(5) frame_fields(4) [OF l(2)] using p(2) by simp_all
  have b: "receive_round fl m v1 \<lparr>ym_rx = map Some (ym_frame 0 p c1 c2) @ rest, ym_tx = t @ [ACK], ym_dev = d\<rparr> =
      Returned (End_session, v1\<lparr>packet_data := f\<rparr>, \<lparr>ym_rx = rest, ym_tx = t @ [ACK, ACK], ym_dev = d\<rparr>)"
    using rp l h by (simp add: receive_round_def file_packet_def Send_Byte_def v1_def Let_def)
  have "receive_loop fl m v1 \<lparr>ym_rx = map Some (ym_frame 0 p c1 c2) @ rest, ym_tx = t @ [ACK], ym_dev = d\<rparr> =
      Returned (sint (ym_size v), v1\<lparr>packet_data := f\<rparr>, \<lparr>ym_rx = rest, ym_tx = t @ [ACK, ACK], ym_dev = d\<rparr>)"
    by (subst receive_loop.simps) (simp add: b, simp add: v1_def)
  moreover have "receive_loop fl m v \<lparr>ym_rx = Some EOT # map Some (ym_frame 0 p c1 c2) @ rest, ym_tx = t, ym_dev = d\<rparr> =
      receive_loop fl m v1 \<lparr>ym_rx = map Some (ym_frame 0 p c1 c2) @ rest, ym_tx = t @ [ACK], ym_dev = d\<rparr>"
    by (subst receive_loop.simps) (simp add: a v1_def)
  ultimately show ?thesis by (auto simp: v1_def)
qed

lemma loop_blocks:
  assumes "vars_ok v" and "inv d" and "packets_received v \<noteq> 0" and "\<forall>b \<in> set bs. payload_size (fst b)"
    and "unat (flashdestination v) + length (block_bytes bs) \<le> limit"
    and p: "payload_size p" "hd p = 0"
  shows "\<exists>v' d'. receive_loop fl m v \<lparr>ym_rx = map Some (block_frames (packets_received v) bs @ [EOT] @ ym_frame 0 p c1 c2) @ rest,
      ym_tx = t, ym_dev = d\<rparr> =
      Returned (sint (ym_size v), v', \<lparr>ym_rx = rest, ym_tx = t @ replicate (length bs) ACK @ [ACK, ACK], ym_dev = d'\<rparr>) \<and>
    inv d' \<and> mem d' = program (mem d) (unat (flashdestination v)) (block_bytes bs) \<and> FileName v' = FileName v"
  using assms(1-5)
proof (induction bs arbitrary: v d t)
  case Nil
  then show ?case using loop_end [OF Nil.prems(1) p, of m c1 c2 rest t d] by (auto simp: block_bytes_def program_Nil)
next
  case (Cons b bs)
  obtain q e1 e2 where b: "b = (q, e1, e2)" by (cases b)
  have q: "payload_size q" using Cons.prems(4) b by simp
  have r: "unat (flashdestination v) + length q \<le> limit"
    using Cons.prems(5) by (simp add: b block_bytes_def)
  define rest' where "rest' = map Some (block_frames (packets_received v + 1) bs @ [EOT] @ ym_frame 0 p c1 c2) @ rest"
  obtain v1 d1 where s: "receive_round fl m v \<lparr>ym_rx = map Some (ym_frame (of_nat (packets_received v)) q e1 e2) @ rest',
      ym_tx = t, ym_dev = d\<rparr> = Returned (Go_on, v1, \<lparr>ym_rx = rest', ym_tx = t @ [ACK], ym_dev = d1\<rparr>)"
    "vars_ok v1" "inv d1" "mem d1 = program (mem d) (unat (flashdestination v)) q"
    "packets_received v1 = packets_received v + 1" "ym_size v1 = ym_size v"
    "flashdestination v1 = flashdestination v + of_nat (length q)" "FileName v1 = FileName v"
    using round_data [OF Cons.prems(1,2) q Cons.prems(3) r] by blast
  have a: "unat (flashdestination v1) = unat (flashdestination v) + length q"
    using r limit by (simp add: s(7) unat_word_ariths unat_of_nat)
  obtain v2 d2 where i: "receive_loop fl m v1 \<lparr>ym_rx = rest', ym_tx = t @ [ACK], ym_dev = d1\<rparr> =
      Returned (sint (ym_size v1), v2, \<lparr>ym_rx = rest, ym_tx = (t @ [ACK]) @ replicate (length bs) ACK @ [ACK, ACK], ym_dev = d2\<rparr>)"
    "inv d2" "mem d2 = program (mem d1) (unat (flashdestination v1)) (block_bytes bs)" "FileName v2 = FileName v1"
    using Cons.IH [OF s(2,3), of "t @ [ACK]"] Cons.prems(4,5) s(5) a
    unfolding rest'_def by (auto simp: b block_bytes_def)
  have e: "map Some (block_frames (packets_received v) (b # bs) @ [EOT] @ ym_frame 0 p c1 c2) @ rest =
      map Some (ym_frame (of_nat (packets_received v)) q e1 e2) @ rest'"
    by (simp add: b rest'_def)
  have "receive_loop fl m v \<lparr>ym_rx = map Some (ym_frame (of_nat (packets_received v)) q e1 e2) @ rest',
      ym_tx = t, ym_dev = d\<rparr> = receive_loop fl m v1 \<lparr>ym_rx = rest', ym_tx = t @ [ACK], ym_dev = d1\<rparr>"
    by (subst receive_loop.simps) (simp add: s(1))
  then show ?case
    unfolding e using i s(4,6,8) a by (simp add: b block_bytes_def program_append)
qed

lemma session_received:
  assumes i: "inv d" and b: "length buf = PACKET_1K_SIZE" "length packet0 = PACKET_1K_SIZE + PACKET_OVERHEAD"
      "length fsize0 = FILE_SIZE_LENGTH" "length fname = FILE_NAME_LENGTH"
    and p: "payload_size (name_payload name sz e)"
    and nm: "name \<noteq> []" "\<forall>c \<in> set name. c \<noteq> 0" "length name < FILE_NAME_LENGTH"
    and m: "sint sz \<le> sint m + 1" "0 < unat m" "unat dest + unat m \<le> limit"
    and bs: "\<forall>b \<in> set bs. payload_size (fst b)" "length (block_bytes bs) \<le> unat m"
    and l: "payload_size last_payload" "hd last_payload = 0"
  shows "\<exists>v' d'. Ymodem_Receive fl buf dest m packet0 fsize0 fname
      \<lparr>ym_rx = map Some (ym_session (name_payload name sz e) c bs last_payload c') @ rest, ym_tx = t, ym_dev = d\<rparr> =
      Returned (sint sz, v', \<lparr>ym_rx = rest, ym_tx = t @ [ACK, CRC16] @ replicate (length bs) ACK @ [ACK, ACK], ym_dev = d'\<rparr>) \<and>
    take (length name + 1) (FileName v') = name @ [0] \<and> inv d' \<and>
    mread (mem d') (unat dest) (length (block_bytes bs)) = block_bytes bs \<and>
    (\<forall>x. x < unat dest div 4096 * 4096 \<or> (unat dest + unat m - 1) div 4096 * 4096 + 4096 \<le> x \<longrightarrow> mem d' x = mem d x)"
proof -
  define v where "v = \<lparr>packet_data = packet0, file_size = fsize0, FileName = fname, ym_buf = buf, ym_size = 0,
    flashdestination = dest, session_begin = False, rx_errors = 0, packets_received = 0\<rparr>"
  have v: "vars_ok v" "packets_received v = 0" "flashdestination v = dest"
    using b by (simp_all add: v_def vars_ok_def)
  obtain err d0 where d0: "yf_init fl d = Some (err, d0)" "inv d0" "mem d0 = mem d" using init_ok [OF i] by blast
  define rest' where "rest' = map Some (block_frames 1 bs @ [EOT] @ ym_frame 0 last_payload (fst c') (snd c')) @ rest"
  obtain v1 d1 where s: "receive_round fl m v \<lparr>ym_rx = map Some (ym_frame 0 (name_payload name sz e) (fst c) (snd c)) @ rest',
      ym_tx = t, ym_dev = d0\<rparr> = Returned (Go_on, v1, \<lparr>ym_rx = rest', ym_tx = t @ [ACK, CRC16], ym_dev = d1\<rparr>)"
    "vars_ok v1" "inv d1" "blank (mem d1) (unat dest) (unat m)"
    "\<forall>x. x < unat dest div 4096 * 4096 \<or> (unat dest + unat m - 1) div 4096 * 4096 + 4096 \<le> x \<longrightarrow> mem d1 x = mem d0 x"
    "packets_received v1 = 1" "ym_size v1 = sz" "flashdestination v1 = dest" "take (length name + 1) (FileName v1) = name @ [0]"
    using round_name [OF v(1) d0(2) v(2) p nm m(1,2)] m(3) unfolding v(3) by blast
  obtain v2 d2 where l: "receive_loop fl m v1 \<lparr>ym_rx = rest', ym_tx = t @ [ACK, CRC16], ym_dev = d1\<rparr> =
      Returned (sint (ym_size v1), v2, \<lparr>ym_rx = rest, ym_tx = (t @ [ACK, CRC16]) @ replicate (length bs) ACK @ [ACK, ACK], ym_dev = d2\<rparr>)"
    "inv d2" "mem d2 = program (mem d1) (unat dest) (block_bytes bs)" "FileName v2 = FileName v1"
    using loop_blocks [OF s(2,3) _ bs(1) _ l, of m "fst c'" "snd c'" rest "t @ [ACK, CRC16]"] s(6,8) m(3) bs(2)
    unfolding rest'_def by auto
  have r: "Ymodem_Receive fl buf dest m packet0 fsize0 fname
      \<lparr>ym_rx = map Some (ym_session (name_payload name sz e) c bs last_payload c') @ rest, ym_tx = t, ym_dev = d\<rparr> =
      receive_loop fl m v \<lparr>ym_rx = map Some (ym_frame 0 (name_payload name sz e) (fst c) (snd c)) @ rest', ym_tx = t, ym_dev = d0\<rparr>"
    by (simp add: Ymodem_Receive_def d0(1) v_def ym_session_def rest'_def)
  have bk: "blank (mem d1) (unat dest) (length (block_bytes bs))"
    using s(4) bs(2) by (auto simp: blank_def)
  have lo: "unat dest div 4096 * 4096 \<le> unat dest" by simp
  have out: "mem d2 x = mem d x"
    if "x < unat dest div 4096 * 4096 \<or> (unat dest + unat m - 1) div 4096 * 4096 + 4096 \<le> x" for x
  proof -
    define z where "z = unat dest + unat m - 1"
    have z: "z < z div 4096 * 4096 + 4096" using mod_less_divisor [of 4096 z] div_mult_mod_eq [of z 4096] by linarith
    have "x < unat dest \<or> unat dest + length (block_bytes bs) \<le> x"
      using that lo z m(2) bs(2) unfolding z_def [symmetric] by (auto simp: z_def)
    then have "mem d2 x = mem d1 x" by (simp add: l(3) program_outside)
    moreover have "mem d1 x = mem d0 x" using s(5) that by blast
    ultimately show ?thesis by (simp add: d0(3))
  qed
  show ?thesis
    unfolding r using l s(1,7,9) out mread_program_blank [OF bk]
    by (subst receive_loop.simps) auto
qed

end

section \<open>The serial flash as such a store\<close>

definition platform_ym_flash ::
  "('f, 'c) mico_env \<Rightarrow> mico_flash_t \<Rightarrow> ('f, 'c) flash_state ym_flash" where
  "platform_ym_flash env flash =
     \<lparr>yf_init = platform_flash_init (flash_env.truncate env) (platform_flash_peripherals flash),
      yf_erase = platform_flash_erase (flash_env.truncate env) (platform_flash_peripherals flash),
      yf_write = platform_flash_write (flash_env.truncate env) (platform_flash_peripherals flash),
      yf_read = platform_flash_read (flash_env.truncate env) (platform_flash_peripherals flash)\<rparr>"

text \<open>A chip that also answers the identification, on a bus whose initialisation leaves it alone.\<close>

locale identified_spi = mico_spi env cells_of wel prot pending
  for env :: "('f, 'c) mico_env" and cells_of :: "'c \<Rightarrow> cells" and wel :: "'c \<Rightarrow> bool"
    and prot :: "'c \<Rightarrow> u8" and pending :: "'c \<Rightarrow> nat" +
  assumes bus: "env_spi_init env c = (kNoErr, c)"
    and rdid: "pending c = 0 \<Longrightarrow> env_xfer env SFLASH_READ_JEDEC_ID [] [] 3 c = (err, r, c') \<Longrightarrow>
      err = kNoErr \<and> cells_of c' = cells_of c \<and> prot c' = prot c \<and> pending c' = 0"
begin

lemma dev_init:
  assumes d: "dev_ready d"
  shows "\<exists>d'. platform_flash_init (flash_env.truncate env) (platform_flash_peripherals MICO_FLASH_SPI) d =
      Some (kNoErr, d') \<and> dev_ready d' \<and> cells_of (chip d') = cells_of (chip d)"
proof -
  have c: "ready (chip d)" using d by (simp add: dev_ready_def)
  obtain e r c1 where x: "env_xfer env SFLASH_READ_JEDEC_ID [] [] 3 (chip d) = (e, r, c1)" by (rule prod_cases3)
  have s: "e = kNoErr" "cells_of c1 = cells_of (chip d)" "ready c1"
    using rdid [OF _ x] c by (auto simp: ready_def)
  have i: "sflash_read_ID (env_xfer env) (chip d) = Some (0, r, c1)"
    using x s(1) by (simp add: sflash_read_ID_def generic_sflash_command_def
        sflash_platform_send_recv_def is_write_command_def)
  define h where "h = \<lparr>device_id = push_bit 16 (ucast (r 0)) + push_bit 8 (ucast (r 1)) + push_bit 0 (ucast (r 2)),
    write_allowed = SFLASH_WRITE_ALLOWED\<rparr>"
  obtain c2 where w: "sflash_write_enable (env_xfer env) h c1 = Some (0, c2)" "cells_of c2 = cells_of c1" "ready c2"
    using write_enable_done [OF s(3), of h] by (auto simp: h_def)
  have "init_sflash (env_spi_init env) (env_xfer env) SFLASH_WRITE_ALLOWED (sflash_handle d) (chip d) =
      Some (0, h, c2)"
    using bus w(1) by (simp add: init_sflash_def i h_def Let_def)
  then show ?thesis
    using w s by (simp add: platform_flash_init_def platform_flash_peripherals_def flash_env.truncate_def
        dev_ready_def h_def)
qed

end

sublocale identified_spi \<subseteq> serial: ym_store "platform_ym_flash env MICO_FLASH_SPI" dev_ready
  "\<lambda>d. cells_of (chip d)" "0x200000"
proof
  show "(0x200000 :: nat) \<le> 2 ^ 31" by simp
next
  fix s :: "('f, 'c) flash_state"
  assume "dev_ready s"
  from dev_init [OF this] show "\<exists>err s'. yf_init (platform_ym_flash env MICO_FLASH_SPI) s = Some (err, s') \<and>
      dev_ready s' \<and> cells_of (chip s') = cells_of (chip s)"
    by (auto simp: platform_ym_flash_def)
next
  fix s :: "('f, 'c) flash_state" and a b :: u32
  assume r: "dev_ready s" "unat a \<le> unat b" "unat b < 0x200000"
  obtain d' where d: "platform_flash_erase (flash_env.truncate env) (platform_flash_peripherals MICO_FLASH_SPI) a b s =
      Some (kNoErr, d')" "dev_ready d'" "cells_of (chip d') = erase (cells_of (chip s))
        (unat a div 4096 * 4096) (unat b div 4096 * 4096 + 4096 - unat a div 4096 * 4096)"
    using dev_erase [OF r] by blast
  have le: "unat a div 4096 * 4096 \<le> unat a" "unat b < unat b div 4096 * 4096 + 4096"
    using mod_less_divisor [of 4096 "unat b"] div_mult_mod_eq [of "unat b" 4096] by auto
  have "blank (cells_of (chip d')) (unat a) (unat b + 1 - unat a)"
    unfolding d(3) using le r(2) by (intro blank_erase) auto
  moreover have "\<forall>x. x < unat a div 4096 * 4096 \<or> unat b div 4096 * 4096 + 4096 \<le> x \<longrightarrow>
      cells_of (chip d') x = cells_of (chip s) x"
    unfolding d(3) using le r(2) by (auto intro!: erase_outside)
  ultimately show "\<exists>err s'. yf_erase (platform_ym_flash env MICO_FLASH_SPI) a b s = Some (err, s') \<and> dev_ready s' \<and>
      blank (cells_of (chip s')) (unat a) (unat b + 1 - unat a) \<and>
      (\<forall>x. x < unat a div 4096 * 4096 \<or> unat b div 4096 * 4096 + 4096 \<le> x \<longrightarrow>
        cells_of (chip s') x = cells_of (chip s) x)"
    using d(1,2) by (auto simp: platform_ym_flash_def)
next
  fix s :: "('f, 'c) flash_state" and n a :: u32 and bs :: bytes
  assume r: "dev_ready s" "0 < unat n" "unat n < 65536" "unat n \<le> length bs" "unat a + unat n \<le> 0x200000"
  from dev_write [OF r] show "\<exists>s'. yf_write (platform_ym_flash env MICO_FLASH_SPI) a bs n s =
      Some (kNoErr, a + n, s') \<and> dev_ready s' \<and>
      cells_of (chip s') = program (cells_of (chip s)) (unat a) (take (unat n) bs)"
    by (auto simp: platform_ym_flash_def)
qed

interpretation serial_board: identified_spi boot_env mx_cells mx_wel mx_prot mx_busy
proof -
  have "mico_spi boot_env mx_cells mx_wel mx_prot mx_busy"
    using boot_board.boot_spi_axioms by (simp add: boot_spi_def)
  then show "identified_spi boot_env mx_cells mx_wel mx_prot mx_busy"
    by (auto simp: identified_spi_def identified_spi_axioms_def boot_env_def board_env_def mx25_xfer_def)
qed

section \<open>Transmitting to a receiver that acknowledges\<close>

text \<open>The blocks of a file of \<open>n\<close> bytes at the address \<open>a\<close>, each with its CRC.\<close>

function ym_blocks :: "cells \<Rightarrow> nat \<Rightarrow> nat \<Rightarrow> (bytes \<times> u8 \<times> u8) list" where
  "ym_blocks m a n =
     (if n = 0 then []
      else let k = (if n \<ge> PACKET_1K_SIZE then PACKET_1K_SIZE else PACKET_SIZE);
               p = mread m a (min k n) @ replicate (k - n) 0x1A in
        (p, ucast (drop_bit 8 (Cal_CRC16 p)), ucast (Cal_CRC16 p AND 0xFF)) # ym_blocks m (a + k) (n - k))"
  by pat_completeness auto
termination
  by (relation "measure (\<lambda>(m, a, n). n)") auto

declare ym_blocks.simps [simp del]

lemma ym_blocks_0 [simp]: "ym_blocks m a 0 = []"
  by (simp add: ym_blocks.simps)

lemma ym_blocks_payload: "\<forall>b \<in> set (ym_blocks m a n). payload_size (fst b)"
proof (induction m a n rule: ym_blocks.induct)
  case (1 m a n)
  then show ?case by (subst ym_blocks.simps) (auto simp: Let_def payload_size_def)
qed

text \<open>The blocks carry the file; the last one is padded.\<close>

lemma ym_blocks_bytes: "take n (block_bytes (ym_blocks m a n)) = mread m a n"
proof (induction m a n rule: ym_blocks.induct)
  case (1 m a n)
  show ?case
  proof (cases "n = 0")
    case False
    define k where "k = (if n \<ge> PACKET_1K_SIZE then PACKET_1K_SIZE else PACKET_SIZE)"
    have ih: "take (n - k) (block_bytes (ym_blocks m (a + k) (n - k))) = mread m (a + k) (n - k)"
      using "1.IH" [OF False k_def refl] .
    have e: "block_bytes (ym_blocks m a n) =
        (mread m a (min k n) @ replicate (k - n) 0x1A) @ block_bytes (ym_blocks m (a + k) (n - k))"
      using False by (subst ym_blocks.simps) (simp add: Let_def block_bytes_def k_def)
    show ?thesis
    proof (cases "n \<le> k")
      case True
      then show ?thesis by (simp add: e)
    next
      case False
      then have "mread m a n = mread m a k @ mread m (a + k) (n - k)"
        using mread_add [of m a k "n - k"] by simp
      then show ?thesis using False ih by (simp add: e)
    qed
  qed (simp add: ym_blocks.simps)
qed

lemma send_packet_frame:
  assumes "take (length p + PACKET_HEADER) data = (if length p = PACKET_1K_SIZE then STX else SOH) # q # (q XOR 0xff) # p"
  shows "send_packet data (length p) s = s\<lparr>ym_tx := ym_tx s @
    ym_frame q p (ucast (drop_bit 8 (Cal_CRC16 p))) (ucast (Cal_CRC16 p AND 0xFF))\<rparr>"
proof -
  have "slice data PACKET_HEADER (length p) = drop PACKET_HEADER (take (length p + PACKET_HEADER) data)"
    by (simp add: slice_def drop_take)
  then have "slice data PACKET_HEADER (length p) = p" unfolding assms by (simp add: numeral_3_eq_3)
  then show ?thesis
    unfolding send_packet_def Ymodem_SendPacket_def fold_Send_Byte assms
    by (simp add: Send_Byte_def ym_frame_def Let_def)
qed

lemma send_acked:
  assumes "send_frame f \<lparr>ym_rx = Some ACK # rest, ym_tx = t, ym_dev = d\<rparr> =
      \<lparr>ym_rx = Some ACK # rest, ym_tx = t', ym_dev = d\<rparr>"
  shows "send_until_ack strict f False e \<lparr>ym_rx = Some ACK # rest, ym_tx = t, ym_dev = d\<rparr> =
    Returned (e, \<lparr>ym_rx = rest, ym_tx = t', ym_dev = d\<rparr>)"
  by (subst send_until_ack.simps) (simp add: assms)

locale ym_source =
  fixes fl :: "'s ym_flash" and inv :: "'s \<Rightarrow> bool" and mem :: "'s \<Rightarrow> cells" and limit :: nat
  assumes limit: "limit \<le> 2 ^ 31"
    and read_ok: "inv s \<Longrightarrow> 0 < unat n \<Longrightarrow> unat a + unat n \<le> limit \<Longrightarrow>
      \<exists>s'. yf_read fl a n s = Some (kNoErr, a + n, mread (mem s) (unat a) (unat n), s') \<and>
        inv s' \<and> mem s' = mem s"
begin

lemma prepare_packet:
  assumes i: "inv d" and l: "length data = PACKET_1K_SIZE + PACKET_OVERHEAD" and z: "sz \<noteq> 0"
    and r: "unat a + unat sz \<le> limit"
  defines "k \<equiv> (if unat sz \<ge> PACKET_1K_SIZE then PACKET_1K_SIZE else PACKET_SIZE)"
  defines "p \<equiv> mread (mem d) (unat a) (min k (unat sz)) @ replicate (k - unat sz) 0x1A"
  shows "\<exists>data' d'. Ymodem_PreparePacket fl a data q sz d = Some (data', d') \<and> inv d' \<and> mem d' = mem d \<and>
    length data' = PACKET_1K_SIZE + PACKET_OVERHEAD \<and>
    take (length p + PACKET_HEADER) data' = (if length p = PACKET_1K_SIZE then STX else SOH) # q # (q XOR 0xff) # p"
proof -
  define n where "n = min k (unat sz)"
  have kk: "(if sz \<ge> of_nat PACKET_1K_SIZE then PACKET_1K_SIZE else PACKET_SIZE) = k"
    by (simp add: k_def word_le_nat_alt)
  have k: "k = PACKET_1K_SIZE \<or> k = PACKET_SIZE" by (simp add: k_def)
  have nn: "(if sz < of_nat k then unat sz else k) = n"
    using k by (auto simp: n_def word_less_nat_alt min_def)
  have n: "0 < n" "n \<le> k" "k \<le> PACKET_1K_SIZE" "n \<le> unat sz"
    using z k by (auto simp: n_def unat_gt_0)
  have un: "unat (of_nat n :: u32) = n" using n by (simp add: unat_of_nat)
  have lp: "length p = k" using n by (auto simp: p_def n_def)
  obtain d' where rd: "yf_read fl a (of_nat n) d = Some (kNoErr, a + of_nat n, mread (mem d) (unat a) n, d')"
    "inv d'" "mem d' = mem d"
    using read_ok [OF i, of "of_nat n" a] n r by (auto simp: un)
  define h :: u8 where "h = (if k = PACKET_1K_SIZE then STX else SOH)"
  obtain x0 x1 x2 xs where data: "data = x0 # x1 # x2 # xs" "length xs = PACKET_1K_SIZE + 2"
    using l by (cases data; cases "tl data"; cases "tl (tl data)") auto
  have w: "wr data 0 h = Some (h # x1 # x2 # xs)" "wr (h # x1 # x2 # xs) 1 q = Some (h # q # x2 # xs)"
    "wr (h # q # x2 # xs) 2 (NOT q) = Some (h # q # NOT q # xs)"
    by (simp_all add: data wr_def numeral_2_eq_2)
  have b1: "blit (h # q # NOT q # xs) PACKET_HEADER (mread (mem d) (unat a) n) =
      Some (h # q # NOT q # mread (mem d) (unat a) n @ drop n xs)"
    using n data(2) by (simp add: blit_def numeral_3_eq_3)
  have b2: "blit (h # q # NOT q # mread (mem d) (unat a) n @ drop n xs) (n + PACKET_HEADER) (replicate (k - n) 0x1A) =
      Some (h # q # NOT q # (mread (mem d) (unat a) n @ replicate (k - n) 0x1A) @ drop k xs)"
    using n data(2) by (simp add: blit_def numeral_3_eq_3)
  have p: "mread (mem d) (unat a) n @ replicate (k - n) 0x1A = p"
    by (auto simp: p_def n_def min_def)
  have "(0xff :: u8) = - 1" by simp
  then have nq: "NOT q = q XOR 0xff" by (simp only: bit.xor_one_right)
  have "Ymodem_PreparePacket fl a data q sz d = Some (h # q # NOT q # p @ drop k xs, d')"
    unfolding Ymodem_PreparePacket_def Let_def kk nn using w b1 b2 rd(1) p by (simp add: h_def)
  then show ?thesis
    using rd(2,3) n data(2) lp by (auto simp: h_def nq numeral_3_eq_3)
qed

end

lemma blit_end:
  "n + length ys \<le> length f \<Longrightarrow> blit (xs @ drop n f) (length xs) ys = Some (xs @ ys @ drop (n + length ys) f)"
  by (simp add: blit_def add.commute)

lemma prepare_name_text:
  assumes "\<forall>c \<in> set name. c \<noteq> 0" and "drop i fileName = name @ 0 # r" and "i + length name \<le> FILE_NAME_LENGTH"
    and "i + length name + PACKET_HEADER \<le> length data"
  shows "prepare_name data fileName i = Some (i + length name,
    take (i + PACKET_HEADER) data @ name @ drop (i + length name + PACKET_HEADER) data)"
  using assms
proof (induction name arbitrary: i data)
  case Nil
  then have "rd fileName i = Some 0"
    by (metis append_Nil drop_eq_Nil list.distinct(1) not_le nth_via_drop rd_Some_iff)
  then show ?case by (subst prepare_name.simps) simp
next
  case (Cons c name)
  define dt where "dt = data[i + PACKET_HEADER := c]"
  have "rd fileName i = Some c" using Cons.prems(2)
    by (metis append_Cons drop_eq_Nil list.distinct(1) not_le nth_via_drop rd_Some_iff)
  moreover have "drop (i + 1) fileName = name @ 0 # r"
    using arg_cong [OF Cons.prems(2), of "drop 1"] by simp
  moreover have "wr data (i + PACKET_HEADER) c = Some dt" using Cons.prems(4) by (simp add: wr_def dt_def)
  moreover have "take (i + 1 + PACKET_HEADER) dt = take (i + PACKET_HEADER) data @ [c]"
    using Cons.prems(4) take_Suc_conv_app_nth [of "i + PACKET_HEADER" dt] by (simp add: dt_def add.commute)
  moreover have "drop (i + 1 + length name + PACKET_HEADER) dt = drop (i + 1 + length name + PACKET_HEADER) data"
    by (simp add: dt_def)
  ultimately show ?case
    using Cons.IH [of "i + 1" dt] Cons.prems by (subst prepare_name.simps) (simp add: dt_def)
qed

lemma prepare_size_text:
  assumes "\<forall>c \<in> set ds. c \<noteq> 0" and "i + length ds \<le> length data"
  shows "prepare_size data i (ds @ 0 # r) = Some (i + length ds, take i data @ ds @ drop (i + length ds) data)"
  using assms
proof (induction ds arbitrary: i data)
  case (Cons c ds)
  define dt where "dt = data[i := c]"
  have "wr data i c = Some dt" "take (i + 1) dt = take i data @ [c]"
    using Cons.prems(2) by (simp_all add: wr_def dt_def take_Suc_conv_app_nth)
  then show ?case using Cons.IH [of "i + 1" dt] Cons.prems by (simp add: dt_def)
qed simp

definition first_payload :: "bytes \<Rightarrow> u32 \<Rightarrow> bytes" where
  "first_payload name n =
     name @ [0] @ decimal n @ replicate (PACKET_SIZE - (length name + 1 + length (decimal n))) 0"

lemma decimal_nonzero: "\<forall>c \<in> set (decimal n). c \<noteq> 0"
  using decimal_digits(1) [of n] IS_09_chars by blast

lemma prepare_initial:
  assumes l: "length data = PACKET_1K_SIZE + PACKET_OVERHEAD"
    and n: "\<forall>c \<in> set name. c \<noteq> 0" "fileName = name @ 0 # r" "length name + 1 + length (decimal n) \<le> PACKET_SIZE"
    and f: "length file_ptr0 = 10" "drop (length (decimal n)) file_ptr0 = 0 # r'"
  shows "\<exists>data'. Ymodem_PrepareIntialPacket data fileName file_ptr0 n = Some data' \<and>
    length data' = PACKET_1K_SIZE + PACKET_OVERHEAD \<and>
    take (PACKET_SIZE + PACKET_HEADER) data' = SOH # 0 # 0xff # first_payload name n"
proof -
  define L D where "L = length name" and "D = length (decimal n)"
  obtain x0 x1 x2 xs where data: "data = x0 # x1 # x2 # xs" "length xs = PACKET_1K_SIZE + 2"
    using l by (cases data; cases "tl data"; cases "tl (tl data)") auto
  have LD: "L + 1 + D \<le> 128" using n(3) by (simp add: L_def D_def)
  have w: "wr data 0 SOH = Some (SOH # x1 # x2 # xs)" "wr (SOH # x1 # x2 # xs) 1 0 = Some (SOH # 0 # x2 # xs)"
    "wr (SOH # 0 # x2 # xs) 2 0xff = Some (SOH # 0 # 0xff # xs)"
    by (simp_all add: data wr_def numeral_2_eq_2)
  have a: "prepare_name (SOH # 0 # 0xff # xs) fileName 0 = Some (L, SOH # 0 # 0xff # name @ drop L xs)"
    using prepare_name_text [OF n(1), of 0 fileName r "SOH # 0 # 0xff # xs"] n(2) LD data(2)
    by (simp add: L_def numeral_3_eq_3)
  have b: "wr (SOH # 0 # 0xff # name @ drop L xs) (L + PACKET_HEADER) 0 =
      Some (SOH # 0 # 0xff # (name @ [0]) @ drop (L + 1) xs)"
    using wr_end [of L xs "SOH # 0 # 0xff # name" 0] LD data(2) by (simp add: L_def numeral_3_eq_3)
  have c: "Int2Str file_ptr0 n = Some (decimal n @ 0 # r')" using Int2Str_decimal [of file_ptr0 n] f by simp
  have d: "prepare_size (SOH # 0 # 0xff # (name @ [0]) @ drop (L + 1) xs) (L + PACKET_HEADER + 1) (decimal n @ 0 # r') =
      Some (L + PACKET_HEADER + 1 + D, SOH # 0 # 0xff # (name @ [0]) @ decimal n @ drop (L + 1 + D) xs)"
    using prepare_size_text [OF decimal_nonzero, of "L + PACKET_HEADER + 1" n
        "SOH # 0 # 0xff # (name @ [0]) @ drop (L + 1) xs" r'] LD data(2)
    by (simp add: L_def D_def numeral_3_eq_3 add.commute)
  have e: "blit (SOH # 0 # 0xff # (name @ [0]) @ decimal n @ drop (L + 1 + D) xs) (L + PACKET_HEADER + 1 + D)
      (replicate (PACKET_SIZE + PACKET_HEADER - (L + PACKET_HEADER + 1 + D)) 0) =
    Some (SOH # 0 # 0xff # first_payload name n @ drop 128 xs)"
  proof -
    have lw: "length (SOH # 0 # 0xff # (name @ [0]) @ decimal n) = L + PACKET_HEADER + 1 + D"
      by (simp add: L_def D_def)
    show ?thesis
      using blit_end [of "L + 1 + D" "replicate (128 - (L + 1 + D)) 0" xs, of "SOH # 0 # 0xff # (name @ [0]) @ decimal n",
          unfolded lw] LD data(2)
      by (simp add: first_payload_def L_def D_def)
  qed
  have "length (first_payload name n) = 128" using LD by (simp add: first_payload_def L_def D_def)
  moreover have "Ymodem_PrepareIntialPacket data fileName file_ptr0 n = Some (SOH # 0 # 0xff # first_payload name n @ drop 128 xs)"
    unfolding Ymodem_PrepareIntialPacket_def using w a b c d e by simp
  ultimately show ?thesis using data(2) by (simp add: numeral_3_eq_3)
qed

lemma null_packet_zero:
  assumes l: "length data = PACKET_1K_SIZE + PACKET_OVERHEAD"
  shows "\<exists>data'. null_packet data = Some data' \<and>
    take (PACKET_SIZE + PACKET_HEADER) data' = SOH # 0 # 0xff # replicate PACKET_SIZE 0"
proof -
  obtain x0 x1 x2 xs where data: "data = x0 # x1 # x2 # xs" "length xs = PACKET_1K_SIZE + 2"
    using l by (cases data; cases "tl data"; cases "tl (tl data)") auto
  define z where "z = (replicate PACKET_SIZE 0 :: bytes)"
  have z: "length z = 128" by (simp add: z_def)
  have b: "blit (SOH # 0 # 0xff # xs) PACKET_HEADER z = Some (SOH # 0 # 0xff # z @ drop 128 xs)"
    using blit_end [of 0 z xs "[SOH, 0, 0xff]"] z data(2) by (simp add: numeral_3_eq_3)
  have "wr data 0 SOH = Some (SOH # x1 # x2 # xs)" "wr (SOH # x1 # x2 # xs) 1 0 = Some (SOH # 0 # x2 # xs)"
    "wr (SOH # 0 # x2 # xs) 2 0xff = Some (SOH # 0 # 0xff # xs)"
    by (simp_all add: data wr_def numeral_2_eq_2)
  then show ?thesis
    unfolding null_packet_def z_def [symmetric] using b z by (simp add: numeral_3_eq_3)
qed

context ym_source begin

lemma blocks_sent:
  assumes "inv d" and "length data = PACKET_1K_SIZE + PACKET_OVERHEAD" and "unat a + unat sz \<le> limit"
  defines "bs \<equiv> ym_blocks (mem d) (unat a) (unat sz)"
  shows "\<exists>data' d'. transmit_blocks fl a sz (of_nat k) data
      \<lparr>ym_rx = replicate (length bs) (Some ACK) @ rest, ym_tx = t, ym_dev = d\<rparr> =
      Returned (None, data', \<lparr>ym_rx = rest, ym_tx = t @ block_frames k bs, ym_dev = d'\<rparr>) \<and>
    inv d' \<and> mem d' = mem d \<and> length data' = PACKET_1K_SIZE + PACKET_OVERHEAD"
  using assms(1-3) unfolding bs_def
proof (induction "unat sz" arbitrary: a sz k data d t rule: less_induct)
  case less
  show ?case
  proof (cases "sz = 0")
    case True
    then show ?thesis using less.prems by (simp add: transmit_blocks.simps [of fl a 0])
  next
    case False
    define q where "q = (if unat sz \<ge> PACKET_1K_SIZE then PACKET_1K_SIZE else PACKET_SIZE)"
    define p where "p = mread (mem d) (unat a) (min q (unat sz)) @ replicate (q - unat sz) 0x1A"
    have q: "0 < q" "q \<le> 1024" by (simp_all add: q_def)
    have lp: "length p = q" by (simp add: p_def)
    have z: "0 < unat sz" using False by (simp add: unat_gt_0)
    define bs' where "bs' = ym_blocks (mem d) (unat a + q) (unat sz - q)"
    have bs: "ym_blocks (mem d) (unat a) (unat sz) =
        (p, ucast (drop_bit 8 (Cal_CRC16 p)), ucast (Cal_CRC16 p AND 0xFF)) # bs'"
      using z by (subst ym_blocks.simps) (simp add: Let_def q_def p_def bs'_def)
    obtain data1 d1 where pp: "Ymodem_PreparePacket fl a data (ucast (of_nat k :: u16)) sz d = Some (data1, d1)"
      "inv d1" "mem d1 = mem d" "length data1 = PACKET_1K_SIZE + PACKET_OVERHEAD"
      "take (length p + PACKET_HEADER) data1 =
        (if length p = PACKET_1K_SIZE then STX else SOH) # of_nat k # (of_nat k XOR 0xff) # p"
    proof -
      have u: "(ucast (of_nat k :: u16) :: u8) = of_nat k"
        by (simp add: word_unat_eq_iff unsigned_ucast_eq take_bit_eq_mod unat_of_nat mod_mod_cancel)
      show ?thesis using that prepare_packet [OF less.prems(1,2) False less.prems(3), of "ucast (of_nat k :: u16)"]
        unfolding u q_def [symmetric] p_def [symmetric] by blast
    qed
    define t1 where "t1 = t @ ym_frame (of_nat k) p (ucast (drop_bit 8 (Cal_CRC16 p))) (ucast (Cal_CRC16 p AND 0xFF))"
    have sa: "send_until_ack True (Packet data1 q) False 0
        \<lparr>ym_rx = Some ACK # replicate (length bs') (Some ACK) @ rest, ym_tx = t, ym_dev = d1\<rparr> =
        Returned (0, \<lparr>ym_rx = replicate (length bs') (Some ACK) @ rest, ym_tx = t1, ym_dev = d1\<rparr>)"
      by (rule send_acked) (simp add: send_packet_frame [OF pp(5), unfolded lp] t1_def)
    have pk: "(if sz \<ge> of_nat PACKET_1K_SIZE then PACKET_1K_SIZE else PACKET_SIZE) = q"
      by (simp add: q_def word_le_nat_alt)
    have uq: "unat (of_nat q :: u32) = q" using q by (simp add: unat_of_nat)
    have step: "transmit_blocks fl a sz (of_nat k) data
        \<lparr>ym_rx = Some ACK # replicate (length bs') (Some ACK) @ rest, ym_tx = t, ym_dev = d\<rparr> =
      (if sz > of_nat q then transmit_blocks fl (a + of_nat q) (sz - of_nat q) (of_nat k + 1) data1
          \<lparr>ym_rx = replicate (length bs') (Some ACK) @ rest, ym_tx = t1, ym_dev = d1\<rparr>
       else Returned (None, data1, \<lparr>ym_rx = replicate (length bs') (Some ACK) @ rest, ym_tx = t1, ym_dev = d1\<rparr>))"
      unfolding transmit_blocks.simps [of fl a sz] Let_def pk using False pp(1) sa by simp
    show ?thesis
    proof (cases "q < unat sz")
      case True
      have u: "unat (sz - of_nat q) = unat sz - q" "unat (a + of_nat q) = unat a + q"
        using True less.prems(3) limit by (simp_all add: unat_sub word_le_nat_alt uq unat_word_ariths)
      have g: "sz > of_nat q" using True by (simp add: word_less_nat_alt uq)
      obtain data2 d2 where "transmit_blocks fl (a + of_nat q) (sz - of_nat q) (of_nat (k + 1)) data1
          \<lparr>ym_rx = replicate (length bs') (Some ACK) @ rest, ym_tx = t1, ym_dev = d1\<rparr> =
        Returned (None, data2, \<lparr>ym_rx = rest, ym_tx = t1 @ block_frames (k + 1) bs', ym_dev = d2\<rparr>)"
        "inv d2" "mem d2 = mem d1" "length data2 = PACKET_1K_SIZE + PACKET_OVERHEAD"
        using less.hyps [of "sz - of_nat q" d1 data1 "a + of_nat q" "k + 1" t1] pp(2-4) less.prems(3) True q z
        unfolding u bs'_def pp(3) by (fastforce simp: u)
      then show ?thesis using step g pp(3) by (simp add: bs t1_def add.commute)
    next
      case b: False
      then have "bs' = []" by (simp add: bs'_def)
      moreover have "\<not> sz > of_nat q" using b by (simp add: word_less_nat_alt uq)
      ultimately show ?thesis using step pp by (simp add: bs t1_def)
    qed
  qed
qed

end

definition packet_crc :: "bytes \<Rightarrow> u8 \<times> u8" where
  "packet_crc p = (ucast (drop_bit 8 (Cal_CRC16 p)), ucast (Cal_CRC16 p AND 0xFF))"

lemma send_short_packet:
  assumes "take (PACKET_SIZE + PACKET_HEADER) data = SOH # 0 # 0xff # p" and "length p = PACKET_SIZE"
  shows "send_frame (Packet data PACKET_SIZE) s = s\<lparr>ym_tx := ym_tx s @ ym_frame 0 p (fst (packet_crc p)) (snd (packet_crc p))\<rparr>"
  using send_packet_frame [of p data 0 s] assms by (simp add: packet_crc_def)

context ym_source begin

lemma file_transmitted:
  assumes i: "inv d" and l: "length packet0 = PACKET_1K_SIZE + PACKET_OVERHEAD"
    and n: "\<forall>c \<in> set name. c \<noteq> 0" "sendFileName = name @ 0 # tail" "FILE_NAME_LENGTH - 1 \<le> length sendFileName"
      "length name + 1 + length (decimal n) \<le> PACKET_SIZE"
    and f: "length file_ptr0 = 10" "drop (length (decimal n)) file_ptr0 = 0 # r'"
    and r: "unat dest + unat n \<le> limit"
  defines "bs \<equiv> ym_blocks (mem d) (unat dest) (unat n)"
  shows "\<exists>d'. Ymodem_Transmit fl dest sendFileName n packet0 filename255 file_ptr0
      \<lparr>ym_rx = map Some ([ACK, CRC16] @ replicate (length bs) ACK @ [ACK, ACK]) @ x # rest, ym_tx = t, ym_dev = d\<rparr> =
    Returned (0, \<lparr>ym_rx = rest, ym_tx = t @ ym_session (first_payload name n) (packet_crc (first_payload name n)) bs
      (replicate PACKET_SIZE 0) (packet_crc (replicate PACKET_SIZE 0)) @ [EOT], ym_dev = d'\<rparr>)"
proof -
  define Z :: bytes where "Z = replicate PACKET_SIZE 0"
  have lz: "length Z = PACKET_SIZE" by (simp add: Z_def)
  have lf: "length (first_payload name n) = PACKET_SIZE" using n(4) by (simp add: first_payload_def)
  have ln: "length name \<le> 127" using n(4) by simp
  have fnm: "take (FILE_NAME_LENGTH - 1) sendFileName @ [filename255] = name @ 0 # (take (254 - length name) tail @ [filename255])"
    using ln by (simp add: n(2) take_Cons')
  obtain p1 where p1: "Ymodem_PrepareIntialPacket packet0 (take (FILE_NAME_LENGTH - 1) sendFileName @ [filename255]) file_ptr0 n = Some p1"
    "length p1 = PACKET_1K_SIZE + PACKET_OVERHEAD" "take (PACKET_SIZE + PACKET_HEADER) p1 = SOH # 0 # 0xff # first_payload name n"
    using prepare_initial [OF l n(1) fnm n(4) f] by blast
  define t1 where "t1 = t @ ym_frame 0 (first_payload name n) (fst (packet_crc (first_payload name n))) (snd (packet_crc (first_payload name n)))"
  define rx2 where "rx2 = replicate (length bs) (Some ACK) @ Some ACK # Some ACK # x # rest"
  have s1: "send_until_ack False (Packet p1 PACKET_SIZE) False 0 \<lparr>ym_rx = Some ACK # Some CRC16 # rx2, ym_tx = t, ym_dev = d\<rparr> =
      Returned (0, \<lparr>ym_rx = Some CRC16 # rx2, ym_tx = t1, ym_dev = d\<rparr>)"
    by (rule send_acked) (simp add: send_short_packet [OF p1(3) lf] t1_def del: send_frame.simps)
  obtain p2 d2 where s2: "transmit_blocks fl dest n 1 p1 \<lparr>ym_rx = rx2, ym_tx = t1, ym_dev = d\<rparr> =
      Returned (None, p2, \<lparr>ym_rx = Some ACK # Some ACK # x # rest, ym_tx = t1 @ block_frames 1 bs, ym_dev = d2\<rparr>)"
    "length p2 = PACKET_1K_SIZE + PACKET_OVERHEAD"
    using blocks_sent [OF i p1(2) r, of 1 "Some ACK # Some ACK # x # rest" t1] unfolding rx2_def bs_def by auto
  have s3: "send_until_ack True (Single EOT) False 0 \<lparr>ym_rx = Some ACK # Some ACK # x # rest, ym_tx = t1 @ block_frames 1 bs, ym_dev = d2\<rparr> =
      Returned (0, \<lparr>ym_rx = Some ACK # x # rest, ym_tx = t1 @ block_frames 1 bs @ [EOT], ym_dev = d2\<rparr>)"
    by (rule send_acked) (simp add: Send_Byte_def)
  obtain p3 where p3: "null_packet p2 = Some p3" "take (PACKET_SIZE + PACKET_HEADER) p3 = SOH # 0 # 0xff # Z"
    using null_packet_zero [OF s2(2)] by (auto simp: Z_def)
  define t4 where "t4 = t1 @ block_frames 1 bs @ [EOT] @ ym_frame 0 Z (fst (packet_crc Z)) (snd (packet_crc Z))"
  have s4: "send_until_ack False (Packet p3 PACKET_SIZE) False 0 \<lparr>ym_rx = Some ACK # x # rest, ym_tx = t1 @ block_frames 1 bs @ [EOT], ym_dev = d2\<rparr> =
      Returned (0, \<lparr>ym_rx = x # rest, ym_tx = t4, ym_dev = d2\<rparr>)"
    by (rule send_acked) (simp add: send_short_packet [OF p3(2) lz] t4_def del: send_frame.simps)
  obtain e where s5: "send_until_ack True (Single EOT) True 0 \<lparr>ym_rx = x # rest, ym_tx = t4, ym_dev = d2\<rparr> =
      Returned (e, \<lparr>ym_rx = rest, ym_tx = t4 @ [EOT], ym_dev = d2\<rparr>)" "e \<le> 1"
    by (simp add: send_until_ack.simps [of True] Send_Byte_def Let_def)
  have rx: "map Some ([ACK, CRC16] @ replicate (length bs) ACK @ [ACK, ACK]) @ x # rest = Some ACK # Some CRC16 # rx2"
    by (simp add: rx2_def)
  have "Ymodem_Transmit fl dest sendFileName n packet0 filename255 file_ptr0
      \<lparr>ym_rx = Some ACK # Some CRC16 # rx2, ym_tx = t, ym_dev = d\<rparr> =
    Returned (0, \<lparr>ym_rx = rest, ym_tx = t4 @ [EOT], ym_dev = d2\<rparr>)"
    unfolding Ymodem_Transmit_def p1(1) lift_simps andThen.simps s1 split
    using n(3) s2(1) s3 p3(1) s4 s5 by simp
  then show ?thesis
    unfolding rx by (auto simp: t4_def t1_def ym_session_def Z_def simp del: replicate.simps)
qed

end

lemma copy_size_full:
  assumes "\<forall>c \<in> set ds. c \<noteq> 0x20" and "drop p d = ds @ e # r" and "i + length ds = FILE_SIZE_LENGTH"
    and "length f = FILE_SIZE_LENGTH"
  shows "copy_size d p i f = Some (FILE_SIZE_LENGTH, take i f @ ds)"
  using assms
proof (induction ds arbitrary: p i f)
  case Nil
  then have "rd d p = Some e" by (metis append_Nil drop_eq_Nil list.distinct(1) not_le nth_via_drop rd_Some_iff)
  then show ?case using Nil.prems by (subst copy_size.simps) simp
next
  case (Cons c ds)
  have "rd d p = Some c" using Cons.prems(2)
    by (metis append_Cons drop_eq_Nil list.distinct(1) not_le nth_via_drop rd_Some_iff)
  moreover have "drop (p + 1) d = ds @ e # r"
    using arg_cong [OF Cons.prems(2), of "drop 1"] by simp
  moreover have "wr f i c = Some (f[i := c])" using Cons.prems(3,4) by (simp add: wr_def)
  moreover have "take (i + 1) (f[i := c]) = take i f @ [c]"
    using Cons.prems(3,4) by (simp add: take_Suc_conv_app_nth)
  ultimately show ?case
    using Cons.IH [of "p + 1" "i + 1" "f[i := c]"] Cons.prems by (subst copy_size.simps) simp
qed

lemma first_payload_overflows:
  assumes nm: "name \<noteq> []" "\<forall>c \<in> set name. c \<noteq> 0" "length name + 18 \<le> PACKET_SIZE"
    and v: "length (packet_data v) = PACKET_1K_SIZE + PACKET_OVERHEAD" "length (FileName v) = FILE_NAME_LENGTH"
      "length (file_size v) = FILE_SIZE_LENGTH"
    and d: "drop PACKET_HEADER (packet_data v) = first_payload name n @ z"
  shows "parse_file_packet v = None"
proof -
  define D where "D = length (decimal n)"
  have D: "D \<le> 10" using decimal_digits(3) [of n] by (simp add: D_def)
  define k where "k = PACKET_SIZE - (length name + 1 + D)"
  have k: "FILE_SIZE_LENGTH - D < k" using nm(3) D by (simp add: k_def)
  have pl: "first_payload name n = name @ 0 # decimal n @ replicate k 0"
    by (simp add: first_payload_def k_def D_def)
  have "replicate k (0 :: u8) = replicate (FILE_SIZE_LENGTH - D) 0 @ replicate (k - (FILE_SIZE_LENGTH - D)) 0"
    using k by (simp flip: replicate_add)
  also have "replicate (k - (FILE_SIZE_LENGTH - D)) (0 :: u8) = 0 # replicate (k - (FILE_SIZE_LENGTH - D) - 1) 0"
    using k by (cases "k - (FILE_SIZE_LENGTH - D)") auto
  finally have rp: "replicate k (0 :: u8) = replicate (FILE_SIZE_LENGTH - D) 0 @ 0 # replicate (k - (FILE_SIZE_LENGTH - D) - 1) 0" .
  have a: "copy_name (packet_data v) PACKET_HEADER 0 (FileName v) =
      Some (PACKET_HEADER + length name, length name, name @ drop (length name) (FileName v))"
    using copy_name_text [OF nm(2), of PACKET_HEADER "packet_data v" "decimal n @ replicate k 0 @ z" 0 "FileName v"] nm(3) v(2) d
    by (simp add: pl)
  define ds where "ds = decimal n @ replicate (FILE_SIZE_LENGTH - D) 0"
  have ds: "\<forall>c \<in> set ds. c \<noteq> 0x20" "length ds = FILE_SIZE_LENGTH"
    using decimal_digits(1) [of n] D by (auto simp: ds_def IS_09_def D_def)
  have dr: "drop (PACKET_HEADER + length name + 1) (packet_data v) = ds @ 0 # (replicate (k - (FILE_SIZE_LENGTH - D) - 1) 0 @ z)"
    using arg_cong [OF d, of "drop (length name + 1)"] by (simp add: pl rp ds_def add.commute)
  have b: "copy_size (packet_data v) (PACKET_HEADER + length name + 1) 0 (file_size v) = Some (FILE_SIZE_LENGTH, ds)"
    using copy_size_full [OF ds(1) dr, of 0 "file_size v"] ds(2) v(3) by simp
  have w: "wr ds FILE_SIZE_LENGTH 0 = None" using ds(2) by (simp add: wr_def)
  show ?thesis using a b w by (simp add: parse_file_packet_def bind_eq_None_conv) 
qed

sublocale identified_spi \<subseteq> source: ym_source "platform_ym_flash env MICO_FLASH_SPI" dev_ready
  "\<lambda>d. cells_of (chip d)" "0x200000"
proof
  fix s :: "('f, 'c) flash_state" and n a :: u32
  assume r: "dev_ready s" "0 < unat n" "unat a + unat n \<le> 0x200000"
  from dev_read [OF r] show "\<exists>s'. yf_read (platform_ym_flash env MICO_FLASH_SPI) a n s =
      Some (kNoErr, a + n, mread (cells_of (chip s)) (unat a) (unat n), s') \<and> dev_ready s' \<and>
      cells_of (chip s') = cells_of (chip s)"
    by (auto simp: platform_ym_flash_def)
qed simp

lemma announced_dev_ready: "boot_board.dev_ready (devices announced_sys)"
  by (simp add: boot_board.dev_ready_def mx25.ready_def announced_sys_def board_sys_def)

lemma dec_digits_small: "r < 10 \<Longrightarrow> dec_digits (Suc k) r = replicate k 0x30 @ [word_of_nat (48 + r)]"
proof (induction k)
  case (Suc k)
  have "r < 10 ^ Suc k" using Suc.prems by (metis less_le_trans one_le_numeral one_le_power power_Suc mult_le_mono2 mult.right_neutral)
  then show ?case using Suc by simp
qed simp

lemma decimal_5: "decimal 5 = str ''5''"
proof -
  have "dec_digits 10 5 = replicate 9 0x30 @ [0x35]"
    using dec_digits_small [of 5 9] by simp
  then show ?thesis by (simp add: decimal_def dropWhile_append)
qed

section \<open>Properties\<close>

text \<open>
  C3. Receiving a file: on a flash that erases and writes below \<open>limit\<close>, a sender's session - the
  packet with name and size, data packets of 128 or 1024 bytes, the end of transmission and an empty
  packet - makes \<open>Ymodem_Receive\<close> return the announced size, acknowledge every packet, keep the name and
  store the data at the destination; nothing outside the erased sectors changes. The CRC bytes of the
  packets are arbitrary: they are not checked.
\<close>

theorem ymodem_receives_file:
  assumes "ym_store fl ready mem limit" and "ready d"
    and "length buf = PACKET_1K_SIZE" and "length packet0 = PACKET_1K_SIZE + PACKET_OVERHEAD"
    and "length fsize0 = FILE_SIZE_LENGTH" and "length fname = FILE_NAME_LENGTH"
    and "payload_size (name_payload name sz e)"
    and "name \<noteq> []" and "\<forall>c \<in> set name. c \<noteq> 0" and "length name < FILE_NAME_LENGTH"
    and "sint sz \<le> sint m + 1" and "0 < unat m" and "unat dest + unat m \<le> limit"
    and "\<forall>b \<in> set bs. payload_size (fst b)" and "length (block_bytes bs) \<le> unat m"
    and "payload_size last_payload" and "hd last_payload = 0"
  shows "\<exists>v' d'. Ymodem_Receive fl buf dest m packet0 fsize0 fname
      \<lparr>ym_rx = map Some (ym_session (name_payload name sz e) c bs last_payload c') @ rest, ym_tx = t, ym_dev = d\<rparr> =
      Returned (sint sz, v', \<lparr>ym_rx = rest, ym_tx = t @ [ACK, CRC16] @ replicate (length bs) ACK @ [ACK, ACK], ym_dev = d'\<rparr>) \<and>
    take (length name + 1) (FileName v') = name @ [0] \<and>
    mread (mem d') (unat dest) (length (block_bytes bs)) = block_bytes bs \<and>
    (\<forall>x. x < unat dest div 4096 * 4096 \<or> (unat dest + unat m - 1) div 4096 * 4096 + 4096 \<le> x \<longrightarrow> mem d' x = mem d x)"
  using ym_store.session_received [OF assms] by blast

theorem ymodem_receives_file_witness:
  "\<exists>v' d'. Ymodem_Receive (platform_ym_flash boot_env MICO_FLASH_SPI) (replicate 1024 0) 0x2000 0x3E000
      (replicate 1029 0) (replicate 16 0) (replicate 256 0)
      \<lparr>ym_rx = map Some (ym_session (name_payload (str ''fw.bin'') 5 (replicate 119 0)) (0, 0)
        [(str ''image'' @ replicate 123 0x1A, 0, 0)] (replicate 128 0) (0, 0)) @ [], ym_tx = [], ym_dev = devices announced_sys\<rparr> =
      Returned (5, v', \<lparr>ym_rx = [], ym_tx = [ACK, CRC16, ACK, ACK, ACK], ym_dev = d'\<rparr>) \<and>
    mread (mx_cells (chip d')) 0x2000 128 = str ''image'' @ replicate 123 0x1A"
proof -
  have p: "payload_size (name_payload (str ''fw.bin'') 5 (replicate 119 0))"
    by (simp add: payload_size_def name_payload_def decimal_5)
  have s: "sint (5 :: u32) = 5" "sint (0x3E000 :: u32) = 0x3E000" by (simp_all add: sint_small_u32)
  have h: "hd (replicate 128 (0 :: u8)) = 0" "payload_size (replicate 128 0)"
    by (simp_all add: payload_size_def hd_replicate)
  have n: "str ''fw.bin'' \<noteq> []" "\<forall>c \<in> set (str ''fw.bin''). c \<noteq> 0" "length (str ''fw.bin'') < FILE_NAME_LENGTH" by simp_all
  have m: "sint (5 :: u32) \<le> sint (0x3E000 :: u32) + 1" "0 < unat (0x3E000 :: u32)"
    "unat (0x2000 :: u32) + unat (0x3E000 :: u32) \<le> 0x200000" by (simp_all add: s)
  define bs :: "(bytes \<times> u8 \<times> u8) list" where "bs = [(str ''image'' @ replicate 123 0x1A, 0, 0)]"
  have b: "\<forall>b \<in> set bs. payload_size (fst b)" "length (block_bytes bs) \<le> unat (0x3E000 :: u32)"
    "length bs = 1" "block_bytes bs = str ''image'' @ replicate 123 0x1A" "length (block_bytes bs) = 128"
    by (simp_all add: bs_def payload_size_def block_bytes_def)
  have l: "length (replicate 1029 (0 :: u8)) = PACKET_1K_SIZE + PACKET_OVERHEAD" by simp
  from ymodem_receives_file [OF serial_board.serial.ym_store_axioms announced_dev_ready length_replicate l
        length_replicate length_replicate p n m b(1,2) h(2,1), of 0 0 0 "(0, 0)" "(0, 0)" "[]" "[]"]
  show ?thesis unfolding bs_def [symmetric] b(5) b(4) b(3) s by auto
qed

text \<open>
  C18. Sending a file: \<open>Ymodem_Transmit\<close>, with a receiver that acknowledges every packet, sends a complete
  session and one more end of transmission and returns 0. The data packets are the blocks of the file
  with their CRC, in order; their data is the file, padded at the end. The condition on \<open>file_ptr0\<close> is
  that the array was zero after the digits already.
\<close>

theorem ymodem_transmits_file:
  assumes "ym_source fl ready mem limit" and "ready d"
    and "length packet0 = PACKET_1K_SIZE + PACKET_OVERHEAD"
    and "\<forall>c \<in> set name. c \<noteq> 0" and "sendFileName = name @ 0 # after"
    and "FILE_NAME_LENGTH - 1 \<le> length sendFileName"
    and "length name + 1 + length (decimal n) \<le> PACKET_SIZE"
    and "length file_ptr0 = 10" and "drop (length (decimal n)) file_ptr0 = 0 # after'"
    and "unat dest + unat n \<le> limit"
    and "bs = ym_blocks (mem d) (unat dest) (unat n)"
  shows "(\<exists>d'. Ymodem_Transmit fl dest sendFileName n packet0 filename255 file_ptr0
      \<lparr>ym_rx = map Some ([ACK, CRC16] @ replicate (length bs) ACK @ [ACK, ACK]) @ x # rest, ym_tx = t, ym_dev = d\<rparr> =
    Returned (0, \<lparr>ym_rx = rest, ym_tx = t @ ym_session (first_payload name n) (packet_crc (first_payload name n)) bs
      (replicate PACKET_SIZE 0) (packet_crc (replicate PACKET_SIZE 0)) @ [EOT], ym_dev = d'\<rparr>)) \<and>
    take (unat n) (block_bytes bs) = mread (mem d) (unat dest) (unat n) \<and>
    (\<forall>b \<in> set bs. payload_size (fst b))"
  using ym_source.file_transmitted [OF assms(1-10)] ym_blocks_bytes ym_blocks_payload
  unfolding assms(11) by blast

theorem ymodem_transmits_file_witness:
  "\<exists>d'. Ymodem_Transmit (platform_ym_flash boot_env MICO_FLASH_SPI) 0x40000 (str ''fw.bin'' @ 0 # replicate 250 0) 5
      (replicate 1029 0) 0 (replicate 10 0)
      \<lparr>ym_rx = map Some ([ACK, CRC16] @ replicate (length (ym_blocks (mx_cells (chip (devices announced_sys))) 0x40000 5)) ACK @
        [ACK, ACK]) @ [None], ym_tx = [], ym_dev = devices announced_sys\<rparr> =
    Returned (0, \<lparr>ym_rx = [], ym_tx = ym_session (first_payload (str ''fw.bin'') 5) (packet_crc (first_payload (str ''fw.bin'') 5))
      (ym_blocks (mx_cells (chip (devices announced_sys))) 0x40000 5)
      (replicate PACKET_SIZE 0) (packet_crc (replicate PACKET_SIZE 0)) @ [EOT], ym_dev = d'\<rparr>)"
proof -
  have n: "\<forall>c \<in> set (str ''fw.bin''). c \<noteq> 0" "FILE_NAME_LENGTH - 1 \<le> length (str ''fw.bin'' @ 0 # replicate 250 (0 :: u8))"
    "length (str ''fw.bin'') + 1 + length (decimal 5) \<le> PACKET_SIZE" by (simp_all add: decimal_5)
  have f: "drop (length (decimal 5)) (replicate 10 (0 :: u8)) = 0 # replicate 8 0" by (simp add: decimal_5 flip: replicate_Suc)
  have l: "length (replicate 1029 (0 :: u8)) = PACKET_1K_SIZE + PACKET_OVERHEAD" by simp
  have r: "unat (0x40000 :: u32) + unat (5 :: u32) \<le> 0x200000" by simp
  have a: "unat (0x40000 :: u32) = 0x40000" "unat (5 :: u32) = 5" by simp_all
  show ?thesis
    using ymodem_transmits_file [OF serial_board.source.ym_source_axioms announced_dev_ready l n(1) refl n(2,3)
        length_replicate f r refl, of 0 None "[]" "[]"]
    unfolding a append_Nil by blast
qed

text \<open>
  The two sides do not fit together: the first packet that \<open>Ymodem_PrepareIntialPacket\<close> prepares
  makes \<open>Ymodem_Receive\<close> write one byte behind its array \<open>file_size\<close>, because the prepared size is
  not followed by a blank.
\<close>

theorem own_first_packet_overflows:
  assumes "Ymodem_PrepareIntialPacket data (name @ 0 # after) file_ptr0 n = Some p"
    and "length data = PACKET_1K_SIZE + PACKET_OVERHEAD" and "length file_ptr0 = 10"
    and "drop (length (decimal n)) file_ptr0 = 0 # after'"
    and "name \<noteq> []" and "\<forall>c \<in> set name. c \<noteq> 0" and "length name + 18 \<le> PACKET_SIZE"
    and "length packet0 = PACKET_1K_SIZE + PACKET_OVERHEAD" and "length fsize0 = FILE_SIZE_LENGTH"
    and "length fname = FILE_NAME_LENGTH" and "yf_init fl d = Some (err, d')"
  shows "Ymodem_Receive fl buf dest m packet0 fsize0 fname
    \<lparr>ym_rx = map Some (take (PACKET_SIZE + PACKET_HEADER) p @ [crc1, crc2]) @ rest, ym_tx = t, ym_dev = d\<rparr> = Faulty"
proof -
  have dl: "length (decimal n) \<le> 10" by (rule decimal_digits(3))
  obtain q where "Ymodem_PrepareIntialPacket data (name @ 0 # after) file_ptr0 n = Some q"
    "take (PACKET_SIZE + PACKET_HEADER) q = SOH # 0 # 0xff # first_payload name n"
    using prepare_initial [OF assms(2,6) refl _ assms(3,4)] assms(7) dl by fastforce
  then have tk: "take (PACKET_SIZE + PACKET_HEADER) p = SOH # 0 # 0xff # first_payload name n"
    using assms(1) by simp
  have lf: "length (first_payload name n) = PACKET_SIZE" using assms(7) dl by (simp add: first_payload_def)
  have fr: "take (PACKET_SIZE + PACKET_HEADER) p @ [crc1, crc2] = ym_frame 0 (first_payload name n) crc1 crc2"
    unfolding tk by (simp add: ym_frame_def lf)
  define v where "v = \<lparr>packet_data = packet0, file_size = fsize0, FileName = fname, ym_buf = buf, ym_size = 0,
    flashdestination = dest, session_begin = False, rx_errors = 0, packets_received = 0\<rparr>"
  define f where "f = ym_frame 0 (first_payload name n) crc1 crc2 @ drop (PACKET_SIZE + PACKET_OVERHEAD) packet0"
  have rp: "Receive_Packet packet0 \<lparr>ym_rx = map Some (ym_frame 0 (first_payload name n) crc1 crc2) @ rest, ym_tx = t, ym_dev = d'\<rparr> =
      Returned (0, int PACKET_SIZE, f, \<lparr>ym_rx = rest, ym_tx = t, ym_dev = d'\<rparr>)"
    using Receive_Packet_frame [OF _ assms(8), of "first_payload name n"] lf by (simp add: payload_size_def f_def)
  have f3: "drop PACKET_HEADER f = first_payload name n @ [crc1, crc2] @ drop (PACKET_SIZE + PACKET_OVERHEAD) packet0"
    by (simp add: f_def ym_frame_def numeral_3_eq_3)
  have f1: "f ! PACKET_SEQNO_INDEX = 0" by (simp add: f_def ym_frame_def)
  have "f ! PACKET_HEADER = hd (first_payload name n)"
    using assms(5) by (simp add: f_def ym_frame_def numeral_3_eq_3 first_payload_def hd_conv_nth nth_append)
  then have hd: "f ! PACKET_HEADER \<noteq> 0" using assms(5,6) by (simp add: first_payload_def)
  have lenf: "length f = PACKET_1K_SIZE + PACKET_OVERHEAD" using assms(8) lf by (simp add: f_def ym_frame_def)
  have "parse_file_packet (v\<lparr>packet_data := f, rx_errors := 0\<rparr>) = None"
    using first_payload_overflows [OF assms(5-7), of "v\<lparr>packet_data := f, rx_errors := 0\<rparr>"] f3 lenf assms(9,10)
    by (simp add: v_def)
  then have "receive_round fl m v \<lparr>ym_rx = map Some (ym_frame 0 (first_payload name n) crc1 crc2) @ rest, ym_tx = t, ym_dev = d'\<rparr> = Faulty"
    using rp f1 hd by (simp add: receive_round_def file_packet_def v_def Let_def)
  then have "receive_loop fl m v \<lparr>ym_rx = map Some (ym_frame 0 (first_payload name n) crc1 crc2) @ rest, ym_tx = t, ym_dev = d'\<rparr> = Faulty"
    by (subst receive_loop.simps) simp
  then show ?thesis unfolding fr Ymodem_Receive_def using assms(11) by (simp add: v_def)
qed

theorem own_first_packet_overflows_witness:
  "\<exists>p. Ymodem_PrepareIntialPacket (replicate 1029 0) (str ''fw.bin'' @ 0 # []) (replicate 10 0) 5 = Some p \<and>
    Ymodem_Receive (platform_ym_flash boot_env MICO_FLASH_SPI) (replicate 1024 0) 0x2000 0x3E000
      (replicate 1029 0) (replicate 16 0) (replicate 256 0)
      \<lparr>ym_rx = map Some (take (PACKET_SIZE + PACKET_HEADER) p @ [0, 0]) @ [], ym_tx = [], ym_dev = devices announced_sys\<rparr> = Faulty"
proof -
  have n: "\<forall>c \<in> set (str ''fw.bin''). c \<noteq> 0" "str ''fw.bin'' \<noteq> []" "length (str ''fw.bin'') + 18 \<le> PACKET_SIZE"
    "length (str ''fw.bin'') + 1 + length (decimal 5) \<le> PACKET_SIZE" by (simp_all add: decimal_5)
  have f: "drop (length (decimal 5)) (replicate 10 (0 :: u8)) = 0 # replicate 8 0" by (simp add: decimal_5 flip: replicate_Suc)
  obtain p where p: "Ymodem_PrepareIntialPacket (replicate 1029 0) (str ''fw.bin'' @ 0 # []) (replicate 10 0) 5 = Some p"
    using prepare_initial [OF _ n(1) refl n(4) length_replicate f, of "replicate 1029 0" "[]"] by auto
  obtain d' where d: "yf_init (platform_ym_flash boot_env MICO_FLASH_SPI) (devices announced_sys) = Some (kNoErr, d')"
    using serial_board.dev_init [OF announced_dev_ready] by (auto simp: platform_ym_flash_def)
  show ?thesis
    using own_first_packet_overflows [OF p _ length_replicate f n(2,1,3) _ length_replicate length_replicate d,
        of "replicate 1029 0" "replicate 1024 0" "0x2000" "0x3E000" 0 0 0 0 "[]" "[]"] p
    by auto
qed

end
