(* ===== verification/BootMenu.thy ===== *)
theory BootMenu
  imports Ymodem
begin

text \<open>
  The boot loader's entrance and menu: \<open>Bootloader/BootloaderEntrance.c\<close>, the line editor
  \<open>Bootloader/Getline.c\<close> and the commands of \<open>Bootloader/menu.c\<close>, over the partitions, the flash driver and
  YMODEM. The serial line is that of \<open>Ymodem\<close>; what is printed for the operator is not modelled. Local arrays
  that are not initialised and the bytes behind string literals are parameters.
\<close>

section \<open>The line editor\<close>

abbreviation CNTLQ :: u8 where "CNTLQ \<equiv> 0x11"
abbreviation CNTLS :: u8 where "CNTLS \<equiv> 0x13"
abbreviation DEL :: u8 where "DEL \<equiv> 0x7F"
abbreviation BACKSPACE :: u8 where "BACKSPACE \<equiv> 0x08"
abbreviation CR :: u8 where "CR \<equiv> 0x0D"
abbreviation LF :: u8 where "LF \<equiv> 0x0A"

text \<open>\<open>MicoUartRecv\<close> without a timeout waits through the pauses of the line.\<close>

fun recv_char :: "u8 option list \<Rightarrow> (u8 \<times> u8 option list) outcome" where
  "recv_char [] = Waiting"
| "recv_char (None # rx) = recv_char rx"
| "recv_char (Some c # rx) = Returned (c, rx)"

lemma recv_char_rx: "recv_char rx = Returned (c, rx') \<Longrightarrow> length rx' < length rx"
  by (induction rx rule: recv_char.induct) auto

text \<open>The \<open>do ... while\<close> loop; \<open>line\<close> and \<open>cnt\<close> move together, so \<open>cnt\<close> is the position in the buffer.\<close>

function getline_loop :: "nat \<Rightarrow> bytes \<Rightarrow> nat \<Rightarrow> u8 option list \<Rightarrow> (bytes \<times> nat \<times> u8 option list) outcome" where
  "getline_loop n buf cnt rx =
     andThen (recv_char rx) (\<lambda>(c, rx).
       let c = (if c = CR then LF else c) in
       andThen (if c = BACKSPACE \<or> c = DEL then Returned (buf, cnt - 1)
                else if c \<noteq> CNTLQ \<and> c \<noteq> CNTLS then andThen (lift (wr buf cnt c)) (\<lambda>b. Returned (b, cnt + 1))
                else Returned (buf, cnt)) (\<lambda>(buf, cnt).
         if cnt < n - 1 \<and> c \<noteq> LF then getline_loop n buf cnt rx else Returned (buf, cnt, rx)))"
  by auto
termination
  by (relation "measure (\<lambda>(n, buf, cnt, rx). length rx)") (auto dest: recv_char_rx)

declare getline_loop.simps [simp del]

definition getline :: "nat \<Rightarrow> bytes \<Rightarrow> u8 option list \<Rightarrow> (bytes \<times> u8 option list) outcome" where
  "getline n buf rx =
     andThen (getline_loop n buf 0 rx) (\<lambda>(buf, cnt, rx).
       if cnt = 0 then Faulty else andThen (lift (wr buf (cnt - 1) 0)) (\<lambda>buf. Returned (buf, rx)))"

text \<open>Ten receptions of one byte with a timeout: six blanks in a row, or late ones.\<close>

fun break_in_loop :: "nat \<Rightarrow> nat \<Rightarrow> u8 option list \<Rightarrow> (bool \<times> u8 option list) outcome" where
  "break_in_loop 0 j rx = Returned (False, rx)"
| "break_in_loop (Suc i) j [] = Waiting"
| "break_in_loop (Suc i) j (None # rx) = break_in_loop i j rx"
| "break_in_loop (Suc i) j (Some c # rx) =
     (if c = 0x20 then if j + 1 > 5 then Returned (True, rx) else break_in_loop i (j + 1) rx
      else break_in_loop i 0 rx)"

definition stdio_break_in :: "u8 option list \<Rightarrow> (bool \<times> u8 option list) outcome" where
  "stdio_break_in rx = break_in_loop 10 0 rx"

section \<open>Command parameters\<close>

text \<open>The comparison of \<open>commandBody\<close> from \<open>j\<close> with the name: the two positions where it ends.\<close>

function match_para :: "bytes \<Rightarrow> bytes \<Rightarrow> nat \<Rightarrow> nat \<Rightarrow> (nat \<times> nat) option" where
  "match_para body p j k =
     (if k < length p then
        (case rd body j of None \<Rightarrow> None
         | Some c \<Rightarrow> if c \<noteq> p ! k then Some (j, k) else match_para body p (j + 1) (k + 1))
      else Some (j, k))"
  by auto
termination
  by (relation "measure (\<lambda>(b, p, j, k). length p - k)") auto

text \<open>The search; the result is the position behind the name.\<close>

function find_para :: "bytes \<Rightarrow> bytes \<Rightarrow> nat \<Rightarrow> nat option option" where
  "find_para body p i =
     (case rd body i of None \<Rightarrow> None
      | Some c \<Rightarrow>
          if c = 0 then Some None
          else if c = ch CHR ''-'' then
            (case match_para body p (i + 1) 0 of None \<Rightarrow> None
             | Some (j, k) \<Rightarrow>
                 if k < length p then find_para body p (i + 1)
                 else (case rd body j of None \<Rightarrow> None
                   | Some y \<Rightarrow> if y \<noteq> 0x20 \<and> y \<noteq> 0 then find_para body p (i + 1) else Some (Some j)))
          else find_para body p (i + 1))"
  by auto
termination
  by (relation "measure (\<lambda>(b, p, i). length b - i)") (auto simp: mem_simps)

text \<open>\<open>for (...; commandBody[k] == ' '; k++)\<close>.\<close>

function skip_blanks :: "bytes \<Rightarrow> nat \<Rightarrow> nat option" where
  "skip_blanks body k =
     (case rd body k of None \<Rightarrow> None | Some c \<Rightarrow> if c = 0x20 then skip_blanks body (k + 1) else Some k)"
  by auto
termination
  by (relation "measure (\<lambda>(b, k). length b - k)") (auto simp: mem_simps)

text \<open>The body is copied to \<open>paraBody\<close> when there is one; \<open>j\<close> counts it and is \<open>retval\<close>.\<close>

function copy_body :: "bytes \<Rightarrow> nat \<Rightarrow> bytes option \<Rightarrow> nat \<Rightarrow> nat \<Rightarrow> (nat \<times> bytes option) option" where
  "copy_body body k paraBody paraBodyLength j =
     (case rd body k of None \<Rightarrow> None
      | Some c \<Rightarrow>
          if c = 0x20 \<or> c = 0 \<or> c = ch CHR ''-'' then Some (j, paraBody)
          else (case (case paraBody of None \<Rightarrow> Some None | Some b \<Rightarrow> map_option Some (wr b j c)) of None \<Rightarrow> None
            | Some paraBody \<Rightarrow>
                if j + 1 = paraBodyLength then Some (j + 1, paraBody)
                else copy_body body (k + 1) paraBody paraBodyLength (j + 1)))"
  by auto
termination
  by (relation "measure (\<lambda>(b, k, p, l, j). length b - k)") (auto simp: mem_simps)

declare match_para.simps [simp del] find_para.simps [simp del] skip_blanks.simps [simp del] copy_body.simps [simp del]

text \<open>The return value and \<open>paraBody\<close>; \<open>paraBody[-1]\<close> is outside the buffer.\<close>

definition findCommandPara :: "bytes \<Rightarrow> bytes \<Rightarrow> bytes option \<Rightarrow> nat \<Rightarrow> (int \<times> bytes option) option" where
  "findCommandPara body para paraBody paraBodyLength = do {
     r \<leftarrow> (if length para \<ge> 100 then None else find_para body (map toupper para) 0);
     (case r of
        None \<Rightarrow> (case paraBody of None \<Rightarrow> Some (- 1, None) | Some b \<Rightarrow> None)
      | Some j \<Rightarrow> do {
          k \<leftarrow> skip_blanks body (j + 1);
          (n, paraBody) \<leftarrow> copy_body body k paraBody paraBodyLength 0;
          (case paraBody of None \<Rightarrow> Some (int n, None) | Some b \<Rightarrow> map_option (\<lambda>b. (int n, Some b)) (wr b n 0))
        })
   }"

section \<open>The menu\<close>

text \<open>Uninitialised arrays of YMODEM, the bytes behind string literals, and the text that identifies the boot loader.\<close>

record ('f, 'c) boot_loader = board :: "('f, 'c) mico_env"
  packet_array :: bytes
  size_array :: bytes
  name_255 :: u8
  number_array :: bytes
  behind_literal :: bytes
  version_text :: bytes

record ('f, 'c) menu_sys =
  line_rx :: "u8 option list"
  line_tx :: bytes
  boot_flash :: "('f, 'c) flash_sys"
  tab_1024 :: bytes
  last_name :: bytes
  cmdbuf :: bytes
  cmdname :: bytes
  startAddressStr :: bytes
  endAddressStr :: bytes
  flash_dev_str :: bytes
  startAddress :: u32
  endAddress :: u32
  flash_dev :: u32

text \<open>What follows a command: the next one, the return from \<open>Main_Menu\<close>, an application, a reset.\<close>

datatype menu_next = Next_command | Leave_menu | Start_application u32 | Reboot

definition SerialDownload ::
  "('f, 'c) boot_loader \<Rightarrow> mico_flash_t \<Rightarrow> u32 \<Rightarrow> u32 \<Rightarrow> ('f, 'c) menu_sys \<Rightarrow> ('f, 'c) menu_sys outcome" where
  "SerialDownload bl owner dest maxRecvSize s =
     andThen (Ymodem_Receive (platform_ym_flash (board bl) owner) (tab_1024 s) dest maxRecvSize
                (packet_array bl) (size_array bl) (last_name s)
                \<lparr>ym_rx = line_rx s, ym_tx = line_tx s, ym_dev = devices (boot_flash s)\<rparr>)
       (\<lambda>(r, v, y). Returned (s\<lparr>line_rx := ym_rx y, line_tx := ym_tx y, boot_flash := (boot_flash s)\<lparr>devices := ym_dev y\<rparr>,
          tab_1024 := ym_buf v, last_name := FileName v\<rparr>))"

definition SerialUpload ::
  "('f, 'c) boot_loader \<Rightarrow> mico_flash_t \<Rightarrow> u32 \<Rightarrow> bytes \<Rightarrow> u32 \<Rightarrow> ('f, 'c) menu_sys \<Rightarrow> ('f, 'c) menu_sys outcome" where
  "SerialUpload bl owner dest fileName maxRecvSize s =
     andThen (recv_char (line_rx s)) (\<lambda>(key, rx).
       if key = CRC16 then
         andThen (Ymodem_Transmit (platform_ym_flash (board bl) owner) dest (fileName @ [0] @ behind_literal bl) maxRecvSize
                    (packet_array bl) (name_255 bl) (number_array bl)
                    \<lparr>ym_rx = rx, ym_tx = line_tx s, ym_dev = devices (boot_flash s)\<rparr>)
           (\<lambda>(r, y). Returned (s\<lparr>line_rx := ym_rx y, line_tx := ym_tx y, boot_flash := (boot_flash s)\<lparr>devices := ym_dev y\<rparr>\<rparr>))
       else Returned (s\<lparr>line_rx := rx\<rparr>))"

text \<open>Whether a parameter without a body is given.\<close>

definition has_para :: "bytes \<Rightarrow> ('f, 'c) menu_sys \<Rightarrow> bool outcome" where
  "has_para para s = andThen (lift (findCommandPara (cmdbuf s) para None 0)) (\<lambda>(r, b). Returned (r \<noteq> - 1))"

text \<open>Reading or updating a partition, as the commands 0 to 3 do it.\<close>

definition read_or_update ::
  "('f, 'c) boot_loader \<Rightarrow> int \<Rightarrow> bytes \<Rightarrow> mico_logic_partition_t \<Rightarrow> ('f, 'c) menu_sys
     \<Rightarrow> (menu_next \<times> ('f, 'c) menu_sys) outcome" where
  "read_or_update bl par fileName p s =
     andThen (has_para (str ''r'') s) (\<lambda>r.
       if r then
         andThen (SerialUpload bl (partition_owner p) (partition_start_addr p) fileName (partition_length p) s)
           (\<lambda>s. Returned (Next_command, s))
       else andThen (lift (MicoFlashDisableSecurity (board bl) par 0 (partition_length p) (boot_flash s))) (\<lambda>(err, fs).
         let s = s\<lparr>boot_flash := fs\<rparr> in
         if err \<noteq> kNoErr then Returned (Next_command, s)
         else andThen (SerialDownload bl (partition_owner p) (partition_start_addr p) (partition_length p) s)
           (\<lambda>s. Returned (Next_command, s))))"

definition para_update ::
  "('f, 'c) boot_loader \<Rightarrow> mico_logic_partition_t \<Rightarrow> ('f, 'c) menu_sys \<Rightarrow> (menu_next \<times> ('f, 'c) menu_sys) outcome" where
  "para_update bl p s =
     andThen (has_para (str ''e'') s) (\<lambda>e.
       if e then
         andThen (lift (MicoFlashDisableSecurity (board bl) MICO_PARTITION_PARAMETER_1 0 (partition_length p) (boot_flash s)))
           (\<lambda>(err, fs).
             if err \<noteq> kNoErr then Returned (Next_command, s\<lparr>boot_flash := fs\<rparr>)
             else andThen (lift (MicoFlashErase (board bl) MICO_PARTITION_PARAMETER_1 0 (partition_length p) fs))
               (\<lambda>(err, fs). Returned (Next_command, s\<lparr>boot_flash := fs\<rparr>)))
       else read_or_update bl MICO_PARTITION_PARAMETER_1 (str ''DriverImage.bin'') p s)"

text \<open>A parameter with a body, and the number in it: the result of \<open>Str2Int\<close> and the value, which keeps
  its old one when none is stored.\<close>

definition body_para :: "bytes \<Rightarrow> bytes \<Rightarrow> nat \<Rightarrow> ('f, 'c) menu_sys \<Rightarrow> (int \<times> bytes) outcome" where
  "body_para para b n s =
     andThen (lift (findCommandPara (cmdbuf s) para (Some b) n)) (\<lambda>(r, b). lift (map_option (Pair r) b))"

definition number_para :: "bytes \<Rightarrow> u32 \<Rightarrow> (bool \<times> u32) outcome" where
  "number_para b old =
     andThen (lift (Str2Int b)) (\<lambda>(r, n). Returned (r \<noteq> 0, case n of None \<Rightarrow> old | Some n \<Rightarrow> n))"

definition flash_of :: "u32 \<Rightarrow> mico_flash_t" where
  "flash_of n = (if n = 0 then MICO_FLASH_EMBEDDED else if n = 1 then MICO_FLASH_SPI
     else if n = 2 then MICO_FLASH_MAX else MICO_FLASH_NONE)"

text \<open>The area: false for an error message, true with the flag \<open>inputFlashArea\<close>.\<close>

definition flash_area :: "('f, 'c) menu_sys \<Rightarrow> (bool \<times> bool \<times> ('f, 'c) menu_sys) outcome" where
  "flash_area s =
     andThen (body_para (str ''start'') (startAddressStr s) 10 s) (\<lambda>(r, b).
       let s = s\<lparr>startAddressStr := b\<rparr> in
       if r = - 1 then Returned (True, False, s)
       else andThen (number_para b (startAddress s)) (\<lambda>(valid, a).
         let s = s\<lparr>startAddress := a\<rparr> in
         if \<not> valid then Returned (False, False, s)
         else andThen (body_para (str ''end'') (endAddressStr s) 10 s) (\<lambda>(r, b).
           let s = s\<lparr>endAddressStr := b\<rparr> in
           if r = - 1 then Returned (False, False, s)
           else andThen (number_para b (endAddress s)) (\<lambda>(valid, a).
             let s = s\<lparr>endAddress := a\<rparr> in
             if \<not> valid then Returned (False, False, s) else Returned (True, True, s)))))"

text \<open>Erasing, reading or updating the area. \<open>platform_flash_disable_protect\<close>, called in front of erasing and
  updating, has no effect on this board (\<open>platform_flash_protect\<close>).\<close>

definition flash_action ::
  "('f, 'c) boot_loader \<Rightarrow> ('f, 'c) menu_sys \<Rightarrow> (menu_next \<times> ('f, 'c) menu_sys) outcome" where
  "flash_action bl s =
     (let fl = platform_ym_flash (board bl) (flash_of (flash_dev s)) in
      andThen (has_para (str ''e'') s) (\<lambda>e.
        if e then
          andThen (lift (yf_init fl (devices (boot_flash s)))) (\<lambda>(err, d).
          andThen (lift (yf_erase fl (startAddress s) (endAddress s) d)) (\<lambda>(err, d).
            Returned (Next_command, s\<lparr>boot_flash := (boot_flash s)\<lparr>devices := d\<rparr>\<rparr>)))
        else andThen (has_para (str ''r'') s) (\<lambda>r.
          if r then
            andThen (SerialUpload bl (flash_of (flash_dev s)) (startAddress s) (str ''FlashImage.bin'')
                (endAddress s - startAddress s + 1) s) (\<lambda>s. Returned (Next_command, s))
          else andThen (SerialDownload bl (flash_of (flash_dev s)) (startAddress s)
                (endAddress s - startAddress s + 1) s) (\<lambda>s. Returned (Next_command, s)))))"

definition flash_update ::
  "('f, 'c) boot_loader \<Rightarrow> ('f, 'c) menu_sys \<Rightarrow> (menu_next \<times> ('f, 'c) menu_sys) outcome" where
  "flash_update bl s =
     andThen (body_para (str ''dev'') (flash_dev_str s) 1 s) (\<lambda>(r, b).
       let s = s\<lparr>flash_dev_str := b\<rparr> in
       if r = - 1 then Returned (Next_command, s)
       else andThen (number_para b (flash_dev s)) (\<lambda>(valid, d).
         let s = s\<lparr>flash_dev := d\<rparr> in
         if \<not> valid \<or> d \<ge> 2 then Returned (Next_command, s)
         else andThen (flash_area s) (\<lambda>(go, inputFlashArea, s).
           if \<not> go then Returned (Next_command, s)
           else if sint (endAddress s) < sint (startAddress s) \<and> inputFlashArea then Returned (Next_command, s)
           else andThen (lift (platform_flash_peripherals (flash_of d))) (\<lambda>per.
             flash_action bl (if inputFlashArea then s
               else s\<lparr>startAddress := flash_start_addr per,
                      endAddress := flash_start_addr per + flash_length per - 1\<rparr>)))))"

section \<open>Starting the application\<close>

text \<open>The result of enabling the protection is not looked at.\<close>

fun protect_loop :: "('f, 'c) mico_env \<Rightarrow> int list \<Rightarrow> ('f, 'c) flash_sys \<Rightarrow> ('f, 'c) flash_sys option" where
  "protect_loop env [] s = Some s"
| "protect_loop env (i # is) s = do {
     p \<leftarrow> MicoFlashGetInfo i;
     s \<leftarrow> (if partition_options p AND PAR_OPT_WRITE_MASK = 0
       then map_option snd (MicoFlashEnableSecurity env i 0 (partition_length p) s) else Some s);
     protect_loop env is s
   }"

definition enable_protection :: "('f, 'c) mico_env \<Rightarrow> ('f, 'c) flash_sys \<Rightarrow> ('f, 'c) flash_sys option" where
  "enable_protection env s = protect_loop env [0..6] s"

definition bootloader_start_app :: "('f, 'c) mico_env \<Rightarrow> u32 \<Rightarrow> ('f, 'c) flash_sys \<Rightarrow> (u32 \<times> ('f, 'c) flash_sys) option" where
  "bootloader_start_app env app_addr s = map_option (Pair app_addr) (enable_protection env s)"

section \<open>The dispatcher\<close>

text \<open>The command line in upper case.\<close>

fun upcase :: "bytes \<Rightarrow> bytes option" where
  "upcase [] = None"
| "upcase (c # cs) = (if c = 0 then Some (c # cs) else map_option (Cons (toupper c)) (upcase cs))"

function copy_cmdname :: "bytes \<Rightarrow> nat \<Rightarrow> bytes \<Rightarrow> nat \<Rightarrow> (nat \<times> bytes) option" where
  "copy_cmdname buf i nam j =
     (case rd buf i of None \<Rightarrow> None
      | Some c \<Rightarrow>
          if c = 0x20 \<or> c = 0 then Some (j, nam)
          else (case wr nam j c of None \<Rightarrow> None | Some nam \<Rightarrow> copy_cmdname buf (i + 1) nam (j + 1)))"
  by auto
termination
  by (relation "measure (\<lambda>(b, i, n, j). length b - i)") (auto simp: mem_simps)

declare copy_cmdname.simps [simp del]

definition read_command :: "('f, 'c) menu_sys \<Rightarrow> ('f, 'c) menu_sys outcome" where
  "read_command s =
     andThen (getline (length (cmdbuf s)) (cmdbuf s) (line_rx s)) (\<lambda>(buf, rx).
     andThen (lift (skip_blanks buf 0)) (\<lambda>i.
     andThen (lift (map_option (append (take i buf)) (upcase (drop i buf)))) (\<lambda>buf.
     andThen (lift (skip_blanks buf 0)) (\<lambda>i.
     andThen (lift (copy_cmdname buf i (cmdname s) 0)) (\<lambda>(j, nam).
     andThen (lift (wr nam j 0)) (\<lambda>nam.
       Returned (s\<lparr>line_rx := rx, cmdbuf := buf, cmdname := nam\<rparr>)))))))"

definition command_is :: "string \<Rightarrow> string \<Rightarrow> bytes \<Rightarrow> bool" where
  "command_is long short nam \<longleftrightarrow> c_string nam = Some (str long) \<or> c_string nam = Some (str short)"

text \<open>One round of the loop of \<open>Main_Menu\<close>.\<close>

definition menu_round ::
  "('f, 'c) boot_loader \<Rightarrow> ('f, 'c) menu_sys \<Rightarrow> (menu_next \<times> ('f, 'c) menu_sys) outcome" where
  "menu_round bl s =
     andThen (read_command s) (\<lambda>s.
       let nam = cmdname s in
       if command_is ''BOOTUPDATE'' ''0'' nam then
         andThen (lift (MicoFlashGetInfo MICO_PARTITION_BOOTLOADER)) (\<lambda>p.
           read_or_update bl MICO_PARTITION_BOOTLOADER (str ''BootLoaderImage.bin'') p s)
       else if command_is ''FWUPDATE'' ''1'' nam then
         andThen (lift (MicoFlashGetInfo MICO_PARTITION_APPLICATION)) (\<lambda>p.
           read_or_update bl MICO_PARTITION_APPLICATION (str ''ApplicationImage.bin'') p s)
       else if command_is ''DRIVERUPDATE'' ''2'' nam then
         (case MicoFlashGetInfo MICO_PARTITION_RF_FIRMWARE of None \<Rightarrow> Returned (Next_command, s)
          | Some p \<Rightarrow> read_or_update bl MICO_PARTITION_RF_FIRMWARE (str ''DriverImage.bin'') p s)
       else if command_is ''PARAUPDATE'' ''3'' nam then
         andThen (lift (MicoFlashGetInfo MICO_PARTITION_PARAMETER_1)) (\<lambda>p. para_update bl p s)
       else if command_is ''FLASHUPDATE'' ''4'' nam then flash_update bl s
       else if command_is ''MEMORYMAP'' ''5'' nam then Returned (Next_command, s)
       else if command_is ''BOOT'' ''6'' nam then
         andThen (lift (MicoFlashGetInfo MICO_PARTITION_APPLICATION)) (\<lambda>p.
         andThen (lift (bootloader_start_app (board bl) (partition_start_addr p) (boot_flash s))) (\<lambda>(a, fs).
           Returned (Start_application a, s\<lparr>boot_flash := fs\<rparr>)))
       else if command_is ''REBOOT'' ''7'' nam then Returned (Reboot, s)
       else Returned (Leave_menu, s))"

text \<open>Every round takes a line from the serial line, and nothing is put back.\<close>

lemma Receive_Byte_rx: "Receive_Byte s = Returned (c, s') \<Longrightarrow> length (ym_rx s') < length (ym_rx s)"
  by (auto split: list.splits)

lemma send_until_ack_rx:
  "send_until_ack strict f acked errors s = Returned (n, s') \<Longrightarrow> length (ym_rx s') \<le> length (ym_rx s)"
proof (induction "length (ym_rx s)" arbitrary: acked errors s rule: less_induct)
  case less
  obtain c s1 where 1: "Receive_Byte (send_frame f s) = Returned (c, s1)"
    using less.prems by (subst (asm) send_until_ack.simps) (auto simp: andThen_Returned simp del: Receive_Byte.simps)
  then have lt: "length (ym_rx s1) < length (ym_rx s)" using Receive_Byte_rx by fastforce
  have "s' = s1 \<or> (\<exists>a e. send_until_ack strict f a e s1 = Returned (n, s'))"
    using less.prems 1 by (subst (asm) send_until_ack.simps)
      (auto simp: Let_def simp del: Receive_Byte.simps split: if_splits)
  then show ?case using less.hyps [OF lt] lt by fastforce
qed

lemma transmit_blocks_rx:
  "transmit_blocks fl a sz k data s = Returned (r, d, s') \<Longrightarrow> length (ym_rx s') \<le> length (ym_rx s)"
proof (induction "unat sz" arbitrary: a sz k data s rule: less_induct)
  case less
  show ?case
  proof (cases "sz = 0")
    case True
    then show ?thesis using less.prems by (subst (asm) transmit_blocks.simps) auto
  next
    case False
    let ?n = "if sz \<ge> of_nat PACKET_1K_SIZE then PACKET_1K_SIZE else PACKET_SIZE"
    obtain data' d' where p: "Ymodem_PreparePacket fl a data (ucast k) sz (ym_dev s) = Some (data', d')"
      using less.prems False by (subst (asm) transmit_blocks.simps) (auto simp: andThen_Returned lift_Returned)
    obtain e s1 where u: "send_until_ack True (Packet data' ?n) False 0 (s\<lparr>ym_dev := d'\<rparr>) = Returned (e, s1)"
      using less.prems False p by (subst (asm) transmit_blocks.simps) (auto simp: andThen_Returned Let_def)
    have le: "length (ym_rx s1) \<le> length (ym_rx s)" using send_until_ack_rx [OF u] by simp
    have "s' = s1 \<or> (of_nat ?n < sz \<and> transmit_blocks fl (a + of_nat ?n) (sz - of_nat ?n) (k + 1) data' s1 = Returned (r, d, s'))"
      using less.prems False p u by (subst (asm) transmit_blocks.simps) (simp add: Let_def del: of_nat_numeral split: if_splits)
    moreover have "unat (sz - of_nat ?n) < unat sz" if "of_nat ?n < sz"
      using that by (auto simp: word_less_nat_alt word_le_nat_alt unat_sub split: if_splits)
    ultimately show ?thesis using less.hyps [of "sz - of_nat ?n"] le by fastforce
  qed
qed

lemma Ymodem_Transmit_rx:
  assumes "Ymodem_Transmit fl a nam sz p x q s = Returned (r, s')"
  shows "length (ym_rx s') \<le> length (ym_rx s)"
  using assms unfolding Ymodem_Transmit_def
  by (auto simp: andThen_Returned lift_Returned split: if_splits option.splits
      dest!: send_until_ack_rx transmit_blocks_rx Receive_Byte_rx simp del: Receive_Byte.simps)

lemma receive_loop_rx:
  "receive_loop fl m v s = Returned (r, v', s') \<Longrightarrow> length (ym_rx s') \<le> length (ym_rx s)"
proof (induction "length (ym_rx s)" arbitrary: v s rule: less_induct)
  case less
  obtain c v1 s1 where 1: "receive_round fl m v s = Returned (c, v1, s1)"
    using less.prems by (subst (asm) receive_loop.simps) (auto simp: andThen_Returned)
  note lt = receive_round_rx [OF 1]
  have "s' = s1 \<or> (\<exists>w. receive_loop fl m w s1 = Returned (r, v', s'))"
    using less.prems 1 by (subst (asm) receive_loop.simps) (auto split: control.splits)
  then show ?case using less.hyps [OF lt] lt by fastforce
qed

lemma Ymodem_Receive_rx:
  "Ymodem_Receive fl b a m p q nam s = Returned (r, v, s') \<Longrightarrow> length (ym_rx s') \<le> length (ym_rx s)"
  by (auto simp: Ymodem_Receive_def andThen_Returned dest!: receive_loop_rx)

lemma SerialDownload_rx: "SerialDownload bl fl a m s = Returned s' \<Longrightarrow> length (line_rx s') \<le> length (line_rx s)"
  by (auto simp: SerialDownload_def andThen_Returned dest!: Ymodem_Receive_rx)

lemma SerialUpload_rx: "SerialUpload bl fl a nam m s = Returned s' \<Longrightarrow> length (line_rx s') \<le> length (line_rx s)"
  by (auto simp: SerialUpload_def andThen_Returned split: if_splits dest!: Ymodem_Transmit_rx recv_char_rx)

lemma getline_loop_rx:
  "getline_loop n buf cnt rx = Returned (b, k, rx') \<Longrightarrow> length rx' < length rx"
proof (induction "length rx" arbitrary: buf cnt rx rule: less_induct)
  case less
  obtain c rx1 where 1: "recv_char rx = Returned (c, rx1)"
    using less.prems by (subst (asm) getline_loop.simps) (auto simp: andThen_Returned)
  note lt = recv_char_rx [OF 1]
  have "rx' = rx1 \<or> (\<exists>b' k'. getline_loop n b' k' rx1 = Returned (b, k, rx'))"
    using less.prems 1 by (subst (asm) getline_loop.simps)
      (auto simp: andThen_Returned Let_def split: if_splits)
  then show ?case using less.hyps [OF lt] lt by fastforce
qed

lemma read_command_rx: "read_command s = Returned s' \<Longrightarrow> length (line_rx s') < length (line_rx s)"
  by (auto simp: read_command_def getline_def andThen_Returned split: if_splits dest!: getline_loop_rx)

lemma read_or_update_rx:
  "read_or_update bl par nam p s = Returned (r, s') \<Longrightarrow> length (line_rx s') \<le> length (line_rx s)"
  by (auto simp: read_or_update_def andThen_Returned Let_def split: if_splits dest!: SerialDownload_rx SerialUpload_rx)

lemma para_update_rx: "para_update bl p s = Returned (r, s') \<Longrightarrow> length (line_rx s') \<le> length (line_rx s)"
  by (auto simp: para_update_def andThen_Returned split: if_splits dest!: read_or_update_rx)

lemma flash_action_rx: "flash_action bl s = Returned (r, s') \<Longrightarrow> length (line_rx s') \<le> length (line_rx s)"
  by (auto simp: flash_action_def andThen_Returned Let_def split: if_splits dest!: SerialDownload_rx SerialUpload_rx)

lemma andThenE:
  "andThen m f = Returned y \<Longrightarrow> (\<And>x. m = Returned x \<Longrightarrow> f x = Returned y \<Longrightarrow> thesis) \<Longrightarrow> thesis"
  by (cases m) auto

lemma flash_area_rx: "flash_area s = Returned (g, i, s') \<Longrightarrow> line_rx s' = line_rx s"
  unfolding flash_area_def Let_def by ((erule andThenE, clarsimp split: if_splits)+)

lemma flash_update_rx:
  assumes "flash_update bl s = Returned (r, s')"
  shows "length (line_rx s') \<le> length (line_rx s)"
proof -
  have 1: "s' = s1 \<or> length (line_rx s') \<le> length (line_rx s1)"
    if "andThen (lift per) (\<lambda>per. flash_action bl (if u then s1 else s1\<lparr>startAddress := f per, endAddress := g per\<rparr>))
      = Returned (r, s')" for per :: "'d option" and u f g s1
    using that by (elim andThenE) (auto split: if_splits dest!: flash_action_rx)
  show ?thesis
    by (insert assms [unfolded flash_update_def Let_def], (erule andThenE, clarsimp split: if_splits)+)
      (auto dest!: flash_area_rx 1)
qed

lemma menu_round_rx:
  assumes "menu_round bl s = Returned (r, s')"
  shows "length (line_rx s') < length (line_rx s)"
proof -
  obtain s1 where 1: "read_command s = Returned s1" using assms by (auto simp: menu_round_def andThen_Returned)
  then have "length (line_rx s') \<le> length (line_rx s1)"
    using assms unfolding menu_round_def
    by (auto simp: andThen_Returned Let_def split: if_splits option.splits
        dest!: read_or_update_rx para_update_rx flash_update_rx)
  then show ?thesis using read_command_rx [OF 1] by simp
qed

text \<open>The loop of \<open>Main_Menu\<close> inside the one of \<open>main\<close>: a return from the menu enters it again, with new
  command buffers.\<close>

function menu_loop ::
  "('f, 'c) boot_loader \<Rightarrow> ('f, 'c) menu_sys \<Rightarrow> (menu_next \<times> ('f, 'c) menu_sys) outcome" where
  "menu_loop bl s =
     andThen (menu_round bl s) (\<lambda>(r, s).
       case r of
         Next_command \<Rightarrow> menu_loop bl s
       | Leave_menu \<Rightarrow> menu_loop bl (s\<lparr>cmdbuf := replicate 128 0, cmdname := replicate 15 0\<rparr>)
       | _ \<Rightarrow> Returned (r, s))"
  by pat_completeness auto
termination
  by (relation "measure (\<lambda>(bl, s). length (line_rx s))") (auto dest: menu_round_rx)

declare menu_loop.simps [simp del]

section \<open>The entrance\<close>

text \<open>\<open>mico_set_bootload_ver\<close>: a version text is written when the last 32 bytes of the partition are blank.\<close>

definition mico_set_bootload_ver :: "('f, 'c) boot_loader \<Rightarrow> ('f, 'c) flash_sys \<Rightarrow> ('f, 'c) flash_sys option" where
  "mico_set_bootload_ver bl s = do {
     p \<leftarrow> MicoFlashGetInfo MICO_PARTITION_BOOTLOADER;
     (err, off, ds, s) \<leftarrow> MicoFlashRead (board bl) MICO_PARTITION_BOOTLOADER (partition_length p - 0x20) 32 s;
     let ver = ds @ replicate (33 - length ds) 0;
     (if \<exists>c\<in>set (take 32 ver). c \<noteq> 0xFF then Some s
      else do {
        let t = take 32 (version_text bl);
        let ver = t @ [0] @ drop (length t + 1) ver;
        (err, s) \<leftarrow> MicoFlashDisableSecurity (board bl) MICO_PARTITION_BOOTLOADER 0 (partition_length p) s;
        (err, off, s) \<leftarrow> MicoFlashWrite (board bl) MICO_PARTITION_BOOTLOADER (partition_length p - 0x20) ver 32 s;
        Some s
      })
   }"

text \<open>\<open>main\<close> after the initialisation, up to the menu (\<open>None\<close>) or to an application. The flags are the three
  functions that a board may define.\<close>

definition boot_main ::
  "('f, 'c) boot_loader \<Rightarrow> bool \<Rightarrow> bool \<Rightarrow> bool \<Rightarrow> ('f, 'c) flash_sys \<Rightarrow> (u32 option \<times> ('f, 'c) flash_sys) option" where
  "boot_main bl MicoShouldEnterBootloader MicoShouldEnterMFGMode MicoShouldEnterATEMode s = do {
     s \<leftarrow> mico_set_bootload_ver bl s;
     (err, s) \<leftarrow> update (ota_flash_ops (board bl)) s;
     s \<leftarrow> enable_protection (board bl) s;
     (if \<not> MicoShouldEnterBootloader \<or> MicoShouldEnterMFGMode then do {
        p \<leftarrow> MicoFlashGetInfo MICO_PARTITION_APPLICATION;
        (a, s) \<leftarrow> bootloader_start_app (board bl) (partition_start_addr p) s;
        Some (Some a, s)
      }
      else if MicoShouldEnterATEMode then do {
        p \<leftarrow> MicoFlashGetInfo MICO_PARTITION_ATE;
        (if partition_owner p \<noteq> MICO_FLASH_NONE then do {
           (a, s) \<leftarrow> bootloader_start_app (board bl) (partition_start_addr p) s;
           Some (Some a, s)
         } else Some (None, s))
      }
      else Some (None, s))
   }"

end
