(* ===== verification/BootLoader.thy ===== *)
theory BootLoader
  imports BootMenu "HOL-Library.Sublist"
begin

text \<open>
  What the boot loader's entrance and menu do: editing a line, the parameters of a command, the update of the RF
  firmware over the serial line as a whole command of the menu, and the way from a reset with an announced update
  to the application.
\<close>

section \<open>Editing a line\<close>

text \<open>What an operator means by the keys before the end of the line.\<close>

definition edit_key :: "u8 \<Rightarrow> bytes \<Rightarrow> bytes" where
  "edit_key c t = (if c = BACKSPACE \<or> c = DEL then butlast t else if c = CNTLQ \<or> c = CNTLS then t else t @ [c])"

definition edit :: "bytes \<Rightarrow> bytes" where
  "edit ks = fold edit_key ks []"

lemma edit_snoc: "edit (ks @ [c]) = edit_key c (edit ks)"
  by (simp add: edit_def)

lemma getline_loop_keys:
  assumes "\<forall>c\<in>set ks. c \<noteq> CR \<and> c \<noteq> LF" and "\<forall>m \<le> length ks. length (fold edit_key (take m ks) t) < n - 1"
    and "n \<le> length buf" and "take (length t) buf = t" and "length t \<le> length buf"
  shows "\<exists>buf'. getline_loop n buf (length t) (map Some ks @ rx) = getline_loop n buf' (length (fold edit_key ks t)) rx \<and>
    take (length (fold edit_key ks t)) buf' = fold edit_key ks t \<and> length buf' = length buf"
  using assms
proof (induction ks arbitrary: t buf)
  case Nil
  then show ?case by auto
next
  case (Cons c ks)
  have lt: "length (edit_key c t) < n - 1" using Cons.prems(2) [rule_format, of 1] by simp
  have t: "length t < n - 1" using Cons.prems(2) [rule_format, of 0] by simp
  have c: "c \<noteq> CR" "c \<noteq> LF" using Cons.prems(1) by auto
  define buf1 where "buf1 = (if c = BACKSPACE \<or> c = DEL \<or> c = CNTLQ \<or> c = CNTLS then buf else buf[length t := c])"
  have step: "getline_loop n buf (length t) (map Some (c # ks) @ rx) = getline_loop n buf1 (length (edit_key c t)) (map Some ks @ rx)"
    using c lt t Cons.prems(3) by (subst getline_loop.simps) (auto simp: buf1_def edit_key_def wr_def)
  have bl: "take (length t - 1) buf = butlast t"
    by (metis Cons.prems(4) butlast_conv_take diff_le_self min.absorb1 take_take)
  have "take (Suc (length t)) (buf[length t := c]) = t @ [c]"
    using Cons.prems(3,4) t by (simp add: take_Suc_conv_app_nth)
  then have p: "take (length (edit_key c t)) buf1 = edit_key c t"
    using bl Cons.prems(4) by (simp add: buf1_def edit_key_def)
  have le: "length (edit_key c t) \<le> length buf1" "n \<le> length buf1" "length buf1 = length buf"
    using lt Cons.prems(3) by (auto simp: buf1_def)
  have "\<forall>m \<le> length ks. length (fold edit_key (take m ks) (edit_key c t)) < n - 1"
    using Cons.prems(2) by (metis Suc_le_mono fold_simps(2) length_Cons take_Suc_Cons)
  then show ?case using Cons.IH [OF _ _ le(2) p le(1)] Cons.prems(1) step le(3) by auto
qed

lemma getline_line:
  assumes "\<forall>c\<in>set ks. c \<noteq> CR \<and> c \<noteq> LF" and "\<forall>m \<le> length ks. length (edit (take m ks)) < length buf - 1"
    and "e = CR \<or> e = LF"
  shows "\<exists>buf'. getline (length buf) buf (map Some (ks @ [e]) @ rx) = Returned (buf', rx) \<and>
    take (length (edit ks) + 1) buf' = edit ks @ [0] \<and> length buf' = length buf"
proof -
  let ?n = "length buf" and ?t = "edit ks"
  obtain b where b: "getline_loop ?n buf 0 (map Some ks @ Some e # rx) = getline_loop ?n b (length ?t) (Some e # rx)"
    "take (length ?t) b = ?t" "length b = ?n"
    using getline_loop_keys [of ks "[]" ?n buf "Some e # rx"] assms(1,2) unfolding edit_def by auto
  have lt: "length ?t < ?n - 1" using assms(2) [rule_format, of "length ks"] by simp
  have "getline_loop ?n b (length ?t) (Some e # rx) = Returned (b[length ?t := LF], length ?t + 1, rx)"
    using assms(3) lt b(3) by (subst getline_loop.simps) (auto simp: wr_def)
  moreover have "take (length ?t + 1) (b[length ?t := 0]) = ?t @ [0]"
    using b(2,3) lt by (simp add: take_Suc_conv_app_nth)
  ultimately show ?thesis using b(1,3) lt by (auto simp: getline_def wr_def)
qed

section \<open>Parameters of a command\<close>

lemma match_para_text:
  assumes "0 \<notin> set p" and "k \<le> length p"
  shows "\<exists>j k'. match_para (u @ cs @ 0 # r) p (length u) k = Some (j, k') \<and> k \<le> k' \<and> k' \<le> length p \<and>
    j = length u + (k' - k) \<and> (k' = length p \<longleftrightarrow> take (length p - k) cs = drop k p)"
  using assms(2)
proof (induction "length p - k" arbitrary: k u cs)
  case 0
  then show ?case by (subst match_para.simps) auto
next
  case (Suc n)
  then have k: "k < length p" by simp
  then have d: "drop k p = p ! k # drop (k + 1) p" by (simp add: Cons_nth_drop_Suc)
  show ?case
  proof (cases cs)
    case Nil
    have "p ! k \<noteq> 0" using assms(1) k by (metis nth_mem)
    then show ?thesis using k d Nil by (subst match_para.simps) (auto simp: rd_def nth_append)
  next
    case (Cons c cs')
    show ?thesis
    proof (cases "c = p ! k")
      case False
      then show ?thesis using k d Cons by (subst match_para.simps) (auto simp: rd_def nth_append take_Cons')
    next
      case True
      have n: "n = length p - (k + 1)" "k + 1 \<le> length p" using Suc.hyps(2) k by auto
      obtain j k' where "match_para ((u @ [c]) @ cs' @ 0 # r) p (length (u @ [c])) (k + 1) = Some (j, k')"
        "k + 1 \<le> k'" "k' \<le> length p" "j = length (u @ [c]) + (k' - (k + 1))"
        "k' = length p \<longleftrightarrow> take (length p - (k + 1)) cs' = drop (k + 1) p"
        using Suc.hyps(1) [OF n, of "u @ [c]" cs'] by blast
      moreover have "match_para (u @ cs @ 0 # r) p (length u) k = match_para ((u @ [c]) @ cs' @ 0 # r) p (length (u @ [c])) (k + 1)"
        using True k Cons by (subst match_para.simps) (simp add: rd_def nth_append)
      ultimately show ?thesis using True k d Cons by (intro exI [of _ j] exI [of _ k']) (auto simp: take_Cons')
    qed
  qed
qed

text \<open>The text behind the first option with the name \<open>p\<close> and a blank.\<close>

fun option_rest :: "bytes \<Rightarrow> bytes \<Rightarrow> bytes option" where
  "option_rest p [] = None"
| "option_rest p (c # cs) =
     (if c = ch CHR ''-'' \<and> take (length p + 1) cs = p @ [0x20] then Some (drop (length p + 1) cs) else option_rest p cs)"

definition option_value :: "bytes \<Rightarrow> bytes" where
  "option_value t = takeWhile (\<lambda>c. c \<noteq> 0x20 \<and> c \<noteq> ch CHR ''-'') (dropWhile (\<lambda>c. c = 0x20) t)"

lemma option_rest_suffix: "option_rest p cs = Some t \<Longrightarrow> \<exists>v. cs = v @ p @ 0x20 # t"
proof (induction cs)
  case (Cons c cs)
  show ?case
  proof (cases "c = ch CHR ''-'' \<and> take (length p + 1) cs = p @ [0x20]")
    case True
    then have "c # cs = [c] @ p @ 0x20 # t"
      using Cons.prems append_take_drop_id [of "length p + 1" cs] by simp
    then show ?thesis by blast
  next
    case False
    then obtain v where "cs = v @ p @ 0x20 # t" using Cons by auto
    then have "c # cs = (c # v) @ p @ 0x20 # t" by simp
    then show ?thesis by blast
  qed
qed simp

lemma find_para_text:
  assumes "0 \<notin> set p"
  shows "0 \<notin> set cs \<Longrightarrow> \<not> suffix (ch CHR ''-'' # p) cs \<Longrightarrow>
    find_para (u @ cs @ 0 # r) p (length u) =
      Some (map_option (\<lambda>t. length u + length cs - length t - 1) (option_rest p cs))"
proof (induction cs arbitrary: u)
  case Nil
  then show ?case by (subst find_para.simps) (simp add: rd_def nth_append)
next
  case (Cons c cs)
  have ns: "\<not> suffix (ch CHR ''-'' # p) cs" using Cons.prems(2) by (meson suffix_ConsI)
  have nx: "find_para (u @ (c # cs) @ 0 # r) p (length u + 1) =
      Some (map_option (\<lambda>t. length u + length (c # cs) - length t - 1) (option_rest p cs))"
    using Cons.IH [of "u @ [c]"] Cons.prems(1) ns by simp
  have c: "rd (u @ (c # cs) @ 0 # r) (length u) = Some c" "c \<noteq> 0"
    using Cons.prems(1) by (auto simp: rd_def nth_append)
  show ?case
  proof (cases "c = ch CHR ''-''")
    case False
    then show ?thesis using nx c by (subst find_para.simps) simp
  next
    case True
    obtain j k where m: "match_para (u @ (c # cs) @ 0 # r) p (length u + 1) 0 = Some (j, k)" "k \<le> length p"
      "j = length u + 1 + k" "k = length p \<longleftrightarrow> take (length p) cs = p"
      using match_para_text [OF assms, of 0 "u @ [c]" cs r] by auto
    show ?thesis
    proof (cases "k = length p")
      case False
      then have "take (length p + 1) cs \<noteq> p @ [0x20]" using m(4) by (metis append_eq_conv_conj min.absorb1 le_add1 take_take)
      then show ?thesis using False m(1,2) nx c True by (subst find_para.simps) simp
    next
      case k: True
      then have p: "take (length p) cs = p" using m(4) by simp
      have "cs \<noteq> p" using Cons.prems(2) True by auto
      then have lt: "length p < length cs" using p by (metis leI take_all)
      then have y: "rd (u @ (c # cs) @ 0 # r) j = Some (cs ! length p)" "cs ! length p \<noteq> 0"
        using Cons.prems(1) m(3) k by (auto simp: rd_def nth_append nth_Cons' in_set_conv_nth)
      have t: "take (length p + 1) cs = p @ [0x20] \<longleftrightarrow> cs ! length p = 0x20"
        using p lt by (simp add: take_Suc_conv_app_nth)
      show ?thesis
        using k m nx c True y t lt by (subst find_para.simps) simp
    qed
  qed
qed

lemma skip_blanks_text:
  "skip_blanks (u @ t @ 0 # r) (length u) = Some (length u + length (takeWhile (\<lambda>c. c = 0x20) t))"
proof (induction t arbitrary: u)
  case Nil
  then show ?case by (subst skip_blanks.simps) (simp add: rd_def nth_append)
next
  case (Cons c t)
  show ?case using Cons [of "u @ [c]"] by (subst skip_blanks.simps) (auto simp: rd_def nth_append)
qed

abbreviation in_body :: "u8 \<Rightarrow> bool" where
  "in_body c \<equiv> c \<noteq> 0x20 \<and> c \<noteq> ch CHR ''-''"

lemma copy_body_null:
  "0 \<notin> set t \<Longrightarrow> copy_body (u @ t @ 0 # r) (length u) None 0 j = Some (j + length (takeWhile in_body t), None)"
proof (induction t arbitrary: u j)
  case Nil
  then show ?case by (subst copy_body.simps) (simp add: rd_def nth_append)
next
  case (Cons c t)
  then show ?case using Cons.IH [of "u @ [c]" "j + 1"] by (subst copy_body.simps) (auto simp: rd_def nth_append)
qed

lemma copy_body_text:
  "0 \<notin> set t \<Longrightarrow> length w < n \<Longrightarrow> n \<le> length w + length b \<Longrightarrow>
     copy_body (u @ t @ 0 # r) (length u) (Some (w @ b)) n (length w) =
       (let v = take (n - length w) (takeWhile in_body t)
        in Some (length w + length v, Some (w @ v @ drop (length v) b)))"
proof (induction t arbitrary: u w b)
  case Nil
  then show ?case by (subst copy_body.simps) (simp add: rd_def nth_append Let_def)
next
  case (Cons c t)
  show ?case
  proof (cases "in_body c")
    case False
    then show ?thesis by (subst copy_body.simps) (auto simp: rd_def nth_append Let_def)
  next
    case True
    obtain b0 b' where b: "b = b0 # b'" using Cons.prems(2,3) by (cases b) auto
    have w: "wr (w @ b) (length w) c = Some ((w @ [c]) @ b')" using b by (simp add: wr_def list_update_append)
    show ?thesis
    proof (cases "length w + 1 = n")
      case True
      then have "n - length w = 1" by simp
      then show ?thesis
        using \<open>in_body c\<close> Cons.prems(1) w b True by (subst copy_body.simps) (auto simp: rd_def nth_append Let_def)
    next
      case False
      have "copy_body ((u @ [c]) @ t @ 0 # r) (length (u @ [c])) (Some ((w @ [c]) @ b')) n (length (w @ [c])) =
         (let v = take (n - length (w @ [c])) (takeWhile in_body t)
          in Some (length (w @ [c]) + length v, Some ((w @ [c]) @ v @ drop (length v) b')))"
        using Cons.prems b False by (intro Cons.IH) auto
      moreover have "n - length w = Suc (n - length (w @ [c]))" using Cons.prems(2) by simp
      ultimately show ?thesis
        using \<open>in_body c\<close> Cons.prems(1) w b False by (subst copy_body.simps) (auto simp: rd_def nth_append Let_def)
    qed
  qed
qed

lemma found_value:
  assumes "0 \<notin> set cs" and "option_rest p cs = Some t"
  shows "\<exists>u s. cs @ 0 # r = u @ s @ 0 # r \<and> 0 \<notin> set s \<and>
    skip_blanks (cs @ 0 # r) (length cs - length t) = Some (length u) \<and> takeWhile in_body s = option_value t"
proof -
  obtain v where v: "cs = (v @ p @ [0x20]) @ t" using option_rest_suffix [OF assms(2)] by auto
  let ?b = "takeWhile (\<lambda>c. c = 0x20) t" and ?s = "dropWhile (\<lambda>c. c = 0x20) t"
  have "skip_blanks ((v @ p @ [0x20]) @ t @ 0 # r) (length (v @ p @ [0x20])) = Some (length (v @ p @ [0x20]) + length ?b)"
    by (rule skip_blanks_text)
  moreover have "cs @ 0 # r = (v @ p @ [0x20] @ ?b) @ ?s @ 0 # r" using v by simp
  moreover have "0 \<notin> set ?s" using assms(1) v by (auto dest: set_dropWhileD)
  ultimately show ?thesis
    using v by (intro exI [of _ "v @ p @ [0x20] @ ?b"] exI [of _ ?s]) (simp add: option_value_def)
qed

lemma findCommandPara_text:
  fixes cs para :: bytes
  defines "P \<equiv> map toupper para"
  assumes "0 \<notin> set cs" and "0 \<notin> set para" and "length para < 100" and "\<not> suffix (ch CHR ''-'' # P) cs"
  shows "findCommandPara (cs @ 0 # r) para None 0 =
      Some (case option_rest P cs of None \<Rightarrow> - 1 | Some t \<Rightarrow> int (length (option_value t)), None)"
    and "0 < n \<Longrightarrow> n \<le> length b \<Longrightarrow> findCommandPara (cs @ 0 # r) para (Some b) n =
      (case option_rest P cs of None \<Rightarrow> None
       | Some t \<Rightarrow> let v = take n (option_value t) in
           if length v < length b then Some (int (length v), Some (v @ 0 # drop (length v + 1) b)) else None)"
proof -
  have P: "0 \<notin> set P" using assms(3) by (auto simp: P_def toupper_def split: if_splits)
  have f: "find_para (cs @ 0 # r) P 0 = Some (map_option (\<lambda>t. length cs - length t - 1) (option_rest P cs))"
    using find_para_text [OF P assms(2,5), of "[]" r] by simp
  have pos: "length cs - length t - 1 + 1 = length cs - length t" if "option_rest P cs = Some t" for t
    using option_rest_suffix [OF that] by auto
  show "findCommandPara (cs @ 0 # r) para None 0 =
      Some (case option_rest P cs of None \<Rightarrow> - 1 | Some t \<Rightarrow> int (length (option_value t)), None)"
  proof (cases "option_rest P cs")
    case None
    then show ?thesis using f assms(4) by (simp add: findCommandPara_def P_def)
  next
    case (Some t)
    obtain u s where s: "cs @ 0 # r = u @ s @ 0 # r" "0 \<notin> set s"
      "skip_blanks (cs @ 0 # r) (length cs - length t) = Some (length u)" "takeWhile in_body s = option_value t"
      using found_value [OF assms(2) Some] by blast
    then show ?thesis
      using f assms(4) Some pos [OF Some] copy_body_null [OF s(2), of u r 0]
      by (simp add: findCommandPara_def P_def del: One_nat_def add_Suc_right)
  qed
  show "findCommandPara (cs @ 0 # r) para (Some b) n =
      (case option_rest P cs of None \<Rightarrow> None
       | Some t \<Rightarrow> let v = take n (option_value t) in
           if length v < length b then Some (int (length v), Some (v @ 0 # drop (length v + 1) b)) else None)"
    if "0 < n" "n \<le> length b"
  proof (cases "option_rest P cs")
    case None
    then show ?thesis using f assms(4) by (simp add: findCommandPara_def P_def)
  next
    case (Some t)
    obtain u s where s: "cs @ 0 # r = u @ s @ 0 # r" "0 \<notin> set s"
      "skip_blanks (cs @ 0 # r) (length cs - length t) = Some (length u)" "takeWhile in_body s = option_value t"
      using found_value [OF assms(2) Some] by blast
    define v where "v = take n (option_value t)"
    have c: "copy_body (cs @ 0 # r) (length u) (Some b) n 0 = Some (length v, Some (v @ drop (length v) b))"
      using copy_body_text [OF s(2), of "[]" n b u r] that s(1,4) by (simp add: Let_def v_def)
    have w: "wr (v @ drop (length v) b) (length v) 0 =
        (if length v < length b then Some (v @ 0 # drop (length v + 1) b) else None)"
      by (auto simp: wr_def list_update_append upd_conv_take_nth_drop)
    show ?thesis
      using f assms(4) Some pos [OF Some] s(3) c w
      by (simp add: findCommandPara_def P_def Let_def v_def [symmetric] del: One_nat_def add_Suc_right)
  qed
qed

section \<open>Updating the RF firmware from the menu\<close>

lemma toupper_simps [simp]: "toupper c = 0 \<longleftrightarrow> c = 0" "toupper c = 0x20 \<longleftrightarrow> c = 0x20" "toupper 0 = 0" "toupper 0x20 = 0x20"
proof -
  have "c - 0x20 \<noteq> 0" "c - 0x20 \<noteq> 0x20" if "0x61 \<le> c" "c \<le> 0x7A"
    using that by (auto simp: diff_eq_eq)
  then show "toupper c = 0 \<longleftrightarrow> c = 0" "toupper c = 0x20 \<longleftrightarrow> c = 0x20" by (auto simp: toupper_def)
qed (simp_all add: toupper_def)

lemma upcase_text: "0 \<notin> set t \<Longrightarrow> upcase (t @ 0 # r) = Some (map toupper t @ 0 # r)"
  by (induction t) auto

lemma copy_cmdname_text:
  "0 \<notin> set t \<Longrightarrow> 0x20 \<notin> set t \<Longrightarrow> length t \<le> length b \<Longrightarrow>
     copy_cmdname (u @ t @ 0 # r) (length u) (w @ b) (length w) = Some (length w + length t, w @ t @ drop (length t) b)"
proof (induction t arbitrary: u w b)
  case Nil
  then show ?case by (subst copy_cmdname.simps) (simp add: rd_def nth_append)
next
  case (Cons c t)
  obtain b0 b' where b: "b = b0 # b'" using Cons.prems(3) by (cases b) auto
  have w: "wr (w @ b) (length w) c = Some ((w @ [c]) @ b')" using b by (simp add: wr_def list_update_append)
  show ?case
    using Cons.prems w b Cons.IH [of b' "u @ [c]" "w @ [c]"]
    by (subst copy_cmdname.simps) (auto simp: rd_def nth_append)
qed

text \<open>A command of one word, typed with corrections.\<close>

definition typed :: "nat \<Rightarrow> bytes \<Rightarrow> bytes \<Rightarrow> bool" where
  "typed n ks l \<longleftrightarrow> list_all (\<lambda>c. c \<noteq> CR \<and> c \<noteq> LF) ks \<and>
     list_all (\<lambda>m. length (edit (take m ks)) < n - 1) [0..<length ks + 1] \<and> edit ks = l"

lemma getline_typed:
  assumes "typed (length buf) ks l" and "e = CR \<or> e = LF"
  shows "\<exists>r. getline (length buf) buf (map Some (ks @ [e]) @ rx) = Returned (l @ 0 # r, rx) \<and>
    length (l @ 0 # r) = length buf"
proof -
  obtain buf' where b: "getline (length buf) buf (map Some (ks @ [e]) @ rx) = Returned (buf', rx)"
    "take (length l + 1) buf' = l @ [0]" "length buf' = length buf"
  proof -
    have m: "length (edit (take m ks)) < length buf - 1" if "m \<le> length ks" for m
      using assms(1) that by (simp add: typed_def list_all_iff less_Suc_eq_le del: upt_Suc)
    have k: "\<forall>c\<in>set ks. c \<noteq> CR \<and> c \<noteq> LF" "edit ks = l" using assms(1) by (simp_all add: typed_def list_all_iff)
    show thesis using getline_line [OF k(1) _ assms(2), of buf rx] m that k(2) by blast
  qed
  have "buf' = l @ 0 # drop (length l + 1) buf'" using b(2) append_take_drop_id [of "length l + 1" buf'] by simp
  then show ?thesis using b by (intro exI [of _ "drop (length l + 1) buf'"]) auto
qed

lemma read_command_word:
  assumes "typed (length (cmdbuf s)) ks l" and "e = CR \<or> e = LF" and "line_rx s = map Some (ks @ [e]) @ rx"
    and "0 \<notin> set l" and "0x20 \<notin> set l" and "length l < length (cmdname s)"
  shows "\<exists>r q. read_command s =
    Returned (s\<lparr>line_rx := rx, cmdbuf := map toupper l @ 0 # r, cmdname := map toupper l @ 0 # q\<rparr>)"
proof -
  obtain r where g: "getline (length (cmdbuf s)) (cmdbuf s) (line_rx s) = Returned (l @ 0 # r, rx)"
    using getline_typed [OF assms(1,2)] assms(3) by auto
  let ?u = "map toupper l"
  have sk: "skip_blanks (t @ 0 # r) 0 = Some 0" if "0x20 \<notin> set t" for t
    using skip_blanks_text [of "[]" t r] that by (cases t) auto
  have u: "0 \<notin> set ?u" "0x20 \<notin> set ?u" using assms(4,5) by auto
  have c: "copy_cmdname (?u @ 0 # r) 0 (cmdname s) 0 = Some (length l, ?u @ drop (length l) (cmdname s))"
    using copy_cmdname_text [of ?u "cmdname s" "[]" r "[]"] u assms(6) by simp
  have w: "wr (?u @ drop (length l) (cmdname s)) (length l) 0 = Some (?u @ 0 # drop (length l + 1) (cmdname s))"
    using assms(6) by (auto simp: wr_def list_update_append upd_conv_take_nth_drop)
  show ?thesis
    using upcase_text [OF assms(4), of r] sk [OF assms(5)] sk [OF u(2)]
    by (intro exI [of _ r] exI [of _ "drop (length l + 1) (cmdname s)"]) (simp add: read_command_def g c w)
qed

lemma no_r_option:
  assumes "l = str ''2'' \<or> l = str ''DRIVERUPDATE''"
  shows "findCommandPara (l @ 0 # r) (str ''r'') None 0 = Some (- 1, None)"
  using findCommandPara_text(1) [of l "str ''r''" r] assms
  by (auto simp: suffix_def toupper_def Cons_eq_append_conv)

text \<open>A boot loader whose serial flash answers and identifies itself.\<close>

locale boot_line = boot_spi env cells_of wel prot pending + identified_spi env cells_of wel prot pending
  for env :: "('f, 'c) mico_env" and cells_of :: "'c \<Rightarrow> cells" and wel :: "'c \<Rightarrow> bool"
    and prot :: "'c \<Rightarrow> u8" and pending :: "'c \<Rightarrow> nat"
begin

lemma driver_update:
  assumes s: "sys_ready (boot_flash s)" and bl: "board bl = env"
    and bufs: "length (tab_1024 s) = PACKET_1K_SIZE" "length (packet_array bl) = PACKET_1K_SIZE + PACKET_OVERHEAD"
      "length (size_array bl) = FILE_SIZE_LENGTH" "length (last_name s) = FILE_NAME_LENGTH" "length (cmdname s) = 15"
    and cmd: "typed (length (cmdbuf s)) ks l" "map toupper l = str ''2'' \<or> map toupper l = str ''DRIVERUPDATE''"
      "e = CR \<or> e = LF"
    and rx: "line_rx s = map Some (ks @ [e]) @ map Some (ym_session (name_payload name sz x) c bs last_payload c') @ rest"
    and p: "payload_size (name_payload name sz x)"
    and nm: "name \<noteq> []" "\<forall>c \<in> set name. c \<noteq> 0" "length name < FILE_NAME_LENGTH"
    and m: "sint sz \<le> 0x3E001" "\<forall>b \<in> set bs. payload_size (fst b)" "length (block_bytes bs) \<le> 0x3E000"
    and q: "payload_size last_payload" "hd last_payload = 0"
  shows "\<exists>s'. menu_round bl s = Returned (Next_command, s') \<and> line_rx s' = rest \<and> sys_ready (boot_flash s') \<and>
    mread (spi_cells (boot_flash s')) 0x2000 (length (block_bytes bs)) = block_bytes bs \<and>
    (\<forall>a. a < 0x2000 \<or> 0x40000 \<le> a \<longrightarrow> spi_cells (boot_flash s') a = spi_cells (boot_flash s) a) \<and>
    take (length name + 1) (last_name s') = name @ [0]"
proof -
  let ?rx = "map Some (ym_session (name_payload name sz x) c bs last_payload c') @ rest"
  have l: "length l < length (cmdname s)"
  proof -
    have "length (map toupper l) < 15" using cmd(2) by (elim disjE) (simp_all only: list.size, simp_all)
    then show ?thesis using bufs(5) by simp
  qed
  have "0 \<notin> set (map toupper l)" "0x20 \<notin> set (map toupper l)" using cmd(2) by auto
  then have l0: "0 \<notin> set l" "0x20 \<notin> set l" by auto
  obtain r w where rc: "read_command s =
      Returned (s\<lparr>line_rx := ?rx, cmdbuf := map toupper l @ 0 # r, cmdname := map toupper l @ 0 # w\<rparr>)"
    using read_command_word [OF cmd(1,3) rx l0 l] by blast
  let ?s1 = "s\<lparr>line_rx := ?rx, cmdbuf := map toupper l @ 0 # r, cmdname := map toupper l @ 0 # w\<rparr>"
  have nam: "c_string (cmdname ?s1) = Some (map toupper l)" using l0 by (simp add: image_iff)
  have part: "MicoFlashGetInfo MICO_PARTITION_RF_FIRMWARE = Some (mico_partitions ! 4)"
    "partition_owner (mico_partitions ! 4) = MICO_FLASH_SPI" "partition_start_addr (mico_partitions ! 4) = 0x2000"
    "partition_length (mico_partitions ! 4) = 0x3E000"
    by (simp_all add: MicoFlashGetInfo_def partition_at_def mico_partitions_def)
  have dis: "MicoFlashDisableSecurity env MICO_PARTITION_RF_FIRMWARE 0 0x3E000 (boot_flash s) = Some (kNoErr, boot_flash s)"
    using spi_disable_ok [OF s, of MICO_PARTITION_RF_FIRMWARE] part(4) by (simp add: spi_parts_def spi_size_def)
  have round: "menu_round bl s = andThen (SerialDownload bl MICO_FLASH_SPI 0x2000 0x3E000 ?s1) (\<lambda>s. Returned (Next_command, s))"
    using cmd(2) no_r_option [of "map toupper l" r] part dis bl nam
    by (auto simp: menu_round_def rc command_is_def Let_def read_or_update_def has_para_def)
  have lim: "sint sz \<le> sint (0x3E000 :: u32) + 1" "0 < unat (0x3E000 :: u32)"
    "unat (0x2000 :: u32) + unat (0x3E000 :: u32) \<le> 0x200000" "length (block_bytes bs) \<le> unat (0x3E000 :: u32)"
    using m(1,3) by (simp_all add: sint_small_u32)
  have d: "dev_ready (devices (boot_flash s))" using s by (simp add: sys_ready_dev)
  obtain v' d' t' where y: "Ymodem_Receive (platform_ym_flash env MICO_FLASH_SPI) (tab_1024 s) 0x2000 0x3E000
      (packet_array bl) (size_array bl) (last_name s) \<lparr>ym_rx = ?rx, ym_tx = line_tx s, ym_dev = devices (boot_flash s)\<rparr> =
      Returned (sint sz, v', \<lparr>ym_rx = rest, ym_tx = t', ym_dev = d'\<rparr>)"
    "take (length name + 1) (FileName v') = name @ [0]" "dev_ready d'"
    "mread (cells_of (chip d')) (unat (0x2000 :: u32)) (length (block_bytes bs)) = block_bytes bs"
    "\<forall>x. x < unat (0x2000 :: u32) div 4096 * 4096 \<or>
      (unat (0x2000 :: u32) + unat (0x3E000 :: u32) - 1) div 4096 * 4096 + 4096 \<le> x \<longrightarrow>
      cells_of (chip d') x = cells_of (chip (devices (boot_flash s))) x"
    using serial.session_received [OF d bufs(1-4) p nm lim(1-3) m(2) lim(4) q, of c c' rest "line_tx s"] by blast
  show ?thesis
    unfolding round using y s by (simp add: SerialDownload_def bl spi_cells_def sys_ready_dev)
qed

end

section \<open>From a reset to the application\<close>

context identified_spi begin

lemma dev_init_ready:
  assumes "ready (chip d)"
  shows "\<exists>d'. platform_flash_init (flash_env.truncate env) (platform_flash_peripherals MICO_FLASH_SPI) d =
      Some (kNoErr, d') \<and> dev_ready d' \<and> cells_of (chip d') = cells_of (chip d)"
proof -
  define d1 where "d1 = d\<lparr>sflash_handle := \<lparr>device_id = 0, write_allowed = SFLASH_WRITE_ALLOWED\<rparr>\<rparr>"
  have "init_sflash (env_spi_init env) x w h c = init_sflash (env_spi_init env) x w h' c" for x w h h' c
    using bus by (simp add: init_sflash_def Let_def)
  from this [of _ _ "sflash_handle d" _ "sflash_handle d1"]
  have "platform_flash_init (flash_env.truncate env) (platform_flash_peripherals MICO_FLASH_SPI) d =
      platform_flash_init (flash_env.truncate env) (platform_flash_peripherals MICO_FLASH_SPI) d1"
    by (simp add: platform_flash_init_def platform_flash_peripherals_def flash_env.truncate_def d1_def)
  moreover have "dev_ready d1" using assms by (simp add: dev_ready_def d1_def)
  ultimately show ?thesis using dev_init [of d1] by (simp add: d1_def)
qed

end

context boot_line begin

text \<open>The state after the initialisation that the first operation on the serial flash makes.\<close>

lemma first_read:
  assumes u: "\<not> initialized (drivers s MICO_FLASH_SPI)" and r: "ready (chip (devices s))" and m: "init_mutex env = kNoErr"
  shows "\<exists>t. sys_ready t \<and> spi_cells t = spi_cells s \<and>
    MicoFlashRead env MICO_PARTITION_PARAMETER_1 0 24 s = MicoFlashRead env MICO_PARTITION_PARAMETER_1 0 24 t"
proof -
  obtain d where d: "platform_flash_init (flash_env.truncate env) (platform_flash_peripherals MICO_FLASH_SPI) (devices s) =
      Some (kNoErr, d)" "dev_ready d" "cells_of (chip d) = cells_of (chip (devices s))"
    using dev_init_ready [OF r] by blast
  define t where "t = \<lparr>drivers = (drivers s)(MICO_FLASH_SPI := \<lparr>flash_mutex = True, initialized = True\<rparr>), devices = d\<rparr>"
  have p: "partition_at 5 = Some (mico_partitions ! 5)" "partition_owner (mico_partitions ! 5) = MICO_FLASH_SPI"
    by (simp_all add: partition_at_def mico_partitions_def)
  have "flash_ensure_init env 5 MICO_FLASH_SPI s = Some (kNoErr, t)"
    "flash_ensure_init env 5 MICO_FLASH_SPI t = Some (kNoErr, t)"
    using u m d(1) p by (simp_all add: flash_ensure_init_def MicoFlashInitialize_def t_def)
  then have "MicoFlashRead env 5 0 24 s = MicoFlashRead env 5 0 24 t"
    using p by (simp add: MicoFlashRead_def Let_def flash_checks_def mico_partitions_def)
  then show ?thesis using d by (intro exI [of _ t]) (simp add: t_def sys_ready_dev spi_cells_def)
qed

lemma update_from_reset:
  assumes "\<not> initialized (drivers s MICO_FLASH_SPI)" and "ready (chip (devices s))" and "init_mutex env = kNoErr"
    and "announces (mread (spi_cells s) 0 24) MICO_PARTITION_RF_FIRMWARE"
    and "len = unat (image_length (mread (spi_cells s) 0 24))"
  shows "\<exists>s'. update (ota_flash_ops env) s = Some (kNoErr, s') \<and> sys_ready s' \<and>
    mread (spi_cells s') 0x2000 len = mread (spi_cells s) 0x40000 len \<and>
    mread (spi_cells s') 0x40000 0x70000 = replicate 0x70000 0xFF \<and>
    mread (spi_cells s') 0 0x1000 = replicate 24 0xFF @ mread (spi_cells s) 24 0xFE8"
proof -
  obtain t where t: "sys_ready t" "spi_cells t = spi_cells s"
    "MicoFlashRead env MICO_PARTITION_PARAMETER_1 0 24 s = MicoFlashRead env MICO_PARTITION_PARAMETER_1 0 24 t"
    using first_read [OF assms(1-3)] by blast
  have "update (ota_flash_ops env) s = update (ota_flash_ops env) t"
    using t(3) info_at [of MICO_PARTITION_OTA_TEMP] info_at [of MICO_PARTITION_PARAMETER_1]
    by (simp add: update_def ota_flash_ops_def mico_partitions_def Let_def)
  then show ?thesis using update_on_flash [OF t(1), unfolded t(2), OF assms(4,5)] by simp
qed

lemma enable_security_keeps:
  assumes "sys_ready s" and "0 \<le> i" and "i < MICO_PARTITION_MAX"
  shows "\<exists>err s'. MicoFlashEnableSecurity env i 0 n s = Some (err, s') \<and> sys_ready s' \<and> spi_cells s' = spi_cells s"
proof -
  define p where "p = mico_partitions ! nat i"
  have i: "partition_at i = Some p" using assms(2,3) by (simp add: partition_at_def p_def mico_partitions_def)
  have "nat i \<in> {0,1,2,3,4,5,6}" using assms(2,3) by auto
  then have o: "partition_owner p \<in> {MICO_FLASH_EMBEDDED, MICO_FLASH_SPI, MICO_FLASH_NONE}"
    by (auto simp: p_def mico_partitions_def)
  obtain err s1 where e: "partition_owner p \<noteq> MICO_FLASH_NONE \<longrightarrow> flash_ensure_init env i (partition_owner p) s = Some (err, s1) \<and>
      sys_ready s1 \<and> spi_cells s1 = spi_cells s"
  proof (cases "partition_owner p = MICO_FLASH_EMBEDDED")
    case True
    then show thesis using that assms i
      by (fastforce simp: flash_ensure_init_def MicoFlashInitialize_def platform_flash_init_def platform_flash_peripherals_def
          internalFlashInitialize_def sys_ready_def spi_cells_def Let_def)
  next
    case False
    then show thesis using that [of kNoErr s] o assms(1) by (auto simp: flash_ensure_init_def sys_ready_def)
  qed
  have "flash_checks i p True 0 a b \<noteq> kNoErr" if "partition_owner p = MICO_FLASH_NONE" for a b
    using that by (simp add: flash_checks_def)
  then show ?thesis
    using e i assms(1) by (auto simp: MicoFlashEnableSecurity_def Let_def)
qed

lemma protect_keeps:
  "sys_ready s \<Longrightarrow> list_all (\<lambda>i. 0 \<le> i \<and> i < MICO_PARTITION_MAX) is \<Longrightarrow>
     \<exists>s'. protect_loop env is s = Some s' \<and> sys_ready s' \<and> spi_cells s' = spi_cells s"
proof (induction "is" arbitrary: s)
  case (Cons i ks)
  have "0 \<le> i" "i < MICO_PARTITION_MAX" using Cons.prems(2) by simp_all
  then obtain err t where t: "MicoFlashEnableSecurity env i 0 (partition_length (mico_partitions ! nat i)) s = Some (err, t)"
    "sys_ready t" "spi_cells t = spi_cells s"
    using enable_security_keeps [OF Cons.prems(1)] by blast
  show ?case
    using Cons.IH [OF t(2)] Cons.IH [OF Cons.prems(1)] Cons.prems(2) t info_at [of i] by auto
qed simp

lemma enable_protection_keeps:
  "sys_ready s \<Longrightarrow> \<exists>s'. enable_protection env s = Some s' \<and> sys_ready s' \<and> spi_cells s' = spi_cells s"
  unfolding enable_protection_def by (rule protect_keeps) (simp_all add: upto_rec1)

text \<open>A version text in the last bytes of the boot loader is left alone.\<close>

lemma version_kept:
  assumes b: "board bl = env" and m: "init_mutex env = kNoErr"
    and u: "\<not> initialized (drivers s MICO_FLASH_EMBEDDED)"
    and v: "list_ex (\<lambda>c. c \<noteq> 0xFF) (mread (fl_cells (env_hw env) (FLASH_Unlock (env_hw env) (internal (devices s)))) 0x08007FE0 32)"
  shows "\<exists>s'. mico_set_bootload_ver bl s = Some s' \<and> drivers s' MICO_FLASH_SPI = drivers s MICO_FLASH_SPI \<and>
    chip (devices s') = chip (devices s) \<and> sflash_handle (devices s') = sflash_handle (devices s)"
proof -
  define t where "t = \<lparr>drivers = (drivers s)(MICO_FLASH_EMBEDDED := \<lparr>flash_mutex = True, initialized = True\<rparr>),
    devices = (devices s)\<lparr>internal := FLASH_Unlock (env_hw env) (internal (devices s))\<rparr>\<rparr>"
  define ds where "ds = mread (fl_cells (env_hw env) (FLASH_Unlock (env_hw env) (internal (devices s)))) 0x08007FE0 32"
  have p: "MicoFlashGetInfo 0 = Some (mico_partitions ! 0)" "partition_at 0 = Some (mico_partitions ! 0)"
    "partition_length (mico_partitions ! 0) = 0x8000"
    by (simp_all add: partition_at_def MicoFlashGetInfo_def mico_partitions_def)
  have e: "flash_ensure_init env 0 MICO_FLASH_EMBEDDED s = Some (kNoErr, t)"
    using u m p(2) by (simp add: flash_ensure_init_def MicoFlashInitialize_def mico_partitions_def platform_flash_init_def
        platform_flash_peripherals_def internalFlashInitialize_def t_def flash_env.truncate_def)
  have "MicoFlashRead env 0 0x7FE0 32 s = Some (kNoErr, 0x8000, ds, t)"
    using p(2) e boot by (simp add: MicoFlashRead_def Let_def flash_checks_def mico_partitions_def platform_flash_read_def
        platform_flash_peripherals_def flash_env.truncate_def t_def ds_def)
  moreover have "length ds = 32" "\<exists>c \<in> set ds. c \<noteq> 0xFF" using v by (auto simp: ds_def list_ex_iff)
  ultimately show ?thesis
    using b p by (intro exI [of _ t]) (auto simp: mico_set_bootload_ver_def Let_def t_def)
qed

text \<open>The whole way: version, update, protection and start.\<close>

lemma boot_updates:
  assumes b: "board bl = env" and m: "init_mutex env = kNoErr" and r: "ready (chip (devices s))"
    and u: "\<not> initialized (drivers s MICO_FLASH_EMBEDDED)" "\<not> initialized (drivers s MICO_FLASH_SPI)"
    and v: "list_ex (\<lambda>c. c \<noteq> 0xFF) (mread (fl_cells (env_hw env) (FLASH_Unlock (env_hw env) (internal (devices s)))) 0x08007FE0 32)"
    and a: "announces (mread (spi_cells s) 0 24) MICO_PARTITION_RF_FIRMWARE"
      "len = unat (image_length (mread (spi_cells s) 0 24))"
    and x: "\<not> stay \<or> mfg"
  shows "\<exists>s'. boot_main bl stay mfg ate s = Some (Some 0x0800C000, s') \<and>
    mread (spi_cells s') 0x2000 len = mread (spi_cells s) 0x40000 len \<and>
    mread (spi_cells s') 0x40000 0x70000 = replicate 0x70000 0xFF \<and>
    mread (spi_cells s') 0 0x1000 = replicate 24 0xFF @ mread (spi_cells s) 24 0xFE8"
proof -
  obtain s1 where 1: "mico_set_bootload_ver bl s = Some s1" "drivers s1 MICO_FLASH_SPI = drivers s MICO_FLASH_SPI"
    "chip (devices s1) = chip (devices s)"
    using version_kept [OF b m u(1) v] by blast
  have c1: "spi_cells s1 = spi_cells s" by (simp add: spi_cells_def 1(3))
  obtain s2 where 2: "update (ota_flash_ops env) s1 = Some (kNoErr, s2)" "sys_ready s2"
    "mread (spi_cells s2) 0x2000 len = mread (spi_cells s) 0x40000 len"
    "mread (spi_cells s2) 0x40000 0x70000 = replicate 0x70000 0xFF"
    "mread (spi_cells s2) 0 0x1000 = replicate 24 0xFF @ mread (spi_cells s) 24 0xFE8"
    using update_from_reset [of s1 len] u(2) r m a unfolding 1(2,3) c1 by blast
  obtain s3 where 3: "enable_protection env s2 = Some s3" "sys_ready s3" "spi_cells s3 = spi_cells s2"
    using enable_protection_keeps [OF 2(2)] by blast
  obtain s4 where 4: "enable_protection env s3 = Some s4" "spi_cells s4 = spi_cells s3"
    using enable_protection_keeps [OF 3(2)] by blast
  have p: "MicoFlashGetInfo MICO_PARTITION_APPLICATION = Some (mico_partitions ! 1)"
    "partition_start_addr (mico_partitions ! 1) = 0x0800C000"
    by (simp_all add: MicoFlashGetInfo_def partition_at_def mico_partitions_def)
  show ?thesis
    using 1(1) 2 3 4 p b x by (intro exI [of _ s4]) (auto simp: boot_main_def bootloader_start_app_def)
qed

end

section \<open>Properties\<close>

text \<open>
  The line editor: when the keys before the end of a line never fill the buffer, \<open>getline\<close> returns after the
  carriage return or line feed with the line as the operator means it - backspace and delete take the last character
  back, flow control characters are ignored - and its end, and leaves the rest of the input.
\<close>

theorem getline_edits:
  assumes "\<forall>c\<in>set ks. c \<noteq> CR \<and> c \<noteq> LF" and "\<forall>m \<le> length ks. length (edit (take m ks)) < length buf - 1"
    and "e = CR \<or> e = LF"
  shows "\<exists>buf'. getline (length buf) buf (map Some (ks @ [e]) @ rx) = Returned (buf', rx) \<and>
    take (length (edit ks) + 1) buf' = edit ks @ [0] \<and> length buf' = length buf"
  by (rule getline_line [OF assms])

theorem getline_edits_witness:
  "\<exists>buf'. getline (length (replicate 8 0)) (replicate 8 0) (map Some (str ''bx'' @ [BACKSPACE] @ str ''oot'' @ [CR]) @ [None]) =
      Returned (buf', [None]) \<and> take (length (str ''boot'') + 1) buf' = str ''boot'' @ [0]"
proof -
  define ks where "ks = str ''bx'' @ [BACKSPACE] @ str ''oot''"
  have e: "edit ks = str ''boot''" by (simp add: ks_def edit_def edit_key_def)
  have "list_all (\<lambda>m. length (edit (take m ks)) < 7) [0..<7]"
    by (simp add: ks_def edit_def edit_key_def upt_rec)
  then have "\<forall>m \<le> length ks. length (edit (take m ks)) < length (replicate 8 (0 :: u8)) - 1"
    by (simp add: list_all_iff ks_def less_Suc_eq_le del: upt_Suc)
  then show ?thesis
    using getline_edits [of ks "replicate 8 0" CR "[None]"] e by (auto simp: ks_def)
qed

text \<open>
  C35. Parameters of a command: in a line that does not end with the name itself, \<open>findCommandPara\<close> without a buffer
  returns the length of the text behind the first option with this name and a blank, up to the next blank or dash, or
  -1. With a buffer it stores at most \<open>n\<close> characters of this text and a zero; it writes outside the buffer when the
  text has as many characters as the buffer, and always when there is no such option.
\<close>

theorem findCommandPara_value:
  assumes "0 \<notin> set cs" and "0 \<notin> set para" and "length para < 100"
    and "\<not> suffix (ch CHR ''-'' # map toupper para) cs" and "0 < n" and "n \<le> length b"
  shows "findCommandPara (cs @ 0 # r) para None 0 =
      Some (case option_rest (map toupper para) cs of None \<Rightarrow> - 1 | Some t \<Rightarrow> int (length (option_value t)), None) \<and>
    findCommandPara (cs @ 0 # r) para (Some b) n =
      (case option_rest (map toupper para) cs of None \<Rightarrow> None
       | Some t \<Rightarrow> if length (take n (option_value t)) = length b then None
           else Some (int (length (take n (option_value t))), Some (overwrite b 0 (take n (option_value t) @ [0]))))"
proof -
  have o: "overwrite b 0 (v @ [0]) = v @ 0 # drop (length v + 1) b" if "length v < length b" for v
    using that by (simp add: overwrite_def)
  show ?thesis
    using findCommandPara_text(1) [OF assms(1-4), of r] findCommandPara_text(2) [OF assms, of r] o assms(6)
    by (auto simp: Let_def split: option.splits)
qed

theorem findCommandPara_value_witness:
  "findCommandPara (str ''4 -DEV 0 -START 0x08000000'' @ 0 # []) (str ''start'') (Some (replicate 10 0)) 10 = None"
proof -
  define cs where "cs = str ''4 -DEV 0 -START 0x08000000''"
  have s: "\<not> suffix (ch CHR ''-'' # map toupper (str ''start'')) cs"
    by (simp add: cs_def suffix_def toupper_def Cons_eq_append_conv)
  have o: "option_rest (map toupper (str ''start'')) cs = Some (str ''0x08000000'')"
    by (simp add: cs_def toupper_def)
  have l: "length (take 10 (option_value (str ''0x08000000''))) = length (replicate 10 (0 :: u8))"
    by (simp add: option_value_def)
  have z: "0 \<notin> set cs" by (simp add: cs_def)
  have n: "0 < (10 :: nat)" "10 \<le> length (replicate 10 (0 :: u8))" "0 \<notin> set (str ''start'')" "length (str ''start'') < 100"
    by simp_all
  show ?thesis
    using findCommandPara_value [OF z n(3,4) s n(1,2), of "[]", unfolded o option.case l] by (simp add: cs_def)
qed

text \<open>
  C19. The command \<open>DRIVERUPDATE\<close>: when the operator types 2 or the word, in either case and with corrections,
  and a sender then transmits a file that fits, one round of the menu of a boot loader with a healthy serial flash
  stores the file in the partition of the RF firmware, changes no cell outside this partition, keeps the name of the
  file and waits for the next command behind the session.
\<close>

theorem menu_updates_driver:
  assumes "boot_spi (board bl) cells_of wel prot pending" and "identified_spi (board bl) cells_of wel prot pending"
    and "initialized (drivers (boot_flash s) MICO_FLASH_SPI)"
    and "write_allowed (sflash_handle (devices (boot_flash s))) = SFLASH_WRITE_ALLOWED"
    and "pending (chip (devices (boot_flash s))) = 0" and "prot (chip (devices (boot_flash s))) = 0"
    and "length (tab_1024 s) = PACKET_1K_SIZE" and "length (packet_array bl) = PACKET_1K_SIZE + PACKET_OVERHEAD"
    and "length (size_array bl) = FILE_SIZE_LENGTH" and "length (last_name s) = FILE_NAME_LENGTH" and "length (cmdname s) = 15"
    and "typed (length (cmdbuf s)) ks l" and "map toupper l = str ''2'' \<or> map toupper l = str ''DRIVERUPDATE''"
    and "e = CR \<or> e = LF"
    and "line_rx s = map Some (ks @ [e]) @ map Some (ym_session (name_payload name sz x) c bs last_payload c') @ rest"
    and "payload_size (name_payload name sz x)"
    and "name \<noteq> []" and "\<forall>c \<in> set name. c \<noteq> 0" and "length name < FILE_NAME_LENGTH"
    and "sint sz \<le> 0x3E001" and "\<forall>b \<in> set bs. payload_size (fst b)" and "length (block_bytes bs) \<le> 0x3E000"
    and "payload_size last_payload" and "hd last_payload = 0"
  shows "\<exists>s'. menu_round bl s = Returned (Next_command, s') \<and> line_rx s' = rest \<and>
    mread (cells_of (chip (devices (boot_flash s')))) 0x2000 (length (block_bytes bs)) = block_bytes bs \<and>
    (\<forall>a. a < 0x2000 \<or> 0x40000 \<le> a \<longrightarrow>
      cells_of (chip (devices (boot_flash s'))) a = cells_of (chip (devices (boot_flash s))) a) \<and>
    take (length name + 1) (last_name s') = name @ [0]"
proof -
  have m: "mico_spi (board bl) cells_of wel prot pending" using assms(1) by (simp add: boot_spi_def)
  then have sn: "spi_nor (env_xfer (board bl)) cells_of wel prot pending 0x200000" by (simp add: mico_spi_def)
  have r: "mico_spi.sys_ready prot pending (boot_flash s)"
    using assms(3-6) by (simp add: mico_spi.sys_ready_def [OF m] spi_nor.ready_def [OF sn])
  have b: "boot_line (board bl) cells_of wel prot pending" using assms(1,2) by (simp add: boot_line_def)
  have c: "mico_spi.spi_cells cells_of t = cells_of (chip (devices t))" for t :: "('a, 'b) flash_sys"
    by (simp add: mico_spi.spi_cells_def [OF m])
  show ?thesis using boot_line.driver_update [OF b r refl assms(7-24)] unfolding c by blast
qed

text \<open>
  C2. From a reset to the application: a boot loader that finds a version text in its partition and the announcement
  of an image for the RF firmware, and is not asked to stay, installs the image, clears the announcement and the
  image, protects the partitions and starts the application.
\<close>

theorem boot_installs_and_starts:
  assumes "boot_spi (board bl) cells_of wel prot pending" and "identified_spi (board bl) cells_of wel prot pending"
    and "init_mutex (board bl) = kNoErr"
    and "pending (chip (devices s)) = 0" and "prot (chip (devices s)) = 0"
    and "\<not> initialized (drivers s MICO_FLASH_EMBEDDED)" and "\<not> initialized (drivers s MICO_FLASH_SPI)"
    and "list_ex (\<lambda>c. c \<noteq> 0xFF) (mread (fl_cells (env_hw (board bl))
      (FLASH_Unlock (env_hw (board bl)) (internal (devices s)))) 0x08007FE0 32)"
    and "announces (mread (cells_of (chip (devices s))) 0 24) MICO_PARTITION_RF_FIRMWARE"
    and "len = unat (image_length (mread (cells_of (chip (devices s))) 0 24))"
    and "\<not> stay \<or> mfg"
  shows "\<exists>s'. boot_main bl stay mfg ate s = Some (Some 0x0800C000, s') \<and>
    mread (cells_of (chip (devices s'))) 0x2000 len = mread (cells_of (chip (devices s))) 0x40000 len \<and>
    mread (cells_of (chip (devices s'))) 0x40000 0x70000 = replicate 0x70000 0xFF \<and>
    mread (cells_of (chip (devices s'))) 0 0x1000 =
      replicate 24 0xFF @ mread (cells_of (chip (devices s))) 24 0xFE8"
proof -
  have m: "mico_spi (board bl) cells_of wel prot pending" using assms(1) by (simp add: boot_spi_def)
  then have sn: "spi_nor (env_xfer (board bl)) cells_of wel prot pending 0x200000" by (simp add: mico_spi_def)
  have r: "spi_nor.ready prot pending (chip (devices s))" using assms(4,5) by (simp add: spi_nor.ready_def [OF sn])
  have b: "boot_line (board bl) cells_of wel prot pending" using assms(1,2) by (simp add: boot_line_def)
  have c: "mico_spi.spi_cells cells_of t = cells_of (chip (devices t))" for t :: "('a, 'b) flash_sys"
    by (simp add: mico_spi.spi_cells_def [OF m])
  show ?thesis using boot_line.boot_updates [OF b refl assms(3) r assms(6-8) _ _ assms(11)] assms(9,10) unfolding c by blast
qed

section \<open>The board as an instance\<close>

interpretation boot_line_board: boot_line boot_env mx_cells mx_wel mx_prot mx_busy
  by (simp add: boot_line_def boot_board.boot_spi_axioms serial_board.identified_spi_axioms)

definition sample_loader :: "(cells, mx25) boot_loader" where
  "sample_loader = \<lparr>board = boot_env, packet_array = replicate 1029 0, size_array = replicate 16 0, name_255 = 0,
     number_array = replicate 10 0, behind_literal = replicate 255 0, version_text = str ''v1''\<rparr>"

definition sample_session :: "bytes" where
  "sample_session = ym_session (name_payload (str ''fw.bin'') 5 (replicate 119 0)) (0, 0)
     [(str ''image'' @ replicate 123 0x1A, 0, 0)] (replicate 128 0) (0, 0)"

definition sample_menu :: "(cells, mx25) menu_sys" where
  "sample_menu = \<lparr>line_rx = map Some (str ''3'' @ [BACKSPACE] @ str ''2'' @ [CR]) @ map Some sample_session @ [],
     line_tx = [], boot_flash = announced_sys, tab_1024 = replicate 1024 0, last_name = replicate 256 0,
     cmdbuf = replicate 128 0, cmdname = replicate 15 0, startAddressStr = replicate 10 0, endAddressStr = replicate 10 0,
     flash_dev_str = replicate 4 0, startAddress = 0, endAddress = 0, flash_dev = 0\<rparr>"

theorem menu_updates_driver_witness:
  "\<exists>s'. menu_round sample_loader sample_menu = Returned (Next_command, s') \<and> line_rx s' = [] \<and>
    mread (mx_cells (chip (devices (boot_flash s')))) 0x2000 128 = str ''image'' @ replicate 123 0x1A"
proof -
  define bs :: "(bytes \<times> u8 \<times> u8) list" where "bs = [(str ''image'' @ replicate 123 0x1A, 0, 0)]"
  have b: "\<forall>b \<in> set bs. payload_size (fst b)" "length (block_bytes bs) \<le> 0x3E000"
    "block_bytes bs = str ''image'' @ replicate 123 0x1A" "length (block_bytes bs) = 128"
    by (simp_all add: bs_def payload_size_def block_bytes_def)
  have p: "payload_size (name_payload (str ''fw.bin'') 5 (replicate 119 0))"
    by (simp add: payload_size_def name_payload_def decimal_5)
  have h: "hd (replicate 128 (0 :: u8)) = 0" "payload_size (replicate 128 0)"
    by (simp_all add: payload_size_def hd_replicate)
  have t: "typed (length (cmdbuf sample_menu)) (str ''3'' @ [BACKSPACE] @ str ''2'') (str ''2'')"
    by (simp add: typed_def edit_def edit_key_def sample_menu_def upt_rec)
  have u: "map toupper (str ''2'') = str ''2'' \<or> map toupper (str ''2'') = str ''DRIVERUPDATE''" by (simp add: toupper_def)
  have rx: "line_rx sample_menu = map Some ((str ''3'' @ [BACKSPACE] @ str ''2'') @ [CR]) @
      map Some (ym_session (name_payload (str ''fw.bin'') 5 (replicate 119 0)) (0, 0) bs (replicate 128 0) (0, 0)) @ []"
    by (simp add: sample_menu_def sample_session_def bs_def)
  have l: "boot_spi (board sample_loader) mx_cells mx_wel mx_prot mx_busy"
    "identified_spi (board sample_loader) mx_cells mx_wel mx_prot mx_busy"
    by (simp_all add: sample_loader_def boot_board.boot_spi_axioms serial_board.identified_spi_axioms)
  have f: "initialized (drivers (boot_flash sample_menu) MICO_FLASH_SPI)"
    "write_allowed (sflash_handle (devices (boot_flash sample_menu))) = SFLASH_WRITE_ALLOWED"
    "mx_busy (chip (devices (boot_flash sample_menu))) = 0" "mx_prot (chip (devices (boot_flash sample_menu))) = 0"
    by (simp_all add: sample_menu_def announced_sys_def board_sys_def)
  have n: "length (tab_1024 sample_menu) = PACKET_1K_SIZE" "length (packet_array sample_loader) = PACKET_1K_SIZE + PACKET_OVERHEAD"
    "length (size_array sample_loader) = FILE_SIZE_LENGTH" "length (last_name sample_menu) = FILE_NAME_LENGTH"
    "length (cmdname sample_menu) = 15"
    by (simp_all add: sample_menu_def sample_loader_def)
  have nm: "str ''fw.bin'' \<noteq> []" "\<forall>c \<in> set (str ''fw.bin''). c \<noteq> 0" "length (str ''fw.bin'') < FILE_NAME_LENGTH"
    "sint (5 :: u32) \<le> 0x3E001" by (simp_all add: sint_small_u32)
  show ?thesis
    using menu_updates_driver [OF l f n t u disjI1 [OF refl] rx p nm b(1,2) h(2,1)] unfolding b(3,4) by auto
qed

text \<open>The board after a reset, with a version text and an announced image.\<close>

definition reset_sys :: "(cells, mx25) flash_sys" where
  "reset_sys = \<lparr>drivers = (\<lambda>owner. \<lparr>flash_mutex = False, initialized = False\<rparr>),
     devices = (devices announced_sys)\<lparr>internal := patch (\<lambda>x. 0xFF) 0x08007FE0 (str ''v1'')\<rparr>\<rparr>"

theorem boot_installs_and_starts_witness:
  "\<exists>s'. boot_main sample_loader False False False reset_sys = Some (Some 0x0800C000, s') \<and>
    mread (mx_cells (chip (devices s'))) 0x2000 5 = str ''image''"
proof -
  have c: "chip (devices reset_sys) = chip (devices announced_sys)" by (simp add: reset_sys_def)
  have l: "boot_spi (board sample_loader) mx_cells mx_wel mx_prot mx_busy"
    "identified_spi (board sample_loader) mx_cells mx_wel mx_prot mx_busy"
    by (simp_all add: sample_loader_def boot_board.boot_spi_axioms serial_board.identified_spi_axioms)
  have f: "init_mutex (board sample_loader) = kNoErr" "mx_busy (chip (devices reset_sys)) = 0"
    "mx_prot (chip (devices reset_sys)) = 0" "\<not> initialized (drivers reset_sys MICO_FLASH_EMBEDDED)"
    "\<not> initialized (drivers reset_sys MICO_FLASH_SPI)"
    by (simp_all add: sample_loader_def boot_env_def board_env_def reset_sys_def announced_sys_def board_sys_def)
  have v: "list_ex (\<lambda>c. c \<noteq> 0xFF) (mread (fl_cells (env_hw (board sample_loader))
      (FLASH_Unlock (env_hw (board sample_loader)) (internal (devices reset_sys)))) 0x08007FE0 32)"
    by (simp add: sample_loader_def boot_env_def board_env_def reset_sys_def stm32_hw_def mread_def upt_rec patch_def)
  have a: "announces (mread (mx_cells (chip (devices reset_sys))) 0 24) MICO_PARTITION_RF_FIRMWARE"
    "5 = unat (image_length (mread (mx_cells (chip (devices reset_sys))) 0 24))"
    unfolding c using announced_sys_announces by simp_all
  show ?thesis
    using boot_installs_and_starts [OF l f v a, of False] announced_sys_image unfolding c by auto
qed

end
