(* ===== verification/Notification.thy ===== *)
theory Notification
  imports Prelude
begin

text \<open>
  System notifications, \<open>MICO/system/mico_system_notification.c\<close>: for every type a linked list of
  callbacks, made of blocks from \<open>malloc\<close>. The model keeps the pointers: an address is a number, a null
  pointer \<open>None\<close>, the allocated blocks are a map; using a block that is not allocated is \<open>None\<close>. The member
  \<open>contex\<close>, which nothing reads or writes, is left out. The allocator and the callbacks are parameters.
\<close>

section \<open>Data\<close>

datatype mico_notify_types_t =
    mico_notify_WIFI_SCAN_COMPLETED
  | mico_notify_WIFI_STATUS_CHANGED
  | mico_notify_WiFI_PARA_CHANGED
  | mico_notify_DHCP_COMPLETED
  | mico_notify_EASYLINK_WPS_COMPLETED
  | mico_notify_EASYLINK_GET_EXTRA_DATA
  | mico_notify_TCP_CLIENT_CONNECTED
  | mico_notify_DNS_RESOLVE_COMPLETED
  | mico_notify_SYS_WILL_POWER_OFF
  | mico_notify_WIFI_CONNECT_FAILED
  | mico_notify_WIFI_SCAN_ADV_COMPLETED
  | mico_notify_WIFI_Fatal_ERROR
  | mico_notify_Stack_Overflow_ERROR

record ('f, 'a) Notify_list_t =
  nfunction :: 'f
  narg :: 'a
  nnext :: "nat option"

type_synonym ('f, 'a) blocks = "nat \<Rightarrow> ('f, 'a) Notify_list_t option"

text \<open>\<open>world\<close> is what the callbacks work on besides the lists.\<close>

record ('f, 'a, 'w) notify_sys =
  Notify_list :: "mico_notify_types_t \<Rightarrow> nat option"
  blocks :: "('f, 'a) blocks"
  world :: 'w

text \<open>What a callback is given besides its \<open>arg\<close>; pointers are of a type of their own.\<close>

datatype 'p event =
    Ev_ScanResult 'p
  | Ev_ScanResult_adv 'p
  | Ev_WiFiEvent int
  | Ev_apinfo 'p 'p int
  | Ev_IPStatus 'p
  | Ev_network_Init 'p
  | Ev_extra_data int 'p
  | Ev_fd int
  | Ev_dns 'p u32
  | Ev_power_off
  | Ev_OSStatus OSStatus
  | Ev_fatal_error
  | Ev_taskname 'p

section \<open>Registration\<close>

text \<open>The \<open>while (temp->next != NULL)\<close> loop: the last block, or \<open>None\<close> when the function is there already.\<close>

partial_function (option) find_last :: "('f, 'a) blocks \<Rightarrow> 'f \<Rightarrow> nat \<Rightarrow> nat option option" where
  "find_last m f temp = do {
     nd \<leftarrow> m temp;
     case nnext nd of None \<Rightarrow> Some (Some temp)
     | Some p \<Rightarrow> do {
         nd' \<leftarrow> m p;
         if nfunction nd' = f then Some None else find_last m f p
       }
   }"

text \<open>The allocator is given the allocated addresses. The block is allocated before the search and not
  freed when the function is found.\<close>

definition mico_system_notify_register ::
  "(nat set \<Rightarrow> nat option) \<Rightarrow> mico_notify_types_t \<Rightarrow> 'f \<Rightarrow> 'a \<Rightarrow> ('f, 'a, 'w) notify_sys
     \<Rightarrow> (OSStatus \<times> ('f, 'a, 'w) notify_sys) option" where
  "mico_system_notify_register alloc t f x s =
     (case alloc (dom (blocks s)) of None \<Rightarrow> Some (kNoMemoryErr, s)
      | Some p \<Rightarrow>
          let m = (blocks s)(p \<mapsto> \<lparr>nfunction = f, narg = x, nnext = None\<rparr>) in
          (case Notify_list s t of
             None \<Rightarrow> Some (kNoErr, s\<lparr>Notify_list := (Notify_list s)(t := Some p), blocks := m\<rparr>)
           | Some temp \<Rightarrow> do {
               nd \<leftarrow> m temp;
               if nfunction nd = f then Some (kNoErr, s\<lparr>blocks := m\<rparr>)
               else do {
                 r \<leftarrow> find_last m f temp;
                 case r of None \<Rightarrow> Some (kNoErr, s\<lparr>blocks := m\<rparr>)
                 | Some l \<Rightarrow> do {
                     ld \<leftarrow> m l;
                     Some (kNoErr, s\<lparr>blocks := m(l \<mapsto> ld\<lparr>nnext := Some p\<rparr>)\<rparr>)
                   }
               }
             }))"

section \<open>Removal\<close>

text \<open>The search of the \<open>do ... while\<close> loop with \<open>temp2\<close> and \<open>temp\<close>: the block found with its
  predecessor, or \<open>None\<close>.\<close>

partial_function (option) find_block ::
  "('f, 'a) blocks \<Rightarrow> 'f \<Rightarrow> nat option \<Rightarrow> nat \<Rightarrow> (nat option \<times> nat) option option" where
  "find_block m f temp2 temp = do {
     nd \<leftarrow> m temp;
     if nfunction nd = f then Some (Some (temp2, temp))
     else case nnext nd of None \<Rightarrow> Some None | Some p \<Rightarrow> find_block m f (Some temp) p
   }"

definition mico_system_notify_remove ::
  "mico_notify_types_t \<Rightarrow> 'f \<Rightarrow> ('f, 'a, 'w) notify_sys \<Rightarrow> (OSStatus \<times> ('f, 'a, 'w) notify_sys) option" where
  "mico_system_notify_remove t f s =
     (case Notify_list s t of None \<Rightarrow> Some (kDeletedErr, s)
      | Some first \<Rightarrow> do {
          r \<leftarrow> find_block (blocks s) f None first;
          case r of None \<Rightarrow> Some (kNotFoundErr, s)
          | Some (temp2, temp) \<Rightarrow> do {
              nd \<leftarrow> blocks s temp;
              if temp = first
              then Some (kNoErr, s\<lparr>Notify_list := (Notify_list s)(t := nnext nd), blocks := (blocks s)(temp := None)\<rparr>)
              else do {
                q \<leftarrow> temp2;
                qd \<leftarrow> blocks s q;
                Some (kNoErr, s\<lparr>blocks := (blocks s)(q \<mapsto> qd\<lparr>nnext := nnext nd\<rparr>, temp := None)\<rparr>)
              }
            }
        })"

partial_function (option) mico_system_notify_remove_all ::
  "mico_notify_types_t \<Rightarrow> ('f, 'a, 'w) notify_sys \<Rightarrow> (OSStatus \<times> ('f, 'a, 'w) notify_sys) option" where
  "mico_system_notify_remove_all t s =
     (case Notify_list s t of None \<Rightarrow> Some (kNoErr, s)
      | Some temp \<Rightarrow> do {
          nd \<leftarrow> blocks s temp;
          mico_system_notify_remove_all t
            (s\<lparr>Notify_list := (Notify_list s)(t := nnext nd), blocks := (blocks s)(temp := None)\<rparr>)
        })"

section \<open>Notification\<close>

text \<open>The \<open>do ... while\<close> loop that all handlers have: the successor is read after the call, which may
  have changed the lists.\<close>

type_synonym ('f, 'p, 'a, 'w) callback = "'f \<Rightarrow> 'p event \<Rightarrow> 'a \<Rightarrow> ('f, 'a, 'w) notify_sys \<Rightarrow> ('f, 'a, 'w) notify_sys"

partial_function (option) call_list ::
  "('f, 'p, 'a, 'w) callback \<Rightarrow> 'p event \<Rightarrow> nat \<Rightarrow> ('f, 'a, 'w) notify_sys \<Rightarrow> ('f, 'a, 'w) notify_sys option" where
  "call_list cb ev temp s = do {
     nd \<leftarrow> blocks s temp;
     let s = cb (nfunction nd) ev (narg nd) s;
     nd \<leftarrow> blocks s temp;
     case nnext nd of None \<Rightarrow> Some s | Some p \<Rightarrow> call_list cb ev p s
   }"

definition notify ::
  "('f, 'p, 'a, 'w) callback \<Rightarrow> mico_notify_types_t \<Rightarrow> 'p event \<Rightarrow> ('f, 'a, 'w) notify_sys
     \<Rightarrow> ('f, 'a, 'w) notify_sys option" where
  "notify cb t ev s = (case Notify_list s t of None \<Rightarrow> Some s | Some temp \<Rightarrow> call_list cb ev temp s)"

definition ApListCallback ::
  "('f, 'p, 'a, 'w) callback \<Rightarrow> 'p \<Rightarrow> ('f, 'a, 'w) notify_sys \<Rightarrow> ('f, 'a, 'w) notify_sys option" where
  "ApListCallback cb pApList = notify cb mico_notify_WIFI_SCAN_COMPLETED (Ev_ScanResult pApList)"

definition ApListAdvCallback ::
  "('f, 'p, 'a, 'w) callback \<Rightarrow> 'p \<Rightarrow> ('f, 'a, 'w) notify_sys \<Rightarrow> ('f, 'a, 'w) notify_sys option" where
  "ApListAdvCallback cb pApAdvList = notify cb mico_notify_WIFI_SCAN_ADV_COMPLETED (Ev_ScanResult_adv pApAdvList)"

definition WifiStatusHandler ::
  "('f, 'p, 'a, 'w) callback \<Rightarrow> int \<Rightarrow> ('f, 'a, 'w) notify_sys \<Rightarrow> ('f, 'a, 'w) notify_sys option" where
  "WifiStatusHandler cb status = notify cb mico_notify_WIFI_STATUS_CHANGED (Ev_WiFiEvent status)"

definition connected_ap_info ::
  "('f, 'p, 'a, 'w) callback \<Rightarrow> 'p \<Rightarrow> 'p \<Rightarrow> int \<Rightarrow> ('f, 'a, 'w) notify_sys \<Rightarrow> ('f, 'a, 'w) notify_sys option" where
  "connected_ap_info cb ap_info key key_len = notify cb mico_notify_WiFI_PARA_CHANGED (Ev_apinfo ap_info key key_len)"

definition NetCallback ::
  "('f, 'p, 'a, 'w) callback \<Rightarrow> 'p \<Rightarrow> ('f, 'a, 'w) notify_sys \<Rightarrow> ('f, 'a, 'w) notify_sys option" where
  "NetCallback cb pnet = notify cb mico_notify_DHCP_COMPLETED (Ev_IPStatus pnet)"

definition RptConfigmodeRslt ::
  "('f, 'p, 'a, 'w) callback \<Rightarrow> 'p \<Rightarrow> ('f, 'a, 'w) notify_sys \<Rightarrow> ('f, 'a, 'w) notify_sys option" where
  "RptConfigmodeRslt cb nwkpara = notify cb mico_notify_EASYLINK_WPS_COMPLETED (Ev_network_Init nwkpara)"

definition easylink_user_data_result ::
  "('f, 'p, 'a, 'w) callback \<Rightarrow> int \<Rightarrow> 'p \<Rightarrow> ('f, 'a, 'w) notify_sys \<Rightarrow> ('f, 'a, 'w) notify_sys option" where
  "easylink_user_data_result cb datalen data = notify cb mico_notify_EASYLINK_GET_EXTRA_DATA (Ev_extra_data datalen data)"

definition socket_connected ::
  "('f, 'p, 'a, 'w) callback \<Rightarrow> int \<Rightarrow> ('f, 'a, 'w) notify_sys \<Rightarrow> ('f, 'a, 'w) notify_sys option" where
  "socket_connected cb fd = notify cb mico_notify_TCP_CLIENT_CONNECTED (Ev_fd fd)"

definition dns_ip_set ::
  "('f, 'p, 'a, 'w) callback \<Rightarrow> 'p \<Rightarrow> u32 \<Rightarrow> ('f, 'a, 'w) notify_sys \<Rightarrow> ('f, 'a, 'w) notify_sys option" where
  "dns_ip_set cb hostname ip = notify cb mico_notify_DNS_RESOLVE_COMPLETED (Ev_dns hostname ip)"

definition sendNotifySYSWillPowerOff ::
  "('f, 'p, 'a, 'w) callback \<Rightarrow> ('f, 'a, 'w) notify_sys \<Rightarrow> ('f, 'a, 'w) notify_sys option" where
  "sendNotifySYSWillPowerOff cb = notify cb mico_notify_SYS_WILL_POWER_OFF Ev_power_off"

definition join_fail ::
  "('f, 'p, 'a, 'w) callback \<Rightarrow> OSStatus \<Rightarrow> ('f, 'a, 'w) notify_sys \<Rightarrow> ('f, 'a, 'w) notify_sys option" where
  "join_fail cb err = notify cb mico_notify_WIFI_CONNECT_FAILED (Ev_OSStatus err)"

definition wifi_reboot_event ::
  "('f, 'p, 'a, 'w) callback \<Rightarrow> ('f, 'a, 'w) notify_sys \<Rightarrow> ('f, 'a, 'w) notify_sys option" where
  "wifi_reboot_event cb = notify cb mico_notify_WIFI_Fatal_ERROR Ev_fatal_error"

definition mico_rtos_stack_overflow ::
  "('f, 'p, 'a, 'w) callback \<Rightarrow> 'p \<Rightarrow> ('f, 'a, 'w) notify_sys \<Rightarrow> ('f, 'a, 'w) notify_sys option" where
  "mico_rtos_stack_overflow cb taskname = notify cb mico_notify_Stack_Overflow_ERROR (Ev_taskname taskname)"

section \<open>The lists as pointers\<close>

text \<open>\<open>chain m p ps\<close>: the pointer \<open>p\<close> leads through exactly the blocks \<open>ps\<close>.\<close>

fun chain :: "('f, 'a) blocks \<Rightarrow> nat option \<Rightarrow> nat list \<Rightarrow> bool" where
  "chain m p [] \<longleftrightarrow> p = None"
| "chain m p (q # qs) \<longleftrightarrow> p = Some q \<and> (\<exists>nd. m q = Some nd \<and> chain m (nnext nd) qs)"

definition entry :: "('f, 'a) blocks \<Rightarrow> nat \<Rightarrow> 'f \<times> 'a" where
  "entry m q = (nfunction (the (m q)), narg (the (m q)))"

lemma chain_dom: "chain m p qs \<Longrightarrow> set qs \<subseteq> dom m"
  by (induction qs arbitrary: p) auto

lemma chain_cong: "(\<And>q. q \<in> set qs \<Longrightarrow> m' q = m q) \<Longrightarrow> chain m' p qs \<longleftrightarrow> chain m p qs"
  by (induction qs arbitrary: p) auto

lemma entry_cong: "(\<And>q. q \<in> set qs \<Longrightarrow> m' q = m q) \<Longrightarrow> map (entry m') qs = map (entry m) qs"
  by (simp add: entry_def)

lemma chain_hd: "chain m p qs \<Longrightarrow> p = (case qs of [] \<Rightarrow> None | q # _ \<Rightarrow> Some q)"
  by (cases qs) auto

text \<open>A block behind the last one, and a block taken out of the middle.\<close>

lemma chain_append_block:
  assumes "chain m p (qs @ [l])" and "distinct (qs @ [l])" and "m l = Some ld" and "m' b = Some bd"
    and "nnext bd = None" and "m' l = Some (ld\<lparr>nnext := Some b\<rparr>)" and "\<And>q. q \<in> set qs \<Longrightarrow> m' q = m q"
  shows "chain m' p (qs @ [l, b])"
  using assms(1,2,7)
proof (induction qs arbitrary: p)
  case Nil
  then show ?case using assms(3-6) by auto
next
  case (Cons q qs)
  then show ?case by auto
qed

lemma chain_unlink:
  assumes "chain m p (qs @ q # r # rs)" and "distinct (qs @ q # r # rs)" and "m q = Some qd" and "m r = Some nd'"
    and "m' q = Some (qd\<lparr>nnext := nnext nd'\<rparr>)" and "\<And>x. x \<noteq> q \<Longrightarrow> x \<noteq> r \<Longrightarrow> m' x = m x"
  shows "chain m' p (qs @ q # rs)"
  using assms(1,2)
proof (induction qs arbitrary: p)
  case Nil
  then have "chain m (nnext nd') rs" using assms(3,4) by auto
  moreover have "chain m' (nnext nd') rs \<longleftrightarrow> chain m (nnext nd') rs"
    using Nil.prems(2) by (intro chain_cong assms(6)) auto
  ultimately show ?case using Nil.prems assms(3-5) by auto
next
  case (Cons s qs)
  then show ?case using assms(6) by auto
qed

section \<open>The searches\<close>

lemma find_last_chain:
  assumes "chain m (Some q) (q # qs)"
  shows "find_last m f q = Some (if f \<in> set (map (fst \<circ> entry m) qs) then None else Some (last (q # qs)))"
  using assms
proof (induction qs arbitrary: q)
  case Nil
  then show ?case by (subst find_last.simps) auto
next
  case (Cons r rs)
  then obtain nd nd' where nd: "m q = Some nd" "nnext nd = Some r" "m r = Some nd'" "chain m (Some r) (r # rs)"
    by auto
  show ?case
    using Cons.IH [OF nd(4)] nd(1-3) by (subst find_last.simps) (auto simp: entry_def)
qed

lemma find_block_absent:
  assumes "chain m (Some q) (q # qs)" and "\<forall>p \<in> set (q # qs). fst (entry m p) \<noteq> f"
  shows "find_block m f prev q = Some None"
  using assms
proof (induction qs arbitrary: q prev)
  case Nil
  then show ?case by (subst find_block.simps) (auto simp: entry_def)
next
  case (Cons r rs)
  then obtain nd where nd: "m q = Some nd" "nnext nd = Some r" "chain m (Some r) (r # rs)" by auto
  show ?case
    using Cons.IH [OF nd(3)] Cons.prems(2) nd by (subst find_block.simps) (auto simp: entry_def)
qed

lemma find_block_present:
  assumes "chain m p (xs @ r # ys)" and "\<forall>q \<in> set xs. fst (entry m q) \<noteq> f" and "fst (entry m r) = f"
  shows "find_block m f prev (hd (xs @ [r])) = Some (Some (if xs = [] then prev else Some (last xs), r))"
  using assms
proof (induction xs arbitrary: p prev)
  case Nil
  then show ?case by (subst find_block.simps) (auto simp: entry_def)
next
  case (Cons x xs)
  then obtain nd where nd: "p = Some x" "m x = Some nd" "chain m (nnext nd) (xs @ r # ys)" by auto
  have n: "nnext nd = Some (hd (xs @ [r]))" using chain_hd [OF nd(3)] by (cases xs) auto
  show ?case
    using Cons.IH [OF nd(3), of "Some x"] Cons.prems(2,3) nd(2) n by (subst find_block.simps) (auto simp: entry_def)
qed

section \<open>The table that the lists represent\<close>

type_synonym ('f, 'a) table = "mico_notify_types_t \<Rightarrow> ('f \<times> 'a) list"

definition lists_ok :: "('f, 'a, 'w) notify_sys \<Rightarrow> (mico_notify_types_t \<Rightarrow> nat list) \<Rightarrow> bool" where
  "lists_ok s L \<longleftrightarrow>
     (\<forall>t. chain (blocks s) (Notify_list s t) (L t) \<and> distinct (L t) \<and>
       distinct (map (fst \<circ> entry (blocks s)) (L t))) \<and>
     (\<forall>t u. t \<noteq> u \<longrightarrow> set (L t) \<inter> set (L u) = {})"

definition table_of :: "('f, 'a, 'w) notify_sys \<Rightarrow> (mico_notify_types_t \<Rightarrow> nat list) \<Rightarrow> ('f, 'a) table" where
  "table_of s L t = map (entry (blocks s)) (L t)"

definition represents :: "('f, 'a, 'w) notify_sys \<Rightarrow> ('f, 'a) table \<Rightarrow> bool" where
  "represents s T \<longleftrightarrow> (\<exists>L. lists_ok s L \<and> T = table_of s L)"

datatype ('f, 'a) notify_op =
    Register mico_notify_types_t 'f 'a
  | Remove mico_notify_types_t 'f
  | Remove_all mico_notify_types_t

fun notify_step ::
  "(nat set \<Rightarrow> nat option) \<Rightarrow> ('f, 'a) notify_op \<Rightarrow> ('f, 'a, 'w) notify_sys
     \<Rightarrow> (OSStatus \<times> ('f, 'a, 'w) notify_sys) option" where
  "notify_step alloc (Register t f x) s = mico_system_notify_register alloc t f x s"
| "notify_step alloc (Remove t f) s = mico_system_notify_remove t f s"
| "notify_step alloc (Remove_all t) s = mico_system_notify_remove_all t s"

text \<open>The same operations on the table; the flag tells whether memory is available.\<close>

fun notify_spec :: "bool \<Rightarrow> ('f, 'a) notify_op \<Rightarrow> ('f, 'a) table \<Rightarrow> OSStatus \<times> ('f, 'a) table" where
  "notify_spec room (Register t f x) T =
     (if \<not> room then (kNoMemoryErr, T)
      else if f \<in> fst ` set (T t) then (kNoErr, T) else (kNoErr, T(t := T t @ [(f, x)])))"
| "notify_spec room (Remove t f) T =
     (if T t = [] then (kDeletedErr, T)
      else if f \<notin> fst ` set (T t) then (kNotFoundErr, T)
      else (kNoErr, T(t := filter (\<lambda>e. fst e \<noteq> f) (T t))))"
| "notify_spec room (Remove_all t) T = (kNoErr, T(t := []))"

text \<open>A change of the blocks of one list leaves the other lists alone.\<close>

lemma lists_ok_upd:
  assumes "lists_ok s L" and "chain m' (h t) qs" and "distinct qs" and "distinct (map (fst \<circ> entry m') qs)"
    and "\<And>u. u \<noteq> t \<Longrightarrow> h u = Notify_list s u"
    and "\<And>u q. u \<noteq> t \<Longrightarrow> q \<in> set (L u) \<Longrightarrow> m' q = blocks s q"
    and "\<And>u. u \<noteq> t \<Longrightarrow> set (L u) \<inter> set qs = {}"
  shows "lists_ok (s\<lparr>Notify_list := h, blocks := m'\<rparr>) (L(t := qs)) \<and>
    table_of (s\<lparr>Notify_list := h, blocks := m'\<rparr>) (L(t := qs)) = (table_of s L)(t := map (entry m') qs)"
proof -
  have c: "chain m' (h u) (L u)" and e: "map (entry m') (L u) = map (entry (blocks s)) (L u)" if "u \<noteq> t" for u
    using assms(1,5) that chain_cong [of "L u" m' "blocks s"] entry_cong [of "L u" m' "blocks s"] assms(6) [OF that]
    by (simp_all add: lists_ok_def)
  have "distinct (map (fst \<circ> entry m') (L u))" if "u \<noteq> t" for u
  proof -
    have "map (fst \<circ> entry m') (L u) = map (fst \<circ> entry (blocks s)) (L u)"
      using arg_cong [OF e [OF that], of "map fst"] by (simp only: map_map)
    moreover have "distinct (map (fst \<circ> entry (blocks s)) (L u))" using assms(1) unfolding lists_ok_def by blast
    ultimately show ?thesis by (simp only:)
  qed
  moreover have "(table_of (s\<lparr>Notify_list := h, blocks := m'\<rparr>) (L(t := qs))) u = ((table_of s L)(t := map (entry m') qs)) u" for u
    using e [of u] by (cases "u = t") (simp_all add: table_of_def)
  moreover have "set ((L(t := qs)) u) \<inter> set ((L(t := qs)) w) = {}" if "u \<noteq> w" for u w
    using assms(1) assms(7) [of u] assms(7) [of w] that by (cases "u = t"; cases "w = t") (auto simp: lists_ok_def)
  ultimately show ?thesis
    using assms(1-4) c by (simp add: lists_ok_def fun_eq_iff)
qed

lemma represents_upd:
  assumes "lists_ok s L" and "chain m' (h t) qs" and "distinct qs" and "distinct (map (fst \<circ> entry m') qs)"
    and "\<And>u. u \<noteq> t \<Longrightarrow> h u = Notify_list s u"
    and "\<And>u q. u \<noteq> t \<Longrightarrow> q \<in> set (L u) \<Longrightarrow> m' q = blocks s q"
    and "\<And>u. u \<noteq> t \<Longrightarrow> set (L u) \<inter> set qs = {}"
    and "T = (table_of s L)(t := map (entry m') qs)"
  shows "represents (s\<lparr>Notify_list := h, blocks := m'\<rparr>) T"
proof -
  have "lists_ok (s\<lparr>Notify_list := h, blocks := m'\<rparr>) (L(t := qs)) \<and>
    table_of (s\<lparr>Notify_list := h, blocks := m'\<rparr>) (L(t := qs)) = (table_of s L)(t := map (entry m') qs)"
    by (rule lists_ok_upd) (fact assms)+
  then show ?thesis using assms(8) unfolding represents_def by metis
qed

lemma represents_same:
  assumes "lists_ok s L" and "\<And>u q. q \<in> set (L u) \<Longrightarrow> m' q = blocks s q"
  shows "represents (s\<lparr>blocks := m'\<rparr>) (table_of s L)"
proof -
  have "chain m' (Notify_list s u) (L u)" "map (entry m') (L u) = map (entry (blocks s)) (L u)" for u
    using assms(1) chain_cong [of "L u" m' "blocks s"] entry_cong [of "L u" m' "blocks s"] assms(2)
    by (simp_all add: lists_ok_def)
  moreover from this have "distinct (map (fst \<circ> entry m') (L u))" for u
    using assms(1) unfolding lists_ok_def by (metis map_map)
  ultimately have "lists_ok (s\<lparr>blocks := m'\<rparr>) L" "table_of (s\<lparr>blocks := m'\<rparr>) L = table_of s L"
    using assms(1) by (auto simp: lists_ok_def table_of_def fun_eq_iff)
  then show ?thesis by (metis represents_def)
qed

lemma register_refines:
  assumes al: "\<And>D p. alloc D = Some p \<Longrightarrow> p \<notin> D" and r: "lists_ok s L"
  shows "\<exists>s' T'. mico_system_notify_register alloc t f x s = Some (if alloc (dom (blocks s)) = None then kNoMemoryErr else kNoErr, s') \<and>
    notify_spec (alloc (dom (blocks s)) \<noteq> None) (Register t f x) (table_of s L) =
      (if alloc (dom (blocks s)) = None then kNoMemoryErr else kNoErr, T') \<and> represents s' T'"
proof (cases "alloc (dom (blocks s))")
  case None
  then show ?thesis using r by (auto simp: mico_system_notify_register_def represents_def)
next
  case (Some p)
  define m where "m = (blocks s)(p \<mapsto> \<lparr>nfunction = f, narg = x, nnext = None\<rparr>)"
  have p: "blocks s p = None" using al [OF Some] by auto
  have old: "m q = blocks s q" if "q \<in> set (L u)" for q u
    using r that chain_dom [of "blocks s" "Notify_list s u" "L u"] p by (auto simp: m_def lists_ok_def)
  have pL: "p \<notin> set (L u)" for u
    using r chain_dom [of "blocks s" "Notify_list s u" "L u"] p by (auto simp: lists_ok_def)
  have ch: "chain m (Notify_list s t) (L t)"
    using r chain_cong [of "L t" m "blocks s"] old by (simp add: lists_ok_def)
  have en: "entry m q = entry (blocks s) q" if "q \<in> set (L u)" for q u using old [OF that] by (simp add: entry_def)
  have ep: "entry m p = (f, x)" by (simp add: m_def entry_def)
  have mp: "m p = Some \<lparr>nfunction = f, narg = x, nnext = None\<rparr>" by (simp add: m_def)
  have keep: "represents (s\<lparr>blocks := m\<rparr>) (table_of s L)" by (rule represents_same [OF r old])
  show ?thesis
  proof (cases "L t")
    case Nil
    have "represents (s\<lparr>Notify_list := (Notify_list s)(t := Some p), blocks := m\<rparr>) ((table_of s L)(t := [(f, x)]))"
      by (rule represents_upd [OF r, where t = t and qs = "[p]"]) (use pL old mp in \<open>auto simp: ep\<close>)
    moreover have "Notify_list s t = None" using ch Nil by simp
    ultimately show ?thesis
      using Some Nil by (simp add: mico_system_notify_register_def table_of_def m_def Let_def)
  next
    case (Cons q qs)
    have hd: "Notify_list s t = Some q" using ch Cons by simp
    obtain nd where nd: "m q = Some nd" using ch Cons by auto
    have fl: "find_last m f q = Some (if f \<in> set (map (fst \<circ> entry m) qs) then None else Some (last (q # qs)))"
      using ch Cons hd by (intro find_last_chain) simp
    have fq: "nfunction nd = fst (entry m q)" using nd by (simp add: entry_def)
    have mem: "f \<in> fst ` set (table_of s L t) \<longleftrightarrow> f = fst (entry m q) \<or> f \<in> set (map (fst \<circ> entry m) qs)"
      using en [of _ t] Cons by (auto simp: table_of_def image_image)
    show ?thesis
    proof (cases "f \<in> fst ` set (table_of s L t)")
      case True
      then have "mico_system_notify_register alloc t f x s = Some (kNoErr, s\<lparr>blocks := m\<rparr>)"
        using Some hd nd fl fq mem by (auto simp: mico_system_notify_register_def Let_def simp flip: m_def)
      then show ?thesis using True Some keep by simp
    next
      case False
      define l where "l = last (q # qs)"
      obtain xs where xs: "L t = xs @ [l]" using Cons append_butlast_last_id [of "q # qs"] by (metis l_def list.discI)
      obtain ld where ld: "m l = Some ld" using chain_dom [OF ch] xs by auto
      define m' where "m' = m(l \<mapsto> ld\<lparr>nnext := Some p\<rparr>)"
      have lp: "l \<noteq> p" using pL [of t] xs by auto
      have d: "distinct (xs @ [l])" using r xs by (metis lists_ok_def)
      have "chain m' (Notify_list s t) (xs @ [l, p])"
        by (rule chain_append_block [where m = m]) (use ch xs d ld lp in \<open>auto simp: m'_def m_def\<close>)
      moreover have em: "entry m' = entry m" using ld by (auto simp: m'_def entry_def fun_eq_iff)
      moreover have "distinct (map (fst \<circ> entry m) (L t))"
        using r en [of _ t] by (auto simp: lists_ok_def distinct_map inj_on_def)
      moreover have "f \<notin> (fst \<circ> entry m) ` set (L t)" using False mem Cons by auto
      moreover have "m' v = blocks s v" if "u \<noteq> t" "v \<in> set (L u)" for u v
      proof -
        have "set (L u) \<inter> set (L t) = {}" using r that unfolding lists_ok_def by blast
        then have "v \<noteq> l" using that xs by auto
        then show ?thesis using old [OF that(2)] by (simp add: m'_def)
      qed
      moreover have "set (L u) \<inter> set (xs @ [l, p]) = {}" if "u \<noteq> t" for u
      proof -
        have "set (L u) \<inter> set (L t) = {}" using r that unfolding lists_ok_def by blast
        then show ?thesis using xs pL [of u] by auto
      qed
      moreover have tb: "table_of s L t = map (entry m) (L t)" using en [of _ t] by (simp add: table_of_def)
      ultimately have "represents (s\<lparr>Notify_list := Notify_list s, blocks := m'\<rparr>) ((table_of s L)(t := table_of s L t @ [(f, x)]))"
        by (intro represents_upd [OF r, where t = t and qs = "L t @ [p]"]) (use pL [of t] d in \<open>auto simp: ep em tb xs\<close>)
      moreover have "mico_system_notify_register alloc t f x s = Some (kNoErr, s\<lparr>blocks := m'\<rparr>)"
        using Some hd nd fl fq mem False ld
        by (auto simp: mico_system_notify_register_def Let_def m'_def l_def simp flip: m_def)
      ultimately show ?thesis using False Some by simp
    qed
  qed
qed

lemma remove_refines:
  assumes r: "lists_ok s L"
  shows "\<exists>err s' T'. mico_system_notify_remove t f s = Some (err, s') \<and>
    notify_spec room (Remove t f) (table_of s L) = (err, T') \<and> represents s' T'"
proof (cases "L t")
  case Nil
  then have "Notify_list s t = None" using r by (auto simp: lists_ok_def dest: spec [of _ t])
  then show ?thesis using r Nil by (auto simp: mico_system_notify_remove_def table_of_def represents_def)
next
  case (Cons q qs)
  have ch: "chain (blocks s) (Notify_list s t) (L t)" and d: "distinct (L t)"
    and df: "distinct (map (fst \<circ> entry (blocks s)) (L t))"
    and dj: "\<And>u. u \<noteq> t \<Longrightarrow> set (L u) \<inter> set (L t) = {}"
    using r unfolding lists_ok_def by blast+
  have hd: "Notify_list s t = Some q" using ch Cons by simp
  have tb: "table_of s L t = map (entry (blocks s)) (L t)" by (simp add: table_of_def)
  show ?thesis
  proof (cases "f \<in> fst ` set (table_of s L t)")
    case False
    then have "find_block (blocks s) f None q = Some None"
      using ch Cons hd by (intro find_block_absent [where qs = qs]) (auto simp: tb)
    then show ?thesis using False r Cons hd
      by (auto simp: mico_system_notify_remove_def represents_def tb image_image)
  next
    case True
    have "\<exists>p \<in> set (L t). fst (entry (blocks s) p) = f" using True by (auto simp: tb)
    then obtain xs p ys where p: "L t = xs @ p # ys" "fst (entry (blocks s) p) = f"
      "\<forall>x \<in> set xs. fst (entry (blocks s) x) \<noteq> f" using split_list_first_prop [of "L t" "\<lambda>p. fst (entry (blocks s) p) = f"] by blast
    have nys: "\<forall>x \<in> set ys. fst (entry (blocks s) x) \<noteq> f" using df p(1,2) by (auto simp: image_iff)
    have fb: "find_block (blocks s) f None q = Some (Some (if xs = [] then None else Some (last xs), p))"
      using find_block_present [OF ch [unfolded p(1)] p(3,2), of None] Cons p(1) by (cases xs) auto
    obtain nd where nd: "blocks s p = Some nd" using chain_dom [OF ch] p(1) by auto
    define T' where "T' = (table_of s L)(t := map (entry (blocks s)) (xs @ ys))"
    have flt: "filter (\<lambda>e. fst e \<noteq> f) (table_of s L t) = map (entry (blocks s)) (xs @ ys)"
      using p(2,3) nys by (simp add: tb p(1) filter_map o_def)
    have sp: "notify_spec room (Remove t f) (table_of s L) = (kNoErr, T')"
    proof -
      have "table_of s L t \<noteq> []" by (simp add: tb Cons)
      then show ?thesis using True flt by (simp add: T'_def)
    qed
    have dxy: "distinct (xs @ ys)" "distinct (map (fst \<circ> entry (blocks s)) (xs @ ys))" "p \<notin> set (xs @ ys)"
      using d df by (auto simp: p(1))
    show ?thesis
    proof (cases "xs = []")
      case xs: True
      then have pq: "p = q" using Cons p(1) by simp
      define m' where "m' = (blocks s)(p := None)"
      have ent: "map (entry m') ys = map (entry (blocks s)) ys"
        using dxy(3) by (intro entry_cong) (auto simp: m'_def)
      have c: "chain m' (nnext nd) ys"
      proof -
        have "chain m' (nnext nd) ys \<longleftrightarrow> chain (blocks s) (nnext nd) ys"
          by (rule chain_cong) (use dxy(3) in \<open>auto simp: m'_def\<close>)
        then show ?thesis using ch nd by (simp add: p(1) xs)
      qed
      have "represents (s\<lparr>Notify_list := (Notify_list s)(t := nnext nd), blocks := m'\<rparr>) T'"
      proof (rule represents_upd [OF r, where t = t and qs = ys])
        show "distinct (map (fst \<circ> entry m') ys)"
          using dxy(2) arg_cong [OF ent, of "map fst"] by (simp only: map_map xs append_Nil)
        show "m' x = blocks s x" if "u \<noteq> t" "x \<in> set (L u)" for u x
          using dj [OF that(1)] that(2) by (auto simp: m'_def p(1))
        show "set (L u) \<inter> set ys = {}" if "u \<noteq> t" for u using dj [OF that] by (auto simp: p(1))
      qed (use c dxy(1) xs in \<open>simp_all add: T'_def ent\<close>)
      moreover have "mico_system_notify_remove t f s =
          Some (kNoErr, s\<lparr>Notify_list := (Notify_list s)(t := nnext nd), blocks := m'\<rparr>)"
        using hd fb nd xs pq by (simp add: mico_system_notify_remove_def m'_def)
      ultimately show ?thesis using sp by blast
    next
      case False
      define l where "l = last xs"
      obtain zs where zs: "xs = zs @ [l]" using False append_butlast_last_id [of xs] by (metis l_def)
      obtain ld where ld: "blocks s l = Some ld" using chain_dom [OF ch] p(1) zs by auto
      have lp: "l \<noteq> p" "p \<noteq> q" using dxy(3) zs Cons p(1) by (cases zs; auto)+
      define m' where "m' = (blocks s)(l \<mapsto> ld\<lparr>nnext := nnext nd\<rparr>, p := None)"
      have c: "chain m' (Notify_list s t) (zs @ l # ys)"
        by (rule chain_unlink [where m = "blocks s" and r = p]) (use ch d p(1) zs ld nd lp in \<open>auto simp: m'_def\<close>)
      have ent: "map (entry m') (xs @ ys) = map (entry (blocks s)) (xs @ ys)"
        using dxy(3) ld by (auto simp: m'_def entry_def)
      have "represents (s\<lparr>Notify_list := Notify_list s, blocks := m'\<rparr>) T'"
      proof (rule represents_upd [OF r, where t = t and qs = "xs @ ys"])
        show "distinct (map (fst \<circ> entry m') (xs @ ys))"
          using dxy(2) arg_cong [OF ent, of "map fst"] by (simp only: map_map)
        show "m' x = blocks s x" if "u \<noteq> t" "x \<in> set (L u)" for u x
          using dj [OF that(1)] that(2) by (auto simp: m'_def p(1) zs)
        show "set (L u) \<inter> set (xs @ ys) = {}" if "u \<noteq> t" for u using dj [OF that] by (auto simp: p(1))
        show "T' = (table_of s L)(t := map (entry m') (xs @ ys))" by (simp only: T'_def ent)
        show "chain m' (Notify_list s t) (xs @ ys)" using c by (simp add: zs)
      qed (rule dxy(1), simp)
      moreover have "mico_system_notify_remove t f s = Some (kNoErr, s\<lparr>blocks := m'\<rparr>)"
        using hd fb nd False lp ld by (simp add: mico_system_notify_remove_def m'_def l_def)
      ultimately show ?thesis using sp by auto
    qed
  qed
qed

lemma remove_all_chain:
  assumes "chain (blocks s) (Notify_list s t) ps" and "distinct ps"
  shows "mico_system_notify_remove_all t s =
    Some (kNoErr, s\<lparr>Notify_list := (Notify_list s)(t := None), blocks := (blocks s) |` (- set ps)\<rparr>)"
  using assms
proof (induction ps arbitrary: s)
  case Nil
  then have "Notify_list s t = None" by simp
  moreover from this have "(Notify_list s)(t := None) = Notify_list s" by auto
  ultimately show ?case by (subst mico_system_notify_remove_all.simps) (simp add: restrict_map_def)
next
  case (Cons p ps)
  then obtain nd where nd: "Notify_list s t = Some p" "blocks s p = Some nd" "chain (blocks s) (nnext nd) ps" by auto
  define s1 where "s1 = s\<lparr>Notify_list := (Notify_list s)(t := nnext nd), blocks := (blocks s)(p := None)\<rparr>"
  have "chain (blocks s1) (nnext nd) ps \<longleftrightarrow> chain (blocks s) (nnext nd) ps"
    by (rule chain_cong) (use Cons.prems(2) in \<open>auto simp: s1_def\<close>)
  then have "chain (blocks s1) (Notify_list s1 t) ps" using nd(3) by (simp add: s1_def)
  note ih = Cons.IH [OF this]
  have e: "(blocks s1) |` (- set ps) = (blocks s) |` (- set (p # ps))"
    "(Notify_list s1)(t := None) = (Notify_list s)(t := None)"
    by (auto simp: s1_def restrict_map_def fun_eq_iff)
  have "s1\<lparr>Notify_list := X, blocks := Y\<rparr> = s\<lparr>Notify_list := X, blocks := Y\<rparr>" for X Y by (simp add: s1_def)
  moreover have "mico_system_notify_remove_all t s = mico_system_notify_remove_all t s1"
    using nd by (subst mico_system_notify_remove_all.simps) (simp add: s1_def)
  ultimately show ?case using ih Cons.prems(2) by (simp only: e distinct.simps)
qed

lemma remove_all_refines:
  assumes r: "lists_ok s L"
  shows "\<exists>err s' T'. mico_system_notify_remove_all t s = Some (err, s') \<and>
    notify_spec room (Remove_all t) (table_of s L) = (err, T') \<and> represents s' T'"
proof -
  have ch: "chain (blocks s) (Notify_list s t) (L t)" and d: "distinct (L t)"
    and dj: "\<And>u. u \<noteq> t \<Longrightarrow> set (L u) \<inter> set (L t) = {}"
    using r unfolding lists_ok_def by blast+
  have "represents (s\<lparr>Notify_list := (Notify_list s)(t := None), blocks := (blocks s) |` (- set (L t))\<rparr>)
      ((table_of s L)(t := []))"
  proof (rule represents_upd [OF r, where t = t and qs = "[]"])
    show "((blocks s) |` (- set (L t))) x = blocks s x" if "u \<noteq> t" "x \<in> set (L u)" for u x
      using dj [OF that(1)] that(2) by (auto simp: restrict_map_def)
  qed simp_all
  then show ?thesis using remove_all_chain [OF ch d] by auto
qed

lemma notify_refines:
  assumes al: "\<And>D p. alloc D = Some p \<Longrightarrow> p \<notin> D" and "represents s T"
  shows "\<exists>err s' T'. notify_step alloc op s = Some (err, s') \<and>
    notify_spec (alloc (dom (blocks s)) \<noteq> None) op T = (err, T') \<and> represents s' T'"
proof -
  obtain L where L: "lists_ok s L" "T = table_of s L" using assms(2) by (auto simp: represents_def)
  show ?thesis
  proof (cases op)
    case (Register t f x)
    define e where "e = (if alloc (dom (blocks s)) = None then kNoMemoryErr else kNoErr)"
    from register_refines [OF al L(1), where t = t and f = f and x = x]
    show ?thesis unfolding Register L(2) notify_step.simps e_def [symmetric] by blast
  next
    case (Remove t f)
    then show ?thesis using remove_refines [OF L(1)] L(2) by fastforce
  next
    case (Remove_all t)
    then show ?thesis using remove_all_refines [OF L(1)] L(2) by fastforce
  qed
qed

section \<open>Calling the callbacks\<close>

lemma call_list_chain:
  assumes cb: "\<And>f x s. blocks (cb f ev x s) = blocks s" and "chain (blocks s) (Some q) (q # qs)"
  shows "call_list cb ev q s = Some (foldl (\<lambda>s e. cb (fst e) ev (snd e) s) s (map (entry (blocks s)) (q # qs)))"
  using assms(2)
proof (induction qs arbitrary: q s)
  case Nil
  then show ?case by (subst call_list.simps) (auto simp: cb entry_def)
next
  case (Cons r rs)
  then obtain nd where nd: "blocks s q = Some nd" "nnext nd = Some r" "chain (blocks s) (Some r) (r # rs)" by auto
  define s1 where "s1 = cb (nfunction nd) ev (narg nd) s"
  have b: "blocks s1 = blocks s" by (simp add: s1_def cb)
  have "call_list cb ev q s = call_list cb ev r s1"
    using nd(1,2) b by (subst call_list.simps) (simp add: s1_def)
  then show ?case using Cons.IH [of s1 r] nd b by (simp add: entry_def s1_def)
qed

lemma notify_table:
  assumes "\<And>f x s. blocks (cb f ev x s) = blocks s" and "represents s T"
  shows "notify cb t ev s = Some (foldl (\<lambda>s e. cb (fst e) ev (snd e) s) s (T t))"
proof -
  obtain L where L: "lists_ok s L" "T = table_of s L" using assms(2) by (auto simp: represents_def)
  have ch: "chain (blocks s) (Notify_list s t) (L t)" using L(1) by (simp add: lists_ok_def)
  show ?thesis
  proof (cases "L t")
    case Nil
    then show ?thesis using ch by (simp add: notify_def L(2) table_of_def)
  next
    case (Cons q qs)
    then show ?thesis using ch call_list_chain [where cb = cb and ev = ev, OF assms(1), of s q qs]
      by (simp add: notify_def L(2) table_of_def)
  qed
qed

text \<open>The block that a repeated registration allocates is in no list; nothing frees it any more.\<close>

lemma register_again_leaks:
  assumes "\<And>D p. alloc D = Some p \<Longrightarrow> p \<notin> D" and "represents s T" and "f \<in> fst ` set (T t)"
    and "alloc (dom (blocks s)) = Some p"
  shows "\<exists>s'. mico_system_notify_register alloc t f x s = Some (kNoErr, s') \<and> represents s' T \<and>
    dom (blocks s') = insert p (dom (blocks s)) \<and> p \<notin> dom (blocks s)"
proof -
  obtain s' where r: "mico_system_notify_register alloc t f x s = Some (kNoErr, s')" "represents s' T"
  proof -
    have "\<exists>err s' T'. notify_step alloc (Register t f x) s = Some (err, s') \<and>
        notify_spec (alloc (dom (blocks s)) \<noteq> None) (Register t f x) T = (err, T') \<and> represents s' T'"
      by (rule notify_refines [OF _ assms(2)]) (rule assms(1))
    then show ?thesis using that assms(3,4) by auto
  qed
  obtain L where L: "lists_ok s L" "T = table_of s L" using assms(2) by (auto simp: represents_def)
  define m where "m = (blocks s)(p \<mapsto> \<lparr>nfunction = f, narg = x, nnext = None\<rparr>)"
  have p: "blocks s p = None" using assms(1) [OF assms(4)] by auto
  have ch: "chain (blocks s) (Notify_list s t) (L t)" using L(1) by (simp add: lists_ok_def)
  obtain q qs where q: "L t = q # qs" using assms(3) L(2) by (cases "L t") (auto simp: table_of_def)
  have "chain m (Some q) (q # qs) \<longleftrightarrow> chain (blocks s) (Some q) (q # qs)"
    by (rule chain_cong) (use chain_dom [OF ch] q p in \<open>auto simp: m_def\<close>)
  then have cm: "chain m (Some q) (q # qs)" "Notify_list s t = Some q" using ch q by simp_all
  have "map (entry m) (L t) = map (entry (blocks s)) (L t)"
    by (rule entry_cong) (use chain_dom [OF ch] p in \<open>auto simp: m_def\<close>)
  then have fm: "f \<in> set (map fst (map (entry m) (q # qs)))" using assms(3) L(2) q by (simp add: table_of_def image_image)
  obtain nd where nd: "m q = Some nd" using cm(1) by auto
  have "mico_system_notify_register alloc t f x s = Some (kNoErr, s\<lparr>blocks := m\<rparr>)"
    using assms(4) cm(2) nd find_last_chain [OF cm(1), of f] fm
    by (auto simp: mico_system_notify_register_def Let_def entry_def image_image simp flip: m_def)
  then show ?thesis using r p by (auto simp: m_def)
qed

section \<open>Properties\<close>

text \<open>
  C28. The linked lists implement a table from notification types to lists of callbacks: registering,
  removing one and removing all never use a block that is not allocated, end, return the status that the
  table requires and keep the representation. A function is registered at most once per type, with the
  argument of its first registration; without memory nothing changes.
\<close>

theorem notification_lists_refine_table:
  assumes "\<forall>D p. alloc D = Some p \<longrightarrow> p \<notin> D" and "represents s T"
  shows "\<exists>err s' T'. notify_step alloc op s = Some (err, s') \<and>
    notify_spec (alloc (dom (blocks s)) \<noteq> None) op T = (err, T') \<and> represents s' T'"
  using notify_refines [OF _ assms(2)] assms(1) by blast

text \<open>An allocator with two free blocks, and the lists of a system that has just started.\<close>

definition two_blocks :: "nat set \<Rightarrow> nat option" where
  "two_blocks D = (if 1 \<notin> D then Some 1 else if 2 \<notin> D then Some 2 else None)"

definition no_notifications :: "(nat, nat, nat list) notify_sys" where
  "no_notifications = \<lparr>Notify_list = (\<lambda>t. None), blocks = (\<lambda>p. None), world = []\<rparr>"

lemma no_notifications_table: "represents no_notifications (\<lambda>t. [])"
  unfolding represents_def
  by (rule exI [of _ "\<lambda>t. []"]) (simp add: lists_ok_def table_of_def no_notifications_def fun_eq_iff)

theorem notification_lists_refine_table_witness:
  "\<exists>err s' T'. notify_step two_blocks (Register mico_notify_DHCP_COMPLETED 7 0) no_notifications = Some (err, s') \<and>
    notify_spec True (Register mico_notify_DHCP_COMPLETED 7 0) (\<lambda>t. []) = (err, T') \<and> represents s' T'"
  using notification_lists_refine_table [of two_blocks no_notifications "\<lambda>t. []"
      "Register mico_notify_DHCP_COMPLETED 7 0"] no_notifications_table
  by (simp add: two_blocks_def no_notifications_def split: if_splits)

text \<open>
  A notification calls every callback that is registered for its type, in the order of their
  registration and with their arguments, as long as the callbacks leave the lists alone.
\<close>

theorem notifications_in_order:
  assumes "\<forall>f x s. blocks (cb f ev x s) = blocks s" and "represents s T"
  shows "notify cb t ev s = Some (foldl (\<lambda>s e. cb (fst e) ev (snd e) s) s (T t))"
  using notify_table [OF _ assms(2)] assms(1) by blast

definition note_down :: "(nat, nat, nat, nat list) callback" where
  "note_down f ev x s = s\<lparr>world := world s @ [f]\<rparr>"

definition one_notification :: "(nat, nat, nat list) notify_sys" where
  "one_notification = \<lparr>Notify_list = (\<lambda>t. None)(mico_notify_DHCP_COMPLETED := Some 1),
     blocks = [1 \<mapsto> \<lparr>nfunction = 7, narg = 0, nnext = None\<rparr>], world = []\<rparr>"

lemma one_notification_table: "represents one_notification ((\<lambda>t. [])(mico_notify_DHCP_COMPLETED := [(7, 0)]))"
  unfolding represents_def
  by (rule exI [of _ "(\<lambda>t. [])(mico_notify_DHCP_COMPLETED := [1])"])
    (auto simp: lists_ok_def table_of_def one_notification_def entry_def)

theorem notifications_in_order_witness:
  "notify note_down mico_notify_DHCP_COMPLETED (Ev_IPStatus 0) one_notification = Some (one_notification\<lparr>world := [7]\<rparr>)"
  using notifications_in_order [of note_down "Ev_IPStatus 0" one_notification, OF _ one_notification_table]
  by (simp add: note_down_def) (simp add: one_notification_def)

text \<open>
  A callback must not remove itself: the loop reads the successor from the block that the removal
  has freed, so that a notification whose only callback removes itself is a fault.
\<close>

theorem self_removal_faults:
  assumes "represents s T" and "T t = [(f, x)]"
    and "\<forall>err s'. mico_system_notify_remove t f s = Some (err, s') \<longrightarrow> cb f ev x s = s'"
  shows "notify cb t ev s = None"
proof -
  obtain L where L: "lists_ok s L" "T = table_of s L" using assms(1) by (auto simp: represents_def)
  obtain p where p: "L t = [p]" "entry (blocks s) p = (f, x)" using assms(2) by (auto simp: L(2) table_of_def)
  have "chain (blocks s) (Notify_list s t) (L t)" using L(1) by (simp add: lists_ok_def)
  then obtain nd where nd: "Notify_list s t = Some p" "blocks s p = Some nd" "nnext nd = None" by (auto simp: p)
  have e: "nfunction nd = f" "narg nd = x" using p(2) nd(2) by (simp_all add: entry_def)
  have "find_block (blocks s) f None p = Some (Some (None, p))"
    using nd e by (subst find_block.simps) simp
  then have "mico_system_notify_remove t f s =
      Some (kNoErr, s\<lparr>Notify_list := (Notify_list s)(t := None), blocks := (blocks s)(p := None)\<rparr>)"
    using nd by (simp add: mico_system_notify_remove_def)
  then have "cb f ev x s = s\<lparr>Notify_list := (Notify_list s)(t := None), blocks := (blocks s)(p := None)\<rparr>"
    using assms(3) by blast
  then show ?thesis using nd e by (simp add: notify_def call_list.simps [of cb ev p])
qed

definition remove_itself :: "(nat, nat, nat, nat list) callback" where
  "remove_itself f ev x s = (case mico_system_notify_remove mico_notify_DHCP_COMPLETED f s of
     None \<Rightarrow> s | Some (err, s') \<Rightarrow> s')"

theorem self_removal_faults_witness:
  "notify remove_itself mico_notify_DHCP_COMPLETED (Ev_IPStatus 0) one_notification = None"
  by (rule self_removal_faults [OF one_notification_table]) (auto simp: remove_itself_def)

end
