(* ===== verification/SystemMonitor.thy ===== *)
theory SystemMonitor
  imports Prelude
begin

text \<open>
  The system monitor, \<open>MICO/system/mico_system_monitor.c\<close>: a thread that reloads the watchdog while every registered
  monitor is updated in time and stops for ever otherwise, so that the watchdog resets the device. Time is a count of
  milliseconds; \<open>mico_get_time\<close> delivers its low 32 bits. The thread compares monitor by monitor, and the calls of other
  threads and the passing of time come between any two of its steps. The results of initialising the watchdog, creating
  the thread and the timer are parameters.
\<close>

section \<open>Monitors\<close>

record mico_system_monitor_t =
  last_update :: u32
  longest_permitted_delay :: u32

abbreviation DEFAULT_SYSTEM_MONITOR_PERIOD :: nat where "DEFAULT_SYSTEM_MONITOR_PERIOD \<equiv> 2000"
abbreviation MAXIMUM_NUMBER_OF_SYSTEM_MONITORS :: nat where "MAXIMUM_NUMBER_OF_SYSTEM_MONITORS \<equiv> 5"
abbreviation APPLICATION_WATCHDOG_TIMEOUT_SECONDS :: u32 where "APPLICATION_WATCHDOG_TIMEOUT_SECONDS \<equiv> 5"

text \<open>The thread: not created, in \<open>mico_thread_msleep\<close> up to a time, in the loop with \<open>current_time\<close> and \<open>a\<close>, or in
  \<open>while(1)\<close>.\<close>

datatype monitor_phase = No_monitor | Asleep nat | Comparing u32 nat | Stopped

text \<open>The table holds addresses of monitors. \<open>wdg_reloaded\<close> is the time of the last start or reload of the watchdog.\<close>

record monitor_sys =
  now :: nat
  system_monitors :: "nat option list"
  monitors :: "nat \<Rightarrow> mico_system_monitor_t"
  phase :: monitor_phase
  wdg_reloaded :: "nat option"
  reload_timer :: bool

definition mico_get_time :: "monitor_sys \<Rightarrow> u32" where
  "mico_get_time s = of_nat (now s)"

text \<open>The static variables before the first call.\<close>

definition monitor_start :: "nat \<Rightarrow> monitor_sys" where
  "monitor_start t = \<lparr>now = t, system_monitors = replicate MAXIMUM_NUMBER_OF_SYSTEM_MONITORS None,
     monitors = (\<lambda>m. \<lparr>last_update = 0, longest_permitted_delay = 0\<rparr>), phase = No_monitor, wdg_reloaded = None,
     reload_timer = False\<rparr>"

fun find_spare :: "nat option list \<Rightarrow> nat \<Rightarrow> nat option" where
  "find_spare [] a = None"
| "find_spare (x # xs) a = (if x = None then Some a else find_spare xs (a + 1))"

definition mico_system_monitor_register :: "nat \<Rightarrow> u32 \<Rightarrow> monitor_sys \<Rightarrow> OSStatus \<times> monitor_sys" where
  "mico_system_monitor_register m initial_permitted_delay s =
     (case find_spare (system_monitors s) 0 of
        None \<Rightarrow> (kUnknownErr, s)
      | Some a \<Rightarrow> (kNoErr, s\<lparr>monitors := (monitors s)
            (m := \<lparr>last_update = mico_get_time s, longest_permitted_delay = initial_permitted_delay\<rparr>),
          system_monitors := (system_monitors s)[a := Some m]\<rparr>))"

definition mico_system_monitor_update :: "nat \<Rightarrow> u32 \<Rightarrow> monitor_sys \<Rightarrow> OSStatus \<times> monitor_sys" where
  "mico_system_monitor_update m permitted_delay s =
     (let current_time = mico_get_time s in
      if current_time - last_update (monitors s m) \<le> longest_permitted_delay (monitors s m)
      then (kNoErr, s\<lparr>monitors := (monitors s)
             (m := \<lparr>last_update = current_time, longest_permitted_delay = permitted_delay\<rparr>)\<rparr>)
      else (kNoErr, s))"

text \<open>\<open>require_noerr\<close> does not assign: \<open>err\<close> is still \<open>kNoErr\<close> when the watchdog cannot be initialised.\<close>

definition MICOStartSystemMonitor :: "OSStatus \<Rightarrow> OSStatus \<Rightarrow> monitor_sys \<Rightarrow> OSStatus \<times> monitor_sys" where
  "MICOStartSystemMonitor wdg_init create_thread s =
     (if wdg_init \<noteq> kNoErr then (kNoErr, s)
      else let s = s\<lparr>wdg_reloaded := Some (now s), system_monitors := replicate MAXIMUM_NUMBER_OF_SYSTEM_MONITORS None\<rparr> in
        if create_thread \<noteq> kNoErr then (create_thread, s) else (kNoErr, s\<lparr>phase := Asleep (now s)\<rparr>))"

text \<open>The address of the monitor of the application.\<close>

definition mico_monitor :: nat where "mico_monitor = 0"

definition watchdog_reload_timer_handler :: "monitor_sys \<Rightarrow> monitor_sys" where
  "watchdog_reload_timer_handler s =
     snd (mico_system_monitor_update mico_monitor (APPLICATION_WATCHDOG_TIMEOUT_SECONDS * 1000) s)"

definition mico_system_monitor_daemen_start :: "OSStatus \<Rightarrow> OSStatus \<Rightarrow> monitor_sys \<Rightarrow> OSStatus \<times> monitor_sys" where
  "mico_system_monitor_daemen_start wdg_init create_thread s =
     (case MICOStartSystemMonitor wdg_init create_thread s of (err, s) \<Rightarrow>
        if err \<noteq> kNoErr then (err, s)
        else (case mico_system_monitor_register mico_monitor (APPLICATION_WATCHDOG_TIMEOUT_SECONDS * 1000) s of (err, s) \<Rightarrow>
          if err \<noteq> kNoErr then (err, s) else (err, s\<lparr>reload_timer := True\<rparr>)))"

section \<open>Steps\<close>

text \<open>One step of \<open>mico_system_monitor_thread_main\<close>: the time is taken, a monitor is compared, the watchdog reloaded.
  \<open>None\<close> is a thread that cannot run. A created thread sleeps up to the time of its creation.\<close>

definition monitor_thread_step :: "monitor_sys \<Rightarrow> monitor_sys option" where
  "monitor_thread_step s =
     (case phase s of
        No_monitor \<Rightarrow> None
      | Asleep t \<Rightarrow> if t \<le> now s then Some (s\<lparr>phase := Comparing (mico_get_time s) 0\<rparr>) else None
      | Comparing current_time a \<Rightarrow>
          if a < length (system_monitors s)
          then (case system_monitors s ! a of
                  None \<Rightarrow> Some (s\<lparr>phase := Comparing current_time (a + 1)\<rparr>)
                | Some m \<Rightarrow>
                    if current_time - last_update (monitors s m) > longest_permitted_delay (monitors s m)
                    then Some (s\<lparr>phase := Stopped\<rparr>) else Some (s\<lparr>phase := Comparing current_time (a + 1)\<rparr>))
          else Some (s\<lparr>wdg_reloaded := Some (now s), phase := Asleep (now s + DEFAULT_SYSTEM_MONITOR_PERIOD)\<rparr>)
      | Stopped \<Rightarrow> Some s)"

text \<open>What a step of the device is: a millisecond, a step of the thread, a call of another thread or of the timer.\<close>

datatype monitor_event = Tick | Thread | Register nat u32 | Update nat u32 | Reload_timer

fun event_step :: "monitor_event \<Rightarrow> monitor_sys \<Rightarrow> monitor_sys option" where
  "event_step Tick s = Some (s\<lparr>now := now s + 1\<rparr>)"
| "event_step Thread s = monitor_thread_step s"
| "event_step (Register m d) s = Some (snd (mico_system_monitor_register m d s))"
| "event_step (Update m d) s = Some (snd (mico_system_monitor_update m d s))"
| "event_step Reload_timer s = (if reload_timer s then Some (watchdog_reload_timer_handler s) else None)"

inductive monitor_step :: "monitor_event \<Rightarrow> monitor_sys \<Rightarrow> monitor_sys \<Rightarrow> bool" where
  "event_step e s = Some s' \<Longrightarrow> monitor_step e s s'"

code_pred monitor_step .

inductive_simps monitor_step_simps [simp]: "monitor_step e s s'"

text \<open>The watchdog resets the device 3000 ms after it was last reloaded.\<close>

definition reset_due :: "monitor_sys \<Rightarrow> bool" where
  "reset_due s \<longleftrightarrow> (case wdg_reloaded s of None \<Rightarrow> False | Some t \<Rightarrow> t + DEFAULT_SYSTEM_MONITOR_PERIOD + 1000 < now s)"

lemma thread_step_fields:
  "monitor_thread_step s = Some s' \<Longrightarrow> now s' = now s \<and> monitors s' = monitors s \<and> system_monitors s' = system_monitors s"
  by (auto simp: monitor_thread_step_def split: monitor_phase.splits option.splits if_splits)

lemma call_fields [simp]:
  "now (snd (mico_system_monitor_register m d s)) = now s"
  "length (system_monitors (snd (mico_system_monitor_register m d s))) = length (system_monitors s)"
  "now (snd (mico_system_monitor_update m d s)) = now s"
  "system_monitors (snd (mico_system_monitor_update m d s)) = system_monitors s"
  "now (watchdog_reload_timer_handler s) = now s"
  "system_monitors (watchdog_reload_timer_handler s) = system_monitors s"
  by (simp_all add: mico_system_monitor_register_def mico_system_monitor_update_def watchdog_reload_timer_handler_def
      Let_def split: option.split)

lemma step_fields:
  "monitor_step e s s' \<Longrightarrow> now s \<le> now s' \<and> length (system_monitors s') = length (system_monitors s)"
  by (cases e) (auto dest: thread_step_fields split: if_splits)

section \<open>Monitors that are updated in time\<close>

definition fresh :: "monitor_sys \<Rightarrow> u32 \<Rightarrow> nat \<Rightarrow> bool" where
  "fresh s t m \<longleftrightarrow> t - last_update (monitors s m) \<le> longest_permitted_delay (monitors s m)"

definition registered :: "monitor_sys \<Rightarrow> nat set" where
  "registered s = {m. Some m \<in> set (system_monitors s)}"

definition punctual :: "monitor_sys \<Rightarrow> bool" where
  "punctual s \<longleftrightarrow> (\<forall>m \<in> registered s. fresh s (mico_get_time s) m)"

text \<open>No call comes between taking the time and a comparison at a later time.\<close>

definition undisturbed :: "monitor_event \<Rightarrow> monitor_sys \<Rightarrow> bool" where
  "undisturbed e s \<longleftrightarrow> (case phase s of Comparing t a \<Rightarrow> e = Tick \<or> e = Thread \<or> mico_get_time s = t | _ \<Rightarrow> True)"

inductive kept_run :: "monitor_sys \<Rightarrow> monitor_sys \<Rightarrow> bool" where
  start: "kept_run s s"
| step: "kept_run s s1 \<Longrightarrow> punctual s1 \<Longrightarrow> undisturbed e s1 \<Longrightarrow> monitor_step e s1 s2 \<Longrightarrow> kept_run s s2"

text \<open>The thread alone, without time passing.\<close>

fun thread_steps :: "nat \<Rightarrow> monitor_sys \<Rightarrow> monitor_sys option" where
  "thread_steps 0 s = Some s"
| "thread_steps (Suc k) s = (case monitor_thread_step s of None \<Rightarrow> None | Some s \<Rightarrow> thread_steps k s)"

definition alive :: "monitor_sys \<Rightarrow> bool" where
  "alive s \<longleftrightarrow> (case phase s of Stopped \<Rightarrow> False | Comparing t a \<Rightarrow> a \<le> length (system_monitors s) \<and> (\<forall>m \<in> registered s. fresh s t m) | _ \<Rightarrow> True)"

lemma find_spare_Some: "find_spare xs a = Some i \<Longrightarrow> a \<le> i \<and> i - a < length xs \<and> xs ! (i - a) = None"
  by (induction xs arbitrary: a) (fastforce split: if_splits simp: nth_Cons' Suc_diff_le)+

lemma register_registered:
  "registered (snd (mico_system_monitor_register m d s)) \<subseteq> insert m (registered s)"
  by (auto simp: mico_system_monitor_register_def registered_def split: option.splits dest!: set_update_subset_insert [THEN subsetD])

lemma slot_registered: "system_monitors s ! a = Some m \<Longrightarrow> a < length (system_monitors s) \<Longrightarrow> m \<in> registered s"
  by (metis CollectI nth_mem registered_def)

lemma registered_phase [simp]: "registered (s\<lparr>phase := p\<rparr>) = registered s"
  by (simp add: registered_def)

lemma alive_step:
  assumes "alive s" and "punctual s" and "undisturbed e s" and "monitor_step e s s'"
  shows "alive s'"
proof -
  have upd: "alive (snd (mico_system_monitor_update m d s))" if "e \<noteq> Tick" "e \<noteq> Thread" for m d
    using assms(1,3) that
    by (auto simp: alive_def undisturbed_def mico_system_monitor_update_def fresh_def registered_def Let_def split: monitor_phase.splits)
  show ?thesis
  proof (cases e)
    case Tick
    then show ?thesis using assms(1,4)
      by (auto simp: alive_def registered_def fresh_def split: monitor_phase.splits)
  next
    case Thread
    then have "monitor_thread_step s = Some s'" using assms(4) by auto
    then show ?thesis using assms(1,2)
      by (auto simp: monitor_thread_step_def alive_def punctual_def fresh_def simp flip: not_le
          dest!: slot_registered split: monitor_phase.splits if_splits option.splits)
  next
    case (Register m d)
    then have "s' = snd (mico_system_monitor_register m d s)" using assms(4) by auto
    then show ?thesis using assms(1,3) Register register_registered [of m d s]
      by (auto simp: alive_def undisturbed_def mico_system_monitor_register_def fresh_def split: monitor_phase.splits option.splits)
  
  next
    case (Update m d)
    then show ?thesis using assms(4) upd by auto
  next
    case Reload_timer
    then show ?thesis using assms(4) upd by (auto simp: watchdog_reload_timer_handler_def split: if_splits)
  qed
qed

lemma kept_run_alive: "kept_run s s' \<Longrightarrow> alive s \<Longrightarrow> alive s'"
  by (induction rule: kept_run.induct) (auto intro: alive_step)

lemma kept_run_length: "kept_run s s' \<Longrightarrow> length (system_monitors s') = length (system_monitors s)"
  by (induction rule: kept_run.induct) (auto dest: step_fields simp del: monitor_step_simps)

lemma comparing_reloads:
  "phase s = Comparing t a \<Longrightarrow> \<forall>m \<in> registered s. fresh s t m \<Longrightarrow> a \<le> length (system_monitors s) \<Longrightarrow>
     thread_steps (length (system_monitors s) - a + 1) s =
       Some (s\<lparr>wdg_reloaded := Some (now s), phase := Asleep (now s + DEFAULT_SYSTEM_MONITOR_PERIOD)\<rparr>)"
proof (induction "length (system_monitors s) - a" arbitrary: s a)
  case 0
  then show ?case by (simp add: monitor_thread_step_def)
next
  case (Suc n)
  let ?s = "s\<lparr>phase := Comparing t (a + 1)\<rparr>"
  have a: "a < length (system_monitors s)" using Suc.hyps(2) by simp
  have "\<not> longest_permitted_delay (monitors s m) < t - last_update (monitors s m)" if "system_monitors s ! a = Some m" for m
    using Suc.prems(2) that a by (auto simp: registered_def fresh_def not_less intro: nth_mem [of a "system_monitors s", simplified that])
  then have "monitor_thread_step s = Some ?s"
    using Suc.prems(1) a by (auto simp: monitor_thread_step_def split: option.splits)
  moreover have "thread_steps (length (system_monitors ?s) - (a + 1) + 1) ?s =
      Some (?s\<lparr>wdg_reloaded := Some (now ?s), phase := Asleep (now ?s + DEFAULT_SYSTEM_MONITOR_PERIOD)\<rparr>)"
    using Suc.prems(2) Suc.hyps(2) a by (intro Suc.hyps(1)) (auto simp: registered_def fresh_def)
  moreover have "length (system_monitors s) - a + 1 = Suc (length (system_monitors ?s) - (a + 1) + 1)" using a by simp
  ultimately show ?case by simp
qed

text \<open>
  Runs as \<open>kept_run\<close> in which, moreover, the thread gets to each of its steps in time: it can run when its sleep is over or since its
  last step, \<open>since\<close>, and then waits for its next step at most \<open>L\<close> milliseconds.
\<close>

definition ready_since :: "monitor_sys \<Rightarrow> nat" where
  "ready_since s = (case phase s of Asleep t \<Rightarrow> t | _ \<Rightarrow> now s)"

inductive timely_run :: "nat \<Rightarrow> monitor_sys \<Rightarrow> nat \<Rightarrow> monitor_sys \<Rightarrow> bool" for L s where
  start: "timely_run L s (ready_since s) s"
| tick: "timely_run L s since s1 \<Longrightarrow> punctual s1 \<Longrightarrow> now s1 < since + L \<Longrightarrow> monitor_step Tick s1 s2 \<Longrightarrow>
    timely_run L s since s2"
| thread: "timely_run L s since s1 \<Longrightarrow> punctual s1 \<Longrightarrow> monitor_step Thread s1 s2 \<Longrightarrow>
    timely_run L s (ready_since s2) s2"
| call: "timely_run L s since s1 \<Longrightarrow> punctual s1 \<Longrightarrow> e \<noteq> Tick \<Longrightarrow> e \<noteq> Thread \<Longrightarrow> undisturbed e s1 \<Longrightarrow>
    monitor_step e s1 s2 \<Longrightarrow> timely_run L s since s2"

lemma timely_kept: "timely_run L s since s' \<Longrightarrow> kept_run s s'"
proof (induction rule: timely_run.induct)
  case start
  show ?case by (rule kept_run.start)
next
  case (tick since s1 s2)
  then show ?case by (intro kept_run.step [OF tick.IH, of Tick]) (auto simp: undisturbed_def split: monitor_phase.split)
next
  case (thread since s1 s2)
  then show ?case by (intro kept_run.step [OF thread.IH, of Thread]) (auto simp: undisturbed_def split: monitor_phase.split)
next
  case (call since s1 e s2)
  then show ?case by (intro kept_run.step [OF call.IH])
qed

text \<open>How late the thread can be: a round has the taking of the time, a step for each place of the table and the reload.\<close>

definition in_time :: "nat \<Rightarrow> nat \<Rightarrow> monitor_sys \<Rightarrow> bool" where
  "in_time L since s \<longleftrightarrow> (\<exists>r. wdg_reloaded s = Some r \<and> now s \<le> since + L \<and>
     (case phase s of
        Asleep t \<Rightarrow> since = t \<and> t \<le> r + DEFAULT_SYSTEM_MONITOR_PERIOD
      | Comparing c a \<Rightarrow> since \<le> r + DEFAULT_SYSTEM_MONITOR_PERIOD + (a + 1) * L \<and> a \<le> length (system_monitors s)
      | _ \<Rightarrow> False))"

lemma call_keeps_phase:
  assumes "monitor_step e s s'" and "e \<noteq> Tick" and "e \<noteq> Thread"
  shows "phase s' = phase s \<and> wdg_reloaded s' = wdg_reloaded s \<and> now s' = now s"
proof -
  have "phase (snd (mico_system_monitor_register m d s)) = phase s \<and>
      wdg_reloaded (snd (mico_system_monitor_register m d s)) = wdg_reloaded s" for m d
    by (simp add: mico_system_monitor_register_def split: option.split)
  moreover have "phase (snd (mico_system_monitor_update m d s)) = phase s \<and>
      wdg_reloaded (snd (mico_system_monitor_update m d s)) = wdg_reloaded s" for m d
    by (simp add: mico_system_monitor_update_def Let_def)
  ultimately show ?thesis using assms by (cases e) (auto simp: watchdog_reload_timer_handler_def split: if_splits)
qed

lemma in_time_thread:
  assumes "in_time L since s" and "monitor_step Thread s s'" and "phase s' \<noteq> Stopped"
  shows "in_time L (ready_since s') s'"
proof (cases "phase s")
  case (Comparing c a)
  then obtain r where r: "wdg_reloaded s = Some r" "now s \<le> since + L" "since \<le> r + 2000 + (a + 1) * L" "a \<le> length (system_monitors s)"
    using assms(1) by (auto simp: in_time_def)
  then have "now s \<le> r + 2000 + (a + 2) * L" by (simp add: algebra_simps)
  then show ?thesis using r(1,4) assms(2,3) Comparing
    by (auto simp: monitor_thread_step_def in_time_def ready_since_def simp flip: not_le split: option.splits if_splits)
qed (use assms in \<open>auto simp: monitor_thread_step_def in_time_def ready_since_def split: if_splits\<close>)

lemma timely_in_time:
  assumes "timely_run L s since s'" and "in_time L (ready_since s) s" and "alive s"
  shows "in_time L since s'"
  using assms
proof (induction rule: timely_run.induct)
  case (tick since s1 s2)
  then show ?case by (auto simp: in_time_def split: monitor_phase.splits)
next
  case (thread since s1 s2)
  have "alive s2" using kept_run_alive [OF timely_kept [OF timely_run.thread [OF thread.hyps]]] thread.prems by blast
  then show ?case using in_time_thread [OF thread.IH [OF thread.prems] thread.hyps(3)]
    by (cases "phase s2") (simp_all add: alive_def)
next
  case (call since s1 e s2)
  then show ?case using call_keeps_phase [OF call.hyps(6,3,4)] step_fields [OF call.hyps(6)]
    by (auto simp: in_time_def simp del: monitor_step_simps split: monitor_phase.splits)
qed simp

section \<open>A missed update\<close>

inductive monitor_run :: "monitor_event list \<Rightarrow> monitor_sys \<Rightarrow> monitor_sys \<Rightarrow> bool" where
  start: "monitor_run [] s s"
| step: "monitor_step e s s1 \<Longrightarrow> monitor_run es s1 s2 \<Longrightarrow> monitor_run (e # es) s s2"

text \<open>The monitor \<open>m\<close> in a slot was last updated at the time \<open>l\<close>, more than its permitted delay ago, and the thread has not
  passed it in this round.\<close>

definition overdue :: "nat \<Rightarrow> nat \<Rightarrow> monitor_sys \<Rightarrow> bool" where
  "overdue m l s \<longleftrightarrow> m \<in> registered s \<and> last_update (monitors s m) = of_nat l \<and>
     l + unat (longest_permitted_delay (monitors s m)) < now s \<and>
     (case phase s of No_monitor \<Rightarrow> False | Asleep t \<Rightarrow> True | Stopped \<Rightarrow> True
      | Comparing t a \<Rightarrow> (\<exists>c. t = of_nat c \<and> l + unat (longest_permitted_delay (monitors s m)) < c \<and> c \<le> now s) \<and>
          (\<exists>i < length (system_monitors s). a \<le> i \<and> system_monitors s ! i = Some m))"

lemma age: "l \<le> c \<Longrightarrow> c < l + 2 ^ 32 \<Longrightarrow> unat (of_nat c - of_nat l :: u32) = c - l"
  by (simp add: unat_of_nat take_bit_eq_mod flip: of_nat_diff)

lemma overdue_old:
  assumes "l + unat d < c" and "c < l + 2 ^ 32"
  shows "\<not> (of_nat c - of_nat l :: u32) \<le> d"
  using age [of l c] assms by (simp add: word_le_nat_alt)

lemma overdue_update:
  assumes "overdue m l s" and "now s < l + 2 ^ 32"
  shows "overdue m l (snd (mico_system_monitor_update m' d s)) \<and>
    wdg_reloaded (snd (mico_system_monitor_update m' d s)) = wdg_reloaded s"
proof (cases "m' = m")
  case True
  have "\<not> mico_get_time s - last_update (monitors s m) \<le> longest_permitted_delay (monitors s m)"
    using overdue_old [OF _ assms(2)] assms(1) by (auto simp: overdue_def mico_get_time_def)
  then show ?thesis using True assms(1) by (simp add: mico_system_monitor_update_def)
next
  case False
  then show ?thesis using assms(1)
    by (simp add: mico_system_monitor_update_def overdue_def registered_def Let_def split: monitor_phase.splits)
qed

lemma overdue_register:
  assumes "overdue m l s" and "m' \<noteq> m"
  shows "overdue m l (snd (mico_system_monitor_register m' d s)) \<and>
    wdg_reloaded (snd (mico_system_monitor_register m' d s)) = wdg_reloaded s"
proof (cases "find_spare (system_monitors s) 0")
  case None
  then show ?thesis using assms(1) by (simp add: mico_system_monitor_register_def)
next
  case (Some k)
  then have k: "k < length (system_monitors s)" "system_monitors s ! k = None" using find_spare_Some [of _ 0 k] by auto
  have keep: "system_monitors s ! i = Some m \<Longrightarrow> (system_monitors s)[k := Some m'] ! i = Some m" for i
    using k by (cases "i = k") auto
  have "m \<in> registered s" using assms(1) by (simp add: overdue_def)
  then obtain j where j: "j < length (system_monitors s)" "system_monitors s ! j = Some m"
    by (auto simp: registered_def in_set_conv_nth)
  then have "Some m \<in> set ((system_monitors s)[k := Some m'])" using keep by (metis length_list_update nth_mem)
  then show ?thesis using assms Some keep
    by (fastforce simp: mico_system_monitor_register_def overdue_def registered_def split: monitor_phase.splits)
qed

lemma overdue_thread:
  assumes o: "overdue m l s" and n: "now s < l + 2 ^ 32" and t: "monitor_thread_step s = Some s'"
  shows "overdue m l s' \<and> wdg_reloaded s' = wdg_reloaded s"
proof (cases "phase s")
  case No_monitor
  then show ?thesis using o by (simp add: overdue_def)
next
  case (Asleep w)
  have "\<exists>i < length (system_monitors s). system_monitors s ! i = Some m"
    using o by (simp add: overdue_def registered_def in_set_conv_nth)
  moreover have "s' = s\<lparr>phase := Comparing (mico_get_time s) 0\<rparr>" using t Asleep by (simp add: monitor_thread_step_def split: if_splits)
  ultimately show ?thesis using o Asleep by (auto simp: overdue_def registered_def mico_get_time_def)
next
  case (Comparing t a)
  obtain c i where c: "t = of_nat c" "l + unat (longest_permitted_delay (monitors s m)) < c" "c \<le> now s"
    and i: "i < length (system_monitors s)" "a \<le> i" "system_monitors s ! i = Some m"
    using o Comparing by (auto simp: overdue_def)
  have late: "\<not> t - last_update (monitors s m) \<le> longest_permitted_delay (monitors s m)"
    using overdue_old [OF c(2)] c n o by (simp add: overdue_def)
  have s': "s' = s\<lparr>phase := Stopped\<rparr> \<or> s' = s\<lparr>phase := Comparing t (a + 1)\<rparr> \<and> a \<noteq> i"
  proof (cases "a = i")
    case True
    then show ?thesis using t i late by (simp add: monitor_thread_step_def Comparing not_le)
  next
    case False
    then show ?thesis using t i by (auto simp: monitor_thread_step_def Comparing split: if_splits option.splits)
  qed
  have i2: "a \<noteq> i \<Longrightarrow> a + 1 \<le> i" using i(2) by simp
  from s' show ?thesis
    using o Comparing c i i2 by (elim disjE conjE) (auto simp: overdue_def registered_def)
next
  case Stopped
  then show ?thesis using o t by (simp add: monitor_thread_step_def)
qed

lemma run_now: "monitor_run es s s' \<Longrightarrow> now s \<le> now s'"
  by (induction rule: monitor_run.induct) (auto dest: step_fields simp del: monitor_step_simps)

lemma overdue_step:
  assumes "monitor_step e s s1" and "overdue m l s" and "now s < l + 2 ^ 32" and "\<forall>d. e \<noteq> Register m d"
  shows "overdue m l s1 \<and> wdg_reloaded s1 = wdg_reloaded s"
proof (cases e)
  case Tick
  then have "s1 = s\<lparr>now := now s + 1\<rparr>" using assms(1) by auto
  then show ?thesis using assms(2) by (fastforce simp: overdue_def registered_def split: monitor_phase.splits)
next
  case Thread
  then show ?thesis using assms(1) overdue_thread [OF assms(2,3)] by simp
next
  case (Register m' d)
  then show ?thesis using assms(1,4) overdue_register [OF assms(2), of m' d] by auto
next
  case (Update m' d)
  then show ?thesis using assms(1) overdue_update [OF assms(2,3), of m' d] by auto
next
  case Reload_timer
  then show ?thesis using assms(1) overdue_update [OF assms(2,3)]
    by (auto simp: watchdog_reload_timer_handler_def split: if_splits)
qed

lemma overdue_run:
  "monitor_run es s s' \<Longrightarrow> overdue m l s \<Longrightarrow> now s' < l + 2 ^ 32 \<Longrightarrow> \<forall>d. Register m d \<notin> set es \<Longrightarrow>
     overdue m l s' \<and> wdg_reloaded s' = wdg_reloaded s"
proof (induction rule: monitor_run.induct)
  case (step e s s1 es s2)
  have "now s < l + 2 ^ 32" using step_fields [OF step.hyps(1)] run_now [OF step.hyps(2)] step.prems(2) by simp
  then have "overdue m l s1 \<and> wdg_reloaded s1 = wdg_reloaded s"
    using overdue_step [OF step.hyps(1) step.prems(1)] step.prems(3) by auto
  then show ?case using step.IH step.prems(2,3) by simp
qed simp

section \<open>Properties\<close>

text \<open>
  C9. The monitor does not stop a device whose monitors are updated in time: in every run in which all registered
  monitors are within their delay at every step, the thread waits for each of its steps at most \<open>L\<close> milliseconds with \<open>7 * L \<le> 1000\<close>, and
  no call falls between taking the time and a comparison in a later millisecond, the thread never stops and the watchdog never resets the device: its last reload is at most 3000 ms ago.
  From every state of such a run in which the thread compares, it reloads the watchdog after at most six
  steps of its own. (Without the last proviso the thread can stop, \<open>update_during_check_stops\<close>.)
\<close>

theorem punctual_monitors_reload:
  assumes "timely_run L s since s'" and "7 * L \<le> 1000"
    and "phase s = Asleep t" and "wdg_reloaded s = Some r" and "now s \<le> t + L" and "t \<le> r + DEFAULT_SYSTEM_MONITOR_PERIOD"
    and "length (system_monitors s) = MAXIMUM_NUMBER_OF_SYSTEM_MONITORS"
  shows "phase s' \<noteq> Stopped \<and> \<not> reset_due s' \<and> (\<exists>r'. wdg_reloaded s' = Some r' \<and> now s' \<le> r' + 3000) \<and>
    (\<forall>c a. phase s' = Comparing c a \<longrightarrow> (\<exists>k. k \<le> 6 \<and> thread_steps k s' =
       Some (s'\<lparr>wdg_reloaded := Some (now s'), phase := Asleep (now s' + DEFAULT_SYSTEM_MONITOR_PERIOD)\<rparr>)))"
proof -
  have al: "alive s" using assms(3) by (simp add: alive_def)
  note kept = timely_kept [OF assms(1)]
  have a: "alive s'" using kept_run_alive [OF kept al] .
  have l: "length (system_monitors s') = 5" using kept_run_length [OF kept] assms(7) by simp
  have "in_time L (ready_since s) s" using assms(3-6) by (simp add: in_time_def ready_since_def)
  from timely_in_time [OF assms(1) this al] obtain r' where r': "wdg_reloaded s' = Some r'" "now s' \<le> since + L"
    "case phase s' of Asleep t \<Rightarrow> since = t \<and> t \<le> r' + 2000
     | Comparing c i \<Rightarrow> since \<le> r' + 2000 + (i + 1) * L \<and> i \<le> length (system_monitors s') | _ \<Rightarrow> False"
    by (auto simp: in_time_def)
  have "since \<le> r' + 2000 + 6 * L"
  proof (cases "phase s'")
    case (Comparing c i)
    then have "i + 1 \<le> 6" "since \<le> r' + 2000 + (i + 1) * L" using r'(3) l by simp_all
    then show ?thesis using mult_le_mono1 [of "i + 1" 6 L] by linarith
  qed (use r'(3) in auto)
  then have n: "now s' \<le> r' + 3000" using r'(2) assms(2) by simp
  have "\<exists>k. k \<le> 6 \<and> thread_steps k s' =
       Some (s'\<lparr>wdg_reloaded := Some (now s'), phase := Asleep (now s' + DEFAULT_SYSTEM_MONITOR_PERIOD)\<rparr>)"
    if "phase s' = Comparing c i" for c i
    using comparing_reloads [OF that] a that l
    by (intro exI [of _ "length (system_monitors s') - i + 1"]) (auto simp: alive_def)
  moreover have "phase s' \<noteq> Stopped" using a by (auto simp: alive_def)
  moreover have "\<not> reset_due s'" using r'(1) n by (simp add: reset_due_def)
  ultimately show ?thesis using r'(1) n by blast
qed

text \<open>
  C8. A missed update is not made up for: once a registered monitor is older than its delay and the thread is asleep, no
  sequence of steps and calls - other than registering it anew - makes the thread reload the watchdog, until the
  time of the last update is reached again after 2 to the 32 milliseconds; so 3 seconds after the last reload
  the watchdog resets the device.
\<close>

theorem missed_update_resets:
  assumes "monitor_run es s s'" and "m \<in> registered s" and "phase s = Asleep t"
    and "last_update (monitors s m) = of_nat l" and "l + unat (longest_permitted_delay (monitors s m)) < now s"
    and "\<forall>d. Register m d \<notin> set es" and "wdg_reloaded s = Some r"
    and "r + 3000 < now s'" and "now s' < l + 2 ^ 32"
  shows "reset_due s'"
proof -
  have "overdue m l s" using assms(2-5) by (simp add: overdue_def)
  then have "wdg_reloaded s' = Some r" using overdue_run [OF assms(1) _ assms(9,6)] assms(7) by simp
  then show ?thesis using assms(8) by (simp add: reset_due_def)
qed

text \<open>
  A false alarm: when another thread updates its monitor in a millisecond after the one in which the thread took the
  time, the difference of the comparison wraps, and the thread stops although every monitor is within its delay at
  every step of this run.
\<close>

theorem update_during_check_stops:
  assumes "phase s = Asleep t" and "t \<le> now s" and "system_monitors s = Some m # ms"
    and "punctual s" and "punctual (s\<lparr>now := now s + 1\<rparr>)" and "d \<noteq> - 1"
  shows "\<exists>s1 s2 s3 s4. monitor_step Thread s s1 \<and> monitor_step Tick s1 s2 \<and> monitor_step (Update m d) s2 s3 \<and>
    monitor_step Thread s3 s4 \<and> punctual s1 \<and> punctual s2 \<and> punctual s3 \<and> punctual s4 \<and> phase s4 = Stopped"
proof -
  let ?t = "mico_get_time s"
  let ?s1 = "s\<lparr>phase := Comparing ?t 0\<rparr>"
  let ?s2 = "?s1\<lparr>now := Suc (now s)\<rparr>"
  let ?s3 = "?s2\<lparr>monitors := (monitors s)(m := \<lparr>last_update = mico_get_time ?s2, longest_permitted_delay = d\<rparr>)\<rparr>"
  let ?s4 = "?s3\<lparr>phase := Stopped\<rparr>"
  have time: "mico_get_time ?s2 = ?t + 1" by (simp add: mico_get_time_def)
  have 1: "monitor_step Thread s ?s1" using assms(1,2) by (simp add: monitor_thread_step_def)
  have 2: "monitor_step Tick ?s1 ?s2" by simp
  have f: "fresh ?s2 (mico_get_time ?s2) m" using assms(3,5) by (simp add: punctual_def registered_def fresh_def mico_get_time_def)
  then have 3: "monitor_step (Update m d) ?s2 ?s3" by (simp add: mico_system_monitor_update_def fresh_def Let_def)
  have "d < - 1" using assms(6) word_order.not_eq_extremum by auto
  then have 4: "monitor_step Thread ?s3 ?s4" using assms(3) by (simp add: monitor_thread_step_def time)
  have "punctual ?s1" using assms(4) by (simp add: punctual_def registered_def fresh_def mico_get_time_def)
  moreover have p2: "punctual ?s2" using assms(5) by (simp add: punctual_def registered_def fresh_def mico_get_time_def)
  moreover have "punctual ?s3" using p2 by (auto simp: punctual_def registered_def fresh_def mico_get_time_def)
  moreover have "punctual ?s4" using p2 by (auto simp: punctual_def registered_def fresh_def mico_get_time_def)
  ultimately show ?thesis using 1 2 3 4
    by (intro exI [of _ ?s1] exI [of _ ?s2] exI [of _ ?s3] exI [of _ ?s4] conjI) (simp_all del: monitor_step_simps)
qed

section \<open>A started device\<close>

definition started :: "nat \<Rightarrow> monitor_sys" where
  "started t = snd (mico_system_monitor_daemen_start kNoErr kNoErr (monitor_start t))"

lemma started_fields:
  "phase (started t) = Asleep t" "now (started t) = t" "system_monitors (started t) = [Some 0, None, None, None, None]"
  "wdg_reloaded (started t) = Some t" "monitors (started t) 0 = \<lparr>last_update = of_nat t, longest_permitted_delay = 5000\<rparr>"
  by (simp_all add: started_def mico_system_monitor_daemen_start_def MICOStartSystemMonitor_def monitor_start_def
      mico_system_monitor_register_def mico_monitor_def mico_get_time_def numeral_eq_Suc Let_def)

lemma registered_started: "registered (started t) = {0}"
  by (auto simp: registered_def started_fields)

text \<open>The thread of a started device takes the time and a millisecond passes.\<close>

theorem punctual_monitors_reload_witness:
  "\<exists>s' k. timely_run 100 (started 0) 0 s' \<and> now s' = 1 \<and> phase s' = Comparing 0 0 \<and> \<not> reset_due s' \<and> k \<le> 6 \<and>
    thread_steps k s' = Some (s'\<lparr>wdg_reloaded := Some (now s'), phase := Asleep (now s' + DEFAULT_SYSTEM_MONITOR_PERIOD)\<rparr>)"
proof -
  let ?s1 = "(started 0)\<lparr>phase := Comparing 0 0\<rparr>" and ?s = "(started 0)\<lparr>phase := Comparing 0 0, now := 1\<rparr>"
  have st: "monitor_step Thread (started 0) ?s1" "monitor_step Tick ?s1 ?s"
    by (simp_all add: monitor_thread_step_def started_fields mico_get_time_def)
  have p: "punctual (started 0)" "punctual ?s1"
    by (simp_all add: punctual_def registered_started fresh_def started_fields mico_get_time_def)
  have rs: "ready_since (started 0) = 0" "ready_since ?s1 = 0" by (simp_all add: ready_since_def started_fields)
  have "timely_run 100 (started 0) 0 ?s1"
    using timely_run.thread [OF timely_run.start p(1) st(1)] by (simp only: rs)
  from timely_run.tick [OF this p(2) _ st(2)] have run: "timely_run 100 (started 0) 0 ?s" by (simp add: started_fields)
  have "\<not> reset_due ?s \<and> (\<exists>k. k \<le> 6 \<and> thread_steps k ?s =
      Some (?s\<lparr>wdg_reloaded := Some (now ?s), phase := Asleep (now ?s + DEFAULT_SYSTEM_MONITOR_PERIOD)\<rparr>))"
    using punctual_monitors_reload [OF run _ started_fields(1,4)] by (simp add: started_fields)
  then show ?thesis using run by (intro exI [of _ ?s]) auto
qed

theorem missed_update_resets_witness:
  "\<exists>s'. monitor_run [Update 0 5000, Thread, Thread] ((started 0)\<lparr>now := 6000\<rparr>) s' \<and> reset_due s'"
proof -
  let ?s = "(started 0)\<lparr>now := 6000\<rparr>"
  let ?s1 = "?s\<lparr>phase := Comparing 6000 0\<rparr>"
  have 1: "monitor_step (Update 0 5000) ?s ?s"
    by (simp add: mico_system_monitor_update_def started_fields mico_get_time_def)
  have 2: "monitor_step Thread ?s ?s1" by (simp add: monitor_thread_step_def started_fields mico_get_time_def)
  have 3: "monitor_step Thread ?s1 (?s1\<lparr>phase := Stopped\<rparr>)" by (simp add: monitor_thread_step_def started_fields)
  note run = monitor_run.step [OF 1 monitor_run.step [OF 2 monitor_run.step [OF 3 monitor_run.start]]]
  have "reset_due (?s1\<lparr>phase := Stopped\<rparr>)"
    by (rule missed_update_resets [OF run, of 0 0 0 0]) (simp_all add: registered_def started_fields)
  then show ?thesis using run by blast
qed

theorem update_during_check_stops_witness:
  "\<exists>s1 s2 s3 s4. monitor_step Thread (started 0) s1 \<and> monitor_step Tick s1 s2 \<and> monitor_step (Update 0 5000) s2 s3 \<and>
    monitor_step Thread s3 s4 \<and> punctual s1 \<and> punctual s2 \<and> punctual s3 \<and> punctual s4 \<and> phase s4 = Stopped"
  by (rule update_during_check_stops [OF started_fields(1) _ started_fields(3)])
    (simp_all add: punctual_def registered_started registered_def fresh_def started_fields mico_get_time_def)

end
