(* ===== verification/DnsMessage.thy ===== *)
theory DnsMessage
  imports StringConv
begin

text \<open>
  The DNS messages of \<open>MICO/system/mdns/mico_mdns.c\<close>: the iterator over a message, the readers and the
  writers, and the comparison of a possibly compressed name with a text. The memory that \<open>header\<close>
  points to is a list of bytes, \<open>iter\<close> and \<open>end\<close> are offsets from it. The writers check no bound, so a
  message that does not fit its allocation is \<open>None\<close>. Plain \<open>char\<close> is unsigned, as the compilers for ARM have it.
\<close>

section \<open>Data\<close>

record dns_message_iterator_t =
  dm_bytes :: bytes
  dm_iter :: nat
  dm_end :: int

record dns_name_t =
  start_of_name :: nat
  start_of_packet :: bytes

record dns_question_t =
  question_type :: u16
  question_class :: u16

datatype mdns_record_state_t =
  RECORD_REMOVED | RECORD_UPDATE | RECORD_REMOVE | RECORD_SUSPEND | RECORD_NORMAL

datatype WiFi_Interface = Soft_AP | Station

text \<open>The strings are allocated texts or \<open>NULL\<close>. \<open>instance_name_suffix\<close> is never used.\<close>

record dns_sd_service_record_t =
  hostname :: "bytes option"
  instance_name :: "bytes option"
  service_name :: "bytes option"
  txt_att :: "bytes option"
  interface :: WiFi_Interface
  sd_ttl :: u32
  sd_port :: u16
  count_down :: u8
  sd_state :: mdns_record_state_t

abbreviation RR_TYPE_A :: u16 where "RR_TYPE_A \<equiv> 1"
abbreviation RR_TYPE_PTR :: u16 where "RR_TYPE_PTR \<equiv> 12"
abbreviation RR_TYPE_TXT :: u16 where "RR_TYPE_TXT \<equiv> 16"
abbreviation RR_TYPE_SRV :: u16 where "RR_TYPE_SRV \<equiv> 33"
abbreviation RR_QTYPE_ANY :: u16 where "RR_QTYPE_ANY \<equiv> 255"
abbreviation RR_CLASS_IN :: u16 where "RR_CLASS_IN \<equiv> 1"
abbreviation RR_CACHE_FLUSH :: u16 where "RR_CACHE_FLUSH \<equiv> 0x8000"

section \<open>Reading\<close>

definition dns_read_uint16 :: "dns_message_iterator_t \<Rightarrow> (u16 \<times> dns_message_iterator_t) option" where
  "dns_read_uint16 it = do {
     a \<leftarrow> rd (dm_bytes it) (dm_iter it);
     b \<leftarrow> rd (dm_bytes it) (dm_iter it + 1);
     Some (push_bit 8 (ucast a) + ucast b, it\<lparr>dm_iter := dm_iter it + 2\<rparr>)
   }"

text \<open>The loop of \<open>dns_skip_name\<close>.\<close>

function skip_name_loop :: "dns_message_iterator_t \<Rightarrow> dns_message_iterator_t option" where
  "skip_name_loop it =
     (case rd (dm_bytes it) (dm_iter it) of None \<Rightarrow> None
      | Some c \<Rightarrow>
          if c = 0 then Some it
          else if c AND 0xC0 \<noteq> 0 then Some (it\<lparr>dm_iter := dm_iter it + 1\<rparr>)
          else let it' = it\<lparr>dm_iter := dm_iter it + unat c + 1\<rparr> in
            if int (dm_iter it') > dm_end it then Some it' else skip_name_loop it')"
  by auto
termination
  by (relation "measure (\<lambda>it. length (dm_bytes it) - dm_iter it)") (auto simp: mem_simps)

definition dns_skip_name :: "dns_message_iterator_t \<Rightarrow> dns_message_iterator_t option" where
  "dns_skip_name it = do {
     it \<leftarrow> skip_name_loop it;
     Some (it\<lparr>dm_iter := dm_iter it + 1\<rparr>)
   }"

text \<open>The question is \<open>None\<close> when the name ends behind the message (the C function returns 0).\<close>

definition dns_get_next_question ::
  "dns_message_iterator_t \<Rightarrow> ((dns_question_t \<times> dns_name_t) option \<times> dns_message_iterator_t) option" where
  "dns_get_next_question it = do {
     let nam = \<lparr>start_of_name = dm_iter it, start_of_packet = dm_bytes it\<rparr>;
     it \<leftarrow> dns_skip_name it;
     (if int (dm_iter it) > dm_end it then Some (None, it)
      else do {
        (t, it) \<leftarrow> dns_read_uint16 it;
        (c, it) \<leftarrow> dns_read_uint16 it;
        Some (Some (\<lparr>question_type = t, question_class = c\<rparr>, nam), it)
      })
   }"

section \<open>Comparing a name with a text\<close>

text \<open>
  The comparison follows compression pointers wherever they lead, so it may leave the memory, run for
  ever or answer: \<open>Some Bad_access\<close>, \<open>None\<close> and \<open>Some (Answer r)\<close>.
\<close>

datatype 'a answer = Bad_access | Answer 'a

text \<open>The \<open>while ( *buffer & 0xC0 )\<close> loop.\<close>

partial_function (option) follow_pointers :: "bytes \<Rightarrow> nat \<Rightarrow> nat answer option" where
  "follow_pointers p i =
     (case rd p i of None \<Rightarrow> Some Bad_access
      | Some c \<Rightarrow>
          if c AND 0xC0 \<noteq> 0 then
            (case rd p (i + 1) of None \<Rightarrow> Some Bad_access
             | Some d \<Rightarrow> follow_pointers p (unat ((push_bit 8 (ucast c :: u16) + ucast d) AND 0x3FFF)))
          else Some (Answer i))"

text \<open>\<open>strncmp(a, b, n) != 0\<close>; \<open>None\<close> when it leaves one of the texts.\<close>

fun strncmp_differ :: "bytes \<Rightarrow> bytes \<Rightarrow> nat \<Rightarrow> bool option" where
  "strncmp_differ a b 0 = Some False"
| "strncmp_differ (x # a) (y # b) (Suc n) =
     (if x \<noteq> y then Some True else if x = 0 then Some False else strncmp_differ a b n)"
| "strncmp_differ a b (Suc n) = None"

text \<open>One section: its length \<open>n\<close> at \<open>i\<close>, the copy to \<open>temp\<close>, the comparison. The loop goes on behind
  the section in both texts; it ends at a difference or when one of the texts ends there.\<close>

partial_function (option) compare_sections ::
  "allocator \<Rightarrow> bytes \<Rightarrow> nat \<Rightarrow> bytes \<Rightarrow> bool answer option" where
  "compare_sections malloc p i s =
     Option.bind (follow_pointers p i) (\<lambda>r. case r of Bad_access \<Rightarrow> Some Bad_access
      | Answer i \<Rightarrow>
          let n = unat (p ! i) in
          (case malloc (n + 1) of None \<Rightarrow> Some Bad_access
           | Some temp \<Rightarrow>
               if length p < i + 1 + n then Some Bad_access
               else (case strncmp_differ (drop (i + 1) p) s n of None \<Rightarrow> Some Bad_access
                 | Some differ \<Rightarrow>
                     (case (rd p (i + 1 + n), rd s (n + 1)) of
                        (Some x, Some y) \<Rightarrow>
                          if differ then Some (Answer False)
                          else if x = 0 \<or> y = 0 then Some (Answer (x = 0 \<and> y = 0))
                          else compare_sections malloc p (i + 1 + n) (drop (n + 1) s)
                      | _ \<Rightarrow> Some Bad_access))))"

definition dns_compare_name_to_string :: "allocator \<Rightarrow> dns_name_t \<Rightarrow> bytes \<Rightarrow> bool answer option" where
  "dns_compare_name_to_string malloc nam s =
     compare_sections malloc (start_of_packet nam) (start_of_name nam) s"

section \<open>Writing\<close>

text \<open>Big-endian bytes; with \<open>htons\<close> they are the bytes in memory of the header fields.\<close>

definition be16 :: "u16 \<Rightarrow> bytes" where
  "be16 w = [ucast (drop_bit 8 w), ucast w]"

definition be32 :: "u32 \<Rightarrow> bytes" where
  "be32 w = [ucast (drop_bit 24 w), ucast (drop_bit 16 w), ucast (drop_bit 8 w), ucast w]"

definition dns_create_message :: "allocator \<Rightarrow> nat \<Rightarrow> dns_message_iterator_t option" where
  "dns_create_message malloc n =
     map_option (\<lambda>b. \<lparr>dm_bytes = b, dm_iter = 12, dm_end = 0\<rparr>) (malloc n)"

text \<open>Storing bytes at \<open>iter\<close> and moving it behind them.\<close>

definition put :: "bytes \<Rightarrow> dns_message_iterator_t \<Rightarrow> dns_message_iterator_t option" where
  "put bs it = do {
     b \<leftarrow> blit (dm_bytes it) (dm_iter it) bs;
     Some (it\<lparr>dm_bytes := b, dm_iter := dm_iter it + length bs\<rparr>)
   }"

definition dns_write_uint16 :: "u16 \<Rightarrow> dns_message_iterator_t \<Rightarrow> dns_message_iterator_t option" where
  "dns_write_uint16 w = put (be16 w)"

definition dns_write_uint32 :: "u32 \<Rightarrow> dns_message_iterator_t \<Rightarrow> dns_message_iterator_t option" where
  "dns_write_uint32 w = put (be32 w)"

definition dns_write_bytes :: "bytes \<Rightarrow> nat \<Rightarrow> dns_message_iterator_t \<Rightarrow> dns_message_iterator_t option" where
  "dns_write_bytes bs n it = (if n \<le> length bs then put (take n bs) it else None)"

text \<open>The inner loop of \<open>dns_write_string\<close>: the rest of the text and the length of the segment.\<close>

function copy_segment ::
  "bytes \<Rightarrow> u8 \<Rightarrow> dns_message_iterator_t \<Rightarrow> (bytes \<times> u8 \<times> dns_message_iterator_t) option" where
  "copy_segment s n it =
     (case s of [] \<Rightarrow> None
      | c # cs \<Rightarrow>
          if c = ch CHR ''.'' \<or> c = 0 \<or> c = 0xC0 then Some (s, n, it)
          else (case (if c = ch CHR ''/'' then cs else s) of [] \<Rightarrow> None
            | d # ds \<Rightarrow> (case put [d] it of None \<Rightarrow> None | Some it \<Rightarrow> copy_segment ds (n + 1) it)))"
  by pat_completeness auto
termination
  by (relation "measure (\<lambda>(s, n, it). length s)") (auto split: if_splits)

declare copy_segment.simps [simp del]

lemma copy_segment_le:
  "copy_segment s n it = Some (s', n', it') \<Longrightarrow> length s' \<le> length s \<and> s' \<noteq> []"
proof (induction s n it rule: copy_segment.induct)
  case (1 s n it)
  show ?case
    using "1.prems" "1.IH"
    by (subst (asm) copy_segment.simps) (fastforce split: list.splits if_splits option.splits)
qed

lemma copy_segment_less:
  assumes "copy_segment (c # cs) n it = Some (s', n', it')" and "c \<noteq> ch CHR ''.''" and "c \<noteq> 0" and "c \<noteq> 0xC0"
  shows "length s' \<le> length cs"
  using assms
  by (subst (asm) copy_segment.simps) (fastforce split: list.splits if_splits option.splits dest!: copy_segment_le)

text \<open>The outer loop.\<close>

function write_string_loop ::
  "bytes \<Rightarrow> dns_message_iterator_t \<Rightarrow> (bytes \<times> dns_message_iterator_t) option" where
  "write_string_loop s it =
     (case s of [] \<Rightarrow> None
      | c # _ \<Rightarrow>
          if c = 0 \<or> c = 0xC0 then Some (s, it)
          else (case copy_segment s 0 (it\<lparr>dm_iter := dm_iter it + 1\<rparr>) of None \<Rightarrow> None
            | Some (s', n, it') \<Rightarrow>
                (case wr (dm_bytes it') (dm_iter it) n of None \<Rightarrow> None
                 | Some b \<Rightarrow>
                     write_string_loop (if hd s' = ch CHR ''.'' then tl s' else s') (it'\<lparr>dm_bytes := b\<rparr>))))"
  by pat_completeness auto
termination
proof (relation "measure (\<lambda>(s, it). length s)")
  fix s :: bytes and it it' c cs cp s' q n b
  assume s: "s = c # cs" and c: "\<not> (c = 0 \<or> c = 0xC0)"
    and q: "copy_segment s 0 (it\<lparr>dm_iter := dm_iter it + 1\<rparr>) = Some cp" "(s', q) = cp" "(n, it') = q"
  have cp: "copy_segment (c # cs) 0 (it\<lparr>dm_iter := dm_iter it + 1\<rparr>) = Some (s', n, it')" using q s by auto
  show "((if hd s' = ch CHR ''.'' then tl s' else s', it'\<lparr>dm_bytes := b\<rparr>), s, it) \<in> measure (\<lambda>(s, it). length s)"
  proof (cases "c = ch CHR ''.''")
    case True
    then show ?thesis using cp s by (subst (asm) copy_segment.simps) auto
  next
    case False
    then have "length s' \<le> length cs" using cp c by (intro copy_segment_less) auto
    then show ?thesis using s by auto
  qed
qed simp

declare write_string_loop.simps [simp del] skip_name_loop.simps [simp del]

definition dns_write_string :: "bytes option \<Rightarrow> dns_message_iterator_t \<Rightarrow> dns_message_iterator_t option" where
  "dns_write_string src it = do {
     s \<leftarrow> src;
     (s, it) \<leftarrow> write_string_loop s it;
     (if hd s = 0xC0 then if length s < 2 then None else put (take 2 s) it else put [0] it)
   }"

definition dns_write_name :: "bytes option \<Rightarrow> dns_message_iterator_t \<Rightarrow> dns_message_iterator_t option" where
  "dns_write_name = dns_write_string"

definition dns_write_header ::
  "u16 \<Rightarrow> u16 \<Rightarrow> u16 \<Rightarrow> u16 \<Rightarrow> u16 \<Rightarrow> dns_message_iterator_t \<Rightarrow> dns_message_iterator_t option" where
  "dns_write_header ident flags questions answers authorities it = do {
     b \<leftarrow> blit (dm_bytes it) 0 (be16 ident @ be16 flags @ be16 questions @ be16 answers @ be16 authorities @ [0, 0]);
     Some (it\<lparr>dm_bytes := b\<rparr>)
   }"

text \<open>What the argument \<open>rdata\<close> of \<open>dns_write_record\<close> points to: bytes or a service record.\<close>

datatype rdata = Rd_bytes "bytes option" | Rd_service dns_sd_service_record_t

text \<open>The \<open>switch\<close> of \<open>dns_write_record\<close>. Data that is not of the kind of the type is not used by the callers.\<close>

fun write_rdata :: "u16 \<Rightarrow> rdata \<Rightarrow> dns_message_iterator_t \<Rightarrow> dns_message_iterator_t option" where
  "write_rdata t (Rd_bytes d) it =
     (if t = RR_TYPE_A then Option.bind d (\<lambda>b. dns_write_bytes b 4 it)
      else if t = RR_TYPE_PTR \<or> t = RR_TYPE_TXT then dns_write_name d it
      else if t = RR_TYPE_SRV then None else Some it)"
| "write_rdata t (Rd_service r) it =
     (if t = RR_TYPE_SRV then do {
        it \<leftarrow> dns_write_uint16 0 it;
        it \<leftarrow> dns_write_uint16 0 it;
        it \<leftarrow> dns_write_uint16 (sd_port r) it;
        dns_write_string (hostname r) it
      }
      else if t = RR_TYPE_A \<or> t = RR_TYPE_PTR \<or> t = RR_TYPE_TXT then None else Some it)"

definition dns_write_record ::
  "bytes option \<Rightarrow> u16 \<Rightarrow> u16 \<Rightarrow> u32 \<Rightarrow> rdata \<Rightarrow> dns_message_iterator_t \<Rightarrow> dns_message_iterator_t option" where
  "dns_write_record nam record_class record_type ttl d it = do {
     it \<leftarrow> dns_write_name nam it;
     it \<leftarrow> dns_write_uint16 record_type it;
     it \<leftarrow> dns_write_uint16 record_class it;
     it \<leftarrow> dns_write_uint32 ttl it;
     let rd_length = dm_iter it;
     it \<leftarrow> write_rdata record_type d (it\<lparr>dm_iter := rd_length + 2\<rparr>);
     let n = dm_iter it - (rd_length + 2);
     b \<leftarrow> blit (dm_bytes it) rd_length [of_nat (n div 256), of_nat (n mod 256)];
     Some (it\<lparr>dm_bytes := b\<rparr>)
   }"

section \<open>Names as the protocol has them\<close>

text \<open>
  \<open>name_at p i ls j\<close>: at offset \<open>i\<close> of the message \<open>p\<close> there is the encoding of the name with the labels
  \<open>ls\<close>, and it ends before \<open>j\<close> (RFC 1035, 4.1.4). A pointer leads to a name with a label.
\<close>

inductive name_at :: "bytes \<Rightarrow> nat \<Rightarrow> bytes list \<Rightarrow> nat \<Rightarrow> bool" where
  root: "rd p i = Some 0 \<Longrightarrow> name_at p i [] (i + 1)"
| label: "rd p i = Some (of_nat (length l)) \<Longrightarrow> l \<noteq> [] \<Longrightarrow> length l < 64 \<Longrightarrow>
    i + 1 + length l \<le> length p \<Longrightarrow> slice p (i + 1) (length l) = l \<Longrightarrow>
    name_at p (i + 1 + length l) ls j \<Longrightarrow> name_at p i (l # ls) j"
| pointer: "rd p i = Some c \<Longrightarrow> c AND 0xC0 = 0xC0 \<Longrightarrow> rd p (i + 1) = Some d \<Longrightarrow>
    name_at p (unat (c AND 0x3F) * 256 + unat d) ls k \<Longrightarrow> ls \<noteq> [] \<Longrightarrow> name_at p i ls (i + 2)"

inductive_cases root_atE: "name_at p i [] j"

text \<open>The labels as a text, each with a dot behind it.\<close>

definition dotted :: "bytes list \<Rightarrow> bytes" where
  "dotted ls = concat (map (\<lambda>l. l @ [ch CHR ''.'']) ls)"

text \<open>A byte that is none of those the writer treats specially.\<close>

definition plain :: "u8 \<Rightarrow> bool" where
  "plain c \<longleftrightarrow> c \<noteq> 0 \<and> c \<noteq> 0xC0 \<and> c \<noteq> ch CHR ''.'' \<and> c \<noteq> ch CHR ''/''"

text \<open>The name agrees with the text but for the characters at the ends of its labels.\<close>

definition dots_match :: "bytes list \<Rightarrow> bytes \<Rightarrow> bool" where
  "dots_match ls s \<longleftrightarrow> list_all2 (\<lambda>a b. a = b \<or> a = ch CHR ''.'') (dotted ls) s"

lemma dotted_simps [simp]: "dotted [] = []" "dotted (l # ls) = l @ ch CHR ''.'' # dotted ls"
  by (simp_all add: dotted_def)

section \<open>Lemmas on names\<close>

lemma be16_inverse: "push_bit 8 (ucast (ucast (drop_bit 8 w :: u16) :: u8)) + ucast (ucast w :: u8) = (w :: u16)"
proof -
  have "push_bit 8 (ucast (ucast (drop_bit 8 w :: u16) :: u8)) + ucast (ucast w :: u8)
      = push_bit 8 (ucast (ucast (drop_bit 8 w :: u16) :: u8)) OR (ucast (ucast w :: u8) :: u16)"
    by (rule disjunctive_add) (auto simp: bit_simps dest!: bit_imp_le_length)
  also have "\<dots> = w"
    by (rule bit_word_eqI) (auto simp: bit_simps dest: bit_imp_le_length)
  finally show ?thesis .
qed

lemma pointer_value:
  fixes c d :: u8
  assumes "c AND 0xC0 = 0xC0"
  shows "unat ((push_bit 8 (ucast c :: u16) + ucast d) AND 0x3FFF) = unat (c AND 0x3F) * 256 + unat d"
proof -
  have s: "push_bit 8 (ucast c :: u16) + ucast d = push_bit 8 (ucast c) OR ucast d"
    by (rule disjunctive_add) (auto simp: bit_simps dest!: bit_imp_le_length)
  have m: "(push_bit 8 (ucast c :: u16) OR ucast d) AND 0x3FFF = push_bit 8 (ucast (c AND 0x3F)) OR ucast d"
  proof -
    have e: "(0x3FFF :: u16) = mask 14" "(0x3F :: u8) = mask 6" by (simp_all add: mask_eq_exp_minus_1)
    show ?thesis
      unfolding e by (rule bit_word_eqI) (auto simp: bit_simps dest: bit_imp_le_length)
  qed
  have "push_bit 8 (ucast (c AND 0x3F) :: u16) OR ucast d = push_bit 8 (ucast (c AND 0x3F)) + ucast d"
    by (rule disjunctive_add [symmetric]) (auto simp: bit_simps dest!: bit_imp_le_length)
  moreover have "unat (push_bit 8 (ucast (c AND 0x3F) :: u16) + ucast d) = unat (c AND 0x3F) * 256 + unat d"
  proof -
    have le: "unat (c AND 0x3F) \<le> 63" using word_and_le1 [of c "0x3F"] by (simp add: word_le_nat_alt)
    have "unat d < 256" using unsigned_less [of d] by simp
    then have lt: "unat (c AND 0x3F) * 256 + unat d < 2 ^ 16" using le by simp
    have e: "push_bit 8 (ucast (c AND 0x3F) :: u16) + ucast d = of_nat (unat (c AND 0x3F) * 256 + unat d)"
      by (simp add: push_bit_eq_mult mult.commute)
    show ?thesis
      unfolding e unat_of_nat take_bit_eq_mod using lt by (simp add: mod_less)
  qed
  ultimately show ?thesis using s m by simp
qed

lemma label_byte:
  assumes "0 < n" "n < 64"
  shows "(of_nat n :: u8) \<noteq> 0" "(of_nat n :: u8) AND 0xC0 = 0" "unat (of_nat n :: u8) = n"
proof -
  show u: "unat (of_nat n :: u8) = n" using assms by (simp add: unat_of_nat take_bit_eq_mod)
  then show "(of_nat n :: u8) \<noteq> 0" using assms by (metis less_irrefl unat_0)
  have "take_bit 6 (of_nat n :: u8) = of_nat n"
    using assms u by (simp add: word_unat_eq_iff unsigned_take_bit_eq take_bit_nat_eq_self)
  then have "(of_nat n :: u8) = of_nat n AND mask 6" by (simp add: take_bit_eq_mask)
  then have "(of_nat n :: u8) AND 0xC0 = of_nat n AND (mask 6 AND 0xC0)" by (metis and.assoc)
  then show "(of_nat n :: u8) AND 0xC0 = 0" by (simp add: mask_eq_exp_minus_1)
qed

lemma pointer_byte: "(c :: u8) AND 0xC0 = 0xC0 \<Longrightarrow> c \<noteq> 0 \<and> c AND 0xC0 \<noteq> 0"
  by auto

lemma name_at_less: "name_at p i ls j \<Longrightarrow> i < j"
  by (induction rule: name_at.induct) auto

lemma name_at_start: "name_at p i ls j \<Longrightarrow> \<exists>x. rd p i = Some x \<and> (x = 0 \<longleftrightarrow> ls = [])"
  by (induction rule: name_at.induct) (auto simp: label_byte(1) dest: pointer_byte)

text \<open>\<open>dns_skip_name\<close> stops behind the name.\<close>

lemma skip_name_loop_name:
  assumes "name_at p i ls j" and "dm_bytes it = p" and "dm_iter it = i" and "int j \<le> dm_end it"
  shows "\<exists>it'. skip_name_loop it = Some it' \<and> it'\<lparr>dm_iter := dm_iter it' + 1\<rparr> = it\<lparr>dm_iter := j\<rparr>"
  using assms
proof (induction arbitrary: it rule: name_at.induct)
  case (root p i)
  then show ?case by (subst skip_name_loop.simps) auto
next
  case (label p i l ls j)
  let ?it = "it\<lparr>dm_iter := i + 1 + length l\<rparr>"
  have "\<exists>it'. skip_name_loop ?it = Some it' \<and> it'\<lparr>dm_iter := dm_iter it' + 1\<rparr> = ?it\<lparr>dm_iter := j\<rparr>"
    using label.prems by (intro label.IH) auto
  moreover have "i + 1 + length l < j" using label.hyps(6) by (rule name_at_less)
  ultimately show ?case
    using label.hyps(1-3) label.prems label_byte [of "length l"]
    by (subst skip_name_loop.simps) (auto simp: ac_simps)
next
  case (pointer p i c d ls k)
  then show ?case
    using pointer_byte [of c] by (subst skip_name_loop.simps) auto
qed

lemma dns_skip_name_name:
  assumes "name_at (dm_bytes it) (dm_iter it) ls j" and "int j \<le> dm_end it"
  shows "dns_skip_name it = Some (it\<lparr>dm_iter := j\<rparr>)"
  using skip_name_loop_name [OF assms(1) refl refl assms(2)] by (auto simp: dns_skip_name_def)

lemma dns_get_next_question_name:
  assumes "name_at (dm_bytes it) (dm_iter it) ls j" and "int j \<le> dm_end it"
    and "j + 4 \<le> length (dm_bytes it)" and "slice (dm_bytes it) j 4 = be16 t @ be16 c"
  shows "dns_get_next_question it =
    Some (Some (\<lparr>question_type = t, question_class = c\<rparr>,
                \<lparr>start_of_name = dm_iter it, start_of_packet = dm_bytes it\<rparr>), it\<lparr>dm_iter := j + 4\<rparr>)"
proof -
  have "dm_bytes it ! (j + k) = (be16 t @ be16 c) ! k" if "k < 4" for k
    using that assms(3,4) slice_nth [of k 4 j "dm_bytes it"] by simp
  from this [of 0] this [of 1] this [of 2] this [of 3]
  have "dm_bytes it ! j = ucast (drop_bit 8 t)" "dm_bytes it ! Suc j = ucast t"
    "dm_bytes it ! Suc (Suc j) = ucast (drop_bit 8 c)" "dm_bytes it ! Suc (Suc (Suc j)) = ucast c"
    by (simp_all add: be16_def numeral_3_eq_3)
  then show ?thesis
    using assms(2,3) by (simp add: dns_get_next_question_def dns_skip_name_name [OF assms(1,2)]
      dns_read_uint16_def rd_def be16_inverse)
qed

section \<open>Lemmas on the comparison\<close>

lemma strncmp_differ_prefix:
  "0 \<notin> set l \<Longrightarrow> length l \<le> length s \<Longrightarrow>
     strncmp_differ (l @ r) s (length l) = Some (take (length l) s \<noteq> l)"
proof (induction l arbitrary: s)
  case (Cons x l)
  then show ?case by (cases s) auto
qed simp

lemma follow_pointers_label:
  "rd p i = Some c \<Longrightarrow> c AND 0xC0 = 0 \<Longrightarrow> follow_pointers p i = Some (Answer i)"
  by (subst follow_pointers.simps) simp

lemma follow_pointers_pointer:
  "rd p i = Some c \<Longrightarrow> c AND 0xC0 = 0xC0 \<Longrightarrow> rd p (i + 1) = Some d \<Longrightarrow>
     follow_pointers p i = follow_pointers p (unat (c AND 0x3F) * 256 + unat d)"
  using pointer_byte [of c] by (subst follow_pointers.simps) (simp add: pointer_value)

lemma compare_sections_pointer:
  assumes "rd p i = Some c" "c AND 0xC0 = 0xC0" "rd p (i + 1) = Some d"
  shows "compare_sections malloc p i s = compare_sections malloc p (unat (c AND 0x3F) * 256 + unat d) s"
  by (subst (1 2) compare_sections.simps) (simp add: follow_pointers_pointer [OF assms])

lemma dotted_length: "ls \<noteq> [] \<Longrightarrow> dotted ls \<noteq> []"
  by (cases ls) auto

lemma dots_match_label:
  assumes "ch CHR ''.'' \<notin> set l"
  shows "dots_match (l # ls) s \<longleftrightarrow> (\<exists>c s1. s = l @ c # s1 \<and> dots_match ls s1)"
proof -
  let ?R = "\<lambda>a b. a = b \<or> a = ch CHR ''.''"
  have e: "list_all2 ?R l u \<longleftrightarrow> u = l" for u
    using assms by (induction l arbitrary: u) (auto simp: list_all2_Cons1)
  show ?thesis
  proof
    assume "dots_match (l # ls) s"
    then obtain u v where uv: "s = u @ v" "length u = length l" "list_all2 ?R l u"
      "list_all2 ?R (ch CHR ''.'' # dotted ls) v"
      unfolding dots_match_def dotted_simps list_all2_append1 by blast
    then show "\<exists>c s1. s = l @ c # s1 \<and> dots_match ls s1"
      unfolding e list_all2_Cons1 dots_match_def by blast
  next
    assume "\<exists>c s1. s = l @ c # s1 \<and> dots_match ls s1"
    then obtain c s1 where "s = l @ c # s1" "list_all2 ?R (dotted ls) s1" unfolding dots_match_def by blast
    then show "dots_match (l # ls) s"
      unfolding dots_match_def dotted_simps by (auto intro!: list_all2_appendI list_all2_refl)
  qed
qed

lemma dots_match_Nil: "dots_match [] s \<longleftrightarrow> s = []"
  by (auto simp: dots_match_def)

lemma dots_match_refl: "dots_match ls (dotted ls)"
  by (simp add: dots_match_def list_all2_refl)

text \<open>The character of the text behind the length of a label is always read. It lies behind a text with \<open>k\<close> more
  bytes behind its end when a label that the comparison reaches is as long as what is left of both.\<close>

fun reads_beyond :: "bytes list \<Rightarrow> bytes \<Rightarrow> nat \<Rightarrow> bool" where
  "reads_beyond [] s k = False"
| "reads_beyond (l # ls) s k =
     (length s + k \<le> length l \<or>
      take (length l) s = l \<and> length l + 1 < length s \<and> reads_beyond ls (drop (length l + 1) s) k)"

lemma reads_beyond_dotted: "\<not> reads_beyond ls (dotted ls) k"
  by (induction ls) auto

lemma reads_beyond_padded: "\<forall>l\<in>set ls. length l < k \<Longrightarrow> \<not> reads_beyond ls s k"
  by (induction ls arbitrary: s) auto

text \<open>A text whose last character, if any, is a dot, with the bytes \<open>pad\<close> behind its end.\<close>

lemma compare_section_beyond:
  assumes n: "rd p i = Some (of_nat (length l))" "length l < 64" and b: "length s + length pad \<le> length l"
  shows "compare_sections malloc p i (s @ 0 # pad) = Some Bad_access"
proof -
  note byte = label_byte [of "length l", OF _ n(2)]
  have i: "p ! i = of_nat (length l)" using n(1) by (simp add: mem_simps)
  have f: "follow_pointers p i = Some (Answer i)"
    using n byte by (cases "l = []") (auto intro!: follow_pointers_label)
  have u: "unat (of_nat (length l) :: u8) = length l" using n(2) by (simp add: unat_of_nat)
  have "rd (s @ 0 # pad) (length l + 1) = None" using b by (simp add: rd_def)
  then show ?thesis
    by (subst compare_sections.simps) (simp add: f i u Let_def split: option.split)
qed

lemma compare_section:
  fixes s :: bytes
  assumes nm: "name_at p (i + 1 + length l) ls j" and n: "rd p i = Some (of_nat (length l))" "l \<noteq> []" "length l < 64"
    and l: "i + 1 + length l \<le> length p" "slice p (i + 1) (length l) = l" "0 \<notin> set l" "ch CHR ''.'' \<notin> set l"
    and s: "0 \<notin> set s" "s = [] \<or> last s = ch CHR ''.''"
    and malloc: "\<exists>b. malloc (length l + 1) = Some b"
    and rest: "\<And>c s1. s = l @ c # s1 \<Longrightarrow> 0 \<notin> set s1 \<Longrightarrow> s1 = [] \<or> last s1 = ch CHR ''.'' \<Longrightarrow> ls \<noteq> [] \<Longrightarrow>
      compare_sections malloc p (i + 1 + length l) (s1 @ 0 # pad) =
        Some (if reads_beyond ls s1 (length pad) then Bad_access else Answer (dots_match ls s1))"
  shows "compare_sections malloc p i (s @ 0 # pad) =
    Some (if reads_beyond (l # ls) s (length pad) then Bad_access else Answer (dots_match (l # ls) s))"
proof (cases "length s + length pad \<le> length l")
  case True
  then show ?thesis using compare_section_beyond [OF n(1,3) True] by simp
next
  case False
  then have pad: "length l < length s + length pad" by simp
  define t where "t = s @ 0 # pad"
  note byte = label_byte [of "length l", OF _ n(3)]
  have i: "p ! i = of_nat (length l)" "i < length p" using n(1) by (auto simp: mem_simps)
  have f: "follow_pointers p i = Some (Answer i)"
    using n byte by (intro follow_pointers_label) auto
  obtain x where x: "rd p (i + 1 + length l) = Some x" "x = 0 \<longleftrightarrow> ls = []" using name_at_start [OF nm] by auto
  have pre: "drop (i + 1) p = l @ drop (i + 1 + length l) p"
    using l(2) append_take_drop_id [of "length l" "drop (i + 1) p"] by (simp add: slice_def add.commute)
  have df: "strncmp_differ (drop (i + 1) p) t (length l) = Some (take (length l) t \<noteq> l)"
    unfolding pre using l(3) pad by (intro strncmp_differ_prefix) (auto simp: t_def)
  have y: "rd t (length l + 1) = Some (t ! (length l + 1))" using pad by (simp add: rd_def t_def)
  have step: "compare_sections malloc p i t =
      (if take (length l) t \<noteq> l then Some (Answer False)
       else if x = 0 \<or> t ! (length l + 1) = 0 then Some (Answer (x = 0 \<and> t ! (length l + 1) = 0))
       else compare_sections malloc p (i + 1 + length l) (drop (length l + 1) t))"
    using malloc l(1) n(2) 
    by (subst compare_sections.simps) (auto simp: f i byte df y x(1) Let_def simp del: One_nat_def add_Suc_right)
  show ?thesis
  proof (cases "take (length l) t = l")
    case False
    then have "\<not> dots_match (l # ls) s" using l(4) by (auto simp: dots_match_label t_def)
    moreover have "\<not> reads_beyond (l # ls) s (length pad)" using False pad by (auto simp: t_def)
    ultimately show ?thesis using False step by (simp add: t_def [symmetric])
  next
    case True
    have "\<exists>r. s = l @ r"
    proof (rule ccontr)
      assume "\<nexists>r. s = l @ r"
      then have "length s < length l" using True by (auto simp: t_def) (metis append_take_drop_id diff_is_0_eq linorder_le_less_linear self_append_conv take0)
      then have "0 \<in> set (take (length l) t)" by (simp add: take_Cons' t_def)
      then show False using True l(3) by simp
    qed
    then obtain r where r: "s = l @ r" by blast
    have "r \<noteq> []" using r s(2) l(4) n(2) by (metis append_Nil2 last_in_set)
    then obtain c s1 where c: "r = c # s1" by (cases r) auto
    have s1: "0 \<notin> set s1" "s1 = [] \<or> last s1 = ch CHR ''.''" using s r c by (auto split: if_splits)
    have y': "t ! (length l + 1) = 0 \<longleftrightarrow> s1 = []"
      using s1(1) by (cases s1) (auto simp: r c nth_append t_def)
    have d: "drop (length l + 1) t = s1 @ 0 # pad" by (simp add: r c t_def)
    have m: "dots_match (l # ls) s \<longleftrightarrow> dots_match ls s1" using l(4) by (auto simp: dots_match_label r c)
    have rb: "reads_beyond (l # ls) s (length pad) \<longleftrightarrow> s1 \<noteq> [] \<and> reads_beyond ls s1 (length pad)"
      using pad by (auto simp: r c)
    show ?thesis
    proof (cases "ls = [] \<or> s1 = []")
      case True
      then have "dots_match ls s1 \<longleftrightarrow> ls = [] \<and> s1 = []"
        using dotted_length by (auto simp: dots_match_def)
      moreover have "\<not> reads_beyond (l # ls) s (length pad)" unfolding rb using True by auto
      ultimately show ?thesis using True \<open>take (length l) t = l\<close> step x(2) y' m by (auto simp: t_def [symmetric])
    next
      case False
      then have "compare_sections malloc p (i + 1 + length l) (s1 @ 0 # pad) =
          Some (if reads_beyond ls s1 (length pad) then Bad_access else Answer (dots_match ls s1))"
        using r c s1 by (intro rest [of c s1]) auto
      then show ?thesis using False \<open>take (length l) t = l\<close> step x(2) y' m d unfolding rb by (auto simp: t_def [symmetric])
    qed
  qed
qed

lemma compare_sections_name:
  assumes "name_at p i ls j" and "ls \<noteq> []"
    and "\<forall>l\<in>set ls. 0 \<notin> set l \<and> ch CHR ''.'' \<notin> set l"
    and "\<forall>n \<le> 64. \<exists>b. malloc n = Some b"
    and "0 \<notin> set s" and "s = [] \<or> last s = ch CHR ''.''"
  shows "compare_sections malloc p i (s @ 0 # pad) =
    Some (if reads_beyond ls s (length pad) then Bad_access else Answer (dots_match ls s))"
  using assms
proof (induction arbitrary: s rule: name_at.induct)
  case (label p i l ls j)
  show ?case
    by (rule compare_section [OF label.hyps(6) label.hyps(1-5)]) (use label.prems label.hyps label.IH in auto)
next
  case (pointer p i c d ls k)
  then show ?case by (simp add: compare_sections_pointer)
qed simp

text \<open>A name and the text with the same labels, and a text that does not start with the first label.\<close>

lemma compare_sections_equal:
  assumes "name_at p i ls j" and "ls \<noteq> []" and "\<forall>l\<in>set ls. 0 \<notin> set l \<and> ch CHR ''.'' \<notin> set l"
    and "\<forall>n \<le> 64. \<exists>b. malloc n = Some b"
  shows "compare_sections malloc p i (dotted ls @ 0 # pad) = Some (Answer True)"
proof -
  have "0 \<notin> set (dotted ls) \<and> (dotted ls = [] \<or> last (dotted ls) = ch CHR ''.'')"
    using assms(3) dotted_length by (induction ls) auto
  then show ?thesis
    using compare_sections_name [OF assms] reads_beyond_dotted dots_match_refl by simp
qed

lemma compare_sections_other:
  assumes "name_at p i ls j" and "ls \<noteq> []" and "\<forall>l\<in>set ls. 0 \<notin> set l" and "\<forall>n \<le> 64. \<exists>b. malloc n = Some b"
    and "length (hd ls) + 1 < length s" and "take (length (hd ls)) s \<noteq> hd ls"
  shows "compare_sections malloc p i s = Some (Answer False)"
  using assms
proof (induction rule: name_at.induct)
  case (label p i l ls j)
  note byte = label_byte [of "length l", OF _ label.hyps(3)]
  have i: "p ! i = of_nat (length l)" using label.hyps(1) by (simp add: mem_simps)
  have f: "follow_pointers p i = Some (Answer i)"
    using label.hyps byte by (intro follow_pointers_label) auto
  obtain x where x: "rd p (i + 1 + length l) = Some x" using name_at_start [OF label.hyps(6)] by auto
  have pre: "drop (i + 1) p = l @ drop (i + 1 + length l) p"
    using label.hyps(5) append_take_drop_id [of "length l" "drop (i + 1) p"] by (simp add: slice_def add.commute)
  have df: "strncmp_differ (drop (i + 1) p) s (length l) = Some True"
    unfolding pre using label.prems by (subst strncmp_differ_prefix) auto
  obtain y where y: "rd s (length l + 1) = Some y" using label.prems by (auto simp: rd_def)
  have "\<exists>b. malloc (length l + 1) = Some b" using label.prems(3) label.hyps(3) by auto
  then show ?case
    using label.hyps(2,4) by (subst compare_sections.simps)
      (auto simp: f i byte df y x Let_def simp del: One_nat_def add_Suc_right)
next
  case (pointer p i c d ls k)
  then show ?case by (simp add: compare_sections_pointer)
qed simp

text \<open>Offsets whose pointers lead to offsets of the set: the loop over the pointers never leaves it.\<close>

definition pointer_cycle :: "bytes \<Rightarrow> nat set \<Rightarrow> bool" where
  "pointer_cycle p S \<longleftrightarrow> (\<forall>i\<in>S. \<exists>c d. rd p i = Some c \<and> c AND 0xC0 = 0xC0 \<and> rd p (i + 1) = Some d \<and>
      unat (c AND 0x3F) * 256 + unat d \<in> S)"

lemma follow_pointers_leaves:
  assumes "follow_pointers p i = Some y"
  shows "pointer_cycle p S \<longrightarrow> i \<notin> S"
proof (rule follow_pointers.raw_induct [where P = "\<lambda>p i y. pointer_cycle p S \<longrightarrow> i \<notin> S", OF _ assms], intro impI notI)
  fix f p i y
  assume IH: "\<And>p i y. f p i = Some (y :: nat answer) \<Longrightarrow> pointer_cycle p S \<longrightarrow> i \<notin> S"
    and eq: "(case rd p i of None \<Rightarrow> Some Bad_access
      | Some c \<Rightarrow> if c AND 0xC0 \<noteq> 0 then
          (case rd p (i + 1) of None \<Rightarrow> Some Bad_access
           | Some d \<Rightarrow> f p (unat ((push_bit 8 (ucast c :: u16) + ucast d) AND 0x3FFF)))
          else Some (Answer i)) = Some y"
    and S: "pointer_cycle p S" "i \<in> S"
  then obtain c d where cd: "rd p i = Some c" "c AND 0xC0 = 0xC0" "rd p (i + 1) = Some d"
    "unat (c AND 0x3F) * 256 + unat d \<in> S" unfolding pointer_cycle_def by blast
  then have "f p (unat (c AND 0x3F) * 256 + unat d) = Some y"
    using eq pointer_byte [of c] by (simp add: pointer_value)
  then show False using IH S(1) cd(4) by blast
qed

lemma compare_sections_cycle:
  "pointer_cycle p S \<Longrightarrow> i \<in> S \<Longrightarrow> compare_sections malloc p i s = None"
  using follow_pointers_leaves [of p i _ S] by (subst compare_sections.simps) (cases "follow_pointers p i", auto)

section \<open>Lemmas on the writers\<close>

text \<open>The part of the message that is built already, and the growth of it by some bytes.\<close>

definition built :: "dns_message_iterator_t \<Rightarrow> bytes" where
  "built it = take (dm_iter it) (dm_bytes it)"

definition appends :: "bytes \<Rightarrow> dns_message_iterator_t \<Rightarrow> dns_message_iterator_t \<Rightarrow> bool" where
  "appends bs it it' \<longleftrightarrow> dm_iter it' = dm_iter it + length bs \<and> dm_iter it' \<le> length (dm_bytes it') \<and>
     length (dm_bytes it') = length (dm_bytes it) \<and> built it' = built it @ bs \<and> dm_end it' = dm_end it"

text \<open>A writer that appends the bytes \<open>bs\<close> whenever there is room.\<close>

definition writes :: "(dns_message_iterator_t \<Rightarrow> dns_message_iterator_t option) \<Rightarrow> bytes \<Rightarrow> bool" where
  "writes f bs \<longleftrightarrow> (\<forall>it. dm_iter it + length bs \<le> length (dm_bytes it) \<longrightarrow> (\<exists>it'. f it = Some it' \<and> appends bs it it'))"

lemma appends_trans: "appends a it1 it2 \<Longrightarrow> appends b it2 it3 \<Longrightarrow> appends (a @ b) it1 it3"
  by (simp add: appends_def)

lemma appends_room: "appends a it it' \<Longrightarrow> dm_iter it + length (a @ b) \<le> length (dm_bytes it) \<Longrightarrow>
    dm_iter it' + length b \<le> length (dm_bytes it')"
  by (simp add: appends_def)

lemma appends_refl: "dm_iter it \<le> length (dm_bytes it) \<Longrightarrow> appends [] it it"
  by (simp add: appends_def)

lemma writesD: "writes f bs \<Longrightarrow> dm_iter it + length bs \<le> length (dm_bytes it) \<Longrightarrow>
    \<exists>it'. f it = Some it' \<and> appends bs it it'"
  by (simp add: writes_def)

lemma writes_seq:
  assumes "writes f a" and "writes g b"
  shows "writes (\<lambda>it. Option.bind (f it) g) (a @ b)"
  unfolding writes_def
proof (intro allI impI)
  fix it :: dns_message_iterator_t
  assume room: "dm_iter it + length (a @ b) \<le> length (dm_bytes it)"
  then obtain it1 where 1: "f it = Some it1" "appends a it it1" using writesD [OF assms(1), of it] by auto
  then obtain it2 where "g it1 = Some it2" "appends b it1 it2"
    using writesD [OF assms(2) appends_room [OF _ room]] by blast
  then show "\<exists>it'. Option.bind (f it) g = Some it' \<and> appends (a @ b) it it'"
    using 1 appends_trans by (intro exI [of _ it2]) auto
qed

lemma writes_put: "writes (put bs) bs"
  by (cases bs) (auto simp: writes_def put_def appends_def built_def blit_def min_def)

lemma writes_uint16: "writes (dns_write_uint16 w) (be16 w)"
  unfolding dns_write_uint16_def by (rule writes_put)

lemma writes_uint32: "writes (dns_write_uint32 w) (be32 w)"
  unfolding dns_write_uint32_def by (rule writes_put)

lemma length_be [simp]: "length (be16 w) = 2" "length (be32 v) = 4"
  by (simp_all add: be16_def be32_def)

text \<open>Leaving room for some bytes and storing them after what follows.\<close>

lemma appends_patch:
  assumes "dm_iter it + length h \<le> dm_iter it'" and "blit (dm_bytes it') (dm_iter it) h = Some b"
    and "appends bs (it\<lparr>dm_iter := dm_iter it + length h\<rparr>) it'"
  shows "appends (h @ bs) it (it'\<lparr>dm_bytes := b\<rparr>)"
proof -
  let ?i = "dm_iter it" and ?h = "length h"
  have i': "dm_iter it' = ?i + ?h + length bs" and le: "dm_iter it' \<le> length (dm_bytes it')"
    and pre: "take (dm_iter it') (dm_bytes it') = take (?i + ?h) (dm_bytes it) @ bs"
    and len: "length (dm_bytes it') = length (dm_bytes it)" and e: "dm_end it' = dm_end it"
    using assms(3) by (auto simp: appends_def built_def)
  have b: "b = take ?i (dm_bytes it') @ h @ drop (?i + ?h) (dm_bytes it')"
    using assms(2) by (simp add: mem_simps)
  have p1: "take ?i (dm_bytes it') = take ?i (dm_bytes it)"
  proof -
    have "take ?i (dm_bytes it') = take ?i (take (dm_iter it') (dm_bytes it'))" by (simp add: i')
    also have "\<dots> = take ?i (dm_bytes it)" unfolding pre using le len i' by (simp add: min_def)
    finally show ?thesis .
  qed
  have p2: "take (length bs) (drop (?i + ?h) (dm_bytes it')) = bs"
  proof -
    have "take (length bs) (drop (?i + ?h) (dm_bytes it')) = drop (?i + ?h) (take (dm_iter it') (dm_bytes it'))"
      by (simp add: i' drop_take)
    also have "\<dots> = bs" unfolding pre using le len i' by simp
    finally show ?thesis .
  qed
  have "take (dm_iter it') b = take ?i (dm_bytes it') @ h @ take (length bs) (drop (?i + ?h) (dm_bytes it'))"
  proof -
    have A: "length (take ?i (dm_bytes it')) = ?i" using le i' by simp
    show ?thesis unfolding b i' take_append A by simp
  qed
  then have "take (dm_iter it') b = take ?i (dm_bytes it) @ h @ bs" unfolding p1 p2 .
  moreover have "length b = length (dm_bytes it')" using assms(2) by (rule length_blit)
  ultimately show ?thesis using i' le len e by (simp add: appends_def built_def)
qed

text \<open>One segment of a text, in which a slash protects the next character.\<close>

definition escaped :: "bytes \<Rightarrow> bytes" where
  "escaped l = concat (map (\<lambda>c. if c = ch CHR ''.'' then [ch CHR ''/'', c] else [c]) l)"

definition text_char :: "u8 \<Rightarrow> bool" where
  "text_char c \<longleftrightarrow> c \<noteq> 0 \<and> c \<noteq> 0xC0 \<and> c \<noteq> ch CHR ''/''"

lemma escaped_simps [simp]:
  "escaped [] = []"
  "escaped (c # l) = (if c = ch CHR ''.'' then [ch CHR ''/'', c] else [c]) @ escaped l"
  by (simp_all add: escaped_def)

lemma copy_segment_escaped:
  assumes "\<forall>c\<in>set l. text_char c" and "t \<noteq> []" and "hd t = ch CHR ''.'' \<or> hd t = 0 \<or> hd t = 0xC0"
    and "dm_iter it + length l \<le> length (dm_bytes it)"
  shows "\<exists>it'. copy_segment (escaped l @ t) n it = Some (t, n + of_nat (length l), it') \<and> appends l it it'"
  using assms(1,4)
proof (induction l arbitrary: n it)
  case Nil
  then show ?case
    using assms(2,3) by (cases t) (auto simp: copy_segment.simps appends_refl)
next
  case (Cons c l)
  obtain it1 where 1: "put [c] it = Some it1" "appends [c] it it1"
    using writesD [OF writes_put, of it "[c]"] Cons.prems(2) by auto
  then have "dm_iter it1 + length l \<le> length (dm_bytes it1)" using Cons.prems(2) by (auto simp: appends_def)
  then obtain it2 where 2: "copy_segment (escaped l @ t) (n + 1) it1 = Some (t, n + 1 + of_nat (length l), it2)"
    "appends l it1 it2"
    using Cons.IH [of it1 "n + 1"] Cons.prems(1) by auto
  have "copy_segment (escaped (c # l) @ t) n it = copy_segment (escaped l @ t) (n + 1) it1"
    using Cons.prems(1) 1(1) by (subst copy_segment.simps) (auto simp: text_char_def)
  then show ?case using 2 appends_trans [OF 1(2)] by (auto simp: ac_simps)
qed

lemma write_segment:
  assumes "\<forall>c\<in>set l. text_char c" and "l \<noteq> []" and "length l < 256"
    and "t \<noteq> []" and "hd t = ch CHR ''.'' \<or> hd t = 0 \<or> hd t = 0xC0"
    and "dm_iter it + length l < length (dm_bytes it)"
  shows "\<exists>it'. write_string_loop (escaped l @ t) it
      = write_string_loop (if hd t = ch CHR ''.'' then tl t else t) it' \<and>
    appends (of_nat (length l) # l) it it'"
proof -
  let ?it = "it\<lparr>dm_iter := dm_iter it + 1\<rparr>"
  obtain it1 where 1: "copy_segment (escaped l @ t) 0 ?it = Some (t, of_nat (length l), it1)" "appends l ?it it1"
    using copy_segment_escaped [OF assms(1,4,5), of ?it 0] assms(6) by auto
  have lt: "dm_iter it < length (dm_bytes it1)" using 1(2) assms(6) by (auto simp: appends_def)
  then obtain b where b: "wr (dm_bytes it1) (dm_iter it) (of_nat (length l)) = Some b" by (auto simp: mem_simps)
  then have "blit (dm_bytes it1) (dm_iter it) [of_nat (length l)] = Some b"
    using lt by (auto simp: mem_simps upd_conv_take_nth_drop)
  then have "appends ([of_nat (length l)] @ l) it (it1\<lparr>dm_bytes := b\<rparr>)"
    using 1(2) by (intro appends_patch) (auto simp: appends_def)
  moreover have "\<exists>c s. escaped l @ t = c # s \<and> c \<noteq> 0 \<and> c \<noteq> 0xC0"
    using assms(1,2) by (cases l) (auto simp: text_char_def)
  then have "write_string_loop (escaped l @ t) it
      = write_string_loop (if hd t = ch CHR ''.'' then tl t else t) (it1\<lparr>dm_bytes := b\<rparr>)"
    using 1(1) b by (subst write_string_loop.simps) auto
  ultimately show ?thesis by auto
qed

text \<open>The labels with their lengths.\<close>

definition labels :: "bytes list \<Rightarrow> bytes" where
  "labels ls = concat (map (\<lambda>l. of_nat (length l) # l) ls)"

definition dotted_text :: "bytes list \<Rightarrow> bytes" where
  "dotted_text ls = concat (map (\<lambda>l. escaped l @ [ch CHR ''.'']) ls)"

lemma labels_simps [simp]:
  "labels [] = []" "labels (l # ls) = of_nat (length l) # l @ labels ls"
  "dotted_text [] = []" "dotted_text (l # ls) = escaped l @ ch CHR ''.'' # dotted_text ls"
  by (simp_all add: labels_def dotted_text_def)

lemma write_labels:
  assumes "\<forall>l\<in>set ls. l \<noteq> [] \<and> length l < 256 \<and> (\<forall>c\<in>set l. text_char c)"
    and "dm_iter it + length (labels ls) \<le> length (dm_bytes it)"
  shows "\<exists>it'. write_string_loop (dotted_text ls @ t) it = write_string_loop t it' \<and> appends (labels ls) it it'"
  using assms
proof (induction ls arbitrary: it)
  case Nil
  then show ?case by (auto intro: appends_refl)
next
  case (Cons l ls)
  obtain it1 where 1: "write_string_loop (escaped l @ ch CHR ''.'' # dotted_text ls @ t) it
      = write_string_loop (dotted_text ls @ t) it1" "appends (of_nat (length l) # l) it it1"
    using write_segment [of l "ch CHR ''.'' # dotted_text ls @ t" it] Cons.prems by auto
  have "dm_iter it1 + length (labels ls) \<le> length (dm_bytes it1)"
    using 1(2) Cons.prems(2) by (auto simp: appends_def)
  then obtain it2 where "write_string_loop (dotted_text ls @ t) it1 = write_string_loop t it2"
    "appends (labels ls) it1 it2"
    using Cons.IH [of it1] Cons.prems(1) by auto
  then show ?case using 1 appends_trans [OF 1(2)] by auto
qed

lemma write_string_stop:
  "t \<noteq> [] \<Longrightarrow> hd t = 0 \<or> hd t = 0xC0 \<Longrightarrow> write_string_loop t it = Some (t, it)"
  by (cases t) (auto simp: write_string_loop.simps)

text \<open>A text of labels, each followed by a dot, and one whose last label is followed by a pointer.\<close>

lemma writes_text:
  assumes "\<forall>l\<in>set ls. l \<noteq> [] \<and> length l < 256 \<and> (\<forall>c\<in>set l. text_char c)"
  shows "writes (dns_write_string (Some (dotted_text ls @ 0 # u))) (labels ls @ [0])"
  unfolding writes_def
proof (intro allI impI)
  fix it :: dns_message_iterator_t
  assume room: "dm_iter it + length (labels ls @ [0]) \<le> length (dm_bytes it)"
  then obtain it1 where 1: "write_string_loop (dotted_text ls @ 0 # u) it = write_string_loop (0 # u) it1"
    "appends (labels ls) it it1"
    using write_labels [OF assms, of it "0 # u"] by auto
  obtain it2 where 2: "put [0] it1 = Some it2" "appends [0] it1 it2"
    using writesD [OF writes_put appends_room [OF 1(2) room]] by blast
  then show "\<exists>it'. dns_write_string (Some (dotted_text ls @ 0 # u)) it = Some it' \<and> appends (labels ls @ [0]) it it'"
    using 1 2 appends_trans [OF 1(2) 2(2)] by (auto simp: dns_write_string_def write_string_stop)
qed

lemma writes_instance:
  assumes "\<forall>c\<in>set l. text_char c" and "l \<noteq> []" and "length l < 256"
  shows "writes (dns_write_string (Some (escaped l @ 0xC0 # p # u))) (of_nat (length l) # l @ [0xC0, p])"
  unfolding writes_def
proof (intro allI impI)
  fix it :: dns_message_iterator_t
  assume room: "dm_iter it + length (of_nat (length l) # l @ [0xC0, p]) \<le> length (dm_bytes it)"
  then obtain it1 where 1: "write_string_loop (escaped l @ 0xC0 # p # u) it = write_string_loop (0xC0 # p # u) it1"
    "appends (of_nat (length l) # l) it it1"
    using write_segment [OF assms, of "0xC0 # p # u" it] by auto
  have "dm_iter it1 + length [0xC0, p] \<le> length (dm_bytes it1)"
    using room by (intro appends_room [OF 1(2)]) simp
  then obtain it2 where 2: "put [0xC0, p] it1 = Some it2" "appends [0xC0, p] it1 it2"
    using writesD [OF writes_put] by blast
  then show "\<exists>it'. dns_write_string (Some (escaped l @ 0xC0 # p # u)) it = Some it' \<and>
      appends (of_nat (length l) # l @ [0xC0, p]) it it'"
    using 1 2 appends_trans [OF 1(2) 2(2)] by (auto simp: dns_write_string_def write_string_stop)
qed

lemma writes_bytes: "n \<le> length bs \<Longrightarrow> writes (dns_write_bytes bs n) (take n bs)"
  using writes_put [of "take n bs"] by (simp add: writes_def dns_write_bytes_def)

lemma writes_name: "writes (dns_write_string s) bs \<Longrightarrow> writes (dns_write_name s) bs"
  by (simp add: dns_write_name_def)

lemma writes_srv:
  assumes "writes (dns_write_string (hostname r)) h"
  shows "writes (write_rdata RR_TYPE_SRV (Rd_service r)) (be16 0 @ be16 0 @ be16 (sd_port r) @ h)"
  using writes_seq [OF writes_uint16 writes_seq [OF writes_uint16 writes_seq [OF writes_uint16 assms]]]
  by (simp add: writes_def)

lemma be16_of_nat: "n < 65536 \<Longrightarrow> [of_nat (n div 256), of_nat (n mod 256)] = be16 (of_nat n)"
proof -
  assume n: "n < 65536"
  then have u: "unat (of_nat n :: u16) = n" by (simp add: unat_of_nat take_bit_eq_mod)
  have "(ucast (drop_bit 8 (of_nat n :: u16)) :: u8) = of_nat (n div 256)"
    by (simp add: word_unat_eq_iff unsigned_ucast_eq take_bit_eq_mod unsigned_drop_bit_eq drop_bit_eq_div unat_div_distrib unat_of_nat n less_mult_imp_div_less)
  moreover have "(ucast (of_nat n :: u16) :: u8) = of_nat (n mod 256)"
    by (simp add: word_unat_eq_iff unsigned_ucast_eq take_bit_eq_mod unat_of_nat n)
  ultimately show ?thesis by (simp add: be16_def)
qed

lemma writes_record:
  assumes nm: "writes (dns_write_name nam) nb" and rd: "writes (write_rdata t d) rb" and len: "length rb < 65536"
  shows "writes (dns_write_record nam c t ttl d) (nb @ be16 t @ be16 c @ be32 ttl @ be16 (of_nat (length rb)) @ rb)"
  unfolding writes_def
proof (intro allI impI)
  fix it :: dns_message_iterator_t
  let ?pre = "nb @ be16 t @ be16 c @ be32 ttl"
  let ?f = "\<lambda>it. Option.bind (dns_write_name nam it) (\<lambda>it. Option.bind (dns_write_uint16 t it)
    (\<lambda>it. Option.bind (dns_write_uint16 c it) (dns_write_uint32 ttl)))"
  assume room: "dm_iter it + length (nb @ be16 t @ be16 c @ be32 ttl @ be16 (of_nat (length rb)) @ rb) \<le> length (dm_bytes it)"
  have "writes ?f ?pre" by (intro writes_seq nm writes_uint16 writes_uint32)
  moreover have "dm_iter it + length ?pre \<le> length (dm_bytes it)" using room by simp
  ultimately obtain it1 where 1: "?f it = Some it1" "appends ?pre it it1" using writesD by blast
  let ?it = "it1\<lparr>dm_iter := dm_iter it1 + 2\<rparr>"
  have "dm_iter ?it + length rb \<le> length (dm_bytes ?it)" using 1(2) room by (simp add: appends_def)
  then obtain it2 where 2: "write_rdata t d ?it = Some it2" "appends rb ?it it2" using writesD [OF rd] by blast
  have n: "dm_iter it2 - (dm_iter it1 + 2) = length rb" using 2(2) by (simp add: appends_def)
  have "dm_iter it1 + length (be16 (of_nat (length rb))) \<le> length (dm_bytes it2)"
    using 2(2) by (simp add: appends_def)
  then obtain b where b: "blit (dm_bytes it2) (dm_iter it1) (be16 (of_nat (length rb))) = Some b"
    by (auto simp: blit_def)
  have "appends (be16 (of_nat (length rb)) @ rb) it1 (it2\<lparr>dm_bytes := b\<rparr>)"
    using 2(2) b by (intro appends_patch) (auto simp: appends_def)
  then have "appends (?pre @ be16 (of_nat (length rb)) @ rb) it (it2\<lparr>dm_bytes := b\<rparr>)" by (rule appends_trans [OF 1(2)])
  moreover have "dns_write_record nam c t ttl d it = Some (it2\<lparr>dm_bytes := b\<rparr>)"
    using 1(1) 2(1) b n len
    by (auto simp: dns_write_record_def Let_def be16_of_nat bind_eq_Some_conv)
  ultimately show "\<exists>it'. dns_write_record nam c t ttl d it = Some it' \<and>
      appends (nb @ be16 t @ be16 c @ be32 ttl @ be16 (of_nat (length rb)) @ rb) it it'"
    by auto
qed

text \<open>A header in a new message.\<close>

definition header_bytes :: "u16 \<Rightarrow> u16 \<Rightarrow> u16 \<Rightarrow> u16 \<Rightarrow> u16 \<Rightarrow> bytes" where
  "header_bytes ident flags q a ns = be16 ident @ be16 flags @ be16 q @ be16 a @ be16 ns @ [0, 0]"

lemma length_header_bytes [simp]: "length (header_bytes ident flags q a ns) = 12"
  by (simp add: header_bytes_def)

lemma new_message:
  assumes "malloc n = Some b" and "length b = n" and "12 \<le> n"
  shows "\<exists>it it'. dns_create_message malloc n = Some it \<and> dns_write_header ident flags q a ns it = Some it' \<and>
    built it' = header_bytes ident flags q a ns \<and> dm_iter it' = 12 \<and> length (dm_bytes it') = n"
  using assms by (auto simp: dns_create_message_def dns_write_header_def built_def header_bytes_def [symmetric] mem_simps blit_def)

section \<open>Records as the protocol has them\<close>

text \<open>The resource record at \<open>i\<close> (RFC 1035, 4.1.3), with \<open>n\<close> bytes of data at \<open>k\<close>.\<close>

definition record_at :: "bytes \<Rightarrow> nat \<Rightarrow> bytes list \<Rightarrow> u16 \<Rightarrow> u16 \<Rightarrow> u32 \<Rightarrow> nat \<Rightarrow> nat \<Rightarrow> bool" where
  "record_at p i ls t c ttl k n \<longleftrightarrow> (\<exists>m. name_at p i ls m \<and> k = m + 10 \<and> k + n \<le> length p \<and> n < 65536 \<and>
     slice p m 10 = be16 t @ be16 c @ be32 ttl @ be16 (of_nat n))"

lemma name_at_labels:
  assumes "\<forall>l\<in>set ls. l \<noteq> [] \<and> length l < 64" and "p = u @ labels ls @ 0 # v"
  shows "name_at p (length u) ls (length u + length (labels ls) + 1)"
  using assms
proof (induction ls arbitrary: u)
  case Nil
  then show ?case using name_at.root [of p "length u"] by (simp add: rd_def)
next
  case (Cons l ls)
  let ?u = "u @ of_nat (length l) # l"
  have "name_at p (length ?u) ls (length ?u + length (labels ls) + 1)"
    using Cons.prems by (intro Cons.IH) auto
  then have "name_at p (length u + 1 + length l) ls (length u + length (labels (l # ls)) + 1)"
    by (simp add: ac_simps)
  moreover have "slice p (length u + 1) (length l) = l"
    using Cons.prems(2) slice_mid [of "u @ [of_nat (length l)]" "length u + 1" "length l" l] by simp
  ultimately show ?case
    using Cons.prems by (intro name_at.label) (auto simp: rd_def nth_append)
qed

lemma name_at_instance:
  assumes "name_at p 12 ls j" and "ls \<noteq> []" and "l \<noteq> []" and "length l < 64"
    and p: "p = u @ (of_nat (length l) # l @ [0xC0, 12]) @ v"
  shows "name_at p (length u) (l # ls) (length u + length l + 3)"
proof -
  let ?i = "length u + 1 + length l"
  have "rd p ?i = Some 0xC0" "rd p (?i + 1) = Some 12" unfolding p by (auto simp: rd_def nth_append)
  then have "name_at p ?i ls (?i + 2)"
    using assms(1,2) by (intro name_at.pointer [where c = "0xC0" and d = 12]) auto
  moreover have "slice p (length u + 1) (length l) = l"
    using p slice_mid [of "u @ [of_nat (length l)]" "length u + 1" "length l" l "[0xC0, 12] @ v"] by simp
  ultimately show ?thesis
    using assms(3,4) p by (intro name_at.label) (auto simp: rd_def nth_append numeral_3_eq_3 ac_simps)
qed

lemma record_atI:
  assumes "name_at p (length u) ls (length u + length nb)" and "length rb < 65536"
    and "p = u @ (nb @ be16 t @ be16 c @ be32 ttl @ be16 (of_nat (length rb)) @ rb) @ v"
  shows "record_at p (length u) ls t c ttl (length u + length nb + 10) (length rb)"
proof -
  have "slice p (length u + length nb) 10 = be16 t @ be16 c @ be32 ttl @ be16 (of_nat (length rb))"
    using assms(3) slice_mid [of "u @ nb" "length u + length nb" 10 "be16 t @ be16 c @ be32 ttl @ be16 (of_nat (length rb))" "rb @ v"]
    by simp
  then show ?thesis using assms by (auto simp: record_at_def)
qed

lemma plain_text:
  assumes "\<forall>l\<in>set ls. \<forall>c\<in>set l. plain c"
  shows "dotted_text ls = dotted ls \<and> length (labels ls) = length (dotted ls)"
proof -
  have "escaped l = l" if "\<forall>c\<in>set l. plain c" for l
    using that by (induction l) (auto simp: plain_def)
  then show ?thesis using assms by (induction ls) auto
qed

lemma dotted_end:
  assumes "\<forall>l\<in>set ls. 0 \<notin> set l"
  shows "0 \<notin> set (dotted ls) \<and> (ls \<noteq> [] \<longrightarrow> last (dotted ls) = ch CHR ''.'')"
  using assms dotted_length by (induction ls) auto

section \<open>Properties\<close>

text \<open>
  C30. A question whose name is encoded as the protocol requires, with or without compression, is taken from
  a message with its type and class and the iterator behind it. The comparison of its name with a text that ends with
  a dot then reads beyond the text exactly when it reaches a label that is as long as what is left of the text and of the bytes
  behind it (\<open>reads_beyond\<close>: for a text in a block of its own length, any label at least as long as
  the rest of the text); otherwise it answers whether both agree but for the characters at the ends of the labels of the question.
  (The character there is skipped and not compared, so the question \<open>a.b\<close> finds a service \<open>aXb\<close>.)
  The labels have no zero and no dot, and the blocks of at most 64 bytes for the labels can be allocated.
\<close>

theorem dns_question_matched:
  assumes "name_at (dm_bytes it) (dm_iter it) ls j" and "ls \<noteq> []" and "int j \<le> dm_end it"
    and "j + 4 \<le> length (dm_bytes it)" and "slice (dm_bytes it) j 4 = be16 t @ be16 c"
    and "\<forall>l\<in>set ls. 0 \<notin> set l \<and> ch CHR ''.'' \<notin> set l"
    and "\<forall>n \<le> 64. \<exists>b. malloc n = Some b"
    and "0 \<notin> set s" and "s = [] \<or> last s = ch CHR ''.''"
  shows "\<exists>nam. dns_get_next_question it =
      Some (Some (\<lparr>question_type = t, question_class = c\<rparr>, nam), it\<lparr>dm_iter := j + 4\<rparr>) \<and>
    dns_compare_name_to_string malloc nam (s @ 0 # pad) =
      Some (if reads_beyond ls s (length pad) then Bad_access else Answer (dots_match ls s))"
  using dns_get_next_question_name [OF assms(1,3-5)]
    compare_sections_name [OF assms(1,2,6-9)]
  by (simp add: dns_compare_name_to_string_def)

definition sample_query :: dns_message_iterator_t where
  "sample_query = \<lparr>dm_bytes = replicate 12 0 @ [1, 0x61, 0] @ be16 12 @ be16 1, dm_iter = 12, dm_end = 19\<rparr>"

lemma sample_name: "name_at (dm_bytes sample_query) (dm_iter sample_query) [[0x61]] 15"
  using name_at_labels [of "[[0x61]]" "dm_bytes sample_query" "replicate 12 0" "be16 12 @ be16 1"]
  by (simp add: sample_query_def)

theorem dns_question_matched_witness:
  "\<exists>nam. dns_get_next_question sample_query =
      Some (Some (\<lparr>question_type = 12, question_class = 1\<rparr>, nam), sample_query\<lparr>dm_iter := 15 + 4\<rparr>) \<and>
    dns_compare_name_to_string (\<lambda>n. Some (replicate n 0)) nam (str ''a.'' @ [0])
      = Some (Answer (dots_match [[0x61]] (str ''a.''))) \<and>
    dns_compare_name_to_string (\<lambda>n. Some (replicate n 0)) nam ([] @ [0]) = Some Bad_access"
proof -
  have sl: "slice (dm_bytes sample_query) 15 4 = be16 12 @ be16 1"
    using slice_mid [of "replicate 12 0 @ [1, 0x61, 0]" 15 4 "be16 12 @ be16 1" "[]"] by (simp add: sample_query_def)
  note q = dns_question_matched [OF sample_name _ _ _ sl, of "\<lambda>n. Some (replicate n 0)" _ "[]"]
  have e: "int 15 \<le> dm_end sample_query" "15 + 4 \<le> length (dm_bytes sample_query)" by (simp_all add: sample_query_def)
  have r: "\<not> reads_beyond [[0x61]] (str ''a.'') 0" "reads_beyond [[0x61]] [] 0" by simp_all
  show ?thesis using q [OF _ e, of "str ''a.''"] q [OF _ e, of "[]"] r by auto
qed

text \<open>
  C29. A text of plain labels of fewer than 64 characters, each followed by a dot, is written by
  \<open>dns_write_string\<close> as the name with these labels when the message has room for it;
  \<open>dns_skip_name\<close> finds its end, and the comparison with the text it was written from, whatever lies behind it in
  memory, stays within the text and succeeds (blocks of at most 64 bytes can be allocated).
\<close>

theorem dns_name_roundtrip:
  assumes "\<forall>l\<in>set ls. l \<noteq> [] \<and> length l < 64 \<and> (\<forall>c\<in>set l. plain c)" and "ls \<noteq> []"
    and "dm_iter it + length (dotted ls) < length (dm_bytes it)"
    and "\<forall>n \<le> 64. \<exists>b. malloc n = Some b"
  shows "\<exists>it'. dns_write_string (Some (dotted ls @ 0 # pad)) it = Some it' \<and>
    take (dm_iter it) (dm_bytes it') = take (dm_iter it) (dm_bytes it) \<and>
    name_at (dm_bytes it') (dm_iter it) ls (dm_iter it') \<and>
    dns_skip_name (it'\<lparr>dm_iter := dm_iter it, dm_end := int (dm_iter it')\<rparr>) = Some (it'\<lparr>dm_end := int (dm_iter it')\<rparr>) \<and>
    dns_compare_name_to_string malloc \<lparr>start_of_name = dm_iter it, start_of_packet = dm_bytes it'\<rparr>
      (dotted ls @ 0 # pad) = Some (Answer True)"
proof -
  have d: "dotted_text ls = dotted ls" "length (labels ls) = length (dotted ls)"
    using plain_text [of ls] assms(1) by auto
  have "plain c \<Longrightarrow> text_char c" for c by (simp add: plain_def text_char_def)
  then have "\<forall>l\<in>set ls. l \<noteq> [] \<and> length l < 256 \<and> (\<forall>c\<in>set l. text_char c)" using assms(1) by force
  from writes_text [OF this, of pad]
  have "writes (dns_write_string (Some (dotted ls @ 0 # pad))) (labels ls @ [0])" unfolding d(1) .
  moreover have "dm_iter it + length (labels ls @ [0]) \<le> length (dm_bytes it)" using assms(3) d(2) by simp
  ultimately obtain it' where w: "dns_write_string (Some (dotted ls @ 0 # pad)) it = Some it'"
    "appends (labels ls @ [0]) it it'"
    using writesD by blast
  have i': "dm_iter it' = dm_iter it + length (labels ls) + 1" "dm_iter it' \<le> length (dm_bytes it')"
    and b: "take (dm_iter it') (dm_bytes it') = take (dm_iter it) (dm_bytes it) @ labels ls @ [0]"
    using w(2) by (auto simp: appends_def built_def)
  have p: "dm_bytes it' = take (dm_iter it) (dm_bytes it) @ labels ls @ 0 # drop (dm_iter it') (dm_bytes it')"
    using b append_take_drop_id [of "dm_iter it'" "dm_bytes it'"] by simp
  have u: "length (take (dm_iter it) (dm_bytes it)) = dm_iter it" using assms(3) by simp
  have nm: "name_at (dm_bytes it') (dm_iter it) ls (dm_iter it')"
    using name_at_labels [OF _ p] assms(1) u i'(1) by auto
  have "compare_sections malloc (dm_bytes it') (dm_iter it) (dotted ls @ 0 # pad) = Some (Answer True)"
    using compare_sections_equal [OF nm assms(2) _ assms(4), of pad] assms(1) by (auto simp: plain_def)
  moreover have "take (dm_iter it) (dm_bytes it') = take (dm_iter it) (dm_bytes it)"
    using arg_cong [OF p, of "take (dm_iter it)"] u by simp
  moreover have "dns_skip_name (it'\<lparr>dm_iter := dm_iter it, dm_end := int (dm_iter it')\<rparr>)
      = Some (it'\<lparr>dm_end := int (dm_iter it')\<rparr>)"
    using dns_skip_name_name [of "it'\<lparr>dm_iter := dm_iter it, dm_end := int (dm_iter it')\<rparr>" ls "dm_iter it'"] nm by simp
  ultimately show ?thesis using w(1) nm by (auto simp: dns_compare_name_to_string_def)
qed

theorem dns_name_roundtrip_witness:
  "\<exists>it'. dns_write_string (Some (dotted [str ''a'', str ''b''] @ 0 # [])) sample_query = Some it' \<and>
    take (dm_iter sample_query) (dm_bytes it') = take (dm_iter sample_query) (dm_bytes sample_query) \<and>
    name_at (dm_bytes it') (dm_iter sample_query) [str ''a'', str ''b''] (dm_iter it') \<and>
    dns_skip_name (it'\<lparr>dm_iter := dm_iter sample_query, dm_end := int (dm_iter it')\<rparr>)
      = Some (it'\<lparr>dm_end := int (dm_iter it')\<rparr>) \<and>
    dns_compare_name_to_string (\<lambda>n. Some (replicate n 0))
      \<lparr>start_of_name = dm_iter sample_query, start_of_packet = dm_bytes it'\<rparr>
      (dotted [str ''a'', str ''b''] @ 0 # []) = Some (Answer True)"
  by (rule dns_name_roundtrip) (simp_all add: sample_query_def plain_def)

text \<open>
  C40. The comparison of a name that lies on a cycle of compression pointers does not return, whatever
  the text: a single packet with such a name stops the responder.
\<close>

theorem dns_pointer_cycle_hangs:
  assumes "pointer_cycle (start_of_packet nam) S" and "start_of_name nam \<in> S"
  shows "dns_compare_name_to_string malloc nam s = None"
  using compare_sections_cycle [OF assms] by (simp add: dns_compare_name_to_string_def)

theorem dns_pointer_cycle_hangs_witness:
  "dns_compare_name_to_string (\<lambda>n. Some (replicate n 0))
     \<lparr>start_of_name = 12, start_of_packet = replicate 12 0 @ [0xC0, 12]\<rparr> (str ''a.'' @ [0]) = None"
  by (rule dns_pointer_cycle_hangs [where S = "{12}"]) (simp_all add: pointer_cycle_def rd_def nth_append)

end
