(* ===== verification/Mdns.thy ===== *)
theory Mdns
  imports DnsMessage
begin

text \<open>
  The multicast DNS responder of \<open>MICO/system/mdns/mico_mdns.c\<close>: the table of service records and the calls that
  change it, the answers to questions, and the two threads, of which one announces changed records
  and one sends and answers. The semaphore between them, the table and the position of the announcing thread are the
  state; datagrams that are sent are results. The calls that add a record or change a text search before they take the mutex
  and are split there, into \<open>mdns_add_search\<close> and \<open>mdns_add_locked\<close>, \<open>mdns_txt_search\<close> and \<open>mdns_txt_locked\<close>. The addresses of the interfaces and the outcome of starting
  the network are parameters.
\<close>

section \<open>State\<close>

abbreviation kNoResourcesErr :: OSStatus where "kNoResourcesErr \<equiv> - 6729"
abbreviation MAX_RECORD_COUNT :: nat where "MAX_RECORD_COUNT \<equiv> 4"

definition SERVICE_QUERY_NAME :: bytes where
  "SERVICE_QUERY_NAME = str ''_services._dns-sd._udp.local.'' @ [0]"

text \<open>The announcing thread: the index it looks at next, or what it does when no record is left.\<close>

datatype announcer = No_thread | Scan nat | Leaving

record mdns_sys =
  available_services :: "dns_sd_service_record_t list"
  bonjour_instance :: bool
  announcer :: announcer
  update_sem :: bool
  rx_buf :: bytes

text \<open>\<open>inet_addr\<close> of the address of an interface, and the first error of \<open>start_bonjour_service\<close> besides \<open>malloc\<close>.\<close>

record mdns_env =
  ip_status :: "WiFi_Interface \<Rightarrow> u32"
  net_status :: OSStatus

text \<open>A datagram: destination and content; the port is 5353.\<close>

type_synonym datagram = "string \<times> bytes"

definition empty_record :: dns_sd_service_record_t where
  "empty_record = \<lparr>hostname = None, instance_name = None, service_name = None, txt_att = None,
     interface = Soft_AP, sd_ttl = 0, sd_port = 0, count_down = 0, sd_state = RECORD_REMOVED\<rparr>"

section \<open>Sending\<close>

definition mdns_send_message :: "dns_message_iterator_t \<Rightarrow> datagram list" where
  "mdns_send_message it =
     (let m = take (dm_iter it) (dm_bytes it) in [(''224.0.0.251'', m), (''255.255.255.255'', m)])"

text \<open>\<open>dns_write_record\<close> for PTR, TXT, SRV and A, as \<open>process_dns_questions\<close> and \<open>bonjour_send_record\<close>
  call it; \<open>ip\<close> are the bytes of \<open>myip\<close>.\<close>

definition write_service ::
  "dns_sd_service_record_t \<Rightarrow> u32 \<Rightarrow> bytes \<Rightarrow> dns_message_iterator_t \<Rightarrow> dns_message_iterator_t option" where
  "write_service r ttl ip it = do {
     it \<leftarrow> dns_write_record (service_name r) RR_CLASS_IN RR_TYPE_PTR ttl (Rd_bytes (instance_name r)) it;
     it \<leftarrow> dns_write_record (instance_name r) (RR_CACHE_FLUSH OR RR_CLASS_IN) RR_TYPE_TXT ttl (Rd_bytes (txt_att r)) it;
     it \<leftarrow> dns_write_record (instance_name r) (RR_CACHE_FLUSH OR RR_CLASS_IN) RR_TYPE_SRV ttl (Rd_service r) it;
     dns_write_record (hostname r) (RR_CACHE_FLUSH OR RR_CLASS_IN) RR_TYPE_A ttl (Rd_bytes (Some ip)) it
   }"

text \<open>A message of the size \<open>n\<close> with a header, the records and the sending; nothing when \<open>malloc\<close> fails.\<close>

definition respond ::
  "allocator \<Rightarrow> nat \<Rightarrow> u16 \<Rightarrow> u16 \<Rightarrow> (dns_message_iterator_t \<Rightarrow> dns_message_iterator_t option) \<Rightarrow> datagram list option option" where
  "respond malloc n ident answers f =
     (case dns_create_message malloc n of None \<Rightarrow> Some None
      | Some it \<Rightarrow> do {
          it \<leftarrow> dns_write_header ident 0x8400 0 answers 0 it;
          it \<leftarrow> f it;
          Some (Some (mdns_send_message it))
        })"

definition usable_ip :: "u32 \<Rightarrow> bool" where
  "usable_ip ip \<longleftrightarrow> ip \<noteq> 0 \<and> ip \<noteq> 0xFFFFFFFF"

section \<open>Questions\<close>

text \<open>Leaving memory and running for ever are both \<open>None\<close> from here on.\<close>

definition compared :: "allocator \<Rightarrow> dns_name_t \<Rightarrow> bytes option \<Rightarrow> bool option" where
  "compared malloc nam s = do {
     s \<leftarrow> s;
     r \<leftarrow> dns_compare_name_to_string malloc nam s;
     (case r of Bad_access \<Rightarrow> None | Answer b \<Rightarrow> Some b)
   }"

text \<open>The loop over the records for a PTR question; the flag is \<open>question_processed\<close>.\<close>

fun answer_ptr ::
  "mdns_env \<Rightarrow> allocator \<Rightarrow> u16 \<Rightarrow> dns_name_t \<Rightarrow> dns_sd_service_record_t list \<Rightarrow> (bool \<times> datagram list) option" where
  "answer_ptr env malloc ident nam [] = Some (False, [])"
| "answer_ptr env malloc ident nam (r # rs) = do {
     eq \<leftarrow> compared malloc nam (service_name r);
     out \<leftarrow> (if eq \<and> sd_state r = RECORD_NORMAL \<and> usable_ip (ip_status env (interface r))
       then respond malloc 512 ident 4 (write_service r (sd_ttl r) (be32 (ip_status env (interface r))))
       else Some None);
     (processed, ds) \<leftarrow> answer_ptr env malloc ident nam rs;
     (case out of None \<Rightarrow> Some (processed, ds) | Some ds' \<Rightarrow> Some (True, ds' @ ds))
   }"

text \<open>The loop that lists all records for the question \<open>_services._dns-sd._udp.local.\<close>\<close>

fun write_services ::
  "dns_sd_service_record_t list \<Rightarrow> dns_message_iterator_t \<Rightarrow> dns_message_iterator_t option" where
  "write_services [] it = Some it"
| "write_services (r # rs) it = do {
     it \<leftarrow> dns_write_record (Some SERVICE_QUERY_NAME) RR_CLASS_IN RR_TYPE_PTR 1500 (Rd_bytes (service_name r)) it;
     write_services rs it
   }"

text \<open>\<open>mdns_process_query\<close>: the first record with the host name is answered.\<close>

fun answer_a ::
  "mdns_env \<Rightarrow> allocator \<Rightarrow> u16 \<Rightarrow> dns_name_t \<Rightarrow> dns_sd_service_record_t list \<Rightarrow> datagram list option" where
  "answer_a env malloc ident nam [] = Some []"
| "answer_a env malloc ident nam (r # rs) = do {
     eq \<leftarrow> compared malloc nam (hostname r);
     out \<leftarrow> (if eq \<and> usable_ip (ip_status env (interface r))
       then respond malloc 256 ident 1
         (dns_write_record (hostname r) (RR_CLASS_IN OR RR_CACHE_FLUSH) RR_TYPE_A (sd_ttl r)
           (Rd_bytes (Some (be32 (ip_status env (interface r))))))
       else Some None);
     (case out of None \<Rightarrow> answer_a env malloc ident nam rs | Some ds \<Rightarrow> Some ds)
   }"

definition mdns_process_query ::
  "mdns_env \<Rightarrow> allocator \<Rightarrow> dns_sd_service_record_t list \<Rightarrow> u16 \<Rightarrow> dns_name_t \<Rightarrow> dns_question_t \<Rightarrow> datagram list option" where
  "mdns_process_query env malloc rs ident nam q =
     (if question_type q = RR_QTYPE_ANY \<or> question_type q = RR_TYPE_A then answer_a env malloc ident nam rs
      else Some [])"

text \<open>One question. The result tells what is sent.\<close>

definition process_question ::
  "mdns_env \<Rightarrow> allocator \<Rightarrow> dns_sd_service_record_t list \<Rightarrow> u16 \<Rightarrow> dns_name_t \<Rightarrow> dns_question_t \<Rightarrow> datagram list option" where
  "process_question env malloc rs ident nam q = do {
     (processed, ds) \<leftarrow>
       (if question_type q = RR_TYPE_PTR then do {
          eq \<leftarrow> compared malloc nam (Some SERVICE_QUERY_NAME);
          (if eq then
             map_option (\<lambda>out. case out of None \<Rightarrow> (False, []) | Some ds \<Rightarrow> (True, ds))
               (respond malloc 512 ident (of_nat (length rs)) (write_services rs))
           else answer_ptr env malloc ident nam rs)
        } else Some (False, []));
     (if processed then Some ds
      else map_option (\<lambda>ds'. ds @ ds') (mdns_process_query env malloc rs ident nam q))
   }"

text \<open>The header fields: \<open>id\<close> is read as it lies in memory, the others with \<open>ntohs\<close>.\<close>

definition raw_id :: "bytes \<Rightarrow> u16 option" where
  "raw_id p = do {
     a \<leftarrow> rd p 0;
     b \<leftarrow> rd p 1;
     Some (ucast a + push_bit 8 (ucast b))
   }"

definition net16 :: "bytes \<Rightarrow> nat \<Rightarrow> u16 option" where
  "net16 p i = do {
     a \<leftarrow> rd p i;
     b \<leftarrow> rd p (i + 1);
     Some (push_bit 8 (ucast a) + ucast b)
   }"

fun questions_loop ::
  "mdns_env \<Rightarrow> allocator \<Rightarrow> dns_sd_service_record_t list \<Rightarrow> u16 \<Rightarrow> nat \<Rightarrow> dns_message_iterator_t \<Rightarrow> datagram list option" where
  "questions_loop env malloc rs ident 0 it = Some []"
| "questions_loop env malloc rs ident (Suc n) it =
     (if int (dm_iter it) > dm_end it then Some []
      else do {
        (qn, it) \<leftarrow> dns_get_next_question it;
        (case qn of None \<Rightarrow> Some []
         | Some (q, nam) \<Rightarrow> do {
             ds \<leftarrow> process_question env malloc rs ident nam q;
             ds' \<leftarrow> questions_loop env malloc rs ident n it;
             Some (ds @ ds')
           })
      })"

definition process_dns_questions ::
  "mdns_env \<Rightarrow> allocator \<Rightarrow> dns_sd_service_record_t list \<Rightarrow> dns_message_iterator_t \<Rightarrow> datagram list option" where
  "process_dns_questions env malloc rs it = do {
     n \<leftarrow> net16 (dm_bytes it) 4;
     ident \<leftarrow> raw_id (dm_bytes it);
     questions_loop env malloc rs ident (unat n) it
   }"

definition mdns_handler ::
  "mdns_env \<Rightarrow> allocator \<Rightarrow> dns_sd_service_record_t list \<Rightarrow> bytes \<Rightarrow> int \<Rightarrow> datagram list option" where
  "mdns_handler env malloc rs pkt pkt_len = do {
     flags \<leftarrow> net16 pkt 2;
     (if flags AND 0x8000 \<noteq> 0 then Some []
      else process_dns_questions env malloc rs \<lparr>dm_bytes = pkt, dm_iter = 12, dm_end = pkt_len\<rparr>)
   }"

section \<open>The table of records\<close>

text \<open>\<open>strcmp(a, b) == 0\<close>; \<open>None\<close> when it leaves one of the texts.\<close>

fun strcmp_equal :: "bytes \<Rightarrow> bytes \<Rightarrow> bool option" where
  "strcmp_equal (x # a) (y # b) = (if x \<noteq> y then Some False else if x = 0 then Some True else strcmp_equal a b)"
| "strcmp_equal a b = None"

definition is_service_match :: "bytes option \<Rightarrow> WiFi_Interface \<Rightarrow> dns_sd_service_record_t \<Rightarrow> bool option" where
  "is_service_match nam iface r =
     (if sd_state r = RECORD_REMOVED \<or> sd_state r = RECORD_REMOVE then Some False
      else do {
        same \<leftarrow> (case nam of None \<Rightarrow> Some True | Some s \<Rightarrow> Option.bind (service_name r) (\<lambda>t. strcmp_equal t s));
        Some (same \<and> interface r = iface)
      })"

text \<open>The index of the first record that satisfies the test, \<open>0xFF\<close> when there is none.\<close>

fun find_record :: "(dns_sd_service_record_t \<Rightarrow> bool option) \<Rightarrow> nat \<Rightarrow> dns_sd_service_record_t list \<Rightarrow> nat option" where
  "find_record f i [] = Some 0xFF"
| "find_record f i (r # rs) = do {
     b \<leftarrow> f r;
     if b then Some i else find_record f (i + 1) rs
   }"

definition find_record_by_service ::
  "bytes option \<Rightarrow> WiFi_Interface \<Rightarrow> dns_sd_service_record_t list \<Rightarrow> nat option" where
  "find_record_by_service nam iface rs = find_record (is_service_match nam iface) 0 rs"

definition find_empty_record :: "dns_sd_service_record_t list \<Rightarrow> nat option" where
  "find_empty_record rs = find_record (\<lambda>r. Some (sd_state r = RECORD_REMOVED)) 0 rs"

definition clean_record_resource :: "dns_sd_service_record_t \<Rightarrow> dns_sd_service_record_t" where
  "clean_record_resource r = r\<lparr>service_name := None, hostname := None, instance_name := None, txt_att := None\<rparr>"

text \<open>Every call that changes a record ends with this: the thread is created when its handle is \<open>NULL\<close>.\<close>

definition start_announcing :: "mdns_sys \<Rightarrow> mdns_sys" where
  "start_announcing s = (if announcer s = No_thread then s\<lparr>announcer := Scan 0\<rparr> else s)"

definition start_bonjour_service :: "mdns_env \<Rightarrow> allocator \<Rightarrow> mdns_sys \<Rightarrow> OSStatus \<times> mdns_sys" where
  "start_bonjour_service env malloc s =
     (let s = s\<lparr>available_services := replicate MAX_RECORD_COUNT empty_record\<rparr> in
      case malloc 1500 of None \<Rightarrow> (kNoMemoryErr, s)
      | Some b \<Rightarrow>
          let s = s\<lparr>rx_buf := b\<rparr> in
          if net_status env \<noteq> kNoErr then (net_status env, s) else (kNoErr, s\<lparr>bonjour_instance := True\<rparr>))"

record mdns_init_t =
  init_service_name :: "bytes option"
  init_host_name :: "bytes option"
  init_instance_name :: "bytes option"
  init_txt_record :: "bytes option"
  init_service_port :: u16

text \<open>The instance name with a pointer to the name at the offset 12 of a message, and a terminator.\<close>

definition instance_text :: "allocator \<Rightarrow> bytes option \<Rightarrow> bytes option" where
  "instance_text malloc nam = do {
     s \<leftarrow> nam;
     n \<leftarrow> c_strlen s;
     b \<leftarrow> malloc (n + 3);
     b \<leftarrow> memcpy b 0 s 0 n;
     blit b n [0xC0, 0x0C, 0]
   }"

text \<open>
  \<open>mdns_add_record\<close> and \<open>mdns_update_txt_record\<close> look for their record before they take the mutex and change
  it after that: two parts, between which calls of other threads and the responder may change the table. The record that
  was found is not looked at again.
\<close>

definition mdns_add_search ::
  "mdns_env \<Rightarrow> allocator \<Rightarrow> mdns_init_t \<Rightarrow> WiFi_Interface \<Rightarrow> mdns_sys \<Rightarrow> (OSStatus \<times> nat \<times> mdns_sys) option" where
  "mdns_add_search env malloc ini iface s =
     (case (if bonjour_instance s then (kNoErr, s) else start_bonjour_service env malloc s) of (err, s) \<Rightarrow>
        if err \<noteq> kNoErr then Some (err, 0xFF, s)
        else do {
          i \<leftarrow> find_record_by_service (init_service_name ini) iface (available_services s);
          i \<leftarrow> (if i = 0xFF then find_empty_record (available_services s) else Some i);
          Some (if \<not> i < length (available_services s) then kNoResourcesErr else kNoErr, i, s)
        })"

definition mdns_add_locked ::
  "allocator \<Rightarrow> mdns_init_t \<Rightarrow> WiFi_Interface \<Rightarrow> u32 \<Rightarrow> nat \<Rightarrow> mdns_sys \<Rightarrow> mdns_sys option" where
  "mdns_add_locked malloc ini iface ttl i s = do {
     sn \<leftarrow> strdup malloc (init_service_name ini);
     hn \<leftarrow> strdup malloc (init_host_name ini);
     inst \<leftarrow> instance_text malloc (init_instance_name ini);
     txt' \<leftarrow> strdup malloc (init_txt_record ini);
     let r = \<lparr>hostname = hn, instance_name = Some inst, service_name = sn, txt_att = txt', interface = iface,
       sd_ttl = ttl, sd_port = init_service_port ini, count_down = 5, sd_state = RECORD_UPDATE\<rparr>;
     Some (start_announcing (s\<lparr>available_services := (available_services s)[i := r]\<rparr>))
   }"

definition mdns_txt_search :: "bytes option \<Rightarrow> WiFi_Interface \<Rightarrow> mdns_sys \<Rightarrow> nat option" where
  "mdns_txt_search nam iface s =
     (if \<not> bonjour_instance s then Some 0xFF else find_record_by_service nam iface (available_services s))"

definition mdns_txt_locked :: "allocator \<Rightarrow> bytes option \<Rightarrow> nat \<Rightarrow> mdns_sys \<Rightarrow> mdns_sys option" where
  "mdns_txt_locked malloc txt' i s = do {
     t \<leftarrow> strdup malloc txt';
     let r = (available_services s ! i)\<lparr>txt_att := t, sd_state := RECORD_UPDATE, count_down := 5\<rparr>;
     Some (start_announcing (s\<lparr>available_services := (available_services s)[i := r]\<rparr>))
   }"

text \<open>The two calls when nothing comes in between.\<close>

definition mdns_add_record ::
  "mdns_env \<Rightarrow> allocator \<Rightarrow> mdns_init_t \<Rightarrow> WiFi_Interface \<Rightarrow> u32 \<Rightarrow> mdns_sys \<Rightarrow> (OSStatus \<times> mdns_sys) option" where
  "mdns_add_record env malloc ini iface ttl s = do {
     (err, i, s) \<leftarrow> mdns_add_search env malloc ini iface s;
     (if err \<noteq> kNoErr then Some (err, s)
      else map_option (\<lambda>s. (kNoErr, s)) (mdns_add_locked malloc ini iface ttl i s))
   }"

definition mdns_update_txt_record ::
  "allocator \<Rightarrow> bytes option \<Rightarrow> WiFi_Interface \<Rightarrow> bytes option \<Rightarrow> mdns_sys \<Rightarrow> mdns_sys option" where
  "mdns_update_txt_record malloc nam iface txt' s = do {
     i \<leftarrow> mdns_txt_search nam iface s;
     (if i = 0xFF then Some s else mdns_txt_locked malloc txt' i s)
   }"

text \<open>The loop over all records; the flag tells whether one was found.\<close>

fun suspend_loop ::
  "bytes option \<Rightarrow> WiFi_Interface \<Rightarrow> bool \<Rightarrow> dns_sd_service_record_t list \<Rightarrow> (bool \<times> dns_sd_service_record_t list) option" where
  "suspend_loop nam iface will_remove [] = Some (False, [])"
| "suspend_loop nam iface will_remove (r # rs) = do {
     m \<leftarrow> is_service_match nam iface r;
     (found, rs') \<leftarrow> suspend_loop nam iface will_remove rs;
     (if \<not> m then Some (found, r # rs')
      else
        let st = (if will_remove then RECORD_REMOVE
                  else if sd_state r \<noteq> RECORD_REMOVE then RECORD_SUSPEND else sd_state r) in
        Some (True, r\<lparr>sd_state := st, count_down := 5\<rparr> # rs'))
   }"

definition mdns_suspend_record :: "bytes option \<Rightarrow> WiFi_Interface \<Rightarrow> bool \<Rightarrow> mdns_sys \<Rightarrow> mdns_sys option" where
  "mdns_suspend_record nam iface will_remove s =
     (if \<not> bonjour_instance s then Some s
      else do {
        (found, rs) \<leftarrow> suspend_loop nam iface will_remove (available_services s);
        let s' = s\<lparr>available_services := rs\<rparr>;
        Some (if found then start_announcing s' else s')
      })"

text \<open>The loop ends at the first record that does not match.\<close>

fun resume_loop ::
  "bytes option \<Rightarrow> WiFi_Interface \<Rightarrow> dns_sd_service_record_t list \<Rightarrow> (bool \<times> dns_sd_service_record_t list) option" where
  "resume_loop nam iface [] = Some (False, [])"
| "resume_loop nam iface (r # rs) = do {
     m \<leftarrow> is_service_match nam iface r;
     (if \<not> m then Some (False, r # rs)
      else do {
        (found, rs') \<leftarrow> resume_loop nam iface rs;
        Some (True, r\<lparr>sd_state := RECORD_UPDATE, count_down := 5\<rparr> # rs')
      })
   }"

definition mdns_resume_record :: "bytes option \<Rightarrow> WiFi_Interface \<Rightarrow> mdns_sys \<Rightarrow> mdns_sys option" where
  "mdns_resume_record nam iface s =
     (if \<not> bonjour_instance s then Some s
      else do {
        (found, rs) \<leftarrow> resume_loop nam iface (available_services s);
        let s' = s\<lparr>available_services := rs\<rparr>;
        Some (if found then start_announcing s' else s')
      })"

datatype WiFiEvent = NOTIFY_STATION_UP | NOTIFY_STATION_DOWN | NOTIFY_AP_UP | NOTIFY_AP_DOWN | NOTIFY_OTHER

fun BonjourNotify_WifiStatusHandler :: "WiFiEvent \<Rightarrow> mdns_sys \<Rightarrow> mdns_sys option" where
  "BonjourNotify_WifiStatusHandler NOTIFY_STATION_UP s = mdns_resume_record None Station s"
| "BonjourNotify_WifiStatusHandler NOTIFY_STATION_DOWN s = mdns_suspend_record None Station False s"
| "BonjourNotify_WifiStatusHandler NOTIFY_AP_UP s = mdns_resume_record None Soft_AP s"
| "BonjourNotify_WifiStatusHandler NOTIFY_AP_DOWN s = mdns_suspend_record None Soft_AP False s"
| "BonjourNotify_WifiStatusHandler NOTIFY_OTHER s = Some s"

definition BonjourNotify_SYSWillPoerOffHandler :: "mdns_sys \<Rightarrow> mdns_sys option" where
  "BonjourNotify_SYSWillPoerOffHandler s = do {
     s \<leftarrow> mdns_suspend_record None Station True s;
     mdns_suspend_record None Soft_AP True s
   }"

section \<open>The responder thread\<close>

definition bonjour_send_record ::
  "mdns_env \<Rightarrow> allocator \<Rightarrow> nat \<Rightarrow> dns_sd_service_record_t \<Rightarrow> datagram list option" where
  "bonjour_send_record env malloc available_service_count r =
     (let live = (sd_state r = RECORD_NORMAL \<or> sd_state r = RECORD_UPDATE); ttl = (if live then sd_ttl r else 0) in
      do {
        ds \<leftarrow> (if live
          then respond malloc 512 0 (of_nat available_service_count)
            (dns_write_record (Some SERVICE_QUERY_NAME) RR_CLASS_IN RR_TYPE_PTR 1500 (Rd_bytes (service_name r)))
          else Some None);
        let ip = ip_status env (interface r);
        ds' \<leftarrow> (if usable_ip ip then respond malloc 512 0 4 (write_service r ttl (be32 ip)) else Some None);
        Some (concat (map (\<lambda>d. case d of None \<Rightarrow> [] | Some ms \<Rightarrow> ms) [ds, ds']))
      })"

text \<open>The \<open>switch\<close> over the state of a record after the semaphore was set.\<close>

definition update_record ::
  "mdns_env \<Rightarrow> allocator \<Rightarrow> nat \<Rightarrow> dns_sd_service_record_t \<Rightarrow> (dns_sd_service_record_t \<times> datagram list) option" where
  "update_record env malloc n r =
     (case sd_state r of
        RECORD_REMOVE \<Rightarrow> do {
          ds \<leftarrow> bonjour_send_record env malloc n r;
          let r = r\<lparr>count_down := count_down r - 1\<rparr>;
          Some (if count_down r = 0 then (clean_record_resource r)\<lparr>sd_state := RECORD_REMOVED\<rparr> else r, ds)
        }
      | RECORD_SUSPEND \<Rightarrow>
          if count_down r \<noteq> 0 then do {
            ds \<leftarrow> bonjour_send_record env malloc n r;
            Some (r\<lparr>count_down := count_down r - 1\<rparr>, ds)
          } else Some (r, [])
      | RECORD_UPDATE \<Rightarrow> do {
          ds \<leftarrow> bonjour_send_record env malloc n r;
          let r = r\<lparr>count_down := count_down r - 1\<rparr>;
          Some (if count_down r = 0 then r\<lparr>sd_state := RECORD_NORMAL\<rparr> else r, ds)
        }
      | _ \<Rightarrow> Some (r, []))"

fun update_records ::
  "mdns_env \<Rightarrow> allocator \<Rightarrow> nat \<Rightarrow> dns_sd_service_record_t list \<Rightarrow> (dns_sd_service_record_t list \<times> datagram list) option" where
  "update_records env malloc n [] = Some ([], [])"
| "update_records env malloc n (r # rs) = do {
     (r', ds) \<leftarrow> update_record env malloc n r;
     (rs', ds') \<leftarrow> update_records env malloc n rs;
     Some (r' # rs', ds @ ds')
   }"

text \<open>The two halves of a round of \<open>_bonjour_thread\<close>: the semaphore was set, a datagram or an error (\<open>None\<close>) arrived.\<close>

definition bonjour_update :: "mdns_env \<Rightarrow> allocator \<Rightarrow> mdns_sys \<Rightarrow> (mdns_sys \<times> datagram list) option" where
  "bonjour_update env malloc s = do {
     (rs, ds) \<leftarrow> update_records env malloc (length (available_services s)) (available_services s);
     Some (s\<lparr>available_services := rs, update_sem := False\<rparr>, ds)
   }"

definition bonjour_receive ::
  "mdns_env \<Rightarrow> allocator \<Rightarrow> bytes option \<Rightarrow> mdns_sys \<Rightarrow> (mdns_sys \<times> datagram list) option" where
  "bonjour_receive env malloc d s =
     (case d of
        None \<Rightarrow> map_option (\<lambda>ds. (s, ds)) (mdns_handler env malloc (available_services s) (rx_buf s) (- 1))
      | Some m \<Rightarrow>
          let m = take 1500 m; s = s\<lparr>rx_buf := m @ drop (length m) (rx_buf s)\<rparr> in
          map_option (\<lambda>ds. (s, ds)) (mdns_handler env malloc (available_services s) (rx_buf s) (int (length m))))"

section \<open>Threads\<close>

definition pending :: "dns_sd_service_record_t \<Rightarrow> bool" where
  "pending r \<longleftrightarrow> sd_state r \<noteq> RECORD_REMOVED \<and> count_down r \<noteq> 0"

text \<open>
  The steps of the two threads; the number counts the updates. The announcing thread looks at the
  records without the mutex, so a step of another thread may come between any two of its looks, and between its decision
  to leave and the reset of its handle.
\<close>

inductive thread_step :: "mdns_env \<Rightarrow> allocator \<Rightarrow> mdns_sys \<Rightarrow> nat \<Rightarrow> mdns_sys \<Rightarrow> bool"
  for env malloc where
  scan_next: "announcer s = Scan i \<Longrightarrow> i < length (available_services s) \<Longrightarrow> \<not> pending (available_services s ! i) \<Longrightarrow>
    thread_step env malloc s 0 (s\<lparr>announcer := Scan (i + 1)\<rparr>)"
| scan_hit: "announcer s = Scan i \<Longrightarrow> i < length (available_services s) \<Longrightarrow> pending (available_services s ! i) \<Longrightarrow>
    thread_step env malloc s 0 (s\<lparr>update_sem := True, announcer := Scan 0\<rparr>)"
| scan_end: "announcer s = Scan i \<Longrightarrow> \<not> i < length (available_services s) \<Longrightarrow>
    thread_step env malloc s 0 (s\<lparr>announcer := Leaving\<rparr>)"
| leave: "announcer s = Leaving \<Longrightarrow> thread_step env malloc s 0 (s\<lparr>announcer := No_thread\<rparr>)"
| update: "update_sem s \<Longrightarrow> bonjour_update env malloc s = Some (s', ds) \<Longrightarrow> thread_step env malloc s 1 s'"
| receive: "bonjour_instance s \<Longrightarrow> bonjour_receive env malloc d s = Some (s', ds) \<Longrightarrow> thread_step env malloc s 0 s'"

text \<open>Runs of the two threads with \<open>n\<close> updates.\<close>

inductive thread_run :: "mdns_env \<Rightarrow> allocator \<Rightarrow> mdns_sys \<Rightarrow> nat \<Rightarrow> mdns_sys \<Rightarrow> bool" for env malloc where
  run_none: "thread_run env malloc s 0 s"
| run_step: "thread_step env malloc s m s' \<Longrightarrow> thread_run env malloc s' n s'' \<Longrightarrow> thread_run env malloc s (m + n) s''"

text \<open>
  The calls of the application and of the notifications, from any number of threads: the state has the calls
  that have found their record and not yet the mutex. The other calls search under the mutex.
\<close>

datatype mdns_call =
    Adding mdns_init_t WiFi_Interface u32 nat
  | Changing_txt "bytes option" nat

fun locked_part :: "allocator \<Rightarrow> mdns_call \<Rightarrow> mdns_sys \<Rightarrow> mdns_sys option" where
  "locked_part malloc (Adding ini iface ttl i) s = mdns_add_locked malloc ini iface ttl i s"
| "locked_part malloc (Changing_txt t i) s = mdns_txt_locked malloc t i s"

inductive call_step ::
  "mdns_env \<Rightarrow> allocator \<Rightarrow> mdns_call list \<Rightarrow> mdns_sys \<Rightarrow> mdns_call list \<Rightarrow> mdns_sys \<Rightarrow> bool" for env malloc where
  add_search: "mdns_add_search env malloc ini iface s = Some (err, i, s') \<Longrightarrow>
    call_step env malloc cs s (if err \<noteq> kNoErr then cs else Adding ini iface ttl i # cs) s'"
| txt_search: "mdns_txt_search nam iface s = Some i \<Longrightarrow>
    call_step env malloc cs s (if i = 0xFF then cs else Changing_txt t i # cs) s"
| locked: "locked_part malloc c s = Some s' \<Longrightarrow> call_step env malloc (cs @ c # ds) s (cs @ ds) s'"
| suspend: "mdns_suspend_record nam iface will_remove s = Some s' \<Longrightarrow> call_step env malloc cs s cs s'"
| resume: "mdns_resume_record nam iface s = Some s' \<Longrightarrow> call_step env malloc cs s cs s'"

definition mdns_start :: mdns_sys where
  "mdns_start = \<lparr>available_services = replicate MAX_RECORD_COUNT empty_record, bonjour_instance = False,
     announcer = No_thread, update_sem = False, rx_buf = []\<rparr>"

inductive mdns_concurrent :: "mdns_env \<Rightarrow> allocator \<Rightarrow> mdns_call list \<Rightarrow> mdns_sys \<Rightarrow> bool" for env malloc where
  at_start: "mdns_concurrent env malloc [] mdns_start"
| by_thread: "mdns_concurrent env malloc cs s \<Longrightarrow> thread_step env malloc s n s' \<Longrightarrow> mdns_concurrent env malloc cs s'"
| by_call: "mdns_concurrent env malloc cs s \<Longrightarrow> call_step env malloc cs s cs' s' \<Longrightarrow> mdns_concurrent env malloc cs' s'"

definition mdns_reachable :: "mdns_env \<Rightarrow> allocator \<Rightarrow> mdns_sys \<Rightarrow> bool" where
  "mdns_reachable env malloc s \<longleftrightarrow> (\<exists>cs. mdns_concurrent env malloc cs s)"

section \<open>The answers as the protocol has them\<close>

text \<open>The strings of a record for a service, an instance, items of text and a host.\<close>

definition service_strings ::
  "dns_sd_service_record_t \<Rightarrow> bytes list \<Rightarrow> bytes \<Rightarrow> bytes list \<Rightarrow> bytes list \<Rightarrow> bool" where
  "service_strings r svc inst items host \<longleftrightarrow>
     (\<exists>u. service_name r = Some (dotted svc @ 0 # u)) \<and> (\<exists>u. instance_name r = Some (escaped inst @ 0xC0 # 12 # u)) \<and>
     (\<exists>u. txt_att r = Some (dotted_text items @ 0 # u)) \<and> (\<exists>u. hostname r = Some (dotted host @ 0 # u)) \<and>
     svc \<noteq> [] \<and> inst \<noteq> [] \<and> length inst < 64 \<and> (\<forall>c\<in>set inst. text_char c) \<and>
     (\<forall>l\<in>set svc \<union> set host. l \<noteq> [] \<and> length l < 64 \<and> (\<forall>c\<in>set l. plain c)) \<and>
     (\<forall>l\<in>set items. l \<noteq> [] \<and> length l < 256 \<and> (\<forall>c\<in>set l. text_char c)) \<and>
     length (dotted svc) + 3 * length inst + length (labels items) + 2 * length (dotted host) \<le> 434"

text \<open>
  The message \<open>p\<close> announces the instance of the service: a response with four records, a pointer from
  the service to the instance, the items, port and host of the instance, and the address of the host.
\<close>

definition service_message ::
  "bytes \<Rightarrow> u16 \<Rightarrow> bytes list \<Rightarrow> bytes \<Rightarrow> bytes list \<Rightarrow> bytes list \<Rightarrow> u32 \<Rightarrow> u16 \<Rightarrow> u32 \<Rightarrow> bool" where
  "service_message p ident svc inst items host ttl port ip \<longleftrightarrow> (\<exists>k1 n1 k2 n2 k3 n3 k4.
     take 12 p = header_bytes ident 0x8400 0 4 0 \<and>
     record_at p 12 svc RR_TYPE_PTR RR_CLASS_IN ttl k1 n1 \<and> name_at p k1 (inst # svc) (k1 + n1) \<and>
     record_at p (k1 + n1) (inst # svc) RR_TYPE_TXT 0x8001 ttl k2 n2 \<and> slice p k2 n2 = labels items @ [0] \<and>
     record_at p (k2 + n2) (inst # svc) RR_TYPE_SRV 0x8001 ttl k3 n3 \<and>
     slice p k3 6 = be16 0 @ be16 0 @ be16 port \<and> name_at p (k3 + 6) host (k3 + n3) \<and>
     record_at p (k3 + n3) host RR_TYPE_A 0x8001 ttl k4 4 \<and> slice p k4 4 = be32 ip \<and> k4 + 4 = length p)"

text \<open>A record as bytes.\<close>

definition rr :: "bytes \<Rightarrow> u16 \<Rightarrow> u16 \<Rightarrow> u32 \<Rightarrow> bytes \<Rightarrow> bytes" where
  "rr nb t c ttl rb = nb @ be16 t @ be16 c @ be32 ttl @ be16 (of_nat (length rb)) @ rb"

lemma length_rr [simp]: "length (rr nb t c ttl rb) = length nb + 10 + length rb"
  by (simp add: rr_def)

lemma record_at_rr:
  assumes "p = u @ rr nb t c ttl rb @ v" and "name_at p (length u) ls (length u + length nb)" and "length rb < 65536"
  shows "record_at p (length u) ls t c ttl (length u + length nb + 10) (length rb)"
    and "slice p (length u + length nb + 10) (length rb) = rb"
  using record_atI [OF assms(2,3), of t c ttl v] assms(1)
    slice_mid [of "u @ nb @ be16 t @ be16 c @ be32 ttl @ be16 (of_nat (length rb))" "length u + length nb + 10" "length rb" rb v]
  by (simp_all add: rr_def)

definition instance_bytes :: "bytes \<Rightarrow> bytes" where
  "instance_bytes inst = of_nat (length inst) # inst @ [0xC0, 12]"

definition host_bytes :: "bytes list \<Rightarrow> bytes" where
  "host_bytes ls = labels ls @ [0]"

definition service_bytes :: "bytes list \<Rightarrow> bytes \<Rightarrow> bytes list \<Rightarrow> bytes list \<Rightarrow> u32 \<Rightarrow> u16 \<Rightarrow> u32 \<Rightarrow> bytes" where
  "service_bytes svc inst items host ttl port ip =
     rr (host_bytes svc) RR_TYPE_PTR RR_CLASS_IN ttl (instance_bytes inst) @
     rr (instance_bytes inst) RR_TYPE_TXT 0x8001 ttl (host_bytes items) @
     rr (instance_bytes inst) RR_TYPE_SRV 0x8001 ttl (be16 0 @ be16 0 @ be16 port @ host_bytes host) @
     rr (host_bytes host) RR_TYPE_A 0x8001 ttl (be32 ip)"

lemma name_at_host:
  assumes "\<forall>l\<in>set ls. l \<noteq> [] \<and> length l < 64" and "p = u @ host_bytes ls @ v"
  shows "name_at p (length u) ls (length u + length (host_bytes ls))"
  using name_at_labels [OF assms(1), of p u v] assms(2) by (simp add: host_bytes_def)

lemma service_bytes_message:
  fixes ident :: u16
  assumes svc: "\<forall>l\<in>set svc. l \<noteq> [] \<and> length l < 64" "svc \<noteq> []" and host: "\<forall>l\<in>set host. l \<noteq> [] \<and> length l < 64"
    and inst: "inst \<noteq> []" "length inst < 64"
    and len: "length (host_bytes items) < 65536" "length (host_bytes host) < 65000"
  shows "service_message (header_bytes ident 0x8400 0 4 0 @ service_bytes svc inst items host ttl port ip)
    ident svc inst items host ttl port ip"
proof -
  let ?h = "header_bytes ident 0x8400 0 4 0" and ?I = "instance_bytes inst"
  let ?srv = "be16 0 @ be16 0 @ be16 port @ host_bytes host"
  let ?R1 = "rr (host_bytes svc) RR_TYPE_PTR RR_CLASS_IN ttl ?I" and ?R2 = "rr ?I RR_TYPE_TXT 0x8001 ttl (host_bytes items)"
  let ?R3 = "rr ?I RR_TYPE_SRV 0x8001 ttl ?srv" and ?R4 = "rr (host_bytes host) RR_TYPE_A 0x8001 ttl (be32 ip)"
  define p where "p = ?h @ ?R1 @ ?R2 @ ?R3 @ ?R4"
  have svc_at: "name_at p 12 svc (12 + length (host_bytes svc))"
    using name_at_host [OF svc(1), of p ?h] by (simp add: p_def rr_def)
  have inst_at: "name_at p (length u) (inst # svc) (length u + length ?I)" if "p = u @ ?I @ v" for u v
    using name_at_instance [OF svc_at svc(2) inst, of u v] that by (simp add: instance_bytes_def numeral_3_eq_3)
  have I: "length ?I < 65536" using inst by (simp add: instance_bytes_def)
  let ?k1 = "12 + length (host_bytes svc) + 10" let ?u2 = "?h @ ?R1" let ?k2 = "length ?u2 + length ?I + 10"
  let ?u3 = "?u2 @ ?R2" let ?k3 = "length ?u3 + length ?I + 10" let ?u4 = "?u3 @ ?R3"
  let ?k4 = "length ?u4 + length (host_bytes host) + 10"
  note r1 = record_at_rr [of p ?h "host_bytes svc" RR_TYPE_PTR RR_CLASS_IN ttl ?I "?R2 @ ?R3 @ ?R4" svc]
  note r2 = record_at_rr [of p ?u2 ?I RR_TYPE_TXT "0x8001" ttl "host_bytes items" "?R3 @ ?R4" "inst # svc"]
  note r3 = record_at_rr [of p ?u3 ?I RR_TYPE_SRV "0x8001" ttl ?srv "?R4" "inst # svc"]
  note r4 = record_at_rr [of p ?u4 "host_bytes host" RR_TYPE_A "0x8001" ttl "be32 ip" "[]" host]
  have 1: "record_at p 12 svc RR_TYPE_PTR RR_CLASS_IN ttl ?k1 (length ?I)"
    using r1(1) svc_at I by (simp add: p_def)
  have 2: "name_at p ?k1 (inst # svc) (?k1 + length ?I)"
    using inst_at [of "?h @ host_bytes svc @ be16 RR_TYPE_PTR @ be16 RR_CLASS_IN @ be32 ttl @ be16 (of_nat (length ?I))"
        "?R2 @ ?R3 @ ?R4"] by (simp add: p_def rr_def)
  have 3: "record_at p (?k1 + length ?I) (inst # svc) RR_TYPE_TXT 0x8001 ttl ?k2 (length (host_bytes items))"
    "slice p ?k2 (length (host_bytes items)) = host_bytes items"
    using r2 inst_at [of ?u2 "drop (length ?I) ?R2 @ ?R3 @ ?R4"] len(1) by (simp_all add: p_def rr_def ac_simps)
  have 4: "record_at p (?k2 + length (host_bytes items)) (inst # svc) RR_TYPE_SRV 0x8001 ttl ?k3 (length ?srv)"
    "slice p ?k3 (length ?srv) = ?srv"
    using r3 inst_at [of ?u3 "drop (length ?I) ?R3 @ ?R4"] len(2) by (simp_all add: p_def rr_def ac_simps)
  have 5: "slice p ?k3 6 = be16 0 @ be16 0 @ be16 port"
    using arg_cong [OF 4(2), of "take 6"] by (simp add: slice_def min_def)
  have 6: "name_at p (?k3 + 6) host (?k3 + length ?srv)"
    using name_at_host [OF host, of p "?u3 @ ?I @ be16 RR_TYPE_SRV @ be16 0x8001 @ be32 ttl @ be16 (of_nat (length ?srv)) @
      be16 0 @ be16 0 @ be16 port" "?R4"] by (simp add: p_def rr_def ac_simps)
  have 7: "record_at p (?k3 + length ?srv) host RR_TYPE_A 0x8001 ttl ?k4 4" "slice p ?k4 4 = be32 ip"
    using r4 name_at_host [OF host, of p ?u4 "drop (length (host_bytes host)) ?R4"] by (simp_all add: p_def rr_def ac_simps)
  have 8: "take 12 p = ?h" "?k4 + 4 = length p" by (simp_all add: p_def)
  have "service_message p ident svc inst items host ttl port ip"
    unfolding service_message_def using 1 2 3 4(1) 5 6 7 8 unfolding host_bytes_def by blast
  then show ?thesis by (simp add: p_def service_bytes_def)
qed

lemma plain_labels:
  assumes "\<forall>l\<in>set ls. l \<noteq> [] \<and> length l < 64 \<and> (\<forall>c\<in>set l. plain c)"
  shows "writes (dns_write_string (Some (dotted ls @ 0 # u))) (host_bytes ls)"
    and "length (host_bytes ls) = length (dotted ls) + 1"
proof -
  have d: "dotted_text ls = dotted ls" "length (labels ls) = length (dotted ls)"
    using plain_text [of ls] assms by auto
  have "plain c \<Longrightarrow> text_char c" for c by (simp add: plain_def text_char_def)
  then have "\<forall>l\<in>set ls. l \<noteq> [] \<and> length l < 256 \<and> (\<forall>c\<in>set l. text_char c)" using assms by force
  from writes_text [OF this, of u]
  show "writes (dns_write_string (Some (dotted ls @ 0 # u))) (host_bytes ls)" unfolding d(1) host_bytes_def .
  show "length (host_bytes ls) = length (dotted ls) + 1" using d(2) by (simp add: host_bytes_def)
qed

lemma flush_in: "RR_CACHE_FLUSH OR RR_CLASS_IN = 0x8001"
  by simp

lemma writes_rdata_name:
  "t = RR_TYPE_PTR \<or> t = RR_TYPE_TXT \<Longrightarrow> writes (dns_write_string d) bs \<Longrightarrow> writes (write_rdata t (Rd_bytes d)) bs"
  by (auto simp: writes_def dns_write_name_def)

lemma writes_rdata_a: "writes (write_rdata RR_TYPE_A (Rd_bytes (Some (be32 ip)))) (be32 ip)"
  using writes_bytes [of 4 "be32 ip"] by (simp add: writes_def)

text \<open>What is written for a record with well-formed strings.\<close>

lemma writes_service:
  assumes "service_strings r svc inst items host"
  shows "writes (write_service r ttl (be32 ip)) (service_bytes svc inst items host ttl (sd_port r) ip)"
    and "length (service_bytes svc inst items host ttl (sd_port r) ip) \<le> 500"
    and "length (host_bytes items) < 65536" "length (host_bytes host) < 65000"
proof -
  note raw = assms [unfolded service_strings_def]
  obtain u1 u2 u3 u4 where s: "service_name r = Some (dotted svc @ 0 # u1)"
    "instance_name r = Some (escaped inst @ 0xC0 # 12 # u2)" "txt_att r = Some (dotted_text items @ 0 # u3)"
    "hostname r = Some (dotted host @ 0 # u4)"
    using raw by blast
  have inst: "inst \<noteq> []" "length inst < 64" "\<forall>c\<in>set inst. text_char c"
    and items: "\<forall>l\<in>set items. l \<noteq> [] \<and> length l < 256 \<and> (\<forall>c\<in>set l. text_char c)"
    and room: "length (dotted svc) + 3 * length inst + length (labels items) + 2 * length (dotted host) \<le> 434"
    and names: "\<forall>l\<in>set svc \<union> set host. l \<noteq> [] \<and> length l < 64 \<and> (\<forall>c\<in>set l. plain c)"
    using raw by simp_all
  have svc: "\<forall>l\<in>set svc. l \<noteq> [] \<and> length l < 64 \<and> (\<forall>c\<in>set l. plain c)"
    and host: "\<forall>l\<in>set host. l \<noteq> [] \<and> length l < 64 \<and> (\<forall>c\<in>set l. plain c)"
    using names by blast+
  have S: "writes (dns_write_string (service_name r)) (host_bytes svc)"
    and H: "writes (dns_write_string (hostname r)) (host_bytes host)"
    and T: "writes (dns_write_string (txt_att r)) (host_bytes items)"
    and I: "writes (dns_write_string (instance_name r)) (instance_bytes inst)"
    unfolding s using plain_labels(1) [OF svc] plain_labels(1) [OF host] writes_text [OF items, of u3]
      writes_instance [OF inst(3,1), of 12 u2] inst(2)
    by (simp_all add: host_bytes_def instance_bytes_def)
  have lens: "length (host_bytes svc) = length (dotted svc) + 1" "length (host_bytes host) = length (dotted host) + 1"
    "length (host_bytes items) = length (labels items) + 1" "length (instance_bytes inst) = length inst + 3"
    using plain_labels(2) [OF svc] plain_labels(2) [OF host] by (simp_all add: host_bytes_def instance_bytes_def)
  show l: "length (host_bytes items) < 65536" "length (host_bytes host) < 65000" using lens room by simp_all
  have L: "length (instance_bytes inst) < 65536" using lens inst by simp
  have L3: "length (be16 0 @ be16 0 @ be16 (sd_port r) @ host_bytes host) < 65536" using l(2) by simp
  have L4: "length (be32 ip) < 65536" by simp
  note w1 = writes_record [OF writes_name [OF S] writes_rdata_name [OF disjI1 [OF refl] I] L]
  note w2 = writes_record [OF writes_name [OF I] writes_rdata_name [OF disjI2 [OF refl] T] l(1)]
  note w3 = writes_record [OF writes_name [OF I] writes_srv [OF H] L3]
  note w4 = writes_record [OF writes_name [OF H] writes_rdata_a L4]
  have "writes (\<lambda>it. write_service r ttl (be32 ip) it) (service_bytes svc inst items host ttl (sd_port r) ip)"
    unfolding write_service_def service_bytes_def rr_def flush_in
    by (intro writes_seq w1 w2 w3 w4)
  then show "writes (write_service r ttl (be32 ip)) (service_bytes svc inst items host ttl (sd_port r) ip)" .
  show "length (service_bytes svc inst items host ttl (sd_port r) ip) \<le> 500"
    using room lens by (simp add: service_bytes_def)
qed

lemma respond_writes:
  assumes "writes f bs" and "malloc n = Some b" and "length b = n" and "12 + length bs \<le> n"
  shows "respond malloc n ident answers f = Some (Some
    [(''224.0.0.251'', header_bytes ident 0x8400 0 answers 0 @ bs), (''255.255.255.255'', header_bytes ident 0x8400 0 answers 0 @ bs)])"
proof -
  obtain it it1 where m: "dns_create_message malloc n = Some it" "dns_write_header ident 0x8400 0 answers 0 it = Some it1"
    "built it1 = header_bytes ident 0x8400 0 answers 0" "dm_iter it1 = 12" "length (dm_bytes it1) = n"
    using new_message [of malloc n b ident "0x8400" 0 answers 0] assms(2-4) by auto
  then obtain it2 where 2: "f it1 = Some it2" "appends bs it1 it2" using writesD [OF assms(1), of it1] assms(4) by auto
  then have "take (dm_iter it2) (dm_bytes it2) = header_bytes ident 0x8400 0 answers 0 @ bs"
    using m(3) by (metis appends_def built_def)
  then show ?thesis using m(1,2) 2(1) by (simp add: respond_def mdns_send_message_def Let_def)
qed

lemma respond_service:
  assumes "service_strings r svc inst items host" and "malloc 512 = Some b" and "length b = 512"
  shows "\<exists>m. respond malloc 512 ident 4 (write_service r ttl (be32 ip))
      = Some (Some [(''224.0.0.251'', m), (''255.255.255.255'', m)]) \<and>
    service_message m ident svc inst items host ttl (sd_port r) ip"
proof -
  note w = writes_service(1,2) [OF assms(1), of ttl ip] writes_service(3,4) [OF assms(1)]
  have s: "\<forall>l\<in>set svc. l \<noteq> [] \<and> length l < 64" "svc \<noteq> []" "\<forall>l\<in>set host. l \<noteq> [] \<and> length l < 64" "inst \<noteq> []" "length inst < 64"
    using assms(1) by (auto simp: service_strings_def)
  show ?thesis
    using respond_writes [OF w(1), of malloc 512 b ident 4] assms(2,3) w(2)
      service_bytes_message [OF s(1,2,3,4,5) w(3,4), of ident ttl "sd_port r" ip]
    by (intro exI [of _ "header_bytes ident 0x8400 0 4 0 @ service_bytes svc inst items host ttl (sd_port r) ip"]) simp
qed

text \<open>A record whose service name does not start with the first label of a question.\<close>

definition other_service :: "bytes list \<Rightarrow> dns_sd_service_record_t \<Rightarrow> bool" where
  "other_service ls r \<longleftrightarrow> (\<exists>s. service_name r = Some s \<and> length (hd ls) + 1 < length s \<and> take (length (hd ls)) s \<noteq> hd ls)"

definition mallocs :: "allocator \<Rightarrow> bool" where
  "mallocs malloc \<longleftrightarrow> (\<forall>n \<le> 512. \<exists>b. malloc n = Some b \<and> length b = n)"

lemma mallocsD: "mallocs malloc \<Longrightarrow> n \<le> 512 \<Longrightarrow> \<exists>b. malloc n = Some b \<and> length b = n"
  by (simp add: mallocs_def)

lemma compared_other:
  assumes "name_at p i ls j" and "ls \<noteq> []" and "\<forall>l\<in>set ls. 0 \<notin> set l" and "mallocs malloc"
    and "length (hd ls) + 1 < length s" and "take (length (hd ls)) s \<noteq> hd ls"
  shows "compared malloc \<lparr>start_of_name = i, start_of_packet = p\<rparr> (Some s) = Some False"
proof -
  have "\<forall>n\<le>64. \<exists>b. malloc n = Some b" using mallocsD [OF assms(4)] by (meson le_trans numeral_le_iff semiring_norm(68,69,71,72))
  then show ?thesis
    using compare_sections_other [OF assms(1-3) _ assms(5,6)] by (simp add: compared_def dns_compare_name_to_string_def)
qed

lemma compared_equal:
  assumes "name_at p i ls j" and "ls \<noteq> []" and "\<forall>l\<in>set ls. \<forall>c\<in>set l. plain c" and "mallocs malloc"
  shows "compared malloc \<lparr>start_of_name = i, start_of_packet = p\<rparr> (Some (dotted ls @ 0 # u)) = Some True"
proof -
  have "\<forall>n\<le>64. \<exists>b. malloc n = Some b" using mallocsD [OF assms(4)] by (meson le_trans numeral_le_iff semiring_norm(68,69,71,72))
  moreover have "\<forall>l\<in>set ls. 0 \<notin> set l \<and> ch CHR ''.'' \<notin> set l" using assms(3) by (auto simp: plain_def)
  ultimately show ?thesis
    using compare_sections_equal [OF assms(1,2)] by (simp add: compared_def dns_compare_name_to_string_def)
qed

lemma answer_ptr_others:
  assumes "\<forall>r\<in>set rs. other_service ls r" and "name_at p i ls j" and "ls \<noteq> []" and "\<forall>l\<in>set ls. 0 \<notin> set l"
    and "mallocs malloc"
  shows "answer_ptr env malloc ident \<lparr>start_of_name = i, start_of_packet = p\<rparr> (rs @ rs') =
    answer_ptr env malloc ident \<lparr>start_of_name = i, start_of_packet = p\<rparr> rs'"
  using assms(1)
proof (induction rs)
  case (Cons r rs)
  then obtain s where "service_name r = Some s" "length (hd ls) + 1 < length s" "take (length (hd ls)) s \<noteq> hd ls"
    by (auto simp: other_service_def)
  then show ?case using Cons compared_other [OF assms(2-5)]
    by (cases "answer_ptr env malloc ident \<lparr>start_of_name = i, start_of_packet = p\<rparr> rs'") auto
qed simp

section \<open>Properties of the answers\<close>

lemma query_name_text: "SERVICE_QUERY_NAME = dotted [str ''_services'', str ''_dns-sd'', str ''_udp'', str ''local''] @ [0]"
  by (simp add: SERVICE_QUERY_NAME_def)

lemma length_query_name: "length SERVICE_QUERY_NAME = 30"
  by (simp add: SERVICE_QUERY_NAME_def)

text \<open>A free slot stops the loop over the records.\<close>

lemma answer_ptr_free_slot:
  "\<exists>r\<in>set rs. service_name r = None \<Longrightarrow> answer_ptr env malloc ident nam rs = None"
proof (induction rs)
  case (Cons r rs)
  then show ?case by (cases "service_name r") (auto simp: compared_def split: bind_splits)
qed simp

text \<open>
  C24. A PTR question for the service of a record in the normal state. When all records of the table are in use, it is
  answered by one message, sent to both addresses, that any reader of the protocol takes for: the service has this
  instance, the instance has these items of text, this port and host, and the host has the address of the
  interface. When any record of the table is free, as in a device with fewer than four services, its service name is \<open>NULL\<close>, the
  comparison uses it and the responder faults. The name of the question may be compressed. Provisos: the packet has this
  question only; the strings of the record fit into a message (\<open>service_strings\<close>) and the interface has an address;
  the service names of the other records begin with another label than the question and are longer than its first label, which
  has at most 28 characters and does not begin \<open>_services._dns-sd._udp.local.\<close>; blocks can be allocated.
\<close>

theorem ptr_question_answered:
  assumes "name_at pkt 12 svc j" and "int (j + 4) \<le> pkt_len" and "j + 4 \<le> length pkt"
    and "slice pkt j 4 = be16 RR_TYPE_PTR @ be16 c"
    and "net16 pkt 2 = Some flags" and "flags AND 0x8000 = 0" and "net16 pkt 4 = Some 1" and "raw_id pkt = Some ident"
    and "service_strings r svc inst items host" and "sd_state r = RECORD_NORMAL"
    and "ip_status env (interface r) = ip" and "usable_ip ip"
    and "\<forall>r'\<in>set (rs1 @ rs2). service_name r' = None \<or> other_service svc r'"
    and "length (hd svc) \<le> 28" and "hd svc \<noteq> take (length (hd svc)) SERVICE_QUERY_NAME"
    and "mallocs malloc"
  shows "if \<exists>r'\<in>set (rs1 @ rs2). service_name r' = None
    then mdns_handler env malloc (rs1 @ r # rs2) pkt pkt_len = None
    else \<exists>m. mdns_handler env malloc (rs1 @ r # rs2) pkt pkt_len
        = Some [(''224.0.0.251'', m), (''255.255.255.255'', m)] \<and>
      service_message m ident svc inst items host (sd_ttl r) (sd_port r) ip"
proof -
  let ?it = "\<lparr>dm_bytes = pkt, dm_iter = 12, dm_end = pkt_len\<rparr>"
  let ?nam = "\<lparr>start_of_name = 12, start_of_packet = pkt\<rparr>"
  let ?q = "\<lparr>question_type = RR_TYPE_PTR, question_class = c\<rparr>"
  have svc: "svc \<noteq> []" "\<forall>l\<in>set svc. \<forall>c\<in>set l. plain c" and zero: "\<forall>l\<in>set svc. 0 \<notin> set l"
    using assms(9) by (auto simp: service_strings_def plain_def)
  have nq: "dns_get_next_question ?it = Some (Some (?q, ?nam), ?it\<lparr>dm_iter := j + 4\<rparr>)"
    using dns_get_next_question_name [of ?it svc j RR_TYPE_PTR c] assms(1-4) by simp
  have c0: "compared malloc ?nam (Some SERVICE_QUERY_NAME) = Some False"
    using compared_other [OF assms(1) svc(1) zero assms(16), of SERVICE_QUERY_NAME] assms(14,15)
    by (auto simp: length_query_name)
  have h: "mdns_handler env malloc rs pkt pkt_len = process_question env malloc rs ident ?nam ?q" for rs
    using assms(2,5-8) nq name_at_less [OF assms(1)] questions_loop.simps(2) [of env malloc rs ident 0 ?it]
    by (cases "process_question env malloc rs ident ?nam ?q") (simp_all add: mdns_handler_def process_dns_questions_def)
  show ?thesis
  proof (cases "\<exists>r'\<in>set (rs1 @ rs2). service_name r' = None")
    case True
    then have "answer_ptr env malloc ident ?nam (rs1 @ r # rs2) = None" by (intro answer_ptr_free_slot) auto
    then have "mdns_handler env malloc (rs1 @ r # rs2) pkt pkt_len = None"
      using c0 by (simp add: h process_question_def)
    with True show ?thesis by (simp only: if_True)
  next
    case False
    obtain u where u: "service_name r = Some (dotted svc @ 0 # u)" using assms(9) by (auto simp: service_strings_def)
    have c1: "compared malloc ?nam (service_name r) = Some True"
      unfolding u by (rule compared_equal [OF assms(1) svc assms(16)])
    have others: "\<forall>r'\<in>set rs1. other_service svc r'" "\<forall>r'\<in>set rs2. other_service svc r'" using assms(13) False by fastforce+
    note skip = answer_ptr_others [OF _ assms(1) svc(1) zero assms(16)]
    obtain b where b: "malloc 512 = Some b" "length b = 512" using mallocsD [OF assms(16), of 512] by auto
    obtain m where m: "respond malloc 512 ident 4 (write_service r (sd_ttl r) (be32 ip))
        = Some (Some [(''224.0.0.251'', m), (''255.255.255.255'', m)])"
      "service_message m ident svc inst items host (sd_ttl r) (sd_port r) ip"
      using respond_service [OF assms(9), of malloc b ident "sd_ttl r" ip] b by blast
    have "answer_ptr env malloc ident ?nam rs2 = Some (False, [])"
      using skip [OF others(2), of env ident "[]"] by simp
    then have "answer_ptr env malloc ident ?nam (rs1 @ r # rs2) = Some (True, [(''224.0.0.251'', m), (''255.255.255.255'', m)])"
      using skip [OF others(1), of env ident "r # rs2"] c1 assms(10-12) m(1) by simp
    then have "mdns_handler env malloc (rs1 @ r # rs2) pkt pkt_len = Some [(''224.0.0.251'', m), (''255.255.255.255'', m)]"
      using c0 by (simp add: h process_question_def)
    then show ?thesis using m(2) False by (simp only: if_False) blast
  qed
qed

section \<open>Witnesses\<close>

definition sample_record :: "string \<Rightarrow> dns_sd_service_record_t" where
  "sample_record svc = \<lparr>hostname = Some (dotted [str ''dev'', str ''local''] @ [0]),
     instance_name = Some (escaped (str ''dev'') @ [0xC0, 12, 0]),
     service_name = Some (dotted [str svc, str ''local''] @ [0]), txt_att = Some (dotted_text [str ''k=v''] @ [0]),
     interface = Station, sd_ttl = 1500, sd_port = 8000, count_down = 0, sd_state = RECORD_NORMAL\<rparr>"

lemma sample_strings:
  "service_strings (sample_record ''_a'') [str ''_a'', str ''local''] (str ''dev'') [str ''k=v''] [str ''dev'', str ''local'']"
  by (simp add: service_strings_def sample_record_def plain_def text_char_def)

text \<open>A question for \<open>_a.local\<close>.\<close>

definition sample_header :: bytes where
  "sample_header = [0x12, 0x34, 0, 0, 0, 1, 0, 0, 0, 0, 0, 0]"

lemma length_sample_header [simp]: "length sample_header = 12"
  by (simp add: sample_header_def)

definition sample_question :: bytes where
  "sample_question = sample_header @ labels [str ''_a'', str ''local''] @ 0 # be16 12 @ be16 1"

lemma sample_question_facts:
  "name_at sample_question 12 [str ''_a'', str ''local''] 22"
  "slice sample_question 22 4 = be16 RR_TYPE_PTR @ be16 1" "length sample_question = 26"
  "net16 sample_question 2 = Some 0" "net16 sample_question 4 = Some 1" "raw_id sample_question = Some 0x3412"
proof -
  show "name_at sample_question 12 [str ''_a'', str ''local''] 22"
    using name_at_labels [of "[str ''_a'', str ''local'']" sample_question sample_header "be16 12 @ be16 1"]
    by (simp add: sample_question_def)
  show "slice sample_question 22 4 = be16 RR_TYPE_PTR @ be16 1"
    using slice_mid [of "sample_header @ labels [str ''_a'', str ''local''] @ [0]" 22 4 "be16 12 @ be16 1" "[]"]
    by (simp add: sample_question_def)
  show "length sample_question = 26" by (simp add: sample_question_def)
  show "net16 sample_question 2 = Some 0" "net16 sample_question 4 = Some 1" "raw_id sample_question = Some 0x3412"
    by (simp_all add: sample_question_def sample_header_def net16_def raw_id_def rd_def)
qed

lemma sample_others:
  "r' \<in> set [sample_record ''_b'', sample_record ''_c'', sample_record ''_d''] \<Longrightarrow> other_service [str ''_a'', str ''local''] r'"
  by (auto simp: other_service_def sample_record_def)

theorem ptr_question_answered_witness:
  "(\<exists>m. mdns_handler \<lparr>ip_status = (\<lambda>_. 0xC0A80102), net_status = kNoErr\<rparr> (\<lambda>n. Some (replicate n 0))
      ([] @ sample_record ''_a'' # [sample_record ''_b'', sample_record ''_c'', sample_record ''_d'']) sample_question 26
      = Some [(''224.0.0.251'', m), (''255.255.255.255'', m)] \<and>
    service_message m 0x3412 [str ''_a'', str ''local''] (str ''dev'') [str ''k=v''] [str ''dev'', str ''local'']
      (sd_ttl (sample_record ''_a'')) (sd_port (sample_record ''_a'')) 0xC0A80102) \<and>
   mdns_handler \<lparr>ip_status = (\<lambda>_. 0xC0A80102), net_status = kNoErr\<rparr> (\<lambda>n. Some (replicate n 0))
      ([] @ sample_record ''_a'' # [sample_record ''_b'', empty_record, empty_record]) sample_question 26 = None"
proof -
  let ?env = "\<lparr>ip_status = (\<lambda>_. 0xC0A80102), net_status = kNoErr\<rparr>" and ?m = "\<lambda>n. Some (replicate n (0 :: u8))"
  have e: "int (22 + 4) \<le> 26" "22 + 4 \<le> length sample_question" "(0 :: u16) AND 0x8000 = 0"
    "sd_state (sample_record ''_a'') = RECORD_NORMAL" "ip_status ?env (interface (sample_record ''_a'')) = 0xC0A80102"
    "usable_ip 0xC0A80102" "mallocs ?m" "length (hd [str ''_a'', str ''local'']) \<le> 28"
    by (simp_all add: sample_question_facts(3) sample_record_def usable_ip_def mallocs_def)
  have q: "hd [str ''_a'', str ''local''] \<noteq> take (length (hd [str ''_a'', str ''local''])) SERVICE_QUERY_NAME"
    by (simp add: SERVICE_QUERY_NAME_def)
  note ans = ptr_question_answered [OF sample_question_facts(1) e(1,2) sample_question_facts(2,4) e(3)
      sample_question_facts(5,6) sample_strings e(4,5,6) _ e(8) q e(7)]
  have n: "service_name (sample_record x) \<noteq> None" "service_name empty_record = None" for x
    by (simp_all add: sample_record_def empty_record_def)
  show ?thesis
  proof
    show "\<exists>m. mdns_handler ?env ?m ([] @ sample_record ''_a'' # [sample_record ''_b'', sample_record ''_c'', sample_record ''_d'']) sample_question 26
      = Some [(''224.0.0.251'', m), (''255.255.255.255'', m)] \<and>
      service_message m 0x3412 [str ''_a'', str ''local''] (str ''dev'') [str ''k=v''] [str ''dev'', str ''local'']
        (sd_ttl (sample_record ''_a'')) (sd_port (sample_record ''_a'')) 0xC0A80102"
      using ans [of "[]" "[sample_record ''_b'', sample_record ''_c'', sample_record ''_d'']"] sample_others n by (auto split: if_splits)
    show "mdns_handler ?env ?m ([] @ sample_record ''_a'' # [sample_record ''_b'', empty_record, empty_record]) sample_question 26 = None"
      using ans [of "[]" "[sample_record ''_b'', empty_record, empty_record]"] sample_others [of "sample_record ''_b''"] n
      by (auto split: if_splits)
  qed
qed

end
