(* ===== verification/MdnsTable.thy ===== *)
theory MdnsTable
  imports Mdns
begin

text \<open>
  The table of records of the multicast DNS responder over time: the invariant of all calls and threads
  (\<open>mdns_concurrent\<close>: the threads interleaved with calls that are between their search and their locked part), the
  end of announcing, and what the code loses when calls and the announcing thread interleave or a
  station goes down and up.
\<close>

section \<open>The table of records: lemmas\<close>

text \<open>A record as every call and every thread leaves it.\<close>

definition terminated :: "bytes option \<Rightarrow> bool" where
  "terminated s \<longleftrightarrow> (\<forall>t. s = Some t \<longrightarrow> c_string t \<noteq> None)"

definition record_ok :: "dns_sd_service_record_t \<Rightarrow> bool" where
  "record_ok r \<longleftrightarrow>
     count_down r \<le> 5 \<and>
     terminated (hostname r) \<and> terminated (instance_name r) \<and> terminated (service_name r) \<and> terminated (txt_att r) \<and>
     (sd_state r = RECORD_REMOVED \<longrightarrow>
        instance_name r = None \<and> hostname r = None \<and> service_name r = None \<and> txt_att r = None) \<and>
     (sd_state r = RECORD_UPDATE \<or> sd_state r = RECORD_REMOVE \<longrightarrow> count_down r \<noteq> 0) \<and>
     (sd_state r = RECORD_NORMAL \<or> sd_state r = RECORD_REMOVED \<longrightarrow> count_down r = 0)"

definition table_ok :: "mdns_sys \<Rightarrow> bool" where
  "table_ok s \<longleftrightarrow> length (available_services s) = MAX_RECORD_COUNT \<and> (\<forall>r\<in>set (available_services s). record_ok r) \<and>
     (\<forall>i. announcer s = Scan i \<longrightarrow> i \<le> MAX_RECORD_COUNT)"

fun call_index :: "mdns_call \<Rightarrow> nat" where
  "call_index (Adding ini iface ttl i) = i"
| "call_index (Changing_txt t i) = i"

text \<open>The pending calls have found a record of the table.\<close>

definition calls_ok :: "mdns_call list \<Rightarrow> bool" where
  "calls_ok cs \<longleftrightarrow> (\<forall>c\<in>set cs. call_index c < MAX_RECORD_COUNT)"

lemma record_ok_empty: "record_ok empty_record"
  by (simp add: record_ok_def empty_record_def terminated_def)

lemma is_service_match_state:
  "is_service_match nam iface r = Some True \<Longrightarrow> sd_state r \<noteq> RECORD_REMOVED \<and> sd_state r \<noteq> RECORD_REMOVE"
  by (auto simp: is_service_match_def split: if_splits)

lemma find_record_Some:
  "find_record f k rs = Some i \<Longrightarrow> i = 0xFF \<or> (\<exists>n < length rs. i = k + n \<and> f (rs ! n) = Some True)"
proof (induction rs arbitrary: k)
  case (Cons r rs)
  then show ?case
    by (auto split: if_splits bind_splits) (metis Suc_less_eq add_Suc_right add_Suc nth_Cons_Suc)+
qed simp

lemma c_string_prefix_length:
  "c_string s = Some t \<Longrightarrow> c_string (take (Suc (length t)) s @ u) = Some t"
  by (induction s arbitrary: t) (auto split: if_splits)

lemma strdup_terminated:
  assumes "strdup malloc src = Some d" shows "terminated d"
  unfolding terminated_def
proof (intro allI impI)
  fix b assume b: "d = Some b"
  obtain s n dst where s: "src = Some s" "c_strlen s = Some n" "memcpy dst 0 s 0 (n + 1) = Some b"
    using assms b by (auto simp: strdup_def split: option.splits if_splits bind_splits)
  obtain t where t: "c_string s = Some t" "length t = n" using s(2) by (auto simp: c_strlen_def)
  have "b = take (Suc (length t)) s @ drop (n + 1) dst" using s(3) t(2) by (auto simp: mem_simps slice_def)
  then show "c_string b \<noteq> None" using c_string_prefix_length [OF t(1)] by simp
qed

lemma c_string_append: "0 \<notin> set a \<Longrightarrow> c_string (a @ b) = map_option (append a) (c_string b)"
  by (cases "c_string b"; induction a) auto

lemma instance_text_terminated:
  assumes "instance_text malloc nam = Some b" shows "terminated (Some b)"
proof -
  obtain s t d m where s: "c_string s = Some t" "memcpy d 0 s 0 (length t) = Some m"
    "blit m (length t) [0xC0, 0x0C, 0] = Some b"
    using assms by (auto simp: instance_text_def c_strlen_def split: bind_splits)
  have "0 \<notin> set t" using c_string_SomeD [OF s(1)] by blast
  moreover have "take (length t) s = t" using c_string_SomeD [OF s(1)] by auto
  then have "b = t @ [0xC0, 0x0C, 0] @ drop (length t + 3) m"
    using s(2,3) by (auto simp: mem_simps slice_def)
  ultimately show ?thesis by (simp add: terminated_def c_string_append)
qed

section \<open>The calls keep the table well formed\<close>

lemma start_announcing_ok: "table_ok s \<Longrightarrow> table_ok (start_announcing s)"
  by (auto simp: start_announcing_def table_ok_def)

lemma table_ok_update: "table_ok s \<Longrightarrow> record_ok r \<Longrightarrow> table_ok (s\<lparr>available_services := (available_services s)[i := r]\<rparr>)"
  by (auto simp: table_ok_def dest: set_update_subset_insert [THEN subsetD])

lemma start_bonjour_service_ok:
  "start_bonjour_service env malloc s = (err, s') \<Longrightarrow> table_ok s \<Longrightarrow> table_ok s'"
  by (auto simp: start_bonjour_service_def table_ok_def Let_def record_ok_empty split: option.splits if_splits)

lemma mdns_add_search_ok:
  assumes "mdns_add_search env malloc ini iface s = Some (err, i, s')" and "table_ok s"
  shows "table_ok s' \<and> (err = kNoErr \<longrightarrow> i < MAX_RECORD_COUNT)"
proof -
  obtain e s1 where 1: "(if bonjour_instance s then (kNoErr, s) else start_bonjour_service env malloc s) = (e, s1)"
    by (meson surj_pair)
  then have "table_ok s1"
    using assms(2) start_bonjour_service_ok by (auto split: if_splits)
  then show ?thesis
    using assms(1) unfolding mdns_add_search_def 1 by (auto simp: table_ok_def split: if_splits bind_splits)
qed

lemma locked_part_ok:
  assumes "locked_part malloc c s = Some s'" and "table_ok s" and "call_index c < MAX_RECORD_COUNT"
  shows "table_ok s'"
proof (cases c)
  case (Adding ini iface ttl i)
  then show ?thesis
    using assms(1,2)
    by (auto simp: mdns_add_locked_def Let_def split: bind_splits intro!: start_announcing_ok table_ok_update)
      (auto simp: record_ok_def dest!: strdup_terminated instance_text_terminated)
next
  case (Changing_txt t i)
  then obtain d where d: "strdup malloc t = Some d" "s' = start_announcing (s\<lparr>available_services := (available_services s)
       [i := (available_services s ! i)\<lparr>txt_att := d, sd_state := RECORD_UPDATE, count_down := 5\<rparr>]\<rparr>)"
    using assms(1) by (auto simp: mdns_txt_locked_def Let_def split: bind_splits)
  have "record_ok (available_services s ! i)" using assms(2,3) Changing_txt by (auto simp: table_ok_def)
  then have "record_ok ((available_services s ! i)\<lparr>txt_att := d, sd_state := RECORD_UPDATE, count_down := 5\<rparr>)"
    using strdup_terminated [OF d(1)] by (auto simp: record_ok_def)
  then show ?thesis unfolding d(2) by (intro start_announcing_ok table_ok_update assms(2))
qed

lemma mdns_txt_search_ok:
  "mdns_txt_search nam iface s = Some i \<Longrightarrow> table_ok s \<Longrightarrow> i \<noteq> 0xFF \<Longrightarrow> i < MAX_RECORD_COUNT"
  using find_record_Some [of "is_service_match nam iface" 0 "available_services s" i]
  by (auto simp: mdns_txt_search_def find_record_by_service_def table_ok_def split: if_splits)

lemma record_ok_count:
  "record_ok r \<Longrightarrow> sd_state r \<noteq> RECORD_REMOVED \<Longrightarrow> st \<noteq> RECORD_REMOVED \<Longrightarrow> st \<noteq> RECORD_NORMAL \<Longrightarrow>
     record_ok (r\<lparr>sd_state := st, count_down := 5\<rparr>)"
  by (auto simp: record_ok_def)

lemma suspend_loop_ok:
  "suspend_loop nam iface w rs = Some (found, rs') \<Longrightarrow> \<forall>r\<in>set rs. record_ok r \<Longrightarrow>
     length rs' = length rs \<and> (\<forall>r\<in>set rs'. record_ok r)"
proof (induction rs arbitrary: found rs')
  case (Cons r rs)
  then obtain m f rs1 where 1: "is_service_match nam iface r = Some m" "suspend_loop nam iface w rs = Some (f, rs1)"
    by (auto split: bind_splits)
  then have "length rs1 = length rs \<and> (\<forall>r\<in>set rs1. record_ok r)" using Cons by auto
  then show ?case using Cons.prems 1 is_service_match_state [of nam iface r]
    by (cases m) (auto simp: Let_def intro: record_ok_count split: if_splits)
qed simp

lemma resume_loop_ok:
  "resume_loop nam iface rs = Some (found, rs') \<Longrightarrow> \<forall>r\<in>set rs. record_ok r \<Longrightarrow>
     length rs' = length rs \<and> (\<forall>r\<in>set rs'. record_ok r)"
proof (induction rs arbitrary: found rs')
  case (Cons r rs)
  then obtain m where m: "is_service_match nam iface r = Some m" by (auto split: bind_splits)
  show ?case
  proof (cases m)
    case True
    then obtain f rs1 where 1: "resume_loop nam iface rs = Some (f, rs1)" "rs' = r\<lparr>sd_state := RECORD_UPDATE, count_down := 5\<rparr> # rs1"
      using Cons.prems(1) m by (auto split: bind_splits)
    then show ?thesis using Cons m True is_service_match_state [of nam iface r] by (auto intro: record_ok_count)
  qed (use Cons.prems m in auto)
qed simp

lemma call_step_ok:
  "call_step env malloc cs s cs' s' \<Longrightarrow> table_ok s \<and> calls_ok cs \<Longrightarrow> table_ok s' \<and> calls_ok cs'"
proof (induction rule: call_step.induct)
  case (add_search ini iface s err i s' cs ttl)
  then show ?case using mdns_add_search_ok [OF add_search.hyps] by (auto simp: calls_ok_def)
next
  case (txt_search nam iface s i cs t)
  then show ?case using mdns_txt_search_ok [OF txt_search.hyps] by (auto simp: calls_ok_def)
next
  case (locked c s s' cs ds)
  then show ?case using locked_part_ok [OF locked.hyps] by (auto simp: calls_ok_def)
next
  case (suspend nam iface w s s')
  then show ?case
    by (auto simp: mdns_suspend_record_def Let_def split: if_splits bind_splits intro!: start_announcing_ok)
      (auto simp: table_ok_def dest!: suspend_loop_ok)
next
  case (resume nam iface s s')
  then show ?case
    by (auto simp: mdns_resume_record_def Let_def split: if_splits bind_splits intro!: start_announcing_ok)
      (auto simp: table_ok_def dest!: resume_loop_ok)
qed

section \<open>The threads\<close>

text \<open>What an update makes of a record.\<close>

definition updated :: "dns_sd_service_record_t \<Rightarrow> dns_sd_service_record_t" where
  "updated r =
     (case sd_state r of
        RECORD_REMOVE \<Rightarrow> let r = r\<lparr>count_down := count_down r - 1\<rparr> in
          if count_down r = 0 then (clean_record_resource r)\<lparr>sd_state := RECORD_REMOVED\<rparr> else r
      | RECORD_SUSPEND \<Rightarrow> if count_down r \<noteq> 0 then r\<lparr>count_down := count_down r - 1\<rparr> else r
      | RECORD_UPDATE \<Rightarrow> let r = r\<lparr>count_down := count_down r - 1\<rparr> in
          if count_down r = 0 then r\<lparr>sd_state := RECORD_NORMAL\<rparr> else r
      | _ \<Rightarrow> r)"

lemma update_record_updated: "update_record env malloc n r = Some (r', ds) \<Longrightarrow> r' = updated r"
  by (auto simp: update_record_def updated_def Let_def
    split: mdns_record_state_t.splits if_splits bind_splits)

lemma update_records_updated: "update_records env malloc n rs = Some (rs', ds) \<Longrightarrow> rs' = map updated rs"
  by (induction rs arbitrary: rs' ds) (auto split: bind_splits dest: update_record_updated)

lemma count_down_less: "(c :: u8) \<noteq> 0 \<Longrightarrow> c \<le> 5 \<Longrightarrow> c - 1 \<le> 5"
  by (simp add: word_le_nat_alt unat_minus_one)

lemma updated_ok: "record_ok r \<Longrightarrow> record_ok (updated r)"
  using count_down_less [of "count_down r"]
  by (cases "sd_state r") (auto simp: record_ok_def updated_def Let_def clean_record_resource_def terminated_def)

lemma bonjour_receive_services:
  "bonjour_receive env malloc d s = Some (s', ds) \<Longrightarrow>
     available_services s' = available_services s \<and> announcer s' = announcer s \<and> update_sem s' = update_sem s"
  by (auto simp: bonjour_receive_def Let_def split: option.splits)

lemma thread_step_services:
  "thread_step env malloc s n s' \<Longrightarrow> available_services s' = map (updated ^^ n) (available_services s)"
  by (induction rule: thread_step.induct)
    (auto simp: bonjour_update_def split: bind_splits dest: update_records_updated bonjour_receive_services)

lemma thread_step_ok: "thread_step env malloc s n s' \<Longrightarrow> table_ok s \<Longrightarrow> table_ok s'"
proof (induction rule: thread_step.induct)
  case (scan_next s i)
  then show ?case by (auto simp: table_ok_def)
next
  case (update s s' ds)
  then have "available_services s' = map updated (available_services s)" "announcer s' = announcer s"
    by (auto simp: bonjour_update_def split: bind_splits dest: update_records_updated)
  then show ?case using update.prems updated_ok by (auto simp: table_ok_def)
next
  case (receive s d s' ds)
  then show ?case using bonjour_receive_services [OF receive.hyps(2)] by (simp add: table_ok_def)
qed (auto simp: table_ok_def)

lemma concurrent_ok: "mdns_concurrent env malloc cs s \<Longrightarrow> table_ok s \<and> calls_ok cs"
proof (induction rule: mdns_concurrent.induct)
  case at_start
  show ?case using record_ok_empty by (auto simp: table_ok_def mdns_start_def calls_ok_def)
qed (auto dest: thread_step_ok call_step_ok)

lemma reachable_table: "mdns_reachable env malloc s \<Longrightarrow> table_ok s"
  using concurrent_ok by (auto simp: mdns_reachable_def)

text \<open>A record without a service name is never sent.\<close>

lemma update_nameless_record:
  assumes "r \<in> set rs" and "service_name r = None" and "sd_state r = RECORD_UPDATE" and "malloc 512 = Some b"
  shows "update_records env malloc n rs = None"
  using assms(1)
proof (induction rs)
  case (Cons x rs)
  have "write_rdata RR_TYPE_PTR (Rd_bytes (service_name r)) it = None" for it
    using assms(2) by (simp add: dns_write_name_def dns_write_string_def)
  then have "bonjour_send_record env malloc n r = None"
    using assms(3,4) by (auto simp: bonjour_send_record_def Let_def respond_def dns_create_message_def dns_write_record_def
        split: bind_splits)
  then have "update_record env malloc n r = None" using assms(3) by (simp add: update_record_def)
  then show ?case using Cons by (cases "update_record env malloc n x") auto
qed simp

lemma txt_revives_removed:
  assumes "table_ok s" and "calls_ok (cs @ Changing_txt t i # ds)" and "sd_state (available_services s ! i) = RECORD_REMOVED"
    and "strdup malloc t = Some d" and "malloc 512 = Some b"
  shows "\<exists>s'. call_step env malloc (cs @ Changing_txt t i # ds) s (cs @ ds) s' \<and>
    sd_state (available_services s' ! i) = RECORD_UPDATE \<and> service_name (available_services s' ! i) = None \<and>
    bonjour_update env malloc s' = None"
proof -
  have i: "i < length (available_services s)" using assms(1,2) by (simp add: table_ok_def calls_ok_def)
  then have ok: "record_ok (available_services s ! i)" using assms(1) by (simp add: table_ok_def)
  let ?r = "(available_services s ! i)\<lparr>txt_att := d, sd_state := RECORD_UPDATE, count_down := 5\<rparr>"
  define s' where "s' = start_announcing (s\<lparr>available_services := (available_services s)[i := ?r]\<rparr>)"
  have "locked_part malloc (Changing_txt t i) s = Some s'"
    using assms(4) by (simp add: mdns_txt_locked_def s'_def Let_def)
  note step = call_step.locked [where env = env, OF this, of cs ds]
  have a: "available_services s' = (available_services s)[i := ?r]" by (simp add: s'_def start_announcing_def)
  have n: "service_name ?r = None" using ok assms(3) by (simp add: record_ok_def)
  have "?r \<in> set (available_services s')" unfolding a using i by (rule set_update_memI)
  then have "bonjour_update env malloc s' = None"
    using update_nameless_record [of ?r _ malloc b] n assms(5) by (simp add: bonjour_update_def)
  then show ?thesis using step a i n by auto
qed

text \<open>
  C25. In every state that the threads and any number of calls reach, in whatever order their steps come - a call to add a
  record or to change a text searches before it has the mutex and changes the record after that -, the table of
  records is well formed: it has four records with count-downs of at most 5; a record that is announced or
  withdrawn has a positive one, so that the decrement does not wrap around, a record at rest has none; all strings are terminated; and a
  removed record has no string. The converse fails: when a record is removed between the search and the locked part
  of \<open>mdns_update_txt_record\<close>, the call makes it a record to be announced that has no service name, and the responder faults
  when it announces it (unless \<open>malloc\<close> fails). The search and starting the service are one step each.
\<close>

theorem mdns_table_well_formed:
  assumes "mdns_concurrent env malloc cs s"
  shows "length (available_services s) = MAX_RECORD_COUNT \<and> list_all record_ok (available_services s) \<and>
    (\<forall>cs1 t i cs2 d b. cs = cs1 @ Changing_txt t i # cs2 \<and> sd_state (available_services s ! i) = RECORD_REMOVED \<and>
        strdup malloc t = Some d \<and> malloc 512 = Some b \<longrightarrow>
      (\<exists>s'. call_step env malloc cs s (cs1 @ cs2) s' \<and>
         sd_state (available_services s' ! i) = RECORD_UPDATE \<and> service_name (available_services s' ! i) = None \<and>
         bonjour_update env malloc s' = None))"
  using concurrent_ok [OF assms] txt_revives_removed [of s _ _ _ _ malloc]
  by (auto simp: table_ok_def list_all_iff)

text \<open>What announcing a record ends in.\<close>

definition settled :: "dns_sd_service_record_t \<Rightarrow> dns_sd_service_record_t" where
  "settled r =
     (case sd_state r of
        RECORD_UPDATE \<Rightarrow> r\<lparr>sd_state := RECORD_NORMAL, count_down := 0\<rparr>
      | RECORD_REMOVE \<Rightarrow> (clean_record_resource r)\<lparr>sd_state := RECORD_REMOVED, count_down := 0\<rparr>
      | RECORD_SUSPEND \<Rightarrow> r\<lparr>count_down := 0\<rparr>
      | _ \<Rightarrow> r)"

lemma settled_not_pending: "record_ok r \<Longrightarrow> \<not> pending (settled r)"
  by (cases "sd_state r") (auto simp: settled_def pending_def record_ok_def)

lemma settled_idle: "record_ok r \<Longrightarrow> \<not> pending r \<Longrightarrow> settled r = r"
  by (cases "sd_state r") (auto simp: settled_def pending_def record_ok_def)

lemma settled_updated: "record_ok r \<Longrightarrow> settled (updated r) = settled r"
  by (cases "sd_state r") (auto simp: settled_def updated_def Let_def record_ok_def clean_record_resource_def)

lemma updated_settled_eq: "record_ok r \<Longrightarrow> count_down r = 0 \<Longrightarrow> updated r = r \<and> settled r = r"
  by (cases "sd_state r") (auto simp: settled_def updated_def record_ok_def)

lemma updated_count: "record_ok r \<Longrightarrow> unat (count_down (updated r)) = unat (count_down r) - 1"
proof (cases "count_down r = 0")
  case False
  then have "unat (count_down r - 1) = unat (count_down r) - 1" by (rule unat_minus_one)
  then show "record_ok r \<Longrightarrow> ?thesis" using False
    by (cases "sd_state r") (auto simp: updated_def Let_def record_ok_def clean_record_resource_def)
qed (simp add: updated_settled_eq)

lemma updates_settle:
  assumes "record_ok r" and "unat (count_down r) \<le> n"
  shows "(updated ^^ n) r = settled r"
  using assms
proof (induction n arbitrary: r)
  case 0
  then show ?case using updated_settled_eq [of r] by (simp add: unat_eq_0)
next
  case (Suc n)
  have "(updated ^^ n) (updated r) = settled (updated r)"
    using Suc.prems updated_count [of r] updated_ok [of r] by (intro Suc.IH) auto
  then show ?case using settled_updated [OF Suc.prems(1)] by (simp add: funpow_swap1)
qed

lemma thread_run_services:
  "thread_run env malloc s n s' \<Longrightarrow> available_services s' = map (updated ^^ n) (available_services s)"
proof (induction rule: thread_run.induct)
  case (run_step s m s' n s'')
  then show ?case using thread_step_services [OF run_step.hyps(1)] by (simp add: add.commute [of m n] funpow_add)
qed simp

lemma run_settles:
  assumes "table_ok s" and "thread_run env malloc s n s'" and "5 \<le> n"
  shows "available_services s' = map settled (available_services s)"
proof -
  have "(updated ^^ n) r = settled r" if "r \<in> set (available_services s)" for r
  proof -
    have ok: "record_ok r" using assms(1) that by (simp add: table_ok_def)
    then have "unat (count_down r) \<le> 5" by (auto simp: record_ok_def word_le_nat_alt)
    then show ?thesis using updates_settle [OF ok] assms(3) by simp
  qed
  then show ?thesis using thread_run_services [OF assms(2)] by simp
qed

text \<open>A record that can be sent.\<close>

definition sendable :: "dns_sd_service_record_t \<Rightarrow> bool" where
  "sendable r \<longleftrightarrow> sd_state r = RECORD_REMOVED \<or> sd_state r = RECORD_NORMAL \<or>
     (\<exists>svc inst items host. service_strings r svc inst items host)"

lemma sendable_updated: "sendable r \<Longrightarrow> sendable (updated r)"
  by (cases "sd_state r") (auto simp: sendable_def updated_def Let_def service_strings_def)

lemma writes_query_name: "writes (dns_write_name (Some SERVICE_QUERY_NAME)) (host_bytes [str ''_services'', str ''_dns-sd'', str ''_udp'', str ''local''])"
  unfolding query_name_text by (intro writes_name plain_labels(1)) (simp add: plain_def)

lemma bonjour_send_record_total:
  assumes "service_strings r svc inst items host" and "mallocs malloc"
  shows "\<exists>ds. bonjour_send_record env malloc n r = Some ds"
proof -
  obtain b where b: "malloc 512 = Some b" "length b = 512" using mallocsD [OF assms(2), of 512] by auto
  note raw = assms(1) [unfolded service_strings_def]
  obtain u where u: "service_name r = Some (dotted svc @ 0 # u)" using raw by blast
  have svc: "\<forall>l\<in>set svc. l \<noteq> [] \<and> length l < 64 \<and> (\<forall>c\<in>set l. plain c)" using raw by blast
  have le: "length (dotted svc) \<le> 434" using raw by linarith
  have S: "writes (dns_write_string (service_name r)) (host_bytes svc)" unfolding u using svc by (rule plain_labels(1))
  have len: "length (host_bytes svc) < 65536" using plain_labels(2) [OF svc] le by simp
  let ?q = "host_bytes [str ''_services'', str ''_dns-sd'', str ''_udp'', str ''local'']"
  have w: "writes (dns_write_record (Some SERVICE_QUERY_NAME) RR_CLASS_IN RR_TYPE_PTR 1500 (Rd_bytes (service_name r)))
      (?q @ be16 RR_TYPE_PTR @ be16 RR_CLASS_IN @ be32 1500 @ be16 (of_nat (length (host_bytes svc))) @ host_bytes svc)"
    by (rule writes_record [OF writes_query_name writes_rdata_name [OF disjI1 [OF refl] S] len])
  have "\<exists>ds. respond malloc 512 0 4 (write_service r ttl (be32 ip)) = Some (Some ds)" for ttl ip
    using respond_service [OF assms(1), of malloc b 0 ttl ip] b by blast
  then obtain g where "respond malloc 512 0 4 (write_service r ttl (be32 ip)) = Some (Some (g ttl ip))" for ttl ip
    by metis
  moreover have "\<exists>ds. respond malloc 512 0 (of_nat n)
      (dns_write_record (Some SERVICE_QUERY_NAME) RR_CLASS_IN RR_TYPE_PTR 1500 (Rd_bytes (service_name r))) = Some (Some ds)"
    using respond_writes [OF w, of malloc 512 b 0 "of_nat n"] b le plain_labels(2) [OF svc] by (simp add: host_bytes_def)
  ultimately show ?thesis unfolding bonjour_send_record_def Let_def by auto
qed

lemma update_record_total:
  assumes "sendable r" and "mallocs malloc"
  shows "\<exists>r' ds. update_record env malloc n r = Some (r', ds)"
proof (cases "sd_state r = RECORD_REMOVED \<or> sd_state r = RECORD_NORMAL")
  case True
  then show ?thesis by (auto simp: update_record_def)
next
  case False
  then obtain svc inst items host where "service_strings r svc inst items host" using assms(1) by (auto simp: sendable_def)
  then obtain ds where "bonjour_send_record env malloc n r = Some ds" using bonjour_send_record_total assms(2) by blast
  then show ?thesis using False by (cases "sd_state r") (auto simp: update_record_def Let_def)
qed

lemma update_records_total:
  "\<forall>r\<in>set rs. sendable r \<Longrightarrow> mallocs malloc \<Longrightarrow> \<exists>rs' ds. update_records env malloc n rs = Some (rs', ds)"
proof (induction rs)
  case (Cons r rs)
  then show ?case using update_record_total [of r malloc env n] by auto
qed simp

lemma thread_run_trans:
  "thread_run env malloc s n s' \<Longrightarrow> thread_run env malloc s' m s'' \<Longrightarrow> thread_run env malloc s (n + m) s''"
  by (induction rule: thread_run.induct) (auto intro: thread_run.run_step simp: add.assoc)

lemma thread_run_one: "thread_step env malloc s n s' \<Longrightarrow> thread_run env malloc s n s'"
  using thread_run.run_step [OF _ thread_run.run_none] by fastforce

text \<open>A pass of the announcing thread: up to a pending record, or to its end.\<close>

lemma scan_to:
  assumes "announcer s = Scan 0" and "i \<le> length (available_services s)" and "\<forall>k<i. \<not> pending (available_services s ! k)"
  shows "thread_run env malloc s 0 (s\<lparr>announcer := Scan i\<rparr>)"
  using assms(2,3)
proof (induction i)
  case 0
  have "s\<lparr>announcer := Scan 0\<rparr> = s" using assms(1) by (cases s) simp
  then show ?case using thread_run.run_none [of env malloc s] by simp
next
  case (Suc i)
  have "thread_step env malloc (s\<lparr>announcer := Scan i\<rparr>) 0 (s\<lparr>announcer := Scan i\<rparr>\<lparr>announcer := Scan (i + 1)\<rparr>)"
    using Suc.prems by (intro thread_step.scan_next) auto
  then show ?case using Suc thread_run_trans [of env malloc s 0 _ 0] thread_run_one by fastforce
qed

lemma scan_finds:
  assumes "announcer s = Scan 0" and "\<exists>r\<in>set (available_services s). pending r"
  shows "thread_run env malloc s 0 (s\<lparr>update_sem := True, announcer := Scan 0\<rparr>)"
proof -
  define P where "P i \<longleftrightarrow> i < length (available_services s) \<and> pending (available_services s ! i)" for i
  have "\<exists>i. P i" using assms(2) by (auto simp: in_set_conv_nth P_def)
  then have "P (Least P)" by (rule LeastI_ex)
  moreover define i where "i = Least P"
  ultimately have i: "i < length (available_services s)" "pending (available_services s ! i)" by (simp_all add: P_def)
  have "\<not> P k" if "k < i" for k using that unfolding i_def by (rule not_less_Least)
  then have "\<forall>k<i. \<not> pending (available_services s ! k)" using i(1) by (auto simp: P_def)
  then have "thread_run env malloc s 0 (s\<lparr>announcer := Scan i\<rparr>)" using i(1) by (intro scan_to assms(1)) auto
  moreover have "thread_step env malloc (s\<lparr>announcer := Scan i\<rparr>) 0
      (s\<lparr>announcer := Scan i\<rparr>\<lparr>update_sem := True, announcer := Scan 0\<rparr>)"
    using i by (intro thread_step.scan_hit [where i = i]) simp_all
  ultimately show ?thesis using thread_run_trans [of env malloc s 0 _ 0] thread_run_one by fastforce
qed

lemma scan_leaves:
  assumes "announcer s = Scan 0" and "\<forall>r\<in>set (available_services s). \<not> pending r"
  shows "thread_run env malloc s 0 (s\<lparr>announcer := No_thread\<rparr>)"
proof -
  let ?n = "length (available_services s)"
  have 1: "thread_run env malloc s 0 (s\<lparr>announcer := Scan ?n\<rparr>)" using assms by (intro scan_to) auto
  have 2: "thread_step env malloc (s\<lparr>announcer := Scan ?n\<rparr>) 0 (s\<lparr>announcer := Scan ?n\<rparr>\<lparr>announcer := Leaving\<rparr>)"
    by (intro thread_step.scan_end [where i = ?n]) simp_all
  have 3: "thread_step env malloc (s\<lparr>announcer := Leaving\<rparr>) 0 (s\<lparr>announcer := Leaving\<rparr>\<lparr>announcer := No_thread\<rparr>)"
    by (intro thread_step.leave) simp
  show ?thesis using thread_run_trans [OF 1 thread_run_trans [OF thread_run_one [OF 2]]] thread_run_one [OF 3] by simp
qed

lemma announcing_completes:
  assumes "table_ok s" and "announcer s = Scan 0" and "\<forall>r\<in>set (available_services s). sendable r" and "mallocs malloc"
    and "\<forall>r\<in>set (available_services s). unat (count_down r) \<le> n"
  shows "\<exists>m s'. m \<le> n \<and> thread_run env malloc s m s' \<and> announcer s' = No_thread \<and>
    available_services s' = map settled (available_services s)"
  using assms(1-3,5)
proof (induction n arbitrary: s)
  case 0
  have "\<forall>r\<in>set (available_services s). \<not> pending r \<and> settled r = r"
    using 0 updated_settled_eq by (auto simp: pending_def table_ok_def unat_eq_0)
  then show ?case using scan_leaves [of s env malloc] 0(2)
    by (intro exI [of _ 0] exI [of _ "s\<lparr>announcer := No_thread\<rparr>"]) (simp add: map_idI)
next
  case (Suc n)
  have ok: "\<forall>r\<in>set (available_services s). record_ok r" using Suc.prems(1) by (simp add: table_ok_def)
  show ?case
  proof (cases "\<exists>r\<in>set (available_services s). pending r")
    case False
    have "\<forall>r\<in>set (available_services s). settled r = r"
      using False ok settled_idle by blast
    then show ?thesis using scan_leaves [of s env malloc] Suc.prems(2) False
      by (intro exI [of _ 0] exI [of _ "s\<lparr>announcer := No_thread\<rparr>"]) (simp add: map_idI)
  next
    case True
    let ?s1 = "s\<lparr>update_sem := True, announcer := Scan 0\<rparr>"
    let ?s2 = "?s1\<lparr>available_services := map updated (available_services s), update_sem := False\<rparr>"
    obtain rs ds where "update_records env malloc (length (available_services s)) (available_services s) = Some (rs, ds)"
      using update_records_total Suc.prems(3) assms(4) by blast
    then have "thread_step env malloc ?s1 1 ?s2"
      using update_records_updated by (intro thread_step.update [where ds = ds]) (auto simp: bonjour_update_def)
    then have 1: "thread_run env malloc s 1 ?s2"
      using thread_run_trans [OF scan_finds [OF Suc.prems(2) True] thread_run_one] by simp
    have "\<exists>m s'. m \<le> n \<and> thread_run env malloc ?s2 m s' \<and> announcer s' = No_thread \<and>
        available_services s' = map settled (available_services ?s2)"
    proof (rule Suc.IH)
      show "table_ok ?s2" using Suc.prems(1) updated_ok by (auto simp: table_ok_def)
      show "\<forall>r\<in>set (available_services ?s2). sendable r" using Suc.prems(3) sendable_updated by auto
      show "\<forall>r\<in>set (available_services ?s2). unat (count_down r) \<le> n"
        using Suc.prems(4) updated_count ok by fastforce
    qed simp
    then obtain m s' where 2: "m \<le> n" "thread_run env malloc ?s2 m s'" "announcer s' = No_thread"
      "available_services s' = map settled (map updated (available_services s))" by auto
    have "map settled (map updated (available_services s)) = map settled (available_services s)"
      using settled_updated ok by auto
    then show ?thesis using thread_run_trans [OF 1 2(2)] 2(1,3,4) by (intro exI [of _ "1 + m"] exI [of _ s']) auto
  qed
qed

text \<open>
  C26. Announcing comes to its end. From every reachable state in which the announcing thread starts and all
  records can be sent, the two threads can reach a state, after at most five updates, in which every
  new or changed record is in its normal state, every record that was to be removed is removed and its strings are
  freed, and the announcing thread is gone. And every run of the threads with five updates, whatever the order of their steps, has settled all records in
  this way and left nothing to announce.
\<close>

theorem announcements_end:
  assumes "mdns_reachable env malloc s" and "announcer s = Scan 0" and "mallocs malloc"
    and "\<forall>r\<in>set (available_services s). sendable r"
  shows "(\<exists>n s'. n \<le> 5 \<and> thread_run env malloc s n s' \<and> announcer s' = No_thread \<and>
      available_services s' = map settled (available_services s)) \<and>
    (\<forall>n s'. thread_run env malloc s n s' \<and> 5 \<le> n \<longrightarrow>
      available_services s' = map settled (available_services s) \<and> (\<forall>r\<in>set (available_services s'). \<not> pending r))"
proof -
  have ok: "table_ok s" using assms(1) by (rule reachable_table)
  have "\<forall>r\<in>set (available_services s). unat (count_down r) \<le> 5"
    using ok by (auto simp: table_ok_def record_ok_def word_le_nat_alt)
  note complete = announcing_completes [OF ok assms(2,4,3) this]
  have "\<forall>r\<in>set (map settled (available_services s)). \<not> pending r"
    using ok settled_not_pending by (auto simp: table_ok_def)
  then show ?thesis using complete [of env] run_settles [OF ok] by metis
qed

text \<open>Without the announcing thread and with the semaphore taken, the threads only answer.\<close>

lemma idle_step:
  "thread_step env malloc s n s' \<Longrightarrow> announcer s = No_thread \<Longrightarrow> \<not> update_sem s \<Longrightarrow>
     n = 0 \<and> available_services s' = available_services s \<and> announcer s' = No_thread \<and> \<not> update_sem s'"
  by (induction rule: thread_step.induct) (auto dest: bonjour_receive_services)

lemma idle_run:
  "thread_run env malloc s n s' \<Longrightarrow> announcer s = No_thread \<Longrightarrow> \<not> update_sem s \<Longrightarrow>
     n = 0 \<and> available_services s' = available_services s"
  by (induction rule: thread_run.induct) (auto dest!: idle_step)

text \<open>
  The announcing thread looks at the records without the mutex and clears its handle after the last look. A record
  that a call changes in between is not announced: the call finds the handle and creates no thread,
  the thread leaves, and no run of the threads announces the record afterwards, however long it is.
\<close>

theorem announcement_lost:
  assumes "bonjour_instance s" and "announcer s = Leaving" and "\<not> update_sem s"
    and "find_record_by_service nam iface (available_services s) = Some i" and "i \<noteq> 0xFF"
    and "strdup malloc t = Some d"
  shows "\<exists>s1 s2. mdns_update_txt_record malloc nam iface t s = Some s1 \<and> thread_step env malloc s1 0 s2 \<and>
    i < length (available_services s2) \<and> sd_state (available_services s2 ! i) = RECORD_UPDATE \<and>
    pending (available_services s2 ! i) \<and>
    (\<forall>n s3. thread_run env malloc s2 n s3 \<longrightarrow> n = 0 \<and> available_services s3 = available_services s2)"
proof -
  have i: "i < length (available_services s)"
    using find_record_Some [OF assms(4) [unfolded find_record_by_service_def]] assms(5) by auto
  let ?s1 = "s\<lparr>available_services := (available_services s)
    [i := (available_services s ! i)\<lparr>txt_att := d, sd_state := RECORD_UPDATE, count_down := 5\<rparr>]\<rparr>"
  let ?s2 = "?s1\<lparr>announcer := No_thread\<rparr>"
  have 1: "mdns_update_txt_record malloc nam iface t s = Some ?s1"
    using assms by (simp add: mdns_update_txt_record_def mdns_txt_search_def mdns_txt_locked_def start_announcing_def Let_def)
  have 2: "thread_step env malloc ?s1 0 ?s2" using assms(2) by (intro thread_step.leave) simp
  have 3: "n = 0 \<and> available_services s3 = available_services ?s2" if "thread_run env malloc ?s2 n s3" for n s3
    by (rule idle_run [OF that]) (use assms(3) in simp_all)
  have "i < length (available_services ?s2)" "sd_state (available_services ?s2 ! i) = RECORD_UPDATE"
    "pending (available_services ?s2 ! i)"
    using i by (simp_all add: pending_def)
  then show ?thesis using 1 2 3 by blast
qed

definition of_station :: "dns_sd_service_record_t \<Rightarrow> bool" where
  "of_station r \<longleftrightarrow> sd_state r \<noteq> RECORD_REMOVED \<and> sd_state r \<noteq> RECORD_REMOVE \<and> interface r = Station"

lemma match_station: "is_service_match None Station r = Some (of_station r)"
  by (auto simp: is_service_match_def of_station_def)

lemma suspend_station:
  "\<exists>f. suspend_loop None Station False rs
     = Some (f, map (\<lambda>r. if of_station r then r\<lparr>sd_state := RECORD_SUSPEND, count_down := 5\<rparr> else r) rs)"
proof (induction rs)
  case (Cons r rs)
  then show ?case by (auto simp: match_station) (auto simp: of_station_def)
qed auto

lemma resume_station:
  "\<forall>r\<in>set rs1. of_station r \<Longrightarrow> \<not> of_station r \<Longrightarrow>
     \<exists>f. resume_loop None Station (rs1 @ r # rs2)
       = Some (f, map (\<lambda>r. r\<lparr>sd_state := RECORD_UPDATE, count_down := 5\<rparr>) rs1 @ r # rs2)"
  by (induction rs1) (auto simp: match_station)

text \<open>
  A station that goes down and up again: \<open>mdns_resume_record\<close> stops at the first record that does not match, so
  the records of the station in front of a record of another interface (or a free slot) are announced again and those behind it stay suspended.
\<close>

theorem station_up_resumes_prefix:
  assumes "bonjour_instance s" and "available_services s = rs1 @ r # rs2"
    and "\<forall>r\<in>set rs1. of_station r" and "\<not> of_station r"
  shows "\<exists>s1 s2. BonjourNotify_WifiStatusHandler NOTIFY_STATION_DOWN s = Some s1 \<and>
    BonjourNotify_WifiStatusHandler NOTIFY_STATION_UP s1 = Some s2 \<and>
    available_services s2 = map (\<lambda>r. r\<lparr>sd_state := RECORD_UPDATE, count_down := 5\<rparr>) rs1 @ r #
      map (\<lambda>r. if of_station r then r\<lparr>sd_state := RECORD_SUSPEND, count_down := 5\<rparr> else r) rs2"
proof -
  let ?sus = "\<lambda>r. if of_station r then r\<lparr>sd_state := RECORD_SUSPEND, count_down := 5\<rparr> else r"
  obtain f where 1: "suspend_loop None Station False (rs1 @ r # rs2) = Some (f, map ?sus (rs1 @ r # rs2))"
    using suspend_station by blast
  then have s1: "\<exists>s1. mdns_suspend_record None Station False s = Some s1 \<and> bonjour_instance s1 \<and>
      available_services s1 = map ?sus (rs1 @ r # rs2)"
    using assms(1,2) by (auto simp: mdns_suspend_record_def start_announcing_def Let_def)
  then obtain s1 where s1: "mdns_suspend_record None Station False s = Some s1" "bonjour_instance s1"
    "available_services s1 = map ?sus rs1 @ r # map ?sus rs2"
    using assms(4) by auto
  have "\<forall>r\<in>set (map ?sus rs1). of_station r" using assms(3) by (auto simp: of_station_def)
  then obtain g where "resume_loop None Station (map ?sus rs1 @ r # map ?sus rs2) =
      Some (g, map (\<lambda>r. r\<lparr>sd_state := RECORD_UPDATE, count_down := 5\<rparr>) (map ?sus rs1) @ r # map ?sus rs2)"
    using resume_station [of "map ?sus rs1" r "map ?sus rs2"] assms(4) by blast
  moreover have "map (\<lambda>r. r\<lparr>sd_state := RECORD_UPDATE, count_down := 5\<rparr>) (map ?sus rs1)
      = map (\<lambda>r. r\<lparr>sd_state := RECORD_UPDATE, count_down := 5\<rparr>) rs1"
    by simp
  ultimately have "\<exists>s2. mdns_resume_record None Station s1 = Some s2 \<and>
      available_services s2 = map (\<lambda>r. r\<lparr>sd_state := RECORD_UPDATE, count_down := 5\<rparr>) rs1 @ r # map ?sus rs2"
    using s1(2,3) by (auto simp: mdns_resume_record_def start_announcing_def Let_def)
  then show ?thesis using s1(1) by auto
qed

section \<open>Witnesses for the threads\<close>

definition sample_env :: mdns_env where
  "sample_env = \<lparr>ip_status = (\<lambda>_. 0xC0A80102), net_status = kNoErr\<rparr>"

definition heap :: allocator where
  "heap n = Some (replicate n 0)"

lemma mallocs_heap: "mallocs heap"
  by (simp add: mallocs_def heap_def)

definition sample_init :: mdns_init_t where
  "sample_init = \<lparr>init_service_name = Some (dotted [str ''_a'', str ''local''] @ [0]),
     init_host_name = Some (dotted [str ''dev'', str ''local''] @ [0]), init_instance_name = Some (str ''dev'' @ [0]),
     init_txt_record = Some (dotted_text [str ''k=v''] @ [0]), init_service_port = 8000\<rparr>"

text \<open>The responder after the first record was added.\<close>

definition added_sys :: mdns_sys where
  "added_sys = \<lparr>available_services = (sample_record ''_a'')\<lparr>sd_state := RECORD_UPDATE, count_down := 5\<rparr> # replicate 3 empty_record,
     bonjour_instance = True, announcer = Scan 0, update_sem = False, rx_buf = the (heap 1500)\<rparr>"

lemma strdup_text:
  assumes "0 \<notin> set t" and "t \<noteq> []"
  shows "strdup heap (Some (t @ [0])) = Some (Some (t @ [0]))"
proof -
  have "rd (t @ [0]) 0 = Some (hd t)" "hd t \<noteq> 0" using assms by (cases t; auto simp: rd_def)+
  then show ?thesis using assms
    by (simp add: strdup_def c_strlen_def heap_def memcpy_def blit_def slice_def)
qed

lemma instance_text_sample: "instance_text heap (Some (str ''dev'' @ [0])) = Some (str ''dev'' @ [0xC0, 12, 0])"
  by (simp add: instance_text_def c_strlen_def heap_def memcpy_def blit_def slice_def)

definition started_sys :: mdns_sys where
  "started_sys = mdns_start\<lparr>rx_buf := the (heap 1500), bonjour_instance := True\<rparr>"

lemma search_sample: "mdns_add_search sample_env heap sample_init Station mdns_start = Some (kNoErr, 0, started_sys)"
proof -
  have h: "heap 1500 = Some (the (heap 1500))" by (simp only: heap_def option.sel)
  have s: "start_bonjour_service sample_env heap mdns_start = (kNoErr, started_sys)"
    by (subst start_bonjour_service_def, subst h) (simp add: sample_env_def mdns_start_def started_sys_def)
  have f: "find_record (is_service_match nam Station) k (replicate n empty_record) = Some 0xFF" for nam k n
    by (induction n arbitrary: k) (simp_all add: is_service_match_def empty_record_def)
  have r: "replicate 4 empty_record = empty_record # replicate 3 empty_record" by (simp add: numeral_eq_Suc)
  have f4: "find_record_by_service nam Station (empty_record # replicate 3 empty_record) = Some 0xFF" for nam
    unfolding find_record_by_service_def r [symmetric] by (rule f)
  have e: "find_empty_record (empty_record # replicate 3 empty_record) = Some 0"
    by (simp add: find_empty_record_def empty_record_def)
  have "available_services started_sys = empty_record # replicate 3 empty_record" "\<not> bonjour_instance mdns_start"
    by (simp_all add: started_sys_def mdns_start_def r)
  then show ?thesis unfolding mdns_add_search_def s by (simp add: f4 e)
qed

lemma locked_sample: "mdns_add_locked heap sample_init Station 1500 0 started_sys = Some added_sys"
proof -
  have d: "strdup heap (init_service_name sample_init) = Some (init_service_name sample_init)"
    "strdup heap (init_host_name sample_init) = Some (init_host_name sample_init)"
    "strdup heap (init_txt_record sample_init) = Some (init_txt_record sample_init)"
    unfolding sample_init_def mdns_init_t.simps by (rule strdup_text; simp)+
  have i: "instance_text heap (init_instance_name sample_init) = Some (str ''dev'' @ [0xC0, 12, 0])"
    unfolding sample_init_def mdns_init_t.simps by (rule instance_text_sample)
  have r: "replicate 4 empty_record = empty_record # replicate 3 empty_record" by (simp add: numeral_eq_Suc)
  show ?thesis unfolding mdns_add_locked_def
    by (simp add: d i Let_def start_announcing_def started_sys_def mdns_start_def r added_sys_def)
      (simp add: sample_init_def sample_record_def)
qed

lemma concurrent_added: "mdns_concurrent sample_env heap [] added_sys"
proof -
  have 1: "mdns_concurrent sample_env heap [Adding sample_init Station 1500 0] started_sys"
    using mdns_concurrent.by_call [OF mdns_concurrent.at_start call_step.add_search [OF search_sample, of "[]" 1500]] by simp
  have "locked_part heap (Adding sample_init Station 1500 0) started_sys = Some added_sys" by (simp add: locked_sample)
  from mdns_concurrent.by_call [OF 1, of "[]"] call_step.locked [OF this, of _ "[]" "[]"] show ?thesis by auto
qed

lemma reachable_added: "mdns_reachable sample_env heap added_sys"
  using concurrent_added by (auto simp: mdns_reachable_def)

lemma sample_services_sendable: "\<forall>r\<in>set (available_services added_sys). sendable r"
proof -
  have "service_strings ((sample_record ''_a'')\<lparr>sd_state := RECORD_UPDATE, count_down := 5\<rparr>)
      [str ''_a'', str ''local''] (str ''dev'') [str ''k=v''] [str ''dev'', str ''local'']"
    using sample_strings by (simp add: service_strings_def)
  then show ?thesis unfolding sendable_def added_sys_def by (auto simp: empty_record_def)
qed

text \<open>The added record is withdrawn while a change of its text waits for the mutex.\<close>

definition withdrawn_sys :: mdns_sys where
  "withdrawn_sys = added_sys\<lparr>available_services :=
     (sample_record ''_a'')\<lparr>sd_state := RECORD_REMOVE, count_down := 5\<rparr> # replicate 3 empty_record\<rparr>"

lemma threads_concurrent:
  "thread_run env malloc s n s' \<Longrightarrow> mdns_concurrent env malloc cs s \<Longrightarrow> mdns_concurrent env malloc cs s'"
  by (induction rule: thread_run.induct) (auto intro: mdns_concurrent.by_thread)

lemma concurrent_withdrawn:
  "mdns_concurrent sample_env heap [Changing_txt (Some (str ''k=w.'' @ [0])) 0] withdrawn_sys"
proof -
  define nam where "nam = Some (dotted [str ''_a'', str ''local''] @ [0])"
  have m: "is_service_match nam Station ((sample_record ''_a'')\<lparr>sd_state := RECORD_UPDATE, count_down := 5\<rparr>) = Some True"
    "is_service_match nam Station empty_record = Some False"
    by (simp_all add: nam_def is_service_match_def sample_record_def empty_record_def)
  have t: "mdns_txt_search nam Station added_sys = Some 0"
    by (simp add: mdns_txt_search_def find_record_by_service_def added_sys_def m(1))
  have 1: "mdns_concurrent sample_env heap [Changing_txt (Some (str ''k=w.'' @ [0])) 0] added_sys"
    using mdns_concurrent.by_call [OF concurrent_added call_step.txt_search [OF t, of _ _ "[]"]] by simp
  have r: "replicate 3 empty_record = [empty_record, empty_record, empty_record]" by (simp add: numeral_eq_Suc)
  have "suspend_loop nam Station True (available_services added_sys) =
      Some (True, (sample_record ''_a'')\<lparr>sd_state := RECORD_REMOVE, count_down := 5\<rparr> # replicate 3 empty_record)"
    by (simp add: added_sys_def r m Let_def)
  then have "mdns_suspend_record nam Station True added_sys = Some withdrawn_sys"
    unfolding mdns_suspend_record_def by (simp add: added_sys_def withdrawn_sys_def start_announcing_def Let_def)
  from mdns_concurrent.by_call [OF 1 call_step.suspend [OF this]] show ?thesis .
qed

lemma concurrent_removed:
  "\<exists>s. mdns_concurrent sample_env heap [Changing_txt (Some (str ''k=w.'' @ [0])) 0] s \<and>
    sd_state (available_services s ! 0) = RECORD_REMOVED"
proof -
  have sd: "\<forall>r\<in>set (available_services withdrawn_sys). sendable r"
  proof -
    have "service_strings ((sample_record ''_a'')\<lparr>sd_state := RECORD_REMOVE, count_down := 5\<rparr>)
        [str ''_a'', str ''local''] (str ''dev'') [str ''k=v''] [str ''dev'', str ''local'']"
      using sample_strings by (simp add: service_strings_def)
    then show ?thesis unfolding sendable_def withdrawn_sys_def by (auto simp: empty_record_def)
  qed
  have ok: "table_ok withdrawn_sys" using concurrent_ok [OF concurrent_withdrawn] by blast
  have "\<forall>r\<in>set (available_services withdrawn_sys). unat (count_down r) \<le> 5"
    using ok by (auto simp: table_ok_def record_ok_def word_le_nat_alt)
  moreover have "announcer withdrawn_sys = Scan 0" by (simp add: withdrawn_sys_def added_sys_def)
  ultimately obtain n s where s: "thread_run sample_env heap withdrawn_sys n s"
    "available_services s = map settled (available_services withdrawn_sys)"
    using announcing_completes [OF ok _ sd mallocs_heap, of 5 sample_env] by blast
  have "sd_state (available_services s ! 0) = RECORD_REMOVED"
    unfolding s(2) by (simp add: withdrawn_sys_def settled_def)
  then show ?thesis using threads_concurrent [OF s(1) concurrent_withdrawn] by blast
qed

theorem mdns_table_well_formed_witness:
  "length (available_services added_sys) = MAX_RECORD_COUNT \<and> list_all record_ok (available_services added_sys) \<and>
   (\<exists>s s'. mdns_concurrent sample_env heap [Changing_txt (Some (str ''k=w.'' @ [0])) 0] s \<and>
      call_step sample_env heap [Changing_txt (Some (str ''k=w.'' @ [0])) 0] s [] s' \<and>
      sd_state (available_services s' ! 0) = RECORD_UPDATE \<and> bonjour_update sample_env heap s' = None)"
proof -
  obtain s where s: "mdns_concurrent sample_env heap [Changing_txt (Some (str ''k=w.'' @ [0])) 0] s"
    "sd_state (available_services s ! 0) = RECORD_REMOVED"
    using concurrent_removed by blast
  have h: "strdup heap (Some (str ''k=w.'' @ [0])) = Some (Some (str ''k=w.'' @ [0]))" "heap 512 = Some (replicate 512 0)"
    by (rule strdup_text; simp) (simp add: heap_def)
  have race: "\<forall>cs1 t i cs2 d b. [Changing_txt (Some (str ''k=w.'' @ [0])) 0] = cs1 @ Changing_txt t i # cs2 \<and>
      sd_state (available_services s ! i) = RECORD_REMOVED \<and> strdup heap t = Some d \<and> heap 512 = Some b \<longrightarrow>
    (\<exists>s'. call_step sample_env heap [Changing_txt (Some (str ''k=w.'' @ [0])) 0] s (cs1 @ cs2) s' \<and>
       sd_state (available_services s' ! i) = RECORD_UPDATE \<and> service_name (available_services s' ! i) = None \<and>
       bonjour_update sample_env heap s' = None)"
    using mdns_table_well_formed [OF s(1)] by blast
  have "\<exists>s'. call_step sample_env heap [Changing_txt (Some (str ''k=w.'' @ [0])) 0] s ([] @ []) s' \<and>
       sd_state (available_services s' ! 0) = RECORD_UPDATE \<and> service_name (available_services s' ! 0) = None \<and>
       bonjour_update sample_env heap s' = None"
    by (rule race [rule_format]) (use s(2) h in \<open>simp only: append_Nil simp_thms\<close>)
  then show ?thesis using mdns_table_well_formed [OF concurrent_added] s(1) by (simp only: append_Nil) blast
qed

theorem announcements_end_witness:
  "\<exists>n s'. n \<le> 5 \<and> thread_run sample_env heap added_sys n s' \<and> announcer s' = No_thread \<and>
      available_services s' = map settled (available_services added_sys)"
  by (rule announcements_end [THEN conjunct1, OF reachable_added _ mallocs_heap sample_services_sendable]) (simp add: added_sys_def)

definition leaving_sys :: mdns_sys where
  "leaving_sys = \<lparr>available_services = sample_record ''_a'' # replicate 3 empty_record,
     bonjour_instance = True, announcer = Leaving, update_sem = False, rx_buf = []\<rparr>"

theorem announcement_lost_witness:
  "\<exists>s1 s2. mdns_update_txt_record heap (Some (dotted [str ''_a'', str ''local''] @ [0])) Station (Some (str ''k=w.'' @ [0])) leaving_sys
      = Some s1 \<and> thread_step sample_env heap s1 0 s2 \<and>
    0 < length (available_services s2) \<and> sd_state (available_services s2 ! 0) = RECORD_UPDATE \<and>
    pending (available_services s2 ! 0)"
proof -
  have find: "find_record_by_service (Some (dotted [str ''_a'', str ''local''] @ [0])) Station (available_services leaving_sys) = Some 0"
    by (simp add: find_record_by_service_def leaving_sys_def is_service_match_def sample_record_def)
  have dup: "strdup heap (Some (str ''k=w.'' @ [0])) = Some (Some (str ''k=w.'' @ [0]))"
    by (rule strdup_text) simp_all
  show ?thesis
    using announcement_lost [of leaving_sys, OF _ _ _ find _ dup, where env = sample_env]
    by (auto simp: leaving_sys_def)
qed

definition two_interfaces :: mdns_sys where
  "two_interfaces = leaving_sys\<lparr>available_services := [sample_record ''_a'',
     (sample_record ''_b'')\<lparr>interface := Soft_AP\<rparr>, sample_record ''_c'', sample_record ''_d'']\<rparr>"

theorem station_up_resumes_prefix_witness:
  "\<exists>s1 s2. BonjourNotify_WifiStatusHandler NOTIFY_STATION_DOWN two_interfaces = Some s1 \<and>
    BonjourNotify_WifiStatusHandler NOTIFY_STATION_UP s1 = Some s2 \<and>
    available_services s2 = map (\<lambda>r. r\<lparr>sd_state := RECORD_UPDATE, count_down := 5\<rparr>) [sample_record ''_a''] @
      (sample_record ''_b'')\<lparr>interface := Soft_AP\<rparr> #
      map (\<lambda>r. if of_station r then r\<lparr>sd_state := RECORD_SUSPEND, count_down := 5\<rparr> else r)
        [sample_record ''_c'', sample_record ''_d'']"
  by (rule station_up_resumes_prefix) (simp_all add: two_interfaces_def leaving_sys_def of_station_def sample_record_def)

end
