(* ===== verification/CommandConsole.thy ===== *)
theory CommandConsole
  imports MicoFlash HTTPBuild
begin

text \<open>
  The command console, \<open>MICO/system/command_console/mico_cli.c\<close>: the table of commands, the input line with its
  editing and completion, the arguments with quotes and escapes, and the commands of the file. The console reads
  what arrives on the serial line, a byte or a second without one, and writes to it. Commands of other files, the network and
  the reboot are parameters. Addresses of commands are indices, those of the built-in commands first; the arguments of a command are
  the strings behind \<open>argv\<close>.
\<close>

section \<open>State\<close>

abbreviation RET_CHAR :: u8 where "RET_CHAR \<equiv> 0x0A"
abbreviation END_CHAR :: u8 where "END_CHAR \<equiv> 0x0D"
abbreviation MAX_COMMANDS :: nat where "MAX_COMMANDS \<equiv> 50"
abbreviation INBUF_SIZE :: nat where "INBUF_SIZE \<equiv> 80"
abbreviation OUTBUF_SIZE :: nat where "OUTBUF_SIZE \<equiv> 1024"

definition PROMPT :: bytes where "PROMPT = [0x0D, 0x0A, 0x23, 0x20]"
definition EXIT_MSG :: bytes where "EXIT_MSG = str ''exit''"

datatype cli_function =
  Help_command | Get_version | Reboot | Echo_cmd_handler | Cli_exit_handler | Tftp_Command | PartShow_Command |
  Uptime_Command | Ota_Command | Micodebug_Command | Other nat

record cli_command =
  cmd_name :: "bytes option"
  cmd_help :: "bytes option"
  cmd_function :: "cli_function option"

record cli_st =
  bp :: nat
  inbuf :: bytes
  commands :: "nat option list"
  num_commands :: nat
  echo_disabled :: bool

record tftp_file_info_t =
  filename :: bytes
  filelen :: u32
  flashaddr :: u32
  flashtype :: int

text \<open>What the console runs in: the serial line, the switch of the debug output, and all else.\<close>

record 'u cli_sys =
  uart_rx :: "u8 option list"
  uart_tx :: bytes
  mico_debug_enabled :: bool
  outside :: 'u

text \<open>\<open>other_function\<close> is a command of another file: its output and its effect.\<close>

record 'u cli_env =
  user_command :: "nat \<Rightarrow> cli_command"
  other_function :: "nat \<Rightarrow> bytes list \<Rightarrow> 'u \<Rightarrow> bytes \<times> 'u"
  get_time :: "'u \<Rightarrow> u32"
  versions :: "bytes list"
  rf_version :: "int \<times> bytes"
  inet_addr :: "bytes \<Rightarrow> u32"
  tsend :: "tftp_file_info_t \<Rightarrow> u32 \<Rightarrow> 'u \<Rightarrow> 'u"
  tget :: "tftp_file_info_t \<Rightarrow> u32 \<Rightarrow> 'u \<Rightarrow> 'u"
  tftp_ota :: "'u \<Rightarrow> 'u"
  system_reboot :: "'u \<Rightarrow> 'u"

section \<open>Output\<close>

definition cli_putstr :: "bytes \<Rightarrow> 'u cli_sys \<Rightarrow> 'u cli_sys" where
  "cli_putstr msg s = s\<lparr>uart_tx := uart_tx s @ msg\<rparr>"

text \<open>The text is cut to 255 characters, and sent up to a character of value zero.\<close>

definition cli_printf :: "bytes \<Rightarrow> 'u cli_sys \<Rightarrow> 'u cli_sys" where
  "cli_printf text s = cli_putstr (takeWhile (\<lambda>c. c \<noteq> 0) (take 255 text)) s"

text \<open>\<open>cmd_printf\<close>: what a command has printed and the room that is left in its buffer.\<close>

definition cmd_printf :: "bytes \<Rightarrow> bytes \<times> nat \<Rightarrow> bytes \<times> nat" where
  "cmd_printf text w =
     (case w of (out, xWriteBufferLen) \<Rightarrow>
        if xWriteBufferLen > 0
        then (let t = take (xWriteBufferLen - 1) text in (out @ t, xWriteBufferLen - length t)) else w)"

section \<open>The table of commands\<close>

definition built_ins :: "cli_command list" where
  "built_ins =
    [\<lparr>cmd_name = Some (str ''help''), cmd_help = None, cmd_function = Some Help_command\<rparr>,
     \<lparr>cmd_name = Some (str ''version''), cmd_help = None, cmd_function = Some Get_version\<rparr>,
     \<lparr>cmd_name = Some (str ''echo''), cmd_help = None, cmd_function = Some Echo_cmd_handler\<rparr>,
     \<lparr>cmd_name = Some (str ''exit''), cmd_help = Some (str ''CLI exit''), cmd_function = Some Cli_exit_handler\<rparr>,
     \<lparr>cmd_name = Some (str ''scan''), cmd_help = Some (str ''scan ap''), cmd_function = Some (Other 0)\<rparr>,
     \<lparr>cmd_name = Some (str ''wifistate''), cmd_help = Some (str ''Show wifi state''), cmd_function = Some (Other 1)\<rparr>,
     \<lparr>cmd_name = Some (str ''wifidebug''), cmd_help = Some (str ''wifidebug on/off''), cmd_function = Some (Other 2)\<rparr>,
     \<lparr>cmd_name = Some (str ''ifconfig''), cmd_help = Some (str ''Show IP address''), cmd_function = Some (Other 3)\<rparr>,
     \<lparr>cmd_name = Some (str ''arp''), cmd_help = Some (str ''arp show/clean''), cmd_function = Some (Other 4)\<rparr>,
     \<lparr>cmd_name = Some (str ''ping''), cmd_help = Some (str ''ping <ip>''), cmd_function = Some (Other 5)\<rparr>,
     \<lparr>cmd_name = Some (str ''dns''), cmd_help = Some (str ''show/clean/<domain>''), cmd_function = Some (Other 6)\<rparr>,
     \<lparr>cmd_name = Some (str ''sockshow''), cmd_help = Some (str ''Show all sockets''), cmd_function = Some (Other 7)\<rparr>,
     \<lparr>cmd_name = Some (str ''tasklist''), cmd_help = Some (str ''list all thread name status''), cmd_function = Some (Other 8)\<rparr>,
     \<lparr>cmd_name = Some (str ''memshow''), cmd_help = Some (str ''print memory information''), cmd_function = Some (Other 9)\<rparr>,
     \<lparr>cmd_name = Some (str ''memdump''), cmd_help = Some (str ''<addr> <length>''), cmd_function = Some (Other 10)\<rparr>,
     \<lparr>cmd_name = Some (str ''memset''), cmd_help = Some (str ''<addr> <value 1> [<value 2> ... <value n>]''), cmd_function = Some (Other 11)\<rparr>,
     \<lparr>cmd_name = Some (str ''memp''), cmd_help = Some (str ''print memp list''), cmd_function = Some (Other 12)\<rparr>,
     \<lparr>cmd_name = Some (str ''wifidriver''), cmd_help = Some (str ''show wifi driver status''), cmd_function = Some (Other 13)\<rparr>,
     \<lparr>cmd_name = Some (str ''reboot''), cmd_help = Some (str ''reboot MiCO system''), cmd_function = Some Reboot\<rparr>,
     \<lparr>cmd_name = Some (str ''tftp''), cmd_help = Some (str ''tftp''), cmd_function = Some Tftp_Command\<rparr>,
     \<lparr>cmd_name = Some (str ''time''), cmd_help = Some (str ''system time''), cmd_function = Some Uptime_Command\<rparr>,
     \<lparr>cmd_name = Some (str ''ota''), cmd_help = Some (str ''system ota''), cmd_function = Some Ota_Command\<rparr>,
     \<lparr>cmd_name = Some (str ''flash''), cmd_help = Some (str ''Flash memory map''), cmd_function = Some PartShow_Command\<rparr>]"

definition user_clis :: "cli_command list" where
  "user_clis =
    [\<lparr>cmd_name = Some (str ''micodebug''), cmd_help = Some (str ''micodebug on/off''), cmd_function = Some Micodebug_Command\<rparr>]"

definition command_at :: "'u cli_env \<Rightarrow> nat \<Rightarrow> cli_command" where
  "command_at env a =
     (if a < length (built_ins @ user_clis) then (built_ins @ user_clis) ! a else user_command env a)"

text \<open>The place of an address among the first \<open>n\<close> entries.\<close>

fun find_command :: "nat option list \<Rightarrow> nat \<Rightarrow> nat \<Rightarrow> nat \<Rightarrow> nat option" where
  "find_command [] n a i = None"
| "find_command (c # cs) n a i = (if n \<le> i then None else if c = Some a then Some i else find_command cs n a (i + 1))"

definition cli_register_command :: "'u cli_env \<Rightarrow> nat \<Rightarrow> cli_st \<Rightarrow> int \<times> cli_st" where
  "cli_register_command env a p =
     (if cmd_name (command_at env a) = None \<or> cmd_function (command_at env a) = None then (1, p)
      else if num_commands p < MAX_COMMANDS then
        (if find_command (commands p) (num_commands p) a 0 \<noteq> None then (0, p)
         else (0, p\<lparr>commands := (commands p)[num_commands p := Some a], num_commands := num_commands p + 1\<rparr>))
      else (1, p))"

definition cli_unregister_command :: "'u cli_env \<Rightarrow> nat \<Rightarrow> cli_st \<Rightarrow> int \<times> cli_st" where
  "cli_unregister_command env a p =
     (if cmd_name (command_at env a) = None \<or> cmd_function (command_at env a) = None then (1, p)
      else (case find_command (commands p) (num_commands p) a 0 of
          None \<Rightarrow> (1, p)
        | Some i \<Rightarrow>
            (let n = num_commands p - 1; remaining_cmds = n - i;
                 moved = (if remaining_cmds > 0
                   then take i (commands p) @ slice (commands p) (i + 1) remaining_cmds @ drop (i + remaining_cmds) (commands p)
                   else commands p) in
             (0, p\<lparr>commands := moved[n := None], num_commands := n\<rparr>))))"

fun cli_register_commands :: "'u cli_env \<Rightarrow> nat \<Rightarrow> nat \<Rightarrow> cli_st \<Rightarrow> int \<times> cli_st" where
  "cli_register_commands env a 0 p = (0, p)"
| "cli_register_commands env a (Suc n) p =
     (case cli_register_command env a p of (r, p) \<Rightarrow> if r \<noteq> 0 then (1, p) else cli_register_commands env (a + 1) n p)"

fun cli_unregister_commands :: "'u cli_env \<Rightarrow> nat \<Rightarrow> nat \<Rightarrow> cli_st \<Rightarrow> int \<times> cli_st" where
  "cli_unregister_commands env a 0 p = (0, p)"
| "cli_unregister_commands env a (Suc n) p =
     (case cli_unregister_command env a p of (r, p) \<Rightarrow> if r \<noteq> 0 then (1, p) else cli_unregister_commands env (a + 1) n p)"

text \<open>\<open>strncmp\<close> and \<open>strcmp\<close> of two strings, for equality. An entry that is null is a fault.\<close>

definition strncmp_equal :: "bytes \<Rightarrow> bytes \<Rightarrow> nat \<Rightarrow> bool" where
  "strncmp_equal a b n \<longleftrightarrow> take n a = take n b"

fun lookup_loop :: "'u cli_env \<Rightarrow> nat option list \<Rightarrow> nat \<Rightarrow> bytes \<Rightarrow> nat \<Rightarrow> nat option option" where
  "lookup_loop env [] left name n = Some None"
| "lookup_loop env (c # cs) left name n =
     (if left = 0 then Some None
      else (case c of None \<Rightarrow> None
        | Some a \<Rightarrow> (case cmd_name (command_at env a) of
            None \<Rightarrow> lookup_loop env cs left name n
          | Some s \<Rightarrow>
              if (if n \<noteq> 0 then strncmp_equal s name n else s = name) then Some (Some a)
              else lookup_loop env cs (left - 1) name n)))"

definition lookup_command :: "'u cli_env \<Rightarrow> cli_st \<Rightarrow> bytes \<Rightarrow> nat \<Rightarrow> nat option option" where
  "lookup_command env p name n = lookup_loop env (commands p) (num_commands p) name n"

text \<open>The commands with a name, for the list of the help and for completion.\<close>

fun named_commands :: "'u cli_env \<Rightarrow> nat option list \<Rightarrow> nat \<Rightarrow> (bytes \<times> bytes option) list option" where
  "named_commands env [] left = Some []"
| "named_commands env (c # cs) left =
     (if left = 0 then Some []
      else (case c of None \<Rightarrow> None
        | Some a \<Rightarrow> (case cmd_name (command_at env a) of
            None \<Rightarrow> named_commands env cs left
          | Some s \<Rightarrow> map_option (Cons (s, cmd_help (command_at env a))) (named_commands env cs (left - 1)))))"

section \<open>The commands of the file\<close>

definition help_command :: "'u cli_env \<Rightarrow> cli_st \<Rightarrow> bytes option" where
  "help_command env p =
     map_option (\<lambda>cs. fst (fold (\<lambda>(nam, h). cmd_printf (nam @ str '': '' @ (case h of None \<Rightarrow> [] | Some t \<Rightarrow> t) @ CRLF)) cs
         (cmd_printf CRLF ([], OUTBUF_SIZE))))
       (named_commands env (commands p) (num_commands p))"

text \<open>\<open>versions\<close>: module, hardware, manufacturer, kernel, MiCO, firmware, application, boot loader.\<close>

definition get_version :: "'u cli_env \<Rightarrow> bytes" where
  "get_version env =
     fst (cmd_printf (case rf_version env of (ret, ver) \<Rightarrow>
           if ret = 0 then str ''WIFI version: '' @ ver @ CRLF
           else str ''Can't get WIFI version, return '' @ fmt_d ret @ CRLF)
       (fold (\<lambda>(title, v). cmd_printf (title @ v @ CRLF))
         (zip [str ''Product module: '', str ''Hardware version: '', str ''Manufacture: '', str ''Kernel version: '',
               str ''MiCO version: '', str ''Firmware version: '', str ''Application info: '', str ''Bootloader version: '']
            (versions env))
         ([], OUTBUF_SIZE)))"

definition echo_cmd_handler :: "bytes list \<Rightarrow> cli_st \<Rightarrow> bytes \<times> cli_st" where
  "echo_cmd_handler argv p =
     (case argv of
        _ # a # _ \<Rightarrow>
          if map tolower a = str ''on'' then (fst (cmd_printf (str ''Enable echo'' @ CRLF) ([], OUTBUF_SIZE)), p\<lparr>echo_disabled := False\<rparr>)
          else if map tolower a = str ''off'' then (fst (cmd_printf (str ''Disable echo'' @ CRLF) ([], OUTBUF_SIZE)), p\<lparr>echo_disabled := True\<rparr>)
          else ([], p)
      | _ \<Rightarrow> (fst (cmd_printf (str ''Usage: echo on/off. Echo is currently '' @
                (if echo_disabled p then str ''Disabled'' else str ''Enabled'') @ CRLF) ([], OUTBUF_SIZE)), p))"

definition micodebug_Command :: "bytes list \<Rightarrow> bool \<Rightarrow> bytes \<times> bool" where
  "micodebug_Command argv enabled =
     (case argv of
        _ # a # _ \<Rightarrow>
          if map tolower a = str ''on'' then (fst (cmd_printf (str ''Enable MICO debug'' @ CRLF) ([], OUTBUF_SIZE)), True)
          else if map tolower a = str ''off'' then (fst (cmd_printf (str ''Disable MICO debug'' @ CRLF) ([], OUTBUF_SIZE)), False)
          else ([], enabled)
      | _ \<Rightarrow> (fst (cmd_printf (str ''Usage: micodebug on/off. MICO debug is currently '' @
                (if enabled then str ''Enabled'' else str ''Disabled'') @ CRLF) ([], OUTBUF_SIZE)), enabled))"

text \<open>The unsigned time is printed with \<open>%d\<close>.\<close>

definition uptime_Command :: "u32 \<Rightarrow> bytes" where
  "uptime_Command t = fst (cmd_printf (str ''UP time '' @ fmt_d (sint t) @ str ''ms'' @ CRLF) ([], OUTBUF_SIZE))"

text \<open>The conversions of the C library: digits of a base; \<open>atoi\<close>, undefined beyond an \<open>int\<close>; \<open>strtoul\<close> with base 0.\<close>

definition base_digit :: "nat \<Rightarrow> u8 \<Rightarrow> bool" where
  "base_digit base c \<longleftrightarrow> (case digit_value c of None \<Rightarrow> False | Some d \<Rightarrow> nat d < base)"

definition digits_value :: "nat \<Rightarrow> bytes \<Rightarrow> nat" where
  "digits_value base t = foldl (\<lambda>n c. n * base + nat (the (digit_value c))) 0 (takeWhile (base_digit base) t)"

definition signed_text :: "bytes \<Rightarrow> bool \<times> bytes" where
  "signed_text t =
     (case dropWhile isspace t of
        [] \<Rightarrow> (False, [])
      | c # r \<Rightarrow> if c = 0x2D then (True, r) else if c = 0x2B then (False, r) else (False, c # r))"

definition atoi :: "bytes \<Rightarrow> int option" where
  "atoi t =
     (case signed_text t of (neg, r) \<Rightarrow>
        let n = int (digits_value 10 r); v = (if neg then - n else n) in if - (2 ^ 31) \<le> v \<and> v < 2 ^ 31 then Some v else None)"

definition strtoul :: "bytes \<Rightarrow> u32" where
  "strtoul t =
     (case signed_text t of (neg, r) \<Rightarrow>
        let n = (if take 1 r = [0x30] \<and> (take 1 (drop 1 r) = [0x78] \<or> take 1 (drop 1 r) = [0x58]) \<and> (\<exists>c \<in> set (take 1 (drop 2 r)). base_digit 16 c)
                 then digits_value 16 (drop 2 r)
                 else if take 1 r = [0x30] then digits_value 8 r else digits_value 10 r) in
        if n \<ge> 2 ^ 32 then - 1 else if neg then - of_nat n else of_nat n)"

definition lower_hex :: "u8 \<Rightarrow> u8" where
  "lower_hex d = (if d < 10 then 0x30 + d else 0x61 + (d - 10))"

definition fmt_08x :: "u32 \<Rightarrow> bytes" where
  "fmt_08x v = map (\<lambda>i. lower_hex (ucast (drop_bit (4 * i) v AND 0xF))) (rev [0..<8])"

definition fmt_x :: "u32 \<Rightarrow> bytes" where
  "fmt_x v = (let p = dropWhile ((=) 0x30) (fmt_08x v) in if p = [] then [0x30] else p)"

definition pad_left :: "nat \<Rightarrow> bytes \<Rightarrow> bytes" where
  "pad_left n t = replicate (n - length t) 0x20 @ t"

text \<open>The descriptions of the partitions in the table of the board; the entry that is not mentioned has none, and printing
  it is undefined.\<close>

definition partition_description :: "int \<Rightarrow> bytes option" where
  "partition_description i =
     (if i = MICO_PARTITION_BOOTLOADER then Some (str ''Bootloader'')
      else if i = MICO_PARTITION_APPLICATION then Some (str ''Application'')
      else if i = MICO_PARTITION_RF_FIRMWARE then Some (str ''RF Firmware'')
      else if i = MICO_PARTITION_OTA_TEMP then Some (str ''OTA Storage'')
      else if i = MICO_PARTITION_PARAMETER_1 \<or> i = MICO_PARTITION_PARAMETER_2 then Some (str ''PARAMETER1'')
      else None)"

fun owner_number :: "mico_flash_t \<Rightarrow> int" where
  "owner_number MICO_FLASH_EMBEDDED = 0"
| "owner_number MICO_FLASH_SPI = 1"
| "owner_number MICO_FLASH_MAX = 2"
| "owner_number MICO_FLASH_NONE = 3"

fun show_partitions :: "int list \<Rightarrow> bytes \<times> nat \<Rightarrow> (bytes \<times> nat) option" where
  "show_partitions [] w = Some w"
| "show_partitions (i # is) w = do {
     p \<leftarrow> MicoFlashGetInfo i;
     d \<leftarrow> partition_description i;
     show_partitions is (cmd_printf (pad_left 4 (fmt_d i) @ str '' | '' @ pad_left 11 d @ str '' |  Dev:'' @ fmt_d (owner_number (partition_owner p)) @
       str ''  | 0x'' @ fmt_08x (partition_start_addr p) @ str '' | 0x'' @ fmt_08x (partition_length p) @ str '' |'' @ CRLF) w)
   }"

definition partShow_Command :: "bytes option" where
  "partShow_Command = map_option fst (show_partitions [MICO_PARTITION_BOOTLOADER .. MICO_PARTITION_PARAMETER_2] ([], OUTBUF_SIZE))"

definition tftp_usage :: bytes where
  "tftp_usage = str ''Usage: tftp <ip> put <filename> <partition type> <flashaddr> <flashlen>'' @ CRLF @
     str ''       tftp <ip> get <filenmae> <partition type> <flashaddr> <flashlen>'' @ CRLF"

text \<open>\<open>strncpy\<close> does not terminate a name of 32 and more characters, which is then printed as a string: a fault.\<close>

definition tftp_Command :: "'u cli_env \<Rightarrow> bytes list \<Rightarrow> 'u \<Rightarrow> (bytes \<times> 'u) option" where
  "tftp_Command env argv u =
     (let wrongcmd = Some (fst (cmd_printf tftp_usage ([], OUTBUF_SIZE)), u) in
      case argv of
        [_, ip, cmd, nam, par, addr, flen] \<Rightarrow>
          if cmd \<noteq> str ''put'' \<and> cmd \<noteq> str ''get'' then wrongcmd
          else do {
            parttype \<leftarrow> atoi par;
            (case MicoFlashGetInfo parttype of
               None \<Rightarrow> wrongcmd
             | Some p \<Rightarrow>
                 if length nam \<ge> 32 then None
                 else do {
                   d \<leftarrow> partition_description parttype;
                   let info = \<lparr>filename = nam, filelen = strtoul flen, flashaddr = strtoul addr, flashtype = parttype\<rparr>;
                   let what = (\<lambda>a b. str ''tftp '' @ a @ ip @ str '', filenmae '' @ nam @ b @ d @ str '' flash, address 0x'' @
                     fmt_x (flashaddr info) @ str '', len '' @ fmt_d (sint (filelen info)) @ CRLF);
                   Some (if cmd = str ''put''
                     then (fst (cmd_printf (what (str ''put to '') (str ''. from '')) ([], OUTBUF_SIZE)), tsend env info (inet_addr env ip) u)
                     else (fst (cmd_printf (what (str ''get from '') (str ''. to '')) ([], OUTBUF_SIZE)), tget env info (inet_addr env ip) u))
                 })
          }
      | _ \<Rightarrow> wrongcmd)"

text \<open>\<open>command->function\<close>: what it leaves in \<open>outbuf\<close>, and its effects.\<close>

definition run_function ::
  "'u cli_env \<Rightarrow> cli_function \<Rightarrow> bytes list \<Rightarrow> cli_st \<Rightarrow> 'u cli_sys \<Rightarrow> (bytes \<times> cli_st \<times> 'u cli_sys) option" where
  "run_function env f argv p s =
     (case f of
        Help_command \<Rightarrow> map_option (\<lambda>out. (out, p, s)) (help_command env p)
      | Get_version \<Rightarrow> Some (get_version env, p, s)
      | Reboot \<Rightarrow> Some ([], p, s\<lparr>outside := system_reboot env (outside s)\<rparr>)
      | Echo_cmd_handler \<Rightarrow> (case echo_cmd_handler argv p of (out, p) \<Rightarrow> Some (out, p, s))
      | Cli_exit_handler \<Rightarrow> Some ([], p, s)
      | Tftp_Command \<Rightarrow> map_option (\<lambda>(out, u). (out, p, s\<lparr>outside := u\<rparr>)) (tftp_Command env argv (outside s))
      | PartShow_Command \<Rightarrow> map_option (\<lambda>out. (out, p, s)) partShow_Command
      | Uptime_Command \<Rightarrow> Some (uptime_Command (get_time env (outside s)), p, s)
      | Ota_Command \<Rightarrow> Some ([], p, s\<lparr>outside := tftp_ota env (outside s)\<rparr>)
      | Micodebug_Command \<Rightarrow> (case micodebug_Command argv (mico_debug_enabled s) of (out, b) \<Rightarrow> Some (out, p, s\<lparr>mico_debug_enabled := b\<rparr>))
      | Other k \<Rightarrow> (case other_function env k argv (outside s) of (out, u) \<Rightarrow> Some (out, p, s\<lparr>outside := u\<rparr>)))"

section \<open>The arguments of a line\<close>

text \<open>\<open>argv\<close> has 16 places; the line is scanned up to its end, at most 80 characters.\<close>

definition add_arg :: "nat list \<Rightarrow> nat \<Rightarrow> nat list option" where
  "add_arg argv k = (if length argv < 16 then Some (argv @ [k]) else None)"

definition escaped_char :: "bytes \<Rightarrow> nat \<Rightarrow> bool \<Rightarrow> bool" where
  "escaped_char b i inArg \<longleftrightarrow> 0 < i \<and> b ! (i - 1) = 0x5C \<and> inArg"

text \<open>The rest of the line is moved over the backslash, with the \<open>memcpy\<close> of overlapping bytes read as a move.\<close>

definition unescape :: "bytes \<Rightarrow> nat \<Rightarrow> bytes option" where
  "unescape b i = (case c_strlen (drop i b) of None \<Rightarrow> None | Some n \<Rightarrow> blit b (i - 1) (slice b i (n + 1)))"

lemma unescape_shorter:
  assumes "unescape b i = Some b'" and "i < length b" and "b ! i \<noteq> 0" and "0 < i"
  shows "length (takeWhile (\<lambda>c. c \<noteq> 0) (drop i b')) < length (takeWhile (\<lambda>c. c \<noteq> 0) (drop i b))"
proof -
  obtain t r where t: "drop i b = t @ 0 # r" "0 \<notin> set t" "b' = take (i - 1) b @ t @ 0 # drop (i + length t) b"
  proof -
    obtain t where "c_string (drop i b) = Some t" "blit b (i - 1) (slice b i (length t + 1)) = Some b'"
      using assms(1) by (auto simp: unescape_def c_strlen_def split: option.splits)
    moreover from this obtain r where "drop i b = t @ 0 # r" "0 \<notin> set t" using c_string_SomeD by blast
    ultimately show ?thesis using assms(2,4) that by (auto simp: blit_def slice_def split: if_splits)
  qed
  have "t \<noteq> []" using t(1) assms(2,3) by (metis append_Nil hd_drop_conv_nth list.sel(1))
  then obtain c t' where c: "t = c # t'" by (cases t) auto
  have "drop i b' = t' @ 0 # drop (i + length t) b" using assms(2,4) by (simp add: t(3) c drop_Cons')
  then show ?thesis using t(2) unfolding t(1) by (auto simp: takeWhile_append takeWhile_tail c)
qed

function parse_loop :: "bytes \<Rightarrow> nat \<Rightarrow> bool \<Rightarrow> bool \<Rightarrow> nat list \<Rightarrow> (bytes \<times> nat list) option option" where
  "parse_loop b i inArg inQuote argv =
     (if INBUF_SIZE \<le> i then Some (if inQuote then None else Some (b, argv))
      else if length b \<le> i then None
      else if b ! i = 0 then Some (if inQuote then None else Some (b, argv))
      else if b ! i = 0x22 then
        (if escaped_char b i inArg then
           (case unescape b i of None \<Rightarrow> None | Some b' \<Rightarrow> parse_loop b' i inArg inQuote argv)
         else if \<not> inQuote \<and> inArg then parse_loop b (i + 1) inArg inQuote argv
         else if inQuote \<and> \<not> inArg then Some None
         else if \<not> inQuote \<and> \<not> inArg then
           (case add_arg argv (i + 1) of None \<Rightarrow> None | Some argv' \<Rightarrow> parse_loop b (i + 1) True True argv')
         else parse_loop (b[i := 0]) (i + 1) False False argv)
      else if b ! i = 0x20 then
        (if escaped_char b i inArg then
           (case unescape b i of None \<Rightarrow> None | Some b' \<Rightarrow> parse_loop b' i inArg inQuote argv)
         else if \<not> inQuote \<and> inArg then parse_loop (b[i := 0]) (i + 1) False inQuote argv
         else parse_loop b (i + 1) inArg inQuote argv)
      else if \<not> inArg then
        (case add_arg argv i of None \<Rightarrow> None | Some argv' \<Rightarrow> parse_loop b (i + 1) True inQuote argv')
      else parse_loop b (i + 1) inArg inQuote argv)"
  by pat_completeness auto

lemma rest_of_line: "i < length b \<Longrightarrow> b ! i \<noteq> 0 \<Longrightarrow>
  takeWhile (\<lambda>c. c \<noteq> 0) (drop i b) = b ! i # takeWhile (\<lambda>c. c \<noteq> 0) (drop (Suc i) b)"
  by (simp flip: Cons_nth_drop_Suc)

lemma unescape_rest:
  "unescape b i = Some b' \<Longrightarrow> i < length b \<Longrightarrow> b ! i \<noteq> 0 \<Longrightarrow> 0 < i \<Longrightarrow>
     length (takeWhile (\<lambda>c. c \<noteq> 0) (drop i b')) < Suc (length (takeWhile (\<lambda>c. c \<noteq> 0) (drop (Suc i) b)))"
  using unescape_shorter [of b i b'] by (simp add: rest_of_line)

termination parse_loop
  by (relation "measure (\<lambda>(b, i, inArg, inQuote, argv). length (takeWhile (\<lambda>c. c \<noteq> 0) (drop i b)))")
    (auto simp: rest_of_line escaped_char_def intro: unescape_rest)

declare parse_loop.simps [simp del]

text \<open>The string behind an element of \<open>argv\<close>.\<close>

definition arg_at :: "bytes \<Rightarrow> nat \<Rightarrow> bytes option" where
  "arg_at b k = c_string (drop k b)"

fun args_at :: "bytes \<Rightarrow> nat list \<Rightarrow> bytes list option" where
  "args_at b [] = Some []"
| "args_at b (k # ks) = (case arg_at b k of None \<Rightarrow> None | Some a \<Rightarrow> map_option (Cons a) (args_at b ks))"

text \<open>The length of the name up to the first dot, 0 without one.\<close>

definition name_length :: "bytes \<Rightarrow> nat" where
  "name_length a = (if 0x2E \<in> set a then length (takeWhile (\<lambda>c. c \<noteq> 0x2E) a) else 0)"

text \<open>The call of the command that a line names.\<close>

definition call_command :: "'u cli_env \<Rightarrow> bytes list \<Rightarrow> cli_st \<Rightarrow> 'u cli_sys \<Rightarrow> (int \<times> cli_st \<times> 'u cli_sys) option" where
  "call_command env argv p s =
     (case lookup_command env p (hd argv) (name_length (hd argv)) of
        None \<Rightarrow> None
      | Some None \<Rightarrow> Some (1, p, s)
      | Some (Some a) \<Rightarrow>
          (case cmd_function (command_at env a) of None \<Rightarrow> None
           | Some f \<Rightarrow> (case run_function env f argv p (cli_putstr CRLF s) of None \<Rightarrow> None
             | Some (out, p, s) \<Rightarrow> Some (0, p, cli_putstr out s))))"

definition handle_input :: "'u cli_env \<Rightarrow> cli_st \<Rightarrow> 'u cli_sys \<Rightarrow> (int \<times> cli_st \<times> 'u cli_sys) option" where
  "handle_input env p s =
     (case parse_loop (inbuf p) 0 False False [] of
        None \<Rightarrow> None
      | Some None \<Rightarrow> Some (2, p, s)
      | Some (Some (b, argv)) \<Rightarrow>
          if argv = [] then Some (0, p\<lparr>inbuf := b\<rparr>, s)
          else (case args_at b argv of None \<Rightarrow> None
            | Some argv \<Rightarrow> call_command env argv (p\<lparr>inbuf := b\<rparr>) (if echo_disabled p then s else cli_printf CRLF s)))"

section \<open>Input\<close>

text \<open>The names that begin with the first \<open>bp\<close> characters of the line; the rest of the only one is added to it, with a
  length that is the difference of two lengths.\<close>

definition complete_line :: "bytes \<Rightarrow> cli_st \<Rightarrow> cli_st option" where
  "complete_line fm p =
     (if length fm < INBUF_SIZE then
        (if length fm < bp p then None
         else do {
           b \<leftarrow> blit (inbuf p) (bp p) (drop (bp p) fm);
           b \<leftarrow> wr b (length fm) 0x20;
           b \<leftarrow> wr b (length fm + 1) 0;
           Some (p\<lparr>inbuf := b, bp := length fm + 1\<rparr>)
         })
      else Some p)"

definition tab_complete :: "'u cli_env \<Rightarrow> cli_st \<Rightarrow> 'u cli_sys \<Rightarrow> (cli_st \<times> 'u cli_sys) option" where
  "tab_complete env p s = do {
     line \<leftarrow> c_string (inbuf p);
     names \<leftarrow> named_commands env (commands p) (num_commands p);
     let s = cli_printf CRLF s;
     let found = filter (\<lambda>n. strncmp_equal line n (bp p)) (map fst names);
     let s = (case found of
         n1 # n2 # ns \<Rightarrow> fold (\<lambda>n. cli_printf (n @ [0x20])) ns (cli_printf (n1 @ [0x20] @ n2 @ [0x20]) s)
       | _ \<Rightarrow> s);
     p \<leftarrow> (case found of [fm] \<Rightarrow> complete_line fm p | _ \<Rightarrow> Some p);
     line \<leftarrow> c_string (inbuf p);
     Some (p, cli_printf (PROMPT @ line) s)
   }"

text \<open>One character of the line; the line is complete, or dropped.\<close>

datatype input_step = Read_on | Line_complete | Line_dropped

definition input_char :: "'u cli_env \<Rightarrow> u8 \<Rightarrow> cli_st \<Rightarrow> 'u cli_sys \<Rightarrow> (input_step \<times> cli_st \<times> 'u cli_sys) option" where
  "input_char env c p s =
     (case wr (inbuf p) (bp p) c of None \<Rightarrow> None
      | Some b \<Rightarrow>
        let p = p\<lparr>inbuf := b\<rparr>; echo = (\<lambda>t s. if echo_disabled p then s else cli_printf t s) in
        if c = RET_CHAR then Some (Read_on, p, s)
        else if c = END_CHAR then Some (Line_complete, p\<lparr>inbuf := b[bp p := 0], bp := 0\<rparr>, s)
        else if c = 0x08 \<or> c = 0x7F then
          (if bp p > 0 then Some (Read_on, p\<lparr>bp := bp p - 1\<rparr>, echo [0x08, 0x20, 0x08] s) else Some (Read_on, p, s))
        else if c = 0x09 then map_option (Pair Read_on) (tab_complete env (p\<lparr>inbuf := b[bp p := 0]\<rparr>) s)
        else if bp p + 1 \<ge> INBUF_SIZE
        then Some (Line_dropped, p\<lparr>bp := 0\<rparr>,
          cli_printf PROMPT (cli_printf (str ''Error: input buffer overflow'' @ CRLF) (echo [c] s)))
        else Some (Read_on, p\<lparr>bp := bp p + 1\<rparr>, echo [c] s))"

text \<open>The bytes up to the end of a line or a second without a byte.\<close>

fun get_input :: "'u cli_env \<Rightarrow> u8 option list \<Rightarrow> cli_st \<Rightarrow> 'u cli_sys \<Rightarrow> (bool \<times> cli_st \<times> 'u cli_sys) option" where
  "get_input env [] p s = Some (False, p, s\<lparr>uart_rx := []\<rparr>)"
| "get_input env (None # es) p s = Some (False, p, s\<lparr>uart_rx := es\<rparr>)"
| "get_input env (Some c # es) p s =
     (case input_char env c p s of
        None \<Rightarrow> None
      | Some (Read_on, p, s) \<Rightarrow> get_input env es p s
      | Some (Line_complete, p, s) \<Rightarrow> Some (True, p, s\<lparr>uart_rx := es\<rparr>)
      | Some (Line_dropped, p, s) \<Rightarrow> Some (False, p, s\<lparr>uart_rx := es\<rparr>))"

definition isprint :: "u8 \<Rightarrow> bool" where
  "isprint c \<longleftrightarrow> 0x20 \<le> c \<and> c < 0x7F"

definition print_bad_command :: "bytes \<Rightarrow> 'u cli_sys \<Rightarrow> 'u cli_sys" where
  "print_bad_command cmd s =
     cli_printf ([0x27] @ str '' not found'' @ CRLF)
       (fold (\<lambda>c. cli_printf (if isprint c then [c] else [0x5C, 0x30, 0x78] @ fmt_x (ucast c))) cmd
         (cli_printf (str ''command '' @ [0x27]) s))"

section \<open>The thread\<close>

lemma get_input_shorter: "get_input env es p s = Some (r, p', s') \<Longrightarrow> es \<noteq> [] \<Longrightarrow> length (uart_rx s') < length es"
proof (induction es arbitrary: p s)
  case (Cons e es)
  show ?case
  proof (cases "e = None \<or> es = []")
    case True
    then show ?thesis using Cons.prems by (cases e) (auto split: option.splits input_step.splits)
  next
    case False
    then obtain c where e: "e = Some c" "es \<noteq> []" by auto
    obtain k p1 s1 where "input_char env c p s = Some (k, p1, s1)"
      using Cons.prems by (cases "input_char env c p s") (auto simp: e)
    then show ?thesis using Cons.prems Cons.IH [OF _ e(2), of p1 s1] by (cases k) (auto simp: e)
  qed
qed simp

lemma run_function_rx: "run_function env f argv p s = Some (out, p', s') \<Longrightarrow> uart_rx s' = uart_rx s"
  by (cases f) (auto simp: run_function_def split: prod.splits)

lemma printing_rx [simp]: "uart_rx (cli_putstr t s) = uart_rx s" "uart_rx (cli_printf t s) = uart_rx s"
  by (simp_all add: cli_printf_def cli_putstr_def)

lemma handle_input_rx: "handle_input env p s = Some (r, p', s') \<Longrightarrow> uart_rx s' = uart_rx s"
  by (auto simp: handle_input_def call_command_def dest!: run_function_rx split: option.splits if_splits)

text \<open>The console waits for bytes, or has ended and its state is freed.\<close>

function cli_main :: "'u cli_env \<Rightarrow> cli_st \<Rightarrow> 'u cli_sys \<Rightarrow> (cli_st option \<times> 'u cli_sys) option" where
  "cli_main env p s =
     (if uart_rx s = [] then Some (Some p, s)
      else (case get_input env (uart_rx s) p s of
          None \<Rightarrow> None
        | Some (False, p, s') \<Rightarrow> cli_main env p s'
        | Some (True, p, s') \<Rightarrow>
            (case c_string (inbuf p) of None \<Rightarrow> None
             | Some msg \<Rightarrow>
                 if msg = EXIT_MSG then Some (None, cli_printf (str ''CLI exited'' @ CRLF) s')
                 else (case handle_input env p s' of
                     None \<Rightarrow> None
                   | Some (ret, p, s'') \<Rightarrow>
                       (case c_string (inbuf p) of None \<Rightarrow> None
                        | Some msg \<Rightarrow> cli_main env p (cli_printf PROMPT
                            (if ret = 1 then print_bad_command msg s''
                             else if ret = 2 then cli_printf (str ''syntax error'' @ CRLF) s'' else s'')))))))"
  by pat_completeness auto

lemma print_bad_rx [simp]: "uart_rx (print_bad_command m s) = uart_rx s"
proof -
  have "uart_rx (fold (\<lambda>c. cli_printf (f c)) m s) = uart_rx s" for f :: "u8 \<Rightarrow> bytes" and s :: "'a cli_sys"
    by (induction m arbitrary: s) auto
  then show ?thesis by (simp add: print_bad_command_def)
qed

termination cli_main
  by (relation "measure (\<lambda>(env, p, s). length (uart_rx s))") (auto dest!: get_input_shorter handle_input_rx)

declare cli_main.simps [simp del]

text \<open>\<open>cli_init\<close>: the two allocations and the status of creating the thread are parameters, as is the option \<open>DEBUG\<close>.\<close>

definition cli_init :: "bool \<Rightarrow> bool \<Rightarrow> OSStatus \<Rightarrow> bool \<Rightarrow> 'u cli_env \<Rightarrow> 'u cli_sys \<Rightarrow> OSStatus \<times> cli_st option \<times> 'u cli_sys" where
  "cli_init malloc1 malloc2 create_thread debug env s =
     (if \<not> malloc1 \<or> \<not> malloc2 then (kNoMemoryErr, None, s)
      else (case cli_register_commands env 0 (length built_ins)
          \<lparr>bp = 0, inbuf = replicate INBUF_SIZE 0, commands = replicate MAX_COMMANDS None, num_commands = 0, echo_disabled = False\<rparr> of
        (r, p) \<Rightarrow>
          if r \<noteq> 0 then (kGeneralErr, None, s)
          else let p = (if debug then snd (cli_register_commands env (length built_ins) 1 p) else p) in
            if create_thread \<noteq> kNoErr
            then (kGeneralErr, None, cli_printf (str ''Error: Failed to create cli thread: '' @ fmt_d create_thread @ CRLF) s)
            else (kNoErr, Some p, s)))"

end
