(* ===== verification/ConsoleSession.thy ===== *)
theory ConsoleSession
  imports CommandConsole
begin

text \<open>
  What the command console does with what is typed: the table of commands as a list, the arguments of a line, its input, and the
  call of the command. The laws of the table are the locale \<open>command_registry\<close>, interpreted on its three operations.
\<close>

section \<open>The table as a list\<close>

definition usable :: "'u cli_env \<Rightarrow> nat \<Rightarrow> bool" where
  "usable env a \<longleftrightarrow> cmd_name (command_at env a) \<noteq> None \<and> cmd_function (command_at env a) \<noteq> None"

definition registered :: "'u cli_env \<Rightarrow> cli_st \<Rightarrow> nat list \<Rightarrow> bool" where
  "registered env p cs \<longleftrightarrow> commands p = map Some cs @ replicate (MAX_COMMANDS - length cs) None \<and>
     num_commands p = length cs \<and> length cs \<le> MAX_COMMANDS \<and> distinct cs \<and> list_all (usable env) cs"

definition answers_to :: "'u cli_env \<Rightarrow> bytes \<Rightarrow> nat \<Rightarrow> nat \<Rightarrow> bool" where
  "answers_to env name n a \<longleftrightarrow>
     (case cmd_name (command_at env a) of None \<Rightarrow> False | Some s \<Rightarrow> if n \<noteq> 0 then strncmp_equal s name n else s = name)"

definition add_spec :: "'u cli_env \<Rightarrow> nat \<Rightarrow> nat list \<Rightarrow> int \<times> nat list" where
  "add_spec env a cs = (if \<not> usable env a \<or> length cs = MAX_COMMANDS then (1, cs)
     else if a \<in> set cs then (0, cs) else (0, cs @ [a]))"

definition remove_spec :: "'u cli_env \<Rightarrow> nat \<Rightarrow> nat list \<Rightarrow> int \<times> nat list" where
  "remove_spec env a cs = (if usable env a \<and> a \<in> set cs then (0, remove1 a cs) else (1, cs))"

lemma find_command_absent: "a \<notin> set cs \<Longrightarrow> find_command (map Some cs @ r) (i + length cs) a i = None"
proof (induction cs arbitrary: i)
  case Nil
  then show ?case by (cases r) auto
next
  case (Cons c cs)
  then show ?case using Cons.IH [of "i + 1"] by simp
qed

lemma find_command_present:
  "a \<notin> set u \<Longrightarrow> i + length u < n \<Longrightarrow> find_command (map Some (u @ a # v) @ r) n a i = Some (i + length u)"
proof (induction u arbitrary: i)
  case (Cons c u)
  then show ?case using Cons.IH [of "i + 1"] by simp
qed simp

lemma lookup_loop_find:
  "list_all (usable env) cs \<Longrightarrow> lookup_loop env (map Some cs @ r) (length cs) name n = Some (find (answers_to env name n) cs)"
proof (induction cs)
  case Nil
  then show ?case by (cases r) auto
next
  case (Cons c cs)
  then show ?case by (auto simp: usable_def answers_to_def)
qed

lemma command_register_refines:
  assumes "registered env p cs"
  shows "fst (cli_register_command env a p) = fst (add_spec env a cs) \<and>
    registered env (snd (cli_register_command env a p)) (snd (add_spec env a cs))"
proof (cases "\<not> usable env a \<or> length cs = MAX_COMMANDS")
  case True
  then show ?thesis using assms by (auto simp: cli_register_command_def add_spec_def usable_def registered_def)
next
  case False
  then have u: "cmd_name (command_at env a) \<noteq> None" "cmd_function (command_at env a) \<noteq> None" "length cs < MAX_COMMANDS"
    using assms by (auto simp: usable_def registered_def)
  have p: "commands p = map Some cs @ replicate (MAX_COMMANDS - length cs) None" "num_commands p = length cs"
    using assms by (simp_all add: registered_def)
  show ?thesis
  proof (cases "a \<in> set cs")
    case True
    then obtain v w where "cs = v @ a # w" "a \<notin> set v" by (meson split_list_first)
    then have "find_command (commands p) (num_commands p) a 0 \<noteq> None"
      using find_command_present [of a v 0 "length cs" w] p by simp
    then show ?thesis using True False u p assms by (simp add: cli_register_command_def add_spec_def)
  next
    case new: False
    have "find_command (commands p) (num_commands p) a 0 = None"
      using find_command_absent [OF new, of "replicate (MAX_COMMANDS - length cs) None" 0] p by simp
    moreover have "(map Some cs @ replicate (MAX_COMMANDS - length cs) None)[length cs := Some a]
        = map Some (cs @ [a]) @ replicate (MAX_COMMANDS - length (cs @ [a])) None"
      using u(3) by (cases "MAX_COMMANDS - length cs") (auto simp: list_update_append Suc_diff_Suc)
    ultimately show ?thesis using new False u p assms
      by (simp add: cli_register_command_def add_spec_def registered_def)
  qed
qed

lemma unregister_refines:
  assumes "registered env p cs"
  shows "fst (cli_unregister_command env a p) = fst (remove_spec env a cs) \<and>
    registered env (snd (cli_unregister_command env a p)) (snd (remove_spec env a cs))"
proof (cases "usable env a \<and> a \<in> set cs")
  case False
  then have "\<not> usable env a \<or> find_command (commands p) (num_commands p) a 0 = None"
    using find_command_absent [of a cs "replicate (MAX_COMMANDS - length cs) None" 0] assms by (auto simp: registered_def)
  then show ?thesis using False assms by (auto simp: cli_unregister_command_def remove_spec_def usable_def)
next
  case True
  then obtain v w where cs: "cs = v @ a # w" "a \<notin> set v" by (meson split_list_first)
  define k where "k = MAX_COMMANDS - length cs"
  have p: "commands p = map Some v @ Some a # map Some w @ replicate k None" "num_commands p = Suc (length v + length w)"
    using assms by (simp_all add: registered_def cs k_def)
  have f: "find_command (commands p) (num_commands p) a 0 = Some (length v)"
    using find_command_present [OF cs(2), of 0 "num_commands p" w] p by simp
  have m: "(if length w > 0 then take (length v) (commands p) @ slice (commands p) (length v + 1) (length w) @
        drop (length v + length w) (commands p) else commands p)[length v + length w := None]
      = map Some (v @ w) @ replicate (Suc k) None"
  proof (cases w rule: rev_cases)
    case Nil
    then show ?thesis by (simp add: p list_update_append)
  next
    case (snoc w' x)
    then show ?thesis by (simp add: p slice_def list_update_append nth_append)
  qed
  have "length (v @ w) < MAX_COMMANDS" using assms by (auto simp: registered_def cs)
  then have "Suc k = MAX_COMMANDS - length (v @ w)" unfolding k_def cs by simp
  moreover have "remove1 a cs = v @ w" using cs by (simp add: remove1_append)
  ultimately show ?thesis
    using True f m assms p(2) by (auto simp: cli_unregister_command_def remove_spec_def usable_def registered_def cs Let_def)
qed

section \<open>Lines of arguments\<close>

text \<open>An argument as it is typed: a plain word, or any text in quotes with its quotes escaped.\<close>

type_synonym typed_arg = "bool \<times> bytes"

definition typed_ok :: "typed_arg \<Rightarrow> bool" where
  "typed_ok t \<longleftrightarrow> (case t of (quoted, a) \<Rightarrow> list_all (\<lambda>c. c \<noteq> 0 \<and> c \<noteq> 0x5C) a \<and>
     (quoted \<or> a \<noteq> [] \<and> list_all (\<lambda>c. c \<noteq> 0x20 \<and> c \<noteq> 0x22) a))"

definition quote_char :: "u8 \<Rightarrow> bytes" where
  "quote_char c = (if c = 0x22 then [0x5C, 0x22] else [c])"

lemma quote_char_simps [simp]: "quote_char 0x22 = [0x5C, 0x22]" "c \<noteq> 0x22 \<Longrightarrow> quote_char c = [c]"
  by (simp_all add: quote_char_def)

definition arg_text :: "typed_arg \<Rightarrow> bytes" where
  "arg_text t = (case t of (quoted, a) \<Rightarrow> if quoted then 0x22 # concat (map quote_char a) @ [0x22] else a)"

fun typed_line :: "typed_arg list \<Rightarrow> bytes" where
  "typed_line [] = []"
| "typed_line [t] = arg_text t"
| "typed_line (t # ts) = arg_text t @ 0x20 # typed_line ts"

lemma escaped_char_last: "u \<noteq> [] \<Longrightarrow> escaped_char (u @ r) (length u) True \<longleftrightarrow> last u = 0x5C"
  by (simp add: escaped_char_def nth_append last_conv_nth)

lemma parse_char:
  assumes "length (u @ c # r) = INBUF_SIZE" and "c \<noteq> 0" and "c \<noteq> 0x22 \<and> c \<noteq> 0x20 \<or> q \<and> c = 0x20 \<and> u \<noteq> [] \<and> last u \<noteq> 0x5C"
  shows "parse_loop (u @ c # r) (length u) True q argv = parse_loop ((u @ [c]) @ r) (length (u @ [c])) True q argv"
  using assms escaped_char_last [of u "c # r"] by (subst parse_loop.simps) auto

lemma parse_word:
  "length (u @ w @ r) = INBUF_SIZE \<Longrightarrow> list_all (\<lambda>c. c \<noteq> 0 \<and> c \<noteq> 0x20 \<and> c \<noteq> 0x22) w \<Longrightarrow>
     parse_loop (u @ w @ r) (length u) True q argv = parse_loop ((u @ w) @ r) (length (u @ w)) True q argv"
proof (induction w arbitrary: u)
  case (Cons c w)
  then show ?case using parse_char [of u c "w @ r" q argv] Cons.IH [of "u @ [c]"] by simp
qed simp

lemma unescape_quote:
  assumes "0 \<notin> set t"
  shows "unescape (u @ 0x5C # 0x22 # t @ 0 # r) (Suc (length u)) = Some (u @ 0x22 # t @ 0 # 0 # r)"
proof -
  have "c_strlen (0x22 # t @ 0 # r) = Some (Suc (length t))"
    using c_string_append_NUL [of "0x22 # t" r] assms by (simp add: c_strlen_def)
  then show ?thesis by (simp add: unescape_def blit_def slice_def)
qed

lemma parse_quoted:
  assumes "length (u @ concat (map quote_char a) @ 0x22 # t @ 0 # r) = INBUF_SIZE" and "0 \<notin> set t"
    and "list_all (\<lambda>c. c \<noteq> 0 \<and> c \<noteq> 0x5C) a" and "u \<noteq> []" and "last u \<noteq> 0x5C"
  shows "\<exists>r'. parse_loop (u @ concat (map quote_char a) @ 0x22 # t @ 0 # r) (length u) True True argv =
      parse_loop ((u @ a) @ 0x22 # t @ 0 # r') (length (u @ a)) True True argv \<and>
    length ((u @ a) @ 0x22 # t @ 0 # r') = INBUF_SIZE"
  using assms
proof (induction a arbitrary: u r)
  case Nil
  then show ?case by (intro exI [of _ r]) simp
next
  case (Cons c a)
  let ?e = "concat (map quote_char a) @ 0x22 # t"
  have e: "0 \<notin> set ?e" using Cons.prems(2,3) by (auto simp: quote_char_def list_all_iff)
  show ?case
  proof (cases "c = 0x22")
    case False
    have "parse_loop (u @ c # ?e @ 0 # r) (length u) True True argv
        = parse_loop ((u @ [c]) @ ?e @ 0 # r) (length (u @ [c])) True True argv"
      using Cons.prems False by (intro parse_char) auto
    then show ?thesis using Cons.IH [of "u @ [c]" r] Cons.prems False by simp
  next
    case True
    have 1: "parse_loop (u @ 0x5C # 0x22 # ?e @ 0 # r) (length u) True True argv
        = parse_loop ((u @ [0x5C]) @ 0x22 # ?e @ 0 # r) (length (u @ [0x5C])) True True argv"
      using Cons.prems True by (intro parse_char) simp_all
    have 2: "parse_loop ((u @ [0x5C]) @ 0x22 # ?e @ 0 # r) (length (u @ [0x5C])) True True argv
        = parse_loop ((u @ [0x22]) @ ?e @ 0 # 0 # r) (length (u @ [0x22])) True True argv"
      using escaped_char_last [of "u @ [0x5C]" "0x22 # ?e @ 0 # r"] unescape_quote [OF e, of u r] Cons.prems(1) True
      by (subst parse_loop.simps) (simp add: nth_append)
    show ?thesis using 1 2 Cons.IH [of "u @ [0x22]" "0 # r"] Cons.prems True by simp
  qed
qed

text \<open>One argument, with a space or the end of the line behind it.\<close>

lemma parse_arg_start:
  assumes "length (u @ arg_text (q, a) @ r) = INBUF_SIZE" and "typed_ok (q, a)"
  shows "parse_loop (u @ arg_text (q, a) @ r) (length u) False False argv =
    (if length argv < 16 then
       (if q then parse_loop ((u @ [0x22]) @ concat (map quote_char a) @ 0x22 # r) (length (u @ [0x22])) True True (argv @ [length (u @ [0x22])])
        else parse_loop (u @ a @ r) (length u) True False (argv @ [length u]))
     else None)"
proof (cases q)
  case True
  then show ?thesis using assms by (subst parse_loop.simps) (simp add: arg_text_def add_arg_def escaped_char_def nth_append)
next
  case False
  then obtain c w where a: "a = c # w" "c \<noteq> 0" "c \<noteq> 0x20" "c \<noteq> 0x22" using assms(2) by (cases a) (auto simp: typed_ok_def)
  have "parse_loop (u @ a @ r) (length u) True False (argv @ [length u]) = parse_loop (u @ a @ r) (length u + 1) True False (argv @ [length u])"
    using parse_char [of u c "w @ r" False "argv @ [length u]"] assms(1) False a by (simp add: arg_text_def)
  moreover have "parse_loop (u @ a @ r) (length u) False False argv =
      (if length argv < 16 then parse_loop (u @ a @ r) (length u + 1) True False (argv @ [length u]) else None)"
    using assms(1) False a by (subst parse_loop.simps) (simp add: arg_text_def add_arg_def)
  ultimately show ?thesis using False by (simp add: arg_text_def)
qed

lemma parse_arg_more:
  assumes "length (u @ arg_text (q, a) @ 0x20 # t @ 0 # r) = INBUF_SIZE" and "0 \<notin> set t" and "typed_ok (q, a)" and "length argv < 16"
  shows "\<exists>k z r'. parse_loop (u @ arg_text (q, a) @ 0x20 # t @ 0 # r) (length u) False False argv =
      parse_loop ((u @ k @ a @ 0 # z) @ t @ 0 # r') (length (u @ k @ a @ 0 # z)) False False (argv @ [length (u @ k)]) \<and>
    length ((u @ k @ a @ 0 # z) @ t @ 0 # r') = INBUF_SIZE"
proof (cases q)
  case False
  have w: "list_all (\<lambda>c. c \<noteq> 0 \<and> c \<noteq> 0x20 \<and> c \<noteq> 0x22) a" "a \<noteq> []" "last a \<noteq> 0x5C"
    using assms(3) False last_in_set [of a] by (auto simp: typed_ok_def list_all_iff)
  have "parse_loop (u @ arg_text (q, a) @ 0x20 # t @ 0 # r) (length u) False False argv =
      parse_loop ((u @ a) @ 0x20 # t @ 0 # r) (length (u @ a)) True False (argv @ [length u])"
    using parse_arg_start [OF assms(1,3), of argv] parse_word [OF _ w(1), of u "0x20 # t @ 0 # r"] assms(1,4) False
    by (simp add: arg_text_def)
  also have "\<dots> = parse_loop ((u @ a @ [0]) @ t @ 0 # r) (length (u @ a @ [0])) False False (argv @ [length u])"
    using escaped_char_last [of "u @ a" "0x20 # t @ 0 # r"] w(2,3) assms(1) False
    by (subst parse_loop.simps) (simp add: arg_text_def nth_append list_update_append)
  finally show ?thesis using assms(1) False
    by (intro exI [of _ "[]"] exI [of _ r]) (simp add: arg_text_def)
next
  case True
  have a: "list_all (\<lambda>c. c \<noteq> 0 \<and> c \<noteq> 0x5C) a" using assms(3) by (simp add: typed_ok_def)
  let ?argv = "argv @ [length (u @ [0x22])]"
  obtain r' where r: "parse_loop ((u @ [0x22]) @ concat (map quote_char a) @ 0x22 # (0x20 # t) @ 0 # r) (length (u @ [0x22])) True True ?argv =
      parse_loop (((u @ [0x22]) @ a) @ 0x22 # (0x20 # t) @ 0 # r') (length ((u @ [0x22]) @ a)) True True ?argv"
    "length (((u @ [0x22]) @ a) @ 0x22 # (0x20 # t) @ 0 # r') = INBUF_SIZE"
    using parse_quoted [of "u @ [0x22]" a "0x20 # t" r ?argv] a assms(1,2) True by (auto simp: arg_text_def)
  have l: "last (u @ 0x22 # a) \<noteq> 0x5C" using a last_in_set [of a] by (auto simp: list_all_iff)
  have "parse_loop (u @ arg_text (q, a) @ 0x20 # t @ 0 # r) (length u) False False argv =
      parse_loop ((u @ 0x22 # a) @ 0x22 # 0x20 # t @ 0 # r') (length (u @ 0x22 # a)) True True ?argv"
    using parse_arg_start [OF assms(1,3), of argv] r(1) assms(4) True by simp
  also have "\<dots> = parse_loop ((u @ 0x22 # a @ [0]) @ 0x20 # t @ 0 # r') (length (u @ 0x22 # a @ [0])) False False ?argv"
    using escaped_char_last [of "u @ 0x22 # a" "0x22 # 0x20 # t @ 0 # r'"] l r(2)
    by (subst parse_loop.simps) (simp add: nth_append list_update_append)
  also have "\<dots> = parse_loop ((u @ 0x22 # a @ [0, 0x20]) @ t @ 0 # r') (length (u @ 0x22 # a @ [0, 0x20])) False False ?argv"
    using r(2) by (subst parse_loop.simps) (simp add: nth_append escaped_char_def)
  finally show ?thesis using r(2) by (intro exI [of _ "[0x22]"] exI [of _ "[0x20]"] exI [of _ r']) simp
qed

lemma parse_arg_last:
  assumes "length (u @ arg_text (q, a) @ 0 # r) = INBUF_SIZE" and "typed_ok (q, a)" and "length argv < 16"
  shows "\<exists>k r'. parse_loop (u @ arg_text (q, a) @ 0 # r) (length u) False False argv =
      Some (Some (u @ k @ a @ 0 # r', argv @ [length (u @ k)])) \<and> length (u @ k @ a @ 0 # r') = INBUF_SIZE"
proof (cases q)
  case False
  have w: "list_all (\<lambda>c. c \<noteq> 0 \<and> c \<noteq> 0x20 \<and> c \<noteq> 0x22) a"
    using assms(2) False by (auto simp: typed_ok_def list_all_iff)
  have "parse_loop (u @ arg_text (q, a) @ 0 # r) (length u) False False argv =
      parse_loop ((u @ a) @ 0 # r) (length (u @ a)) True False (argv @ [length u])"
    using parse_arg_start [OF assms(1,2), of argv] parse_word [OF _ w, of u "0 # r"] assms(1,3) False
    by (simp add: arg_text_def)
  also have "\<dots> = Some (Some ((u @ a) @ 0 # r, argv @ [length u]))"
    using assms(1) False by (subst parse_loop.simps) (simp add: arg_text_def nth_append)
  finally show ?thesis using assms(1) False by (intro exI [of _ "[]"] exI [of _ r]) (simp add: arg_text_def)
next
  case True
  have a: "list_all (\<lambda>c. c \<noteq> 0 \<and> c \<noteq> 0x5C) a" using assms(2) by (simp add: typed_ok_def)
  let ?argv = "argv @ [length (u @ [0x22])]"
  obtain r' where r: "parse_loop ((u @ [0x22]) @ concat (map quote_char a) @ 0x22 # [] @ 0 # r) (length (u @ [0x22])) True True ?argv =
      parse_loop (((u @ [0x22]) @ a) @ 0x22 # [] @ 0 # r') (length ((u @ [0x22]) @ a)) True True ?argv"
    "length (((u @ [0x22]) @ a) @ 0x22 # [] @ 0 # r') = INBUF_SIZE"
    using parse_quoted [of "u @ [0x22]" a "[]" r ?argv] a assms(1) True by (auto simp: arg_text_def)
  have l: "last (u @ 0x22 # a) \<noteq> 0x5C" using a last_in_set [of a] by (auto simp: list_all_iff)
  have "parse_loop (u @ arg_text (q, a) @ 0 # r) (length u) False False argv =
      parse_loop ((u @ 0x22 # a) @ 0x22 # 0 # r') (length (u @ 0x22 # a)) True True ?argv"
    using parse_arg_start [OF assms(1,2), of argv] r(1) assms(3) True by simp
  also have "\<dots> = parse_loop ((u @ 0x22 # a @ [0]) @ 0 # r') (length (u @ 0x22 # a @ [0])) False False ?argv"
    using escaped_char_last [of "u @ 0x22 # a" "0x22 # 0 # r'"] l r(2)
    by (subst parse_loop.simps) (simp add: nth_append list_update_append)
  also have "\<dots> = Some (Some ((u @ 0x22 # a @ [0]) @ 0 # r', ?argv))"
    using r(2) by (subst parse_loop.simps) (simp add: nth_append)
  finally show ?thesis using r(2) by (intro exI [of _ "[0x22]"] exI [of _ "0 # r'"]) simp
qed

lemma typed_line_Cons: "typed_line (t # ts) = (if ts = [] then arg_text t else arg_text t @ 0x20 # typed_line ts)"
  by (cases ts) auto

lemma arg_text_chars: "typed_ok t \<Longrightarrow> 0 \<notin> set (arg_text t)"
  by (auto simp: typed_ok_def arg_text_def quote_char_def list_all_iff)

lemma typed_line_chars: "list_all typed_ok ts \<Longrightarrow> 0 \<notin> set (typed_line ts)"
  by (induction ts) (auto simp: typed_line_Cons arg_text_chars)

lemma arg_at_prefix: "take (length u) b = u \<Longrightarrow> u = v @ a @ 0 # z \<Longrightarrow> 0 \<notin> set a \<Longrightarrow> arg_at b (length v) = Some a"
proof -
  assume "take (length u) b = u" "u = v @ a @ 0 # z" and a: "0 \<notin> set a"
  then have "b = v @ a @ 0 # z @ drop (length u) b" by (metis append.assoc append_Cons append_take_drop_id)
  then show ?thesis using a by (metis append_eq_conv_conj arg_at_def c_string_append_NUL)
qed

lemma parse_typed_line:
  assumes "length (u @ typed_line ts @ 0 # r) = INBUF_SIZE" and "list_all typed_ok ts" and "length argv \<le> 16"
  shows "if length argv + length ts \<le> 16
    then \<exists>b ks. parse_loop (u @ typed_line ts @ 0 # r) (length u) False False argv = Some (Some (b, argv @ ks)) \<and>
      length ks = length ts \<and> length b = INBUF_SIZE \<and> take (length u) b = u \<and> args_at b ks = Some (map snd ts)
    else parse_loop (u @ typed_line ts @ 0 # r) (length u) False False argv = None"
  using assms
proof (induction ts arbitrary: u r argv)
  case Nil
  then show ?case by (subst parse_loop.simps) simp
next
  case (Cons t ts)
  obtain q a where t: "t = (q, a)" by (cases t)
  have ok: "typed_ok (q, a)" "list_all typed_ok ts" using Cons.prems(2) by (simp_all add: t)
  have a0: "0 \<notin> set a" using ok(1) by (auto simp: typed_ok_def list_all_iff)
  show ?case
  proof (cases "length argv < 16")
    case False
    then show ?thesis using parse_arg_start [OF _ ok(1), of u "(if ts = [] then [] else 0x20 # typed_line ts) @ 0 # r" argv] Cons.prems(1,3)
      by (cases "ts = []") (simp_all add: typed_line_Cons t)
  next
    case True
    show ?thesis
    proof (cases "ts = []")
      case last: True
      then have pre: "length (u @ arg_text (q, a) @ 0 # r) = INBUF_SIZE" using Cons.prems(1) by (simp add: t)
      obtain k r' where "parse_loop (u @ arg_text (q, a) @ 0 # r) (length u) False False argv =
          Some (Some (u @ k @ a @ 0 # r', argv @ [length (u @ k)]))" "length (u @ k @ a @ 0 # r') = INBUF_SIZE"
        using parse_arg_last [OF pre ok(1) True] by blast
      moreover have "arg_at (u @ k @ a @ 0 # r') (length (u @ k)) = Some a"
        using a0 by (simp add: arg_at_def)
      ultimately have "\<exists>b ks. parse_loop (u @ arg_text (q, a) @ 0 # r) (length u) False False argv = Some (Some (b, argv @ ks)) \<and>
          length ks = 1 \<and> length b = INBUF_SIZE \<and> take (length u) b = u \<and> args_at b ks = Some [a]"
        by (intro exI [of _ "u @ k @ a @ 0 # r'"] exI [of _ "[length (u @ k)]"] conjI) simp_all
      then show ?thesis using last True by (simp add: t)
    next
      case False
      have pre: "length (u @ arg_text (q, a) @ 0x20 # typed_line ts @ 0 # r) = INBUF_SIZE"
        using Cons.prems(1) False by (simp add: typed_line_Cons t)
      obtain k z r' where s: "parse_loop (u @ arg_text (q, a) @ 0x20 # typed_line ts @ 0 # r) (length u) False False argv =
          parse_loop ((u @ k @ a @ 0 # z) @ typed_line ts @ 0 # r') (length (u @ k @ a @ 0 # z)) False False (argv @ [length (u @ k)])"
        "length ((u @ k @ a @ 0 # z) @ typed_line ts @ 0 # r') = INBUF_SIZE"
        using parse_arg_more [OF pre typed_line_chars [OF ok(2)] ok(1) True] by blast
      have l: "typed_line (t # ts) @ 0 # r = arg_text (q, a) @ 0x20 # typed_line ts @ 0 # r"
        using False by (simp add: typed_line_Cons t)
      note IH = Cons.IH [OF s(2) ok(2), of "argv @ [length (u @ k)]"]
      show ?thesis
      proof (cases "length argv + length (t # ts) \<le> 16")
        case fits: True
        then obtain b ks where b: "parse_loop ((u @ k @ a @ 0 # z) @ typed_line ts @ 0 # r') (length (u @ k @ a @ 0 # z)) False False
            (argv @ [length (u @ k)]) = Some (Some (b, (argv @ [length (u @ k)]) @ ks))"
          "length ks = length ts" "length b = INBUF_SIZE" "take (length (u @ k @ a @ 0 # z)) b = u @ k @ a @ 0 # z" "args_at b ks = Some (map snd ts)"
          using IH by auto
        have "arg_at b (length (u @ k)) = Some a" using arg_at_prefix [OF b(4), of "u @ k" a z] a0 by simp
        moreover have "take (length u) b = u" using arg_cong [OF b(4), of "take (length u)"] by simp
        ultimately have "\<exists>b' ks'. Some (Some (b, (argv @ [length (u @ k)]) @ ks)) = Some (Some (b', argv @ ks')) \<and>
            length ks' = length (t # ts) \<and> length b' = INBUF_SIZE \<and> take (length u) b' = u \<and> args_at b' ks' = Some (map snd (t # ts))"
          using b(2,3,5) by (intro exI [of _ b] exI [of _ "length (u @ k) # ks"] conjI) (simp_all add: t)
        then show ?thesis unfolding l s(1) b(1) using fits by simp
      next
        case False
        then show ?thesis unfolding l s(1) using IH True by simp
      qed
    qed
  qed
qed

section \<open>Typing\<close>

definition typeable :: "u8 \<Rightarrow> bool" where
  "typeable c \<longleftrightarrow> c \<noteq> RET_CHAR \<and> c \<noteq> END_CHAR \<and> c \<noteq> 0x08 \<and> c \<noteq> 0x7F \<and> c \<noteq> 0x09"

lemma cli_printf_tx: "cli_printf t s = s\<lparr>uart_tx := uart_tx s @ takeWhile (\<lambda>c. c \<noteq> 0) (take 255 t)\<rparr>"
  by (simp add: cli_printf_def cli_putstr_def)

lemma type_chars:
  "length (inbuf p) = INBUF_SIZE \<Longrightarrow> bp p + length t < INBUF_SIZE \<Longrightarrow> list_all typeable t \<Longrightarrow>
     \<exists>x. get_input env (map Some t @ es) p s =
       get_input env es (p\<lparr>inbuf := take (bp p) (inbuf p) @ t @ drop (bp p + length t) (inbuf p), bp := bp p + length t\<rparr>) (s\<lparr>uart_tx := x\<rparr>)"
proof (induction t arbitrary: p s)
  case Nil
  then show ?case by (intro exI [of _ "uart_tx s"]) simp
next
  case (Cons c t)
  define p1 where "p1 = p\<lparr>inbuf := (inbuf p)[bp p := c], bp := bp p + 1\<rparr>"
  obtain y where y: "input_char env c p s = Some (Read_on, p1, s\<lparr>uart_tx := y\<rparr>)"
  proof (cases "echo_disabled p")
    case True
    then show ?thesis using Cons.prems that [of "uart_tx s"] by (simp add: input_char_def wr_def typeable_def p1_def)
  next
    case False
    then show ?thesis using Cons.prems that by (simp add: input_char_def wr_def typeable_def p1_def cli_printf_tx)
  qed
  have "take (Suc (bp p)) ((inbuf p)[bp p := c]) = take (bp p) (inbuf p) @ [c]"
    using Cons.prems(1,2) by (simp add: take_Suc_conv_app_nth)
  then show ?case using Cons.IH [of p1 "s\<lparr>uart_tx := y\<rparr>"] Cons.prems y by (auto simp: p1_def)
qed

lemma type_line:
  assumes "length (inbuf p) = INBUF_SIZE" and "bp p = 0" and "length t < INBUF_SIZE" and "list_all typeable t"
  shows "\<exists>x r. get_input env (map Some t @ Some END_CHAR # es) p s =
      Some (True, p\<lparr>inbuf := t @ 0 # r, bp := 0\<rparr>, s\<lparr>uart_tx := x, uart_rx := es\<rparr>) \<and> length (t @ 0 # r) = INBUF_SIZE"
proof -
  define r where "r = drop (length t + 1) (inbuf p)"
  obtain x where x: "get_input env (map Some t @ Some END_CHAR # es) p s =
      get_input env (Some END_CHAR # es) (p\<lparr>inbuf := t @ drop (length t) (inbuf p), bp := length t\<rparr>) (s\<lparr>uart_tx := x\<rparr>)"
    using type_chars [OF assms(1) _ assms(4), of env "Some END_CHAR # es" s] assms(2,3) by auto
  have "drop (length t) (inbuf p) = inbuf p ! length t # r" using assms(1,3) by (simp add: r_def Cons_nth_drop_Suc)
  then show ?thesis unfolding x using assms by (intro exI [of _ x] exI [of _ r]) (simp add: input_char_def wr_def list_update_append r_def)
qed

lemma c_string_ex: "0 \<in> set b \<Longrightarrow> \<exists>t. c_string b = Some t"
  by (induction b) auto

lemma registered_fields: "commands q = commands p \<Longrightarrow> num_commands q = num_commands p \<Longrightarrow> registered env q cs = registered env p cs"
  by (simp add: registered_def)

lemma lookup_registered: "registered env p cs \<Longrightarrow> lookup_command env p name n = Some (find (answers_to env name n) cs)"
  using lookup_loop_find [of env cs "replicate (MAX_COMMANDS - length cs) None" name n] by (simp add: lookup_command_def registered_def)

section \<open>The interface of the table\<close>

text \<open>A table of commands with a number of places, as the console and the modules that add commands rely on it.\<close>

locale command_registry =
  fixes holds :: "'s \<Rightarrow> nat list \<Rightarrow> bool" and add remove :: "nat \<Rightarrow> 's \<Rightarrow> int \<times> 's"
    and lookup :: "'s \<Rightarrow> 'k \<Rightarrow> nat option option" and complete :: "nat \<Rightarrow> bool" and answers :: "'k \<Rightarrow> nat \<Rightarrow> bool" and places :: nat
  assumes add: "holds s cs \<Longrightarrow> holds (snd (add a s))
      (if complete a \<and> length cs < places \<and> a \<notin> set cs then cs @ [a] else cs) \<and>
      (fst (add a s) = 0 \<longleftrightarrow> complete a \<and> length cs < places)"
    and remove: "holds s cs \<Longrightarrow> holds (snd (remove a s)) (if complete a then remove1 a cs else cs) \<and>
      (fst (remove a s) = 0 \<longleftrightarrow> complete a \<and> a \<in> set cs)"
    and lookup: "holds s cs \<Longrightarrow> lookup s k = Some (find (answers k) cs)"
    and bound: "holds s cs \<Longrightarrow> length cs \<le> places \<and> distinct cs"
begin

lemma lookup_total: "holds s cs \<Longrightarrow> lookup s k \<noteq> None"
  by (simp add: lookup)

lemma find_snoc: "find P (xs @ [x]) = (case find P xs of None \<Rightarrow> if P x then Some x else None | Some y \<Rightarrow> Some y)"
  by (induction xs) auto

lemma lookup_added:
  assumes "holds s cs" and "fst (add a s) = 0" and "lookup s k = Some None" and "answers k a"
  shows "lookup (snd (add a s)) k = Some (Some a)"
proof -
  have n: "find (answers k) cs = None" using assms(1,3) by (simp add: lookup)
  then have "a \<notin> set cs" using assms(4) by (auto simp: find_None_iff)
  moreover have "complete a \<and> length cs < places" using add [OF assms(1), of a] assms(2) by blast
  ultimately have "holds (snd (add a s)) (cs @ [a])" using add [OF assms(1), of a] by simp
  then show ?thesis using n assms(4) by (simp add: lookup [OF \<open>holds (snd (add a s)) (cs @ [a])\<close>] find_snoc)
qed

lemma lookup_kept:
  assumes "holds s cs" and "lookup s k = Some (Some b)"
  shows "lookup (snd (add a s)) k = Some (Some b)"
proof -
  have "find (answers k) cs = Some b" using assms by (simp add: lookup)
  then have "find (answers k) (if c then cs @ [a] else cs) = Some b" for c by (simp add: find_snoc)
  then show ?thesis using lookup add [OF assms(1), of a] by metis
qed

lemma lookup_removed:
  assumes "holds s cs" and "lookup s k = Some (Some a)" and "\<And>b. b \<in> set cs \<Longrightarrow> answers k b \<Longrightarrow> b = a" and "fst (remove a s) = 0"
  shows "lookup (snd (remove a s)) k = Some None"
proof -
  have "a \<notin> set (remove1 a cs)" using bound [OF assms(1)] by simp
  then have "find (answers k) (remove1 a cs) = None" using assms(3) notin_set_remove1 by (fastforce simp: find_None_iff)
  then show ?thesis using remove [OF assms(1), of a] assms(4) by (auto simp: lookup)
qed

end

interpretation cli_table: command_registry "registered env" "cli_register_command env" "cli_unregister_command env"
  "\<lambda>p (name, n). lookup_command env p name n" "usable env" "\<lambda>(name, n). answers_to env name n" MAX_COMMANDS
proof (unfold_locales, goal_cases)
  case (1 s cs a)
  moreover have "length cs \<le> MAX_COMMANDS" using 1 by (simp add: registered_def)
  ultimately show ?case using command_register_refines [OF 1, of a] by (auto simp: add_spec_def)
next
  case (2 s cs a)
  then show ?case using unregister_refines [OF 2, of a] by (auto simp: remove_spec_def remove1_idem)
next
  case (3 s cs k)
  then show ?case by (cases k) (simp add: lookup_registered)
next
  case (4 s cs)
  then show ?case by (simp add: registered_def)
qed

section \<open>A line and the table\<close>

lemma main_line:
  assumes "length (inbuf p) = INBUF_SIZE" and "bp p = 0" and "length t < INBUF_SIZE" and "list_all typeable t" and "0 \<notin> set t"
    and "t \<noteq> EXIT_MSG" and "uart_rx s = map Some t @ Some END_CHAR # es"
  shows "\<exists>x r. length (t @ 0 # r) = INBUF_SIZE \<and> cli_main env p s =
    (case handle_input env (p\<lparr>inbuf := t @ 0 # r, bp := 0\<rparr>) (s\<lparr>uart_tx := x, uart_rx := es\<rparr>) of None \<Rightarrow> None
     | Some (ret, p, s'') \<Rightarrow>
         (case c_string (inbuf p) of None \<Rightarrow> None
          | Some msg \<Rightarrow> cli_main env p (cli_printf PROMPT
              (if ret = 1 then print_bad_command msg s''
               else if ret = 2 then cli_printf (str ''syntax error'' @ CRLF) s'' else s''))))"
proof -
  obtain x r where g: "get_input env (map Some t @ Some END_CHAR # es) p s =
      Some (True, p\<lparr>inbuf := t @ 0 # r, bp := 0\<rparr>, s\<lparr>uart_tx := x, uart_rx := es\<rparr>)" "length (t @ 0 # r) = INBUF_SIZE"
    using type_line [OF assms(1-4)] by blast
  then show ?thesis using assms(5,6)
    by (intro exI [of _ x] exI [of _ r]) (subst cli_main.simps, simp add: assms(7) c_string_append_NUL)
qed

lemma named_commands_registered:
  "list_all (usable env) cs \<Longrightarrow> named_commands env (map Some cs @ r) (length cs) =
     Some (map (\<lambda>a. (the (cmd_name (command_at env a)), cmd_help (command_at env a))) cs)"
proof (induction cs)
  case Nil
  then show ?case by (cases r) auto
qed (auto simp: usable_def)

lemma complete_line_fits:
  assumes "length (inbuf q) = INBUF_SIZE" and "take (length t) (inbuf q) = t" and "bp q = length t" and "take (length t) nam = t"
    and "length nam \<le> 78"
  shows "complete_line nam q = Some (q\<lparr>inbuf := nam @ 0x20 # 0 # drop (length nam + 2) (inbuf q), bp := length nam + 1\<rparr>)"
proof -
  have tl: "length t \<le> length nam" using assms(4) by (metis length_take min.cobounded1)
  have n: "t @ drop (length t) nam = nam" using assms(4) by (metis append_take_drop_id)
  have "blit (inbuf q) (length t) (drop (length t) nam) = Some (nam @ drop (length nam) (inbuf q))"
    using assms(1,2,5) tl n by (simp add: blit_def)
  moreover have "drop (length nam) (inbuf q) = inbuf q ! length nam # inbuf q ! Suc (length nam) # drop (length nam + 2) (inbuf q)"
    using assms(1,5) by (simp add: Cons_nth_drop_Suc)
  ultimately show ?thesis using assms(1,3,5) tl by (simp add: complete_line_def wr_def list_update_append)
qed

text \<open>What no command changes: the line, the table and the characters still to come.\<close>

lemma run_function_keeps:
  assumes "run_function env g argv p s = Some (out, p', s')"
  shows "inbuf p' = inbuf p \<and> bp p' = bp p \<and> commands p' = commands p \<and> num_commands p' = num_commands p \<and> uart_rx s' = uart_rx s"
  using assms
  by (cases g) (auto simp: run_function_def echo_cmd_handler_def split: prod.splits option.splits if_splits list.splits)

section \<open>Properties\<close>

text \<open>
  C13. The console runs what is typed: a line of up to 16 arguments, each a plain word or a text in quotes whose
  quotes are escaped with backslashes, calls the function of the first registered command that answers to
  the first argument, whichever command that is, with exactly these arguments; what the function returns as output is sent,
  followed by a prompt, and the console waits for the next line with the same table and an empty line. A command
  answers to the first argument when its name is the argument or, when the argument has a dot, when the two agree in the
  characters before the dot, so that \<open>pi.x\<close> calls \<open>ping\<close>. The arguments have no zero and no backslash (a
  backslash in front of a quote or a space is taken out of the line), the line is shorter than the buffer, has no editing keys
  and is not the text that ends the console.
\<close>

theorem typed_command_runs:
  assumes "registered env p cs" and "length (inbuf p) = INBUF_SIZE" and "bp p = 0"
    and "list_all typed_ok ts" and "ts \<noteq> []" and "length ts \<le> 16" and "length (typed_line ts) < INBUF_SIZE"
    and "list_all typeable (typed_line ts)" and "typed_line ts \<noteq> EXIT_MSG"
    and "find (answers_to env (snd (hd ts)) (name_length (snd (hd ts)))) cs = Some a" and "cmd_function (command_at env a) = Some g"
    and "uart_rx s = map Some (typed_line ts) @ Some END_CHAR # es"
  shows "\<exists>b x.
    cli_main env p s = (case run_function env g (map snd ts) (p\<lparr>inbuf := b, bp := 0\<rparr>) (s\<lparr>uart_tx := x, uart_rx := es\<rparr>) of
        None \<Rightarrow> None
      | Some (out, p', s') \<Rightarrow> cli_main env p' (s'\<lparr>uart_tx := uart_tx s' @ out @ PROMPT\<rparr>)) \<and>
    (\<forall>out p' s'. run_function env g (map snd ts) (p\<lparr>inbuf := b, bp := 0\<rparr>) (s\<lparr>uart_tx := x, uart_rx := es\<rparr>) =
        Some (out, p', s') \<longrightarrow>
      registered env p' cs \<and> length (inbuf p') = INBUF_SIZE \<and> bp p' = 0 \<and> uart_rx s' = es)"
proof -
  obtain x r where l: "length (typed_line ts @ 0 # r) = INBUF_SIZE" and m: "cli_main env p s =
    (case handle_input env (p\<lparr>inbuf := typed_line ts @ 0 # r, bp := 0\<rparr>) (s\<lparr>uart_tx := x, uart_rx := es\<rparr>) of None \<Rightarrow> None
     | Some (ret, p, s'') \<Rightarrow>
         (case c_string (inbuf p) of None \<Rightarrow> None
          | Some msg \<Rightarrow> cli_main env p (cli_printf PROMPT
              (if ret = 1 then print_bad_command msg s''
               else if ret = 2 then cli_printf (str ''syntax error'' @ CRLF) s'' else s''))))"
    using main_line [OF assms(2,3,7,8) typed_line_chars [OF assms(4)] assms(9,12), of env] by blast
  obtain b ks where b: "parse_loop (typed_line ts @ 0 # r) 0 False False [] = Some (Some (b, ks))"
    "length ks = length ts" "length b = INBUF_SIZE" "args_at b ks = Some (map snd ts)"
    using parse_typed_line [of "[]" ts r "[]"] l assms(4,6) by auto
  have ks: "ks \<noteq> []" using b(2) assms(5) by auto
  obtain k0 ks' where "ks = k0 # ks'" using ks by (cases ks) auto
  then obtain a0 where "c_string (drop k0 b) = Some a0" using b(4) by (auto simp: arg_at_def split: option.splits)
  then obtain t where "drop k0 b = a0 @ 0 # t" using c_string_SomeD by blast
  then have "0 \<in> set b" by (metis in_set_conv_decomp in_set_dropD)
  then obtain msg where msg: "c_string b = Some msg" using c_string_ex by blast
  define p1 where "p1 = p\<lparr>inbuf := b, bp := 0\<rparr>"
  have reg: "registered env p1 cs" using assms(1) by (simp add: p1_def registered_def)
  have look: "lookup_command env p1 (snd (hd ts)) (name_length (snd (hd ts))) = Some (Some a)"
    by (simp add: lookup_registered [OF reg] assms(10))
  have p1: "p\<lparr>bp := 0, inbuf := b\<rparr> = p1" by (simp add: p1_def)
  have hd: "hd (map snd ts) = snd (hd ts)" using assms(5) by (rule hd_map)
  define s1 where "s1 = cli_putstr CRLF (if echo_disabled p then s\<lparr>uart_tx := x, uart_rx := es\<rparr> else cli_printf CRLF (s\<lparr>uart_tx := x, uart_rx := es\<rparr>))"
  have h: "handle_input env (p\<lparr>inbuf := typed_line ts @ 0 # r, bp := 0\<rparr>) (s\<lparr>uart_tx := x, uart_rx := es\<rparr>) =
      (case run_function env g (map snd ts) p1 s1 of None \<Rightarrow> None | Some (out, p, s) \<Rightarrow> Some (0, p, cli_putstr out s))"
    using b(1,4) ks look assms(11) by (simp add: handle_input_def call_command_def hd p1 s1_def)
  define y where "y = uart_tx s1"
  have y: "s1 = s\<lparr>uart_tx := y, uart_rx := es\<rparr>" unfolding y_def
    by (cases "echo_disabled p") (simp_all add: s1_def cli_printf_tx cli_putstr_def)
  have prompt: "cli_printf PROMPT (cli_putstr out s') = s'\<lparr>uart_tx := uart_tx s' @ out @ PROMPT\<rparr>" for out s'
    by (simp add: cli_printf_tx cli_putstr_def PROMPT_def)
  have line: "c_string (inbuf p') = Some msg" if "run_function env g (map snd ts) p1 s1 = Some (out, p', s')" for out p' s'
    using run_function_keeps [OF that] msg by (simp add: p1_def)
  have e: "cli_main env p s = (case run_function env g (map snd ts) p1 (s\<lparr>uart_tx := y, uart_rx := es\<rparr>) of
      None \<Rightarrow> None | Some (out, p', s') \<Rightarrow> cli_main env p' (s'\<lparr>uart_tx := uart_tx s' @ out @ PROMPT\<rparr>))"
    unfolding m h y [symmetric] by (simp add: prompt line split: option.split prod.split)
  have "registered env p' cs \<and> length (inbuf p') = INBUF_SIZE \<and> bp p' = 0 \<and> uart_rx s' = es"
    if "run_function env g (map snd ts) p1 (s\<lparr>uart_tx := y, uart_rx := es\<rparr>) = Some (out, p', s')" for out p' s'
    using run_function_keeps [OF that] reg b(3) by (simp add: p1_def registered_def)
  then show ?thesis using e unfolding p1_def by blast
qed

text \<open>
  C32. A line of more than 16 arguments writes behind the 16 places of \<open>argv\<close>.
\<close>

theorem seventeen_arguments_overflow:
  assumes "length (inbuf p) = INBUF_SIZE" and "bp p = 0" and "list_all typed_ok ts" and "16 < length ts"
    and "length (typed_line ts) < INBUF_SIZE" and "list_all typeable (typed_line ts)"
    and "uart_rx s = map Some (typed_line ts) @ Some END_CHAR # es"
  shows "cli_main env p s = None"
proof -
  have "length EXIT_MSG < length (typed_line ts)"
  proof -
    have "length us \<le> Suc (length (typed_line us))" for us
      by (induction us) (auto simp: typed_line_Cons)
    then show ?thesis using assms(4) order_trans [of 17 "length ts" "Suc (length (typed_line ts))"] by (simp add: EXIT_MSG_def)
  qed
  then have "typed_line ts \<noteq> EXIT_MSG" by auto
  then obtain x r where "length (typed_line ts @ 0 # r) = INBUF_SIZE" and m: "cli_main env p s =
    (case handle_input env (p\<lparr>inbuf := typed_line ts @ 0 # r, bp := 0\<rparr>) (s\<lparr>uart_tx := x, uart_rx := es\<rparr>) of None \<Rightarrow> None
     | Some (ret, p, s'') \<Rightarrow>
         (case c_string (inbuf p) of None \<Rightarrow> None
          | Some msg \<Rightarrow> cli_main env p (cli_printf PROMPT
              (if ret = 1 then print_bad_command msg s''
               else if ret = 2 then cli_printf (str ''syntax error'' @ CRLF) s'' else s''))))"
    using main_line [OF assms(1,2,5,6) typed_line_chars [OF assms(3)] _ assms(7), of env] by blast
  then have "parse_loop (typed_line ts @ 0 # r) 0 False False [] = None"
    using parse_typed_line [of "[]" ts r "[]"] assms(3,4) by simp
  then show ?thesis by (simp add: m handle_input_def)
qed

text \<open>
  C14. The table of commands is a list of different commands, at most 50: registering and unregistering are
  appending and removing with the codes of the source, and a lookup finds the first command of the list that
  answers to a name, by its whole name or by the part in front of a dot. An entry that is null is never read.
\<close>

theorem command_table_refines_list:
  assumes "registered env p cs"
  shows "(case cli_register_command env a p of (r, p') \<Rightarrow> (r, snd (add_spec env a cs)) = add_spec env a cs \<and> registered env p' (snd (add_spec env a cs))) \<and>
    (case cli_unregister_command env a p of (r, p') \<Rightarrow> (r, snd (remove_spec env a cs)) = remove_spec env a cs \<and> registered env p' (snd (remove_spec env a cs))) \<and>
    lookup_command env p name n = Some (find (answers_to env name n) cs)"
  using command_register_refines [OF assms, of a] unregister_refines [OF assms, of a] cli_table.lookup [OF assms, of "(name, n)"]
  by (auto simp: prod_eq_iff split: prod.splits)

text \<open>
  A command that registers under a name that nothing answers to is found by it afterwards, registering others does not
  change what a name means, and unregistering the only command that answers takes the name out of the table.
\<close>

theorem registered_command_found:
  assumes "registered env p cs" and "fst (cli_register_command env a p) = 0" and "lookup_command env p name n = Some None"
    and "answers_to env name n a"
  shows "lookup_command env (snd (cli_register_command env a p)) name n = Some (Some a) \<and>
    lookup_command env (snd (cli_register_command env c (snd (cli_register_command env a p)))) name n = Some (Some a) \<and>
    (\<exists>q. cli_unregister_command env a (snd (cli_register_command env a p)) = (0, q) \<and> lookup_command env q name n = Some None)"
proof -
  let ?p = "snd (cli_register_command env a p)"
  have 1: "lookup_command env ?p name n = Some (Some a)"
    using cli_table.lookup_added [OF assms(1,2), of "(name, n)"] assms(3,4) by simp
  have none: "find (answers_to env name n) cs = None" using cli_table.lookup [OF assms(1), of "(name, n)"] assms(3) by simp
  then have "a \<notin> set cs" using assms(4) by (auto simp: find_None_iff)
  moreover have u: "usable env a" "length cs < MAX_COMMANDS" using cli_table.add [OF assms(1), of a] assms(2) by blast+
  ultimately have h: "registered env ?p (cs @ [a])" using cli_table.add [OF assms(1), of a] by simp
  have 2: "lookup_command env (snd (cli_register_command env c ?p)) name n = Some (Some a)"
    using cli_table.lookup_kept [OF h, of "(name, n)" a c] 1 by simp
  have r: "fst (cli_unregister_command env a ?p) = 0" using cli_table.remove [OF h, of a] u(1) by simp
  have "lookup_command env (snd (cli_unregister_command env a ?p)) name n = Some None"
    using cli_table.lookup_removed [OF h, of "(name, n)" a] 1 r none by (auto simp: find_None_iff)
  then show ?thesis using 1 2 r by (metis prod.collapse)
qed

text \<open>
  The tabulator completes the name of a command: when the characters of the line are the beginning of exactly one
  name in the table, of at most 78 characters, the line becomes this name and a space, with its end behind it.
\<close>

theorem tab_completes_name:
  assumes "registered env p cs" and "length (inbuf p) = INBUF_SIZE" and "take (bp p) (inbuf p) = t" and "0 \<notin> set t"
    and "filter (\<lambda>a. take (length t) (the (cmd_name (command_at env a))) = t) cs = [a]" and "cmd_name (command_at env a) = Some nam"
    and "length nam \<le> 78" and "0 \<notin> set nam"
  shows "\<exists>p' s'. input_char env 0x09 p s = Some (Read_on, p', s') \<and> take (length nam + 2) (inbuf p') = nam @ [0x20, 0] \<and>
    bp p' = length nam + 1 \<and> registered env p' cs \<and> outside s' = outside s \<and> uart_rx s' = uart_rx s"
proof -
  have "a \<in> set (filter (\<lambda>a. take (length t) (the (cmd_name (command_at env a))) = t) cs)" unfolding assms(5) by simp
  then have "a \<in> set cs \<and> take (length t) nam = t" using assms(6) by simp
  then have tl: "length t \<le> length nam" by (metis length_take min.cobounded1)
  then have bt: "bp p = length t" using assms(2,3,7) by auto
  define r where "r = drop (Suc (length t)) (inbuf p)"
  define q where "q = p\<lparr>inbuf := t @ 0 # r\<rparr>"
  have q: "length (t @ 0 # r) = INBUF_SIZE" using assms(2,7) tl by (simp add: r_def)
  have u: "(inbuf p)[length t := 0] = t @ 0 # r"
    using assms(2,3,7) tl bt by (simp add: upd_conv_take_nth_drop r_def)
  have names: "named_commands env (commands q) (num_commands q) = Some (map (\<lambda>a. (the (cmd_name (command_at env a)), cmd_help (command_at env a))) cs)"
    using named_commands_registered [of env cs "replicate (MAX_COMMANDS - length cs) None"] assms(1) by (simp add: registered_def q_def)
  have found: "filter (\<lambda>n. strncmp_equal t n (length t)) (map (fst \<circ> (\<lambda>a. (the (cmd_name (command_at env a)), cmd_help (command_at env a)))) cs) = [nam]"
    using assms(5,6) by (simp add: filter_map comp_def strncmp_equal_def eq_commute [of t])
  define w where "w = drop (length nam + 2) (t @ 0 # r)"
  have c: "complete_line nam q = Some (q\<lparr>inbuf := nam @ 0x20 # 0 # w, bp := length nam + 1\<rparr>)"
    using complete_line_fits [of q t nam] \<open>a \<in> set cs \<and> take (length t) nam = t\<close> bt q assms(7) by (simp add: q_def w_def)
  have n0: "c_string (nam @ 0x20 # 0 # w) = Some (nam @ [0x20])"
    using c_string_append_NUL [of "nam @ [0x20]" w] assms(8) by simp
  have tab: "tab_complete env q s = Some (q\<lparr>inbuf := nam @ 0x20 # 0 # w, bp := length nam + 1\<rparr>, cli_printf (PROMPT @ nam @ [0x20]) (cli_printf CRLF s))"
    using names found c n0 c_string_append_NUL [OF assms(4), of r] bt by (simp add: tab_complete_def q_def)
  have "input_char env 0x09 p s = map_option (Pair Read_on) (tab_complete env q s)"
    using assms(2,7) bt tl u by (simp add: input_char_def wr_def q_def)
  then show ?thesis unfolding tab using assms(1) by (simp add: q_def registered_def cli_printf_tx)
qed

section \<open>Witnesses\<close>

text \<open>A console with the command \<open>ping\<close>, which notes its arguments.\<close>

definition noting_env :: "bytes list cli_env" where
  "noting_env = \<lparr>user_command = (\<lambda>a. \<lparr>cmd_name = None, cmd_help = None, cmd_function = None\<rparr>), other_function = (\<lambda>k args u. (str ''done'', args)),
     get_time = (\<lambda>u. 0), versions = [], rf_version = (0, []), inet_addr = (\<lambda>b. 0), tsend = (\<lambda>i a u. u), tget = (\<lambda>i a u. u),
     tftp_ota = (\<lambda>u. u), system_reboot = (\<lambda>u. u)\<rparr>"

definition ping_console :: cli_st where
  "ping_console = \<lparr>bp = 0, inbuf = replicate 80 0, commands = Some 9 # replicate 49 None, num_commands = 1, echo_disabled = False\<rparr>"

definition typing :: "bytes \<Rightarrow> bytes list cli_sys" where
  "typing t = \<lparr>uart_rx = map Some t @ [Some END_CHAR], uart_tx = [], mico_debug_enabled = False, outside = []\<rparr>"

lemma ping_registered: "registered noting_env ping_console [9]"
proof -
  have "replicate (MAX_COMMANDS - length [9 :: nat]) (None :: nat option) = replicate 49 None" by simp
  then show ?thesis by (simp add: registered_def ping_console_def usable_def command_at_def built_ins_def user_clis_def)
qed

lemma ping_named: "cmd_name (command_at noting_env 9) = Some (str ''ping'')" "cmd_function (command_at noting_env 9) = Some (Other 5)"
  by (simp_all add: command_at_def built_ins_def user_clis_def)

theorem typed_command_runs_witness:
  "\<exists>p' s'. cli_main noting_env ping_console (typing (typed_line [(False, str ''ping''), (True, [97, 0x22, 32, 98])])) = Some (Some p', s') \<and>
    outside s' = [str ''ping'', [97, 0x22, 32, 98]]"
proof -
  let ?ts = "[(False, str ''ping''), (True, [97, 0x22, 32, 98])]"
  have l: "typed_line ?ts = [112, 105, 110, 103, 32, 0x22, 97, 0x5C, 0x22, 32, 98, 0x22]"
    by (simp add: arg_text_def)
  have find: "find (answers_to noting_env (snd (hd ?ts)) (name_length (snd (hd ?ts)))) [9] = Some 9"
    by (simp add: answers_to_def ping_named name_length_def)
  have "\<exists>b x. cli_main noting_env ping_console (typing (typed_line ?ts)) =
      (case run_function noting_env (Other 5) (map snd ?ts) (ping_console\<lparr>inbuf := b, bp := 0\<rparr>)
          ((typing (typed_line ?ts))\<lparr>uart_tx := x, uart_rx := []\<rparr>) of
        None \<Rightarrow> None
      | Some (out, p', s') \<Rightarrow> cli_main noting_env p' (s'\<lparr>uart_tx := uart_tx s' @ out @ PROMPT\<rparr>)) \<and>
    (\<forall>out p' s'. run_function noting_env (Other 5) (map snd ?ts) (ping_console\<lparr>inbuf := b, bp := 0\<rparr>)
        ((typing (typed_line ?ts))\<lparr>uart_tx := x, uart_rx := []\<rparr>) = Some (out, p', s') \<longrightarrow>
      registered noting_env p' [9] \<and> length (inbuf p') = INBUF_SIZE \<and> bp p' = 0 \<and> uart_rx s' = [])"
  proof (rule typed_command_runs [OF ping_registered _ _ _ _ _ _ _ _ find ping_named(2)])
    show "typed_line ?ts \<noteq> EXIT_MSG" unfolding l by (simp add: EXIT_MSG_def)
    show "list_all typeable (typed_line ?ts)" unfolding l by (simp add: typeable_def)
    show "length (typed_line ?ts) < INBUF_SIZE" unfolding l by simp
  qed (simp_all add: ping_console_def typed_ok_def typing_def)
  then show ?thesis by (auto simp: noting_env_def cli_main.simps run_function_def typing_def)
qed

theorem seventeen_arguments_overflow_witness:
  "cli_main noting_env ping_console (typing (typed_line (replicate 17 (False, [97])))) = None"
proof (rule seventeen_arguments_overflow [of _ "replicate 17 (False, [97])" _ "[]"])
  have l: "typed_line (replicate 17 (False, [97])) = concat (replicate 16 [97, 32]) @ [97]"
    by (simp add: numeral_eq_Suc arg_text_def)
  show "length (typed_line (replicate 17 (False, [97]))) < INBUF_SIZE" unfolding l by (simp add: numeral_eq_Suc)
  show "list_all typeable (typed_line (replicate 17 (False, [97])))" unfolding l by (simp add: list_all_iff typeable_def)
qed (simp_all add: ping_console_def typing_def list_all_iff typed_ok_def)

theorem command_table_refines_list_witness:
  "(case cli_unregister_command noting_env 9 ping_console of (r, p') \<Rightarrow> r = 0 \<and> registered noting_env p' []) \<and>
   lookup_command noting_env ping_console (str ''ping.x'') 4 = Some (Some 9)"
  using command_table_refines_list [OF ping_registered, of 9 "str ''ping.x''" 4] ping_registered
  by (auto simp: remove_spec_def registered_def answers_to_def ping_named strncmp_equal_def split: prod.splits)

theorem registered_command_found_witness:
  "lookup_command noting_env (snd (cli_register_command noting_env 0 (snd (cli_register_command noting_env 2 ping_console)))) (str ''echo'') 0 = Some (Some 2)"
proof -
  have r: "fst (cli_register_command noting_env 2 ping_console) = 0"
    by (simp add: cli_register_command_def command_at_def built_ins_def user_clis_def ping_console_def)
  have n: "lookup_command noting_env ping_console (str ''echo'') 0 = Some None"
    by (simp add: lookup_registered [OF ping_registered] answers_to_def ping_named)
  have "answers_to noting_env (str ''echo'') 0 2" by (simp add: answers_to_def command_at_def built_ins_def user_clis_def)
  then show ?thesis using registered_command_found [OF ping_registered r n] by blast
qed

theorem tab_completes_name_witness:
  "\<exists>p' s'. input_char noting_env 0x09 (ping_console\<lparr>inbuf := [112, 105] @ replicate 78 0, bp := 2\<rparr>) (typing []) = Some (Read_on, p', s') \<and>
    take (length (str ''ping'') + 2) (inbuf p') = str ''ping'' @ [0x20, 0] \<and> bp p' = length (str ''ping'') + 1"
proof -
  have "registered noting_env (ping_console\<lparr>inbuf := [112, 105] @ replicate 78 0, bp := 2\<rparr>) [9]"
    using ping_registered by (simp add: registered_def)
  from tab_completes_name [OF this, of "[112, 105]" 9 "str ''ping''" "typing []"] show ?thesis
    by (auto simp: ping_named)
qed

end
