(* ===== verification/HashStream.thy ===== *)
theory HashStream
  imports Prelude
begin

text \<open>
  What the hash functions of \<open>libraries/utilities/SHAUtils.c\<close> share: the macros of \<open>include/Common.h\<close> for
  rotation and byte order, the whole blocks of a message, and the interface of a hash that takes a message in pieces.
\<close>

section \<open>Macros\<close>

definition ROTL32 :: "u32 \<Rightarrow> nat \<Rightarrow> u32" where
  "ROTL32 x n = push_bit n x OR drop_bit (32 - n) x"

definition ROTL64 :: "u64 \<Rightarrow> nat \<Rightarrow> u64" where
  "ROTL64 x n = push_bit n x OR drop_bit (64 - n) x"

definition ROTR64 :: "u64 \<Rightarrow> nat \<Rightarrow> u64" where
  "ROTR64 x n = drop_bit n x OR push_bit (64 - n) x"

definition ReadBig32 :: "bytes \<Rightarrow> nat \<Rightarrow> u32" where
  "ReadBig32 b i = push_bit 24 (ucast (b ! i)) OR push_bit 16 (ucast (b ! (i + 1))) OR push_bit 8 (ucast (b ! (i + 2))) OR ucast (b ! (i + 3))"

definition ReadBig64 :: "bytes \<Rightarrow> nat \<Rightarrow> u64" where
  "ReadBig64 b i = push_bit 56 (ucast (b ! i)) OR push_bit 48 (ucast (b ! (i + 1))) OR push_bit 40 (ucast (b ! (i + 2))) OR
     push_bit 32 (ucast (b ! (i + 3))) OR push_bit 24 (ucast (b ! (i + 4))) OR push_bit 16 (ucast (b ! (i + 5))) OR
     push_bit 8 (ucast (b ! (i + 6))) OR ucast (b ! (i + 7))"

definition ReadLittle64 :: "bytes \<Rightarrow> nat \<Rightarrow> u64" where
  "ReadLittle64 b i = ucast (b ! i) OR push_bit 8 (ucast (b ! (i + 1))) OR push_bit 16 (ucast (b ! (i + 2))) OR
     push_bit 24 (ucast (b ! (i + 3))) OR push_bit 32 (ucast (b ! (i + 4))) OR push_bit 40 (ucast (b ! (i + 5))) OR
     push_bit 48 (ucast (b ! (i + 6))) OR push_bit 56 (ucast (b ! (i + 7)))"

definition WriteBig32 :: "u32 \<Rightarrow> bytes" where
  "WriteBig32 x = map (\<lambda>i. ucast (drop_bit (8 * i) x AND 0xFF)) [3, 2, 1, 0]"

definition WriteBig64 :: "u64 \<Rightarrow> bytes" where
  "WriteBig64 x = map (\<lambda>i. ucast (drop_bit (8 * i) x AND 0xFF)) [7, 6, 5, 4, 3, 2, 1, 0]"

definition WriteLittle64 :: "u64 \<Rightarrow> bytes" where
  "WriteLittle64 x = map (\<lambda>i. ucast (drop_bit (8 * i) x AND 0xFF)) [0, 1, 2, 3, 4, 5, 6, 7]"

lemma length_Write [simp]: "length (WriteBig32 x) = 4" "length (WriteBig64 y) = 8" "length (WriteLittle64 y) = 8"
  by (simp_all add: WriteBig32_def WriteBig64_def WriteLittle64_def)

text \<open>The macros are the rotations of words.\<close>

lemma ROTL32_word_rotl: "0 < n \<Longrightarrow> n < 32 \<Longrightarrow> ROTL32 x n = word_rotl n x"
proof (rule bit_word_eqI)
  fix k assume n: "0 < n" "n < 32" and "k < LENGTH(32)"
  then have k: "k < 32" by simp
  have 1: "bit (word_rotl n x) k = bit x ((k + (32 - n)) mod 32)" using n k by (simp add: bit_word_rotl_iff)
  have 2: "bit (ROTL32 x n) k = (n \<le> k \<and> bit x (k - n) \<or> bit x (k + (32 - n)))" using k by (auto simp: ROTL32_def bit_simps ac_simps)
  have 3: "(k + (32 - n)) mod 32 = (if n \<le> k then k - n else k + (32 - n))" using n k by (auto simp: le_mod_geq)
  have 4: "32 \<le> j \<Longrightarrow> \<not> bit x j" for j using bit_imp_le_length [of x j] by auto
  show "bit (ROTL32 x n) k = bit (word_rotl n x) k" unfolding 1 2 3 using n k 4
    by (cases "n \<le> k") (auto simp: diff_diff_right)
qed

lemma ROTL64_word_rotl: "0 < n \<Longrightarrow> n < 64 \<Longrightarrow> ROTL64 x n = word_rotl n x"
proof (rule bit_word_eqI)
  fix k assume n: "0 < n" "n < 64" and "k < LENGTH(64)"
  then have k: "k < 64" by simp
  have 1: "bit (word_rotl n x) k = bit x ((k + (64 - n)) mod 64)" using n k by (simp add: bit_word_rotl_iff)
  have 2: "bit (ROTL64 x n) k = (n \<le> k \<and> bit x (k - n) \<or> bit x (k + (64 - n)))" using k by (auto simp: ROTL64_def bit_simps ac_simps)
  have 3: "(k + (64 - n)) mod 64 = (if n \<le> k then k - n else k + (64 - n))" using n k by (auto simp: le_mod_geq)
  have 4: "64 \<le> j \<Longrightarrow> \<not> bit x j" for j using bit_imp_le_length [of x j] by auto
  show "bit (ROTL64 x n) k = bit (word_rotl n x) k" unfolding 1 2 3 using n k 4
    by (cases "n \<le> k") (auto simp: diff_diff_right)
qed

lemma ROTR64_word_rotr: "0 < n \<Longrightarrow> n < 64 \<Longrightarrow> ROTR64 x n = word_rotr n x"
proof (rule bit_word_eqI)
  fix k assume n: "0 < n" "n < 64" and "k < LENGTH(64)"
  then have k: "k < 64" by simp
  have 1: "bit (word_rotr n x) k = bit x ((k + n) mod 64)" using n k by (simp add: bit_word_rotr_iff add.commute)
  have 2: "bit (ROTR64 x n) k = (bit x (k + n) \<or> 64 - n \<le> k \<and> bit x (k - (64 - n)))" using k by (auto simp: ROTR64_def bit_simps ac_simps)
  have 3: "(k + n) mod 64 = (if k + n < 64 then k + n else k + n - 64)" using n k by (auto simp: le_mod_geq)
  have 4: "64 \<le> j \<Longrightarrow> \<not> bit x j" for j using bit_imp_le_length [of x j] by auto
  show "bit (ROTR64 x n) k = bit (word_rotr n x) k" unfolding 1 2 3 using n k 4
    by (cases "k + n < 64") (auto simp: diff_diff_right)
qed

section \<open>Whole blocks\<close>

text \<open>The state after the whole blocks of \<open>n\<close> bytes of a message, and the bytes that remain.\<close>

function absorb :: "nat \<Rightarrow> ('s \<Rightarrow> bytes \<Rightarrow> 's) \<Rightarrow> 's \<Rightarrow> bytes \<Rightarrow> 's" where
  "absorb n f s m = (if n = 0 \<or> length m < n then s else absorb n f (f s (take n m)) (drop n m))"
  by pat_completeness auto
termination
  by (relation "measure (\<lambda>(n, f, s, m). length m)") auto

declare absorb.simps [simp del]

definition remainder :: "nat \<Rightarrow> bytes \<Rightarrow> bytes" where
  "remainder n m = drop (length m - length m mod n) m"

lemma absorb_short [simp]: "length m < n \<Longrightarrow> absorb n f s m = s"
  by (subst absorb.simps) simp

lemma absorb_block: "length b = n \<Longrightarrow> 0 < n \<Longrightarrow> absorb n f s (b @ m) = absorb n f (f s b) m"
  by (subst absorb.simps) simp

lemma absorb_one [simp]: "length b = n \<Longrightarrow> 0 < n \<Longrightarrow> absorb n f s b = f s b"
  using absorb_block [of b n f s "[]"] by simp

lemma length_remainder: "0 < n \<Longrightarrow> length (remainder n m) = length m mod n"
  by (simp add: remainder_def)

lemma whole_blocks: "length m = n * k + r \<Longrightarrow> r < n \<Longrightarrow> remainder n m = drop (n * k) m"
  by (simp add: remainder_def)

lemma absorb_append: "length u = n * k \<Longrightarrow> 0 < n \<Longrightarrow> absorb n f s (u @ m) = absorb n f (absorb n f s u) m"
proof (induction k arbitrary: u s)
  case (Suc k)
  let ?b = "take n u" and ?v = "drop n u"
  have "length ?b = n" "length ?v = n * k" using Suc.prems by simp_all
  moreover have "absorb n f s (u @ m) = absorb n f s (?b @ ?v @ m)" "absorb n f s u = absorb n f s (?b @ ?v)"
    by (simp_all flip: append.assoc)
  ultimately show ?case using Suc.IH [of ?v "f s ?b"] Suc.prems(2) by (simp only: absorb_block)
qed simp

lemma absorb_split:
  assumes "0 < n"
  shows "absorb n f s (m @ d) = absorb n f (absorb n f s m) (remainder n m @ d)"
proof -
  let ?k = "length m div n"
  let ?u = "take (n * ?k) m"
  have u: "length ?u = n * ?k" by (simp add: times_div_less_eq_dividend)
  have r: "remainder n m = drop (n * ?k) m" by (simp add: remainder_def minus_mod_eq_mult_div)
  have m: "m = ?u @ remainder n m" by (simp add: r)
  have "absorb n f s m = absorb n f s (?u @ remainder n m)" using m by simp
  also have "\<dots> = absorb n f (absorb n f s ?u) (remainder n m)" by (rule absorb_append [OF u assms])
  also have "\<dots> = absorb n f s ?u" using length_remainder [OF assms, of m] assms by simp
  finally have 1: "absorb n f s m = absorb n f s ?u" .
  have "absorb n f s (m @ d) = absorb n f s (?u @ remainder n m @ d)" using m by (metis append.assoc)
  also have "\<dots> = absorb n f (absorb n f s ?u) (remainder n m @ d)" by (rule absorb_append [OF u assms])
  finally show ?thesis by (simp only: 1)
qed

lemma remainder_append:
  assumes "0 < n"
  shows "remainder n (m @ d) = remainder n (remainder n m @ d)"
proof -
  let ?k = "length m div n"
  have r: "remainder n m = drop (n * ?k) m" by (simp add: remainder_def minus_mod_eq_mult_div)
  have l: "length m = n * ?k + length (remainder n m)" by (simp add: r)
  have "length (m @ d) - length (m @ d) mod n = n * ?k + (length (remainder n m @ d) - length (remainder n m @ d) mod n)"
  proof -
    have "length (m @ d) = n * ?k + length (remainder n m @ d)" using l by simp
    moreover have "(n * ?k + length (remainder n m @ d)) mod n = length (remainder n m @ d) mod n" by simp
    ultimately show ?thesis by (metis Nat.add_diff_assoc mod_less_eq_dividend)
  qed
  moreover have "drop (n * ?k + j) (m @ d) = drop j (remainder n m @ d)" for j
  proof -
    have u: "length (take (n * ?k) m) = n * ?k" by (simp add: times_div_less_eq_dividend)
    have "drop (n * ?k + j) (take (n * ?k) m @ remainder n m @ d) = drop j (remainder n m @ d)" by (simp add: u)
    then show ?thesis by (simp add: r flip: append.assoc)
  qed
  ultimately show ?thesis unfolding remainder_def [of n "m @ d"] remainder_def [of n "remainder n m @ d"] by (simp only:)
qed

lemma remainder_block: "length b = n \<Longrightarrow> 0 < n \<Longrightarrow> remainder n (b @ m) = remainder n m"
  using remainder_append [of n b m] by (simp add: remainder_def)

lemma remainder_short [simp]: "length m < n \<Longrightarrow> remainder n m = m"
  by (simp add: remainder_def)

section \<open>Hashing in pieces\<close>

fun update_all :: "('c \<Rightarrow> bytes \<Rightarrow> 'c option) \<Rightarrow> 'c \<Rightarrow> bytes list \<Rightarrow> 'c option" where
  "update_all feed c [] = Some c"
| "update_all feed c (d # ds) = Option.bind (feed c d) (\<lambda>c. update_all feed c ds)"

text \<open>A context holds the message that was fed to it; what \<open>final\<close> delivers depends on this message only.\<close>

locale streaming_hash =
  fixes holds :: "'c \<Rightarrow> bytes \<Rightarrow> bool" and initial :: 'c and feed :: "'c \<Rightarrow> bytes \<Rightarrow> 'c option" and finish :: "'c \<Rightarrow> bytes option"
    and digest :: "bytes \<Rightarrow> bytes"
  assumes holds_initial: "holds initial []"
    and holds_feed: "holds c m \<Longrightarrow> \<exists>c'. feed c d = Some c' \<and> holds c' (m @ d)"
    and finish_digest: "holds c m \<Longrightarrow> finish c = Some (digest m)"
begin

lemma holds_update_all: "holds c m \<Longrightarrow> \<exists>c'. update_all feed c ds = Some c' \<and> holds c' (m @ concat ds)"
proof (induction ds arbitrary: c m)
  case (Cons d ds)
  obtain c1 where "feed c d = Some c1" "holds c1 (m @ d)" using holds_feed [OF Cons.prems] by blast
  then show ?case using Cons.IH [of c1 "m @ d"] by simp
qed simp

lemma pieces: "\<exists>c. update_all feed initial ds = Some c \<and> finish c = Some (digest (concat ds))"
  using holds_update_all [OF holds_initial, of ds] finish_digest by auto

end

end
