(* ===== verification/HashBlocks.thy ===== *)
theory HashBlocks
  imports HashStream
begin

text \<open>
  The part that \<open>SHA1_Update_compat\<close> and \<open>SHA512_Update_compat\<close>, and \<open>SHA1_Final_compat\<close> and
  \<open>SHA512_Final_compat\<close> of \<open>SHAUtils.c\<close> have in common: the source has it twice, with blocks of 64 and of 128 bytes.
  \<open>size_t\<close> has 32 bits. A copy outside the buffer of the context is \<open>None\<close>.
\<close>

record 'w sha_ctx =
  ctx_length :: u64
  ctx_state :: "'w list"
  ctx_curlen :: u32
  ctx_buf :: bytes

text \<open>\<open>block\<close> is the size of a block, \<open>cmpr\<close> the compression of one.\<close>

function sha_update :: "u32 \<Rightarrow> ('w list \<Rightarrow> bytes \<Rightarrow> 'w list) \<Rightarrow> 'w sha_ctx \<Rightarrow> bytes \<Rightarrow> 'w sha_ctx option" where
  "sha_update block cmpr ctx src =
     (if src = [] then Some ctx
      else if ctx_curlen ctx = 0 \<and> length src \<ge> unat block \<and> block \<noteq> 0 then
        sha_update block cmpr (ctx\<lparr>ctx_state := cmpr (ctx_state ctx) (take (unat block) src), ctx_length := ctx_length ctx + ucast (block * 8)\<rparr>)
          (drop (unat block) src)
      else (let n = min (length src) (unat (block - ctx_curlen ctx)) in
        case blit (ctx_buf ctx) (unat (ctx_curlen ctx)) (take n src) of None \<Rightarrow> None
        | Some b \<Rightarrow>
            (let ctx = ctx\<lparr>ctx_buf := b, ctx_curlen := ctx_curlen ctx + of_nat n\<rparr> in
             if block = 0 then None
             else sha_update block cmpr
               (if ctx_curlen ctx = block
                then ctx\<lparr>ctx_state := cmpr (ctx_state ctx) b, ctx_length := ctx_length ctx + ucast (block * 8), ctx_curlen := 0\<rparr>
                else ctx)
               (drop n src))))"
  by pat_completeness auto

lemma unat_positive: "(x :: 'a::len word) \<noteq> 0 \<Longrightarrow> 0 < unat x"
  by (metis gr0I unsigned_eq_0_iff)

termination sha_update
proof (relation "measure (\<lambda>(block, cmpr, ctx, src). 2 * length src + (if ctx_curlen ctx = 0 then 0 else 1))", goal_cases)
  case (3 block cmpr ctx src n b ctx')
  show ?case
  proof (cases "n = 0")
    case False
    then show ?thesis using 3 by (cases src) (auto simp: Let_def)
  next
    case True
    then have "unat (block - ctx_curlen ctx) = 0" using 3(1,3) by (simp add: min_def split: if_splits)
    then have "ctx_curlen ctx = block" by (metis right_minus_eq unsigned_eq_0_iff)
    then show ?thesis using True 3 by auto
  qed
qed (auto intro: diff_less simp: unat_positive)

declare sha_update.simps [simp del]

text \<open>The end of a message: \<open>0x80\<close>, zeros, and the length of the message in bits as 64-bit number at \<open>pos\<close>; beyond
  \<open>lim\<close> bytes the zeros and the length get a block of their own.\<close>

definition zero_pad :: "bytes \<Rightarrow> nat \<Rightarrow> nat \<Rightarrow> bytes option" where
  "zero_pad b curlen n = blit b curlen (replicate (n - curlen) 0)"

definition sha_final ::
  "nat \<Rightarrow> nat \<Rightarrow> nat \<Rightarrow> (u32 \<Rightarrow> u64) \<Rightarrow> ('w list \<Rightarrow> bytes \<Rightarrow> 'w list) \<Rightarrow> ('w \<Rightarrow> bytes) \<Rightarrow> 'w sha_ctx \<Rightarrow> bytes option" where
  "sha_final block lim pos bits cmpr put ctx = do {
     let len = ctx_length ctx + bits (ctx_curlen ctx);
     b \<leftarrow> wr (ctx_buf ctx) (unat (ctx_curlen ctx)) 0x80;
     let curlen = unat (ctx_curlen ctx) + 1;
     (st, b, curlen) \<leftarrow> (if curlen > lim then do {
         b \<leftarrow> zero_pad b curlen block;
         Some (cmpr (ctx_state ctx) b, b, 0)
       } else Some (ctx_state ctx, b, curlen));
     b \<leftarrow> zero_pad b curlen pos;
     b \<leftarrow> blit b pos (WriteBig64 len);
     Some (concat (map put (cmpr st b)))
   }"

section \<open>The message in a context\<close>

definition ctx_holds :: "nat \<Rightarrow> ('w list \<Rightarrow> bytes \<Rightarrow> 'w list) \<Rightarrow> 'w list \<Rightarrow> 'w sha_ctx \<Rightarrow> bytes \<Rightarrow> bool" where
  "ctx_holds n cmpr iv ctx m \<longleftrightarrow> ctx_state ctx = absorb n cmpr iv m \<and> unat (ctx_curlen ctx) = length m mod n \<and> length (ctx_buf ctx) = n \<and>
     take (length m mod n) (ctx_buf ctx) = remainder n m \<and> ctx_length ctx = of_nat (8 * (length m - length m mod n))"

lemma holds_block:
  assumes "ctx_holds n cmpr iv ctx m" and "length m mod n + length d = n" and "0 < n" and "length b = n"
    and "b' = remainder n m @ d" and "ctx_length ctx' = ctx_length ctx + of_nat (8 * n)"
    and "ctx_state ctx' = cmpr (ctx_state ctx) b'" and "ctx_curlen ctx' = 0" and "ctx_buf ctx' = b"
  shows "ctx_holds n cmpr iv ctx' (m @ d)"
proof -
  have r: "length (remainder n m) = length m mod n" using assms(3) by (rule length_remainder)
  then have "absorb n cmpr iv (m @ d) = cmpr (absorb n cmpr iv m) (remainder n m @ d)"
    using assms(2,3) absorb_split [OF assms(3), of cmpr iv m d] by simp
  moreover have l: "length (m @ d) = n * (length m div n) + n"
  proof -
    have "length m = n * (length m div n) + length m mod n" by simp
    then show ?thesis using assms(2) unfolding length_append by linarith
  qed
  moreover have "length (m @ d) mod n = 0" unfolding l by simp
  moreover have "remainder n (m @ d) = []"
    using remainder_append [OF assms(3), of m d] remainder_block [of "remainder n m @ d" n "[]"] r assms(2,3) by simp
  moreover have "length m - length m mod n = n * (length m div n)" by (simp add: minus_mod_eq_mult_div)
  ultimately show ?thesis using assms by (simp add: ctx_holds_def algebra_simps)
qed

lemma holds_part:
  assumes "ctx_holds n cmpr iv ctx m" and "length m mod n + length d < n" and "length b = n"
    and "take (length m mod n + length d) b = remainder n m @ d" and "ctx_length ctx' = ctx_length ctx"
    and "ctx_state ctx' = ctx_state ctx" and "unat (ctx_curlen ctx') = length m mod n + length d" and "ctx_buf ctx' = b"
  shows "ctx_holds n cmpr iv ctx' (m @ d)"
proof -
  have n: "0 < n" using assms(2) by simp
  have r: "length (remainder n m) = length m mod n" using n by (rule length_remainder)
  have "length (m @ d) mod n = length m mod n + length d"
    using assms(2) by (simp flip: mod_add_left_eq [of "length m" n "length d"])
  moreover have "absorb n cmpr iv (m @ d) = absorb n cmpr iv m"
    using absorb_split [OF n, of cmpr iv m d] r assms(2) by simp
  moreover have "remainder n (m @ d) = remainder n m @ d"
    using remainder_append [OF n, of m d] r assms(2) by simp
  ultimately show ?thesis using assms mod_less_eq_dividend [of "length m" n] by (simp add: ctx_holds_def)
qed

lemma sha_update_holds:
  assumes "ctx_holds (unat block) cmpr iv ctx m" and "0 < unat block" and "unat block < 2 ^ 16"
  shows "\<exists>ctx'. sha_update block cmpr ctx d = Some ctx' \<and> ctx_holds (unat block) cmpr iv ctx' (m @ d)"
  using assms
proof (induction "length d" arbitrary: ctx m d rule: less_induct)
  case less
  let ?n = "unat block" and ?c = "ctx_curlen ctx"
  have c: "unat ?c = length m mod ?n" "unat ?c < ?n" using less.prems(1,2) by (simp_all add: ctx_holds_def)
  have bits: "(ucast (block * 8) :: u64) = of_nat (8 * ?n)"
  proof -
    have "unat (block * 8) = 8 * ?n" using less.prems(3) by (simp add: unat_word_ariths)
    from arg_cong [OF this, of "of_nat :: nat \<Rightarrow> u64"] show ?thesis by simp
  qed
  show ?case
  proof (cases "d = []")
    case True
    then show ?thesis using less.prems(1) by (intro exI [of _ ctx]) (simp add: sha_update.simps)
  next
    case d: False
    show ?thesis
    proof (cases "?c = 0 \<and> ?n \<le> length d")
      case True
      define ctx1 where "ctx1 = ctx\<lparr>ctx_state := cmpr (ctx_state ctx) (take ?n d), ctx_length := ctx_length ctx + ucast (block * 8)\<rparr>"
      have z: "remainder ?n m = []" "length m mod ?n = 0"
        using True c(1) length_remainder [OF less.prems(2), of m] by simp_all
      have "ctx_holds ?n cmpr iv ctx1 (m @ take ?n d)"
        using less.prems True z by (intro holds_block [OF less.prems(1), of _ "ctx_buf ctx"]) (auto simp: ctx1_def bits ctx_holds_def)
      then obtain ctx' where "sha_update block cmpr ctx1 (drop ?n d) = Some ctx'" "ctx_holds ?n cmpr iv ctx' ((m @ take ?n d) @ drop ?n d)"
        using less.hyps [of "drop ?n d" ctx1 "m @ take ?n d"] less.prems(2,3) d by auto
      moreover have "block \<noteq> 0" using less.prems(2) by auto
      ultimately show ?thesis using True d by (subst sha_update.simps) (simp add: ctx1_def)
    next
      case False
      define n where "n = min (length d) (unat (block - ?c))"
      have sub: "unat (block - ?c) = ?n - unat ?c" using c(2) by (simp add: unat_sub word_le_nat_alt)
      have n: "0 < n" "n \<le> length d" "unat ?c + n \<le> ?n" using c(2) d by (auto simp: n_def sub)
      define b where "b = take (unat ?c) (ctx_buf ctx) @ take n d @ drop (unat ?c + n) (ctx_buf ctx)"
      have buf: "length (ctx_buf ctx) = ?n" "take (unat ?c) (ctx_buf ctx) = remainder ?n m" using less.prems(1) c(1) by (simp_all add: ctx_holds_def)
      have blit: "blit (ctx_buf ctx) (unat ?c) (take n d) = Some b" using n buf(1) by (simp add: blit_def b_def)
      have lb: "length b = ?n" using n buf(1) by (simp add: b_def)
      have "length (remainder ?n m) = unat ?c" using length_remainder [OF less.prems(2), of m] c(1) by simp
      then have tb: "take (unat ?c + n) b = remainder ?n m @ take n d" using n buf by (simp add: b_def)
      have cur: "unat (?c + of_nat n) = unat ?c + n"
        using n(3) less.prems(3) by (simp add: unat_word_ariths unat_of_nat take_bit_eq_mod)
      define ctx0 where "ctx0 = ctx\<lparr>ctx_buf := b, ctx_curlen := ?c + of_nat n\<rparr>"
      define ctx1 where "ctx1 = (if ctx_curlen ctx0 = block
          then ctx0\<lparr>ctx_state := cmpr (ctx_state ctx0) b, ctx_length := ctx_length ctx0 + ucast (block * 8), ctx_curlen := 0\<rparr> else ctx0)"
      have full: "ctx_curlen ctx0 = block \<longleftrightarrow> unat ?c + n = ?n" by (simp add: ctx0_def word_unat_eq_iff cur)
      have "ctx_holds ?n cmpr iv ctx1 (m @ take n d)"
      proof (cases "unat ?c + n = ?n")
        case True
        then have "b = remainder ?n m @ take n d" using tb lb by simp
        then show ?thesis using True n lb c(1) less.prems(2) full
          by (intro holds_block [OF less.prems(1), of _ b b]) (auto simp: ctx1_def ctx0_def bits)
      next
        case part: False
        then show ?thesis using n lb tb c(1) full cur
          by (intro holds_part [OF less.prems(1), of _ b]) (auto simp: ctx1_def ctx0_def)
      qed
      moreover have "length (drop n d) < length d" using n(1,2) by simp
      ultimately obtain ctx' where "sha_update block cmpr ctx1 (drop n d) = Some ctx'" "ctx_holds ?n cmpr iv ctx' ((m @ take n d) @ drop n d)"
        using less.hyps [of "drop n d" ctx1 "m @ take n d"] less.prems(2,3) n by auto
      moreover have "block \<noteq> 0" using less.prems(2) by auto
      ultimately show ?thesis using False d blit
        by (subst sha_update.simps) (auto simp: Let_def simp flip: n_def ctx0_def ctx1_def)
    qed
  qed
qed

section \<open>The end of a message\<close>

text \<open>What follows a message: \<open>0x80\<close>, zeros up to \<open>lim\<close> bytes of a block, and the length in bits, the last 64 bits of
  the rest of the block.\<close>

definition sha_padding :: "nat \<Rightarrow> nat \<Rightarrow> nat \<Rightarrow> bytes" where
  "sha_padding n lim len = 0x80 # replicate ((lim + n - 1 - len mod n) mod n) 0 @ replicate (n - 8 - lim) 0 @ WriteBig64 (of_nat (8 * len))"

lemma blit_last: "length u = i \<Longrightarrow> length v = length w \<Longrightarrow> blit (u @ v) i w = Some (u @ w)"
  by (simp add: blit_def)

lemma sha_final_digest:
  assumes "ctx_holds n cmpr iv ctx m" and "0 < lim" and "lim + 8 \<le> n" and "\<And>c. unat c < n \<Longrightarrow> bits c = of_nat (8 * unat c)"
  shows "sha_final n lim (n - 8) bits cmpr put ctx = Some (concat (map put (absorb n cmpr iv (m @ sha_padding n lim (length m)))))"
proof -
  define r where "r = length m mod n"
  have n: "0 < n" "r < n" using assms(2,3) by (simp_all add: r_def)
  have h: "ctx_state ctx = absorb n cmpr iv m" "unat (ctx_curlen ctx) = r" "length (ctx_buf ctx) = n"
    "take r (ctx_buf ctx) = remainder n m" "ctx_length ctx = of_nat (8 * (length m - r))"
    using assms(1) by (simp_all add: ctx_holds_def r_def)
  have rem: "length (remainder n m) = r" using n(1) by (simp add: length_remainder r_def)
  have len: "ctx_length ctx + bits (ctx_curlen ctx) = of_nat (8 * length m)"
  proof -
    have "r \<le> length m" by (simp add: r_def)
    then have "8 * length m = 8 * (length m - r) + 8 * r" by simp
    then show ?thesis using assms(4) [of "ctx_curlen ctx"] h(2,5) n(2) by (metis of_nat_add)
  qed
  have b: "(ctx_buf ctx)[r := 0x80] = remainder n m @ 0x80 # drop (Suc r) (ctx_buf ctx)"
    using h(3,4) n(2) by (simp add: upd_conv_take_nth_drop)
  let ?w = "WriteBig64 (of_nat (8 * length m))"
  have fin: "absorb n cmpr iv (m @ sha_padding n lim (length m)) = absorb n cmpr (ctx_state ctx) (remainder n m @ sha_padding n lim (length m))"
    unfolding h(1) by (rule absorb_split [OF n(1)])
  show ?thesis
  proof (cases "r < lim")
    case True
    have "(lim + n - 1 - r) mod n = lim - 1 - r"
    proof -
      have "lim + n - 1 - r = n + (lim - 1 - r)" using True by simp
      then have "(lim + n - 1 - r) mod n = (n + (lim - 1 - r)) mod n" by (simp only:)
      also have "\<dots> = lim - 1 - r" using assms(3) by simp
      finally show ?thesis .
    qed
    then have p: "sha_padding n lim (length m) = 0x80 # replicate (n - 8 - Suc r) 0 @ ?w"
      using True assms(3) by (simp add: sha_padding_def flip: r_def replicate_add append_assoc)
    obtain k where k: "n - 8 = Suc r + k" "n = Suc r + k + 8"
      using True assms(3) that [of "n - 8 - Suc r"] by auto
    have z: "zero_pad ((ctx_buf ctx)[r := 0x80]) (Suc r) (n - 8) = Some (remainder n m @ 0x80 # replicate (n - 8 - Suc r) 0 @ drop (n - 8) (ctx_buf ctx))"
    proof -
      have "drop (Suc r + k) (remainder n m @ 0x80 # drop (Suc r) (ctx_buf ctx)) = drop (Suc r + k) (ctx_buf ctx)" using rem by (simp add: add.commute)
      moreover have "Suc r + k \<le> length (remainder n m @ 0x80 # drop (Suc r) (ctx_buf ctx))" using rem h(3) k(2) by simp
      ultimately show ?thesis using rem unfolding b zero_pad_def blit_def k(1) by simp
    qed
    have "blit (remainder n m @ 0x80 # replicate (n - 8 - Suc r) 0 @ drop (n - 8) (ctx_buf ctx)) (n - 8) ?w
        = Some (remainder n m @ sha_padding n lim (length m))"
    proof -
      have l: "length (remainder n m @ 0x80 # replicate (n - 8 - Suc r) 0) = n - 8" using rem k(1) by simp
      have "length (drop (n - 8) (ctx_buf ctx)) = 8" using h(3) k(2) by simp
      then have "blit ((remainder n m @ 0x80 # replicate (n - 8 - Suc r) 0) @ drop (n - 8) (ctx_buf ctx)) (n - 8) ?w
          = Some ((remainder n m @ 0x80 # replicate (n - 8 - Suc r) 0) @ ?w)"
        by (intro blit_last l) simp
      then show ?thesis by (simp add: p)
    qed
    moreover have "absorb n cmpr (ctx_state ctx) (remainder n m @ sha_padding n lim (length m)) = cmpr (ctx_state ctx) (remainder n m @ sha_padding n lim (length m))"
      using True assms(3) rem n(1) by (intro absorb_one) (simp_all add: p)
    ultimately show ?thesis using True z n(2) h(2,3) by (simp add: sha_final_def wr_def len fin)
  next
    case False
    have k: "(lim + n - 1 - r) mod n = n - Suc r + lim" using False n(2) assms(2) by simp
    define b1 where "b1 = remainder n m @ 0x80 # replicate (n - Suc r) 0"
    have p: "remainder n m @ sha_padding n lim (length m) = b1 @ replicate (n - 8) 0 @ ?w"
      using assms(3) k by (simp add: sha_padding_def b1_def replicate_add flip: r_def) (simp flip: replicate_add append_assoc)
    have l1: "length b1 = n" using rem n(2) by (simp add: b1_def)
    have z1: "zero_pad ((ctx_buf ctx)[r := 0x80]) (Suc r) n = Some b1"
      using n(2) rem h(3) unfolding b by (simp add: zero_pad_def blit_def b1_def)
    have z2: "zero_pad b1 0 (n - 8) = Some (replicate (n - 8) 0 @ drop (n - 8) b1)"
      using l1 by (simp add: zero_pad_def blit_def)
    have z3: "blit (replicate (n - 8) 0 @ drop (n - 8) b1) (n - 8) ?w = Some (replicate (n - 8) 0 @ ?w)"
      using l1 assms(3) by (simp add: blit_def)
    have "absorb n cmpr (ctx_state ctx) (remainder n m @ sha_padding n lim (length m)) = cmpr (cmpr (ctx_state ctx) b1) (replicate (n - 8) 0 @ ?w)"
      unfolding p using l1 n(1) assms(3) by (simp add: absorb_block)
    then show ?thesis using False z1 z2 z3 n(2) h(2,3) by (simp add: sha_final_def wr_def len fin)
  qed
qed

end
