(* ===== verification/Sha1.thy ===== *)
theory Sha1
  imports HashBlocks
begin

text \<open>
  SHA-1 of \<open>libraries/utilities/SHAUtils.c\<close> as the source computes it, twenty groups of five steps with rotating
  variables, and as FIPS 180-4 defines it, section 6.1.
\<close>

section \<open>The source\<close>

definition SHA1_F0 :: "u32 \<Rightarrow> u32 \<Rightarrow> u32 \<Rightarrow> u32" where "SHA1_F0 x y z = z XOR (x AND (y XOR z))"
definition SHA1_F1 :: "u32 \<Rightarrow> u32 \<Rightarrow> u32 \<Rightarrow> u32" where "SHA1_F1 x y z = x XOR y XOR z"
definition SHA1_F2 :: "u32 \<Rightarrow> u32 \<Rightarrow> u32 \<Rightarrow> u32" where "SHA1_F2 x y z = (x AND y) OR (z AND (x OR y))"
definition SHA1_F3 :: "u32 \<Rightarrow> u32 \<Rightarrow> u32 \<Rightarrow> u32" where "SHA1_F3 x y z = x XOR y XOR z"

text \<open>\<open>SHA1_FF0\<close> to \<open>SHA1_FF3\<close>: the new values of \<open>e\<close> and \<open>b\<close>.\<close>

definition SHA1_FF :: "(u32 \<Rightarrow> u32 \<Rightarrow> u32 \<Rightarrow> u32) \<Rightarrow> u32 \<Rightarrow> u32 list \<Rightarrow> nat \<Rightarrow> u32 \<Rightarrow> u32 \<Rightarrow> u32 \<Rightarrow> u32 \<Rightarrow> u32 \<Rightarrow> u32 \<times> u32" where
  "SHA1_FF f k W i a b c d e = (ROTL32 a 5 + f b c d + e + W ! i + k, ROTL32 b 30)"

type_synonym chain5 = "u32 \<times> u32 \<times> u32 \<times> u32 \<times> u32"

definition sha1_five :: "(u32 \<Rightarrow> u32 \<Rightarrow> u32 \<Rightarrow> u32) \<Rightarrow> u32 \<Rightarrow> u32 list \<Rightarrow> nat \<Rightarrow> chain5 \<Rightarrow> chain5" where
  "sha1_five f k W i = (\<lambda>(a, b, c, d, e).
     let (e, b) = SHA1_FF f k W i a b c d e;
         (d, a) = SHA1_FF f k W (i + 1) e a b c d;
         (c, e) = SHA1_FF f k W (i + 2) d e a b c;
         (b, d) = SHA1_FF f k W (i + 3) c d e a b;
         (a, c) = SHA1_FF f k W (i + 4) b c d e a in
     (a, b, c, d, e))"

function sha1_round :: "(u32 \<Rightarrow> u32 \<Rightarrow> u32 \<Rightarrow> u32) \<Rightarrow> u32 \<Rightarrow> u32 list \<Rightarrow> nat \<Rightarrow> nat \<Rightarrow> chain5 \<Rightarrow> chain5" where
  "sha1_round f k W i n s = (if i < n then sha1_round f k W (i + 5) n (sha1_five f k W i s) else s)"
  by pat_completeness auto
termination
  by (relation "measure (\<lambda>(f, k, W, i, n, s). n - i)") auto

declare sha1_round.simps [simp del]

text \<open>The words of the block, extended by \<open>n\<close> words.\<close>

fun sha1_expand :: "nat \<Rightarrow> u32 list \<Rightarrow> u32 list" where
  "sha1_expand 0 W = W"
| "sha1_expand (Suc n) W = (let i = length W in
     sha1_expand n (W @ [ROTL32 (W ! (i - 3) XOR W ! (i - 8) XOR W ! (i - 14) XOR W ! (i - 16)) 1]))"

definition SHA1_Compress :: "u32 list \<Rightarrow> bytes \<Rightarrow> u32 list" where
  "SHA1_Compress st inPtr =
     (let W = sha1_expand 64 (map (\<lambda>i. ReadBig32 inPtr (4 * i)) [0..<16]);
          s = (st ! 0, st ! 1, st ! 2, st ! 3, st ! 4);
          s = sha1_round SHA1_F0 0x5A827999 W 0 20 s;
          s = sha1_round SHA1_F1 0x6ED9EBA1 W 20 40 s;
          s = sha1_round SHA1_F2 0x8F1BBCDC W 40 60 s;
          (a, b, c, d, e) = sha1_round SHA1_F3 0xCA62C1D6 W 60 80 s in
      [st ! 0 + a, st ! 1 + b, st ! 2 + c, st ! 3 + d, st ! 4 + e])"

text \<open>The buffer keeps the bytes that the memory of the context has, \<open>junk\<close>.\<close>

definition SHA1_Init_compat :: "(nat \<Rightarrow> u8) \<Rightarrow> u32 sha_ctx" where
  "SHA1_Init_compat junk = \<lparr>ctx_length = 0, ctx_state = [0x67452301, 0xEFCDAB89, 0x98BADCFE, 0x10325476, 0xC3D2E1F0],
     ctx_curlen = 0, ctx_buf = map junk [0..<64]\<rparr>"

definition SHA1_Update_compat :: "u32 sha_ctx \<Rightarrow> bytes \<Rightarrow> u32 sha_ctx option" where
  "SHA1_Update_compat = sha_update 64 SHA1_Compress"

text \<open>\<open>curlen * 8\<close> has 32 bits.\<close>

definition SHA1_Final_compat :: "u32 sha_ctx \<Rightarrow> bytes option" where
  "SHA1_Final_compat = sha_final 64 56 56 (\<lambda>c. ucast (c * 8)) SHA1_Compress WriteBig32"

definition SHA1_compat :: "(nat \<Rightarrow> u8) \<Rightarrow> bytes \<Rightarrow> bytes option" where
  "SHA1_compat junk inData = do { ctx \<leftarrow> SHA1_Update_compat (SHA1_Init_compat junk) inData; SHA1_Final_compat ctx }"

section \<open>The standard\<close>

definition fips_Ch :: "'a::len word \<Rightarrow> 'a word \<Rightarrow> 'a word \<Rightarrow> 'a word" where
  "fips_Ch x y z = (x AND y) XOR (NOT x AND z)"

definition fips_Maj :: "'a::len word \<Rightarrow> 'a word \<Rightarrow> 'a word \<Rightarrow> 'a word" where
  "fips_Maj x y z = (x AND y) XOR (x AND z) XOR (y AND z)"

definition fips_f :: "nat \<Rightarrow> u32 \<Rightarrow> u32 \<Rightarrow> u32 \<Rightarrow> u32" where
  "fips_f t x y z = (if t < 20 then fips_Ch x y z else if 40 \<le> t \<and> t < 60 then fips_Maj x y z else x XOR y XOR z)"

definition fips_K1 :: "nat \<Rightarrow> u32" where
  "fips_K1 t = (if t < 20 then 0x5A827999 else if t < 40 then 0x6ED9EBA1 else if t < 60 then 0x8F1BBCDC else 0xCA62C1D6)"

fun fips_W1 :: "bytes \<Rightarrow> nat \<Rightarrow> u32" where
  "fips_W1 b t = (if t < 16 then ReadBig32 b (4 * t)
     else word_rotl 1 (fips_W1 b (t - 3) XOR fips_W1 b (t - 8) XOR fips_W1 b (t - 14) XOR fips_W1 b (t - 16)))"

declare fips_W1.simps [simp del]

definition fips_step1 :: "(nat \<Rightarrow> u32) \<Rightarrow> nat \<Rightarrow> chain5 \<Rightarrow> chain5" where
  "fips_step1 W t = (\<lambda>(a, b, c, d, e). (word_rotl 5 a + fips_f t b c d + e + fips_K1 t + W t, a, word_rotl 30 b, c, d))"

definition fips_block1 :: "u32 list \<Rightarrow> bytes \<Rightarrow> u32 list" where
  "fips_block1 H b =
     (case fold (fips_step1 (fips_W1 b)) [0..<80] (H ! 0, H ! 1, H ! 2, H ! 3, H ! 4) of
        (x0, x1, x2, x3, x4) \<Rightarrow> [H ! 0 + x0, H ! 1 + x1, H ! 2 + x2, H ! 3 + x3, H ! 4 + x4])"

text \<open>The message with a bit 1, as many bits 0 as fill a block of 512 bits with the length, and the length, hashed block by
  block.\<close>

definition fips_SHA1 :: "bytes \<Rightarrow> bytes" where
  "fips_SHA1 m = concat (map WriteBig32 (absorb 64 fips_block1 [0x67452301, 0xEFCDAB89, 0x98BADCFE, 0x10325476, 0xC3D2E1F0]
     (m @ 0x80 # replicate ((119 - length m mod 64) mod 64) 0 @ WriteBig64 (of_nat (8 * length m)))))"

section \<open>Steps\<close>

lemma SHA1_F0_Ch: "SHA1_F0 x y z = fips_Ch x y z"
  by (rule bit_word_eqI) (auto simp: SHA1_F0_def fips_Ch_def bit_simps)

lemma SHA1_F2_Maj: "SHA1_F2 x y z = fips_Maj x y z"
  by (rule bit_word_eqI) (auto simp: SHA1_F2_def fips_Maj_def bit_simps)

lemma sha1_five_steps:
  assumes "\<forall>t. i \<le> t \<and> t < i + 5 \<longrightarrow> W ! t = V t \<and> (\<forall>x y z. f x y z = fips_f t x y z) \<and> k = fips_K1 t"
  shows "sha1_five f k W i s = fold (fips_step1 V) [i..<i + 5] s"
proof -
  have u: "[i..<i + 5] = [i, i + 1, i + 2, i + 3, i + 4]" by (simp add: upt_rec)
  obtain a b c d e where s: "s = (a, b, c, d, e)" by (cases s)
  have t: "W ! (i + j) = V (i + j)" "f x y z = fips_f (i + j) x y z" "k = fips_K1 (i + j)" if "j < 5" for j x y z
    using assms that by auto
  note e0 = t [of 0, simplified] and e1 = t [of 1, simplified] and e2 = t [of 2, simplified] and e3 = t [of 3, simplified] and e4 = t [of 4, simplified]
  show ?thesis unfolding s u sha1_five_def
    by (simp add: SHA1_FF_def fips_step1_def ROTL32_word_rotl Let_def e0(1) e1(1) e2(1) e3(1) e4(1) ac_simps
        flip: e0(2,3) e1(2,3) e2(2,3) e3(2,3) e4(2,3))
qed

lemma sha1_round_steps:
  "\<forall>t. i \<le> t \<and> t < i + 5 * j \<longrightarrow> W ! t = V t \<and> (\<forall>x y z. f x y z = fips_f t x y z) \<and> k = fips_K1 t \<Longrightarrow>
     sha1_round f k W i (i + 5 * j) s = fold (fips_step1 V) [i..<i + 5 * j] s"
proof (induction j arbitrary: i s)
  case 0
  then show ?case by (simp add: sha1_round.simps)
next
  case (Suc j)
  have "sha1_round f k W i (i + 5 * Suc j) s = sha1_round f k W (i + 5) (i + 5 + 5 * j) (sha1_five f k W i s)"
    by (subst sha1_round.simps) (simp add: ac_simps)
  also have "\<dots> = fold (fips_step1 V) [i + 5..<i + 5 + 5 * j] (fold (fips_step1 V) [i..<i + 5] s)"
  proof -
    have "sha1_five f k W i s = fold (fips_step1 V) [i..<i + 5] s" using Suc.prems by (intro sha1_five_steps) auto
    then show ?thesis using Suc.prems by (subst Suc.IH) auto
  qed
  also have "\<dots> = fold (fips_step1 V) ([i..<i + 5] @ [i + 5..<i + 5 + 5 * j]) s" by simp
  also have "[i..<i + 5] @ [i + 5..<i + 5 + 5 * j] = [i..<i + 5 * Suc j]"
    using upt_add_eq_append [of i "i + 5" "5 * j"] by (simp add: ac_simps)
  finally show ?case .
qed

lemma sha1_expand_words:
  "16 \<le> length W \<Longrightarrow> (\<And>t. t < length W \<Longrightarrow> W ! t = fips_W1 b t) \<Longrightarrow> t < length W + n \<Longrightarrow>
     sha1_expand n W ! t = fips_W1 b t"
proof (induction n arbitrary: W)
  case (Suc n)
  define w where "w = ROTL32 (W ! (length W - 3) XOR W ! (length W - 8) XOR W ! (length W - 14) XOR W ! (length W - 16)) 1"
  have w: "w = fips_W1 b (length W)"
    using Suc.prems(1,2) by (simp add: w_def fips_W1.simps [of b "length W"] ROTL32_word_rotl)
  have "sha1_expand n (W @ [w]) ! t = fips_W1 b t"
  proof (rule Suc.IH)
    fix u assume "u < length (W @ [w])"
    then show "(W @ [w]) ! u = fips_W1 b u" using Suc.prems(2) [of u] w by (cases "u = length W") (auto simp: nth_append)
  qed (use Suc.prems in auto)
  then show ?case by (simp add: w_def Let_def)
qed simp

lemma SHA1_Compress_fips: "SHA1_Compress st b = fips_block1 st b"
proof -
  let ?W = "sha1_expand 64 (map (\<lambda>i. ReadBig32 b (4 * i)) [0..<16])" and ?V = "fips_W1 b"
  have W: "?W ! t = ?V t" if "t < 80" for t
    using that by (intro sha1_expand_words) (auto simp: fips_W1.simps [of b])
  have r: "sha1_round SHA1_F0 0x5A827999 ?W 0 20 s = fold (fips_step1 ?V) [0..<20] s"
    "sha1_round SHA1_F1 0x6ED9EBA1 ?W 20 40 s = fold (fips_step1 ?V) [20..<40] s"
    "sha1_round SHA1_F2 0x8F1BBCDC ?W 40 60 s = fold (fips_step1 ?V) [40..<60] s"
    "sha1_round SHA1_F3 0xCA62C1D6 ?W 60 80 s = fold (fips_step1 ?V) [60..<80] s" for s
    using sha1_round_steps [of 0 4 ?W ?V SHA1_F0 "0x5A827999" s] sha1_round_steps [of 20 4 ?W ?V SHA1_F1 "0x6ED9EBA1" s]
      sha1_round_steps [of 40 4 ?W ?V SHA1_F2 "0x8F1BBCDC" s] sha1_round_steps [of 60 4 ?W ?V SHA1_F3 "0xCA62C1D6" s]
    by (simp_all add: W fips_f_def fips_K1_def SHA1_F0_Ch SHA1_F2_Maj SHA1_F1_def SHA1_F3_def)
  have "[0..<80] = [0..<20] @ [20..<40] @ [40..<60] @ [60..<80 :: nat]"
    using upt_add_eq_append [of 0 20 20] upt_add_eq_append [of 0 40 20] upt_add_eq_append [of 0 60 20] by simp
  then show ?thesis by (simp only: SHA1_Compress_def fips_block1_def Let_def r fold_append comp_apply)
qed

section \<open>Messages\<close>

abbreviation sha1_holds :: "u32 sha_ctx \<Rightarrow> bytes \<Rightarrow> bool" where
  "sha1_holds \<equiv> ctx_holds 64 SHA1_Compress [0x67452301, 0xEFCDAB89, 0x98BADCFE, 0x10325476, 0xC3D2E1F0]"

lemma sha1_padding: "m @ sha_padding 64 56 (length m) = m @ 0x80 # replicate ((119 - length m mod 64) mod 64) 0 @ WriteBig64 (of_nat (8 * length m))"
  by (simp add: sha_padding_def)

interpretation sha1: streaming_hash sha1_holds "SHA1_Init_compat junk" SHA1_Update_compat SHA1_Final_compat fips_SHA1
  for junk :: "nat \<Rightarrow> u8"
proof (unfold_locales, goal_cases)
  case 1
  show ?case by (simp add: ctx_holds_def SHA1_Init_compat_def remainder_def)
next
  case (2 c m d)
  then show ?case using sha_update_holds [of 64 SHA1_Compress _ c m d] by (simp add: SHA1_Update_compat_def)
next
  case (3 c m)
  have bits: "(ucast (x * 8) :: u64) = of_nat (8 * unat x)" if "unat x < 64" for x :: u32
  proof -
    have "unat (x * 8) = 8 * unat x" using that by (simp add: unat_word_ariths)
    from arg_cong [OF this, of "of_nat :: nat \<Rightarrow> u64"] show ?thesis by simp
  qed
  have "SHA1_Compress = fips_block1" by (simp add: SHA1_Compress_fips fun_eq_iff)
  then show ?case using sha_final_digest [OF 3, of 56 "\<lambda>c. ucast (c * 8)" WriteBig32] bits
    by (simp add: SHA1_Final_compat_def fips_SHA1_def sha1_padding)
qed

section \<open>Properties\<close>

text \<open>
  However a message is cut into pieces, feeding them to \<open>SHA1_Update_compat\<close> and finishing delivers its SHA-1
  digest as FIPS 180-4 defines it, and so does \<open>SHA1_compat\<close>. No copy leaves the buffer of the context,
  and what the memory held before does not matter.
\<close>

theorem sha1_is_fips180:
  "(\<exists>ctx. update_all SHA1_Update_compat (SHA1_Init_compat junk) ds = Some ctx \<and> SHA1_Final_compat ctx = Some (fips_SHA1 (concat ds))) \<and>
   SHA1_compat junk m = Some (fips_SHA1 m)"
  using sha1.pieces [of junk ds] sha1.pieces [of junk "[m]"] by (auto simp: SHA1_compat_def bind_eq_Some_conv)

end
