(* ===== verification/Sha512.thy ===== *)
theory Sha512
  imports HashBlocks
begin

text \<open>
  SHA-512 of \<open>libraries/utilities/SHAUtils.c\<close> as the source computes it, ten groups of eight rounds with rotating
  variables, and as FIPS 180-4 defines it, section 6.4.
\<close>

section \<open>The source\<close>

definition K512 :: "u64 list" where
  "K512 =
    [0x428A2F98D728AE22, 0x7137449123EF65CD, 0xB5C0FBCFEC4D3B2F, 0xE9B5DBA58189DBBC, 0x3956C25BF348B538,
     0x59F111F1B605D019, 0x923F82A4AF194F9B, 0xAB1C5ED5DA6D8118, 0xD807AA98A3030242, 0x12835B0145706FBE,
     0x243185BE4EE4B28C, 0x550C7DC3D5FFB4E2, 0x72BE5D74F27B896F, 0x80DEB1FE3B1696B1, 0x9BDC06A725C71235,
     0xC19BF174CF692694, 0xE49B69C19EF14AD2, 0xEFBE4786384F25E3, 0x0FC19DC68B8CD5B5, 0x240CA1CC77AC9C65,
     0x2DE92C6F592B0275, 0x4A7484AA6EA6E483, 0x5CB0A9DCBD41FBD4, 0x76F988DA831153B5, 0x983E5152EE66DFAB,
     0xA831C66D2DB43210, 0xB00327C898FB213F, 0xBF597FC7BEEF0EE4, 0xC6E00BF33DA88FC2, 0xD5A79147930AA725,
     0x06CA6351E003826F, 0x142929670A0E6E70, 0x27B70A8546D22FFC, 0x2E1B21385C26C926, 0x4D2C6DFC5AC42AED,
     0x53380D139D95B3DF, 0x650A73548BAF63DE, 0x766A0ABB3C77B2A8, 0x81C2C92E47EDAEE6, 0x92722C851482353B,
     0xA2BFE8A14CF10364, 0xA81A664BBC423001, 0xC24B8B70D0F89791, 0xC76C51A30654BE30, 0xD192E819D6EF5218,
     0xD69906245565A910, 0xF40E35855771202A, 0x106AA07032BBD1B8, 0x19A4C116B8D2D0C8, 0x1E376C085141AB53,
     0x2748774CDF8EEB99, 0x34B0BCB5E19B48A8, 0x391C0CB3C5C95A63, 0x4ED8AA4AE3418ACB, 0x5B9CCA4F7763E373,
     0x682E6FF3D6B2B8A3, 0x748F82EE5DEFB2FC, 0x78A5636F43172F60, 0x84C87814A1F0AB72, 0x8CC702081A6439EC,
     0x90BEFFFA23631E28, 0xA4506CEBDE82BDE9, 0xBEF9A3F7B2C67915, 0xC67178F2E372532B, 0xCA273ECEEA26619C,
     0xD186B8C721C0C207, 0xEADA7DD6CDE0EB1E, 0xF57D4F7FEE6ED178, 0x06F067AA72176FBA, 0x0A637DC5A2C898A6,
     0x113F9804BEF90DAE, 0x1B710B35131C471B, 0x28DB77F523047D84, 0x32CAAB7B40C72493, 0x3C9EBE0A15C9BEBC,
     0x431D67C49C100D4C, 0x4CC5D4BECB3E42B6, 0x597F299CFC657E2A, 0x5FCB6FAB3AD6FAEC, 0x6C44198C4A475817]"

definition SHA512_Ch :: "u64 \<Rightarrow> u64 \<Rightarrow> u64 \<Rightarrow> u64" where "SHA512_Ch x y z = z XOR (x AND (y XOR z))"
definition SHA512_Maj :: "u64 \<Rightarrow> u64 \<Rightarrow> u64 \<Rightarrow> u64" where "SHA512_Maj x y z = ((x OR y) AND z) OR (x AND y)"
definition SHA512_Sigma0 :: "u64 \<Rightarrow> u64" where "SHA512_Sigma0 x = ROTR64 x 28 XOR ROTR64 x 34 XOR ROTR64 x 39"
definition SHA512_Sigma1 :: "u64 \<Rightarrow> u64" where "SHA512_Sigma1 x = ROTR64 x 14 XOR ROTR64 x 18 XOR ROTR64 x 41"
definition SHA512_Gamma0 :: "u64 \<Rightarrow> u64" where "SHA512_Gamma0 x = ROTR64 x 1 XOR ROTR64 x 8 XOR drop_bit 7 x"
definition SHA512_Gamma1 :: "u64 \<Rightarrow> u64" where "SHA512_Gamma1 x = ROTR64 x 19 XOR ROTR64 x 61 XOR drop_bit 6 x"

text \<open>\<open>SHA512_RND\<close>: the new values of \<open>d\<close> and \<open>h\<close>.\<close>

definition SHA512_RND :: "u64 list \<Rightarrow> nat \<Rightarrow> u64 \<Rightarrow> u64 \<Rightarrow> u64 \<Rightarrow> u64 \<Rightarrow> u64 \<Rightarrow> u64 \<Rightarrow> u64 \<Rightarrow> u64 \<Rightarrow> u64 \<times> u64" where
  "SHA512_RND W i a b c d e f g h =
     (let t0 = h + SHA512_Sigma1 e + SHA512_Ch e f g + K512 ! i + W ! i;
          t1 = SHA512_Sigma0 a + SHA512_Maj a b c in
      (d + t0, t0 + t1))"

type_synonym chain8 = "u64 \<times> u64 \<times> u64 \<times> u64 \<times> u64 \<times> u64 \<times> u64 \<times> u64"

definition sha512_eight :: "u64 list \<Rightarrow> nat \<Rightarrow> chain8 \<Rightarrow> chain8" where
  "sha512_eight W i = (\<lambda>(s0, s1, s2, s3, s4, s5, s6, s7).
     let (s3, s7) = SHA512_RND W (i + 0) s0 s1 s2 s3 s4 s5 s6 s7;
         (s2, s6) = SHA512_RND W (i + 1) s7 s0 s1 s2 s3 s4 s5 s6;
         (s1, s5) = SHA512_RND W (i + 2) s6 s7 s0 s1 s2 s3 s4 s5;
         (s0, s4) = SHA512_RND W (i + 3) s5 s6 s7 s0 s1 s2 s3 s4;
         (s7, s3) = SHA512_RND W (i + 4) s4 s5 s6 s7 s0 s1 s2 s3;
         (s6, s2) = SHA512_RND W (i + 5) s3 s4 s5 s6 s7 s0 s1 s2;
         (s5, s1) = SHA512_RND W (i + 6) s2 s3 s4 s5 s6 s7 s0 s1;
         (s4, s0) = SHA512_RND W (i + 7) s1 s2 s3 s4 s5 s6 s7 s0 in
     (s0, s1, s2, s3, s4, s5, s6, s7))"

function sha512_rounds :: "u64 list \<Rightarrow> nat \<Rightarrow> nat \<Rightarrow> chain8 \<Rightarrow> chain8" where
  "sha512_rounds W i n s = (if i < n then sha512_rounds W (i + 8) n (sha512_eight W i s) else s)"
  by pat_completeness auto
termination
  by (relation "measure (\<lambda>(W, i, n, s). n - i)") auto

declare sha512_rounds.simps [simp del]

fun sha512_expand :: "nat \<Rightarrow> u64 list \<Rightarrow> u64 list" where
  "sha512_expand 0 W = W"
| "sha512_expand (Suc n) W = (let i = length W in
     sha512_expand n (W @ [SHA512_Gamma1 (W ! (i - 2)) + W ! (i - 7) + SHA512_Gamma0 (W ! (i - 15)) + W ! (i - 16)]))"

definition SHA512_Compress :: "u64 list \<Rightarrow> bytes \<Rightarrow> u64 list" where
  "SHA512_Compress st inPtr =
     (let W = sha512_expand 64 (map (\<lambda>i. ReadBig64 inPtr (8 * i)) [0..<16]);
          (s0, s1, s2, s3, s4, s5, s6, s7) =
            sha512_rounds W 0 80 (st ! 0, st ! 1, st ! 2, st ! 3, st ! 4, st ! 5, st ! 6, st ! 7) in
      [st ! 0 + s0, st ! 1 + s1, st ! 2 + s2, st ! 3 + s3, st ! 4 + s4, st ! 5 + s5, st ! 6 + s6, st ! 7 + s7])"

definition sha512_iv :: "u64 list" where
  "sha512_iv = [0x6A09E667F3BCC908, 0xBB67AE8584CAA73B, 0x3C6EF372FE94F82B, 0xA54FF53A5F1D36F1,
     0x510E527FADE682D1, 0x9B05688C2B3E6C1F, 0x1F83D9ABFB41BD6B, 0x5BE0CD19137E2179]"

text \<open>The buffer keeps the bytes that the memory of the context has, \<open>junk\<close>.\<close>

definition SHA512_Init_compat :: "(nat \<Rightarrow> u8) \<Rightarrow> u64 sha_ctx" where
  "SHA512_Init_compat junk = \<lparr>ctx_length = 0, ctx_state = sha512_iv, ctx_curlen = 0, ctx_buf = map junk [0..<128]\<rparr>"

definition SHA512_Update_compat :: "u64 sha_ctx \<Rightarrow> bytes \<Rightarrow> u64 sha_ctx option" where
  "SHA512_Update_compat = sha_update 128 SHA512_Compress"

definition SHA512_Final_compat :: "u64 sha_ctx \<Rightarrow> bytes option" where
  "SHA512_Final_compat = sha_final 128 112 120 (\<lambda>c. ucast c * 8) SHA512_Compress WriteBig64"

definition SHA512_compat :: "(nat \<Rightarrow> u8) \<Rightarrow> bytes \<Rightarrow> bytes option" where
  "SHA512_compat junk inData = do { ctx \<leftarrow> SHA512_Update_compat (SHA512_Init_compat junk) inData; SHA512_Final_compat ctx }"

section \<open>The standard\<close>

definition fips_Ch64 :: "u64 \<Rightarrow> u64 \<Rightarrow> u64 \<Rightarrow> u64" where "fips_Ch64 x y z = (x AND y) XOR (NOT x AND z)"
definition fips_Maj64 :: "u64 \<Rightarrow> u64 \<Rightarrow> u64 \<Rightarrow> u64" where "fips_Maj64 x y z = (x AND y) XOR (x AND z) XOR (y AND z)"

definition fips_Sigma :: "nat \<Rightarrow> nat \<Rightarrow> nat \<Rightarrow> u64 \<Rightarrow> u64" where
  "fips_Sigma i j k x = word_rotr i x XOR word_rotr j x XOR word_rotr k x"

definition fips_sigma :: "nat \<Rightarrow> nat \<Rightarrow> nat \<Rightarrow> u64 \<Rightarrow> u64" where
  "fips_sigma i j k x = word_rotr i x XOR word_rotr j x XOR drop_bit k x"

fun fips_W512 :: "bytes \<Rightarrow> nat \<Rightarrow> u64" where
  "fips_W512 b t = (if t < 16 then ReadBig64 b (8 * t)
     else fips_sigma 19 61 6 (fips_W512 b (t - 2)) + fips_W512 b (t - 7) + fips_sigma 1 8 7 (fips_W512 b (t - 15)) + fips_W512 b (t - 16))"

declare fips_W512.simps [simp del]

text \<open>The constants are the first 64 bits of the fractional parts of the cube roots of the first 80 primes; those the
  chaining value begins with are bits of square roots. \<open>root_bits n p k\<close>: the bits \<open>k\<close> follow the integer part of the
  \<open>n\<close>th root of \<open>p\<close>.\<close>

definition fips_primes :: "int list" where
  "fips_primes =
    [2, 3, 5, 7, 11, 13, 17, 19, 23, 29, 31, 37, 41, 43, 47, 53, 59, 61, 67, 71, 73, 79, 83, 89, 97, 101, 103, 107, 109,
     113, 127, 131, 137, 139, 149, 151, 157, 163, 167, 173, 179, 181, 191, 193, 197, 199, 211, 223, 227, 229, 233, 239,
     241, 251, 257, 263, 269, 271, 277, 281, 283, 293, 307, 311, 313, 317, 331, 337, 347, 349, 353, 359, 367, 373, 379,
     383, 389, 397, 401, 409]"

definition root_bits :: "nat \<Rightarrow> int \<Rightarrow> u64 \<Rightarrow> bool" where
  "root_bits n p k =
     (let c = int (length (takeWhile (\<lambda>a. a ^ n \<le> p) [1, 2, 3, 4, 5, 6, 7, 8])) * 2 ^ 64 + uint k; q = p * 2 ^ (64 * n) in
      c ^ n \<le> q \<and> q < (c + 1) ^ n)"

definition fips_step512 :: "(nat \<Rightarrow> u64) \<Rightarrow> nat \<Rightarrow> chain8 \<Rightarrow> chain8" where
  "fips_step512 W t = (\<lambda>(a, b, c, d, e, f, g, h).
     let T1 = h + fips_Sigma 14 18 41 e + fips_Ch64 e f g + K512 ! t + W t; T2 = fips_Sigma 28 34 39 a + fips_Maj64 a b c in
     (T1 + T2, a, b, c, d + T1, e, f, g))"

definition fips_block512 :: "u64 list \<Rightarrow> bytes \<Rightarrow> u64 list" where
  "fips_block512 H b =
     (case fold (fips_step512 (fips_W512 b)) [0..<80] (H ! 0, H ! 1, H ! 2, H ! 3, H ! 4, H ! 5, H ! 6, H ! 7) of
        (x0, x1, x2, x3, x4, x5, x6, x7) \<Rightarrow>
          [H ! 0 + x0, H ! 1 + x1, H ! 2 + x2, H ! 3 + x3, H ! 4 + x4, H ! 5 + x5, H ! 6 + x6, H ! 7 + x7])"

text \<open>The 128 bits of the length begin with 64 bits 0 for messages of fewer than \<open>2 ^ 61\<close> bytes.\<close>

definition fips_SHA512 :: "bytes \<Rightarrow> bytes" where
  "fips_SHA512 m = concat (map WriteBig64 (absorb 128 fips_block512 sha512_iv
     (m @ 0x80 # replicate ((239 - length m mod 128) mod 128) 0 @ replicate 8 0 @ WriteBig64 (of_nat (8 * length m)))))"

lemma K512_roots_1: "list_all2 (root_bits 3) (take 20 (drop 0 fips_primes)) (take 20 (drop 0 K512))"
  by (simp add: fips_primes_def K512_def root_bits_def)

lemma K512_roots_2: "list_all2 (root_bits 3) (take 20 (drop 20 fips_primes)) (take 20 (drop 20 K512))"
  by (simp add: fips_primes_def K512_def root_bits_def)

lemma K512_roots_3: "list_all2 (root_bits 3) (take 20 (drop 40 fips_primes)) (take 20 (drop 40 K512))"
  by (simp add: fips_primes_def K512_def root_bits_def)

lemma K512_roots_4: "list_all2 (root_bits 3) (take 20 (drop 60 fips_primes)) (take 20 (drop 60 K512))"
  by (simp add: fips_primes_def K512_def root_bits_def)

lemma K512_roots: "list_all2 (root_bits 3) fips_primes K512"
proof -
  have "xs = take 20 (drop 0 xs) @ take 20 (drop 20 xs) @ take 20 (drop 40 xs) @ take 20 (drop 60 xs)" if "length xs = 80" for xs :: "'b list"
    using that append_take_drop_id [of 20 xs] append_take_drop_id [of 20 "drop 20 xs"] append_take_drop_id [of 20 "drop 40 xs"] by simp
  moreover have "length fips_primes = 80" "length K512 = 80" by (simp_all add: fips_primes_def K512_def)
  ultimately show ?thesis by (metis list_all2_appendI K512_roots_1 K512_roots_2 K512_roots_3 K512_roots_4)
qed

lemma sha512_iv_roots: "list_all2 (root_bits 2) (take 8 fips_primes) sha512_iv"
  by (simp add: fips_primes_def sha512_iv_def root_bits_def)

section \<open>Rounds\<close>

lemma SHA512_functions:
  "SHA512_Ch x y z = fips_Ch64 x y z" "SHA512_Maj x y z = fips_Maj64 x y z"
  "SHA512_Sigma0 x = fips_Sigma 28 34 39 x" "SHA512_Sigma1 x = fips_Sigma 14 18 41 x"
  "SHA512_Gamma0 x = fips_sigma 1 8 7 x" "SHA512_Gamma1 x = fips_sigma 19 61 6 x"
proof -
  show "SHA512_Ch x y z = fips_Ch64 x y z"
    by (rule bit_word_eqI) (auto simp: SHA512_Ch_def fips_Ch64_def bit_simps)
  show "SHA512_Maj x y z = fips_Maj64 x y z"
    by (rule bit_word_eqI) (auto simp: SHA512_Maj_def fips_Maj64_def bit_simps)
qed (simp_all add: SHA512_Sigma0_def SHA512_Sigma1_def SHA512_Gamma0_def SHA512_Gamma1_def fips_Sigma_def fips_sigma_def ROTR64_word_rotr)

lemma SHA512_RND_step:
  "SHA512_RND W t a b c d e f g h = (d', h') \<Longrightarrow> W ! t = V t \<Longrightarrow> fips_step512 V t (a, b, c, d, e, f, g, h) = (h', a, b, c, d', e, f, g)"
  by (auto simp: SHA512_RND_def fips_step512_def Let_def SHA512_functions)

lemma sha512_eight_steps:
  assumes "\<And>j. j < 8 \<Longrightarrow> W ! (i + j) = V (i + j)"
  shows "sha512_eight W i s = fold (fips_step512 V) [i..<i + 8] s"
proof -
  have u: "[i..<i + 8] = [i + 0, i + 1, i + 2, i + 3, i + 4, i + 5, i + 6, i + 7]" by (simp add: upt_rec)
  have q: "fips_step512 V (i + j) (a, b, c, d, e, f, g, h) = (h', a, b, c, d', e, f, g)"
    if "SHA512_RND W (i + j) a b c d e f g h = (d', h')" "j < 8" for j a b c d e f g h d' h'
    by (rule SHA512_RND_step [OF that(1)]) (rule assms [OF that(2)])
  have lt: "(0::nat) < 8" "(1::nat) < 8" "(2::nat) < 8" "(3::nat) < 8" "(4::nat) < 8" "(5::nat) < 8" "(6::nat) < 8" "(7::nat) < 8"
    by simp_all
  obtain a b c d e f g h where s: "s = (a, b, c, d, e, f, g, h)" by (metis surj_pair)
  obtain d1 h1 where r0: "SHA512_RND W (i + 0) a b c d e f g h = (d1, h1)" by (meson surj_pair)
  obtain d2 h2 where r1: "SHA512_RND W (i + 1) h1 a b c d1 e f g = (d2, h2)" by (meson surj_pair)
  obtain d3 h3 where r2: "SHA512_RND W (i + 2) h2 h1 a b d2 d1 e f = (d3, h3)" by (meson surj_pair)
  obtain d4 h4 where r3: "SHA512_RND W (i + 3) h3 h2 h1 a d3 d2 d1 e = (d4, h4)" by (meson surj_pair)
  obtain d5 h5 where r4: "SHA512_RND W (i + 4) h4 h3 h2 h1 d4 d3 d2 d1 = (d5, h5)" by (meson surj_pair)
  obtain d6 h6 where r5: "SHA512_RND W (i + 5) h5 h4 h3 h2 d5 d4 d3 d2 = (d6, h6)" by (meson surj_pair)
  obtain d7 h7 where r6: "SHA512_RND W (i + 6) h6 h5 h4 h3 d6 d5 d4 d3 = (d7, h7)" by (meson surj_pair)
  obtain d8 h8 where r7: "SHA512_RND W (i + 7) h7 h6 h5 h4 d7 d6 d5 d4 = (d8, h8)" by (meson surj_pair)
  have "sha512_eight W i s = (h8, h7, h6, h5, d8, d7, d6, d5)"
    unfolding s sha512_eight_def by (simp only: prod.case Let_def r0 r1 r2 r3 r4 r5 r6 r7)
  moreover have "fold (fips_step512 V) [i..<i + 8] s = (h8, h7, h6, h5, d8, d7, d6, d5)"
    unfolding s u fold_simps
    by (simp only: id_apply comp_apply q [OF r0 lt(1)] q [OF r1 lt(2)] q [OF r2 lt(3)] q [OF r3 lt(4)] q [OF r4 lt(5)] q [OF r5 lt(6)]
        q [OF r6 lt(7)] q [OF r7 lt(8)])
  ultimately show ?thesis by simp
qed

lemma sha512_rounds_steps:
  "(\<And>t. i \<le> t \<Longrightarrow> t < i + 8 * j \<Longrightarrow> W ! t = V t) \<Longrightarrow> sha512_rounds W i (i + 8 * j) s = fold (fips_step512 V) [i..<i + 8 * j] s"
proof (induction j arbitrary: i s)
  case 0
  then show ?case by (simp add: sha512_rounds.simps)
next
  case (Suc j)
  have "sha512_rounds W i (i + 8 * Suc j) s = sha512_rounds W (i + 8) (i + 8 + 8 * j) (sha512_eight W i s)"
    by (subst sha512_rounds.simps) (simp add: ac_simps)
  also have "\<dots> = fold (fips_step512 V) [i + 8..<i + 8 + 8 * j] (fold (fips_step512 V) [i..<i + 8] s)"
  proof -
    have "sha512_eight W i s = fold (fips_step512 V) [i..<i + 8] s" using Suc.prems by (intro sha512_eight_steps) auto
    then show ?thesis using Suc.prems by (subst Suc.IH) auto
  qed
  also have "\<dots> = fold (fips_step512 V) ([i..<i + 8] @ [i + 8..<i + 8 + 8 * j]) s" by simp
  also have "[i..<i + 8] @ [i + 8..<i + 8 + 8 * j] = [i..<i + 8 * Suc j]"
    using upt_add_eq_append [of i "i + 8" "8 * j"] by (simp add: ac_simps)
  finally show ?case .
qed

lemma sha512_expand_words:
  "16 \<le> length W \<Longrightarrow> (\<And>t. t < length W \<Longrightarrow> W ! t = fips_W512 b t) \<Longrightarrow> t < length W + n \<Longrightarrow>
     sha512_expand n W ! t = fips_W512 b t"
proof (induction n arbitrary: W)
  case (Suc n)
  define w where "w = SHA512_Gamma1 (W ! (length W - 2)) + W ! (length W - 7) + SHA512_Gamma0 (W ! (length W - 15)) + W ! (length W - 16)"
  have w: "w = fips_W512 b (length W)"
    using Suc.prems(1,2) by (simp add: w_def fips_W512.simps [of b "length W"] SHA512_functions)
  have "sha512_expand n (W @ [w]) ! t = fips_W512 b t"
  proof (rule Suc.IH)
    fix u assume "u < length (W @ [w])"
    then show "(W @ [w]) ! u = fips_W512 b u" using Suc.prems(2) [of u] w by (cases "u = length W") (auto simp: nth_append)
  qed (use Suc.prems in auto)
  then show ?case by (simp add: w_def Let_def)
qed simp

lemma SHA512_Compress_fips: "SHA512_Compress st b = fips_block512 st b"
proof -
  let ?W = "sha512_expand 64 (map (\<lambda>i. ReadBig64 b (8 * i)) [0..<16])"
  have "?W ! t = fips_W512 b t" if "t < 80" for t
    using that by (intro sha512_expand_words) (auto simp: fips_W512.simps [of b])
  then have "sha512_rounds ?W 0 80 s = fold (fips_step512 (fips_W512 b)) [0..<80] s" for s
    using sha512_rounds_steps [of 0 10 ?W "fips_W512 b" s] by simp
  then show ?thesis by (simp only: SHA512_Compress_def fips_block512_def Let_def)
qed

section \<open>Messages\<close>

lemma sha512_padding: "m @ sha_padding 128 112 (length m) =
    m @ 0x80 # replicate ((239 - length m mod 128) mod 128) 0 @ replicate 8 0 @ WriteBig64 (of_nat (8 * length m))"
  by (simp add: sha_padding_def)

interpretation sha512: streaming_hash "ctx_holds 128 SHA512_Compress sha512_iv" "SHA512_Init_compat junk" SHA512_Update_compat SHA512_Final_compat fips_SHA512
  for junk :: "nat \<Rightarrow> u8"
proof (unfold_locales, goal_cases)
  case 1
  show ?case by (simp add: ctx_holds_def SHA512_Init_compat_def remainder_def)
next
  case (2 c m d)
  then show ?case using sha_update_holds [of 128 SHA512_Compress _ c m d] by (simp add: SHA512_Update_compat_def)
next
  case (3 c m)
  have "(ucast x * 8 :: u64) = of_nat (8 * unat x)" for x :: u32 by simp
  moreover have "SHA512_Compress = fips_block512" by (simp add: SHA512_Compress_fips fun_eq_iff)
  ultimately show ?case using sha_final_digest [OF 3, of 112 "\<lambda>c. ucast c * 8" WriteBig64]
    by (simp add: SHA512_Final_compat_def fips_SHA512_def sha512_padding)
qed

section \<open>Properties\<close>

text \<open>
  C15. However a message is cut into pieces, feeding them to \<open>SHA512_Update_compat\<close> and finishing delivers its SHA-512
  digest as FIPS 180-4 defines it, and so does \<open>SHA512_compat\<close>. No copy leaves the buffer of the context,
  and what the memory held before does not matter. The tables of the source hold the bits of the roots of primes that
  the standard asks for.
\<close>

theorem sha512_is_fips180:
  "(\<exists>ctx. update_all SHA512_Update_compat (SHA512_Init_compat junk) ds = Some ctx \<and> SHA512_Final_compat ctx = Some (fips_SHA512 (concat ds))) \<and>
   SHA512_compat junk m = Some (fips_SHA512 m) \<and>
   list_all2 (root_bits 3) fips_primes K512 \<and> list_all2 (root_bits 2) (take 8 fips_primes) (ctx_state (SHA512_Init_compat junk))"
  using K512_roots sha512_iv_roots sha512.pieces [of junk ds] sha512.pieces [of junk "[m]"]
  by (auto simp: SHA512_compat_def SHA512_Init_compat_def bind_eq_Some_conv)

end
