(* ===== verification/Sha3.thy ===== *)
theory Sha3
  imports HashStream
begin

text \<open>
  The hash of \<open>libraries/utilities/SHAUtils.c\<close> over the permutation Keccak-f[1600], as the source computes it, with the
  25 lanes updated in place, and as the Keccak reference defines it, step by step on the array of lanes. \<open>size_t\<close> has
  32 bits. A copy outside the buffer of the context is \<open>None\<close>.
\<close>

section \<open>The source\<close>

definition kSHA3RoundConstants :: "u64 list" where
  "kSHA3RoundConstants =
    [0x0000000000000001, 0x0000000000008082, 0x800000000000808a, 0x8000000080008000, 0x000000000000808b, 0x0000000080000001,
     0x8000000080008081, 0x8000000000008009, 0x000000000000008a, 0x0000000000000088, 0x0000000080008009, 0x000000008000000a,
     0x000000008000808b, 0x800000000000008b, 0x8000000000008089, 0x8000000000008003, 0x8000000000008002, 0x8000000000000080,
     0x000000000000800a, 0x800000008000000a, 0x8000000080008081, 0x8000000000008080, 0x0000000080000001, 0x8000000080008008]"

text \<open>The first lines of \<open>_SHA3_Block\<close>: the 72 bytes of the block go into the first nine lanes.\<close>

definition sha3_input :: "u64 list \<Rightarrow> bytes \<Rightarrow> u64 list" where
  "sha3_input st b =
    [st ! 0 XOR ReadLittle64 b 0, st ! 1 XOR ReadLittle64 b 8, st ! 2 XOR ReadLittle64 b 16, st ! 3 XOR ReadLittle64 b 24,
     st ! 4 XOR ReadLittle64 b 32, st ! 5 XOR ReadLittle64 b 40, st ! 6 XOR ReadLittle64 b 48, st ! 7 XOR ReadLittle64 b 56,
     st ! 8 XOR ReadLittle64 b 64, st ! 9, st ! 10, st ! 11, st ! 12, st ! 13, st ! 14, st ! 15, st ! 16, st ! 17, st ! 18, st ! 19,
     st ! 20, st ! 21, st ! 22, st ! 23, st ! 24]"

definition sha3_theta :: "u64 list \<Rightarrow> u64 list" where
  "sha3_theta s =
     (let t0 = s ! 0 XOR s ! 5 XOR s ! 10 XOR s ! 15 XOR s ! 20;
          t1 = s ! 1 XOR s ! 6 XOR s ! 11 XOR s ! 16 XOR s ! 21;
          t2 = s ! 2 XOR s ! 7 XOR s ! 12 XOR s ! 17 XOR s ! 22;
          t3 = s ! 3 XOR s ! 8 XOR s ! 13 XOR s ! 18 XOR s ! 23;
          t4 = s ! 4 XOR s ! 9 XOR s ! 14 XOR s ! 19 XOR s ! 24;
          u0 = t4 XOR ROTL64 t1 1;
          u1 = t0 XOR ROTL64 t2 1;
          u2 = t1 XOR ROTL64 t3 1;
          u3 = t2 XOR ROTL64 t4 1;
          u4 = t3 XOR ROTL64 t0 1 in
      [s ! 0 XOR u0, s ! 1 XOR u1, s ! 2 XOR u2, s ! 3 XOR u3, s ! 4 XOR u4,
       s ! 5 XOR u0, s ! 6 XOR u1, s ! 7 XOR u2, s ! 8 XOR u3, s ! 9 XOR u4,
       s ! 10 XOR u0, s ! 11 XOR u1, s ! 12 XOR u2, s ! 13 XOR u3, s ! 14 XOR u4,
       s ! 15 XOR u0, s ! 16 XOR u1, s ! 17 XOR u2, s ! 18 XOR u3, s ! 19 XOR u4,
       s ! 20 XOR u0, s ! 21 XOR u1, s ! 22 XOR u2, s ! 23 XOR u3, s ! 24 XOR u4])"

text \<open>The assignments in their order: lane \<open>d\<close> gets lane \<open>j\<close> rotated by \<open>n\<close>. Every lane is read before it is written.\<close>

definition sha3_moves :: "(nat \<times> nat \<times> nat) list" where
  "sha3_moves =
    [(1, 6, 44), (6, 9, 20), (9, 22, 61), (22, 14, 39), (14, 20, 18), (20, 2, 62), (2, 12, 43), (12, 13, 25), (13, 19, 8),
     (19, 23, 56), (23, 15, 41), (15, 4, 27), (4, 24, 14), (24, 21, 2), (21, 8, 55), (8, 16, 45), (16, 5, 36), (5, 3, 28),
     (3, 18, 21), (18, 17, 15), (17, 11, 10), (11, 7, 6), (7, 10, 3)]"

definition sha3_rho_pi :: "u64 list \<Rightarrow> u64 list" where
  "sha3_rho_pi s = (let v = s ! 1; s = fold (\<lambda>(d, j, n) s. s[d := ROTL64 (s ! j) n]) sha3_moves s in s[10 := ROTL64 v 1])"

definition sha3_chi_row :: "nat \<Rightarrow> u64 list \<Rightarrow> u64 list" where
  "sha3_chi_row i s =
     (let v = s ! i; w = s ! (i + 1);
          s = s[i := s ! i XOR (NOT w AND s ! (i + 2))];
          s = s[i + 1 := s ! (i + 1) XOR (NOT (s ! (i + 2)) AND s ! (i + 3))];
          s = s[i + 2 := s ! (i + 2) XOR (NOT (s ! (i + 3)) AND s ! (i + 4))];
          s = s[i + 3 := s ! (i + 3) XOR (NOT (s ! (i + 4)) AND v)] in
      s[i + 4 := s ! (i + 4) XOR (NOT v AND w)])"

definition sha3_chi :: "u64 list \<Rightarrow> u64 list" where
  "sha3_chi s = fold sha3_chi_row [0, 5, 10, 15, 20] s"

definition sha3_iota :: "nat \<Rightarrow> u64 list \<Rightarrow> u64 list" where
  "sha3_iota i s = s[0 := s ! 0 XOR kSHA3RoundConstants ! i]"

definition SHA3_Block :: "u64 list \<Rightarrow> bytes \<Rightarrow> u64 list" where
  "SHA3_Block st b = fold (\<lambda>i s. sha3_iota i (sha3_chi (sha3_rho_pi (sha3_theta s)))) [0..<24] (sha3_input st b)"

record sha3_ctx =
  s3_state :: "u64 list"
  s3_leftover :: u32
  s3_buffer :: bytes

definition SHA3_Init_compat :: sha3_ctx where
  "SHA3_Init_compat = \<lparr>s3_state = replicate 25 0, s3_leftover = 0, s3_buffer = replicate 72 0\<rparr>"

text \<open>The loop over whole blocks, and the bytes that it leaves.\<close>

function sha3_blocks :: "u64 list \<Rightarrow> bytes \<Rightarrow> u64 list \<times> bytes" where
  "sha3_blocks st src = (if length src \<ge> 72 then sha3_blocks (SHA3_Block st (take 72 src)) (drop 72 src) else (st, src))"
  by pat_completeness auto
termination
  by (relation "measure (\<lambda>(st, src). length src)") auto

declare sha3_blocks.simps [simp del]

definition sha3_current :: "sha3_ctx \<Rightarrow> bytes \<Rightarrow> sha3_ctx option" where
  "sha3_current ctx src = (let (st, r) = sha3_blocks (s3_state ctx) src in do {
     b \<leftarrow> blit (s3_buffer ctx) 0 r;
     Some (ctx\<lparr>s3_state := st, s3_leftover := of_nat (length r), s3_buffer := b\<rparr>)
   })"

definition SHA3_Update_compat :: "sha3_ctx \<Rightarrow> bytes \<Rightarrow> sha3_ctx option" where
  "SHA3_Update_compat ctx src =
     (if s3_leftover ctx > 0 then do {
        let want = min (unat (72 - s3_leftover ctx)) (length src);
        b \<leftarrow> blit (s3_buffer ctx) (unat (s3_leftover ctx)) (take want src);
        let left = s3_leftover ctx + of_nat want;
        if left < 72 then Some (ctx\<lparr>s3_leftover := left, s3_buffer := b\<rparr>)
        else sha3_current (ctx\<lparr>s3_state := SHA3_Block (s3_state ctx) b, s3_leftover := left, s3_buffer := b\<rparr>) (drop want src)
      } else sha3_current ctx src)"

definition SHA3_Final_compat :: "sha3_ctx \<Rightarrow> bytes option" where
  "SHA3_Final_compat ctx = do {
     let i = unat (s3_leftover ctx);
     b \<leftarrow> wr (s3_buffer ctx) i 0x01;
     b \<leftarrow> blit b (i + 1) (replicate (72 - (i + 1)) 0);
     let b = b[71 := b ! 71 OR 0x80];
     let st = SHA3_Block (s3_state ctx) b;
     Some (concat (map (\<lambda>i. WriteLittle64 (st ! i)) [0..<8]))
   }"

definition SHA3_compat :: "bytes \<Rightarrow> bytes option" where
  "SHA3_compat inData = do { ctx \<leftarrow> SHA3_Update_compat SHA3_Init_compat inData; SHA3_Final_compat ctx }"

section \<open>The reference\<close>

text \<open>The lane at \<open>(x, y)\<close>; the coordinates are taken modulo 5.\<close>

definition lane :: "u64 list \<Rightarrow> nat \<Rightarrow> nat \<Rightarrow> u64" where
  "lane s x y = s ! (x mod 5 + 5 * (y mod 5))"

definition lanes :: "(nat \<Rightarrow> nat \<Rightarrow> u64) \<Rightarrow> u64 list" where
  "lanes A = map (\<lambda>i. A (i mod 5) (i div 5)) [0..<25]"

definition keccak_theta :: "u64 list \<Rightarrow> u64 list" where
  "keccak_theta s =
     (let C = \<lambda>x. lane s x 0 XOR lane s x 1 XOR lane s x 2 XOR lane s x 3 XOR lane s x 4 in
      lanes (\<lambda>x y. lane s x y XOR C (x + 4) XOR word_rotl 1 (C (x + 1))))"

text \<open>The path of the lanes: lane \<open>(1, 0)\<close> is rotated by 1, the next by 3, then by 6, 10 and so on.\<close>

fun keccak_path :: "nat \<Rightarrow> nat \<Rightarrow> nat \<Rightarrow> nat \<Rightarrow> ((nat \<times> nat) \<times> nat) list" where
  "keccak_path 0 t x y = []"
| "keccak_path (Suc k) t x y = ((x, y), (t + 1) * (t + 2) div 2 mod 64) # keccak_path k (t + 1) y ((2 * x + 3 * y) mod 5)"

definition keccak_rotation :: "nat \<Rightarrow> nat \<Rightarrow> nat" where
  "keccak_rotation x y = (case map_of (keccak_path 24 0 1 0) (x mod 5, y mod 5) of None \<Rightarrow> 0 | Some n \<Rightarrow> n)"

definition keccak_rho :: "u64 list \<Rightarrow> u64 list" where
  "keccak_rho s = lanes (\<lambda>x y. word_rotl (keccak_rotation x y) (lane s x y))"

definition keccak_pi :: "u64 list \<Rightarrow> u64 list" where
  "keccak_pi s = lanes (\<lambda>x y. lane s (x + 3 * y) x)"

definition keccak_chi :: "u64 list \<Rightarrow> u64 list" where
  "keccak_chi s = lanes (\<lambda>x y. lane s x y XOR (NOT (lane s (x + 1) y) AND lane s (x + 2) y))"

text \<open>The bits of the round constants come from a linear feedback shift register of 8 bits.\<close>

fun keccak_rc :: "nat \<Rightarrow> u8 \<Rightarrow> bool list" where
  "keccak_rc 0 R = []"
| "keccak_rc (Suc k) R = bit R 0 # keccak_rc k (push_bit 1 R XOR (if bit R 7 then 0x71 else 0))"

definition keccak_RC :: "bool list \<Rightarrow> nat \<Rightarrow> u64" where
  "keccak_RC rc i = fold (\<lambda>j w. if rc ! (j + 7 * i) then w OR push_bit (2 ^ j - 1) 1 else w) [0..<7] 0"

definition keccak_iota :: "nat \<Rightarrow> u64 list \<Rightarrow> u64 list" where
  "keccak_iota i s = lanes (\<lambda>x y. if x = 0 \<and> y = 0 then lane s x y XOR keccak_RC (keccak_rc 168 1) i else lane s x y)"

definition keccak_f :: "u64 list \<Rightarrow> u64 list" where
  "keccak_f s = fold (\<lambda>i s. keccak_iota i (keccak_chi (keccak_pi (keccak_rho (keccak_theta s))))) [0..<24] s"

definition keccak_block :: "u64 list \<Rightarrow> bytes \<Rightarrow> u64 list" where
  "keccak_block s b = keccak_f (lanes (\<lambda>x y. let i = x + 5 * y in s ! i XOR (if i < 9 then ReadLittle64 b (8 * i) else 0)))"

text \<open>Padding: a bit 1, zeros and a bit 1, to the end of a block; one byte \<open>0x81\<close> if one byte is left.\<close>

definition keccak_pad :: "nat \<Rightarrow> bytes" where
  "keccak_pad len = (let q = 72 - len mod 72 in if q = 1 then [0x81] else 0x01 # replicate (q - 2) 0 @ [0x80])"

definition keccak512 :: "bytes \<Rightarrow> bytes" where
  "keccak512 m = concat (map WriteLittle64 (take 8 (absorb 72 keccak_block (replicate 25 0) (m @ keccak_pad (length m)))))"

section \<open>Rounds\<close>

lemma upt_25: "[0..<25] = [0, 1, 2, 3, 4, 5, 6, 7, 8, 9, 10, 11, 12, 13, 14, 15, 16, 17, 18, 19, 20, 21, 22, 23, 24 :: nat]"
  by code_simp

lemma lanes_list: "lanes A =
    [A 0 0, A 1 0, A 2 0, A 3 0, A 4 0, A 0 1, A 1 1, A 2 1, A 3 1, A 4 1, A 0 2, A 1 2, A 2 2, A 3 2, A 4 2,
     A 0 3, A 1 3, A 2 3, A 3 3, A 4 3, A 0 4, A 1 4, A 2 4, A 3 4, A 4 4]"
  by (simp add: lanes_def upt_25)

lemma length_lanes [simp]: "length (lanes A) = 25"
  by (simp add: lanes_def)

lemma theta_keccak: "sha3_theta s = keccak_theta s"
  by (simp add: sha3_theta_def keccak_theta_def lanes_list lane_def ROTL64_word_rotl numeral_2_eq_2 Let_def)

lemma list_25:
  assumes "length s = 25"
  shows "s = [s ! 0, s ! 1, s ! 2, s ! 3, s ! 4, s ! 5, s ! 6, s ! 7, s ! 8, s ! 9, s ! 10, s ! 11, s ! 12, s ! 13, s ! 14, s ! 15,
    s ! 16, s ! 17, s ! 18, s ! 19, s ! 20, s ! 21, s ! 22, s ! 23, s ! 24]"
  using map_nth [of s] unfolding assms upt_25 by simp

lemma keccak_rotations:
  "map (\<lambda>i. keccak_rotation (i mod 5) (i div 5)) [0..<25] =
    [0, 1, 62, 28, 27, 36, 44, 6, 55, 20, 3, 10, 43, 25, 39, 41, 45, 15, 21, 8, 18, 2, 61, 56, 14]"
  by code_simp

lemma kSHA3RoundConstants_rc: "kSHA3RoundConstants = map (keccak_RC (keccak_rc 168 1)) [0..<24]"
  by code_simp

lemma rotations_at: "i < 25 \<Longrightarrow> keccak_rotation (i mod 5) (i div 5) =
    [0, 1, 62, 28, 27, 36, 44, 6, 55, 20, 3, 10, 43, 25, 39, 41, 45, 15, 21, 8, 18, 2, 61, 56, 14] ! i"
  using arg_cong [OF keccak_rotations, of "\<lambda>l. l ! i"] by simp

lemma keccak_rho_list: "keccak_rho s =
    [s ! 0, word_rotl 1 (s ! 1), word_rotl 62 (s ! 2), word_rotl 28 (s ! 3), word_rotl 27 (s ! 4), word_rotl 36 (s ! 5), word_rotl 44 (s ! 6),
     word_rotl 6 (s ! 7), word_rotl 55 (s ! 8), word_rotl 20 (s ! 9), word_rotl 3 (s ! 10), word_rotl 10 (s ! 11), word_rotl 43 (s ! 12),
     word_rotl 25 (s ! 13), word_rotl 39 (s ! 14), word_rotl 41 (s ! 15), word_rotl 45 (s ! 16), word_rotl 15 (s ! 17), word_rotl 21 (s ! 18),
     word_rotl 8 (s ! 19), word_rotl 18 (s ! 20), word_rotl 2 (s ! 21), word_rotl 61 (s ! 22), word_rotl 56 (s ! 23), word_rotl 14 (s ! 24)]"
proof -
  have "keccak_rho s = map (\<lambda>i. word_rotl (keccak_rotation (i mod 5) (i div 5)) (s ! i)) [0..<25]"
    by (simp add: keccak_rho_def lanes_def lane_def)
  also have "\<dots> = map (\<lambda>i. word_rotl ([0, 1, 62, 28, 27, 36, 44, 6, 55, 20, 3, 10, 43, 25, 39, 41, 45, 15, 21, 8, 18, 2, 61, 56, 14] ! i) (s ! i)) [0..<25]"
    by (intro map_cong refl) (simp add: rotations_at)
  moreover have "word_rotl 0 x = x" for x :: u64 by (rule bit_word_eqI) (simp add: bit_word_rotl_iff)
  ultimately show ?thesis by (simp add: upt_25 numeral_2_eq_2)
qed

lemma rho_pi_keccak:
  assumes "length s = 25"
  shows "sha3_rho_pi s = keccak_pi (keccak_rho s)"
proof -
  obtain f where f: "s = map f [0..<25]" using map_nth [of s] assms by metis
  show ?thesis unfolding f keccak_rho_list keccak_pi_def lanes_list lane_def sha3_rho_pi_def sha3_moves_def upt_25
    by (simp add: Let_def ROTL64_word_rotl)
qed

lemma chi_keccak:
  assumes "length s = 25"
  shows "sha3_chi s = keccak_chi s"
proof -
  obtain f where f: "s = map f [0..<25]" using map_nth [of s] assms by metis
  show ?thesis unfolding f keccak_chi_def lanes_list lane_def sha3_chi_def sha3_chi_row_def upt_25
    by (simp add: Let_def)
qed

lemma iota_keccak:
  assumes "length s = 25" and "i < 24"
  shows "sha3_iota i s = keccak_iota i s"
proof -
  have "kSHA3RoundConstants ! i = keccak_RC (keccak_rc 168 1) i" using assms(2) by (simp add: kSHA3RoundConstants_rc)
  then show ?thesis
    by (intro nth_equalityI)
      (use assms(1) in \<open>auto simp: sha3_iota_def keccak_iota_def lanes_def lane_def nth_list_update\<close>)
qed

lemma length_rounds [simp]: "length (keccak_theta s) = 25" "length (keccak_rho s) = 25" "length (keccak_pi s) = 25"
  "length (keccak_chi s) = 25" "length (keccak_iota i s) = 25"
  by (simp_all add: keccak_theta_def Let_def keccak_rho_def keccak_pi_def keccak_chi_def keccak_iota_def)

lemma SHA3_Block_keccak: "SHA3_Block st b = keccak_block st b"
proof -
  have "fold (\<lambda>i s. sha3_iota i (sha3_chi (sha3_rho_pi (sha3_theta s)))) [0..<24] s
      = fold (\<lambda>i s. keccak_iota i (keccak_chi (keccak_pi (keccak_rho (keccak_theta s))))) [0..<24] s" for s
    by (intro fold_cong) (simp_all add: theta_keccak rho_pi_keccak chi_keccak iota_keccak fun_eq_iff)
  moreover have "sha3_input st b = lanes (\<lambda>x y. let i = x + 5 * y in st ! i XOR (if i < 9 then ReadLittle64 b (8 * i) else 0))"
    by (simp add: sha3_input_def lanes_list numeral_2_eq_2)
  ultimately show ?thesis by (simp add: SHA3_Block_def keccak_block_def keccak_f_def)
qed

lemma length_SHA3_Block [simp]: "length (SHA3_Block st b) = 25"
proof -
  have "[0..<24] = [0..<23] @ [23 :: nat]" by (rule upt_Suc_append [of 0 23, simplified])
  then show ?thesis by (simp add: SHA3_Block_keccak keccak_block_def keccak_f_def)
qed

section \<open>Messages\<close>

definition sha3_holds :: "sha3_ctx \<Rightarrow> bytes \<Rightarrow> bool" where
  "sha3_holds ctx m \<longleftrightarrow> s3_state ctx = absorb 72 SHA3_Block (replicate 25 0) m \<and> unat (s3_leftover ctx) = length m mod 72 \<and>
     length (s3_buffer ctx) = 72 \<and> take (length m mod 72) (s3_buffer ctx) = remainder 72 m"

lemma sha3_blocks_absorb: "sha3_blocks st src = (absorb 72 SHA3_Block st src, remainder 72 src)"
proof (induction st src rule: sha3_blocks.induct)
  case (1 st src)
  show ?case
  proof (cases "72 \<le> length src")
    case True
    then have "remainder 72 src = remainder 72 (drop 72 src)" using remainder_block [of "take 72 src" 72 "drop 72 src"] by simp
    then show ?thesis using 1 [OF True] True by (subst sha3_blocks.simps, subst absorb.simps) simp
  qed (simp add: sha3_blocks.simps)
qed

text \<open>The bytes that were left are none, or they were taken by a block.\<close>

lemma sha3_current_holds:
  assumes "s3_state ctx = absorb 72 SHA3_Block (replicate 25 0) m" and "remainder 72 m = []" and "length (s3_buffer ctx) = 72"
  shows "\<exists>ctx'. sha3_current ctx d = Some ctx' \<and> sha3_holds ctx' (m @ d)"
proof -
  let ?r = "remainder 72 d"
  have r: "length ?r = length d mod 72" by (simp add: length_remainder)
  have b: "blit (s3_buffer ctx) 0 ?r = Some (?r @ drop (length ?r) (s3_buffer ctx))"
    using r assms(3) mod_less_divisor [of 72 "length d"] by (simp add: blit_def)
  have "length m mod 72 = 0" using length_remainder [of 72 m] assms(2) by simp
  then have l: "length (m @ d) mod 72 = length d mod 72" by (simp flip: mod_add_left_eq [of "length m"])
  have "unat (of_nat (length ?r) :: u32) = length ?r" unfolding r
    using mod_less_divisor [of 72 "length d"] by (simp add: unat_of_nat take_bit_eq_mod)
  moreover have "absorb 72 SHA3_Block (replicate 25 0) (m @ d) = absorb 72 SHA3_Block (s3_state ctx) d" "remainder 72 (m @ d) = ?r"
    using absorb_split [of 72 SHA3_Block _ m d] remainder_append [of 72 m d] assms by simp_all
  ultimately show ?thesis unfolding sha3_current_def sha3_holds_def l sha3_blocks_absorb
    using b r assms(3) mod_less_divisor [of 72 "length d"] by simp
qed

lemma sha3_update_holds:
  assumes "sha3_holds ctx m"
  shows "\<exists>ctx'. SHA3_Update_compat ctx d = Some ctx' \<and> sha3_holds ctx' (m @ d)"
proof (cases "s3_leftover ctx > 0")
  case False
  then have "length m mod 72 = 0" using assms by (simp add: sha3_holds_def word_gt_0)
  then have "remainder 72 m = []" using length_remainder [of 72 m] by simp
  then show ?thesis using False assms sha3_current_holds [of ctx m d] by (simp add: SHA3_Update_compat_def sha3_holds_def)
next
  case True
  define r where "r = length m mod 72"
  have r: "r < 72" "unat (s3_leftover ctx) = r" "take r (s3_buffer ctx) = remainder 72 m" "length (s3_buffer ctx) = 72"
    using assms by (simp_all add: r_def sha3_holds_def)
  have rem: "length (remainder 72 m) = r" by (simp add: length_remainder r_def)
  define n where "n = min (unat (72 - s3_leftover ctx)) (length d)"
  have "s3_leftover ctx < 72" using r(1,2) by (simp add: word_less_nat_alt)
  then have sub: "unat (72 - s3_leftover ctx) = 72 - r" using r(2) by (simp add: unat_sub)
  define b where "b = take r (s3_buffer ctx) @ take n d @ drop (r + n) (s3_buffer ctx)"
  have n: "n \<le> length d" "r + n \<le> 72" using r(1) by (auto simp: n_def sub)
  have blit: "blit (s3_buffer ctx) r (take n d) = Some b" and lb: "length b = 72" using n r(4) by (simp_all add: blit_def b_def)
  have tb: "take (r + n) b = remainder 72 m @ take n d" using n r(3,4) rem by (simp add: b_def)
  have cur: "unat (s3_leftover ctx + of_nat n) = r + n" using n(2) r(2) by (simp add: unat_word_ariths unat_of_nat take_bit_eq_mod)
  then have full: "s3_leftover ctx + of_nat n < 72 \<longleftrightarrow> r + n < 72" by (simp add: word_less_nat_alt)
  show ?thesis
  proof (cases "r + n < 72")
    case part: True
    then have "n = length d" using sub n by (auto simp: n_def)
    moreover have "length (m @ d) mod 72 = r + length d" if "r + length d < 72"
      using that by (simp add: r_def flip: mod_add_left_eq [of "length m"])
    moreover have "absorb 72 SHA3_Block st (m @ d) = absorb 72 SHA3_Block st m" "remainder 72 (m @ d) = remainder 72 m @ d" if "r + length d < 72" for st
      using absorb_split [of 72 SHA3_Block st m d] remainder_append [of 72 m d] rem that by simp_all
    ultimately show ?thesis using True part blit lb tb cur full r(2) assms
      by (simp add: SHA3_Update_compat_def sha3_holds_def flip: n_def)
  next
    case False
    then have b: "b = remainder 72 m @ take n d" using tb lb n(2) by simp
    then have "absorb 72 SHA3_Block st (m @ take n d) = SHA3_Block (absorb 72 SHA3_Block st m) b" "remainder 72 (m @ take n d) = []" for st
      using absorb_split [of 72 SHA3_Block st m "take n d"] remainder_append [of 72 m "take n d"] lb remainder_block [of b 72 "[]"] by simp_all
    then show ?thesis using False True blit lb full r(2) assms
        sha3_current_holds [of "ctx\<lparr>s3_state := SHA3_Block (s3_state ctx) b, s3_leftover := s3_leftover ctx + of_nat n, s3_buffer := b\<rparr>" "m @ take n d" "drop n d"]
      by (simp add: SHA3_Update_compat_def sha3_holds_def flip: n_def)
  qed
qed

text \<open>The padded rest of the message is the buffer that \<open>SHA3_Final_compat\<close> fills.\<close>

lemma sha3_final_digest:
  assumes "sha3_holds ctx m"
  shows "SHA3_Final_compat ctx = Some (keccak512 m)"
proof -
  define r where "r = length m mod 72"
  have r: "r < 72" "unat (s3_leftover ctx) = r" "take r (s3_buffer ctx) = remainder 72 m" "length (s3_buffer ctx) = 72"
    and st: "s3_state ctx = absorb 72 SHA3_Block (replicate 25 0) m"
    using assms by (simp_all add: r_def sha3_holds_def)
  have rem: "length (remainder 72 m) = r" by (simp add: length_remainder r_def)
  define b where "b = remainder 72 m @ 0x01 # replicate (71 - r) 0"
  have lb: "length b = 72" using r(1) rem by (simp add: b_def)
  have w: "wr (s3_buffer ctx) r 0x01 = Some (remainder 72 m @ 0x01 # drop (Suc r) (s3_buffer ctx))"
    using r by (simp add: wr_def upd_conv_take_nth_drop)
  have z: "blit (remainder 72 m @ 0x01 # drop (Suc r) (s3_buffer ctx)) (r + 1) (replicate (72 - (r + 1)) 0) = Some b"
    using r rem by (simp add: blit_def b_def)
  have p: "b[71 := b ! 71 OR 0x80] = remainder 72 m @ keccak_pad (length m)"
  proof (cases "r = 71")
    case True
    then show ?thesis using rem by (simp add: b_def keccak_pad_def nth_append list_update_append flip: r_def)
  next
    case False
    then obtain k where k: "71 - r = Suc k" "r + Suc k = 71" using r(1) that [of "70 - r"] by auto
    let ?u = "remainder 72 m @ 0x01 # replicate k (0 :: u8)"
    have "b = ?u @ [0]" by (simp add: b_def k(1) replicate_append_same)
    moreover have "length ?u = 71" using rem k(2) by simp
    then have "(?u @ [0])[71 := (?u @ [0]) ! 71 OR 0x80] = ?u @ [0x80]"
      by (simp only: list_update_append nth_append less_irrefl if_False diff_self_eq_0 list_update.simps nat.case nth_Cons_0 or.left_neutral)
    moreover have "72 - r - 2 = k" "72 - r \<noteq> 1" using k by simp_all
    then have "keccak_pad (length m) = 0x01 # replicate k 0 @ [0x80]" by (simp add: keccak_pad_def flip: r_def)
    ultimately show ?thesis by (simp only: append_assoc append_Cons append_Nil)
  qed
  have "length (remainder 72 m @ keccak_pad (length m)) = 72" using lb p by (metis length_list_update)
  then have "absorb 72 SHA3_Block (replicate 25 0) (m @ keccak_pad (length m)) = SHA3_Block (s3_state ctx) (remainder 72 m @ keccak_pad (length m))"
    using absorb_split [of 72 SHA3_Block "replicate 25 0" m "keccak_pad (length m)"] st by simp
  moreover have "SHA3_Block = keccak_block" by (simp add: SHA3_Block_keccak fun_eq_iff)
  moreover have "map (\<lambda>i. WriteLittle64 (s ! i)) [0..<8] = map WriteLittle64 (take 8 s)" if "length s = 25" for s
    using that by (intro nth_equalityI) auto
  ultimately show ?thesis using w z p r(2) length_SHA3_Block by (simp add: SHA3_Final_compat_def keccak512_def)
qed

interpretation sha3: streaming_hash sha3_holds SHA3_Init_compat SHA3_Update_compat SHA3_Final_compat keccak512
  by unfold_locales (simp add: sha3_holds_def SHA3_Init_compat_def remainder_def, erule sha3_update_holds, erule sha3_final_digest)

section \<open>Properties\<close>

text \<open>
  C16. However a message is cut into pieces, feeding them to \<open>SHA3_Update_compat\<close> and finishing delivers the 64 bytes
  that the Keccak reference with a rate of 576 bits delivers for the whole message, and so does \<open>SHA3_compat\<close>: the in-place
  rotations, the rows updated one lane at a time and the table of constants are the permutation Keccak-f[1600]. No copy
  leaves the buffer of the context.
\<close>

theorem sha3_is_keccak:
  "(\<exists>ctx. update_all SHA3_Update_compat SHA3_Init_compat ds = Some ctx \<and> SHA3_Final_compat ctx = Some (keccak512 (concat ds))) \<and>
   SHA3_compat m = Some (keccak512 m)"
  using sha3.pieces [of ds] sha3.pieces [of "[m]"] by (auto simp: SHA3_compat_def bind_eq_Some_conv)

end
