(* ===== verification/Aes128.thy ===== *)
theory Aes128
  imports Prelude
begin

text \<open>
  AES with keys of 128 bits as FIPS 197 defines it, the cipher that the library behind \<open>AESUtils.c\<close> provides: the
  encryption of a block, the decryption, and the proof that one inverts the other. A state is the list of its 16 bytes,
  column after column.
\<close>

section \<open>Substitution\<close>

definition sbox :: "u8 list list" where
  "sbox =
    [[0x63, 0x7C, 0x77, 0x7B, 0xF2, 0x6B, 0x6F, 0xC5, 0x30, 0x01, 0x67, 0x2B, 0xFE, 0xD7, 0xAB, 0x76],
     [0xCA, 0x82, 0xC9, 0x7D, 0xFA, 0x59, 0x47, 0xF0, 0xAD, 0xD4, 0xA2, 0xAF, 0x9C, 0xA4, 0x72, 0xC0],
     [0xB7, 0xFD, 0x93, 0x26, 0x36, 0x3F, 0xF7, 0xCC, 0x34, 0xA5, 0xE5, 0xF1, 0x71, 0xD8, 0x31, 0x15],
     [0x04, 0xC7, 0x23, 0xC3, 0x18, 0x96, 0x05, 0x9A, 0x07, 0x12, 0x80, 0xE2, 0xEB, 0x27, 0xB2, 0x75],
     [0x09, 0x83, 0x2C, 0x1A, 0x1B, 0x6E, 0x5A, 0xA0, 0x52, 0x3B, 0xD6, 0xB3, 0x29, 0xE3, 0x2F, 0x84],
     [0x53, 0xD1, 0x00, 0xED, 0x20, 0xFC, 0xB1, 0x5B, 0x6A, 0xCB, 0xBE, 0x39, 0x4A, 0x4C, 0x58, 0xCF],
     [0xD0, 0xEF, 0xAA, 0xFB, 0x43, 0x4D, 0x33, 0x85, 0x45, 0xF9, 0x02, 0x7F, 0x50, 0x3C, 0x9F, 0xA8],
     [0x51, 0xA3, 0x40, 0x8F, 0x92, 0x9D, 0x38, 0xF5, 0xBC, 0xB6, 0xDA, 0x21, 0x10, 0xFF, 0xF3, 0xD2],
     [0xCD, 0x0C, 0x13, 0xEC, 0x5F, 0x97, 0x44, 0x17, 0xC4, 0xA7, 0x7E, 0x3D, 0x64, 0x5D, 0x19, 0x73],
     [0x60, 0x81, 0x4F, 0xDC, 0x22, 0x2A, 0x90, 0x88, 0x46, 0xEE, 0xB8, 0x14, 0xDE, 0x5E, 0x0B, 0xDB],
     [0xE0, 0x32, 0x3A, 0x0A, 0x49, 0x06, 0x24, 0x5C, 0xC2, 0xD3, 0xAC, 0x62, 0x91, 0x95, 0xE4, 0x79],
     [0xE7, 0xC8, 0x37, 0x6D, 0x8D, 0xD5, 0x4E, 0xA9, 0x6C, 0x56, 0xF4, 0xEA, 0x65, 0x7A, 0xAE, 0x08],
     [0xBA, 0x78, 0x25, 0x2E, 0x1C, 0xA6, 0xB4, 0xC6, 0xE8, 0xDD, 0x74, 0x1F, 0x4B, 0xBD, 0x8B, 0x8A],
     [0x70, 0x3E, 0xB5, 0x66, 0x48, 0x03, 0xF6, 0x0E, 0x61, 0x35, 0x57, 0xB9, 0x86, 0xC1, 0x1D, 0x9E],
     [0xE1, 0xF8, 0x98, 0x11, 0x69, 0xD9, 0x8E, 0x94, 0x9B, 0x1E, 0x87, 0xE9, 0xCE, 0x55, 0x28, 0xDF],
     [0x8C, 0xA1, 0x89, 0x0D, 0xBF, 0xE6, 0x42, 0x68, 0x41, 0x99, 0x2D, 0x0F, 0xB0, 0x54, 0xBB, 0x16]]"

definition inv_sbox :: "u8 list list" where
  "inv_sbox =
    [[0x52, 0x09, 0x6A, 0xD5, 0x30, 0x36, 0xA5, 0x38, 0xBF, 0x40, 0xA3, 0x9E, 0x81, 0xF3, 0xD7, 0xFB],
     [0x7C, 0xE3, 0x39, 0x82, 0x9B, 0x2F, 0xFF, 0x87, 0x34, 0x8E, 0x43, 0x44, 0xC4, 0xDE, 0xE9, 0xCB],
     [0x54, 0x7B, 0x94, 0x32, 0xA6, 0xC2, 0x23, 0x3D, 0xEE, 0x4C, 0x95, 0x0B, 0x42, 0xFA, 0xC3, 0x4E],
     [0x08, 0x2E, 0xA1, 0x66, 0x28, 0xD9, 0x24, 0xB2, 0x76, 0x5B, 0xA2, 0x49, 0x6D, 0x8B, 0xD1, 0x25],
     [0x72, 0xF8, 0xF6, 0x64, 0x86, 0x68, 0x98, 0x16, 0xD4, 0xA4, 0x5C, 0xCC, 0x5D, 0x65, 0xB6, 0x92],
     [0x6C, 0x70, 0x48, 0x50, 0xFD, 0xED, 0xB9, 0xDA, 0x5E, 0x15, 0x46, 0x57, 0xA7, 0x8D, 0x9D, 0x84],
     [0x90, 0xD8, 0xAB, 0x00, 0x8C, 0xBC, 0xD3, 0x0A, 0xF7, 0xE4, 0x58, 0x05, 0xB8, 0xB3, 0x45, 0x06],
     [0xD0, 0x2C, 0x1E, 0x8F, 0xCA, 0x3F, 0x0F, 0x02, 0xC1, 0xAF, 0xBD, 0x03, 0x01, 0x13, 0x8A, 0x6B],
     [0x3A, 0x91, 0x11, 0x41, 0x4F, 0x67, 0xDC, 0xEA, 0x97, 0xF2, 0xCF, 0xCE, 0xF0, 0xB4, 0xE6, 0x73],
     [0x96, 0xAC, 0x74, 0x22, 0xE7, 0xAD, 0x35, 0x85, 0xE2, 0xF9, 0x37, 0xE8, 0x1C, 0x75, 0xDF, 0x6E],
     [0x47, 0xF1, 0x1A, 0x71, 0x1D, 0x29, 0xC5, 0x89, 0x6F, 0xB7, 0x62, 0x0E, 0xAA, 0x18, 0xBE, 0x1B],
     [0xFC, 0x56, 0x3E, 0x4B, 0xC6, 0xD2, 0x79, 0x20, 0x9A, 0xDB, 0xC0, 0xFE, 0x78, 0xCD, 0x5A, 0xF4],
     [0x1F, 0xDD, 0xA8, 0x33, 0x88, 0x07, 0xC7, 0x31, 0xB1, 0x12, 0x10, 0x59, 0x27, 0x80, 0xEC, 0x5F],
     [0x60, 0x51, 0x7F, 0xA9, 0x19, 0xB5, 0x4A, 0x0D, 0x2D, 0xE5, 0x7A, 0x9F, 0x93, 0xC9, 0x9C, 0xEF],
     [0xA0, 0xE0, 0x3B, 0x4D, 0xAE, 0x2A, 0xF5, 0xB0, 0xC8, 0xEB, 0xBB, 0x3C, 0x83, 0x53, 0x99, 0x61],
     [0x17, 0x2B, 0x04, 0x7E, 0xBA, 0x77, 0xD6, 0x26, 0xE1, 0x69, 0x14, 0x63, 0x55, 0x21, 0x0C, 0x7D]]"

definition sub_byte :: "u8 \<Rightarrow> u8" where
  "sub_byte x = sbox ! unat (drop_bit 4 x) ! unat (x AND 15)"

definition inv_sub_byte :: "u8 \<Rightarrow> u8" where
  "inv_sub_byte x = inv_sbox ! unat (drop_bit 4 x) ! unat (x AND 15)"

lemma inv_sbox_table: "map (map inv_sub_byte) sbox = map (\<lambda>i. map (\<lambda>j. of_nat (16 * i + j)) [0..<16]) [0..<16]"
  by (simp add: sbox_def inv_sbox_def inv_sub_byte_def upt_rec)

lemma length_sbox: "length sbox = 16" "i < 16 \<Longrightarrow> length (sbox ! i) = 16"
proof -
  have "length sbox = 16" "list_all (\<lambda>r. length r = 16) sbox" by (simp_all add: sbox_def)
  then show "length sbox = 16" "i < 16 \<Longrightarrow> length (sbox ! i) = 16" by (auto simp: list_all_length)
qed

lemma inv_sub_byte_sub_byte: "inv_sub_byte (sub_byte x) = x"
proof -
  define i j where "i = unat (drop_bit 4 x)" and "j = unat (x AND 15)"
  have "i < 16" using unsigned_less [of x, where ?'a = nat] by (simp add: i_def drop_bit_eq_div unat_div)
  have "x AND 15 = take_bit 4 x" by (simp add: take_bit_eq_mask mask_eq_exp_minus_1)
  then have j: "j = unat x mod 16" by (simp add: j_def take_bit_eq_mod unat_mod)
  then have "j < 16" by simp
  have x: "16 * i + j = unat x" using j by (simp add: i_def drop_bit_eq_div unat_div)
  have "map (map inv_sub_byte) sbox ! i ! j = of_nat (16 * i + j)"
    unfolding inv_sbox_table using \<open>i < 16\<close> \<open>j < 16\<close> by simp
  moreover have "map (map inv_sub_byte) sbox ! i ! j = inv_sub_byte (sbox ! i ! j)"
    using \<open>i < 16\<close> \<open>j < 16\<close> by (simp add: length_sbox)
  moreover have "sbox ! i ! j = sub_byte x" unfolding sub_byte_def i_def j_def ..
  ultimately show ?thesis unfolding x by simp
qed

section \<open>Rows and columns\<close>

definition shift_rows :: "bytes \<Rightarrow> bytes" where
  "shift_rows s = map (\<lambda>i. s ! ((i + 4 * (i mod 4)) mod 16)) [0..<16]"

definition inv_shift_rows :: "bytes \<Rightarrow> bytes" where
  "inv_shift_rows s = map (\<lambda>i. s ! ((i + 12 * (i mod 4)) mod 16)) [0..<16]"

definition xtime :: "u8 \<Rightarrow> u8" where
  "xtime x = push_bit 1 x XOR (if bit x 7 then 0x1B else 0)"

fun mix_columns :: "bytes \<Rightarrow> bytes" where
  "mix_columns (a # b # c # d # s) =
     (xtime a XOR xtime b XOR b XOR c XOR d) # (a XOR xtime b XOR xtime c XOR c XOR d) #
     (a XOR b XOR xtime c XOR xtime d XOR d) # (xtime a XOR a XOR b XOR c XOR xtime d) # mix_columns s"
| "mix_columns s = []"

definition by9 :: "u8 \<Rightarrow> u8" where "by9 x = xtime (xtime (xtime x)) XOR x"
definition by11 :: "u8 \<Rightarrow> u8" where "by11 x = xtime (xtime (xtime x)) XOR xtime x XOR x"
definition by13 :: "u8 \<Rightarrow> u8" where "by13 x = xtime (xtime (xtime x)) XOR xtime (xtime x) XOR x"
definition by14 :: "u8 \<Rightarrow> u8" where "by14 x = xtime (xtime (xtime x)) XOR xtime (xtime x) XOR xtime x"

fun inv_mix_columns :: "bytes \<Rightarrow> bytes" where
  "inv_mix_columns (a # b # c # d # s) =
     (by14 a XOR by11 b XOR by13 c XOR by9 d) # (by9 a XOR by14 b XOR by11 c XOR by13 d) #
     (by13 a XOR by9 b XOR by14 c XOR by11 d) # (by11 a XOR by13 b XOR by9 c XOR by14 d) # inv_mix_columns s"
| "inv_mix_columns s = []"

lemma inv_shift_rows_shift_rows: "length s = 16 \<Longrightarrow> inv_shift_rows (shift_rows s) = s"
proof -
  assume "length s = 16"
  moreover have "[0..<16] = [0, 1, 2, 3, 4, 5, 6, 7, 8, 9, 10, 11, 12, 13, 14, 15 :: nat]" by code_simp
  ultimately show ?thesis using map_nth [of s] by (simp add: inv_shift_rows_def shift_rows_def)
qed

lemma xtime_xor: "xtime (x XOR y) = xtime x XOR xtime y"
  by (rule bit_word_eqI) (auto simp: xtime_def bit_simps)

lemma xor_self_cancel: "(x :: u8) XOR (x XOR y) = y"
  by (simp flip: xor.assoc)

lemma inv_column: "by14 (xtime a XOR xtime b XOR b XOR c XOR d) XOR by11 (a XOR xtime b XOR xtime c XOR c XOR d) XOR
    by13 (a XOR b XOR xtime c XOR xtime d XOR d) XOR by9 (xtime a XOR a XOR b XOR c XOR xtime d) = a"
  by (simp add: by9_def by11_def by13_def by14_def xtime_xor ac_simps xor_self_cancel)

lemma one_column: "length s = 4 * Suc n \<Longrightarrow> \<exists>a b c d t. s = a # b # c # d # t \<and> length t = 4 * n"
  using length_Suc_conv [of s "Suc (Suc (Suc (4 * n)))"] by (auto simp: length_Suc_conv)

lemma inv_mix_columns_mix_columns: "length s = 4 * n \<Longrightarrow> inv_mix_columns (mix_columns s) = s"
proof (induction n arbitrary: s)
  case (Suc n)
  then obtain a b c d t where s: "s = a # b # c # d # t" using one_column by blast
  have "by9 (xtime a XOR xtime b XOR b XOR c XOR d) XOR by14 (a XOR xtime b XOR xtime c XOR c XOR d) XOR
      by11 (a XOR b XOR xtime c XOR xtime d XOR d) XOR by13 (xtime a XOR a XOR b XOR c XOR xtime d) = b"
    using inv_column [of b c d a] by (simp add: ac_simps)
  moreover have "by13 (xtime a XOR xtime b XOR b XOR c XOR d) XOR by9 (a XOR xtime b XOR xtime c XOR c XOR d) XOR
      by14 (a XOR b XOR xtime c XOR xtime d XOR d) XOR by11 (xtime a XOR a XOR b XOR c XOR xtime d) = c"
    using inv_column [of c d a b] by (simp add: ac_simps)
  moreover have "by11 (xtime a XOR xtime b XOR b XOR c XOR d) XOR by13 (a XOR xtime b XOR xtime c XOR c XOR d) XOR
      by9 (a XOR b XOR xtime c XOR xtime d XOR d) XOR by14 (xtime a XOR a XOR b XOR c XOR xtime d) = d"
    using inv_column [of d a b c] by (simp add: ac_simps)
  ultimately show ?case using Suc inv_column [of a b c d] by (simp add: s)
qed simp

lemma length_mix_columns: "length s = 4 * n \<Longrightarrow> length (mix_columns s) = 4 * n"
proof (induction n arbitrary: s)
  case (Suc n)
  then obtain a b c d t where "s = a # b # c # d # t" using one_column by blast
  then show ?case using Suc by simp
qed simp

section \<open>The cipher\<close>

definition add_round_key :: "bytes \<Rightarrow> bytes \<Rightarrow> bytes" where
  "add_round_key s k = map2 (XOR) s k"

text \<open>Words of the key schedule, four bytes each, from the last one back to the one four words before.\<close>

fun expand_key :: "nat \<Rightarrow> bytes list \<Rightarrow> bytes list" where
  "expand_key 0 w = w"
| "expand_key (Suc n) w =
     (let i = length w; t = w ! (i - 1);
          t = (if i mod 4 = 0 then map2 (XOR) (map sub_byte (rotate 1 t)) [(xtime ^^ (i div 4 - 1)) 1, 0, 0, 0] else t) in
      expand_key n (w @ [map2 (XOR) (w ! (i - 4)) t]))"

definition round_keys :: "bytes \<Rightarrow> bytes list" where
  "round_keys k = (let w = expand_key 40 [take 4 k, take 4 (drop 4 k), take 4 (drop 8 k), take 4 (drop 12 k)] in
     map (\<lambda>r. concat (take 4 (drop (4 * r) w))) [0..<11])"

definition aes_round :: "bytes \<Rightarrow> bytes \<Rightarrow> bytes" where
  "aes_round k s = add_round_key (mix_columns (shift_rows (map sub_byte s))) k"

definition aes_inv_round :: "bytes \<Rightarrow> bytes \<Rightarrow> bytes" where
  "aes_inv_round k s = map inv_sub_byte (inv_shift_rows (inv_mix_columns (add_round_key s k)))"

definition aes_encrypt :: "bytes \<Rightarrow> bytes \<Rightarrow> bytes" where
  "aes_encrypt key b = (let k = round_keys key; s = fold (\<lambda>r s. aes_round (k ! r) s) [1..<10] (add_round_key b (k ! 0)) in
     add_round_key (shift_rows (map sub_byte s)) (k ! 10))"

definition aes_decrypt :: "bytes \<Rightarrow> bytes \<Rightarrow> bytes" where
  "aes_decrypt key b = (let k = round_keys key; s = map inv_sub_byte (inv_shift_rows (add_round_key b (k ! 10))) in
     add_round_key (fold (\<lambda>r s. aes_inv_round (k ! r) s) (rev [1..<10]) s) (k ! 0))"

lemma length_add_round_key [simp]: "length (add_round_key s k) = min (length s) (length k)"
  by (simp add: add_round_key_def)

lemma add_round_key_twice: "length s \<le> length k \<Longrightarrow> add_round_key (add_round_key s k) k = s"
  by (intro nth_equalityI) (simp_all add: add_round_key_def xor.assoc)

lemma length_expand_key:
  "4 \<le> length w \<Longrightarrow> list_all (\<lambda>t. length t = 4) w \<Longrightarrow> length (expand_key n w) = length w + n \<and> list_all (\<lambda>t. length t = 4) (expand_key n w)"
proof (induction n arbitrary: w)
  case (Suc n)
  have l: "length (w ! i) = 4" if "i < length w" for i using Suc.prems(2) that by (simp add: list_all_length)
  have "length (w ! (length w - 1)) = 4" "length (w ! (length w - 4)) = 4" using Suc.prems(1) by (auto intro!: l)
  then show ?case using Suc.IH [of "w @ [t]" for t] Suc.prems by (simp add: Let_def)
qed simp

lemma length_round_keys:
  assumes "length k = 16" and "r < 11"
  shows "length (round_keys k ! r) = 16"
proof -
  define w where "w = expand_key 40 [take 4 k, take 4 (drop 4 k), take 4 (drop 8 k), take 4 (drop 12 k)]"
  have w: "length w = 44" "list_all (\<lambda>t. length t = 4) w"
    using length_expand_key [of "[take 4 k, take 4 (drop 4 k), take 4 (drop 8 k), take 4 (drop 12 k)]" 40] assms(1) by (simp_all add: w_def)
  have c: "length (concat v) = 4 * length v" if "list_all (\<lambda>t. length t = 4) v" for v :: "bytes list"
    using that by (induction v) auto
  have "list_all (\<lambda>t. length t = 4) (take 4 (drop (4 * r) w))"
    using w(2) by (auto simp: list_all_iff dest: in_set_takeD in_set_dropD)
  then show ?thesis using c [of "take 4 (drop (4 * r) w)"] assms(2) w(1) by (simp add: round_keys_def flip: w_def)
qed

lemma aes_inv_round_aes_round: "length s = 16 \<Longrightarrow> length k = 16 \<Longrightarrow> aes_inv_round k (aes_round k s) = s"
  using inv_mix_columns_mix_columns [of "shift_rows (map sub_byte s)" 4] length_mix_columns [of "shift_rows (map sub_byte s)" 4]
  by (simp add: aes_inv_round_def aes_round_def add_round_key_twice inv_shift_rows_shift_rows shift_rows_def [THEN arg_cong, of length, simplified]
      inv_sub_byte_sub_byte comp_def)

lemma length_aes_round [simp]: "length s = 16 \<Longrightarrow> length k = 16 \<Longrightarrow> length (aes_round k s) = 16"
  using length_mix_columns [of "shift_rows (map sub_byte s)" 4] by (simp add: aes_round_def shift_rows_def)

lemma aes_inv_rounds:
  "(\<And>r. r \<in> set rs \<Longrightarrow> length (k ! r) = 16) \<Longrightarrow> length s = 16 \<Longrightarrow>
     length (fold (\<lambda>r s. aes_round (k ! r) s) rs s) = 16 \<and>
     fold (\<lambda>r s. aes_inv_round (k ! r) s) (rev rs) (fold (\<lambda>r s. aes_round (k ! r) s) rs s) = s"
  by (induction rs arbitrary: s) (simp_all add: aes_inv_round_aes_round)

lemma aes_decrypt_aes_encrypt:
  assumes "length key = 16" and "length b = 16"
  shows "aes_decrypt key (aes_encrypt key b) = b" and "length (aes_encrypt key b) = 16"
proof -
  let ?k = "round_keys key" and ?s = "add_round_key b (round_keys key ! 0)"
  have l: "length (?k ! r) = 16" if "r < 11" for r using assms(1) that by (rule length_round_keys)
  have s: "length ?s = 16" using assms(2) l [of 0] by simp
  define t where "t = fold (\<lambda>r s. aes_round (?k ! r) s) [1..<10] ?s"
  have "length t = 16 \<and> fold (\<lambda>r s. aes_inv_round (?k ! r) s) (rev [1..<10]) t = ?s"
    unfolding t_def using l s by (intro aes_inv_rounds) auto
  then have t: "length t = 16" "fold (\<lambda>r s. aes_inv_round (?k ! r) s) (rev [1..<10]) t = ?s" by simp_all
  have sr: "length (shift_rows (map sub_byte t)) = 16" by (simp add: shift_rows_def)
  have e: "aes_encrypt key b = add_round_key (shift_rows (map sub_byte t)) (?k ! 10)" by (simp only: aes_encrypt_def Let_def t_def)
  show "length (aes_encrypt key b) = 16" using sr l [of 10] by (simp add: e)
  have "map inv_sub_byte (inv_shift_rows (add_round_key (aes_encrypt key b) (?k ! 10))) = t"
    using sr l [of 10] t(1) by (simp add: e add_round_key_twice inv_shift_rows_shift_rows inv_sub_byte_sub_byte comp_def)
  then show "aes_decrypt key (aes_encrypt key b) = b"
    using t(2) assms(2) l [of 0] by (simp only: aes_decrypt_def Let_def add_round_key_twice)
qed

text \<open>The first round of the example of appendix B of FIPS 197.\<close>

lemma aes_round_example:
  "aes_round [0xA0, 0xFA, 0xFE, 0x17, 0x88, 0x54, 0x2C, 0xB1, 0x23, 0xA3, 0x39, 0x39, 0x2A, 0x6C, 0x76, 0x05]
     [0x19, 0x3D, 0xE3, 0xBE, 0xA0, 0xF4, 0xE2, 0x2B, 0x9A, 0xC6, 0x8D, 0x2A, 0xE9, 0xF8, 0x48, 0x08] =
     [0xA4, 0x9C, 0x7F, 0xF2, 0x68, 0x9F, 0x35, 0x2B, 0x6B, 0x5B, 0xEA, 0x43, 0x02, 0x6A, 0x50, 0x49]"
  by (simp add: aes_round_def shift_rows_def upt_rec sub_byte_def sbox_def add_round_key_def xtime_def)
end
