(* ===== verification/AesModes.thy ===== *)
theory AesModes
  imports Aes128
begin

text \<open>
  The modes of operation of \<open>libraries/utilities/AESUtils.c\<close>, as built for the library of \<open>MicoAES.h\<close>
  (\<open>AES_UTILS_USE_MICO_AES\<close>): counter mode, frames in cipher block chaining, and single blocks. The library is a
  parameter; what its functions do with an encryption key is stated in the locale \<open>aes_library\<close>. Input and output are
  lists of bytes; \<open>size_t\<close> has 32 bits, and \<open>None\<close> is an access outside the buffer of the context.
\<close>

section \<open>The library\<close>

text \<open>\<open>Aes\<close> structures are of type \<open>'aes\<close>; the callers ignore the status codes. \<open>aes_zero\<close> is the structure of zeros.\<close>

record 'aes aes_lib =
  AesSetKey :: "'aes \<Rightarrow> bytes \<Rightarrow> bytes option \<Rightarrow> int \<Rightarrow> 'aes"
  AesSetKeyDirect :: "'aes \<Rightarrow> bytes \<Rightarrow> bytes option \<Rightarrow> int \<Rightarrow> 'aes"
  AesEncryptDirect :: "'aes \<Rightarrow> bytes \<Rightarrow> 'aes \<times> bytes"
  AesCbcEncrypt :: "'aes \<Rightarrow> bytes \<Rightarrow> 'aes \<times> bytes"
  aes_zero :: 'aes

abbreviation AES_ENCRYPTION :: int where "AES_ENCRYPTION \<equiv> 0"
abbreviation AES_DECRYPTION :: int where "AES_DECRYPTION \<equiv> 1"

section \<open>Counter mode\<close>

record 'aes ctr_context =
  ctr_ctx :: 'aes
  ctr_ctr :: bytes
  ctr_buf :: bytes
  ctr_used :: u32
  ctr_legacy :: bool

text \<open>The context is set up in memory that holds \<open>inContext\<close>.\<close>

definition AES_CTR_Init :: "'aes aes_lib \<Rightarrow> 'aes ctr_context \<Rightarrow> bytes \<Rightarrow> bytes \<Rightarrow> 'aes ctr_context" where
  "AES_CTR_Init L inContext inKey inNonce =
     inContext\<lparr>ctr_ctx := AesSetKeyDirect L (ctr_ctx inContext) inKey (Some inNonce) AES_ENCRYPTION,
       ctr_ctr := take 16 inNonce, ctr_used := 0, ctr_legacy := False\<rparr>"

text \<open>\<open>ctr_increment i\<close>: the loop from place \<open>i - 1\<close> down.\<close>

fun ctr_increment :: "nat \<Rightarrow> bytes \<Rightarrow> bytes" where
  "ctr_increment 0 c = c"
| "ctr_increment (Suc i) c = (let c = c[i := c ! i + 1] in if c ! i \<noteq> 0 then c else ctr_increment i c)"

definition AES_CTR_Increment :: "bytes \<Rightarrow> bytes" where
  "AES_CTR_Increment inCounter = ctr_increment 16 inCounter"

text \<open>The first loop: bytes of the key stream that are left. Result: the output, the rest of the input, \<open>used\<close>.\<close>

fun ctr_buffered :: "bytes \<Rightarrow> u32 \<Rightarrow> bytes \<Rightarrow> (bytes \<times> bytes \<times> u32) option" where
  "ctr_buffered buf used [] = Some ([], [], used)"
| "ctr_buffered buf used (s # src) =
     (if used = 0 then Some ([], s # src, used)
      else do {
        k \<leftarrow> rd buf (unat used);
        (dst, left, used) \<leftarrow> ctr_buffered buf ((used + 1) mod 16) src;
        Some ((s XOR k) # dst, left, used)
      })"

text \<open>The next block of the key stream.\<close>

definition ctr_next :: "'aes aes_lib \<Rightarrow> 'aes ctr_context \<Rightarrow> 'aes ctr_context" where
  "ctr_next L c = (let (a, buf) = AesEncryptDirect L (ctr_ctx c) (ctr_ctr c) in
     c\<lparr>ctr_ctx := a, ctr_buf := buf, ctr_ctr := AES_CTR_Increment (ctr_ctr c)\<rparr>)"

function ctr_whole :: "'aes aes_lib \<Rightarrow> 'aes ctr_context \<Rightarrow> bytes \<Rightarrow> 'aes ctr_context \<times> bytes \<times> bytes" where
  "ctr_whole L c src =
     (if length src \<ge> 16 then
        (let c = ctr_next L c; (c', dst, left) = ctr_whole L c (drop 16 src) in
         (c', map2 (XOR) (take 16 src) (ctr_buf c) @ dst, left))
      else (c, [], src))"
  by pat_completeness auto
termination
  by (relation "measure (\<lambda>(L, c, src). length src)") auto

declare ctr_whole.simps [simp del]

fun ctr_trailing :: "bytes \<Rightarrow> u32 \<Rightarrow> bytes \<Rightarrow> (bytes \<times> u32) option" where
  "ctr_trailing buf used [] = Some ([], used)"
| "ctr_trailing buf used (s # src) = do {
     k \<leftarrow> rd buf (unat used);
     (dst, used) \<leftarrow> ctr_trailing buf (used + 1) src;
     Some ((s XOR k) # dst, used)
   }"

definition AES_CTR_Update :: "'aes aes_lib \<Rightarrow> 'aes ctr_context \<Rightarrow> bytes \<Rightarrow> ('aes ctr_context \<times> bytes) option" where
  "AES_CTR_Update L c inSrc = do {
     (dst, src, used) \<leftarrow> ctr_buffered (ctr_buf c) (ctr_used c) inSrc;
     let (c, blocks, src) = ctr_whole L (c\<lparr>ctr_used := used\<rparr>) src;
     if src = [] then Some (c, dst @ blocks)
     else do {
       let c = ctr_next L c;
       (last, used) \<leftarrow> ctr_trailing (ctr_buf c) used src;
       Some (if ctr_legacy c then c else c\<lparr>ctr_used := used\<rparr>, dst @ blocks @ last)
     }
   }"

definition AES_CTR_Final :: "'aes aes_lib \<Rightarrow> 'aes ctr_context \<Rightarrow> 'aes ctr_context" where
  "AES_CTR_Final L c = \<lparr>ctr_ctx = aes_zero L, ctr_ctr = replicate 16 0, ctr_buf = replicate 16 0, ctr_used = 0, ctr_legacy = False\<rparr>"

section \<open>Frames\<close>

record 'aes cbc_context =
  cbc_ctx :: 'aes
  cbc_mode :: int
  cbc_iv :: bytes

definition AES_CBCFrame_Init :: "'aes aes_lib \<Rightarrow> 'aes cbc_context \<Rightarrow> bytes \<Rightarrow> bytes \<Rightarrow> bool \<Rightarrow> 'aes cbc_context" where
  "AES_CBCFrame_Init L inContext inKey inIV inEncrypt =
     inContext\<lparr>cbc_ctx := AesSetKeyDirect L (cbc_ctx inContext) inKey (Some inIV) (if inEncrypt then AES_ENCRYPTION else AES_DECRYPTION),
       cbc_iv := take 16 inIV\<rparr>"

text \<open>\<open>whole n\<close> is \<open>n & ~15\<close>.\<close>

definition whole :: "nat \<Rightarrow> nat" where
  "whole n = n - n mod 16"

text \<open>\<open>AesCbcEncrypt\<close> for \<open>n\<close> bytes, unless \<open>n\<close> is zero.\<close>

definition cbc_part :: "'aes aes_lib \<Rightarrow> 'aes cbc_context \<Rightarrow> bytes \<Rightarrow> 'aes cbc_context \<times> bytes" where
  "cbc_part L c src =
     (if length src > 0 then (let (a, dst) = AesCbcEncrypt L (cbc_ctx c) src in (c\<lparr>cbc_ctx := a\<rparr>, dst)) else (c, []))"

definition AES_CBCFrame_Update :: "'aes aes_lib \<Rightarrow> 'aes cbc_context \<Rightarrow> bytes \<Rightarrow> 'aes cbc_context \<times> bytes" where
  "AES_CBCFrame_Update L c inSrc =
     (let n = whole (length inSrc); (c, dst) = cbc_part L c (take n inSrc) in (c, dst @ drop n inSrc))"

text \<open>\<open>src1\<close> and \<open>src2\<close> are the bytes that were not processed yet.\<close>

definition AES_CBCFrame_Update2 :: "'aes aes_lib \<Rightarrow> 'aes cbc_context \<Rightarrow> bytes \<Rightarrow> bytes \<Rightarrow> 'aes cbc_context \<times> bytes" where
  "AES_CBCFrame_Update2 L c inSrc1 inSrc2 =
     (let n = whole (length inSrc1);
          (c, dst1) = cbc_part L c (take n inSrc1); src1 = drop n inSrc1;
          (c, dst2, src1, src2) =
            (if src1 \<noteq> [] \<and> length src1 + length inSrc2 \<ge> 16
             then (let m = 16 - length src1; (c, dst2) = cbc_part L c (src1 @ take m inSrc2) in (c, dst2, [], drop m inSrc2))
             else (c, [], src1, inSrc2));
          n = whole (length src2);
          (c, dst3) = cbc_part L c (take n src2) in
      (c, dst1 @ dst2 @ dst3 @ src1 @ drop n src2))"

definition AES_CBCFrame_Final :: "'aes aes_lib \<Rightarrow> 'aes cbc_context \<Rightarrow> 'aes cbc_context" where
  "AES_CBCFrame_Final L c = \<lparr>cbc_ctx = aes_zero L, cbc_mode = 0, cbc_iv = replicate 16 0\<rparr>"

section \<open>Single blocks\<close>

record 'aes ecb_context =
  ecb_ctx :: 'aes
  ecb_mode :: u32

definition AES_ECB_Init :: "'aes aes_lib \<Rightarrow> 'aes ecb_context \<Rightarrow> int \<Rightarrow> bytes \<Rightarrow> 'aes ecb_context" where
  "AES_ECB_Init L inContext inMode inKey =
     inContext\<lparr>ecb_ctx := AesSetKey L (ecb_ctx inContext) inKey None (if inMode = AES_ENCRYPTION then AES_ENCRYPTION else AES_DECRYPTION)\<rparr>"

fun ecb_blocks :: "'aes aes_lib \<Rightarrow> nat \<Rightarrow> 'aes ecb_context \<Rightarrow> bytes \<Rightarrow> 'aes ecb_context \<times> bytes" where
  "ecb_blocks L 0 c src = (c, [])"
| "ecb_blocks L (Suc n) c src =
     (let (a, b) = AesEncryptDirect L (ecb_ctx c) (take 16 src); (c, dst) = ecb_blocks L n (c\<lparr>ecb_ctx := a\<rparr>) (drop 16 src) in
      (c, b @ dst))"

definition AES_ECB_Update :: "'aes aes_lib \<Rightarrow> 'aes ecb_context \<Rightarrow> bytes \<Rightarrow> 'aes ecb_context \<times> bytes" where
  "AES_ECB_Update L c inSrc = ecb_blocks L (length inSrc div 16) c inSrc"

definition AES_ECB_Final :: "'aes aes_lib \<Rightarrow> 'aes ecb_context \<Rightarrow> 'aes ecb_context" where
  "AES_ECB_Final L c = \<lparr>ecb_ctx = aes_zero L, ecb_mode = 0\<rparr>"

section \<open>Big-endian numbers\<close>

definition be :: "bytes \<Rightarrow> nat" where
  "be c = foldl (\<lambda>n b. 256 * n + unat b) 0 c"

fun to_be :: "nat \<Rightarrow> nat \<Rightarrow> bytes" where
  "to_be 0 m = []"
| "to_be (Suc l) m = to_be l (m div 256) @ [of_nat m]"

lemma be_snoc: "be (c @ [x]) = 256 * be c + unat x"
  by (simp add: be_def)

lemma be_to_be: "be (to_be l m) = m mod 256 ^ l"
proof (induction l arbitrary: m)
  case (Suc l)
  show ?case by (simp add: be_snoc Suc unat_of_nat take_bit_eq_mod mod_mult2_eq)
qed (simp add: be_def)

lemma length_to_be [simp]: "length (to_be l m) = l"
  by (induction l arbitrary: m) simp_all

lemma to_be_snoc: "n < 256 \<Longrightarrow> to_be (Suc l) (256 * m + n) = to_be l m @ [of_nat n]"
proof -
  have "(256 :: u8) = 0" by simp
  then show "n < 256 \<Longrightarrow> to_be (Suc l) (256 * m + n) = to_be l m @ [of_nat n]" by (simp only: to_be.simps of_nat_add of_nat_mult of_nat_numeral) simp
qed

lemma to_be_be: "to_be (length c) (be c) = c"
proof (induction c rule: rev_induct)
  case (snoc x c)
  then show ?case using to_be_snoc [of "unat x" "length c" "be c"] unsigned_less [of x, where ?'a = nat] by (simp add: be_snoc)
qed simp

lemma to_be_mod: "to_be l (m mod 256 ^ l) = to_be l m"
  using to_be_be [of "to_be l m"] by (simp add: be_to_be)

lemma ctr_increment_be: "ctr_increment (length u) (u @ t) = to_be (length u) (be u + 1) @ t"
proof (induction u arbitrary: t rule: rev_induct)
  case (snoc x u)
  have x: "unat x < 256" using unsigned_less [of x, where ?'a = nat] by simp
  show ?case
  proof (cases "x + 1 = 0")
    case False
    then have "unat x + 1 < 256" using unatSuc [of x] unsigned_less [of "1 + x", where ?'a = nat] by (simp add: add.commute)
    then show ?thesis using False to_be_snoc [of "unat x + 1" "length u" "be u"] to_be_be [of u] by (simp add: be_snoc nth_append Let_def list_update_append ac_simps)
  next
    case True
    then have "x = - 1" by (simp add: eq_neg_iff_add_eq_0)
    then have "unat x = 255" by (simp add: unsigned_minus_1_eq_mask mask_eq_exp_minus_1)
    then show ?thesis using True snoc [of "0 # t"] to_be_snoc [of 0 "length u" "be u + 1"]
      by (simp add: be_snoc nth_append Let_def list_update_append)
  qed
qed simp

lemma AES_CTR_Increment_to_be: "AES_CTR_Increment (to_be 16 m) = to_be 16 (m + 1)"
proof -
  have "to_be 16 (be (to_be 16 m) + 1) = to_be 16 ((be (to_be 16 m) + 1) mod 256 ^ 16)" by (simp only: to_be_mod)
  also have "\<dots> = to_be 16 ((m + 1) mod 256 ^ 16)" by (simp only: be_to_be mod_add_left_eq)
  also have "\<dots> = to_be 16 (m + 1)" by (rule to_be_mod)
  finally show ?thesis using ctr_increment_be [of "to_be 16 m" "[]"] by (simp add: AES_CTR_Increment_def)
qed

section \<open>A key stream\<close>

text \<open>\<open>xor_at f n d\<close>: the bytes \<open>d\<close> at place \<open>n\<close> of a message under the key stream \<open>f\<close>.\<close>

fun xor_at :: "(nat \<Rightarrow> u8) \<Rightarrow> nat \<Rightarrow> bytes \<Rightarrow> bytes" where
  "xor_at f n [] = []"
| "xor_at f n (s # d) = (s XOR f n) # xor_at f (n + 1) d"

lemma length_xor_at [simp]: "length (xor_at f n d) = length d"
  by (induction d arbitrary: n) simp_all

lemma xor_at_append: "xor_at f n (a @ b) = xor_at f n a @ xor_at f (n + length a) b"
  by (induction a arbitrary: n) (simp_all add: add.assoc add.commute)

lemma xor_at_twice: "xor_at f n (xor_at f n d) = d"
  by (induction d arbitrary: n) (simp_all add: xor.assoc)

lemma nth_xor_at: "i < length d \<Longrightarrow> xor_at f n d ! i = d ! i XOR f (n + i)"
  by (induction d arbitrary: n i) (auto simp: nth_Cons split: nat.split)

text \<open>The first loop takes bytes of the block that the buffer holds, to the end of the input or of the block.\<close>

lemma ctr_buffered_stream:
  assumes "unat used = n mod 16" and "n mod 16 \<noteq> 0 \<longrightarrow> length buf = 16 \<and> (\<forall>i<16. buf ! i = f (16 * (n div 16) + i))"
  shows "\<exists>m used'. ctr_buffered buf used src = Some (xor_at f n (take m src), drop m src, used') \<and> m \<le> length src \<and>
     unat used' = (n + m) mod 16 \<and> (m = length src \<or> (n + m) mod 16 = 0) \<and> (n + m + 15) div 16 = (n + 15) div 16 \<and>
     ((n + m) mod 16 \<noteq> 0 \<longrightarrow> n mod 16 \<noteq> 0 \<and> (n + m) div 16 = n div 16)"
  using assms
proof (induction src arbitrary: n used)
  case Nil
  then show ?case by (intro exI [of _ 0] exI [of _ used]) auto
next
  case (Cons s src)
  show ?case
  proof (cases "used = 0")
    case True
    then show ?thesis using Cons.prems(1) by (intro exI [of _ 0] exI [of _ used]) auto
  next
    case False
    then have n: "n mod 16 \<noteq> 0" using Cons.prems(1) by (metis unsigned_0 word_unat_eq_iff)
    then have k: "buf ! (n mod 16) = f n" using Cons.prems(2) by (metis mod_less_divisor mult_div_mod_eq zero_less_numeral)
    have u: "unat ((used + 1) mod 16) = (n + 1) mod 16"
    proof -
      have "unat (used + 1) = unat used + 1" using Cons.prems(1) unatSuc [of used] mod_less_divisor [of 16 n]
        by (simp add: unat_word_ariths)
      then show ?thesis using Cons.prems(1) by (simp add: unat_mod mod_Suc_eq)
    qed
    have d: "(n + 1) mod 16 \<noteq> 0 \<Longrightarrow> (n + 1) div 16 = n div 16" by (simp add: mod_Suc div_Suc split: if_splits)
    have "(n + 1) mod 16 \<noteq> 0 \<longrightarrow> length buf = 16 \<and> (\<forall>i<16. buf ! i = f (16 * ((n + 1) div 16) + i))"
      using Cons.prems(2) n d by simp
    from Cons.IH [OF u this] have ih: "\<exists>m used'. ctr_buffered buf ((used + 1) mod 16) src = Some (xor_at f (n + 1) (take m src), drop m src, used') \<and>
        m \<le> length src \<and> unat used' = (n + 1 + m) mod 16 \<and> (m = length src \<or> (n + 1 + m) mod 16 = 0) \<and>
        (n + 1 + m + 15) div 16 = (n + 1 + 15) div 16 \<and>
        ((n + 1 + m) mod 16 \<noteq> 0 \<longrightarrow> (n + 1) mod 16 \<noteq> 0 \<and> (n + 1 + m) div 16 = (n + 1) div 16)" .
    then obtain m used' where m:
      "ctr_buffered buf ((used + 1) mod 16) src = Some (xor_at f (n + 1) (take m src), drop m src, used')" "m \<le> length src"
      "unat used' = (n + 1 + m) mod 16" "m = length src \<or> (n + 1 + m) mod 16 = 0" "(n + 1 + m + 15) div 16 = (n + 1 + 15) div 16"
      "(n + 1 + m) mod 16 \<noteq> 0 \<longrightarrow> (n + 1) mod 16 \<noteq> 0 \<and> (n + 1 + m) div 16 = (n + 1) div 16"
      by (elim exE conjE) (rule that)
    have "(n + 1 + 15) div 16 = (n + 15) div 16"
    proof -
      define q r where "q = n div 16" and "r = n mod 16"
      have "n = 16 * q + r" "r < 16" "r \<noteq> 0" using n by (simp_all add: q_def r_def)
      then have "(n + 1 + 15) div 16 = q + 1" "(n + 15) div 16 = q + 1" by (auto intro!: div_nat_eqI)
      then show ?thesis by simp
    qed
    then have e: "(n + Suc m + 15) div 16 = (n + 15) div 16" using m(5) by simp
    have r: "rd buf (unat used) = Some (f n)" using Cons.prems n k by (simp add: rd_def)
    have m': "n + Suc m = n + 1 + m" by simp
    have "ctr_buffered buf used (s # src) = Some (xor_at f n (take (Suc m) (s # src)), drop (Suc m) (s # src), used')"
      using m(1) False r by simp
    moreover have "Suc m \<le> length (s # src)" "unat used' = (n + Suc m) mod 16" "Suc m = length (s # src) \<or> (n + Suc m) mod 16 = 0"
      using m(2,3,4) unfolding m' by simp_all
    moreover have "(n + Suc m) mod 16 \<noteq> 0 \<longrightarrow> n mod 16 \<noteq> 0 \<and> (n + Suc m) div 16 = n div 16"
      using m(6) n d unfolding m' by metis
    ultimately show ?thesis using e by (intro exI [of _ "Suc m"] exI [of _ used'] conjI)
  qed
qed

lemma ctr_trailing_stream:
  "length buf = 16 \<Longrightarrow> (\<forall>i<16. buf ! i = f (n + i)) \<Longrightarrow> u + length src \<le> 16 \<Longrightarrow> unat used = u \<Longrightarrow>
     \<exists>used'. ctr_trailing buf used src = Some (xor_at f (n + u) src, used') \<and> unat used' = u + length src"
proof (induction src arbitrary: u used)
  case (Cons s src)
  then have "unat (used + 1) = u + 1" by (simp add: unat_word_ariths)
  then obtain used' where "ctr_trailing buf (used + 1) src = Some (xor_at f (n + (u + 1)) src, used')" "unat used' = u + 1 + length src"
    using Cons.IH [of "u + 1" "used + 1"] Cons.prems by auto
  then show ?case using Cons.prems by (simp add: rd_def)
qed simp

section \<open>What the library does\<close>

text \<open>Cipher block chaining of whole blocks from the block \<open>iv\<close>, the last block of the result, and the way back.\<close>

function cbc_enc :: "(bytes \<Rightarrow> bytes) \<Rightarrow> bytes \<Rightarrow> bytes \<Rightarrow> bytes" where
  "cbc_enc e iv src = (if length src < 16 then [] else (let c = e (map2 (XOR) (take 16 src) iv) in c @ cbc_enc e c (drop 16 src)))"
  by pat_completeness auto
termination
  by (relation "measure (\<lambda>(e, iv, src). length src)") auto

function cbc_last :: "(bytes \<Rightarrow> bytes) \<Rightarrow> bytes \<Rightarrow> bytes \<Rightarrow> bytes" where
  "cbc_last e iv src = (if length src < 16 then iv else cbc_last e (e (map2 (XOR) (take 16 src) iv)) (drop 16 src))"
  by pat_completeness auto
termination
  by (relation "measure (\<lambda>(e, iv, src). length src)") auto

function cbc_dec :: "(bytes \<Rightarrow> bytes) \<Rightarrow> bytes \<Rightarrow> bytes \<Rightarrow> bytes" where
  "cbc_dec d iv src = (if length src < 16 then [] else map2 (XOR) (d (take 16 src)) iv @ cbc_dec d (take 16 src) (drop 16 src))"
  by pat_completeness auto
termination
  by (relation "measure (\<lambda>(d, iv, src). length src)") auto

declare cbc_enc.simps [simp del] cbc_last.simps [simp del] cbc_dec.simps [simp del]

lemma cbc_enc_append:
  "length x = 16 * n \<Longrightarrow> cbc_enc e iv (x @ y) = cbc_enc e iv x @ cbc_enc e (cbc_last e iv x) y"
proof (induction n arbitrary: x iv)
  case (Suc n)
  then show ?case using Suc.IH [of "drop 16 x" "e (map2 (XOR) (take 16 x) iv)"]
    by (subst (1 2) cbc_enc.simps, subst cbc_last.simps) (simp add: Let_def)
qed (simp add: cbc_enc.simps cbc_last.simps)

lemma cbc_last_append:
  "length x = 16 * n \<Longrightarrow> cbc_last e iv (x @ y) = cbc_last e (cbc_last e iv x) y"
proof (induction n arbitrary: x iv)
  case (Suc n)
  let ?c = "e (map2 (XOR) (take 16 x) iv)"
  have "cbc_last e iv (x @ y) = cbc_last e ?c (drop 16 x @ y)" "cbc_last e iv x = cbc_last e ?c (drop 16 x)"
    using Suc.prems by (subst cbc_last.simps, simp)+
  then show ?case using Suc.IH [of "drop 16 x" ?c] Suc.prems by simp
qed (simp add: cbc_last.simps [of _ _ "[]"])

text \<open>\<open>key_of\<close>: the key for which a structure was set up to encrypt. \<open>reg_of\<close>: the block that chaining continues from,
  which \<open>MicoAES.h\<close> keeps in the structure.\<close>

locale aes_library =
  fixes L :: "'aes aes_lib" and key_of :: "'aes \<Rightarrow> bytes option" and reg_of :: "'aes \<Rightarrow> bytes"
    and E :: "bytes \<Rightarrow> bytes \<Rightarrow> bytes" and D :: "bytes \<Rightarrow> bytes \<Rightarrow> bytes"
  assumes set_key: "length k = 16 \<Longrightarrow> length iv = 16 \<Longrightarrow> key_of (AesSetKeyDirect L a k (Some iv) AES_ENCRYPTION) = Some k \<and>
      reg_of (AesSetKeyDirect L a k (Some iv) AES_ENCRYPTION) = iv"
    and set_key_direct: "length k = 16 \<Longrightarrow> key_of (AesSetKey L a k None AES_ENCRYPTION) = Some k"
    and encrypt_direct: "key_of a = Some k \<Longrightarrow> length b = 16 \<Longrightarrow>
      \<exists>a'. AesEncryptDirect L a b = (a', E k b) \<and> key_of a' = Some k \<and> reg_of a' = reg_of a"
    and cbc_encrypt: "key_of a = Some k \<Longrightarrow> 16 dvd length src \<Longrightarrow>
      \<exists>a'. AesCbcEncrypt L a src = (a', cbc_enc (E k) (reg_of a) src) \<and> key_of a' = Some k \<and> reg_of a' = cbc_last (E k) (reg_of a) src"
    and cipher: "length k = 16 \<Longrightarrow> length b = 16 \<Longrightarrow> length (E k b) = 16 \<and> D k (E k b) = b"

text \<open>The key stream of counter mode: the cipher of the counter of each block.\<close>

definition ctr_stream :: "(bytes \<Rightarrow> bytes) \<Rightarrow> bytes \<Rightarrow> nat \<Rightarrow> u8" where
  "ctr_stream e nonce i = e (to_be 16 (be nonce + i div 16)) ! (i mod 16)"

fun ctr_update_all :: "'aes aes_lib \<Rightarrow> 'aes ctr_context \<Rightarrow> bytes list \<Rightarrow> ('aes ctr_context \<times> bytes) option" where
  "ctr_update_all L c [] = Some (c, [])"
| "ctr_update_all L c (d # ds) = do {
     (c, dst) \<leftarrow> AES_CTR_Update L c d;
     (c, dst') \<leftarrow> ctr_update_all L c ds;
     Some (c, dst @ dst')
   }"

context aes_library
begin

text \<open>The context has encrypted \<open>n\<close> bytes.\<close>

definition ctr_at :: "bytes \<Rightarrow> bytes \<Rightarrow> 'aes ctr_context \<Rightarrow> nat \<Rightarrow> bool" where
  "ctr_at k nonce c n \<longleftrightarrow> key_of (ctr_ctx c) = Some k \<and> length k = 16 \<and> \<not> ctr_legacy c \<and>
     ctr_ctr c = to_be 16 (be nonce + (n + 15) div 16) \<and> unat (ctr_used c) = n mod 16 \<and>
     (n mod 16 \<noteq> 0 \<longrightarrow> ctr_buf c = E k (to_be 16 (be nonce + n div 16)))"

lemma ctr_at_init: "length k = 16 \<Longrightarrow> length nonce = 16 \<Longrightarrow> ctr_at k nonce (AES_CTR_Init L c k nonce) 0"
  using set_key [of k nonce "ctr_ctx c"] to_be_be [of nonce] by (simp add: ctr_at_def AES_CTR_Init_def)

lemma ctr_next_block:
  assumes "key_of (ctr_ctx c) = Some k" and "ctr_ctr c = to_be 16 (be nonce + j)"
  shows "key_of (ctr_ctx (ctr_next L c)) = Some k" "ctr_ctr (ctr_next L c) = to_be 16 (be nonce + (j + 1))"
    "ctr_buf (ctr_next L c) = E k (to_be 16 (be nonce + j))" "ctr_used (ctr_next L c) = ctr_used c" "ctr_legacy (ctr_next L c) = ctr_legacy c"
proof -
  obtain a where a: "AesEncryptDirect L (ctr_ctx c) (ctr_ctr c) = (a, E k (ctr_ctr c))" "key_of a = Some k"
    using encrypt_direct [OF assms(1), of "ctr_ctr c"] assms(2) by auto
  then show "key_of (ctr_ctx (ctr_next L c)) = Some k" "ctr_ctr (ctr_next L c) = to_be 16 (be nonce + (j + 1))"
    "ctr_buf (ctr_next L c) = E k (to_be 16 (be nonce + j))" "ctr_used (ctr_next L c) = ctr_used c" "ctr_legacy (ctr_next L c) = ctr_legacy c"
    using AES_CTR_Increment_to_be [of "be nonce + j"] by (simp_all add: ctr_next_def assms(2) add.assoc)
qed

lemma block_stream: "\<forall>i<16. E k (to_be 16 (be nonce + j)) ! i = ctr_stream (E k) nonce (16 * j + i)"
  by (simp add: ctr_stream_def)

lemma ctr_whole_stream:
  assumes "key_of (ctr_ctx c) = Some k" and "length k = 16" and "ctr_ctr c = to_be 16 (be nonce + j)"
  shows "\<exists>c' m. ctr_whole L c src = (c', xor_at (ctr_stream (E k) nonce) (16 * j) (take (16 * m) src), drop (16 * m) src) \<and>
     16 * m \<le> length src \<and> length src < 16 * m + 16 \<and> key_of (ctr_ctx c') = Some k \<and> ctr_ctr c' = to_be 16 (be nonce + (j + m)) \<and>
     ctr_used c' = ctr_used c \<and> ctr_legacy c' = ctr_legacy c"
  using assms
proof (induction "length src" arbitrary: c src j rule: less_induct)
  case less
  show ?case
  proof (cases "16 \<le> length src")
    case False
    then show ?thesis using less.prems by (intro exI [of _ c] exI [of _ 0]) (simp add: ctr_whole.simps)
  next
    case True
    note nb = ctr_next_block [OF less.prems(1,3)]
    have "length (drop 16 src) < length src" using True by simp
    from less.hyps [OF this nb(1) less.prems(2) nb(2)] obtain c' m where m: "ctr_whole L (ctr_next L c) (drop 16 src) =
        (c', xor_at (ctr_stream (E k) nonce) (16 * (j + 1)) (take (16 * m) (drop 16 src)), drop (16 * m) (drop 16 src))"
      "16 * m \<le> length (drop 16 src)" "length (drop 16 src) < 16 * m + 16" "key_of (ctr_ctx c') = Some k"
      "ctr_ctr c' = to_be 16 (be nonce + (j + 1 + m))" "ctr_used c' = ctr_used (ctr_next L c)" "ctr_legacy c' = ctr_legacy (ctr_next L c)"
      by (elim exE conjE) (rule that)
    have len: "length (E k (to_be 16 (be nonce + j))) = 16" using cipher [OF less.prems(2), of "to_be 16 (be nonce + j)"] by simp
    have x: "map2 (XOR) (take 16 src) (ctr_buf (ctr_next L c)) = xor_at (ctr_stream (E k) nonce) (16 * j) (take 16 src)"
      unfolding nb(3) using True len block_stream [of k nonce j] by (intro nth_equalityI) (simp_all add: nth_xor_at)
    have t: "take (16 * (m + 1)) src = take 16 src @ take (16 * m) (drop 16 src)" using take_add [of 16 "16 * m" src] by simp
    have "length (take 16 src) = 16" using True by simp
    then have "xor_at (ctr_stream (E k) nonce) (16 * j) (take (16 * (m + 1)) src) =
        xor_at (ctr_stream (E k) nonce) (16 * j) (take 16 src) @ xor_at (ctr_stream (E k) nonce) (16 * (j + 1)) (take (16 * m) (drop 16 src))"
      by (simp only: t xor_at_append) (simp add: add.commute)
    moreover have "drop (16 * m) (drop 16 src) = drop (16 * (m + 1)) src" by (simp add: add.commute)
    ultimately have "ctr_whole L c src = (c', xor_at (ctr_stream (E k) nonce) (16 * j) (take (16 * (m + 1)) src), drop (16 * (m + 1)) src)"
      using True m(1) x by (subst ctr_whole.simps) (simp add: Let_def)
    moreover have "16 * (m + 1) \<le> length src" "length src < 16 * (m + 1) + 16" using True m(2,3) by simp_all
    ultimately show ?thesis using m(4,5,6,7) nb(4,5) by (intro exI [of _ c'] exI [of _ "m + 1"]) (simp add: ac_simps)
  qed
qed

lemma ctr_update_stream:
  assumes "ctr_at k nonce c n"
  shows "\<exists>c'. AES_CTR_Update L c d = Some (c', xor_at (ctr_stream (E k) nonce) n d) \<and> ctr_at k nonce c' (n + length d)"
proof -
  let ?f = "ctr_stream (E k) nonce"
  have c: "key_of (ctr_ctx c) = Some k" "length k = 16" "\<not> ctr_legacy c" "ctr_ctr c = to_be 16 (be nonce + (n + 15) div 16)"
    "unat (ctr_used c) = n mod 16" "n mod 16 \<noteq> 0 \<longrightarrow> ctr_buf c = E k (to_be 16 (be nonce + n div 16))"
    using assms by (simp_all add: ctr_at_def)
  have len: "length (E k (to_be 16 (be nonce + i))) = 16" for i using cipher [OF c(2), of "to_be 16 (be nonce + i)"] by simp
  have "n mod 16 \<noteq> 0 \<longrightarrow> length (ctr_buf c) = 16 \<and> (\<forall>i<16. ctr_buf c ! i = ?f (16 * (n div 16) + i))"
    using c(6) len block_stream by simp
  from ctr_buffered_stream [OF c(5) this, of d]
  obtain m used where m: "ctr_buffered (ctr_buf c) (ctr_used c) d = Some (xor_at ?f n (take m d), drop m d, used)" "m \<le> length d"
    "unat used = (n + m) mod 16" "m = length d \<or> (n + m) mod 16 = 0" "(n + m + 15) div 16 = (n + 15) div 16"
    "(n + m) mod 16 \<noteq> 0 \<longrightarrow> n mod 16 \<noteq> 0 \<and> (n + m) div 16 = n div 16"
    by (elim exE conjE) (rule that)
  define c1 where "c1 = c\<lparr>ctr_used := used\<rparr>"
  define j where "j = (n + 15) div 16"
  have c1: "key_of (ctr_ctx c1) = Some k" "ctr_ctr c1 = to_be 16 (be nonce + j)" using c by (simp_all add: c1_def j_def)
  from ctr_whole_stream [OF c1(1) c(2) c1(2), of "drop m d"]
  obtain c2 i where i: "ctr_whole L c1 (drop m d) = (c2, xor_at ?f (16 * j) (take (16 * i) (drop m d)), drop (16 * i) (drop m d))"
    "16 * i \<le> length (drop m d)" "length (drop m d) < 16 * i + 16" "key_of (ctr_ctx c2) = Some k"
    "ctr_ctr c2 = to_be 16 (be nonce + (j + i))" "ctr_used c2 = used" "ctr_legacy c2 = False"
    using c(3) by (auto simp: c1_def)
  show ?thesis
  proof (cases "m = length d")
    case True
    then have "AES_CTR_Update L c d = Some (c1, xor_at ?f n d)" using m(1) by (simp add: AES_CTR_Update_def ctr_whole.simps flip: c1_def)
    moreover have "ctr_at k nonce c1 (n + length d)" using c m True by (simp add: ctr_at_def c1_def)
    ultimately show ?thesis by blast
  next
    case False
    then have z: "(n + m) mod 16 = 0" using m(4) by blast
    have p: "n + m = 16 * j"
    proof -
      define q where "q = (n + m) div 16"
      have q: "n + m = 16 * q" using z by (auto simp: q_def)
      then have "(n + m + 15) div 16 = q" by (auto intro: div_nat_eqI)
      then show ?thesis using m(5) q by (simp add: j_def)
    qed
    define e where "e = drop m d"
    define l where "l = drop (16 * i) e"
    have l: "length l < 16" "length e = 16 * i + length l" using i(2,3) by (simp_all add: l_def e_def)
    have dm: "d = take m d @ take (16 * i) e @ l" unfolding l_def append_take_drop_id by (simp add: e_def)
    have pos: "n + length (take m d) = 16 * j" "16 * j + length (take (16 * i) e) = 16 * (j + i)" "n + length d = 16 * (j + i) + length l"
      using p m(2) l(2) by (auto simp: e_def)
    have "xor_at ?f n d = xor_at ?f n (take m d @ take (16 * i) e @ l)" using dm by (rule arg_cong)
    also have "\<dots> = xor_at ?f n (take m d) @ xor_at ?f (16 * j) (take (16 * i) e) @ xor_at ?f (16 * (j + i)) l"
      by (simp only: xor_at_append pos)
    finally have x: "xor_at ?f n d = \<dots>" .
    have u: "used = 0" using m(3) z by (simp add: unsigned_eq_0_iff)
    have w: "ctr_buffered (ctr_buf c) (ctr_used c) d = Some (xor_at ?f n (take m d), e, used)"
      "ctr_whole L c1 e = (c2, xor_at ?f (16 * j) (take (16 * i) e), l)" using m(1) i(1) by (simp_all only: e_def l_def)
    show ?thesis
    proof (cases "l = []")
      case True
      then have "AES_CTR_Update L c d = Some (c2, xor_at ?f n d)" using w x by (simp add: AES_CTR_Update_def flip: c1_def)
      moreover have "(16 * (j + i) + 15) div 16 = j + i" by (auto intro: div_nat_eqI)
      then have "ctr_at k nonce c2 (n + length d)" unfolding pos(3) using True i(4-7) c(2) u by (simp add: ctr_at_def)
      ultimately show ?thesis by blast
    next
      case False
      note nb = ctr_next_block [OF i(4,5)]
      obtain used' where t: "ctr_trailing (ctr_buf (ctr_next L c2)) used l = Some (xor_at ?f (16 * (j + i)) l, used')" "unat used' = length l"
        using ctr_trailing_stream [of "ctr_buf (ctr_next L c2)" ?f "16 * (j + i)" 0 l used] nb(3) len block_stream [of k nonce "j + i"] l(1) u by auto
      define c3 where "c3 = (ctr_next L c2)\<lparr>ctr_used := used'\<rparr>"
      have r: "AES_CTR_Update L c d = Some (c3, xor_at ?f n d)" using w x t False i(7) nb(5)
        by (simp add: AES_CTR_Update_def c3_def Let_def flip: c1_def)
      have "(16 * (j + i) + length l + 15) div 16 = j + i + 1" "(16 * (j + i) + length l) div 16 = j + i"
        using l(1) False by (auto intro!: div_nat_eqI simp: Suc_le_eq)
      moreover have "(16 * (j + i) + length l) mod 16 = length l" using l(1) by (simp only: mod_mult_self4 mod_less)
      ultimately have "ctr_at k nonce c3 (n + length d)" unfolding pos(3) using nb t(2) c(2) i(7) by (simp add: ctr_at_def c3_def add.assoc)
      with r show ?thesis by blast
    qed
  qed
qed

lemma ctr_update_all_stream:
  "ctr_at k nonce c n \<Longrightarrow> \<exists>c'. ctr_update_all L c ds = Some (c', xor_at (ctr_stream (E k) nonce) n (concat ds)) \<and> ctr_at k nonce c' (n + length (concat ds))"
proof (induction ds arbitrary: c n)
  case (Cons d ds)
  obtain c1 where c1: "AES_CTR_Update L c d = Some (c1, xor_at (ctr_stream (E k) nonce) n d)" "ctr_at k nonce c1 (n + length d)"
    using ctr_update_stream [OF Cons.prems] by blast
  obtain c2 where "ctr_update_all L c1 ds = Some (c2, xor_at (ctr_stream (E k) nonce) (n + length d) (concat ds))"
    "ctr_at k nonce c2 (n + length d + length (concat ds))" using Cons.IH [OF c1(2)] by blast
  then show ?case using c1(1) by (simp add: xor_at_append add.assoc)
qed simp

lemma ctr_pieces:
  assumes "length k = 16" and "length nonce = 16"
  shows "\<exists>c'. ctr_update_all L (AES_CTR_Init L c k nonce) ds = Some (c', xor_at (ctr_stream (E k) nonce) 0 (concat ds))"
  using ctr_update_all_stream [OF ctr_at_init [OF assms, of c], of ds] by auto

text \<open>Frames.\<close>

lemma length_cbc_enc: "length k = 16 \<Longrightarrow> length iv = 16 \<Longrightarrow> length (cbc_enc (E k) iv src) = whole (length src)"
proof (induction "E k" iv src rule: cbc_enc.induct)
  case (1 iv src)
  show ?case
  proof (cases "length src < 16")
    case False
    let ?c = "E k (map2 (XOR) (take 16 src) iv)"
    have "length ?c = 16" using cipher [of k "map2 (XOR) (take 16 src) iv"] 1(2,3) False by simp
    moreover from this have "length (cbc_enc (E k) ?c (drop 16 src)) = whole (length (drop 16 src))" using 1(1) [OF False refl] 1(2) by simp
    moreover have "whole (length src) = 16 + whole (length (drop 16 src))"
    proof -
      have "length src = 16 + length (drop 16 src)" using False by simp
      then have "length src mod 16 = length (drop 16 src) mod 16" by (metis mod_add_self1)
      then show ?thesis using False by (simp add: whole_def le_mod_geq) 
    qed
    ultimately show ?thesis using False by (subst cbc_enc.simps) (simp add: Let_def)
  qed (simp add: cbc_enc.simps whole_def)
qed

lemma cbc_dec_cbc_enc:
  "length k = 16 \<Longrightarrow> length iv = 16 \<Longrightarrow> length src = 16 * n \<Longrightarrow> cbc_dec (D k) iv (cbc_enc (E k) iv src) = src"
proof (induction n arbitrary: src iv)
  case (Suc n)
  let ?b = "map2 (XOR) (take 16 src) iv"
  have b: "length ?b = 16" using Suc.prems by simp
  then have c: "length (E k ?b) = 16" "D k (E k ?b) = ?b" using cipher [OF Suc.prems(1) b] by simp_all
  have "map2 (XOR) ?b iv = take 16 src" using Suc.prems(2,3) by (intro nth_equalityI) (simp_all add: xor.assoc)
  moreover have "cbc_enc (E k) iv src = E k ?b @ cbc_enc (E k) (E k ?b) (drop 16 src)"
    using Suc.prems(3) by (subst cbc_enc.simps) (simp add: Let_def)
  ultimately show ?case using Suc.IH [of "E k ?b" "drop 16 src"] Suc.prems c by (subst cbc_dec.simps) simp
qed (simp add: cbc_dec.simps cbc_enc.simps)

lemma cbc_part_enc:
  assumes "key_of (cbc_ctx c) = Some k" and "length src = 16 * n"
  shows "\<exists>c'. cbc_part L c src = (c', cbc_enc (E k) (reg_of (cbc_ctx c)) src) \<and> key_of (cbc_ctx c') = Some k \<and>
     reg_of (cbc_ctx c') = cbc_last (E k) (reg_of (cbc_ctx c)) src"
proof (cases "src = []")
  case True
  then show ?thesis using assms by (intro exI [of _ c]) (simp add: cbc_part_def cbc_enc.simps cbc_last.simps)
next
  case False
  obtain a where "AesCbcEncrypt L (cbc_ctx c) src = (a, cbc_enc (E k) (reg_of (cbc_ctx c)) src)" "key_of a = Some k"
    "reg_of a = cbc_last (E k) (reg_of (cbc_ctx c)) src"
    using cbc_encrypt [OF assms(1), of src] assms(2) by auto
  then show ?thesis using False by (simp add: cbc_part_def)
qed

end

text \<open>A frame: its whole blocks are chained from \<open>iv\<close>, the rest stays as it is.\<close>

definition frame_enc :: "(bytes \<Rightarrow> bytes) \<Rightarrow> bytes \<Rightarrow> bytes \<Rightarrow> bytes" where
  "frame_enc e iv src = cbc_enc e iv (take (whole (length src)) src) @ drop (whole (length src)) src"

definition frame_dec :: "(bytes \<Rightarrow> bytes) \<Rightarrow> bytes \<Rightarrow> bytes \<Rightarrow> bytes" where
  "frame_dec d iv src = cbc_dec d iv (take (whole (length src)) src) @ drop (whole (length src)) src"

lemma whole_blocks_add: "whole (16 * q + l) = 16 * q + whole l"
proof -
  have "l mod 16 \<le> l" by simp
  then show ?thesis unfolding whole_def mod_mult_self4 by simp
qed

lemma whole_mult: "whole l = 16 * (l div 16)"
  by (simp add: whole_def minus_mod_eq_mult_div)

lemma whole_small [simp]: "l < 16 \<Longrightarrow> whole l = 0"
  by (simp add: whole_def)

lemma whole_le: "whole l \<le> l"
  by (simp add: whole_def)

lemma frame_enc_blocks: "length x = 16 * n \<Longrightarrow> frame_enc e iv (x @ y) = cbc_enc e iv x @ frame_enc e (cbc_last e iv x) y"
  using cbc_enc_append [of x n e iv "take (whole (length y)) y"] by (simp add: frame_enc_def whole_blocks_add)

context aes_library
begin

lemma frame_update:
  assumes "key_of (cbc_ctx c) = Some k"
  shows "\<exists>c'. AES_CBCFrame_Update L c src = (c', frame_enc (E k) (reg_of (cbc_ctx c)) src) \<and> key_of (cbc_ctx c') = Some k \<and>
     reg_of (cbc_ctx c') = cbc_last (E k) (reg_of (cbc_ctx c)) (take (whole (length src)) src)"
proof -
  have "length (take (whole (length src)) src) = 16 * (length src div 16)" by (simp add: whole_mult times_div_less_eq_dividend)
  from cbc_part_enc [OF assms this] show ?thesis by (auto simp: AES_CBCFrame_Update_def frame_enc_def Let_def)
qed

text \<open>Chaining whole blocks \<open>x\<close> and then what \<open>AES_CBCFrame_Update2\<close> does with the bytes behind them.\<close>

lemma frame_update2:
  assumes "key_of (cbc_ctx c) = Some k"
  shows "snd (AES_CBCFrame_Update2 L c src1 src2) = frame_enc (E k) (reg_of (cbc_ctx c)) (src1 @ src2)"
proof -
  define n where "n = whole (length src1)"
  define x where "x = take n src1"
  define r where "r = drop n src1"
  have x: "length x = 16 * (length src1 div 16)" by (simp add: x_def n_def whole_mult times_div_less_eq_dividend)
  have r: "length r < 16" by (simp add: r_def n_def whole_def)
  obtain c1 where c1: "cbc_part L c x = (c1, cbc_enc (E k) (reg_of (cbc_ctx c)) x)" "key_of (cbc_ctx c1) = Some k"
    "reg_of (cbc_ctx c1) = cbc_last (E k) (reg_of (cbc_ctx c)) x"
    using cbc_part_enc [OF assms x] by auto
  have f: "frame_enc (E k) (reg_of (cbc_ctx c)) (src1 @ src2) = cbc_enc (E k) (reg_of (cbc_ctx c)) x @ frame_enc (E k) (reg_of (cbc_ctx c1)) (r @ src2)"
  proof -
    have "src1 @ src2 = x @ r @ src2" by (simp add: x_def r_def flip: append_assoc)
    then show ?thesis unfolding c1(3) by (simp only: frame_enc_blocks [OF x])
  qed
  define dst1 where "dst1 = cbc_enc (E k) (reg_of (cbc_ctx c)) x"
  note c1 = c1 [folded dst1_def] and f = f [folded dst1_def]
  have u: "AES_CBCFrame_Update2 L c src1 src2 =
      (let (c, dst2, src1, src2) =
            (if r \<noteq> [] \<and> length r + length src2 \<ge> 16
             then (let m = 16 - length r; (c, dst2) = cbc_part L c1 (r @ take m src2) in (c, dst2, [], drop m src2))
             else (c1, [], r, src2));
          n = whole (length src2);
          (c, dst3) = cbc_part L c (take n src2) in
      (c, dst1 @ dst2 @ dst3 @ src1 @ drop n src2))"
    unfolding AES_CBCFrame_Update2_def Let_def n_def [symmetric] x_def [symmetric] r_def [symmetric] c1(1) prod.case ..
  have part: "\<exists>c'. cbc_part L c2 (take (whole (length y)) y) = (c', cbc_enc (E k) (reg_of (cbc_ctx c2)) (take (whole (length y)) y))"
    if "key_of (cbc_ctx c2) = Some k" for c2 y
    using cbc_part_enc [OF that, of "take (whole (length y)) y" "length y div 16"] by (auto simp: whole_mult times_div_less_eq_dividend)
  show ?thesis
  proof (cases "r \<noteq> [] \<and> length r + length src2 \<ge> 16")
    case True
    define m where "m = 16 - length r"
    define b where "b = r @ take m src2"
    define y where "y = drop m src2"
    have b: "length b = 16 * 1" "r @ src2 = b @ y" using True r by (auto simp: b_def y_def m_def min_def)
    obtain c2 where c2: "cbc_part L c1 b = (c2, cbc_enc (E k) (reg_of (cbc_ctx c1)) b)" "key_of (cbc_ctx c2) = Some k"
      "reg_of (cbc_ctx c2) = cbc_last (E k) (reg_of (cbc_ctx c1)) b"
      using cbc_part_enc [OF c1(2) b(1)] by auto
    obtain c3 where "cbc_part L c2 (take (whole (length y)) y) = (c3, cbc_enc (E k) (reg_of (cbc_ctx c2)) (take (whole (length y)) y))"
      using part [OF c2(2)] by blast
    moreover have "frame_enc (E k) (reg_of (cbc_ctx c1)) (r @ src2) = cbc_enc (E k) (reg_of (cbc_ctx c1)) b @ frame_enc (E k) (reg_of (cbc_ctx c2)) y"
      unfolding b(2) c2(3) by (rule frame_enc_blocks [OF b(1)])
    ultimately show ?thesis unfolding f u using True c2(1)
      by (simp only: if_True Let_def prod.case flip: m_def b_def y_def) (simp add: frame_enc_def)
  next
    case False
    obtain c3 where c3: "cbc_part L c1 (take (whole (length src2)) src2) = (c3, cbc_enc (E k) (reg_of (cbc_ctx c1)) (take (whole (length src2)) src2))"
      using part [OF c1(2)] by blast
    show ?thesis
    proof (cases "r = []")
      case True
      then show ?thesis unfolding f u using c3 by (simp add: frame_enc_def Let_def)
    next
      case s: False
      then have "length (r @ src2) < 16" "length src2 < 16" using False by auto
      then show ?thesis unfolding f u using s False c3 by (simp add: frame_enc_def Let_def cbc_enc.simps)
    qed
  qed
qed

lemma frame_init:
  "length k = 16 \<Longrightarrow> length iv = 16 \<Longrightarrow> key_of (cbc_ctx (AES_CBCFrame_Init L c k iv True)) = Some k \<and>
     reg_of (cbc_ctx (AES_CBCFrame_Init L c k iv True)) = iv"
  using set_key [of k iv] by (simp add: AES_CBCFrame_Init_def)

lemma length_frame_enc: "length k = 16 \<Longrightarrow> length iv = 16 \<Longrightarrow> length (frame_enc (E k) iv src) = length src"
  using whole_le [of "length src"] length_cbc_enc [of k iv "take (whole (length src)) src"]
  by (simp add: frame_enc_def whole_mult times_div_less_eq_dividend)

lemma frame_dec_frame_enc:
  assumes "length k = 16" and "length iv = 16"
  shows "frame_dec (D k) iv (frame_enc (E k) iv src) = src"
proof -
  let ?x = "take (whole (length src)) src"
  have x: "length ?x = 16 * (length src div 16)" by (simp add: whole_mult times_div_less_eq_dividend)
  have "length (cbc_enc (E k) iv ?x) = whole (length src)" using length_cbc_enc [OF assms, of ?x] x by (simp add: whole_mult)
  then show ?thesis using cbc_dec_cbc_enc [OF assms x] length_frame_enc [OF assms, of src]
    by (simp add: frame_dec_def) (simp add: frame_enc_def)
qed

lemma cbc_last_block:
  assumes "length k = 16" and "length iv = 16" and "length src = 16 * n + 16"
  shows "cbc_last (E k) iv src = drop (16 * n) (cbc_enc (E k) iv src)"
proof -
  let ?x = "take (16 * n) src" and ?y = "drop (16 * n) src"
  have x: "length ?x = 16 * n" "length ?y = 16" and s: "src = ?x @ ?y" using assms(3) by simp_all
  have "cbc_enc (E k) r ?y = cbc_last (E k) r ?y" for r using x(2)
    by (simp add: cbc_enc.simps [of _ _ ?y] cbc_last.simps [of _ _ ?y] cbc_enc.simps [of _ _ "[]"] cbc_last.simps [of _ _ "[]"] Let_def)
  moreover have "length (cbc_enc (E k) iv ?x) = 16 * n" using length_cbc_enc [OF assms(1,2), of ?x] x(1) by (simp add: whole_mult)
  ultimately show ?thesis using cbc_enc_append [OF x(1), of "E k" iv ?y] cbc_last_append [OF x(1), of "E k" iv ?y] s by simp
qed

lemma frame_dec_other_iv:
  assumes "length k = 16" and "length r = 16" and "16 \<le> length src"
  shows "frame_dec (D k) iv (frame_enc (E k) r src) = map2 (XOR) (map2 (XOR) (take 16 src) r) iv @ drop 16 src"
proof -
  let ?p = "map2 (XOR) (take 16 src) r"
  have p: "length ?p = 16" using assms(2,3) by simp
  have c: "length (E k ?p) = 16" "D k (E k ?p) = ?p" using cipher [OF assms(1) p] by simp_all
  have "length (take 16 src) = 16 * 1" using assms(3) by simp
  from frame_enc_blocks [OF this, of "E k" r "drop 16 src"]
  have "frame_enc (E k) r src = E k ?p @ frame_enc (E k) (E k ?p) (drop 16 src)"
    using assms(3) by (simp add: cbc_enc.simps [of _ _ "take 16 src"] cbc_last.simps [of _ _ "take 16 src"] cbc_enc.simps [of _ _ "[]"] cbc_last.simps [of _ _ "[]"] Let_def)
  moreover have "frame_dec (D k) iv (u @ z) = map2 (XOR) (D k u) iv @ frame_dec (D k) u z" if "length u = 16" for u z
    using that whole_blocks_add [of 1 "length z"] by (simp add: frame_dec_def cbc_dec.simps [of _ _ "u @ take _ z"])
  ultimately show ?thesis using frame_dec_frame_enc [OF assms(1) c(1)] c by simp
qed

lemma second_frame:
  assumes "length k = 16" and "length iv = 16" and "16 \<le> length f1" and "16 \<le> length f2"
    and "AES_CBCFrame_Update L (AES_CBCFrame_Init L c k iv True) f1 = (c1, o1)" and "AES_CBCFrame_Update L c1 f2 = (c2, o2)"
  shows "o1 = frame_enc (E k) iv f1 \<and> o2 = frame_enc (E k) (take 16 (drop (whole (length f1) - 16) o1)) f2 \<and>
     (frame_dec (D k) iv o2 = f2 \<longleftrightarrow> take 16 (drop (whole (length f1) - 16) o1) = iv)"
proof -
  define n where "n = length f1 div 16 - 1"
  have "0 < length f1 div 16" using assms(3) by (simp add: div_greater_zero_iff)
  then have n: "whole (length f1) = 16 * n + 16" by (simp add: n_def whole_mult)
  let ?x = "take (whole (length f1)) f1"
  have x: "length ?x = 16 * n + 16" using whole_le [of "length f1"] n by simp
  have i: "key_of (cbc_ctx (AES_CBCFrame_Init L c k iv True)) = Some k" "reg_of (cbc_ctx (AES_CBCFrame_Init L c k iv True)) = iv"
    using frame_init [OF assms(1,2), of c] by simp_all
  have u1: "o1 = frame_enc (E k) iv f1" "key_of (cbc_ctx c1) = Some k" "reg_of (cbc_ctx c1) = cbc_last (E k) iv ?x"
    using frame_update [OF i(1), of f1] assms(5) i(2) by auto
  define r where "r = take 16 (drop (whole (length f1) - 16) o1)"
  have "length (cbc_enc (E k) iv ?x) = 16 * n + 16"
    using length_cbc_enc [OF assms(1,2), of ?x] x n by (simp add: whole_mult)
  then have r: "reg_of (cbc_ctx c1) = r" "length r = 16"
    using cbc_last_block [OF assms(1,2) x] by (simp_all add: u1(1,3) r_def n frame_enc_def)
  have u2: "o2 = frame_enc (E k) r f2" using frame_update [OF u1(2), of f2] assms(6) r(1) by auto
  have "frame_dec (D k) iv o2 = map2 (XOR) (map2 (XOR) (take 16 f2) r) iv @ drop 16 f2"
    unfolding u2 by (rule frame_dec_other_iv [OF assms(1) r(2) assms(4)])
  then have e: "frame_dec (D k) iv o2 = f2 \<longleftrightarrow> map2 (XOR) (map2 (XOR) (take 16 f2) r) iv @ drop 16 f2 = take 16 f2 @ drop 16 f2" by simp
  have "map2 (XOR) (map2 (XOR) p r) iv = p \<longleftrightarrow> r = iv" if "length p = 16" for p :: bytes
  proof
    assume e: "map2 (XOR) (map2 (XOR) p r) iv = p"
    have "r ! i = iv ! i" if "i < 16" for i
    proof -
      have "p ! i XOR r ! i XOR iv ! i = p ! i" using arg_cong [OF e, of "\<lambda>l. l ! i"] that \<open>length p = 16\<close> r(2) assms(2) by (simp add: xor.assoc)
      from arg_cong [OF this, of "\<lambda>y. p ! i XOR y"] have "r ! i XOR iv ! i = 0" by (simp add: xor_self_cancel)
      then show ?thesis by (simp add: xor_eq_0_iff)
    qed
    then show "r = iv" using r(2) assms(2) by (intro nth_equalityI) simp_all
  next
    assume "r = iv"
    then show "map2 (XOR) (map2 (XOR) p r) iv = p" using that assms(2) by (intro nth_equalityI) (simp_all add: xor.assoc)
  qed
  from this [of "take 16 f2"] have "frame_dec (D k) iv o2 = f2 \<longleftrightarrow> r = iv" using assms(4) unfolding e append_same_eq by simp
  then show ?thesis using u1(1) u2 unfolding r_def by blast
qed

text \<open>Single blocks.\<close>

lemma ecb_blocks_enc:
  "key_of (ecb_ctx c) = Some k \<Longrightarrow> 16 * n \<le> length src \<Longrightarrow>
     snd (ecb_blocks L n c src) = concat (map (\<lambda>i. E k (take 16 (drop (16 * i) src))) [0..<n])"
proof (induction n arbitrary: c src)
  case (Suc n)
  obtain a where a: "AesEncryptDirect L (ecb_ctx c) (take 16 src) = (a, E k (take 16 src))" "key_of a = Some k"
    using encrypt_direct [OF Suc.prems(1), of "take 16 src"] Suc.prems(2) by auto
  have "snd (ecb_blocks L n (c\<lparr>ecb_ctx := a\<rparr>) (drop 16 src)) = concat (map (\<lambda>i. E k (take 16 (drop (16 * i) (drop 16 src)))) [0..<n])"
    using a(2) Suc.prems(2) by (intro Suc.IH) simp_all
  moreover have "map (\<lambda>i. E k (take 16 (drop (16 * i) src))) [0..<Suc n] =
      E k (take 16 src) # map (\<lambda>i. E k (take 16 (drop (16 * i) (drop 16 src)))) [0..<n]"
    by (simp add: upt_conv_Cons map_Suc_upt [symmetric] comp_def add.commute del: upt_Suc)
  ultimately show ?case using a(1) by (simp add: case_prod_beta)
qed simp

lemma ecb_update_enc:
  "length k = 16 \<Longrightarrow> snd (AES_ECB_Update L (AES_ECB_Init L c AES_ENCRYPTION k) src) =
     concat (map (\<lambda>i. E k (take 16 (drop (16 * i) src))) [0..<length src div 16])"
  using set_key_direct [of k] by (simp add: AES_ECB_Update_def AES_ECB_Init_def ecb_blocks_enc times_div_less_eq_dividend)

end

section \<open>An instance of the library\<close>

text \<open>A library that keeps the key and the last block; with a key for decryption its encryption is not specified, and the
  instance leaves the blocks as they are.\<close>

definition fips_aes :: "(bytes option \<times> bytes) aes_lib" where
  "fips_aes = (let setup = \<lambda>a k iv dir. (if dir = AES_ENCRYPTION then Some k else None, case iv of None \<Rightarrow> replicate 16 0 | Some iv \<Rightarrow> iv) in
     \<lparr>AesSetKey = setup, AesSetKeyDirect = setup,
      AesEncryptDirect = \<lambda>(k, r) b. ((k, r), case k of None \<Rightarrow> b | Some k \<Rightarrow> aes_encrypt k b),
      AesCbcEncrypt = \<lambda>(k, r) src. (case k of None \<Rightarrow> ((k, r), src) | Some e \<Rightarrow> ((k, cbc_last (aes_encrypt e) r src), cbc_enc (aes_encrypt e) r src)),
      aes_zero = (None, replicate 16 0)\<rparr>)"

interpretation fips: aes_library fips_aes fst snd aes_encrypt aes_decrypt
proof (unfold_locales, goal_cases)
  case (5 k b)
  then show ?case using aes_decrypt_aes_encrypt [OF 5] by simp
qed (auto simp: fips_aes_def Let_def)

section \<open>Properties\<close>

text \<open>
  C17. Counter mode: however a message is cut into pieces, encrypting the pieces with \<open>AES_CTR_Update\<close> gives the message
  under the key stream of key and nonce, and however the result is cut into pieces, a second context with the same key and
  nonce gives the message back. No access leaves the buffer of the context, and the counter carries over all its bytes.
\<close>

theorem counter_mode_any_pieces:
  assumes "aes_library L key_of reg_of E D" and "length key = 16" and "length nonce = 16"
    and "concat es = xor_at (ctr_stream (E key) nonce) 0 (concat ds)"
  shows "(\<exists>c. ctr_update_all L (AES_CTR_Init L c1 key nonce) ds = Some (c, concat es)) \<and>
     (\<exists>c. ctr_update_all L (AES_CTR_Init L c2 key nonce) es = Some (c, concat ds))"
  using aes_library.ctr_pieces [OF assms(1-3), of c1 ds] aes_library.ctr_pieces [OF assms(1-3), of c2 es] assms(4)
  by (simp add: xor_at_twice)

theorem counter_mode_any_pieces_witness:
  "\<exists>e c c'. ctr_update_all fips_aes (AES_CTR_Init fips_aes \<lparr>ctr_ctx = (None, []), ctr_ctr = [], ctr_buf = [], ctr_used = 3, ctr_legacy = True\<rparr>
       (replicate 16 7) (replicate 16 0xFF)) [[1, 2, 3], [4], replicate 40 9] = Some (c, e) \<and>
     ctr_update_all fips_aes (AES_CTR_Init fips_aes \<lparr>ctr_ctx = (None, []), ctr_ctr = [], ctr_buf = [], ctr_used = 3, ctr_legacy = True\<rparr>
       (replicate 16 7) (replicate 16 0xFF)) [e] = Some (c', [1, 2, 3, 4] @ replicate 40 9)"
  using counter_mode_any_pieces [OF fips.aes_library_axioms, of "replicate 16 7" "replicate 16 0xFF"
      "[xor_at (ctr_stream (aes_encrypt (replicate 16 7)) (replicate 16 0xFF)) 0 ([1, 2, 3, 4] @ replicate 40 9)]" "[[1, 2, 3], [4], replicate 40 9]"]
  by simp blast

text \<open>
  C33. The first frame after \<open>AES_CBCFrame_Init\<close> in two buffers: wherever the data is split, \<open>AES_CBCFrame_Update2\<close> delivers
  what \<open>AES_CBCFrame_Update\<close> delivers for the data in one buffer, as many bytes, and cipher block chaining with key and
  initialization vector gives the data back.
\<close>

theorem frame_in_two_buffers:
  assumes "aes_library L key_of reg_of E D" and "length key = 16" and "length iv = 16"
    and "snd (AES_CBCFrame_Update2 L (AES_CBCFrame_Init L c key iv True) src1 src2) = out"
  shows "snd (AES_CBCFrame_Update L (AES_CBCFrame_Init L c key iv True) (src1 @ src2)) = out \<and>
     length out = length src1 + length src2 \<and> frame_dec (D key) iv out = src1 @ src2"
proof -
  note i = aes_library.frame_init [OF assms(1-3), of c]
  have o: "out = frame_enc (E key) iv (src1 @ src2)" using aes_library.frame_update2 [OF assms(1), of _ key src1 src2] i assms(4) by auto
  then show ?thesis using aes_library.frame_update [OF assms(1), of _ key "src1 @ src2"] i
      aes_library.length_frame_enc [OF assms(1-3), of "src1 @ src2"] aes_library.frame_dec_frame_enc [OF assms(1-3), of "src1 @ src2"]
    by (metis length_append snd_conv)
qed

theorem frame_in_two_buffers_witness:
  "\<exists>out. snd (AES_CBCFrame_Update2 fips_aes (AES_CBCFrame_Init fips_aes \<lparr>cbc_ctx = (None, []), cbc_mode = 0, cbc_iv = []\<rparr> (replicate 16 7) (replicate 16 1) True)
       (replicate 5 2) (replicate 30 3)) = out \<and> length out = 35 \<and> frame_dec (aes_decrypt (replicate 16 7)) (replicate 16 1) out = replicate 5 2 @ replicate 30 3"
  using frame_in_two_buffers [OF fips.aes_library_axioms _ _ refl, of "replicate 16 7" "replicate 16 1"
      "\<lparr>cbc_ctx = (None, []), cbc_mode = 0, cbc_iv = []\<rparr>" "replicate 5 2" "replicate 30 3"] by simp

text \<open>
  The second frame of a context does not begin with the initialization vector: \<open>AesCbcEncrypt\<close> continues from the last
  block of the first frame, and \<open>AES_CBCFrame_Update\<close> does not set the vector again. So a receiver that decrypts every frame
  with the vector gets the second frame back only if the last block of the first frame happens to be the vector.
\<close>

theorem second_frame_loses_iv:
  assumes "aes_library L key_of reg_of E D" and "length key = 16" and "length iv = 16" and "16 \<le> length f1" and "16 \<le> length f2"
    and "AES_CBCFrame_Update L (AES_CBCFrame_Init L c key iv True) f1 = (c1, o1)" and "AES_CBCFrame_Update L c1 f2 = (c2, o2)"
    and "last_block = take 16 (drop (whole (length f1) - 16) o1)"
  shows "frame_dec (D key) iv o1 = f1 \<and> frame_dec (D key) last_block o2 = f2 \<and> (frame_dec (D key) iv o2 = f2 \<longleftrightarrow> last_block = iv)"
proof -
  note s = aes_library.second_frame [OF assms(1-7)]
  have "length o1 = length f1" using s aes_library.length_frame_enc [OF assms(1-3), of f1] by simp
  then have "length last_block = 16" using assms(4) whole_le [of "length f1"] by (simp add: assms(8))
  then show ?thesis using s aes_library.frame_dec_frame_enc [OF assms(1-3), of f1] aes_library.frame_dec_frame_enc [OF assms(1,2), of last_block f2]
    unfolding assms(8) by metis
qed

theorem second_frame_loses_iv_witness:
  "\<exists>c1 o1 c2 o2. AES_CBCFrame_Update fips_aes (AES_CBCFrame_Init fips_aes \<lparr>cbc_ctx = (None, []), cbc_mode = 0, cbc_iv = []\<rparr> (replicate 16 7)
       (replicate 16 1) True) (replicate 20 2) = (c1, o1) \<and> AES_CBCFrame_Update fips_aes c1 (replicate 20 3) = (c2, o2) \<and>
     frame_dec (aes_decrypt (replicate 16 7)) (replicate 16 1) o1 = replicate 20 2 \<and>
     (frame_dec (aes_decrypt (replicate 16 7)) (replicate 16 1) o2 = replicate 20 3 \<longleftrightarrow> take 16 o1 = replicate 16 1)"
proof -
  obtain c1 o1 where 1: "AES_CBCFrame_Update fips_aes (AES_CBCFrame_Init fips_aes \<lparr>cbc_ctx = (None, []), cbc_mode = 0, cbc_iv = []\<rparr> (replicate 16 7)
      (replicate 16 1) True) (replicate 20 2) = (c1, o1)" by (metis surj_pair)
  obtain c2 o2 where 2: "AES_CBCFrame_Update fips_aes c1 (replicate 20 3) = (c2, o2)" by (metis surj_pair)
  from second_frame_loses_iv [OF fips.aes_library_axioms _ _ _ _ 1 2 refl] have
    "frame_dec (aes_decrypt (replicate 16 7)) (replicate 16 1) o1 = replicate 20 2 \<and>
     (frame_dec (aes_decrypt (replicate 16 7)) (replicate 16 1) o2 = replicate 20 3 \<longleftrightarrow> take 16 o1 = replicate 16 1)"
    by (simp add: whole_def)
  with 1 2 show ?thesis by blast
qed

end
