(* ===== verification/PowerDaemon.thy ===== *)
theory PowerDaemon
  imports ParaStorage Notification
begin

text \<open>
  The power daemon, \<open>MICO/system/mico_system_power_daemon.c\<close>: the buttons and the requests for another state set a
  state and a semaphore; the thread \<open>_sys_state_thread\<close> waits for it, saves the configuration if a button changed it, tells
  the application and calls the kernel. The calls of the kernel are recorded in the order they are made; the flash
  operations and the application's callbacks are parameters, as in \<open>ParaStorage\<close> and \<open>Notification\<close>.
\<close>

section \<open>State\<close>

datatype system_state_t = eState_Normal | eState_Software_Reset | eState_Wlan_Powerdown | eState_Restore_default | eState_Standby

datatype kernel_call = Msleep nat | SystemReboot | WlanPowerOff | SystemStandBy u32

text \<open>\<open>pw_context\<close> is what \<open>mico_system_context_get\<close> returns; \<open>pw_sem\<close> is \<open>None\<close> before the semaphore is created,
  and its count, at most 1, afterwards.\<close>

record ('s, 'f, 'a, 'w) power_sys =
  pw_flash :: 's
  pw_context :: "mico_Context_t option"
  pw_seed :: u32
  needs_update :: bool
  current_sys_state :: system_state_t
  pw_sem :: "nat option"
  pw_notify :: "('f, 'a, 'w) notify_sys"
  pw_calls :: "kernel_call list"

section \<open>Requests\<close>

definition set_sem :: "nat \<Rightarrow> nat" where
  "set_sem n = min 1 (n + 1)"

definition mico_system_power_perform ::
  "system_state_t \<Rightarrow> ('s, 'f, 'a, 'w) power_sys \<Rightarrow> OSStatus \<times> ('s, 'f, 'a, 'w) power_sys" where
  "mico_system_power_perform new_state s =
     (case pw_context s of None \<Rightarrow> (kNotPreparedErr, s)
      | Some _ \<Rightarrow>
          let s = s\<lparr>current_sys_state := new_state\<rparr> in
          (case pw_sem s of None \<Rightarrow> (kNoErr, s) | Some n \<Rightarrow> (kNoErr, s\<lparr>pw_sem := Some (set_sem n)\<rparr>)))"

text \<open>A value of an enumeration in memory.\<close>

definition enum_bytes :: "sys_layout \<Rightarrow> u32 \<Rightarrow> bytes" where
  "enum_bytes L v = take (enum_size L) (le32 v)"

abbreviation wLanUnConfigured :: u32 where "wLanUnConfigured \<equiv> 1"
abbreviation allConfigured :: u32 where "allConfigured \<equiv> 2"

definition PlatformEasyLinkButtonClickedCallback ::
  "sys_layout \<Rightarrow> ('s, 'f, 'a, 'w) power_sys \<Rightarrow> ('s, 'f, 'a, 'w) power_sys" where
  "PlatformEasyLinkButtonClickedCallback L s =
     (case pw_context s of None \<Rightarrow> s
      | Some ctx \<Rightarrow>
          let (ctx, u) = (if get_field ctx (o_easyLinkByPass L) 1 \<noteq> [0] then (set_field (o_easyLinkByPass L) [0] ctx, True)
                else (ctx, needs_update s));
              (ctx, u) = (if get_field ctx (o_configured L) (enum_size L) = enum_bytes L allConfigured
                then (set_field (o_configured L) (enum_bytes L wLanUnConfigured) ctx, True) else (ctx, u)) in
          snd (mico_system_power_perform eState_Software_Reset (s\<lparr>pw_context := Some ctx, needs_update := u\<rparr>)))"

definition PlatformEasyLinkButtonLongPressedCallback ::
  "'s flash_ops \<Rightarrow> sys_layout \<Rightarrow> (bytes \<Rightarrow> bytes) \<Rightarrow> ('s, 'f, 'a, 'w) power_sys \<Rightarrow> ('s, 'f, 'a, 'w) power_sys option" where
  "PlatformEasyLinkButtonLongPressedCallback ops L cb s =
     (if pw_context s = None then Some s
      else do {
        (err, ctx, t) \<leftarrow> mico_system_context_restore ops L cb (pw_context s) (pw_seed s) (pw_flash s);
        Some (snd (mico_system_power_perform eState_Software_Reset (s\<lparr>pw_flash := t, pw_context := ctx\<rparr>)))
      })"

definition PlatformStandbyButtonClickedCallback :: "('s, 'f, 'a, 'w) power_sys \<Rightarrow> ('s, 'f, 'a, 'w) power_sys" where
  "PlatformStandbyButtonClickedCallback s =
     (if pw_context s = None then s else snd (mico_system_power_perform eState_Standby s))"

section \<open>The thread\<close>

definition power_off_calls :: "system_state_t \<Rightarrow> kernel_call list" where
  "power_off_calls st = (case st of
       eState_Software_Reset \<Rightarrow> [Msleep 500, SystemReboot]
     | eState_Wlan_Powerdown \<Rightarrow> [Msleep 500, WlanPowerOff]
     | eState_Standby \<Rightarrow> [Msleep 500, WlanPowerOff, SystemStandBy (- 1)]
     | _ \<Rightarrow> [])"

text \<open>One round: \<open>None\<close> in the first place while the thread has to wait; \<open>MICO_WAIT_FOREVER\<close> is \<open>- 1\<close>.\<close>

definition sys_state_round ::
  "'s flash_ops \<Rightarrow> sys_layout \<Rightarrow> ('f, 'p, 'a, 'w) callback \<Rightarrow> ('s, 'f, 'a, 'w) power_sys
     \<Rightarrow> ('s, 'f, 'a, 'w) power_sys option option" where
  "sys_state_round ops L cb s =
     (case pw_sem s of
        Some (Suc n) \<Rightarrow> Some (do {
          let s = s\<lparr>pw_sem := Some n\<rparr>;
          s \<leftarrow> (if needs_update s then do {
              (err, ctx, seed, t) \<leftarrow> mico_system_context_update ops L (pw_context s) (pw_seed s) (pw_flash s);
              Some (s\<lparr>pw_context := ctx, pw_seed := seed, pw_flash := t\<rparr>)
            } else Some s);
          case power_off_calls (current_sys_state s) of [] \<Rightarrow> Some s
          | calls \<Rightarrow> do {
              nt \<leftarrow> sendNotifySYSWillPowerOff cb (pw_notify s);
              Some (s\<lparr>pw_notify := nt, pw_calls := pw_calls s @ calls\<rparr>)
            }
        })
      | _ \<Rightarrow> None)"

text \<open>\<open>created\<close>: the status of \<open>mico_rtos_init_semaphore\<close>; a new semaphore has the count 0.\<close>

definition mico_system_power_daemon_start ::
  "OSStatus \<Rightarrow> ('s, 'f, 'a, 'w) power_sys \<Rightarrow> OSStatus \<times> ('s, 'f, 'a, 'w) power_sys" where
  "mico_system_power_daemon_start created s =
     (if created \<noteq> kNoErr then (kNoErr, s)
      else (kNoErr, s\<lparr>pw_sem := Some 0, current_sys_state := eState_Normal\<rparr>))"

section \<open>Fields\<close>

lemma flash_set_field: "SYS_CONFIG_OFFSET + off + length v \<le> length (flashContentInRam ctx) \<Longrightarrow>
    length (flashContentInRam (set_field off v ctx)) = length (flashContentInRam ctx)"
  by (simp add: set_field_def)

lemma get_set_field: "SYS_CONFIG_OFFSET + off + length v \<le> length (flashContentInRam ctx) \<Longrightarrow>
    get_field (set_field off v ctx) off (length v) = v"
  by (simp add: get_field_def set_field_def slice_overwrite_same)

lemma get_set_field_other:
  assumes "SYS_CONFIG_OFFSET + off + length v \<le> length (flashContentInRam ctx)" and "o' + n \<le> off \<or> off + length v \<le> o'"
    and "SYS_CONFIG_OFFSET + o' + n \<le> length (flashContentInRam ctx)"
  shows "get_field (set_field off v ctx) o' n = get_field ctx o' n"
  using assms by (auto simp: get_field_def set_field_def slice_overwrite_before slice_overwrite_after)

lemma length_enum_bytes [simp]: "enum_size L \<le> 4 \<Longrightarrow> length (enum_bytes L v) = enum_size L"
  by (simp add: enum_bytes_def)

lemma user_config_set_field [simp]: "user_config_data (set_field off v ctx) = user_config_data ctx"
  by (simp add: set_field_def)

text \<open>The configuration after the button: joined to no network, and no by-pass.\<close>

definition button_context :: "sys_layout \<Rightarrow> mico_Context_t \<Rightarrow> mico_Context_t" where
  "button_context L ctx = set_field (o_configured L) (enum_bytes L wLanUnConfigured)
     (if get_field ctx (o_easyLinkByPass L) 1 \<noteq> [0] then set_field (o_easyLinkByPass L) [0] ctx else ctx)"

definition button_layout :: "sys_layout \<Rightarrow> bool" where
  "button_layout L \<longleftrightarrow> enum_size L \<le> 4 \<and> o_configured L + enum_size L \<le> o_easyLinkByPass L \<and> o_easyLinkByPass L < o_seed L \<and>
     o_seed L + 4 \<le> SYS_CONFIG_SIZE L"

lemma button_clicked:
  assumes "button_layout L" and "length (flashContentInRam ctx) = flash_content_size L" and "pw_context s = Some ctx"
    and "get_field ctx (o_configured L) (enum_size L) = enum_bytes L allConfigured"
  shows "PlatformEasyLinkButtonClickedCallback L s =
      snd (mico_system_power_perform eState_Software_Reset (s\<lparr>pw_context := Some (button_context L ctx), needs_update := True\<rparr>))"
proof -
  have "get_field (set_field (o_easyLinkByPass L) [0] ctx) (o_configured L) (enum_size L) = get_field ctx (o_configured L) (enum_size L)"
    using assms(1,2) by (intro get_set_field_other) (auto simp: button_layout_def flash_content_size_def)
  then show ?thesis using assms(3,4) by (auto simp: PlatformEasyLinkButtonClickedCallback_def button_context_def)
qed

lemma button_context_fields:
  assumes "button_layout L" and "length (flashContentInRam ctx) = flash_content_size L"
    and "ctx' = set_field (o_seed L) (le32 v) (button_context L ctx)"
  shows "length (flashContentInRam ctx') = flash_content_size L" and "user_config_data ctx' = user_config_data ctx"
    and "get_field ctx' (o_configured L) (enum_size L) = enum_bytes L wLanUnConfigured"
    and "get_field ctx' (o_easyLinkByPass L) 1 = [0]"
proof -
  let ?c0 = "if get_field ctx (o_easyLinkByPass L) 1 \<noteq> [0] then set_field (o_easyLinkByPass L) [0] ctx else ctx"
  note b = assms(1) [unfolded button_layout_def] assms(2) flash_content_size_def [of L]
  have l0: "length (flashContentInRam ?c0) = flash_content_size L" using b by (simp add: flash_set_field)
  have f0: "get_field ?c0 (o_easyLinkByPass L) 1 = [0]"
    using get_set_field [of "o_easyLinkByPass L" "[0]" ctx] b by auto
  have l1: "length (flashContentInRam (button_context L ctx)) = flash_content_size L"
    using l0 b unfolding button_context_def by (subst flash_set_field) auto
  have f1: "get_field (button_context L ctx) (o_configured L) (enum_size L) = enum_bytes L wLanUnConfigured"
    using get_set_field [of "o_configured L" "enum_bytes L wLanUnConfigured" ?c0] l0 b by (simp add: button_context_def)
  have f2: "get_field (button_context L ctx) (o_easyLinkByPass L) 1 = [0]"
    using get_set_field_other [of "o_configured L" "enum_bytes L wLanUnConfigured" ?c0 "o_easyLinkByPass L" 1] l0 f0 b
    by (simp add: button_context_def)
  show "length (flashContentInRam ctx') = flash_content_size L" using flash_set_field [of "o_seed L" "le32 v" "button_context L ctx"] l1 b assms(3) by simp
  show "user_config_data ctx' = user_config_data ctx" by (simp add: assms(3) button_context_def)
  show "get_field ctx' (o_configured L) (enum_size L) = enum_bytes L wLanUnConfigured"
    using get_set_field_other [of "o_seed L" "le32 v" "button_context L ctx" "o_configured L" "enum_size L"] l1 f1 b assms(3) by simp
  show "get_field ctx' (o_easyLinkByPass L) 1 = [0]"
    using get_set_field_other [of "o_seed L" "le32 v" "button_context L ctx" "o_easyLinkByPass L" 1] l1 f2 b assms(3) by simp
qed

section \<open>Properties\<close>

text \<open>
  C11. The EasyLink button of a configured device: the callback and the next round of the thread leave in both copies of
  the configuration the state \<open>wLanUnConfigured\<close> and no by-pass, with the seed counted up and everything else as it was;
  then the application is told, and the device is reset after half a second - provided the CRC of the data is not the
  value 0, which the code takes for a missing CRC.
\<close>

theorem easylink_button_saved:
  assumes "param_store ops ok content parts" and "{MICO_PARTITION_PARAMETER_1, MICO_PARTITION_PARAMETER_2} \<subseteq> parts"
    and "ok (pw_flash s)" and "flash_content_size L \<le> 0x400" and "pw_context s = Some ctx"
    and "length (flashContentInRam ctx) = flash_content_size L" and "length (user_config_data ctx) \<le> 0xA00"
    and "button_layout L" and "pw_sem s = Some n" and "sendNotifySYSWillPowerOff cb (pw_notify s) = Some nt"
    and "get_field ctx (o_configured L) (enum_size L) = enum_bytes L allConfigured"
    and "ctx' = set_field (o_seed L) (le32 (pw_seed s + 1)) (button_context L ctx)"
    and "w = config_crc (sys_config L ctx') (user_config_data ctx')" and "w \<noteq> 0"
  shows "\<exists>s'. sys_state_round ops L cb (PlatformEasyLinkButtonClickedCallback L s) = Some (Some s') \<and>
     content (pw_flash s') MICO_PARTITION_PARAMETER_1 = config_image (flashContentInRam ctx') (user_config_data ctx) w \<and>
     content (pw_flash s') MICO_PARTITION_PARAMETER_2 = config_image (flashContentInRam ctx') (user_config_data ctx) w \<and>
     get_field ctx' (o_configured L) (enum_size L) = enum_bytes L wLanUnConfigured \<and> get_field ctx' (o_easyLinkByPass L) 1 = [0] \<and>
     pw_notify s' = nt \<and> pw_calls s' = pw_calls s @ [Msleep 500, SystemReboot]"
proof -
  note f = button_context_fields [OF assms(8,6,12)]
  obtain t where t: "internal_update_config ops L ctx' (pw_flash s) = Some (kNoErr, t)"
    "content t = (content (pw_flash s))
      (MICO_PARTITION_PARAMETER_1 := config_image (flashContentInRam ctx') (user_config_data ctx') w,
       MICO_PARTITION_PARAMETER_2 := config_image (flashContentInRam ctx') (user_config_data ctx') w)"
    using param_store.update_config_done [OF assms(1,3,2) f(1) assms(4) _ assms(13,14)] assms(7) f(2) by auto
  have "mico_system_context_update ops L (Some (button_context L ctx)) (pw_seed s) (pw_flash s) = Some (kNoErr, Some ctx', pw_seed s + 1, t)"
    using t(1) by (simp add: mico_system_context_update_def Let_def flip: assms(12))
  then show ?thesis using button_clicked [OF assms(8,6,5,11)] assms(9,10) t(2) f(2-4)
    by (simp add: mico_system_power_perform_def sys_state_round_def set_sem_def power_off_calls_def)
qed

text \<open>A device that is configured and by-passes EasyLink.\<close>

definition joined_layout :: sys_layout where
  "joined_layout = small_layout\<lparr>o_configured := 0, o_easyLinkByPass := 1\<rparr>"

definition joined_context :: mico_Context_t where
  "joined_context = saved_context\<lparr>flashContentInRam := replicate 24 0 @ [2, 1, 0, 0, 5, 0, 0, 0, 1, 0, 0, 0]\<rparr>"

definition waiting_daemon :: "((cells, mx25) flash_sys, nat, nat, nat list) power_sys" where
  "waiting_daemon = \<lparr>pw_flash = board_sys, pw_context = Some joined_context, pw_seed = 5, needs_update = False,
     current_sys_state = eState_Normal, pw_sem = Some 0, pw_notify = one_notification, pw_calls = []\<rparr>"

theorem easylink_button_saved_witness:
  "\<exists>s'. sys_state_round (mico_flash_ops board_env) joined_layout note_down
      (PlatformEasyLinkButtonClickedCallback joined_layout waiting_daemon) = Some (Some s') \<and>
     pw_calls s' = [Msleep 500, SystemReboot]"
proof -
  let ?ctx = "set_field (o_seed joined_layout) (le32 (pw_seed waiting_daemon + 1)) (button_context joined_layout joined_context)"
  have c: "flashContentInRam ?ctx = replicate 24 0 @ [1, 0, 0, 0, 6, 0, 0, 0, 1, 0, 0, 0]" "user_config_data ?ctx = [7]"
    by (simp_all add: set_field_def get_field_def slice_def button_context_def joined_context_def joined_layout_def small_layout_def
        saved_context_def overwrite_def le32_def enum_bytes_def waiting_daemon_def)
  have sys: "sys_config joined_layout ?ctx = [1, 0, 0, 0, 6, 0, 0, 0, 1, 0, 0, 0]"
    by (simp only: sys_config_def c) (simp add: slice_def joined_layout_def small_layout_def)
  have crc: "crc_ccitt ([1, 0, 0, 0, 6, 0, 0, 0, 1, 0, 0, 0] @ [7]) \<noteq> 0" by code_simp
  have w: "config_crc (sys_config joined_layout ?ctx) (user_config_data ?ctx) \<noteq> 0"
    using crc by (simp only: sys c(2) config_crc_ccitt not_False_eq_True)
  have ok: "board.sys_ready (pw_flash waiting_daemon)" "flash_content_size joined_layout \<le> 0x400"
      "pw_context waiting_daemon = Some joined_context"
      "length (flashContentInRam joined_context) = flash_content_size joined_layout"
      "length (user_config_data joined_context) \<le> 0xA00" "button_layout joined_layout" "pw_sem waiting_daemon = Some 0"
    using board_sys_ready by (simp_all add: waiting_daemon_def joined_context_def joined_layout_def small_layout_def
        saved_context_def flash_content_size_def button_layout_def)
  have nt: "sendNotifySYSWillPowerOff note_down (pw_notify waiting_daemon) = Some one_notification"
    by (simp add: sendNotifySYSWillPowerOff_def notify_def waiting_daemon_def one_notification_def)
  have g: "get_field joined_context (o_configured joined_layout) (enum_size joined_layout) = enum_bytes joined_layout allConfigured"
    by (simp add: get_field_def slice_def enum_bytes_def joined_context_def joined_layout_def small_layout_def le32_def)
  have p: "pw_calls waiting_daemon = []" by (simp add: waiting_daemon_def)
  show ?thesis
    using easylink_button_saved [OF board.params.param_store_axioms subset_refl ok nt g refl refl w] unfolding p by auto
qed

text \<open>
  A request that the thread has not taken yet is lost when another one arrives: two requests in a row leave exactly
  what the second one leaves alone, so a standby button undoes a reset that has not begun. No request is counted twice.
\<close>

theorem later_request_wins:
  "mico_system_power_perform b (snd (mico_system_power_perform a s)) = mico_system_power_perform b s"
  by (cases "pw_sem s") (simp_all add: mico_system_power_perform_def set_sem_def split: option.splits)

end
