(* ===== verification/TftpUpdate.thy ===== *)
theory TftpUpdate
  imports OTAUpdate Notification CommandConsole
begin

text \<open>
  The forced update, \<open>MICO/system/tftp_ota/tftp_ota.c\<close>: join the network \<open>MICO_OTA_AP\<close>, load an image into
  \<open>OTA_TEMP\<close>, compare its MD5 with the 16 bytes behind it, and announce it in the boot table of the saved
  configuration. The TflashtypeP client \<open>tget\<close>, the MD5 library, the wireless library and the allocator are parameters
  in \<open>fota_env\<close>; the notifications are those of \<open>Notification\<close>, the configuration that of \<open>ParaStorage\<close>.
\<close>

section \<open>Data\<close>

abbreviation OTA_SUCCESS :: int where "OTA_SUCCESS \<equiv> 0"
abbreviation OTA_NO_AP :: int where "OTA_NO_AP \<equiv> - 1"
abbreviation OTA_NO_FILE :: int where "OTA_NO_FILE \<equiv> - 2"
abbreviation OTA_MD5_FAIL :: int where "OTA_MD5_FAIL \<equiv> - 3"
abbreviation OTA_NO_MEM :: int where "OTA_NO_MEM \<equiv> - 4"

abbreviation TMP_BUF_LEN :: nat where "TMP_BUF_LEN \<equiv> 1024"

text \<open>The members that are set; the others are 0.\<close>

record network_InitTypeDef_st =
  wifi_mode :: int
  wifi_ssid :: bytes
  dhcpMode :: int
  net_mask :: bytes
  local_ip_addr :: bytes

datatype fota_call = StopEasyLink | StopEasyLinkPlus | StopAirkiss | WlanStart network_InitTypeDef_st | MicoSystemReboot

text \<open>\<open>wlan_events i\<close>: the status changes during the sleep that begins with \<open>i\<close>; \<open>tget\<close> is given the number of
  earlier attempts, and does what it does to the flash.\<close>

record ('s, 'f, 'a, 'm) fota_env =
  FOTA_handler :: 'f
  null_arg :: 'a
  notify_alloc :: "nat set \<Rightarrow> nat option"
  tmp_block :: "bytes option"
  wlan_mac :: bytes
  inet_addr :: "bytes \<Rightarrow> u32"
  wlan_events :: "nat \<Rightarrow> int list"
  tget :: "tftp_file_info_t \<Rightarrow> u32 \<Rightarrow> nat \<Rightarrow> 's \<Rightarrow> int \<times> 's"
  InitMd5 :: 'm
  Md5Update :: "'m \<Rightarrow> bytes \<Rightarrow> 'm"
  Md5Final :: "'m \<Rightarrow> bytes"

text \<open>The static \<open>wifi_up\<close> is the \<open>world\<close> of the notifications.\<close>

record ('s, 'f, 'a) fota_sys =
  fo_flash :: 's
  fo_context :: "mico_Context_t option"
  fo_seed :: u32
  fo_notify :: "('f, 'a, bool) notify_sys"
  fo_calls :: "fota_call list"

section \<open>Waiting for the network\<close>

text \<open>\<open>NOTIFY_STATION_UP\<close> is 1, \<open>NOTIFY_STATION_DOWN\<close> is 2.\<close>

definition FOTA_WifiStatusHandler :: "bool \<Rightarrow> int \<Rightarrow> bool" where
  "FOTA_WifiStatusHandler wifi_up event = (if event = 1 then True else if event = 2 then False else wifi_up)"

text \<open>What the function pointers of the list for status changes denote; the update registers only one.\<close>

definition fota_callback :: "'f \<Rightarrow> ('f, 'p, 'a, bool) callback" where
  "fota_callback handler f ev x s =
     (case ev of Ev_WiFiEvent event \<Rightarrow>
        if f = handler then s\<lparr>world := FOTA_WifiStatusHandler (world s) event\<rparr> else s
      | _ \<Rightarrow> s)"

fun wifi_events :: "'f \<Rightarrow> int list \<Rightarrow> ('f, 'a, bool) notify_sys \<Rightarrow> ('f, 'a, bool) notify_sys option" where
  "wifi_events handler [] s = Some s"
| "wifi_events handler (e # es) s = do {
     s \<leftarrow> WifiStatusHandler (fota_callback handler :: ('f, unit, 'a, bool) callback) e s;
     wifi_events handler es s
   }"

text \<open>\<open>while (wifi_up == 0)\<close>; the flag tells whether the network was found.\<close>

function wait_wifi ::
  "('s, 'f, 'a, 'm) fota_env \<Rightarrow> nat \<Rightarrow> ('f, 'a, bool) notify_sys \<Rightarrow> (bool \<times> ('f, 'a, bool) notify_sys) option" where
  "wait_wifi E i s =
     (if world s then Some (True, s)
      else do {
        s \<leftarrow> wifi_events (FOTA_handler E) (wlan_events E i) s;
        if i + 1 > 100 then Some (False, s) else wait_wifi E (i + 1) s
      })"
  by pat_completeness auto
termination
  by (relation "measure (\<lambda>(E, i, s). 101 - i)") auto

declare wait_wifi.simps [simp del]

text \<open>The lists before the network is joined.\<close>

definition fota_notifications ::
  "('s, 'f, 'a, 'm) fota_env \<Rightarrow> ('f, 'a, bool) notify_sys \<Rightarrow> ('f, 'a, bool) notify_sys option" where
  "fota_notifications E n = do {
     (e, n) \<leftarrow> mico_system_notify_remove_all mico_notify_WIFI_STATUS_CHANGED n;
     (e, n) \<leftarrow> mico_system_notify_remove_all mico_notify_WiFI_PARA_CHANGED n;
     (e, n) \<leftarrow> mico_system_notify_remove_all mico_notify_DHCP_COMPLETED n;
     (e, n) \<leftarrow> mico_system_notify_remove_all mico_notify_WIFI_CONNECT_FAILED n;
     (e, n) \<leftarrow> mico_system_notify_remove_all mico_notify_EASYLINK_WPS_COMPLETED n;
     (e, n) \<leftarrow> mico_system_notify_register (notify_alloc E) mico_notify_WIFI_STATUS_CHANGED (FOTA_handler E) (null_arg E) n;
     Some n
   }"

text \<open>\<open>sprintf\<close> with \<open>10.%d.%d.%d\<close>; \<open>Station\<close> is 1 and \<open>DHCP_Disable\<close> 0.\<close>

definition fota_address :: "bytes \<Rightarrow> bytes" where
  "fota_address mac = str ''10.'' @ decimal (ucast (mac ! 3)) @ str ''.'' @ decimal (ucast (mac ! 4)) @ str ''.'' @
     decimal (ucast (mac ! 5))"

definition fota_network :: "bytes \<Rightarrow> network_InitTypeDef_st" where
  "fota_network mac = \<lparr>wifi_mode = 1, wifi_ssid = str ''MICO_OTA_AP'', dhcpMode = 0, net_mask = str ''255.0.0.0'',
     local_ip_addr = fota_address mac\<rparr>"

section \<open>Loading and checking\<close>

text \<open>\<open>while ((filelen = tget(...)) < 0)\<close> with \<open>maxretry\<close>; \<open>None\<close> in the first place when it gives up.\<close>

fun load_image ::
  "(nat \<Rightarrow> 's \<Rightarrow> int \<times> 's) \<Rightarrow> nat \<Rightarrow> nat \<Rightarrow> 's \<Rightarrow> int option \<times> 's" where
  "load_image get maxretry k s =
     (let (file_len, s) = get k s in
      if file_len < 0 then (case maxretry of 0 \<Rightarrow> (None, s) | Suc m \<Rightarrow> load_image get m (k + 1) s)
      else (Some file_len, s))"

text \<open>\<open>while (left > 0)\<close>: statuses are not looked at, a read that delivers nothing leaves \<open>tmpbuf\<close>.\<close>

function digest_loop ::
  "'s flash_ops \<Rightarrow> ('m \<Rightarrow> bytes \<Rightarrow> 'm) \<Rightarrow> int \<Rightarrow> u32 \<Rightarrow> bytes \<Rightarrow> 'm \<Rightarrow> CRC16_Context \<Rightarrow> 's
     \<Rightarrow> ('m \<times> CRC16_Context \<times> 's) option" where
  "digest_loop ops upd left addr tmpbuf ctx contex s =
     (if left > 0 then
        (let chunk = (if left > int TMP_BUF_LEN then int TMP_BUF_LEN else left) in do {
           (err, addr, ds, s) \<leftarrow> op_read ops MICO_PARTITION_OTA_TEMP addr (of_int chunk) s;
           let tmpbuf = read_into tmpbuf ds;
           digest_loop ops upd (left - chunk) addr tmpbuf (upd ctx (take (nat chunk) tmpbuf))
             (CRC16_Update contex (take (nat chunk) tmpbuf)) s
         })
      else Some (ctx, contex, s))"
  by pat_completeness auto
termination
  by (relation "measure (\<lambda>(ops, upd, n, a, b, m, c, s). nat n)") auto

declare digest_loop.simps [simp del]

text \<open>\<open>md5_recv\<close> is not initialised before it is read.\<close>

definition check_image ::
  "'s flash_ops \<Rightarrow> ('s, 'f, 'a, 'm) fota_env \<Rightarrow> bytes \<Rightarrow> int \<Rightarrow> 's \<Rightarrow> (bool \<times> u16 \<times> 's) option" where
  "check_image ops E tmpbuf file_len s = do {
     (err, addr, md5_recv, s) \<leftarrow> op_read ops MICO_PARTITION_OTA_TEMP (of_int file_len) 16 s;
     if length md5_recv < 16 then None else do {
       (ctx, contex, s) \<leftarrow> digest_loop ops (Md5Update E) file_len 0 tmpbuf (InitMd5 E) (CRC16_Init \<lparr>crc = 0\<rparr>) s;
       let md5_calc = Md5Final E ctx;
       Some (md5_calc = md5_recv, snd (CRC16_Final contex), s)
     }
   }"

section \<open>The update\<close>

text \<open>The boot table: start, length, version, type, upgrade type, CRC and reserved bytes.\<close>

definition fota_boot_table :: "u32 \<Rightarrow> int \<Rightarrow> u16 \<Rightarrow> bytes" where
  "fota_boot_table ota_start file_len crc_result =
     le32 ota_start @ le32 (of_int file_len) @ replicate 8 0 @ [ch CHR ''A'', ch CHR ''U''] @ le16 crc_result @ replicate 4 0"

text \<open>What the weak function does besides its message.\<close>

definition mico_ota_finished :: "int \<Rightarrow> ('s, 'f, 'a) fota_sys \<Rightarrow> ('s, 'f, 'a) fota_sys" where
  "mico_ota_finished result s = (if result = OTA_SUCCESS then s\<lparr>fo_calls := fo_calls s @ [MicoSystemReboot]\<rparr> else s)"

definition fota_finish :: "int \<Rightarrow> ('s, 'f, 'a) fota_sys \<Rightarrow> (int \<times> ('s, 'f, 'a) fota_sys) option" where
  "fota_finish result s = Some (result, mico_ota_finished result s)"

text \<open>The last part: announce the image in the saved configuration. After a success the thread only sleeps.\<close>

definition fota_announce ::
  "'s flash_ops \<Rightarrow> sys_layout \<Rightarrow> u32 \<Rightarrow> int \<Rightarrow> u16 \<Rightarrow> ('s, 'f, 'a) fota_sys \<Rightarrow> (int \<times> ('s, 'f, 'a) fota_sys) option" where
  "fota_announce ops L ota_start file_len crc_result s = do {
     ctx \<leftarrow> fo_context s;
     let ctx1 = ctx\<lparr>flashContentInRam := overwrite (flashContentInRam ctx) 0 (fota_boot_table ota_start file_len crc_result)\<rparr>;
     (err, ctx', seed, t) \<leftarrow> mico_system_context_update ops L (Some ctx1) (fo_seed s) (fo_flash s);
     fota_finish OTA_SUCCESS (s\<lparr>fo_context := ctx', fo_seed := seed, fo_flash := t\<rparr>)
   }"

definition fota_file :: "u32 \<Rightarrow> tftp_file_info_t" where
  "fota_file size_max = \<lparr>filename = str ''mico_ota.bin'', filelen = size_max, flashaddr = 0,
     flashtype = MICO_PARTITION_OTA_TEMP\<rparr>"

definition fota_load :: "('s, 'f, 'a, 'm) fota_env \<Rightarrow> u32 \<Rightarrow> 's \<Rightarrow> int option \<times> 's" where
  "fota_load E size_max = load_image (tget E (fota_file size_max) (inet_addr E (str ''10.0.0.2''))) 5 0"

text \<open>The result is the one that \<open>mico_ota_finished\<close> is given.\<close>

definition tftp_ota ::
  "'s flash_ops \<Rightarrow> sys_layout \<Rightarrow> ('s, 'f, 'a, 'm) fota_env \<Rightarrow> ('s, 'f, 'a) fota_sys
     \<Rightarrow> (int \<times> ('s, 'f, 'a) fota_sys) option" where
  "tftp_ota ops L E s = do {
     ota \<leftarrow> MicoFlashGetInfo MICO_PARTITION_OTA_TEMP;
     n \<leftarrow> fota_notifications E (fo_notify s);
     let s = s\<lparr>fo_notify := n, fo_calls := fo_calls s @ [StopEasyLink, StopEasyLinkPlus, StopAirkiss]\<rparr>;
     case tmp_block E of None \<Rightarrow> fota_finish OTA_NO_MEM s
     | Some tmpbuf \<Rightarrow> do {
         let s = s\<lparr>fo_calls := fo_calls s @ [WlanStart (fota_network (wlan_mac E))], fo_notify := n\<lparr>world := False\<rparr>\<rparr>;
         (up, n) \<leftarrow> wait_wifi E 0 (fo_notify s);
         let s = s\<lparr>fo_notify := n\<rparr>;
         if \<not> up then fota_finish OTA_NO_AP s
         else
           let (loaded, t) = fota_load E (partition_length ota) (fo_flash s);
               s = s\<lparr>fo_flash := t\<rparr> in
           (case loaded of None \<Rightarrow> fota_finish OTA_NO_FILE s
            | Some n \<Rightarrow> do {
                let file_len = n - 16;
                (same, crc_result, t) \<leftarrow> check_image ops E tmpbuf file_len (fo_flash s);
                let s = s\<lparr>fo_flash := t\<rparr>;
                if \<not> same then fota_finish OTA_MD5_FAIL s
                else fota_announce ops L (partition_start_addr ota) file_len crc_result s
              })
       }
   }"

section \<open>What the update relies on\<close>

text \<open>A configuration store whose operations leave the loaded image alone, and that delivers the image.\<close>

locale image_store = param_store ops inv content parts
  for ops :: "'s flash_ops" and inv :: "'s \<Rightarrow> bool" and content :: "'s \<Rightarrow> int \<Rightarrow> bytes" and parts :: "int set" +
  fixes otemp :: "'s \<Rightarrow> bytes"
  assumes otemp_length: "length (otemp s) = 0x70000"
    and erase_frame: "inv s \<Longrightarrow> p \<in> parts \<Longrightarrow> 0 < unat n \<Longrightarrow> unat n \<le> 4096 \<Longrightarrow>
      op_erase ops p 0 n s = Some (err, s') \<Longrightarrow> otemp s' = otemp s"
    and write_frame: "inv s \<Longrightarrow> p \<in> parts \<Longrightarrow> unat n \<le> length b \<Longrightarrow> unat off + unat n \<le> 4096 \<Longrightarrow>
      op_write ops p off b n s = Some (err, off', s') \<Longrightarrow> otemp s' = otemp s"
    and read_frame: "inv s \<Longrightarrow> p \<in> parts \<Longrightarrow> unat off + unat n \<le> 4096 \<Longrightarrow>
      op_read ops p off n s = Some (err, off', ds, s') \<Longrightarrow> otemp s' = otemp s"
    and read_image: "inv s \<Longrightarrow> unat off + unat n \<le> 0x70000 \<Longrightarrow>
      \<exists>s'. op_read ops MICO_PARTITION_OTA_TEMP off n s =
          Some (kNoErr, off + n, slice (otemp s) (unat off) (unat n), s') \<and>
        inv s' \<and> content s' = content s \<and> otemp s' = otemp s"
begin

text \<open>With the image as part of the invariant it is a configuration store again.\<close>

lemma keeps_image: "param_store ops (\<lambda>s. inv s \<and> otemp s = D) content parts"
proof
  show "length (content s p) = 4096" if "inv s \<and> otemp s = D" "p \<in> parts" for s p
    using content_length that by blast
  show "\<exists>s'. op_erase ops p 0 n s = Some (kNoErr, s') \<and> (inv s' \<and> otemp s' = D) \<and>
      content s' = (content s)(p := replicate 4096 0xFF)"
    if "inv s \<and> otemp s = D" "p \<in> parts" "0 < unat n" "unat n \<le> 4096" for s p n
    using erase_part [of s p n] erase_frame [of s p n] that by blast
  show "\<exists>s'. op_write ops p off b n s = Some (kNoErr, off + n, s') \<and> (inv s' \<and> otemp s' = D) \<and>
      content s' = (content s)(p := overwrite (content s p) (unat off) (take (unat n) b))"
    if "inv s \<and> otemp s = D" "p \<in> parts" "unat n \<le> length b" "unat off + unat n \<le> 4096"
      "slice (content s p) (unat off) (unat n) = replicate (unat n) 0xFF" for s p n b off
    using write_part [of s p n b off] write_frame [of s p n b off] that by blast
  show "\<exists>s'. op_read ops p off n s = Some (kNoErr, off + n, slice (content s p) (unat off) (unat n), s') \<and>
      (inv s' \<and> otemp s' = D) \<and> content s' = content s"
    if "inv s \<and> otemp s = D" "p \<in> parts" "unat off + unat n \<le> 4096" for s p off n
    using read_part [of s p off n] read_frame [of s p off n] that by blast
qed

text \<open>The digests are those of the image, whatever the pieces.\<close>

lemma digest_loop_image:
  assumes "inv s" and "unat off + nat left \<le> 0x70000" and "length tmpbuf = TMP_BUF_LEN"
  shows "\<exists>s' ps. digest_loop ops upd left off tmpbuf m c s =
      Some (foldl upd m ps, CRC16_Update c (concat ps), s') \<and> concat ps = slice (otemp s) (unat off) (nat left) \<and>
    inv s' \<and> content s' = content s \<and> otemp s' = otemp s"
  using assms
proof (induction "nat left" arbitrary: left off tmpbuf m c s rule: less_induct)
  case less
  show ?case
  proof (cases "left > 0")
    case False
    then show ?thesis using less.prems by (subst digest_loop.simps) (auto simp: slice_def intro!: exI [of _ "[]"])
  next
    case True
    define k where "k = nat (if left > int TMP_BUF_LEN then int TMP_BUF_LEN else left)"
    have chunk: "(if left > int TMP_BUF_LEN then int TMP_BUF_LEN else left) = int k" using True by (simp add: k_def)
    have k: "0 < k" "k \<le> TMP_BUF_LEN" "k \<le> nat left" "nat (left - int k) = nat left - k"
      using True by (auto simp: k_def)
    have uk: "unat (of_int (int k) :: u32) = k" using k(2) by (simp add: unat_of_nat)
    have uo: "unat (off + of_nat k) = unat off + k"
      using uk less.prems(2) k(3) by (simp add: unat_word_ariths)
    obtain t where t: "op_read ops MICO_PARTITION_OTA_TEMP off (of_int (int k)) s =
        Some (kNoErr, off + of_nat k, slice (otemp s) (unat off) k, t)" "inv t" "content t = content s" "otemp t = otemp s"
      using read_image [OF less.prems(1), of off "of_int (int k)"] less.prems(2) k(3) unfolding uk by auto
    let ?d = "slice (otemp s) (unat off) k"
    have d: "length ?d = k" using less.prems(2) k(3) otemp_length [of s] by (simp add: slice_def)
    let ?tmp = "read_into tmpbuf ?d"
    have tmp: "take (nat (int k)) ?tmp = ?d" "length ?tmp = TMP_BUF_LEN"
      using d k(2) less.prems(3) by (simp_all add: read_into_def)
    obtain s' ps where ih: "digest_loop ops upd (left - int k) (off + of_nat k) ?tmp (upd m ?d) (CRC16_Update c ?d) t =
        Some (foldl upd (upd m ?d) ps, CRC16_Update (CRC16_Update c ?d) (concat ps), s')"
      "concat ps = slice (otemp s) (unat off + k) (nat left - k)" "inv s'" "content s' = content s" "otemp s' = otemp s"
      using less.hyps [of "left - int k" t "off + of_nat k" ?tmp "upd m ?d" "CRC16_Update c ?d", OF _ t(2) _ tmp(2)]
        k less.prems(2) True unfolding uo t(3,4) by auto
    have "slice (otemp s) (unat off) (nat left) = ?d @ slice (otemp s) (unat off + k) (nat left - k)"
      using take_add [of k "nat left - k" "drop (unat off) (otemp s)"] k(3) by (simp add: slice_def add.commute)
    moreover have "digest_loop ops upd left off tmpbuf m c s =
        Some (foldl upd (upd m ?d) ps, CRC16_Update (CRC16_Update c ?d) (concat ps), s')"
      by (subst digest_loop.simps) (simp only: True if_True Let_def chunk t(1) Option.bind.simps prod.case tmp(1) ih(1))
    ultimately show ?thesis using ih(2-5) by (intro exI [of _ s'] exI [of _ "?d # ps"]) (simp add: CRC16_Update_append)
  qed
qed

lemma check_image_done:
  assumes "inv s" and "length tmpbuf = TMP_BUF_LEN" and "0 \<le> n" and "nat n + 16 \<le> 0x70000"
    and mdsum: "\<And>ps. Md5Final E (foldl (Md5Update E) (InitMd5 E) ps) = mdsum (concat ps)"
  shows "\<exists>t. check_image ops E tmpbuf n s =
      Some (mdsum (take (nat n) (otemp s)) = slice (otemp s) (nat n) 16, crc_ccitt (take (nat n) (otemp s)), t) \<and>
    inv t \<and> content t = content s \<and> otemp t = otemp s"
proof -
  obtain k where k: "n = int k" using assms(3) nonneg_int_cases by blast
  have u: "unat (of_int n :: u32) = nat n" using assms(4) by (simp add: k unat_of_nat)
  obtain t where t: "op_read ops MICO_PARTITION_OTA_TEMP (of_int n) 16 s =
      Some (kNoErr, of_int n + 16, slice (otemp s) (nat n) 16, t)" "inv t" "content t = content s" "otemp t = otemp s"
    using read_image [OF assms(1), of "of_int n" 16] assms(4) by (auto simp: u)
  have l: "length (slice (otemp s) (nat n) 16) = 16" using assms(4) otemp_length [of s] by (simp add: slice_def)
  obtain t' ps where d: "digest_loop ops (Md5Update E) n 0 tmpbuf (InitMd5 E) (CRC16_Init \<lparr>crc = 0\<rparr>) t =
      Some (foldl (Md5Update E) (InitMd5 E) ps, CRC16_Update (CRC16_Init \<lparr>crc = 0\<rparr>) (concat ps), t')"
    "concat ps = take (nat n) (otemp s)" "inv t'" "content t' = content t" "otemp t' = otemp t"
    using digest_loop_image [OF t(2), of 0 n tmpbuf] assms(2,4) t(4) by (fastforce simp: slice_def)
  have "snd (CRC16_Final (CRC16_Update (CRC16_Init \<lparr>crc = 0\<rparr>) (concat ps))) = crc_ccitt (concat ps)"
    using crc16_ccitt [of "concat ps"] by (simp add: crc16_def)
  then have "check_image ops E tmpbuf n s =
      Some (mdsum (take (nat n) (otemp s)) = slice (otemp s) (nat n) 16, crc_ccitt (take (nat n) (otemp s)), t')"
    using l by (simp add: check_image_def t(1) d(1) mdsum Let_def flip: d(2))
  then show ?thesis using d(3-5) t(3,4) by auto
qed

lemma announce_done:
  assumes "inv (fo_flash s)" and "{MICO_PARTITION_PARAMETER_1, MICO_PARTITION_PARAMETER_2} \<subseteq> parts"
    and "fo_context s = Some ctx" and "length (flashContentInRam ctx) = flash_content_size L"
    and "flash_content_size L \<le> 0x400" and "length (user_config_data ctx) \<le> 0xA00"
    and "o_seed L + 4 \<le> SYS_CONFIG_SIZE L"
    and "config_crc (sys_config L (set_field (o_seed L) (le32 (fo_seed s + 1)) ctx)) (user_config_data ctx) \<noteq> 0"
  shows "\<exists>s'. fota_announce ops L start n w s = Some (OTA_SUCCESS, s') \<and>
    take 24 (content (fo_flash s') MICO_PARTITION_PARAMETER_1) = fota_boot_table start n w \<and>
    otemp (fo_flash s') = otemp (fo_flash s) \<and> fo_calls s' = fo_calls s @ [MicoSystemReboot]"
proof -
  let ?T = "fota_boot_table start n w" and ?v = "le32 (fo_seed s + 1)"
  define ctx1 where "ctx1 = ctx\<lparr>flashContentInRam := overwrite (flashContentInRam ctx) 0 ?T\<rparr>"
  define ctx2 where "ctx2 = set_field (o_seed L) ?v ctx1"
  have F: "flash_content_size L = 24 + SYS_CONFIG_SIZE L" by (simp add: flash_content_size_def)
  have lt: "length ?T = 24" by (simp add: fota_boot_table_def)
  have u2: "user_config_data ctx2 = user_config_data ctx" by (simp add: ctx2_def ctx1_def set_field_def)
  have f2: "flashContentInRam ctx2 =
      ?T @ drop 24 (flashContentInRam (set_field (o_seed L) ?v ctx))"
    using assms(4,7) F lt by (simp add: ctx2_def ctx1_def set_field_def overwrite_def drop_take)
  have l2: "length (flashContentInRam ctx2) = flash_content_size L"
    using assms(4,7) F lt by (simp add: f2 set_field_def)
  have "sys_config L ctx2 = sys_config L (set_field (o_seed L) ?v ctx)"
    using lt by (simp add: sys_config_def slice_def f2)
  then have w: "config_crc (sys_config L ctx2) (user_config_data ctx2) \<noteq> 0" using assms(8) u2 by simp
  obtain t where t: "internal_update_config ops L ctx2 (fo_flash s) = Some (kNoErr, t)" "otemp t = otemp (fo_flash s)"
    "content t MICO_PARTITION_PARAMETER_1 = config_image (flashContentInRam ctx2) (user_config_data ctx2)
       (config_crc (sys_config L ctx2) (user_config_data ctx2))"
    using param_store.update_config_done [OF keeps_image _ assms(2) l2 assms(5) _ refl w] assms(1,6) u2 by force
  have "take 24 (slice (flashContentInRam ctx2) 0 (length (flashContentInRam ctx2))) = ?T"
    using lt by (simp add: slice_def f2)
  then have T: "take 24 (content t MICO_PARTITION_PARAMETER_1) = ?T"
    using image_slices(2) [of "flashContentInRam ctx2" "user_config_data ctx2" 0 24] l2 F assms(5,6) lt u2
    by (simp add: t(3) slice_def)
  have "mico_system_context_update ops L (Some ctx1) (fo_seed s) (fo_flash s) = Some (kNoErr, Some ctx2, fo_seed s + 1, t)"
    using t(1) by (simp add: mico_system_context_update_def Let_def flip: ctx2_def)
  then show ?thesis using assms(3) t(2) T
    by (simp add: fota_announce_def fota_finish_def mico_ota_finished_def Let_def flip: ctx1_def)
qed

end

section \<open>The serial flash\<close>

context mico_spi begin

definition ota_image :: "('f, 'c) flash_sys \<Rightarrow> bytes" where
  "ota_image s = mread (spi_cells s) 0x40000 0x70000"

lemma ota_image_cong: "(\<And>y. 0x2000 \<le> y \<Longrightarrow> spi_cells s' y = spi_cells s y) \<Longrightarrow> ota_image s' = ota_image s"
  unfolding ota_image_def by (rule mread_cong) simp

lemma ota_erase_frame:
  assumes "sys_ready s" and "p \<in> {MICO_PARTITION_PARAMETER_1, MICO_PARTITION_PARAMETER_2}"
    and "0 < unat n" and "unat n \<le> 4096" and "MicoFlashErase env p 0 n s = Some (err, s')"
  shows "ota_image s' = ota_image s"
proof -
  obtain q where q: "spi_partition p q PAR_OPT_WRITE_MASK" "unat (partition_start_addr q) = param_start p"
    "unat (partition_length q) = 4096" using param_partition [OF assms(2), of 2] by auto
  have "(param_start p + unat n - 1) div 4096 = param_start p div 4096"
    using assms(2-4) by (auto simp: param_start_def intro!: div_nat_eqI)
  then show ?thesis
    using part_erase [OF q(1) assms(1,3), of 0] assms(2,4,5) unfolding q(2,3)
    by (intro ota_image_cong) (auto simp: erase_def param_start_def)
qed

lemma ota_write_frame:
  assumes "sys_ready s" and "p \<in> {MICO_PARTITION_PARAMETER_1, MICO_PARTITION_PARAMETER_2}"
    and "unat n \<le> length b" and "unat off + unat n \<le> 4096" and "MicoFlashWrite env p off b n s = Some (err, off', s')"
  shows "ota_image s' = ota_image s"
proof -
  obtain q where q: "spi_partition p q PAR_OPT_WRITE_MASK" "unat (partition_start_addr q) = param_start p"
    "unat (partition_length q) = 4096" using param_partition [OF assms(2), of 2] by auto
  show ?thesis
  proof (cases "n = 0")
    case True
    then show ?thesis using q(1) assms(5) by (simp add: MicoFlashWrite_def spi_partition_def)
  next
    case False
    then have "0 < unat n" "unat n < 65536" using assms(4) by (simp_all add: unat_gt_0)
    then show ?thesis using part_write [OF q(1) assms(1) _ _ assms(3), of off] assms(2,4,5) unfolding q(2,3)
      by (intro ota_image_cong) (auto simp: program_def param_start_def)
  qed
qed

lemma ota_param_read_frame:
  assumes "sys_ready s" and "p \<in> {MICO_PARTITION_PARAMETER_1, MICO_PARTITION_PARAMETER_2}"
    and "unat off + unat n \<le> 4096" and "MicoFlashRead env p off n s = Some (err, off', ds, s')"
  shows "ota_image s' = ota_image s"
proof -
  obtain q where q: "spi_partition p q PAR_OPT_READ_MASK" "unat (partition_start_addr q) = param_start p"
    "unat (partition_length q) = 4096" using param_partition [OF assms(2), of 1] by auto
  show ?thesis
  proof (cases "n = 0")
    case True
    then show ?thesis using q(1) assms(4) by (simp add: MicoFlashRead_def spi_partition_def)
  next
    case False
    then show ?thesis using part_read [OF q(1) assms(1), of n off] assms(3,4) unfolding q(2,3)
      by (intro ota_image_cong) (auto simp: unat_gt_0)
  qed
qed

lemma ota_read_image:
  assumes "sys_ready s" and "unat off + unat n \<le> 0x70000"
  shows "\<exists>s'. MicoFlashRead env MICO_PARTITION_OTA_TEMP off n s =
      Some (kNoErr, off + n, slice (ota_image s) (unat off) (unat n), s') \<and>
    sys_ready s' \<and> param_content s' = param_content s \<and> ota_image s' = ota_image s"
proof -
  obtain q where q: "spi_partition MICO_PARTITION_OTA_TEMP q PAR_OPT_READ_MASK"
    "unat (partition_start_addr q) = 0x40000" "unat (partition_length q) = 0x70000"
    by (simp add: spi_partition_def partition_at_def mico_partitions_def)
  show ?thesis
  proof (cases "n = 0")
    case True
    then show ?thesis using q(1) assms(1) by (simp add: MicoFlashRead_def spi_partition_def slice_def)
  next
    case False
    then obtain s' where e: "MicoFlashRead env MICO_PARTITION_OTA_TEMP off n s =
        Some (kNoErr, off + n, mread (spi_cells s) (0x40000 + unat off) (unat n), s')" "sys_ready s'" "spi_cells s' = spi_cells s"
      using part_read [OF q(1) assms(1), of n off] assms(2) unfolding q(2,3) by (auto simp: unat_gt_0)
    have "param_content s' = param_content s" by (rule ext) (simp add: param_content_def e(3))
    then show ?thesis using e assms(2) by (simp add: ota_image_def slice_mread)
  qed
qed

end

text \<open>The serial flash is such a store.\<close>

sublocale mico_spi \<subseteq> fota: image_store "mico_flash_ops env" sys_ready param_content
  "{MICO_PARTITION_PARAMETER_1, MICO_PARTITION_PARAMETER_2}" ota_image
proof
  show "length (ota_image s) = 0x70000" for s by (simp add: ota_image_def)
qed (simp_all add: mico_flash_ops_def ota_erase_frame ota_write_frame ota_param_read_frame ota_read_image del: insert_iff)

section \<open>The notifications of the update\<close>

definition fota_up :: "int list \<Rightarrow> bool \<Rightarrow> bool" where
  "fota_up es b = foldl FOTA_WifiStatusHandler b es"

text \<open>The lists hold exactly the handler of the update for status changes.\<close>

definition only_handler :: "'f \<Rightarrow> ('f, 'a, bool) notify_sys \<Rightarrow> bool" where
  "only_handler h n \<longleftrightarrow> (\<exists>T x. represents n T \<and> T mico_notify_WIFI_STATUS_CHANGED = [(h, x)])"

lemma represents_world: "represents (n\<lparr>world := b\<rparr>) T \<longleftrightarrow> represents n T"
proof -
  have "table_of (n\<lparr>world := b\<rparr>) L = table_of n L" for L by (simp add: fun_eq_iff table_of_def)
  then show ?thesis by (simp add: represents_def lists_ok_def)
qed

lemma only_handler_world [simp]: "only_handler h (n\<lparr>world := b\<rparr>) \<longleftrightarrow> only_handler h n"
  by (simp add: only_handler_def represents_world)

lemma wifi_events_run:
  "only_handler h n \<Longrightarrow> wifi_events h es n = Some (n\<lparr>world := fota_up es (world n)\<rparr>)"
proof (induction es arbitrary: n)
  case (Cons e es)
  obtain T x where T: "represents n T" "T mico_notify_WIFI_STATUS_CHANGED = [(h, x)]"
    using Cons.prems by (auto simp: only_handler_def)
  have "WifiStatusHandler (fota_callback h :: ('a, unit, 'b, bool) callback) e n =
      Some (n\<lparr>world := FOTA_WifiStatusHandler (world n) e\<rparr>)"
    unfolding WifiStatusHandler_def using T
    by (subst notify_table [OF _ T(1)]) (simp_all add: fota_callback_def split: event.splits)
  then show ?case using Cons.IH [of "n\<lparr>world := FOTA_WifiStatusHandler (world n) e\<rparr>"] Cons.prems
    by (simp add: fota_up_def)
qed (simp add: fota_up_def)

lemma wait_wifi_found:
  assumes "only_handler (FOTA_handler E) n" and "i \<le> k" and "k < 100"
    and "fota_up (concat (map (wlan_events E) [i ..< Suc k])) (world n)"
  shows "wait_wifi E i n = Some (True, n\<lparr>world := True\<rparr>)"
  using assms
proof (induction "100 - i" arbitrary: i n)
  case (Suc d)
  show ?case
  proof (cases "world n")
    case True
    then show ?thesis by (subst wait_wifi.simps) simp
  next
    case False
    have u: "[i ..< Suc k] = i # [Suc i ..< Suc k]" using Suc.prems(2) by (subst upt_conv_Cons) auto
    define n1 where "n1 = n\<lparr>world := fota_up (wlan_events E i) (world n)\<rparr>"
    have e: "wifi_events (FOTA_handler E) (wlan_events E i) n = Some n1"
      using wifi_events_run [OF Suc.prems(1)] by (simp add: n1_def)
    have next1: "wait_wifi E (Suc i) n1 = Some (True, n1\<lparr>world := True\<rparr>)"
    proof (cases "world n1")
      case True
      then show ?thesis by (subst wait_wifi.simps) simp
    next
      case False
      have "i \<noteq> k" using False Suc.prems(4) by (auto simp: u n1_def fota_up_def)
      moreover have "fota_up (concat (map (wlan_events E) [Suc i ..< Suc k])) (world n1)"
        using Suc.prems(4) unfolding u by (simp add: n1_def fota_up_def del: upt_Suc)
      moreover have "only_handler (FOTA_handler E) n1" using Suc.prems(1) by (simp add: n1_def)
      ultimately show ?thesis using Suc.hyps(1) [of "Suc i" n1] Suc.hyps(2) Suc.prems(2,3) by linarith
    qed
    then show ?thesis using False e Suc.prems(2,3) by (subst wait_wifi.simps) (simp add: n1_def)
  qed
qed simp

lemma remove_all_represents:
  assumes "represents n T"
  shows "\<exists>n'. mico_system_notify_remove_all t n = Some (kNoErr, n') \<and> represents n' (T(t := [])) \<and> dom (blocks n') \<subseteq> dom (blocks n)"
proof -
  obtain L where L: "lists_ok n L" "T = table_of n L" using assms by (auto simp: represents_def)
  have c: "chain (blocks n) (Notify_list n t) (L t)" "distinct (L t)" using L(1) by (auto simp: lists_ok_def)
  show ?thesis using remove_all_refines [OF L(1), of t True] remove_all_chain [OF c] by (auto simp: L(2))
qed

lemma fota_notifications_run:
  assumes "represents n T" and "\<forall>D. D \<subseteq> dom (blocks n) \<longrightarrow> notify_alloc E D \<noteq> None"
    and "\<forall>D p. notify_alloc E D = Some p \<longrightarrow> p \<notin> D"
  shows "\<exists>n'. fota_notifications E n = Some n' \<and> only_handler (FOTA_handler E) n'"
proof -
  obtain n1 where 1: "mico_system_notify_remove_all mico_notify_WIFI_STATUS_CHANGED n = Some (kNoErr, n1)"
    "represents n1 (T(mico_notify_WIFI_STATUS_CHANGED := []))" "dom (blocks n1) \<subseteq> dom (blocks n)"
    using remove_all_represents [OF assms(1)] by blast
  obtain n2 T2 where 2: "mico_system_notify_remove_all mico_notify_WiFI_PARA_CHANGED n1 = Some (kNoErr, n2)"
    "represents n2 T2" "T2 mico_notify_WIFI_STATUS_CHANGED = []" "dom (blocks n2) \<subseteq> dom (blocks n)"
    using remove_all_represents [OF 1(2), of mico_notify_WiFI_PARA_CHANGED] 1(3) by force
  obtain n3 T3 where 3: "mico_system_notify_remove_all mico_notify_DHCP_COMPLETED n2 = Some (kNoErr, n3)"
    "represents n3 T3" "T3 mico_notify_WIFI_STATUS_CHANGED = []" "dom (blocks n3) \<subseteq> dom (blocks n)"
    using remove_all_represents [OF 2(2), of mico_notify_DHCP_COMPLETED] 2(3,4) by force
  obtain n4 T4 where 4: "mico_system_notify_remove_all mico_notify_WIFI_CONNECT_FAILED n3 = Some (kNoErr, n4)"
    "represents n4 T4" "T4 mico_notify_WIFI_STATUS_CHANGED = []" "dom (blocks n4) \<subseteq> dom (blocks n)"
    using remove_all_represents [OF 3(2), of mico_notify_WIFI_CONNECT_FAILED] 3(3,4) by force
  obtain n5 T5 where 5: "mico_system_notify_remove_all mico_notify_EASYLINK_WPS_COMPLETED n4 = Some (kNoErr, n5)"
    "represents n5 T5" "T5 mico_notify_WIFI_STATUS_CHANGED = []" "dom (blocks n5) \<subseteq> dom (blocks n)"
    using remove_all_represents [OF 4(2), of mico_notify_EASYLINK_WPS_COMPLETED] 4(3,4) by force
  have al: "notify_alloc E D = Some p \<Longrightarrow> p \<notin> D" for D p using assms(3) by blast
  obtain e n6 where "mico_system_notify_register (notify_alloc E) mico_notify_WIFI_STATUS_CHANGED (FOTA_handler E) (null_arg E) n5 =
      Some (e, n6)" "represents n6 (T5(mico_notify_WIFI_STATUS_CHANGED := [(FOTA_handler E, null_arg E)]))"
    using notify_refines [of "notify_alloc E" n5 T5 "Register mico_notify_WIFI_STATUS_CHANGED (FOTA_handler E) (null_arg E)", OF al 5(2)]
      assms(2) 5(3,4) by auto
  then show ?thesis by (auto simp: fota_notifications_def 1(1) 2(1) 3(1) 4(1) 5(1) only_handler_def)
qed

text \<open>Notifications can be registered, the network comes up in time, and there is memory.\<close>

definition fota_prepared :: "('s, 'f, 'a, 'm) fota_env \<Rightarrow> ('f, 'a, bool) notify_sys \<Rightarrow> bool" where
  "fota_prepared E n \<longleftrightarrow> (\<exists>T. represents n T) \<and> (\<forall>D. D \<subseteq> dom (blocks n) \<longrightarrow> notify_alloc E D \<noteq> None) \<and>
     (\<forall>D p. notify_alloc E D = Some p \<longrightarrow> p \<notin> D) \<and>
     (\<exists>k < 100. fota_up (concat (map (wlan_events E) [0 ..< Suc k])) False) \<and>
     (\<exists>b. tmp_block E = Some b \<and> length b = TMP_BUF_LEN)"

text \<open>The calls that are made before the image is loaded.\<close>

definition fota_started :: "('s, 'f, 'a, 'm) fota_env \<Rightarrow> fota_call list" where
  "fota_started E = [StopEasyLink, StopEasyLinkPlus, StopAirkiss, WlanStart (fota_network (wlan_mac E))]"

context image_store begin

lemma tftp_ota_loaded:
  assumes "fota_prepared E (fo_notify s)" and "fota_load E 0x70000 (fo_flash s) = (Some n, t)" and "inv t" and "16 \<le> n" and "n \<le> 0x70000"
    and "\<And>ps. Md5Final E (foldl (Md5Update E) (InitMd5 E) ps) = mdsum (concat ps)"
  shows "\<exists>t' m. inv t' \<and> content t' = content t \<and> otemp t' = otemp t \<and>
    (let s1 = s\<lparr>fo_calls := fo_calls s @ fota_started E, fo_notify := m, fo_flash := t'\<rparr>; k = nat (n - 16) in
     tftp_ota ops L E s =
       (if mdsum (take k (otemp t)) = slice (otemp t) k 16
        then fota_announce ops L 0x40000 (n - 16) (crc_ccitt (take k (otemp t))) s1
        else Some (OTA_MD5_FAIL, s1)))"
proof -
  obtain T buf k where P: "represents (fo_notify s) T" "tmp_block E = Some buf" "length buf = TMP_BUF_LEN" "k < 100"
    "fota_up (concat (map (wlan_events E) [0 ..< Suc k])) False"
    "\<forall>D. D \<subseteq> dom (blocks (fo_notify s)) \<longrightarrow> notify_alloc E D \<noteq> None" "\<forall>D p. notify_alloc E D = Some p \<longrightarrow> p \<notin> D"
    using assms(1) unfolding fota_prepared_def by blast
  obtain m where m: "fota_notifications E (fo_notify s) = Some m" "only_handler (FOTA_handler E) m"
    using fota_notifications_run [OF P(1,6,7)] by blast
  have w: "wait_wifi E 0 (m\<lparr>world := False\<rparr>) = Some (True, m\<lparr>world := True\<rparr>)"
    using wait_wifi_found [of E "m\<lparr>world := False\<rparr>" 0 k] m(2) P(4,5) by (simp del: upt_Suc)
  have r: "0 \<le> n - 16" "nat (n - 16) + 16 \<le> 0x70000" using assms(4,5) by linarith+
  obtain t' where t': "check_image ops E buf (n - 16) t =
      Some (mdsum (take (nat (n - 16)) (otemp t)) = slice (otemp t) (nat (n - 16)) 16, crc_ccitt (take (nat (n - 16)) (otemp t)), t')"
    "inv t'" "content t' = content t" "otemp t' = otemp t"
    using check_image_done [OF assms(3) P(3) r assms(6)] by blast
  have g: "MicoFlashGetInfo MICO_PARTITION_OTA_TEMP = Some (mico_partitions ! nat MICO_PARTITION_OTA_TEMP)" by (rule info_at) simp_all
  have p: "partition_start_addr (mico_partitions ! 3) = 0x40000" "partition_length (mico_partitions ! 3) = 0x70000"
    by (simp_all add: mico_partitions_def)
  show ?thesis
    by (rule exI [of _ t'], rule exI [of _ "m\<lparr>world := True\<rparr>"])
      (simp add: t'(2-4) tftp_ota_def g p m(1) P(2) w assms(2) t'(1) fota_started_def fota_finish_def mico_ota_finished_def Let_def)
qed

end

section \<open>Examples\<close>

text \<open>For the examples: a network that comes up in the second tenth of a second, a server that answers the second
  request, and a library whose digest is the beginning of the message.\<close>

definition first_16 :: "bytes \<Rightarrow> bytes" where
  "first_16 m = take 16 (m @ replicate 16 0)"

definition served_sys :: "bytes \<Rightarrow> (cells, mx25) flash_sys" where
  "served_sys data = board_sys\<lparr>devices := (devices board_sys)\<lparr>chip := (chip (devices board_sys))\<lparr>mx_cells :=
     patch (\<lambda>x. 0xFF) 0x40000 data\<rparr>\<rparr>\<rparr>"

definition sample_fota :: "bytes \<Rightarrow> ((cells, mx25) flash_sys, nat, nat, bytes) fota_env" where
  "sample_fota data = \<lparr>FOTA_handler = 9, null_arg = 0, notify_alloc = two_blocks, tmp_block = Some (replicate 1024 0),
     wlan_mac = [0xC8, 0x93, 0x46, 1, 2, 3], inet_addr = (\<lambda>t. 0x0A000002), wlan_events = (\<lambda>i. if i = 1 then [2, 1] else []),
     tget = (\<lambda>info ip k s. if k = 0 then (- 1, s) else (int (length data), served_sys data)), InitMd5 = [], Md5Update = (@),
     Md5Final = first_16\<rparr>"

definition idle_sys :: "((cells, mx25) flash_sys, nat, nat) fota_sys" where
  "idle_sys = \<lparr>fo_flash = board_sys, fo_context = Some saved_context, fo_seed = 0,
     fo_notify = \<lparr>Notify_list = (\<lambda>t. None), blocks = (\<lambda>p. None), world = False\<rparr>, fo_calls = []\<rparr>"

lemma sample_fota_facts:
  "fota_prepared (sample_fota data) (fo_notify idle_sys)"
  "fota_load (sample_fota data) 0x70000 (fo_flash idle_sys) = (Some (int (length data)), served_sys data)"
  "board.sys_ready (served_sys data)"
  "\<forall>ps. Md5Final (sample_fota data) (foldl (Md5Update (sample_fota data)) (InitMd5 (sample_fota data)) ps) = first_16 (concat ps)"
proof -
  have r: "represents (fo_notify idle_sys) (\<lambda>t. [])"
    unfolding represents_def by (rule exI [of _ "\<lambda>t. []"]) (simp add: lists_ok_def table_of_def idle_sys_def fun_eq_iff)
  have "fota_up (concat (map (wlan_events (sample_fota data)) [0 ..< Suc 1])) False"
    by (simp add: sample_fota_def fota_up_def FOTA_WifiStatusHandler_def)
  then show "fota_prepared (sample_fota data) (fo_notify idle_sys)"
    unfolding fota_prepared_def
    by (intro conjI exI [of _ "\<lambda>t. []"] exI [of _ 1])
      (use r in \<open>simp_all add: sample_fota_def idle_sys_def two_blocks_def\<close>)
  show "fota_load (sample_fota data) 0x70000 (fo_flash idle_sys) = (Some (int (length data)), served_sys data)"
    by (simp add: fota_load_def sample_fota_def eval_nat_numeral)
  show "board.sys_ready (served_sys data)"
    using board_sys_ready by (simp add: board.sys_ready_def mx25.ready_def served_sys_def)
  have "foldl (@) xs ps = xs @ concat ps" for xs :: bytes and ps by (induction ps arbitrary: xs) simp_all
  then show "\<forall>ps. Md5Final (sample_fota data) (foldl (Md5Update (sample_fota data)) (InitMd5 (sample_fota data)) ps) =
      first_16 (concat ps)" by (simp add: sample_fota_def)
qed

lemma served_image:
  assumes "length data \<le> 0x70000"
  shows "board.ota_image (served_sys data) = data @ drop (length data) (board.ota_image (served_sys data))"
proof -
  have "take (length data) (board.ota_image (served_sys data)) = mread (patch (\<lambda>x. 0xFF) 0x40000 data) 0x40000 (length data)"
    using slice_mread [of 0 "length data" "0x70000" "patch (\<lambda>x. 0xFF) 0x40000 data" "0x40000"] assms
    by (simp add: board.ota_image_def board.spi_cells_def served_sys_def slice_def)
  also have "\<dots> = data" by (rule nth_equalityI) (simp_all add: mread_nth patch_def)
  finally show ?thesis by (metis append_take_drop_id)
qed

section \<open>Properties\<close>

text \<open>
  C5. A forced update with an intact image: when the network comes up within ten seconds and one of six attempts loads an
  image followed by its MD5, \<open>tftp_ota\<close> leaves the image in \<open>OTA_TEMP\<close> and saves a boot table that announces it for the
  application's partition, with its length and the CRC that the boot loader computes, and then resets the device - provided
  the CRC of the configuration is not the value 0, which the code takes for a missing CRC.
\<close>

theorem tftp_update_announced:
  assumes "image_store ops ok content parts otemp" and "{MICO_PARTITION_PARAMETER_1, MICO_PARTITION_PARAMETER_2} \<subseteq> parts"
    and "fota_prepared E (fo_notify s)" and "fota_load E 0x70000 (fo_flash s) = (Some (int (length img) + 16), t)" and "ok t"
    and "otemp t = img @ mdsum img @ r" and "length (mdsum img) = 16"
    and "\<forall>ps. Md5Final E (foldl (Md5Update E) (InitMd5 E) ps) = mdsum (concat ps)"
    and "fo_context s = Some ctx" and "length (flashContentInRam ctx) = flash_content_size L"
    and "flash_content_size L \<le> 0x400" and "length (user_config_data ctx) \<le> 0xA00" and "o_seed L + 4 \<le> SYS_CONFIG_SIZE L"
    and "config_crc (sys_config L (set_field (o_seed L) (le32 (fo_seed s + 1)) ctx)) (user_config_data ctx) \<noteq> 0"
  shows "\<exists>s'. tftp_ota ops L E s = Some (OTA_SUCCESS, s') \<and> otemp (fo_flash s') = img @ mdsum img @ r \<and>
    (let table = take 24 (content (fo_flash s') MICO_PARTITION_PARAMETER_1) in
      announces table MICO_PARTITION_APPLICATION \<and> image_length table = of_nat (length img) \<and>
      image_crc table = crc_ccitt img) \<and>
    fo_calls s' = fo_calls s @ fota_started E @ [MicoSystemReboot]"
proof -
  have il: "length img + 16 + length r = 0x70000"
    using image_store.otemp_length [OF assms(1), of t] by (simp add: assms(6,7))
  obtain t' m where t': "ok t'" "otemp t' = otemp t" and u: "tftp_ota ops L E s = fota_announce ops L 0x40000 (int (length img))
      (crc_ccitt img) (s\<lparr>fo_calls := fo_calls s @ fota_started E, fo_notify := m, fo_flash := t'\<rparr>)"
    using image_store.tftp_ota_loaded [OF assms(1,3,4,5), of mdsum L] il assms(7,8) by (auto simp: assms(6) slice_def Let_def)
  let ?T = "fota_boot_table 0x40000 (int (length img)) (crc_ccitt img)"
  have f: "slice ?T 0 4 = le32 0x40000" "slice ?T 4 4 = le32 (of_nat (length img))" "slice ?T 18 2 = le16 (crc_ccitt img)"
    "?T ! 16 = ch CHR ''A''" "?T ! 17 = ch CHR ''U''" "length ?T = 24"
    by (simp_all add: fota_boot_table_def slice_def nth_append)
  have a: "announces ?T MICO_PARTITION_APPLICATION \<and> image_length ?T = of_nat (length img) \<and> image_crc ?T = crc_ccitt img"
    using il by (simp add: announces_def upgrade_type_def start_address_def image_type_def image_length_def image_crc_def f
        mico_partitions_def word_le_nat_alt unat_of_nat)
  show ?thesis
    using image_store.announce_done [OF assms(1) _ assms(2) _ assms(10-13),
        of "s\<lparr>fo_calls := fo_calls s @ fota_started E, fo_notify := m, fo_flash := t'\<rparr>" "0x40000" "int (length img)" "crc_ccitt img"]
      t' a assms(6,9,14) by (auto simp: u Let_def)
qed

theorem tftp_update_announced_witness:
  "\<exists>s'. tftp_ota (mico_flash_ops board_env) small_layout (sample_fota (str ''image'' @ first_16 (str ''image''))) idle_sys =
      Some (OTA_SUCCESS, s') \<and>
    (let table = take 24 (board.param_content (fo_flash s') MICO_PARTITION_PARAMETER_1) in
      announces table MICO_PARTITION_APPLICATION \<and> image_length table = 5)"
proof -
  let ?d = "str ''image'' @ first_16 (str ''image'')" and ?m = "str ''image''"
  let ?c1 = "set_field (o_seed small_layout) (le32 (fo_seed idle_sys + 1)) saved_context"
  have ld: "length ?d = 21" "length (first_16 ?m) = 16" "length ?m = 5" by (simp_all add: first_16_def)
  have sys: "sys_config small_layout ?c1 = [0x65, 0x21, 0x3E, 0xA4, 1, 0, 0, 0, 1, 0, 0, 0]"
    by (simp add: sys_config_def set_field_def saved_context_def small_layout_def overwrite_def le32_def slice_def idle_sys_def)
  have crc: "crc_ccitt ([0x65, 0x21, 0x3E, 0xA4, 1, 0, 0, 0, 1, 0, 0, 0] @ [7]) \<noteq> 0" by code_simp
  have user: "user_config_data saved_context = [7]" by (simp add: saved_context_def)
  have c: "config_crc (sys_config small_layout ?c1) (user_config_data saved_context) \<noteq> 0"
    using crc by (simp only: sys user config_crc_ccitt not_False_eq_True)
  have L: "fo_context idle_sys = Some saved_context"
    "length (flashContentInRam saved_context) = flash_content_size small_layout" "flash_content_size small_layout \<le> 0x400"
    "length (user_config_data saved_context) \<le> 0xA00" "o_seed small_layout + 4 \<le> SYS_CONFIG_SIZE small_layout"
    by (simp_all add: flash_content_size_def small_layout_def saved_context_def idle_sys_def)
  note F = sample_fota_facts [of ?d]
  have im: "board.ota_image (served_sys ?d) = ?m @ first_16 ?m @ drop 21 (board.ota_image (served_sys ?d))"
    using served_image [of ?d] unfolding ld(1) by (simp only: append_assoc)
  have ld2: "fota_load (sample_fota ?d) 0x70000 (fo_flash idle_sys) = (Some (int (length ?m) + 16), served_sys ?d)"
    using F(2) unfolding ld(1,3) by simp
  show ?thesis
    using tftp_update_announced [OF board.fota.image_store_axioms subset_refl F(1) ld2 F(3) im ld(2) F(4) L c] unfolding ld(3)
    by (auto simp: Let_def)
qed

text \<open>
  C10. A damaged image changes nothing: when the 16 bytes behind the loaded image are not its MD5, \<open>tftp_ota\<close> ends with
  \<open>OTA_MD5_FAIL\<close>, the flash holds what the server's data left, no image is announced and the device is not reset.
\<close>

theorem tftp_damaged_not_announced:
  assumes "image_store ops ok content parts otemp" and "fota_prepared E (fo_notify s)" and "fota_load E 0x70000 (fo_flash s) = (Some n, t)"
    and "ok t" and "16 \<le> n" and "n \<le> 0x70000"
    and "\<forall>ps. Md5Final E (foldl (Md5Update E) (InitMd5 E) ps) = mdsum (concat ps)"
    and "mdsum (take (nat (n - 16)) (otemp t)) \<noteq> slice (otemp t) (nat (n - 16)) 16"
  shows "\<exists>s'. tftp_ota ops L E s = Some (OTA_MD5_FAIL, s') \<and> content (fo_flash s') = content t \<and>
    otemp (fo_flash s') = otemp t \<and> fo_context s' = fo_context s \<and> fo_calls s' = fo_calls s @ fota_started E"
  using image_store.tftp_ota_loaded [OF assms(1-6), of mdsum L] assms(7,8) by (fastforce simp: Let_def)

theorem tftp_damaged_not_announced_witness:
  "\<exists>s'. tftp_ota (mico_flash_ops board_env) small_layout (sample_fota (str ''image'' @ replicate 16 0)) idle_sys =
      Some (OTA_MD5_FAIL, s') \<and> board.param_content (fo_flash s') = board.param_content (served_sys (str ''image'' @ replicate 16 0))"
proof -
  let ?d = "str ''image'' @ replicate 16 (0 :: u8)" and ?m = "str ''image''"
  note F = sample_fota_facts [of ?d]
  have l: "length ?d = 21" "int (length ?d) = 21" by simp_all
  have im: "board.ota_image (served_sys ?d) = ?m @ replicate 16 0 @ drop 21 (board.ota_image (served_sys ?d))"
    using served_image [of ?d] unfolding l(1) by (simp only: append_assoc)
  have ld: "fota_load (sample_fota ?d) 0x70000 (fo_flash idle_sys) = (Some 21, served_sys ?d)" using F(2) by (simp only: l(2))
  have neq: "first_16 (take (nat (21 - 16)) (board.ota_image (served_sys ?d))) \<noteq> slice (board.ota_image (served_sys ?d)) (nat (21 - 16)) 16"
    by (subst (1 2) im) (simp add: first_16_def slice_def Cons_replicate_eq)
  show ?thesis
    using tftp_damaged_not_announced [where mdsum = first_16 and n = 21 and E = "sample_fota ?d" and s = idle_sys and
        t = "served_sys ?d", OF board.fota.image_store_axioms F(1) ld F(3) _ _ F(4) neq, of small_layout] by auto
qed

end
