(* ===== verification/Spec2Isabelle.thy ===== *)
theory Spec2Isabelle
  imports CheckSum UartReceive StringCmp HTTPTransfer BootLoader Notification SystemMonitor MdnsTable ConsoleSession Sha1 Sha512 Sha3 AesModes PowerDaemon TftpUpdate
begin

text \<open>
  A model of the MiCO firmware for embedded Wi-Fi modules (C, for STM32F4 boards), as the board
  \<open>MiCOKit-3165\<close> builds it: the portable utilities, the flash stack with the configuration store, the
  boot loader with its two ways of installing an image, and the services of the system layer that have state
  of their own: notifications, the watchdog's monitors, multicast DNS and the command console.

  Parts and how they interact. A device keeps its firmware, an image for an update and two copies of
  its configuration in partitions of an internal and of a serial flash. The application saves the
  configuration through the partitions (\<open>mico_system_para_storage.c\<close>), loads an image over the network
  (the HTTP code parses the messages) and announces it in a boot table; after a reset the boot loader
  copies the announced image to its partition (\<open>Update_for_OTA.c\<close>), or receives one over the serial
  line (\<open>ymodem.c\<close>). All of them use the partitions of \<open>mico_platform_common.c\<close>, those the two drivers
  \<open>platform_flash.c\<close> and \<open>spi_flash.c\<close>, and these the hardware. Bytes from the serial line reach the
  program through the ring buffer that the receive interrupt fills. After a reset the boot loader runs first,
  looks for an announced image or an operator at its menu, and starts the application.

  Theories, in the order of the imports:
  \<^item> \<open>Prelude\<close>: machine integers, byte buffers with checked access, C strings, status codes.
  \<^item> \<open>CheckSum\<close>: \<open>CheckSumUtils.c\<close>, CRC-8 by table and CRC-16 bit by bit; both equal their textbook
    definitions, and the CRC-16 detects every change of one byte.
  \<^item> \<open>RingBuffer\<close>: \<open>RingBufferUtils.c\<close> as a record with the fields of \<open>ring_buffer_t\<close>, with the
    invariant \<open>rb_inv\<close>; the operations refine a queue of bytes, stated as the locales of a byte queue
    and its reader. \<open>UartReceive\<close>: the receive interrupt and \<open>platform_uart_receive_bytes\<close> over it, the reader
    as a machine (\<open>uart_reader\<close>) with one step per access of the driver, between any two of which bytes arrive; the lemmas
    \<open>full_ring_empties\<close> and \<open>wakeup_missed\<close> show what a full ring and a byte between check and wait do.
  \<^item> \<open>StringConv\<close> and \<open>StringCmp\<close>: \<open>StringUtils.c\<close>, numbers, hardware addresses, comparisons, searches
    and TLV items. \<open>Scanf\<close>: its formatted reader \<open>VSNScanF\<close>. \<open>URLParse\<close>: \<open>URLUtils.c\<close>. \<open>HTTPParse\<close> and
    \<open>HTTPBuild\<close>: the parser and the builders of \<open>HTTPUtils.c\<close>.
  \<^item> \<open>FlashMem\<close>: what NOR flash is, cells with \<open>program\<close> (clears bits) and \<open>erase\<close>. \<open>SpiFlash\<close>: the driver
    \<open>spi_flash.c\<close> over a bus, against the locale \<open>spi_nor\<close> (the commands of the chip's data sheet).
    \<open>McuFlash\<close>: \<open>platform_flash.c\<close> over the vendor's library, the locales \<open>mcu_nor\<close> and \<open>mcu_erase\<close>.
    \<open>MicoFlash\<close>: the partition tables of the board and the operations on them; its locale
    \<open>mico_spi\<close> gives the interface \<open>param_store\<close>.
  \<^item> \<open>ParaStorage\<close>: the configuration store over \<open>param_store\<close>, and a save cut after any of its
    flash operations (\<open>traced_ops\<close>). \<open>OTAUpdate\<close>: the update over
    \<open>isolated_store\<close> (nothing has to succeed) and \<open>healthy_store\<close>. \<open>Ymodem\<close>: both directions of the
    protocol over the locales \<open>ym_store\<close> and \<open>ym_source\<close>.
  \<^item> \<open>HTTPReceive\<close>: \<open>SocketReadHTTPHeader\<close>, \<open>SocketReadHTTPBody\<close> and the chunked transfer of
    \<open>HTTPUtils.c\<close> over a socket that delivers its bytes in pieces. \<open>HTTPTransfer\<close>: what a receiver gets of
    a response that was built and sent, and of a chunked body.
  \<^item> \<open>Notification\<close>: \<open>mico_system_notification.c\<close>, linked lists of callbacks in an explicit heap, refining
    a table. \<open>SystemMonitor\<close>: \<open>mico_system_monitor.c\<close>, where the thread, the timer and the calls of
    other threads are interleaved steps.
  \<^item> \<open>PowerDaemon\<close>: \<open>mico_system_power_daemon.c\<close>, buttons and requests for another state, and the thread that saves
    the configuration, tells the application and calls the kernel. \<open>TftpUpdate\<close>: \<open>tftp_ota.c\<close>, which joins a
    network, loads an image, checks its MD5 and announces it in the saved boot table, over the locale \<open>image_store\<close>.
  \<^item> \<open>DnsMessage\<close>, \<open>Mdns\<close>, \<open>MdnsTable\<close>: \<open>mico_mdns.c\<close>, names and records in messages, the table of records with
    the answers, and the two threads that announce changed records interleaved with the calls, where
    the calls that search before they lock are two steps.
  \<^item> \<open>BootMenu\<close>: the menu of the boot loader, \<open>menu.c\<close> with the line editor and the search for an
    option. \<open>BootLoader\<close>: \<open>main\<close> of the boot loader over the update and the menu, with the locale
    \<open>boot_line\<close> of a serial line that delivers what the operator types.
  \<^item> \<open>CommandConsole\<close>: \<open>mico_cli.c\<close>, the table of commands and the input line. \<open>ConsoleSession\<close>: the locale
    \<open>command_registry\<close> of a registry that refines a list, and what a typed line calls.
  \<^item> \<open>HashStream\<close>, \<open>HashBlocks\<close>, \<open>Sha1\<close>, \<open>Sha512\<close>, \<open>Sha3\<close>: \<open>SHAUtils.c\<close>, three hash functions, each an
    instance of the locale \<open>streaming_hash\<close>: a context holds the message that was fed to it in pieces.
    The compressions equal the definitions of FIPS 180-4 and of the Keccak reference.
  \<^item> \<open>Aes128\<close>, \<open>AesModes\<close>: \<open>AESUtils.c\<close>, counter mode, frames and single blocks over the locale
    \<open>aes_library\<close> of the library that the device links; AES of FIPS 197 is its instance.

  Every interface has an instance: the ring buffer is the byte queue, the chip model \<open>mx25\<close> honours
  \<open>spi_nor\<close>, the model \<open>stm32_hw\<close> of the vendor's library honours \<open>mcu_nor\<close>, and the partitions and the
  driver over the chip are the stores that the configuration store, the update and YMODEM rely on. The
  two hardware models and the board states serve only the instances and the witnesses; the theorems
  hold for all hardware with the laws of the locales.

  Correspondence. Functions keep their C names; a suffix such as \<open>_loop\<close> or \<open>_step\<close> marks one loop or one
  round of a function. A pointer with a length is a list of bytes, a pointer into a buffer an offset;
  fixed-width integers are words of their width. A result of type \<open>option\<close> is \<open>None\<close> when the C code leaves
  a buffer, divides by zero, uses a null pointer or does not end; \<open>Ymodem\<close> distinguishes \<open>Faulty\<close> from
  \<open>Waiting\<close> for more input. Error codes are the integers of \<open>Common.h\<close>. \<open>malloc\<close> is a parameter, as are
  the hardware, the vendor's libraries and the real-time kernel.

  Lemmas. Of each component there are lemmas for the single operations on all branches, an invariant with
  its preservation where there is state, and the properties named C1, C2 and so on: round trips (numbers, hardware
  addresses, TLV items, URLs, HTTP responses, the configuration over a reboot, a file over YMODEM), refinement
  (ring buffer and serial flash), equivalence with a reference definition (the checksums), isolation of the
  partitions under every sequence of requests, safety when a flash operation fails or power is lost between
  two of them, and progress of the update. The hash functions equal their standards however
  a message is cut into pieces, the lists of callbacks and the table of commands refine abstract tables, and the threads
  of the monitor, of multicast DNS and of the serial line keep their invariants in every interleaving. Several properties state what the code does where it differs from its
  intention; they are named in the findings of the manifest.

  Recursion and bounds. Loops are structural recursions or have a measure. The two loops that need not end
  (the chunk loop of the ring buffer, polling a chip that stays busy) are partial functions; that they end
  under the laws of their locale is proved. The only counters are those of the code. Writes to the serial flash
  are modelled for all lengths, and the laws hold below 64 KiB, beyond which the driver can lose data. Signed
  overflow of the status code of a response is \<open>None\<close>.

  Not modelled. Wireless firmware and network stack (binary libraries and a data array); the real-time kernel;
  vendor peripheral libraries, USB host, FatFs, sensor and display drivers; the cryptographic libraries
  (third-party); the other ports (STM32F2, ATSAMG55); demos. Threads are interleaved where the code shares
  state between them: the receive interrupt with the single steps of the reader of the serial line, the monitor's thread and timer
  with the calls, the announcing threads of multicast DNS with the calls. The services that only pass
  settings between the network stack and the configuration store (EasyLink, configuration server,
  HTTP daemon) consist of calls of the stack and of the JSON library, which are not part of
  the sources, and are left out.
\<close>

end
